(* ===== verification/Prelude.thy ===== *)
theory Prelude
  imports Complex_Main "HOL-Library.AList" "HOL-Library.Multiset"
    "HOL-Library.Char_ord" "HOL-Library.List_Lexorder"
begin

text \<open>
  What every component shares: error results and their sequencing, Go maps as
  association lists with their additive updates, the contract of Go's
  \<open>sort.Slice\<close> as a locale with an executable instance, and points in time as
  nanoseconds.
\<close>

section \<open>Collections of hints\<close>

named_theorems result_simps \<open>unfolding of error results\<close>
named_theorems gomap_simps \<open>reads after writes of Go maps\<close>

section \<open>Fallible results\<close>

text \<open>A Go function returning \<open>(T, error)\<close> is a sum: \<open>Inl\<close> the error, \<open>Inr\<close> the value.\<close>

fun bind_res :: "'e + 'a \<Rightarrow> ('a \<Rightarrow> 'e + 'b) \<Rightarrow> 'e + 'b" where
  "bind_res (Inl e) f = Inl e"
| "bind_res (Inr a) f = f a"

text \<open>A loop that builds a slice and returns at the first error.\<close>

fun traverse :: "('a \<Rightarrow> 'e + 'b) \<Rightarrow> 'a list \<Rightarrow> 'e + 'b list" where
  "traverse f [] = Inr []"
| "traverse f (x # xs) =
     (case f x of Inl e \<Rightarrow> Inl e
      | Inr y \<Rightarrow> (case traverse f xs of Inl e \<Rightarrow> Inl e | Inr ys \<Rightarrow> Inr (y # ys)))"

lemma bind_res_Inr_iff [result_simps]:
  "bind_res r f = Inr b \<longleftrightarrow> (\<exists>a. r = Inr a \<and> f a = Inr b)"
  by (cases r) auto

lemma traverse_Inr_iff [result_simps]:
  "traverse f xs = Inr ys \<longleftrightarrow> list_all2 (\<lambda>x y. f x = Inr y) xs ys"
proof (induction xs arbitrary: ys)
  case Nil
  then show ?case by auto
next
  case (Cons x xs)
  show ?case
  proof (cases "traverse f xs")
    case (Inl e)
    then show ?thesis using Cons.IH by (auto simp: list_all2_Cons1 split: sum.splits)
  next
    case (Inr zs)
    have "list_all2 (\<lambda>x y. f x = Inr y) xs ws \<longleftrightarrow> ws = zs" for ws
      using Cons.IH[of ws] Inr by auto
    then show ?thesis using Inr by (auto simp: list_all2_Cons1 split: sum.splits)
  qed
qed

text \<open>The error of a failed loop is the error of the first element that fails.\<close>

lemma traverse_Inl_first:
  "traverse f xs = Inl e \<Longrightarrow>
     \<exists>pre x post. xs = pre @ x # post \<and> (\<forall>y\<in>set pre. \<not> isl (f y)) \<and> f x = Inl e"
proof (induction xs)
  case Nil
  then show ?case by simp
next
  case (Cons x xs)
  show ?case
  proof (cases "f x")
    case (Inl e')
    then have "e' = e" using Cons.prems by simp
    then show ?thesis using Inl by (intro exI[of _ "[]"] exI[of _ x] exI[of _ xs]) simp
  next
    case (Inr y)
    then have "traverse f xs = Inl e" using Cons.prems by (simp split: sum.splits)
    then obtain pre z post where
      "xs = pre @ z # post" "\<forall>y\<in>set pre. \<not> isl (f y)" "f z = Inl e"
      using Cons.IH by blast
    then show ?thesis using Inr
      by (intro exI[of _ "x # pre"] exI[of _ z] exI[of _ post]) simp
  qed
qed

lemma traverse_total: "(\<And>x. x \<in> set xs \<Longrightarrow> f x = Inr (g x)) \<Longrightarrow> traverse f xs = Inr (map g xs)"
  by (induction xs) auto

lemma find_append:
  "find P (xs @ ys) = (case find P xs of None \<Rightarrow> find P ys | Some x \<Rightarrow> Some x)"
  by (induction xs) auto

lemma find_in_set: "find P xs = Some x \<Longrightarrow> x \<in> set xs \<and> P x"
  by (auto simp: find_Some_iff)

section \<open>Go maps\<close>

text \<open>
  A Go map is an association list: \<open>map_of\<close> reads it, \<^term>\<open>AList.update\<close> writes it. Its
  order stands for one iteration order of \<open>range\<close>; what is proved does not
  depend on it, either because the code sorts afterwards or because it sums.
\<close>

definition get_or :: "'v \<Rightarrow> ('k \<times> 'v) list \<Rightarrow> 'k \<Rightarrow> 'v" where
  "get_or d m k = (case map_of m k of None \<Rightarrow> d | Some v \<Rightarrow> v)"

text \<open>\<open>m[k] += v\<close>, with the zero value for an absent key.\<close>

definition add_at :: "'k \<Rightarrow> 'v::monoid_add \<Rightarrow> ('k \<times> 'v) list \<Rightarrow> ('k \<times> 'v) list" where
  "add_at k v m = AList.update k (get_or 0 m k + v) m"

definition sum_where :: "('k \<Rightarrow> bool) \<Rightarrow> ('k \<times> 'v::comm_monoid_add) list \<Rightarrow> 'v" where
  "sum_where P m = sum_list (map snd (filter (\<lambda>kv. P (fst kv)) m))"

lemma map_of_add_at [gomap_simps]:
  "map_of (add_at k v m) = (map_of m)(k \<mapsto> get_or 0 m k + v)"
  by (simp add: add_at_def update_conv')

lemma get_or_add_at [gomap_simps]:
  "get_or 0 (add_at k v m) k' = (if k' = k then get_or 0 m k + v else get_or 0 m k')"
  by (simp add: get_or_def map_of_add_at)

lemma keys_add_at [simp]: "fst ` set (add_at k v m) = insert k (fst ` set m)"
  by (simp add: add_at_def dom_update)

lemma distinct_add_at [simp]:
  "distinct (map fst m) \<Longrightarrow> distinct (map fst (add_at k v m))"
  by (simp add: add_at_def distinct_update)

lemma sum_where_simps [simp]:
  "sum_where P [] = 0"
  "sum_where P (kv # m) = (if P (fst kv) then snd kv else 0) + sum_where P m"
  by (simp_all add: sum_where_def)

lemma sum_where_add_at [gomap_simps]:
  "sum_where P (add_at k v m) = sum_where P m + (if P k then v else (0::'v::ab_group_add))"
  by (induction m) (auto simp: add_at_def get_or_def algebra_simps)

lemma sum_where_nonneg:
  "(\<And>k v. (k, v) \<in> set m \<Longrightarrow> 0 \<le> v) \<Longrightarrow> 0 \<le> sum_where P (m :: ('k \<times> real) list)"
proof (induction m)
  case Nil
  then show ?case by simp
next
  case (Cons kv m)
  then have "0 \<le> snd kv" by (cases kv) auto
  moreover have "0 \<le> sum_where P m" using Cons by auto
  ultimately show ?case by simp
qed

lemma sum_where_mono:
  assumes "\<And>k v. (k, v) \<in> set m \<Longrightarrow> 0 \<le> v" and "\<And>k. P k \<Longrightarrow> Q k"
  shows "sum_where P (m :: ('k \<times> real) list) \<le> sum_where Q m"
  using assms(1)
proof (induction m)
  case Nil
  then show ?case by simp
next
  case (Cons kv m)
  obtain k v where kv: "kv = (k, v)" by (cases kv)
  have "sum_where P m \<le> sum_where Q m" using Cons by auto
  moreover have "0 \<le> v" using Cons.prems kv by auto
  ultimately show ?case using assms(2)[of k] kv by auto
qed

lemma sum_where_disj:
  assumes "\<And>k. \<not> (P k \<and> Q k)"
  shows "sum_where (\<lambda>k. P k \<or> Q k) (m :: ('k \<times> 'v::comm_monoid_add) list)
    = sum_where P m + sum_where Q m"
  using assms by (induction m) (auto simp: ac_simps)

lemma add_at_nonneg:
  assumes "\<And>k v. (k, v) \<in> set m \<Longrightarrow> 0 \<le> v" and "0 \<le> (v::real)"
  shows "(k', v') \<in> set (add_at k v m) \<Longrightarrow> 0 \<le> v'"
  using assms(1)
proof (induction m)
  case Nil
  then show ?case using assms(2) by (auto simp: add_at_def get_or_def)
next
  case (Cons kv m)
  then show ?case using assms(2)
    by (cases kv) (fastforce simp: add_at_def get_or_def split: if_splits)
qed

text \<open>The sum of a measure over the values of a map, and how one write changes it.\<close>

definition sum_vals :: "('v \<Rightarrow> int) \<Rightarrow> ('k \<times> 'v) list \<Rightarrow> int" where
  "sum_vals f m = sum_list (map (\<lambda>kv. f (snd kv)) m)"

lemma sum_vals_simps [simp]:
  "sum_vals f [] = 0" "sum_vals f (kv # m) = f (snd kv) + sum_vals f m"
  by (simp_all add: sum_vals_def)

lemma sum_vals_update [gomap_simps]:
  "sum_vals f (AList.update k v m)
     = sum_vals f m + f v - (case map_of m k of None \<Rightarrow> 0 | Some u \<Rightarrow> f u)"
  by (induction m) auto

lemma set_update_subset: "set (AList.update k v m) \<subseteq> insert (k, v) (set m)"
  by (induction m) auto

lemma map_of_in_set: "map_of m k = Some v \<Longrightarrow> (k, v) \<in> set m"
  by (rule map_of_SomeD)

section \<open>\<open>sort.Slice\<close>\<close>

text \<open>
  What a caller of \<open>sort.Slice\<close> may rely on: the result is a rearrangement, and no
  element stands after one it is less than. Nothing about the order of elements
  neither of which is less than the other: the library's sort is not stable.
\<close>

locale slice_sort =
  fixes lt :: "'a \<Rightarrow> 'a \<Rightarrow> bool"
    and srt :: "'a list \<Rightarrow> 'a list"
  assumes mset_srt: "mset (srt xs) = mset xs"
    and ordered_srt: "sorted_wrt (\<lambda>x y. \<not> lt y x) (srt xs)"
begin

lemma set_srt: "set (srt xs) = set xs"
  by (metis mset_srt set_mset_mset)

lemma length_srt: "length (srt xs) = length xs"
  by (metis mset_srt size_mset)

lemma srt_Nil_iff: "srt xs = [] \<longleftrightarrow> xs = []"
  by (metis length_0_conv length_srt)

lemma distinct_srt: "distinct (map f (srt xs)) = distinct (map f xs)"
  by (metis mset_srt mset_map mset_eq_imp_distinct_iff)

lemma sum_srt: "sum_list (map f (srt xs)) = sum_list (map f (xs :: 'a list) :: 'b::comm_monoid_add list)"
  by (metis mset_srt mset_map sum_mset_sum_list)

lemma nth_srt: "i < j \<Longrightarrow> j < length xs \<Longrightarrow> \<not> lt (srt xs ! j) (srt xs ! i)"
  using ordered_srt[of xs] by (simp add: sorted_wrt_iff_nth_less length_srt)

end

fun insort_by :: "('a \<Rightarrow> 'a \<Rightarrow> bool) \<Rightarrow> 'a \<Rightarrow> 'a list \<Rightarrow> 'a list" where
  "insort_by lt x [] = [x]"
| "insort_by lt x (y # ys) = (if lt y x then y # insort_by lt x ys else x # y # ys)"

fun sort_by :: "('a \<Rightarrow> 'a \<Rightarrow> bool) \<Rightarrow> 'a list \<Rightarrow> 'a list" where
  "sort_by lt [] = []"
| "sort_by lt (x # xs) = insort_by lt x (sort_by lt xs)"

lemma mset_insort_by [simp]: "mset (insort_by lt x xs) = add_mset x (mset xs)"
  by (induction xs) auto

lemma mset_sort_by [simp]: "mset (sort_by lt xs) = mset xs"
  by (induction xs) auto

lemma set_insort_by: "set (insort_by lt x xs) = insert x (set xs)"
  by (induction xs) auto

lemma set_sort_by [simp]: "set (sort_by lt xs) = set xs"
  by (metis mset_sort_by set_mset_mset)

text \<open>Sorting keeps a list that is in order, and whatever holds of every pair either way round.\<close>

lemma sort_by_id: "sorted_wrt (\<lambda>x y. \<not> lt y x) xs \<Longrightarrow> sort_by lt xs = xs"
proof (induction xs)
  case (Cons x xs)
  then show ?case by (cases xs) auto
qed simp

lemma sorted_wrt_insort_by_sym:
  "(\<And>x y. R x y \<Longrightarrow> R y x) \<Longrightarrow>
     sorted_wrt R (insort_by lt x xs) \<longleftrightarrow> (\<forall>y\<in>set xs. R x y) \<and> sorted_wrt R xs"
  by (induction xs) (auto simp: set_insort_by)

lemma sorted_wrt_sort_by_sym:
  "(\<And>x y. R x y \<Longrightarrow> R y x) \<Longrightarrow> sorted_wrt R (sort_by lt xs) \<longleftrightarrow> sorted_wrt R xs"
  by (induction xs) (auto simp: sorted_wrt_insort_by_sym)

text \<open>A comparison that is a strict weak order makes the executable sort an instance.\<close>

locale weak_order =
  fixes lt :: "'a \<Rightarrow> 'a \<Rightarrow> bool"
  assumes asym: "lt x y \<Longrightarrow> \<not> lt y x"
    and negtrans: "\<not> lt x y \<Longrightarrow> \<not> lt y z \<Longrightarrow> \<not> lt x z"
begin

lemma sorted_insort_by:
  "sorted_wrt (\<lambda>x y. \<not> lt y x) xs \<Longrightarrow> sorted_wrt (\<lambda>x y. \<not> lt y x) (insort_by lt x xs)"
proof (induction xs)
  case Nil
  then show ?case by simp
next
  case (Cons y ys)
  show ?case
  proof (cases "lt y x")
    case True
    then show ?thesis using Cons asym[OF True] by (simp add: set_insort_by)
  next
    case False
    have "\<not> lt z x" if "z \<in> set ys" for z
      using negtrans[of z y x] False Cons.prems that by simp
    then show ?thesis using Cons.prems False by simp
  qed
qed

lemma sorted_sort_by: "sorted_wrt (\<lambda>x y. \<not> lt y x) (sort_by lt xs)"
  by (induction xs) (auto intro: sorted_insort_by)

end

sublocale weak_order \<subseteq> sorted_slice: slice_sort lt "sort_by lt"
  by unfold_locales (simp_all add: sorted_sort_by)

text \<open>Sorting by a key in a linear order, the comparison most call sites use.\<close>

definition key_less :: "('a \<Rightarrow> 'k::linorder) \<Rightarrow> 'a \<Rightarrow> 'a \<Rightarrow> bool" where
  "key_less f x y \<longleftrightarrow> f x < f y"

interpretation key_order: weak_order "key_less f" for f :: "'a \<Rightarrow> 'k::linorder"
  by unfold_locales (auto simp: key_less_def)

lemma sorted_key: "sorted (map f (sort_by (key_less f) xs))"
  using key_order.sorted_slice.ordered_srt[of f xs]
  by (simp add: sorted_map key_less_def not_less)

section \<open>Time\<close>

text \<open>
  \<open>time.Time\<close> is nanoseconds since the Unix epoch, \<open>time.Duration\<close> nanoseconds.
  The zero \<open>Time\<close>, midnight of 1 January of year 1 UTC, is the value \<open>IsZero\<close>
  tests for. \<open>Sub\<close> saturates at the bounds of a 64-bit duration.
\<close>

type_synonym gotime = int
type_synonym duration = int

definition zero_time :: gotime where
  "zero_time = - 62135596800 * 10 ^ 9"

definition time_sub :: "gotime \<Rightarrow> gotime \<Rightarrow> duration" where
  "time_sub a b = max (- (2 ^ 63)) (min (2 ^ 63 - 1) (a - b))"

definition ns_per_hour :: int where
  "ns_per_hour = 3600 * 10 ^ 9"

definition hours :: "duration \<Rightarrow> real" where
  "hours d = of_int d / of_int ns_per_hour"

lemma hours_add: "hours (a + b) = hours a + hours b"
  by (simp add: hours_def add_divide_distrib)

lemma hours_nonneg [simp]: "0 \<le> hours d \<longleftrightarrow> 0 \<le> d"
  by (simp add: hours_def ns_per_hour_def zero_le_divide_iff)

lemma time_sub_pos_iff: "0 < time_sub a b \<longleftrightarrow> b < a"
  by (auto simp: time_sub_def)

lemma time_sub_le: "b \<le> a \<Longrightarrow> time_sub a b \<le> a - b"
  by (auto simp: time_sub_def)

lemma div_bounds: "0 < n \<Longrightarrow> n * (x div n) \<le> x \<and> x < n * (x div n) + n" for n x :: int
  using pos_mod_sign[of n x] pos_mod_bound[of n x] mult_div_mod_eq[of n x] by linarith

lemma div_eqI: "0 < n \<Longrightarrow> n * q \<le> x \<Longrightarrow> x < n * q + n \<Longrightarrow> x div n = q" for n q x :: int
  by (rule int_div_pos_eq[of x n q "x - n * q"]) auto

text \<open>Go's integer division truncates towards zero.\<close>

definition go_div :: "int \<Rightarrow> int \<Rightarrow> int" where
  "go_div a b = sgn a * sgn b * (\<bar>a\<bar> div \<bar>b\<bar>)"

lemma go_div_nonneg: "0 \<le> a \<Longrightarrow> 0 < b \<Longrightarrow> go_div a b = a div b"
  by (cases "a = 0") (auto simp: go_div_def)

end
