(* ===== verification/Go_Strings.thy ===== *)
theory Go_Strings
  imports Prelude
begin

text \<open>
  The string functions of Go's standard library the program uses. A Go string is
  a sequence of bytes, here a \<open>char list\<close>: \<open>len\<close> counts bytes and \<open>s[i]\<close> is a byte.
\<close>

section \<open>Byte classes\<close>

definition lower_az :: "char \<Rightarrow> bool" where
  "lower_az c \<longleftrightarrow> CHR ''a'' \<le> c \<and> c \<le> CHR ''z''"

definition upper_az :: "char \<Rightarrow> bool" where
  "upper_az c \<longleftrightarrow> CHR ''A'' \<le> c \<and> c \<le> CHR ''Z''"

definition digit09 :: "char \<Rightarrow> bool" where
  "digit09 c \<longleftrightarrow> CHR ''0'' \<le> c \<and> c \<le> CHR ''9''"

definition byte_val :: "char \<Rightarrow> nat" where
  "byte_val c = of_char c"

lemma char_le_byte: "c \<le> d \<longleftrightarrow> byte_val c \<le> byte_val d"
  by (simp add: byte_val_def less_eq_char_def)

lemma byte_val_less: "byte_val c < 256"
  by (simp add: byte_val_def)

lemma byte_val_inj: "byte_val c = byte_val d \<longleftrightarrow> c = d"
  by (simp add: byte_val_def)

section \<open>Prefixes, suffixes, substrings\<close>

definition has_prefix :: "string \<Rightarrow> string \<Rightarrow> bool" where
  "has_prefix s p \<longleftrightarrow> take (length p) s = p"

definition has_suffix :: "string \<Rightarrow> string \<Rightarrow> bool" where
  "has_suffix s p \<longleftrightarrow> length p \<le> length s \<and> drop (length s - length p) s = p"

definition cut_prefix :: "string \<Rightarrow> string \<Rightarrow> string option" where
  "cut_prefix s p = (if has_prefix s p then Some (drop (length p) s) else None)"

definition trim_prefix :: "string \<Rightarrow> string \<Rightarrow> string" where
  "trim_prefix s p = (if has_prefix s p then drop (length p) s else s)"

definition trim_suffix :: "string \<Rightarrow> string \<Rightarrow> string" where
  "trim_suffix s p = (if has_suffix s p then take (length s - length p) s else s)"

fun contains :: "string \<Rightarrow> string \<Rightarrow> bool" where
  "contains [] sub = (sub = [])"
| "contains (c # s) sub = (has_prefix (c # s) sub \<or> contains s sub)"

lemma has_prefix_iff: "has_prefix s p \<longleftrightarrow> (\<exists>r. s = p @ r)"
  by (auto simp: has_prefix_def) (metis append_take_drop_id)

lemma has_suffix_iff: "has_suffix s p \<longleftrightarrow> (\<exists>r. s = r @ p)"
  by (auto simp: has_suffix_def) (metis append_take_drop_id)

lemma has_prefix_append [simp]: "has_prefix (p @ r) p"
  by (simp add: has_prefix_def)

lemma has_suffix_append [simp]: "has_suffix (r @ p) p"
  by (simp add: has_suffix_def)

lemma has_prefix_trans: "has_prefix s p \<Longrightarrow> has_prefix p q \<Longrightarrow> has_prefix s q"
  by (auto simp: has_prefix_iff)

lemma has_prefix_chain:
  assumes "has_prefix s p" and "has_prefix s q"
  shows "has_prefix p q \<or> has_prefix q p"
proof -
  obtain r where "s = p @ r" using assms(1) by (auto simp: has_prefix_iff)
  moreover obtain r' where "s = q @ r'" using assms(2) by (auto simp: has_prefix_iff)
  ultimately have "p @ r = q @ r'" by simp
  then show ?thesis by (metis has_prefix_iff append_eq_append_conv2)
qed

lemma cut_prefix_Some_iff: "cut_prefix s p = Some r \<longleftrightarrow> s = p @ r"
  by (auto simp: cut_prefix_def has_prefix_def) (metis append_take_drop_id)

lemma trim_suffix_append [simp]: "trim_suffix (r @ p) p = r"
  by (simp add: trim_suffix_def)

lemma contains_iff: "contains s sub \<longleftrightarrow> (\<exists>a b. s = a @ sub @ b)"
proof (induction s)
  case Nil
  then show ?case by auto
next
  case (Cons c s)
  show ?case
  proof
    assume "contains (c # s) sub"
    then consider "has_prefix (c # s) sub" | "contains s sub" by auto
    then show "\<exists>a b. c # s = a @ sub @ b"
    proof cases
      case 1
      then show ?thesis by (auto simp: has_prefix_iff intro: exI[of _ "[]"])
    next
      case 2
      then obtain a b where "s = a @ sub @ b" using Cons.IH by blast
      then have "c # s = (c # a) @ sub @ b" by simp
      then show ?thesis by blast
    qed
  next
    assume "\<exists>a b. c # s = a @ sub @ b"
    then obtain a b where ab: "c # s = a @ sub @ b" by blast
    show "contains (c # s) sub"
    proof (cases a)
      case Nil
      then have "has_prefix (c # s) sub" using ab by (auto simp: has_prefix_iff)
      then show ?thesis by simp
    next
      case (Cons x a')
      then have "s = a' @ sub @ b" using ab by simp
      then show ?thesis using Cons.IH by auto
    qed
  qed
qed

lemma contains_char: "contains s [c] \<longleftrightarrow> c \<in> set s"
  by (auto simp: contains_iff in_set_conv_decomp)

section \<open>\<open>strings.Split\<close> on a one-byte separator\<close>

fun split_on :: "char \<Rightarrow> string \<Rightarrow> string list" where
  "split_on sep [] = [[]]"
| "split_on sep (c # s) =
     (if c = sep then [] # split_on sep s
      else (case split_on sep s of [] \<Rightarrow> [[c]] | w # ws \<Rightarrow> (c # w) # ws))"

fun join_with :: "char \<Rightarrow> string list \<Rightarrow> string" where
  "join_with sep [] = []"
| "join_with sep [w] = w"
| "join_with sep (w # ws) = w @ sep # join_with sep ws"

lemma split_on_nonempty [simp]: "split_on sep s \<noteq> []"
  by (induction s) (auto split: list.splits)

lemma split_on_no_sep: "w \<in> set (split_on sep s) \<Longrightarrow> sep \<notin> set w"
  by (induction s arbitrary: w) (auto split: list.splits if_splits)

lemma split_on_covers: "c \<in> set s \<Longrightarrow> c \<noteq> sep \<Longrightarrow> \<exists>f\<in>set (split_on sep s). c \<in> set f"
  by (induction s) (auto split: list.splits)

lemma join_split: "join_with sep (split_on sep s) = s"
proof (induction s)
  case Nil
  then show ?case by simp
next
  case (Cons c s)
  obtain w ws where w: "split_on sep s = w # ws" by (cases "split_on sep s") auto
  with Cons show ?case by (cases ws) auto
qed

lemma split_on_append_sep:
  "sep \<notin> set w \<Longrightarrow> split_on sep (w @ sep # s) = w # split_on sep s"
  by (induction w) auto

lemma split_on_no_occ: "sep \<notin> set w \<Longrightarrow> split_on sep w = [w]"
  by (induction w) auto

lemma split_join:
  "ws \<noteq> [] \<Longrightarrow> (\<And>w. w \<in> set ws \<Longrightarrow> sep \<notin> set w) \<Longrightarrow> split_on sep (join_with sep ws) = ws"
  by (induction sep ws rule: join_with.induct) (auto simp: split_on_append_sep split_on_no_occ)

lemma set_split_on: "w \<in> set (split_on sep s) \<Longrightarrow> set w \<subseteq> set s"
  by (induction s arbitrary: w) (fastforce split: list.splits if_splits)+

section \<open>Decimal numbers\<close>

definition digit_char :: "nat \<Rightarrow> char" where
  "digit_char n = char_of (48 + n)"

fun decimal :: "nat \<Rightarrow> string" where
  "decimal n = (if n < 10 then [digit_char n] else decimal (n div 10) @ [digit_char (n mod 10)])"

declare decimal.simps [simp del]

text \<open>\<open>strconv.FormatInt(i, 10)\<close>, also \<open>%d\<close>.\<close>

definition format_int :: "int \<Rightarrow> string" where
  "format_int i = (if i < 0 then CHR ''-'' # decimal (nat (- i)) else decimal (nat i))"

fun digits_val :: "nat \<Rightarrow> string \<Rightarrow> nat option" where
  "digits_val acc [] = Some acc"
| "digits_val acc (c # s) =
     (if digit09 c then digits_val (acc * 10 + (byte_val c - 48)) s else None)"

definition parse_digits :: "string \<Rightarrow> nat option" where
  "parse_digits s = (if s = [] then None else digits_val 0 s)"

text \<open>\<open>strconv.ParseInt(s, 10, 64)\<close>: an optional sign, at least one digit, the 64-bit range.\<close>

definition parse_int64 :: "string \<Rightarrow> int option" where
  "parse_int64 s =
     (let (neg, ds) = (case s of
            [] \<Rightarrow> (False, [])
          | c # r \<Rightarrow> if c = CHR ''-'' then (True, r)
                    else if c = CHR ''+'' then (False, r) else (False, s))
      in case parse_digits ds of
           None \<Rightarrow> None
         | Some n \<Rightarrow>
             let i = (if neg then - int n else int n)
             in if - (2 ^ 63) \<le> i \<and> i < 2 ^ 63 then Some i else None)"

lemma byte_val_digit_char: "n < 10 \<Longrightarrow> byte_val (digit_char n) = 48 + n"
  by (simp add: digit_char_def byte_val_def)

lemma digit09_iff: "digit09 c \<longleftrightarrow> 48 \<le> byte_val c \<and> byte_val c \<le> 57"
  by (simp add: digit09_def char_le_byte) (simp add: byte_val_def)

lemma digit09_digit_char: "n < 10 \<Longrightarrow> digit09 (digit_char n)"
  by (simp add: digit09_iff byte_val_digit_char)

lemma digits_val_chars: "digits_val acc s = Some n \<Longrightarrow> c \<in> set s \<Longrightarrow> digit09 c"
  by (induction s arbitrary: acc) (auto split: if_splits)

lemma digits_val_append:
  "digits_val acc (s @ t) = Option.bind (digits_val acc s) (\<lambda>a. digits_val a t)"
  by (induction s arbitrary: acc) auto

lemma digits_val_decimal: "digits_val 0 (decimal n) = Some n"
proof (induction n rule: decimal.induct)
  case (1 n)
  show ?case
  proof (cases "n < 10")
    case True
    then show ?thesis
      by (simp add: decimal.simps[of n] digit09_digit_char byte_val_digit_char)
  next
    case False
    then have "digits_val 0 (decimal (n div 10)) = Some (n div 10)" using 1 by simp
    then show ?thesis using False
      by (simp add: decimal.simps[of n] digits_val_append digit09_digit_char byte_val_digit_char)
  qed
qed

lemma decimal_nonempty: "decimal n \<noteq> []"
  by (subst decimal.simps) simp

lemma decimal_digits: "c \<in> set (decimal n) \<Longrightarrow> digit09 c"
proof (induction n rule: decimal.induct)
  case (1 n)
  then show ?case
    by (subst (asm) (2) decimal.simps) (auto simp: digit09_digit_char split: if_splits)
qed

lemma decimal_hd: "decimal n = c # r \<Longrightarrow> c \<noteq> CHR ''-'' \<and> c \<noteq> CHR ''+''"
  using decimal_digits[of c n] by (auto simp: digit09_def)

theorem parse_format_int:
  assumes "- (2 ^ 63) \<le> i" and "i < 2 ^ 63"
  shows "parse_int64 (format_int i) = Some i"
proof (cases "i < 0")
  case True
  then show ?thesis using assms
    by (simp add: format_int_def parse_int64_def parse_digits_def decimal_nonempty digits_val_decimal)
next
  case False
  obtain c r where cr: "decimal (nat i) = c # r"
    using decimal_nonempty by (meson neq_Nil_conv)
  have "digits_val 0 (c # r) = Some (nat i)" using digits_val_decimal[of "nat i"] cr by simp
  then show ?thesis using assms False cr decimal_hd[OF cr]
    by (simp add: format_int_def parse_int64_def parse_digits_def Let_def del: digits_val.simps)
qed

lemma format_int_inj: "format_int i = format_int j \<Longrightarrow> i = j"
proof -
  have dec: "decimal a = decimal b \<Longrightarrow> a = b" for a b
    by (metis digits_val_decimal option.inject)
  have nd: "decimal a \<noteq> CHR ''-'' # r" for a r using decimal_hd by blast
  assume "format_int i = format_int j"
  then show "i = j"
    by (auto simp: format_int_def nd nd[symmetric] split: if_splits dest!: dec)
qed

section \<open>\<open>strings.TrimSpace\<close> and \<open>strings.ToLower\<close>\<close>

text \<open>
  The UTF-8 encodings of the code points Unicode calls white space. The last rune
  of a string is one of them exactly when the string ends with its bytes, because
  a lead byte is never a continuation byte.
\<close>

definition byte :: "nat \<Rightarrow> char" where
  "byte n = char_of n"

definition space_runes :: "string list" where
  "space_runes =
     map (\<lambda>n. [byte n]) [9, 10, 11, 12, 13, 32] @
     [[byte 194, byte 133], [byte 194, byte 160], [byte 225, byte 154, byte 128]] @
     map (\<lambda>n. [byte 226, byte 128, byte n]) ([128 ..< 139] @ [168, 169, 175]) @
     [[byte 226, byte 129, byte 159], [byte 227, byte 128, byte 128]]"

lemma space_runes_nonempty: "r \<in> set space_runes \<Longrightarrow> r \<noteq> []"
  by (auto simp: space_runes_def)

function trim_left :: "string \<Rightarrow> string" where
  "trim_left s = (case find (has_prefix s) space_runes of
     None \<Rightarrow> s
   | Some r \<Rightarrow> trim_left (drop (length r) s))"
  by pat_completeness auto

termination
proof (relation "measure length", goal_cases)
  case 1
  then show ?case by simp
next
  case (2 s r)
  then have "r \<in> set space_runes" and "has_prefix s r" by (auto simp: find_Some_iff)
  then have "r \<noteq> []" and "length r \<le> length s"
    using space_runes_nonempty by (auto simp: has_prefix_iff)
  then show ?case by (cases r) auto
qed

declare trim_left.simps [simp del]

function trim_right :: "string \<Rightarrow> string" where
  "trim_right s = (case find (has_suffix s) space_runes of
     None \<Rightarrow> s
   | Some r \<Rightarrow> trim_right (take (length s - length r) s))"
  by pat_completeness auto

termination
proof (relation "measure length", goal_cases)
  case 1
  then show ?case by simp
next
  case (2 s r)
  then have "r \<in> set space_runes" and "has_suffix s r" by (auto simp: find_Some_iff)
  then have "r \<noteq> []" and "length r \<le> length s"
    using space_runes_nonempty by (auto simp: has_suffix_iff)
  then show ?case by (cases r) auto
qed

declare trim_right.simps [simp del]

definition trim_space :: "string \<Rightarrow> string" where
  "trim_space s = trim_right (trim_left s)"

lemma trim_space_id:
  assumes "\<And>r. r \<in> set space_runes \<Longrightarrow> \<not> has_prefix s r"
    and "\<And>r. r \<in> set space_runes \<Longrightarrow> \<not> has_suffix s r"
  shows "trim_space s = s"
proof -
  have "find (has_prefix s) space_runes = None" and "find (has_suffix s) space_runes = None"
    using assms by (auto simp: find_None_iff)
  then show ?thesis by (simp add: trim_space_def trim_left.simps trim_right.simps)
qed

lemma space_runes_hd: "r \<in> set space_runes \<Longrightarrow> byte_val (hd r) \<le> 32 \<or> 128 \<le> byte_val (hd r)"
  by (auto simp: space_runes_def byte_def byte_val_def)

lemma space_runes_last: "r \<in> set space_runes \<Longrightarrow> byte_val (last r) \<le> 32 \<or> 128 \<le> byte_val (last r)"
  by (auto simp: space_runes_def byte_def byte_val_def)

text \<open>A string that starts and ends with a visible ASCII character is already trimmed.\<close>

lemma trim_space_visible:
  assumes "s \<noteq> []" and "32 < byte_val (hd s)" "byte_val (hd s) < 128"
    and "32 < byte_val (last s)" "byte_val (last s) < 128"
  shows "trim_space s = s"
proof (rule trim_space_id)
  fix r assume r: "r \<in> set space_runes"
  show "\<not> has_prefix s r"
  proof
    assume "has_prefix s r"
    then obtain t where "s = r @ t" by (auto simp: has_prefix_iff)
    then have "hd s = hd r" using space_runes_nonempty[OF r] by simp
    then show False using space_runes_hd[OF r] assms by simp
  qed
  show "\<not> has_suffix s r"
  proof
    assume "has_suffix s r"
    then obtain t where "s = t @ r" by (auto simp: has_suffix_iff)
    then have "last s = last r" using space_runes_nonempty[OF r] by simp
    then show False using space_runes_last[OF r] assms by simp
  qed
qed

text \<open>
  \<open>ToLower\<close> maps an all-ASCII string byte by byte; any other string goes through the
  Unicode case tables, which are the parameter \<open>ulower\<close>.
\<close>

definition lower_byte :: "char \<Rightarrow> char" where
  "lower_byte c = (if upper_az c then char_of (byte_val c + 32) else c)"

definition is_ascii :: "string \<Rightarrow> bool" where
  "is_ascii s \<longleftrightarrow> (\<forall>c\<in>set s. byte_val c < 128)"

definition to_lower :: "(string \<Rightarrow> string) \<Rightarrow> string \<Rightarrow> string" where
  "to_lower ulower s = (if is_ascii s then map lower_byte s else ulower s)"

text \<open>\<open>strings.EqualFold\<close>; \<open>ufold\<close> is its answer outside ASCII.\<close>

definition equal_fold :: "(string \<Rightarrow> string \<Rightarrow> bool) \<Rightarrow> string \<Rightarrow> string \<Rightarrow> bool" where
  "equal_fold ufold s t =
     (if is_ascii s \<and> is_ascii t then map lower_byte s = map lower_byte t else ufold s t)"

lemma upper_az_iff: "upper_az c \<longleftrightarrow> 65 \<le> byte_val c \<and> byte_val c \<le> 90"
  by (simp add: upper_az_def char_le_byte) (simp add: byte_val_def)

lemma lower_az_iff: "lower_az c \<longleftrightarrow> 97 \<le> byte_val c \<and> byte_val c \<le> 122"
  by (simp add: lower_az_def char_le_byte) (simp add: byte_val_def)

lemma byte_val_lower: "upper_az c \<Longrightarrow> byte_val (lower_byte c) = byte_val c + 32"
  by (simp add: lower_byte_def upper_az_iff) (simp add: byte_val_def)

lemma lower_byte_az: "upper_az c \<Longrightarrow> lower_az (lower_byte c)"
  by (simp add: lower_az_iff byte_val_lower upper_az_iff)

lemma lower_byte_other: "\<not> upper_az c \<Longrightarrow> lower_byte c = c"
  by (simp add: lower_byte_def)

section \<open>Runes\<close>

text \<open>How many bytes the first rune takes: Go reads an invalid byte as a rune of its own.\<close>

definition continuation :: "nat \<Rightarrow> nat \<Rightarrow> string \<Rightarrow> bool" where
  "continuation lo hi s \<longleftrightarrow> s \<noteq> [] \<and> lo \<le> byte_val (hd s) \<and> byte_val (hd s) \<le> hi"

definition rune_width :: "string \<Rightarrow> nat" where
  "rune_width s =
     (case s of
        [] \<Rightarrow> 0
      | c # t \<Rightarrow>
          let b = byte_val c;
              second = (if b = 224 then continuation 160 191 else if b = 237 then continuation 128 159
                        else if b = 240 then continuation 144 191 else if b = 244 then continuation 128 143
                        else continuation 128 191);
              more = (\<lambda>n. continuation 128 191 (drop n t)) in
          if 194 \<le> b \<and> b \<le> 223 \<and> second t then 2
          else if 224 \<le> b \<and> b \<le> 239 \<and> second t \<and> more 1 then 3
          else if 240 \<le> b \<and> b \<le> 244 \<and> second t \<and> more 1 \<and> more 2 then 4
          else 1)"

lemma rune_width_pos: "0 < rune_width (c # s)"
  by (simp add: rune_width_def Let_def)

text \<open>The runes of a string, each by its bytes.\<close>

function runes :: "string \<Rightarrow> string list" where
  "runes s = (if s = [] then [] else take (rune_width s) s # runes (drop (rune_width s) s))"
  by pat_completeness auto
termination
proof (relation "measure length")
  fix s :: string assume "s \<noteq> []"
  then show "(drop (rune_width s) s, s) \<in> measure length" using rune_width_pos[of "hd s" "tl s"] by (cases s) (simp_all add: diff_less)
qed simp

declare runes.simps [simp del]

definition rune_count :: "string \<Rightarrow> nat" where
  "rune_count s = length (runes s)"

section \<open>\<open>net.ParseIP\<close>: does a string denote an IP address?\<close>

definition hex_digit :: "char \<Rightarrow> bool" where
  "hex_digit c \<longleftrightarrow> digit09 c \<or> (CHR ''a'' \<le> c \<and> c \<le> CHR ''f'') \<or> (CHR ''A'' \<le> c \<and> c \<le> CHR ''F'')"

text \<open>One dotted-decimal octet: digits, no leading zero, at most 255.\<close>

definition ipv4_octet :: "string \<Rightarrow> bool" where
  "ipv4_octet f \<longleftrightarrow> (case parse_digits f of
       None \<Rightarrow> False
     | Some n \<Rightarrow> n \<le> 255 \<and> (length f > 1 \<longrightarrow> hd f \<noteq> CHR ''0''))"

definition is_ipv4 :: "string \<Rightarrow> bool" where
  "is_ipv4 s \<longleftrightarrow> (let fs = split_on CHR ''.'' s in length fs = 4 \<and> list_all ipv4_octet fs)"

text \<open>
  The loop of \<open>netip\<close>'s IPv6 parser after a leading \<open>::\<close>: \<open>i\<close> bytes of the address
  filled, \<open>ell\<close> whether an ellipsis was seen; one colon-separated group per round.
\<close>

function ipv6_loop :: "nat \<Rightarrow> bool \<Rightarrow> string \<Rightarrow> bool" where
  "ipv6_loop i ell s =
     (if i \<ge> 16 then s = [] \<and> \<not> ell
      else let g = takeWhile hex_digit s; r = dropWhile hex_digit s in
        if g = [] \<or> length g > 4 then False
        else if r \<noteq> [] \<and> hd r = CHR ''.'' then
          (ell \<or> i = 12) \<and> i + 4 \<le> 16 \<and> is_ipv4 s \<and> (if i + 4 < 16 then ell else \<not> ell)
        else (case r of
            [] \<Rightarrow> (if i + 2 < 16 then ell else \<not> ell)
          | [c] \<Rightarrow> False
          | c # d # t \<Rightarrow>
              if c \<noteq> CHR '':'' then False
              else if d \<noteq> CHR '':'' then ipv6_loop (i + 2) ell (d # t)
              else if ell then False
              else if t = [] then i + 2 < 16
              else ipv6_loop (i + 2) True t))"
  by pat_completeness auto
termination
  by (relation "measure (\<lambda>(i, ell, s). 16 - i)") auto

declare ipv6_loop.simps [simp del]

definition is_ipv6 :: "string \<Rightarrow> bool" where
  "is_ipv6 s \<longleftrightarrow> (case s of
       c # d # r \<Rightarrow>
         if c = CHR '':'' \<and> d = CHR '':'' then r = [] \<or> ipv6_loop 0 True r
         else ipv6_loop 0 False s
     | _ \<Rightarrow> ipv6_loop 0 False s)"

text \<open>
  \<open>ParseIP(s) != nil\<close>: the first of \<open>.\<close>, \<open>:\<close> and \<open>%\<close> decides the grammar, and a zone
  is never accepted.
\<close>

definition parse_ip :: "string \<Rightarrow> bool" where
  "parse_ip s \<longleftrightarrow> CHR ''%'' \<notin> set s \<and>
     (case find (\<lambda>c. c = CHR ''.'' \<or> c = CHR '':'') s of
        None \<Rightarrow> False
      | Some c \<Rightarrow> if c = CHR ''.'' then is_ipv4 s else is_ipv6 s)"

lemma parse_ip_examples:
  "parse_ip ''10.0.0.1'' \<and> parse_ip ''::1'' \<and> parse_ip ''2001:db8::ff00:42:8329''
   \<and> parse_ip ''::ffff:192.0.2.1'' \<and> \<not> parse_ip ''256.1.1.1'' \<and> \<not> parse_ip ''1.2.3''
   \<and> \<not> parse_ip ''api.stripe.com'' \<and> \<not> parse_ip ''1::2::3'' \<and> \<not> parse_ip ''fe80::1%eth0''"
  by code_simp

text \<open>A string with no colon is an address only as four decimal octets.\<close>

lemma parse_ip_no_colon:
  "CHR '':'' \<notin> set s \<Longrightarrow> parse_ip s \<longleftrightarrow> is_ipv4 s \<and> CHR ''%'' \<notin> set s"
proof -
  assume nc: "CHR '':'' \<notin> set s"
  show ?thesis
  proof (cases "CHR ''.'' \<in> set s")
    case True
    then obtain c where "find (\<lambda>c. c = CHR ''.'' \<or> c = CHR '':'') s = Some c"
      by (cases "find (\<lambda>c. c = CHR ''.'' \<or> c = CHR '':'') s") (auto simp: find_None_iff)
    moreover from this have "c = CHR ''.''" using nc nth_mem by (fastforce simp: find_Some_iff)
    ultimately show ?thesis by (auto simp: parse_ip_def)
  next
    case False
    then have "find (\<lambda>c. c = CHR ''.'' \<or> c = CHR '':'') s = None"
      using nc by (auto simp: find_None_iff)
    moreover have "\<not> is_ipv4 s" using False by (simp add: is_ipv4_def split_on_no_occ)
    ultimately show ?thesis by (simp add: parse_ip_def)
  qed
qed

lemma runes_ascii: "(\<forall>c\<in>set s. byte_val c < 128) \<Longrightarrow> runes s = map (\<lambda>c. [c]) s"
proof (induction s)
  case Nil
  then show ?case by (simp add: runes.simps)
next
  case (Cons c s)
  then have "rune_width (c # s) = 1" by (simp add: rune_width_def Let_def)
  then show ?case using Cons by (subst runes.simps) simp
qed

end
