(* ===== verification/Manifest.thy ===== *)
theory Manifest
  imports Go_Strings
begin

text \<open>
  The \<open>./farcast\<close> manifest (\<open>manifest/parser/parser.go\<close>): the decoded YAML with
  absent keys as \<open>None\<close>, every validator with its checks in the code's order, and
  the aggregation of all failures. The YAML decoder is the parameter \<open>yaml\<close>.
\<close>

section \<open>Data\<close>

record external =
  ext_host :: string
  ext_reason :: string

record app =
  app_name :: string
  app_containerfile :: string
  app_context :: string
  app_external :: "external list option" \<comment> \<open>\<open>None\<close> is Go's nil slice\<close>

record manifest =
  man_name :: string
  man_apps :: "app list"

record raw_external =
  rx_host :: "string option"
  rx_reason :: "string option"

record raw_app =
  ra_name :: "string option"
  ra_containerfile :: "string option"
  ra_context :: "string option"
  ra_external :: "raw_external list option"

record raw_manifest =
  rm_name :: "string option"
  rm_apps :: "raw_app list option"

datatype field_msg =
    Is_required
  | Must_not_be_empty
  | Too_long nat
  | Must_start_lowercase
  | Must_not_end_hyphen
  | Invalid_character char nat
  | Absolute_path string
  | Dot_dot_segment
  | Url_scheme
  | Port_or_path
  | Wildcard
  | Whitespace
  | Ip_address
  | Host_too_long nat
  | Dot_at_edge
  | Empty_dns_label
  | Label_too_long string
  | Label_hyphen string
  | Label_character string char
  | At_least_one_app
  | Duplicate_app string nat
  | Duplicate_host string string nat
  | Manifest_empty
  | Yaml_error string

datatype field_error = FieldError (fe_path: string) (fe_msg: field_msg)

datatype manifest_error = ErrInvalidManifest | FieldFailure field_error

section \<open>Scalar validators\<close>

definition dns_char :: "char \<Rightarrow> bool" where
  "dns_char c \<longleftrightarrow> lower_az c \<or> digit09 c \<or> c = CHR ''-''"

text \<open>The first byte at or after index \<open>i\<close> that a loop over a string refuses.\<close>

fun first_bad :: "(char \<Rightarrow> bool) \<Rightarrow> nat \<Rightarrow> string \<Rightarrow> (char \<times> nat) option" where
  "first_bad ok i [] = None"
| "first_bad ok i (c # s) = (if ok c then first_bad ok (Suc i) s else Some (c, i))"

definition validateDNSLabel :: "string \<Rightarrow> string \<Rightarrow> field_error option" where
  "validateDNSLabel s path =
     (if s = [] then Some (FieldError path Must_not_be_empty)
      else if length s > 63 then Some (FieldError path (Too_long (length s)))
      else if \<not> lower_az (hd s) then Some (FieldError path Must_start_lowercase)
      else if length s = 1 then None
      else if last s = CHR ''-'' then Some (FieldError path Must_not_end_hyphen)
      else (case first_bad dns_char 0 s of
              None \<Rightarrow> None
            | Some (c, i) \<Rightarrow> Some (FieldError path (Invalid_character c i))))"

definition validateRelPath :: "string \<Rightarrow> string \<Rightarrow> field_error option" where
  "validateRelPath s path =
     (if s = [] then Some (FieldError path Must_not_be_empty)
      else if has_prefix s ''/'' then Some (FieldError path (Absolute_path s))
      else if has_prefix s [CHR 0x5C] then Some (FieldError path (Absolute_path s))
      else if ''..'' \<in> set (split_on CHR ''/'' s) then Some (FieldError path Dot_dot_segment)
      else None)"

definition label_char :: "char \<Rightarrow> bool" where
  "label_char c \<longleftrightarrow> lower_az c \<or> upper_az c \<or> digit09 c \<or> c = CHR ''-''"

definition validateHostnameLabel :: "string \<Rightarrow> string \<Rightarrow> field_error option" where
  "validateHostnameLabel label path =
     (if length label = 0 then Some (FieldError path Empty_dns_label)
      else if length label > 63 then Some (FieldError path (Label_too_long label))
      else if hd label = CHR ''-'' \<or> last label = CHR ''-''
        then Some (FieldError path (Label_hyphen label))
      else (case first_bad label_char 0 label of
              None \<Rightarrow> None
            | Some (c, i) \<Rightarrow> Some (FieldError path (Label_character label c))))"

fun validateLabels :: "string list \<Rightarrow> string \<Rightarrow> field_error option" where
  "validateLabels [] path = None"
| "validateLabels (l # ls) path =
     (case validateHostnameLabel l path of Some e \<Rightarrow> Some e | None \<Rightarrow> validateLabels ls path)"

definition validateHostname :: "string \<Rightarrow> string \<Rightarrow> field_error option" where
  "validateHostname s path =
     (if s = [] then Some (FieldError path Must_not_be_empty)
      else if contains s ''://'' then Some (FieldError path Url_scheme)
      else if CHR '':'' \<in> set s \<or> CHR ''/'' \<in> set s then Some (FieldError path Port_or_path)
      else if contains s ''*'' then Some (FieldError path Wildcard)
      else if contains s '' '' then Some (FieldError path Whitespace)
      else if parse_ip s then Some (FieldError path Ip_address)
      else if length s > 253 then Some (FieldError path (Host_too_long (length s)))
      else if has_prefix s ''.'' \<or> has_suffix s ''.'' then Some (FieldError path Dot_at_edge)
      else validateLabels (split_on CHR ''.'' s) path)"

section \<open>Entries\<close>

definition opt_list :: "'a option \<Rightarrow> 'a list" where
  "opt_list x = (case x of None \<Rightarrow> [] | Some a \<Rightarrow> [a])"

definition validateExternal :: "raw_external \<Rightarrow> string \<Rightarrow> external option \<times> field_error list" where
  "validateExternal raw path =
     (let host_errs = (case rx_host raw of
            None \<Rightarrow> [FieldError (path @ ''.host'') Is_required]
          | Some h \<Rightarrow> opt_list (validateHostname h (path @ ''.host'')));
          reason_errs = (case rx_reason raw of
            None \<Rightarrow> [FieldError (path @ ''.reason'') Is_required]
          | Some r \<Rightarrow> if r = [] then [FieldError (path @ ''.reason'') Must_not_be_empty] else []);
          errs = host_errs @ reason_errs
      in if errs \<noteq> [] then (None, errs)
         else (Some \<lparr>ext_host = (case rx_host raw of None \<Rightarrow> [] | Some h \<Rightarrow> h),
                     ext_reason = (case rx_reason raw of None \<Rightarrow> [] | Some r \<Rightarrow> r)\<rparr>, []))"

definition indexed :: "string \<Rightarrow> nat \<Rightarrow> string" where
  "indexed path i = path @ ''['' @ decimal i @ '']''"

text \<open>The loop over a list with a map of the names already seen and where.\<close>

definition duplicate_of :: "(string \<times> nat) list \<Rightarrow> string option \<Rightarrow> nat option" where
  "duplicate_of seen name = (case name of
     None \<Rightarrow> None | Some n \<Rightarrow> if n = [] then None else map_of seen n)"

definition note_seen :: "(string \<times> nat) list \<Rightarrow> string option \<Rightarrow> nat \<Rightarrow> (string \<times> nat) list" where
  "note_seen seen name i = (case name of
     None \<Rightarrow> seen
   | Some n \<Rightarrow> if n = [] \<or> map_of seen n \<noteq> None then seen else AList.update n i seen)"

fun externals_loop ::
  "string \<Rightarrow> nat \<Rightarrow> (string \<times> nat) list \<Rightarrow> raw_external list \<Rightarrow> external list \<times> field_error list"
where
  "externals_loop path i seen [] = ([], [])"
| "externals_loop path i seen (r # rs) =
     (let extPath = indexed (path @ ''.external'') i;
          (ext, errs) = validateExternal r extPath;
          dup = (case duplicate_of seen (rx_host r) of
             None \<Rightarrow> []
           | Some prev \<Rightarrow>
               [FieldError (extPath @ ''.host'') (Duplicate_host (the (rx_host r)) path prev)]);
          (exts, rest) = externals_loop path (Suc i) (note_seen seen (rx_host r) i) rs
      in (opt_list ext @ exts, errs @ dup @ rest))"

definition validateApp :: "raw_app \<Rightarrow> string \<Rightarrow> app option \<times> field_error list" where
  "validateApp raw path =
     (let name_errs = (case ra_name raw of
            None \<Rightarrow> [FieldError (path @ ''.name'') Is_required]
          | Some n \<Rightarrow> opt_list (validateDNSLabel n (path @ ''.name'')));
          file_errs = (case ra_containerfile raw of
            None \<Rightarrow> [FieldError (path @ ''.containerfile'') Is_required]
          | Some f \<Rightarrow> opt_list (validateRelPath f (path @ ''.containerfile'')));
          ctx_errs = (case ra_context raw of
            None \<Rightarrow> []
          | Some c \<Rightarrow> opt_list (validateRelPath c (path @ ''.context'')));
          (exts, ext_errs) = (case ra_external raw of
            None \<Rightarrow> (None, [])
          | Some rs \<Rightarrow> let (es, errs) = externals_loop path 0 [] rs in (Some es, errs));
          errs = name_errs @ file_errs @ ctx_errs @ ext_errs
      in if errs \<noteq> [] then (None, errs)
         else (Some \<lparr>app_name = (case ra_name raw of None \<Rightarrow> [] | Some n \<Rightarrow> n),
                     app_containerfile = (case ra_containerfile raw of None \<Rightarrow> [] | Some f \<Rightarrow> f),
                     app_context = (case ra_context raw of None \<Rightarrow> [] | Some c \<Rightarrow> c),
                     app_external = exts\<rparr>, []))"

fun apps_loop ::
  "nat \<Rightarrow> (string \<times> nat) list \<Rightarrow> raw_app list \<Rightarrow> app list \<times> field_error list"
where
  "apps_loop i seen [] = ([], [])"
| "apps_loop i seen (r # rs) =
     (let path = indexed ''apps'' i;
          (app, errs) = validateApp r path;
          dup = (case duplicate_of seen (ra_name r) of
             None \<Rightarrow> []
           | Some prev \<Rightarrow>
               [FieldError (path @ ''.name'') (Duplicate_app (the (ra_name r)) prev)]);
          (apps, rest) = apps_loop (Suc i) (note_seen seen (ra_name r) i) rs
      in (opt_list app @ apps, errs @ dup @ rest))"

definition validate :: "raw_manifest \<Rightarrow> manifest option \<times> field_error list" where
  "validate raw =
     (let name_errs = (case rm_name raw of
            None \<Rightarrow> [FieldError ''name'' Is_required]
          | Some n \<Rightarrow> opt_list (validateDNSLabel n ''name''))
      in case rm_apps raw of
           None \<Rightarrow> (None, name_errs @ [FieldError ''apps'' Is_required])
         | Some rs \<Rightarrow>
             if rs = [] then (None, name_errs @ [FieldError ''apps'' At_least_one_app])
             else let (apps, app_errs) = apps_loop 0 [] rs; errs = name_errs @ app_errs
                  in if errs \<noteq> [] then (None, errs)
                     else (Some \<lparr>man_name = (case rm_name raw of None \<Rightarrow> [] | Some n \<Rightarrow> n),
                                 man_apps = apps\<rparr>, []))"

definition bom :: string where
  "bom = [byte 239, byte 187, byte 191]"

definition isBlank :: "string \<Rightarrow> bool" where
  "isBlank data = list_all (\<lambda>line. let t = trim_space line in t = [] \<or> has_prefix t ''#'')
     (split_on (byte 10) (trim_prefix data bom))"

definition parse_manifest ::
  "(string \<Rightarrow> string + raw_manifest) \<Rightarrow> string \<Rightarrow> manifest_error list + manifest" where
  "parse_manifest yaml data =
     (let d = trim_prefix data bom
      in if isBlank d
         then Inl [ErrInvalidManifest, FieldFailure (FieldError [] Manifest_empty)]
         else case yaml d of
           Inl e \<Rightarrow> Inl [ErrInvalidManifest, FieldFailure (FieldError [] (Yaml_error e))]
         | Inr raw \<Rightarrow>
             (case validate raw of
                (m, errs) \<Rightarrow>
                  if errs \<noteq> [] then Inl (ErrInvalidManifest # map FieldFailure errs)
                  else (case m of Some m' \<Rightarrow> Inr m' | None \<Rightarrow> Inl [])))"

section \<open>What the specification asks of a manifest\<close>

definition dns_label :: "string \<Rightarrow> bool" where
  "dns_label s \<longleftrightarrow> s \<noteq> [] \<and> length s \<le> 63 \<and> lower_az (hd s) \<and> last s \<noteq> CHR ''-''
     \<and> (\<forall>c\<in>set s. dns_char c)"

definition rel_path :: "string \<Rightarrow> bool" where
  "rel_path s \<longleftrightarrow> s \<noteq> [] \<and> hd s \<notin> {CHR ''/'', CHR 0x5C} \<and> ''..'' \<notin> set (split_on CHR ''/'' s)"

definition host_label :: "string \<Rightarrow> bool" where
  "host_label l \<longleftrightarrow> l \<noteq> [] \<and> length l \<le> 63 \<and> hd l \<noteq> CHR ''-'' \<and> last l \<noteq> CHR ''-''
     \<and> (\<forall>c\<in>set l. label_char c)"

definition hostname :: "string \<Rightarrow> bool" where
  "hostname s \<longleftrightarrow> length s \<le> 253 \<and> \<not> is_ipv4 s \<and> (\<forall>l\<in>set (split_on CHR ''.'' s). host_label l)"

definition raw_external_ok :: "raw_external \<Rightarrow> bool" where
  "raw_external_ok r \<longleftrightarrow> (case (rx_host r, rx_reason r) of
     (Some h, Some t) \<Rightarrow> hostname h \<and> t \<noteq> [] | _ \<Rightarrow> False)"

definition raw_app_ok :: "raw_app \<Rightarrow> bool" where
  "raw_app_ok r \<longleftrightarrow> (case (ra_name r, ra_containerfile r) of
     (Some n, Some f) \<Rightarrow> dns_label n \<and> rel_path f
       \<and> (case ra_context r of None \<Rightarrow> True | Some c \<Rightarrow> rel_path c)
       \<and> (case ra_external r of None \<Rightarrow> True
          | Some es \<Rightarrow> list_all raw_external_ok es \<and> distinct (map rx_host es))
   | _ \<Rightarrow> False)"

definition raw_manifest_ok :: "raw_manifest \<Rightarrow> bool" where
  "raw_manifest_ok r \<longleftrightarrow> (case (rm_name r, rm_apps r) of
     (Some n, Some as) \<Rightarrow> dns_label n \<and> as \<noteq> [] \<and> list_all raw_app_ok as
       \<and> distinct (map ra_name as)
   | _ \<Rightarrow> False)"

definition decode_external :: "raw_external \<Rightarrow> external" where
  "decode_external r = \<lparr>ext_host = the (rx_host r), ext_reason = the (rx_reason r)\<rparr>"

definition decode_app :: "raw_app \<Rightarrow> app" where
  "decode_app r = \<lparr>app_name = the (ra_name r), app_containerfile = the (ra_containerfile r),
     app_context = (case ra_context r of None \<Rightarrow> [] | Some c \<Rightarrow> c),
     app_external = map_option (map decode_external) (ra_external r)\<rparr>"

definition decode_manifest :: "raw_manifest \<Rightarrow> manifest" where
  "decode_manifest r = \<lparr>man_name = the (rm_name r), man_apps = map decode_app (the (rm_apps r))\<rparr>"

section \<open>The validators decide the specification\<close>

lemma first_bad_None_iff: "first_bad ok i s = None \<longleftrightarrow> (\<forall>c\<in>set s. ok c)"
  by (induction s arbitrary: i) auto

lemma first_bad_SomeD: "first_bad ok i s = Some (c, j) \<Longrightarrow> c \<in> set s \<and> \<not> ok c"
  by (induction s arbitrary: i) (auto split: if_splits)

lemma opt_list_Nil_iff [simp]: "opt_list x = [] \<longleftrightarrow> x = None"
  by (simp add: opt_list_def split: option.splits)

lemma opt_list_simps [simp]: "opt_list None = []" "opt_list (Some a) = [a]"
  by (simp_all add: opt_list_def)

lemma lower_az_not_hyphen: "lower_az c \<Longrightarrow> c \<noteq> CHR ''-''"
  by (auto simp: lower_az_def)

lemma validateDNSLabel_None_iff: "validateDNSLabel s path = None \<longleftrightarrow> dns_label s"
proof (cases "length s = 1")
  case True
  then obtain c where "s = [c]" by (auto simp: length_Suc_conv)
  then show ?thesis
    by (auto simp: validateDNSLabel_def dns_label_def dns_char_def dest: lower_az_not_hyphen)
next
  case False
  then show ?thesis
    by (auto simp: validateDNSLabel_def dns_label_def first_bad_None_iff dest: first_bad_SomeD
        split: option.splits)
qed

lemma validateRelPath_None_iff: "validateRelPath s path = None \<longleftrightarrow> rel_path s"
  by (cases s) (auto simp: validateRelPath_def rel_path_def has_prefix_def)

lemma validateHostnameLabel_None_iff: "validateHostnameLabel l path = None \<longleftrightarrow> host_label l"
  by (auto simp: validateHostnameLabel_def host_label_def first_bad_None_iff dest: first_bad_SomeD
      split: option.splits)

lemma validateLabels_None_iff: "validateLabels ls path = None \<longleftrightarrow> (\<forall>l\<in>set ls. host_label l)"
  by (induction ls) (auto simp: validateHostnameLabel_None_iff[of _ path, symmetric] split: option.splits)

text \<open>
  The checks before the label loop are implied by it, but for the address check and
  the length: a host of well-formed labels has no scheme, port, path or wildcard.
\<close>

lemma label_char_not_special:
  "label_char c \<Longrightarrow> c \<notin> {CHR '':'', CHR ''/'', CHR ''*'', CHR '' '', CHR ''%'', CHR ''.''}"
  by (auto simp: label_char_def lower_az_def upper_az_def digit09_def)

lemma hostname_chars:
  assumes "hostname s" and "c \<in> set s"
  shows "label_char c \<or> c = CHR ''.''"
proof -
  have "c \<in> set (join_with CHR ''.'' ws) \<Longrightarrow> c = CHR ''.'' \<or> (\<exists>w\<in>set ws. c \<in> set w)" for ws
    by (induction "CHR ''.''" ws rule: join_with.induct) auto
  from this[of "split_on CHR ''.'' s"] assms show ?thesis
    by (auto simp: join_split hostname_def host_label_def)
qed

lemma hostname_no_special:
  assumes "hostname s" and "c \<in> {CHR '':'', CHR ''/'', CHR ''*'', CHR '' '', CHR ''%''}"
  shows "c \<notin> set s"
  using hostname_chars[OF assms(1), of c] label_char_not_special[of c] assms(2) by auto

lemma split_on_snoc_sep: "split_on sep (s @ [sep]) = split_on sep s @ [[]]"
  by (induction s) (auto split: list.splits)

lemma hostname_edges:
  assumes "hostname s"
  shows "s \<noteq> [] \<and> \<not> has_prefix s ''.'' \<and> \<not> has_suffix s ''.''"
proof (intro conjI notI)
  show False if "s = []" using assms that by (auto simp: hostname_def host_label_def)
  show False if "has_prefix s ''.''"
    using assms that by (auto simp: has_prefix_iff hostname_def host_label_def)
  show False if "has_suffix s ''.''"
    using assms that by (auto simp: has_suffix_iff hostname_def host_label_def split_on_snoc_sep)
qed

lemma hostname_not_ip: "hostname s \<Longrightarrow> \<not> parse_ip s"
  using hostname_no_special[of s "CHR '':''"] by (simp add: parse_ip_no_colon hostname_def)

lemma contains_set: "contains s sub \<Longrightarrow> set sub \<subseteq> set s"
  by (auto simp: contains_iff)

lemma validateHostname_None_iff: "validateHostname s path = None \<longleftrightarrow> hostname s"
proof
  assume v: "validateHostname s path = None"
  have colon: "CHR '':'' \<notin> set s" using v by (auto simp: validateHostname_def split: if_splits)
  have "\<not> parse_ip s" "length s \<le> 253" "validateLabels (split_on CHR ''.'' s) path = None"
    using v by (auto simp: validateHostname_def split: if_splits)
  moreover from this have labels: "\<forall>l\<in>set (split_on CHR ''.'' s). host_label l"
    by (simp add: validateLabels_None_iff)
  moreover have "CHR ''%'' \<notin> set s" if "is_ipv4 s"
  proof
    assume "CHR ''%'' \<in> set s"
    then have "CHR ''%'' \<in> set (join_with CHR ''.'' (split_on CHR ''.'' s))" by (simp add: join_split)
    moreover have "c \<in> set (join_with CHR ''.'' ws) \<Longrightarrow> c = CHR ''.'' \<or> (\<exists>w\<in>set ws. c \<in> set w)" for c ws
      by (induction "CHR ''.''" ws rule: join_with.induct) auto
    ultimately obtain w where "w \<in> set (split_on CHR ''.'' s)" "CHR ''%'' \<in> set w" by blast
    with labels show False using label_char_not_special by (fastforce simp: host_label_def)
  qed
  ultimately show "hostname s" using colon by (auto simp: hostname_def parse_ip_no_colon)
next
  assume h: "hostname s"
  have "CHR '':'' \<notin> set s" "CHR ''*'' \<notin> set s" "CHR '' '' \<notin> set s"
    using hostname_no_special[OF h] by auto
  then have "\<not> contains s ''://''" "\<not> contains s ''*''" "\<not> contains s '' ''"
    using contains_set[of s "''://''"] contains_set[of s "''*''"] contains_set[of s "'' ''"] by auto
  moreover have "CHR '':'' \<notin> set s" "CHR ''/'' \<notin> set s" using hostname_no_special[OF h] by auto
  ultimately show "validateHostname s path = None"
    using hostname_edges[OF h] hostname_not_ip[OF h] h
    by (simp add: validateHostname_def validateLabels_None_iff) (simp add: hostname_def)
qed

section \<open>Entries and the whole manifest\<close>

lemma validateExternal_spec:
  "validateExternal r path =
     (if raw_external_ok r then (Some (decode_external r), []) else (None, snd (validateExternal r path)))
   \<and> (snd (validateExternal r path) = [] \<longleftrightarrow> raw_external_ok r)"
  by (auto simp: validateExternal_def raw_external_ok_def decode_external_def Let_def
      validateHostname_None_iff split: option.splits)

lemma duplicate_of_None_iff:
  "duplicate_of seen name = None \<longleftrightarrow> (\<forall>n. name = Some n \<and> n \<noteq> [] \<longrightarrow> n \<notin> fst ` set seen)"
  by (auto simp: duplicate_of_def map_of_eq_None_iff split: option.splits)

lemma keys_note_seen:
  "fst ` set (note_seen seen name i) = (case name of
     None \<Rightarrow> fst ` set seen | Some n \<Rightarrow> if n = [] then fst ` set seen else insert n (fst ` set seen))"
  by (auto simp: note_seen_def dom_update dest: map_of_SomeD split: option.splits)
    (metis image_eqI fst_conv map_of_SomeD)+

text \<open>
  A loop with a map of seen names reports nothing exactly when every entry is
  acceptable and the names are distinct from each other and from those seen.
\<close>

definition fresh_names :: "string option list \<Rightarrow> (string \<times> nat) list \<Rightarrow> bool" where
  "fresh_names names seen \<longleftrightarrow> distinct names \<and> set names \<inter> Some ` fst ` set seen = {}"

lemma fresh_names_Cons:
  assumes "name = Some n" and "n \<noteq> []"
  shows "fresh_names (name # names) seen \<longleftrightarrow>
    duplicate_of seen name = None \<and> fresh_names names (note_seen seen name i)"
  using assms by (auto simp: fresh_names_def duplicate_of_None_iff keys_note_seen)

lemma hostname_nonempty: "hostname h \<Longrightarrow> h \<noteq> []"
  using hostname_edges by blast

lemma externals_loop_spec:
  "(snd (externals_loop path i seen rs) = [] \<longleftrightarrow>
      list_all raw_external_ok rs \<and> fresh_names (map rx_host rs) seen)
   \<and> (snd (externals_loop path i seen rs) = [] \<longrightarrow>
      fst (externals_loop path i seen rs) = map decode_external rs)"
proof (induction path i seen rs rule: externals_loop.induct)
  case (1 path i seen)
  then show ?case by (simp add: fresh_names_def)
next
  case (2 path i seen r rs)
  let ?p = "indexed (path @ ''.external'') i"
  have IH: "(snd (externals_loop path (Suc i) (note_seen seen (rx_host r) i) rs) = [] \<longleftrightarrow>
      list_all raw_external_ok rs \<and> fresh_names (map rx_host rs) (note_seen seen (rx_host r) i))
    \<and> (snd (externals_loop path (Suc i) (note_seen seen (rx_host r) i) rs) = [] \<longrightarrow>
      fst (externals_loop path (Suc i) (note_seen seen (rx_host r) i) rs) = map decode_external rs)"
    using 2 by (metis prod.collapse)
  show ?case
  proof (cases "raw_external_ok r")
    case True
    then obtain h where h: "rx_host r = Some h" "h \<noteq> []"
      by (auto simp: raw_external_ok_def hostname_nonempty split: option.splits)
    have ve: "validateExternal r ?p = (Some (decode_external r), [])"
      using validateExternal_spec[of r ?p] True by simp
    show ?thesis using IH True fresh_names_Cons[OF h, of "map rx_host rs" seen i]
      by (auto simp: Let_def ve split: prod.splits option.splits)
  next
    case False
    then have "snd (validateExternal r ?p) \<noteq> []" using validateExternal_spec[of r ?p] by simp
    then show ?thesis using False by (simp add: Let_def case_prod_beta)
  qed
qed

lemma validateApp_spec:
  "(snd (validateApp r path) = [] \<longleftrightarrow> raw_app_ok r)
   \<and> (raw_app_ok r \<longrightarrow> validateApp r path = (Some (decode_app r), []))"
proof (cases "ra_external r")
  case None
  then show ?thesis
    by (auto simp: validateApp_def raw_app_ok_def decode_app_def Let_def validateDNSLabel_None_iff
        validateRelPath_None_iff split: option.splits)
next
  case (Some es)
  obtain exts errs where loop: "externals_loop path 0 [] es = (exts, errs)" by (cases "externals_loop path 0 [] es")
  have "fresh_names (map rx_host es) [] = distinct (map rx_host es)" by (simp add: fresh_names_def)
  then have "errs = [] \<longleftrightarrow> list_all raw_external_ok es \<and> distinct (map rx_host es)"
    and "errs = [] \<longrightarrow> exts = map decode_external es"
    using externals_loop_spec[of path 0 "[]" es] loop by auto
  then show ?thesis using Some loop
    by (auto simp: validateApp_def raw_app_ok_def decode_app_def Let_def validateDNSLabel_None_iff
        validateRelPath_None_iff split: option.splits)
qed

lemma dns_label_nonempty: "dns_label n \<Longrightarrow> n \<noteq> []"
  by (simp add: dns_label_def)

lemma apps_loop_spec:
  "(snd (apps_loop i seen rs) = [] \<longleftrightarrow> list_all raw_app_ok rs \<and> fresh_names (map ra_name rs) seen)
   \<and> (snd (apps_loop i seen rs) = [] \<longrightarrow> fst (apps_loop i seen rs) = map decode_app rs)"
proof (induction i seen rs rule: apps_loop.induct)
  case (1 i seen)
  then show ?case by (simp add: fresh_names_def)
next
  case (2 i seen r rs)
  let ?p = "indexed ''apps'' i"
  have IH: "(snd (apps_loop (Suc i) (note_seen seen (ra_name r) i) rs) = [] \<longleftrightarrow>
      list_all raw_app_ok rs \<and> fresh_names (map ra_name rs) (note_seen seen (ra_name r) i))
    \<and> (snd (apps_loop (Suc i) (note_seen seen (ra_name r) i) rs) = [] \<longrightarrow>
      fst (apps_loop (Suc i) (note_seen seen (ra_name r) i) rs) = map decode_app rs)"
    using 2 by (metis prod.collapse)
  show ?case
  proof (cases "raw_app_ok r")
    case True
    then obtain n where n: "ra_name r = Some n" "n \<noteq> []"
      by (auto simp: raw_app_ok_def dns_label_nonempty split: option.splits)
    have va: "validateApp r ?p = (Some (decode_app r), [])"
      using validateApp_spec[of r ?p] True by simp
    show ?thesis using IH True fresh_names_Cons[OF n, of "map ra_name rs" seen i]
      by (auto simp: Let_def va split: prod.splits option.splits)
  next
    case False
    then have "snd (validateApp r ?p) \<noteq> []" using validateApp_spec[of r ?p] by simp
    then show ?thesis using False by (simp add: Let_def case_prod_beta)
  qed
qed

lemma validate_spec:
  "(validate raw = (Some m, []) \<longleftrightarrow> raw_manifest_ok raw \<and> m = decode_manifest raw)
   \<and> (raw_manifest_ok raw \<longleftrightarrow> snd (validate raw) = [])
   \<and> (raw_manifest_ok raw \<longleftrightarrow> fst (validate raw) \<noteq> None)"
proof -
  obtain apps errs where loop: "apps_loop 0 [] (the (rm_apps raw)) = (apps, errs)"
    by (cases "apps_loop 0 [] (the (rm_apps raw))")
  have "fresh_names (map ra_name (the (rm_apps raw))) [] = distinct (map ra_name (the (rm_apps raw)))"
    by (simp add: fresh_names_def)
  then have ok: "errs = [] \<longleftrightarrow>
        list_all raw_app_ok (the (rm_apps raw)) \<and> distinct (map ra_name (the (rm_apps raw)))"
      "errs = [] \<longrightarrow> apps = map decode_app (the (rm_apps raw))"
    using apps_loop_spec[of 0 "[]" "the (rm_apps raw)"] loop by auto
  have "validate raw = (Some m, []) \<longleftrightarrow> raw_manifest_ok raw \<and> m = decode_manifest raw"
    using ok loop
    by (auto simp: validate_def raw_manifest_ok_def decode_manifest_def Let_def
        validateDNSLabel_None_iff split: option.splits if_splits)
  moreover have "(raw_manifest_ok raw \<longleftrightarrow> snd (validate raw) = [])
      \<and> (raw_manifest_ok raw \<longleftrightarrow> fst (validate raw) \<noteq> None)"
    using ok loop
    by (auto simp: validate_def raw_manifest_ok_def Let_def validateDNSLabel_None_iff
        split: option.splits if_splits)
  ultimately show ?thesis by blast
qed

text \<open>
  The validator decides the specification: it returns the decoded manifest
  exactly when the manifest satisfies the documented rules (DNS-label names,
  relative paths without \<open>..\<close>, valid hostnames, non-empty reasons, unique names
  and hosts), and otherwise it returns no manifest and at least one failure.
\<close>

theorem validate_decides:
  "(validate raw = (Some m, []) \<longleftrightarrow> raw_manifest_ok raw \<and> m = decode_manifest raw)
   \<and> (raw_manifest_ok raw \<longleftrightarrow> snd (validate raw) = [])
   \<and> (raw_manifest_ok raw \<longleftrightarrow> fst (validate raw) \<noteq> None)"
  by (rule validate_spec)

text \<open>What the rest of the system may rely on of a manifest it is handed.\<close>

definition declared :: "app \<Rightarrow> external list" where
  "declared a = (case app_external a of None \<Rightarrow> [] | Some ds \<Rightarrow> ds)"

definition app_ok :: "app \<Rightarrow> bool" where
  "app_ok a \<longleftrightarrow> dns_label (app_name a) \<and> rel_path (app_containerfile a)
     \<and> (\<forall>d\<in>set (declared a). hostname (ext_host d) \<and> ext_reason d \<noteq> [])
     \<and> distinct (map ext_host (declared a))"

definition manifest_ok :: "manifest \<Rightarrow> bool" where
  "manifest_ok m \<longleftrightarrow> dns_label (man_name m) \<and> man_apps m \<noteq> []
     \<and> list_all app_ok (man_apps m) \<and> distinct (map app_name (man_apps m))"

lemma raw_external_ok_decode:
  "raw_external_ok r \<Longrightarrow> rx_host r = Some (ext_host (decode_external r))
     \<and> hostname (ext_host (decode_external r)) \<and> ext_reason (decode_external r) \<noteq> []"
  by (auto simp: raw_external_ok_def decode_external_def split: option.splits)

lemma raw_app_ok_decode:
  assumes "raw_app_ok r"
  shows "ra_name r = Some (app_name (decode_app r)) \<and> app_ok (decode_app r)"
proof -
  have "map rx_host es = map (Some \<circ> ext_host \<circ> decode_external) es" if "list_all raw_external_ok es" for es
    using that raw_external_ok_decode by (auto simp: list_all_iff)
  then have "distinct (map (ext_host \<circ> decode_external) es)"
    if "list_all raw_external_ok es" "distinct (map rx_host es)" for es
    using that by (metis distinct_map list.map_comp)
  then show ?thesis
    using assms raw_external_ok_decode
    by (auto simp: raw_app_ok_def decode_app_def app_ok_def declared_def list_all_iff o_def
        split: option.splits)
qed

lemma validate_ok:
  assumes "fst (validate raw) = Some m" and "snd (validate raw) = []"
  shows "manifest_ok m"
proof -
  have m: "raw_manifest_ok raw" "m = decode_manifest raw"
    using validate_spec[of raw m] assms by (metis prod.collapse)+
  then obtain n rs where r: "rm_name raw = Some n" "rm_apps raw = Some rs"
    and ok: "dns_label n" "rs \<noteq> []" "list_all raw_app_ok rs" "distinct (map ra_name rs)"
    by (auto simp: raw_manifest_ok_def split: option.splits)
  have "map ra_name rs = map Some (map (app_name \<circ> decode_app) rs)"
    using ok(3) raw_app_ok_decode by (auto simp: list_all_iff)
  then have "distinct (map (app_name \<circ> decode_app) rs)" using ok(4) by (metis distinct_map)
  moreover have "list_all app_ok (map decode_app rs)"
    using ok(3) raw_app_ok_decode by (auto simp: list_all_iff)
  ultimately show ?thesis using m r ok
    by (simp add: manifest_ok_def decode_manifest_def o_def)
qed

lemma parse_manifest_Inr:
  "parse_manifest yaml data = Inr m \<Longrightarrow> manifest_ok m"
proof -
  assume p: "parse_manifest yaml data = Inr m"
  then obtain raw where y: "yaml (trim_prefix data bom) = Inr raw"
    by (auto simp: parse_manifest_def Let_def simp del: split_paired_Ex split: if_splits sum.splits)
  obtain om errs where v: "validate raw = (om, errs)" by (cases "validate raw")
  have "errs = [] \<and> om = Some m"
    using p y v by (auto simp: parse_manifest_def Let_def split: if_splits option.splits)
  then show ?thesis using validate_ok[of raw m] v by simp
qed

text \<open>
  \<open>Parse\<close> returns a manifest or an error, never neither, and whatever the YAML
  decoder yields: a returned manifest is well formed (label names, relative paths,
  hostnames that are no addresses, a reason for every host, no name or host
  twice), and every failure carries \<open>ErrInvalidManifest\<close>, which callers match on.
\<close>

theorem parse_manifest_sound:
  "case parse_manifest yaml data of
     Inr m \<Rightarrow> manifest_ok m
   | Inl errs \<Rightarrow> ErrInvalidManifest \<in> set errs \<and> length errs \<ge> 2"
proof (cases "parse_manifest yaml data")
  case (Inr m)
  then show ?thesis using parse_manifest_Inr by simp
next
  case (Inl errs)
  show ?thesis
  proof (cases "isBlank (trim_prefix data bom) \<or> isl (yaml (trim_prefix data bom))")
    case True
    then show ?thesis using Inl by (auto simp: parse_manifest_def Let_def split: if_splits sum.splits)
  next
    case False
    then obtain raw where y: "yaml (trim_prefix data bom) = Inr raw"
      by (cases "yaml (trim_prefix data bom)") auto
    obtain om fs where v: "validate raw = (om, fs)" by (cases "validate raw")
    have "om \<noteq> None" if "fs = []" using that v validate_spec[of raw] by simp
    then have "errs = ErrInvalidManifest # map FieldFailure fs \<and> fs \<noteq> []"
      using Inl False y v by (auto simp: parse_manifest_def Let_def split: if_splits option.splits)
    then show ?thesis using Inl by (cases fs) simp_all
  qed
qed

section \<open>Every failure is reported where it is\<close>

lemma validateDNSLabel_path: "validateDNSLabel s p = Some e \<Longrightarrow> fe_path e = p"
  by (auto simp: validateDNSLabel_def split: if_splits option.splits)

lemma validateRelPath_path: "validateRelPath s p = Some e \<Longrightarrow> fe_path e = p"
  by (auto simp: validateRelPath_def split: if_splits)

lemma validateHostnameLabel_path: "validateHostnameLabel s p = Some e \<Longrightarrow> fe_path e = p"
  by (auto simp: validateHostnameLabel_def split: if_splits option.splits)

lemma validateHostname_path: "validateHostname s p = Some e \<Longrightarrow> fe_path e = p"
proof -
  have "validateLabels ls p = Some e \<Longrightarrow> fe_path e = p" for ls
    by (induction ls) (auto dest: validateHostnameLabel_path split: option.splits)
  then show "validateHostname s p = Some e \<Longrightarrow> fe_path e = p"
    by (auto simp: validateHostname_def split: if_splits)
qed

lemma in_opt_list [simp]: "x \<in> set (opt_list o') \<longleftrightarrow> o' = Some x"
  by (auto simp: opt_list_def split: option.splits)

lemma validateExternal_path:
  "e \<in> set (snd (validateExternal r p)) \<Longrightarrow> has_prefix (fe_path e) p"
  by (auto simp: validateExternal_def Let_def dest!: validateHostname_path
      split: option.splits if_splits)

lemma externals_loop_path:
  "e \<in> set (snd (externals_loop p i seen rs)) \<Longrightarrow> has_prefix (fe_path e) p"
proof (induction p i seen rs rule: externals_loop.induct)
  case (1 p i seen)
  then show ?case by simp
next
  case (2 p i seen r rs)
  let ?q = "indexed (p @ ''.external'') i"
  have q: "has_prefix ?q p" by (simp add: indexed_def)
  from 2(2) consider "e \<in> set (snd (validateExternal r ?q))"
    | "e \<in> set (snd (externals_loop p (Suc i) (note_seen seen (rx_host r) i) rs))"
    | "fe_path e = ?q @ ''.host''"
    by (auto simp: Let_def case_prod_beta split: option.splits)
  then show ?case
  proof cases
    case 1
    then show ?thesis using validateExternal_path has_prefix_trans q by blast
  next
    case 2
    then show ?thesis using "2.IH" by (metis prod.collapse)
  next
    case 3
    then show ?thesis using q by (simp add: indexed_def)
  qed
qed

lemma validateApp_path:
  "e \<in> set (snd (validateApp r p)) \<Longrightarrow> has_prefix (fe_path e) p"
  by (auto simp: validateApp_def Let_def case_prod_beta dest!: validateDNSLabel_path
      validateRelPath_path externals_loop_path split: option.splits if_splits)

lemma apps_loop_reports:
  "i < length rs \<Longrightarrow> \<not> raw_app_ok (rs ! i) \<Longrightarrow>
     \<exists>e\<in>set (snd (apps_loop k seen rs)). has_prefix (fe_path e) (indexed ''apps'' (k + i))"
proof (induction rs arbitrary: i k seen)
  case Nil
  then show ?case by simp
next
  case (Cons r rs)
  show ?case
  proof (cases i)
    case 0
    then have "snd (validateApp r (indexed ''apps'' k)) \<noteq> []"
      using Cons.prems validateApp_spec[of r "indexed ''apps'' k"] by simp
    then obtain e where "e \<in> set (snd (validateApp r (indexed ''apps'' k)))"
      by (meson list.set_sel(1))
    then show ?thesis using 0 validateApp_path
      by (auto simp: Let_def case_prod_beta intro!: bexI[of _ e])
  next
    case (Suc j)
    then obtain e where
      "e \<in> set (snd (apps_loop (Suc k) (note_seen seen (ra_name r) k) rs))"
      "has_prefix (fe_path e) (indexed ''apps'' (Suc k + j))"
      using Cons.IH[of j "Suc k" "note_seen seen (ra_name r) k"] Cons.prems by auto
    then show ?thesis using Suc by (auto simp: Let_def case_prod_beta intro!: bexI[of _ e])
  qed
qed

text \<open>
  Failures are aggregated, not cut off at the first: every application entry
  that breaks a rule has a failure of its own, filed under its own index, whatever
  else is wrong with the manifest.
\<close>

theorem validate_reports_every_app:
  assumes "rm_apps raw = Some apps" and "i < length apps" and "\<not> raw_app_ok (apps ! i)"
  shows "\<exists>e\<in>set (snd (validate raw)). has_prefix (fe_path e) (''apps['' @ decimal i @ '']'')"
proof -
  obtain e where e: "e \<in> set (snd (apps_loop 0 [] apps))" "has_prefix (fe_path e) (indexed ''apps'' i)"
    using apps_loop_reports[OF assms(2,3), of 0 "[]"] by auto
  have "apps \<noteq> []" using assms(2) by auto
  moreover have "snd (apps_loop 0 [] apps) \<noteq> []" using e(1) by auto
  ultimately show ?thesis using assms(1) e
    by (auto simp: validate_def Let_def case_prod_beta indexed_def intro!: bexI[of _ e])
qed

definition demo_bad_app :: raw_app where
  "demo_bad_app = \<lparr>ra_name = Some ''Api'', ra_containerfile = None, ra_context = None, ra_external = None\<rparr>"

definition demo_good_app :: raw_app where
  "demo_good_app = \<lparr>ra_name = Some ''web'', ra_containerfile = Some ''./Containerfile'',
     ra_context = None, ra_external = None\<rparr>"

theorem validate_reports_every_app_witness:
  "\<exists>e\<in>set (snd (validate \<lparr>rm_name = None, rm_apps = Some [demo_good_app, demo_bad_app]\<rparr>)).
     has_prefix (fe_path e) (''apps['' @ decimal 1 @ '']'')"
proof (rule validate_reports_every_app)
  show "\<not> raw_app_ok ([demo_good_app, demo_bad_app] ! 1)"
    by (simp add: demo_bad_app_def raw_app_ok_def)
qed simp_all

text \<open>The label rule is the documented regular expression, the one-letter name included.\<close>

lemma dns_label_regex:
  "dns_label s \<longleftrightarrow>
     (\<exists>c. s = [c] \<and> lower_az c) \<or>
     (\<exists>c m d. s = c # m @ [d] \<and> lower_az c \<and> length m \<le> 61 \<and> (\<forall>x\<in>set m. dns_char x)
        \<and> (lower_az d \<or> digit09 d))"
proof (cases s)
  case Nil
  then show ?thesis by (simp add: dns_label_def)
next
  case (Cons c r)
  show ?thesis
  proof (cases r rule: rev_cases)
    case Nil
    then show ?thesis using Cons lower_az_not_hyphen by (auto simp: dns_label_def dns_char_def)
  next
    case (snoc m d)
    then show ?thesis using Cons lower_az_not_hyphen
      by (auto simp: dns_label_def dns_char_def digit09_def)
  qed
qed

end
