(* ===== verification/Encoding.thy ===== *)
theory Encoding
  imports Go_Strings
begin

text \<open>
  Hexadecimal and base64 as \<open>encoding/hex\<close> and \<open>encoding/base64\<close> (standard
  alphabet, padded) read and write them, with their round trips. A byte is a \<open>char\<close>.
\<close>

section \<open>Hexadecimal\<close>

definition hex_char :: "nat \<Rightarrow> char" where
  "hex_char n = (if n < 10 then char_of (48 + n) else char_of (87 + n))"

definition hex_val :: "char \<Rightarrow> nat option" where
  "hex_val c =
     (let n = byte_val c in
      if 48 \<le> n \<and> n \<le> 57 then Some (n - 48)
      else if 97 \<le> n \<and> n \<le> 102 then Some (n - 87)
      else if 65 \<le> n \<and> n \<le> 70 then Some (n - 55)
      else None)"

fun hex_encode :: "string \<Rightarrow> string" where
  "hex_encode [] = []"
| "hex_encode (b # bs) = hex_char (byte_val b div 16) # hex_char (byte_val b mod 16) # hex_encode bs"

fun hex_decode :: "string \<Rightarrow> string option" where
  "hex_decode [] = Some []"
| "hex_decode [c] = None"
| "hex_decode (c # d # s) =
     (case (hex_val c, hex_val d) of
        (Some h, Some l) \<Rightarrow> map_option (\<lambda>bs. byte (h * 16 + l) # bs) (hex_decode s)
      | _ \<Rightarrow> None)"

lemma hex_val_char: "n < 16 \<Longrightarrow> hex_val (hex_char n) = Some n"
  by (simp add: hex_val_def hex_char_def byte_val_def Let_def)

lemma byte_byte_val [simp]: "byte (byte_val c) = c"
  by (simp add: byte_def byte_val_def)

lemma byte_val_byte [simp]: "n < 256 \<Longrightarrow> byte_val (byte n) = n"
  by (simp add: byte_def byte_val_def)

lemma hex_decode_encode: "hex_decode (hex_encode bs) = Some bs"
proof (induction bs)
  case Nil
  then show ?case by simp
next
  case (Cons b bs)
  have "byte_val b div 16 < 16" using byte_val_less[of b] by simp
  then show ?case using Cons by (simp add: hex_val_char mult.commute)
qed

lemma length_hex_encode [simp]: "length (hex_encode bs) = 2 * length bs"
  by (induction bs) auto

lemma hex_encode_inj: "hex_encode a = hex_encode b \<longleftrightarrow> a = b"
  by (metis hex_decode_encode option.inject)

section \<open>Base64\<close>

definition b64_char :: "nat \<Rightarrow> char" where
  "b64_char n =
     (if n < 26 then char_of (65 + n)
      else if n < 52 then char_of (71 + n)
      else if n < 62 then char_of (n - 4)
      else if n = 62 then CHR ''+'' else CHR ''/'')"

definition b64_val :: "char \<Rightarrow> nat option" where
  "b64_val c =
     (let n = byte_val c in
      if 65 \<le> n \<and> n \<le> 90 then Some (n - 65)
      else if 97 \<le> n \<and> n \<le> 122 then Some (n - 71)
      else if 48 \<le> n \<and> n \<le> 57 then Some (n + 4)
      else if n = 43 then Some 62
      else if n = 47 then Some 63
      else None)"

fun b64_encode :: "string \<Rightarrow> string" where
  "b64_encode [] = []"
| "b64_encode [a] =
     [b64_char (byte_val a div 4), b64_char (byte_val a mod 4 * 16), CHR ''='', CHR ''='']"
| "b64_encode [a, b] =
     [b64_char (byte_val a div 4), b64_char (byte_val a mod 4 * 16 + byte_val b div 16),
      b64_char (byte_val b mod 16 * 4), CHR ''='']"
| "b64_encode (a # b # c # s) =
     b64_char (byte_val a div 4) # b64_char (byte_val a mod 4 * 16 + byte_val b div 16)
     # b64_char (byte_val b mod 16 * 4 + byte_val c div 64) # b64_char (byte_val c mod 64)
     # b64_encode s"

text \<open>The decoder over the input without its line breaks, four characters at a time.\<close>

fun b64_quads :: "string \<Rightarrow> string option" where
  "b64_quads [] = Some []"
| "b64_quads (w # x # y # z # s) =
     (case (b64_val w, b64_val x) of
        (Some a, Some b) \<Rightarrow>
          if y = CHR ''='' then
            (if z = CHR ''='' \<and> s = [] then Some [byte (a * 4 + b div 16)] else None)
          else (case b64_val y of
              None \<Rightarrow> None
            | Some c \<Rightarrow>
                if z = CHR ''='' then
                  (if s = [] then Some [byte (a * 4 + b div 16), byte (b mod 16 * 16 + c div 4)]
                   else None)
                else (case b64_val z of
                    None \<Rightarrow> None
                  | Some d \<Rightarrow>
                      map_option (\<lambda>bs. byte (a * 4 + b div 16) # byte (b mod 16 * 16 + c div 4)
                        # byte (c mod 4 * 64 + d) # bs) (b64_quads s)))
      | _ \<Rightarrow> None)"
| "b64_quads _ = None"

definition b64_decode :: "string \<Rightarrow> string option" where
  "b64_decode s = b64_quads (filter (\<lambda>c. c \<noteq> byte 10 \<and> c \<noteq> byte 13) s)"

lemma b64_val_char: "n < 64 \<Longrightarrow> b64_val (b64_char n) = Some n"
  by (auto simp: b64_val_def b64_char_def byte_val_def Let_def)

lemma b64_char_not_special:
  "n < 64 \<Longrightarrow> b64_char n \<noteq> CHR ''='' \<and> b64_char n \<noteq> byte 10 \<and> b64_char n \<noteq> byte 13"
  using b64_val_char[of n] by (auto simp: b64_val_def byte_val_def byte_def)

lemma sextet_bounds:
  assumes "(a::nat) < 256" and "b < 256"
  shows "a div 4 < 64" and "a mod 4 * 16 + b div 16 < 64" and "a mod 16 * 4 + b div 64 < 64"
    and "a mod 4 * 16 < 64" and "a mod 16 * 4 < 64" and "a mod 64 < 64"
proof -
  show "a div 4 < 64" using assms(1) by simp
  show "a mod 64 < 64" by simp
  have "a mod 4 \<le> 3" "a mod 16 \<le> 15" by simp_all
  moreover have "b div 16 \<le> 15" "b div 64 \<le> 3" using assms(2) by simp_all
  ultimately show "a mod 4 * 16 + b div 16 < 64" "a mod 16 * 4 + b div 64 < 64"
    "a mod 4 * 16 < 64" "a mod 16 * 4 < 64" by linarith+
qed

lemma sextet_joins:
  assumes "(b::nat) < 256"
  shows "(a mod 4 * 16 + b div 16) div 16 = a mod 4" and "(a mod 4 * 16 + b div 16) mod 16 = b div 16"
    and "(a mod 16 * 4 + b div 64) div 4 = a mod 16" and "(a mod 16 * 4 + b div 64) mod 4 = b div 64"
proof -
  have b: "b div 16 < 16" "b div 64 < 4" using assms by simp_all
  show "(a mod 4 * 16 + b div 16) div 16 = a mod 4" "(a mod 4 * 16 + b div 16) mod 16 = b div 16"
    "(a mod 16 * 4 + b div 64) div 4 = a mod 16" "(a mod 16 * 4 + b div 64) mod 4 = b div 64"
    using b by (simp_all add: div_add1_eq mod_add_eq)
qed

lemma high_nibble:
  assumes "(x::nat) < 256"
  shows "x div 16 div 16 = 0" and "x div 16 mod 16 = x div 16"
    and "x div 64 div 4 = 0" and "x div 64 mod 4 = x div 64"
proof -
  have "x div 16 < 16" "x div 64 < 4" using assms by simp_all
  then show "x div 16 div 16 = 0" "x div 16 mod 16 = x div 16"
    "x div 64 div 4 = 0" "x div 64 mod 4 = x div 64" by simp_all
qed

lemma b64_quads_encode: "b64_quads (b64_encode bs) = Some bs"
proof (induction bs rule: b64_encode.induct)
  case 1
  then show ?case by simp
next
  case (2 a)
  show ?case
    using sextet_bounds[OF byte_val_less[of a] byte_val_less[of a]] by (simp add: b64_val_char)
next
  case (3 a b)
  show ?case
    using sextet_bounds[OF byte_val_less[of a] byte_val_less[of b]] sextet_bounds(5)[OF byte_val_less[of b] byte_val_less[of b]]
    by (simp add: b64_val_char b64_char_not_special sextet_joins high_nibble byte_val_less)
next
  case (4 a b c s)
  show ?case
    using 4 sextet_bounds[OF byte_val_less[of a] byte_val_less[of b]]
      sextet_bounds[OF byte_val_less[of b] byte_val_less[of c]]
    by (simp add: b64_val_char b64_char_not_special sextet_joins high_nibble byte_val_less)
qed

lemma b64_encode_chars:
  "x \<in> set (b64_encode bs) \<Longrightarrow> x = CHR ''='' \<or> (\<exists>n<64. x = b64_char n)"
proof (induction bs rule: b64_encode.induct)
  case 1
  then show ?case by simp
next
  case (2 a)
  then have "x = b64_char (byte_val a div 4) \<or> x = b64_char (byte_val a mod 4 * 16) \<or> x = CHR ''=''"
    by auto
  then show ?case using sextet_bounds(1,4)[OF byte_val_less[of a] byte_val_less[of a]] by blast
next
  case (3 a b)
  then have "x = b64_char (byte_val a div 4) \<or> x = b64_char (byte_val a mod 4 * 16 + byte_val b div 16)
      \<or> x = b64_char (byte_val b mod 16 * 4) \<or> x = CHR ''=''" by auto
  then show ?case
    using sextet_bounds(1,2)[OF byte_val_less[of a] byte_val_less[of b]]
      sextet_bounds(5)[OF byte_val_less[of b] byte_val_less[of b]] by blast
next
  case (4 a b c s)
  have "byte_val c mod 64 < 64" by simp
  with 4 show ?case
    using sextet_bounds(1,2)[OF byte_val_less[of a] byte_val_less[of b]]
      sextet_bounds(3)[OF byte_val_less[of b] byte_val_less[of c]]
    by (metis b64_encode.simps(4) set_ConsD)
qed

lemma b64_encode_no_breaks:
  assumes "x \<in> set (b64_encode bs)"
  shows "x \<noteq> byte 10 \<and> x \<noteq> byte 13"
proof -
  have "CHR ''='' \<noteq> byte 10" "CHR ''='' \<noteq> byte 13" by code_simp+
  then show ?thesis using b64_encode_chars[OF assms] b64_char_not_special by metis
qed

lemma b64_decode_encode: "b64_decode (b64_encode bs) = Some bs"
proof -
  have "filter (\<lambda>c. c \<noteq> byte 10 \<and> c \<noteq> byte 13) (b64_encode bs) = b64_encode bs"
    using b64_encode_no_breaks by (simp add: filter_id_conv)
  then show ?thesis by (simp add: b64_decode_def b64_quads_encode)
qed

end
