(* ===== verification/Egress_Policy.thy ===== *)
theory Egress_Policy
  imports Manifest Encoding
begin

text \<open>
  Who may reach what: FatLine's allowlist (\<open>fatline/internal/allowlist\<close>), the
  per-application policy document (\<open>fatline/policy\<close>) and Shrike's read-only copy
  of the contract (\<open>shrike/internal/policy\<close>). \<open>ulower\<close> is the Unicode part of
  \<open>strings.ToLower\<close>, \<open>sha\<close> is \<open>sha256.Sum256\<close>.
\<close>

section \<open>Normalised hosts\<close>

definition normalize :: "(string \<Rightarrow> string) \<Rightarrow> string \<Rightarrow> string" where
  "normalize ulower host = trim_suffix (to_lower ulower (trim_space host)) ''.''"

definition isIP :: "string \<Rightarrow> bool" where
  "isIP host = parse_ip (trim_prefix (trim_suffix host '']'') ''['')"

section \<open>FatLine's allowlist\<close>

record decision =
  dec_allowed :: bool
  dec_host :: string
  dec_reason :: string

text \<open>The immutable snapshot: tenant to host to reason, and the default tenant's list.\<close>

record allowlist =
  al_tenants :: "(string \<times> (string \<times> string) list) list"
  al_hosts :: "external list"

definition defaultTenant :: string where
  "defaultTenant = []"

fun host_reasons :: "(string \<Rightarrow> string) \<Rightarrow> (string \<times> string) list \<Rightarrow> external list \<Rightarrow> (string \<times> string) list" where
  "host_reasons ulower hosts [] = hosts"
| "host_reasons ulower hosts (d # ds) =
     (let h = normalize ulower (ext_host d)
      in if h = [] then host_reasons ulower hosts ds
         else host_reasons ulower (AList.update h (ext_reason d) hosts) ds)"

fun build_loop :: "(string \<Rightarrow> string) \<Rightarrow> allowlist \<Rightarrow> (string \<times> external list) list \<Rightarrow> allowlist" where
  "build_loop ulower s [] = s"
| "build_loop ulower s ((tenant, decls) # rest) =
     (let s1 = s\<lparr>al_tenants := AList.update tenant (host_reasons ulower [] decls) (al_tenants s)\<rparr>;
          s2 = (if tenant = defaultTenant then s1\<lparr>al_hosts := decls\<rparr> else s1)
      in build_loop ulower s2 rest)"

definition build :: "(string \<Rightarrow> string) \<Rightarrow> (string \<times> external list) list \<Rightarrow> allowlist" where
  "build ulower byTenant = build_loop ulower \<lparr>al_tenants = [], al_hosts = []\<rparr> byTenant"

definition New :: "(string \<Rightarrow> string) \<Rightarrow> external list \<Rightarrow> allowlist" where
  "New ulower decls = build ulower [(defaultTenant, decls)]"

definition NewPerApp :: "(string \<Rightarrow> string) \<Rightarrow> (string \<times> external list) list \<Rightarrow> allowlist" where
  "NewPerApp ulower byTenant = build ulower byTenant"

text \<open>\<open>Reload\<close> and \<open>ReloadPerApp\<close> publish a new snapshot and keep nothing of the old one.\<close>

definition Reload :: "(string \<Rightarrow> string) \<Rightarrow> external list \<Rightarrow> allowlist \<Rightarrow> allowlist" where
  "Reload ulower decls l = build ulower [(defaultTenant, decls)]"

definition ReloadPerApp :: "(string \<Rightarrow> string) \<Rightarrow> (string \<times> external list) list \<Rightarrow> allowlist \<Rightarrow> allowlist" where
  "ReloadPerApp ulower byTenant l = build ulower byTenant"

definition Tenants :: "allowlist \<Rightarrow> string list" where
  "Tenants l = sort_by (key_less id) (map fst (al_tenants l))"

definition HostsFor :: "allowlist \<Rightarrow> string \<Rightarrow> string list" where
  "HostsFor l tenant = sort_by (key_less id) (map fst (get_or [] (al_tenants l) tenant))"

definition Allow :: "(string \<Rightarrow> string) \<Rightarrow> allowlist \<Rightarrow> string \<Rightarrow> string \<Rightarrow> decision" where
  "Allow ulower l tenant host =
     (let h = normalize ulower host in
      if h = [] \<or> isIP h
      then \<lparr>dec_allowed = False, dec_host = h, dec_reason = ''not_in_allowlist''\<rparr>
      else case map_of (get_or [] (al_tenants l) tenant) h of
          Some reason \<Rightarrow> \<lparr>dec_allowed = True, dec_host = h, dec_reason = reason\<rparr>
        | None \<Rightarrow> \<lparr>dec_allowed = False, dec_host = h, dec_reason = ''not_in_allowlist''\<rparr>)"

definition Allowed :: "(string \<Rightarrow> string) \<Rightarrow> allowlist \<Rightarrow> string \<Rightarrow> decision" where
  "Allowed ulower l host = Allow ulower l defaultTenant host"

definition allowlist_Hosts :: "(string \<Rightarrow> string) \<Rightarrow> allowlist \<Rightarrow> string list" where
  "allowlist_Hosts ulower l = filter (\<lambda>h. h \<noteq> []) (map (\<lambda>d. normalize ulower (ext_host d)) (al_hosts l))"

section \<open>Shrike's policy\<close>

record shrike_policy =
  sp_hosts :: "(string \<times> string) list"
  sp_order :: "string list"

fun shrike_new_loop :: "(string \<Rightarrow> string) \<Rightarrow> shrike_policy \<Rightarrow> external list \<Rightarrow> shrike_policy" where
  "shrike_new_loop ulower p [] = p"
| "shrike_new_loop ulower p (d # ds) =
     (let h = normalize ulower (ext_host d) in
      if h = [] \<or> isIP h then shrike_new_loop ulower p ds
      else shrike_new_loop ulower
        \<lparr>sp_hosts = AList.update h (ext_reason d) (sp_hosts p),
         sp_order = (if map_of (sp_hosts p) h = None then sp_order p @ [h] else sp_order p)\<rparr> ds)"

definition shrike_New :: "(string \<Rightarrow> string) \<Rightarrow> external list \<Rightarrow> shrike_policy" where
  "shrike_New ulower decls = shrike_new_loop ulower \<lparr>sp_hosts = [], sp_order = []\<rparr> decls"

definition Declared :: "(string \<Rightarrow> string) \<Rightarrow> shrike_policy \<Rightarrow> string \<Rightarrow> string option" where
  "Declared ulower p host = map_of (sp_hosts p) (normalize ulower host)"

section \<open>The contract both enforce\<close>

text \<open>
  The abstract egress contract: a host is permitted when some declaration has the
  same normalised host, which is neither empty nor an address; the reason is the
  last such declaration's.
\<close>

definition permitted :: "(string \<Rightarrow> string) \<Rightarrow> external list \<Rightarrow> string \<Rightarrow> string option" where
  "permitted ulower decls host =
     (let h = normalize ulower host in
      if h = [] \<or> isIP h then None
      else map_option ext_reason (find (\<lambda>d. normalize ulower (ext_host d) = h) (rev decls)))"

locale egress_contract =
  fixes ulower :: "string \<Rightarrow> string"
    and compile :: "external list \<Rightarrow> 'p"
    and admits :: "'p \<Rightarrow> string \<Rightarrow> string option"
  assumes admits_compile: "admits (compile ds) h = permitted ulower ds h"
begin

lemma denies_undeclared:
  "\<forall>d\<in>set ds. normalize ulower (ext_host d) \<noteq> normalize ulower h \<Longrightarrow> admits (compile ds) h = None"
  by (auto simp: admits_compile permitted_def Let_def find_None_iff)

lemma denies_address: "isIP (normalize ulower h) \<Longrightarrow> admits (compile ds) h = None"
  by (simp add: admits_compile permitted_def)

lemma admits_declared:
  assumes "d \<in> set ds" and "normalize ulower (ext_host d) = normalize ulower h"
    and "normalize ulower h \<noteq> []" and "\<not> isIP (normalize ulower h)"
  shows "\<exists>d'\<in>set ds. normalize ulower (ext_host d') = normalize ulower h
    \<and> admits (compile ds) h = Some (ext_reason d')"
proof -
  obtain d' where f: "find (\<lambda>d. normalize ulower (ext_host d) = normalize ulower h) (rev ds) = Some d'"
    using assms(1,2) by (cases "find (\<lambda>d. normalize ulower (ext_host d) = normalize ulower h) (rev ds)")
      (auto simp: find_None_iff)
  then have "d' \<in> set (rev ds)" "normalize ulower (ext_host d') = normalize ulower h"
    using find_in_set[OF f] by simp_all
  then show ?thesis using f assms(3,4) by (auto simp: admits_compile permitted_def)
qed

lemma admits_case_insensitive:
  "normalize ulower h = normalize ulower h' \<Longrightarrow> admits (compile ds) h = admits (compile ds) h'"
  by (simp add: admits_compile permitted_def)

end

text \<open>Two components holding the same declarations give the same answer.\<close>

locale two_contracts =
  enforcer: egress_contract ulower compile1 admits1 + observer: egress_contract ulower compile2 admits2
  for ulower :: "string \<Rightarrow> string"
    and compile1 :: "external list \<Rightarrow> 'p" and admits1 :: "'p \<Rightarrow> string \<Rightarrow> string option"
    and compile2 :: "external list \<Rightarrow> 'q" and admits2 :: "'q \<Rightarrow> string \<Rightarrow> string option"
begin

lemma agree: "admits1 (compile1 ds) h = admits2 (compile2 ds) h"
  by (simp add: enforcer.admits_compile observer.admits_compile)

end

subsection \<open>FatLine provides it\<close>

definition verdict :: "decision \<Rightarrow> string option" where
  "verdict d = (if dec_allowed d then Some (dec_reason d) else None)"

lemma map_of_host_reasons:
  "map_of (host_reasons ulower hosts ds) h =
     (if h = [] then map_of hosts h
      else case find (\<lambda>d. normalize ulower (ext_host d) = h) (rev ds) of
          None \<Rightarrow> map_of hosts h | Some d \<Rightarrow> Some (ext_reason d))"
proof (induction ds arbitrary: hosts h)
  case Nil
  then show ?case by simp
next
  case (Cons d ds)
  show ?case
    by (auto simp: Cons.IH Let_def update_conv' find_append split: option.splits)
qed

lemma map_of_build_loop:
  "distinct (map fst bt) \<Longrightarrow> map_of (al_tenants (build_loop ulower s bt)) t =
     (case map_of bt t of None \<Rightarrow> map_of (al_tenants s) t | Some ds \<Rightarrow> Some (host_reasons ulower [] ds))"
proof (induction bt arbitrary: s)
  case Nil
  then show ?case by simp
next
  case (Cons kv bt)
  obtain k ds where kv: "kv = (k, ds)" by (cases kv)
  have nk: "map_of bt k = None" using Cons.prems kv by (simp add: map_of_eq_None_iff)
  show ?case
    using Cons kv nk by (auto simp: Let_def update_conv' split: option.splits)
qed

lemma verdict_Allow:
  "verdict (Allow ulower l t h) =
     (let n = normalize ulower h in
      if n = [] \<or> isIP n then None else map_of (get_or [] (al_tenants l) t) n)"
  by (simp add: Allow_def verdict_def Let_def split: option.splits)

lemma Allow_per_app:
  assumes "distinct (map fst bt)"
  shows "verdict (Allow ulower (NewPerApp ulower bt) t h) = permitted ulower (get_or [] bt t) h"
proof (cases "map_of bt t")
  case None
  then show ?thesis using assms
    by (simp add: verdict_Allow NewPerApp_def build_def map_of_build_loop get_or_def permitted_def Let_def)
next
  case (Some ds)
  then show ?thesis using assms
    by (auto simp: verdict_Allow NewPerApp_def build_def map_of_build_loop get_or_def permitted_def
        Let_def map_of_host_reasons split: option.splits)
qed

interpretation fatline: egress_contract ulower "\<lambda>ds. NewPerApp ulower [(t, ds)]"
  "\<lambda>l h. verdict (Allow ulower l t h)" for ulower t
  by unfold_locales (simp add: Allow_per_app get_or_def)

subsection \<open>Shrike provides it\<close>

lemma map_of_shrike_loop:
  "map_of (sp_hosts (shrike_new_loop ulower p ds)) h =
     (if h = [] \<or> isIP h then map_of (sp_hosts p) h
      else case find (\<lambda>d. normalize ulower (ext_host d) = h) (rev ds) of
          None \<Rightarrow> map_of (sp_hosts p) h | Some d \<Rightarrow> Some (ext_reason d))"
proof (induction ds arbitrary: p h)
  case Nil
  then show ?case by simp
next
  case (Cons d ds)
  show ?case
    by (auto simp: Cons.IH Let_def update_conv' find_append split: option.splits)
qed

lemma Declared_New: "Declared ulower (shrike_New ulower ds) h = permitted ulower ds h"
  by (auto simp: Declared_def shrike_New_def map_of_shrike_loop permitted_def Let_def split: option.splits)

interpretation shrike: egress_contract ulower "shrike_New ulower" "Declared ulower" for ulower
  by unfold_locales (rule Declared_New)

interpretation boundary: two_contracts ulower "\<lambda>ds. NewPerApp ulower [(t, ds)]"
  "\<lambda>l h. verdict (Allow ulower l t h)" "shrike_New ulower" "Declared ulower" for ulower t
  by unfold_locales

text \<open>
  C34. Deny by default, exactly: with per-application policy a request of a tenant is
  admitted when, and only when, that tenant's own declarations contain the host up
  to letter case, surrounding space and one trailing dot, the host is not an
  address, and the reason returned is the last matching declaration's. A tenant
  without an entry is denied everything.
\<close>

theorem allow_exactly_declared:
  assumes "distinct (map fst byTenant)"
  shows "verdict (Allow ulower (NewPerApp ulower byTenant) tenant host)
    = permitted ulower (get_or [] byTenant tenant) host"
  using assms by (rule Allow_per_app)

theorem allow_exactly_declared_witness:
  "verdict (Allow id (NewPerApp id [(''shop/api'', [\<lparr>ext_host = ''API.Stripe.com'', ext_reason = ''pay''\<rparr>])])
      ''shop/api'' ''api.stripe.com.'') = Some ''pay''
   \<and> verdict (Allow id (NewPerApp id [(''shop/api'', [\<lparr>ext_host = ''API.Stripe.com'', ext_reason = ''pay''\<rparr>])])
      ''shop/web'' ''api.stripe.com.'') = None"
proof -
  have d: "distinct (map fst [(''shop/api'', [\<lparr>ext_host = ''API.Stripe.com'', ext_reason = ''pay''\<rparr>])])"
    by simp
  have "normalize id ''api.stripe.com.'' = ''api.stripe.com''" "normalize id ''API.Stripe.com'' = ''api.stripe.com''"
    by (simp_all add: normalize_def trim_space_visible byte_val_def to_lower_def is_ascii_def lower_byte_def
        upper_az_def trim_suffix_def has_suffix_def) (code_simp+)?
  moreover have "\<not> isIP ''api.stripe.com''" by code_simp
  ultimately have "permitted id [\<lparr>ext_host = ''API.Stripe.com'', ext_reason = ''pay''\<rparr>] ''api.stripe.com.'' = Some ''pay''"
    "permitted id [] ''api.stripe.com.'' = None" by (simp_all add: permitted_def)
  then show ?thesis
    using allow_exactly_declared[OF d, of id "''shop/api''" "''api.stripe.com.''"]
      allow_exactly_declared[OF d, of id "''shop/web''" "''api.stripe.com.''"]
    by (simp add: get_or_def)
qed

text \<open>
  The wall and the policeman agree: over the same declarations, FatLine admits a
  host for an application, with a reason, exactly when Shrike reports it declared
  with that reason. No host FatLine admits is drift to Shrike.
\<close>

theorem fatline_shrike_agree:
  "verdict (Allow ulower (NewPerApp ulower [(tenant, ds)]) tenant host) = Declared ulower (shrike_New ulower ds) host"
  by (rule boundary.agree)

end
