(* ===== verification/Egress_Document.thy ===== *)
theory Egress_Document
  imports Egress_Policy
begin

text \<open>
  The policy document one instance's FatLine enforces (\<open>fatline/policy/policy.go\<close>)
  and the merge \<open>farcast run\<close> writes it with
  (\<open>farsight/cli/internal/cli/runpolicy.go\<close>). \<open>sha\<close> is \<open>sha256.Sum256\<close> on byte
  strings; a decoded document is the argument of the checks, since the JSON codec
  is the standard library's.
\<close>

section \<open>The document\<close>

record policy_app =
  pa_name :: string
  pa_namespace :: string
  pa_hash :: string
  pa_external :: "external list"

record document =
  doc_version :: int
  doc_apps :: "policy_app list"

datatype policy_error =
    Decode_error
  | Wrong_version int
  | App_without_name nat
  | App_without_namespace string
  | No_usable_hash string
  | Shared_credential string string

definition Version :: int where
  "Version = 1"

definition Tenant :: "policy_app \<Rightarrow> string" where
  "Tenant a = pa_namespace a @ ''/'' @ pa_name a"

definition HashCredential :: "(string \<Rightarrow> string) \<Rightarrow> string \<Rightarrow> string" where
  "HashCredential sha credential = hex_encode (sha credential)"

text \<open>The comparison runs over every entry; the last match is what is returned.\<close>

fun identify_loop :: "string \<Rightarrow> policy_app option \<Rightarrow> policy_app list \<Rightarrow> policy_app option" where
  "identify_loop want found [] = found"
| "identify_loop want found (a # as) =
     identify_loop want (if pa_hash a = want then Some a else found) as"

definition Identify :: "(string \<Rightarrow> string) \<Rightarrow> document \<Rightarrow> string \<Rightarrow> policy_app option" where
  "Identify sha d credential =
     (if credential = [] then None else identify_loop (HashCredential sha credential) None (doc_apps d))"

fun by_tenant_loop :: "(string \<times> external list) list \<Rightarrow> policy_app list \<Rightarrow> (string \<times> external list) list" where
  "by_tenant_loop out [] = out"
| "by_tenant_loop out (a # as) = by_tenant_loop (AList.update (Tenant a) (pa_external a) out) as"

definition ByTenant :: "document \<Rightarrow> (string \<times> external list) list" where
  "ByTenant d = by_tenant_loop [] (doc_apps d)"

text \<open>What \<open>Marshal\<close> hands to the JSON encoder.\<close>

definition marshalled :: "document \<Rightarrow> document" where
  "marshalled d = \<lparr>doc_version = Version, doc_apps = sort_by (key_less Tenant) (doc_apps d)\<rparr>"

definition Marshal :: "(document \<Rightarrow> string) \<Rightarrow> document \<Rightarrow> string" where
  "Marshal json d = json (marshalled d) @ [byte 10]"

definition lower_hex :: "char \<Rightarrow> bool" where
  "lower_hex c \<longleftrightarrow> digit09 c \<or> (CHR ''a'' \<le> c \<and> c \<le> CHR ''f'')"

definition isSHA256Hex :: "string \<Rightarrow> bool" where
  "isSHA256Hex s \<longleftrightarrow> length s = 64 \<and> list_all lower_hex s"

fun check_apps :: "(string \<times> string) list \<Rightarrow> nat \<Rightarrow> policy_app list \<Rightarrow> policy_error option" where
  "check_apps seen i [] = None"
| "check_apps seen i (a # as) =
     (if pa_name a = [] then Some (App_without_name i)
      else if pa_namespace a = [] then Some (App_without_namespace (pa_name a))
      else if \<not> isSHA256Hex (pa_hash a) then Some (No_usable_hash (Tenant a))
      else case map_of seen (pa_hash a) of
          Some other \<Rightarrow> Some (Shared_credential other (Tenant a))
        | None \<Rightarrow> check_apps (AList.update (pa_hash a) (Tenant a) seen) (Suc i) as)"

definition parse_policy :: "(string \<Rightarrow> document option) \<Rightarrow> string \<Rightarrow> policy_error + document" where
  "parse_policy json data =
     (case json data of
        None \<Rightarrow> Inl Decode_error
      | Some d \<Rightarrow>
          if doc_version d \<noteq> Version then Inl (Wrong_version (doc_version d))
          else case check_apps [] 0 (doc_apps d) of Some e \<Rightarrow> Inl e | None \<Rightarrow> Inr d)"

definition url_char :: "char \<Rightarrow> bool" where
  "url_char c \<longleftrightarrow> lower_az c \<or> upper_az c \<or> digit09 c \<or> c = CHR ''-'' \<or> c = CHR ''.'' \<or> c = CHR ''_''"

definition urlSafe :: "string \<Rightarrow> string" where
  "urlSafe s = map (\<lambda>c. if url_char c then c else CHR ''-'') s"

definition ProxyURL :: "string \<Rightarrow> string \<Rightarrow> int \<Rightarrow> string \<Rightarrow> string \<Rightarrow> string" where
  "ProxyURL scheme host port app credential =
     scheme @ ''://'' @ urlSafe app @ '':'' @ credential @ ''@'' @ host @ '':'' @ format_int port"

section \<open>The merge of a deployment\<close>

text \<open>
  \<open>egressPolicy\<close>: the other deployments' applications stay, this one's are replaced
  by the manifest's. \<open>creds\<close> holds the credentials \<open>NewCredential\<close> mints, one per
  application in order.
\<close>

definition policy_entry :: "(string \<Rightarrow> string) \<Rightarrow> string \<Rightarrow> app \<times> string \<Rightarrow> policy_app" where
  "policy_entry sha namespace ac =
     \<lparr>pa_name = app_name (fst ac), pa_namespace = namespace, pa_hash = HashCredential sha (snd ac),
      pa_external = declared (fst ac)\<rparr>"

definition egressPolicy ::
  "(string \<Rightarrow> string) \<Rightarrow> document \<Rightarrow> string \<Rightarrow> manifest \<Rightarrow> string list \<Rightarrow> document \<times> (string \<times> string) list"
where
  "egressPolicy sha existing namespace m creds =
     (\<lparr>doc_version = Version,
       doc_apps = filter (\<lambda>a. pa_namespace a \<noteq> namespace) (doc_apps existing)
         @ map (policy_entry sha namespace) (zip (man_apps m) creds)\<rparr>,
      zip (map app_name (man_apps m)) creds)"

text \<open>
  \<open>readEgressPolicy\<close>: what the ConfigMap lookup returned, \<open>(raw, found, err)\<close>.
  Missing is an empty policy, unreadable is an error, never an empty policy.
\<close>

datatype read_error = Unreachable | Key_missing | Unparsable policy_error

definition readEgressPolicy ::
  "(string \<Rightarrow> document option) \<Rightarrow> string \<times> bool \<times> bool \<Rightarrow> read_error + document"
where
  "readEgressPolicy json answer =
     (case answer of (raw, found, failed) \<Rightarrow>
        if failed then (if \<not> found then Inl Unreachable else Inl Key_missing)
        else if \<not> found then Inr \<lparr>doc_version = Version, doc_apps = []\<rparr>
        else case parse_policy json raw of Inl e \<Rightarrow> Inl (Unparsable e) | Inr d \<Rightarrow> Inr d)"

record egress_summary =
  es_applications :: nat
  es_hosts :: nat
  es_others :: nat

fun summarise_loop :: "string \<Rightarrow> egress_summary \<Rightarrow> policy_app list \<Rightarrow> egress_summary" where
  "summarise_loop ns s [] = s"
| "summarise_loop ns s (a # as) =
     summarise_loop ns
       (if pa_namespace a = ns
        then s\<lparr>es_applications := es_applications s + 1, es_hosts := es_hosts s + length (pa_external a)\<rparr>
        else s\<lparr>es_others := es_others s + 1\<rparr>) as"

definition summarise :: "document \<Rightarrow> string \<Rightarrow> egress_summary" where
  "summarise d ns = summarise_loop ns \<lparr>es_applications = 0, es_hosts = 0, es_others = 0\<rparr> (doc_apps d)"

section \<open>What the checks establish\<close>

definition app_entry_ok :: "policy_app \<Rightarrow> bool" where
  "app_entry_ok a \<longleftrightarrow> pa_name a \<noteq> [] \<and> pa_namespace a \<noteq> [] \<and> isSHA256Hex (pa_hash a)"

definition doc_ok :: "document \<Rightarrow> bool" where
  "doc_ok d \<longleftrightarrow> doc_version d = Version \<and> list_all app_entry_ok (doc_apps d)
     \<and> distinct (map pa_hash (doc_apps d))"

lemma check_apps_None_iff:
  "check_apps seen i as = None \<longleftrightarrow>
     list_all app_entry_ok as \<and> distinct (map pa_hash as) \<and> pa_hash ` set as \<inter> fst ` set seen = {}"
proof (induction as arbitrary: seen i)
  case Nil
  then show ?case by simp
next
  case (Cons a as)
  have "map_of seen (pa_hash a) = None \<longleftrightarrow> pa_hash a \<notin> fst ` set seen"
    by (simp add: map_of_eq_None_iff)
  then show ?case
    by (auto simp: Cons.IH app_entry_ok_def dom_update split: option.splits)
qed

lemma parse_policy_Inr_iff:
  "parse_policy json data = Inr d \<longleftrightarrow> json data = Some d \<and> doc_ok d"
  by (auto simp: parse_policy_def doc_ok_def check_apps_None_iff split: option.splits)
    (metis check_apps_None_iff option.distinct(1) list.set(1) image_empty inf_bot_right)+

lemma identify_loop_find:
  "identify_loop want found as =
     (case find (\<lambda>a. pa_hash a = want) (rev as) of Some a \<Rightarrow> Some a | None \<Rightarrow> found)"
  by (induction as arbitrary: found) (auto simp: find_append split: option.splits)

lemma find_unique:
  assumes "distinct (map f xs)"
  shows "find (\<lambda>x. f x = k) xs = Some x \<longleftrightarrow> x \<in> set xs \<and> f x = k"
  using assms by (induction xs) (auto simp: image_iff)

lemma Identify_unique:
  assumes "distinct (map pa_hash (doc_apps d))"
  shows "Identify sha d c = Some a \<longleftrightarrow> c \<noteq> [] \<and> a \<in> set (doc_apps d) \<and> pa_hash a = HashCredential sha c"
proof -
  have "distinct (map pa_hash (rev (doc_apps d)))" using assms by (simp add: rev_map[symmetric])
  from find_unique[OF this, of "HashCredential sha c" a] show ?thesis
    by (auto simp: Identify_def identify_loop_find split: option.splits)
qed

lemma map_of_by_tenant_loop:
  "map_of (by_tenant_loop out as) t =
     (case find (\<lambda>a. Tenant a = t) (rev as) of Some a \<Rightarrow> Some (pa_external a) | None \<Rightarrow> map_of out t)"
  by (induction as arbitrary: out) (auto simp: find_append update_conv' split: option.splits)

lemma distinct_by_tenant_loop:
  "distinct (map fst out) \<Longrightarrow> distinct (map fst (by_tenant_loop out as))"
  by (induction as arbitrary: out) (auto intro: distinct_update)

lemma distinct_ByTenant: "distinct (map fst (ByTenant d))"
  by (simp add: ByTenant_def distinct_by_tenant_loop)

text \<open>The declarations a tenant is enforced under: its last entry's.\<close>

lemma get_or_ByTenant:
  "get_or [] (ByTenant d) t =
     (case find (\<lambda>a. Tenant a = t) (rev (doc_apps d)) of Some a \<Rightarrow> pa_external a | None \<Rightarrow> [])"
  by (simp add: get_or_def ByTenant_def map_of_by_tenant_loop split: option.splits)

lemma ByTenant_unique:
  assumes "distinct (map Tenant (doc_apps d))" and "a \<in> set (doc_apps d)"
  shows "get_or [] (ByTenant d) (Tenant a) = pa_external a"
proof -
  have "distinct (map Tenant (rev (doc_apps d)))" using assms(1) by (simp add: rev_map[symmetric])
  then have "find (\<lambda>x. Tenant x = Tenant a) (rev (doc_apps d)) = Some a"
    using assms(2) by (subst find_unique) auto
  then show ?thesis by (simp add: get_or_ByTenant)
qed

lemma ByTenant_absent:
  "t \<notin> Tenant ` set (doc_apps d) \<Longrightarrow> get_or [] (ByTenant d) t = []"
  by (auto simp: get_or_ByTenant image_iff split: option.splits dest!: find_in_set)

section \<open>Tenants\<close>

lemma Tenant_inj:
  assumes "CHR ''/'' \<notin> set (pa_name a)" and "CHR ''/'' \<notin> set (pa_name b)"
  shows "Tenant a = Tenant b \<longleftrightarrow> pa_namespace a = pa_namespace b \<and> pa_name a = pa_name b"
proof
  assume "Tenant a = Tenant b"
  then have r: "rev (pa_name a) @ CHR ''/'' # rev (pa_namespace a) = rev (pa_name b) @ CHR ''/'' # rev (pa_namespace b)"
    by (simp add: Tenant_def) (metis append.assoc append_Cons append_Nil rev.simps(2) rev_append)
  have tw: "takeWhile (\<lambda>c. c \<noteq> CHR ''/'') (rev n @ CHR ''/'' # r) = rev n" if "CHR ''/'' \<notin> set n" for n r
    using that by (subst takeWhile_append2) auto
  have "rev (pa_name a) = rev (pa_name b)"
    using arg_cong[OF r, of "takeWhile (\<lambda>c. c \<noteq> CHR ''/'')"] tw assms by simp
  then show "pa_namespace a = pa_namespace b \<and> pa_name a = pa_name b" using r by simp
qed (simp add: Tenant_def)

text \<open>
  A document as \<open>farcast run\<close> writes it: accepted, names free of the separator, and
  one entry per namespace and name.
\<close>

definition app_id :: "policy_app \<Rightarrow> string \<times> string" where
  "app_id a = (pa_namespace a, pa_name a)"

definition doc_written :: "document \<Rightarrow> bool" where
  "doc_written d \<longleftrightarrow> doc_ok d \<and> (\<forall>a\<in>set (doc_apps d). CHR ''/'' \<notin> set (pa_name a))
     \<and> distinct (map app_id (doc_apps d))"

lemma distinct_tenants:
  assumes "doc_written d"
  shows "distinct (map Tenant (doc_apps d))"
proof -
  have d: "distinct (doc_apps d)" "inj_on app_id (set (doc_apps d))"
    using assms by (auto simp: doc_written_def distinct_map)
  have "inj_on Tenant (set (doc_apps d))"
  proof (rule inj_onI)
    fix a b assume "a \<in> set (doc_apps d)" "b \<in> set (doc_apps d)" "Tenant a = Tenant b"
    moreover from this have "app_id a = app_id b"
      using assms Tenant_inj[of a b] by (simp add: doc_written_def app_id_def)
    ultimately show "a = b" using d(2) by (simp add: inj_on_def)
  qed
  then show ?thesis using d(1) by (simp add: distinct_map)
qed

section \<open>The merge keeps the document well formed\<close>

lemma lower_hex_char: "n < 16 \<Longrightarrow> lower_hex (hex_char n)"
  by (auto simp: lower_hex_def digit09_def hex_char_def less_eq_char_def)

lemma hex_encode_lower: "list_all lower_hex (hex_encode bs)"
proof (induction bs)
  case Nil
  then show ?case by simp
next
  case (Cons b bs)
  have "byte_val b div 16 < 16" by (simp add: byte_val_def less_mult_imp_div_less)
  then show ?case using Cons by (simp add: lower_hex_char)
qed

lemma isSHA256Hex_hash: "length (sha c) = 32 \<Longrightarrow> isSHA256Hex (HashCredential sha c)"
  by (simp add: isSHA256Hex_def HashCredential_def hex_encode_lower)

lemma dns_label_no_slash: "dns_label n \<Longrightarrow> CHR ''/'' \<notin> set n"
  by (auto simp: dns_label_def dns_char_def lower_az_def digit09_def)

text \<open>What \<open>NewCredential\<close> gives: one credential per application, hashes of 32 bytes, none repeated.\<close>

definition fresh_creds :: "(string \<Rightarrow> string) \<Rightarrow> document \<Rightarrow> string \<Rightarrow> manifest \<Rightarrow> string list \<Rightarrow> bool" where
  "fresh_creds sha existing ns m creds \<longleftrightarrow>
     length creds = length (man_apps m)
     \<and> (\<forall>c\<in>set creds. c \<noteq> [] \<and> length (sha c) = 32)
     \<and> distinct (map (HashCredential sha) creds)
     \<and> HashCredential sha ` set creds \<inter> pa_hash ` set (filter (\<lambda>a. pa_namespace a \<noteq> ns) (doc_apps existing)) = {}"

abbreviation kept_apps :: "document \<Rightarrow> string \<Rightarrow> policy_app list" where
  "kept_apps d ns \<equiv> filter (\<lambda>a. pa_namespace a \<noteq> ns) (doc_apps d)"

lemma policy_entry_simps [simp]:
  "pa_name (policy_entry sha ns ac) = app_name (fst ac)"
  "pa_namespace (policy_entry sha ns ac) = ns"
  "pa_hash (policy_entry sha ns ac) = HashCredential sha (snd ac)"
  "pa_external (policy_entry sha ns ac) = declared (fst ac)"
  by (simp_all add: policy_entry_def)

lemma map_zip_fst_snd:
  assumes "length xs = length ys"
  shows "map (\<lambda>p. f (fst p)) (zip xs ys) = map f xs" and "map (\<lambda>p. g (snd p)) (zip xs ys) = map g ys"
  using assms by (induction xs ys rule: list_induct2) auto

lemma egressPolicy_written:
  assumes "doc_written d" and "ns \<noteq> []" and "manifest_ok m" and "fresh_creds sha d ns m creds"
  shows "doc_written (fst (egressPolicy sha d ns m creds))"
proof -
  let ?own = "map (policy_entry sha ns) (zip (man_apps m) creds)"
  have len: "length (man_apps m) = length creds" using assms(4) by (simp add: fresh_creds_def)
  have names: "map pa_name ?own = map app_name (man_apps m)"
    and hashes: "map pa_hash ?own = map (HashCredential sha) creds"
    using map_zip_fst_snd[OF len] by (simp_all add: o_def)
  have own_ok: "app_entry_ok a \<and> CHR ''/'' \<notin> set (pa_name a)" if a: "a \<in> set ?own" for a
  proof -
    obtain x c where xc: "(x, c) \<in> set (zip (man_apps m) creds)" "a = policy_entry sha ns (x, c)"
      using a by auto
    then have "x \<in> set (man_apps m)" "c \<in> set creds" by (auto dest: set_zip_leftD set_zip_rightD)
    then have "dns_label (app_name x)" "length (sha c) = 32"
      using assms(3,4) by (auto simp: manifest_ok_def app_ok_def list_all_iff fresh_creds_def)
    then show ?thesis using xc(2) assms(2) dns_label_no_slash
      by (simp add: app_entry_ok_def isSHA256Hex_hash dns_label_def)
  qed
  have ids: "distinct (map app_id ?own)"
  proof -
    have "distinct (map pa_name ?own)" using assms(3) names by (simp add: manifest_ok_def)
    then show ?thesis by (simp add: app_id_def distinct_map inj_on_def o_def)
  qed
  have old: "list_all app_entry_ok (doc_apps d)" "distinct (map pa_hash (doc_apps d))"
    "distinct (map app_id (doc_apps d))" "\<forall>a\<in>set (doc_apps d). CHR ''/'' \<notin> set (pa_name a)"
    using assms(1) by (auto simp: doc_written_def doc_ok_def)
  have ns_own: "pa_namespace ` set ?own \<subseteq> {ns}" by auto
  have "distinct (map pa_hash ?own)" using assms(4) hashes by (simp add: fresh_creds_def)
  moreover have "pa_hash ` set (kept_apps d ns) \<inter> pa_hash ` set ?own = {}"
    using assms(4) hashes by (metis fresh_creds_def inf_commute list.set_map)
  moreover have "app_id ` set (kept_apps d ns) \<inter> app_id ` set ?own = {}"
    by (auto simp: app_id_def)
  moreover have "distinct (map f (kept_apps d ns))" if "distinct (map f (doc_apps d))" for f :: "policy_app \<Rightarrow> 'z"
    using that by (rule distinct_map_filter)
  ultimately have "distinct (map pa_hash (kept_apps d ns @ ?own))" "distinct (map app_id (kept_apps d ns @ ?own))"
    using ids old(2,3) by (simp_all only: map_append distinct_append set_map simp_thms)
  moreover have "app_entry_ok a \<and> CHR ''/'' \<notin> set (pa_name a)" if "a \<in> set (kept_apps d ns @ ?own)" for a
    using that own_ok[of a] old(1,4) by (auto simp: list_all_iff simp del: set_map)
  moreover have "doc_apps (fst (egressPolicy sha d ns m creds)) = kept_apps d ns @ ?own"
    "doc_version (fst (egressPolicy sha d ns m creds)) = Version"
    by (simp_all add: egressPolicy_def)
  ultimately show ?thesis by (simp only: doc_written_def doc_ok_def list_all_iff simp_thms) blast
qed

section \<open>Isolation between deployments\<close>

text \<open>What an application of a document may reach once FatLine holds the document.\<close>

definition enforced :: "(string \<Rightarrow> string) \<Rightarrow> document \<Rightarrow> string \<Rightarrow> string \<Rightarrow> string option" where
  "enforced ulower d tenant host = verdict (Allow ulower (NewPerApp ulower (ByTenant d)) tenant host)"

lemma enforced_eq: "enforced ulower d t h = permitted ulower (get_or [] (ByTenant d) t) h"
  by (simp add: enforced_def Allow_per_app distinct_ByTenant)

lemma permitted_Nil [simp]: "permitted ulower [] h = None"
  by (simp add: permitted_def Let_def)

lemma enforced_member:
  "doc_written d \<Longrightarrow> a \<in> set (doc_apps d) \<Longrightarrow> enforced ulower d (Tenant a) h = permitted ulower (pa_external a) h"
  by (simp add: enforced_eq ByTenant_unique distinct_tenants)

lemma enforced_absent: "t \<notin> Tenant ` set (doc_apps d) \<Longrightarrow> enforced ulower d t h = None"
  by (simp add: enforced_eq ByTenant_absent)

lemma enforced_own:
  assumes "doc_written d" and "ns \<noteq> []" and "manifest_ok m" and "fresh_creds sha d ns m creds"
    and "x \<in> set (man_apps m)"
  shows "enforced ulower (fst (egressPolicy sha d ns m creds)) (ns @ ''/'' @ app_name x) host
    = permitted ulower (declared x) host"
proof -
  obtain cr where "(x, cr) \<in> set (zip (man_apps m) creds)"
    using assms(4,5) in_set_impl_in_set_zip1[of "man_apps m" creds x] by (auto simp: fresh_creds_def)
  then have "policy_entry sha ns (x, cr) \<in> set (doc_apps (fst (egressPolicy sha d ns m creds)))"
    by (simp add: egressPolicy_def)
  from enforced_member[OF egressPolicy_written[OF assms(1-4)] this] show ?thesis by (simp add: Tenant_def)
qed

text \<open>
  A document \<open>Parse\<close> accepts identifies each caller exactly: a credential belongs
  to an application when, and only when, the application's recorded hash is the
  credential's, no credential belongs to two, the empty credential to none, and no
  application is nameless, without a namespace or unidentifiable.
\<close>

theorem parse_policy_identifies:
  assumes "parse_policy json data = Inr d"
  shows "(Identify sha d c = Some a \<longleftrightarrow>
            c \<noteq> [] \<and> a \<in> set (doc_apps d) \<and> pa_hash a = HashCredential sha c)
    \<and> (\<forall>a\<in>set (doc_apps d). pa_name a \<noteq> [] \<and> pa_namespace a \<noteq> [] \<and> isSHA256Hex (pa_hash a))"
proof -
  have "doc_ok d" using assms by (simp add: parse_policy_Inr_iff)
  then show ?thesis
    by (simp add: doc_ok_def Identify_unique list_all_iff app_entry_ok_def)
qed

definition demo_sha :: "string \<Rightarrow> string" where
  "demo_sha c = replicate 32 (case c of [] \<Rightarrow> CHR ''0'' | x # _ \<Rightarrow> x)"

definition demo_entry :: "string \<Rightarrow> string \<Rightarrow> string \<Rightarrow> external list \<Rightarrow> policy_app" where
  "demo_entry ns n c ds = \<lparr>pa_name = n, pa_namespace = ns, pa_hash = HashCredential demo_sha c, pa_external = ds\<rparr>"

definition demo_doc :: document where
  "demo_doc = \<lparr>doc_version = 1, doc_apps =
     [demo_entry ''blog'' ''web'' ''a'' [\<lparr>ext_host = ''cdn.io'', ext_reason = ''img''\<rparr>],
      demo_entry ''shop'' ''old'' ''b'' [\<lparr>ext_host = ''old.io'', ext_reason = ''x''\<rparr>]]\<rparr>"

lemma demo_sha_simps [simp]: "length (demo_sha c) = 32" "demo_sha [x] = demo_sha [y] \<longleftrightarrow> x = y"
  by (simp_all add: demo_sha_def)

lemma demo_hash_simps [simp]:
  "isSHA256Hex (HashCredential demo_sha c)"
  "HashCredential demo_sha [x] = HashCredential demo_sha [y] \<longleftrightarrow> x = y"
  by (simp_all add: isSHA256Hex_hash) (simp add: HashCredential_def hex_encode_inj)

lemma demo_doc_written: "doc_written demo_doc"
  by (simp add: doc_written_def doc_ok_def demo_doc_def demo_entry_def Version_def app_entry_ok_def app_id_def)

theorem parse_policy_identifies_witness:
  "Identify demo_sha demo_doc ''b'' = Some (demo_entry ''shop'' ''old'' ''b'' [\<lparr>ext_host = ''old.io'', ext_reason = ''x''\<rparr>])"
proof -
  have "parse_policy (\<lambda>_. Some demo_doc) [] = Inr demo_doc"
    using demo_doc_written by (simp add: parse_policy_Inr_iff doc_written_def)
  from parse_policy_identifies[OF this] show ?thesis by (simp add: demo_doc_def demo_entry_def)
qed

text \<open>
  A deployment touches its own applications only. After \<open>farcast run\<close> merges a
  manifest into the instance's policy, every application of another namespace is
  identified and allowed exactly as before; every application of the manifest may
  reach what it declared; an application the manifest no longer names may reach
  nothing; and the document remains one that the next merge can start from.
\<close>

theorem egress_merge_isolates:
  assumes "doc_written d" and "ns \<noteq> []" and "manifest_ok m" and "fresh_creds sha d ns m creds"
    and "d' = fst (egressPolicy sha d ns m creds)"
  shows "doc_written d'
    \<and> (\<forall>a\<in>set (doc_apps d). pa_namespace a \<noteq> ns \<longrightarrow>
         enforced ulower d' (Tenant a) host = enforced ulower d (Tenant a) host
         \<and> Identify sha d' c = Some a = (Identify sha d c = Some a))
    \<and> (\<forall>x\<in>set (man_apps m). enforced ulower d' (ns @ ''/'' @ app_name x) host = permitted ulower (declared x) host)
    \<and> (\<forall>n. n \<notin> app_name ` set (man_apps m) \<and> CHR ''/'' \<notin> set n \<longrightarrow> enforced ulower d' (ns @ ''/'' @ n) host = None)"
proof -
  have w: "doc_written d'" using egressPolicy_written assms by simp
  have apps: "doc_apps d' = kept_apps d ns @ map (policy_entry sha ns) (zip (man_apps m) creds)"
    using assms(5) by (simp add: egressPolicy_def)
  have "enforced ulower d' (Tenant a) host = enforced ulower d (Tenant a) host
      \<and> Identify sha d' c = Some a = (Identify sha d c = Some a)"
    if a: "a \<in> set (doc_apps d)" "pa_namespace a \<noteq> ns" for a
  proof -
    have "a \<in> set (doc_apps d')" using a apps by simp
    then show ?thesis using a(1) w assms(1)
      by (simp add: enforced_member Identify_unique doc_written_def doc_ok_def)
  qed
  moreover have "enforced ulower d' (ns @ ''/'' @ app_name x) host = permitted ulower (declared x) host"
    if x: "x \<in> set (man_apps m)" for x
    using enforced_own[OF assms(1-4) x] assms(5) by simp
  moreover have "enforced ulower d' (ns @ ''/'' @ n) host = None"
    if n: "n \<notin> app_name ` set (man_apps m)" "CHR ''/'' \<notin> set n" for n
  proof (rule enforced_absent)
    show "ns @ ''/'' @ n \<notin> Tenant ` set (doc_apps d')"
    proof
      assume "ns @ ''/'' @ n \<in> Tenant ` set (doc_apps d')"
      then obtain a where a: "a \<in> set (doc_apps d')" "Tenant a = ns @ ''/'' @ n" by auto
      then have "pa_namespace a = ns \<and> pa_name a = n"
        using w n(2) Tenant_inj[of a "\<lparr>pa_name = n, pa_namespace = ns, pa_hash = [], pa_external = []\<rparr>"]
        by (simp add: doc_written_def Tenant_def)
      then show False using a(1) apps n(1) by (auto dest: set_zip_leftD)
    qed
  qed
  ultimately show ?thesis using w by blast
qed

definition demo_manifest :: manifest where
  "demo_manifest = \<lparr>man_name = ''shop'', man_apps = [\<lparr>app_name = ''api'', app_containerfile = ''C'', app_context = [],
     app_external = Some [\<lparr>ext_host = ''pay.io'', ext_reason = ''pay''\<rparr>]\<rparr>]\<rparr>"

lemma demo_manifest_ok: "manifest_ok demo_manifest"
  by code_simp

theorem egress_merge_isolates_witness:
  "enforced id (fst (egressPolicy demo_sha demo_doc ''shop'' demo_manifest [''c''])) ''shop/old'' ''old.io'' = None
   \<and> enforced id (fst (egressPolicy demo_sha demo_doc ''shop'' demo_manifest [''c''])) ''blog/web'' ''cdn.io''
     = enforced id demo_doc ''blog/web'' ''cdn.io''"
proof -
  have f: "fresh_creds demo_sha demo_doc ''shop'' demo_manifest [''c'']"
    by (simp add: fresh_creds_def demo_manifest_def demo_doc_def demo_entry_def)
  have a: "demo_entry ''blog'' ''web'' ''a'' [\<lparr>ext_host = ''cdn.io'', ext_reason = ''img''\<rparr>] \<in> set (doc_apps demo_doc)"
    by (simp add: demo_doc_def)
  note m = egress_merge_isolates[OF demo_doc_written _ demo_manifest_ok f refl, simplified]
  show ?thesis using m[of id "''old.io''"] m[of id "''cdn.io''"] a
    by (force simp: demo_manifest_def demo_entry_def Tenant_def)
qed

section \<open>Marshalling\<close>

lemma sort_by_key_unique:
  assumes "mset xs = mset ys" and "distinct (map f xs)"
  shows "sort_by (key_less f) xs = sort_by (key_less f) ys"
proof -
  have "distinct (map f (sort_by (key_less f) xs))"
    using assms(2) by (simp add: key_order.sorted_slice.distinct_srt)
  then have "inj_on f (set xs)" by (simp add: distinct_map)
  moreover have "map f (sort_by (key_less f) xs) = map f (sort_by (key_less f) ys)"
    using sorted_key[of f xs] sorted_key[of f ys] assms(1)
    by (metis mset_map mset_sort_by properties_for_sort)
  moreover have "set ys = set xs" using assms(1) by (metis set_mset_mset)
  ultimately show ?thesis by (intro map_inj_on[of f]) auto
qed

lemma doc_ok_marshalled: "doc_ok (marshalled d) \<longleftrightarrow> list_all app_entry_ok (doc_apps d) \<and> distinct (map pa_hash (doc_apps d))"
  by (simp add: doc_ok_def marshalled_def list_all_iff key_order.sorted_slice.distinct_srt)

text \<open>
  Writing the policy is stable and loses nothing. The bytes of a document whose
  tenants are distinct do not depend on the order its applications were collected
  in; and where the JSON codec reads back what it wrote, parsing them accepts the
  document, identifies the same applications and enforces the same declarations.
\<close>

theorem marshal_stable_and_faithful:
  assumes "doc_written d" and "doc_written e" and "mset (doc_apps e) = mset (doc_apps d)"
    and "decode (Marshal json d) = Some (marshalled d)"
  shows "Marshal json e = Marshal json d
    \<and> parse_policy decode (Marshal json e) = Inr (marshalled d)
    \<and> Identify sha (marshalled d) c = Identify sha d c
    \<and> enforced ulower (marshalled d) t h = enforced ulower d t h"
proof -
  have same: "marshalled e = marshalled d"
    using sort_by_key_unique[OF assms(3), of Tenant] distinct_tenants[OF assms(2)] by (simp add: marshalled_def)
  have apps: "set (doc_apps (marshalled d)) = set (doc_apps d)" by (simp add: marshalled_def)
  have ok: "doc_ok d" "doc_ok (marshalled d)"
    using assms(1) by (auto simp: doc_written_def doc_ok_marshalled) (auto simp: doc_ok_def)
  have w: "doc_written (marshalled d)"
    using assms(1) ok apps by (simp add: doc_written_def marshalled_def key_order.sorted_slice.distinct_srt)
  have "Identify sha (marshalled d) c = Some a \<longleftrightarrow> Identify sha d c = Some a" for a
    using ok apps by (simp add: Identify_unique doc_ok_def)
  then have i: "Identify sha (marshalled d) c = Identify sha d c" by (metis option.exhaust)
  have "enforced ulower (marshalled d) t h = enforced ulower d t h"
  proof (cases "t \<in> Tenant ` set (doc_apps d)")
    case True
    then obtain a where "a \<in> set (doc_apps d)" "t = Tenant a" by auto
    then show ?thesis using w assms(1) apps by (simp add: enforced_member)
  next
    case False
    then show ?thesis using apps by (simp add: enforced_absent)
  qed
  then show ?thesis using same i ok assms(4) by (simp add: Marshal_def parse_policy_Inr_iff)
qed

theorem marshal_stable_and_faithful_witness:
  "parse_policy (\<lambda>_. Some (marshalled demo_doc)) (Marshal (\<lambda>_. ''{}'') (demo_doc\<lparr>doc_apps := rev (doc_apps demo_doc)\<rparr>))
     = Inr (marshalled demo_doc)"
proof -
  have "doc_written (demo_doc\<lparr>doc_apps := rev (doc_apps demo_doc)\<rparr>)"
    using demo_doc_written by (simp add: doc_written_def doc_ok_def list_all_iff rev_map[symmetric])
  note m = marshal_stable_and_faithful[OF demo_doc_written this, of "\<lambda>_. Some (marshalled demo_doc)" "\<lambda>_. ''{}''"]
  have "mset (doc_apps (demo_doc\<lparr>doc_apps := rev (doc_apps demo_doc)\<rparr>)) = mset (doc_apps demo_doc)" by simp
  from m[OF this refl] show ?thesis by blast
qed

section \<open>Manifest declarations reach the boundary\<close>

lemma ipv4_chars:
  assumes "is_ipv4 s" and "c \<in> set s"
  shows "digit09 c \<or> c = CHR ''.''"
proof (cases "c = CHR ''.''")
  case False
  then obtain f where f: "f \<in> set (split_on CHR ''.'' s)" "c \<in> set f"
    using assms(2) split_on_covers[of c s "CHR ''.''"] by auto
  then have "\<exists>n. digits_val 0 f = Some n"
    using assms(1) by (auto simp: is_ipv4_def Let_def list_all_iff ipv4_octet_def parse_digits_def
        split: option.splits if_splits)
  then show ?thesis using f(2) digits_val_chars by blast
qed simp

lemma lower_az_not_digit: "lower_az c \<Longrightarrow> \<not> digit09 c \<and> c \<noteq> CHR ''.''"
  by (auto simp: lower_az_iff digit09_iff) (simp add: byte_val_def)


lemma label_char_visible: "label_char c \<Longrightarrow> 32 < byte_val c \<and> byte_val c < 128"
  by (auto simp: label_char_def lower_az_iff upper_az_iff digit09_iff) (simp_all add: byte_val_def)

lemma dot_visible [simp]: "byte_val CHR ''.'' = 46"
  by (simp add: byte_val_def)

lemma label_char_brackets: "label_char c \<or> c = CHR ''.'' \<Longrightarrow> c \<notin> {CHR '':'', CHR ''['', CHR '']''}"
  by (auto simp: label_char_def lower_az_iff upper_az_iff digit09_iff byte_val_def)

lemma trim_brackets:
  "CHR ''['' \<notin> set s \<Longrightarrow> CHR '']'' \<notin> set s \<Longrightarrow> trim_prefix (trim_suffix s '']'') ''['' = s"
proof -
  assume a: "CHR ''['' \<notin> set s" "CHR '']'' \<notin> set s"
  then have "\<not> has_suffix s '']''" "\<not> has_prefix s ''[''"
    by (auto simp: has_suffix_iff has_prefix_iff)
  then show ?thesis by (simp add: trim_prefix_def trim_suffix_def cut_prefix_def)
qed

lemma hostname_normalize:
  assumes "hostname h"
  shows "normalize ulower h = map lower_byte h \<and> normalize ulower h \<noteq> [] \<and> \<not> isIP (normalize ulower h)"
proof -
  have visible: "32 < byte_val c \<and> byte_val c < 128" if "c \<in> set h" for c
    using hostname_chars[OF assms that] label_char_visible by auto
  have ne: "h \<noteq> []" and edges: "\<not> has_suffix h ''.''" using hostname_edges[OF assms] by auto
  have trim: "trim_space h = h" using ne visible by (intro trim_space_visible) auto
  have low: "to_lower ulower h = map lower_byte h" using visible by (simp add: to_lower_def is_ascii_def)
  have dot: "lower_byte c = CHR ''.'' \<Longrightarrow> c = CHR ''.''" for c
    using lower_az_not_digit[OF lower_byte_az[of c]] lower_byte_other[of c] by (cases "upper_az c") simp_all
  have suf: "\<not> has_suffix (map lower_byte h) ''.''"
    using edges dot by (auto simp: has_suffix_iff map_eq_append_conv Cons_eq_map_conv)
  have n: "normalize ulower h = map lower_byte h"
    using suf by (simp add: normalize_def trim low trim_suffix_def)
  have lowered: "label_char c \<or> c = CHR ''.''" if "c \<in> set (map lower_byte h)" for c
  proof -
    obtain d where d: "d \<in> set h" "c = lower_byte d" using \<open>c \<in> set (map lower_byte h)\<close> by auto
    show ?thesis
    proof (cases "upper_az d")
      case True
      then show ?thesis using d lower_byte_az[of d] by (simp add: label_char_def)
    next
      case False
      then show ?thesis using d hostname_chars[OF assms d(1)] lower_byte_other[of d] by simp
    qed
  qed
  have plain: "c \<notin> set (map lower_byte h)" if "c \<in> {CHR '':'', CHR ''['', CHR '']''}" for c
    using lowered[of c] label_char_brackets[of c] that by auto
  have "\<not> is_ipv4 (map lower_byte h)"
  proof
    assume ip: "is_ipv4 (map lower_byte h)"
    have "lower_byte c = c" if "c \<in> set h" for c
    proof (cases "upper_az c")
      case True
      have "lower_byte c \<in> set (map lower_byte h)" using that by simp
      then have "digit09 (lower_byte c) \<or> lower_byte c = CHR ''.''" by (rule ipv4_chars[OF ip])
      then show ?thesis using lower_az_not_digit[OF lower_byte_az[OF True]] by blast
    qed (rule lower_byte_other)
    then have "map lower_byte h = h" by (simp add: map_idI)
    then show False using ip assms by (simp add: hostname_def)
  qed
  then have "\<not> parse_ip (map lower_byte h)" using plain[of "CHR '':''"] by (simp add: parse_ip_no_colon)
  moreover have "trim_prefix (trim_suffix (map lower_byte h) '']'') ''['' = map lower_byte h"
    using plain[of "CHR ''[''"] plain[of "CHR '']''"] by (simp add: trim_brackets)
  ultimately show ?thesis using n ne by (simp add: isIP_def)
qed

text \<open>
  What a validated manifest declares, its application can reach, and Shrike
  knows it: for every application of a parsed manifest and every host it declares,
  after the deployment's merge FatLine admits the host, in any letter case and with
  or without a trailing dot, with a non-empty reason, and Shrike holding the same
  declarations reports it declared for the same reason.
\<close>

theorem declared_hosts_admitted:
  assumes "parse_manifest yaml data = Inr m" and "x \<in> set (man_apps m)" and "d \<in> set (declared x)"
    and "doc_written doc" and "ns \<noteq> []" and "fresh_creds sha doc ns m creds"
    and "normalize ulower host = normalize ulower (ext_host d)"
  shows "\<exists>reason. reason \<noteq> []
    \<and> enforced ulower (fst (egressPolicy sha doc ns m creds)) (ns @ ''/'' @ app_name x) host = Some reason
    \<and> Declared ulower (shrike_New ulower (declared x)) host = Some reason"
proof -
  have m: "manifest_ok m" using parse_manifest_Inr assms(1) by blast
  then have dx: "\<forall>e\<in>set (declared x). hostname (ext_host e) \<and> ext_reason e \<noteq> []"
    using assms(2) by (auto simp: manifest_ok_def list_all_iff app_ok_def)
  have n: "normalize ulower host \<noteq> [] \<and> \<not> isIP (normalize ulower host)"
    unfolding assms(7) using hostname_normalize[of "ext_host d" ulower] dx assms(3) by blast
  obtain e where e: "e \<in> set (declared x)" "Declared ulower (shrike_New ulower (declared x)) host = Some (ext_reason e)"
    using shrike.admits_declared[OF assms(3) assms(7)[symmetric]] n by auto
  have "enforced ulower (fst (egressPolicy sha doc ns m creds)) (ns @ ''/'' @ app_name x) host
      = permitted ulower (declared x) host"
    using enforced_own[OF assms(4,5) m assms(6,2)] .
  then show ?thesis using e dx by (metis Declared_New)
qed

definition demo_raw :: raw_manifest where
  "demo_raw = \<lparr>rm_name = Some ''shop'', rm_apps = Some [\<lparr>ra_name = Some ''api'', ra_containerfile = Some ''C'',
     ra_context = None, ra_external = Some [\<lparr>rx_host = Some ''pay.io'', rx_reason = Some ''pay''\<rparr>]\<rparr>]\<rparr>"

lemma demo_parses: "parse_manifest (\<lambda>_. Inr demo_raw) ''n'' = Inr demo_manifest"
proof -
  have "validate demo_raw = (Some demo_manifest, [])" by code_simp
  moreover have "trim_space ''n'' = ''n''" by (rule trim_space_visible) (simp_all add: byte_val_def)
  moreover have "\<not> has_prefix ''n'' bom" "\<not> has_prefix ''n'' ''#''"
    by (simp_all add: has_prefix_def bom_def)
  moreover have "split_on (byte 10) ''n'' = [''n'']" by (rule split_on_no_occ) (simp add: byte_def char_of_def)
  ultimately show ?thesis
    by (simp add: parse_manifest_def isBlank_def trim_prefix_def cut_prefix_def)
qed

theorem declared_hosts_admitted_witness:
  "\<exists>reason. reason \<noteq> []
    \<and> enforced id (fst (egressPolicy demo_sha demo_doc ''shop'' demo_manifest [''c''])) ''shop/api'' ''pay.io'' = Some reason
    \<and> Declared id (shrike_New id (declared (hd (man_apps demo_manifest)))) ''pay.io'' = Some reason"
proof -
  have f: "fresh_creds demo_sha demo_doc ''shop'' demo_manifest [''c'']"
    by (simp add: fresh_creds_def demo_manifest_def demo_doc_def demo_entry_def)
  have "hd (man_apps demo_manifest) \<in> set (man_apps demo_manifest)"
    "\<lparr>ext_host = ''pay.io'', ext_reason = ''pay''\<rparr> \<in> set (declared (hd (man_apps demo_manifest)))"
    by (simp_all add: demo_manifest_def declared_def)
  from declared_hosts_admitted[OF demo_parses this demo_doc_written _ f, of id "''pay.io''"]
  show ?thesis by (simp add: demo_manifest_def)
qed

section \<open>What the checks leave open\<close>

lemma demo_permitted: "permitted id [\<lparr>ext_host = ''pay.io'', ext_reason = ''pay''\<rparr>] ''pay.io'' = Some ''pay''"
proof -
  have "hostname ''pay.io''" by code_simp
  then have "normalize id ''pay.io'' \<noteq> []" "\<not> isIP (normalize id ''pay.io'')"
    using hostname_normalize by blast+
  then show ?thesis by (simp add: permitted_def Let_def)
qed

text \<open>
  \<open>Parse\<close> refuses a document in which two applications share a credential, so that
  none silently enforces the other's declarations. It does not compare tenants: two
  entries with one namespace and name pass, and \<open>ByTenant\<close> keeps the later one's
  declarations for both.
\<close>

definition twin_doc :: "(string \<Rightarrow> string) \<Rightarrow> document" where
  "twin_doc sha = \<lparr>doc_version = 1, doc_apps =
     [\<lparr>pa_name = ''api'', pa_namespace = ''shop'', pa_hash = HashCredential sha ''a'',
        pa_external = [\<lparr>ext_host = ''pay.io'', ext_reason = ''pay''\<rparr>]\<rparr>,
      \<lparr>pa_name = ''api'', pa_namespace = ''shop'', pa_hash = HashCredential sha ''b'', pa_external = []\<rparr>]\<rparr>"

text \<open>
  The tenant check \<open>Parse\<close> lacks: a document with two applications under one
  namespace and name is accepted as long as their hashes differ, the first is
  identified by its own credential, and FatLine then enforces the second one's
  declarations for it, denying the host it declared.
\<close>

theorem parse_accepts_shared_tenant:
  assumes "length (sha ''a'') = 32" and "length (sha ''b'') = 32" and "sha ''a'' \<noteq> sha ''b''"
  shows "parse_policy (\<lambda>_. Some (twin_doc sha)) data = Inr (twin_doc sha)
    \<and> Identify sha (twin_doc sha) ''a'' = Some (hd (doc_apps (twin_doc sha)))
    \<and> permitted id (pa_external (hd (doc_apps (twin_doc sha)))) ''pay.io'' = Some ''pay''
    \<and> enforced id (twin_doc sha) (Tenant (hd (doc_apps (twin_doc sha)))) ''pay.io'' = None"
proof -
  have "HashCredential sha ''a'' \<noteq> HashCredential sha ''b''"
    using assms(3) by (simp add: HashCredential_def hex_encode_inj)
  then have ok: "doc_ok (twin_doc sha)"
    using assms by (simp add: doc_ok_def twin_doc_def Version_def app_entry_ok_def isSHA256Hex_hash)
  moreover have "get_or [] (ByTenant (twin_doc sha)) (Tenant (hd (doc_apps (twin_doc sha)))) = []"
    by (simp add: get_or_ByTenant twin_doc_def Tenant_def)
  moreover have "permitted id (pa_external (hd (doc_apps (twin_doc sha)))) ''pay.io'' = Some ''pay''"
    by (simp add: twin_doc_def demo_permitted)
  moreover have "Identify sha (twin_doc sha) ''a'' = Some (hd (doc_apps (twin_doc sha)))"
    using ok by (simp add: Identify_unique doc_ok_def) (simp add: twin_doc_def)
  ultimately show ?thesis by (simp add: parse_policy_Inr_iff enforced_eq)
qed

theorem parse_accepts_shared_tenant_witness:
  "enforced id (twin_doc demo_sha) ''shop/api'' ''pay.io'' = None"
proof -
  have "demo_sha ''a'' \<noteq> demo_sha ''b''" by simp
  from parse_accepts_shared_tenant[OF demo_sha_simps(1) demo_sha_simps(1) this]
  show ?thesis by (simp add: twin_doc_def Tenant_def)
qed

end
