(* ===== verification/Egress_Proxy.thy ===== *)
theory Egress_Proxy
  imports Egress_Document "HOL-Library.Sublist"
begin

text \<open>
  FatLine's data plane: the egress proxy (\<open>fatline/internal/proxy/proxy.go\<close>), its
  events and buffered sink (\<open>fatline/event/event.go\<close>), the server that joins the
  policy with the proxy (\<open>fatline/fatline.go\<close>), the policy watcher
  (\<open>fatline/cmd/fatline/main.go\<close>) and the in-instance stream relay
  (\<open>fatline/stream.go\<close>). A handler is the list of the actions it performs, in order;
  what the network answers is an environment record. \<open>ulower\<close> and \<open>ufold\<close> are the
  non-ASCII parts of \<open>ToLower\<close> and \<open>EqualFold\<close>.
\<close>

section \<open>Reading a request\<close>

text \<open>\<open>strings.Cut\<close> at a one-byte separator.\<close>

fun cut :: "char \<Rightarrow> string \<Rightarrow> (string \<times> string) option" where
  "cut sep [] = None"
| "cut sep (c # s) =
     (if c = sep then Some ([], s)
      else case cut sep s of None \<Rightarrow> None | Some (a, b) \<Rightarrow> Some (c # a, b))"

text \<open>The text before and after the last occurrence, for \<open>LastIndexByte\<close>.\<close>

definition cut_last :: "char \<Rightarrow> string \<Rightarrow> (string \<times> string) option" where
  "cut_last sep s = (case cut sep (rev s) of None \<Rightarrow> None | Some (a, b) \<Rightarrow> Some (rev b, rev a))"

text \<open>\<open>net.SplitHostPort\<close>; \<open>None\<close> is its error.\<close>

definition split_host_port :: "string \<Rightarrow> (string \<times> string) option" where
  "split_host_port s =
     (case cut_last CHR '':'' s of
        None \<Rightarrow> None
      | Some (before, port) \<Rightarrow>
          if CHR ''['' \<in> set port \<or> CHR '']'' \<in> set port then None
          else (case before of
              [] \<Rightarrow> Some ([], port)
            | b # rest \<Rightarrow>
                if b = CHR ''['' then
                  (case cut CHR '']'' rest of
                     Some (inner, []) \<Rightarrow> if CHR ''['' \<in> set inner then None else Some (inner, port)
                   | _ \<Rightarrow> None)
                else if CHR '':'' \<in> set before \<or> CHR ''['' \<in> set before \<or> CHR '']'' \<in> set before then None
                else Some (before, port)))"

definition authority :: "string \<Rightarrow> string \<Rightarrow> string \<times> string" where
  "authority s defPort =
     (if s = [] then ([], defPort)
      else case split_host_port s of
          Some (h, p) \<Rightarrow> (h, p)
        | None \<Rightarrow> (trim_space s, defPort))"

record request =
  rq_connect :: bool
  rq_host :: string
  rq_url_host :: "string option"
  rq_proxy_authorization :: string

definition plainHost :: "request \<Rightarrow> string" where
  "plainHost r = (case rq_url_host r of
     None \<Rightarrow> rq_host r | Some h \<Rightarrow> if h \<noteq> [] then h else rq_host r)"

definition credentialFrom :: "(string \<Rightarrow> string \<Rightarrow> bool) \<Rightarrow> request \<Rightarrow> string" where
  "credentialFrom ufold r =
     (case cut CHR '' '' (rq_proxy_authorization r) of
        None \<Rightarrow> []
      | Some (scheme, encoded) \<Rightarrow>
          if \<not> equal_fold ufold scheme ''basic'' then []
          else case b64_decode (trim_space encoded) of
              None \<Rightarrow> []
            | Some raw \<Rightarrow> (case cut CHR '':'' raw of None \<Rightarrow> [] | Some (_, credential) \<Rightarrow> credential))"

section \<open>Events\<close>

datatype event_kind = EvAllow | EvDeny | EvClose | EvFail

definition ReasonNotInAllowlist :: string where "ReasonNotInAllowlist = ''not_in_allowlist''"
definition ReasonCleartext :: string where "ReasonCleartext = ''cleartext_not_allowed''"
definition ReasonSNIMismatch :: string where "ReasonSNIMismatch = ''sni_mismatch''"
definition ReasonDialFailed :: string where "ReasonDialFailed = ''dial_failed''"
definition ReasonUnknownApp :: string where "ReasonUnknownApp = ''unknown_app''"

record event =
  ev_kind :: event_kind
  ev_tenant :: string
  ev_app :: string
  ev_host :: string
  ev_port :: string
  ev_proto :: string
  ev_sni :: string
  ev_reason :: string
  ev_up :: int
  ev_down :: int
  ev_dial_ms :: int
  ev_duration_ms :: int

definition zero_event :: event where
  "zero_event = \<lparr>ev_kind = EvAllow, ev_tenant = [], ev_app = [], ev_host = [], ev_port = [], ev_proto = [],
     ev_sni = [], ev_reason = [], ev_up = 0, ev_down = 0, ev_dial_ms = 0, ev_duration_ms = 0\<rparr>"

section \<open>The proxy\<close>

record caller =
  cl_tenant :: string
  cl_namespace :: string
  cl_app :: string

definition no_caller :: caller where
  "no_caller = \<lparr>cl_tenant = [], cl_namespace = [], cl_app = []\<rparr>"

record proxy =
  px_allow :: allowlist
  px_enforce_sni :: bool
  px_identify :: "string \<Rightarrow> caller option"

text \<open>A nil \<open>Identify\<close> identifies nobody.\<close>

definition proxy_New :: "allowlist \<Rightarrow> bool \<Rightarrow> (string \<Rightarrow> caller option) option \<Rightarrow> proxy" where
  "proxy_New al sni ident = \<lparr>px_allow = al, px_enforce_sni = sni,
     px_identify = (case ident of None \<Rightarrow> \<lambda>_. None | Some f \<Rightarrow> f)\<rparr>"

text \<open>What the connection and the network do.\<close>

record environment =
  env_hijacker :: bool
  env_hijack_ok :: bool
  env_write_ok :: bool
  env_sni :: string
  env_dial_ok :: bool
  env_dial_ns :: int
  env_up :: int
  env_down :: int
  env_open_ns :: int

datatype action =
    Emit event
  | Challenge
  | HttpError nat
  | Established
  | PeekSNI
  | DialOut string string
  | Splice

definition millisSince :: "duration \<Rightarrow> int" where
  "millisSince d = (if d \<le> 0 then 0 else go_div (d + 10 ^ 6 - 1) (10 ^ 6))"

definition decision_event :: "event_kind \<Rightarrow> caller \<Rightarrow> string \<Rightarrow> string \<Rightarrow> string \<Rightarrow> string \<Rightarrow> event" where
  "decision_event k c host port proto reason =
     zero_event\<lparr>ev_kind := k, ev_tenant := cl_namespace c, ev_app := cl_app c, ev_host := host,
       ev_port := port, ev_proto := proto, ev_reason := reason\<rparr>"

definition handlePlain :: "(string \<Rightarrow> string \<Rightarrow> bool) \<Rightarrow> proxy \<Rightarrow> request \<Rightarrow> action list" where
  "handlePlain ufold p r =
     (case authority (plainHost r) ''80'' of (host, port) \<Rightarrow>
        let caller = (case px_identify p (credentialFrom ufold r) of None \<Rightarrow> no_caller | Some c \<Rightarrow> c)
        in [Emit (decision_event EvDeny caller host port ''http'' ReasonCleartext), HttpError 403])"

text \<open>After the decision: the tunnel.\<close>

definition tunnel :: "(string \<Rightarrow> string \<Rightarrow> bool) \<Rightarrow> proxy \<Rightarrow> environment \<Rightarrow> caller \<Rightarrow> string \<Rightarrow> string \<Rightarrow> action list" where
  "tunnel ufold p env c host port =
     (if \<not> env_hijacker env then [HttpError 500]
      else if \<not> env_hijack_ok env then []
      else if \<not> env_write_ok env then [Established]
      else [Established, PeekSNI] @
        (let sni = env_sni env in
         if px_enforce_sni p \<and> sni \<noteq> [] \<and> \<not> equal_fold ufold sni host
         then [Emit ((decision_event EvDeny c host port ''connect'' ReasonSNIMismatch)\<lparr>ev_sni := sni\<rparr>)]
         else DialOut host port #
           (let ms = millisSince (env_dial_ns env) in
            if \<not> env_dial_ok env
            then [Emit ((decision_event EvFail c host port ''connect'' ReasonDialFailed)
                     \<lparr>ev_sni := sni, ev_dial_ms := ms\<rparr>)]
            else [Splice, Emit ((decision_event EvClose c host port ''connect'' [])
                     \<lparr>ev_sni := sni, ev_up := env_up env, ev_down := env_down env,
                      ev_dial_ms := ms, ev_duration_ms := millisSince (env_open_ns env)\<rparr>)])))"

definition handleConnect ::
  "(string \<Rightarrow> string) \<Rightarrow> (string \<Rightarrow> string \<Rightarrow> bool) \<Rightarrow> proxy \<Rightarrow> environment \<Rightarrow> request \<Rightarrow> action list"
where
  "handleConnect ulower ufold p env r =
     (case authority (rq_host r) ''443'' of (host, port) \<Rightarrow>
        case px_identify p (credentialFrom ufold r) of
          None \<Rightarrow> [Emit (decision_event EvDeny no_caller host port ''connect'' ReasonUnknownApp), Challenge, HttpError 407]
        | Some c \<Rightarrow>
            let d = Allow ulower (px_allow p) (cl_tenant c) host in
            if \<not> dec_allowed d
            then [Emit (decision_event EvDeny c host port ''connect'' (dec_reason d)), HttpError 403]
            else Emit (decision_event EvAllow c host port ''connect'' (dec_reason d))
              # tunnel ufold p env c host port)"

definition ServeHTTP ::
  "(string \<Rightarrow> string) \<Rightarrow> (string \<Rightarrow> string \<Rightarrow> bool) \<Rightarrow> proxy \<Rightarrow> environment \<Rightarrow> request \<Rightarrow> action list"
where
  "ServeHTTP ulower ufold p env r =
     (if rq_connect r then handleConnect ulower ufold p env r else handlePlain ufold p r)"

section \<open>The stream relay\<close>

record stream_route =
  sr_name :: string
  sr_addr :: string
  sr_ordinals :: int

datatype relay_error =
    Takes_no_ordinal | Requires_ordinal | Out_of_range | Not_canonical

definition ordinal_mark :: string where
  "ordinal_mark = ''{ordinal}''"

text \<open>\<open>strings.ReplaceAll\<close> for a non-empty pattern.\<close>

function replace_all :: "string \<Rightarrow> string \<Rightarrow> string \<Rightarrow> string" where
  "replace_all new old s =
     (if s = [] \<or> old = [] then s
      else if has_prefix s old then new @ replace_all new old (drop (length old) s)
      else hd s # replace_all new old (tl s))"
  by pat_completeness auto
termination
  by (relation "measure (\<lambda>(new, old, s). length s)") auto

declare replace_all.simps [simp del]

definition resolve :: "stream_route \<Rightarrow> string \<Rightarrow> relay_error + string" where
  "resolve r ordinal =
     (if sr_ordinals r \<le> 0 then (if ordinal \<noteq> [] then Inl Takes_no_ordinal else Inr (sr_addr r))
      else if ordinal = [] then Inl Requires_ordinal
      else case parse_int64 ordinal of
          None \<Rightarrow> Inl Out_of_range
        | Some i \<Rightarrow>
            if i < 0 \<or> i \<ge> sr_ordinals r then Inl Out_of_range
            else if format_int i \<noteq> ordinal then Inl Not_canonical
            else Inr (replace_all (format_int i) ordinal_mark (sr_addr r)))"

datatype route_error =
    Invalid_route_name string | Duplicate_route string | No_address string
  | Ordinals_without_mark string | Mark_without_ordinals string

fun validate_routes_loop :: "string list \<Rightarrow> stream_route list \<Rightarrow> route_error option" where
  "validate_routes_loop seen [] = None"
| "validate_routes_loop seen (r # rs) =
     (if sr_name r = [] \<or> (\<exists>c\<in>set (sr_name r). c \<in> {CHR ''/'', CHR ''?'', CHR ''#''})
      then Some (Invalid_route_name (sr_name r))
      else if sr_name r \<in> set seen then Some (Duplicate_route (sr_name r))
      else if sr_addr r = [] then Some (No_address (sr_name r))
      else if sr_ordinals r > 0 \<and> \<not> contains (sr_addr r) ordinal_mark then Some (Ordinals_without_mark (sr_name r))
      else if sr_ordinals r = 0 \<and> contains (sr_addr r) ordinal_mark then Some (Mark_without_ordinals (sr_name r))
      else validate_routes_loop (sr_name r # seen) rs)"

definition validateStreamRoutes :: "stream_route list \<Rightarrow> route_error option" where
  "validateStreamRoutes rs = validate_routes_loop [] rs"

definition find_route :: "stream_route list \<Rightarrow> string \<Rightarrow> stream_route option" where
  "find_route rs name = find (\<lambda>r. sr_name r = name) rs"

definition emitStream :: "string \<Rightarrow> string \<Rightarrow> int \<Rightarrow> int \<Rightarrow> event" where
  "emitStream route reason up down =
     zero_event\<lparr>ev_kind := (if reason \<noteq> ''relayed'' then EvDeny else EvAllow), ev_proto := ''stream'',
       ev_host := route, ev_reason := reason, ev_up := up, ev_down := down\<rparr>"

datatype relay_action = RelayEvent event | RelayStatus nat | RelayDial string | RelayCopy

text \<open>The handler; \<open>proto_major\<close>, whether the response can flush, and what the dial and the copy gave.\<close>

definition streamHandler ::
  "stream_route list \<Rightarrow> nat \<Rightarrow> bool \<Rightarrow> string \<Rightarrow> string \<Rightarrow> bool \<Rightarrow> int \<times> int \<Rightarrow> relay_action list"
where
  "streamHandler routes proto_major flusher name ordinal dial_ok bytes =
     (if proto_major \<noteq> 2 then [RelayStatus 505]
      else if \<not> flusher then [RelayStatus 500]
      else case find_route routes name of
          None \<Rightarrow> [RelayEvent (emitStream name ''unknown_route'' 0 0), RelayStatus 404]
        | Some route \<Rightarrow>
            (case resolve route ordinal of
               Inl e \<Rightarrow> [RelayEvent (emitStream name ''bad_ordinal'' 0 0), RelayStatus 404]
             | Inr addr \<Rightarrow>
                 if \<not> dial_ok
                 then [RelayDial addr, RelayEvent (emitStream name ''dial_failed'' 0 0), RelayStatus 502]
                 else [RelayDial addr, RelayStatus 200, RelayCopy,
                       RelayEvent (emitStream name ''relayed'' (fst bytes) (snd bytes))]))"

section \<open>The server\<close>

text \<open>Two atomic pointers: the document that identifies, and the allowlist's snapshot.\<close>

record server =
  srv_policy :: "document option"
  srv_allow :: allowlist

definition new_server :: "(string \<Rightarrow> string) \<Rightarrow> external list \<Rightarrow> document option \<Rightarrow> server" where
  "new_server ulower decls pol = \<lparr>srv_policy = pol,
     srv_allow = (case pol of None \<Rightarrow> New ulower decls | Some d \<Rightarrow> NewPerApp ulower (ByTenant d))\<rparr>"

text \<open>\<open>Config\<close>: the listen addresses, the routes and the policy; \<open>New\<close> refuses before it builds.\<close>

record server_config =
  cf_tunnel_listen :: string
  cf_egress_listen :: string
  cf_routes :: "stream_route list"
  cf_allowlist :: "external list"
  cf_policy :: "document option"

datatype server_error = No_listen_address | Bad_routes route_error

definition server_New :: "(string \<Rightarrow> string) \<Rightarrow> server_config \<Rightarrow> server_error + server" where
  "server_New ulower cfg =
     (if cf_tunnel_listen cfg = [] \<and> cf_egress_listen cfg = [] then Inl No_listen_address
      else case validateStreamRoutes (cf_routes cfg) of
          Some e \<Rightarrow> Inl (Bad_routes e)
        | None \<Rightarrow> Inr (new_server ulower (cf_allowlist cfg) (cf_policy cfg)))"

text \<open>\<open>ReloadPolicy\<close> is two stores, in this order.\<close>

definition store_policy :: "document option \<Rightarrow> server \<Rightarrow> server" where
  "store_policy doc s = s\<lparr>srv_policy := doc\<rparr>"

definition store_allow :: "(string \<Rightarrow> string) \<Rightarrow> document option \<Rightarrow> server \<Rightarrow> server" where
  "store_allow ulower doc s = s\<lparr>srv_allow :=
     ReloadPerApp ulower (case doc of None \<Rightarrow> [] | Some d \<Rightarrow> ByTenant d) (srv_allow s)\<rparr>"

definition ReloadPolicy :: "(string \<Rightarrow> string) \<Rightarrow> document option \<Rightarrow> server \<Rightarrow> server" where
  "ReloadPolicy ulower doc s = store_allow ulower doc (store_policy doc s)"

definition ReloadAllowlist :: "(string \<Rightarrow> string) \<Rightarrow> external list \<Rightarrow> server \<Rightarrow> server" where
  "ReloadAllowlist ulower decls s = s\<lparr>srv_allow := Reload ulower decls (srv_allow s)\<rparr>"

definition server_identify :: "(string \<Rightarrow> string) \<Rightarrow> server \<Rightarrow> string \<Rightarrow> caller option" where
  "server_identify sha s credential =
     (case srv_policy s of
        None \<Rightarrow> None
      | Some doc \<Rightarrow> (case Identify sha doc credential of
            None \<Rightarrow> None
          | Some a \<Rightarrow> Some \<lparr>cl_tenant = Tenant a, cl_namespace = pa_namespace a, cl_app = pa_name a\<rparr>))"

definition server_proxy :: "(string \<Rightarrow> string) \<Rightarrow> server \<Rightarrow> proxy" where
  "server_proxy sha s = proxy_New (srv_allow s) True (Some (server_identify sha s))"

text \<open>
  \<open>watchPolicy\<close>: \<open>last\<close> is what the file held when the watcher started or last
  succeeded; one tick reads the file (\<open>None\<close>: the read failed). The boolean says
  whether a refusal was logged.
\<close>

record watcher =
  wt_last :: string
  wt_server :: server

definition watch_start :: "string option \<Rightarrow> server \<Rightarrow> watcher" where
  "watch_start data srv = \<lparr>wt_last = (case data of None \<Rightarrow> [] | Some d \<Rightarrow> d), wt_server = srv\<rparr>"

definition watch_tick ::
  "(string \<Rightarrow> string) \<Rightarrow> (string \<Rightarrow> document option) \<Rightarrow> string option \<Rightarrow> watcher \<Rightarrow> watcher \<times> bool"
where
  "watch_tick ulower json file w =
     (case file of
        None \<Rightarrow> (w, False)
      | Some data \<Rightarrow>
          if data = wt_last w then (w, False)
          else case parse_policy json data of
              Inl e \<Rightarrow> (w, True)
            | Inr doc \<Rightarrow> (\<lparr>wt_last = data, wt_server = ReloadPolicy ulower (Some doc) (wt_server w)\<rparr>, False))"

text \<open>What \<open>run\<close> does with the policy file before serving: \<open>None\<close>, no such file; then an error stops it.\<close>

definition load_policy_at_start ::
  "(string \<Rightarrow> string) \<Rightarrow> (string \<Rightarrow> document option) \<Rightarrow> string option \<Rightarrow> policy_error + server"
where
  "load_policy_at_start ulower json file =
     (case file of
        None \<Rightarrow> Inr (new_server ulower [] None)
      | Some data \<Rightarrow> (case parse_policy json data of
            Inl e \<Rightarrow> Inl e
          | Inr doc \<Rightarrow> Inr (new_server ulower [] (Some doc))))"

section \<open>The buffered sink\<close>

record sink =
  sk_capacity :: nat
  sk_queue :: "event list"
  sk_dropped :: nat
  sk_out :: "event list"

definition NewBufferedSink :: "int \<Rightarrow> sink" where
  "NewBufferedSink buffer = \<lparr>sk_capacity = nat (if buffer \<le> 0 then 1024 else buffer),
     sk_queue = [], sk_dropped = 0, sk_out = []\<rparr>"

definition sink_Emit :: "event \<Rightarrow> sink \<Rightarrow> sink" where
  "sink_Emit e b =
     (if length (sk_queue b) < sk_capacity b then b\<lparr>sk_queue := sk_queue b @ [e]\<rparr>
      else b\<lparr>sk_dropped := sk_dropped b + 1\<rparr>)"

text \<open>One receive of \<open>Run\<close>'s loop; \<open>drain\<close> empties the channel at shutdown.\<close>

definition sink_deliver :: "sink \<Rightarrow> sink" where
  "sink_deliver b = (case sk_queue b of [] \<Rightarrow> b
     | e # q \<Rightarrow> b\<lparr>sk_queue := q, sk_out := sk_out b @ [e]\<rparr>)"

function drain :: "sink \<Rightarrow> sink" where
  "drain b = (case sk_queue b of [] \<Rightarrow> b | e # q \<Rightarrow> drain (sink_deliver b))"
  by pat_completeness auto
termination
  by (relation "measure (\<lambda>b. length (sk_queue b))") (auto simp: sink_deliver_def)

declare drain.simps [simp del]

text \<open>The runs of a sink under any interleaving of emitters and the draining goroutine.\<close>

inductive sink_run :: "sink \<Rightarrow> event list \<Rightarrow> sink \<Rightarrow> bool" for b0 where
  start: "sink_run b0 [] b0"
| emit: "sink_run b0 es b \<Longrightarrow> sink_run b0 (es @ [e]) (sink_Emit e b)"
| deliver: "sink_run b0 es b \<Longrightarrow> sink_run b0 es (sink_deliver b)"

section \<open>What a request may do\<close>

abbreviation decision_kind :: "event_kind \<Rightarrow> bool" where
  "decision_kind k \<equiv> k = EvAllow \<or> k = EvDeny"

definition events_of :: "action list \<Rightarrow> event list" where
  "events_of as = concat (map (\<lambda>a. case a of Emit e \<Rightarrow> [e] | _ \<Rightarrow> []) as)"

lemma events_of_simps [simp]:
  "events_of [] = []" "events_of (Emit e # as) = e # events_of as"
  "events_of (Challenge # as) = events_of as" "events_of (HttpError n # as) = events_of as"
  "events_of (Established # as) = events_of as" "events_of (PeekSNI # as) = events_of as"
  "events_of (DialOut h q # as) = events_of as" "events_of (Splice # as) = events_of as"
  by (simp_all add: events_of_def)

lemma decision_event_simps [simp]:
  "ev_kind (decision_event k c h q pr re) = k" "ev_tenant (decision_event k c h q pr re) = cl_namespace c"
  "ev_app (decision_event k c h q pr re) = cl_app c" "ev_host (decision_event k c h q pr re) = h"
  "ev_port (decision_event k c h q pr re) = q" "ev_reason (decision_event k c h q pr re) = re"
  by (simp_all add: decision_event_def)

lemma verdict_allowed: "dec_allowed (Allow ulower al t h) \<longleftrightarrow> verdict (Allow ulower al t h) \<noteq> None"
  by (simp add: verdict_def)

lemma tunnel_DialOut:
  "DialOut h q \<in> set (tunnel ufold p env c host port) \<Longrightarrow>
     h = host \<and> q = port \<and> (px_enforce_sni p \<longrightarrow> env_sni env = [] \<or> equal_fold ufold (env_sni env) host)"
  by (auto simp: tunnel_def Let_def split: if_splits)

definition sni_refused :: "(string \<Rightarrow> string \<Rightarrow> bool) \<Rightarrow> proxy \<Rightarrow> environment \<Rightarrow> string \<Rightarrow> bool" where
  "sni_refused ufold p env host \<longleftrightarrow> env_hijacker env \<and> env_hijack_ok env \<and> env_write_ok env
     \<and> px_enforce_sni p \<and> env_sni env \<noteq> [] \<and> \<not> equal_fold ufold (env_sni env) host"

lemma tunnel_decisions:
  "filter (\<lambda>e. decision_kind (ev_kind e)) (events_of (tunnel ufold p env c host port)) =
     (if sni_refused ufold p env host
      then [(decision_event EvDeny c host port ''connect'' ReasonSNIMismatch)\<lparr>ev_sni := env_sni env\<rparr>] else [])"
  by (simp add: tunnel_def sni_refused_def Let_def)

text \<open>
  C10. Nothing leaves without a decision for it: whenever serving a request dials
  out, the request was a CONNECT, its credential identified an application, that
  application's own allowlist admits the host, and the dialled host and port are the
  request's authority. Where the proxy enforces server names, a name the client revealed
  matched that host; a client that reveals none is dialled without one.
\<close>

theorem dials_only_what_is_allowed:
  assumes "DialOut h q \<in> set (ServeHTTP ulower ufold p env r)"
  shows "\<exists>c. rq_connect r \<and> px_identify p (credentialFrom ufold r) = Some c
    \<and> (h, q) = authority (rq_host r) ''443''
    \<and> verdict (Allow ulower (px_allow p) (cl_tenant c) h) \<noteq> None
    \<and> (px_enforce_sni p \<longrightarrow> env_sni env = [] \<or> equal_fold ufold (env_sni env) h)"
proof -
  obtain host port where a: "authority (rq_host r) ''443'' = (host, port)" by fastforce
  have con: "rq_connect r"
    using assms by (auto simp: ServeHTTP_def handlePlain_def split: if_splits prod.splits)
  then have "DialOut h q \<in> set (handleConnect ulower ufold p env r)" using assms by (simp add: ServeHTTP_def)
  then obtain c where c: "px_identify p (credentialFrom ufold r) = Some c"
      "dec_allowed (Allow ulower (px_allow p) (cl_tenant c) host)"
      "DialOut h q \<in> set (tunnel ufold p env c host port)"
    using a by (auto simp: handleConnect_def Let_def split: option.splits if_splits)
  then show ?thesis using con a tunnel_DialOut[OF c(3)] by (auto simp: verdict_allowed)
qed

text \<open>
  Every request is answered after its decision was recorded: the first action is
  the decision event, attributed to the identified application; there is exactly
  one decision event, except when the tunnel was already open and the revealed
  server name differs from the admitted host, where the recorded Allow is followed
  by a Deny. That is one decision more than the contract of the event documents.
\<close>

theorem decision_recorded_first:
  shows "\<exists>e rest. ServeHTTP ulower ufold p env r = Emit e # rest \<and> decision_kind (ev_kind e)
    \<and> (\<forall>c. px_identify p (credentialFrom ufold r) = Some c \<longrightarrow> ev_tenant e = cl_namespace c \<and> ev_app e = cl_app c)
    \<and> length (filter (\<lambda>e. decision_kind (ev_kind e)) (events_of (ServeHTTP ulower ufold p env r)))
      = (if rq_connect r \<and> ev_kind e = EvAllow \<and> sni_refused ufold p env (ev_host e) then 2 else 1)"
proof (cases "rq_connect r")
  case False
  then show ?thesis
    by (auto simp: ServeHTTP_def handlePlain_def Let_def no_caller_def split: prod.splits option.splits)
next
  case True
  obtain host port where a: "authority (rq_host r) ''443'' = (host, port)" by fastforce
  show ?thesis
  proof (cases "px_identify p (credentialFrom ufold r)")
    case None
    then show ?thesis using True a by (simp add: ServeHTTP_def handleConnect_def)
  next
    case (Some c)
    then show ?thesis using True a
      by (simp add: ServeHTTP_def handleConnect_def Let_def tunnel_decisions)
  qed
qed

definition demo_proxy :: proxy where
  "demo_proxy = \<lparr>px_allow = NewPerApp id [(''shop/api'', [\<lparr>ext_host = ''pay.io'', ext_reason = ''pay''\<rparr>])],
     px_enforce_sni = True, px_identify = (\<lambda>_. Some \<lparr>cl_tenant = ''shop/api'', cl_namespace = ''shop'', cl_app = ''api''\<rparr>)\<rparr>"

definition demo_env :: environment where
  "demo_env = \<lparr>env_hijacker = True, env_hijack_ok = True, env_write_ok = True, env_sni = ''pay.io'', env_dial_ok = True,
     env_dial_ns = 1, env_up = 1, env_down = 2, env_open_ns = 3\<rparr>"

definition demo_request :: request where
  "demo_request = \<lparr>rq_connect = True, rq_host = ''pay.io:443'', rq_url_host = None, rq_proxy_authorization = []\<rparr>"

lemma demo_request_allowed:
  "authority ''pay.io:443'' ''443'' = (''pay.io'', ''443'')"
  "dec_allowed (Allow id (px_allow demo_proxy) ''shop/api'' ''pay.io'')"
proof -
  show "authority ''pay.io:443'' ''443'' = (''pay.io'', ''443'')" by code_simp
  have "verdict (Allow id (px_allow demo_proxy) ''shop/api'' ''pay.io'') = Some ''pay''"
    by (simp add: demo_proxy_def Allow_per_app get_or_def demo_permitted)
  then show "dec_allowed (Allow id (px_allow demo_proxy) ''shop/api'' ''pay.io'')" by (simp add: verdict_allowed)
qed

theorem decision_recorded_first_witness:
  "length (filter (\<lambda>e. decision_kind (ev_kind e)) (events_of
     (ServeHTTP id (=) demo_proxy (demo_env\<lparr>env_sni := ''evil.io''\<rparr>) demo_request))) = 2"
proof -
  let ?t = "ServeHTTP id (=) demo_proxy (demo_env\<lparr>env_sni := ''evil.io''\<rparr>) demo_request"
  obtain e rest where e: "?t = Emit e # rest"
    "length (filter (\<lambda>e. decision_kind (ev_kind e)) (events_of ?t)) =
      (if rq_connect demo_request \<and> ev_kind e = EvAllow \<and> sni_refused (=) demo_proxy (demo_env\<lparr>env_sni := ''evil.io''\<rparr>) (ev_host e) then 2 else 1)"
    using decision_recorded_first[of id "(=)" demo_proxy "demo_env\<lparr>env_sni := ''evil.io''\<rparr>" demo_request] by auto
  have "ev_kind e = EvAllow \<and> ev_host e = ''pay.io''"
    using e(1) demo_request_allowed by (auto simp: ServeHTTP_def handleConnect_def demo_request_def Let_def demo_proxy_def)
  moreover have "sni_refused (=) demo_proxy (demo_env\<lparr>env_sni := ''evil.io''\<rparr>) ''pay.io''"
    by (simp add: sni_refused_def demo_env_def demo_proxy_def equal_fold_def)
  ultimately show ?thesis using e(2) by (simp add: demo_request_def)
qed

theorem dials_only_what_is_allowed_witness:
  "verdict (Allow id (px_allow demo_proxy) ''shop/api'' ''pay.io'') \<noteq> None"
proof -
  have "DialOut ''pay.io'' ''443'' \<in> set (ServeHTTP id (=) demo_proxy demo_env demo_request)"
    using demo_request_allowed
    by (simp add: ServeHTTP_def handleConnect_def demo_request_def demo_proxy_def tunnel_def demo_env_def
        equal_fold_def Let_def)
  from dials_only_what_is_allowed[OF this] show ?thesis by (simp add: demo_proxy_def)
qed

section \<open>The credential travels\<close>

lemma cut_append: "sep \<notin> set a \<Longrightarrow> cut sep (a @ sep # b) = Some (a, b)"
  by (induction a) auto

lemma urlSafe_no_colon: "CHR '':'' \<notin> set (urlSafe s)"
proof
  assume "CHR '':'' \<in> set (urlSafe s)"
  then have "url_char CHR '':''" by (auto simp: urlSafe_def split: if_splits)
  then show False by (simp add: url_char_def lower_az_def upper_az_def digit09_def)
qed

lemma b64_char_visible: "n < 64 \<Longrightarrow> 32 < byte_val (b64_char n) \<and> byte_val (b64_char n) < 128"
  by (auto simp: b64_char_def byte_val_def)

lemma b64_encode_visible: "x \<in> set (b64_encode bs) \<Longrightarrow> 32 < byte_val x \<and> byte_val x < 128"
  using b64_encode_chars[of x bs] b64_char_visible by (auto simp: byte_val_def)

lemma b64_encode_Nil_iff: "b64_encode bs = [] \<longleftrightarrow> bs = []"
  by (cases bs rule: b64_encode.cases) auto

text \<open>
  The credential an application is handed is the credential FatLine reads: for
  the header a standard client derives from the userinfo of \<open>ProxyURL\<close>, whatever the
  application's name and whatever bytes the credential has, in any letter case of
  the scheme, \<open>credentialFrom\<close> returns exactly the credential.
\<close>

theorem credential_round_trip:
  assumes "rq_proxy_authorization r = scheme @ '' '' @ b64_encode (urlSafe app @ '':'' @ credential)"
    and "scheme \<in> {''Basic'', ''basic'', ''BASIC''}"
  shows "credentialFrom ufold r = credential"
proof -
  let ?p = "b64_encode (urlSafe app @ '':'' @ credential)"
  have ne: "?p \<noteq> []" by (simp add: b64_encode_Nil_iff)
  have "trim_space ?p = ?p"
    using b64_encode_visible[OF hd_in_set[OF ne]] b64_encode_visible[OF last_in_set[OF ne]] ne
    by (intro trim_space_visible) blast+
  moreover have "cut CHR '' '' (rq_proxy_authorization r) = Some (scheme, ?p)"
    using assms cut_append[of "CHR '' ''" scheme ?p] by auto
  moreover have "equal_fold ufold scheme ''basic''" using assms(2)
    by (elim insertE) (simp_all add: equal_fold_def is_ascii_def lower_byte_def upper_az_def byte_val_def, code_simp+)
  moreover have "cut CHR '':'' (urlSafe app @ '':'' @ credential) = Some (urlSafe app, credential)"
    using cut_append[OF urlSafe_no_colon] by simp
  ultimately show ?thesis by (simp add: credentialFrom_def b64_decode_encode)
qed

theorem credential_round_trip_witness:
  "credentialFrom (=) \<lparr>rq_connect = True, rq_host = ''x'', rq_url_host = None,
     rq_proxy_authorization = ''Basic '' @ b64_encode ''my-app:s3:cret''\<rparr> = ''s3:cret''"
proof -
  have u: "urlSafe ''my app'' = ''my-app''"
    by (simp add: urlSafe_def url_char_def lower_az_def upper_az_def digit09_def)
  have "rq_proxy_authorization \<lparr>rq_connect = True, rq_host = ''x'', rq_url_host = None,
     rq_proxy_authorization = ''Basic '' @ b64_encode ''my-app:s3:cret''\<rparr>
     = ''Basic'' @ '' '' @ b64_encode (urlSafe ''my app'' @ '':'' @ ''s3:cret'')"
    using u by (simp del: b64_encode.simps)
  from credential_round_trip[OF this] show ?thesis by simp
qed

section \<open>The server enforces its document\<close>

text \<open>What a caller presenting a credential gets for a host: denied, or the reason.\<close>

definition server_decides ::
  "(string \<Rightarrow> string) \<Rightarrow> (string \<Rightarrow> string) \<Rightarrow> server \<Rightarrow> string \<Rightarrow> string \<Rightarrow> string option"
where
  "server_decides ulower sha s credential host =
     (case server_identify sha s credential of
        None \<Rightarrow> None
      | Some c \<Rightarrow> verdict (Allow ulower (srv_allow s) (cl_tenant c) host))"

lemma server_decides_document:
  assumes "doc_written d" and "srv_policy s = Some d" and "srv_allow s = NewPerApp ulower (ByTenant d)"
  shows "server_decides ulower sha s cr h =
     (case Identify sha d cr of None \<Rightarrow> None | Some a \<Rightarrow> permitted ulower (pa_external a) h)"
proof (cases "Identify sha d cr")
  case None
  then show ?thesis using assms by (simp add: server_decides_def server_identify_def)
next
  case (Some a)
  then have "a \<in> set (doc_apps d)"
    using assms(1) by (simp add: Identify_unique doc_written_def doc_ok_def)
  then show ?thesis using Some assms enforced_member[of d a ulower h]
    by (simp add: server_decides_def server_identify_def enforced_def)
qed

text \<open>
  After a completed reload, and at construction with a document, the server
  decides exactly as the document says: a credential that belongs to no application
  gets nothing, and one that does gets precisely its application's declarations.
  Without a document nobody is identified and nothing is allowed.
\<close>

theorem server_enforces_document:
  assumes "doc_written d"
  shows "server_decides ulower sha (ReloadPolicy ulower (Some d) s) cr h
      = (case Identify sha d cr of None \<Rightarrow> None | Some a \<Rightarrow> permitted ulower (pa_external a) h)
    \<and> server_decides ulower sha (new_server ulower decls (Some d)) cr h
      = (case Identify sha d cr of None \<Rightarrow> None | Some a \<Rightarrow> permitted ulower (pa_external a) h)
    \<and> server_decides ulower sha (ReloadPolicy ulower None s) cr h = None
    \<and> server_decides ulower sha (new_server ulower decls None) cr h = None"
  using assms
  by (simp add: server_decides_document ReloadPolicy_def store_policy_def store_allow_def ReloadPerApp_def
      NewPerApp_def new_server_def)
    (simp add: server_decides_def server_identify_def)

theorem server_enforces_document_witness:
  "server_decides id demo_sha (new_server id [] (Some demo_doc)) ''zz'' ''cdn.io'' = None"
proof -
  have "HashCredential demo_sha ''zz'' \<noteq> HashCredential demo_sha ''a''"
    "HashCredential demo_sha ''zz'' \<noteq> HashCredential demo_sha ''b''"
    by (simp_all add: HashCredential_def hex_encode_inj demo_sha_def)
  then have "Identify demo_sha demo_doc ''zz'' = None"
    by (simp add: Identify_def demo_doc_def demo_entry_def)
  then show ?thesis using server_enforces_document[OF demo_doc_written, of id demo_sha undefined "''zz''" "''cdn.io''" "[]"]
    by simp
qed

text \<open>
  The window of a reload. Between the two stores of \<open>ReloadPolicy\<close> a request meets
  the new credentials and the old declarations: an application the new document
  adds is identified and denied everything it declared, and one that both documents
  have is held to what it declared before, also for hosts it no longer declares.
  Only after the second store is the new document enforced.
\<close>

theorem reload_window:
  assumes "doc_written d" and "doc_written d'" and "a \<in> set (doc_apps d')" and "cr \<noteq> []"
    and "pa_hash a = HashCredential sha cr"
    and "s = new_server ulower decls (Some d)"
  shows "server_identify sha (store_policy (Some d') s) cr
      = Some \<lparr>cl_tenant = Tenant a, cl_namespace = pa_namespace a, cl_app = pa_name a\<rparr>
    \<and> server_decides ulower sha (store_policy (Some d') s) cr h
      = permitted ulower (get_or [] (ByTenant d) (Tenant a)) h
    \<and> server_decides ulower sha (ReloadPolicy ulower (Some d') s) cr h = permitted ulower (pa_external a) h"
proof -
  have i: "Identify sha d' cr = Some a"
    using assms(2-5) by (simp add: Identify_unique doc_written_def doc_ok_def)
  have "server_decides ulower sha (ReloadPolicy ulower (Some d') s) cr h = permitted ulower (pa_external a) h"
    using server_decides_document[OF assms(2), of "ReloadPolicy ulower (Some d') s" ulower sha cr h] i
    by (simp add: ReloadPolicy_def store_policy_def store_allow_def ReloadPerApp_def NewPerApp_def)
  then show ?thesis using i assms(6)
    by (simp add: server_decides_def server_identify_def store_policy_def new_server_def Allow_per_app distinct_ByTenant)
qed

definition grown_doc :: document where
  "grown_doc = demo_doc\<lparr>doc_apps := doc_apps demo_doc @
     [demo_entry ''shop'' ''api'' ''c'' [\<lparr>ext_host = ''pay.io'', ext_reason = ''pay''\<rparr>]]\<rparr>"

theorem reload_window_witness:
  "server_decides id demo_sha (store_policy (Some grown_doc) (new_server id [] (Some demo_doc))) ''c'' ''pay.io'' = None
   \<and> server_decides id demo_sha (ReloadPolicy id (Some grown_doc) (new_server id [] (Some demo_doc))) ''c'' ''pay.io'' = Some ''pay''"
proof -
  let ?a = "demo_entry ''shop'' ''api'' ''c'' [\<lparr>ext_host = ''pay.io'', ext_reason = ''pay''\<rparr>]"
  have w: "doc_written grown_doc"
    by (simp add: grown_doc_def doc_written_def doc_ok_def demo_doc_def demo_entry_def Version_def app_entry_ok_def app_id_def)
  have a: "?a \<in> set (doc_apps grown_doc)" "pa_hash ?a = HashCredential demo_sha ''c''"
    by (simp_all add: grown_doc_def demo_entry_def)
  have "get_or [] (ByTenant demo_doc) (Tenant ?a) = []"
    by (simp add: get_or_ByTenant demo_doc_def demo_entry_def Tenant_def)
  moreover have "permitted id (pa_external ?a) ''pay.io'' = Some ''pay''"
    using demo_permitted by (simp add: demo_entry_def)
  ultimately show ?thesis
    using reload_window[OF demo_doc_written w a(1) _ a(2) refl, where ulower = id and h = "''pay.io''" and decls = "[]"]
    by simp
qed

section \<open>The watcher\<close>

abbreviation watch_ticks ::
  "(string \<Rightarrow> string) \<Rightarrow> (string \<Rightarrow> document option) \<Rightarrow> string option \<Rightarrow> nat \<Rightarrow> watcher \<Rightarrow> watcher"
where
  "watch_ticks ulower json file n \<equiv> (\<lambda>w. fst (watch_tick ulower json file w)) ^^ n"

text \<open>
  A broken policy file never changes what is enforced and is complained about at
  every tick until it is repaired; a readable new document is enforced by the tick
  that reads it; an unreadable file changes nothing.
\<close>

theorem watch_keeps_last_good:
  shows "case parse_policy json data of
      Inl e \<Rightarrow> data \<noteq> wt_last w \<longrightarrow> watch_ticks ulower json (Some data) n w = w
          \<and> snd (watch_tick ulower json (Some data) (watch_ticks ulower json (Some data) n w))
    | Inr d \<Rightarrow> data \<noteq> wt_last w \<longrightarrow>
          wt_server (watch_ticks ulower json (Some data) (Suc n) w) = ReloadPolicy ulower (Some d) (wt_server w)
          \<and> watch_ticks ulower json None n w = w"
proof (cases "parse_policy json data")
  case (Inl e)
  have "watch_ticks ulower json (Some data) n w = w" if "data \<noteq> wt_last w"
    using that Inl by (induction n) (simp_all add: watch_tick_def)
  then show ?thesis using Inl by (simp add: watch_tick_def)
next
  case (Inr d)
  let ?w = "\<lparr>wt_last = data, wt_server = ReloadPolicy ulower (Some d) (wt_server w)\<rparr>"
  have "watch_ticks ulower json (Some data) n ?w = ?w" for n
    by (induction n) (simp_all add: watch_tick_def)
  then have "watch_ticks ulower json (Some data) (Suc n) w = ?w" if "data \<noteq> wt_last w"
    using that Inr by (simp add: funpow_swap1[symmetric] watch_tick_def funpow_Suc_right del: funpow.simps)
  moreover have "watch_ticks ulower json None n w = w"
    by (induction n) (simp_all add: watch_tick_def)
  ultimately show ?thesis using Inr by (simp del: funpow.simps)
qed

theorem watch_keeps_last_good_witness:
  "watch_ticks id (\<lambda>_. None) (Some ''broken'') 3 (watch_start None (new_server id [] (Some demo_doc)))
     = watch_start None (new_server id [] (Some demo_doc))"
proof -
  have "parse_policy (\<lambda>_. None) ''broken'' = Inl Decode_error" by (simp add: parse_policy_def)
  then show ?thesis
    using watch_keeps_last_good[where json = "\<lambda>_. None" and data = "''broken''"
        and w = "watch_start None (new_server id [] (Some demo_doc))" and ulower = id and n = 3]
    by (simp add: watch_start_def)
qed

text \<open>
  The change the watcher cannot see. The file is read twice at start, once to
  load the policy and once by the watcher to know what it has loaded. If it changes
  in between, the watcher takes the new contents for the ones in force: however long
  they stay, the server goes on enforcing the old document.
\<close>

theorem watch_misses_early_change:
  assumes "load_policy_at_start ulower json (Some old) = Inr srv"
  shows "wt_server (watch_ticks ulower json (Some new) n (watch_start (Some new) srv)) = srv
    \<and> (\<exists>d. parse_policy json old = Inr d \<and> srv_policy srv = Some d)"
proof -
  have "watch_ticks ulower json (Some new) n (watch_start (Some new) srv) = watch_start (Some new) srv"
    by (induction n) (simp_all add: watch_tick_def watch_start_def)
  then show ?thesis using assms
    by (auto simp: load_policy_at_start_def watch_start_def new_server_def split: sum.splits)
qed

definition demo_json :: "string \<Rightarrow> document option" where
  "demo_json s = (if s = ''old'' then Some demo_doc else if s = ''new'' then Some grown_doc else None)"

theorem watch_misses_early_change_witness:
  "srv_policy (wt_server (watch_ticks id demo_json (Some ''new'') 7
     (watch_start (Some ''new'') (new_server id [] (Some demo_doc))))) = Some demo_doc
   \<and> parse_policy demo_json ''new'' = Inr grown_doc"
proof -
  have g: "doc_ok grown_doc"
    by (simp add: grown_doc_def doc_ok_def demo_doc_def demo_entry_def Version_def app_entry_ok_def)
  have "parse_policy demo_json ''old'' = Inr demo_doc"
    using demo_doc_written by (simp add: parse_policy_Inr_iff demo_json_def doc_written_def)
  then have "load_policy_at_start id demo_json (Some ''old'') = Inr (new_server id [] (Some demo_doc))"
    by (simp add: load_policy_at_start_def)
  from watch_misses_early_change[OF this, where new = "''new''" and n = 7] g show ?thesis
    by (simp add: parse_policy_Inr_iff demo_json_def new_server_def)
qed

section \<open>No event is lost silently\<close>

lemma drain_delivers: "sk_out (drain b) = sk_out b @ sk_queue b \<and> sk_queue (drain b) = []"
proof (induction b rule: drain.induct)
  case (1 b)
  show ?case
  proof (cases "sk_queue b")
    case Nil
    then show ?thesis by (subst (1 2) drain.simps) simp
  next
    case (Cons e q)
    then show ?thesis using 1[OF Cons] by (subst (1 2) drain.simps) (simp add: sink_deliver_def)
  qed
qed

lemma sink_run_inv:
  assumes "sink_run (NewBufferedSink k) es b"
  shows "sk_capacity b = sk_capacity (NewBufferedSink k) \<and> length (sk_queue b) \<le> sk_capacity b
    \<and> length es = length (sk_out b) + length (sk_queue b) + sk_dropped b
    \<and> subseq (sk_out b @ sk_queue b) es"
  using assms
proof (induction rule: sink_run.induct)
  case start
  then show ?case by (simp add: NewBufferedSink_def)
next
  case (emit es b e)
  have s: "subseq (sk_out b @ sk_queue b) es" using emit.IH by blast
  have "subseq ((sk_out b @ sk_queue b) @ [e]) (es @ [e])" using s by (simp only: subseq_append)
  moreover have "subseq (sk_out b @ sk_queue b) (es @ [e])" using s by (rule subseq_rev_drop_many)
  ultimately show ?case using emit.IH by (simp add: sink_Emit_def)
next
  case (deliver es b)
  then show ?case by (cases "sk_queue b") (simp_all add: sink_deliver_def)
qed

text \<open>
  The buffered sink accounts for every event. Under any interleaving of emitters
  with the draining goroutine, what was delivered or is queued is a subsequence of
  what was emitted, in order; the number missing is exactly the drop counter; the
  queue never exceeds its capacity; and the flush at shutdown delivers what is left.
\<close>

theorem sink_conserves_events:
  assumes "sink_run (NewBufferedSink k) es b"
  shows "length (sk_queue b) \<le> sk_capacity b
    \<and> length es = length (sk_out (drain b)) + sk_dropped b
    \<and> subseq (sk_out (drain b)) es
    \<and> (sk_dropped b = 0 \<longrightarrow> sk_out (drain b) = es)"
proof -
  note inv = sink_run_inv[OF assms]
  have d: "sk_out (drain b) = sk_out b @ sk_queue b" using drain_delivers by blast
  have "sk_out (drain b) = es" if "sk_dropped b = 0"
    using inv that d by (metis subseq_same_length length_append add_0_right)
  then show ?thesis using inv d by simp
qed

theorem sink_conserves_events_witness:
  "sk_out (drain (sink_Emit zero_event (sink_Emit zero_event (NewBufferedSink 1)))) = [zero_event]"
proof -
  have "sink_run (NewBufferedSink 1) (([] @ [zero_event]) @ [zero_event])
      (sink_Emit zero_event (sink_Emit zero_event (NewBufferedSink 1)))"
    by (intro sink_run.intros)
  from sink_conserves_events[OF this] show ?thesis
    using drain_delivers[of "sink_Emit zero_event (sink_Emit zero_event (NewBufferedSink 1))"]
    by (simp add: sink_Emit_def NewBufferedSink_def)
qed

section \<open>The relay reaches configured services only\<close>

lemma replace_all_Nil [simp]: "replace_all new old [] = []"
  by (simp add: replace_all.simps)

lemma replace_all_hit:
  "old \<noteq> [] \<Longrightarrow> has_prefix s old \<Longrightarrow> replace_all new old s = new @ replace_all new old (drop (length old) s)"
  by (subst replace_all.simps) (auto simp: has_prefix_iff)

lemma replace_all_miss:
  "\<not> has_prefix (c # s) old \<Longrightarrow> replace_all new old (c # s) = c # replace_all new old s"
  by (subst replace_all.simps) (auto simp: has_prefix_iff)

text \<open>Each occurrence contributes one copy, so the length tells the replacement's length.\<close>

lemma replace_all_length:
  assumes "old \<noteq> []"
  shows "\<exists>c k. (contains s old \<longrightarrow> 1 \<le> k) \<and> (\<forall>new. length (replace_all new old s) = c + k * length new)"
proof (induction s rule: length_induct)
  case (1 s)
  show ?case
  proof (cases s)
    case Nil
    then have "\<not> contains s old" using assms by (auto simp: contains_iff)
    then show ?thesis using Nil by (intro exI[of _ 0]) simp
  next
    case (Cons x t)
    show ?thesis
    proof (cases "has_prefix s old")
      case True
      have "length (drop (length old) s) < length s" using assms Cons by simp
      then obtain c k where "\<forall>new. length (replace_all new old (drop (length old) s)) = c + k * length new"
        using 1 by blast
      then have "\<forall>new. length (replace_all new old s) = c + Suc k * length new"
        using replace_all_hit[OF assms True] by simp
      then show ?thesis by (metis le_add1 plus_1_eq_Suc)
    next
      case False
      obtain c k where ck: "contains t old \<longrightarrow> 1 \<le> k" "\<forall>new. length (replace_all new old t) = c + k * length new"
        using 1 Cons by fastforce
      have "contains s old \<Longrightarrow> contains t old"
        using False Cons by (auto simp: contains_iff has_prefix_iff Cons_eq_append_conv)
      moreover have "\<forall>new. length (replace_all new old s) = Suc c + k * length new"
        using ck(2) False Cons replace_all_miss by simp
      ultimately show ?thesis using ck(1) by blast
    qed
  qed
qed

lemma replace_all_inj_len:
  assumes "old \<noteq> []" and "length a = length b"
  shows "contains s old \<Longrightarrow> replace_all a old s = replace_all b old s \<Longrightarrow> a = b"
proof (induction s)
  case Nil
  then show ?case using assms(1) by (auto simp: contains_iff)
next
  case (Cons x t)
  show ?case
  proof (cases "has_prefix (x # t) old")
    case True
    then show ?thesis using Cons.prems(2) assms by (simp add: replace_all_hit)
  next
    case False
    then have "contains t old"
      using Cons.prems(1) by (auto simp: contains_iff has_prefix_iff Cons_eq_append_conv)
    then show ?thesis using Cons False by (simp add: replace_all_miss)
  qed
qed

lemma replace_all_inj:
  assumes "old \<noteq> []" and "contains s old" and "replace_all a old s = replace_all b old s"
  shows "a = b"
proof -
  obtain c k where "1 \<le> k" "\<forall>new. length (replace_all new old s) = c + k * length new"
    using replace_all_length[OF assms(1), of s] assms(2) by blast
  then have "length a = length b" using assms(3) by (metis add_left_cancel mult_cancel1 not_one_le_zero)
  then show ?thesis using replace_all_inj_len assms by blast
qed

lemma validate_routes_None:
  "validate_routes_loop seen rs = None \<Longrightarrow> r \<in> set rs \<Longrightarrow>
     sr_addr r \<noteq> [] \<and> (0 < sr_ordinals r \<longrightarrow> contains (sr_addr r) ordinal_mark)"
  by (induction seen rs rule: validate_routes_loop.induct) (auto split: if_splits)

lemma route_resolve_Inr:
  "resolve r o' = Inr a \<longleftrightarrow>
     (if sr_ordinals r \<le> 0 then o' = [] \<and> a = sr_addr r
      else \<exists>i. 0 \<le> i \<and> i < sr_ordinals r \<and> o' = format_int i \<and> parse_int64 (format_int i) = Some i
             \<and> a = replace_all (format_int i) ordinal_mark (sr_addr r))"
proof (cases "o' = []")
  case True
  have "format_int i \<noteq> []" "[] \<noteq> format_int i" for i
    using decimal_nonempty[of "nat i"] by (auto simp: format_int_def)
  then show ?thesis using True by (auto simp: resolve_def)
next
  case False
  show ?thesis
  proof (cases "parse_int64 o'")
    case None
    then show ?thesis using False by (auto simp: resolve_def)
  next
    case (Some i)
    have "o' = format_int j \<and> parse_int64 (format_int j) = Some j \<Longrightarrow> j = i" for j using Some by auto
    then show ?thesis using False Some
      by (simp add: resolve_def not_less not_le) (metis not_less)
  qed
qed

lemma RelayDial_resolved:
  "RelayDial addr \<in> set (streamHandler routes major fl name ordinal ok bytes) \<Longrightarrow>
     \<exists>r. find_route routes name = Some r \<and> resolve r ordinal = Inr addr"
  by (cases "find_route routes name"; cases "resolve (the (find_route routes name)) ordinal")
    (auto simp: streamHandler_def split: if_splits)

text \<open>
  The relay reaches the configured services and nothing else. With a route table
  that construction accepted, an address is dialled only for a route of the table
  the caller named, either that route's fixed address or its pattern with an ordinal
  in range; and one spelling reaches each replica: two requests for a route that
  dial the same address carried the same ordinal, byte for byte.
\<close>

theorem relay_reaches_configured:
  assumes "server_New ulower cfg = Inr srv" and "routes = cf_routes cfg"
    and "RelayDial addr \<in> set (streamHandler routes major fl name ordinal ok bytes)"
  shows "\<exists>r\<in>set routes. sr_name r = name
    \<and> (if sr_ordinals r \<le> 0 then addr = sr_addr r
       else \<exists>i. 0 \<le> i \<and> i < sr_ordinals r \<and> addr = replace_all (format_int i) ordinal_mark (sr_addr r))
    \<and> (RelayDial addr \<in> set (streamHandler routes major' fl' name ordinal' ok' bytes') \<longrightarrow> ordinal' = ordinal)"
proof -
  have valid: "validateStreamRoutes routes = None"
    using assms(1,2) by (simp add: server_New_def split: if_splits option.splits)
  obtain r where r: "find_route routes name = Some r" "resolve r ordinal = Inr addr"
    using assms(3) RelayDial_resolved by blast
  have mem: "r \<in> set routes" "sr_name r = name" using r(1) by (auto simp: find_route_def dest: find_in_set)
  have "ordinal' = ordinal"
    if "RelayDial addr \<in> set (streamHandler routes major' fl' name ordinal' ok' bytes')"
  proof -
    have r': "resolve r ordinal' = Inr addr"
      using RelayDial_resolved[OF that] r(1) by simp
    show ?thesis
    proof (cases "sr_ordinals r \<le> 0")
      case True
      then show ?thesis using r(2) r' by (simp add: route_resolve_Inr)
    next
      case False
      then have "contains (sr_addr r) ordinal_mark"
        using validate_routes_None mem(1) valid by (simp add: validateStreamRoutes_def)
      moreover obtain i j where "ordinal = format_int i" "ordinal' = format_int j"
          "replace_all (format_int i) ordinal_mark (sr_addr r) = replace_all (format_int j) ordinal_mark (sr_addr r)"
        using r(2) r' False unfolding route_resolve_Inr by auto
      moreover have "ordinal_mark \<noteq> []" by (simp add: ordinal_mark_def)
      ultimately show ?thesis using replace_all_inj by metis
    qed
  qed
  moreover have "if sr_ordinals r \<le> 0 then addr = sr_addr r
      else \<exists>i. 0 \<le> i \<and> i < sr_ordinals r \<and> addr = replace_all (format_int i) ordinal_mark (sr_addr r)"
    using r(2) unfolding route_resolve_Inr by (cases "sr_ordinals r \<le> 0") auto
  ultimately show ?thesis using mem by blast
qed

definition demo_routes :: "stream_route list" where
  "demo_routes = [\<lparr>sr_name = ''keyholder'', sr_addr = ''kh-{ordinal}:1'', sr_ordinals = 2\<rparr>]"

theorem relay_reaches_configured_witness:
  "RelayDial ''kh-1:1'' \<notin> set (streamHandler demo_routes 2 True ''keyholder'' ''+1'' True (0, 0))"
proof -
  define cfg where "cfg = \<lparr>cf_tunnel_listen = '':1'', cf_egress_listen = [], cf_routes = demo_routes,
    cf_allowlist = [], cf_policy = None\<rparr>"
  have "validateStreamRoutes demo_routes = None" by code_simp
  then have "server_New id cfg = Inr (new_server id [] None)" by (simp add: server_New_def cfg_def)
  moreover have "demo_routes = cf_routes cfg" by (simp add: cfg_def)
  moreover have "streamHandler demo_routes 2 True ''keyholder'' ''1'' True (0, 0)
      = [RelayDial ''kh-1:1'', RelayStatus 200, RelayCopy, RelayEvent (emitStream ''keyholder'' ''relayed'' 0 0)]"
    by code_simp
  ultimately show ?thesis
    using relay_reaches_configured[of id cfg _ demo_routes "''kh-1:1''" 2 True "''keyholder''" "''1''" True "(0, 0)"
        2 True "''+1''" True "(0, 0)"] by auto
qed

text \<open>
  An upstream that does not answer is an event of kind \<open>deny\<close> here, with the reason the
  event package reserves for \<open>fail\<close>; the proxy reports the same outage as a failure.
\<close>

lemma relay_outage_is_denial:
  assumes "find_route routes name = Some r" and "resolve r ordinal = Inr addr"
  shows "\<exists>e. RelayEvent e \<in> set (streamHandler routes 2 True name ordinal False bytes)
    \<and> ev_reason e = ReasonDialFailed \<and> ev_kind e = EvDeny"
  using assms by (simp add: streamHandler_def emitStream_def ReasonDialFailed_def)

end
