(* ===== verification/Inspector.thy ===== *)
theory Inspector
  imports Egress_Proxy
begin

text \<open>
  Shrike's correlation engine (\<open>shrike/internal/inspector/inspector.go\<close>) and the
  Monitor around it (\<open>shrike/shrike.go\<close>): severities, latency bands, the tables of
  traffic and violations, alerts and their rate limit, the per-application roll-up.
  The clock of \<open>Record\<close> is an argument; counters are unbounded. \<open>quote\<close> is the \<open>%q\<close>
  verb of the message formatter.
\<close>

section \<open>Severities\<close>

text \<open>\<open>Unset\<close> is the zero value of the Go string type.\<close>

datatype severity = Unset | Info | Warning | Critical

fun rank :: "severity \<Rightarrow> nat" where
  "rank Critical = 3"
| "rank Warning = 2"
| "rank Info = 1"
| "rank Unset = 0"

instantiation severity :: linorder
begin

definition less_eq_severity :: "severity \<Rightarrow> severity \<Rightarrow> bool" where
  "less_eq_severity a b \<longleftrightarrow> rank a \<le> rank b"

definition less_severity :: "severity \<Rightarrow> severity \<Rightarrow> bool" where
  "less_severity a b \<longleftrightarrow> rank a < rank b"

instance
proof
  have inj: "rank a = rank b \<Longrightarrow> a = b" for a b by (cases a; cases b) auto
  fix x y z :: severity
  show "x < y \<longleftrightarrow> x \<le> y \<and> \<not> y \<le> x" by (auto simp: less_eq_severity_def less_severity_def)
  show "x \<le> x" by (simp add: less_eq_severity_def)
  show "x \<le> y \<Longrightarrow> y \<le> z \<Longrightarrow> x \<le> z" by (simp add: less_eq_severity_def)
  show "x \<le> y \<Longrightarrow> y \<le> x \<Longrightarrow> x = y" using inj by (simp add: less_eq_severity_def)
  show "x \<le> y \<or> y \<le> x" by (auto simp: less_eq_severity_def)
qed

end

fun escalate :: "severity \<Rightarrow> severity" where
  "escalate Info = Warning"
| "escalate _ = Critical"

definition severityForReason :: "string \<Rightarrow> severity" where
  "severityForReason reason =
     (if reason = ReasonSNIMismatch then Critical
      else if reason = ReasonCleartext then Info
      else Warning)"

definition burstThreshold :: int where
  "burstThreshold = 20"

section \<open>Latency bands\<close>

definition LatencyBounds :: "int list" where
  "LatencyBounds = [5, 25, 100, 500, 2000]"

definition at_most :: string where
  "at_most = [byte 226, byte 137, byte 164]"

definition LatencyBands :: "string list" where
  "LatencyBands = [at_most @ ''5ms'', at_most @ ''25ms'', at_most @ ''100ms'', at_most @ ''500ms'', at_most @ ''2s'', ''>2s'']"

definition no_band :: string where
  "no_band = [byte 226, byte 128, byte 148]"

record latency =
  lat_count :: int
  lat_total :: int
  lat_max :: int
  lat_buckets :: "int list"  \<comment> \<open>empty is Go's nil slice\<close>

definition zero_latency :: latency where
  "zero_latency = \<lparr>lat_count = 0, lat_total = 0, lat_max = 0, lat_buckets = []\<rparr>"

text \<open>The index of the band a time falls in: the first bound it does not exceed.\<close>

fun band_index :: "int \<Rightarrow> int list \<Rightarrow> nat" where
  "band_index ms [] = 0"
| "band_index ms (b # bs) = (if ms \<le> b then 0 else Suc (band_index ms bs))"

definition allocated :: "int list \<Rightarrow> int list" where
  "allocated bs = (if bs = [] then replicate (length LatencyBounds + 1) 0 else bs)"

definition Observe :: "int \<Rightarrow> latency \<Rightarrow> latency" where
  "Observe ms l =
     (let ms = (if ms < 0 then 0 else ms);
          bs = allocated (lat_buckets l);
          i = band_index ms LatencyBounds
      in \<lparr>lat_count = lat_count l + 1, lat_total = lat_total l + ms,
          lat_max = (if ms > lat_max l then ms else lat_max l),
          lat_buckets = bs[i := bs ! i + 1]\<rparr>)"

definition latency_Add :: "latency \<Rightarrow> latency \<Rightarrow> latency" where
  "latency_Add l p =
     (if lat_count p = 0 then l
      else let bs = allocated (lat_buckets l)
        in \<lparr>lat_count = lat_count l + lat_count p, lat_total = lat_total l + lat_total p,
            lat_max = (if lat_max p > lat_max l then lat_max p else lat_max l),
            lat_buckets = map (\<lambda>i. if i < length (lat_buckets p) then bs ! i + lat_buckets p ! i else bs ! i)
              [0 ..< length bs]\<rparr>)"

definition MeanMillis :: "latency \<Rightarrow> real" where
  "MeanMillis l = (if lat_count l = 0 then 0 else of_int (lat_total l) / of_int (lat_count l))"

fun band_loop :: "int \<Rightarrow> int \<Rightarrow> nat \<Rightarrow> int list \<Rightarrow> nat" where
  "band_loop rk seen i [] = length LatencyBands - 1"
| "band_loop rk seen i (n # ns) = (if seen + n \<ge> rk then i else band_loop rk (seen + n) (Suc i) ns)"

definition band_rank :: "latency \<Rightarrow> real \<Rightarrow> int" where
  "band_rank l q = (let r = \<lfloor>of_int (lat_count l) * q + 1 / 2\<rfloor> in if r < 1 then 1 else r)"

text \<open>\<open>int64\<close> of a float truncates; below one the rank is one either way.\<close>

definition Band :: "latency \<Rightarrow> real \<Rightarrow> string" where
  "Band l q = (if lat_count l = 0 then no_band
     else LatencyBands ! band_loop (band_rank l q) 0 0 (lat_buckets l))"

section \<open>The tables\<close>

record host_stat =
  hs_app :: string
  hs_namespace :: string
  hs_host :: string
  hs_port :: string
  hs_declared :: bool
  hs_allows :: int
  hs_fails :: int
  hs_up :: int
  hs_down :: int
  hs_latency :: latency
  hs_last_seen :: gotime

record app_stat =
  as_app :: string
  as_namespace :: string
  as_hosts :: int
  as_allows :: int
  as_denies :: int
  as_fails :: int
  as_up :: int
  as_down :: int
  as_latency :: latency
  as_last_seen :: gotime

record violation =
  vi_severity :: severity
  vi_app :: string
  vi_namespace :: string
  vi_host :: string
  vi_port :: string
  vi_proto :: string
  vi_sni :: string
  vi_reason :: string
  vi_count :: int
  vi_first_seen :: gotime
  vi_last_seen :: gotime

record vrec = violation +
  vr_last_alert :: gotime

record alert =
  al_violation :: violation
  al_message :: string

record inspector =
  in_window :: duration
  in_events :: int
  in_allowed :: "(string \<times> host_stat) list"
  in_violations :: "(string \<times> vrec) list"

definition inspector_New :: "duration \<Rightarrow> inspector" where
  "inspector_New window = \<lparr>in_window = (if window \<le> 0 then 60 * 10 ^ 9 else window), in_events = 0,
     in_allowed = [], in_violations = []\<rparr>"

definition nul :: char where
  "nul = byte 0"

definition stat_key :: "event \<Rightarrow> string" where
  "stat_key e = ev_tenant e @ nul # ev_app e @ nul # ev_host e @ nul # ev_port e"

definition class_key :: "event \<Rightarrow> string" where
  "class_key e = ev_tenant e @ nul # ev_app e @ nul # ev_reason e @ nul # ev_host e"

definition new_stat :: "event \<Rightarrow> host_stat" where
  "new_stat e = \<lparr>hs_app = ev_app e, hs_namespace = ev_tenant e, hs_host = ev_host e, hs_port = [],
     hs_declared = False, hs_allows = 0, hs_fails = 0, hs_up = 0, hs_down = 0, hs_latency = zero_latency,
     hs_last_seen = zero_time\<rparr>"

text \<open>\<open>statFor\<close> returns a pointer into the table: here, a write of the changed record.\<close>

definition statFor :: "event \<Rightarrow> gotime \<Rightarrow> (host_stat \<Rightarrow> host_stat) \<Rightarrow> inspector \<Rightarrow> inspector" where
  "statFor e now change i =
     (let s = get_or (new_stat e) (in_allowed i) (stat_key e);
          s1 = (if ev_port e \<noteq> [] then s\<lparr>hs_port := ev_port e\<rparr> else s)\<lparr>hs_last_seen := now\<rparr>
      in i\<lparr>in_allowed := AList.update (stat_key e) (change s1) (in_allowed i)\<rparr>)"

definition observed :: "int \<Rightarrow> host_stat \<Rightarrow> host_stat" where
  "observed ms s = (if ms > 0 then s\<lparr>hs_latency := Observe ms (hs_latency s)\<rparr> else s)"

definition recordAllow :: "event \<Rightarrow> gotime \<Rightarrow> inspector \<Rightarrow> inspector" where
  "recordAllow e now = statFor e now (\<lambda>s. s\<lparr>hs_allows := hs_allows s + 1\<rparr>)"

definition recordClose :: "event \<Rightarrow> gotime \<Rightarrow> inspector \<Rightarrow> inspector" where
  "recordClose e now = statFor e now (\<lambda>s. observed (ev_dial_ms e)
     (s\<lparr>hs_up := hs_up s + ev_up e, hs_down := hs_down s + ev_down e\<rparr>))"

definition recordFail :: "event \<Rightarrow> gotime \<Rightarrow> inspector \<Rightarrow> inspector" where
  "recordFail e now = statFor e now (\<lambda>s. observed (ev_dial_ms e) (s\<lparr>hs_fails := hs_fails s + 1\<rparr>))"

definition message :: "(string \<Rightarrow> string) \<Rightarrow> string \<Rightarrow> string \<Rightarrow> string \<Rightarrow> int \<Rightarrow> string" where
  "message quote reason host app cnt =
     (let who = (if app \<noteq> [] then ''application '' @ quote app else ''application'') in
      if reason = ReasonSNIMismatch then
        who @ '': TLS server_name did not match the allowed CONNECT authority '' @ quote host
          @ '' (possible domain-fronting or MITM); '' @ format_int cnt @ '' attempt(s)''
      else if reason = ReasonCleartext then
        who @ '' attempted cleartext http:// to '' @ quote host @ '', denied by default; ''
          @ format_int cnt @ '' attempt(s)''
      else if reason = ReasonUnknownApp then
        ''an unidentified caller attempted '' @ quote host
          @ ''; it presented no credential FatLine recognises, so no declarations could be enforced for it; ''
          @ format_int cnt @ '' attempt(s)''
      else who @ '' reached undeclared host '' @ quote host @ '', denied by default; ''
          @ format_int cnt @ '' attempt(s)'')"

definition new_vrec :: "event \<Rightarrow> gotime \<Rightarrow> vrec" where
  "new_vrec e now = \<lparr>vi_severity = Unset, vi_app = ev_app e, vi_namespace = ev_tenant e, vi_host = ev_host e,
     vi_port = ev_port e, vi_proto = ev_proto e, vi_sni = ev_sni e, vi_reason = ev_reason e, vi_count = 0,
     vi_first_seen = now, vi_last_seen = zero_time, vr_last_alert = zero_time\<rparr>"

definition bumped :: "event \<Rightarrow> gotime \<Rightarrow> vrec \<Rightarrow> vrec" where
  "bumped e now v =
     (let v1 = v\<lparr>vi_count := vi_count v + 1, vi_last_seen := now\<rparr>;
          v2 = (if ev_sni e \<noteq> [] then v1\<lparr>vi_sni := ev_sni e\<rparr> else v1);
          v3 = (if ev_port e \<noteq> [] then v2\<lparr>vi_port := ev_port e\<rparr> else v2);
          base = severityForReason (ev_reason e)
      in v3\<lparr>vi_severity := (if vi_count v3 \<ge> burstThreshold then escalate base else base)\<rparr>)"

definition recordDeny ::
  "(string \<Rightarrow> string) \<Rightarrow> event \<Rightarrow> gotime \<Rightarrow> inspector \<Rightarrow> inspector \<times> alert option"
where
  "recordDeny quote e now i =
     (let v0 = get_or (new_vrec e now) (in_violations i) (class_key e);
          v = bumped e now v0
      in if vi_count v \<noteq> 1 \<and> rank (vi_severity v) \<le> rank (vi_severity v0)
            \<and> time_sub now (vr_last_alert v0) < in_window i
         then (i\<lparr>in_violations := AList.update (class_key e) v (in_violations i)\<rparr>, None)
         else (i\<lparr>in_violations := AList.update (class_key e) (v\<lparr>vr_last_alert := now\<rparr>) (in_violations i)\<rparr>,
               Some \<lparr>al_violation = violation.truncate v,
                     al_message = message quote (vi_reason v) (vi_host v) (vi_app v) (vi_count v)\<rparr>))"

definition Record :: "(string \<Rightarrow> string) \<Rightarrow> gotime \<Rightarrow> event \<Rightarrow> inspector \<Rightarrow> inspector \<times> alert option" where
  "Record quote now e i0 =
     (let i = i0\<lparr>in_events := in_events i0 + 1\<rparr> in
      case ev_kind e of
        EvAllow \<Rightarrow> (recordAllow e now i, None)
      | EvClose \<Rightarrow> (recordClose e now i, None)
      | EvFail \<Rightarrow> (recordFail e now i, None)
      | EvDeny \<Rightarrow> recordDeny quote e now i)"

section \<open>What the engine reports\<close>

definition chain_less :: "('a \<Rightarrow> 'k::linorder) \<Rightarrow> ('a \<Rightarrow> 'a \<Rightarrow> bool) \<Rightarrow> 'a \<Rightarrow> 'a \<Rightarrow> bool" where
  "chain_less f lt x y \<longleftrightarrow> f x < f y \<or> f x = f y \<and> lt x y"

definition Allowed_rows :: "inspector \<Rightarrow> host_stat list" where
  "Allowed_rows i = sort_by (chain_less hs_app (chain_less hs_host (key_less hs_port))) (map snd (in_allowed i))"

definition app_key :: "string \<Rightarrow> string \<Rightarrow> string" where
  "app_key namespace app = namespace @ nul # app"

definition app_row :: "(string \<times> app_stat) list \<Rightarrow> string \<Rightarrow> string \<Rightarrow> gotime \<Rightarrow> app_stat" where
  "app_row byApp namespace app now =
     (let a = get_or \<lparr>as_app = app, as_namespace = namespace, as_hosts = 0, as_allows = 0, as_denies = 0,
                as_fails = 0, as_up = 0, as_down = 0, as_latency = zero_latency, as_last_seen = zero_time\<rparr>
              byApp (app_key namespace app)
      in if now > as_last_seen a then a\<lparr>as_last_seen := now\<rparr> else a)"

definition fold_stat :: "host_stat \<Rightarrow> (string \<times> app_stat) list \<Rightarrow> (string \<times> app_stat) list" where
  "fold_stat s byApp =
     (let a = app_row byApp (hs_namespace s) (hs_app s) (hs_last_seen s)
      in AList.update (app_key (hs_namespace s) (hs_app s))
           (a\<lparr>as_hosts := as_hosts a + 1, as_allows := as_allows a + hs_allows s, as_fails := as_fails a + hs_fails s,
              as_up := as_up a + hs_up s, as_down := as_down a + hs_down s,
              as_latency := latency_Add (as_latency a) (hs_latency s)\<rparr>) byApp)"

definition fold_violation :: "vrec \<Rightarrow> (string \<times> app_stat) list \<Rightarrow> (string \<times> app_stat) list" where
  "fold_violation v byApp =
     (let a = app_row byApp (vi_namespace v) (vi_app v) (vi_last_seen v)
      in AList.update (app_key (vi_namespace v) (vi_app v)) (a\<lparr>as_denies := as_denies a + vi_count v\<rparr>) byApp)"

definition apps_table :: "inspector \<Rightarrow> (string \<times> app_stat) list" where
  "apps_table i = fold (fold_violation \<circ> snd) (in_violations i) (fold (fold_stat \<circ> snd) (in_allowed i) [])"

definition Apps :: "inspector \<Rightarrow> app_stat list" where
  "Apps i = sort_by (chain_less as_app (key_less as_namespace)) (map snd (apps_table i))"

text \<open>Most severe first: the comparison subtracts the ranks the other way round.\<close>

definition Violations :: "inspector \<Rightarrow> violation list" where
  "Violations i = sort_by (chain_less (\<lambda>v. - int (rank (vi_severity v))) (chain_less vi_host (key_less vi_reason)))
     (map (\<lambda>kv. violation.truncate (snd kv)) (in_violations i))"

section \<open>The Monitor\<close>

record monitor =
  mo_policy :: shrike_policy
  mo_inspector :: inspector
  mo_since :: gotime
  mo_replica :: string

record shrike_snapshot =
  sn_replica :: string
  sn_since :: gotime
  sn_events :: int
  sn_declared :: "string list"
  sn_allowed :: "host_stat list"
  sn_violations :: "violation list"
  sn_apps :: "app_stat list"

definition monitor_New :: "(string \<Rightarrow> string) \<Rightarrow> external list \<Rightarrow> duration \<Rightarrow> gotime \<Rightarrow> string \<Rightarrow> monitor" where
  "monitor_New ulower decls window now host = \<lparr>mo_policy = shrike_New ulower decls,
     mo_inspector = inspector_New window, mo_since = now, mo_replica = host\<rparr>"

definition monitor_Emit :: "(string \<Rightarrow> string) \<Rightarrow> gotime \<Rightarrow> event \<Rightarrow> monitor \<Rightarrow> monitor \<times> alert option" where
  "monitor_Emit quote now e m =
     (case Record quote now e (mo_inspector m) of (i, a) \<Rightarrow> (m\<lparr>mo_inspector := i\<rparr>, a))"

definition ReloadDeclared :: "(string \<Rightarrow> string) \<Rightarrow> external list \<Rightarrow> monitor \<Rightarrow> monitor" where
  "ReloadDeclared ulower decls m = m\<lparr>mo_policy := shrike_New ulower decls\<rparr>"

definition monitor_Snapshot :: "(string \<Rightarrow> string) \<Rightarrow> monitor \<Rightarrow> shrike_snapshot" where
  "monitor_Snapshot ulower m =
     \<lparr>sn_replica = mo_replica m, sn_since = mo_since m, sn_events = in_events (mo_inspector m),
      sn_declared = sp_order (mo_policy m),
      sn_allowed = map (\<lambda>s. s\<lparr>hs_declared := (Declared ulower (mo_policy m) (hs_host s) \<noteq> None)\<rparr>)
        (Allowed_rows (mo_inspector m)),
      sn_violations = Violations (mo_inspector m), sn_apps = Apps (mo_inspector m)\<rparr>"

section \<open>Processing a stream of events\<close>

fun process :: "(string \<Rightarrow> string) \<Rightarrow> (gotime \<times> event) list \<Rightarrow> inspector \<Rightarrow> inspector \<times> (gotime \<times> alert) list" where
  "process quote [] i = (i, [])"
| "process quote ((now, e) # es) i =
     (case Record quote now e i of (i1, a) \<Rightarrow>
        case process quote es i1 of (i2, as) \<Rightarrow>
          (i2, (case a of None \<Rightarrow> as | Some x \<Rightarrow> (now, x) # as)))"

lemma process_append:
  "process quote (es @ fs) i =
     (let r = process quote es i; r' = process quote fs (fst r) in (fst r', snd r @ snd r'))"
proof (induction es arbitrary: i)
  case Nil
  then show ?case by simp
next
  case (Cons te es)
  obtain t e where "te = (t, e)" by (cases te)
  then show ?case using Cons by (simp add: Let_def case_prod_beta split: option.splits)
qed

text \<open>Names free of the key separator, as Kubernetes names, host names and the reasons are.\<close>

definition clean :: "event \<Rightarrow> bool" where
  "clean e \<longleftrightarrow> nul \<notin> set (ev_tenant e) \<and> nul \<notin> set (ev_app e) \<and> nul \<notin> set (ev_reason e) \<and> nul \<notin> set (ev_host e)"

lemma nul_split: "nul \<notin> set a \<Longrightarrow> nul \<notin> set c \<Longrightarrow> a @ nul # b = c @ nul # d \<longleftrightarrow> a = c \<and> b = d"
  by (metis cut_append option.inject prod.inject)

text \<open>Every row of a table stands under the key its own fields spell.\<close>

definition stat_ok :: "string \<times> host_stat \<Rightarrow> bool" where
  "stat_ok ks \<longleftrightarrow> nul \<notin> set (hs_namespace (snd ks)) \<and> nul \<notin> set (hs_app (snd ks))
     \<and> (\<exists>r. fst ks = hs_namespace (snd ks) @ nul # hs_app (snd ks) @ nul # r)"

definition vrec_ok :: "string \<times> vrec \<Rightarrow> bool" where
  "vrec_ok kv \<longleftrightarrow> (let v = snd kv in nul \<notin> set (vi_namespace v) \<and> nul \<notin> set (vi_app v) \<and> nul \<notin> set (vi_reason v)
     \<and> fst kv = vi_namespace v @ nul # vi_app v @ nul # vi_reason v @ nul # vi_host v)"

definition tables_ok :: "inspector \<Rightarrow> bool" where
  "tables_ok i \<longleftrightarrow> list_all stat_ok (in_allowed i) \<and> list_all vrec_ok (in_violations i)"

lemma stat_row:
  assumes "tables_ok i" and "clean e"
  shows "hs_namespace (get_or (new_stat e) (in_allowed i) (stat_key e)) = ev_tenant e
    \<and> hs_app (get_or (new_stat e) (in_allowed i) (stat_key e)) = ev_app e"
proof (cases "map_of (in_allowed i) (stat_key e)")
  case None
  then show ?thesis by (simp add: get_or_def new_stat_def)
next
  case (Some s)
  then have "stat_ok (stat_key e, s)" using assms(1) by (auto simp: tables_ok_def list_all_iff dest!: map_of_SomeD)
  then show ?thesis using Some assms(2) by (auto simp: stat_ok_def get_or_def stat_key_def clean_def nul_split)
qed

lemma vrec_row:
  assumes "tables_ok i" and "clean e"
  shows "vi_namespace (get_or (new_vrec e t) (in_violations i) (class_key e)) = ev_tenant e
    \<and> vi_app (get_or (new_vrec e t) (in_violations i) (class_key e)) = ev_app e
    \<and> vi_reason (get_or (new_vrec e t) (in_violations i) (class_key e)) = ev_reason e
    \<and> vi_host (get_or (new_vrec e t) (in_violations i) (class_key e)) = ev_host e"
proof (cases "map_of (in_violations i) (class_key e)")
  case None
  then show ?thesis by (simp add: get_or_def new_vrec_def)
next
  case (Some v)
  then have "vrec_ok (class_key e, v)" using assms(1) by (auto simp: tables_ok_def list_all_iff dest!: map_of_SomeD)
  then show ?thesis using Some assms(2) by (auto simp: vrec_ok_def Let_def get_or_def class_key_def clean_def nul_split)
qed

lemma bumped_simps [simp]:
  "vi_namespace (bumped e t v) = vi_namespace v" "vi_app (bumped e t v) = vi_app v"
  "vi_reason (bumped e t v) = vi_reason v" "vi_host (bumped e t v) = vi_host v"
  "vi_count (bumped e t v) = vi_count v + 1" "vr_last_alert (bumped e t v) = vr_last_alert v"
  "vi_last_seen (bumped e t v) = t"
  by (simp_all add: bumped_def Let_def)

lemma observed_simps [simp]:
  "hs_namespace (observed ms s) = hs_namespace s" "hs_app (observed ms s) = hs_app s"
  "hs_allows (observed ms s) = hs_allows s" "hs_fails (observed ms s) = hs_fails s"
  "hs_up (observed ms s) = hs_up s" "hs_down (observed ms s) = hs_down s" "hs_host (observed ms s) = hs_host s"
  by (simp_all add: observed_def)

text \<open>A record writes one row: which, and with which fields.\<close>

lemma list_all_update: "list_all P m \<Longrightarrow> P (k, v) \<Longrightarrow> list_all P (AList.update k v m)"
  by (induction m) auto

lemma statFor_tables_ok:
  assumes "tables_ok i" and "clean e" and "\<And>s. hs_namespace (change s) = hs_namespace s \<and> hs_app (change s) = hs_app s"
  shows "tables_ok (statFor e now change i)"
proof -
  have "stat_ok (stat_key e, change s)" if "hs_namespace s = ev_tenant e" "hs_app s = ev_app e" for s
    using that assms(2,3) by (auto simp: stat_ok_def stat_key_def clean_def)
  then show ?thesis using assms(1) stat_row[OF assms(1,2)]
    by (simp add: tables_ok_def statFor_def Let_def list_all_update)
qed

lemma Record_tables_ok:
  assumes "tables_ok i" and "clean e"
  shows "tables_ok (fst (Record quote now e i))"
proof -
  define j where "j = i\<lparr>in_events := in_events i + 1\<rparr>"
  have j: "tables_ok j" using assms(1) by (simp add: j_def tables_ok_def)
  have "vrec_ok (class_key e, v)"
    if "vi_namespace v = ev_tenant e" "vi_app v = ev_app e" "vi_reason v = ev_reason e" "vi_host v = ev_host e" for v
    using that assms(2) by (simp add: vrec_ok_def class_key_def clean_def)
  then have "tables_ok (fst (recordDeny quote e now j))"
    using j vrec_row[OF j assms(2), of now]
    by (simp add: tables_ok_def recordDeny_def Let_def list_all_update)
  moreover have "tables_ok (recordAllow e now j)" "tables_ok (recordClose e now j)" "tables_ok (recordFail e now j)"
    using j assms(2) by (auto simp: recordAllow_def recordClose_def recordFail_def intro!: statFor_tables_ok)
  ultimately show ?thesis by (simp add: Record_def j_def[symmetric] split: event_kind.splits)
qed

section \<open>What one application did\<close>

definition event_app :: "event \<Rightarrow> string" where
  "event_app e = app_key (ev_tenant e) (ev_app e)"

definition stat_of :: "string \<Rightarrow> (host_stat \<Rightarrow> int) \<Rightarrow> host_stat \<Rightarrow> int" where
  "stat_of K g s = (if app_key (hs_namespace s) (hs_app s) = K then g s else 0)"

definition denials_of :: "string \<Rightarrow> vrec \<Rightarrow> int" where
  "denials_of K v = (if app_key (vi_namespace v) (vi_app v) = K then vi_count v else 0)"

text \<open>The share of one event in each counter.\<close>

definition amount :: "event_kind \<Rightarrow> (event \<Rightarrow> int) \<Rightarrow> event \<Rightarrow> int" where
  "amount k f e = (if ev_kind e = k then f e else 0)"

definition total :: "string \<Rightarrow> event_kind \<Rightarrow> (event \<Rightarrow> int) \<Rightarrow> (gotime \<times> event) list \<Rightarrow> int" where
  "total K k f es = sum_list (map (\<lambda>te. if event_app (snd te) = K then amount k f (snd te) else 0) es)"

text \<open>A counter of a row: untouched by the port and the time, zero in a new row.\<close>

definition row_counter :: "(host_stat \<Rightarrow> int) \<Rightarrow> bool" where
  "row_counter g \<longleftrightarrow> (\<forall>s p t. g (s\<lparr>hs_port := p\<rparr>) = g s \<and> g (s\<lparr>hs_last_seen := t\<rparr>) = g s) \<and> (\<forall>e. g (new_stat e) = 0)"

lemma row_counters: "row_counter hs_allows" "row_counter hs_fails" "row_counter hs_up" "row_counter hs_down"
  by (simp_all add: row_counter_def new_stat_def)

lemma statFor_sum:
  assumes "tables_ok i" and "clean e" and "row_counter g"
    and "\<And>s. hs_namespace (change s) = hs_namespace s \<and> hs_app (change s) = hs_app s \<and> g (change s) = g s + d"
  shows "sum_vals (stat_of K g) (in_allowed (statFor e now change i))
    = sum_vals (stat_of K g) (in_allowed i) + (if event_app e = K then d else 0)"
proof -
  let ?s = "get_or (new_stat e) (in_allowed i) (stat_key e)"
  have old: "(case map_of (in_allowed i) (stat_key e) of None \<Rightarrow> 0 | Some u \<Rightarrow> stat_of K g u) = stat_of K g ?s"
    using assms(3) by (auto simp: get_or_def stat_of_def row_counter_def split: option.splits)
  have g: "g (s\<lparr>hs_port := p, hs_last_seen := t\<rparr>) = g s" "g (s\<lparr>hs_last_seen := t\<rparr>) = g s" for s p t
    using assms(3) by (metis row_counter_def)+
  show ?thesis
    using stat_row[OF assms(1,2)] assms(4) old g
    by (auto simp: statFor_def Let_def gomap_simps stat_of_def event_app_def)
qed

lemma recordDeny_sum:
  assumes "tables_ok i" and "clean e"
  shows "sum_vals (denials_of K) (in_violations (fst (recordDeny quote e now i)))
    = sum_vals (denials_of K) (in_violations i) + (if event_app e = K then 1 else 0)"
proof -
  let ?v = "get_or (new_vrec e now) (in_violations i) (class_key e)"
  have old: "(case map_of (in_violations i) (class_key e) of None \<Rightarrow> 0 | Some u \<Rightarrow> denials_of K u) = denials_of K ?v"
    by (auto simp: get_or_def denials_of_def new_vrec_def split: option.splits)
  show ?thesis
    using vrec_row[OF assms, of now] old
    by (auto simp: recordDeny_def Let_def gomap_simps denials_of_def event_app_def)
qed

lemma statFor_simps [simp]:
  "in_violations (statFor e now c i) = in_violations i" "in_events (statFor e now c i) = in_events i"
  "in_window (statFor e now c i) = in_window i"
  by (simp_all add: statFor_def Let_def)

lemma recordDeny_simps [simp]:
  "in_allowed (fst (recordDeny quote e now i)) = in_allowed i" "in_events (fst (recordDeny quote e now i)) = in_events i"
  "in_window (fst (recordDeny quote e now i)) = in_window i"
  by (simp_all add: recordDeny_def Let_def)

lemmas record_defs = recordAllow_def recordClose_def recordFail_def

lemma Record_denials:
  assumes "tables_ok i" and "clean e"
  shows "sum_vals (denials_of K) (in_violations (fst (Record quote now e i)))
    = sum_vals (denials_of K) (in_violations i) + (if event_app e = K then amount EvDeny (\<lambda>_. 1) e else 0)"
proof -
  define j where "j = i\<lparr>in_events := in_events i + 1\<rparr>"
  have j: "tables_ok j" "in_violations j = in_violations i" using assms(1) by (simp_all add: j_def tables_ok_def)
  show ?thesis using recordDeny_sum[OF j(1) assms(2), of K quote now] j(2)
    by (simp add: Record_def j_def[symmetric] record_defs amount_def split: event_kind.splits)
qed

lemma Record_stat:
  assumes "tables_ok i" and "clean e"
    and "(g, k, f) \<in> {(hs_allows, EvAllow, \<lambda>_. 1), (hs_fails, EvFail, \<lambda>_. 1), (hs_up, EvClose, ev_up), (hs_down, EvClose, ev_down)}"
  shows "sum_vals (stat_of K g) (in_allowed (fst (Record quote now e i)))
    = sum_vals (stat_of K g) (in_allowed i) + (if event_app e = K then amount k f e else 0)"
proof -
  define j where "j = i\<lparr>in_events := in_events i + 1\<rparr>"
  have j: "tables_ok j" "in_allowed j = in_allowed i" using assms(1) by (simp_all add: j_def tables_ok_def)
  have g: "row_counter g" using assms(3) row_counters by auto
  note st = statFor_sum[OF j(1) assms(2) g, of _ _ K now]
  have "sum_vals (stat_of K g) (in_allowed (recordAllow e now j)) = sum_vals (stat_of K g) (in_allowed i)
      + (if event_app e = K then (if k = EvAllow then f e else 0) else 0)"
    using assms(3) j(2) unfolding recordAllow_def by (subst st[where d = "if k = EvAllow then f e else 0"]) auto
  moreover have "sum_vals (stat_of K g) (in_allowed (recordClose e now j)) = sum_vals (stat_of K g) (in_allowed i)
      + (if event_app e = K then (if k = EvClose then f e else 0) else 0)"
    using assms(3) j(2) unfolding recordClose_def by (subst st[where d = "if k = EvClose then f e else 0"]) auto
  moreover have "sum_vals (stat_of K g) (in_allowed (recordFail e now j)) = sum_vals (stat_of K g) (in_allowed i)
      + (if event_app e = K then (if k = EvFail then f e else 0) else 0)"
    using assms(3) j(2) unfolding recordFail_def by (subst st[where d = "if k = EvFail then f e else 0"]) auto
  moreover have "k \<noteq> EvDeny" using assms(3) by auto
  ultimately show ?thesis using j(2)
    by (auto simp: Record_def j_def[symmetric] amount_def split: event_kind.splits)
qed

lemma Record_events: "in_events (fst (Record quote now e i)) = in_events i + 1"
  by (simp add: Record_def Let_def record_defs split: event_kind.splits)

lemma process_totals:
  assumes "tables_ok i" and "\<forall>te\<in>set es. clean (snd te)"
  shows "tables_ok (fst (process quote es i))
    \<and> in_events (fst (process quote es i)) = in_events i + int (length es)
    \<and> sum_vals (denials_of K) (in_violations (fst (process quote es i)))
        = sum_vals (denials_of K) (in_violations i) + total K EvDeny (\<lambda>_. 1) es
    \<and> (\<forall>(g, k, f) \<in> {(hs_allows, EvAllow, \<lambda>_. 1), (hs_fails, EvFail, \<lambda>_. 1), (hs_up, EvClose, ev_up), (hs_down, EvClose, ev_down)}.
         sum_vals (stat_of K g) (in_allowed (fst (process quote es i)))
           = sum_vals (stat_of K g) (in_allowed i) + total K k f es)"
  using assms
proof (induction es arbitrary: i)
  case Nil
  then show ?case by (simp add: total_def)
next
  case (Cons te es)
  obtain t e where te: "te = (t, e)" by (cases te)
  let ?i = "fst (Record quote t e i)"
  have c: "clean e" "\<forall>te\<in>set es. clean (snd te)" using Cons.prems te by auto
  have ok: "tables_ok ?i" using Record_tables_ok Cons.prems(1) c(1) by blast
  have p: "fst (process quote (te # es) i) = fst (process quote es ?i)"
    using te by (simp add: case_prod_beta)
  have tot: "total K k f (te # es) = (if event_app e = K then amount k f e else 0) + total K k f es" for k f
    using te by (simp add: total_def)
  show ?case unfolding p tot
    using Cons.IH[OF ok c(2)] Record_denials[OF Cons.prems(1) c(1), of K quote t]
      Record_stat[OF Cons.prems(1) c(1), of _ _ _ K quote t] Record_events[of quote t e i]
    by auto
qed

subsection \<open>The roll-up\<close>

definition as_key :: "app_stat \<Rightarrow> string" where
  "as_key a = app_key (as_namespace a) (as_app a)"

lemma app_row_simps [simp]:
  "as_allows (app_row T ns a t) = (case map_of T (app_key ns a) of None \<Rightarrow> 0 | Some r \<Rightarrow> as_allows r)"
  "as_fails (app_row T ns a t) = (case map_of T (app_key ns a) of None \<Rightarrow> 0 | Some r \<Rightarrow> as_fails r)"
  "as_up (app_row T ns a t) = (case map_of T (app_key ns a) of None \<Rightarrow> 0 | Some r \<Rightarrow> as_up r)"
  "as_down (app_row T ns a t) = (case map_of T (app_key ns a) of None \<Rightarrow> 0 | Some r \<Rightarrow> as_down r)"
  "as_denies (app_row T ns a t) = (case map_of T (app_key ns a) of None \<Rightarrow> 0 | Some r \<Rightarrow> as_denies r)"
  by (simp_all add: app_row_def Let_def get_or_def split: option.splits)

text \<open>The value of a counter of the row under a key, zero where there is none.\<close>

definition row_val :: "(string \<times> app_stat) list \<Rightarrow> string \<Rightarrow> (app_stat \<Rightarrow> int) \<Rightarrow> int" where
  "row_val T K g = (case map_of T K of None \<Rightarrow> 0 | Some r \<Rightarrow> g r)"

definition table_ok :: "(string \<times> app_stat) list \<Rightarrow> bool" where
  "table_ok T \<longleftrightarrow> distinct (map fst T) \<and> list_all (\<lambda>ka. fst ka = as_key (snd ka)) T"

lemma app_row_key: "table_ok T \<Longrightarrow> as_key (app_row T ns a t) = app_key ns a"
proof (cases "map_of T (app_key ns a)")
  case None
  then show ?thesis by (simp add: app_row_def Let_def get_or_def as_key_def)
next
  case (Some r)
  assume "table_ok T"
  then have "app_key ns a = as_key r" using Some by (auto simp: table_ok_def list_all_iff dest!: map_of_SomeD)
  then show ?thesis using Some by (simp add: app_row_def Let_def get_or_def as_key_def)
qed

lemma fold_stat_step:
  assumes "table_ok T"
  shows "table_ok (fold_stat s T)
    \<and> row_val (fold_stat s T) K as_allows = row_val T K as_allows + stat_of K hs_allows s
    \<and> row_val (fold_stat s T) K as_fails = row_val T K as_fails + stat_of K hs_fails s
    \<and> row_val (fold_stat s T) K as_up = row_val T K as_up + stat_of K hs_up s
    \<and> row_val (fold_stat s T) K as_down = row_val T K as_down + stat_of K hs_down s
    \<and> row_val (fold_stat s T) K as_denies = row_val T K as_denies"
proof -
  have "table_ok (fold_stat s T)"
    using assms app_row_key[OF assms, of "hs_namespace s" "hs_app s" "hs_last_seen s"]
    by (simp add: table_ok_def fold_stat_def Let_def distinct_update list_all_update as_key_def)
  then show ?thesis
    by (simp add: fold_stat_def Let_def row_val_def stat_of_def update_conv')
qed

lemma fold_violation_step:
  assumes "table_ok T"
  shows "table_ok (fold_violation v T)
    \<and> row_val (fold_violation v T) K as_denies = row_val T K as_denies + denials_of K v
    \<and> row_val (fold_violation v T) K as_allows = row_val T K as_allows
    \<and> row_val (fold_violation v T) K as_fails = row_val T K as_fails
    \<and> row_val (fold_violation v T) K as_up = row_val T K as_up
    \<and> row_val (fold_violation v T) K as_down = row_val T K as_down"
proof -
  have "table_ok (fold_violation v T)"
    using assms app_row_key[OF assms, of "vi_namespace v" "vi_app v" "vi_last_seen v"]
    by (simp add: table_ok_def fold_violation_def Let_def distinct_update list_all_update as_key_def)
  then show ?thesis
    by (simp add: fold_violation_def Let_def row_val_def denials_of_def update_conv')
qed

lemma fold_stats:
  "table_ok T \<Longrightarrow> table_ok (fold (fold_stat \<circ> snd) m T)
    \<and> row_val (fold (fold_stat \<circ> snd) m T) K as_allows = row_val T K as_allows + sum_vals (stat_of K hs_allows) m
    \<and> row_val (fold (fold_stat \<circ> snd) m T) K as_fails = row_val T K as_fails + sum_vals (stat_of K hs_fails) m
    \<and> row_val (fold (fold_stat \<circ> snd) m T) K as_up = row_val T K as_up + sum_vals (stat_of K hs_up) m
    \<and> row_val (fold (fold_stat \<circ> snd) m T) K as_down = row_val T K as_down + sum_vals (stat_of K hs_down) m
    \<and> row_val (fold (fold_stat \<circ> snd) m T) K as_denies = row_val T K as_denies"
proof (induction m arbitrary: T)
  case Nil
  then show ?case by simp
next
  case (Cons ks m)
  show ?case using Cons.IH[of "fold_stat (snd ks) T"] fold_stat_step[OF Cons.prems, of "snd ks" K] by simp
qed

lemma fold_violations:
  "table_ok T \<Longrightarrow> table_ok (fold (fold_violation \<circ> snd) m T)
    \<and> row_val (fold (fold_violation \<circ> snd) m T) K as_denies = row_val T K as_denies + sum_vals (denials_of K) m
    \<and> row_val (fold (fold_violation \<circ> snd) m T) K as_allows = row_val T K as_allows
    \<and> row_val (fold (fold_violation \<circ> snd) m T) K as_fails = row_val T K as_fails
    \<and> row_val (fold (fold_violation \<circ> snd) m T) K as_up = row_val T K as_up
    \<and> row_val (fold (fold_violation \<circ> snd) m T) K as_down = row_val T K as_down"
proof (induction m arbitrary: T)
  case Nil
  then show ?case by simp
next
  case (Cons kv m)
  show ?case using Cons.IH[of "fold_violation (snd kv) T"] fold_violation_step[OF Cons.prems, of "snd kv" K] by simp
qed

lemma apps_table_rows:
  "table_ok (apps_table i)
    \<and> row_val (apps_table i) K as_allows = sum_vals (stat_of K hs_allows) (in_allowed i)
    \<and> row_val (apps_table i) K as_fails = sum_vals (stat_of K hs_fails) (in_allowed i)
    \<and> row_val (apps_table i) K as_up = sum_vals (stat_of K hs_up) (in_allowed i)
    \<and> row_val (apps_table i) K as_down = sum_vals (stat_of K hs_down) (in_allowed i)
    \<and> row_val (apps_table i) K as_denies = sum_vals (denials_of K) (in_violations i)"
proof -
  have "table_ok []" "row_val [] K g = 0" for g by (simp_all add: table_ok_def row_val_def)
  then show ?thesis
    using fold_stats[of "[]" "in_allowed i" K] fold_violations[of "fold (fold_stat \<circ> snd) (in_allowed i) []" "in_violations i" K]
    by (simp add: apps_table_def)
qed

lemma row_val_member:
  assumes "table_ok T" and "a \<in> snd ` set T"
  shows "row_val T (as_key a) g = g a"
proof -
  obtain k where k: "(k, a) \<in> set T" using assms(2) by auto
  then have "k = as_key a" using assms(1) by (auto simp: table_ok_def list_all_iff)
  then have "map_of T (as_key a) = Some a" using k assms(1) by (simp add: table_ok_def)
  then show ?thesis by (simp add: row_val_def)
qed

text \<open>
  The picture counts every event once, for the application it belongs to. After
  any stream of events, in any order and at any times, each row of the roll-up
  reports exactly the allowed connections, denials, failed connections and bytes of
  the events attributed to its application, and the event counter their number.
\<close>

theorem inspector_counts_every_event:
  assumes "\<forall>te\<in>set es. clean (snd te)" and "i = fst (process quote es (inspector_New w))"
    and "a \<in> set (Apps i)"
  shows "as_allows a = total (as_key a) EvAllow (\<lambda>_. 1) es
    \<and> as_denies a = total (as_key a) EvDeny (\<lambda>_. 1) es
    \<and> as_fails a = total (as_key a) EvFail (\<lambda>_. 1) es
    \<and> as_up a = total (as_key a) EvClose ev_up es
    \<and> as_down a = total (as_key a) EvClose ev_down es
    \<and> in_events i = int (length es)"
proof -
  have ok: "tables_ok (inspector_New w)" by (simp add: tables_ok_def inspector_New_def)
  have n: "in_allowed (inspector_New w) = []" "in_violations (inspector_New w) = []" "in_events (inspector_New w) = 0"
    by (simp_all add: inspector_New_def)
  have a: "a \<in> snd ` set (apps_table i)" using assms(3) by (simp add: Apps_def)
  note r = row_val_member[OF conjunct1[OF apps_table_rows] a]
  show ?thesis
    using process_totals[OF ok assms(1), of quote "as_key a"] apps_table_rows[of i "as_key a"] r n assms(2) by simp
qed

definition demo_event :: "event_kind \<Rightarrow> event" where
  "demo_event k = zero_event\<lparr>ev_kind := k, ev_tenant := ''shop'', ev_app := ''api'', ev_host := ''h'', ev_reason := ''r'', ev_up := 7\<rparr>"

theorem inspector_counts_every_event_witness:
  "as_denies (hd (Apps (fst (process id [(0, demo_event EvAllow), (1, demo_event EvDeny), (2, demo_event EvDeny)] (inspector_New 0))))) = 2"
proof -
  let ?es = "[(0, demo_event EvAllow), (1, demo_event EvDeny), (2, demo_event EvDeny)]"
  let ?i = "fst (process id ?es (inspector_New 0))"
  have c: "\<forall>te\<in>set ?es. clean (snd te)" by code_simp
  have "hd (Apps ?i) \<in> set (Apps ?i)" "as_key (hd (Apps ?i)) = app_key ''shop'' ''api''" by code_simp+
  moreover have "total (app_key ''shop'' ''api'') EvDeny (\<lambda>_. 1) ?es = 2" by code_simp
  ultimately show ?thesis using inspector_counts_every_event[OF c refl, of "hd (Apps ?i)" id 0] by simp
qed

section \<open>No denial goes unreported\<close>

definition violation_key :: "'a violation_scheme \<Rightarrow> string" where
  "violation_key v = vi_namespace v @ nul # vi_app v @ nul # vi_reason v @ nul # vi_host v"

definition reported :: "(gotime \<times> alert) list \<Rightarrow> string \<times> vrec \<Rightarrow> bool" where
  "reported lg kv \<longleftrightarrow> violation_key (snd kv) = fst kv \<and> 1 \<le> vi_count (snd kv)
     \<and> (\<exists>ta\<in>set lg. fst ta = vr_last_alert (snd kv) \<and> violation_key (al_violation (snd ta)) = fst kv
          \<and> vi_severity (snd kv) \<le> vi_severity (al_violation (snd ta)))"

lemma reported_mono: "reported lg kv \<Longrightarrow> set lg \<subseteq> set lg' \<Longrightarrow> reported lg' kv"
  by (auto simp: reported_def)

lemma truncate_simps [simp]:
  "violation_key (violation.truncate v) = violation_key v" "vi_severity (violation.truncate v) = vi_severity v"
  by (simp_all add: violation_key_def violation.truncate_def)

lemma recordDeny_reported:
  assumes "list_all (reported lg) (in_violations i)"
    and "r = recordDeny quote e now i"
    and "lg' = (case snd r of None \<Rightarrow> lg | Some a \<Rightarrow> lg @ [(now, a)])"
  shows "list_all (reported lg') (in_violations (fst r))
    \<and> (\<exists>v. map_of (in_violations (fst r)) (class_key e) = Some v
         \<and> (vr_last_alert v = now \<or> time_sub now (vr_last_alert v) < in_window i))"
proof -
  let ?k = "class_key e"
  let ?old = "get_or (new_vrec e now) (in_violations i) ?k"
  let ?v = "bumped e now ?old"
  have mono: "list_all (reported lg') (in_violations i)"
    using assms(1) reported_mono[of lg _ lg'] assms(3) by (auto simp: list_all_iff split: option.splits)
  have key: "violation_key ?old = ?k \<and> 0 \<le> vi_count ?old
      \<and> (vi_count ?old = 0 \<or> reported lg (?k, ?old))"
  proof (cases "map_of (in_violations i) ?k")
    case None
    then show ?thesis by (simp add: get_or_def new_vrec_def violation_key_def class_key_def)
  next
    case (Some u)
    then have "reported lg (?k, u)" using assms(1) by (auto simp: list_all_iff dest!: map_of_SomeD)
    then show ?thesis using Some by (simp add: get_or_def) (simp add: reported_def)
  qed
  have kv: "violation_key ?v = ?k" using key by (simp add: violation_key_def)
  show ?thesis
  proof (cases "vi_count ?v \<noteq> 1 \<and> rank (vi_severity ?v) \<le> rank (vi_severity ?old)
      \<and> time_sub now (vr_last_alert ?old) < in_window i")
    case True
    then have r: "r = (i\<lparr>in_violations := AList.update ?k ?v (in_violations i)\<rparr>, None)"
      using assms(2) by (simp add: recordDeny_def Let_def)
    have "reported lg (?k, ?old)" using True key by auto
    then have "reported lg (?k, ?v)"
      using True kv by (auto simp: reported_def less_eq_severity_def)
    then show ?thesis using r True assms(1,3) by (simp add: list_all_update update_conv')
  next
    case False
    let ?w = "?v\<lparr>vr_last_alert := now\<rparr>"
    obtain a where a: "al_violation a = violation.truncate ?v"
      "r = (i\<lparr>in_violations := AList.update ?k ?w (in_violations i)\<rparr>, Some a)"
      using that assms(2) unfolding recordDeny_def Let_def if_not_P[OF False] by (metis alert.select_convs(1))
    have "reported lg' (?k, ?w)"
      using kv key a assms(3) by (simp add: reported_def) (simp add: violation_key_def)
    then show ?thesis using a mono by (simp add: list_all_update update_conv')
  qed
qed

lemma Record_reported:
  assumes "list_all (reported lg) (in_violations i)"
  shows "list_all (reported (case snd (Record quote now e i) of None \<Rightarrow> lg | Some a \<Rightarrow> lg @ [(now, a)]))
    (in_violations (fst (Record quote now e i)))"
proof -
  define j where "j = i\<lparr>in_events := in_events i + 1\<rparr>"
  have "in_violations j = in_violations i" by (simp add: j_def)
  then show ?thesis using assms recordDeny_reported[OF _ refl refl, where lg = lg and i = j and quote = quote and e = e and now = now]
    by (simp add: Record_def j_def[symmetric] record_defs split: event_kind.splits)
qed

lemma Record_window: "in_window (fst (Record quote now e i)) = in_window i"
  by (simp add: Record_def Let_def record_defs split: event_kind.splits)

lemma process_reported:
  "list_all (reported lg) (in_violations i) \<Longrightarrow>
     list_all (reported (lg @ snd (process quote es i))) (in_violations (fst (process quote es i)))
     \<and> in_window (fst (process quote es i)) = in_window i"
proof (induction es arbitrary: i lg)
  case Nil
  then show ?case by simp
next
  case (Cons te es)
  obtain t e where te: "te = (t, e)" by (cases te)
  show ?case
    using Cons.IH[OF Record_reported[OF Cons.prems, where quote = quote and now = t and e = e]] te
    by (simp add: case_prod_beta Record_window split: option.splits)
qed

text \<open>
  C39. No denial goes unreported. Whenever a denial has been recorded, an alert for its
  class (application, reason and host) has been raised whose severity is at least
  the class's current one, at this very moment or less than one alert window ago;
  and the current severity is never below the reason's, nor below the escalated one
  once the class has been seen a burst of times.
\<close>

theorem denials_are_reported:
  assumes "ev_kind e = EvDeny" and "(i, lg) = process quote (es @ [(now, e)]) (inspector_New w)"
  shows "\<exists>v t a. map_of (in_violations i) (class_key e) = Some v \<and> (t, a) \<in> set lg
    \<and> violation_key (al_violation a) = class_key e
    \<and> vi_severity v \<le> vi_severity (al_violation a)
    \<and> (t = now \<or> time_sub now t < in_window i)
    \<and> vi_severity v = (if vi_count v \<ge> burstThreshold then escalate (severityForReason (ev_reason e))
                       else severityForReason (ev_reason e))"
proof -
  define r0 where "r0 = process quote es (inspector_New w)"
  define j where "j = (fst r0)\<lparr>in_events := in_events (fst r0) + 1\<rparr>"
  define r where "r = recordDeny quote e now j"
  have inv: "list_all (reported (snd r0)) (in_violations j)" "in_window j = in_window (inspector_New w)"
    using process_reported[of "[]" "inspector_New w" quote es] by (simp_all add: j_def r0_def inspector_New_def)
  have rec: "Record quote now e (fst r0) = r" using assms(1) by (simp add: Record_def r_def j_def Let_def)
  have il: "i = fst r" "lg = snd r0 @ (case snd r of None \<Rightarrow> [] | Some a \<Rightarrow> [(now, a)])"
    using assms(2) rec by (simp_all add: process_append r0_def[symmetric] Let_def case_prod_beta split: option.splits)
  then have lg: "lg = (case snd r of None \<Rightarrow> snd r0 | Some a \<Rightarrow> snd r0 @ [(now, a)])" by (simp split: option.splits)
  obtain v where v: "map_of (in_violations i) (class_key e) = Some v"
      "vr_last_alert v = now \<or> time_sub now (vr_last_alert v) < in_window j"
    and all: "list_all (reported lg) (in_violations i)"
    using recordDeny_reported[OF inv(1) r_def lg] il(1) by auto
  have "reported lg (class_key e, v)" using all v(1) by (auto simp: list_all_iff dest!: map_of_SomeD)
  then obtain a where "(vr_last_alert v, a) \<in> set lg"
      "violation_key (al_violation a) = class_key e" "vi_severity v \<le> vi_severity (al_violation a)"
    by (auto simp: reported_def)
  moreover have "in_window i = in_window j" using il(1) by (simp add: r_def)
  moreover have "vi_severity v = (if vi_count v \<ge> burstThreshold then escalate (severityForReason (ev_reason e))
                       else severityForReason (ev_reason e))"
    using v(1) il(1) by (auto simp: r_def recordDeny_def Let_def update_conv' bumped_def split: if_splits)
  ultimately show ?thesis using v by (intro exI[of _ v] exI[of _ "vr_last_alert v"] exI[of _ a]) auto
qed

theorem denials_are_reported_witness:
  "\<exists>v t a. map_of (in_violations (fst (process id [(5, demo_event EvDeny)] (inspector_New 0)))) (class_key (demo_event EvDeny)) = Some v
    \<and> (t, a) \<in> set (snd (process id [(5, demo_event EvDeny)] (inspector_New 0))) \<and> vi_severity v \<le> vi_severity (al_violation a)"
proof -
  have k: "ev_kind (demo_event EvDeny) = EvDeny" by (simp add: demo_event_def)
  have "(fst (process id [(5, demo_event EvDeny)] (inspector_New 0)), snd (process id [(5, demo_event EvDeny)] (inspector_New 0)))
      = process id ([] @ [(5, demo_event EvDeny)]) (inspector_New 0)" by simp
  from denials_are_reported[OF k this] show ?thesis by blast
qed

section \<open>Latency bands are order statistics\<close>

definition clamp0 :: "int \<Rightarrow> int" where
  "clamp0 ms = (if ms < 0 then 0 else ms)"

definition observes :: "int list \<Rightarrow> latency" where
  "observes xs = fold Observe xs zero_latency"

definition band_of :: "int \<Rightarrow> nat" where
  "band_of ms = band_index (clamp0 ms) LatencyBounds"

definition in_band :: "int list \<Rightarrow> nat \<Rightarrow> int" where
  "in_band xs b = int (length (filter (\<lambda>x. band_of x = b) xs))"

lemma band_of_less: "band_of ms < 6"
  by (simp add: band_of_def LatencyBounds_def)

lemma band_index_mono: "x \<le> y \<Longrightarrow> band_index x bs \<le> band_index y bs"
  by (induction bs) auto

lemma band_of_mono: "x \<le> y \<Longrightarrow> band_of x \<le> band_of y"
  unfolding band_of_def by (rule band_index_mono) (simp add: clamp0_def)

lemma map_upt_update:
  "j < n \<Longrightarrow> (map f [0 ..< n])[j := v] = map (\<lambda>i. if i = j then v else f i) [0 ..< n]"
  by (rule nth_equalityI) (auto simp: nth_list_update)

lemma clamp0_nonneg: "0 \<le> clamp0 ms"
  by (simp add: clamp0_def)

lemma Observe_clamped:
  "Observe ms l = (let bs = allocated (lat_buckets l) in
     \<lparr>lat_count = lat_count l + 1, lat_total = lat_total l + clamp0 ms,
      lat_max = (if clamp0 ms > lat_max l then clamp0 ms else lat_max l),
      lat_buckets = bs[band_of ms := bs ! band_of ms + 1]\<rparr>)"
  by (simp add: Observe_def Let_def clamp0_def band_of_def)

lemma allocated_bands:
  "allocated (if xs = [] then [] else map (in_band xs) [0 ..< 6]) = map (in_band xs) [0 ..< 6]"
proof (cases "xs = []")
  case True
  have "in_band [] = (\<lambda>_. 0)" by (auto simp: in_band_def)
  moreover have "replicate (length LatencyBounds + 1) 0 = map (\<lambda>_. 0 :: int) [0 ..< 6]"
    by (simp add: map_replicate_const LatencyBounds_def numeral_eq_Suc)
  ultimately show ?thesis using True by (simp add: allocated_def)
qed (simp add: allocated_def)

lemma observes_snoc:
  "observes xs = \<lparr>lat_count = int (length xs), lat_total = sum_list (map clamp0 xs),
     lat_max = foldr max (map clamp0 xs) 0,
     lat_buckets = (if xs = [] then [] else map (in_band xs) [0 ..< 6])\<rparr>"
proof (induction xs rule: rev_induct)
  case Nil
  then show ?case by (simp add: observes_def zero_latency_def)
next
  case (snoc x xs)
  have band: "(map (in_band xs) [0 ..< 6])[band_of x := in_band xs (band_of x) + 1] = map (in_band (xs @ [x])) [0 ..< 6]"
    using band_of_less[of x] by (subst map_upt_update) (auto simp: in_band_def)
  have mx: "foldr max (ys @ [y]) 0 = (if y > foldr max ys 0 then y else foldr max ys 0)" if "0 \<le> y" for ys and y :: int
    using that by (induction ys) (auto simp: max_def)
  have "observes (xs @ [x]) = Observe x (observes xs)" by (simp add: observes_def)
  then show ?case
    using snoc allocated_bands[of xs] band band_of_less[of x] mx[of "clamp0 x" "map clamp0 xs"]
    by (simp add: Observe_clamped clamp0_nonneg)
qed

lemma sum_bands: "j \<le> 6 \<Longrightarrow> sum_list (take j (map (in_band xs) [0 ..< 6])) = int (length (filter (\<lambda>x. band_of x < j) xs))"
proof (induction j)
  case 0
  then show ?case by simp
next
  case (Suc j)
  have "length (filter (\<lambda>x. band_of x < Suc j) xs) = length (filter (\<lambda>x. band_of x < j) xs) + length (filter (\<lambda>x. band_of x = j) xs)"
    by (induction xs) (auto simp: less_Suc_eq)
  moreover have "take (Suc j) (map (in_band xs) [0 ..< 6]) = take j (map (in_band xs) [0 ..< 6]) @ [in_band xs j]"
    using Suc.prems by (subst take_Suc_conv_app_nth) (auto simp: nth_map)
  moreover have "in_band xs j = int (length (filter (\<lambda>x. band_of x = j) xs))" by (simp add: in_band_def)
  ultimately show ?case using Suc by simp
qed

lemma band_loop_finds:
  "j < length ns \<Longrightarrow> \<forall>n\<in>set ns. 0 \<le> n \<Longrightarrow> seen + sum_list (take j ns) < r \<Longrightarrow> r \<le> seen + sum_list (take (Suc j) ns) \<Longrightarrow>
     band_loop r seen i ns = i + j"
proof (induction ns arbitrary: j seen i)
  case Nil
  then show ?case by simp
next
  case (Cons n ns)
  show ?case
  proof (cases j)
    case 0
    then show ?thesis using Cons.prems by simp
  next
    case (Suc k)
    have "0 \<le> sum_list (take k ns)" using Cons.prems(2) by (intro sum_list_nonneg) (auto dest: in_set_takeD)
    then have "\<not> r \<le> seen + n" using Cons.prems(3) Suc by simp
    then show ?thesis using Cons Suc by simp
  qed
qed

lemma filter_sorted_prefix:
  assumes "sorted ys" and "r < length ys" and "mono f"
  shows "length (filter (\<lambda>y. f y < f (ys ! r)) ys) \<le> r" and "r < length (filter (\<lambda>y. f y \<le> f (ys ! r)) ys)"
proof -
  have le: "i \<le> j \<Longrightarrow> j < length ys \<Longrightarrow> f (ys ! i) \<le> f (ys ! j)" for i j
    using assms(1,3) by (simp add: monoD sorted_nth_mono)
  have "{i. i < length ys \<and> f (ys ! i) < f (ys ! r)} \<subseteq> {..<r}"
  proof
    fix i assume "i \<in> {i. i < length ys \<and> f (ys ! i) < f (ys ! r)}"
    then show "i \<in> {..<r}" using le[of r i] by (cases "i < r") auto
  qed
  then show "length (filter (\<lambda>y. f y < f (ys ! r)) ys) \<le> r"
    using card_mono[of "{..<r}"] by (simp add: length_filter_conv_card)
  have "{..r} \<subseteq> {i. i < length ys \<and> f (ys ! i) \<le> f (ys ! r)}" using le assms(2) by auto
  then have "card {..r} \<le> card {i. i < length ys \<and> f (ys ! i) \<le> f (ys ! r)}" by (intro card_mono) auto
  then show "r < length (filter (\<lambda>y. f y \<le> f (ys ! r)) ys)" by (simp add: length_filter_conv_card)
qed

lemma length_filter_sort: "length (filter P (sort xs)) = length (filter P xs)"
  by (metis mset_filter mset_sort size_mset)

lemma latency_Add_observes: "latency_Add (observes xs) (observes ys) = observes (xs @ ys)"
proof (cases "ys = []")
  case True
  then show ?thesis by (simp add: latency_Add_def observes_snoc)
next
  case False
  have mx: "foldr max (as @ bs) 0 = (if foldr max bs 0 > foldr max as 0 then foldr max bs 0 else foldr max as 0)"
    if "\<forall>b\<in>set bs. 0 \<le> b" for as bs :: "int list"
  proof -
    have "0 \<le> foldr max bs 0" using that by (induction bs) auto
    then show ?thesis by (induction as) (auto simp: max_def)
  qed
  have "\<forall>b\<in>set (map clamp0 ys). 0 \<le> b" by (auto simp: clamp0_def)
  moreover have "in_band (xs @ ys) = (\<lambda>b. in_band xs b + in_band ys b)" by (auto simp: in_band_def)
  ultimately show ?thesis
    using False mx[of "map clamp0 ys" "map clamp0 xs"]
    by (simp add: latency_Add_def observes_snoc Let_def allocated_bands cong: map_cong)
qed

text \<open>
  A band is an honest quantile. For any observed connection times and any quantile
  between zero and one, \<open>Band\<close> is the band of the time at the rounded rank of the sorted
  observations; the counters are the number, sum and maximum of the observations;
  and folding two distributions together is observing both.
\<close>

theorem latency_band_is_quantile:
  assumes "xs \<noteq> []" and "0 \<le> q" and "q \<le> 1"
  shows "Band (observes xs) q = LatencyBands ! band_of (sort xs ! nat (band_rank (observes xs) q - 1))
    \<and> sum_list (lat_buckets (observes xs)) = lat_count (observes xs)
    \<and> lat_count (observes xs) = int (length xs) \<and> lat_total (observes xs) = sum_list (map clamp0 xs)
    \<and> lat_max (observes xs) = foldr max (map clamp0 xs) 0
    \<and> latency_Add (observes xs) (observes ys) = observes (xs @ ys)"
proof -
  let ?l = "observes xs"
  define r where "r = band_rank ?l q"
  have n: "lat_count ?l = int (length xs)" "lat_buckets ?l = map (in_band xs) [0 ..< 6]"
    "lat_total ?l = sum_list (map clamp0 xs)" "lat_max ?l = foldr max (map clamp0 xs) 0"
    using assms(1) observes_snoc[of xs] by simp_all
  have "\<lfloor>real (length xs) * q + 1 / 2\<rfloor> \<le> int (length xs)"
  proof -
    have "real (length xs) * q \<le> real (length xs)" using assms(3) by (simp add: mult_left_le)
    then show ?thesis by linarith
  qed
  then have r: "1 \<le> r" "r \<le> int (length xs)" using assms(1) n(1) by (auto simp: r_def band_rank_def Let_def Suc_le_eq)
  define j where "j = band_of (sort xs ! nat (r - 1))"
  have idx: "nat (r - 1) < length (sort xs)" using r by simp
  have "mono band_of" by (intro monoI band_of_mono)
  note cnt = filter_sorted_prefix[OF sorted_sort idx this, folded j_def, unfolded length_filter_sort]
  have j6: "j < 6" by (simp add: j_def band_of_less)
  have "band_loop r 0 0 (map (in_band xs) [0 ..< 6]) = 0 + j"
  proof (rule band_loop_finds)
    show "\<forall>n\<in>set (map (in_band xs) [0 ..< 6]). 0 \<le> n" by (auto simp: in_band_def)
    show "0 + sum_list (take j (map (in_band xs) [0 ..< 6])) < r"
      using cnt(1) r j6 by (subst sum_bands) auto
    have "(\<lambda>x. band_of x < Suc j) = (\<lambda>x. band_of x \<le> j)" by (auto simp: less_Suc_eq_le)
    then show "r \<le> 0 + sum_list (take (Suc j) (map (in_band xs) [0 ..< 6]))"
      using cnt(2) r j6 by (subst sum_bands) auto
  qed (use j6 in simp)
  moreover have "sum_list (lat_buckets ?l) = int (length xs)"
    using sum_bands[of 6 xs] n(2) band_of_less by simp
  ultimately show ?thesis using assms(1) n by (simp add: Band_def r_def[symmetric] j_def latency_Add_observes)
qed

theorem latency_band_is_quantile_witness:
  "Band (observes [3, 40, 9000]) (1 / 2) = at_most @ ''100ms''"
proof -
  have r: "band_rank (observes [3, 40, 9000]) (1 / 2) = 2"
    by (simp add: band_rank_def Let_def observes_snoc)
  have "band_of 40 = 2" by (simp add: band_of_def clamp0_def LatencyBounds_def)
  then show ?thesis
    using latency_band_is_quantile[of "[3, 40, 9000]" "1 / 2"] r by (simp add: LatencyBands_def)
qed

text \<open>
  A relayed stream is an \<open>allow\<close> event carrying its byte counts; the engine adds bytes
  from \<open>close\<close> events only, so the bytes a relay moved reach no row of the picture.
\<close>

lemma relay_bytes_unseen:
  "sum_vals hs_up (in_allowed (fst (Record quote now (emitStream route ''relayed'' up down) i))) = sum_vals hs_up (in_allowed i)
   \<and> sum_vals hs_down (in_allowed (fst (Record quote now (emitStream route ''relayed'' up down) i))) = sum_vals hs_down (in_allowed i)"
  by (simp add: Record_def Let_def emitStream_def zero_event_def recordAllow_def statFor_def gomap_simps
      get_or_def new_stat_def split: option.splits)

end
