(* ===== verification/Ledger.thy ===== *)
theory Ledger
  imports Prelude Go_Strings
begin

text \<open>
  The spending of one instance in one period (\<open>technocore/cost/ledger.go\<close>,
  \<open>limit.go\<close>, \<open>snapshot.go\<close>): expected cost metered into hour buckets, the provider's
  confirmations with the clamp that bounds what they may loosen, where a total stands
  against the limit, and the checkpointed form. Money is exact reals where the code has
  float64.
\<close>

section \<open>The ledger\<close>

definition MinCalibration :: real where "MinCalibration = 1 / 2"
definition MaxCalibration :: real where "MaxCalibration = 2"

record confirmation =
  cStart :: gotime
  cEnd :: gotime
  cUSD :: real
  cAsOf :: gotime

record discrepancy =
  dConfirmation :: confirmation
  dExpected :: real
  dRatio :: real

datatype cost_error =
    ErrWindowOutsidePeriod | ErrWindowEmpty | ErrWindowOverlaps | ErrAmountNegative
  | Period_empty gotime gotime
  | Snapshot_version int
  | Restore_period cost_error
  | Bad_hour_key string
  | Negative_hour real string
  | Negative_app real string
  | Replay_confirmation cost_error

record ledger =
  periodStart :: gotime
  periodEnd :: gotime
  hourly :: "(int \<times> real) list"
  apps :: "(string \<times> real) list"
  confirmations :: "confirmation list"
  discrepancies :: "discrepancy list"

definition NewLedger :: "gotime \<Rightarrow> gotime \<Rightarrow> cost_error + ledger" where
  "NewLedger start end' =
     (if \<not> start < end' then Inl (Period_empty start end')
      else Inr \<lparr>periodStart = start, periodEnd = end', hourly = [], apps = [], confirmations = [], discrepancies = []\<rparr>)"

text \<open>\<open>Unix()\<close> rounds down to the second; the division by 3600 truncates towards zero.\<close>

definition unix_sec :: "gotime \<Rightarrow> int" where
  "unix_sec t = t div 10 ^ 9"

definition hourKey :: "gotime \<Rightarrow> int" where
  "hourKey t = go_div (unix_sec t) 3600"

text \<open>\<open>time.Unix(h*3600, 0)\<close>.\<close>

definition hour_time :: "int \<Rightarrow> gotime" where
  "hour_time h = h * ns_per_hour"

lemma go_div_3600: "u < (go_div u 3600 + 1) * 3600"
proof -
  obtain q r where qr: "q = \<bar>u\<bar> div 3600" "r = \<bar>u\<bar> mod 3600" by blast
  have "\<bar>u\<bar> = 3600 * q + r" "0 \<le> r" "r < 3600" unfolding qr by simp_all
  then show ?thesis unfolding go_div_def by (cases "u < 0"; cases "u = 0") (simp_all add: qr(1)[symmetric])
qed

lemma hour_end_after: "cur < hour_time (hourKey cur + 1)"
proof -
  obtain s where s: "s = cur div 10 ^ 9" by blast
  have b: "cur < 10 ^ 9 * s + 10 ^ 9" unfolding s using div_bounds[of "10 ^ 9" cur] by simp
  have "s + 1 \<le> (go_div s 3600 + 1) * 3600" using go_div_3600[of s] by linarith
  then have "10 ^ 9 * (s + 1) \<le> 10 ^ 9 * ((go_div s 3600 + 1) * 3600)" by (intro mult_left_mono) simp_all
  then have "cur < (go_div s 3600 + 1) * (3600 * 10 ^ 9)" using b by simp
  then show ?thesis unfolding hour_time_def hourKey_def unix_sec_def s[symmetric] ns_per_hour_def .
qed

function accrue_loop :: "gotime \<Rightarrow> real \<Rightarrow> gotime \<Rightarrow> (int \<times> real) list \<Rightarrow> (int \<times> real) list" where
  "accrue_loop now usdPerHour cur m =
     (if cur < now then
        let h = hourKey cur;
            next' = (if now < hour_time (h + 1) then now else hour_time (h + 1))
        in accrue_loop now usdPerHour next' (add_at h (usdPerHour * hours (time_sub next' cur)) m)
      else m)"
  by pat_completeness auto

termination accrue_loop
  by (relation "measure (\<lambda>(now, _, cur, _). nat (now - cur))")
    (use hour_end_after in \<open>auto split: if_splits\<close>)

declare accrue_loop.simps [simp del]

definition Accrue :: "gotime \<Rightarrow> string \<Rightarrow> real \<Rightarrow> duration \<Rightarrow> ledger \<Rightarrow> ledger" where
  "Accrue now app usdPerHour d l =
     (if d \<le> 0 \<or> usdPerHour \<le> 0 then l
      else l\<lparr>apps := add_at app (usdPerHour * hours d) (apps l),
             hourly := accrue_loop now usdPerHour (now - d) (hourly l)\<rparr>)"

definition expectedIn :: "ledger \<Rightarrow> gotime \<Rightarrow> gotime \<Rightarrow> real" where
  "expectedIn l start end' = sum_where (\<lambda>h. \<not> hour_time h < start \<and> hour_time h < end') (hourly l)"

definition outside_clamp :: "real \<Rightarrow> bool" where
  "outside_clamp ratio \<longleftrightarrow> ratio < MinCalibration \<or> MaxCalibration < ratio"

definition window_overlaps :: "confirmation \<Rightarrow> confirmation \<Rightarrow> bool" where
  "window_overlaps c existing \<longleftrightarrow> cStart c < cEnd existing \<and> cStart existing < cEnd c"

text \<open>An error leaves the ledger as it was.\<close>

definition Confirm :: "confirmation \<Rightarrow> ledger \<Rightarrow> cost_error + discrepancy option \<times> ledger" where
  "Confirm c l =
     (if cUSD c < 0 then Inl ErrAmountNegative
      else if \<not> cStart c < cEnd c then Inl ErrWindowEmpty
      else if cStart c < periodStart l \<or> periodEnd l < cEnd c then Inl ErrWindowOutsidePeriod
      else if list_ex (window_overlaps c) (confirmations l) then Inl ErrWindowOverlaps
      else
        let expected = expectedIn l (cStart c) (cEnd c);
            l' = l\<lparr>confirmations := sort_by (key_less cStart) (confirmations l @ [c])\<rparr>;
            ratio = cUSD c / expected;
            d = \<lparr>dConfirmation = c, dExpected = expected, dRatio = ratio\<rparr>
        in if expected \<le> 0 then Inr (None, l')
           else if outside_clamp ratio then Inr (Some d, l'\<lparr>discrepancies := discrepancies l' @ [d]\<rparr>)
           else Inr (None, l'))"

record accrual =
  Confirmed :: real
  Expected :: real
  Total :: real
  HasConfirmation :: bool
  ConfirmedThrough :: gotime
  Calibration :: real
  Discrepancies :: "discrepancy list"

text \<open>The sums of \<open>Accrued\<close>'s loop over the confirmations.\<close>

record accrued_sums =
  confirmedTotal :: real
  expectedInConfirmed :: real
  calibratedFrom :: real
  calibratedTo :: real
  through :: gotime

definition accrued_step :: "ledger \<Rightarrow> accrued_sums \<Rightarrow> confirmation \<Rightarrow> accrued_sums" where
  "accrued_step l s c =
     (let expected = expectedIn l (cStart c) (cEnd c);
          disagrees = 0 < expected \<and> outside_clamp (cUSD c / expected);
          agrees = 0 < expected \<and> \<not> outside_clamp (cUSD c / expected);
          amount = (if disagrees then max (cUSD c) expected else cUSD c)
      in \<lparr>confirmedTotal = confirmedTotal s + amount,
          expectedInConfirmed = expectedInConfirmed s + expected,
          calibratedFrom = calibratedFrom s + (if agrees then expected else 0),
          calibratedTo = calibratedTo s + (if agrees then cUSD c else 0),
          through = (if through s < cEnd c then cEnd c else through s)\<rparr>)"

definition accrued_sums_of :: "ledger \<Rightarrow> accrued_sums" where
  "accrued_sums_of l = foldl (accrued_step l)
     \<lparr>confirmedTotal = 0, expectedInConfirmed = 0, calibratedFrom = 0, calibratedTo = 0, through = zero_time\<rparr>
     (confirmations l)"

definition Accrued :: "ledger \<Rightarrow> accrual" where
  "Accrued l =
     (let s = accrued_sums_of l;
          calibration = (if 0 < calibratedFrom s then calibratedTo s / calibratedFrom s else 1);
          raw = expectedIn l (periodStart l) (periodEnd l) - expectedInConfirmed s;
          rawExpected = (if raw < 0 then 0 else raw)
      in \<lparr>Confirmed = confirmedTotal s, Expected = rawExpected * calibration,
          Total = confirmedTotal s + rawExpected * calibration,
          HasConfirmation = confirmations l \<noteq> [], ConfirmedThrough = through s,
          Calibration = calibration, Discrepancies = discrepancies l\<rparr>)"

definition Period :: "ledger \<Rightarrow> gotime \<times> gotime" where
  "Period l = (periodStart l, periodEnd l)"

definition ByApp :: "ledger \<Rightarrow> (string \<times> real) list" where
  "ByApp l = apps l"

section \<open>The limit\<close>

datatype level = LevelOK | LevelWarn50 | LevelWarn75 | LevelWarn90 | LevelReached

fun level_index :: "level \<Rightarrow> nat" where
  "level_index LevelOK = 0"
| "level_index LevelWarn50 = 1"
| "level_index LevelWarn75 = 2"
| "level_index LevelWarn90 = 3"
| "level_index LevelReached = 4"

instantiation level :: linorder
begin

definition less_eq_level :: "level \<Rightarrow> level \<Rightarrow> bool" where
  "less_eq_level a b \<longleftrightarrow> level_index a \<le> level_index b"

definition less_level :: "level \<Rightarrow> level \<Rightarrow> bool" where
  "less_level a b \<longleftrightarrow> level_index a < level_index b"

instance
proof
  fix a b :: level
  show "a \<le> b \<Longrightarrow> b \<le> a \<Longrightarrow> a = b"
    by (cases a; cases b) (simp_all add: less_eq_level_def)
qed (auto simp: less_eq_level_def less_level_def)

end

definition Acts :: "level \<Rightarrow> bool" where
  "Acts l \<longleftrightarrow> l = LevelReached"

record assessment =
  as_Total :: real
  as_Limit :: real
  Fraction :: real
  Level :: level
  Projected :: real
  ProjectedOver :: bool
  ProjectedAt :: gotime

definition level_for :: "real \<Rightarrow> level" where
  "level_for fraction =
     (if fraction \<ge> 1 then LevelReached
      else if fraction \<ge> 9 / 10 then LevelWarn90
      else if fraction \<ge> 3 / 4 then LevelWarn75
      else if fraction \<ge> 1 / 2 then LevelWarn50
      else LevelOK)"

text \<open>\<open>time.Duration(x)\<close> of a float truncates towards zero.\<close>

definition trunc_real :: "real \<Rightarrow> int" where
  "trunc_real x = (if x < 0 then \<lceil>x\<rceil> else \<lfloor>x\<rfloor>)"

definition Assess :: "real \<Rightarrow> real \<Rightarrow> real \<Rightarrow> gotime \<Rightarrow> gotime \<Rightarrow> assessment" where
  "Assess tot limit ratePerHour now periodEnd' =
     (let a = \<lparr>as_Total = tot, as_Limit = limit, Fraction = 0, Level = LevelOK, Projected = 0,
               ProjectedOver = False, ProjectedAt = zero_time\<rparr> in
      if limit \<le> 0 then a
      else
        let fraction = tot / limit;
            a = a\<lparr>Fraction := fraction, Level := level_for fraction\<rparr>;
            remaining = time_sub periodEnd' now in
        if remaining \<le> 0 \<or> ratePerHour \<le> 0 then a\<lparr>Projected := tot\<rparr>
        else
          let projected = tot + ratePerHour * hours remaining;
              a = a\<lparr>Projected := projected\<rparr> in
          if limit < projected \<and> Level a \<noteq> LevelReached
          then a\<lparr>ProjectedOver := True,
                 ProjectedAt := now + trunc_real ((limit - tot) / ratePerHour * of_int ns_per_hour)\<rparr>
          else a)"

section \<open>Checkpoints\<close>

definition SnapshotVersion :: int where "SnapshotVersion = 1"

record snapshot =
  Version :: int
  PeriodStart :: gotime
  PeriodEnd :: gotime
  Hourly :: "(string \<times> real) list"
  Apps :: "(string \<times> real) list"
  Confirmations :: "confirmation list"

definition Snapshot :: "ledger \<Rightarrow> snapshot" where
  "Snapshot l = \<lparr>Version = SnapshotVersion, PeriodStart = periodStart l, PeriodEnd = periodEnd l,
     Hourly = map (\<lambda>(h, v). (format_int h, v)) (hourly l), Apps = apps l, Confirmations = confirmations l\<rparr>"

fun restore_hours :: "(string \<times> real) list \<Rightarrow> ledger \<Rightarrow> cost_error + ledger" where
  "restore_hours [] l = Inr l"
| "restore_hours ((k, v) # kvs) l =
     (case parse_int64 k of
        None \<Rightarrow> Inl (Bad_hour_key k)
      | Some h \<Rightarrow> if v < 0 then Inl (Negative_hour v k)
          else restore_hours kvs (l\<lparr>hourly := AList.update h v (hourly l)\<rparr>))"

fun restore_apps :: "(string \<times> real) list \<Rightarrow> ledger \<Rightarrow> cost_error + ledger" where
  "restore_apps [] l = Inr l"
| "restore_apps ((k, v) # kvs) l =
     (if v < 0 then Inl (Negative_app v k)
      else restore_apps kvs (l\<lparr>apps := AList.update k v (apps l)\<rparr>))"

fun restore_confirmations :: "confirmation list \<Rightarrow> ledger \<Rightarrow> cost_error + ledger" where
  "restore_confirmations [] l = Inr l"
| "restore_confirmations (c # cs) l =
     (case Confirm c l of
        Inl e \<Rightarrow> Inl (Replay_confirmation e)
      | Inr (_, l') \<Rightarrow> restore_confirmations cs l')"

definition Restore :: "snapshot \<Rightarrow> cost_error + ledger" where
  "Restore s =
     (if Version s \<noteq> SnapshotVersion then Inl (Snapshot_version (Version s))
      else case NewLedger (PeriodStart s) (PeriodEnd s) of
             Inl e \<Rightarrow> Inl (Restore_period e)
           | Inr l \<Rightarrow> bind_res (restore_hours (Hourly s) l)
               (\<lambda>l. bind_res (restore_apps (Apps s) l)
                 (restore_confirmations (Confirmations s))))"

section \<open>What a metered interval adds\<close>

text \<open>The part of \<open>[a, b)\<close> inside \<open>[s, e)\<close>.\<close>

definition overlap :: "gotime \<Rightarrow> gotime \<Rightarrow> gotime \<Rightarrow> gotime \<Rightarrow> duration" where
  "overlap a b s e = max 0 (min b e - max a s)"

lemma ns_per_hour_pos: "0 < ns_per_hour"
  by (simp add: ns_per_hour_def)

lemma hour_time_le: "hour_time i \<le> hour_time j \<longleftrightarrow> i \<le> j"
  using ns_per_hour_pos by (simp add: hour_time_def)

lemma hour_time_less: "hour_time i < hour_time j \<longleftrightarrow> i < j"
  using ns_per_hour_pos by (simp add: hour_time_def)

lemma hour_start_before: "0 \<le> cur \<Longrightarrow> hour_time (hourKey cur) \<le> cur"
proof -
  assume "0 \<le> cur"
  obtain s k where s: "s = cur div 10 ^ 9" and k: "k = s div 3600" by blast
  have "0 \<le> s" unfolding s using \<open>0 \<le> cur\<close> by (simp add: pos_imp_zdiv_nonneg_iff)
  then have "hourKey cur = k" unfolding hourKey_def unix_sec_def s[symmetric] k by (simp add: go_div_nonneg)
  moreover have "10 ^ 9 * s \<le> cur" unfolding s using div_bounds[of "10 ^ 9" cur] by simp
  moreover have "10 ^ 9 * (3600 * k) \<le> 10 ^ 9 * s"
    unfolding k by (intro mult_left_mono) (use div_bounds[of 3600 s] in simp_all)
  ultimately show ?thesis by (simp add: hour_time_def ns_per_hour_def)
qed

lemma hour_end_near: "hour_time (hourKey cur + 1) - cur \<le> 2 * ns_per_hour"
proof -
  obtain s where s: "s = cur div 10 ^ 9" by blast
  obtain q r where qr: "q = \<bar>s\<bar> div 3600" "r = \<bar>s\<bar> mod 3600" by blast
  have "\<bar>s\<bar> = 3600 * q + r" "0 \<le> r" "r < 3600" unfolding qr by simp_all
  then have "(go_div s 3600 + 1) * 3600 \<le> s + 7200"
    unfolding go_div_def by (cases "s < 0"; cases "s = 0") (simp_all add: qr(1)[symmetric])
  then have "10 ^ 9 * ((go_div s 3600 + 1) * 3600) \<le> 10 ^ 9 * (s + 7200)" by (intro mult_left_mono) simp_all
  moreover have "10 ^ 9 * s \<le> cur" unfolding s using div_bounds[of "10 ^ 9" cur] by simp
  ultimately have "(go_div s 3600 + 1) * (3600 * 10 ^ 9) - cur \<le> 2 * (3600 * 10 ^ 9)" by simp
  then show ?thesis unfolding hour_time_def hourKey_def unix_sec_def s[symmetric] ns_per_hour_def .
qed

lemma time_sub_in_hour:
  "cur < next' \<Longrightarrow> next' \<le> hour_time (hourKey cur + 1) \<Longrightarrow> time_sub next' cur = next' - cur"
  using hour_end_near[of cur] by (simp add: time_sub_def ns_per_hour_def)

lemma accrue_loop_step:
  assumes "cur < now"
  defines "n \<equiv> min now (hour_time (hourKey cur + 1))"
  shows "accrue_loop now r cur m = accrue_loop now r n (add_at (hourKey cur) (r * hours (n - cur)) m)"
    and "cur < n"
proof -
  have n: "n = (if now < hour_time (hourKey cur + 1) then now else hour_time (hourKey cur + 1))"
    by (simp add: n_def min_def)
  show "cur < n" using assms(1) hour_end_after[of cur] by (simp add: n_def)
  then have "time_sub n cur = n - cur" by (rule time_sub_in_hour) (simp add: n_def)
  then show "accrue_loop now r cur m = accrue_loop now r n (add_at (hourKey cur) (r * hours (n - cur)) m)"
    using assms(1) by (subst accrue_loop.simps) (simp add: Let_def n[symmetric])
qed

lemma accrue_loop_induct [case_names stop step]:
  assumes "\<And>cur m. \<not> cur < now \<Longrightarrow> P cur m"
    and "\<And>cur m. cur < now \<Longrightarrow>
      P (min now (hour_time (hourKey cur + 1)))
        (add_at (hourKey cur) (r * hours (min now (hour_time (hourKey cur + 1)) - cur)) m) \<Longrightarrow> P cur m"
  shows "P cur m"
proof (induction "nat (now - cur)" arbitrary: cur m rule: less_induct)
  case less
  show ?case
  proof (cases "cur < now")
    case True
    then have "nat (now - min now (hour_time (hourKey cur + 1))) < nat (now - cur)"
      using accrue_loop_step(2)[OF True] by simp
    then show ?thesis by (intro assms(2)[OF True] less)
  qed (rule assms(1))
qed

lemma accrue_loop_done: "\<not> cur < now \<Longrightarrow> accrue_loop now r cur m = m"
  by (simp add: accrue_loop.simps)

text \<open>One turn of the loop moves exactly its piece of the interval into its hour.\<close>

lemma overlap_step:
  assumes "s \<le> e" "k \<le> cur" "cur < k'" "cur < b" and "n = min b k'"
    and "in_window \<longleftrightarrow> s \<le> k \<and> k < e" and "k < s \<longleftrightarrow> k' \<le> s" and "k < e \<longleftrightarrow> k' \<le> e"
  shows "overlap cur b s e = (if in_window then n - cur else 0) + overlap n b s e"
  using assms by (cases in_window) (auto simp: overlap_def max_def min_def)

lemma accrue_loop_window:
  assumes "i \<le> j" "0 \<le> cur"
  shows "sum_where (\<lambda>h. i \<le> h \<and> h < j) (accrue_loop now r cur m)
    = sum_where (\<lambda>h. i \<le> h \<and> h < j) m + r * hours (overlap cur now (hour_time i) (hour_time j))"
  using assms(2)
proof (induction cur m rule: accrue_loop_induct[where now = now and r = r])
  case (stop cur m)
  then have "overlap cur now (hour_time i) (hour_time j) = 0"
    using assms(1) hour_time_le[of i j] by (simp add: overlap_def)
  then show ?case using stop by (simp add: accrue_loop_done hours_def)
next
  case (step cur m)
  define k n where "k = hourKey cur" and "n = min now (hour_time (k + 1))"
  have n: "cur < n" using accrue_loop_step(2)[OF step.hyps(1)] by (simp add: n_def k_def)
  have o: "overlap cur now (hour_time i) (hour_time j)
      = (if i \<le> k \<and> k < j then n - cur else 0) + overlap n now (hour_time i) (hour_time j)"
    by (rule overlap_step[where k = "hour_time k" and k' = "hour_time (k + 1)"])
      (use assms(1) step.prems step.hyps(1) hour_start_before[of cur] hour_end_after[of cur]
       in \<open>auto simp: n_def k_def hour_time_le hour_time_less\<close>)
  have "sum_where (\<lambda>h. i \<le> h \<and> h < j) (accrue_loop now r cur m)
      = sum_where (\<lambda>h. i \<le> h \<and> h < j) (add_at k (r * hours (n - cur)) m) + r * hours (overlap n now (hour_time i) (hour_time j))"
    using step.IH step.prems n unfolding accrue_loop_step(1)[OF step.hyps(1)] by (simp add: n_def k_def)
  moreover have "hours 0 = 0" by (simp add: hours_def)
  ultimately show ?case unfolding o hours_add by (cases "i \<le> k \<and> k < j") (auto simp: gomap_simps distrib_left)
qed

lemma accrue_loop_distinct: "distinct (map fst m) \<Longrightarrow> distinct (map fst (accrue_loop now r cur m))"
  by (induction cur m rule: accrue_loop_induct[where now = now and r = r])
    (simp_all add: accrue_loop_done accrue_loop_step(1))

lemma accrue_loop_nonneg:
  "0 \<le> r \<Longrightarrow> (\<forall>(h, v)\<in>set m. 0 \<le> v) \<Longrightarrow> (\<forall>(h, v)\<in>set (accrue_loop now r cur m). 0 \<le> v)"
proof (induction cur m rule: accrue_loop_induct[where now = now and r = r])
  case (step cur m)
  have "0 \<le> r * hours (min now (hour_time (hourKey cur + 1)) - cur)"
    using step.prems(1) accrue_loop_step(2)[OF step.hyps(1)] by (intro mult_nonneg_nonneg) simp_all
  then show ?case using step add_at_nonneg[of m] unfolding accrue_loop_step(1)[OF step.hyps(1)] by fast
qed (simp add: accrue_loop_done)

lemma expectedIn_hours: "expectedIn l (hour_time i) (hour_time j) = sum_where (\<lambda>h. i \<le> h \<and> h < j) (hourly l)"
  by (simp add: expectedIn_def hour_time_less not_less)

text \<open>
  A metered interval lands where it ran. Accruing \<open>d\<close> at a rate, ending at
  \<open>now\<close>, adds to the model's figure for any whole-hour window exactly the rate times
  the part of \<open>[now - d, now)\<close> inside that window, however many hours the interval
  spans, and adds to the application, and to no other, the rate times its whole length.
\<close>

theorem accrual_lands_where_it_ran:
  assumes "0 < d" "0 < r" "d \<le> now" "i \<le> j"
  shows "expectedIn (Accrue now app r d l) (hour_time i) (hour_time j)
      = expectedIn l (hour_time i) (hour_time j) + r * hours (overlap (now - d) now (hour_time i) (hour_time j))
    \<and> get_or 0 (ByApp (Accrue now app r d l)) a
      = get_or 0 (ByApp l) a + (if a = app then r * hours d else 0)"
  using assms accrue_loop_window[of i j "now - d" now r "hourly l"]
  by (simp add: expectedIn_hours Accrue_def ByApp_def gomap_simps)

theorem accrual_lands_where_it_ran_witness:
  "expectedIn (Accrue (5 * ns_per_hour) ''shop'' 2 (3 * ns_per_hour) \<lparr>periodStart = 0, periodEnd = 1, hourly = [], apps = [], confirmations = [], discrepancies = []\<rparr>)
     (hour_time 3) (hour_time 4) = 2"
  using accrual_lands_where_it_ran[of "3 * ns_per_hour" 2 "5 * ns_per_hour" 3 4 "''shop''"
      "\<lparr>periodStart = 0, periodEnd = 1, hourly = [], apps = [], confirmations = [], discrepancies = []\<rparr>"]
  by (simp add: ns_per_hour_pos expectedIn_def overlap_def hour_time_def hours_def ns_per_hour_def)

section \<open>What a ledger always satisfies\<close>

text \<open>
  Windows are in order of time and disjoint, inside the period, not empty and not
  negative; no bucket and no application has a negative amount.
\<close>

definition windows_ok :: "gotime \<Rightarrow> gotime \<Rightarrow> confirmation list \<Rightarrow> bool" where
  "windows_ok s e cs \<longleftrightarrow> sorted_wrt (\<lambda>c d. cEnd c \<le> cStart d) cs
     \<and> list_all (\<lambda>c. s \<le> cStart c \<and> cStart c < cEnd c \<and> cEnd c \<le> e \<and> 0 \<le> cUSD c) cs"

definition amounts_ok :: "('k \<times> real) list \<Rightarrow> bool" where
  "amounts_ok m \<longleftrightarrow> distinct (map fst m) \<and> (\<forall>(k, v)\<in>set m. 0 \<le> v)"

definition ledger_ok :: "ledger \<Rightarrow> bool" where
  "ledger_ok l \<longleftrightarrow> periodStart l < periodEnd l \<and> amounts_ok (hourly l) \<and> amounts_ok (apps l)
     \<and> windows_ok (periodStart l) (periodEnd l) (confirmations l)"

text \<open>The ledgers the operations build.\<close>

inductive ledger_run :: "ledger \<Rightarrow> bool" where
  run_new: "NewLedger s e = Inr l \<Longrightarrow> ledger_run l"
| run_accrue: "ledger_run l \<Longrightarrow> ledger_run (Accrue now app r d l)"
| run_confirm: "ledger_run l \<Longrightarrow> Confirm c l = Inr (d, l') \<Longrightarrow> ledger_run l'"

lemma amounts_ok_update: "amounts_ok m \<Longrightarrow> 0 \<le> v \<Longrightarrow> amounts_ok (AList.update k v m)"
  using set_update_subset[of k v m] by (auto simp: amounts_ok_def distinct_update)

lemma amounts_ok_add_at: "amounts_ok m \<Longrightarrow> 0 \<le> v \<Longrightarrow> amounts_ok (add_at k v m)"
  unfolding amounts_ok_def using add_at_nonneg[of m v _ _ k] by (auto split: prod.splits)

lemma NewLedger_ok: "NewLedger s e = Inr l \<Longrightarrow> ledger_ok l"
  by (auto simp: NewLedger_def ledger_ok_def amounts_ok_def windows_ok_def split: if_splits)

lemma Accrue_ok: "ledger_ok l \<Longrightarrow> ledger_ok (Accrue now app r d l)"
  using amounts_ok_add_at[of "apps l" "r * hours d" app] accrue_loop_nonneg[of r "hourly l" now "now - d"]
    accrue_loop_distinct[of "hourly l" now r "now - d"]
  by (cases "d \<le> 0 \<or> r \<le> 0") (simp_all add: Accrue_def ledger_ok_def amounts_ok_def)

text \<open>A successful confirmation, in the form its callers use.\<close>

lemma Confirm_Inr:
  "Confirm c l = Inr (d, l') \<longleftrightarrow>
     0 \<le> cUSD c \<and> cStart c < cEnd c \<and> periodStart l \<le> cStart c \<and> cEnd c \<le> periodEnd l
     \<and> list_all (\<lambda>e. \<not> window_overlaps c e) (confirmations l)
     \<and> (let x = expectedIn l (cStart c) (cEnd c) in
        d = (if 0 < x \<and> outside_clamp (cUSD c / x) then Some \<lparr>dConfirmation = c, dExpected = x, dRatio = cUSD c / x\<rparr> else None))
     \<and> l' = l\<lparr>confirmations := sort_by (key_less cStart) (confirmations l @ [c]),
              discrepancies := discrepancies l @ (case d of None \<Rightarrow> [] | Some x \<Rightarrow> [x])\<rparr>"
  by (cases l) (auto simp: Confirm_def Let_def list_all_iff list_ex_iff not_less not_le)

lemma windows_ok_sort:
  assumes "windows_ok s e cs" and "s \<le> cStart c" "cStart c < cEnd c" "cEnd c \<le> e" "0 \<le> cUSD c"
    and "list_all (\<lambda>x. \<not> window_overlaps c x) cs"
  shows "windows_ok s e (sort_by (key_less cStart) (cs @ [c]))"
proof -
  define ws where "ws = sort_by (key_less cStart) (cs @ [c])"
  have each: "list_all (\<lambda>c. s \<le> cStart c \<and> cStart c < cEnd c \<and> cEnd c \<le> e \<and> 0 \<le> cUSD c) ws"
    using assms by (auto simp: ws_def windows_ok_def list_all_iff)
  have "sorted_wrt (\<lambda>x y. \<not> window_overlaps x y) (cs @ [c])"
    using assms(1,6) by (auto simp: windows_ok_def sorted_wrt_append list_all_iff window_overlaps_def
        intro: sorted_wrt_mono_rel[rotated])
  then have "sorted_wrt (\<lambda>x y. \<not> window_overlaps x y) ws"
    unfolding ws_def by (subst sorted_wrt_sort_by_sym) (auto simp: window_overlaps_def)
  moreover have "sorted_wrt (\<lambda>x y. \<not> key_less cStart y x) ws"
    unfolding ws_def by (rule key_order.sorted_slice.ordered_srt)
  ultimately have "sorted_wrt (\<lambda>c d. cEnd c \<le> cStart d) ws"
    using each by (auto simp: sorted_wrt_iff_nth_less list_all_length window_overlaps_def key_less_def)
      (meson less_trans not_le order.strict_trans1)
  then show ?thesis using each by (simp add: windows_ok_def ws_def)
qed

lemma Confirm_ok: "ledger_ok l \<Longrightarrow> Confirm c l = Inr (d, l') \<Longrightarrow> ledger_ok l'"
  unfolding ledger_ok_def Confirm_Inr by (auto intro: windows_ok_sort)

lemma ledger_run_ok: "ledger_run l \<Longrightarrow> ledger_ok l"
  by (induction rule: ledger_run.induct) (auto intro: NewLedger_ok Accrue_ok Confirm_ok)

section \<open>What the confirmed feed can move\<close>

lemma expectedIn_nonneg: "amounts_ok (hourly l) \<Longrightarrow> 0 \<le> expectedIn l s e"
  unfolding expectedIn_def by (rule sum_where_nonneg) (auto simp: amounts_ok_def)

lemma expectedIn_split: "s \<le> m \<Longrightarrow> m \<le> e \<Longrightarrow> expectedIn l s e = expectedIn l s m + expectedIn l m e"
  unfolding expectedIn_def by (subst sum_where_disj[symmetric]) (auto intro!: arg_cong[where f = "\<lambda>P. sum_where P (hourly l)"])

lemma expectedIn_windows:
  assumes "amounts_ok (hourly l)"
  shows "windows_ok s e cs \<Longrightarrow> s \<le> e \<Longrightarrow> sum_list (map (\<lambda>c. expectedIn l (cStart c) (cEnd c)) cs) \<le> expectedIn l s e"
proof (induction cs arbitrary: s)
  case Nil
  then show ?case using expectedIn_nonneg[OF assms] by simp
next
  case (Cons c cs)
  have c: "s \<le> cStart c" "cStart c < cEnd c" "cEnd c \<le> e" using Cons.prems by (auto simp: windows_ok_def)
  have "windows_ok (cEnd c) e cs" using Cons.prems by (auto simp: windows_ok_def list_all_iff)
  then have "sum_list (map (\<lambda>c. expectedIn l (cStart c) (cEnd c)) cs) \<le> expectedIn l (cEnd c) e"
    using c by (intro Cons.IH) simp_all
  moreover have "expectedIn l s e = expectedIn l s (cStart c) + expectedIn l (cStart c) (cEnd c) + expectedIn l (cEnd c) e"
    using c expectedIn_split[of s "cStart c" e l] expectedIn_split[of "cStart c" "cEnd c" e l] by simp
  ultimately show ?case using expectedIn_nonneg[OF assms, of s "cStart c"] by simp
qed

text \<open>The amount one confirmation counts for, and its share of the calibration.\<close>

definition counted :: "ledger \<Rightarrow> confirmation \<Rightarrow> real" where
  "counted l c = (let x = expectedIn l (cStart c) (cEnd c) in
     if 0 < x \<and> outside_clamp (cUSD c / x) then max (cUSD c) x else cUSD c)"

definition agreeing :: "ledger \<Rightarrow> confirmation list \<Rightarrow> confirmation list" where
  "agreeing l = filter (\<lambda>c. let x = expectedIn l (cStart c) (cEnd c) in 0 < x \<and> \<not> outside_clamp (cUSD c / x))"

lemma accrued_sums_fields:
  "confirmedTotal (foldl (accrued_step l) s cs) = confirmedTotal s + sum_list (map (counted l) cs)
   \<and> expectedInConfirmed (foldl (accrued_step l) s cs)
       = expectedInConfirmed s + sum_list (map (\<lambda>c. expectedIn l (cStart c) (cEnd c)) cs)
   \<and> calibratedFrom (foldl (accrued_step l) s cs)
       = calibratedFrom s + sum_list (map (\<lambda>c. expectedIn l (cStart c) (cEnd c)) (agreeing l cs))
   \<and> calibratedTo (foldl (accrued_step l) s cs) = calibratedTo s + sum_list (map cUSD (agreeing l cs))"
  by (induction cs arbitrary: s) (simp_all add: accrued_step_def counted_def agreeing_def Let_def)

lemma sum_list_half: "sum_list (map (\<lambda>c. f c / 2) cs) = sum_list (map f cs) / (2 :: real)"
  by (induction cs) (simp_all add: add_divide_distrib)

lemma counted_bounds:
  assumes "0 \<le> expectedIn l (cStart c) (cEnd c)" "0 \<le> cUSD c"
  shows "expectedIn l (cStart c) (cEnd c) / 2 \<le> counted l c" and "cUSD c \<le> counted l c"
proof -
  obtain x where x: "x = expectedIn l (cStart c) (cEnd c)" by blast
  have "x = 0 \<or> 0 < x" using assms(1) by (auto simp: x)
  then show "expectedIn l (cStart c) (cEnd c) / 2 \<le> counted l c" "cUSD c \<le> counted l c"
    unfolding counted_def x[symmetric] Let_def using assms(2)
    by (auto simp: outside_clamp_def MinCalibration_def not_less field_simps)
qed

lemma agreeing_bounds:
  "sum_list (map (\<lambda>c. expectedIn l (cStart c) (cEnd c)) (agreeing l cs)) / 2 \<le> sum_list (map cUSD (agreeing l cs))
   \<and> sum_list (map cUSD (agreeing l cs)) \<le> 2 * sum_list (map (\<lambda>c. expectedIn l (cStart c) (cEnd c)) (agreeing l cs))"
proof (induction cs)
  case Nil
  then show ?case by (simp add: agreeing_def)
next
  case (Cons c cs)
  define x where "x = expectedIn l (cStart c) (cEnd c)"
  have "0 < x \<and> \<not> outside_clamp (cUSD c / x) \<Longrightarrow> x / 2 \<le> cUSD c \<and> cUSD c \<le> 2 * x"
    by (auto simp: outside_clamp_def MinCalibration_def MaxCalibration_def not_less field_simps)
  then show ?case using Cons by (auto simp: agreeing_def Let_def x_def[symmetric] add_divide_distrib)
qed

lemma Accrued_calibration: "1 / 2 \<le> Calibration (Accrued l) \<and> Calibration (Accrued l) \<le> 2"
  using agreeing_bounds[of l "confirmations l"]
  by (auto simp: Accrued_def Let_def accrued_sums_of_def accrued_sums_fields field_simps)

lemma ledger_ok_feed:
  assumes "ledger_ok l"
  defines "E \<equiv> expectedIn l (periodStart l) (periodEnd l)"
  shows "E / 2 \<le> Total (Accrued l)"
    and "sum_list (map cUSD (confirmations l)) \<le> Confirmed (Accrued l)"
    and "Confirmed (Accrued l) \<le> Total (Accrued l)"
proof -
  let ?w = "\<lambda>c. expectedIn l (cStart c) (cEnd c)"
  have ok: "amounts_ok (hourly l)" "windows_ok (periodStart l) (periodEnd l) (confirmations l)"
      "periodStart l \<le> periodEnd l" using assms(1) by (auto simp: ledger_ok_def)
  have b: "?w c / 2 \<le> counted l c \<and> cUSD c \<le> counted l c" if "c \<in> set (confirmations l)" for c
    using that ok(2) counted_bounds[of l c] expectedIn_nonneg[OF ok(1)] by (auto simp: windows_ok_def list_all_iff)
  define X where "X = sum_list (map ?w (confirmations l))"
  define cal where "cal = Calibration (Accrued l)"
  have X: "X \<le> E" unfolding X_def E_def using ok by (intro expectedIn_windows)
  have C: "Confirmed (Accrued l) = sum_list (map (counted l) (confirmations l))"
    by (simp add: Accrued_def Let_def accrued_sums_of_def accrued_sums_fields)
  have T: "Total (Accrued l) = Confirmed (Accrued l) + (E - X) * cal"
    using X by (simp add: Accrued_def Let_def accrued_sums_of_def accrued_sums_fields cal_def E_def X_def)
  have cal: "1 / 2 \<le> cal" using Accrued_calibration by (simp add: cal_def)
  have rest: "(E - X) / 2 \<le> (E - X) * cal" using X cal mult_left_mono[OF cal, of "E - X"] by simp
  have "X / 2 = sum_list (map (\<lambda>c. ?w c / 2) (confirmations l))"
    unfolding X_def by (rule sum_list_half[symmetric])
  also have "\<dots> \<le> Confirmed (Accrued l)" unfolding C using b by (intro sum_list_mono) blast
  finally show "E / 2 \<le> Total (Accrued l)" unfolding T using rest by (simp add: field_simps)
  show "sum_list (map cUSD (confirmations l)) \<le> Confirmed (Accrued l)" unfolding C using b by (intro sum_list_mono) blast
  show "Confirmed (Accrued l) \<le> Total (Accrued l)" unfolding T using X cal by simp
qed

text \<open>
  C33. A confirmed feed can tighten the guard and cannot disarm it. Whatever sequence
  of accruals and confirmations a ledger has seen, the total compared against the limit
  is at least half of what was metered and at least everything the provider confirmed;
  the calibration of the rest stays within a factor of two; and with nothing confirmed
  the total is the metered figure itself.
\<close>

theorem confirmations_cannot_disarm:
  assumes "ledger_run l"
  shows "expectedIn l (periodStart l) (periodEnd l) / 2 \<le> Total (Accrued l)
    \<and> sum_list (map cUSD (confirmations l)) \<le> Confirmed (Accrued l) \<and> Confirmed (Accrued l) \<le> Total (Accrued l)
    \<and> 1 / 2 \<le> Calibration (Accrued l) \<and> Calibration (Accrued l) \<le> 2
    \<and> (\<not> HasConfirmation (Accrued l) \<longrightarrow> Total (Accrued l) = expectedIn l (periodStart l) (periodEnd l))"
proof (intro conjI)
  have ok: "ledger_ok l" using assms by (rule ledger_run_ok)
  then have "0 \<le> expectedIn l (periodStart l) (periodEnd l)" by (simp add: ledger_ok_def expectedIn_nonneg)
  then show "\<not> HasConfirmation (Accrued l) \<longrightarrow> Total (Accrued l) = expectedIn l (periodStart l) (periodEnd l)"
    by (simp add: Accrued_def Let_def accrued_sums_of_def)
qed (use ledger_run_ok[OF assms] ledger_ok_feed Accrued_calibration in blast)+

theorem confirmations_cannot_disarm_witness:
  "let l = Accrue (ns_per_hour) ''shop'' 4 ns_per_hour
      \<lparr>periodStart = 0, periodEnd = 2 * ns_per_hour, hourly = [], apps = [], confirmations = [], discrepancies = []\<rparr>
   in expectedIn l (periodStart l) (periodEnd l) / 2 \<le> Total (Accrued l)"
proof -
  have "ledger_run (Accrue (ns_per_hour) ''shop'' 4 ns_per_hour
      \<lparr>periodStart = 0, periodEnd = 2 * ns_per_hour, hourly = [], apps = [], confirmations = [], discrepancies = []\<rparr>)"
    by (rule run_accrue, rule run_new[of 0 "2 * ns_per_hour"]) (simp add: NewLedger_def ns_per_hour_pos)
  from confirmations_cannot_disarm[OF this] show ?thesis unfolding Let_def by blast
qed

section \<open>Acting on the accrual, warning on the projection\<close>

lemma level_for_mono: "x \<le> y \<Longrightarrow> level_for x \<le> level_for y"
  by (simp add: level_for_def less_eq_level_def)

lemma Assess_Level: "Level (Assess tot lmt r now pe) = (if lmt \<le> 0 then LevelOK else level_for (tot / lmt))"
  by (simp add: Assess_def Let_def)

lemma level_reached_iff: "0 < lmt \<Longrightarrow> level_for (tot / lmt) = LevelReached \<longleftrightarrow> lmt \<le> tot"
  by (auto simp: level_for_def field_simps)

lemma Assess_ProjectedOver:
  "ProjectedOver (Assess tot lmt r now pe) \<longleftrightarrow>
     0 < lmt \<and> tot < lmt \<and> 0 < r \<and> now < pe \<and> lmt < tot + r * hours (time_sub pe now)"
  using level_reached_iff[of lmt tot] time_sub_pos_iff[of pe now] by (auto simp: Assess_def Let_def not_le not_less)

lemma Assess_ProjectedAt:
  "ProjectedOver (Assess tot lmt r now pe) \<Longrightarrow>
     ProjectedAt (Assess tot lmt r now pe) = now + trunc_real ((lmt - tot) / r * of_int ns_per_hour)"
  using level_reached_iff[of lmt tot] time_sub_pos_iff[of pe now]
  by (auto simp: Assess_ProjectedOver) (simp add: Assess_def Let_def)

text \<open>
  An instance is stopped on what it accrued and never on a forecast. The level
  that authorises stopping is reached exactly when there is a limit and the total is at
  least it; a larger total never has a lower level; and a projection over the limit is
  raised only below that level, for an instant from now on and before the period ends.
\<close>

theorem acts_on_accrual_only:
  "(Acts (Level (Assess tot lmt r now pe)) \<longleftrightarrow> 0 < lmt \<and> lmt \<le> tot)
   \<and> (tot \<le> tot' \<longrightarrow> Level (Assess tot lmt r now pe) \<le> Level (Assess tot' lmt r' now' pe'))
   \<and> (ProjectedOver (Assess tot lmt r now pe) \<longrightarrow>
        \<not> Acts (Level (Assess tot lmt r now pe))
        \<and> now \<le> ProjectedAt (Assess tot lmt r now pe) \<and> ProjectedAt (Assess tot lmt r now pe) < pe)"
proof (intro conjI impI)
  show acts: "Acts (Level (Assess tot lmt r now pe)) \<longleftrightarrow> 0 < lmt \<and> lmt \<le> tot" for tot r now pe
    using level_reached_iff[of lmt tot] by (auto simp: Acts_def Assess_Level)
  show "Level (Assess tot lmt r now pe) \<le> Level (Assess tot' lmt r' now' pe')" if "tot \<le> tot'"
    using that by (auto simp: Assess_Level intro!: level_for_mono divide_right_mono)
  assume p: "ProjectedOver (Assess tot lmt r now pe)"
  then have h: "0 < lmt" "tot < lmt" "0 < r" "now < pe" "lmt < tot + r * hours (time_sub pe now)"
    by (simp_all add: Assess_ProjectedOver)
  show "\<not> Acts (Level (Assess tot lmt r now pe))" using acts h by simp
  define x where "x = (lmt - tot) / r * of_int ns_per_hour"
  have N: "(0::real) < of_int ns_per_hour" using ns_per_hour_pos by simp
  have "0 < x" using h N by (simp add: x_def)
  have "(lmt - tot) / r < of_int (time_sub pe now) / of_int ns_per_hour" using h by (simp add: hours_def field_simps)
  then have "x < of_int (time_sub pe now)" using N by (simp add: x_def field_simps)
  also have "\<dots> \<le> of_int (pe - now)" using time_sub_le[of now pe] h(4) by (simp add: of_int_le_iff[symmetric] del: of_int_diff)
  finally have "\<lfloor>x\<rfloor> < pe - now" by linarith
  moreover have "0 \<le> \<lfloor>x\<rfloor>" using \<open>0 < x\<close> by simp
  moreover have "trunc_real x = \<lfloor>x\<rfloor>" using \<open>0 < x\<close> by (simp add: trunc_real_def)
  ultimately show "now \<le> ProjectedAt (Assess tot lmt r now pe)" "ProjectedAt (Assess tot lmt r now pe) < pe"
    unfolding Assess_ProjectedAt[OF p] x_def[symmetric] by linarith+
qed

theorem acts_on_accrual_only_witness:
  "ProjectedOver (Assess 1 10 20 0 ns_per_hour) \<and> ProjectedAt (Assess 1 10 20 0 ns_per_hour) < ns_per_hour
   \<and> Level (Assess 1 10 20 0 ns_per_hour) \<le> Level (Assess 6 10 1 0 1)"
proof -
  have p: "ProjectedOver (Assess 1 10 20 0 ns_per_hour)"
    by (simp add: Assess_ProjectedOver ns_per_hour_pos time_sub_def) (simp add: hours_def ns_per_hour_def)
  then show ?thesis using acts_on_accrual_only[of 1 10 20 0 ns_per_hour 6 1 0 1] by simp
qed

section \<open>Restarts\<close>

lemma restore_hours_ok:
  "restore_hours kvs l = Inr l' \<Longrightarrow> amounts_ok (hourly l) \<Longrightarrow>
     \<exists>m. amounts_ok m \<and> l' = l\<lparr>hourly := m\<rparr>"
proof (induction kvs l rule: restore_hours.induct)
  case (1 l)
  then show ?case by (intro exI[of _ "hourly l"]) simp
next
  case (2 k v kvs l)
  from "2.prems" obtain h where h: "parse_int64 k = Some h" "0 \<le> v"
      "restore_hours kvs (l\<lparr>hourly := AList.update h v (hourly l)\<rparr>) = Inr l'"
    by (auto split: option.splits if_splits)
  then show ?case using "2.IH"[OF h(1) _ h(3)] "2.prems"(2) by (auto simp: amounts_ok_update)
qed

lemma restore_apps_ok:
  "restore_apps kvs l = Inr l' \<Longrightarrow> amounts_ok (apps l) \<Longrightarrow> \<exists>m. amounts_ok m \<and> l' = l\<lparr>apps := m\<rparr>"
proof (induction kvs l rule: restore_apps.induct)
  case (1 l)
  then show ?case by (intro exI[of _ "apps l"]) simp
next
  case (2 k v kvs l)
  from "2.prems" have h: "0 \<le> v" "restore_apps kvs (l\<lparr>apps := AList.update k v (apps l)\<rparr>) = Inr l'"
    by (auto split: if_splits)
  then show ?case using "2.IH"[OF _ h(2)] "2.prems"(2) by (auto simp: amounts_ok_update)
qed

lemma restore_confirmations_ok:
  "restore_confirmations cs l = Inr l' \<Longrightarrow> ledger_ok l \<Longrightarrow> ledger_ok l'"
  by (induction cs l rule: restore_confirmations.induct) (auto split: sum.splits prod.splits dest: Confirm_ok)

text \<open>
  Whatever is in a checkpoint, a ledger restored from it satisfies the invariant, so
  that the bounds on the feed hold of it too.
\<close>

lemma Restore_ok: "Restore s = Inr l \<Longrightarrow> ledger_ok l"
proof -
  assume "Restore s = Inr l"
  then obtain l0 l1 l2 where r: "NewLedger (PeriodStart s) (PeriodEnd s) = Inr l0" "restore_hours (Hourly s) l0 = Inr l1"
      "restore_apps (Apps s) l1 = Inr l2" "restore_confirmations (Confirmations s) l2 = Inr l"
    by (auto simp: Restore_def result_simps split: if_splits sum.splits)
  have "ledger_ok l0" using r(1) by (rule NewLedger_ok)
  then have "ledger_ok l1" using restore_hours_ok[OF r(2)] by (auto simp: ledger_ok_def)
  then have "ledger_ok l2" using restore_apps_ok[OF r(3)] by (auto simp: ledger_ok_def)
  then show ?thesis using restore_confirmations_ok[OF r(4)] by blast
qed

text \<open>What the confirmations say of the buckets as they are now.\<close>

definition disagreements :: "ledger \<Rightarrow> confirmation list \<Rightarrow> discrepancy list" where
  "disagreements l cs = concat (map (\<lambda>c. let x = expectedIn l (cStart c) (cEnd c) in
     if 0 < x \<and> outside_clamp (cUSD c / x) then [\<lparr>dConfirmation = c, dExpected = x, dRatio = cUSD c / x\<rparr>] else []) cs)"

lemma update_new: "k \<notin> fst ` set m \<Longrightarrow> AList.update k v m = m @ [(k, v)]"
  by (induction m) auto

lemma restore_hours_replay:
  "amounts_ok (hourly l @ m) \<Longrightarrow> (\<forall>h\<in>fst ` set m. - (2 ^ 63) \<le> h \<and> h < 2 ^ 63) \<Longrightarrow>
     restore_hours (map (\<lambda>(h, v). (format_int h, v)) m) l = Inr (l\<lparr>hourly := hourly l @ m\<rparr>)"
proof (induction m arbitrary: l)
  case (Cons hv m)
  obtain h v where hv: "hv = (h, v)" by (cases hv)
  have "0 \<le> v" "h \<notin> fst ` set (hourly l)" "parse_int64 (format_int h) = Some h"
    using Cons.prems hv parse_format_int[of h] by (auto simp: amounts_ok_def)
  then show ?case using Cons.IH[of "l\<lparr>hourly := hourly l @ [(h, v)]\<rparr>"] Cons.prems hv by (simp add: update_new)
qed simp

lemma restore_apps_replay:
  "amounts_ok (apps l @ m) \<Longrightarrow> restore_apps m l = Inr (l\<lparr>apps := apps l @ m\<rparr>)"
proof (induction m arbitrary: l)
  case (Cons kv m)
  obtain k v where kv: "kv = (k, v)" by (cases kv)
  have "0 \<le> v" "k \<notin> fst ` set (apps l)" using Cons.prems kv by (auto simp: amounts_ok_def)
  then show ?case using Cons.IH[of "l\<lparr>apps := apps l @ [(k, v)]\<rparr>"] Cons.prems kv by (simp add: update_new)
qed simp

lemma windows_ok_order:
  "windows_ok s e cs \<Longrightarrow> sort_by (key_less cStart) cs = cs"
  by (rule sort_by_id) (auto simp: windows_ok_def key_less_def sorted_wrt_iff_nth_less list_all_length,
      meson dual_order.strict_trans1 less_trans not_less_iff_gr_or_eq)

lemma expectedIn_cong: "hourly l = hourly l' \<Longrightarrow> expectedIn l = expectedIn l'"
  by (intro ext) (simp add: expectedIn_def)

lemma disagreements_cong: "hourly l = hourly l' \<Longrightarrow> disagreements l cs = disagreements l' cs"
  by (simp add: disagreements_def expectedIn_cong[of l l'])

lemma restore_confirmations_replay:
  "windows_ok (periodStart l) (periodEnd l) (confirmations l @ cs) \<Longrightarrow>
     restore_confirmations cs l
       = Inr (l\<lparr>confirmations := confirmations l @ cs, discrepancies := discrepancies l @ disagreements l cs\<rparr>)"
proof (induction cs arbitrary: l)
  case Nil
  then show ?case by (simp add: disagreements_def)
next
  case (Cons c cs)
  define l' where "l' = l\<lparr>confirmations := confirmations l @ [c], discrepancies := discrepancies l @ disagreements l [c]\<rparr>"
  have w: "windows_ok (periodStart l) (periodEnd l) (confirmations l @ [c])"
    using Cons.prems by (auto simp: windows_ok_def sorted_wrt_append)
  have "Confirm c l = Inr (case disagreements l [c] of [] \<Rightarrow> None | d # _ \<Rightarrow> Some d, l')"
    unfolding Confirm_Inr windows_ok_order[OF w] l'_def using w
    by (auto simp: windows_ok_def sorted_wrt_append list_all_iff window_overlaps_def disagreements_def Let_def)
  moreover have "restore_confirmations cs l' = Inr (l'\<lparr>confirmations := confirmations l' @ cs,
      discrepancies := discrepancies l' @ disagreements l' cs\<rparr>)"
    using Cons.prems by (intro Cons.IH) (simp add: l'_def)
  moreover have "disagreements l' cs = disagreements l cs" by (rule disagreements_cong) (simp add: l'_def)
  ultimately show ?case by (simp add: l'_def disagreements_def)
qed

lemma Accrued_discrepancies: "Accrued (l\<lparr>discrepancies := ds\<rparr>) = (Accrued l)\<lparr>Discrepancies := ds\<rparr>"
proof -
  have "expectedIn (l\<lparr>discrepancies := ds\<rparr>) = expectedIn l" by (rule expectedIn_cong) simp
  then have "accrued_step (l\<lparr>discrepancies := ds\<rparr>) = accrued_step l" by (intro ext) (simp add: accrued_step_def)
  then show ?thesis using \<open>expectedIn (l\<lparr>discrepancies := ds\<rparr>) = expectedIn l\<close>
    by (simp add: Accrued_def accrued_sums_of_def Let_def)
qed

text \<open>Replaying a snapshot from an empty ledger of its period.\<close>

lemma Restore_Snapshot:
  assumes "ledger_ok l" and "\<forall>h\<in>fst ` set (hourly l). - (2 ^ 63) \<le> h \<and> h < 2 ^ 63"
  shows "Restore (Snapshot l) = Inr (l\<lparr>discrepancies := disagreements l (confirmations l)\<rparr>)"
proof -
  note ok = assms(1)
  define l0 where "l0 = \<lparr>periodStart = periodStart l, periodEnd = periodEnd l, hourly = [], apps = [], confirmations = [], discrepancies = []\<rparr>"
  have n: "NewLedger (periodStart l) (periodEnd l) = Inr l0" using ok by (simp add: NewLedger_def ledger_ok_def l0_def)
  have h: "restore_hours (Hourly (Snapshot l)) l0 = Inr (l0\<lparr>hourly := hourly l\<rparr>)"
    using restore_hours_replay[of l0 "hourly l"] ok assms(2) by (simp add: Snapshot_def l0_def ledger_ok_def)
  have a: "restore_apps (apps l) (l0\<lparr>hourly := hourly l\<rparr>) = Inr (l0\<lparr>hourly := hourly l, apps := apps l\<rparr>)"
    using restore_apps_replay[of "l0\<lparr>hourly := hourly l\<rparr>" "apps l"] ok by (simp add: l0_def ledger_ok_def)
  have "restore_confirmations (confirmations l) (l0\<lparr>hourly := hourly l, apps := apps l\<rparr>)
      = Inr (l\<lparr>discrepancies := disagreements (l0\<lparr>hourly := hourly l, apps := apps l\<rparr>) (confirmations l)\<rparr>)"
    using restore_confirmations_replay[of "l0\<lparr>hourly := hourly l, apps := apps l\<rparr>" "confirmations l"] ok
    by (cases l) (simp add: l0_def ledger_ok_def)
  moreover have "disagreements (l0\<lparr>hourly := hourly l, apps := apps l\<rparr>) (confirmations l) = disagreements l (confirmations l)"
    by (rule disagreements_cong) simp
  ultimately show ?thesis
    using n h a by (simp add: Restore_def) (simp add: Snapshot_def)
qed

text \<open>
  A restart forgets nothing the guard uses. Restoring the snapshot of any ledger
  the operations built succeeds and gives that ledger back, buckets, applications and
  confirmations alike, with the discrepancies judged afresh against the buckets as they
  are now; so the total, the calibration and every other figure reported are the same.
\<close>

theorem snapshot_round_trip:
  assumes "ledger_run l" and "\<forall>h\<in>fst ` set (hourly l). - (2 ^ 63) \<le> h \<and> h < 2 ^ 63"
  defines "ds \<equiv> disagreements l (confirmations l)"
  shows "Restore (Snapshot l) = Inr (l\<lparr>discrepancies := ds\<rparr>)
    \<and> Accrued (l\<lparr>discrepancies := ds\<rparr>) = (Accrued l)\<lparr>Discrepancies := ds\<rparr>"
  using Restore_Snapshot[OF ledger_run_ok[OF assms(1)] assms(2)] Accrued_discrepancies by (simp add: ds_def)

theorem snapshot_round_trip_witness:
  "let l = Accrue ns_per_hour ''shop'' 4 ns_per_hour
      \<lparr>periodStart = 0, periodEnd = 2 * ns_per_hour, hourly = [], apps = [], confirmations = [], discrepancies = []\<rparr>
   in Restore (Snapshot l) = Inr l"
proof -
  define l where "l = Accrue ns_per_hour ''shop'' 4 ns_per_hour
      \<lparr>periodStart = 0, periodEnd = 2 * ns_per_hour, hourly = [], apps = [], confirmations = [], discrepancies = []\<rparr>"
  have "ledger_run l" unfolding l_def
    by (rule run_accrue, rule run_new[of 0 "2 * ns_per_hour"]) (simp add: NewLedger_def ns_per_hour_pos)
  moreover have l: "l = \<lparr>periodStart = 0, periodEnd = 2 * ns_per_hour, hourly = [(0, 4)], apps = [(''shop'', 4)], confirmations = [], discrepancies = []\<rparr>"
    by (simp add: l_def Accrue_def accrue_loop_step(1) accrue_loop_done ns_per_hour_def hourKey_def unix_sec_def go_div_def
        hour_time_def add_at_def get_or_def hours_def)
  ultimately show ?thesis using snapshot_round_trip[of l] unfolding l_def[symmetric]
    by (simp add: disagreements_def)
qed

end
