(* ===== verification/Period.thy ===== *)
theory Period
  imports Prelude Go_Strings
begin

text \<open>
  The accounting window of a cost limit (\<open>technocore/cost/period.go\<close>): calendar months
  and days in UTC. \<open>time.Time\<close>'s calendar is the proleptic Gregorian one; a civil date
  is counted in days from the first of January of year 0.
\<close>

section \<open>The calendar\<close>

definition leap :: "int \<Rightarrow> bool" where
  "leap y \<longleftrightarrow> y mod 4 = 0 \<and> (y mod 100 \<noteq> 0 \<or> y mod 400 = 0)"

text \<open>Days before the first of January: 365 a year and one for each leap year before.\<close>

definition year_start :: "int \<Rightarrow> int" where
  "year_start y = 365 * y + (y + 3) div 4 - (y + 99) div 100 + (y + 399) div 400"

definition month_days :: "int \<Rightarrow> int \<Rightarrow> int" where
  "month_days y m = (if m = 2 then (if leap y then 29 else 28)
     else if m \<in> {4, 6, 9, 11} then 30 else 31)"

definition month_start :: "int \<Rightarrow> int \<Rightarrow> int" where
  "month_start y m = year_start y + sum_list (map (month_days y) [1 .. m - 1])"

definition epoch_day :: int where
  "epoch_day = 719528"

definition day_ns :: int where
  "day_ns = 86400 * 10 ^ 9"

text \<open>The year, month and day of a count of days.\<close>

definition year_of :: "int \<Rightarrow> int" where
  "year_of d = (let c = (400 * d) div 146097 in
     if d < year_start c then c - 1 else if year_start (c + 1) \<le> d then c + 1 else c)"

definition month_of :: "int \<Rightarrow> int \<Rightarrow> int" where
  "month_of y d = 1 + int (length (filter (\<lambda>m. month_start y m \<le> d) [2 .. 12]))"

text \<open>\<open>time.Date(y, m, d, 0, 0, 0, 0, UTC)\<close>, with a thirteenth month carried into the next year.\<close>

definition date_ns :: "int \<Rightarrow> int \<Rightarrow> int \<Rightarrow> gotime" where
  "date_ns y m d =
     (let y' = (if m > 12 then y + 1 else y); m' = (if m > 12 then m - 12 else m)
      in (month_start y' m' + d - 1 - epoch_day) * day_ns)"

section \<open>Periods\<close>

datatype period_error = Unknown_period string

definition PeriodFor :: "gotime \<Rightarrow> string \<Rightarrow> period_error + gotime \<times> gotime" where
  "PeriodFor now period =
     (let day = now div day_ns + epoch_day; y = year_of day; m = month_of y day; d = day - month_start y m + 1 in
      if period = ''monthly'' then Inr (date_ns y m 1, date_ns y (m + 1) 1)
      else if period = ''daily'' then Inr (date_ns y m d, date_ns y m d + day_ns)
      else Inl (Unknown_period period))"

section \<open>The calendar is a partition\<close>

lemma div_step: "0 < n \<Longrightarrow> (y + n) div n = (y + (n - 1)) div n + (if y mod n = 0 then 1 else 0)" for n y :: int
proof -
  assume n: "0 < n"
  define q r where "q = y div n" and "r = y mod n"
  have y: "y = n * q + r" "0 \<le> r" "r < n" using n by (simp_all add: q_def r_def)
  have "(y + n) div n = q + 1" using n by (simp add: q_def)
  moreover have "(y + (n - 1)) div n = (if r = 0 then q else q + 1)"
    using y n by (intro div_eqI) (auto simp: algebra_simps)
  ultimately show ?thesis by (auto simp: r_def[symmetric])
qed

lemma leap_count:
  "q \<longrightarrow> p \<Longrightarrow> r \<longrightarrow> q \<Longrightarrow>
     (if p \<and> (\<not> q \<or> r) then 366 else 365)
       = 365 + (if p then 1 else 0) - (if q then 1 else 0) + (if r then 1 else (0::int))"
  by (cases p; cases q; cases r) simp_all

lemma year_start_Suc: "year_start (y + 1) = year_start y + (if leap y then 366 else 365)"
proof -
  have d: "y mod 100 = 0 \<longrightarrow> y mod 4 = 0" "y mod 400 = 0 \<longrightarrow> y mod 100 = 0"
    using dvd_trans[of 4 100 y] dvd_trans[of 100 400 y] by (simp_all only: mod_eq_0_iff_dvd) simp_all
  have "year_start (y + 1) = 365 * (y + 1) + (y + 4) div 4 - (y + 100) div 100 + (y + 400) div 400"
    unfolding year_start_def by (simp only: add.assoc one_plus_numeral semiring_norm)
  also have "\<dots> = 365 * (y + 1) + ((y + (4 - 1)) div 4 + (if y mod 4 = 0 then 1 else 0))
      - ((y + (100 - 1)) div 100 + (if y mod 100 = 0 then 1 else 0)) + ((y + (400 - 1)) div 400 + (if y mod 400 = 0 then 1 else 0))"
    by (subst (1 2 3) div_step) simp_all
  also have "\<dots> = year_start y + (365 + (if y mod 4 = 0 then 1 else 0) - (if y mod 100 = 0 then 1 else 0) + (if y mod 400 = 0 then 1 else 0))"
    unfolding year_start_def by (simp only: algebra_simps) (simp add: add.commute)
  finally show ?thesis unfolding leap_def leap_count[OF d] .
qed

lemma year_start_mono: "y < y' \<Longrightarrow> year_start y < year_start y'"
proof -
  have "0 < year_start (y + int (Suc n)) - year_start y" for n y
  proof (induction n)
    case 0
    then show ?case by (simp add: year_start_Suc)
  next
    case (Suc n)
    have "year_start (y + int (Suc (Suc n))) = year_start ((y + int (Suc n)) + 1)" by (simp add: algebra_simps)
    then show ?case using Suc unfolding year_start_Suc by simp
  qed
  then show "y < y' \<Longrightarrow> year_start y < year_start y'"
    by (metis add.commute diff_gt_0_iff_gt zless_iff_Suc_zadd)
qed

text \<open>The estimate of the year misses by at most one.\<close>

lemma year_of_spec: "year_start (year_of d) \<le> d \<and> d < year_start (year_of d + 1)"
proof -
  define c where "c = (400 * d) div 146097"
  have bounds: "146097 * y - 400 * 3 < 400 * year_start y \<and> 400 * year_start y < 146097 * y + 400 * 3" for y
  proof -
    obtain a b c where abc: "a = (y + 3) div 4" "b = (y + 99) div 100" "c = (y + 399) div 400" by blast
    have "4 * a \<le> y + 3 \<and> y + 3 < 4 * a + 4" "100 * b \<le> y + 99 \<and> y + 99 < 100 * b + 100"
        "400 * c \<le> y + 399 \<and> y + 399 < 400 * c + 400"
      unfolding abc by (rule div_bounds, simp)+
    moreover have "year_start y = 365 * y + a - b + c" unfolding year_start_def abc ..
    ultimately show ?thesis by auto
  qed
  have c: "146097 * c \<le> 400 * d" "400 * d < 146097 * c + 146097"
    unfolding c_def using div_bounds[of 146097 "400 * d"] by simp_all
  have "year_start (c - 1) \<le> d" using bounds[of "c - 1"] c by auto
  moreover have "d < year_start (c + 2)" using bounds[of "c + 2"] c by auto
  ultimately show ?thesis by (auto simp: year_of_def Let_def c_def[symmetric] not_less add.assoc)
qed

lemma year_of_unique: "year_start y \<le> d \<Longrightarrow> d < year_start (y + 1) \<Longrightarrow> year_of d = y"
proof -
  assume a: "year_start y \<le> d" "d < year_start (y + 1)"
  have s: "year_start (year_of d) \<le> d" "d < year_start (year_of d + 1)" using year_of_spec[of d] by auto
  have mono: "u \<le> v \<Longrightarrow> year_start u \<le> year_start v" for u v
    using year_start_mono[of u v] by (cases "u = v") auto
  show "year_of d = y"
  proof (rule ccontr)
    assume "year_of d \<noteq> y"
    then consider "year_of d + 1 \<le> y" | "y + 1 \<le> year_of d" by linarith
    then show False using a s mono by cases fastforce+
  qed
qed

lemma month_start_12: "month_start y 13 = year_start (y + 1)"
  by (simp add: month_start_def year_start_Suc month_days_def upto_rec1)

lemma month_start_1: "month_start y 1 = year_start y"
  by (simp add: month_start_def)

lemma month_start_Suc: "1 \<le> m \<Longrightarrow> month_start y (m + 1) = month_start y m + month_days y m"
  by (simp add: month_start_def upto_rec2[of 1 m])

lemma month_days_pos: "28 \<le> month_days y m"
  by (simp add: month_days_def)

lemma month_start_mono: "1 \<le> m \<Longrightarrow> m \<le> m' \<Longrightarrow> month_start y m \<le> month_start y m'"
proof -
  have "1 \<le> m \<Longrightarrow> month_start y m \<le> month_start y (m + int n)" for n
  proof (induction n)
    case 0
    then show ?case by simp
  next
    case (Suc n)
    have "month_start y (m + int n + 1) = month_start y (m + int n) + month_days y (m + int n)"
      using Suc.prems by (intro month_start_Suc) simp
    then show ?case using Suc month_days_pos[of y "m + int n"] by (simp add: algebra_simps)
  qed
  from this[of "nat (m' - m)"] show "1 \<le> m \<Longrightarrow> m \<le> m' \<Longrightarrow> month_start y m \<le> month_start y m'" by simp
qed

text \<open>The month is the number of month starts passed.\<close>

lemma month_of_spec:
  assumes "year_start y \<le> d" and "d < year_start (y + 1)"
  shows "1 \<le> month_of y d \<and> month_of y d \<le> 12
    \<and> month_start y (month_of y d) \<le> d \<and> d < month_start y (month_of y d + 1)"
proof -
  define M where "M = {m \<in> {1..12}. month_start y m \<le> d}"
  have one: "1 \<in> M" using assms(1) by (simp add: M_def month_start_1)
  have fin: "finite M" by (rule finite_subset[of _ "{1..12}"]) (auto simp: M_def)
  define k where "k = Max M"
  have k: "k \<in> M" "\<And>m. m \<in> M \<Longrightarrow> m \<le> k" unfolding k_def using one fin Max_in[of M] Max_ge[of M] by blast+
  have down: "m \<in> M" if "1 \<le> m" "m \<le> k" for m
    using that k(1) month_start_mono[of m k y] by (auto simp: M_def)
  have "k \<le> 12" using k(1) by (simp add: M_def)
  define L where "L = filter (\<lambda>m. month_start y m \<le> d) [2 .. 12]"
  have "m \<in> set L \<longleftrightarrow> m \<in> {2 .. k}" for m
    unfolding L_def set_filter set_upto using k(2)[of m] down[of m] \<open>k \<le> 12\<close> by (simp add: M_def) linarith
  then have "set L = {2 .. k}" by blast
  moreover have "distinct L" unfolding L_def by (intro distinct_filter distinct_upto)
  ultimately have "length L = card {2 .. k}" using distinct_card[of L] by simp
  moreover have "1 \<le> k" using k(2)[OF one] .
  ultimately have mk: "month_of y d = k" unfolding month_of_def L_def[symmetric] by simp
  have "d < month_start y (k + 1)"
  proof (cases "k = 12")
    case True
    then show ?thesis using assms(2) by (simp add: month_start_12)
  next
    case False
    then have "k \<le> 11" using \<open>k \<le> 12\<close> by linarith
    moreover have "k + 1 \<notin> M" using k(2)[of "k + 1"] by linarith
    ultimately
    show ?thesis using \<open>1 \<le> k\<close> by (simp add: M_def not_le)
  qed
  then show ?thesis using k(1) mk by (simp add: M_def)
qed

lemma month_of_unique:
  assumes "1 \<le> m" "m \<le> 12" "month_start y m \<le> d" "d < month_start y (m + 1)"
  shows "year_of d = y \<and> month_of y d = m"
proof -
  have "year_start y \<le> d" using assms month_start_mono[of 1 m y] by (simp add: month_start_1)
  moreover have "d < year_start (y + 1)" using assms month_start_mono[of "m + 1" 13 y] by (simp add: month_start_12)
  ultimately have y: "year_of d = y" and s: "1 \<le> month_of y d" "month_of y d \<le> 12"
      "month_start y (month_of y d) \<le> d" "d < month_start y (month_of y d + 1)"
    using year_of_unique month_of_spec by blast+
  have "month_of y d = m"
  proof (rule ccontr)
    assume "month_of y d \<noteq> m"
    then consider "month_of y d + 1 \<le> m" | "m + 1 \<le> month_of y d" by linarith
    then show False
      using month_start_mono[of "month_of y d + 1" m y] month_start_mono[of "m + 1" "month_of y d" y] assms s by cases auto
  qed
  then show ?thesis using y by simp
qed

lemma date_next_month: "1 \<le> m \<Longrightarrow> m \<le> 12 \<Longrightarrow> date_ns y (m + 1) 1 = (month_start y (m + 1) - epoch_day) * day_ns"
  by (cases "m = 12") (auto simp: date_ns_def Let_def month_start_12 month_start_1)

lemma day_between:
  "(a - epoch_day) * day_ns \<le> t \<longleftrightarrow> a \<le> t div day_ns + epoch_day"
  "t < (a - epoch_day) * day_ns \<longleftrightarrow> t div day_ns + epoch_day < a"
proof -
  have p: "0 < day_ns" by (simp add: day_ns_def)
  obtain q where q: "q = t div day_ns" by blast
  have b: "day_ns * q \<le> t" "t < day_ns * q + day_ns" unfolding q using div_bounds[OF p] by blast+
  have "x * day_ns \<le> t \<longleftrightarrow> x \<le> q" for x
  proof
    assume "x * day_ns \<le> t"
    then have "x * day_ns < (q + 1) * day_ns" using b(2) by (simp add: algebra_simps)
    then show "x \<le> q" using p by (simp only: mult_less_cancel_right) linarith
  next
    assume "x \<le> q"
    then have "x * day_ns \<le> q * day_ns" using p by (intro mult_right_mono) simp_all
    then show "x * day_ns \<le> t" using b(1) by (simp add: mult.commute)
  qed
  then have *: "(a - epoch_day) * day_ns \<le> t \<longleftrightarrow> a - epoch_day \<le> q" by blast
  then show "(a - epoch_day) * day_ns \<le> t \<longleftrightarrow> a \<le> t div day_ns + epoch_day"
    "t < (a - epoch_day) * day_ns \<longleftrightarrow> t div day_ns + epoch_day < a"
    unfolding q[symmetric] by linarith+
qed

lemma PeriodFor_daily: "PeriodFor now ''daily'' = Inr (now div day_ns * day_ns, now div day_ns * day_ns + day_ns)"
proof -
  define day where "day = now div day_ns + epoch_day"
  have m: "month_of (year_of day) day \<le> 12" using month_of_spec year_of_spec[of day] by blast
  have "date_ns (year_of day) (month_of (year_of day) day) (day - month_start (year_of day) (month_of (year_of day) day) + 1)
      = now div day_ns * day_ns"
    using m by (simp add: date_ns_def Let_def day_def)
  then show ?thesis by (simp add: PeriodFor_def Let_def day_def[symmetric])
qed

text \<open>
  Accounting periods tile time. For a known period name the window returned
  contains the instant asked about, is not empty, and is the window of every instant
  inside it, so that windows never overlap and the next one starts where this one
  ends; any other period name is refused.
\<close>

theorem periods_tile_time:
  "case PeriodFor now period of
     Inl e \<Rightarrow> period \<notin> {''monthly'', ''daily''}
   | Inr (start, end') \<Rightarrow> period \<in> {''monthly'', ''daily''} \<and> start \<le> now \<and> now < end'
       \<and> (\<forall>t. start \<le> t \<and> t < end' \<longleftrightarrow> PeriodFor t period = PeriodFor now period)"
proof (cases "period = ''monthly''")
  case True
  define day y m where "day = now div day_ns + epoch_day" and "y = year_of day" and "m = month_of y day"
  have s: "1 \<le> m" "m \<le> 12" "month_start y m \<le> day" "day < month_start y (m + 1)"
    using month_of_spec year_of_spec[of day] by (auto simp: y_def m_def)
  have P: "PeriodFor now period = Inr ((month_start y m - epoch_day) * day_ns, (month_start y (m + 1) - epoch_day) * day_ns)"
    using True s date_next_month[of m y]
    by (simp add: PeriodFor_def Let_def day_def[symmetric] y_def[symmetric] m_def[symmetric]) (simp add: date_ns_def Let_def)
  have iff: "(month_start y m - epoch_day) * day_ns \<le> t \<and> t < (month_start y (m + 1) - epoch_day) * day_ns
      \<longleftrightarrow> PeriodFor t period = PeriodFor now period" for t
  proof
    assume a: "(month_start y m - epoch_day) * day_ns \<le> t \<and> t < (month_start y (m + 1) - epoch_day) * day_ns"
    then have "year_of (t div day_ns + epoch_day) = y \<and> month_of y (t div day_ns + epoch_day) = m"
      using s(1,2) by (intro month_of_unique) (simp_all add: day_between)
    then show "PeriodFor t period = PeriodFor now period"
      using True P by (simp add: PeriodFor_def Let_def day_def y_def m_def)
  next
    assume e: "PeriodFor t period = PeriodFor now period"
    define dt yt mt where "dt = t div day_ns + epoch_day" and "yt = year_of dt" and "mt = month_of yt dt"
    have st: "1 \<le> mt" "mt \<le> 12" "month_start yt mt \<le> dt" "dt < month_start yt (mt + 1)"
      using month_of_spec year_of_spec[of dt] by (auto simp: yt_def mt_def)
    have "PeriodFor t period = Inr ((month_start yt mt - epoch_day) * day_ns, (month_start yt (mt + 1) - epoch_day) * day_ns)"
      using True st date_next_month[of mt yt]
      by (simp add: PeriodFor_def Let_def dt_def[symmetric] yt_def[symmetric] mt_def[symmetric]) (simp add: date_ns_def Let_def)
    moreover have "day_ns \<noteq> 0" by (simp add: day_ns_def)
    ultimately show "(month_start y m - epoch_day) * day_ns \<le> t \<and> t < (month_start y (m + 1) - epoch_day) * day_ns"
      using e P st(3,4) by (simp add: day_between dt_def)
  qed
  show ?thesis unfolding P using True iff s(3,4) P by (simp add: day_between day_def)
next
  case False
  show ?thesis
  proof (cases "period = ''daily''")
    case True
    have p: "0 < day_ns" by (simp add: day_ns_def)
    have b: "day_ns * (t div day_ns) \<le> t" "t < day_ns * (t div day_ns) + day_ns" for t using div_bounds[OF p] by auto
    have "now div day_ns * day_ns \<le> t \<and> t < now div day_ns * day_ns + day_ns \<longleftrightarrow> t div day_ns = now div day_ns" for t
      using b[of t] div_eqI[OF p, of "now div day_ns" t] by (auto simp: mult.commute)
    then show ?thesis using True b[of now] p
      by (simp add: PeriodFor_daily mult.commute)
  next
    case F2: False
    then show ?thesis using False by (simp add: PeriodFor_def Let_def)
  qed
qed

end
