(* ===== verification/Quantity.thy ===== *)
theory Quantity
  imports Go_Strings
begin

text \<open>
  Kubernetes quantities as TechnoCore reads them (\<open>technocore/kube/quantity.go\<close>) and
  the pod types that use them (\<open>technocore/kube/types.go\<close>, \<open>metrics.go\<close>). The parser
  computes in \<open>float64\<close> and rounds up to whole millicores, so the rounding of each
  floating-point operation is visible in its results: binary64 is modelled here,
  with round-half-even, subnormals and overflow. \<open>strconv.ParseFloat\<close> is the
  parameter \<open>pfloat\<close>.
\<close>

section \<open>Binary64\<close>

text \<open>\<open>Fin m e\<close> is \<open>m * 2 ^ e\<close>; \<open>Neg m e\<close> its negation, for \<open>m\<close> positive.\<close>

datatype gofloat = Fin nat int | Neg nat int | PosInf | NegInf | NaN

fun bitlen :: "nat \<Rightarrow> nat" where
  "bitlen n = (if n = 0 then 0 else Suc (bitlen (n div 2)))"

declare bitlen.simps [simp del]

definition round_shift :: "nat \<Rightarrow> nat \<Rightarrow> nat" where
  "round_shift m k =
     (let q = m div 2 ^ k; r = m mod 2 ^ k; h = 2 ^ (k - 1) in
      if r > h \<or> (r = h \<and> odd q) then q + 1 else q)"

text \<open>The nearest float to \<open>m * 2 ^ e\<close>: 53 bits, no exponent below -1074, infinity from \<open>2 ^ 1024\<close>.\<close>

definition fround :: "nat \<Rightarrow> int \<Rightarrow> gofloat" where
  "fround m e =
     (let k = max (int (bitlen m) - 53) (- 1074 - e);
          q = (if k \<le> 0 then m else round_shift m (nat k));
          e' = (if k \<le> 0 then e else e + k)
      in if int (bitlen q) + e' > 1024 then PosInf else Fin q e')"

definition fneg :: "gofloat \<Rightarrow> gofloat" where
  "fneg f = (case f of Fin m e \<Rightarrow> if m = 0 then Fin 0 e else Neg m e | PosInf \<Rightarrow> NegInf
     | Neg m e \<Rightarrow> Fin m e | NegInf \<Rightarrow> PosInf | NaN \<Rightarrow> NaN)"

text \<open>Multiplication by a positive finite constant, and division by a power of two.\<close>

definition fscale :: "gofloat \<Rightarrow> nat \<times> int \<Rightarrow> gofloat" where
  "fscale f c = (case f of
       Fin m e \<Rightarrow> fround (m * fst c) (e + snd c)
     | Neg m e \<Rightarrow> fneg (fround (m * fst c) (e + snd c))
     | other \<Rightarrow> other)"

text \<open>Addition of two non-negative values.\<close>

definition fadd :: "gofloat \<Rightarrow> gofloat \<Rightarrow> gofloat" where
  "fadd f g = (case (f, g) of
       (Fin m e, Fin n d) \<Rightarrow>
         let b = min e d in fround (m * 2 ^ nat (e - b) + n * 2 ^ nat (d - b)) b
     | (PosInf, _) \<Rightarrow> PosInf
     | (_, PosInf) \<Rightarrow> PosInf
     | _ \<Rightarrow> NaN)"

definition fval :: "gofloat \<Rightarrow> real" where
  "fval f = (case f of Fin m e \<Rightarrow> real m * 2 powr of_int e | _ \<Rightarrow> 0)"

section \<open>Quantities\<close>

datatype quantity_error = Empty_quantity | Unrecognised string | Not_finite string | Negative string | Implausibly_large

definition binarySuffix :: "(string \<times> (nat \<times> int)) list" where
  "binarySuffix = [(''Ki'', (1, 10)), (''Mi'', (1, 20)), (''Gi'', (1, 30)), (''Ti'', (1, 40)), (''Pi'', (1, 50)), (''Ei'', (1, 60))]"

text \<open>The decimal constants as the compiler rounds them: one thousandth is not one thousandth.\<close>

definition decimalSuffix :: "(char \<times> (nat \<times> int)) list" where
  "decimalSuffix =
     [(CHR ''n'', (4835703278458517, - 82)), (CHR ''u'', (4722366482869645, - 72)), (CHR ''m'', (1152921504606847, - 60)),
      (CHR ''k'', (1000, 0)), (CHR ''M'', (10 ^ 6, 0)), (CHR ''G'', (10 ^ 9, 0)), (CHR ''T'', (10 ^ 12, 0)),
      (CHR ''P'', (10 ^ 15, 0)), (CHR ''E'', (3814697265625, 18))]"

definition finite_quantity :: "gofloat \<Rightarrow> string \<Rightarrow> quantity_error + gofloat" where
  "finite_quantity v orig = (case v of
       NaN \<Rightarrow> Inl (Not_finite orig)
     | PosInf \<Rightarrow> Inl (Not_finite orig)
     | NegInf \<Rightarrow> Inl (Not_finite orig)
     | Neg m e \<Rightarrow> Inl (Negative orig)
     | Fin m e \<Rightarrow> Inr (Fin m e))"

definition scale_quantity :: "(string \<Rightarrow> gofloat option) \<Rightarrow> string \<Rightarrow> nat \<times> int \<Rightarrow> string \<Rightarrow> quantity_error + gofloat" where
  "scale_quantity pfloat num mu orig =
     (case pfloat num of None \<Rightarrow> Inl (Unrecognised orig) | Some v \<Rightarrow> finite_quantity (fscale v mu) orig)"

definition ParseQuantity :: "(string \<Rightarrow> gofloat option) \<Rightarrow> string \<Rightarrow> quantity_error + gofloat" where
  "ParseQuantity pfloat s0 =
     (let s = trim_space s0 in
      if s = [] then Inl Empty_quantity
      else case (if length s > 2 then map_of binarySuffix (drop (length s - 2) s) else None) of
          Some mu \<Rightarrow> scale_quantity pfloat (take (length s - 2) s) mu s
        | None \<Rightarrow>
            (case pfloat s of
               Some v \<Rightarrow> finite_quantity v s
             | None \<Rightarrow>
                 (case map_of decimalSuffix (last s) of
                    Some mu \<Rightarrow> scale_quantity pfloat (butlast s) mu s
                  | None \<Rightarrow> Inl (Unrecognised s))))"

text \<open>\<open>math.Ceil\<close> of a non-negative float, exactly.\<close>

definition fceil :: "nat \<Rightarrow> int \<Rightarrow> int" where
  "fceil m e = (if 0 \<le> e then int m * 2 ^ nat e else (int m + 2 ^ nat (- e) - 1) div 2 ^ nat (- e))"

definition ceilInt :: "gofloat \<Rightarrow> quantity_error + int" where
  "ceilInt v = (case v of
       Fin m e \<Rightarrow> if fceil m e > 2 ^ 31 - 1 then Inl Implausibly_large else Inr (fceil m e)
     | _ \<Rightarrow> Inl Implausibly_large)"

definition ParseCPUMilli :: "(string \<Rightarrow> gofloat option) \<Rightarrow> string \<Rightarrow> quantity_error + int" where
  "ParseCPUMilli pfloat s =
     (case ParseQuantity pfloat s of Inl e \<Rightarrow> Inl e | Inr cores \<Rightarrow> ceilInt (fscale cores (1000, 0)))"

definition ParseMemMiB :: "(string \<Rightarrow> gofloat option) \<Rightarrow> string \<Rightarrow> quantity_error + int" where
  "ParseMemMiB pfloat s =
     (case ParseQuantity pfloat s of Inl e \<Rightarrow> Inl e | Inr bytes \<Rightarrow> ceilInt (fscale bytes (1, - 20)))"

section \<open>Pods\<close>

type_synonym labels = "(string \<times> string) list"

record resource_list =
  rl_cpu :: string
  rl_memory :: string

record container =
  ct_name :: string
  ct_requests :: resource_list

record pod_condition =
  pc_type :: string
  pc_status :: string

record pod =
  pod_name :: string
  pod_namespace :: string
  pod_labels :: labels
  pod_containers :: "container list"
  pod_init_containers :: "container list"
  pod_phase :: string
  pod_conditions :: "pod_condition list"

definition Billable :: "pod \<Rightarrow> bool" where
  "Billable p \<longleftrightarrow> pod_phase p = ''Pending'' \<or> pod_phase p = ''Running''"

definition Ready :: "pod \<Rightarrow> bool" where
  "Ready p = (case find (\<lambda>c. pc_type c = ''Ready'') (pod_conditions p) of
     None \<Rightarrow> False | Some c \<Rightarrow> pc_status c = ''True'')"

definition containerRequests :: "(string \<Rightarrow> gofloat option) \<Rightarrow> container \<Rightarrow> quantity_error + int \<times> int" where
  "containerRequests pfloat c =
     (case (if rl_cpu (ct_requests c) \<noteq> [] then ParseCPUMilli pfloat (rl_cpu (ct_requests c)) else Inr 0) of
        Inl e \<Rightarrow> Inl e
      | Inr cpu \<Rightarrow>
          (case (if rl_memory (ct_requests c) \<noteq> [] then ParseMemMiB pfloat (rl_memory (ct_requests c)) else Inr 0) of
             Inl e \<Rightarrow> Inl e
           | Inr mem \<Rightarrow> Inr (cpu, mem)))"

fun requests_loop ::
  "(string \<Rightarrow> gofloat option) \<Rightarrow> (int \<Rightarrow> int \<Rightarrow> int) \<Rightarrow> int \<times> int \<Rightarrow> container list \<Rightarrow> quantity_error + int \<times> int"
where
  "requests_loop pfloat f acc [] = Inr acc"
| "requests_loop pfloat f acc (c # cs) =
     (case containerRequests pfloat c of
        Inl e \<Rightarrow> Inl e
      | Inr (cpu, mem) \<Rightarrow> requests_loop pfloat f (f (fst acc) cpu, f (snd acc) mem) cs)"

definition Requests :: "(string \<Rightarrow> gofloat option) \<Rightarrow> pod \<Rightarrow> quantity_error + int \<times> int" where
  "Requests pfloat p =
     (case requests_loop pfloat (+) (0, 0) (pod_containers p) of
        Inl e \<Rightarrow> Inl e
      | Inr acc \<Rightarrow> requests_loop pfloat max acc (pod_init_containers p))"

text \<open>A nil or empty selector matches nothing; a missing label reads as the empty string.\<close>

definition Matches :: "labels option \<Rightarrow> labels \<Rightarrow> bool" where
  "Matches sel labels = (case sel of
       None \<Rightarrow> False
     | Some m \<Rightarrow> m \<noteq> [] \<and> list_all (\<lambda>(k, v). get_or [] labels k = v) m)"

fun usage_loop ::
  "(string \<Rightarrow> gofloat option) \<Rightarrow> gofloat \<times> gofloat \<Rightarrow> container list \<Rightarrow> quantity_error + gofloat \<times> gofloat"
where
  "usage_loop pfloat acc [] = Inr acc"
| "usage_loop pfloat acc (c # cs) =
     (case (if rl_cpu (ct_requests c) \<noteq> []
            then (case ParseQuantity pfloat (rl_cpu (ct_requests c)) of Inl e \<Rightarrow> Inl e | Inr v \<Rightarrow> Inr (fadd (fst acc) v))
            else Inr (fst acc)) of
        Inl e \<Rightarrow> Inl e
      | Inr cores \<Rightarrow>
          (case (if rl_memory (ct_requests c) \<noteq> []
                 then (case ParseQuantity pfloat (rl_memory (ct_requests c)) of Inl e \<Rightarrow> Inl e | Inr v \<Rightarrow> Inr (fadd (snd acc) v))
                 else Inr (snd acc)) of
             Inl e \<Rightarrow> Inl e
           | Inr bytes \<Rightarrow> usage_loop pfloat (cores, bytes) cs))"

definition Usage :: "(string \<Rightarrow> gofloat option) \<Rightarrow> container list \<Rightarrow> quantity_error + int \<times> int" where
  "Usage pfloat cs =
     (case usage_loop pfloat (Fin 0 0, Fin 0 0) cs of
        Inl e \<Rightarrow> Inl e
      | Inr (cores, bytes) \<Rightarrow>
          (case ceilInt (fscale cores (1000, 0)) of
             Inl e \<Rightarrow> Inl e
           | Inr cpu \<Rightarrow> (case ceilInt (fscale bytes (1, - 20)) of Inl e \<Rightarrow> Inl e | Inr mem \<Rightarrow> Inr (cpu, mem))))"

section \<open>Rounding\<close>

lemma bitlen_bounds: "0 < n \<Longrightarrow> 2 ^ (bitlen n - 1) \<le> n \<and> n < 2 ^ bitlen n \<and> 0 < bitlen n"
proof (induction n rule: bitlen.induct)
  case (1 n)
  have b: "bitlen n = Suc (bitlen (n div 2))" using 1 by (subst bitlen.simps) simp
  show ?case
  proof (cases "n div 2 = 0")
    case True
    then have "n = 1" using 1 by auto
    then show ?thesis using b by (simp add: bitlen.simps)
  next
    case False
    then have IH: "2 ^ (bitlen (n div 2) - 1) \<le> n div 2" "n div 2 < 2 ^ bitlen (n div 2)" "0 < bitlen (n div 2)"
      using 1 by auto
    obtain j where j: "bitlen (n div 2) = Suc j" using IH(3) by (cases "bitlen (n div 2)") auto
    then have "2 ^ j \<le> n div 2" "n div 2 < 2 * 2 ^ j" using IH by auto
    then show ?thesis using b j by auto
  qed
qed

lemma bitlen_0 [simp]: "bitlen 0 = 0"
  by (simp add: bitlen.simps)

lemma bitlen_le: "n < 2 ^ j \<Longrightarrow> bitlen n \<le> j"
proof (cases "n = 0")
  case False
  assume "n < 2 ^ j"
  then have "2 ^ (bitlen n - 1) < (2::nat) ^ j" using bitlen_bounds[of n] False by linarith
  then have "bitlen n - 1 < j" by simp
  then show ?thesis using bitlen_bounds[of n] False by simp
qed simp

text \<open>Rounding to a multiple moves a number by at most half of it.\<close>

lemma round_shift_error:
  assumes "0 < k"
  shows "2 * \<bar>int (round_shift m k) * 2 ^ k - int m\<bar> \<le> 2 ^ k"
proof -
  define q r h :: nat where "q = m div 2 ^ k" and "r = m mod 2 ^ k" and "h = 2 ^ (k - 1)"
  define P :: int where "P = 2 ^ k"
  have "m = q * 2 ^ k + r" unfolding q_def r_def by (rule div_mult_mod_eq[symmetric])
  then have "int m = int (q * 2 ^ k + r)" by simp
  then have m: "int m = int q * P + int r" by (simp add: P_def)
  have "r < 2 ^ k" by (simp add: r_def)
  then have "int r < int (2 ^ k)" by (simp only: of_nat_less_iff)
  then have r: "int r < P" by (simp add: P_def)
  have h: "2 * int h = P" using assms by (cases k) (simp_all add: h_def P_def)
  have s: "round_shift m k = (if r > h \<or> (r = h \<and> odd q) then q + 1 else q)"
    by (simp add: round_shift_def Let_def q_def r_def h_def)
  have "2 * \<bar>int (round_shift m k) * P - int m\<bar> \<le> P"
  proof (cases "r > h \<or> (r = h \<and> odd q)")
    case True
    then have "int r \<ge> int h" and "round_shift m k = q + 1" using s by auto
    moreover from this have "int (round_shift m k) * P - int m = P - int r" using m by (simp add: algebra_simps)
    ultimately show ?thesis using r h by simp
  next
    case False
    then have "int r \<le> int h" and "round_shift m k = q" using s by auto
    moreover from this have "int (round_shift m k) * P - int m = - int r" using m by simp
    ultimately show ?thesis using h by simp
  qed
  then show ?thesis by (simp add: P_def)
qed

text \<open>In the normal range a result is within one part in \<open>2 ^ 53\<close> of the exact one.\<close>

lemma fround_exact:
  assumes "bitlen m \<le> 53" and "- 1074 \<le> e" and "int (bitlen m) + e \<le> 1024"
  shows "fround m e = Fin m e"
  using assms by (simp add: fround_def Let_def)

lemma half_abs: "2 * \<bar>x\<bar> \<le> y \<Longrightarrow> x \<le> (y :: real)"
  by linarith

lemma fround_long:
  assumes "bitlen m = k + 53" and "0 < k" and "- 1074 \<le> e" and "int (bitlen m) + e \<le> 1023"
  shows "fround m e = Fin (round_shift m k) (e + int k)
    \<and> \<bar>real (round_shift m k) * 2 ^ k - real m\<bar> \<le> real m / 2 ^ 53 \<and> bitlen (round_shift m k) \<le> 54"
proof -
  define q where "q = round_shift m k"
  have "0 < m" using assms(1) by (cases "m = 0") auto
  then have "2 ^ (k + 52) \<le> m" "m < 2 ^ (k + 53)" using bitlen_bounds[of m] assms(1) by (auto simp: add.commute)
  then have "real (2 ^ (k + 52)) \<le> real m" "real m < real (2 ^ (k + 53))" by (simp_all only: of_nat_le_iff of_nat_less_iff)
  then have mb: "2 ^ k * 2 ^ 52 \<le> real m" "real m < 2 ^ k * 2 ^ 53" by (simp_all add: power_add)
  have "real_of_int (2 * \<bar>int q * 2 ^ k - int m\<bar>) \<le> real_of_int (2 ^ k)"
    using round_shift_error[OF assms(2), of m] by (simp only: of_int_le_iff q_def)
  then have err: "2 * \<bar>real q * 2 ^ k - real m\<bar> \<le> 2 ^ k" by simp
  have rel: "\<bar>real q * 2 ^ k - real m\<bar> \<le> real m / 2 ^ 53" using err mb(1) by simp
  have "real q * 2 ^ k - real m \<le> 2 ^ k"  using err by (rule half_abs)
  moreover have "real m < 9007199254740992 * 2 ^ k" using mb(2) by simp
  ultimately have "real q * 2 ^ k < 9007199254740993 * 2 ^ k" by linarith
  then have "real q < 9007199254740993" by (rule mult_right_less_imp_less) simp
  then have "q < 2 ^ 54" by simp
  then have bq: "bitlen q \<le> 54" by (rule bitlen_le)
  have "fround m e = Fin q (e + int k)"
    using assms bq by (simp add: fround_def Let_def q_def[symmetric])
  then show ?thesis using rel bq by (simp add: q_def)
qed

lemma fround_by_shift:
  assumes "2 ^ (k + 52) \<le> m" and "m < 2 ^ (k + 53)" and "0 < k" and "- 1074 \<le> e" and "int (k + 53) + e \<le> 1023"
  shows "fround m e = Fin (round_shift m k) (e + int k)"
proof -
  have pos: "0 < m" using assms(1) by (meson less_le_trans zero_less_numeral zero_less_power)
  have "bitlen m \<le> k + 53" using bitlen_le[OF assms(2)] .
  moreover have "(2::nat) ^ (k + 52) < 2 ^ bitlen m" using assms(1) bitlen_bounds[OF pos] by linarith
  then have "k + 52 < bitlen m" by simp
  ultimately have "bitlen m = k + 53" by simp
  then show ?thesis using fround_long[of m k e] assms by simp
qed

lemma fround_relative:
  assumes "0 < m" and "- 1074 \<le> e" and "int (bitlen m) + e \<le> 1023"
  shows "\<exists>q e'. fround m e = Fin q e' \<and> e \<le> e' \<and> int (bitlen q) + e' \<le> int (bitlen m) + e + 1
    \<and> \<bar>real q * 2 powr of_int e' - real m * 2 powr of_int e\<bar> \<le> real m * 2 powr of_int e / 2 ^ 53"
proof (cases "bitlen m \<le> 53")
  case True
  then show ?thesis using assms fround_exact[of m e] by (intro exI[of _ m] exI[of _ e]) simp
next
  case False
  then obtain k where k: "bitlen m = k + 53" "0 < k" by (metis add.commute le_add_diff_inverse nat_le_linear zero_less_diff not_le)
  let ?q = "round_shift m k"
  note L = fround_long[OF k assms(2,3)]
  have "\<bar>real ?q * 2 ^ k - real m\<bar> * 2 powr of_int e \<le> real m / 2 ^ 53 * 2 powr of_int e"
    using L by (intro mult_right_mono) simp_all
  moreover have "(2::real) powr of_int (e + int k) = 2 ^ k * 2 powr of_int e"
    by (simp add: powr_add powr_realpow mult.commute)
  then have "real ?q * 2 powr of_int (e + int k) - real m * 2 powr of_int e = (real ?q * 2 ^ k - real m) * 2 powr of_int e"
    by (simp add: algebra_simps)
  then have "\<bar>real ?q * 2 powr of_int (e + int k) - real m * 2 powr of_int e\<bar> = \<bar>real ?q * 2 ^ k - real m\<bar> * 2 powr of_int e"
    by (simp add: abs_mult)
  ultimately show ?thesis using L k assms(3) by (intro exI[of _ ?q] exI[of _ "e + int k"]) simp
qed

lemma fceil_ceiling: "fceil m e = \<lceil>real m * 2 powr of_int e\<rceil>"
proof (cases "0 \<le> e")
  case True
  then have "real m * 2 powr of_int e = of_int (int m * 2 ^ nat e)" by (simp add: powr_int)
  then show ?thesis using True by (simp only: fceil_def ceiling_of_int if_True)
next
  case False
  define P :: int where "P = 2 ^ nat (- e)"
  have P: "0 < P" by (simp add: P_def)
  have "real m * 2 powr of_int e = of_int (int m) / of_int P"
    using False by (simp add: P_def powr_int power_inverse divide_inverse)
  moreover have "\<lceil>of_int (int m) / real_of_int P\<rceil> = (int m + P - 1) div P"
  proof -
    define d where "d = (int m + P - 1) div P"
    have "int m + P - 1 = d * P + (int m + P - 1) mod P" unfolding d_def by (rule div_mult_mod_eq[symmetric])
    moreover have "0 \<le> (int m + P - 1) mod P" "(int m + P - 1) mod P < P" using P by simp_all
    ultimately have "d * P \<le> int m + P - 1" "int m + P - 1 < d * P + P" by linarith+
    then have "real_of_int (d * P) \<le> real_of_int (int m + P - 1)" "real_of_int (int m) \<le> real_of_int (d * P)"
      by (simp_all only: of_int_le_iff)
    then have "(of_int d - 1) * real_of_int P < of_int (int m)" "of_int (int m) \<le> of_int d * real_of_int P"
      by (simp_all add: algebra_simps)
    then have "of_int d - 1 < of_int (int m) / real_of_int P" "of_int (int m) / real_of_int P \<le> of_int d"
      using P by (simp_all add: pos_less_divide_eq pos_divide_le_eq)
    then show ?thesis unfolding d_def[symmetric] by (intro ceiling_unique)
  qed
  ultimately show ?thesis using False by (simp add: fceil_def P_def)
qed

section \<open>What the parser returns\<close>

lemma decimal_visible: "c \<in> set (decimal n) \<Longrightarrow> 48 \<le> byte_val c \<and> byte_val c \<le> 57"
  using decimal_digits[of c n] by (simp add: digit09_iff)

lemma trim_decimal_suffix:
  assumes "s \<noteq> []" and "32 < byte_val (last s)" and "byte_val (last s) < 128"
  shows "trim_space (decimal n @ s) = decimal n @ s"
proof (rule trim_space_visible)
  have "hd (decimal n) \<in> set (decimal n)" using decimal_nonempty by simp
  then show "32 < byte_val (hd (decimal n @ s))" "byte_val (hd (decimal n @ s)) < 128"
    using decimal_visible[of "hd (decimal n)" n] decimal_nonempty[of n] by simp_all
qed (use assms decimal_nonempty in auto)

lemma bitlen_small: "n < 2 ^ 20 \<Longrightarrow> bitlen n \<le> 20"
  by (rule bitlen_le)

text \<open>\<open>n\<close> millicores, spelled as the manifests spell them.\<close>

lemma ParseQuantity_milli:
  assumes "pfloat (decimal n) = Some (Fin n 0)" and "pfloat (decimal n @ ''m'') = None"
  shows "ParseQuantity pfloat (decimal n @ ''m'') = finite_quantity (fround (n * 1152921504606847) (- 60)) (decimal n @ ''m'')"
proof -
  let ?s = "decimal n @ ''m''"
  have t: "trim_space ?s = ?s" by (rule trim_decimal_suffix) (simp_all add: byte_val_def)
  have "map_of binarySuffix (drop (length ?s - 2) ?s) = None"
  proof -
    have "drop (length ?s - 2) ?s = drop (length (decimal n) - 1) (decimal n) @ ''m''" by simp
    moreover have "drop (length (decimal n) - 1) (decimal n) = [last (decimal n)]"
      using decimal_nonempty[of n] by (metis append_butlast_last_id append_eq_conv_conj length_butlast)
    ultimately show ?thesis by (simp add: binarySuffix_def)
  qed
  moreover have "map_of decimalSuffix (CHR ''m'') = Some (1152921504606847, - 60)" by (simp add: decimalSuffix_def)
  ultimately show ?thesis
    using t assms by (simp add: ParseQuantity_def Let_def scale_quantity_def fscale_def)
qed

lemma ParseQuantity_mebi:
  assumes "pfloat (decimal n) = Some (Fin n 0)" and "n < 2 ^ 31"
  shows "ParseQuantity pfloat (decimal n @ ''Mi'') = Inr (Fin n 20)"
proof -
  let ?s = "decimal n @ ''Mi''"
  have t: "trim_space ?s = ?s" by (rule trim_decimal_suffix) (simp_all add: byte_val_def)
  have "length ?s > 2" using decimal_nonempty[of n] by simp
  moreover have "map_of binarySuffix ''Mi'' = Some (1, 20)" by (simp add: binarySuffix_def)
  moreover have "fround n 20 = Fin n 20" using bitlen_le[OF assms(2)] by (intro fround_exact) simp_all
  ultimately show ?thesis
    using t assms(1) by (simp add: ParseQuantity_def Let_def scale_quantity_def fscale_def finite_quantity_def)
qed

lemma close_to_integer:
  fixes w :: real
  assumes "\<bar>w - real n\<bar> < 1"
  shows "\<lceil>w\<rceil> = int n \<or> \<lceil>w\<rceil> = int n + 1"
  using assms by linarith

text \<open>
  Reading a reservation. Memory written in whole mebibytes is read exactly. A CPU
  request written in millicores is read as that number or one more: rounding up
  never loses a millicore, and the floating-point route to it adds at most one.
\<close>

theorem quantities_round_up_by_at_most_one:
  assumes "pfloat (decimal n) = Some (Fin n 0)" and "pfloat (decimal n @ ''m'') = None" and "n < 2 ^ 20"
  shows "ParseMemMiB pfloat (decimal n @ ''Mi'') = Inr (int n)
    \<and> (ParseCPUMilli pfloat (decimal n @ ''m'') = Inr (int n) \<or> ParseCPUMilli pfloat (decimal n @ ''m'') = Inr (int n + 1))"
proof
  have "fround n 0 = Fin n 0" using bitlen_small[OF assms(3)] by (intro fround_exact) simp_all
  moreover have "fceil n 0 = int n" by (simp add: fceil_def)
  ultimately show "ParseMemMiB pfloat (decimal n @ ''Mi'') = Inr (int n)"
    using ParseQuantity_mebi[of pfloat n] assms(1,3) by (simp add: ParseMemMiB_def fscale_def ceilInt_def)
  show "ParseCPUMilli pfloat (decimal n @ ''m'') = Inr (int n) \<or> ParseCPUMilli pfloat (decimal n @ ''m'') = Inr (int n + 1)"
  proof (cases "n = 0")
    case True
    then show ?thesis using ParseQuantity_milli[of pfloat n, OF assms(1,2)]
      by (simp add: ParseCPUMilli_def finite_quantity_def fround_def fscale_def ceilInt_def fceil_def)
  next
    case False
    define c :: nat where "c = 1152921504606847"
    have nc: "0 < n * c" "n * c < 2 ^ 71" using False assms(3) by (simp_all add: c_def)
    have b1: "bitlen (n * c) \<le> 71" using bitlen_le[OF nc(2)] .
    obtain q e where q: "fround (n * c) (- 60) = Fin q e" "- 60 \<le> e" "int (bitlen q) + e \<le> int (bitlen (n * c)) - 59"
      and qe: "\<bar>real q * 2 powr of_int e - real (n * c) * 2 powr (- 60)\<bar> \<le> real (n * c) * 2 powr (- 60) / 2 ^ 53"
      using fround_relative[OF nc(1), of "- 60"] b1 by auto
    define v where "v = real q * 2 powr of_int e"
    define x where "x = real n * (1152921504606847 / 2 ^ 60)"
    have p60: "(2::real) powr (- 60) = 1 / 2 ^ 60" by (simp add: powr_minus_divide powr_numeral flip: powr_realpow)
    have "\<bar>v - x\<bar> \<le> x / 9007199254740992"
      using qe by (simp add: v_def x_def c_def p60)
    then have v: "v \<le> x + x / 9007199254740992" "x - x / 9007199254740992 \<le> v" by linarith+
    have xr: "real n \<le> 1000 * x" "1000 * x \<le> real n + real n / 36028797018963968"
      by (simp_all add: x_def field_simps)
    have npos: "1 \<le> real n" "real n \<le> 1048576" using False assms(3) by (simp_all add: Suc_le_eq)
    have vpos: "0 < v" using v xr npos by linarith
    have q0: "0 < q" using vpos by (cases "q = 0") (simp_all add: v_def)
    have "q < 2 ^ bitlen q" using bitlen_bounds[OF q0] by simp
    then have "q * 1000 < 2 ^ (bitlen q + 10)" by (simp add: power_add)
    then have "bitlen (q * 1000) \<le> bitlen q + 10" by (rule bitlen_le)
    then have bq: "int (bitlen (q * 1000)) + e \<le> 1023" using q(3) b1 by linarith
    obtain q2 e2 where w: "fround (q * 1000) e = Fin q2 e2"
      and we: "\<bar>real q2 * 2 powr of_int e2 - real (q * 1000) * 2 powr of_int e\<bar> \<le> real (q * 1000) * 2 powr of_int e / 2 ^ 53"
      using fround_relative[of "q * 1000" e] q0 q(2) bq by auto
    define w' where "w' = real q2 * 2 powr of_int e2"
    have "\<bar>w' - 1000 * v\<bar> \<le> 1000 * v / 9007199254740992"
      using we by (simp add: w'_def v_def mult.assoc mult.left_commute)
    then have "w' \<le> 1000 * v + 1000 * v / 9007199254740992" "1000 * v - 1000 * v / 9007199254740992 \<le> w'" by linarith+
    then have "\<bar>w' - real n\<bar> < 1" using v xr npos by linarith
    then have "fceil q2 e2 = int n \<or> fceil q2 e2 = int n + 1"
      using close_to_integer by (simp add: fceil_ceiling w'_def)
    then show ?thesis
      using ParseQuantity_milli[of pfloat n, OF assms(1,2)] q(1) w assms(3)
      by (auto simp: ParseCPUMilli_def finite_quantity_def fscale_def ceilInt_def c_def)
  qed
qed

text \<open>A decimal reader for plain digits, the case the spellings here need.\<close>

definition digits_float :: "string \<Rightarrow> gofloat option" where
  "digits_float s = map_option (\<lambda>n. Fin n 0) (parse_digits s)"

theorem quantities_round_up_by_at_most_one_witness:
  "ParseMemMiB digits_float (decimal 512 @ ''Mi'') = Inr 512"
proof -
  have "digits_float (decimal 512) = Some (Fin 512 0)" "digits_float (decimal 512 @ ''m'') = None" by code_simp+
  from quantities_round_up_by_at_most_one[OF this] show ?thesis by simp
qed

text \<open>
  The extra millicore is real: \<open>52m\<close> is read as 53 and \<open>9m\<close> as 10, since the
  nearest double to one thousandth is above it and the product with a thousand does
  not round back. A reservation of 52 millicores the kernel itself writes is
  therefore read back as a different one.
\<close>

theorem milli_cpu_reads_one_more:
  assumes "pfloat ''52'' = Some (Fin 52 0)" and "pfloat ''52m'' = None"
    and "pfloat ''9'' = Some (Fin 9 0)" and "pfloat ''9m'' = None"
  shows "ParseCPUMilli pfloat ''52m'' = Inr 53 \<and> ParseCPUMilli pfloat ''9m'' = Inr 10"
proof -
  have d: "decimal 52 = ''52''" "decimal 9 = ''9''" by code_simp+
  have f: "fround (52 * 1152921504606847) (- 60) = Fin 7493989779944506 (- 57)"
      "fround (7493989779944506 * 1000) (- 57) = Fin 7318349394477057 (- 47)"
      "fround (9 * 1152921504606847) (- 60) = Fin 5188146770730812 (- 59)"
      "fround (5188146770730812 * 1000) (- 59) = Fin 5066549580791809 (- 49)"
      "fceil 7318349394477057 (- 47) = 53" "fceil 5066549580791809 (- 49) = 10"
    using fround_by_shift[of 3 "52 * 1152921504606847" "- 60"] fround_by_shift[of 10 "7493989779944506 * 1000" "- 57"]
      fround_by_shift[of 1 "9 * 1152921504606847" "- 60"] fround_by_shift[of 10 "5188146770730812 * 1000" "- 59"]
    by (simp_all add: round_shift_def fceil_def)
  show ?thesis
    using ParseQuantity_milli[of pfloat 52] ParseQuantity_milli[of pfloat 9] assms d f
    by (simp add: ParseCPUMilli_def finite_quantity_def fscale_def ceilInt_def)
qed

theorem milli_cpu_reads_one_more_witness:
  "ParseCPUMilli digits_float ''52m'' = Inr 53"
proof -
  have "digits_float ''52'' = Some (Fin 52 0)" "digits_float ''52m'' = None"
    "digits_float ''9'' = Some (Fin 9 0)" "digits_float ''9m'' = None" by code_simp+
  from milli_cpu_reads_one_more[OF this] show ?thesis by blast
qed

end
