(* ===== verification/Pricing.thy ===== *)
theory Pricing
  imports Prelude Quantity
begin

text \<open>
  What the kernel knows of a workload before it meters it: its tier
  (\<open>technocore/tier/tier.go\<close>), which decides whether a cost shutdown may stop it, and the
  rate card that turns requests into money (\<open>technocore/pricing/pricing.go\<close>). Prices are
  exact reals where the code has float64.
\<close>

section \<open>Tiers\<close>

definition tier_label :: string where
  "tier_label = ''farcast.sofmon.com/tier''"

datatype tier = Kernel_tier | System_tier | App_tier | Unknown_tier

text \<open>\<open>labels[Label]\<close> reads the empty string where the label is absent.\<close>

definition Of :: "labels \<Rightarrow> tier" where
  "Of labels =
     (let t = get_or '''' labels tier_label in
      if t = ''kernel'' then Kernel_tier
      else if t = ''system'' then System_tier
      else if t = ''app'' then App_tier
      else Unknown_tier)"

definition Stoppable :: "tier \<Rightarrow> bool" where
  "Stoppable t \<longleftrightarrow> t = App_tier"

fun Rank :: "tier \<Rightarrow> nat" where
  "Rank App_tier = 0"
| "Rank Unknown_tier = 1"
| "Rank System_tier = 2"
| "Rank Kernel_tier = 3"

definition Valid_tier :: "tier \<Rightarrow> bool" where
  "Valid_tier t \<longleftrightarrow> t = Kernel_tier \<or> t = System_tier \<or> t = App_tier"

section \<open>The rate card\<close>

definition VCPUHourUSD :: real where "VCPUHourUSD = 445 / 10000"
definition GiBHourUSD :: real where "GiBHourUSD = 49 / 10000"
definition HoursPerMonth :: real where "HoursPerMonth = 730"

definition BurstingMinCPUMilli :: int where "BurstingMinCPUMilli = 50"
definition BurstingMinMemMiB :: int where "BurstingMinMemMiB = 52"
definition NoBurstingMinCPUMilli :: int where "NoBurstingMinCPUMilli = 250"
definition NoBurstingMinMemMiB :: int where "NoBurstingMinMemMiB = 512"

lemmas rate_card_defs = VCPUHourUSD_def GiBHourUSD_def HoursPerMonth_def
  BurstingMinCPUMilli_def BurstingMinMemMiB_def NoBurstingMinCPUMilli_def NoBurstingMinMemMiB_def

definition podMonthlyUSD :: "int \<Rightarrow> int \<Rightarrow> int \<Rightarrow> int \<Rightarrow> real" where
  "podMonthlyUSD cpuMilli memMiB minCPUMilli minMemMiB =
     (let cpu = (if cpuMilli < minCPUMilli then minCPUMilli else cpuMilli);
          mem = (if memMiB < minMemMiB then minMemMiB else memMiB) in
      if cpu < 0 \<or> mem < 0 then 0
      else (of_int cpu / 1000 * VCPUHourUSD + of_int mem / 1024 * GiBHourUSD) * HoursPerMonth)"

definition PodMonthlyUSD :: "int \<Rightarrow> int \<Rightarrow> real" where
  "PodMonthlyUSD cpuMilli memMiB = podMonthlyUSD cpuMilli memMiB BurstingMinCPUMilli BurstingMinMemMiB"

definition PodMonthlyUSDNoBursting :: "int \<Rightarrow> int \<Rightarrow> real" where
  "PodMonthlyUSDNoBursting cpuMilli memMiB =
     podMonthlyUSD cpuMilli memMiB NoBurstingMinCPUMilli NoBurstingMinMemMiB"

definition PodHourlyUSD :: "int \<Rightarrow> int \<Rightarrow> real" where
  "PodHourlyUSD cpuMilli memMiB = PodMonthlyUSD cpuMilli memMiB / HoursPerMonth"

definition WorkloadMonthlyUSD :: "int \<Rightarrow> int \<Rightarrow> int \<Rightarrow> real" where
  "WorkloadMonthlyUSD replicas cpuMilli memMiB =
     (if replicas \<le> 0 then 0 else of_int replicas * PodMonthlyUSD cpuMilli memMiB)"

definition MarginalReplicaMonthlyUSD :: "int \<Rightarrow> int \<Rightarrow> real" where
  "MarginalReplicaMonthlyUSD cpuMilli memMiB = PodMonthlyUSD cpuMilli memMiB"

section \<open>Facts\<close>

lemma Stoppable_Of: "Stoppable (Of labels) \<longleftrightarrow> map_of labels tier_label = Some ''app''"
  by (auto simp: Stoppable_def Of_def Let_def get_or_def split: option.splits)

lemma Rank_stoppable_first: "Stoppable t \<Longrightarrow> \<not> Stoppable u \<Longrightarrow> Rank t < Rank u"
  by (cases u) (simp_all add: Stoppable_def)

lemma PodHourlyUSD_closed:
  "PodHourlyUSD cpu mem = of_int (max cpu 50) * 445 / 10000000 + of_int (max mem 52) * 49 / 10240000"
  by (auto simp: PodHourlyUSD_def PodMonthlyUSD_def podMonthlyUSD_def rate_card_defs max_def)

text \<open>No pod is free: the floor is billed whatever is requested.\<close>

lemma PodHourlyUSD_floor: "PodHourlyUSD 50 52 \<le> PodHourlyUSD cpu mem"
  unfolding PodHourlyUSD_closed by (simp add: max_def)

lemma PodHourlyUSD_pos: "0 < PodHourlyUSD cpu mem"
  by (rule less_le_trans[OF _ PodHourlyUSD_floor]) (simp add: PodHourlyUSD_closed)

lemma PodHourlyUSD_mono: "c \<le> c' \<Longrightarrow> m \<le> m' \<Longrightarrow> PodHourlyUSD c m \<le> PodHourlyUSD c' m'"
  unfolding PodHourlyUSD_closed by (intro add_mono divide_right_mono mult_right_mono) (auto simp: max_def)

text \<open>The two clusters' prices bracket a pod, and meet once both floors are cleared.\<close>

lemma bursting_range:
  "PodMonthlyUSD c m \<le> PodMonthlyUSDNoBursting c m"
  "250 \<le> c \<Longrightarrow> 512 \<le> m \<Longrightarrow> PodMonthlyUSDNoBursting c m = PodMonthlyUSD c m"
  by (auto simp: PodMonthlyUSD_def PodMonthlyUSDNoBursting_def podMonthlyUSD_def rate_card_defs Let_def)

lemma marginal_replica:
  "0 \<le> n \<Longrightarrow> WorkloadMonthlyUSD (n + 1) c m = WorkloadMonthlyUSD n c m + MarginalReplicaMonthlyUSD c m"
  by (auto simp: WorkloadMonthlyUSD_def MarginalReplicaMonthlyUSD_def algebra_simps)

end
