(* ===== verification/Usage.thy ===== *)
theory Usage
  imports Prelude Quantity
begin

text \<open>
  The rolling picture of what applications use (\<open>technocore/usage\<close>): bucketed
  histograms, hourly series of them, and the store of profiles with its byte budget.
  Counters are naturals where the code has uint64, and the quantile's rank is computed in
  exact reals where the code has float64. The encoder's output size is a parameter.
\<close>

section \<open>Buckets\<close>

definition MaxSample :: int where "MaxSample = 2 ^ 24"
definition subBits :: nat where "subBits = 4"
definition subCount :: int where "subCount = 16"
definition exact :: int where "exact = 32"

definition clampSample :: "int \<Rightarrow> int" where
  "clampSample v = (let v = (if v < 0 then 0 else v) in if MaxSample < v then MaxSample else v)"

definition bucketOf :: "int \<Rightarrow> int" where
  "bucketOf v0 =
     (let v = clampSample v0 in
      if v < exact then v
      else
        let mag = bitlen (nat v) - 1;
            sub = v div 2 ^ (mag - subBits) - subCount
        in exact + int (mag - subBits - 1) * subCount + sub)"

definition numBuckets :: int where
  "numBuckets = bucketOf MaxSample + 1"

definition upperBound :: "int \<Rightarrow> int" where
  "upperBound i =
     (if i < exact then i
      else
        let j = i - exact;
            mag = subBits + 1 + nat (j div subCount);
            sub = j mod subCount
        in (subCount + sub + 1) * 2 ^ (mag - subBits) - 1)"

section \<open>Histograms\<close>

record histogram =
  h_counts :: "(int \<times> nat) list"
  h_n :: nat
  h_sum :: nat
  h_peak :: int

definition empty_histogram :: histogram where
  "empty_histogram = \<lparr>h_counts = [], h_n = 0, h_sum = 0, h_peak = 0\<rparr>"

definition hist_Sample :: "int \<Rightarrow> histogram \<Rightarrow> histogram" where
  "hist_Sample v0 h =
     (let v = clampSample v0 in
      \<lparr>h_counts = add_at (bucketOf v) 1 (h_counts h), h_n = h_n h + 1, h_sum = h_sum h + nat v,
       h_peak = (if h_peak h < v then v else h_peak h)\<rparr>)"

definition Mean :: "histogram \<Rightarrow> real" where
  "Mean h = (if h_n h = 0 then 0 else real (h_sum h) / real (h_n h))"

fun quantile_loop :: "histogram \<Rightarrow> nat \<Rightarrow> nat \<Rightarrow> int list \<Rightarrow> int" where
  "quantile_loop h rank seen [] = h_peak h"
| "quantile_loop h rank seen (i # is) =
     (let seen' = seen + get_or 0 (h_counts h) i in
      if rank \<le> seen' then min (upperBound i) (h_peak h) else quantile_loop h rank seen' is)"

definition quantile_rank :: "nat \<Rightarrow> real \<Rightarrow> nat" where
  "quantile_rank n q0 =
     (let q = (if q0 \<le> 0 then 0 else q0); q = (if 1 < q then 1 else q);
          rank = nat \<lfloor>real n * q + 1 / 2\<rfloor>;
          rank = (if rank = 0 then 1 else rank)
      in if n < rank then n else rank)"

definition Quantile :: "histogram \<Rightarrow> real \<Rightarrow> int" where
  "Quantile h q =
     (if h_n h = 0 then 0 else quantile_loop h (quantile_rank (h_n h) q) 0 [0 .. numBuckets - 1])"

definition hist_Merge :: "histogram \<Rightarrow> histogram \<Rightarrow> histogram" where
  "hist_Merge h o' =
     (if h_n o' = 0 then h
      else \<lparr>h_counts = foldl (\<lambda>m (b, c). add_at b c m) (h_counts h) (h_counts o'),
            h_n = h_n h + h_n o', h_sum = h_sum h + h_sum o',
            h_peak = (if h_peak h < h_peak o' then h_peak o' else h_peak h)\<rparr>)"

text \<open>The encoded form; the JSON text around it is the library's.\<close>

record wire_histogram =
  w_N :: nat
  w_Sum :: nat
  w_Peak :: int
  w_B :: "(string \<times> nat) list"

definition hist_marshal :: "histogram \<Rightarrow> wire_histogram" where
  "hist_marshal h = \<lparr>w_N = h_n h, w_Sum = h_sum h, w_Peak = h_peak h,
     w_B = map (\<lambda>(b, c). (format_int b, c)) (h_counts h)\<rparr>"

datatype usage_error = Bucket_not_number string | Bucket_outside int | Usage_version int | Usage_encode

fun unmarshal_buckets :: "(string \<times> nat) list \<Rightarrow> (int \<times> nat) list \<Rightarrow> usage_error + (int \<times> nat) list" where
  "unmarshal_buckets [] m = Inr m"
| "unmarshal_buckets ((k, c) # kcs) m =
     (case parse_int64 k of
        None \<Rightarrow> Inl (Bucket_not_number k)
      | Some i \<Rightarrow> if i < 0 \<or> numBuckets \<le> i then Inl (Bucket_outside i)
          else unmarshal_buckets kcs (AList.update i c m))"

definition hist_unmarshal :: "wire_histogram \<Rightarrow> usage_error + histogram" where
  "hist_unmarshal w =
     (case unmarshal_buckets (w_B w) [] of
        Inl e \<Rightarrow> Inl e
      | Inr m \<Rightarrow> Inr \<lparr>h_counts = m, h_n = w_N w, h_sum = w_Sum w, h_peak = w_Peak w\<rparr>)"

section \<open>Series\<close>

record slot =
  sl_Hour :: int
  sl_Dist :: histogram

record series =
  se_Hours :: int
  se_Slots :: "slot list"

definition DefaultHours :: int where "DefaultHours = 24"

definition NewSeries :: "int \<Rightarrow> series" where
  "NewSeries hrs = \<lparr>se_Hours = (if hrs \<le> 0 then DefaultHours else hrs), se_Slots = []\<rparr>"

definition hourOf :: "gotime \<Rightarrow> int" where
  "hourOf t = go_div (t div 10 ^ 9) 3600"

text \<open>The scan from the newest slot back, on the slots in reverse.\<close>

fun sample_back :: "int \<Rightarrow> int \<Rightarrow> slot list \<Rightarrow> slot list option" where
  "sample_back h v [] = None"
| "sample_back h v (s # rest) =
     (if sl_Hour s = h then Some (s\<lparr>sl_Dist := hist_Sample v (sl_Dist s)\<rparr> # rest)
      else if sl_Hour s < h then None
      else map_option ((#) s) (sample_back h v rest))"

definition evict :: "int \<Rightarrow> series \<Rightarrow> series" where
  "evict nowHour s =
     (let oldest = nowHour - se_Hours s + 1
      in s\<lparr>se_Slots := dropWhile (\<lambda>sl. sl_Hour sl < oldest) (se_Slots s)\<rparr>)"

definition series_Sample :: "gotime \<Rightarrow> int \<Rightarrow> series \<Rightarrow> series" where
  "series_Sample t v s0 =
     (let s = (if se_Hours s0 \<le> 0 then s0\<lparr>se_Hours := DefaultHours\<rparr> else s0);
          h = hourOf t in
      case sample_back h v (rev (se_Slots s)) of
        Some slots \<Rightarrow> s\<lparr>se_Slots := rev slots\<rparr>
      | None \<Rightarrow>
          if se_Slots s \<noteq> [] \<and> h < sl_Hour (last (se_Slots s)) then s
          else evict h (s\<lparr>se_Slots := se_Slots s @ [\<lparr>sl_Hour = h, sl_Dist = hist_Sample v empty_histogram\<rparr>]\<rparr>))"

definition Window :: "gotime \<Rightarrow> int \<Rightarrow> series \<Rightarrow> histogram" where
  "Window now n s =
     (if n \<le> 0 then empty_histogram
      else
        let nowHour = hourOf now; oldest = nowHour - n + 1
        in foldl (\<lambda>out sl. if oldest \<le> sl_Hour sl \<and> sl_Hour sl \<le> nowHour then hist_Merge out (sl_Dist sl) else out)
             empty_histogram (se_Slots s))"

definition Shrink :: "int \<Rightarrow> series \<Rightarrow> series" where
  "Shrink hrs0 s =
     (let hrs = (if hrs0 < 1 then 1 else hrs0) in
      if se_Hours s \<le> hrs then s
      else
        let s' = s\<lparr>se_Hours := hrs\<rparr>
        in if se_Slots s' = [] then s' else evict (sl_Hour (last (se_Slots s'))) s')"

definition series_Empty :: "series \<Rightarrow> bool" where
  "series_Empty s \<longleftrightarrow> se_Slots s = []"

section \<open>Profiles\<close>

record pod_usage =
  pu_Pod :: string
  pu_CPUMilli :: int
  pu_MemMiB :: int
  pu_RequestCPUMilli :: int
  pu_RequestMemMiB :: int

record profile =
  pr_CPU :: series
  pr_Mem :: series
  pr_RequestCPUMilli :: int
  pr_RequestMemMiB :: int
  pr_Pods :: int
  pr_FirstSeen :: gotime
  pr_LastSeen :: gotime

record usage_store =
  us_hours :: int
  us_profiles :: "(string \<times> profile) list"

definition usage_New :: "int \<Rightarrow> usage_store" where
  "usage_New hrs = \<lparr>us_hours = (if hrs \<le> 0 then DefaultHours else hrs), us_profiles = []\<rparr>"

definition new_profile :: "int \<Rightarrow> gotime \<Rightarrow> profile" where
  "new_profile hrs t = \<lparr>pr_CPU = NewSeries hrs, pr_Mem = NewSeries hrs, pr_RequestCPUMilli = 0,
     pr_RequestMemMiB = 0, pr_Pods = 0, pr_FirstSeen = t, pr_LastSeen = zero_time\<rparr>"

definition record_pod :: "gotime \<Rightarrow> profile \<times> int \<times> int \<Rightarrow> pod_usage \<Rightarrow> profile \<times> int \<times> int" where
  "record_pod t = (\<lambda>(p, reqCPU, reqMem) u.
     (p\<lparr>pr_CPU := series_Sample t (pu_CPUMilli u) (pr_CPU p), pr_Mem := series_Sample t (pu_MemMiB u) (pr_Mem p)\<rparr>,
      max reqCPU (pu_RequestCPUMilli u), max reqMem (pu_RequestMemMiB u)))"

definition usage_Record :: "gotime \<Rightarrow> string \<Rightarrow> pod_usage list \<Rightarrow> usage_store \<Rightarrow> usage_store" where
  "usage_Record t app pods s =
     (if app = '''' \<or> pods = [] then s
      else
        let p = (case map_of (us_profiles s) app of None \<Rightarrow> new_profile (us_hours s) t | Some p \<Rightarrow> p);
            (p, reqCPU, reqMem) = foldl (record_pod t) (p, 0, 0) pods;
            p = p\<lparr>pr_RequestCPUMilli := reqCPU, pr_RequestMemMiB := reqMem, pr_Pods := int (length pods),
                  pr_LastSeen := (if pr_LastSeen p < t then t else pr_LastSeen p)\<rparr>
        in s\<lparr>us_profiles := AList.update app p (us_profiles s)\<rparr>)"

text \<open>A persisted profile may lack a series, and a profile may be null.\<close>

record wire_profile =
  wp_CPU :: "series option"
  wp_Mem :: "series option"
  wp_rest :: profile

record usage_snapshot =
  uv_Version :: int
  uv_Hours :: int
  uv_Profiles :: "(string \<times> wire_profile option) list"

definition UsageSnapshotVersion :: int where "UsageSnapshotVersion = 1"

definition usage_Snapshot :: "usage_store \<Rightarrow> usage_snapshot" where
  "usage_Snapshot s = \<lparr>uv_Version = UsageSnapshotVersion, uv_Hours = us_hours s,
     uv_Profiles = map (\<lambda>(app, p). (app, Some \<lparr>wp_CPU = Some (pr_CPU p), wp_Mem = Some (pr_Mem p), wp_rest = p\<rparr>)) (us_profiles s)\<rparr>"

fun restore_profiles :: "(string \<times> wire_profile option) list \<Rightarrow> usage_store \<Rightarrow> usage_store" where
  "restore_profiles [] s = s"
| "restore_profiles ((app, None) # ps) s = restore_profiles ps s"
| "restore_profiles ((app, Some w) # ps) s =
     restore_profiles ps (s\<lparr>us_profiles := AList.update app
       ((wp_rest w)\<lparr>pr_CPU := (case wp_CPU w of None \<Rightarrow> NewSeries (us_hours s) | Some c \<Rightarrow> c),
                    pr_Mem := (case wp_Mem w of None \<Rightarrow> NewSeries (us_hours s) | Some m \<Rightarrow> m)\<rparr>) (us_profiles s)\<rparr>)"

definition usage_Restore :: "usage_snapshot \<Rightarrow> usage_error + usage_store" where
  "usage_Restore snap =
     (if uv_Version snap \<noteq> UsageSnapshotVersion then Inl (Usage_version (uv_Version snap))
      else Inr (restore_profiles (uv_Profiles snap) (usage_New (uv_Hours snap))))"

definition Forget :: "gotime \<Rightarrow> usage_store \<Rightarrow> usage_store \<times> string list" where
  "Forget before s =
     (s\<lparr>us_profiles := filter (\<lambda>(app, p). \<not> pr_LastSeen p < before) (us_profiles s)\<rparr>,
      sort (map fst (filter (\<lambda>(app, p). pr_LastSeen p < before) (us_profiles s))))"

record trimmed =
  tr_Hours :: int
  tr_Dropped :: "string list"
  tr_Bytes :: nat

definition Shortened :: "int \<Rightarrow> trimmed \<Rightarrow> bool" where
  "Shortened configured t \<longleftrightarrow> tr_Hours t < configured \<or> tr_Dropped t \<noteq> []"

definition older :: "string \<times> gotime \<Rightarrow> string \<times> profile \<Rightarrow> string \<times> gotime" where
  "older = (\<lambda>(oldest, t) (app, p).
     if oldest = '''' \<or> pr_LastSeen p < t \<or> (pr_LastSeen p = t \<and> app < oldest) then (app, pr_LastSeen p) else (oldest, t))"

definition oldest_of :: "(string \<times> profile) list \<Rightarrow> string" where
  "oldest_of ps = fst (foldl older ('''', zero_time) ps)"

definition dropOldest :: "usage_store \<Rightarrow> usage_store \<times> string" where
  "dropOldest s = (s\<lparr>us_profiles := AList.delete (oldest_of (us_profiles s)) (us_profiles s)\<rparr>, oldest_of (us_profiles s))"

lemma older_in: "fst (foldl older acc ps) \<in> insert (fst acc) (fst ` set ps)"
proof (induction ps arbitrary: acc)
  case (Cons p ps)
  have "fst (older acc p) \<in> {fst acc, fst p}" by (cases acc; cases p) (simp add: older_def)
  then show ?case using Cons.IH[of "older acc p"] by auto
qed simp

text \<open>The least recently seen application is one of the profiled, so that dropping it makes progress.\<close>

lemma oldest_of_in: "ps \<noteq> [] \<Longrightarrow> oldest_of ps \<in> fst ` set ps"
  unfolding oldest_of_def using older_in[of "older ('''', zero_time) (hd ps)" "tl ps"]
  by (cases ps) (auto simp: older_def)

lemma delete_shorter: "k \<in> fst ` set m \<Longrightarrow> length (AList.delete k m) < length m"
  by (induction m) (auto simp: AList.delete_eq le_imp_less_Suc)

lemma dropOldest_shorter: "us_profiles s \<noteq> [] \<Longrightarrow> length (us_profiles (fst (dropOldest s))) < length (us_profiles s)"
  by (simp add: dropOldest_def delete_shorter oldest_of_in)

text \<open>
  Each turn shortens the window or drops an application: the byte budget is met in at
  most as many turns as there are hours and applications.
\<close>

function trim_loop :: "(usage_snapshot \<Rightarrow> nat option) \<Rightarrow> nat \<Rightarrow> usage_store \<Rightarrow> string list \<Rightarrow> usage_store \<times> (usage_error + trimmed)" where
  "trim_loop blob budget s dropped =
     (case blob (usage_Snapshot s) of
        None \<Rightarrow> (s, Inl Usage_encode)
      | Some bytes \<Rightarrow>
          if bytes \<le> budget \<or> us_profiles s = [] then (s, Inr \<lparr>tr_Hours = us_hours s, tr_Dropped = dropped, tr_Bytes = bytes\<rparr>)
          else if 1 < us_hours s then
            let hrs = us_hours s - 1
            in trim_loop blob budget (s\<lparr>us_hours := hrs,
                 us_profiles := map (\<lambda>(app, p). (app, p\<lparr>pr_CPU := Shrink hrs (pr_CPU p), pr_Mem := Shrink hrs (pr_Mem p)\<rparr>)) (us_profiles s)\<rparr>) dropped
          else
            trim_loop blob budget (fst (dropOldest s)) (dropped @ [snd (dropOldest s)]))"
  by pat_completeness auto

termination trim_loop
  by (relation "measure (\<lambda>(_, _, s, _). nat (us_hours s) + length (us_profiles s))")
    (use dropOldest_shorter in \<open>auto simp: dropOldest_def\<close>)

declare trim_loop.simps [simp del]

definition DefaultBudget :: nat where "DefaultBudget = 524288"

definition Trim :: "(usage_snapshot \<Rightarrow> nat option) \<Rightarrow> int \<Rightarrow> usage_store \<Rightarrow> usage_store \<times> (usage_error + trimmed)" where
  "Trim blob budget s = trim_loop blob (if budget \<le> 0 then DefaultBudget else nat budget) s []"

section \<open>Summaries\<close>

record stat =
  st_Samples :: nat
  st_Mean :: real
  st_P50 :: int
  st_P95 :: int
  st_Peak :: int

definition MinSamples :: nat where "MinSamples = 120"

definition Thin :: "stat \<Rightarrow> bool" where
  "Thin st \<longleftrightarrow> st_Samples st < MinSamples"

definition statOf :: "histogram \<Rightarrow> stat" where
  "statOf h = \<lparr>st_Samples = h_n h, st_Mean = Mean h, st_P50 = Quantile h (1 / 2), st_P95 = Quantile h (95 / 100), st_Peak = h_peak h\<rparr>"

record windows =
  wi_Hour :: stat
  wi_Day :: stat

record summary =
  su_App :: string
  su_Pods :: int
  su_LastSeen :: gotime
  su_Hours :: int
  su_RequestCPUMilli :: int
  su_RequestMemMiB :: int
  su_CPU :: windows
  su_Mem :: windows

definition headroom :: "int \<Rightarrow> stat \<Rightarrow> real option" where
  "headroom request st = (if request \<le> 0 \<or> Thin st \<or> st_P95 st \<le> 0 then None else Some (of_int request / of_int (st_P95 st)))"

definition CPUHeadroom :: "summary \<Rightarrow> real option" where
  "CPUHeadroom s = headroom (su_RequestCPUMilli s) (wi_Day (su_CPU s))"

definition MemHeadroom :: "summary \<Rightarrow> real option" where
  "MemHeadroom s = headroom (su_RequestMemMiB s) (wi_Day (su_Mem s))"

definition summary_of :: "gotime \<Rightarrow> int \<Rightarrow> string \<times> profile \<Rightarrow> summary" where
  "summary_of now hrs = (\<lambda>(app, p).
     \<lparr>su_App = app, su_Pods = pr_Pods p, su_LastSeen = pr_LastSeen p, su_Hours = hrs,
      su_RequestCPUMilli = pr_RequestCPUMilli p, su_RequestMemMiB = pr_RequestMemMiB p,
      su_CPU = \<lparr>wi_Hour = statOf (Window now 1 (pr_CPU p)), wi_Day = statOf (Window now hrs (pr_CPU p))\<rparr>,
      su_Mem = \<lparr>wi_Hour = statOf (Window now 1 (pr_Mem p)), wi_Day = statOf (Window now hrs (pr_Mem p))\<rparr>\<rparr>)"

definition Summarize :: "gotime \<Rightarrow> usage_store \<Rightarrow> summary list" where
  "Summarize now s = sort_by (key_less su_App) (map (summary_of now (us_hours s)) (us_profiles s))"

section \<open>The bucket scheme\<close>

lemmas bucket_defs = MaxSample_def subBits_def subCount_def exact_def

definition shift_of :: "int \<Rightarrow> nat" where
  "shift_of v = bitlen (nat v) - 5"

lemma clampSample_id: "0 \<le> v \<Longrightarrow> v \<le> MaxSample \<Longrightarrow> clampSample v = v"
  by (simp add: clampSample_def)

lemma clampSample_range: "0 \<le> clampSample v \<and> clampSample v \<le> MaxSample"
  by (simp add: clampSample_def MaxSample_def)

lemma shift_bounds:
  assumes "0 \<le> v"
  shows "v < 32 * 2 ^ shift_of v" and "0 < shift_of v \<Longrightarrow> 16 * 2 ^ shift_of v \<le> v"
proof -
  show "v < 32 * 2 ^ shift_of v"
  proof (cases "v = 0")
    case False
    then have "nat v < 2 ^ bitlen (nat v)" using bitlen_bounds[of "nat v"] assms by simp
    also have "\<dots> \<le> 2 ^ (5 + shift_of v)" by (intro power_increasing) (simp_all add: shift_of_def)
    finally have "int (nat v) < int (2 ^ (5 + shift_of v))" by (simp only: of_nat_less_iff)
    then show ?thesis using assms by (simp add: power_add)
  qed simp
  assume k: "0 < shift_of v"
  then have "2 ^ (bitlen (nat v) - 1) \<le> nat v" using bitlen_bounds[of "nat v"] by (cases "nat v = 0") (simp_all add: shift_of_def)
  moreover have "bitlen (nat v) - 1 = 4 + shift_of v" using k by (simp add: shift_of_def)
  ultimately have "int (2 ^ (4 + shift_of v)) \<le> int (nat v)" by (simp only: of_nat_le_iff)
  then show "16 * 2 ^ shift_of v \<le> v" using assms by (simp add: power_add)
qed

lemma div_less_bound: "0 < p \<Longrightarrow> v < 32 * p \<Longrightarrow> v div p < 32" for p v :: int
proof (rule ccontr)
  assume a: "0 < p" "v < 32 * p" "\<not> v div p < 32"
  then have "p * 32 \<le> p * (v div p)" by (intro mult_left_mono) simp_all
  then show False using div_bounds[OF a(1), of v] a(2) by linarith
qed

lemma div_at_least: "0 < p \<Longrightarrow> 16 * p \<le> v \<Longrightarrow> 16 \<le> v div p" for p v :: int
proof (rule ccontr)
  assume a: "0 < p" "16 * p \<le> v" "\<not> 16 \<le> v div p"
  then have "p * (v div p + 1) \<le> p * 16" by (intro mult_left_mono) simp_all
  then show False using div_bounds[OF a(1), of v] a(2) unfolding distrib_left by linarith
qed

lemma div_shift:
  assumes "0 \<le> v"
  shows "v div 2 ^ shift_of v < 32" and "0 < shift_of v \<Longrightarrow> 16 \<le> v div 2 ^ shift_of v" and "0 \<le> v div 2 ^ shift_of v"
proof -
  obtain p :: int where p: "p = 2 ^ shift_of v" by blast
  have "0 < p" by (simp add: p)
  then show "v div 2 ^ shift_of v < 32"
    using shift_bounds(1)[OF assms] unfolding p[symmetric] by (rule div_less_bound)
  show "0 \<le> v div 2 ^ shift_of v" using assms \<open>0 < p\<close> unfolding p[symmetric] by (simp add: pos_imp_zdiv_nonneg_iff)
  assume "0 < shift_of v"
  then show "16 \<le> v div 2 ^ shift_of v"
    using shift_bounds(2)[OF assms] \<open>0 < p\<close> unfolding p[symmetric] by (intro div_at_least)
qed

lemma shift_zero_iff: "0 \<le> v \<Longrightarrow> shift_of v = 0 \<longleftrightarrow> v < 32"
proof
  assume "0 \<le> v"
  show "shift_of v = 0 \<Longrightarrow> v < 32" using shift_bounds(1)[OF \<open>0 \<le> v\<close>] by simp
  assume "v < 32"
  then have "nat v < 2 ^ 5" by simp
  then show "shift_of v = 0" using bitlen_le[of "nat v" 5] by (simp add: shift_of_def)
qed

text \<open>A value's bucket, from how far it is shifted.\<close>

lemma bucketOf_shift:
  assumes "0 \<le> v" "v \<le> MaxSample"
  shows "bucketOf v = 16 * int (shift_of v) + v div 2 ^ shift_of v"
proof (cases "v < 32")
  case True
  then have "shift_of v = 0" using shift_zero_iff[OF assms(1)] by simp
  then show ?thesis using True assms by (simp add: bucketOf_def clampSample_id Let_def exact_def)
next
  case False
  then have k: "0 < shift_of v" using shift_zero_iff[OF assms(1)] by simp
  then have "bitlen (nat v) - 1 - subBits = shift_of v" "int (bitlen (nat v) - 1 - subBits - 1) = int (shift_of v) - 1"
    by (simp_all add: shift_of_def subBits_def)
  then show ?thesis using False assms by (simp add: bucketOf_def clampSample_id Let_def exact_def subCount_def)
qed

lemma upperBound_shift:
  assumes "0 \<le> s" "s < 32" "0 < k \<Longrightarrow> 16 \<le> s"
  shows "upperBound (16 * int k + s) = (s + 1) * 2 ^ k - 1"
proof (cases k)
  case 0
  then show ?thesis using assms by (simp add: upperBound_def exact_def)
next
  case (Suc j)
  have a: "16 * int k + s - exact = (s - 16) + 16 * int j" using Suc by (simp add: exact_def)
  define r where "r = s - 16"
  have r: "s = r + 16" "0 \<le> r" "r < 16" using assms Suc by (simp_all add: r_def)
  have "((s - 16) + 16 * int j) div subCount = int j" "((s - 16) + 16 * int j) mod subCount = s - 16"
    unfolding r(1) using r(2,3) by (simp_all add: subCount_def)
  moreover have "\<not> 16 * int k + s < exact" using assms Suc by (simp add: exact_def)
  ultimately show ?thesis unfolding upperBound_def Let_def a using Suc by (simp add: subBits_def subCount_def)
qed

text \<open>The bound reported for a value is at least it and at most a sixteenth above.\<close>

lemma upperBound_bucketOf:
  assumes "0 \<le> v" "v \<le> MaxSample"
  shows "v \<le> upperBound (bucketOf v)" and "16 * upperBound (bucketOf v) \<le> 17 * v" and "v < 32 \<Longrightarrow> upperBound (bucketOf v) = v"
proof -
  obtain p s where p: "p = (2::int) ^ shift_of v" and s: "s = v div 2 ^ shift_of v" by blast
  have "0 < p" by (simp add: p)
  have u: "upperBound (bucketOf v) = (s + 1) * p - 1"
    unfolding bucketOf_shift[OF assms] s[symmetric] p
    using div_shift[OF assms(1)] by (intro upperBound_shift) (simp_all add: s)
  have b: "p * s \<le> v" "v < p * s + p" unfolding s p using div_bounds[of "2 ^ shift_of v" v] by simp_all
  show "v \<le> upperBound (bucketOf v)" unfolding u using b by (simp add: algebra_simps)
  show small: "upperBound (bucketOf v) = v" if "v < 32"
    using that shift_zero_iff[OF assms(1)] unfolding u p s by simp
  show "16 * upperBound (bucketOf v) \<le> 17 * v"
  proof (cases "v < 32")
    case True
    then show ?thesis using small assms by simp
  next
    case False
    then have "16 * p \<le> v" unfolding p using shift_bounds(2)[OF assms(1)] shift_zero_iff[OF assms(1)] by simp
    then show ?thesis unfolding u using b by (simp add: algebra_simps)
  qed
qed

lemma shift_mono: "0 \<le> v \<Longrightarrow> v \<le> w \<Longrightarrow> shift_of v \<le> shift_of w"
proof (rule ccontr)
  assume a: "0 \<le> v" "v \<le> w" "\<not> shift_of v \<le> shift_of w"
  then have "16 * 2 ^ shift_of v \<le> v" "w < 32 * 2 ^ shift_of w" using shift_bounds by auto
  moreover have "(2::int) * 2 ^ shift_of w \<le> 2 ^ shift_of v"
    using a(3) power_increasing[of "Suc (shift_of w)" "shift_of v" "2::int"] by simp
  ultimately show False using a(2) by linarith
qed

lemma bucketOf_mono:
  assumes "0 \<le> v" "v \<le> w" "w \<le> MaxSample"
  shows "bucketOf v \<le> bucketOf w"
proof -
  have w: "0 \<le> w" "v \<le> MaxSample" using assms by auto
  show ?thesis
  proof (cases "shift_of v = shift_of w")
    case True
    then show ?thesis using bucketOf_shift[of v] bucketOf_shift[of w] assms w
      by (simp add: zdiv_mono1)
  next
    case False
    then have "shift_of v + 1 \<le> shift_of w" using shift_mono[OF assms(1,2)] by simp
    then show ?thesis using bucketOf_shift[of v] bucketOf_shift[of w] assms w div_shift[OF assms(1)] div_shift(2)[OF w(1)]
      by (simp add: of_nat_le_iff[symmetric, where 'a = int] del: of_nat_le_iff)
  qed
qed

lemma numBuckets_value: "numBuckets = 337"
  by (simp add: numBuckets_def bucketOf_def clampSample_def bucket_defs bitlen.simps)

lemma bucketOf_range: "0 \<le> v \<Longrightarrow> v \<le> MaxSample \<Longrightarrow> 0 \<le> bucketOf v \<and> bucketOf v < numBuckets"
  using bucketOf_mono[of v MaxSample] bucketOf_shift[of v] div_shift(3)[of v] by (simp add: numBuckets_def)

section \<open>A histogram stands for the samples it took\<close>

text \<open>
  What a histogram promises of the multiset of samples it holds: exact count, sum and
  peak, and how many fall in each bucket.
\<close>

definition hist_rep :: "histogram \<Rightarrow> int multiset \<Rightarrow> bool" where
  "hist_rep h M \<longleftrightarrow> (\<forall>v\<in>#M. 0 \<le> v \<and> v \<le> MaxSample) \<and> h_n h = size M \<and> int (h_sum h) = sum_mset M
     \<and> (\<forall>v\<in>#M. v \<le> h_peak h) \<and> (M = {#} \<and> h_peak h = 0 \<or> h_peak h \<in># M)
     \<and> distinct (map fst (h_counts h))
     \<and> (\<forall>i. get_or 0 (h_counts h) i = size (filter_mset (\<lambda>v. bucketOf v = i) M))"

lemma hist_rep_empty: "hist_rep empty_histogram {#}"
  by (simp add: hist_rep_def empty_histogram_def get_or_def)

lemma hist_rep_Sample: "hist_rep h M \<Longrightarrow> hist_rep (hist_Sample v h) (add_mset (clampSample v) M)"
  using clampSample_range[of v] unfolding hist_rep_def hist_Sample_def Let_def
  by (auto simp: gomap_simps)

lemma get_or_merge:
  "distinct (map fst o') \<Longrightarrow>
     get_or 0 (foldl (\<lambda>m (b, c). add_at b c m) m o') i = get_or (0::nat) m i + get_or 0 o' i"
proof (induction o' arbitrary: m)
  case (Cons bc o')
  then show ?case by (cases bc) (auto simp: gomap_simps get_or_def dest: weak_map_of_SomeI split: option.splits
      dest!: map_of_SomeD intro: rev_image_eqI)
qed (simp add: get_or_def)

lemma distinct_merge: "distinct (map fst m) \<Longrightarrow> distinct (map fst (foldl (\<lambda>m (b, c). add_at b c m) m o'))"
  by (induction o' arbitrary: m) (auto split: prod.splits)

lemma hist_rep_Merge: "hist_rep h M \<Longrightarrow> hist_rep h' M' \<Longrightarrow> hist_rep (hist_Merge h h') (M + M')"
proof (cases "h_n h' = 0")
  case True
  moreover assume "hist_rep h' M'"
  ultimately have "M' = {#}" by (simp add: hist_rep_def)
  then show "hist_rep h M \<Longrightarrow> ?thesis" using True by (simp add: hist_Merge_def)
next
  case False
  assume r: "hist_rep h M" "hist_rep h' M'"
  have "get_or 0 (h_counts (hist_Merge h h')) i = size (filter_mset (\<lambda>v. bucketOf v = i) (M + M'))" for i
    using r False get_or_merge[of "h_counts h'" "h_counts h" i] by (simp add: hist_rep_def hist_Merge_def)
  then show ?thesis using r False distinct_merge[of "h_counts h" "h_counts h'"]
    unfolding hist_rep_def hist_Merge_def by (auto intro: order_trans less_imp_le)
qed

lemma hist_rep_fold: "hist_rep (fold hist_Sample vs empty_histogram) (mset (map clampSample vs))"
proof -
  have "hist_rep h M \<Longrightarrow> hist_rep (fold hist_Sample vs h) (M + mset (map clampSample vs))" for h M
  proof (induction vs arbitrary: h M)
    case (Cons v vs)
    then show ?case using Cons.IH[OF hist_rep_Sample[OF Cons.prems, of v]] by simp
  qed simp
  from this[OF hist_rep_empty] show ?thesis by simp
qed

text \<open>An order statistic has a downward closed property exactly when enough elements have it.\<close>

lemma sorted_filter_rank:
  assumes "sorted xs" "1 \<le> r" "r \<le> length xs" and down: "\<And>x y. x \<in> set xs \<Longrightarrow> y \<in> set xs \<Longrightarrow> x \<le> y \<Longrightarrow> P y \<Longrightarrow> P x"
  shows "P (xs ! (r - 1)) \<longleftrightarrow> r \<le> length (filter P xs)"
proof
  assume p: "P (xs ! (r - 1))"
  have "P x" if x: "x \<in> set (take r xs)" for x
  proof -
    obtain j where j: "j < r" "x = xs ! j" using x assms(3) by (auto simp: in_set_conv_nth)
    then show ?thesis using p assms sorted_nth_mono[OF assms(1), of j "r - 1"] by (intro down[of x "xs ! (r - 1)"]) auto
  qed
  then have "filter P (take r xs) = take r xs" by (simp add: filter_id_conv)
  moreover have "length (filter P xs) = length (filter P (take r xs)) + length (filter P (drop r xs))"
    by (metis append_take_drop_id filter_append length_append)
  ultimately show "r \<le> length (filter P xs)" using assms(3) by simp
next
  assume n: "r \<le> length (filter P xs)"
  show "P (xs ! (r - 1))"
  proof (rule ccontr)
    assume np: "\<not> P (xs ! (r - 1))"
    have "\<not> P x" if x: "x \<in> set (drop (r - 1) xs)" for x
    proof -
      obtain j where "j < length (drop (r - 1) xs)" "x = drop (r - 1) xs ! j" using x by (metis in_set_conv_nth)
      then have j: "r - 1 + j < length xs" "x = xs ! (r - 1 + j)" using assms(3) by auto
      then show ?thesis using np assms sorted_nth_mono[OF assms(1), of "r - 1" "r - 1 + j"] down[of "xs ! (r - 1)" x] by auto
    qed
    then have "filter P (drop (r - 1) xs) = []" by (simp add: filter_empty_conv)
    moreover have "length (filter P xs) = length (filter P (take (r - 1) xs)) + length (filter P (drop (r - 1) xs))"
      by (metis append_take_drop_id filter_append length_append)
    ultimately have "length (filter P xs) \<le> r - 1" by (simp add: order_trans[OF length_filter_le])
    then show False using n assms(2) by simp
  qed
qed

lemma size_below_Suc:
  "size (filter_mset (\<lambda>v. f v < j + 1) M) = size (filter_mset (\<lambda>v. f v < j) M) + size (filter_mset (\<lambda>v. f v = j) M)"
  for f :: "'a \<Rightarrow> int"
  by (induction M) auto

lemma quantile_loop_bucket:
  assumes "hist_rep h M" "rank \<le> size M" "0 \<le> j"
    and "seen = size (filter_mset (\<lambda>v. bucketOf v < j) M)" "seen < rank"
  shows "\<exists>i. j \<le> i \<and> i < numBuckets \<and> rank \<le> size (filter_mset (\<lambda>v. bucketOf v \<le> i) M)
    \<and> size (filter_mset (\<lambda>v. bucketOf v < i) M) < rank
    \<and> quantile_loop h rank seen [j .. numBuckets - 1] = min (upperBound i) (h_peak h)"
  using assms(3-5)
proof (induction "nat (numBuckets - j)" arbitrary: j seen)
  case 0
  have "filter_mset (\<lambda>v. bucketOf v < j) M = M"
    using 0(1) assms(1) bucketOf_range by (fastforce simp: filter_mset_eq_conv hist_rep_def)
  then show ?case using 0 assms(2) by simp
next
  case (Suc n)
  then have lt: "j < numBuckets" by simp
  have up: "[j .. numBuckets - 1] = j # [j + 1 .. numBuckets - 1]" using lt by (intro upto_rec1) simp
  have s: "seen + get_or 0 (h_counts h) j = size (filter_mset (\<lambda>v. bucketOf v < j + 1) M)"
    unfolding size_below_Suc Suc.prems(2) using assms(1) by (simp add: hist_rep_def)
  have le: "(\<lambda>v. bucketOf v < j + 1) = (\<lambda>v. bucketOf v \<le> j)" by (simp add: zle_add1_eq_le[symmetric] add.commute)
  show ?case
  proof (cases "rank \<le> seen + get_or 0 (h_counts h) j")
    case True
    then show ?thesis using Suc.prems lt s by (intro exI[of _ j]) (simp add: up Let_def le)
  next
    case False
    have next_n: "n = nat (numBuckets - (j + 1))" using Suc.hyps(2) by simp
    obtain i where i: "j + 1 \<le> i \<and> i < numBuckets \<and> rank \<le> size (filter_mset (\<lambda>v. bucketOf v \<le> i) M)
        \<and> size (filter_mset (\<lambda>v. bucketOf v < i) M) < rank
        \<and> quantile_loop h rank (seen + get_or 0 (h_counts h) j) [j + 1 .. numBuckets - 1] = min (upperBound i) (h_peak h)"
      using Suc.hyps(1)[of "j + 1" "seen + get_or 0 (h_counts h) j", OF next_n _ s] Suc.prems(1) False by auto
    then show ?thesis using False by (intro exI[of _ i]) (simp add: up Let_def)
  qed
qed

lemma clamp_rank:
  "0 < n \<Longrightarrow> 1 \<le> (if n < (if x = 0 then 1 else x) then n else if x = 0 then 1 else x)
     \<and> (if n < (if x = 0 then 1 else x) then n else if x = 0 then 1 else x) \<le> n" for n x :: nat
  by auto

lemma quantile_rank_range: "0 < n \<Longrightarrow> 1 \<le> quantile_rank n q \<and> quantile_rank n q \<le> n"
  unfolding quantile_rank_def Let_def by (rule clamp_rank)

lemma Quantile_rep:
  fixes q :: real
  assumes "hist_rep h M" "M \<noteq> {#}"
  defines "v \<equiv> sorted_list_of_multiset M ! (quantile_rank (size M) q - 1)"
  shows "Quantile h q = min (upperBound (bucketOf v)) (h_peak h)" and "v \<in># M"
proof -
  define xs r where "xs = sorted_list_of_multiset M" and "r = quantile_rank (size M) q"
  have n: "h_n h = size M" and b: "\<And>v. v \<in># M \<Longrightarrow> 0 \<le> v \<and> v \<le> MaxSample" using assms(1) by (auto simp: hist_rep_def)
  have r: "1 \<le> r" "r \<le> size M" using quantile_rank_range[of "size M" q] assms(2) by (auto simp: r_def nonempty_has_size)
  have xs: "sorted xs" "mset xs = M" "length xs = size M" by (simp_all add: xs_def flip: size_mset)
  have in_xs: "\<And>x. x \<in> set xs \<longleftrightarrow> x \<in># M" using xs(2) by (metis set_mset_mset)
  show "v \<in># M" unfolding v_def xs_def[symmetric] r_def[symmetric] using r xs by (metis in_xs One_nat_def Suc_le_eq Suc_pred less_eq_Suc_le nth_mem)
  have len: "size (filter_mset P M) = length (filter P xs)" for P using xs(2) by (metis mset_filter size_mset)
  have rank: "P v \<longleftrightarrow> r \<le> size (filter_mset P M)"
    if "\<And>x y. x \<in># M \<Longrightarrow> y \<in># M \<Longrightarrow> x \<le> y \<Longrightarrow> P y \<Longrightarrow> P x" for P
    unfolding len v_def xs_def[symmetric] r_def[symmetric]
    using r xs that in_xs by (intro sorted_filter_rank) auto
  have neg: "filter_mset (\<lambda>v. bucketOf v < 0) M = {#}" using b bucketOf_range by (force simp: filter_mset_eq_conv)
  obtain i where i: "r \<le> size (filter_mset (\<lambda>v. bucketOf v \<le> i) M)" "size (filter_mset (\<lambda>v. bucketOf v < i) M) < r"
      "quantile_loop h r 0 [0 .. numBuckets - 1] = min (upperBound i) (h_peak h)"
    using quantile_loop_bucket[OF assms(1) r(2), of 0 0] r(1) neg by auto
  have "bucketOf v \<le> i" using rank[of "\<lambda>v. bucketOf v \<le> i"] i(1) b bucketOf_mono by (meson order_trans)
  moreover have "\<not> bucketOf v < i" using rank[of "\<lambda>v. bucketOf v < i"] i(2) b bucketOf_mono by (meson le_less_trans not_le)
  ultimately show "Quantile h q = min (upperBound (bucketOf v)) (h_peak h)"
    using i(3) n assms(2) by (simp add: Quantile_def r_def)
qed

text \<open>
  A quantile read from the buckets is a safe reservation. After any samples,
  the value reported for \<open>q\<close> is at least the exact order statistic of what was sampled
  and at most a sixteenth above it, exact below 32, and never above the peak; count and
  peak are exact.
\<close>

theorem quantile_is_safe:
  assumes "vs \<noteq> []"
  defines "h \<equiv> fold hist_Sample vs empty_histogram" and "ws \<equiv> sort (map clampSample vs)"
  shows "ws ! (quantile_rank (length vs) q - 1) \<le> Quantile h q
    \<and> 16 * Quantile h q \<le> 17 * ws ! (quantile_rank (length vs) q - 1)
    \<and> (ws ! (quantile_rank (length vs) q - 1) < 32 \<longrightarrow> Quantile h q = ws ! (quantile_rank (length vs) q - 1))
    \<and> Quantile h q \<le> h_peak h \<and> h_peak h = Max (set ws) \<and> h_n h = length vs"
proof -
  define M where "M = mset (map clampSample vs)"
  have rep: "hist_rep h M" unfolding h_def M_def by (rule hist_rep_fold)
  have M: "M \<noteq> {#}" "size M = length vs" "set ws = set_mset M"
    using assms(1) by (simp_all add: M_def ws_def)
  have srt: "sorted_list_of_multiset M = ws" unfolding M_def ws_def by (rule sorted_list_of_multiset_mset)
  define v where "v = ws ! (quantile_rank (length vs) q - 1)"
  have Q: "Quantile h q = min (upperBound (bucketOf v)) (h_peak h)" and v: "v \<in># M"
    using Quantile_rep[OF rep M(1), of q] unfolding M(2) srt v_def by auto
  have b: "0 \<le> v" "v \<le> MaxSample" "v \<le> h_peak h" using rep v by (auto simp: hist_rep_def)
  have "h_peak h \<in># M" using rep M(1) by (auto simp: hist_rep_def)
  then have "h_peak h = Max (set ws)" unfolding M(3) using rep by (intro Max_eqI[symmetric]) (auto simp: hist_rep_def)
  moreover have "h_n h = length vs" using rep M(2) by (simp add: hist_rep_def)
  ultimately show ?thesis unfolding v_def[symmetric] Q using b upperBound_bucketOf[OF b(1,2)] by auto
qed

theorem quantile_is_safe_witness:
  "let h = fold hist_Sample [3, 1000, 7] empty_histogram in 7 \<le> Quantile h (1 / 2) \<and> Quantile h (1 / 2) \<le> h_peak h"
proof -
  have "sort (map clampSample [3, 1000, 7]) ! (quantile_rank (length [3, 1000, 7 :: int]) (1 / 2) - 1) = 7"
    by (simp add: clampSample_def MaxSample_def quantile_rank_def)
  then show ?thesis using quantile_is_safe[of "[3, 1000, 7]" "1 / 2", OF list.simps(3)] unfolding Let_def by metis
qed

section \<open>A series is a window of hours\<close>

definition samples_at :: "int \<Rightarrow> (int \<times> int) multiset \<Rightarrow> int multiset" where
  "samples_at h A = image_mset snd (filter_mset (\<lambda>x. fst x = h) A)"

text \<open>
  A series of \<open>H\<close> hours that has taken the samples \<open>A\<close>, pairs of an hour and a value,
  the newest of them in hour \<open>L\<close>.
\<close>

definition series_rep :: "int \<Rightarrow> int \<Rightarrow> (int \<times> int) multiset \<Rightarrow> series \<Rightarrow> bool" where
  "series_rep H L A s \<longleftrightarrow> se_Hours s = H \<and> sorted_wrt (\<lambda>a b. sl_Hour a < sl_Hour b) (se_Slots s)
     \<and> (\<forall>sl\<in>set (se_Slots s). hist_rep (sl_Dist sl) (samples_at (sl_Hour sl) A) \<and> L - H < sl_Hour sl)
     \<and> se_Slots s \<noteq> [] \<and> sl_Hour (last (se_Slots s)) = L
     \<and> (\<forall>x\<in>#A. fst x \<le> L \<and> (L - H < fst x \<longrightarrow> fst x \<in> sl_Hour ` set (se_Slots s)))"

lemma samples_at_add: "samples_at h (add_mset (h', v) A) = (if h' = h then add_mset v (samples_at h A) else samples_at h A)"
  by (simp add: samples_at_def)

lemma samples_at_none: "(\<And>x. x \<in># A \<Longrightarrow> fst x \<noteq> h) \<Longrightarrow> samples_at h A = {#}"
  by (auto simp: samples_at_def filter_mset_eq_conv[where N = "{#}"])

lemma last_slot_max:
  "sorted_wrt (\<lambda>a b. sl_Hour a < sl_Hour b) (xs @ [x]) \<Longrightarrow> y \<in> set (xs @ [x]) \<Longrightarrow> sl_Hour y \<le> sl_Hour x"
  by (auto simp: sorted_wrt_append intro: less_imp_le)

lemma dropWhile_sorted_hours:
  "sorted_wrt (\<lambda>a b. sl_Hour a < sl_Hour b) xs \<Longrightarrow>
     dropWhile (\<lambda>sl. sl_Hour sl < k) xs = filter (\<lambda>sl. k \<le> sl_Hour sl) xs"
proof (induction xs)
  case (Cons x xs)
  show ?case
  proof (cases "sl_Hour x < k")
    case True
    then show ?thesis using Cons by simp
  next
    case False
    then have "filter (\<lambda>sl. k \<le> sl_Hour sl) xs = xs" using Cons.prems by (auto simp: filter_id_conv)
    then show ?thesis using False by simp
  qed
qed simp

lemma series_rep_first:
  assumes "0 < H"
  shows "series_rep H (hourOf t) {#(hourOf t, clampSample v)#} (series_Sample t v (NewSeries H))"
proof -
  have "series_Sample t v (NewSeries H)
      = \<lparr>se_Hours = H, se_Slots = [\<lparr>sl_Hour = hourOf t, sl_Dist = hist_Sample v empty_histogram\<rparr>]\<rparr>"
    using assms by (simp add: series_Sample_def NewSeries_def evict_def)
  then show ?thesis using assms hist_rep_Sample[OF hist_rep_empty, of v] by (simp add: series_rep_def samples_at_def)
qed

lemma series_rep_Sample:
  assumes rep: "series_rep H L A s" and "0 < H" and "L \<le> hourOf t"
  shows "series_rep H (hourOf t) (add_mset (hourOf t, clampSample v) A) (series_Sample t v s)"
proof -
  define h where "h = hourOf t"
  obtain xs x where slots: "se_Slots s = xs @ [x]" using rep by (auto simp: series_rep_def dest: append_butlast_last_id[symmetric])
  have x: "sl_Hour x = L" "se_Hours s = H" using rep slots by (auto simp: series_rep_def)
  have srt: "sorted_wrt (\<lambda>a b. sl_Hour a < sl_Hour b) (xs @ [x])" using rep slots by (simp add: series_rep_def)
  have A: "\<And>y. y \<in># A \<Longrightarrow> fst y \<le> L" "\<And>y. y \<in># A \<Longrightarrow> L - H < fst y \<Longrightarrow> fst y \<in> sl_Hour ` set (xs @ [x])"
    using rep slots by (auto simp: series_rep_def)
  have D: "\<And>y. y \<in> set (xs @ [x]) \<Longrightarrow> hist_rep (sl_Dist y) (samples_at (sl_Hour y) A)" "\<And>y. y \<in> set (xs @ [x]) \<Longrightarrow> L - H < sl_Hour y"
    using rep slots by (auto simp: series_rep_def)
  show ?thesis
  proof (cases "h = L")
    case True
    have s': "series_Sample t v s = s\<lparr>se_Slots := xs @ [x\<lparr>sl_Dist := hist_Sample v (sl_Dist x)\<rparr>]\<rparr>"
      using True x assms(2) slots by (simp add: series_Sample_def h_def[symmetric])
    have "sl_Hour y < L" if "y \<in> set xs" for y using srt that x(1) by (auto simp: sorted_wrt_append)
    then have d: "hist_rep (sl_Dist y) (samples_at (sl_Hour y) (add_mset (h, clampSample v) A))" if "y \<in> set xs" for y
      using that D(1)[of y] True by (force simp: samples_at_add)
    have "hist_rep (hist_Sample v (sl_Dist x)) (samples_at L (add_mset (h, clampSample v) A))"
      using hist_rep_Sample[OF D(1)[of x], of v] x(1) True by (simp add: samples_at_add)
    then show ?thesis unfolding series_rep_def s' h_def[symmetric] using srt x A D(2) d True assms(2)
      by (auto simp: sorted_wrt_append)
  next
    case False
    then have gt: "L < h" using assms(3) by (simp add: h_def)
    define new where "new = \<lparr>sl_Hour = h, sl_Dist = hist_Sample v empty_histogram\<rparr>"
    have hours: "sl_Hour y < h" if "y \<in> set (xs @ [x])" for y using last_slot_max[OF srt that] x(1) gt by simp
    have none: "samples_at h A = {#}" using A(1) gt by (intro samples_at_none) force
    have srt': "sorted_wrt (\<lambda>a b. sl_Hour a < sl_Hour b) ((xs @ [x]) @ [new])"
      using srt hours by (simp add: sorted_wrt_append new_def)
    have "series_Sample t v s = s\<lparr>se_Slots := filter (\<lambda>sl. h - H + 1 \<le> sl_Hour sl) ((xs @ [x]) @ [new])\<rparr>"
      using gt x assms(2) slots dropWhile_sorted_hours[OF srt', of "h - H + 1"]
      by (simp add: series_Sample_def h_def[symmetric] evict_def new_def)
    moreover have "filter (\<lambda>sl. h - H + 1 \<le> sl_Hour sl) ((xs @ [x]) @ [new]) = filter (\<lambda>sl. h - H + 1 \<le> sl_Hour sl) (xs @ [x]) @ [new]"
      using assms(2) by (simp add: new_def)
    moreover have "hist_rep (sl_Dist new) (samples_at h (add_mset (h, clampSample v) A))"
      using none hist_rep_Sample[OF hist_rep_empty, of v] by (simp add: samples_at_add new_def)
    moreover have "sorted_wrt (\<lambda>a b. sl_Hour a < sl_Hour b) (filter (\<lambda>sl. h - H + 1 \<le> sl_Hour sl) ((xs @ [x]) @ [new]))"
      using srt' by (rule sorted_wrt_filter)
    ultimately have s': "series_Sample t v s = s\<lparr>se_Slots := filter (\<lambda>sl. h - H + 1 \<le> sl_Hour sl) (xs @ [x]) @ [new]\<rparr>"
      and n: "hist_rep (sl_Dist new) (samples_at h (add_mset (h, clampSample v) A))"
      and srt'': "sorted_wrt (\<lambda>a b. sl_Hour a < sl_Hour b) (filter (\<lambda>sl. h - H + 1 \<le> sl_Hour sl) (xs @ [x]) @ [new])"
      by simp_all
    have d: "hist_rep (sl_Dist y) (samples_at (sl_Hour y) (add_mset (h, clampSample v) A))" if "y \<in> set (xs @ [x])" for y
      using D(1)[OF that] hours[OF that] by (simp add: samples_at_add)
    have a: "fst y \<in> sl_Hour ` set (filter (\<lambda>sl. h - H + 1 \<le> sl_Hour sl) (xs @ [x]))" if "y \<in># A" "h - H < fst y" for y
      using A(2)[OF that(1)] that(2) gt by force
    have b: "fst y \<le> h" if "y \<in># A" for y using A(1)[OF that] gt by simp
    show ?thesis unfolding series_rep_def s' h_def[symmetric] using srt'' x(2) d n a b assms(2)
      by (auto simp: new_def)
  qed
qed

lemma series_rep_length:
  assumes "series_rep H L A s"
  shows "int (length (se_Slots s)) \<le> H"
proof -
  have srt: "sorted_wrt (\<lambda>a b. sl_Hour a < sl_Hour b) (se_Slots s)" using assms by (simp add: series_rep_def)
  have "sorted_wrt (<) (map sl_Hour (se_Slots s))" using srt by (simp add: sorted_wrt_map)
  then have "distinct (map sl_Hour (se_Slots s))" by (simp add: strict_sorted_iff)
  then have "length (se_Slots s) = card (sl_Hour ` set (se_Slots s))" using distinct_card[of "map sl_Hour (se_Slots s)"] by simp
  also have "\<dots> \<le> card {L - H + 1 .. L}"
  proof (rule card_mono)
    obtain xs x where slots: "se_Slots s = xs @ [x]" using assms by (auto simp: series_rep_def dest: append_butlast_last_id[symmetric])
    show "sl_Hour ` set (se_Slots s) \<subseteq> {L - H + 1 .. L}"
      using assms last_slot_max[of xs x] slots srt by (force simp: series_rep_def)
  qed simp
  finally show ?thesis by (cases "H \<le> 0") (use assms in \<open>auto simp: series_rep_def dest: last_in_set\<close>)
qed

text \<open>Reading a window merges the histograms of its hours, and they hold every sample of those hours.\<close>

lemma Window_rep:
  assumes "\<And>sl. sl \<in> set slots \<Longrightarrow> hist_rep (sl_Dist sl) (samples_at (sl_Hour sl) A)" and "hist_rep out M"
  shows "hist_rep (foldl (\<lambda>out sl. if P (sl_Hour sl) then hist_Merge out (sl_Dist sl) else out) out slots)
    (M + sum_list (map (\<lambda>sl. samples_at (sl_Hour sl) A) (filter (\<lambda>sl. P (sl_Hour sl)) slots)))"
  using assms
proof (induction slots arbitrary: out M)
  case (Cons sl slots)
  have "hist_rep (hist_Merge out (sl_Dist sl)) (M + samples_at (sl_Hour sl) A)"
    using Cons.prems by (intro hist_rep_Merge) simp_all
  then show ?case using Cons.IH[of "hist_Merge out (sl_Dist sl)" "M + samples_at (sl_Hour sl) A"] Cons.IH[of out M] Cons.prems
    by (simp add: add.assoc)
qed simp

lemma samples_of_hours:
  "distinct hs \<Longrightarrow> (\<And>x. x \<in># A \<Longrightarrow> fst x \<in> set hs \<longleftrightarrow> P (fst x)) \<Longrightarrow>
     sum_list (map (\<lambda>h. samples_at h A) hs) = image_mset snd (filter_mset (\<lambda>x. P (fst x)) A)"
proof (induction A)
  case empty
  have "sum_list (map (\<lambda>h. samples_at h {#}) hs) = {#}" by (induction hs) (simp_all add: samples_at_def)
  then show ?case by simp
next
  case (add x A)
  have "sum_list (map (\<lambda>h. samples_at h (add_mset x A)) hs)
      = (if fst x \<in> set hs then {#snd x#} else {#}) + sum_list (map (\<lambda>h. samples_at h A) hs)"
    using add.prems(1) by (induction hs) (auto simp: samples_at_def)
  then show ?case using add by simp
qed

lemma series_rep_samples:
  assumes "0 < H" "sorted (map (\<lambda>tv. hourOf (fst tv)) (tvs @ [(t, v)]))"
  shows "series_rep H (hourOf t) (mset (map (\<lambda>(t, v). (hourOf t, clampSample v)) (tvs @ [(t, v)])))
    (fold (\<lambda>(t, v). series_Sample t v) (tvs @ [(t, v)]) (NewSeries H))"
  using assms(2)
proof (induction tvs arbitrary: t v rule: rev_induct)
  case Nil
  then show ?case using series_rep_first[OF assms(1)] by simp
next
  case (snoc tv tvs)
  obtain t' v' where tv: "tv = (t', v')" by (cases tv)
  have "series_rep H (hourOf t') (mset (map (\<lambda>(t, v). (hourOf t, clampSample v)) (tvs @ [(t', v')])))
      (fold (\<lambda>(t, v). series_Sample t v) (tvs @ [(t', v')]) (NewSeries H))"
    using snoc.prems tv by (intro snoc.IH) (simp add: sorted_append)
  moreover have "hourOf t' \<le> hourOf t" using snoc.prems tv by (simp add: sorted_append)
  ultimately show ?case using series_rep_Sample[OF _ assms(1), of "hourOf t'" _ _ t v] tv
    by (simp add: add_mset_commute[of "(hourOf t', clampSample v')"])
qed

text \<open>
  A series answers for exactly its hours, in bounded space. After any samples
  taken with a clock that does not run backwards, the series keeps at most as many
  hourly slots as it was told to, and the histogram of its last \<open>n\<close> hours holds every
  sample taken in those hours and no other.
\<close>

theorem window_holds_its_hours:
  assumes "0 < H" "n \<le> H" "tvs \<noteq> []" "sorted (map (\<lambda>tv. hourOf (fst tv)) tvs)" "hourOf (fst (last tvs)) \<le> hourOf now"
  defines "s \<equiv> fold (\<lambda>(t, v). series_Sample t v) tvs (NewSeries H)"
  shows "int (length (se_Slots s)) \<le> H
    \<and> hist_rep (Window now n s)
        (mset (map (\<lambda>(t, v). clampSample v) (filter (\<lambda>(t, v). hourOf now - n + 1 \<le> hourOf t \<and> hourOf t \<le> hourOf now) tvs)))"
proof
  define A where "A = mset (map (\<lambda>(t, v). (hourOf t, clampSample v)) tvs)"
  define L where "L = hourOf (fst (last tvs))"
  define P where "P h \<longleftrightarrow> hourOf now - n + 1 \<le> h \<and> h \<le> hourOf now" for h
  have rep: "series_rep H L A s"
    using series_rep_samples[of H "butlast tvs" "fst (last tvs)" "snd (last tvs)"] assms(1,3,4) by (simp add: A_def L_def s_def)
  then show "int (length (se_Slots s)) \<le> H" by (rule series_rep_length)
  have "sorted_wrt (<) (map sl_Hour (se_Slots s))" using rep by (simp add: series_rep_def sorted_wrt_map)
  then have dist: "distinct (map sl_Hour (se_Slots s))" by (simp add: strict_sorted_iff)
  define hs where "hs = map sl_Hour (filter (\<lambda>sl. P (sl_Hour sl)) (se_Slots s))"
  have hs: "distinct hs" "set hs = {h \<in> sl_Hour ` set (se_Slots s). P h}"
    using dist by (auto simp: hs_def distinct_map_filter)
  have "fst x \<in> set hs \<longleftrightarrow> P (fst x)" if "x \<in># A" for x
    using rep that assms(2,5) unfolding hs(2) by (auto simp: series_rep_def P_def L_def)
  note sum = samples_of_hours[OF hs(1) this, unfolded hs_def map_map comp_def]
  have "hist_rep (if n \<le> 0 then empty_histogram else foldl (\<lambda>out sl. if P (sl_Hour sl) then hist_Merge out (sl_Dist sl) else out) empty_histogram (se_Slots s))
      (image_mset snd (filter_mset (\<lambda>x. P (fst x)) A))"
  proof (cases "n \<le> 0")
    case True
    then have "filter_mset (\<lambda>x. P (fst x)) A = {#}" by (auto simp: P_def filter_mset_eq_conv)
    then have "image_mset snd (filter_mset (\<lambda>x. P (fst x)) A) = {#}" by (simp only: image_mset_empty)
    then show ?thesis using True hist_rep_empty by (simp only: if_True)
  next
    case False
    then show ?thesis using Window_rep[of "se_Slots s" A empty_histogram "{#}" P] rep hist_rep_empty sum
      by (simp add: series_rep_def)
  qed
  moreover have "image_mset snd (filter_mset (\<lambda>x. P (fst x)) A)
      = mset (map (\<lambda>(t, v). clampSample v) (filter (\<lambda>(t, v). P (hourOf t)) tvs))"
    unfolding A_def by (induction tvs) auto
  ultimately show "hist_rep (Window now n s) (mset (map (\<lambda>(t, v). clampSample v)
      (filter (\<lambda>(t, v). hourOf now - n + 1 \<le> hourOf t \<and> hourOf t \<le> hourOf now) tvs)))"
    unfolding Window_def Let_def P_def by simp
qed

theorem window_holds_its_hours_witness:
  "hist_rep (Window (2 * ns_per_hour) 1 (fold (\<lambda>(t, v). series_Sample t v) [(0, 5), (2 * ns_per_hour, 9)] (NewSeries 2))) {#9#}"
proof -
  have "hourOf 0 = 0" "hourOf (2 * ns_per_hour) = 2" by (simp_all add: hourOf_def go_div_def ns_per_hour_def)
  then show ?thesis using window_holds_its_hours[of 2 1 "[(0, 5), (2 * ns_per_hour, 9)]" "2 * ns_per_hour"]
    by (simp add: clampSample_def MaxSample_def)
qed

section \<open>Fitting the byte budget\<close>

lemma foldl_older:
  assumes "o1 \<noteq> ''''" "'''' \<notin> fst ` set ps"
  shows "case foldl older (o1, t1) ps of (o2, t2) \<Rightarrow> t2 \<le> t1 \<and> (\<forall>(a, p)\<in>set ps. t2 \<le> pr_LastSeen p)
    \<and> (o2 = o1 \<and> t2 = t1 \<or> (\<exists>p. (o2, p) \<in> set ps \<and> pr_LastSeen p = t2))"
  using assms
proof (induction ps arbitrary: o1 t1)
  case (Cons ap ps)
  obtain a p where ap: "ap = (a, p)" by (cases ap)
  have ne: "a \<noteq> ''''" "'''' \<notin> fst ` set ps" using Cons.prems(2) ap by auto
  show ?case
  proof (cases "pr_LastSeen p < t1 \<or> (pr_LastSeen p = t1 \<and> a < o1)")
    case True
    then have "older (o1, t1) (a, p) = (a, pr_LastSeen p)" by (auto simp: older_def)
    then have step: "foldl older (o1, t1) (ap # ps) = foldl older (a, pr_LastSeen p) ps" by (simp add: ap)
    obtain o2 t2 where r: "foldl older (a, pr_LastSeen p) ps = (o2, t2)" by fastforce
    then have "t2 \<le> pr_LastSeen p" "\<forall>(b, q)\<in>set ps. t2 \<le> pr_LastSeen q"
        "o2 = a \<and> t2 = pr_LastSeen p \<or> (\<exists>q. (o2, q) \<in> set ps \<and> pr_LastSeen q = t2)"
      using Cons.IH[OF ne(1) ne(2), of "pr_LastSeen p"] by simp_all
    then show ?thesis unfolding step r using True by (auto simp: ap)
  next
    case False
    then have "older (o1, t1) (a, p) = (o1, t1)" using Cons.prems(1) by (auto simp: older_def)
    then have step: "foldl older (o1, t1) (ap # ps) = foldl older (o1, t1) ps" by (simp add: ap)
    obtain o2 t2 where r: "foldl older (o1, t1) ps = (o2, t2)" by fastforce
    then have "t2 \<le> t1" "\<forall>(b, q)\<in>set ps. t2 \<le> pr_LastSeen q"
        "o2 = o1 \<and> t2 = t1 \<or> (\<exists>q. (o2, q) \<in> set ps \<and> pr_LastSeen q = t2)"
      using Cons.IH[OF Cons.prems(1) ne(2), of t1] by simp_all
    then show ?thesis unfolding step r using False by (auto simp: ap)
  qed
qed simp

lemma oldest_of_least:
  assumes "ps \<noteq> []" "'''' \<notin> fst ` set ps"
  shows "\<exists>p. (oldest_of ps, p) \<in> set ps \<and> (\<forall>(a, q)\<in>set ps. pr_LastSeen p \<le> pr_LastSeen q)"
proof -
  obtain a p qs where ps: "ps = (a, p) # qs" using assms(1) by (cases ps) auto
  have "foldl older ('''', zero_time) ps = foldl older (a, pr_LastSeen p) qs" by (simp add: ps older_def)
  moreover obtain o2 t2 where r: "foldl older (a, pr_LastSeen p) qs = (o2, t2)" by fastforce
  ultimately have o2: "oldest_of ps = o2" by (simp add: oldest_of_def)
  have "a \<noteq> ''''" "'''' \<notin> fst ` set qs" using assms(2) by (auto simp: ps)
  from foldl_older[OF this, of "pr_LastSeen p"]
  have least: "t2 \<le> pr_LastSeen p" "\<forall>(b, q)\<in>set qs. t2 \<le> pr_LastSeen q"
    and from_ps: "o2 = a \<and> t2 = pr_LastSeen p \<or> (\<exists>q. (o2, q) \<in> set qs \<and> pr_LastSeen q = t2)"
    by (simp_all add: r)
  from from_ps obtain q where q: "(o2, q) \<in> set ps" "pr_LastSeen q = t2" by (auto simp: ps)
  then show ?thesis using least unfolding o2 by (intro exI[of _ q]) (auto simp: ps)
qed

lemma delete_keys: "fst ` set (AList.delete k m) = fst ` set m - {k}"
  by (auto simp: AList.delete_eq)

text \<open>The applications of a store with when each was last seen: what trimming never changes.\<close>

definition seen_of :: "usage_store \<Rightarrow> (string \<times> gotime) list" where
  "seen_of s = map (\<lambda>(app, p). (app, pr_LastSeen p)) (us_profiles s)"

lemma seen_of_keys: "fst ` set (us_profiles s) = fst ` set (seen_of s)"
  by (force simp: seen_of_def)

lemma dropOldest_seen:
  assumes "us_profiles s \<noteq> []" "'''' \<notin> fst ` set (seen_of s)" "distinct (map fst (seen_of s))"
  shows "\<exists>t. (snd (dropOldest s), t) \<in> set (seen_of s) \<and> (\<forall>(a, u)\<in>set (seen_of s). t \<le> u)
    \<and> set (seen_of (fst (dropOldest s))) = set (seen_of s) - {(snd (dropOldest s), t)}
    \<and> distinct (map fst (seen_of (fst (dropOldest s))))"
proof -
  let ?ps = "us_profiles s"
  obtain p where p: "(oldest_of ?ps, p) \<in> set ?ps" "\<forall>(a, q)\<in>set ?ps. pr_LastSeen p \<le> pr_LastSeen q"
    using oldest_of_least[of ?ps] assms(1,2) by (auto simp: seen_of_keys[symmetric])
  have d: "distinct (map fst ?ps)" using assms(3) by (simp add: seen_of_def comp_def case_prod_unfold)
  have "set (seen_of (fst (dropOldest s))) = set (seen_of s) - {(oldest_of ?ps, pr_LastSeen p)}"
    using p(1) d by (auto simp: seen_of_def dropOldest_def AList.delete_eq dest: eq_key_imp_eq_value)
  moreover have "distinct (map fst (seen_of (fst (dropOldest s))))"
    using d by (simp add: seen_of_def dropOldest_def comp_def case_prod_unfold distinct_delete)
  moreover have "(oldest_of ?ps, pr_LastSeen p) \<in> set (seen_of s)" "\<forall>(a, u)\<in>set (seen_of s). pr_LastSeen p \<le> u"
    using p by (auto simp: seen_of_def)
  ultimately show ?thesis by (intro exI[of _ "pr_LastSeen p"]) (simp add: dropOldest_def)
qed

text \<open>What the loop establishes: it fits, and the applications lost are the least recently seen.\<close>

definition trim_post :: "(usage_snapshot \<Rightarrow> nat) \<Rightarrow> nat \<Rightarrow> usage_store \<Rightarrow> string list \<Rightarrow> usage_store \<Rightarrow> trimmed \<Rightarrow> bool" where
  "trim_post sz budget s dropped s' t \<longleftrightarrow>
     tr_Bytes t = sz (usage_Snapshot s') \<and> (tr_Bytes t \<le> budget \<or> us_profiles s' = [])
     \<and> tr_Hours t = us_hours s' \<and> us_hours s' \<le> us_hours s \<and> 1 \<le> us_hours s'
     \<and> (\<exists>lost. tr_Dropped t = dropped @ lost \<and> (lost \<noteq> [] \<longrightarrow> us_hours s' = 1)
          \<and> set (seen_of s') = {(a, u) \<in> set (seen_of s). a \<notin> set lost}
          \<and> (\<forall>(a, u)\<in>set (seen_of s). \<forall>(b, w)\<in>set (seen_of s'). a \<in> set lost \<longrightarrow> u \<le> w))"

lemma trim_loop_post:
  assumes "\<And>x. blob x = Some (sz x)"
  shows "1 \<le> us_hours s \<Longrightarrow> '''' \<notin> fst ` set (seen_of s) \<Longrightarrow> distinct (map fst (seen_of s)) \<Longrightarrow>
    \<exists>s' t. trim_loop blob budget s dropped = (s', Inr t) \<and> trim_post sz budget s dropped s' t"
proof (induction "nat (us_hours s) + length (us_profiles s)" arbitrary: s dropped rule: less_induct)
  case less
  define bytes where "bytes = sz (usage_Snapshot s)"
  have turn: "trim_loop blob budget s dropped =
     (if bytes \<le> budget \<or> us_profiles s = [] then (s, Inr \<lparr>tr_Hours = us_hours s, tr_Dropped = dropped, tr_Bytes = bytes\<rparr>)
      else if 1 < us_hours s then
        let hrs = us_hours s - 1
        in trim_loop blob budget (s\<lparr>us_hours := hrs,
             us_profiles := map (\<lambda>(app, p). (app, p\<lparr>pr_CPU := Shrink hrs (pr_CPU p), pr_Mem := Shrink hrs (pr_Mem p)\<rparr>)) (us_profiles s)\<rparr>) dropped
      else trim_loop blob budget (fst (dropOldest s)) (dropped @ [snd (dropOldest s)]))"
    by (subst trim_loop.simps) (simp only: assms option.case bytes_def)
  consider (fits) "bytes \<le> budget \<or> us_profiles s = []"
    | (shorten) "\<not> (bytes \<le> budget \<or> us_profiles s = [])" "1 < us_hours s"
    | (drop) "\<not> (bytes \<le> budget \<or> us_profiles s = [])" "\<not> 1 < us_hours s" by blast
  then show ?case
  proof cases
    case fits
    then have "trim_loop blob budget s dropped = (s, Inr \<lparr>tr_Hours = us_hours s, tr_Dropped = dropped, tr_Bytes = bytes\<rparr>)"
      by (simp add: turn)
    moreover have "trim_post sz budget s dropped s \<lparr>tr_Hours = us_hours s, tr_Dropped = dropped, tr_Bytes = bytes\<rparr>"
      using fits less.prems by (simp add: trim_post_def bytes_def)
    ultimately show ?thesis by blast
  next
    case shorten
    define hrs where "hrs = us_hours s - 1"
    define s1 where "s1 = s\<lparr>us_hours := hrs,
      us_profiles := map (\<lambda>(app, p). (app, p\<lparr>pr_CPU := Shrink hrs (pr_CPU p), pr_Mem := Shrink hrs (pr_Mem p)\<rparr>)) (us_profiles s)\<rparr>"
    have seen: "seen_of s1 = seen_of s" by (simp add: seen_of_def s1_def case_prod_unfold)
    have h1: "us_hours s1 = us_hours s - 1" by (simp add: s1_def hrs_def)
    have l: "trim_loop blob budget s dropped = trim_loop blob budget s1 dropped"
      using shorten by (simp add: turn Let_def s1_def hrs_def)
    have "nat (us_hours s1) + length (us_profiles s1) < nat (us_hours s) + length (us_profiles s)"
      using shorten(2) by (simp add: s1_def hrs_def)
    then obtain s' t where "trim_loop blob budget s1 dropped = (s', Inr t)" "trim_post sz budget s1 dropped s' t"
      using less.hyps[of s1 dropped] shorten(2) less.prems h1 seen by auto
    then show ?thesis using l h1 seen by (auto simp: trim_post_def)
  next
    case drop
    obtain s1 a where d: "dropOldest s = (s1, a)" by fastforce
    have h1: "us_hours s1 = us_hours s" "us_hours s = 1" using d drop less.prems by (auto simp: dropOldest_def)
    obtain u where u: "(a, u) \<in> set (seen_of s)" "\<forall>(b, w)\<in>set (seen_of s). u \<le> w"
        "set (seen_of s1) = set (seen_of s) - {(a, u)}" "distinct (map fst (seen_of s1))"
      using dropOldest_seen[of s] drop less.prems unfolding d by auto
    have only: "w = u" if "(a, w) \<in> set (seen_of s)" for w using that u(1) less.prems(3) by (auto dest: eq_key_imp_eq_value)
    have "nat (us_hours s1) + length (us_profiles s1) < nat (us_hours s) + length (us_profiles s)"
      using dropOldest_shorter[of s] drop h1 unfolding d by simp
    then obtain s' t where r: "trim_loop blob budget s1 (dropped @ [a]) = (s', Inr t)" "trim_post sz budget s1 (dropped @ [a]) s' t"
      using less.hyps[of s1 "dropped @ [a]"] less.prems h1 u by force
    then obtain lost where lost: "tr_Dropped t = dropped @ a # lost" "set (seen_of s') = {(b, w) \<in> set (seen_of s1). b \<notin> set lost}"
        "\<forall>(b, w)\<in>set (seen_of s1). \<forall>(c, x)\<in>set (seen_of s'). b \<in> set lost \<longrightarrow> w \<le> x"
      by (auto simp: trim_post_def)
    have eq: "set (seen_of s') = {(b, w) \<in> set (seen_of s). b \<notin> set (a # lost)}" using lost(2) u(3) only by auto
    have "w \<le> x" if "(b, w) \<in> set (seen_of s)" "(c, x) \<in> set (seen_of s')" "b \<in> set (a # lost)" for b w c x
    proof (cases "b = a")
      case True
      then have "w = u" using only that(1) by blast
      then show ?thesis using u(2,3) lost(2) that(2) by blast
    next
      case False
      then have "(b, w) \<in> set (seen_of s1)" "b \<in> set lost" using u(3) that by auto
      then show ?thesis using lost(3) that(2) by blast
    qed
    then have ord: "\<forall>(b, w)\<in>set (seen_of s). \<forall>(c, x)\<in>set (seen_of s'). b \<in> set (a # lost) \<longrightarrow> w \<le> x" by blast
    have run: "trim_loop blob budget s dropped = (s', Inr t)" using drop r(1) by (simp add: turn d)
    have fin: "tr_Bytes t = sz (usage_Snapshot s')" "tr_Bytes t \<le> budget \<or> us_profiles s' = []" "tr_Hours t = us_hours s'"
        "us_hours s' = 1" "us_hours s' \<le> us_hours s" "1 \<le> us_hours s'"
      using r(2) h1 by (auto simp: trim_post_def)
    show ?thesis using run fin eq ord lost(1) unfolding trim_post_def by blast
  qed
qed

text \<open>
  C38. Trimming always ends within the budget and degrades uniformly. Whatever the
  encoder's sizes, \<open>Trim\<close> returns; what is left fits the budget or is empty; no
  application is dropped while any window is longer than an hour; every application not
  named as dropped is kept with the time it was last seen, and none that was dropped had
  been seen more recently than one that was kept.
\<close>

theorem trim_degrades_uniformly:
  assumes "\<forall>x. blob x = Some (sz x)" and "1 \<le> us_hours s" "'''' \<notin> fst ` set (us_profiles s)" "distinct (map fst (us_profiles s))"
  shows "\<exists>s' t. Trim blob budget s = (s', Inr t)
    \<and> (sz (usage_Snapshot s') \<le> (if budget \<le> 0 then DefaultBudget else nat budget) \<or> us_profiles s' = [])
    \<and> tr_Hours t = us_hours s' \<and> us_hours s' \<le> us_hours s \<and> (tr_Dropped t \<noteq> [] \<longrightarrow> us_hours s' = 1)
    \<and> set (seen_of s') = {(a, u) \<in> set (seen_of s). a \<notin> set (tr_Dropped t)}
    \<and> (\<forall>(a, u)\<in>set (seen_of s). \<forall>(b, w)\<in>set (seen_of s'). a \<in> set (tr_Dropped t) \<longrightarrow> u \<le> w)"
proof -
  have "distinct (map fst (seen_of s))" using assms(4) by (simp add: seen_of_def comp_def case_prod_unfold)
  then obtain s' t where "Trim blob budget s = (s', Inr t)" "trim_post sz (if budget \<le> 0 then DefaultBudget else nat budget) s [] s' t"
    unfolding Trim_def using trim_loop_post[of blob sz s] assms(1-3) by (metis seen_of_keys)
  then show ?thesis by (auto simp: trim_post_def)
qed

theorem trim_degrades_uniformly_witness:
  "\<exists>s' t. Trim (\<lambda>x. Some (100 * length (uv_Profiles x))) 150
       \<lparr>us_hours = 1, us_profiles = [(''new'', (new_profile 1 0)\<lparr>pr_LastSeen := 9\<rparr>), (''old'', (new_profile 1 0)\<lparr>pr_LastSeen := 4\<rparr>)]\<rparr> = (s', Inr t)
     \<and> tr_Hours t = us_hours s'"
proof -
  let ?s = "\<lparr>us_hours = 1, us_profiles = [(''new'', (new_profile 1 0)\<lparr>pr_LastSeen := 9\<rparr>), (''old'', (new_profile 1 0)\<lparr>pr_LastSeen := 4\<rparr>)]\<rparr>"
  have "\<forall>x. (\<lambda>x. Some (100 * length (uv_Profiles x))) x = Some ((\<lambda>x. 100 * length (uv_Profiles x)) x)" by simp
  from trim_degrades_uniformly[OF this, of ?s 150] show ?thesis by auto
qed

section \<open>The encoded histogram\<close>

lemma unmarshal_replay:
  "distinct (map fst (m @ m')) \<Longrightarrow> (\<forall>b\<in>fst ` set m'. 0 \<le> b \<and> b < numBuckets) \<Longrightarrow>
     unmarshal_buckets (map (\<lambda>(b, c). (format_int b, c)) m') m = Inr (m @ m')"
proof (induction m' arbitrary: m)
  case (Cons bc m')
  obtain b c where bc: "bc = (b, c)" by (cases bc)
  have "0 \<le> b" "b < numBuckets" "b \<notin> fst ` set m" using Cons.prems bc by auto
  moreover from this have "parse_int64 (format_int b) = Some b" by (intro parse_format_int) (simp_all add: numBuckets_value)
  moreover have "AList.update b c m = m @ [(b, c)]" using \<open>b \<notin> fst ` set m\<close> by (induction m) auto
  ultimately show ?case using Cons.IH[of "m @ [(b, c)]"] Cons.prems bc by simp
qed simp

text \<open>Decoding gives back any histogram that holds samples, and no bucket outside the scheme gets in.\<close>

lemma hist_round_trip:
  assumes "hist_rep h M" "\<forall>b\<in>fst ` set (h_counts h). 0 \<le> b \<and> b < numBuckets"
  shows "hist_unmarshal (hist_marshal h) = Inr h"
proof -
  have "distinct (map fst (h_counts h))" using assms(1) by (simp add: hist_rep_def)
  then show ?thesis using unmarshal_replay[of "[]" "h_counts h"] assms(2) by (simp add: hist_unmarshal_def hist_marshal_def)
qed

lemma unmarshal_in_scheme:
  "unmarshal_buckets kcs m = Inr m' \<Longrightarrow> \<forall>b\<in>fst ` set m. 0 \<le> b \<and> b < numBuckets \<Longrightarrow> \<forall>b\<in>fst ` set m'. 0 \<le> b \<and> b < numBuckets"
proof (induction kcs m rule: unmarshal_buckets.induct)
  case (2 k c kcs m)
  then show ?case by (auto split: option.splits if_splits simp: dom_update)
qed simp

end
