(* ===== verification/Adapt.thy ===== *)
theory Adapt
  imports Pricing Usage
begin

text \<open>
  What an application should reserve, from what it used (\<open>technocore/adapt/adapt.go\<close>).
  Headrooms, bands and steps are exact reals where the code has float64; the texts an
  operator reads are the constructors of \<open>hold\<close>.
\<close>

section \<open>Configuration\<close>

record adapt_config =
  ac_CPUHeadroom :: real
  ac_MemHeadroom :: real
  ac_Deadband :: real
  ac_MaxStep :: real
  ac_MinCPUMilli :: int
  ac_MinMemMiB :: int

definition MinCPUMilli :: int where "MinCPUMilli = BurstingMinCPUMilli"
definition MinMemMiB :: int where "MinMemMiB = 64"

definition withDefaults :: "adapt_config \<Rightarrow> adapt_config" where
  "withDefaults c = \<lparr>
     ac_CPUHeadroom = (if ac_CPUHeadroom c \<le> 0 then 13 / 10 else ac_CPUHeadroom c),
     ac_MemHeadroom = (if ac_MemHeadroom c \<le> 0 then 15 / 10 else ac_MemHeadroom c),
     ac_Deadband = (if ac_Deadband c \<le> 0 then 25 / 100 else ac_Deadband c),
     ac_MaxStep = (if ac_MaxStep c \<le> 1 then 2 else ac_MaxStep c),
     ac_MinCPUMilli = (if ac_MinCPUMilli c \<le> 0 then MinCPUMilli else ac_MinCPUMilli c),
     ac_MinMemMiB = (if ac_MinMemMiB c \<le> 0 then MinMemMiB else ac_MinMemMiB c)\<rparr>"

definition zero_config :: adapt_config where
  "zero_config = \<lparr>ac_CPUHeadroom = 0, ac_MemHeadroom = 0, ac_Deadband = 0, ac_MaxStep = 0, ac_MinCPUMilli = 0, ac_MinMemMiB = 0\<rparr>"

section \<open>Advice\<close>

datatype hold =
    No_hold
  | Reservation_unknown
  | Readings_thin nat
  | Within_band
  | At_billing_floor
  | No_profile
  | Many_containers nat
  | Resized_recently duration
  | Would_reach_limit real

record advice =
  ad_App :: string
  ad_CurrentCPUMilli :: int
  ad_CurrentMemMiB :: int
  ad_CPUMilli :: int
  ad_MemMiB :: int
  ad_Act :: bool
  ad_Hold :: hold
  ad_Stepped :: bool

definition advice_MonthlyDeltaUSD :: "advice \<Rightarrow> real" where
  "advice_MonthlyDeltaUSD a =
     PodMonthlyUSD (ad_CPUMilli a) (ad_MemMiB a) - PodMonthlyUSD (ad_CurrentCPUMilli a) (ad_CurrentMemMiB a)"

definition worthwhileUSD :: real where "worthwhileUSD = 1 / 100"

definition scale_obs :: "int \<Rightarrow> real \<Rightarrow> int \<Rightarrow> int" where
  "scale_obs observed factor floor' = max \<lceil>of_int observed * factor\<rceil> floor'"

definition step :: "int \<Rightarrow> int \<Rightarrow> real \<Rightarrow> int \<Rightarrow> int \<times> bool" where
  "step current target maxStep floor' =
     (let upper = \<lceil>of_int current * maxStep\<rceil>;
          lower = max \<lceil>of_int current / maxStep\<rceil> floor' in
      if upper < target then (upper, True)
      else if target < lower then (lower, True)
      else (target, False))"

definition outsideDeadband :: "int \<Rightarrow> int \<Rightarrow> real \<Rightarrow> bool" where
  "outsideDeadband current target band \<longleftrightarrow>
     (if current \<le> 0 then 0 < target else band < \<bar>of_int (target - current)\<bar> / of_int current)"

definition current_advice :: "summary \<Rightarrow> advice" where
  "current_advice s = \<lparr>ad_App = su_App s,
     ad_CurrentCPUMilli = su_RequestCPUMilli s, ad_CurrentMemMiB = su_RequestMemMiB s,
     ad_CPUMilli = su_RequestCPUMilli s, ad_MemMiB = su_RequestMemMiB s,
     ad_Act = False, ad_Hold = No_hold, ad_Stepped = False\<rparr>"

definition Recommend :: "summary \<Rightarrow> adapt_config \<Rightarrow> advice" where
  "Recommend s cfg0 =
     (let cfg = withDefaults cfg0; a = current_advice s;
          reqCPU = su_RequestCPUMilli s; reqMem = su_RequestMemMiB s;
          dayCPU = wi_Day (su_CPU s); dayMem = wi_Day (su_Mem s) in
      if reqCPU \<le> 0 \<or> reqMem \<le> 0 then a\<lparr>ad_Hold := Reservation_unknown\<rparr>
      else if Thin dayCPU \<or> Thin dayMem then a\<lparr>ad_Hold := Readings_thin (min (st_Samples dayCPU) (st_Samples dayMem))\<rparr>
      else
        let cpu0 = scale_obs (st_P95 dayCPU) (ac_CPUHeadroom cfg) (ac_MinCPUMilli cfg);
            mem0 = scale_obs (st_Peak dayMem) (ac_MemHeadroom cfg) (ac_MinMemMiB cfg);
            (cpu, cpuStepped) = step reqCPU cpu0 (ac_MaxStep cfg) (ac_MinCPUMilli cfg);
            (mem, memStepped) = step reqMem mem0 (ac_MaxStep cfg) (ac_MinMemMiB cfg) in
        if \<not> outsideDeadband reqCPU cpu (ac_Deadband cfg) \<and> \<not> outsideDeadband reqMem mem (ac_Deadband cfg)
        then a\<lparr>ad_Hold := Within_band\<rparr>
        else
          let b = a\<lparr>ad_CPUMilli := cpu, ad_MemMiB := mem, ad_Act := True, ad_Stepped := cpuStepped \<or> memStepped\<rparr>
          in if \<bar>advice_MonthlyDeltaUSD b\<bar> < worthwhileUSD
             then b\<lparr>ad_CPUMilli := reqCPU, ad_MemMiB := reqMem, ad_Act := False, ad_Stepped := False, ad_Hold := At_billing_floor\<rparr>
             else b)"

section \<open>What a recommendation may say\<close>

lemma withDefaults_pos:
  "0 < ac_CPUHeadroom (withDefaults c)" "0 < ac_MemHeadroom (withDefaults c)" "1 < ac_MaxStep (withDefaults c)"
  "0 < ac_MinCPUMilli (withDefaults c)" "0 < ac_MinMemMiB (withDefaults c)"
  by (simp_all add: withDefaults_def MinCPUMilli_def MinMemMiB_def rate_card_defs)

lemma step_bounds:
  assumes "0 < current" "1 < maxStep"
  shows "fl \<le> target \<Longrightarrow> fst (step current target maxStep fl) \<le> \<lceil>of_int current * maxStep\<rceil>"
    and "of_int current / maxStep \<le> of_int (fst (step current target maxStep fl))"
    and "\<not> snd (step current target maxStep fl) \<Longrightarrow> fst (step current target maxStep fl) = target"
    and "fl \<le> fst (step current target maxStep fl) \<or> fst (step current target maxStep fl) = \<lceil>of_int current * maxStep\<rceil>"
proof -
  have c: "of_int current / maxStep < of_int current" "of_int current < of_int current * maxStep"
    using assms by (simp_all add: field_simps)
  have u: "\<lceil>of_int current / maxStep\<rceil> \<le> \<lceil>of_int current * maxStep\<rceil>" using c by (intro ceiling_mono) simp
  show "of_int current / maxStep \<le> of_int (fst (step current target maxStep fl))"
    using u by (auto simp: step_def Let_def) linarith+
  show "\<not> snd (step current target maxStep fl) \<Longrightarrow> fst (step current target maxStep fl) = target"
    by (auto simp: step_def Let_def split: if_splits)
  show "fl \<le> fst (step current target maxStep fl) \<or> fst (step current target maxStep fl) = \<lceil>of_int current * maxStep\<rceil>"
    by (auto simp: step_def Let_def)
  show "fl \<le> target \<Longrightarrow> fst (step current target maxStep fl) \<le> \<lceil>of_int current * maxStep\<rceil>"
    using u by (auto simp: step_def Let_def)
qed

text \<open>The four ways out of a recommendation, with what each returns.\<close>

lemma Recommend_cases:
  obtains (held) h where "Recommend s cfg = (current_advice s)\<lparr>ad_Hold := h\<rparr>" "h \<noteq> No_hold"
  | (acts) cpu mem cs ms where
      "step (su_RequestCPUMilli s) (scale_obs (st_P95 (wi_Day (su_CPU s))) (ac_CPUHeadroom (withDefaults cfg)) (ac_MinCPUMilli (withDefaults cfg)))
         (ac_MaxStep (withDefaults cfg)) (ac_MinCPUMilli (withDefaults cfg)) = (cpu, cs)"
      "step (su_RequestMemMiB s) (scale_obs (st_Peak (wi_Day (su_Mem s))) (ac_MemHeadroom (withDefaults cfg)) (ac_MinMemMiB (withDefaults cfg)))
         (ac_MaxStep (withDefaults cfg)) (ac_MinMemMiB (withDefaults cfg)) = (mem, ms)"
      "Recommend s cfg = (current_advice s)\<lparr>ad_CPUMilli := cpu, ad_MemMiB := mem, ad_Act := True, ad_Stepped := cs \<or> ms\<rparr>"
      "0 < su_RequestCPUMilli s" "0 < su_RequestMemMiB s" "\<not> Thin (wi_Day (su_CPU s))" "\<not> Thin (wi_Day (su_Mem s))"
      "worthwhileUSD \<le> \<bar>advice_MonthlyDeltaUSD (Recommend s cfg)\<bar>"
proof -
  obtain cpu cs where cpu: "step (su_RequestCPUMilli s) (scale_obs (st_P95 (wi_Day (su_CPU s))) (ac_CPUHeadroom (withDefaults cfg)) (ac_MinCPUMilli (withDefaults cfg)))
         (ac_MaxStep (withDefaults cfg)) (ac_MinCPUMilli (withDefaults cfg)) = (cpu, cs)" by fastforce
  obtain mem ms where mem: "step (su_RequestMemMiB s) (scale_obs (st_Peak (wi_Day (su_Mem s))) (ac_MemHeadroom (withDefaults cfg)) (ac_MinMemMiB (withDefaults cfg)))
         (ac_MaxStep (withDefaults cfg)) (ac_MinMemMiB (withDefaults cfg)) = (mem, ms)" by fastforce
  define b where "b = (current_advice s)\<lparr>ad_CPUMilli := cpu, ad_MemMiB := mem, ad_Act := True, ad_Stepped := cs \<or> ms\<rparr>"
  have kept: "b\<lparr>ad_CPUMilli := su_RequestCPUMilli s, ad_MemMiB := su_RequestMemMiB s, ad_Act := False, ad_Stepped := False, ad_Hold := At_billing_floor\<rparr>
      = (current_advice s)\<lparr>ad_Hold := At_billing_floor\<rparr>" by (simp add: b_def current_advice_def)
  note R = Recommend_def[of s cfg, unfolded Let_def cpu mem prod.case, folded b_def, unfolded kept]
  show thesis
  proof (cases "\<exists>h. Recommend s cfg = (current_advice s)\<lparr>ad_Hold := h\<rparr> \<and> h \<noteq> No_hold")
    case True
    then show thesis using held by blast
  next
    case False
    then have "Recommend s cfg = b \<and> 0 < su_RequestCPUMilli s \<and> 0 < su_RequestMemMiB s \<and> \<not> Thin (wi_Day (su_CPU s))
        \<and> \<not> Thin (wi_Day (su_Mem s)) \<and> worthwhileUSD \<le> \<bar>advice_MonthlyDeltaUSD b\<bar>"
      unfolding R by (auto split: if_splits simp: not_le not_less)
    then show thesis using acts[OF cpu mem] b_def by simp
  qed
qed

text \<open>
  A recommendation moves a reservation only on evidence and only so far. When it
  acts, the reservation was known, each resource has at least 120 readings, neither moves
  beyond the step factor in either direction, the monthly bill changes by at least a cent,
  and unless a step was clamped the new CPU covers the 95th percentile and the new memory
  covers the observed peak, each with its headroom and above its floor. When it does not
  act it carries the current reservation and a reason.
\<close>

theorem recommendation_is_bounded:
  fixes s cfg0
  defines "a \<equiv> Recommend s cfg0" and "cfg \<equiv> withDefaults cfg0"
  shows "if ad_Act a then
      ad_Hold a = No_hold \<and> 120 \<le> st_Samples (wi_Day (su_CPU s)) \<and> 120 \<le> st_Samples (wi_Day (su_Mem s))
      \<and> ad_CPUMilli a \<le> \<lceil>of_int (ad_CurrentCPUMilli a) * ac_MaxStep cfg\<rceil> \<and> of_int (ad_CurrentCPUMilli a) / ac_MaxStep cfg \<le> of_int (ad_CPUMilli a)
      \<and> ad_MemMiB a \<le> \<lceil>of_int (ad_CurrentMemMiB a) * ac_MaxStep cfg\<rceil> \<and> of_int (ad_CurrentMemMiB a) / ac_MaxStep cfg \<le> of_int (ad_MemMiB a)
      \<and> 1 / 100 \<le> \<bar>advice_MonthlyDeltaUSD a\<bar>
      \<and> (\<not> ad_Stepped a \<longrightarrow> ac_MinCPUMilli cfg \<le> ad_CPUMilli a \<and> ac_MinMemMiB cfg \<le> ad_MemMiB a
          \<and> of_int (st_P95 (wi_Day (su_CPU s))) * ac_CPUHeadroom cfg \<le> of_int (ad_CPUMilli a)
          \<and> of_int (st_Peak (wi_Day (su_Mem s))) * ac_MemHeadroom cfg \<le> of_int (ad_MemMiB a))
    else ad_Hold a \<noteq> No_hold \<and> \<not> ad_Stepped a \<and> ad_CPUMilli a = ad_CurrentCPUMilli a \<and> ad_MemMiB a = ad_CurrentMemMiB a"
proof (cases rule: Recommend_cases[where s = s and cfg = cfg0])
  case (held h)
  then show ?thesis by (simp add: a_def current_advice_def)
next
  case (acts cpu mem cs ms)
  have fl: "fl \<le> scale_obs x f fl" "of_int x * f \<le> of_int (scale_obs x f fl)" for x f fl
    by (simp_all add: scale_obs_def le_max_iff_disj) linarith
  note c = step_bounds[OF acts(4) withDefaults_pos(3)] and m = step_bounds[OF acts(5) withDefaults_pos(3)]
  have "cpu \<le> \<lceil>of_int (su_RequestCPUMilli s) * ac_MaxStep cfg\<rceil> \<and> of_int (su_RequestCPUMilli s) / ac_MaxStep cfg \<le> of_int cpu"
    using c(1)[OF fl(1)] c(2) acts(1) unfolding cfg_def by (metis fst_conv)
  moreover have "mem \<le> \<lceil>of_int (su_RequestMemMiB s) * ac_MaxStep cfg\<rceil> \<and> of_int (su_RequestMemMiB s) / ac_MaxStep cfg \<le> of_int mem"
    using m(1)[OF fl(1)] m(2) acts(2) unfolding cfg_def by (metis fst_conv)
  moreover have "ac_MinCPUMilli cfg \<le> cpu \<and> of_int (st_P95 (wi_Day (su_CPU s))) * ac_CPUHeadroom cfg \<le> of_int cpu" if "\<not> cs"
    using c(3) that acts(1) fl unfolding cfg_def by (metis fst_conv snd_conv)
  moreover have "ac_MinMemMiB cfg \<le> mem \<and> of_int (st_Peak (wi_Day (su_Mem s))) * ac_MemHeadroom cfg \<le> of_int mem" if "\<not> ms"
    using m(3) that acts(2) fl unfolding cfg_def by (metis fst_conv snd_conv)
  ultimately show ?thesis using acts(6-8)
    by (simp add: a_def acts(3) current_advice_def Thin_def MinSamples_def worthwhileUSD_def)
qed

text \<open>A summary with 200 readings: what the examples below use.\<close>

definition steady :: "int \<Rightarrow> int \<Rightarrow> int \<Rightarrow> int \<Rightarrow> summary" where
  "steady reqCPU reqMem p95 peak =
     (let w = \<lambda>p q. \<lparr>st_Samples = 200, st_Mean = 0, st_P50 = 0, st_P95 = p, st_Peak = q\<rparr> in
      \<lparr>su_App = ''shop'', su_Pods = 1, su_LastSeen = 0, su_Hours = 24, su_RequestCPUMilli = reqCPU, su_RequestMemMiB = reqMem,
       su_CPU = \<lparr>wi_Hour = w p95 p95, wi_Day = w p95 p95\<rparr>, su_Mem = \<lparr>wi_Hour = w peak peak, wi_Day = w peak peak\<rparr>\<rparr>)"

theorem recommendation_is_bounded_witness:
  "ad_Act (Recommend (steady 100 100 100 100) zero_config) \<and> 150 \<le> ad_MemMiB (Recommend (steady 100 100 100 100) zero_config)"
proof -
  have e: "Recommend (steady 100 100 100 100) zero_config = (current_advice (steady 100 100 100 100))\<lparr>ad_CPUMilli := 130, ad_MemMiB := 150, ad_Act := True\<rparr>"
    by (simp add: Recommend_def steady_def Let_def zero_config_def withDefaults_def MinCPUMilli_def MinMemMiB_def rate_card_defs
        Thin_def MinSamples_def scale_obs_def step_def outsideDeadband_def current_advice_def advice_MonthlyDeltaUSD_def
        PodMonthlyUSD_def podMonthlyUSD_def worthwhileUSD_def)
  have "ad_Act (Recommend (steady 100 100 100 100) zero_config)" "\<not> ad_Stepped (Recommend (steady 100 100 100 100) zero_config)"
    unfolding e by (simp_all add: current_advice_def)
  with recommendation_is_bounded[of "steady 100 100 100 100" zero_config] show ?thesis
    by (simp add: steady_def withDefaults_def zero_config_def)
qed

section \<open>Repeated steps converge\<close>

lemma step_up: "0 < c \<Longrightarrow> c < target \<Longrightarrow> fl \<le> target \<Longrightarrow> 2 \<le> ms \<Longrightarrow> c < fst (step c target ms fl) \<and> fst (step c target ms fl) \<le> target"
proof -
  assume a: "0 < c" "c < target" "fl \<le> target" "2 \<le> ms"
  have "of_int c * 2 \<le> of_int c * ms" using a by (intro mult_left_mono) simp_all
  moreover have "1 \<le> real_of_int c" using a(1) by simp
  ultimately have "of_int c + 1 \<le> of_int c * ms" by linarith
  then have "c + 1 \<le> \<lceil>of_int c * ms\<rceil>" by linarith
  moreover have "of_int c / ms \<le> of_int c" using a by (simp add: field_simps)
  then have "\<lceil>of_int c / ms\<rceil> \<le> c" by linarith
  ultimately show ?thesis using a by (auto simp: step_def Let_def)
qed

lemma step_down: "0 < target \<Longrightarrow> target < c \<Longrightarrow> fl \<le> target \<Longrightarrow> 2 \<le> ms \<Longrightarrow> target \<le> fst (step c target ms fl) \<and> fst (step c target ms fl) < c"
proof -
  assume a: "0 < target" "target < c" "fl \<le> target" "2 \<le> ms"
  have "of_int c \<le> of_int c * ms" using a mult_left_mono[of 1 ms "of_int c"] by simp
  then have "c \<le> \<lceil>of_int c * ms\<rceil>" by linarith
  moreover have "of_int c / ms \<le> of_int c / 2" using a by (intro divide_left_mono) auto
  then have "\<lceil>of_int c / ms\<rceil> < c" using a by linarith
  ultimately show ?thesis using a by (auto simp: step_def Let_def)
qed

lemma step_fixed: "0 < c \<Longrightarrow> fl \<le> c \<Longrightarrow> 2 \<le> ms \<Longrightarrow> fst (step c c ms fl) = c"
proof -
  assume a: "0 < c" "fl \<le> c" "2 \<le> ms"
  have "of_int c \<le> of_int c * ms" "of_int c / ms \<le> of_int c" using a mult_left_mono[of 1 ms "of_int c"] by (simp_all add: field_simps)
  then have "c \<le> \<lceil>of_int c * ms\<rceil>" "\<lceil>of_int c / ms\<rceil> \<le> c" by linarith+
  then show ?thesis using a by (auto simp: step_def Let_def)
qed

text \<open>
  A clamped step is never the last word. For any target at or above the floor and
  a step factor of at least the default two, taking steps from any reservation reaches
  the target, in no more steps than their distance, and stays there.
\<close>

theorem steps_converge:
  assumes "0 < c" "0 < target" "fl \<le> target" "2 \<le> ms" "nat \<bar>target - c\<bar> \<le> n"
  shows "((\<lambda>x. fst (step x target ms fl)) ^^ n) c = target"
  using assms
proof (induction n arbitrary: c)
  case 0
  then show ?case by simp
next
  case (Suc n)
  define d where "d = fst (step c target ms fl)"
  consider "c < target" | "target < c" | "c = target" by linarith
  then have d: "0 < d \<and> nat \<bar>target - d\<bar> \<le> n"
  proof cases
    case 1
    then show ?thesis using step_up[of c target fl ms] Suc.prems by (simp add: d_def) linarith
  next
    case 2
    then show ?thesis using step_down[of target c fl ms] Suc.prems by (simp add: d_def) linarith
  next
    case 3
    then show ?thesis using step_fixed[of c fl ms] Suc.prems by (simp add: d_def)
  qed
  have "((\<lambda>x. fst (step x target ms fl)) ^^ Suc n) c = ((\<lambda>x. fst (step x target ms fl)) ^^ n) d"
    by (simp only: funpow_Suc_right comp_def d_def)
  then show ?case using Suc.IH[of d] Suc.prems d by simp
qed

theorem steps_converge_witness: "((\<lambda>x. fst (step x 400 2 50)) ^^ 350) 50 = 400"
  using steps_converge[of 50 400 50 2 350] by simp

text \<open>
  The floor is not kept when the reservation starts far below it: the step clamp
  is applied last, so an act from 10 millicores is advised 20, under the floor of 50.
\<close>

theorem recommendation_below_floor:
  "ad_Act (Recommend (steady 10 100 40 100) zero_config)
   \<and> ad_CPUMilli (Recommend (steady 10 100 40 100) zero_config) = 20
   \<and> ac_MinCPUMilli (withDefaults zero_config) = 50"
  by (simp add: Recommend_def steady_def Let_def zero_config_def withDefaults_def MinCPUMilli_def MinMemMiB_def rate_card_defs
      Thin_def MinSamples_def scale_obs_def step_def outsideDeadband_def current_advice_def advice_MonthlyDeltaUSD_def
      PodMonthlyUSD_def podMonthlyUSD_def worthwhileUSD_def)

end
