(* ===== verification/Kernel.thy ===== *)
theory Kernel
  imports Ledger Period Adapt
begin

text \<open>
  TechnoCore's reconcile loop (\<open>technocore/kernel/reconcile.go\<close>, \<open>namespaces.go\<close>,
  \<open>confirmations.go\<close>, \<open>usage.go\<close>) and the protective shutdown (\<open>shutdown.go\<close>). A tick is a
  function of the reconciler's state, the instant and what the cluster and the operator's
  documents answer; it returns the new state and a report or an error. The API server's
  answers are the fields of \<open>tick_env\<close>.
\<close>

section \<open>What the cluster answers\<close>

record deployment =
  dp_name :: string
  dp_labels :: labels
  dp_annotations :: labels
  dp_spec_replicas :: "int option"
  dp_status_replicas :: int
  dp_selector :: "labels option"

record pod_metrics =
  pm_name :: string
  pm_timestamp :: gotime
  pm_containers :: "container list"

text \<open>A listing takes a namespace and a selector; an error is its text. A nil source is \<open>None\<close>.\<close>

record tick_env =
  te_ListPods :: "string \<Rightarrow> string \<Rightarrow> string + pod list"
  te_ListDeployments :: "string \<Rightarrow> string \<Rightarrow> string + deployment list"
  te_ListPodMetrics :: "string \<Rightarrow> string \<Rightarrow> string + pod_metrics list"
  te_Confirmations :: "(string + confirmation list) option"
  te_Discover :: "(string + string list) option"
  te_pfloat :: "string \<Rightarrow> gofloat option"

section \<open>The reconciler and its report\<close>

datatype kernel_error =
    Roll_period period_error
  | Roll_ledger cost_error
  | Source_failed string
  | Confirmation_bad cost_error
  | Pod_bad string string quantity_error
  | None_readable "string list"

text \<open>What could not be profiled: a namespace's metrics, or one reading.\<close>

datatype usage_gap = Namespace_gap string | Reading_gap string quantity_error

record workload =
  wl_Namespace :: string
  wl_Name :: string
  wl_App :: string
  wl_Tier :: tier
  wl_Labels :: labels
  wl_Containers :: "string list"
  wl_CPUMilli :: int
  wl_MemMiB :: int
  wl_HourlyUSD :: real

record target =
  tg_Namespace :: string
  tg_Name :: string
  tg_Tier :: tier
  tg_Replicas :: int
  tg_Pods :: int
  tg_HourlyUSD :: real
  tg_App :: string
  tg_Containers :: "string list"
  tg_CPUMilli :: int
  tg_MemMiB :: int
  tg_Annotations :: labels

record observation =
  ob_At :: gotime
  ob_Pods :: int
  ob_Unclassified :: int
  ob_RateHourlyUSD :: real
  ob_Level :: level
  ob_Limit :: real
  ob_Incomplete :: bool
  ob_Unreachable :: "string list"

record adaptation =
  an_Advice :: advice
  an_Namespace :: string
  an_Deployment :: string
  an_Container :: string
  an_Replicas :: int
  an_Stored :: bool
  an_Overridden :: bool
  an_AskedCPUMilli :: int
  an_AskedMemMiB :: int

record reconciler =
  rc_Namespaces :: "string list"
  rc_Ledger :: ledger
  rc_Limit :: real
  rc_Interval :: duration
  rc_Period :: string
  rc_Selector :: string
  rc_Last :: gotime
  rc_Observed :: "observation option"
  rc_Usage :: "usage_store option"
  rc_lastReading :: "(string \<times> gotime) list"
  rc_Advice :: adapt_config
  rc_Cooldown :: duration
  rc_Adapting :: bool
  rc_lastAdvice :: "adaptation list"
  rc_usageUnavailable :: "usage_gap list"

record report =
  rp_At :: gotime
  rp_Since :: gotime
  rp_Billed :: duration
  rp_Rolled :: bool
  rp_Metered :: "string list"
  rp_Unreachable :: "string list"
  rp_ConfirmationsApplied :: nat
  rp_ConfirmationsRefused :: nat
  rp_Reconstructed :: bool
  rp_Workloads :: "workload list"
  rp_Unclassified :: int
  rp_RateHourlyUSD :: real
  rp_RateByTier :: "(tier \<times> real) list"
  rp_RateByApp :: "(string \<times> real) list"
  rp_Accrual :: accrual
  rp_Assessment :: assessment
  rp_Targets :: "target list"
  rp_UsageSampled :: nat
  rp_UsageRepeated :: nat
  rp_UsageUnavailable :: "usage_gap list"

definition Complete :: "report \<Rightarrow> bool" where
  "Complete rep \<longleftrightarrow> rp_Unreachable rep = []"

definition target_less :: "target \<Rightarrow> target \<Rightarrow> bool" where
  "target_less a b \<longleftrightarrow> (if tg_HourlyUSD a \<noteq> tg_HourlyUSD b then tg_HourlyUSD b < tg_HourlyUSD a else tg_Name a < tg_Name b)"

definition report_Stoppable :: "report \<Rightarrow> target list" where
  "report_Stoppable r = sort_by target_less (filter (\<lambda>t. Stoppable (tg_Tier t) \<and> 0 < tg_Replicas t) (rp_Targets r))"

section \<open>Rolling the period\<close>

definition Roll :: "gotime \<Rightarrow> reconciler \<Rightarrow> reconciler \<times> (kernel_error + bool)" where
  "Roll now r =
     (if rc_Period r = '''' then (r, Inr False)
      else if now < periodEnd (rc_Ledger r) then (r, Inr False)
      else
        case PeriodFor now (rc_Period r) of
          Inl e \<Rightarrow> (r, Inl (Roll_period e))
        | Inr (start, newEnd) \<Rightarrow>
            (case NewLedger start newEnd of
               Inl e \<Rightarrow> (r, Inl (Roll_ledger e))
             | Inr l \<Rightarrow> (r\<lparr>rc_Ledger := l\<rparr>, Inr True)))"

section \<open>Confirmations and namespaces\<close>

fun apply_loop :: "confirmation list \<Rightarrow> ledger \<Rightarrow> nat \<Rightarrow> nat \<Rightarrow> ledger \<times> (kernel_error + nat \<times> nat)" where
  "apply_loop [] l applied refused = (l, Inr (applied, refused))"
| "apply_loop (c # cs) l applied refused =
     (case Confirm c l of
        Inl ErrWindowOverlaps \<Rightarrow> apply_loop cs l applied refused
      | Inl ErrWindowOutsidePeriod \<Rightarrow> apply_loop cs l applied refused
      | Inl e \<Rightarrow> (l, Inl (Confirmation_bad e))
      | Inr (d, l') \<Rightarrow> apply_loop cs l' (applied + 1) (if d = None then refused else refused + 1))"

definition applyConfirmations :: "tick_env \<Rightarrow> reconciler \<Rightarrow> reconciler \<times> (kernel_error + nat \<times> nat)" where
  "applyConfirmations env r =
     (case te_Confirmations env of
        None \<Rightarrow> (r, Inr (0, 0))
      | Some (Inl e) \<Rightarrow> (r, Inl (Source_failed e))
      | Some (Inr cs) \<Rightarrow> (case apply_loop cs (rc_Ledger r) 0 0 of (l, res) \<Rightarrow> (r\<lparr>rc_Ledger := l\<rparr>, res)))"

definition meteredNamespaces :: "tick_env \<Rightarrow> reconciler \<Rightarrow> kernel_error + string list" where
  "meteredNamespaces env r =
     (case te_Discover env of
        None \<Rightarrow> Inr (sort (remdups (rc_Namespaces r)))
      | Some (Inl e) \<Rightarrow> Inl (Source_failed e)
      | Some (Inr found) \<Rightarrow>
          Inr (sort (remdups (rc_Namespaces r @ filter (\<lambda>ns. ns \<noteq> '''') (map trim_space found)))))"

section \<open>Metering\<close>

definition safeNamespaceError :: "string \<Rightarrow> string" where
  "safeNamespaceError e =
     (let s = takeWhile (\<lambda>c. c \<noteq> CHR 0x0A) e
      in if 160 < length s then take 160 s @ [byte 226, byte 128, byte 166] else s)"

definition appOf :: "pod \<Rightarrow> string" where
  "appOf p =
     (case find (\<lambda>k. get_or '''' (pod_labels p) k \<noteq> '''') [''app.kubernetes.io/name'', ''app''] of
        Some k \<Rightarrow> get_or '''' (pod_labels p) k
      | None \<Rightarrow> pod_name p)"

definition containerNames :: "pod \<Rightarrow> string list" where
  "containerNames p = map ct_name (pod_containers p)"

definition workload_of :: "string \<Rightarrow> pod \<Rightarrow> int \<Rightarrow> int \<Rightarrow> workload" where
  "workload_of ns p cpu mem = \<lparr>wl_Namespace = (if pod_namespace p = '''' then ns else pod_namespace p), wl_Name = pod_name p,
     wl_App = appOf p, wl_Tier = Of (pod_labels p), wl_Labels = pod_labels p, wl_Containers = containerNames p,
     wl_CPUMilli = cpu, wl_MemMiB = mem, wl_HourlyUSD = PodHourlyUSD cpu mem\<rparr>"

definition add_workload :: "workload \<Rightarrow> report \<Rightarrow> report" where
  "add_workload w rep = rep\<lparr>
     rp_Unclassified := (if wl_Tier w = Unknown_tier then rp_Unclassified rep + 1 else rp_Unclassified rep),
     rp_Workloads := rp_Workloads rep @ [w],
     rp_RateHourlyUSD := rp_RateHourlyUSD rep + wl_HourlyUSD w,
     rp_RateByTier := add_at (wl_Tier w) (wl_HourlyUSD w) (rp_RateByTier rep),
     rp_RateByApp := add_at (wl_App w) (wl_HourlyUSD w) (rp_RateByApp rep)\<rparr>"

fun meter_pods :: "(string \<Rightarrow> gofloat option) \<Rightarrow> string \<Rightarrow> pod list \<Rightarrow> report \<Rightarrow> kernel_error + report" where
  "meter_pods pfloat ns [] rep = Inr rep"
| "meter_pods pfloat ns (p # ps) rep =
     (if \<not> Billable p then meter_pods pfloat ns ps rep
      else case Requests pfloat p of
             Inl e \<Rightarrow> Inl (Pod_bad ns (pod_name p) e)
           | Inr (cpu, mem) \<Rightarrow> meter_pods pfloat ns ps (add_workload (workload_of ns p cpu mem) rep))"

fun meter_namespaces :: "tick_env \<Rightarrow> string \<Rightarrow> string list \<Rightarrow> string list \<Rightarrow> report \<Rightarrow> kernel_error + report \<times> string list" where
  "meter_namespaces env sel [] read rep = Inr (rep, read)"
| "meter_namespaces env sel (ns # nss) read rep =
     (case te_ListPods env ns sel of
        Inl e \<Rightarrow> meter_namespaces env sel nss read
          (rep\<lparr>rp_Unreachable := rp_Unreachable rep @ [ns @ '': '' @ safeNamespaceError e]\<rparr>)
      | Inr pods \<Rightarrow>
          (case meter_pods (te_pfloat env) ns pods rep of
             Inl e \<Rightarrow> Inl e
           | Inr rep' \<Rightarrow> meter_namespaces env sel nss (read @ [ns]) rep'))"

section \<open>What can be stopped\<close>

definition mergeNames :: "string list \<Rightarrow> string list \<Rightarrow> string list" where
  "mergeNames into add = foldl (\<lambda>acc n. if n \<in> set acc then acc else acc @ [n]) into add"

definition claim :: "target \<Rightarrow> workload \<Rightarrow> target" where
  "claim t w = t\<lparr>tg_Pods := tg_Pods t + 1, tg_HourlyUSD := tg_HourlyUSD t + wl_HourlyUSD w, tg_App := wl_App w,
     tg_CPUMilli := wl_CPUMilli w, tg_MemMiB := wl_MemMiB w, tg_Containers := mergeNames (tg_Containers t) (wl_Containers w)\<rparr>"

definition target_of :: "string \<Rightarrow> workload list \<Rightarrow> deployment \<Rightarrow> target" where
  "target_of ns ws d =
     foldl claim
       \<lparr>tg_Namespace = ns, tg_Name = dp_name d, tg_Tier = Of (dp_labels d),
        tg_Replicas = (case dp_spec_replicas d of Some n \<Rightarrow> n | None \<Rightarrow> dp_status_replicas d),
        tg_Pods = 0, tg_HourlyUSD = 0, tg_App = '''', tg_Containers = [], tg_CPUMilli = 0, tg_MemMiB = 0,
        tg_Annotations = dp_annotations d\<rparr>
       (filter (\<lambda>w. wl_Namespace w = ns \<and> Matches (dp_selector d) (wl_Labels w)) ws)"

fun collect_loop :: "tick_env \<Rightarrow> string \<Rightarrow> string list \<Rightarrow> report \<Rightarrow> report" where
  "collect_loop env sel [] rep = rep"
| "collect_loop env sel (ns # nss) rep =
     (case te_ListDeployments env ns sel of
        Inl e \<Rightarrow> collect_loop env sel nss
          (rep\<lparr>rp_Unreachable := rp_Unreachable rep @ [ns @ '' (deployments): '' @ safeNamespaceError e]\<rparr>)
      | Inr deps \<Rightarrow> collect_loop env sel nss
          (rep\<lparr>rp_Targets := rp_Targets rep @ map (target_of ns (rp_Workloads rep)) deps\<rparr>))"

definition collectTargets :: "tick_env \<Rightarrow> string \<Rightarrow> report \<Rightarrow> report" where
  "collectTargets env sel rep = collect_loop env sel (rp_Metered rep) rep"

section \<open>Sampling usage\<close>

definition newReading :: "(string \<times> gotime) list \<Rightarrow> string \<Rightarrow> gotime \<Rightarrow> bool" where
  "newReading lastReading id' t = (if t = zero_time then True else t \<noteq> get_or zero_time lastReading id')"

text \<open>The running values of the sampling loop; a later workload of the same key replaces an earlier one.\<close>

record sampling =
  sg_byApp :: "(string \<times> pod_usage list) list"
  sg_fresh :: "(string \<times> gotime) list"
  sg_gaps :: "usage_gap list"
  sg_sampled :: nat
  sg_repeated :: nat

definition workload_index :: "workload list \<Rightarrow> ((string \<times> string) \<times> workload) list" where
  "workload_index ws = foldl (\<lambda>m w. AList.update (wl_Namespace w, wl_Name w) w m) [] ws"

definition sample_one :: "(string \<Rightarrow> gofloat option) \<Rightarrow> (string \<times> gotime) list \<Rightarrow> ((string \<times> string) \<times> workload) list \<Rightarrow> string
  \<Rightarrow> sampling \<Rightarrow> pod_metrics \<Rightarrow> sampling" where
  "sample_one pfloat lastReading index ns sg m =
     (case map_of index (ns, pm_name m) of
        None \<Rightarrow> sg
      | Some w \<Rightarrow>
          let id' = ns @ ''/'' @ pm_name m;
              sg = sg\<lparr>sg_fresh := AList.update id' (pm_timestamp m) (sg_fresh sg)\<rparr> in
          if \<not> newReading lastReading id' (pm_timestamp m) then sg\<lparr>sg_repeated := sg_repeated sg + 1\<rparr>
          else case Usage pfloat (pm_containers m) of
                 Inl e \<Rightarrow> sg\<lparr>sg_gaps := sg_gaps sg @ [Reading_gap id' e]\<rparr>
               | Inr (cpu, mem) \<Rightarrow>
                   sg\<lparr>sg_byApp := AList.update (wl_App w)
                        (get_or [] (sg_byApp sg) (wl_App w) @ [\<lparr>pu_Pod = pm_name m, pu_CPUMilli = cpu, pu_MemMiB = mem,
                           pu_RequestCPUMilli = wl_CPUMilli w, pu_RequestMemMiB = wl_MemMiB w\<rparr>]) (sg_byApp sg),
                      sg_sampled := sg_sampled sg + 1\<rparr>)"

fun sample_namespaces :: "tick_env \<Rightarrow> string \<Rightarrow> (string \<times> gotime) list \<Rightarrow> ((string \<times> string) \<times> workload) list \<Rightarrow> string list \<Rightarrow> sampling \<Rightarrow> sampling" where
  "sample_namespaces env sel lastReading index [] sg = sg"
| "sample_namespaces env sel lastReading index (ns # nss) sg =
     (case te_ListPodMetrics env ns sel of
        Inl e \<Rightarrow> sample_namespaces env sel lastReading index nss
          (sg\<lparr>sg_gaps := sg_gaps sg @ [Namespace_gap (ns @ '': '' @ safeNamespaceError e)]\<rparr>)
      | Inr items \<Rightarrow> sample_namespaces env sel lastReading index nss
          (foldl (sample_one (te_pfloat env) lastReading index ns) sg items))"

definition sampleUsage :: "tick_env \<Rightarrow> string list \<Rightarrow> report \<Rightarrow> reconciler \<Rightarrow> reconciler \<times> report" where
  "sampleUsage env namespaces rep r =
     (case rc_Usage r of
        None \<Rightarrow> (r, rep)
      | Some u \<Rightarrow>
          let sg = sample_namespaces env (rc_Selector r) (rc_lastReading r) (workload_index (rp_Workloads rep)) namespaces
                     \<lparr>sg_byApp = [], sg_fresh = [], sg_gaps = rp_UsageUnavailable rep, sg_sampled = rp_UsageSampled rep,
                      sg_repeated = rp_UsageRepeated rep\<rparr>
          in (r\<lparr>rc_Usage := Some (foldl (\<lambda>u (app, pods). usage_Record (rp_At rep) app pods u) u (sg_byApp sg)),
                rc_lastReading := sg_fresh sg, rc_usageUnavailable := sg_gaps sg\<rparr>,
              rep\<lparr>rp_UsageUnavailable := sg_gaps sg, rp_UsageSampled := sg_sampled sg, rp_UsageRepeated := sg_repeated sg\<rparr>))"

section \<open>The tick\<close>

definition billableInterval :: "gotime \<Rightarrow> reconciler \<Rightarrow> duration" where
  "billableInterval now r =
     (if rc_Last r = zero_time then 0
      else
        let from = (if rc_Last r < periodStart (rc_Ledger r) then periodStart (rc_Ledger r) else rc_Last r)
        in if \<not> from < now then 0 else time_sub now from)"

definition empty_accrual :: accrual where
  "empty_accrual = \<lparr>Confirmed = 0, Expected = 0, Total = 0, HasConfirmation = False, ConfirmedThrough = zero_time,
     Calibration = 0, Discrepancies = []\<rparr>"

definition empty_assessment :: assessment where
  "empty_assessment = \<lparr>as_Total = 0, as_Limit = 0, Fraction = 0, Level = LevelOK, Projected = 0, ProjectedOver = False, ProjectedAt = zero_time\<rparr>"

definition first_report :: "gotime \<Rightarrow> bool \<Rightarrow> reconciler \<Rightarrow> report" where
  "first_report now rolled r = \<lparr>rp_At = now, rp_Since = rc_Last r, rp_Billed = 0, rp_Rolled = rolled, rp_Metered = [],
     rp_Unreachable = [], rp_ConfirmationsApplied = 0, rp_ConfirmationsRefused = 0, rp_Reconstructed = False,
     rp_Workloads = [], rp_Unclassified = 0, rp_RateHourlyUSD = 0, rp_RateByTier = [], rp_RateByApp = [],
     rp_Accrual = empty_accrual, rp_Assessment = empty_assessment, rp_Targets = [],
     rp_UsageSampled = 0, rp_UsageRepeated = 0, rp_UsageUnavailable = []\<rparr>"

text \<open>From the moment the workloads are known: targets, usage, the bill and the assessment.\<close>

definition bill :: "gotime \<Rightarrow> report \<Rightarrow> reconciler \<Rightarrow> reconciler \<times> report" where
  "bill now rep r =
     (let billed = billableInterval now r;
          rep = rep\<lparr>rp_Billed := billed, rp_Reconstructed := (0 < rc_Interval r \<and> 2 * rc_Interval r < billed)\<rparr>;
          l = (if 0 < billed
               then foldl (\<lambda>l w. Accrue now (wl_App w) (wl_HourlyUSD w) billed l) (rc_Ledger r) (rp_Workloads rep)
               else rc_Ledger r);
          r = r\<lparr>rc_Ledger := l, rc_Last := now\<rparr>;
          rep = rep\<lparr>rp_Accrual := Accrued l\<rparr>;
          rep = rep\<lparr>rp_Assessment := Assess (Total (rp_Accrual rep)) (rc_Limit r) (rp_RateHourlyUSD rep) now (snd (Period l))\<rparr>;
          r = r\<lparr>rc_Observed := Some \<lparr>ob_At = now, ob_Pods = int (length (rp_Workloads rep)), ob_Unclassified = rp_Unclassified rep,
                 ob_RateHourlyUSD = rp_RateHourlyUSD rep, ob_Level = Level (rp_Assessment rep), ob_Limit = rc_Limit r,
                 ob_Incomplete = (\<not> Complete rep), ob_Unreachable = rp_Unreachable rep\<rparr>\<rparr>
      in (r, rep))"

definition Reconcile :: "tick_env \<Rightarrow> gotime \<Rightarrow> reconciler \<Rightarrow> reconciler \<times> (kernel_error + report)" where
  "Reconcile env now r0 =
     (case Roll now r0 of
        (r, Inl e) \<Rightarrow> (r, Inl e)
      | (r, Inr rolled) \<Rightarrow>
          (let rep = first_report now rolled r in
           case applyConfirmations env r of
             (r, Inl e) \<Rightarrow> (r, Inl e)
           | (r, Inr (applied, refused)) \<Rightarrow>
               (let rep = rep\<lparr>rp_ConfirmationsApplied := applied, rp_ConfirmationsRefused := refused\<rparr> in
                case meteredNamespaces env r of
                  Inl e \<Rightarrow> (r, Inl e)
                | Inr metered \<Rightarrow>
                    (case meter_namespaces env (rc_Selector r) metered [] (rep\<lparr>rp_Metered := metered\<rparr>) of
                       Inl e \<Rightarrow> (r, Inl e)
                     | Inr (rep, read) \<Rightarrow>
                         if rp_Unreachable rep \<noteq> [] \<and> length (rp_Metered rep) \<le> length (rp_Unreachable rep)
                         then (r, Inl (None_readable (rp_Unreachable rep)))
                         else
                           let rep = collectTargets env (rc_Selector r) rep;
                               (r, rep) = sampleUsage env read rep r;
                               (r, rep) = bill now rep r
                           in (r, Inr rep)))))"

section \<open>The protective shutdown\<close>

datatype shutdown_error = ErrNotAuthorised level real

record shutdown_result =
  sh_At :: gotime
  sh_Stopped :: "target list"
  sh_Failed :: "(target \<times> string) list"
  sh_AtFloor :: bool
  sh_Unclassified :: int

text \<open>The calls made, in order: namespace, name and replicas. \<open>scale\<close> is the server's answer.\<close>

type_synonym scale_call = "string \<times> string \<times> int"

fun shutdown_loop :: "(string \<Rightarrow> string \<Rightarrow> int \<Rightarrow> string option) \<Rightarrow> target list \<Rightarrow> shutdown_result \<Rightarrow> scale_call list
    \<Rightarrow> shutdown_result \<times> scale_call list" where
  "shutdown_loop scale [] out calls = (out, calls)"
| "shutdown_loop scale (t # ts) out calls =
     (if \<not> Stoppable (tg_Tier t) then shutdown_loop scale ts out calls
      else
        let calls = calls @ [(tg_Namespace t, tg_Name t, 0)] in
        case scale (tg_Namespace t) (tg_Name t) 0 of
          Some err \<Rightarrow> shutdown_loop scale ts (out\<lparr>sh_Failed := sh_Failed out @ [(t, err)]\<rparr>) calls
        | None \<Rightarrow> shutdown_loop scale ts (out\<lparr>sh_Stopped := sh_Stopped out @ [t]\<rparr>) calls)"

definition Shutdown :: "(string \<Rightarrow> string \<Rightarrow> int \<Rightarrow> string option) \<Rightarrow> report \<Rightarrow> gotime
    \<Rightarrow> (shutdown_error + shutdown_result) \<times> scale_call list" where
  "Shutdown scale rep now =
     (if \<not> Acts (Level (rp_Assessment rep))
      then (Inl (ErrNotAuthorised (Level (rp_Assessment rep)) (Fraction (rp_Assessment rep))), [])
      else
        let (out, calls) = shutdown_loop scale (report_Stoppable rep)
              \<lparr>sh_At = now, sh_Stopped = [], sh_Failed = [], sh_AtFloor = False, sh_Unclassified = rp_Unclassified rep\<rparr> []
        in (Inr (out\<lparr>sh_AtFloor := Complete rep \<and> report_Stoppable rep = []\<rparr>), calls))"

definition StoppedUSDPerHour :: "shutdown_result \<Rightarrow> real" where
  "StoppedUSDPerHour r = sum_list (map tg_HourlyUSD (sh_Stopped r))"

definition Protected :: "report \<Rightarrow> target list" where
  "Protected rep = filter (\<lambda>t. \<not> Stoppable (tg_Tier t)) (rp_Targets rep)"

definition report_AtFloor :: "report \<Rightarrow> bool" where
  "report_AtFloor rep \<longleftrightarrow> Acts (Level (rp_Assessment rep)) \<and> Complete rep \<and> report_Stoppable rep = []"

definition SystemProtected :: "report \<Rightarrow> real" where
  "SystemProtected rep = sum_list (map wl_HourlyUSD (filter (\<lambda>w. wl_Tier w = System_tier \<or> wl_Tier w = Kernel_tier) (rp_Workloads rep)))"

section \<open>What each stage leaves alone\<close>

lemma get_or_Nil [simp]: "get_or d [] k = d"
  by (simp add: get_or_def)

lemma Roll_facts:
  assumes "Roll now r = (r', res)"
  shows "rc_Last r' = rc_Last r" "rc_Selector r' = rc_Selector r" "rc_Namespaces r' = rc_Namespaces r" "rc_Limit r' = rc_Limit r"
    "isl res \<Longrightarrow> r' = r" "now < periodEnd (rc_Ledger r) \<Longrightarrow> r' = r \<and> res = Inr False"
    "rc_Period r' = rc_Period r" "rc_Usage r' = rc_Usage r"
  using assms by (auto simp: Roll_def split: if_splits sum.splits prod.splits)

text \<open>A confirmation changes neither what was metered nor the period.\<close>

lemma Confirm_frame:
  "Confirm c l = Inr (d, l') \<Longrightarrow> hourly l' = hourly l \<and> apps l' = apps l \<and> periodStart l' = periodStart l \<and> periodEnd l' = periodEnd l"
  by (auto simp: Confirm_Inr)

lemma apply_loop_frame:
  "apply_loop cs l a f = (l', res) \<Longrightarrow>
     hourly l' = hourly l \<and> apps l' = apps l \<and> periodStart l' = periodStart l \<and> periodEnd l' = periodEnd l"
proof (induction cs l a f rule: apply_loop.induct)
  case (2 c cs l a f)
  show ?case
  proof (cases "Confirm c l")
    case (Inl e)
    then show ?thesis using "2.prems" "2.IH"(1,2) by (cases e) auto
  next
    case (Inr dl)
    then show ?thesis using "2.prems" "2.IH"(3) Confirm_frame[of c l] by (cases dl) auto
  qed
qed simp

lemma applyConfirmations_facts:
  assumes "applyConfirmations env r = (r', res)"
  shows "r' = r\<lparr>rc_Ledger := rc_Ledger r'\<rparr>" "hourly (rc_Ledger r') = hourly (rc_Ledger r)" "apps (rc_Ledger r') = apps (rc_Ledger r)"
    "periodStart (rc_Ledger r') = periodStart (rc_Ledger r)" "periodEnd (rc_Ledger r') = periodEnd (rc_Ledger r)"
    "rc_Last r' = rc_Last r" "rc_Selector r' = rc_Selector r" "rc_Namespaces r' = rc_Namespaces r" "rc_Limit r' = rc_Limit r"
  using assms apply_loop_frame[of _ "rc_Ledger r" 0 0]
  by (auto simp: applyConfirmations_def split: option.splits sum.splits prod.splits)

lemma sampleUsage_facts:
  assumes "sampleUsage env nss rep r = (r', rep')"
  shows "rc_Ledger r' = rc_Ledger r" "rc_Last r' = rc_Last r" "rc_Limit r' = rc_Limit r" "rc_Interval r' = rc_Interval r"
    "rc_Selector r' = rc_Selector r" "rc_Period r' = rc_Period r" "rc_Namespaces r' = rc_Namespaces r"
    "rp_Workloads rep' = rp_Workloads rep" "rp_Targets rep' = rp_Targets rep" "rp_Unreachable rep' = rp_Unreachable rep"
    "rp_Metered rep' = rp_Metered rep" "rp_RateByApp rep' = rp_RateByApp rep" "rp_RateByTier rep' = rp_RateByTier rep"
    "rp_RateHourlyUSD rep' = rp_RateHourlyUSD rep" "rp_Unclassified rep' = rp_Unclassified rep"
  using assms by (auto simp: sampleUsage_def Let_def split: option.splits)

lemma collect_loop_frame:
  "rp_Workloads (collect_loop env sel nss rep) = rp_Workloads rep
   \<and> rp_Metered (collect_loop env sel nss rep) = rp_Metered rep
   \<and> rp_RateByApp (collect_loop env sel nss rep) = rp_RateByApp rep
   \<and> rp_RateByTier (collect_loop env sel nss rep) = rp_RateByTier rep
   \<and> rp_RateHourlyUSD (collect_loop env sel nss rep) = rp_RateHourlyUSD rep
   \<and> rp_Unclassified (collect_loop env sel nss rep) = rp_Unclassified rep"
proof (induction nss arbitrary: rep)
  case (Cons ns nss)
  show ?case by (cases "te_ListDeployments env ns sel") (simp_all add: Cons.IH)
qed simp

definition targets_in :: "tick_env \<Rightarrow> string \<Rightarrow> workload list \<Rightarrow> string \<Rightarrow> target list" where
  "targets_in env sel ws ns = (case te_ListDeployments env ns sel of Inl _ \<Rightarrow> [] | Inr deps \<Rightarrow> map (target_of ns ws) deps)"

lemma collect_loop_targets:
  "rp_Targets (collect_loop env sel nss rep) = rp_Targets rep @ concat (map (targets_in env sel (rp_Workloads rep)) nss)"
proof (induction nss arbitrary: rep)
  case (Cons ns nss)
  show ?case by (cases "te_ListDeployments env ns sel") (simp_all add: Cons.IH targets_in_def)
qed simp

lemma collect_loop_unreachable: "\<exists>more. rp_Unreachable (collect_loop env sel nss rep) = rp_Unreachable rep @ more"
proof (induction nss arbitrary: rep)
  case (Cons ns nss)
  show ?case
  proof (cases "te_ListDeployments env ns sel")
    case (Inl e)
    then show ?thesis using Cons.IH[of "rep\<lparr>rp_Unreachable := rp_Unreachable rep @ [ns @ '' (deployments): '' @ safeNamespaceError e]\<rparr>"] by auto
  next
    case (Inr deps)
    then show ?thesis using Cons.IH[of "rep\<lparr>rp_Targets := rp_Targets rep @ map (target_of ns (rp_Workloads rep)) deps\<rparr>"] by auto
  qed
qed simp

section \<open>What is metered\<close>

text \<open>The workloads of one namespace: its billable pods, priced.\<close>

definition workloads_in :: "tick_env \<Rightarrow> string \<Rightarrow> string \<Rightarrow> workload list" where
  "workloads_in env sel ns =
     (case te_ListPods env ns sel of
        Inl _ \<Rightarrow> []
      | Inr pods \<Rightarrow> map (\<lambda>p. case Requests (te_pfloat env) p of Inl _ \<Rightarrow> workload_of ns p 0 0 | Inr (cpu, mem) \<Rightarrow> workload_of ns p cpu mem)
                      (filter Billable pods))"

definition add_workloads :: "workload list \<Rightarrow> report \<Rightarrow> report" where
  "add_workloads ws rep = foldl (\<lambda>rep w. add_workload w rep) rep ws"

lemma add_workloads_fields:
  "rp_Workloads (add_workloads ws rep) = rp_Workloads rep @ ws
   \<and> rp_RateHourlyUSD (add_workloads ws rep) = rp_RateHourlyUSD rep + sum_list (map wl_HourlyUSD ws)
   \<and> get_or 0 (rp_RateByApp (add_workloads ws rep)) a
       = get_or 0 (rp_RateByApp rep) a + sum_list (map wl_HourlyUSD (filter (\<lambda>w. wl_App w = a) ws))
   \<and> get_or 0 (rp_RateByTier (add_workloads ws rep)) t
       = get_or 0 (rp_RateByTier rep) t + sum_list (map wl_HourlyUSD (filter (\<lambda>w. wl_Tier w = t) ws))
   \<and> rp_Unclassified (add_workloads ws rep) = rp_Unclassified rep + int (length (filter (\<lambda>w. wl_Tier w = Unknown_tier) ws))
   \<and> rp_Unreachable (add_workloads ws rep) = rp_Unreachable rep \<and> rp_Metered (add_workloads ws rep) = rp_Metered rep
   \<and> rp_Targets (add_workloads ws rep) = rp_Targets rep"
proof (induction ws arbitrary: rep)
  case Nil
  then show ?case by (simp add: add_workloads_def)
next
  case (Cons w ws)
  have "add_workloads (w # ws) rep = add_workloads ws (add_workload w rep)" by (simp add: add_workloads_def)
  then show ?case using Cons.IH[of "add_workload w rep"] by (simp add: add_workload_def gomap_simps)
qed

lemma meter_pods_spec:
  assumes "te_ListPods env ns sel = Inr pods" "meter_pods (te_pfloat env) ns pods rep = Inr rep'"
  shows "rep' = add_workloads (workloads_in env sel ns) rep"
proof -
  have "meter_pods pf ns pods rep = Inr rep' \<Longrightarrow> rep' = add_workloads (map (\<lambda>p. case Requests pf p of Inl _ \<Rightarrow> workload_of ns p 0 0
      | Inr (cpu, mem) \<Rightarrow> workload_of ns p cpu mem) (filter Billable pods)) rep" for pf
    by (induction pf ns pods rep rule: meter_pods.induct) (auto simp: add_workloads_def split: if_splits sum.splits)
  then show ?thesis using assms by (simp add: workloads_in_def)
qed

lemma add_workloads_append: "add_workloads (xs @ ys) rep = add_workloads ys (add_workloads xs rep)"
  by (simp add: add_workloads_def)

lemma add_workloads_unreachable:
  "add_workloads ws (rep\<lparr>rp_Unreachable := u\<rparr>) = (add_workloads ws rep)\<lparr>rp_Unreachable := u\<rparr>"
proof -
  have "add_workload w (rep\<lparr>rp_Unreachable := u\<rparr>) = (add_workload w rep)\<lparr>rp_Unreachable := u\<rparr>" for w rep
    by (cases rep) (simp add: add_workload_def)
  then show ?thesis unfolding add_workloads_def by (induction ws arbitrary: rep) simp_all
qed

text \<open>Metering is the workloads of every readable namespace, and the names of the others.\<close>

lemma meter_namespaces_spec:
  "meter_namespaces env sel nss read rep = Inr (rep', read') \<Longrightarrow>
     rep' = (add_workloads (concat (map (workloads_in env sel) nss)) rep)\<lparr>rp_Unreachable := rp_Unreachable rep'\<rparr>
     \<and> length (rp_Unreachable rep') = length (rp_Unreachable rep) + length (filter (\<lambda>ns. isl (te_ListPods env ns sel)) nss)
     \<and> read' = read @ filter (\<lambda>ns. \<not> isl (te_ListPods env ns sel)) nss"
proof (induction nss arbitrary: read rep)
  case Nil
  then show ?case by (simp add: add_workloads_def)
next
  case (Cons ns nss)
  show ?case
  proof (cases "te_ListPods env ns sel")
    case (Inl e)
    define rep1 where "rep1 = rep\<lparr>rp_Unreachable := rp_Unreachable rep @ [ns @ '': '' @ safeNamespaceError e]\<rparr>"
    have m: "meter_namespaces env sel nss read rep1 = Inr (rep', read')" using Cons.prems Inl by (simp add: rep1_def)
    have "workloads_in env sel ns = []" using Inl by (simp add: workloads_in_def)
    then show ?thesis using Cons.IH[OF m] Inl by (simp add: rep1_def add_workloads_unreachable)
  next
    case (Inr pods)
    then obtain rep1 where p: "meter_pods (te_pfloat env) ns pods rep = Inr rep1" "meter_namespaces env sel nss (read @ [ns]) rep1 = Inr (rep', read')"
      using Cons.prems by (auto split: sum.splits)
    have r1: "rep1 = add_workloads (workloads_in env sel ns) rep" using meter_pods_spec[OF Inr p(1)] .
    have "rp_Unreachable rep1 = rp_Unreachable rep" unfolding r1 using add_workloads_fields by blast
    then show ?thesis using Cons.IH[OF p(2)] Inr by (simp add: r1 add_workloads_append)
  qed
qed

text \<open>The stages of a successful tick.\<close>

lemma Reconcile_Inr:
  assumes "Reconcile env now r0 = (r', Inr rep')"
  obtains r1 r2 r3 rolled applied refused metered rep read rep3 where
    "Roll now r0 = (r1, Inr rolled)" "applyConfirmations env r1 = (r2, Inr (applied, refused))"
    "meteredNamespaces env r2 = Inr metered"
    "meter_namespaces env (rc_Selector r2) metered [] ((first_report now rolled r1)\<lparr>rp_ConfirmationsApplied := applied,
       rp_ConfirmationsRefused := refused, rp_Metered := metered\<rparr>) = Inr (rep, read)"
    "rp_Unreachable rep = [] \<or> length (rp_Unreachable rep) < length (rp_Metered rep)"
    "sampleUsage env read (collectTargets env (rc_Selector r2) rep) r2 = (r3, rep3)" "bill now rep3 r3 = (r', rep')"
proof -
  obtain r1 res1 where r1: "Roll now r0 = (r1, res1)" by fastforce
  obtain rolled where res1: "res1 = Inr rolled" using assms r1 by (cases res1) (simp_all add: Reconcile_def)
  obtain r2 res2 where r2: "applyConfirmations env r1 = (r2, res2)" by fastforce
  obtain applied refused where res2: "res2 = Inr (applied, refused)"
    using assms r1 res1 r2 by (cases res2) (auto simp: Reconcile_def Let_def)
  obtain metered where m: "meteredNamespaces env r2 = Inr metered"
    using assms r1 res1 r2 res2 by (cases "meteredNamespaces env r2") (simp_all add: Reconcile_def Let_def)
  define rep0 where "rep0 = (first_report now rolled r1)\<lparr>rp_ConfirmationsApplied := applied, rp_ConfirmationsRefused := refused, rp_Metered := metered\<rparr>"
  obtain rep read where n: "meter_namespaces env (rc_Selector r2) metered [] rep0 = Inr (rep, read)"
    using assms r1 res1 r2 res2 m by (cases "meter_namespaces env (rc_Selector r2) metered [] rep0") (auto simp: Reconcile_def Let_def rep0_def)
  note R = assms[unfolded Reconcile_def r1 res1 prod.case sum.case Let_def r2 res2 m, folded rep0_def, unfolded n sum.case prod.case]
  have vis: "\<not> (rp_Unreachable rep \<noteq> [] \<and> length (rp_Metered rep) \<le> length (rp_Unreachable rep))"
    using R by (auto split: if_splits)
  obtain r3 rep3 where s: "sampleUsage env read (collectTargets env (rc_Selector r2) rep) r2 = (r3, rep3)" by fastforce
  have "bill now rep3 r3 = (r', rep')" using R vis by (simp add: s split: prod.splits)
  then show thesis using that[OF r1[unfolded res1] r2[unfolded res2] m n[unfolded rep0_def] _ s] vis by auto
qed

section \<open>Every billable pod is priced once\<close>

lemma concat_map_filter: "(\<And>x. x \<in> set xs \<Longrightarrow> \<not> P x \<Longrightarrow> f x = []) \<Longrightarrow> concat (map f xs) = concat (map f (filter P xs))"
  by (induction xs) auto

text \<open>What a report of a successful tick says of the cluster.\<close>

lemma Reconcile_report:
  assumes "Reconcile env now r0 = (r', Inr rep)"
  shows "\<exists>r2. meteredNamespaces env r2 = Inr (rp_Metered rep) \<and> rc_Namespaces r2 = rc_Namespaces r0
    \<and> rp_Workloads rep = concat (map (workloads_in env (rc_Selector r0)) (rp_Metered rep))
    \<and> rp_RateHourlyUSD rep = sum_list (map wl_HourlyUSD (rp_Workloads rep))
    \<and> (\<forall>a. get_or 0 (rp_RateByApp rep) a = sum_list (map wl_HourlyUSD (filter (\<lambda>w. wl_App w = a) (rp_Workloads rep))))
    \<and> (\<forall>t. get_or 0 (rp_RateByTier rep) t = sum_list (map wl_HourlyUSD (filter (\<lambda>w. wl_Tier w = t) (rp_Workloads rep))))
    \<and> rp_Targets rep = concat (map (targets_in env (rc_Selector r0) (rp_Workloads rep)) (rp_Metered rep))
    \<and> length (filter (\<lambda>ns. isl (te_ListPods env ns (rc_Selector r0))) (rp_Metered rep)) \<le> length (rp_Unreachable rep)
    \<and> (rp_Metered rep = [] \<or> (\<exists>ns\<in>set (rp_Metered rep). \<not> isl (te_ListPods env ns (rc_Selector r0))))"
proof -
  from assms obtain r1 r2 r3 rolled applied refused metered rep1 read rep3 where
    roll: "Roll now r0 = (r1, Inr rolled)" and conf: "applyConfirmations env r1 = (r2, Inr (applied, refused))"
    and met: "meteredNamespaces env r2 = Inr metered"
    and mn: "meter_namespaces env (rc_Selector r2) metered [] ((first_report now rolled r1)\<lparr>rp_ConfirmationsApplied := applied,
       rp_ConfirmationsRefused := refused, rp_Metered := metered\<rparr>) = Inr (rep1, read)"
    and vis: "rp_Unreachable rep1 = [] \<or> length (rp_Unreachable rep1) < length (rp_Metered rep1)"
    and su: "sampleUsage env read (collectTargets env (rc_Selector r2) rep1) r2 = (r3, rep3)" and bl: "bill now rep3 r3 = (r', rep)"
    by (rule Reconcile_Inr)
  define sel rep0 ws where "sel = rc_Selector r0" and "rep0 = (first_report now rolled r1)\<lparr>rp_ConfirmationsApplied := applied,
       rp_ConfirmationsRefused := refused, rp_Metered := metered\<rparr>" and "ws = concat (map (workloads_in env sel) metered)"
  have sel: "rc_Selector r2 = sel" "rc_Namespaces r2 = rc_Namespaces r0"
    using Roll_facts[OF roll] applyConfirmations_facts(7,8)[OF conf] by (simp_all add: sel_def)
  have s: "rep1 = (add_workloads ws rep0)\<lparr>rp_Unreachable := rp_Unreachable rep1\<rparr>"
      "length (rp_Unreachable rep1) = length (filter (\<lambda>ns. isl (te_ListPods env ns sel)) metered)"
    using meter_namespaces_spec[OF mn[unfolded sel(1)]] by (simp_all add: ws_def rep0_def first_report_def)
  have r0: "rp_Workloads rep0 = []" "rp_RateHourlyUSD rep0 = 0" "rp_RateByApp rep0 = []" "rp_RateByTier rep0 = []" "rp_Targets rep0 = []" "rp_Metered rep0 = metered"
    by (simp_all add: rep0_def first_report_def)
  have f1: "rp_Workloads rep1 = ws" "rp_RateHourlyUSD rep1 = sum_list (map wl_HourlyUSD ws)"
      "\<And>a. get_or 0 (rp_RateByApp rep1) a = sum_list (map wl_HourlyUSD (filter (\<lambda>w. wl_App w = a) ws))"
      "\<And>t. get_or 0 (rp_RateByTier rep1) t = sum_list (map wl_HourlyUSD (filter (\<lambda>w. wl_Tier w = t) ws))"
      "rp_Targets rep1 = []" "rp_Metered rep1 = metered"
    by (subst s(1), simp add: add_workloads_fields r0)+
  obtain more where more: "rp_Unreachable (collectTargets env sel rep1) = rp_Unreachable rep1 @ more"
    unfolding collectTargets_def using collect_loop_unreachable by blast
  have b: "rp_Workloads rep = rp_Workloads rep3" "rp_Metered rep = rp_Metered rep3" "rp_RateHourlyUSD rep = rp_RateHourlyUSD rep3"
      "rp_RateByApp rep = rp_RateByApp rep3" "rp_RateByTier rep = rp_RateByTier rep3" "rp_Targets rep = rp_Targets rep3" "rp_Unreachable rep = rp_Unreachable rep3"
    using bl by (auto simp: bill_def Let_def)
  note u = sampleUsage_facts[OF su[unfolded sel(1)]]
  have g: "rp_Workloads rep = ws" "rp_Metered rep = metered" "rp_RateHourlyUSD rep = rp_RateHourlyUSD rep1"
      "rp_RateByApp rep = rp_RateByApp rep1" "rp_RateByTier rep = rp_RateByTier rep1"
      "rp_Targets rep = concat (map (targets_in env sel ws) metered)" "rp_Unreachable rep = rp_Unreachable rep1 @ more"
    using b u f1 more by (simp_all add: collectTargets_def collect_loop_frame collect_loop_targets)
  have "metered = [] \<or> (\<exists>ns\<in>set metered. \<not> isl (te_ListPods env ns sel))"
  proof (rule ccontr)
    assume a: "\<not> (metered = [] \<or> (\<exists>ns\<in>set metered. \<not> isl (te_ListPods env ns sel)))"
    then have "filter (\<lambda>ns. isl (te_ListPods env ns sel)) metered = metered" by (auto simp: filter_id_conv)
    then show False using a vis s(2) f1(6) by auto
  qed
  then show ?thesis using g f1 met sel(2) s(2) unfolding sel_def[symmetric] by (intro exI[of _ r2]) (simp add: ws_def)
qed

text \<open>
  A report accounts for every billable pod the kernel could list. Of a successful
  tick: the workloads are exactly the billable pods of the metered namespaces that
  answered, each at the hourly price of its requests; the instance's burn rate, the rate
  of each application and the rate of each tier are the sums over them; at least one
  namespace answered; and every namespace that did not is counted as unreachable.
\<close>

theorem report_accounts_for_every_pod:
  assumes "Reconcile env now r = (r', Inr rep)"
  shows "rp_Workloads rep = concat (map (workloads_in env (rc_Selector r)) (rp_Metered rep))
    \<and> rp_RateHourlyUSD rep = sum_list (map wl_HourlyUSD (rp_Workloads rep))
    \<and> (\<forall>a. get_or 0 (rp_RateByApp rep) a = sum_list (map wl_HourlyUSD (filter (\<lambda>w. wl_App w = a) (rp_Workloads rep))))
    \<and> (\<forall>t. get_or 0 (rp_RateByTier rep) t = sum_list (map wl_HourlyUSD (filter (\<lambda>w. wl_Tier w = t) (rp_Workloads rep))))
    \<and> (Complete rep \<longrightarrow> (\<forall>ns\<in>set (rp_Metered rep). \<not> isl (te_ListPods env ns (rc_Selector r))))
    \<and> (rp_Metered rep = [] \<or> (\<exists>ns\<in>set (rp_Metered rep). \<not> isl (te_ListPods env ns (rc_Selector r))))"
proof -
  have "\<forall>ns\<in>set (rp_Metered rep). \<not> isl (te_ListPods env ns (rc_Selector r))" if "Complete rep"
    using Reconcile_report[OF assms] that by (auto simp: Complete_def filter_empty_conv)
  then show ?thesis using Reconcile_report[OF assms] by auto
qed

section \<open>No time is lost\<close>

text \<open>Billing: the ledger, the interval and the next tick's starting point.\<close>

lemma Accrue_period: "periodStart (Accrue now app r d l) = periodStart l \<and> periodEnd (Accrue now app r d l) = periodEnd l"
  by (simp add: Accrue_def)

lemma foldl_Accrue_period:
  "periodStart (foldl (\<lambda>l w. Accrue now (wl_App w) (wl_HourlyUSD w) d l) l ws) = periodStart l
   \<and> periodEnd (foldl (\<lambda>l w. Accrue now (wl_App w) (wl_HourlyUSD w) d l) l ws) = periodEnd l"
  by (induction ws arbitrary: l) (simp_all add: Accrue_period)

lemma Reconcile_time:
  assumes "Reconcile env now r = (r', res)"
  shows "case res of
      Inl e \<Rightarrow> rc_Last r' = rc_Last r \<and> (now < periodEnd (rc_Ledger r) \<longrightarrow>
        hourly (rc_Ledger r') = hourly (rc_Ledger r) \<and> apps (rc_Ledger r') = apps (rc_Ledger r)
        \<and> periodStart (rc_Ledger r') = periodStart (rc_Ledger r) \<and> periodEnd (rc_Ledger r') = periodEnd (rc_Ledger r))
    | Inr rep \<Rightarrow> rc_Last r' = now \<and> (now < periodEnd (rc_Ledger r) \<longrightarrow>
        rp_Billed rep = billableInterval now r \<and> periodStart (rc_Ledger r') = periodStart (rc_Ledger r)
        \<and> periodEnd (rc_Ledger r') = periodEnd (rc_Ledger r))"
proof (cases res)
  case (Inl e)
  obtain r1 res1 where roll: "Roll now r = (r1, res1)" by fastforce
  obtain r2 res2 where conf: "applyConfirmations env r1 = (r2, res2)" by fastforce
  have "r' = r1 \<or> r' = r2"
    using assms Inl roll conf by (auto simp: Reconcile_def Let_def split: sum.splits prod.splits if_splits)
  then show ?thesis using Roll_facts(1,6)[OF roll] applyConfirmations_facts(2-6)[OF conf] Inl by auto
next
  case (Inr rep)
  from assms[unfolded Inr] obtain r1 r2 r3 rolled applied refused metered rep1 read rep3 where
    roll: "Roll now r = (r1, Inr rolled)" and conf: "applyConfirmations env r1 = (r2, Inr (applied, refused))"
    and su: "sampleUsage env read (collectTargets env (rc_Selector r2) rep1) r2 = (r3, rep3)" and bl: "bill now rep3 r3 = (r', rep)"
    by (rule Reconcile_Inr)
  have L: "rc_Last r3 = rc_Last r" "rc_Ledger r3 = rc_Ledger r2"
    using Roll_facts(1)[OF roll] sampleUsage_facts(1,2)[OF su] applyConfirmations_facts(6)[OF conf] by simp_all
  have b: "rc_Last r' = now" "rp_Billed rep = billableInterval now r3"
      "periodStart (rc_Ledger r') = periodStart (rc_Ledger r3)" "periodEnd (rc_Ledger r') = periodEnd (rc_Ledger r3)"
    using bl by (auto simp: bill_def Let_def foldl_Accrue_period)
  have "rp_Billed rep = billableInterval now r \<and> periodStart (rc_Ledger r') = periodStart (rc_Ledger r) \<and> periodEnd (rc_Ledger r') = periodEnd (rc_Ledger r)"
    if "now < periodEnd (rc_Ledger r)"
    using b L Roll_facts(6)[OF roll that] applyConfirmations_facts(4,5)[OF conf] by (simp add: billableInterval_def)
  then show ?thesis using Inr b(1) by simp
qed

lemma apply_loop_ok: "apply_loop cs l a f = (l', res) \<Longrightarrow> ledger_ok l \<Longrightarrow> ledger_ok l'"
proof (induction cs l a f rule: apply_loop.induct)
  case (2 c cs l a f)
  show ?case
  proof (cases "Confirm c l")
    case (Inl e)
    then show ?thesis using "2.prems" "2.IH"(1,2) by (cases e) auto
  next
    case (Inr dl)
    then show ?thesis using "2.prems" "2.IH"(3) Confirm_ok[of l c] by (cases dl) auto
  qed
qed simp

text \<open>Every tick, failed or not, keeps the ledger well formed.\<close>

lemma Reconcile_ledger_ok:
  assumes "Reconcile env now r = (r', res)" and "ledger_ok (rc_Ledger r)"
  shows "ledger_ok (rc_Ledger r')"
proof -
  obtain r1 res1 where roll: "Roll now r = (r1, res1)" by fastforce
  obtain r2 res2 where conf: "applyConfirmations env r1 = (r2, res2)" by fastforce
  have ok1: "ledger_ok (rc_Ledger r1)"
    using roll assms(2) NewLedger_ok by (auto simp: Roll_def split: if_splits sum.splits prod.splits)
  then have ok2: "ledger_ok (rc_Ledger r2)"
    using conf apply_loop_ok[of _ "rc_Ledger r1" 0 0] by (auto simp: applyConfirmations_def split: option.splits sum.splits prod.splits)
  have fold: "ledger_ok (foldl (\<lambda>l w. Accrue now (wl_App w) (wl_HourlyUSD w) d l) l ws)" if "ledger_ok l" for d l ws
    using that by (induction ws arbitrary: l) (auto intro: Accrue_ok)
  show ?thesis
  proof (cases res)
    case (Inl e)
    have "r' = r1 \<or> r' = r2" using assms(1) Inl roll conf by (auto simp: Reconcile_def Let_def split: sum.splits prod.splits if_splits)
    then show ?thesis using ok1 ok2 by auto
  next
    case (Inr rep)
    from assms(1)[unfolded Inr] obtain q1 q2 q3 rolled applied refused metered rep1 read rep3 where
      "Roll now r = (q1, Inr rolled)" "applyConfirmations env q1 = (q2, Inr (applied, refused))"
      and su: "sampleUsage env read (collectTargets env (rc_Selector q2) rep1) q2 = (q3, rep3)" and bl: "bill now rep3 q3 = (r', rep)"
      by (rule Reconcile_Inr)
    then have "rc_Ledger q3 = rc_Ledger r2" using roll conf sampleUsage_facts(1)[OF su] by simp
    then show ?thesis using bl ok2 fold by (auto simp: bill_def Let_def)
  qed
qed

text \<open>No tick changes how the kernel was configured.\<close>

lemma Reconcile_config:
  assumes "Reconcile env now r = (r', res)"
  shows "rc_Adapting r' = rc_Adapting r \<and> rc_Limit r' = rc_Limit r \<and> rc_Cooldown r' = rc_Cooldown r \<and> rc_Selector r' = rc_Selector r
    \<and> rc_Namespaces r' = rc_Namespaces r \<and> rc_Period r' = rc_Period r \<and> rc_Advice r' = rc_Advice r"
proof -
  obtain r1 res1 where roll: "Roll now r = (r1, res1)" by fastforce
  obtain r2 res2 where conf: "applyConfirmations env r1 = (r2, res2)" by fastforce
  have "\<exists>l. r1 = r\<lparr>rc_Ledger := l\<rparr>"
    using roll by (auto simp: Roll_def split: if_splits sum.splits prod.splits intro: exI[of _ "rc_Ledger r"])
  then obtain l where r2: "r1 = r\<lparr>rc_Ledger := l\<rparr>" "r2 = r1\<lparr>rc_Ledger := rc_Ledger r2\<rparr>"
    using applyConfirmations_facts(1)[OF conf] by blast
  show ?thesis
  proof (cases res)
    case (Inl e)
    have "r' = r1 \<or> r' = r2" using assms Inl roll conf by (auto simp: Reconcile_def Let_def split: sum.splits prod.splits if_splits)
    then show ?thesis by (elim disjE; use r2 in \<open>metis reconciler.ext_inject reconciler.surjective reconciler.update_convs(2)\<close>)
  next
    case (Inr rep)
    from assms[unfolded Inr] obtain q1 q2 q3 rolled applied refused metered rep1 read rep3 where
      q: "Roll now r = (q1, Inr rolled)" "applyConfirmations env q1 = (q2, Inr (applied, refused))"
      and su: "sampleUsage env read (collectTargets env (rc_Selector q2) rep1) q2 = (q3, rep3)" and bl: "bill now rep3 q3 = (r', rep)"
      by (rule Reconcile_Inr)
    obtain l2 where "q2 = r\<lparr>rc_Ledger := l2\<rparr>" using q roll conf r2 by auto
    then show ?thesis using su bl by (auto simp: sampleUsage_def bill_def Let_def split: option.splits)
  qed
qed

text \<open>The loop of \<open>Run\<close>: one tick after another, each at its instant; the reports of those that succeeded.\<close>

fun Run :: "(tick_env \<times> gotime) list \<Rightarrow> reconciler \<Rightarrow> reconciler \<times> report list" where
  "Run [] r = (r, [])"
| "Run ((env, now) # ts) r =
     (case Reconcile env now r of
        (r', Inl e) \<Rightarrow> Run ts r'
      | (r', Inr rep) \<Rightarrow> (case Run ts r' of (r'', reps) \<Rightarrow> (r'', rep # reps)))"

text \<open>
  C35. The meter loses no time. Over any sequence of ticks inside a period, however
  many of them fail, the intervals billed by those that succeed add up to exactly the
  time from where the meter stood to the last success; a failed tick moves the meter's
  position not at all, so its time is billed by the next one that succeeds.
\<close>

theorem meter_loses_no_time:
  assumes "zero_time < rc_Last r" "periodStart (rc_Ledger r) \<le> rc_Last r" "sorted (rc_Last r # map snd ts)"
    and "\<forall>t\<in>snd ` set ts. t < periodEnd (rc_Ledger r) \<and> t - rc_Last r < 2 ^ 63"
  shows "case Run ts r of (r', reps) \<Rightarrow>
    sum_list (map rp_Billed reps) = rc_Last r' - rc_Last r \<and> rc_Last r' \<in> insert (rc_Last r) (snd ` set ts)"
  using assms
proof (induction ts arbitrary: r)
  case Nil
  then show ?case by simp
next
  case (Cons et ts)
  obtain env now where et: "et = (env, now)" by (cases et)
  obtain r1 res where rec: "Reconcile env now r = (r1, res)" by fastforce
  have now: "rc_Last r \<le> now" "now < periodEnd (rc_Ledger r)" "now - rc_Last r < 2 ^ 63" using Cons.prems et by auto
  note t = Reconcile_time[OF rec]
  have late: "x - now < 2 ^ 63" if "x - rc_Last r < 2 ^ 63" for x using that now(1) by linarith
  show ?case
  proof (cases res)
    case (Inl e)
    then have r1: "rc_Last r1 = rc_Last r" "periodStart (rc_Ledger r1) = periodStart (rc_Ledger r)" "periodEnd (rc_Ledger r1) = periodEnd (rc_Ledger r)"
      using t now(2) by auto
    then have "case Run ts r1 of (r', reps) \<Rightarrow> sum_list (map rp_Billed reps) = rc_Last r' - rc_Last r1 \<and> rc_Last r' \<in> insert (rc_Last r1) (snd ` set ts)"
      using Cons.prems et by (intro Cons.IH) auto
    then show ?thesis using Inl rec et r1 by (auto split: prod.splits)
  next
    case (Inr rep)
    then have r1: "rc_Last r1 = now" "periodStart (rc_Ledger r1) = periodStart (rc_Ledger r)" "periodEnd (rc_Ledger r1) = periodEnd (rc_Ledger r)"
        "rp_Billed rep = billableInterval now r"
      using t now(2) by auto
    have billed: "rp_Billed rep = now - rc_Last r"
      using Cons.prems(1,2) now r1(4) by (auto simp: billableInterval_def Let_def time_sub_def)
    have "case Run ts r1 of (r', reps) \<Rightarrow> sum_list (map rp_Billed reps) = rc_Last r' - rc_Last r1 \<and> rc_Last r' \<in> insert (rc_Last r1) (snd ` set ts)"
      using Cons.prems et r1 now late by (intro Cons.IH) auto
    then show ?thesis using Inr rec et r1 billed by (auto split: prod.splits)
  qed
qed

text \<open>A small instance for the examples: one namespace with one application pod and its deployment.\<close>

definition example_env :: tick_env where
  "example_env = \<lparr>
     te_ListPods = (\<lambda>ns sel. Inr [\<lparr>pod_name = ''shop-1'', pod_namespace = '''', pod_labels = [(''app'', ''shop''), (''farcast.sofmon.com/tier'', ''app'')],
       pod_containers = [], pod_init_containers = [], pod_phase = ''Running'', pod_conditions = []\<rparr>]),
     te_ListDeployments = (\<lambda>ns sel. Inr [\<lparr>dp_name = ''shop'', dp_labels = [(''farcast.sofmon.com/tier'', ''app'')], dp_annotations = [],
       dp_spec_replicas = Some 1, dp_status_replicas = 1, dp_selector = Some [(''app'', ''shop'')]\<rparr>]),
     te_ListPodMetrics = (\<lambda>ns sel. Inr []), te_Confirmations = None, te_Discover = None, te_pfloat = (\<lambda>s. None)\<rparr>"

definition example_kernel :: "real \<Rightarrow> gotime \<Rightarrow> reconciler" where
  "example_kernel limit since = \<lparr>rc_Namespaces = [''apps''],
     rc_Ledger = \<lparr>periodStart = 0, periodEnd = 10 * ns_per_hour, hourly = [], apps = [], confirmations = [], discrepancies = []\<rparr>,
     rc_Limit = limit, rc_Interval = 0, rc_Period = '''', rc_Selector = '''', rc_Last = since, rc_Observed = None, rc_Usage = None,
     rc_lastReading = [], rc_Advice = zero_config, rc_Cooldown = 0, rc_Adapting = False, rc_lastAdvice = [], rc_usageUnavailable = []\<rparr>"

lemma example_tick:
  "\<exists>rep. snd (Reconcile example_env now (example_kernel limit since)) = Inr rep \<and> rp_Metered rep = [''apps'']
     \<and> rp_Unreachable rep = [] \<and> rp_Assessment rep = Assess (Total (rp_Accrual rep)) limit (rp_RateHourlyUSD rep) now (10 * ns_per_hour)
     \<and> rp_Accrual rep = Accrued (let d = billableInterval now (example_kernel limit since) in
          if 0 < d then Accrue now ''shop'' (PodHourlyUSD 0 0) d (rc_Ledger (example_kernel limit since)) else rc_Ledger (example_kernel limit since))
     \<and> map (\<lambda>t. (tg_Namespace t, tg_Name t, tg_Tier t, tg_Replicas t)) (rp_Targets rep) = [(''apps'', ''shop'', App_tier, 1)]"
  by (simp add: Reconcile_def Roll_def example_kernel_def applyConfirmations_def example_env_def meteredNamespaces_def
      first_report_def Let_def Billable_def Requests_def collectTargets_def sampleUsage_def bill_def add_workload_def
      workload_of_def appOf_def target_of_def Matches_def get_or_def Of_def tier_label_def claim_def Period_def Accrue_def
      billableInterval_def)

text \<open>The example with one deployment listed in place of its own.\<close>

definition example_with :: "deployment \<Rightarrow> tick_env" where
  "example_with d = example_env\<lparr>te_ListDeployments := (\<lambda>ns sel. Inr [d])\<rparr>"

lemma example_tick_with:
  "\<exists>rep. snd (Reconcile (example_with d) now (example_kernel limit since)) = Inr rep \<and> rp_Metered rep = [''apps'']
     \<and> rp_Assessment rep = Assess (Total (rp_Accrual rep)) limit (rp_RateHourlyUSD rep) now (10 * ns_per_hour)
     \<and> rp_Accrual rep = Accrued (let d = billableInterval now (example_kernel limit since) in
          if 0 < d then Accrue now ''shop'' (PodHourlyUSD 0 0) d (rc_Ledger (example_kernel limit since)) else rc_Ledger (example_kernel limit since))"
  by (simp add: Reconcile_def Roll_def example_kernel_def applyConfirmations_def example_env_def example_with_def meteredNamespaces_def
      first_report_def Let_def Billable_def Requests_def collectTargets_def sampleUsage_def bill_def add_workload_def
      workload_of_def appOf_def get_or_def Of_def tier_label_def Period_def Accrue_def billableInterval_def)

theorem report_accounts_for_every_pod_witness:
  "\<exists>rep. rp_Workloads rep = concat (map (workloads_in example_env '''') (rp_Metered rep)) \<and> rp_Metered rep = [''apps'']
     \<and> snd (Reconcile example_env 5 (example_kernel 1 0)) = Inr rep"
proof -
  obtain rep where rep: "snd (Reconcile example_env 5 (example_kernel 1 0)) = Inr rep" "rp_Metered rep = [''apps'']"
    using example_tick by blast
  obtain r' where "Reconcile example_env 5 (example_kernel 1 0) = (r', Inr rep)" using rep(1) by (metis prod.collapse)
  from report_accounts_for_every_pod[OF this] show ?thesis using rep by (intro exI[of _ rep]) (simp add: example_kernel_def)
qed

theorem meter_loses_no_time_witness:
  "case Run [(example_env\<lparr>te_Discover := Some (Inl ''down'')\<rparr>, 3), (example_env, 5)] (example_kernel 1 1) of (r', reps) \<Rightarrow>
     sum_list (map rp_Billed reps) = rc_Last r' - 1"
proof -
  have "zero_time < rc_Last (example_kernel 1 1)" "periodStart (rc_Ledger (example_kernel 1 1)) \<le> rc_Last (example_kernel 1 1)"
    "sorted (rc_Last (example_kernel 1 1) # map snd [(example_env\<lparr>te_Discover := Some (Inl ''down'')\<rparr>, 3), (example_env, 5)])"
    "\<forall>t\<in>snd ` set [(example_env\<lparr>te_Discover := Some (Inl ''down'')\<rparr>, 3), (example_env, 5)].
       t < periodEnd (rc_Ledger (example_kernel 1 1)) \<and> t - rc_Last (example_kernel 1 1) < 2 ^ 63"
    by (simp_all add: example_kernel_def zero_time_def ns_per_hour_def)
  from meter_loses_no_time[OF this] show ?thesis by (auto simp: example_kernel_def split: prod.splits)
qed

section \<open>What a shutdown may touch\<close>

interpretation target_order: weak_order target_less
  by unfold_locales (auto simp: target_less_def split: if_splits)

lemma report_Stoppable_iff:
  "t \<in> set (report_Stoppable r) \<longleftrightarrow> t \<in> set (rp_Targets r) \<and> Stoppable (tg_Tier t) \<and> 0 < tg_Replicas t"
  by (auto simp: report_Stoppable_def)

lemma report_Stoppable_expensive_first: "sorted_wrt (\<lambda>a b. tg_HourlyUSD b \<le> tg_HourlyUSD a) (report_Stoppable r)"
  using target_order.sorted_slice.ordered_srt[of "filter (\<lambda>t. Stoppable (tg_Tier t) \<and> 0 < tg_Replicas t) (rp_Targets r)"]
  unfolding report_Stoppable_def by (rule sorted_wrt_mono_rel[rotated]) (auto simp: target_less_def split: if_splits)

lemma shutdown_loop_spec:
  "list_all (\<lambda>t. Stoppable (tg_Tier t)) ts \<Longrightarrow>
     shutdown_loop scale ts out calls =
       (out\<lparr>sh_Stopped := sh_Stopped out @ filter (\<lambda>t. scale (tg_Namespace t) (tg_Name t) 0 = None) ts,
            sh_Failed := sh_Failed out @ List.map_filter (\<lambda>t. map_option (Pair t) (scale (tg_Namespace t) (tg_Name t) 0)) ts\<rparr>,
        calls @ map (\<lambda>t. (tg_Namespace t, tg_Name t, 0)) ts)"
proof (induction ts arbitrary: out calls)
  case (Cons t ts)
  then show ?case by (cases "scale (tg_Namespace t) (tg_Name t) 0") (simp_all add: List.map_filter_def Let_def)
qed (simp add: List.map_filter_def)

lemma Shutdown_spec:
  "Shutdown scale rep now =
     (if Acts (Level (rp_Assessment rep))
      then (Inr \<lparr>sh_At = now, sh_Stopped = filter (\<lambda>t. scale (tg_Namespace t) (tg_Name t) 0 = None) (report_Stoppable rep),
              sh_Failed = List.map_filter (\<lambda>t. map_option (Pair t) (scale (tg_Namespace t) (tg_Name t) 0)) (report_Stoppable rep),
              sh_AtFloor = (Complete rep \<and> report_Stoppable rep = []), sh_Unclassified = rp_Unclassified rep\<rparr>,
            map (\<lambda>t. (tg_Namespace t, tg_Name t, 0)) (report_Stoppable rep))
      else (Inl (ErrNotAuthorised (Level (rp_Assessment rep)) (Fraction (rp_Assessment rep))), []))"
proof -
  have "list_all (\<lambda>t. Stoppable (tg_Tier t)) (report_Stoppable rep)" by (simp add: list_all_iff report_Stoppable_iff)
  then show ?thesis by (simp add: Shutdown_def Let_def shutdown_loop_spec)
qed

text \<open>
  A cost shutdown stops applications, all of them, dearest first, and nothing
  else. Without an assessment that authorises it there is an error and no call. With one,
  the calls are exactly the running application-tier deployments in falling order of cost,
  each scaled to zero once; every one of them ends up stopped or reported as failed; and
  the floor is claimed exactly when there was none and every namespace had been read.
\<close>

theorem shutdown_stops_applications_only:
  "case Shutdown scale rep now of
     (Inl e, calls) \<Rightarrow> calls = [] \<and> \<not> Acts (Level (rp_Assessment rep))
   | (Inr res, calls) \<Rightarrow> Acts (Level (rp_Assessment rep))
       \<and> calls = map (\<lambda>t. (tg_Namespace t, tg_Name t, 0)) (report_Stoppable rep)
       \<and> mset (report_Stoppable rep) = filter_mset (\<lambda>t. tg_Tier t = App_tier \<and> 0 < tg_Replicas t) (mset (rp_Targets rep))
       \<and> sorted_wrt (\<lambda>a b. tg_HourlyUSD b \<le> tg_HourlyUSD a) (report_Stoppable rep)
       \<and> set (sh_Stopped res) \<union> fst ` set (sh_Failed res) = set (report_Stoppable rep)
       \<and> (sh_AtFloor res \<longleftrightarrow> Complete rep \<and> (\<forall>t. t \<in> set (rp_Targets rep) \<and> 0 < tg_Replicas t \<longrightarrow> tg_Tier t \<noteq> App_tier))"
proof (cases "Acts (Level (rp_Assessment rep))")
  case False
  then show ?thesis by (simp add: Shutdown_spec)
next
  case True
  have m: "mset (report_Stoppable rep) = filter_mset (\<lambda>t. tg_Tier t = App_tier \<and> 0 < tg_Replicas t) (mset (rp_Targets rep))"
    by (simp add: report_Stoppable_def Stoppable_def)
  have "set (filter (\<lambda>t. scale (tg_Namespace t) (tg_Name t) 0 = None) ts)
      \<union> fst ` set (List.map_filter (\<lambda>t. map_option (Pair t) (scale (tg_Namespace t) (tg_Name t) 0)) ts) = set ts" for ts
  proof -
    have "t \<in> fst ` set (List.map_filter (\<lambda>t. map_option (Pair t) (scale (tg_Namespace t) (tg_Name t) 0)) ts)
        \<longleftrightarrow> t \<in> set ts \<and> scale (tg_Namespace t) (tg_Name t) 0 \<noteq> None" for t
      by (induction ts) (auto simp: List.map_filter_simps split: option.splits)
    then show ?thesis by (simp only: set_filter) blast
  qed
  moreover have "report_Stoppable rep = [] \<longleftrightarrow> (\<forall>t. t \<in> set (rp_Targets rep) \<and> 0 < tg_Replicas t \<longrightarrow> tg_Tier t \<noteq> App_tier)"
    unfolding report_Stoppable_def target_order.sorted_slice.srt_Nil_iff by (auto simp: filter_empty_conv Stoppable_def)
  ultimately show ?thesis using True m report_Stoppable_expensive_first[of rep] by (simp add: Shutdown_spec)
qed

text \<open>After two hours the example is over a limit of a tenth of a cent, whatever its one deployment is.\<close>

lemma example_spent:
  "1 / 1000 \<le> Total (Accrued (Accrue (2 * ns_per_hour) ''shop'' (PodHourlyUSD 0 0) (2 * ns_per_hour - 1) (rc_Ledger (example_kernel (1 / 1000) 1))))"
proof -
  define l where "l = Accrue (2 * ns_per_hour) ''shop'' (PodHourlyUSD 0 0) (2 * ns_per_hour - 1) (rc_Ledger (example_kernel (1 / 1000) 1))"
  have "expectedIn l (hour_time 0) (hour_time 10) = PodHourlyUSD 0 0 * hours (2 * ns_per_hour - 1)"
    using PodHourlyUSD_pos[of 0 0] unfolding l_def expectedIn_hours
    by (simp add: Accrue_def ns_per_hour_def accrue_loop_window example_kernel_def overlap_def hour_time_def)
  moreover have "periodStart l = hour_time 0" "periodEnd l = hour_time 10" "\<not> HasConfirmation (Accrued l)"
    by (simp_all add: l_def Accrue_period example_kernel_def hour_time_def Accrued_def Let_def) (simp add: Accrue_def)
  moreover have ge0: "0 \<le> PodHourlyUSD 0 0 * hours (2 * ns_per_hour - 1)"
    using PodHourlyUSD_pos[of 0 0] by (intro mult_nonneg_nonneg) (simp_all add: ns_per_hour_def)
  ultimately have "Total (Accrued l) = PodHourlyUSD 0 0 * hours (2 * ns_per_hour - 1)"
    using ge0 by (simp add: Accrued_def Let_def accrued_sums_of_def)
  then show ?thesis unfolding l_def[symmetric] by (simp add: PodHourlyUSD_closed hours_def ns_per_hour_def)
qed

lemma example_acts:
  assumes "rp_Assessment rep = Assess (Total (rp_Accrual rep)) (1 / 1000) rate (2 * ns_per_hour) (10 * ns_per_hour)"
    and "rp_Accrual rep = Accrued (Accrue (2 * ns_per_hour) ''shop'' (PodHourlyUSD 0 0) (2 * ns_per_hour - 1) (rc_Ledger (example_kernel (1 / 1000) 1)))"
  shows "Acts (Level (rp_Assessment rep))"
  using example_spent level_reached_iff[of "1 / 1000"] unfolding assms(2)[symmetric] by (simp add: assms(1) Acts_def Assess_Level)

lemma example_over_limit_with:
  "\<exists>rep. snd (Reconcile (example_with d) (2 * ns_per_hour) (example_kernel (1 / 1000) 1)) = Inr rep \<and> rp_Metered rep = [''apps'']
     \<and> Acts (Level (rp_Assessment rep))"
proof -
  obtain rep where rep: "snd (Reconcile (example_with d) (2 * ns_per_hour) (example_kernel (1 / 1000) 1)) = Inr rep" "rp_Metered rep = [''apps'']"
      "rp_Assessment rep = Assess (Total (rp_Accrual rep)) (1 / 1000) (rp_RateHourlyUSD rep) (2 * ns_per_hour) (10 * ns_per_hour)"
      "rp_Accrual rep = Accrued (Accrue (2 * ns_per_hour) ''shop'' (PodHourlyUSD 0 0) (2 * ns_per_hour - 1) (rc_Ledger (example_kernel (1 / 1000) 1)))"
    using example_tick_with[of d "2 * ns_per_hour" "1 / 1000" 1]
    by (auto simp: billableInterval_def Let_def example_kernel_def zero_time_def ns_per_hour_def time_sub_def)
  then show ?thesis using example_acts[OF rep(3,4)] by blast
qed

lemma example_over_limit:
  "\<exists>rep t. snd (Reconcile example_env (2 * ns_per_hour) (example_kernel (1 / 1000) 1)) = Inr rep
     \<and> Acts (Level (rp_Assessment rep)) \<and> report_Stoppable rep = [t] \<and> tg_Namespace t = ''apps'' \<and> tg_Name t = ''shop''"
proof -
  obtain rep where rep: "snd (Reconcile example_env (2 * ns_per_hour) (example_kernel (1 / 1000) 1)) = Inr rep"
      "map (\<lambda>t. (tg_Namespace t, tg_Name t, tg_Tier t, tg_Replicas t)) (rp_Targets rep) = [(''apps'', ''shop'', App_tier, 1)]"
      "rp_Assessment rep = Assess (Total (rp_Accrual rep)) (1 / 1000) (rp_RateHourlyUSD rep) (2 * ns_per_hour) (10 * ns_per_hour)"
      "rp_Accrual rep = Accrued (Accrue (2 * ns_per_hour) ''shop'' (PodHourlyUSD 0 0) (2 * ns_per_hour - 1) (rc_Ledger (example_kernel (1 / 1000) 1)))"
    using example_tick[of "2 * ns_per_hour" "1 / 1000" 1]
    by (auto simp: billableInterval_def Let_def example_kernel_def zero_time_def ns_per_hour_def time_sub_def)
  obtain t where t: "rp_Targets rep = [t]" "tg_Namespace t = ''apps''" "tg_Name t = ''shop''" "tg_Tier t = App_tier" "tg_Replicas t = 1"
    using rep(2) by auto
  then have "report_Stoppable rep = [t]" by (simp add: report_Stoppable_def Stoppable_def)
  then show ?thesis using rep(1) example_acts[OF rep(3,4)] t by blast
qed

theorem shutdown_stops_applications_only_witness:
  "\<exists>rep. snd (Reconcile example_env (2 * ns_per_hour) (example_kernel (1 / 1000) 1)) = Inr rep
     \<and> snd (Shutdown (\<lambda>ns n k. None) rep 0) = [(''apps'', ''shop'', 0)]"
proof -
  obtain rep t where e: "snd (Reconcile example_env (2 * ns_per_hour) (example_kernel (1 / 1000) 1)) = Inr rep"
    "Acts (Level (rp_Assessment rep))" "report_Stoppable rep = [t]" "tg_Namespace t = ''apps''" "tg_Name t = ''shop''"
    using example_over_limit by blast
  obtain res calls where s: "Shutdown (\<lambda>ns n k. None) rep 0 = (res, calls)" by fastforce
  from shutdown_stops_applications_only[where scale = "\<lambda>ns n k. None" and rep = rep and now = 0] have "calls = [(''apps'', ''shop'', 0)]"
    unfolding s using e by (cases res) simp_all
  then show ?thesis using e(1) s by (intro exI[of _ rep]) simp
qed

lemma bill_assessment:
  "bill now rep r = (r', rep') \<Longrightarrow>
     rp_Assessment rep' = Assess (Total (rp_Accrual rep')) (rc_Limit r) (rp_RateHourlyUSD rep') now (periodEnd (rc_Ledger r))"
  by (auto simp: bill_def Let_def Period_def foldl_Accrue_period)

text \<open>Every target of a report is a deployment the API server listed in a metered namespace.\<close>

lemma target_listed:
  assumes "Reconcile env now r = (r', Inr rep)" and "t \<in> set (rp_Targets rep)"
  shows "tg_Namespace t \<in> set (rp_Metered rep)
    \<and> (\<exists>deps d. te_ListDeployments env (tg_Namespace t) (rc_Selector r) = Inr deps \<and> d \<in> set deps \<and> dp_name d = tg_Name t
         \<and> Of (dp_labels d) = tg_Tier t \<and> dp_annotations d = tg_Annotations t)"
proof -
  obtain ns' where ns': "ns' \<in> set (rp_Metered rep)" "t \<in> set (targets_in env (rc_Selector r) (rp_Workloads rep) ns')"
    using Reconcile_report[OF assms(1)] assms(2) by auto
  then obtain deps d where d: "te_ListDeployments env ns' (rc_Selector r) = Inr deps" "d \<in> set deps" "t = target_of ns' (rp_Workloads rep) d"
    by (cases "te_ListDeployments env ns' (rc_Selector r)") (auto simp: targets_in_def)
  have "tg_Namespace (foldl claim t0 ws) = tg_Namespace t0 \<and> tg_Name (foldl claim t0 ws) = tg_Name t0
      \<and> tg_Tier (foldl claim t0 ws) = tg_Tier t0 \<and> tg_Annotations (foldl claim t0 ws) = tg_Annotations t0"
    for t0 ws by (induction ws arbitrary: t0) (simp_all add: claim_def)
  then have "tg_Namespace t = ns'" "tg_Name t = dp_name d" "tg_Tier t = Of (dp_labels d)" "tg_Annotations t = dp_annotations d"
    using d(3) by (simp_all add: target_of_def)
  then show ?thesis using ns'(1) d by auto
qed

text \<open>A scaling call of a shutdown after a successful tick, traced back to the listing it came from.\<close>

lemma Shutdown_call_listed:
  assumes "Reconcile env now r = (r', Inr rep)" and "(ns, name, n) \<in> set (snd (Shutdown scale rep now'))"
  shows "0 < rc_Limit r \<and> rc_Limit r \<le> Total (rp_Accrual rep) \<and> n = 0 \<and> ns \<in> set (rp_Metered rep)
    \<and> (\<exists>deps d. te_ListDeployments env ns (rc_Selector r) = Inr deps \<and> d \<in> set deps \<and> dp_name d = name
         \<and> map_of (dp_labels d) tier_label = Some ''app'')"
proof -
  have acts: "Acts (Level (rp_Assessment rep))" using assms(2) by (auto simp: Shutdown_spec split: if_splits)
  then obtain t where t: "t \<in> set (report_Stoppable rep)" "ns = tg_Namespace t" "name = tg_Name t" "n = 0"
    using assms(2) by (auto simp: Shutdown_spec)
  from assms(1) obtain r1 r2 r3 rolled applied refused metered rep1 read rep3 where
    roll: "Roll now r = (r1, Inr rolled)" and conf: "applyConfirmations env r1 = (r2, Inr (applied, refused))"
    and su: "sampleUsage env read (collectTargets env (rc_Selector r2) rep1) r2 = (r3, rep3)" and bl: "bill now rep3 r3 = (r', rep)"
    by (rule Reconcile_Inr)
  have "rc_Limit r3 = rc_Limit r" using Roll_facts(4)[OF roll] applyConfirmations_facts(9)[OF conf] sampleUsage_facts(3)[OF su] by simp
  then have lim: "0 < rc_Limit r \<and> rc_Limit r \<le> Total (rp_Accrual rep)"
    using acts level_reached_iff bill_assessment[OF bl] by (auto simp: Acts_def Assess_Level split: if_splits)
  have "t \<in> set (rp_Targets rep)" "tg_Tier t = App_tier" using t(1) by (auto simp: report_Stoppable_iff Stoppable_def)
  then obtain deps d where d: "ns \<in> set (rp_Metered rep)" "te_ListDeployments env ns (rc_Selector r) = Inr deps" "d \<in> set deps"
      "dp_name d = name" "Of (dp_labels d) = App_tier"
    using target_listed[OF assms(1)] t(2,3) by metis
  then show ?thesis using lim t(4) Stoppable_Of[of "dp_labels d"] by (auto simp: Stoppable_def)
qed

text \<open>
  C11. End to end, the kernel stops only what the cluster itself listed as an
  application, and only with the limit reached. For any tick that succeeded and any call
  its shutdown makes, a limit is configured and the accrued total has reached it, the call
  scales to zero, and it names a deployment that the API server listed in a namespace the
  kernel meters, labelled with the application tier.
\<close>

theorem kernel_stops_listed_applications_only:
  assumes "Reconcile env now r = (r', Inr rep)" and "(ns, name, n) \<in> set (snd (Shutdown scale rep now))"
  shows "0 < rc_Limit r \<and> rc_Limit r \<le> Total (rp_Accrual rep) \<and> n = 0 \<and> ns \<in> set (rp_Metered rep)
    \<and> (\<exists>deps d. te_ListDeployments env ns (rc_Selector r) = Inr deps \<and> d \<in> set deps \<and> dp_name d = name
         \<and> map_of (dp_labels d) tier_label = Some ''app'')"
  using assms by (rule Shutdown_call_listed)

theorem kernel_stops_listed_applications_only_witness:
  "\<exists>rep. snd (Reconcile example_env (2 * ns_per_hour) (example_kernel (1 / 1000) 1)) = Inr rep
     \<and> 1 / 1000 \<le> Total (rp_Accrual rep) \<and> ''apps'' \<in> set (rp_Metered rep)"
proof -
  obtain rep t where e: "snd (Reconcile example_env (2 * ns_per_hour) (example_kernel (1 / 1000) 1)) = Inr rep"
    "Acts (Level (rp_Assessment rep))" "report_Stoppable rep = [t]" "tg_Namespace t = ''apps''" "tg_Name t = ''shop''"
    using example_over_limit by blast
  obtain r' where r': "Reconcile example_env (2 * ns_per_hour) (example_kernel (1 / 1000) 1) = (r', Inr rep)" using e(1) by (metis prod.collapse)
  have "(''apps'', ''shop'', 0) \<in> set (snd (Shutdown (\<lambda>ns n k. None) rep (2 * ns_per_hour)))" using e by (simp add: Shutdown_spec)
  from kernel_stops_listed_applications_only[OF r' this] show ?thesis using e(1) by (intro exI[of _ rep]) (simp add: example_kernel_def)
qed

section \<open>What the operator's documents can do\<close>

text \<open>
  The metered set is never narrower than the configured one, whatever the discovery
  document says; it is ordered and without repetition, so that reports are stable.
\<close>

lemma metered_includes_configured:
  "meteredNamespaces env r = Inr metered \<Longrightarrow>
     set (rc_Namespaces r) \<subseteq> set metered \<and> sorted metered \<and> distinct metered
     \<and> (\<forall>found. te_Discover env = Some (Inr found) \<longrightarrow> set metered = set (rc_Namespaces r) \<union> (trim_space ` set found - {''''}))"
  by (auto simp: meteredNamespaces_def split: option.splits sum.splits)

lemma apply_loop_bad:
  "c \<in> set cs \<Longrightarrow> cUSD c < 0 \<or> \<not> cStart c < cEnd c \<Longrightarrow> \<exists>l' e. apply_loop cs l a f = (l', Inl e)"
proof (induction cs l a f rule: apply_loop.induct)
  case (2 d cs l a f)
  show ?case
  proof (cases "Confirm d l")
    case (Inl e)
    have "c \<noteq> d" if "e = ErrWindowOverlaps \<or> e = ErrWindowOutsidePeriod" using Inl that "2.prems"(2) by (auto simp: Confirm_def split: if_splits)
    then show ?thesis using Inl "2.prems" "2.IH"(1,2)[OF Inl] by (cases e) auto
  next
    case (Inr dl)
    obtain x l' where dl: "dl = (x, l')" by (cases dl)
    have "c \<noteq> d" using Inr dl "2.prems"(2) by (auto simp: Confirm_Inr)
    then have "c \<in> set cs" using "2.prems"(1) by simp
    from "2.IH"(3)[OF Inr dl[symmetric] this "2.prems"(2)] show ?thesis by (simp add: Inr dl)
  qed
qed simp

text \<open>
  One malformed confirmation stops the meter. While the confirmations document
  holds a negative amount or an empty window, every tick fails before anything is
  metered: no cost is accrued, nothing is assessed, and so nothing can be stopped,
  however long it lasts.
\<close>

theorem bad_confirmation_stops_the_meter:
  assumes "\<forall>(env, now)\<in>set ts. now < periodEnd (rc_Ledger r)
    \<and> (\<exists>cs c. te_Confirmations env = Some (Inr cs) \<and> c \<in> set cs \<and> (cUSD c < 0 \<or> \<not> cStart c < cEnd c))"
  shows "case Run ts r of (r', reps) \<Rightarrow> reps = [] \<and> rc_Last r' = rc_Last r
    \<and> hourly (rc_Ledger r') = hourly (rc_Ledger r) \<and> apps (rc_Ledger r') = apps (rc_Ledger r)"
  using assms
proof (induction ts arbitrary: r)
  case (Cons et ts)
  obtain env now where et: "et = (env, now)" by (cases et)
  then obtain cs c where c: "te_Confirmations env = Some (Inr cs)" "c \<in> set cs" "cUSD c < 0 \<or> \<not> cStart c < cEnd c" and now: "now < periodEnd (rc_Ledger r)"
    using Cons.prems by auto
  obtain l' e where "apply_loop cs (rc_Ledger r) 0 0 = (l', Inl e)" using apply_loop_bad[OF c(2,3)] by blast
  then have "applyConfirmations env r = (r\<lparr>rc_Ledger := l'\<rparr>, Inl e)" using c(1) by (simp add: applyConfirmations_def)
  moreover have "Roll now r = (r, Inr False)" using now by (simp add: Roll_def)
  ultimately have rec: "Reconcile env now r = (r\<lparr>rc_Ledger := l'\<rparr>, Inl e)" by (simp add: Reconcile_def Let_def)
  have same: "rc_Last (r\<lparr>rc_Ledger := l'\<rparr>) = rc_Last r" "hourly l' = hourly (rc_Ledger r)" "apps l' = apps (rc_Ledger r)" "periodEnd l' = periodEnd (rc_Ledger r)"
    using Reconcile_time[OF rec] now by auto
  have "case Run ts (r\<lparr>rc_Ledger := l'\<rparr>) of (r', reps) \<Rightarrow> reps = [] \<and> rc_Last r' = rc_Last (r\<lparr>rc_Ledger := l'\<rparr>)
      \<and> hourly (rc_Ledger r') = hourly (rc_Ledger (r\<lparr>rc_Ledger := l'\<rparr>)) \<and> apps (rc_Ledger r') = apps (rc_Ledger (r\<lparr>rc_Ledger := l'\<rparr>))"
    using Cons.prems same(4) by (intro Cons.IH) auto
  then show ?case using same rec et by (auto split: prod.splits)
qed simp

theorem bad_confirmation_stops_the_meter_witness:
  "case Run [(example_env\<lparr>te_Confirmations := Some (Inr [\<lparr>cStart = 0, cEnd = 1, cUSD = - 1, cAsOf = 0\<rparr>])\<rparr>, 5)] (example_kernel 1 1) of
     (r', reps) \<Rightarrow> reps = []"
proof -
  have "\<forall>(env, now)\<in>set [(example_env\<lparr>te_Confirmations := Some (Inr [\<lparr>cStart = 0, cEnd = 1, cUSD = - 1, cAsOf = 0\<rparr>])\<rparr>, 5)].
      now < periodEnd (rc_Ledger (example_kernel 1 1))
      \<and> (\<exists>cs c. te_Confirmations env = Some (Inr cs) \<and> c \<in> set cs \<and> (cUSD c < 0 \<or> \<not> cStart c < cEnd c))"
    by (simp add: example_kernel_def ns_per_hour_def)
  from bad_confirmation_stops_the_meter[OF this] show ?thesis by (auto split: prod.splits)
qed

end
