(* ===== verification/Kube_Client.thy ===== *)
theory Kube_Client
  imports Kernel
begin

text \<open>
  The part of the API client that writes (\<open>technocore/kube/client.go\<close>) and the documents
  the kernel keeps in ConfigMaps (\<open>kernel/checkpoint.go\<close>, \<open>kernel/usage.go\<close>). The API
  server is a parameter: functions from its state to its answers, with Kubernetes' rules
  for named objects and resource versions as the laws of a locale. The JSON text of a
  document is a value of an arbitrary type with its encoder and decoder as parameters.
\<close>

section \<open>Errors\<close>

datatype kube_error = ErrNotFound | ErrForbidden | ErrUnauthorized | ErrConflict | Api_error int | Client_error string

definition Unwrap :: "int \<Rightarrow> kube_error" where
  "Unwrap code =
     (if code = 404 then ErrNotFound else if code = 403 then ErrForbidden
      else if code = 401 then ErrUnauthorized else if code = 409 then ErrConflict else Api_error code)"

text \<open>
  The body of a refusal: not JSON, or a Status object with or without a code of its own.
  A code in the body wins over the one on the wire, unless it is zero.
\<close>

definition apiError :: "int \<Rightarrow> int option option \<Rightarrow> kube_error" where
  "apiError code body =
     Unwrap (case body of Some (Some c) \<Rightarrow> if c = 0 then code else c | _ \<Rightarrow> code)"

record 'a http_answer =
  ha_code :: int
  ha_status :: "int option option"
  ha_object :: "'a option"

text \<open>\<open>do\<close>: no answer at all is \<open>Inl\<close>; an object that does not decode is an error only where one was asked for.\<close>

definition do_call :: "bool \<Rightarrow> string + 'a http_answer \<Rightarrow> kube_error + 'a option" where
  "do_call wanted ans =
     (case ans of
        Inl e \<Rightarrow> Inl (Client_error e)
      | Inr a \<Rightarrow>
          if ha_code a < 200 \<or> 299 < ha_code a then Inl (apiError (ha_code a) (ha_status a))
          else if \<not> wanted then Inr None
          else case ha_object a of None \<Rightarrow> Inl (Client_error ''decode'') | Some x \<Rightarrow> Inr (Some x))"

section \<open>Writing to a workload\<close>

definition Scale :: "(string \<Rightarrow> string \<Rightarrow> int \<Rightarrow> string + unit http_answer) \<Rightarrow> string \<Rightarrow> string \<Rightarrow> int \<Rightarrow> kube_error option" where
  "Scale patch ns name replicas =
     (if replicas < 0 then Some (Client_error ''replicas must not be negative'')
      else case do_call False (patch ns name replicas) of Inl e \<Rightarrow> Some e | Inr _ \<Rightarrow> None)"

text \<open>What the strategic merge patch names: one container, its two requests and the annotations.\<close>

record resize_patch =
  rz_container :: string
  rz_cpu :: string
  rz_memory :: string
  rz_annotations :: labels

fun stored_requests :: "(string \<Rightarrow> gofloat option) \<Rightarrow> string \<Rightarrow> container list \<Rightarrow> kube_error + int \<times> int" where
  "stored_requests pfloat name [] = Inl (Client_error ''no such container after the patch'')"
| "stored_requests pfloat name (ct # cts) =
     (if ct_name ct \<noteq> name then stored_requests pfloat name cts
      else case containerRequests pfloat ct of
             Inl _ \<Rightarrow> Inl (Client_error ''stored an unreadable request'')
           | Inr q \<Rightarrow> Inr q)"

definition SetRequests ::
  "(string \<Rightarrow> gofloat option) \<Rightarrow> (string \<Rightarrow> string \<Rightarrow> resize_patch \<Rightarrow> string + container list http_answer)
   \<Rightarrow> string \<Rightarrow> string \<Rightarrow> string \<Rightarrow> int \<Rightarrow> int \<Rightarrow> labels \<Rightarrow> kube_error + int \<times> int"
where
  "SetRequests pfloat patch ns name container cpuMilli memMiB annotations =
     (if container = '''' then Inl (Client_error ''a resize must name the container it changes'')
      else if cpuMilli \<le> 0 \<or> memMiB \<le> 0 then Inl (Client_error ''refusing a request'')
      else
        case do_call True (patch ns name \<lparr>rz_container = container, rz_cpu = format_int cpuMilli @ ''m'',
               rz_memory = format_int memMiB @ ''Mi'', rz_annotations = annotations\<rparr>) of
          Inl e \<Rightarrow> Inl e
        | Inr stored \<Rightarrow> stored_requests pfloat container (case stored of None \<Rightarrow> [] | Some cts \<Rightarrow> cts))"

section \<open>ConfigMaps\<close>

record 'b config_map =
  cm_name :: string
  cm_namespace :: string
  cm_labels :: labels
  cm_version :: string
  cm_data :: "(string \<times> 'b) list"

text \<open>A server in state \<open>'s\<close>: reading one, replacing one by name, creating one.\<close>

type_synonym ('s, 'b) cm_get = "'s \<Rightarrow> string \<Rightarrow> string \<Rightarrow> string + 'b config_map http_answer"
type_synonym ('s, 'b) cm_put = "'s \<Rightarrow> string \<Rightarrow> string \<Rightarrow> 'b config_map \<Rightarrow> 's \<times> (string + unit http_answer)"
type_synonym ('s, 'b) cm_post = "'s \<Rightarrow> string \<Rightarrow> 'b config_map \<Rightarrow> 's \<times> (string + unit http_answer)"

definition GetConfigMap :: "('s, 'b) cm_get \<Rightarrow> 's \<Rightarrow> string \<Rightarrow> string \<Rightarrow> kube_error + 'b config_map" where
  "GetConfigMap get s ns name =
     (case do_call True (get s ns name) of
        Inl e \<Rightarrow> Inl e
      | Inr None \<Rightarrow> Inl (Client_error ''decode'')
      | Inr (Some cm) \<Rightarrow> Inr cm)"

definition SaveConfigMap :: "('s, 'b) cm_put \<Rightarrow> ('s, 'b) cm_post \<Rightarrow> 's \<Rightarrow> string \<Rightarrow> 'b config_map \<Rightarrow> 's \<times> kube_error option" where
  "SaveConfigMap put post s ns cm0 =
     (let cm = cm0\<lparr>cm_namespace := ns\<rparr> in
      case put s ns (cm_name cm) cm of (s', ans) \<Rightarrow>
        case do_call False ans of
          Inl ErrNotFound \<Rightarrow>
            (case post s' ns cm of (s'', ans') \<Rightarrow> (s'', case do_call False ans' of Inl e \<Rightarrow> Some e | Inr _ \<Rightarrow> None))
        | Inl e \<Rightarrow> (s', Some e)
        | Inr _ \<Rightarrow> (s', None))"

section \<open>A document in a ConfigMap\<close>

datatype store_error =
    Store_read kube_error
  | Store_key_missing
  | Store_decode
  | Store_version int
  | Store_encode
  | Store_write kube_error

definition names :: "string \<times> string \<Rightarrow> string \<times> string \<Rightarrow> string \<times> string" where
  "names given defaults =
     ((if fst given = '''' then fst defaults else fst given), (if snd given = '''' then snd defaults else snd given))"

definition load_document ::
  "('s, 'b) cm_get \<Rightarrow> ('b \<Rightarrow> 'd option) \<Rightarrow> ('d \<Rightarrow> int) \<Rightarrow> int \<Rightarrow> string \<Rightarrow> string \<times> string \<Rightarrow> 's \<Rightarrow> store_error + 'd option"
where
  "load_document get dec version_of version key loc s =
     (case GetConfigMap get s (fst loc) (snd loc) of
        Inl ErrNotFound \<Rightarrow> Inr None
      | Inl e \<Rightarrow> Inl (Store_read e)
      | Inr cm \<Rightarrow>
          (case map_of (cm_data cm) key of
             None \<Rightarrow> Inl Store_key_missing
           | Some raw \<Rightarrow>
               (case dec raw of
                  None \<Rightarrow> Inl Store_decode
                | Some d \<Rightarrow> if version_of d \<noteq> version then Inl (Store_version (version_of d)) else Inr (Some d))))"

definition store_labels :: labels where
  "store_labels = [(''app.kubernetes.io/name'', ''technocore''), (''app.kubernetes.io/managed-by'', ''farcast'')]"

definition save_document ::
  "('s, 'b) cm_get \<Rightarrow> ('s, 'b) cm_put \<Rightarrow> ('s, 'b) cm_post \<Rightarrow> ('d \<Rightarrow> 'b option) \<Rightarrow> ('d \<Rightarrow> 'd) \<Rightarrow> string \<Rightarrow> string \<times> string \<Rightarrow> 's \<Rightarrow> 'd \<Rightarrow> 's \<times> store_error option"
where
  "save_document get put post enc stamp key loc s d =
     (case enc (stamp d) of
        None \<Rightarrow> (s, Some Store_encode)
      | Some blob \<Rightarrow>
          let cm = \<lparr>cm_name = snd loc, cm_namespace = fst loc, cm_labels = store_labels, cm_version = '''', cm_data = [(key, blob)]\<rparr>;
              write = (\<lambda>cm. case SaveConfigMap put post s (fst loc) cm of (s', r) \<Rightarrow> (s', map_option Store_write r))
          in case GetConfigMap get s (fst loc) (snd loc) of
               Inr existing \<Rightarrow> write (cm\<lparr>cm_version := cm_version existing\<rparr>)
             | Inl ErrNotFound \<Rightarrow> write cm
             | Inl e \<Rightarrow> (s, Some (Store_read e)))"

section \<open>The API server's contract and the stores' contract\<close>

text \<open>
  Kubernetes' rules for a named object: what a successful write stored is what is read,
  under a version of the server's choosing; a refused write changes nothing; writes to one
  object leave the others; and a replacement that carries another version than the stored
  one is a conflict.
\<close>

definition succeeds :: "string + 'a http_answer \<Rightarrow> bool" where
  "succeeds ans = (case ans of Inl _ \<Rightarrow> False | Inr a \<Rightarrow> 200 \<le> ha_code a \<and> ha_code a \<le> 299)"

locale config_map_api =
  fixes get :: "('s, 'b) cm_get" and put :: "('s, 'b) cm_put" and post :: "('s, 'b) cm_post"
  assumes put_stores: "put s ns name cm = (s', ans) \<Longrightarrow> succeeds ans \<Longrightarrow> \<exists>v. GetConfigMap get s' ns name = Inr (cm\<lparr>cm_version := v\<rparr>)"
    and post_stores: "post s ns cm = (s', ans) \<Longrightarrow> succeeds ans \<Longrightarrow> \<exists>v. GetConfigMap get s' ns (cm_name cm) = Inr (cm\<lparr>cm_version := v\<rparr>)"
    and put_refused: "put s ns name cm = (s', Inr a) \<Longrightarrow> \<not> succeeds (Inr a) \<Longrightarrow> s' = s"
    and put_elsewhere: "(ns', name') \<noteq> (ns, name) \<Longrightarrow> get (fst (put s ns name cm)) ns' name' = get s ns' name'"
    and post_elsewhere: "(ns', name') \<noteq> (ns, cm_name cm) \<Longrightarrow> get (fst (post s ns cm)) ns' name' = get s ns' name'"
    and put_stale: "GetConfigMap get s ns name = Inr old \<Longrightarrow> cm_version cm \<noteq> '''' \<Longrightarrow> cm_version cm \<noteq> cm_version old
      \<Longrightarrow> \<exists>s'. put s ns name cm = (s', Inr \<lparr>ha_code = 409, ha_status = None, ha_object = None\<rparr>)"
begin

lemma save_stores:
  assumes "SaveConfigMap put post s ns cm = (s', None)"
  shows "\<exists>v. GetConfigMap get s' ns (cm_name cm) = Inr (cm\<lparr>cm_namespace := ns, cm_version := v\<rparr>)"
proof -
  define c where "c = cm\<lparr>cm_namespace := ns\<rparr>"
  have n: "cm_name c = cm_name cm" by (simp add: c_def)
  have ok: "succeeds ans \<longleftrightarrow> \<not> isl (do_call False ans)" for ans :: "string + unit http_answer"
    by (auto simp: succeeds_def do_call_def split: sum.splits)
  obtain s1 a1 where p: "put s ns (cm_name cm) c = (s1, a1)" by fastforce
  show ?thesis
  proof (cases "do_call False a1")
    case (Inr x)
    then have "s' = s1" "succeeds a1" using assms p ok[of a1] by (simp_all add: SaveConfigMap_def Let_def c_def[symmetric] n)
    then show ?thesis using put_stores[OF p] by (simp add: c_def)
  next
    case (Inl e)
    obtain s2 a2 where q: "post s1 ns c = (s2, a2)" by fastforce
    have "e = ErrNotFound" "s' = s2" "\<not> isl (do_call False a2)"
      using assms p q Inl by (auto simp: SaveConfigMap_def Let_def c_def[symmetric] n split: kube_error.splits sum.splits)
    then show ?thesis using post_stores[OF q] ok[of a2] by (simp add: c_def)
  qed
qed

end

text \<open>
  What the kernel relies on: a document saved is the document loaded, with its version
  stamped. \<open>load\<close> and \<open>save\<close> are the two methods of \<open>CheckpointStore\<close> and of \<open>ProfileStore\<close>.
\<close>

locale document_store =
  fixes load :: "'s \<Rightarrow> store_error + 'd option" and save :: "'s \<Rightarrow> 'd \<Rightarrow> 's \<times> store_error option" and stamp :: "'d \<Rightarrow> 'd"
  assumes load_save: "save s d = (s', None) \<Longrightarrow> load s' = Inr (Some (stamp d))"
begin

lemma last_save_wins:
  assumes "save s d = (s1, None)" and "save s1 d' = (s2, None)"
  shows "load s2 = Inr (Some (stamp d'))"
  using assms by (rule_tac load_save)

end

locale json_documents = config_map_api get put post
  for get :: "('s, 'b) cm_get" and put :: "('s, 'b) cm_put" and post :: "('s, 'b) cm_post" +
  fixes enc :: "'d \<Rightarrow> 'b option" and dec :: "'b \<Rightarrow> 'd option" and version_of :: "'d \<Rightarrow> int" and version :: int
    and stamp :: "'d \<Rightarrow> 'd" and key :: string and loc :: "string \<times> string"
  assumes dec_enc: "enc d = Some b \<Longrightarrow> dec b = Some d" and stamped: "version_of (stamp d) = version"
begin

lemma load_after_save:
  assumes "save_document get put post enc stamp key loc s d = (s', None)"
  shows "load_document get dec version_of version key loc s' = Inr (Some (stamp d))"
proof -
  obtain blob where blob: "enc (stamp d) = Some blob" using assms by (cases "enc (stamp d)") (simp_all add: save_document_def)
  define cm where "cm v = \<lparr>cm_name = snd loc, cm_namespace = fst loc, cm_labels = store_labels, cm_version = v, cm_data = [(key, blob)]\<rparr>" for v
  have "\<exists>v. SaveConfigMap put post s (fst loc) (cm v) = (s', None)"
    using assms blob
    by (auto simp: save_document_def Let_def cm_def split: sum.splits kube_error.splits prod.splits)
  then obtain v w where "GetConfigMap get s' (fst loc) (snd loc) = Inr ((cm v)\<lparr>cm_namespace := fst loc, cm_version := w\<rparr>)"
    using save_stores by (metis cm_def config_map.select_convs(1))
  then show ?thesis using dec_enc[OF blob] stamped by (simp add: load_document_def cm_def)
qed

end

sublocale json_documents \<subseteq> document_store "load_document get dec version_of version key loc" "save_document get put post enc stamp key loc" stamp
  by unfold_locales (rule load_after_save)

section \<open>A server that keeps the contract\<close>

text \<open>
  The documented behaviour of the ConfigMap endpoints in its simplest form: a table of
  objects, each write given the next version. It shows that the contract can be kept.
\<close>

record 'b cm_server =
  cs_objects :: "((string \<times> string) \<times> 'b config_map) list"
  cs_next :: nat

definition answer :: "int \<Rightarrow> 'a option \<Rightarrow> string + 'a http_answer" where
  "answer code obj = Inr \<lparr>ha_code = code, ha_status = None, ha_object = obj\<rparr>"

definition cs_store :: "'b cm_server \<Rightarrow> string \<Rightarrow> string \<Rightarrow> 'b config_map \<Rightarrow> 'b cm_server" where
  "cs_store s ns name cm = \<lparr>cs_objects = AList.update (ns, name) (cm\<lparr>cm_version := decimal (cs_next s)\<rparr>) (cs_objects s), cs_next = cs_next s + 1\<rparr>"

definition cs_get :: "('b cm_server, 'b) cm_get" where
  "cs_get s ns name = (case map_of (cs_objects s) (ns, name) of None \<Rightarrow> answer 404 None | Some cm \<Rightarrow> answer 200 (Some cm))"

definition cs_put :: "('b cm_server, 'b) cm_put" where
  "cs_put s ns name cm =
     (case map_of (cs_objects s) (ns, name) of
        None \<Rightarrow> (s, answer 404 None)
      | Some old \<Rightarrow>
          if cm_version cm \<noteq> '''' \<and> cm_version cm \<noteq> cm_version old then (s, answer 409 None)
          else (cs_store s ns name cm, answer 200 None))"

definition cs_post :: "('b cm_server, 'b) cm_post" where
  "cs_post s ns cm =
     (case map_of (cs_objects s) (ns, cm_name cm) of
        None \<Rightarrow> (cs_store s ns (cm_name cm) cm, answer 201 None)
      | Some old \<Rightarrow> (s, answer 409 None))"

lemma cs_store_get:
  "GetConfigMap cs_get (cs_store s ns name cm) ns name = Inr (cm\<lparr>cm_version := decimal (cs_next s)\<rparr>)"
  "(ns', name') \<noteq> (ns, name) \<Longrightarrow> cs_get (cs_store s ns name cm) ns' name' = cs_get s ns' name'"
  by (auto simp: GetConfigMap_def cs_get_def cs_store_def answer_def do_call_def update_conv')

interpretation cs: config_map_api cs_get cs_put cs_post
proof
  fix s s' ns name cm ans
  show "cs_put s ns name cm = (s', ans) \<Longrightarrow> succeeds ans \<Longrightarrow> \<exists>v. GetConfigMap cs_get s' ns name = Inr (cm\<lparr>cm_version := v\<rparr>)"
    by (auto simp: cs_put_def answer_def succeeds_def cs_store_get split: option.splits if_splits)
  show "cs_post s ns cm = (s', ans) \<Longrightarrow> succeeds ans \<Longrightarrow> \<exists>v. GetConfigMap cs_get s' ns (cm_name cm) = Inr (cm\<lparr>cm_version := v\<rparr>)"
    by (auto simp: cs_post_def answer_def succeeds_def cs_store_get split: option.splits)
next
  fix s s' ns name cm a
  show "cs_put s ns name cm = (s', Inr a) \<Longrightarrow> \<not> succeeds (Inr a) \<Longrightarrow> s' = s"
    by (auto simp: cs_put_def answer_def succeeds_def split: option.splits if_splits)
next
  fix ns' name' ns name s cm
  show "(ns', name') \<noteq> (ns, name) \<Longrightarrow> cs_get (fst (cs_put s ns name cm)) ns' name' = cs_get s ns' name'"
    by (auto simp: cs_put_def cs_store_get split: option.splits)
  show "(ns', name') \<noteq> (ns, cm_name cm) \<Longrightarrow> cs_get (fst (cs_post s ns cm)) ns' name' = cs_get s ns' name'"
    by (auto simp: cs_post_def cs_store_get split: option.splits)
next
  fix s ns name old cm
  show "GetConfigMap cs_get s ns name = Inr old \<Longrightarrow> cm_version cm \<noteq> '''' \<Longrightarrow> cm_version cm \<noteq> cm_version old
      \<Longrightarrow> \<exists>s'. cs_put s ns name cm = (s', Inr \<lparr>ha_code = 409, ha_status = None, ha_object = None\<rparr>)"
    by (auto simp: GetConfigMap_def cs_get_def cs_put_def answer_def do_call_def split: option.splits)
qed

end
