(* ===== verification/Supervisor.thy ===== *)
theory Supervisor
  imports Kube_Client
begin

text \<open>
  What surrounds a tick: the checkpoint and the usage document
  (\<open>technocore/kernel/checkpoint.go\<close>, \<open>kernel/usage.go\<close>), the resize pass
  (\<open>kernel/adapt.go\<close>) and the supervisor that turns a report into writes
  (\<open>cmd/technocore/main.go\<close>). \<open>time.RFC3339\<close> parsing and printing are parameters; the texts
  of holds and log lines are constructors.
\<close>

section \<open>The checkpoint\<close>

definition CheckpointVersion :: int where "CheckpointVersion = 1"
definition DefaultCheckpointNamespace :: string where "DefaultCheckpointNamespace = ''farcast-system''"
definition DefaultCheckpointName :: string where "DefaultCheckpointName = ''technocore-ledger''"
definition checkpointKey :: string where "checkpointKey = ''checkpoint.json''"

record checkpoint =
  cp_Version :: int
  cp_Ledger :: snapshot
  cp_Last :: gotime
  cp_Observed :: "observation option"

definition stamp_checkpoint :: "checkpoint \<Rightarrow> checkpoint" where
  "stamp_checkpoint cp = cp\<lparr>cp_Version := CheckpointVersion\<rparr>"

definition checkpoint_names :: "string \<times> string \<Rightarrow> string \<times> string" where
  "checkpoint_names given = names given (DefaultCheckpointNamespace, DefaultCheckpointName)"

definition checkpoint_Load :: "('s, 'b) cm_get \<Rightarrow> ('b \<Rightarrow> checkpoint option) \<Rightarrow> string \<times> string \<Rightarrow> 's \<Rightarrow> store_error + checkpoint option" where
  "checkpoint_Load get dec given = load_document get dec cp_Version CheckpointVersion checkpointKey (checkpoint_names given)"

definition checkpoint_Save :: "('s, 'b) cm_get \<Rightarrow> ('s, 'b) cm_put \<Rightarrow> ('s, 'b) cm_post \<Rightarrow> (checkpoint \<Rightarrow> 'b option) \<Rightarrow> string \<times> string
    \<Rightarrow> 's \<Rightarrow> checkpoint \<Rightarrow> 's \<times> store_error option" where
  "checkpoint_Save get put post enc given = save_document get put post enc stamp_checkpoint checkpointKey (checkpoint_names given)"

datatype restore_error = Restore_load store_error | Restore_ledger cost_error

definition kernel_Restore :: "store_error + checkpoint option \<Rightarrow> reconciler \<Rightarrow> reconciler \<times> (restore_error + bool)" where
  "kernel_Restore loaded r =
     (case loaded of
        Inl e \<Rightarrow> (r, Inl (Restore_load e))
      | Inr None \<Rightarrow> (r, Inr False)
      | Inr (Some cp) \<Rightarrow>
          if PeriodStart (cp_Ledger cp) \<noteq> fst (Period (rc_Ledger r)) \<or> PeriodEnd (cp_Ledger cp) \<noteq> snd (Period (rc_Ledger r))
          then (r, Inr False)
          else case Ledger.Restore (cp_Ledger cp) of
                 Inl e \<Rightarrow> (r, Inl (Restore_ledger e))
               | Inr l \<Rightarrow> (r\<lparr>rc_Ledger := l, rc_Last := cp_Last cp, rc_Observed := cp_Observed cp\<rparr>, Inr True))"

definition checkpoint_of :: "reconciler \<Rightarrow> checkpoint" where
  "checkpoint_of r = \<lparr>cp_Version = CheckpointVersion, cp_Ledger = Snapshot (rc_Ledger r), cp_Last = rc_Last r, cp_Observed = rc_Observed r\<rparr>"

section \<open>The usage document\<close>

definition ProfilesVersion :: int where "ProfilesVersion = 1"
definition DefaultProfilesName :: string where "DefaultProfilesName = ''technocore-profiles''"
definition profilesKey :: string where "profilesKey = ''profiles.json''"

record profiles =
  pf_Version :: int
  pf_At :: gotime
  pf_Store :: usage_snapshot
  pf_Unavailable :: "usage_gap list"
  pf_Advice :: "adaptation list"
  pf_Adapting :: bool
  pf_TrimmedTo :: int
  pf_Dropped :: "string list"

definition stamp_profiles :: "profiles \<Rightarrow> profiles" where
  "stamp_profiles p = p\<lparr>pf_Version := ProfilesVersion\<rparr>"

definition profiles_names :: "string \<times> string \<Rightarrow> string \<times> string" where
  "profiles_names given = names given (DefaultCheckpointNamespace, DefaultProfilesName)"

definition profiles_Load :: "('s, 'b) cm_get \<Rightarrow> ('b \<Rightarrow> profiles option) \<Rightarrow> string \<times> string \<Rightarrow> 's \<Rightarrow> store_error + profiles option" where
  "profiles_Load get dec given = load_document get dec pf_Version ProfilesVersion profilesKey (profiles_names given)"

definition profiles_Save :: "('s, 'b) cm_get \<Rightarrow> ('s, 'b) cm_put \<Rightarrow> ('s, 'b) cm_post \<Rightarrow> (profiles \<Rightarrow> 'b option) \<Rightarrow> string \<times> string
    \<Rightarrow> 's \<Rightarrow> profiles \<Rightarrow> 's \<times> store_error option" where
  "profiles_Save get put post enc given = save_document get put post enc stamp_profiles profilesKey (profiles_names given)"

definition Budget :: "int \<Rightarrow> int" where
  "Budget maxBytes = (if 0 < maxBytes then maxBytes else int DefaultBudget)"

datatype usage_restore_error = Usage_load store_error | Usage_restore usage_error

text \<open>The store is nil, or answers.\<close>

definition RestoreUsage :: "(store_error + profiles option) option \<Rightarrow> reconciler \<Rightarrow> reconciler \<times> (usage_restore_error + bool)" where
  "RestoreUsage loaded r =
     (if rc_Usage r = None then (r, Inr False)
      else case loaded of
             None \<Rightarrow> (r, Inr False)
           | Some (Inl e) \<Rightarrow> (r, Inl (Usage_load e))
           | Some (Inr None) \<Rightarrow> (r, Inr False)
           | Some (Inr (Some doc)) \<Rightarrow>
               (case usage_Restore (pf_Store doc) of
                  Inl e \<Rightarrow> (r, Inl (Usage_restore e))
                | Inr u \<Rightarrow> (r\<lparr>rc_Usage := Some u\<rparr>, Inr True)))"

text \<open>
  \<open>blob\<close> is the size of the encoded snapshot, \<open>budget\<close> the store's and \<open>save\<close> its answer;
  the document handed to it is returned. The window is re-read each time.
\<close>

definition SaveUsage :: "(usage_snapshot \<Rightarrow> nat option) \<Rightarrow> int \<Rightarrow> (profiles \<Rightarrow> store_error option) \<Rightarrow> gotime \<Rightarrow> reconciler
    \<Rightarrow> reconciler \<times> profiles option \<times> (usage_error + store_error) option" where
  "SaveUsage blob budget save now r =
     (case rc_Usage r of
        None \<Rightarrow> (r, None, None)
      | Some u \<Rightarrow>
          let configured = us_hours u;
              u = fst (Forget (now - configured * ns_per_hour) u);
              (u, trimmed) = Trim blob budget u;
              r = r\<lparr>rc_Usage := Some u\<rparr>
          in case trimmed of
               Inl e \<Rightarrow> (r, None, Some (Inl e))
             | Inr t \<Rightarrow>
                 let doc = \<lparr>pf_Version = ProfilesVersion, pf_At = now, pf_Store = usage_Snapshot u,
                       pf_Unavailable = rc_usageUnavailable r, pf_Advice = rc_lastAdvice r, pf_Adapting = rc_Adapting r,
                       pf_TrimmedTo = (if Shortened configured t then tr_Hours t else 0), pf_Dropped = tr_Dropped t\<rparr>
                 in (r, Some doc, map_option Inr (save doc)))"

section \<open>Advice resolved against the cluster\<close>

definition DefaultCooldown :: duration where "DefaultCooldown = 6 * ns_per_hour"
definition AdaptedAtLabel :: string where "AdaptedAtLabel = ''farcast.sofmon.com/adapted-at''"
definition AdaptedFromLabel :: string where "AdaptedFromLabel = ''farcast.sofmon.com/adapted-from''"

definition MonthlyDeltaUSD :: "adaptation \<Rightarrow> real" where
  "MonthlyDeltaUSD a = advice_MonthlyDeltaUSD (an_Advice a) * of_int (max (an_Replicas a) 1)"

definition hourlyDelta :: "adaptation \<Rightarrow> real" where
  "hourlyDelta a =
     (let d = an_Advice a in
      (PodHourlyUSD (ad_CPUMilli d) (ad_MemMiB d) - PodHourlyUSD (ad_CurrentCPUMilli d) (ad_CurrentMemMiB d))
      * of_int (max (an_Replicas a) 1))"

definition AdaptedAt :: "(string \<Rightarrow> gotime option) \<Rightarrow> target \<Rightarrow> gotime option" where
  "AdaptedAt parse t =
     (let v = get_or '''' (tg_Annotations t) AdaptedAtLabel in if v = '''' then None else parse v)"

definition cooldownLeft :: "(string \<Rightarrow> gotime option) \<Rightarrow> reconciler \<Rightarrow> target \<Rightarrow> gotime \<Rightarrow> duration" where
  "cooldownLeft parse r t now =
     (let cd = (if rc_Cooldown r \<le> 0 then DefaultCooldown else rc_Cooldown r) in
      case AdaptedAt parse t of
        None \<Rightarrow> 0
      | Some stamped \<Rightarrow> let left = cd - time_sub now stamped in if 0 < left then left else 0)"

definition holdReason :: "(string \<Rightarrow> gotime option) \<Rightarrow> reconciler \<Rightarrow> target \<Rightarrow> report \<Rightarrow> adaptation \<Rightarrow> gotime \<Rightarrow> hold" where
  "holdReason parse r t rep a now =
     (let left = cooldownLeft parse r t now in
      if 0 < left then Resized_recently left
      else
        let delta = MonthlyDeltaUSD a in
        if 0 < delta then
          let hourly = rp_RateHourlyUSD rep + hourlyDelta a;
              after = Assess (Total (rp_Accrual rep)) (rc_Limit r) hourly now (snd (Period (rc_Ledger r)))
          in if ProjectedOver after \<or> Acts (Level after) then Would_reach_limit delta else No_hold
        else No_hold)"

definition unresolved :: "target \<Rightarrow> adaptation" where
  "unresolved t = \<lparr>an_Advice = \<lparr>ad_App = tg_App t, ad_CurrentCPUMilli = tg_CPUMilli t, ad_CurrentMemMiB = tg_MemMiB t,
       ad_CPUMilli = tg_CPUMilli t, ad_MemMiB = tg_MemMiB t, ad_Act = False, ad_Hold = No_hold, ad_Stepped = False\<rparr>,
     an_Namespace = tg_Namespace t, an_Deployment = tg_Name t, an_Container = '''', an_Replicas = tg_Replicas t,
     an_Stored = False, an_Overridden = False, an_AskedCPUMilli = 0, an_AskedMemMiB = 0\<rparr>"

definition hold_advice :: "hold \<Rightarrow> adaptation \<Rightarrow> adaptation" where
  "hold_advice h a = a\<lparr>an_Advice := (an_Advice a)\<lparr>ad_Act := False, ad_Hold := h, ad_CPUMilli := ad_CurrentCPUMilli (an_Advice a),
     ad_MemMiB := ad_CurrentMemMiB (an_Advice a), ad_Stepped := False\<rparr>\<rparr>"

text \<open>The body of the loop over the targets; a summary of the same application seen later wins.\<close>

definition advise_target :: "(string \<Rightarrow> gotime option) \<Rightarrow> reconciler \<Rightarrow> summary list \<Rightarrow> report \<Rightarrow> gotime \<Rightarrow> target \<Rightarrow> adaptation" where
  "advise_target parse r summaries rep now t =
     (let a = unresolved t in
      case find (\<lambda>s. su_App s = tg_App t) (rev summaries) of
        None \<Rightarrow> a\<lparr>an_Advice := (an_Advice a)\<lparr>ad_Hold := No_profile\<rparr>\<rparr>
      | Some s \<Rightarrow>
          if length (tg_Containers t) \<noteq> 1
          then a\<lparr>an_Advice := (an_Advice a)\<lparr>ad_Hold := Many_containers (length (tg_Containers t))\<rparr>\<rparr>
          else
            let a = a\<lparr>an_Container := hd (tg_Containers t), an_Advice := (Recommend s (rc_Advice r))\<lparr>ad_App := tg_App t\<rparr>\<rparr> in
            if ad_Act (an_Advice a) then
              let h = holdReason parse r t rep a now in if h \<noteq> No_hold then hold_advice h a else a
            else a)"

definition Advise :: "(string \<Rightarrow> gotime option) \<Rightarrow> report \<Rightarrow> gotime \<Rightarrow> reconciler \<Rightarrow> reconciler \<times> adaptation list" where
  "Advise parse rep now r =
     (case rc_Usage r of
        None \<Rightarrow> (r, [])
      | Some u \<Rightarrow>
          let out = sort_by (key_less (\<lambda>a. ad_App (an_Advice a)))
                (map (advise_target parse r (Summarize now u) rep now) (filter (\<lambda>t. tg_Tier t = App_tier) (rp_Targets rep)))
          in (r\<lparr>rc_lastAdvice := out\<rparr>, out))"

text \<open>A resize call: namespace, deployment, container, CPU, memory and the stamp it leaves.\<close>

type_synonym resize_call = "string \<times> string \<times> string \<times> int \<times> int \<times> labels"

record adapt_result =
  ar_Applied :: "adaptation list"
  ar_Failed :: "(adaptation \<times> kube_error) list"

definition resize_stamp :: "(gotime \<Rightarrow> string) \<Rightarrow> adaptation \<Rightarrow> gotime \<Rightarrow> labels" where
  "resize_stamp print a now =
     [(AdaptedAtLabel, print now),
      (AdaptedFromLabel, format_int (ad_CurrentCPUMilli (an_Advice a)) @ ''m/'' @ format_int (ad_CurrentMemMiB (an_Advice a)) @ ''Mi'')]"

definition resize_call_of :: "(gotime \<Rightarrow> string) \<Rightarrow> gotime \<Rightarrow> adaptation \<Rightarrow> resize_call" where
  "resize_call_of print now a = (an_Namespace a, an_Deployment a, an_Container a, ad_CPUMilli (an_Advice a), ad_MemMiB (an_Advice a), resize_stamp print a now)"

fun adapt_loop :: "(resize_call \<Rightarrow> kube_error + int \<times> int) \<Rightarrow> (gotime \<Rightarrow> string) \<Rightarrow> gotime \<Rightarrow> adaptation list \<Rightarrow> adapt_result \<times> resize_call list
    \<Rightarrow> adapt_result \<times> resize_call list" where
  "adapt_loop setRequests print now [] acc = acc"
| "adapt_loop setRequests print now (a # as) (res, calls) =
     (if \<not> ad_Act (an_Advice a) then adapt_loop setRequests print now as (res, calls)
      else
        let c = resize_call_of print now a; calls = calls @ [c] in
        case setRequests c of
          Inl e \<Rightarrow> adapt_loop setRequests print now as (res\<lparr>ar_Failed := ar_Failed res @ [(a, e)]\<rparr>, calls)
        | Inr (cpu, mem) \<Rightarrow>
            let d = an_Advice a;
                a' = a\<lparr>an_Stored := True, an_AskedCPUMilli := ad_CPUMilli d, an_AskedMemMiB := ad_MemMiB d,
                       an_Advice := d\<lparr>ad_CPUMilli := cpu, ad_MemMiB := mem\<rparr>,
                       an_Overridden := (cpu \<noteq> ad_CPUMilli d \<or> mem \<noteq> ad_MemMiB d)\<rparr>
            in adapt_loop setRequests print now as (res\<lparr>ar_Applied := ar_Applied res @ [a']\<rparr>, calls))"

definition Adapt :: "(resize_call \<Rightarrow> kube_error + int \<times> int) \<Rightarrow> (gotime \<Rightarrow> string) \<Rightarrow> adaptation list \<Rightarrow> gotime \<Rightarrow> adapt_result \<times> resize_call list" where
  "Adapt setRequests print advice now = adapt_loop setRequests print now advice (\<lparr>ar_Applied = [], ar_Failed = []\<rparr>, [])"

section \<open>The supervisor\<close>

record supervisor =
  sv_reconciler :: reconciler
  sv_enforce :: bool
  sv_checkpointEvery :: duration
  sv_lastLevel :: level
  sv_lastCheckpoint :: gotime
  sv_warnedProject :: bool

text \<open>
  What the outside answers during one observation: scaling, resizing, the two stores,
  the encoded size of the profiles and the two directions of \<open>time.RFC3339\<close>.
\<close>

record outside =
  ox_scale :: "string \<Rightarrow> string \<Rightarrow> int \<Rightarrow> string option"
  ox_setRequests :: "resize_call \<Rightarrow> kube_error + int \<times> int"
  ox_save :: "checkpoint \<Rightarrow> store_error option"
  ox_profiles :: bool
  ox_budget :: int
  ox_blob :: "usage_snapshot \<Rightarrow> nat option"
  ox_saveUsage :: "profiles \<Rightarrow> store_error option"
  ox_parse :: "string \<Rightarrow> gotime option"
  ox_print :: "gotime \<Rightarrow> string"

text \<open>Every write and every warning, in the order they happen.\<close>

datatype effect =
    Reconcile_failed kernel_error
  | Crossed level real
  | On_course real gotime
  | Not_enforced nat
  | Scaled scale_call
  | Shutdown_refused shutdown_error
  | Would_resize adaptation
  | Resized resize_call
  | Ledger_saved checkpoint
  | Ledger_unsaved store_error
  | Profiles_saved profiles
  | Profiles_unsaved "usage_error + store_error"

definition sv_act :: "outside \<Rightarrow> report \<Rightarrow> supervisor \<Rightarrow> effect list" where
  "sv_act ox rep s =
     (if \<not> sv_enforce s then [Not_enforced (length (report_Stoppable rep))]
      else case Shutdown (ox_scale ox) rep (rp_At rep) of
             (Inl e, calls) \<Rightarrow> map Scaled calls @ [Shutdown_refused e]
           | (Inr res, calls) \<Rightarrow> map Scaled calls)"

definition sv_adapt :: "outside \<Rightarrow> report \<Rightarrow> supervisor \<Rightarrow> supervisor \<times> effect list" where
  "sv_adapt ox rep s =
     (case Advise (ox_parse ox) rep (rp_At rep) (sv_reconciler s) of (r, advice) \<Rightarrow>
        let s = s\<lparr>sv_reconciler := r\<rparr> in
        if advice = [] then (s, [])
        else if \<not> rc_Adapting r then (s, map Would_resize (filter (\<lambda>a. ad_Act (an_Advice a)) advice))
        else (s, map Resized (snd (Adapt (ox_setRequests ox) (ox_print ox) advice (rp_At rep)))))"

definition sv_checkpoint :: "outside \<Rightarrow> gotime \<Rightarrow> supervisor \<Rightarrow> supervisor \<times> effect list" where
  "sv_checkpoint ox now s =
     (if sv_lastCheckpoint s \<noteq> zero_time \<and> time_sub now (sv_lastCheckpoint s) < sv_checkpointEvery s then (s, [])
      else
        let cp = checkpoint_of (sv_reconciler s) in
        case ox_save ox cp of
          Some e \<Rightarrow> (s, [Ledger_unsaved e])
        | None \<Rightarrow>
            let s = s\<lparr>sv_lastCheckpoint := now\<rparr> in
            if \<not> ox_profiles ox then (s, [Ledger_saved cp])
            else
              case SaveUsage (ox_blob ox) (ox_budget ox) (ox_saveUsage ox) now (sv_reconciler s) of
                (r, doc, err) \<Rightarrow>
                  (s\<lparr>sv_reconciler := r\<rparr>,
                   Ledger_saved cp # (case err of Some e \<Rightarrow> [Profiles_unsaved e]
                                      | None \<Rightarrow> (case doc of None \<Rightarrow> [] | Some d \<Rightarrow> [Profiles_saved d]))))"

definition observe :: "outside \<Rightarrow> kernel_error + report \<Rightarrow> supervisor \<Rightarrow> supervisor \<times> effect list" where
  "observe ox outcome s =
     (case outcome of
        Inl e \<Rightarrow> (s, [Reconcile_failed e])
      | Inr rep \<Rightarrow>
          let s = (if rp_Rolled rep then s\<lparr>sv_lastLevel := LevelOK, sv_warnedProject := False\<rparr> else s);
              a = rp_Assessment rep;
              crossed = (if sv_lastLevel s < Level a then [Crossed (Level a) (as_Total a)] else []);
              s = s\<lparr>sv_lastLevel := Level a\<rparr>;
              course = (if ProjectedOver a \<and> \<not> sv_warnedProject s then [On_course (Projected a) (ProjectedAt a)] else []);
              s = s\<lparr>sv_warnedProject := (sv_warnedProject s \<or> ProjectedOver a)\<rparr>;
              acted = (if Acts (Level a) then sv_act ox rep s else []);
              (s, resized) = sv_adapt ox rep s;
              (s, saved) = sv_checkpoint ox (rp_At rep) s
          in (s, crossed @ course @ acted @ resized @ saved))"

text \<open>One turn of \<open>Run\<close>: a tick of the reconciler, observed.\<close>

definition supervised_tick :: "tick_env \<Rightarrow> outside \<Rightarrow> gotime \<Rightarrow> supervisor \<Rightarrow> supervisor \<times> effect list" where
  "supervised_tick env ox now s =
     (case Reconcile env now (sv_reconciler s) of (r, outcome) \<Rightarrow> observe ox outcome (s\<lparr>sv_reconciler := r\<rparr>))"

fun supervise :: "(tick_env \<times> outside \<times> gotime) list \<Rightarrow> supervisor \<Rightarrow> supervisor \<times> effect list" where
  "supervise [] s = (s, [])"
| "supervise ((env, ox, now) # ts) s =
     (case supervised_tick env ox now s of (s, es) \<Rightarrow> case supervise ts s of (s, fs) \<Rightarrow> (s, es @ fs))"

section \<open>Starting\<close>

datatype serve_error = No_instance | Limit_not_positive real | No_namespaces | Serve_period period_error | Serve_ledger cost_error

definition meter_list :: "string \<Rightarrow> string list" where
  "meter_list namespaces = filter (\<lambda>ns. ns \<noteq> '''') (map trim_space (split_on (CHR '','') namespaces))"

definition start_kernel :: "string \<Rightarrow> string \<Rightarrow> real \<Rightarrow> string \<Rightarrow> duration \<Rightarrow> int \<Rightarrow> bool \<Rightarrow> duration \<Rightarrow> string \<Rightarrow> gotime \<Rightarrow> serve_error + reconciler" where
  "start_kernel inst namespaces lmt period interval usageHours adaptResources cooldown managedBy now =
     (if inst = '''' then Inl No_instance
      else if lmt \<le> 0 then Inl (Limit_not_positive lmt)
      else if meter_list namespaces = [] then Inl No_namespaces
      else
        case PeriodFor now period of
          Inl e \<Rightarrow> Inl (Serve_period e)
        | Inr (start, end') \<Rightarrow>
            (case NewLedger start end' of
               Inl e \<Rightarrow> Inl (Serve_ledger e)
             | Inr l \<Rightarrow> Inr \<lparr>rc_Namespaces = meter_list namespaces, rc_Ledger = l, rc_Limit = lmt, rc_Interval = interval,
                 rc_Period = period, rc_Selector = managedBy, rc_Last = zero_time, rc_Observed = None,
                 rc_Usage = (if 0 < usageHours then Some (usage_New usageHours) else None), rc_lastReading = [],
                 rc_Advice = zero_config, rc_Cooldown = cooldown, rc_Adapting = (adaptResources \<and> 0 < usageHours),
                 rc_lastAdvice = [], rc_usageUnavailable = []\<rparr>))"

section \<open>A restart\<close>

text \<open>A reconciler the program can be in: started, restored, ticked, advised and saved, in any order.\<close>

inductive kernel_run :: "reconciler \<Rightarrow> bool" where
  run_start: "start_kernel inst nss lmt p iv uh ad cd mb now = Inr r \<Longrightarrow> kernel_run r"
| run_restore: "kernel_run r \<Longrightarrow> kernel_Restore loaded r = (r', res) \<Longrightarrow> kernel_run r'"
| run_restore_usage: "kernel_run r \<Longrightarrow> RestoreUsage docs r = (r', res') \<Longrightarrow> kernel_run r'"
| run_tick: "kernel_run r \<Longrightarrow> Reconcile env now r = (r', outcome) \<Longrightarrow> kernel_run r'"
| run_advise: "kernel_run r \<Longrightarrow> Advise parse rep now r = (r', advice) \<Longrightarrow> kernel_run r'"
| run_save_usage: "kernel_run r \<Longrightarrow> SaveUsage blob budget save now r = (r', written) \<Longrightarrow> kernel_run r'"

lemma Advise_frame: "fst (Advise parse rep now r) = r\<lparr>rc_lastAdvice := rc_lastAdvice (fst (Advise parse rep now r))\<rparr>"
  by (simp add: Advise_def Let_def split: option.splits)

lemma SaveUsage_frame: "fst (SaveUsage blob budget save now r) = r\<lparr>rc_Usage := rc_Usage (fst (SaveUsage blob budget save now r))\<rparr>"
  by (simp add: SaveUsage_def Let_def split: option.splits sum.splits prod.splits)

lemma RestoreUsage_frame: "fst (RestoreUsage docs r) = r\<lparr>rc_Usage := rc_Usage (fst (RestoreUsage docs r))\<rparr>"
  by (simp add: RestoreUsage_def split: option.splits sum.splits)

lemma kernel_run_ok: "kernel_run r \<Longrightarrow> ledger_ok (rc_Ledger r)"
proof (induction rule: kernel_run.induct)
  case (run_start inst nss lmt p iv uh ad cd mb now r)
  then show ?case using NewLedger_ok by (auto simp: start_kernel_def split: if_splits sum.splits)
next
  case (run_restore r loaded r' res)
  then show ?case using Restore_ok by (auto simp: kernel_Restore_def split: if_splits sum.splits option.splits)
next
  case (run_restore_usage r docs r' res')
  then show ?case using RestoreUsage_frame[of docs r] by (metis fst_conv reconciler.ext_inject reconciler.surjective reconciler.update_convs(9))
next
  case (run_tick r env now r' outcome)
  then show ?case using Reconcile_ledger_ok by blast
next
  case (run_advise r parse rep now r' advice)
  then show ?case using Advise_frame[of parse rep now r] by (metis fst_conv reconciler.ext_inject reconciler.surjective reconciler.update_convs(14))
next
  case (run_save_usage r blob budget save now r' written)
  then show ?case using SaveUsage_frame[of blob budget save now r] by (metis fst_conv reconciler.ext_inject reconciler.surjective reconciler.update_convs(9))
qed

text \<open>Restoring a reconciler's own checkpoint, whatever store carried it.\<close>

lemma kernel_Restore_checkpoint:
  assumes "ledger_ok (rc_Ledger r)" and "\<forall>h\<in>fst ` set (hourly (rc_Ledger r)). - (2 ^ 63) \<le> h \<and> h < 2 ^ 63"
    and "Period (rc_Ledger r0) = Period (rc_Ledger r)"
  shows "kernel_Restore (Inr (Some (stamp_checkpoint (checkpoint_of r)))) r0 =
    (r0\<lparr>rc_Ledger := (rc_Ledger r)\<lparr>discrepancies := disagreements (rc_Ledger r) (confirmations (rc_Ledger r))\<rparr>,
        rc_Last := rc_Last r, rc_Observed := rc_Observed r\<rparr>, Inr True)"
proof -
  have "PeriodStart (Snapshot l) = periodStart l" "PeriodEnd (Snapshot l) = periodEnd l" for l by (simp_all add: Snapshot_def)
  then show ?thesis using Restore_Snapshot[OF assms(1,2)] assms(3)
    by (simp add: kernel_Restore_def stamp_checkpoint_def checkpoint_of_def Period_def)
qed

text \<open>The two documents of the kernel, on a server that keeps the contract, with the text of a document the document itself.\<close>

interpretation ledgers: json_documents cs_get cs_put cs_post Some Some cp_Version CheckpointVersion stamp_checkpoint checkpointKey "checkpoint_names ('''', '''')"
  by unfold_locales (simp_all add: stamp_checkpoint_def)

interpretation usages: json_documents cs_get cs_put cs_post Some Some pf_Version ProfilesVersion stamp_profiles profilesKey "profiles_names ('''', '''')"
  by unfold_locales (simp_all add: stamp_profiles_def)

text \<open>
  C37. A restart resumes the bill where it stopped. Once a checkpoint has been written to a
  ConfigMap, a kernel started again in the same period reads it back and restores from it:
  the total compared against the limit, the last observation and the instant of the last
  accrual are those of the kernel that wrote it, so its first tick bills the whole outage.
  It needs the API server's rules for named objects and a decoder that inverts the encoder.
\<close>

theorem restart_resumes_the_bill:
  assumes "config_map_api get put post" and "\<forall>d b. enc d = Some b \<longrightarrow> dec b = Some d"
    and "kernel_run r" and "\<forall>h\<in>fst ` set (hourly (rc_Ledger r)). - (2 ^ 63) \<le> h \<and> h < 2 ^ 63"
    and "checkpoint_Save get put post enc given s (checkpoint_of r) = (s', None)"
    and "Period (rc_Ledger r0) = Period (rc_Ledger r)"
  shows "case kernel_Restore (checkpoint_Load get dec given s') r0 of (r1, res) \<Rightarrow>
    res = Inr True \<and> rc_Last r1 = rc_Last r \<and> rc_Observed r1 = rc_Observed r
    \<and> Total (Accrued (rc_Ledger r1)) = Total (Accrued (rc_Ledger r)) \<and> ByApp (rc_Ledger r1) = ByApp (rc_Ledger r)
    \<and> (\<forall>now. billableInterval now r1 = billableInterval now r)"
proof -
  have "json_documents get put post enc dec cp_Version CheckpointVersion stamp_checkpoint"
    using assms(1,2) unfolding json_documents_def json_documents_axioms_def by (simp add: stamp_checkpoint_def)
  from json_documents.load_after_save[OF this] have
    "checkpoint_Load get dec given s' = Inr (Some (stamp_checkpoint (checkpoint_of r)))"
    using assms(5) by (simp add: checkpoint_Load_def checkpoint_Save_def)
  then show ?thesis
    using kernel_Restore_checkpoint[OF kernel_run_ok[OF assms(3)] assms(4,6)] assms(6)
    by (simp add: Accrued_discrepancies ByApp_def billableInterval_def)
qed

definition example_start :: "serve_error + reconciler" where
  "example_start = start_kernel ''demo'' ''apps, tools'' 10 ''daily'' 30 24 False 0 ''managed'' (5 * ns_per_hour)"

lemma example_start_runs: "\<exists>r. example_start = Inr r \<and> hourly (rc_Ledger r) = [] \<and> rc_Namespaces r = [''apps'', ''tools'']"
proof -
  have "meter_list ''apps, tools'' = [''apps'', ''tools'']" by code_simp
  moreover have "PeriodFor (5 * ns_per_hour) ''daily'' = Inr (0, 24 * ns_per_hour)" by code_simp
  ultimately show ?thesis by (simp add: example_start_def start_kernel_def NewLedger_def ns_per_hour_def)
qed

theorem restart_resumes_the_bill_witness:
  "\<exists>r s'. example_start = Inr r \<and> checkpoint_Save cs_get cs_put cs_post Some ('''', '''') \<lparr>cs_objects = [], cs_next = 7\<rparr> (checkpoint_of r) = (s', None)
     \<and> snd (kernel_Restore (checkpoint_Load cs_get Some ('''', '''') s') r) = Inr True"
proof -
  obtain r where r: "example_start = Inr r" "hourly (rc_Ledger r) = []" using example_start_runs by blast
  have run: "kernel_run r" using r(1) unfolding example_start_def by (rule run_start)
  define s0 :: "checkpoint cm_server" where "s0 = \<lparr>cs_objects = [], cs_next = 7\<rparr>"
  have "\<exists>s'. checkpoint_Save cs_get cs_put cs_post Some ('''', '''') s0 (checkpoint_of r) = (s', None)"
    by (simp add: checkpoint_Save_def save_document_def s0_def GetConfigMap_def SaveConfigMap_def cs_get_def cs_put_def cs_post_def
        answer_def do_call_def apiError_def Unwrap_def Let_def)
  then obtain s' where s': "checkpoint_Save cs_get cs_put cs_post Some ('''', '''') s0 (checkpoint_of r) = (s', None)" by blast
  have "case kernel_Restore (checkpoint_Load cs_get Some ('''', '''') s') r of (r1, res) \<Rightarrow> res = Inr True"
    using restart_resumes_the_bill[OF cs.config_map_api_axioms, of Some Some r "('''', '''')" s0 s' r] run r(2) s'
    by (auto split: prod.splits)
  then show ?thesis using r(1) s' s0_def by (auto split: prod.splits intro!: exI[of _ r] exI[of _ s'])
qed

text \<open>
  A restart in a new period forgets when it last accrued. The checkpoint of another
  period is set aside whole, the instant of the last accrual with it, so the first tick
  bills nothing; a kernel that had kept running would have billed from the start of the
  period. Whatever ran between the start of the period and that tick is on no bill.
\<close>

theorem restart_forgets_across_periods:
  assumes "PeriodEnd (cp_Ledger cp) \<le> periodStart (rc_Ledger r0)" "PeriodStart (cp_Ledger cp) < PeriodEnd (cp_Ledger cp)"
    and "rc_Last r0 = zero_time" and "zero_time < cp_Last cp" and "cp_Last cp \<le> periodStart (rc_Ledger r0)"
    and "periodStart (rc_Ledger r0) < now"
  shows "kernel_Restore (Inr (Some cp)) r0 = (r0, Inr False) \<and> billableInterval now r0 = 0
    \<and> billableInterval now (r0\<lparr>rc_Last := cp_Last cp\<rparr>) = time_sub now (periodStart (rc_Ledger r0))
    \<and> 0 < billableInterval now (r0\<lparr>rc_Last := cp_Last cp\<rparr>)"
  using assms by (auto simp: kernel_Restore_def Period_def billableInterval_def Let_def time_sub_pos_iff)

theorem restart_forgets_across_periods_witness:
  "billableInterval ns_per_hour (example_kernel 1 zero_time) = 0
   \<and> 0 < billableInterval ns_per_hour ((example_kernel 1 zero_time)\<lparr>rc_Last := - 1\<rparr>)"
proof -
  define cp where "cp = \<lparr>cp_Version = 1, cp_Ledger = Snapshot \<lparr>periodStart = - 10, periodEnd = 0, hourly = [], apps = [], confirmations = [], discrepancies = []\<rparr>,
    cp_Last = - 1, cp_Observed = None\<rparr>"
  have "PeriodStart (cp_Ledger cp) = - 10" "PeriodEnd (cp_Ledger cp) = 0" "cp_Last cp = - 1" by (simp_all add: cp_def Snapshot_def)
  moreover have "rc_Last (example_kernel 1 zero_time) = zero_time" "periodStart (rc_Ledger (example_kernel 1 zero_time)) = 0"
    by (simp_all add: example_kernel_def)
  moreover have "zero_time < - 1" "0 < ns_per_hour" by (simp_all add: zero_time_def ns_per_hour_def)
  ultimately show ?thesis using restart_forgets_across_periods[of cp "example_kernel 1 zero_time" ns_per_hour] by simp
qed

section \<open>What the supervisor writes\<close>

lemma holdReason_No_hold:
  "holdReason parse r t rep a now = No_hold \<longleftrightarrow>
     cooldownLeft parse r t now \<le> 0
     \<and> (0 < MonthlyDeltaUSD a \<longrightarrow>
          (let after = Assess (Total (rp_Accrual rep)) (rc_Limit r) (rp_RateHourlyUSD rep + hourlyDelta a) now (periodEnd (rc_Ledger r))
           in \<not> ProjectedOver after \<and> \<not> Acts (Level after)))"
  by (auto simp: holdReason_def Let_def Period_def)

text \<open>An acting advice comes from one application target with one container, and passed the cluster's veto.\<close>

lemma Advise_acts:
  assumes "a \<in> set (snd (Advise parse rep now r))" and "ad_Act (an_Advice a)"
  shows "\<exists>t\<in>set (rp_Targets rep). tg_Tier t = App_tier \<and> an_Namespace a = tg_Namespace t \<and> an_Deployment a = tg_Name t
    \<and> tg_Containers t = [an_Container a] \<and> an_Replicas a = tg_Replicas t \<and> holdReason parse r t rep a now = No_hold"
proof -
  obtain u where u: "rc_Usage r = Some u" using assms(1) by (cases "rc_Usage r") (simp_all add: Advise_def)
  then obtain t where t: "t \<in> set (rp_Targets rep)" "tg_Tier t = App_tier" "a = advise_target parse r (Summarize now u) rep now t"
    using assms(1) by (auto simp: Advise_def Let_def)
  obtain s where s: "find (\<lambda>s. su_App s = tg_App t) (rev (Summarize now u)) = Some s" and one: "length (tg_Containers t) = 1"
    using assms(2) t(3) by (auto simp: advise_target_def Let_def unresolved_def split: option.splits if_splits)
  define b where "b = (unresolved t)\<lparr>an_Container := hd (tg_Containers t), an_Advice := (Recommend s (rc_Advice r))\<lparr>ad_App := tg_App t\<rparr>\<rparr>"
  have ab: "a = (if ad_Act (an_Advice b) then (let h = holdReason parse r t rep b now in if h \<noteq> No_hold then hold_advice h b else b) else b)"
    using t(3) s one by (simp add: advise_target_def Let_def b_def)
  have "a = b" "holdReason parse r t rep b now = No_hold"
    using ab assms(2) by (auto simp: Let_def hold_advice_def split: if_splits)
  moreover have "tg_Containers t = [hd (tg_Containers t)]" using one by (cases "tg_Containers t") auto
  ultimately show ?thesis using t(1,2) by (intro bexI[of _ t]) (simp_all add: b_def unresolved_def)
qed

lemma adapt_loop_calls:
  "snd (adapt_loop setRequests print now as (res, calls))
     = calls @ map (resize_call_of print now) (filter (\<lambda>a. ad_Act (an_Advice a)) as)"
proof (induction as arbitrary: res calls)
  case (Cons a as)
  show ?case by (cases "setRequests (resize_call_of print now a)") (auto simp: Cons.IH Let_def split: prod.splits)
qed simp

lemma adapt_loop_outcomes:
  "length (ar_Applied (fst (adapt_loop setRequests print now as (res, calls)))) + length (ar_Failed (fst (adapt_loop setRequests print now as (res, calls))))
     = length (ar_Applied res) + length (ar_Failed res) + length (filter (\<lambda>a. ad_Act (an_Advice a)) as)"
proof (induction as arbitrary: res calls)
  case (Cons a as)
  show ?case by (cases "setRequests (resize_call_of print now a)") (auto simp: Cons.IH Let_def split: prod.splits)
qed simp

lemma sv_act_Scaled: "Scaled c \<in> set (sv_act ox rep s) \<Longrightarrow> sv_enforce s \<and> c \<in> set (snd (Shutdown (ox_scale ox) rep (rp_At rep)))"
  by (cases "Shutdown (ox_scale ox) rep (rp_At rep)"; cases "fst (Shutdown (ox_scale ox) rep (rp_At rep))")
    (auto simp: sv_act_def split: if_splits)

lemma sv_act_Resized: "Resized c \<notin> set (sv_act ox rep s)"
  by (cases "Shutdown (ox_scale ox) rep (rp_At rep)"; cases "fst (Shutdown (ox_scale ox) rep (rp_At rep))")
    (auto simp: sv_act_def)

lemma sv_checkpoint_writes: "Scaled c \<notin> set (snd (sv_checkpoint ox now s)) \<and> Resized c' \<notin> set (snd (sv_checkpoint ox now s))"
  by (auto simp: sv_checkpoint_def Let_def split: option.splits prod.splits)

lemma sv_adapt_writes:
  assumes "sv_adapt ox rep s = (s', es)"
  shows "Scaled c \<notin> set es"
    and "Resized c' \<in> set es \<Longrightarrow> rc_Adapting (sv_reconciler s)
      \<and> (\<exists>a\<in>set (snd (Advise (ox_parse ox) rep (rp_At rep) (sv_reconciler s))). ad_Act (an_Advice a) \<and> c' = resize_call_of (ox_print ox) (rp_At rep) a)"
proof -
  obtain r advice where ad: "Advise (ox_parse ox) rep (rp_At rep) (sv_reconciler s) = (r, advice)" by fastforce
  have r: "rc_Adapting r = rc_Adapting (sv_reconciler s)"
    using Advise_frame[of "ox_parse ox" rep "rp_At rep" "sv_reconciler s"] ad by (metis fst_conv reconciler.ext_inject reconciler.surjective reconciler.update_convs(14))
  show "Scaled c \<notin> set es" using assms ad by (auto simp: sv_adapt_def Let_def split: if_splits)
  show "Resized c' \<in> set es \<Longrightarrow> rc_Adapting (sv_reconciler s)
      \<and> (\<exists>a\<in>set (snd (Advise (ox_parse ox) rep (rp_At rep) (sv_reconciler s))). ad_Act (an_Advice a) \<and> c' = resize_call_of (ox_print ox) (rp_At rep) a)"
    using assms ad r by (auto simp: sv_adapt_def Let_def Adapt_def adapt_loop_calls split: if_splits)
qed

text \<open>The effects that write to the cluster, and the documents of one turn.\<close>

fun writes :: "effect \<Rightarrow> bool" where
  "writes (Scaled c) = True"
| "writes (Resized c) = True"
| "writes (Ledger_saved cp) = True"
| "writes (Profiles_saved d) = True"
| "writes _ = False"

definition turn_documents :: "outside \<Rightarrow> gotime \<Rightarrow> supervisor \<Rightarrow> effect list \<Rightarrow> bool" where
  "turn_documents ox now s docs \<longleftrightarrow> docs = []
     \<or> (sv_lastCheckpoint s = zero_time \<or> sv_checkpointEvery s \<le> time_sub now (sv_lastCheckpoint s))
       \<and> ox_save ox (checkpoint_of (sv_reconciler s)) = None
       \<and> (docs = [Ledger_saved (checkpoint_of (sv_reconciler s))]
          \<or> ox_profiles ox \<and> (\<exists>d. docs = [Ledger_saved (checkpoint_of (sv_reconciler s)), Profiles_saved d]))"

lemma sv_checkpoint_documents: "turn_documents ox now s (filter writes (snd (sv_checkpoint ox now s)))"
  by (auto simp: turn_documents_def sv_checkpoint_def Let_def not_less split: option.split prod.split)

lemma filter_all: "(\<And>x. x \<in> set xs \<Longrightarrow> P x) \<Longrightarrow> filter P xs = xs"
  by (induction xs) auto

lemma sv_act_filter: "\<exists>calls. filter writes (sv_act ox rep s) = map Scaled calls"
proof -
  obtain r calls where c: "Shutdown (ox_scale ox) rep (rp_At rep) = (r, calls)" by fastforce
  have "filter writes (map Scaled calls) = map Scaled calls" by (rule filter_all) auto
  then show ?thesis using c by (cases "sv_enforce s"; cases r) (auto simp: sv_act_def intro: exI[of _ "[]"])
qed

lemma sv_adapt_filter: "\<exists>calls. filter writes (snd (sv_adapt ox rep s)) = map Resized calls"
proof -
  have "filter writes (map Resized calls) = map Resized calls" for calls by (rule filter_all) auto
  moreover have "filter writes (map Would_resize as) = map Resized []" for as by (induction as) auto
  ultimately show ?thesis
    by (auto simp: sv_adapt_def Let_def intro: exI[of _ "[]"] split: prod.split)
qed

lemma sv_adapt_checkpoint:
  "sv_adapt ox rep s = (s', es) \<Longrightarrow> checkpoint_of (sv_reconciler s') = checkpoint_of (sv_reconciler s)
     \<and> sv_lastCheckpoint s' = sv_lastCheckpoint s \<and> sv_checkpointEvery s' = sv_checkpointEvery s"
proof -
  assume a: "sv_adapt ox rep s = (s', es)"
  obtain r' ad where ad: "Advise (ox_parse ox) rep (rp_At rep) (sv_reconciler s) = (r', ad)" by fastforce
  then have "r' = (sv_reconciler s)\<lparr>rc_lastAdvice := rc_lastAdvice r'\<rparr>"
    using Advise_frame[of "ox_parse ox" rep "rp_At rep" "sv_reconciler s"] by simp
  then have "checkpoint_of r' = checkpoint_of ((sv_reconciler s)\<lparr>rc_lastAdvice := rc_lastAdvice r'\<rparr>)" by (rule arg_cong)
  then have "checkpoint_of r' = checkpoint_of (sv_reconciler s)" by (simp add: checkpoint_of_def)
  moreover have "s' = s\<lparr>sv_reconciler := r'\<rparr>" using a ad by (auto simp: sv_adapt_def Let_def split: if_splits)
  ultimately show ?thesis by simp
qed

text \<open>What an observation of a report writes, by the part that wrote it.\<close>

lemma observe_writes:
  assumes "observe ox (Inr rep) s = (s', es)"
  shows "Scaled c \<in> set es \<Longrightarrow> sv_enforce s \<and> c \<in> set (snd (Shutdown (ox_scale ox) rep (rp_At rep)))"
    and "Resized c' \<in> set es \<Longrightarrow> rc_Adapting (sv_reconciler s)
      \<and> (\<exists>a\<in>set (snd (Advise (ox_parse ox) rep (rp_At rep) (sv_reconciler s))). ad_Act (an_Advice a) \<and> c' = resize_call_of (ox_print ox) (rp_At rep) a)"
proof -
  define s1 where "s1 = (if rp_Rolled rep then s\<lparr>sv_lastLevel := LevelOK, sv_warnedProject := False\<rparr> else s)"
  define s2 where "s2 = s1\<lparr>sv_lastLevel := Level (rp_Assessment rep),
    sv_warnedProject := (sv_warnedProject (s1\<lparr>sv_lastLevel := Level (rp_Assessment rep)\<rparr>) \<or> ProjectedOver (rp_Assessment rep))\<rparr>"
  obtain s3 ads where ad: "sv_adapt ox rep s2 = (s3, ads)" by fastforce
  obtain s4 cps where cp: "sv_checkpoint ox (rp_At rep) s3 = (s4, cps)" by fastforce
  have same: "sv_reconciler s2 = sv_reconciler s" "sv_enforce s2 = sv_enforce s" by (simp_all add: s2_def s1_def)
  have es: "es = (if sv_lastLevel s1 < Level (rp_Assessment rep) then [Crossed (Level (rp_Assessment rep)) (as_Total (rp_Assessment rep))] else [])
      @ (if ProjectedOver (rp_Assessment rep) \<and> \<not> sv_warnedProject s1 then [On_course (Projected (rp_Assessment rep)) (ProjectedAt (rp_Assessment rep))] else [])
      @ (if Acts (Level (rp_Assessment rep)) then sv_act ox rep s2 else []) @ ads @ cps"
    using assms ad cp unfolding observe_def sum.case Let_def s1_def[symmetric] s2_def[symmetric] by simp
  have ck: "Scaled c \<notin> set cps" "Resized c' \<notin> set cps" for c c' using sv_checkpoint_writes[of _ ox "rp_At rep" s3] cp by auto
  show "Scaled c \<in> set es \<Longrightarrow> sv_enforce s \<and> c \<in> set (snd (Shutdown (ox_scale ox) rep (rp_At rep)))"
    using ck(1)[of c] sv_act_Scaled[of c ox rep s2] sv_adapt_writes(1)[OF ad, of c] same unfolding es by (auto split: if_splits)
  show "Resized c' \<in> set es \<Longrightarrow> rc_Adapting (sv_reconciler s)
      \<and> (\<exists>a\<in>set (snd (Advise (ox_parse ox) rep (rp_At rep) (sv_reconciler s))). ad_Act (an_Advice a) \<and> c' = resize_call_of (ox_print ox) (rp_At rep) a)"
    using ck(2)[of c'] sv_act_Resized[of c' ox rep s2] sv_adapt_writes(2)[OF ad, of c'] same unfolding es by (auto split: if_splits)
qed

text \<open>All an observation writes, in order: scalings, resizes, and the documents of the turn.\<close>

lemma observe_filter:
  assumes "observe ox (Inr rep) s = (s', es)"
  shows "\<exists>scaled resized docs. filter writes es = map Scaled scaled @ map Resized resized @ docs \<and> turn_documents ox (rp_At rep) s docs"
proof -
  define s1 where "s1 = (if rp_Rolled rep then s\<lparr>sv_lastLevel := LevelOK, sv_warnedProject := False\<rparr> else s)"
  define s2 where "s2 = s1\<lparr>sv_lastLevel := Level (rp_Assessment rep),
    sv_warnedProject := (sv_warnedProject (s1\<lparr>sv_lastLevel := Level (rp_Assessment rep)\<rparr>) \<or> ProjectedOver (rp_Assessment rep))\<rparr>"
  obtain s3 ads where ad: "sv_adapt ox rep s2 = (s3, ads)" by fastforce
  obtain s4 cps where cp: "sv_checkpoint ox (rp_At rep) s3 = (s4, cps)" by fastforce
  have same: "sv_reconciler s2 = sv_reconciler s" "sv_lastCheckpoint s2 = sv_lastCheckpoint s" "sv_checkpointEvery s2 = sv_checkpointEvery s"
    by (simp_all add: s2_def s1_def)
  have es: "es = (if sv_lastLevel s1 < Level (rp_Assessment rep) then [Crossed (Level (rp_Assessment rep)) (as_Total (rp_Assessment rep))] else [])
      @ (if ProjectedOver (rp_Assessment rep) \<and> \<not> sv_warnedProject s1 then [On_course (Projected (rp_Assessment rep)) (ProjectedAt (rp_Assessment rep))] else [])
      @ (if Acts (Level (rp_Assessment rep)) then sv_act ox rep s2 else []) @ ads @ cps"
    using assms ad cp unfolding observe_def sum.case Let_def s1_def[symmetric] s2_def[symmetric] by simp
  obtain scaled where sc: "filter writes (if Acts (Level (rp_Assessment rep)) then sv_act ox rep s2 else []) = map Scaled scaled"
    using sv_act_filter[of ox rep s2] by (cases "Acts (Level (rp_Assessment rep))") (auto intro: exI[of _ "[]"])
  obtain resized where re: "filter writes ads = map Resized resized" using sv_adapt_filter[of ox rep s2] ad by auto
  have "turn_documents ox (rp_At rep) s3 (filter writes cps)" using sv_checkpoint_documents[of ox "rp_At rep" s3] cp by simp
  then have d: "turn_documents ox (rp_At rep) s (filter writes cps)"
    using sv_adapt_checkpoint[OF ad] same by (simp add: turn_documents_def)
  have "filter writes es = map Scaled scaled @ map Resized resized @ filter writes cps" unfolding es using sc re by simp
  then show ?thesis using d by blast
qed

text \<open>The same for the deployment behind an acting advice, after a successful tick.\<close>

lemma resize_vetted:
  assumes rec: "Reconcile env now r = (r', Inr rep)"
    and a: "a \<in> set (snd (Advise parse rep (rp_At rep) r'))" "ad_Act (an_Advice a)"
  shows "\<exists>deps d. te_ListDeployments env (an_Namespace a) (rc_Selector r) = Inr deps \<and> d \<in> set deps
    \<and> dp_name d = an_Deployment a \<and> map_of (dp_labels d) tier_label = Some ''app''
    \<and> (\<forall>v t0. map_of (dp_annotations d) AdaptedAtLabel = Some v \<and> v \<noteq> '''' \<and> parse v = Some t0
         \<longrightarrow> (if rc_Cooldown r \<le> 0 then DefaultCooldown else rc_Cooldown r) \<le> time_sub (rp_At rep) t0)
    \<and> (0 < MonthlyDeltaUSD a \<longrightarrow>
         \<not> ProjectedOver (Assess (Total (rp_Accrual rep)) (rc_Limit r) (rp_RateHourlyUSD rep + hourlyDelta a) (rp_At rep) (periodEnd (rc_Ledger r'))))"
proof -
  have conf: "rc_Limit r' = rc_Limit r" "rc_Cooldown r' = rc_Cooldown r" using Reconcile_config[OF rec] by auto
  obtain t where t: "t \<in> set (rp_Targets rep)" "tg_Tier t = App_tier" "an_Namespace a = tg_Namespace t" "an_Deployment a = tg_Name t"
      "holdReason parse r' t rep a (rp_At rep) = No_hold" using Advise_acts[OF a] by auto
  obtain deps d where d: "te_ListDeployments env (an_Namespace a) (rc_Selector r) = Inr deps" "d \<in> set deps" "dp_name d = an_Deployment a"
      "Of (dp_labels d) = App_tier" "dp_annotations d = tg_Annotations t"
    using target_listed[OF rec t(1)] t(2-4) by auto
  have "cooldownLeft parse r' t (rp_At rep) \<le> 0" using t(5) by (simp add: holdReason_No_hold)
  then have cool: "(if rc_Cooldown r \<le> 0 then DefaultCooldown else rc_Cooldown r) \<le> time_sub (rp_At rep) t0"
    if "map_of (dp_annotations d) AdaptedAtLabel = Some v" "v \<noteq> ''''" "parse v = Some t0" for v t0
    using that d(5) conf(2) by (auto simp: cooldownLeft_def AdaptedAt_def Let_def get_or_def split: if_splits)
  have label: "map_of (dp_labels d) tier_label = Some ''app''" using Stoppable_Of[of "dp_labels d"] d(4) by (simp add: Stoppable_def)
  have money: "\<not> ProjectedOver (Assess (Total (rp_Accrual rep)) (rc_Limit r) (rp_RateHourlyUSD rep + hourlyDelta a) (rp_At rep) (periodEnd (rc_Ledger r')))"
    if "0 < MonthlyDeltaUSD a" using t(5) that conf(1) by (simp add: holdReason_No_hold Let_def)
  show ?thesis using d(1-3) label cool money by blast
qed

text \<open>
  C36. The kernel's two powers over a workload are fenced. Over one whole turn, tick and
  observation: a tick that failed writes nothing. A scaling call is made only with
  enforcement on and the accrued total at a configured limit, always to zero, and only on a
  deployment the cluster listed as an application. A resize is made only with adapting
  switched on, on such a deployment with the one container it names, not while the stamp of
  an earlier resize is younger than the cooldown, and, when it makes the deployment dearer,
  not if the resulting rate would be on course to reach the limit. Beside these two a turn
  writes its own documents and nothing else: after them, and only when a checkpoint is due, the
  ledger with the checkpoint of that tick, and after the ledger was saved the usage profiles.
\<close>

theorem supervisor_writes_are_fenced:
  assumes "supervised_tick env ox now s = (s', es)"
  defines "r \<equiv> sv_reconciler s"
  shows "case Reconcile env now r of
      (r', Inl e) \<Rightarrow> es = [Reconcile_failed e]
    | (r', Inr rep) \<Rightarrow>
        (\<forall>ns name n. Scaled (ns, name, n) \<in> set es \<longrightarrow>
           sv_enforce s \<and> n = 0 \<and> 0 < rc_Limit r \<and> rc_Limit r \<le> Total (rp_Accrual rep)
           \<and> (\<exists>deps d. te_ListDeployments env ns (rc_Selector r) = Inr deps \<and> d \<in> set deps \<and> dp_name d = name
                \<and> map_of (dp_labels d) tier_label = Some ''app''))
      \<and> (\<forall>c. Resized c \<in> set es \<longrightarrow> rc_Adapting r
           \<and> (\<exists>a deps d. c = resize_call_of (ox_print ox) (rp_At rep) a
                \<and> te_ListDeployments env (an_Namespace a) (rc_Selector r) = Inr deps \<and> d \<in> set deps
                \<and> dp_name d = an_Deployment a \<and> map_of (dp_labels d) tier_label = Some ''app''
                \<and> (\<forall>v t0. map_of (dp_annotations d) AdaptedAtLabel = Some v \<and> v \<noteq> '''' \<and> ox_parse ox v = Some t0
                     \<longrightarrow> (if rc_Cooldown r \<le> 0 then DefaultCooldown else rc_Cooldown r) \<le> time_sub (rp_At rep) t0)
                \<and> (0 < MonthlyDeltaUSD a \<longrightarrow>
                     \<not> ProjectedOver (Assess (Total (rp_Accrual rep)) (rc_Limit r) (rp_RateHourlyUSD rep + hourlyDelta a) (rp_At rep) (periodEnd (rc_Ledger r'))))))
      \<and> (\<exists>scaled resized docs. filter writes es = map Scaled scaled @ map Resized resized @ docs
           \<and> turn_documents ox (rp_At rep) (s\<lparr>sv_reconciler := r'\<rparr>) docs)"
proof -
  obtain r' outcome where rec: "Reconcile env now r = (r', outcome)" by fastforce
  have ob: "observe ox outcome (s\<lparr>sv_reconciler := r'\<rparr>) = (s', es)" using assms rec by (simp add: supervised_tick_def)
  show ?thesis
  proof (cases outcome)
    case (Inl e)
    then show ?thesis using ob rec by (simp add: observe_def)
  next
    case (Inr rep)
    note ow = observe_writes[OF ob[unfolded Inr], simplified]
    have "sv_enforce s \<and> n = 0 \<and> 0 < rc_Limit r \<and> rc_Limit r \<le> Total (rp_Accrual rep)
        \<and> (\<exists>deps d. te_ListDeployments env ns (rc_Selector r) = Inr deps \<and> d \<in> set deps \<and> dp_name d = name
             \<and> map_of (dp_labels d) tier_label = Some ''app'')" if "Scaled (ns, name, n) \<in> set es" for ns name n
      using ow(1)[OF that] Shutdown_call_listed[OF rec[unfolded Inr], of ns name n "ox_scale ox"] by auto
    moreover have "rc_Adapting r \<and> (\<exists>a. c = resize_call_of (ox_print ox) (rp_At rep) a
        \<and> a \<in> set (snd (Advise (ox_parse ox) rep (rp_At rep) r')) \<and> ad_Act (an_Advice a))" if "Resized c \<in> set es" for c
      using ow(2)[OF that] Reconcile_config[OF rec] by auto
    ultimately show ?thesis
      using resize_vetted[OF rec[unfolded Inr]] observe_filter[OF ob[unfolded Inr]] unfolding rec Inr prod.case sum.case by meson
  qed
qed

definition example_outside :: outside where
  "example_outside = \<lparr>ox_scale = (\<lambda>ns n k. None), ox_setRequests = (\<lambda>c. Inr (50, 64)), ox_save = (\<lambda>cp. None), ox_profiles = False,
     ox_budget = 0, ox_blob = (\<lambda>u. Some 0), ox_saveUsage = (\<lambda>p. None), ox_parse = (\<lambda>v. None), ox_print = (\<lambda>t. ''now'')\<rparr>"

definition example_supervisor :: supervisor where
  "example_supervisor = \<lparr>sv_reconciler = example_kernel (1 / 1000) 1, sv_enforce = True, sv_checkpointEvery = 0, sv_lastLevel = LevelOK,
     sv_lastCheckpoint = zero_time, sv_warnedProject = False\<rparr>"

theorem supervisor_writes_are_fenced_witness:
  "\<exists>rep. snd (Reconcile example_env (2 * ns_per_hour) (example_kernel (1 / 1000) 1)) = Inr rep \<and> 1 / 1000 \<le> Total (rp_Accrual rep)
     \<and> Scaled (''apps'', ''shop'', 0) \<in> set (snd (supervised_tick example_env example_outside (2 * ns_per_hour) example_supervisor))"
proof -
  obtain rep t where e: "snd (Reconcile example_env (2 * ns_per_hour) (example_kernel (1 / 1000) 1)) = Inr rep"
    "Acts (Level (rp_Assessment rep))" "report_Stoppable rep = [t]" "tg_Namespace t = ''apps''" "tg_Name t = ''shop''"
    using example_over_limit by blast
  obtain r' where r': "Reconcile example_env (2 * ns_per_hour) (example_kernel (1 / 1000) 1) = (r', Inr rep)" using e(1) by (metis prod.collapse)
  obtain s' es where tick: "supervised_tick example_env example_outside (2 * ns_per_hour) example_supervisor = (s', es)" by fastforce
  have "Scaled (''apps'', ''shop'', 0) \<in> set (sv_act example_outside rep s)" if "sv_enforce s" for s
    using that e(2-5) by (simp add: sv_act_def Shutdown_spec)
  then have "Scaled (''apps'', ''shop'', 0) \<in> set es"
    using tick r' e(2) by (auto simp: supervised_tick_def example_supervisor_def observe_def Let_def split: prod.splits)
  moreover from this have "1 / 1000 \<le> Total (rp_Accrual rep)"
    using supervisor_writes_are_fenced[OF tick] by (simp add: example_supervisor_def r') (simp add: example_kernel_def)
  ultimately show ?thesis using e(1) tick by simp
qed

end
