(* ===== verification/Names.thy ===== *)
theory Names
  imports Encoding Prelude
begin

text \<open>
  Object keys and their stored names (\<open>datasphere/internal/crypto/crypto.go\<close> and
  \<open>name.go\<close>): the rules for a logical key, the path-chained tokens a key is stored under,
  the prefix a listing asks the cloud for, and the sealed copy of the name. HKDF, HMAC and
  AES-GCM are the fields of \<open>crypto_lib\<close>; what is used of them is \<open>crypto_laws\<close>.
\<close>

section \<open>Sizes\<close>

definition KeyLen :: nat where "KeyLen = 32"
definition KeyIDLen :: nat where "KeyIDLen = 8"
definition NonceLen :: nat where "NonceLen = 12"
definition TagLen :: nat where "TagLen = 16"
definition MaxKeyBytes :: nat where "MaxKeyBytes = 1024"
definition MaxKeySegments :: nat where "MaxKeySegments = 30"
definition NamePadUnit :: nat where "NamePadUnit = 32"
definition TokenBytes :: nat where "TokenBytes = 16"

lemmas crypto_sizes = KeyLen_def KeyIDLen_def NonceLen_def TagLen_def MaxKeyBytes_def MaxKeySegments_def NamePadUnit_def TokenBytes_def

definition infoNameToken :: string where "infoNameToken = ''farcast/datasphere/v1/name-token''"
definition infoNameCryptPrefix :: string where "infoNameCryptPrefix = ''farcast/datasphere/v1/name-crypt/''"

section \<open>Errors\<close>

datatype key_fault = Key_empty | Key_not_utf8 | Key_long nat | Key_ends_in_slash | Key_segments nat | Key_empty_segment

datatype crypto_error =
    ErrIntegrity
  | ErrUnknownKey string
  | ErrTooLarge nat
  | ErrInvalidKey key_fault
  | Wrong_key_length nat
  | Random_failed
  | Sealed_name_length nat
  | Chunk_exponent nat
  | Read_failed
  | Too_many_frames

section \<open>UTF-8\<close>

text \<open>\<open>utf8.ValidString\<close>: the ranges the bytes after a leading byte must lie in.\<close>

definition utf8_lead :: "nat \<Rightarrow> (nat \<times> nat) list option" where
  "utf8_lead b =
     (if b < 128 then Some []
      else if 194 \<le> b \<and> b \<le> 223 then Some [(128, 191)]
      else if b = 224 then Some [(160, 191), (128, 191)]
      else if 225 \<le> b \<and> b \<le> 236 then Some [(128, 191), (128, 191)]
      else if b = 237 then Some [(128, 159), (128, 191)]
      else if 238 \<le> b \<and> b \<le> 239 then Some [(128, 191), (128, 191)]
      else if b = 240 then Some [(144, 191), (128, 191), (128, 191)]
      else if 241 \<le> b \<and> b \<le> 243 then Some [(128, 191), (128, 191), (128, 191)]
      else if b = 244 then Some [(128, 143), (128, 191), (128, 191)]
      else None)"

fun utf8_from :: "(nat \<times> nat) list \<Rightarrow> string \<Rightarrow> bool" where
  "utf8_from [] [] = True"
| "utf8_from (r # rs) [] = False"
| "utf8_from ((lo, hi) # rs) (c # cs) = (lo \<le> byte_val c \<and> byte_val c \<le> hi \<and> utf8_from rs cs)"
| "utf8_from [] (c # cs) = (case utf8_lead (byte_val c) of None \<Rightarrow> False | Some rs \<Rightarrow> utf8_from rs cs)"

definition utf8_valid :: "string \<Rightarrow> bool" where
  "utf8_valid s = utf8_from [] s"

lemma utf8_valid_ascii: "list_all (\<lambda>c. byte_val c < 128) s \<Longrightarrow> utf8_valid s"
  unfolding utf8_valid_def by (induction s) (simp_all add: utf8_lead_def)

section \<open>Logical keys\<close>

definition ValidateLogicalKey :: "string \<Rightarrow> key_fault option" where
  "ValidateLogicalKey key =
     (if key = '''' then Some Key_empty
      else if \<not> utf8_valid key then Some Key_not_utf8
      else if length key > MaxKeyBytes then Some (Key_long (length key))
      else if has_suffix key ''/'' then Some Key_ends_in_slash
      else
        let segments = split_on (CHR ''/'') key in
        if length segments > MaxKeySegments then Some (Key_segments (length segments))
        else if '''' \<in> set segments then Some Key_empty_segment
        else None)"

section \<open>The cryptographic library\<close>

record crypto_lib =
  cl_hkdf :: "string \<Rightarrow> string \<Rightarrow> string"
  cl_hmac :: "string \<Rightarrow> string \<Rightarrow> string"
  cl_seal :: "string \<Rightarrow> string \<Rightarrow> string \<Rightarrow> string \<Rightarrow> string"
  cl_open :: "string \<Rightarrow> string \<Rightarrow> string \<Rightarrow> string \<Rightarrow> string option"

text \<open>
  \<open>cl_seal key nonce plaintext aad\<close>. What is relied on: the sizes of the outputs, that
  opening a seal gives the plaintext back, and that what opens is the seal of what it
  opened to (AES-GCM's ciphertext and tag are functions of key, nonce, plaintext and
  additional data).
\<close>

definition crypto_laws :: "crypto_lib \<Rightarrow> bool" where
  "crypto_laws C \<longleftrightarrow>
     (\<forall>s i. length (cl_hkdf C s i) = KeyLen) \<and> (\<forall>k m. length (cl_hmac C k m) = 32)
     \<and> (\<forall>k n p a. length (cl_seal C k n p a) = length p + TagLen)
     \<and> (\<forall>k n p a. cl_open C k n (cl_seal C k n p a) a = Some p)
     \<and> (\<forall>k n c a p. cl_open C k n c a = Some p \<longrightarrow> c = cl_seal C k n p a)"

lemma crypto_lawsD:
  assumes "crypto_laws C"
  shows "length (cl_hkdf C s i) = KeyLen" "length (cl_hmac C k m) = 32" "length (cl_seal C k n p a) = length p + TagLen"
    "cl_open C k n (cl_seal C k n p a) a = Some p" "cl_open C k n c a = Some p \<Longrightarrow> c = cl_seal C k n p a"
  using assms by (auto simp: crypto_laws_def)

text \<open>\<open>newGCM\<close> refuses a key of another length; \<open>io.ReadFull\<close> takes bytes off the random source.\<close>

definition newGCM :: "string \<Rightarrow> crypto_error + string" where
  "newGCM key = (if length key \<noteq> KeyLen then Inl (Wrong_key_length (length key)) else Inr key)"

definition read_full :: "nat \<Rightarrow> string \<Rightarrow> (string \<times> string) option" where
  "read_full n rnd = (if length rnd < n then None else Some (take n rnd, drop n rnd))"

definition be16 :: "nat \<Rightarrow> string" where
  "be16 n = [byte (n div 256 mod 256), byte (n mod 256)]"

definition get16 :: "string \<Rightarrow> nat" where
  "get16 s = byte_val (s ! 0) * 256 + byte_val (s ! 1)"

section \<open>Tokens\<close>

definition NameTokenKey :: "crypto_lib \<Rightarrow> string \<Rightarrow> string" where
  "NameTokenKey C nameKey = cl_hkdf C nameKey infoNameToken"

definition token :: "crypto_lib \<Rightarrow> string \<Rightarrow> string \<Rightarrow> string" where
  "token C tokenKey path = hex_encode (take TokenBytes (cl_hmac C tokenKey path))"

text \<open>The loop over the segments, with the index \<open>end\<close> into the key.\<close>

fun token_loop :: "crypto_lib \<Rightarrow> string \<Rightarrow> string \<Rightarrow> string list \<Rightarrow> bool \<Rightarrow> nat \<Rightarrow> string list" where
  "token_loop C tokenKey key [] inner end' = []"
| "token_loop C tokenKey key (seg # segs) inner end' =
     (let e = (if inner then end' + 1 else end') + length seg
      in token C tokenKey (take e key) # token_loop C tokenKey key segs True e)"

definition TokenPath :: "crypto_lib \<Rightarrow> string \<Rightarrow> string \<Rightarrow> string" where
  "TokenPath C tokenKey key = join_with (CHR ''/'') (token_loop C tokenKey key (split_on (CHR ''/'') key) False 0)"

fun last_index :: "char \<Rightarrow> string \<Rightarrow> nat option" where
  "last_index c [] = None"
| "last_index c (d # s) = (case last_index c s of Some i \<Rightarrow> Some (i + 1) | None \<Rightarrow> if c = d then Some 0 else None)"

definition TokenPrefix :: "crypto_lib \<Rightarrow> string \<Rightarrow> string \<Rightarrow> string" where
  "TokenPrefix C tokenKey prefix =
     (case last_index (CHR ''/'') prefix of
        None \<Rightarrow> ''''
      | Some at_slash \<Rightarrow>
          let aligned = take at_slash prefix in
          if aligned = '''' then '''' else TokenPath C tokenKey aligned @ ''/'')"

section \<open>Sealed names\<close>

definition paddedLen :: "nat \<Rightarrow> nat" where
  "paddedLen n = ((n + NamePadUnit - 1) div NamePadUnit) * NamePadUnit"

definition padName :: "string \<Rightarrow> crypto_error + string" where
  "padName key =
     (if length key > MaxKeyBytes then Inl (ErrInvalidKey (Key_long (length key)))
      else Inr (be16 (length key) @ key @ replicate (paddedLen (2 + length key) - (2 + length key)) (byte 0)))"

definition unpadName :: "string \<Rightarrow> crypto_error + string" where
  "unpadName p =
     (if length p < 2 \<or> length p mod NamePadUnit \<noteq> 0 then Inl ErrIntegrity
      else
        let n = get16 p in
        if 2 + n > length p \<or> paddedLen (2 + n) \<noteq> length p then Inl ErrIntegrity
        else if list_ex (\<lambda>b. b \<noteq> byte 0) (drop (2 + n) p) then Inl ErrIntegrity
        else
          let name = take n (drop 2 p) in
          if \<not> utf8_valid name then Inl ErrIntegrity else Inr name)"

definition nameKeyFor :: "crypto_lib \<Rightarrow> string \<Rightarrow> string \<Rightarrow> string" where
  "nameKeyFor C nameKey storedPath = cl_hkdf C nameKey (infoNameCryptPrefix @ storedPath)"

definition SealName :: "crypto_lib \<Rightarrow> string \<Rightarrow> string \<Rightarrow> string \<Rightarrow> string \<Rightarrow> crypto_error + string \<times> string" where
  "SealName C nameKey storedPath key rnd =
     (case newGCM (nameKeyFor C nameKey storedPath) of
        Inl e \<Rightarrow> Inl e
      | Inr k \<Rightarrow>
          (case padName key of
             Inl e \<Rightarrow> Inl e
           | Inr plaintext \<Rightarrow>
               (case read_full NonceLen rnd of
                  None \<Rightarrow> Inl Random_failed
                | Some (nonce, rnd') \<Rightarrow> Inr (nonce @ cl_seal C k nonce plaintext storedPath, rnd'))))"

definition OpenName :: "crypto_lib \<Rightarrow> string \<Rightarrow> string \<Rightarrow> string \<Rightarrow> crypto_error + string" where
  "OpenName C nameKey storedPath sealed =
     (if length sealed < NonceLen + TagLen then Inl ErrIntegrity
      else
        case newGCM (nameKeyFor C nameKey storedPath) of
          Inl e \<Rightarrow> Inl e
        | Inr k \<Rightarrow>
            (case cl_open C k (take NonceLen sealed) (drop NonceLen sealed) storedPath of
               None \<Rightarrow> Inl ErrIntegrity
             | Some plaintext \<Rightarrow> unpadName plaintext))"

section \<open>A listing asks for enough\<close>

text \<open>The tokens of a key, one per path prefix.\<close>

definition tokens_of :: "crypto_lib \<Rightarrow> string \<Rightarrow> string list \<Rightarrow> string list" where
  "tokens_of C k ws = map (\<lambda>i. token C k (join_with (CHR ''/'') (take (Suc i) ws))) [0..<length ws]"

lemma join_with_append: "xs \<noteq> [] \<Longrightarrow> ys \<noteq> [] \<Longrightarrow> join_with c (xs @ ys) = join_with c xs @ c # join_with c ys"
  by (induction c xs rule: join_with.induct) (auto, cases ys, auto)

lemma take_join: "Suc i \<le> length ws \<Longrightarrow> take (length (join_with c (take (Suc i) ws))) (join_with c ws) = join_with c (take (Suc i) ws)"
proof (cases "drop (Suc i) ws = []")
  case True
  then show ?thesis by simp
next
  case False
  assume "Suc i \<le> length ws"
  then have "take (Suc i) ws \<noteq> []" by auto
  from join_with_append[OF this False, of c] show ?thesis by simp
qed

lemma token_loop_tokens:
  assumes "ws = xs @ segs" "inner \<longleftrightarrow> xs \<noteq> []" "end' = length (join_with (CHR ''/'') xs)"
  shows "token_loop C k (join_with (CHR ''/'') ws) segs inner end'
    = map (\<lambda>i. token C k (join_with (CHR ''/'') (take (Suc i) ws))) [length xs..<length ws]"
  using assms
proof (induction segs arbitrary: xs inner end')
  case (Cons seg segs)
  define e where "e = (if inner then end' + 1 else end') + length seg"
  have e: "e = length (join_with (CHR ''/'') (xs @ [seg]))"
    using Cons.prems(2,3) by (cases "xs = []") (simp_all add: e_def join_with_append)
  have "take (Suc (length xs)) ws = xs @ [seg]" using Cons.prems(1) by simp
  then have "take e (join_with (CHR ''/'') ws) = join_with (CHR ''/'') (take (Suc (length xs)) ws)"
    using take_join[of "length xs" ws "CHR ''/''"] Cons.prems(1) e by simp
  moreover have "token_loop C k (join_with (CHR ''/'') ws) segs True e
      = map (\<lambda>i. token C k (join_with (CHR ''/'') (take (Suc i) ws))) [Suc (length xs)..<length ws]"
    using Cons.prems(1) e Cons.IH[of "xs @ [seg]" True e] by simp
  moreover have "[length xs..<length ws] = length xs # [Suc (length xs)..<length ws]"
    using Cons.prems(1) by (intro upt_conv_Cons) simp
  ultimately show ?case by (simp add: e_def[symmetric] Let_def)
qed simp

lemma TokenPath_tokens: "TokenPath C k key = join_with (CHR ''/'') (tokens_of C k (split_on (CHR ''/'') key))"
  using token_loop_tokens[of "split_on (CHR ''/'') key" "[]" "split_on (CHR ''/'') key" False 0 C k]
  by (simp add: TokenPath_def tokens_of_def join_split)

lemma tokens_of_append: "tokens_of C k (xs @ ys) = tokens_of C k xs @ map (\<lambda>i. token C k (join_with (CHR ''/'') (take (Suc i) (xs @ ys)))) [length xs..<length xs + length ys]"
proof -
  have u: "map f [0..<length (xs @ ys)] = map f [0..<length xs] @ map f [length xs..<length xs + length ys]" for f :: "nat \<Rightarrow> string"
    using upt_add_eq_append[of 0 "length xs" "length ys"] by simp
  have "map (\<lambda>i. token C k (join_with (CHR ''/'') (take (Suc i) (xs @ ys)))) [0..<length xs] = tokens_of C k xs"
    by (simp add: tokens_of_def)
  then show ?thesis unfolding tokens_of_def[of C k "xs @ ys"] u by simp
qed

lemma last_index_Some: "last_index c s = Some i \<Longrightarrow> i < length s \<and> s ! i = c \<and> c \<notin> set (drop (Suc i) s)"
proof (induction s arbitrary: i)
  case (Cons d s)
  show ?case
  proof (cases "last_index c s")
    case None
    have "c \<notin> set s" using None by (induction s) (auto split: option.splits if_splits)
    then show ?thesis using Cons.prems None by (auto split: if_splits)
  next
    case (Some j)
    then show ?thesis using Cons.prems Cons.IH[OF Some] by auto
  qed
qed simp

lemma split_on_prefix:
  assumes "a \<noteq> ''''" "r \<noteq> ''''"
  shows "split_on c (a @ c # r) = split_on c a @ split_on c r"
proof -
  have "split_on c (a @ c # r) = split_on c a @ split_on c r" for a
    by (induction a) (auto split: list.splits)
  then show ?thesis .
qed

lemma TokenPrefix_narrows:
  assumes "ValidateLogicalKey key = None" and "has_prefix key prefix"
  shows "has_prefix (TokenPath C k key) (TokenPrefix C k prefix)
    \<and> (TokenPrefix C k prefix = '''' \<or> last (TokenPrefix C k prefix) = CHR ''/'')"
proof (cases "TokenPrefix C k prefix = ''''")
  case True
  then show ?thesis by (simp add: has_prefix_def)
next
  case False
  then obtain at_slash where at_slash: "last_index (CHR ''/'') prefix = Some at_slash" "take at_slash prefix \<noteq> ''''"
      "TokenPrefix C k prefix = TokenPath C k (take at_slash prefix) @ ''/''"
    by (auto simp: TokenPrefix_def Let_def split: option.splits if_splits)
  obtain rest where key: "key = prefix @ rest" using assms(2) by (auto simp: has_prefix_iff)
  have "prefix = take at_slash prefix @ CHR ''/'' # drop (Suc at_slash) prefix"
    using last_index_Some[OF at_slash(1)] by (metis id_take_nth_drop)
  then obtain r where r: "key = take at_slash prefix @ CHR ''/'' # r" using key by (metis append_Cons append_assoc)
  have "r \<noteq> ''''" using assms(1) r by (auto simp: ValidateLogicalKey_def has_suffix_def split: if_splits)
  then have s: "split_on (CHR ''/'') key = split_on (CHR ''/'') (take at_slash prefix) @ split_on (CHR ''/'') r"
    unfolding r by (intro split_on_prefix) (use at_slash(2) in simp_all)
  define ts where "ts = map (\<lambda>i. token C k (join_with (CHR ''/'') (take (Suc i) (split_on (CHR ''/'') key))))
    [length (split_on (CHR ''/'') (take at_slash prefix))..<length (split_on (CHR ''/'') key)]"
  have "ts \<noteq> []" by (simp add: ts_def s)
  moreover have "tokens_of C k (split_on (CHR ''/'') key) = tokens_of C k (split_on (CHR ''/'') (take at_slash prefix)) @ ts"
    unfolding ts_def s tokens_of_append by simp
  moreover have "tokens_of C k (split_on (CHR ''/'') (take at_slash prefix)) \<noteq> []" by (simp add: tokens_of_def)
  ultimately have "TokenPath C k key = TokenPath C k (take at_slash prefix) @ CHR ''/'' # join_with (CHR ''/'') ts"
    by (simp add: TokenPath_tokens join_with_append)
  then show ?thesis using at_slash(3) by (simp add: has_prefix_iff)
qed

text \<open>
  A listing narrows without losing. For every logical key that starts with the
  prefix a caller asked for, as bytes and not only on a segment boundary, the path the key
  is stored under starts with the stored prefix the listing is made with, so the cloud's
  answer contains it; and that stored prefix is made of whole tokens, or is empty.
\<close>

theorem listing_narrows_without_losing:
  assumes "ValidateLogicalKey key = None" and "has_prefix key prefix"
  shows "has_prefix (TokenPath C k key) (TokenPrefix C k prefix)
    \<and> (TokenPrefix C k prefix = '''' \<or> last (TokenPrefix C k prefix) = CHR ''/'')"
  using assms by (rule TokenPrefix_narrows)

text \<open>A library that satisfies the laws: tags are sixteen zero bytes checked for equality, keys are ignored.\<close>

definition plain_lib :: crypto_lib where
  "plain_lib = \<lparr>cl_hkdf = (\<lambda>s i. replicate 32 (byte 0)), cl_hmac = (\<lambda>k m. take 32 (m @ replicate 32 (byte 0))),
     cl_seal = (\<lambda>k n p a. p @ replicate 16 (byte 7)),
     cl_open = (\<lambda>k n c a. if has_suffix c (replicate 16 (byte 7)) then Some (take (length c - 16) c) else None)\<rparr>"

lemma plain_lib_laws: "crypto_laws plain_lib"
  by (auto simp: crypto_laws_def plain_lib_def crypto_sizes has_suffix_iff)

theorem listing_narrows_without_losing_witness:
  "has_prefix (TokenPath plain_lib ''k'' ''users/alice/x'') (TokenPrefix plain_lib ''k'' ''users/al'')"
proof -
  have "ValidateLogicalKey ''users/alice/x'' = None" by code_simp
  then show ?thesis using listing_narrows_without_losing[of "''users/alice/x''" "''users/al''" plain_lib "''k''"] by (simp add: has_prefix_def)
qed

section \<open>One sealed form per name\<close>

lemma paddedLen_bounds: "n \<le> paddedLen n" "paddedLen n mod 32 = 0" "paddedLen (2 + n) \<noteq> 0"
proof -
  show le: "n \<le> paddedLen n" for n using div_mult_mod_eq[of "n + 31" 32] mod_less_divisor[of 32 "n + 31"]
    by (simp add: paddedLen_def NamePadUnit_def)
  show "paddedLen n mod 32 = 0" by (simp add: paddedLen_def NamePadUnit_def)
  show "paddedLen (2 + n) \<noteq> 0" using le[of "2 + n"] by linarith
qed

lemma get16_be16: "n < 65536 \<Longrightarrow> get16 (be16 n @ s) = n"
proof -
  assume "n < 65536"
  then have "n div 256 < 256" by (simp add: less_mult_imp_div_less)
  then show ?thesis by (simp add: get16_def be16_def mult.commute)
qed

lemma be16_get16: "2 \<le> length s \<Longrightarrow> be16 (get16 s) = take 2 s"
proof -
  assume "2 \<le> length s"
  then obtain a b t where s: "s = a # b # t" by (cases s; cases "tl s") auto
  have "get16 s div 256 mod 256 = byte_val a" "get16 s mod 256 = byte_val b"
    using byte_val_less[of a] byte_val_less[of b] by (simp_all add: get16_def s)
  then show ?thesis by (simp add: be16_def s)
qed

text \<open>Unpadding accepts exactly the padding of a name.\<close>

lemma unpad_pad:
  assumes "length name \<le> MaxKeyBytes"
  shows "unpadName p = Inr name \<longleftrightarrow> padName name = Inr p \<and> utf8_valid name"
proof
  assume "padName name = Inr p \<and> utf8_valid name"
  then have u: "utf8_valid name" and p: "p = be16 (length name) @ name @ replicate (paddedLen (2 + length name) - (2 + length name)) (byte 0)"
    using assms by (auto simp: padName_def)
  have l: "length p = paddedLen (2 + length name)" using paddedLen_bounds(1)[of "2 + length name"] by (simp add: p be16_def)
  have g: "get16 p = length name" unfolding p using assms by (intro get16_be16) (simp add: MaxKeyBytes_def)
  have "2 + length name \<le> length p" "\<not> length p < 2" using l paddedLen_bounds(1)[of "2 + length name"] by linarith+
  moreover have "drop (2 + length name) p = replicate (paddedLen (2 + length name) - (2 + length name)) (byte 0)" "take (length name) (drop 2 p) = name"
    by (simp_all add: p be16_def)
  ultimately show "unpadName p = Inr name"
    using u g l paddedLen_bounds(2)[of "2 + length name"] by (simp add: unpadName_def Let_def NamePadUnit_def list_ex_iff)
next
  assume a: "unpadName p = Inr name"
  define n where "n = get16 p"
  have l: "2 \<le> length p" "2 + n \<le> length p" "paddedLen (2 + n) = length p" and z: "\<forall>b\<in>set (drop (2 + n) p). b = byte 0"
    and name: "name = take n (drop 2 p)" and u: "utf8_valid name"
    using a by (auto simp: unpadName_def Let_def n_def[symmetric] list_ex_iff split: if_splits)
  have ln: "length name = n" using l(2) by (simp add: name)
  have "p = take 2 p @ name @ drop (2 + n) p" by (metis name append_take_drop_id drop_drop add.commute)
  moreover have "drop (2 + n) p = replicate (length p - (2 + n)) (byte 0)" using z by (intro replicate_eqI) auto
  moreover have "take 2 p = be16 n" using be16_get16[OF l(1)] by (simp add: n_def)
  ultimately show "padName name = Inr p \<and> utf8_valid name" using u assms ln l(3) by (simp add: padName_def)
qed

lemma SealName_Inr:
  assumes "crypto_laws C" "length key \<le> MaxKeyBytes" "NonceLen \<le> length rnd"
  shows "\<exists>p. padName key = Inr p \<and> SealName C nk path key rnd
    = Inr (take NonceLen rnd @ cl_seal C (nameKeyFor C nk path) (take NonceLen rnd) p path, drop NonceLen rnd)"
  using assms crypto_lawsD(1)[OF assms(1)] by (simp add: SealName_def newGCM_def nameKeyFor_def padName_def read_full_def)

lemma nameKeyFor_ok: "crypto_laws C \<Longrightarrow> newGCM (nameKeyFor C nk path) = Inr (nameKeyFor C nk path)"
  by (simp add: newGCM_def nameKeyFor_def crypto_lawsD(1))

lemma OpenName_SealName:
  assumes "crypto_laws C" "ValidateLogicalKey key = None" "NonceLen \<le> length rnd"
  shows "\<exists>sealed. SealName C nk path key rnd = Inr (sealed, drop NonceLen rnd) \<and> OpenName C nk path sealed = Inr key
    \<and> length sealed = NonceLen + paddedLen (2 + length key) + TagLen"
proof -
  have v: "utf8_valid key" "length key \<le> MaxKeyBytes" using assms(2) by (auto simp: ValidateLogicalKey_def split: if_splits)
  obtain p where p: "padName key = Inr p" "SealName C nk path key rnd
      = Inr (take NonceLen rnd @ cl_seal C (nameKeyFor C nk path) (take NonceLen rnd) p path, drop NonceLen rnd)"
    using SealName_Inr[OF assms(1) v(2) assms(3)] by blast
  have "unpadName p = Inr key" using unpad_pad[OF v(2)] p(1) v(1) by simp
  moreover have "length p = paddedLen (2 + length key)"
    using p(1) v(2) paddedLen_bounds(1)[of "2 + length key"] by (auto simp: padName_def be16_def)
  ultimately show ?thesis using p(2) assms nameKeyFor_ok[OF assms(1)] by (simp add: OpenName_def crypto_lawsD(3,4)[OF assms(1)])
qed

lemma OpenName_canonical:
  assumes "crypto_laws C" "OpenName C nk path sealed = Inr name" "length name \<le> MaxKeyBytes"
  shows "SealName C nk path name (take NonceLen sealed) = Inr (sealed, [])"
proof -
  obtain p where p: "cl_open C (nameKeyFor C nk path) (take NonceLen sealed) (drop NonceLen sealed) path = Some p" "unpadName p = Inr name"
      "NonceLen + TagLen \<le> length sealed"
    using assms(2) nameKeyFor_ok[OF assms(1)] by (auto simp: OpenName_def split: if_splits option.splits)
  have "padName name = Inr p" using unpad_pad[of name p] assms(3) p(2) by simp
  moreover have "drop NonceLen sealed = cl_seal C (nameKeyFor C nk path) (take NonceLen sealed) p path" using crypto_lawsD(5)[OF assms(1) p(1)] .
  ultimately show ?thesis
    using SealName_Inr[OF assms(1,3), of "take NonceLen sealed" nk path] p(3) by (auto simp: min_def) (metis append_take_drop_id)
qed

text \<open>
  A stored name is recoverable and has one form. Sealing a valid key for its stored
  path and opening the block again under the same path gives the key back; and a block
  that opens to a name is, byte for byte, what sealing that name for that path writes under
  the block's own nonce, so no writer can carry other bytes inside it.
\<close>

theorem sealed_names_are_canonical:
  assumes "crypto_laws C"
  shows "(ValidateLogicalKey key = None \<and> NonceLen \<le> length rnd \<longrightarrow>
      (\<exists>sealed. SealName C nk path key rnd = Inr (sealed, drop NonceLen rnd) \<and> OpenName C nk path sealed = Inr key))
    \<and> (OpenName C nk path sealed = Inr name \<and> length name \<le> MaxKeyBytes \<longrightarrow>
      SealName C nk path name (take NonceLen sealed) = Inr (sealed, []))"
  using OpenName_SealName[OF assms, of key rnd nk path] OpenName_canonical[OF assms, of nk path sealed name] by blast

theorem sealed_names_are_canonical_witness:
  "\<exists>sealed. SealName plain_lib ''n'' ''path'' ''users/alice'' (replicate 12 (byte 1)) = Inr (sealed, '''')
     \<and> OpenName plain_lib ''n'' ''path'' sealed = Inr ''users/alice''"
proof -
  have "ValidateLogicalKey ''users/alice'' = None" by code_simp
  then show ?thesis
    using sealed_names_are_canonical[OF plain_lib_laws, of "''users/alice''" "replicate 12 (byte 1)" "''n''" "''path''"]
    by (simp add: NonceLen_def)
qed

end
