(* ===== verification/Blob.thy ===== *)
theory Blob
  imports Names "HOL-Library.Word"
begin

text \<open>
  The two blob formats (\<open>datasphere/internal/crypto/blob.go\<close> and \<open>blob2.go\<close>): the bytes a
  cloud holds. A reader yields its bytes and then ends or fails; a writer may fail once it
  would grow past a limit, with an error of its own, as \<open>cappedBuffer\<close> does. The frame index is a 32-bit word. Random bytes come
  off the front of a source, in the order the code draws them.
\<close>

unbundle bit_operations_syntax

section \<open>Layout\<close>

definition Magic :: string where "Magic = ''FCDS''"
definition Version1 :: char where "Version1 = byte 1"
definition Version2 :: char where "Version2 = byte 2"
definition WrappedDEKLen :: nat where "WrappedDEKLen = KeyLen + TagLen"
definition SaltLen :: nat where "SaltLen = 8"
definition MinChunkExp :: nat where "MinChunkExp = 16"
definition MaxChunkExp :: nat where "MaxChunkExp = 26"
definition MaxPlaintext :: nat where "MaxPlaintext = 67108864"

definition offVersion :: nat where "offVersion = 4"
definition offKeyID :: nat where "offKeyID = 5"
definition offWrapNonce :: nat where "offWrapNonce = offKeyID + KeyIDLen"
definition offWrappedDEK :: nat where "offWrappedDEK = offWrapNonce + NonceLen"
definition offNameLen :: nat where "offNameLen = offWrappedDEK + WrappedDEKLen"
definition HeaderLen :: nat where "HeaderLen = offNameLen + 2"

lemmas layout_defs = Magic_def Version1_def Version2_def WrappedDEKLen_def SaltLen_def offVersion_def offKeyID_def
  offWrapNonce_def offWrappedDEK_def offNameLen_def HeaderLen_def crypto_sizes

record blob_key =
  bk_ID :: string
  bk_Material :: string

type_synonym key_lookup = "string \<Rightarrow> string option"

record header =
  hd_Version :: char
  hd_KeyID :: string
  hd_WrapNonce :: string
  hd_WrappedDEK :: string
  hd_SealedName :: string
  hd_Body :: string
  hd_BodyOffset :: nat

definition slice :: "nat \<Rightarrow> nat \<Rightarrow> string \<Rightarrow> string" where
  "slice off n b = take n (drop off b)"

definition dataAAD :: "string \<Rightarrow> string" where
  "dataAAD key = Magic @ [Version1] @ key"

definition wrapAAD :: "char \<Rightarrow> string \<Rightarrow> string" where
  "wrapAAD version id' = Magic @ [version] @ id'"

definition be32 :: "32 word \<Rightarrow> string" where
  "be32 w = map (\<lambda>s. byte (unat (drop_bit s w AND 0xFF))) [24, 16, 8, 0]"

definition frameAAD :: "nat \<Rightarrow> 32 word \<Rightarrow> bool \<Rightarrow> string \<Rightarrow> string" where
  "frameAAD ce index final key = Magic @ [Version2, byte ce] @ be32 index @ [byte (if final then 1 else 0)] @ key"

definition known_version :: "string \<Rightarrow> bool" where
  "known_version b \<longleftrightarrow> take 4 b = Magic \<and> (b ! offVersion = Version1 \<or> b ! offVersion = Version2)"

definition ParseHeader :: "string \<Rightarrow> crypto_error + header" where
  "ParseHeader b =
     (if length b < HeaderLen then Inl ErrIntegrity
      else if \<not> known_version b then Inl ErrIntegrity
      else
        let nameLen = get16 (drop offNameLen b); bodyOffset = HeaderLen + nameLen in
        if nameLen < NonceLen + TagLen \<or> length b < bodyOffset then Inl ErrIntegrity
        else if b ! offVersion = Version1 \<and> length b - bodyOffset < NonceLen + TagLen then Inl ErrIntegrity
        else Inr \<lparr>hd_Version = b ! offVersion, hd_KeyID = slice offKeyID KeyIDLen b, hd_WrapNonce = slice offWrapNonce NonceLen b,
               hd_WrappedDEK = slice offWrappedDEK WrappedDEKLen b, hd_SealedName = slice HeaderLen nameLen b,
               hd_Body = drop bodyOffset b, hd_BodyOffset = bodyOffset\<rparr>)"

definition header_unwrap :: "crypto_lib \<Rightarrow> key_lookup \<Rightarrow> char \<Rightarrow> string \<Rightarrow> string \<Rightarrow> string \<Rightarrow> crypto_error + string" where
  "header_unwrap C lookup version id' wrapNonce wrappedDEK =
     (case lookup id' of
        None \<Rightarrow> Inl (ErrUnknownKey id')
      | Some material \<Rightarrow>
          (case newGCM material of
             Inl e \<Rightarrow> Inl e
           | Inr k \<Rightarrow>
               (case cl_open C k wrapNonce wrappedDEK (wrapAAD version id') of
                  None \<Rightarrow> Inl ErrIntegrity
                | Some dek \<Rightarrow> Inr dek)))"

section \<open>The buffered format\<close>

definition blob_prefix :: "char \<Rightarrow> string \<Rightarrow> string \<Rightarrow> string \<Rightarrow> nat \<Rightarrow> string" where
  "blob_prefix version id' wrapNonce wrapped nameLen = Magic @ [version] @ id' @ wrapNonce @ wrapped @ be16 nameLen"

definition Seal :: "crypto_lib \<Rightarrow> blob_key \<Rightarrow> string \<Rightarrow> string \<Rightarrow> string \<Rightarrow> string \<Rightarrow> string \<Rightarrow> crypto_error + string \<times> string" where
  "Seal C kek nameKey storedPath key plaintext rnd =
     (case ValidateLogicalKey key of
        Some f \<Rightarrow> Inl (ErrInvalidKey f)
      | None \<Rightarrow>
        if length plaintext > MaxPlaintext then Inl (ErrTooLarge (length plaintext))
        else case newGCM (bk_Material kek) of
        Inl e \<Rightarrow> Inl e
      | Inr kk \<Rightarrow>
        (case read_full KeyLen rnd of None \<Rightarrow> Inl Random_failed | Some (dek, rnd) \<Rightarrow>
        (case read_full NonceLen rnd of None \<Rightarrow> Inl Random_failed | Some (wrapNonce, rnd) \<Rightarrow>
        (case SealName C nameKey storedPath key rnd of
           Inl e \<Rightarrow> Inl e
         | Inr (sealedName, rnd) \<Rightarrow>
           if length sealedName > 65535 then Inl (Sealed_name_length (length sealedName))
           else case read_full NonceLen rnd of None \<Rightarrow> Inl Random_failed | Some (dataNonce, rnd) \<Rightarrow>
           (case newGCM dek of
              Inl e \<Rightarrow> Inl e
            | Inr dk \<Rightarrow>
                Inr (blob_prefix Version1 (bk_ID kek) wrapNonce (cl_seal C kk wrapNonce dek (wrapAAD Version1 (bk_ID kek))) (length sealedName)
                     @ sealedName @ dataNonce @ cl_seal C dk dataNonce plaintext (dataAAD key), sealedName))))))"

text \<open>The buffered branch of \<open>Open\<close>.\<close>

definition open_buffered :: "crypto_lib \<Rightarrow> key_lookup \<Rightarrow> string \<Rightarrow> header \<Rightarrow> crypto_error + string" where
  "open_buffered C lookup key h =
     (case header_unwrap C lookup (hd_Version h) (hd_KeyID h) (hd_WrapNonce h) (hd_WrappedDEK h) of
        Inl e \<Rightarrow> Inl e
      | Inr dek \<Rightarrow>
          (case newGCM dek of
             Inl e \<Rightarrow> Inl e
           | Inr dk \<Rightarrow>
               (case cl_open C dk (take NonceLen (hd_Body h)) (drop NonceLen (hd_Body h)) (dataAAD key) of
                  None \<Rightarrow> Inl ErrIntegrity
                | Some plaintext \<Rightarrow> Inr plaintext)))"

definition HeaderName :: "crypto_lib \<Rightarrow> string \<Rightarrow> string \<Rightarrow> string \<Rightarrow> crypto_error + string" where
  "HeaderName C nameKey storedPath b =
     (case ParseHeader b of Inl e \<Rightarrow> Inl e | Inr h \<Rightarrow> OpenName C nameKey storedPath (hd_SealedName h))"

section \<open>Readers and writers\<close>

record reader =
  rd_data :: string
  rd_fails :: bool

datatype read_status = Read_full | Read_eof | Read_error

definition ReadFull :: "nat \<Rightarrow> reader \<Rightarrow> string \<times> reader \<times> read_status" where
  "ReadFull n r =
     (if n \<le> length (rd_data r) then (take n (rd_data r), r\<lparr>rd_data := drop n (rd_data r)\<rparr>, Read_full)
      else (rd_data r, r\<lparr>rd_data := ''''\<rparr>, if rd_fails r then Read_error else Read_eof))"

lemma ReadFull_shorter: "(b, r', st) = ReadFull n r \<Longrightarrow> st \<noteq> Read_error \<Longrightarrow> st \<noteq> Read_eof \<Longrightarrow> 0 < n \<Longrightarrow> length (rd_data r') < length (rd_data r)"
proof -
  assume a: "(b, r', st) = ReadFull n r" "st \<noteq> Read_error" "st \<noteq> Read_eof" "0 < n"
  then have "n \<le> length (rd_data r)" "rd_data r' = drop n (rd_data r)" by (auto simp: ReadFull_def split: if_splits)
  then show ?thesis using a(4) diff_less[of n "length (rd_data r)"] by simp
qed

record writer =
  wr_buf :: string
  wr_limit :: "(nat \<times> crypto_error) option"

definition write_to :: "string \<Rightarrow> writer \<Rightarrow> crypto_error + writer" where
  "write_to p w =
     (case wr_limit w of
        Some (l, e) \<Rightarrow> if length (wr_buf w) + length p > l then Inl e else Inr (w\<lparr>wr_buf := wr_buf w @ p\<rparr>)
      | None \<Rightarrow> Inr (w\<lparr>wr_buf := wr_buf w @ p\<rparr>))"

section \<open>The chunked format\<close>

function seal_frames ::
  "crypto_lib \<Rightarrow> string \<Rightarrow> string \<Rightarrow> nat \<Rightarrow> string \<Rightarrow> 32 word \<Rightarrow> reader \<Rightarrow> writer \<Rightarrow> writer \<times> crypto_error option"
where
  "seal_frames C dk salt ce key index r w =
     (case ReadFull (2 ^ ce) r of (plaintext, r', st) \<Rightarrow>
        if st = Read_error then (w, Some Read_failed)
        else
          let final = (st = Read_eof); frame = cl_seal C dk (salt @ be32 index) plaintext (frameAAD ce index final key) in
          case write_to frame w of
            Inl e \<Rightarrow> (w, Some e)
          | Inr w' \<Rightarrow>
              if final then (w', None)
              else if index = - 1 then (w', Some Too_many_frames)
              else seal_frames C dk salt ce key (index + 1) r' w')"
  by pat_completeness auto

termination seal_frames
  by (relation "measure (\<lambda>(_, _, _, _, _, _, r, _). length (rd_data r))") (auto intro: ReadFull_shorter)

declare seal_frames.simps [simp del]

definition SealStream ::
  "crypto_lib \<Rightarrow> blob_key \<Rightarrow> string \<Rightarrow> string \<Rightarrow> nat \<Rightarrow> reader \<Rightarrow> writer \<Rightarrow> string \<Rightarrow> writer \<times> crypto_error option"
where
  "SealStream C kek key sealedName ce r w rnd =
     (case ValidateLogicalKey key of
        Some f \<Rightarrow> (w, Some (ErrInvalidKey f))
      | None \<Rightarrow>
        if ce < MinChunkExp \<or> MaxChunkExp < ce then (w, Some (Chunk_exponent ce))
        else case newGCM (bk_Material kek) of
        Inl e \<Rightarrow> (w, Some e)
      | Inr kk \<Rightarrow>
        if length sealedName < NonceLen + TagLen \<or> length sealedName > 65535 then (w, Some (Sealed_name_length (length sealedName)))
        else case read_full KeyLen rnd of None \<Rightarrow> (w, Some Random_failed) | Some (dek, rnd) \<Rightarrow>
        (case read_full NonceLen rnd of None \<Rightarrow> (w, Some Random_failed) | Some (wrapNonce, rnd) \<Rightarrow>
        (case read_full SaltLen rnd of None \<Rightarrow> (w, Some Random_failed) | Some (salt, rnd) \<Rightarrow>
        (case write_to (blob_prefix Version2 (bk_ID kek) wrapNonce (cl_seal C kk wrapNonce dek (wrapAAD Version2 (bk_ID kek))) (length sealedName)
                 @ sealedName @ salt @ [byte ce]) w of
           Inl e \<Rightarrow> (w, Some e)
         | Inr w' \<Rightarrow>
             (case newGCM dek of
                Inl e \<Rightarrow> (w', Some e)
              | Inr dk \<Rightarrow> seal_frames C dk salt ce key 0 r w')))))"

function open_frames ::
  "crypto_lib \<Rightarrow> string \<Rightarrow> string \<Rightarrow> nat \<Rightarrow> string \<Rightarrow> 32 word \<Rightarrow> reader \<Rightarrow> writer \<Rightarrow> writer \<times> crypto_error option"
where
  "open_frames C dk salt ce key index r w =
     (case ReadFull (2 ^ ce + TagLen) r of (frame, r', st) \<Rightarrow>
        if st = Read_error then (w, Some Read_failed)
        else
          let final = (st = Read_eof) in
          if final \<and> length frame < TagLen then (w, Some ErrIntegrity)
          else case cl_open C dk (salt @ be32 index) frame (frameAAD ce index final key) of
            None \<Rightarrow> (w, Some ErrIntegrity)
          | Some plaintext \<Rightarrow>
              (case write_to plaintext w of
                 Inl e \<Rightarrow> (w, Some e)
               | Inr w' \<Rightarrow>
                   if \<not> final then open_frames C dk salt ce key (index + 1) r' w'
                   else if rd_data r' \<noteq> '''' then (w', Some ErrIntegrity)
                   else (w', None)))"
  by pat_completeness auto

termination open_frames
  by (relation "measure (\<lambda>(_, _, _, _, _, _, r, _). length (rd_data r))") (auto intro: ReadFull_shorter)

declare open_frames.simps [simp del]

text \<open>\<open>readAtMost\<close>: everything left, refused rather than cut when it is over the limit.\<close>

definition readAtMost :: "nat \<Rightarrow> reader \<Rightarrow> crypto_error + string" where
  "readAtMost lmt r =
     (if length (rd_data r) > lmt then Inl (ErrTooLarge lmt)
      else if rd_fails r then Inl Read_failed else Inr (rd_data r))"

definition OpenStream :: "crypto_lib \<Rightarrow> key_lookup \<Rightarrow> string \<Rightarrow> reader \<Rightarrow> writer \<Rightarrow> writer \<times> crypto_error option" where
  "OpenStream C lookup key r w =
     (case ReadFull HeaderLen r of (prefix, r, st) \<Rightarrow>
        if st \<noteq> Read_full then (w, Some ErrIntegrity)
        else
          let nameLen = get16 (drop offNameLen prefix) in
          if nameLen < NonceLen + TagLen then (w, Some ErrIntegrity)
          else case ReadFull nameLen r of (rest, r, st) \<Rightarrow>
          if st \<noteq> Read_full then (w, Some ErrIntegrity)
          else if prefix ! offVersion = Version1 then
            (case readAtMost (MaxPlaintext + NonceLen + TagLen + 1) r of
               Inl e \<Rightarrow> (w, Some e)
             | Inr body \<Rightarrow>
                 (case ParseHeader (prefix @ rest @ body) of
                    Inl e \<Rightarrow> (w, Some e)
                  | Inr h \<Rightarrow>
                      (case open_buffered C lookup key h of
                         Inl e \<Rightarrow> (w, Some e)
                       | Inr plaintext \<Rightarrow> (case write_to plaintext w of Inl e \<Rightarrow> (w, Some e) | Inr w' \<Rightarrow> (w', None)))))
          else
            case ParseHeader (prefix @ rest) of
              Inl e \<Rightarrow> (w, Some e)
            | Inr h \<Rightarrow>
                (case ReadFull (SaltLen + 1) r of (tail, r, st) \<Rightarrow>
                   if st \<noteq> Read_full then (w, Some ErrIntegrity)
                   else
                     let ce = byte_val (tail ! SaltLen) in
                     if ce < MinChunkExp \<or> MaxChunkExp < ce then (w, Some ErrIntegrity)
                     else case header_unwrap C lookup (hd_Version h) (hd_KeyID h) (hd_WrapNonce h) (hd_WrappedDEK h) of
                       Inl e \<Rightarrow> (w, Some e)
                     | Inr dek \<Rightarrow>
                         (case newGCM dek of
                            Inl e \<Rightarrow> (w, Some e)
                          | Inr dk \<Rightarrow> open_frames C dk (take SaltLen tail) ce key 0 r w)))"

definition Open :: "crypto_lib \<Rightarrow> key_lookup \<Rightarrow> string \<Rightarrow> string \<Rightarrow> crypto_error + string" where
  "Open C lookup key b =
     (case ParseHeader b of
        Inl e \<Rightarrow> Inl e
      | Inr h \<Rightarrow>
          if hd_Version h = Version2 then
            (case OpenStream C lookup key \<lparr>rd_data = b, rd_fails = False\<rparr> \<lparr>wr_buf = '''', wr_limit = Some (MaxPlaintext, ErrTooLarge MaxPlaintext)\<rparr> of
               (w, Some e) \<Rightarrow> Inl e
             | (w, None) \<Rightarrow> Inr (wr_buf w))
          else open_buffered C lookup key h)"

section \<open>Rewrapping\<close>

definition RekeyPrefix :: "crypto_lib \<Rightarrow> key_lookup \<Rightarrow> blob_key \<Rightarrow> string \<Rightarrow> string \<Rightarrow> crypto_error + string" where
  "RekeyPrefix C lookup newKEK prefix rnd =
     (if length prefix < HeaderLen then Inl ErrIntegrity
      else if \<not> known_version prefix then Inl ErrIntegrity
      else case newGCM (bk_Material newKEK) of
        Inl e \<Rightarrow> Inl e
      | Inr nk \<Rightarrow>
          (case header_unwrap C lookup (prefix ! offVersion) (slice offKeyID KeyIDLen prefix)
                  (slice offWrapNonce NonceLen prefix) (slice offWrappedDEK WrappedDEKLen prefix) of
             Inl e \<Rightarrow> Inl e
           | Inr dek \<Rightarrow>
               (case read_full NonceLen rnd of
                  None \<Rightarrow> Inl Random_failed
                | Some (nonce, rnd) \<Rightarrow>
                    Inr (take offKeyID prefix @ bk_ID newKEK @ nonce
                         @ cl_seal C nk nonce dek (wrapAAD (prefix ! offVersion) (bk_ID newKEK))
                         @ slice offNameLen 2 prefix))))"

definition Rekey :: "crypto_lib \<Rightarrow> key_lookup \<Rightarrow> blob_key \<Rightarrow> string \<Rightarrow> string \<Rightarrow> crypto_error + string" where
  "Rekey C lookup newKEK b rnd =
     (case ParseHeader b of
        Inl e \<Rightarrow> Inl e
      | Inr _ \<Rightarrow>
          (case RekeyPrefix C lookup newKEK (take HeaderLen b) rnd of
             Inl e \<Rightarrow> Inl e
           | Inr prefix \<Rightarrow> Inr (prefix @ drop HeaderLen b)))"

section \<open>Reading back what was laid out\<close>

lemma blob_prefix_fields:
  fixes v rest
  assumes "length id' = KeyIDLen" "length wn = NonceLen" "length wr = WrappedDEKLen" "n < 65536"
  defines "b \<equiv> blob_prefix v id' wn wr n @ rest"
  shows "length b = HeaderLen + length rest" "take 4 b = Magic" "b ! offVersion = v" "slice offKeyID KeyIDLen b = id'"
    "slice offWrapNonce NonceLen b = wn" "slice offWrappedDEK WrappedDEKLen b = wr" "get16 (drop offNameLen b) = n"
    "drop HeaderLen b = rest" "take HeaderLen b = blob_prefix v id' wn wr n" "slice offNameLen 2 b = be16 n" "take offKeyID b = Magic @ [v]"
proof -
  have b: "b = ''FCDS'' @ v # id' @ wn @ wr @ be16 n @ rest" by (simp add: b_def blob_prefix_def Magic_def)
  note l = assms(1-3)[unfolded layout_defs, simplified]
  have 16: "length (be16 n) = 2" by (simp add: be16_def)
  show "length b = HeaderLen + length rest" "take 4 b = Magic" "b ! offVersion = v" "slice offKeyID KeyIDLen b = id'"
    "slice offWrapNonce NonceLen b = wn" "slice offWrappedDEK WrappedDEKLen b = wr" "drop HeaderLen b = rest" "slice offNameLen 2 b = be16 n"
    "take offKeyID b = Magic @ [v]"
    using l 16 by (simp_all add: b layout_defs slice_def)
  show "take HeaderLen b = blob_prefix v id' wn wr n"
    using l 16 by (simp add: b_def blob_prefix_def layout_defs)
  have "drop offNameLen b = be16 n @ rest" using l by (simp add: b layout_defs)
  then show "get16 (drop offNameLen b) = n" using get16_be16[OF assms(4)] by simp
qed

lemma known_version_prefix:
  assumes "length id' = KeyIDLen" "length wn = NonceLen" "length wr = WrappedDEKLen" "n < 65536" "v = Version1 \<or> v = Version2"
  shows "known_version (blob_prefix v id' wn wr n @ rest)"
  using blob_prefix_fields(2,3)[OF assms(1-4), of v rest] assms(5) by (simp add: known_version_def)

text \<open>Parsing a laid-out header: its fields come back, as long as what follows is as long as it says.\<close>

lemma ParseHeader_prefix:
  assumes "length id' = KeyIDLen" "length wn = NonceLen" "length wr = WrappedDEKLen" "v = Version1 \<or> v = Version2"
    and "NonceLen + TagLen \<le> length sn" "length sn < 65536" "v = Version1 \<Longrightarrow> NonceLen + TagLen \<le> length body"
  shows "ParseHeader (blob_prefix v id' wn wr (length sn) @ sn @ body) =
    Inr \<lparr>hd_Version = v, hd_KeyID = id', hd_WrapNonce = wn, hd_WrappedDEK = wr, hd_SealedName = sn, hd_Body = body, hd_BodyOffset = HeaderLen + length sn\<rparr>"
proof -
  define b where "b = blob_prefix v id' wn wr (length sn) @ sn @ body"
  note f = blob_prefix_fields[OF assms(1-3,6), of v "sn @ body", folded b_def]
  have "slice HeaderLen (length sn) b = sn" "drop (HeaderLen + length sn) b = body"
    using f(8) by (simp_all add: slice_def) (metis append_eq_conv_conj drop_drop add.commute)
  moreover have "known_version b" unfolding b_def using assms(1-4,6) by (intro known_version_prefix)
  moreover have "\<not> length b < HeaderLen" "\<not> length b < HeaderLen + length sn" "length b - (HeaderLen + length sn) = length body"
    using f(1) by simp_all
  ultimately show ?thesis using assms(5,7) unfolding b_def[symmetric] ParseHeader_def Let_def f(3-7)
    by (simp add: not_less)
qed

lemma header_unwrap_seal:
  assumes "crypto_laws C" "lookup id' = Some m" "length m = KeyLen"
  shows "header_unwrap C lookup v id' wn (cl_seal C m wn dek (wrapAAD v id')) = Inr dek"
  using assms by (simp add: header_unwrap_def newGCM_def crypto_lawsD(4)[OF assms(1)])

lemma Version_distinct: "Version1 \<noteq> Version2"
  by (simp add: Version1_def Version2_def byte_def)

lemma ValidateLogicalKey_length: "ValidateLogicalKey key = None \<Longrightarrow> length key \<le> MaxKeyBytes"
  by (auto simp: ValidateLogicalKey_def split: if_splits)

lemma paddedLen_upper: "paddedLen n < n + 32"
proof -
  define q where "q = (n + NamePadUnit - 1) div NamePadUnit * NamePadUnit"
  have "q \<le> n + NamePadUnit - 1" unfolding q_def by (rule div_times_less_eq_dividend)
  then show ?thesis by (simp add: paddedLen_def q_def[symmetric] NamePadUnit_def)
qed

section \<open>The buffered format\<close>

lemma Seal_opens:
  assumes "crypto_laws C" "ValidateLogicalKey key = None" "length plaintext \<le> MaxPlaintext"
    and "length (bk_ID kek) = KeyIDLen" "length (bk_Material kek) = KeyLen" "68 \<le> length rnd"
    and "lookup (bk_ID kek) = Some (bk_Material kek)"
  shows "\<exists>blob sealedName wrapNonce wrapped body. Seal C kek nameKey path key plaintext rnd = Inr (blob, sealedName)
    \<and> Open C lookup key blob = Inr plaintext \<and> HeaderName C nameKey path blob = Inr key \<and> OpenName C nameKey path sealedName = Inr key
    \<and> length sealedName = NonceLen + paddedLen (2 + length key) + TagLen
    \<and> blob = blob_prefix Version1 (bk_ID kek) wrapNonce wrapped (length sealedName) @ sealedName @ body
    \<and> length wrapNonce = NonceLen \<and> length wrapped = WrappedDEKLen \<and> NonceLen + TagLen \<le> length body"
proof -
  note L = crypto_lawsD[OF assms(1)]
  define dek wn r2 where "dek = take KeyLen rnd" and "wn = take NonceLen (drop KeyLen rnd)" and "r2 = drop NonceLen (drop KeyLen rnd)"
  have r: "read_full KeyLen rnd = Some (dek, drop KeyLen rnd)" "read_full NonceLen (drop KeyLen rnd) = Some (wn, r2)"
    using assms(6) by (simp_all add: read_full_def dek_def wn_def r2_def layout_defs)
  have "NonceLen \<le> length r2" using assms(6) by (simp add: r2_def layout_defs)
  then obtain sn where sn: "SealName C nameKey path key r2 = Inr (sn, drop NonceLen r2)" "OpenName C nameKey path sn = Inr key"
      "length sn = NonceLen + paddedLen (2 + length key) + TagLen" using OpenName_SealName[OF assms(1,2)] by blast
  have lsn: "length sn < 65536" "NonceLen + TagLen \<le> length sn"
    using sn(3) paddedLen_upper[of "2 + length key"] ValidateLogicalKey_length[OF assms(2)] by (simp_all add: layout_defs)
  define dn where "dn = take NonceLen (drop NonceLen r2)"
  have d: "read_full NonceLen (drop NonceLen r2) = Some (dn, drop NonceLen (drop NonceLen r2))" "length dn = NonceLen"
    using assms(6) by (simp_all add: read_full_def dn_def r2_def layout_defs)
  have len: "length dek = KeyLen" "length wn = NonceLen" using assms(6) by (simp_all add: dek_def wn_def layout_defs)
  define wr where "wr = cl_seal C (bk_Material kek) wn dek (wrapAAD Version1 (bk_ID kek))"
  define body where "body = dn @ cl_seal C dek dn plaintext (dataAAD key)"
  define blob where "blob = blob_prefix Version1 (bk_ID kek) wn wr (length sn) @ sn @ body"
  have seal: "Seal C kek nameKey path key plaintext rnd = Inr (blob, sn)"
    using assms(2,3,5) r sn(1) lsn d len by (simp add: Seal_def newGCM_def blob_def wr_def body_def)
  have "length wr = WrappedDEKLen" by (simp add: wr_def L(3) len WrappedDEKLen_def)
  then have parse: "ParseHeader blob = Inr \<lparr>hd_Version = Version1, hd_KeyID = bk_ID kek, hd_WrapNonce = wn, hd_WrappedDEK = wr, hd_SealedName = sn, hd_Body = body, hd_BodyOffset = HeaderLen + length sn\<rparr>"
    unfolding blob_def using assms(4) len lsn d(2) by (intro ParseHeader_prefix) (simp_all add: body_def L(3))
  have "Open C lookup key blob = Inr plaintext"
    using parse Version_distinct header_unwrap_seal[where lookup = lookup, OF assms(1,7,5)] len d(2)
    by (simp add: Open_def open_buffered_def wr_def newGCM_def body_def L(4))
  moreover have "length wr = WrappedDEKLen" "NonceLen + TagLen \<le> length body" by (simp_all add: wr_def body_def L(3) len d(2) WrappedDEKLen_def)
  moreover have "HeaderName C nameKey path blob = Inr key" using sn(2) parse by (simp add: HeaderName_def)
  ultimately show ?thesis using seal sn(2,3) len(2) blob_def by blast
qed

text \<open>
  What is written is what is read. For a valid key, a plaintext within the limit and
  enough random bytes, sealing produces a blob; opening that blob under the same key, with
  a keyring that still holds the wrapping key, gives exactly the plaintext; and the name can
  be recovered from the blob alone.
\<close>

theorem buffered_blob_round_trip:
  assumes "crypto_laws C" "ValidateLogicalKey key = None" "length plaintext \<le> MaxPlaintext"
    and "length (bk_ID kek) = KeyIDLen" "length (bk_Material kek) = KeyLen" "68 \<le> length rnd"
    and "lookup (bk_ID kek) = Some (bk_Material kek)"
  shows "\<exists>blob sealedName. Seal C kek nameKey path key plaintext rnd = Inr (blob, sealedName)
    \<and> Open C lookup key blob = Inr plaintext \<and> HeaderName C nameKey path blob = Inr key"
  using Seal_opens[where lookup = lookup, OF assms(1-6)] assms(7) by blast

theorem buffered_blob_round_trip_witness:
  "\<exists>blob sealedName. Seal plain_lib \<lparr>bk_ID = ''key-0001'', bk_Material = replicate 32 (byte 3)\<rparr> ''n'' ''p'' ''users/alice'' ''hello'' (replicate 68 (byte 9)) = Inr (blob, sealedName)
     \<and> Open plain_lib (\<lambda>i. Some (replicate 32 (byte 3))) ''users/alice'' blob = Inr ''hello''"
proof -
  have "ValidateLogicalKey ''users/alice'' = None" by code_simp
  then show ?thesis
    using buffered_blob_round_trip[OF plain_lib_laws, of "''users/alice''" "''hello''" "\<lparr>bk_ID = ''key-0001'', bk_Material = replicate 32 (byte 3)\<rparr>"
        "replicate 68 (byte 9)" "\<lambda>i. Some (replicate 32 (byte 3))" "''n''" "''p''"]
    by (auto simp: MaxPlaintext_def KeyIDLen_def KeyLen_def)
qed

section \<open>The chunked format\<close>

lemma write_to_unlimited [simp]: "wr_limit w = None \<Longrightarrow> write_to p w = Inr (w\<lparr>wr_buf := wr_buf w @ p\<rparr>)"
  by (simp add: write_to_def)

lemma write_to_limit: "write_to p w = Inr w' \<Longrightarrow> w' = w\<lparr>wr_buf := wr_buf w @ p\<rparr>"
  by (auto simp: write_to_def split: option.splits if_splits)

text \<open>The frames of a plaintext from a given index, as one string.\<close>

function frames :: "crypto_lib \<Rightarrow> string \<Rightarrow> string \<Rightarrow> nat \<Rightarrow> string \<Rightarrow> 32 word \<Rightarrow> string \<Rightarrow> string" where
  "frames C dk salt ce key i pt =
     (if length pt < 2 ^ ce then cl_seal C dk (salt @ be32 i) pt (frameAAD ce i True key)
      else cl_seal C dk (salt @ be32 i) (take (2 ^ ce) pt) (frameAAD ce i False key) @ frames C dk salt ce key (i + 1) (drop (2 ^ ce) pt))"
  by pat_completeness auto

termination frames
  by (relation "measure (\<lambda>(_, _, _, _, _, _, pt). length pt)") (auto simp: not_less intro!: diff_less)

declare frames.simps [simp del]

lemma seal_frames_frames:
  assumes "wr_limit w = None" "length pt < 2 ^ ce * (2 ^ 32 - unat i)"
  shows "seal_frames C dk salt ce key i \<lparr>rd_data = pt, rd_fails = False\<rparr> w = (w\<lparr>wr_buf := wr_buf w @ frames C dk salt ce key i pt\<rparr>, None)"
  using assms
proof (induction C dk salt ce key i pt arbitrary: w rule: frames.induct)
  case (1 C dk salt ce key i pt)
  show ?case
  proof (cases "length pt < 2 ^ ce")
    case True
    then show ?thesis using "1.prems"(1)
      by (simp add: seal_frames.simps[of _ _ _ _ _ i] frames.simps[of _ _ _ _ _ i] ReadFull_def Let_def)
  next
    case False
    have le: "2 ^ ce \<le> length pt" using False by simp
    have "i \<noteq> - 1"
    proof
      assume "i = - 1"
      then have "2 ^ 32 - unat i = 1" by (simp add: unsigned_minus_1_eq_mask mask_eq_exp_minus_1)
      then show False using "1.prems"(2) le by simp
    qed
    then have i: "unat (i + 1) = Suc (unat i)" by (metis add.commute unatSuc add_eq_0_iff)
    have step: "2 ^ ce * (2 ^ 32 - unat i) = 2 ^ ce * (2 ^ 32 - unat (i + 1)) + 2 ^ ce"
    proof -
      have "Suc (unat i) \<le> 2 ^ 32" using unsigned_less[of i, where 'a = nat] by simp
      then have "2 ^ 32 - unat i = Suc (2 ^ 32 - unat (i + 1))" unfolding i by linarith
      then show ?thesis by (simp only: mult_Suc_right)
    qed
    define w' where "w' = w\<lparr>wr_buf := wr_buf w @ cl_seal C dk (salt @ be32 i) (take (2 ^ ce) pt) (frameAAD ce i False key)\<rparr>"
    have "length (drop (2 ^ ce) pt) < 2 ^ ce * (2 ^ 32 - unat (i + 1))" using "1.prems"(2) step le by (simp only: length_drop)
    then have "seal_frames C dk salt ce key (i + 1) \<lparr>rd_data = drop (2 ^ ce) pt, rd_fails = False\<rparr> w'
        = (w'\<lparr>wr_buf := wr_buf w' @ frames C dk salt ce key (i + 1) (drop (2 ^ ce) pt)\<rparr>, None)"
      using "1.IH"[OF False, of w'] "1.prems"(1) by (simp add: w'_def)
    then show ?thesis using False le "1.prems"(1) \<open>i \<noteq> - 1\<close>
      by (simp add: seal_frames.simps[of _ _ _ _ _ i] frames.simps[of _ _ _ _ _ i] ReadFull_def Let_def w'_def)
  qed
qed

lemma open_frames_frames:
  assumes "crypto_laws C" "wr_limit w = None"
  shows "open_frames C dk salt ce key i \<lparr>rd_data = frames C dk salt ce key i pt, rd_fails = False\<rparr> w = (w\<lparr>wr_buf := wr_buf w @ pt\<rparr>, None)"
  using assms
proof (induction C dk salt ce key i pt arbitrary: w rule: frames.induct)
  case (1 C dk salt ce key i pt)
  note L = crypto_lawsD[OF "1.prems"(1)]
  show ?case
  proof (cases "length pt < 2 ^ ce")
    case True
    then show ?thesis using "1.prems"(2)
      by (simp add: open_frames.simps[of _ _ _ _ _ i] frames.simps[of _ _ _ _ _ i] ReadFull_def Let_def L(3,4))
  next
    case False
    define fr where "fr = cl_seal C dk (salt @ be32 i) (take (2 ^ ce) pt) (frameAAD ce i False key)"
    have f: "frames C dk salt ce key i pt = fr @ frames C dk salt ce key (i + 1) (drop (2 ^ ce) pt)" "length fr = 2 ^ ce + TagLen"
      using False by (simp_all add: frames.simps[of _ _ _ _ _ i] fr_def L(3))
    have o: "cl_open C dk (salt @ be32 i) fr (frameAAD ce i False key) = Some (take (2 ^ ce) pt)" by (simp add: fr_def L(4))
    show ?thesis unfolding open_frames.simps[of _ _ _ _ _ i] f(1)
      using "1.IH"[OF False "1.prems"(1), of "w\<lparr>wr_buf := wr_buf w @ take (2 ^ ce) pt\<rparr>"] "1.prems"(2) o f(2)
      by (simp add: ReadFull_def Let_def)
  qed
qed

lemma byte_val_exponent: "MinChunkExp \<le> ce \<Longrightarrow> ce \<le> MaxChunkExp \<Longrightarrow> byte_val (byte ce) = ce"
  by (simp add: MaxChunkExp_def)

text \<open>
  C24. A streamed object comes back whole. For a valid key, a sealed name block, a frame
  size in range and a plaintext the frame index can address, sealing a stream succeeds, the
  final frame being the one that is shorter than the others even when that means empty; and
  opening what was written, with a keyring that holds the wrapping key, yields the same
  bytes, in the same order, and no error.
\<close>

theorem streamed_blob_round_trip:
  assumes "crypto_laws C" "ValidateLogicalKey key = None" "MinChunkExp \<le> ce" "ce \<le> MaxChunkExp" "length pt < 2 ^ ce * 2 ^ 32"
    and "length (bk_ID kek) = KeyIDLen" "length (bk_Material kek) = KeyLen" "52 \<le> length rnd"
    and "NonceLen + TagLen \<le> length sn" "length sn \<le> 65535" "lookup (bk_ID kek) = Some (bk_Material kek)"
  shows "\<exists>blob. SealStream C kek key sn ce \<lparr>rd_data = pt, rd_fails = False\<rparr> \<lparr>wr_buf = '''', wr_limit = None\<rparr> rnd
      = (\<lparr>wr_buf = blob, wr_limit = None\<rparr>, None)
    \<and> OpenStream C lookup key \<lparr>rd_data = blob, rd_fails = False\<rparr> \<lparr>wr_buf = out, wr_limit = None\<rparr> = (\<lparr>wr_buf = out @ pt, wr_limit = None\<rparr>, None)"
proof -
  note L = crypto_lawsD[OF assms(1)]
  define dek wn salt where "dek = take KeyLen rnd" and "wn = take NonceLen (drop KeyLen rnd)" and "salt = take SaltLen (drop NonceLen (drop KeyLen rnd))"
  have r: "read_full KeyLen rnd = Some (dek, drop KeyLen rnd)" "read_full NonceLen (drop KeyLen rnd) = Some (wn, drop NonceLen (drop KeyLen rnd))"
      "read_full SaltLen (drop NonceLen (drop KeyLen rnd)) = Some (salt, drop SaltLen (drop NonceLen (drop KeyLen rnd)))"
    using assms(8) by (simp_all add: read_full_def dek_def wn_def salt_def layout_defs)
  have len: "length dek = KeyLen" "length wn = NonceLen" "length salt = SaltLen" using assms(8) by (simp_all add: dek_def wn_def salt_def layout_defs)
  define wr where "wr = cl_seal C (bk_Material kek) wn dek (wrapAAD Version2 (bk_ID kek))"
  have wr: "length wr = WrappedDEKLen" by (simp add: wr_def L(3) len WrappedDEKLen_def)
  define pre fs where "pre = blob_prefix Version2 (bk_ID kek) wn wr (length sn)" and "fs = frames C dek salt ce key 0 pt"
  define blob where "blob = pre @ sn @ salt @ byte ce # fs"
  have seal: "SealStream C kek key sn ce \<lparr>rd_data = pt, rd_fails = False\<rparr> \<lparr>wr_buf = '''', wr_limit = None\<rparr> rnd = (\<lparr>wr_buf = blob, wr_limit = None\<rparr>, None)"
    using assms(2-5,7,9,10) r len seal_frames_frames[of "\<lparr>wr_buf = pre @ sn @ salt @ [byte ce], wr_limit = None\<rparr>" pt ce 0 C dek salt key]
    by (simp add: SealStream_def newGCM_def blob_def pre_def fs_def wr_def not_less)
  note P = blob_prefix_fields[OF assms(6) len(2) wr, of "length sn" Version2 "[]", folded pre_def, simplified]
  have nl: "get16 (drop offNameLen pre) = length sn" "length pre = HeaderLen" "pre ! offVersion = Version2" using P assms(10) by simp_all
  have rd: "ReadFull HeaderLen \<lparr>rd_data = blob, rd_fails = False\<rparr> = (pre, \<lparr>rd_data = sn @ salt @ byte ce # fs, rd_fails = False\<rparr>, Read_full)"
      "ReadFull (length sn) \<lparr>rd_data = sn @ salt @ byte ce # fs, rd_fails = False\<rparr> = (sn, \<lparr>rd_data = salt @ byte ce # fs, rd_fails = False\<rparr>, Read_full)"
      "ReadFull (SaltLen + 1) \<lparr>rd_data = salt @ byte ce # fs, rd_fails = False\<rparr> = (salt @ [byte ce], \<lparr>rd_data = fs, rd_fails = False\<rparr>, Read_full)"
    using nl(2) len(3) by (simp_all add: ReadFull_def blob_def)
  have parse: "ParseHeader (pre @ sn) = Inr \<lparr>hd_Version = Version2, hd_KeyID = bk_ID kek, hd_WrapNonce = wn, hd_WrappedDEK = wr, hd_SealedName = sn, hd_Body = [], hd_BodyOffset = HeaderLen + length sn\<rparr>"
    using ParseHeader_prefix[OF assms(6) len(2) wr, of Version2 sn "[]"] assms(9,10) Version_distinct by (simp add: pre_def)
  have tail: "byte_val ((salt @ [byte ce]) ! SaltLen) = ce" "take SaltLen (salt @ [byte ce]) = salt"
    using len(3) byte_val_exponent[OF assms(3,4)] by (simp_all add: nth_append)
  have "OpenStream C lookup key \<lparr>rd_data = blob, rd_fails = False\<rparr> \<lparr>wr_buf = out, wr_limit = None\<rparr> = open_frames C dek salt ce key 0 \<lparr>rd_data = fs, rd_fails = False\<rparr> \<lparr>wr_buf = out, wr_limit = None\<rparr>"
    unfolding OpenStream_def rd(1) prod.case nl Let_def rd(2) parse rd(3) tail
    using assms(3,4,9) Version_distinct header_unwrap_seal[where lookup = lookup, OF assms(1,11,7), of Version2 wn dek, folded wr_def] len(1)
    by (simp add: newGCM_def rd(2,3) parse tail not_less)
  then show ?thesis using seal open_frames_frames[OF assms(1), of "\<lparr>wr_buf = out, wr_limit = None\<rparr>" dek salt ce key 0 pt] by (simp add: fs_def)
qed

theorem streamed_blob_round_trip_witness:
  "\<exists>blob. SealStream plain_lib \<lparr>bk_ID = ''key-0001'', bk_Material = replicate 32 (byte 3)\<rparr> ''users/alice'' (replicate 28 (byte 4)) 16
        \<lparr>rd_data = ''hello'', rd_fails = False\<rparr> \<lparr>wr_buf = '''', wr_limit = None\<rparr> (replicate 52 (byte 9)) = (\<lparr>wr_buf = blob, wr_limit = None\<rparr>, None)
     \<and> OpenStream plain_lib (\<lambda>i. Some (replicate 32 (byte 3))) ''users/alice'' \<lparr>rd_data = blob, rd_fails = False\<rparr> \<lparr>wr_buf = '''', wr_limit = None\<rparr>
        = (\<lparr>wr_buf = ''hello'', wr_limit = None\<rparr>, None)"
proof -
  have "ValidateLogicalKey ''users/alice'' = None" by code_simp
  then show ?thesis
    using streamed_blob_round_trip[OF plain_lib_laws, of "''users/alice''" 16 "''hello''" "\<lparr>bk_ID = ''key-0001'', bk_Material = replicate 32 (byte 3)\<rparr>"
        "replicate 52 (byte 9)" "replicate 28 (byte 4)" "\<lambda>i. Some (replicate 32 (byte 3))" "''''"]
    by (simp add: layout_defs MinChunkExp_def MaxChunkExp_def)
qed

text \<open>
  A stream cut at a frame boundary is refused: every frame kept is full, so the reader is
  still waiting for the short one when the bytes run out.
\<close>

lemma truncated_stream_is_refused:
  assumes "crypto_laws C" "wr_limit w = None" "j * 2 ^ ce \<le> length pt"
  shows "snd (open_frames C dk salt ce key i \<lparr>rd_data = take (j * (2 ^ ce + TagLen)) (frames C dk salt ce key i pt), rd_fails = False\<rparr> w) = Some ErrIntegrity"
  using assms(2,3)
proof (induction j arbitrary: i pt w)
  case 0
  show ?case by (simp add: open_frames.simps[of _ _ _ _ _ i] ReadFull_def Let_def TagLen_def)
next
  case (Suc j)
  note L = crypto_lawsD[OF assms(1)]
  have full: "\<not> length pt < 2 ^ ce" using Suc.prems(2) by (simp add: not_less)
  define fr where "fr = cl_seal C dk (salt @ be32 i) (take (2 ^ ce) pt) (frameAAD ce i False key)"
  have f: "frames C dk salt ce key i pt = fr @ frames C dk salt ce key (i + 1) (drop (2 ^ ce) pt)" "length fr = 2 ^ ce + TagLen"
    using full by (simp_all add: frames.simps[of _ _ _ _ _ i] fr_def L(3))
  have o: "cl_open C dk (salt @ be32 i) fr (frameAAD ce i False key) = Some (take (2 ^ ce) pt)" by (simp add: fr_def L(4))
  have "take (Suc j * (2 ^ ce + TagLen)) (frames C dk salt ce key i pt) = fr @ take (j * (2 ^ ce + TagLen)) (frames C dk salt ce key (i + 1) (drop (2 ^ ce) pt))"
    using f by simp
  then show ?case unfolding open_frames.simps[of _ _ _ _ _ i]
    using Suc.IH[of "w\<lparr>wr_buf := wr_buf w @ take (2 ^ ce) pt\<rparr>" "drop (2 ^ ce) pt" "i + 1"] Suc.prems o f(2)
    by (simp add: ReadFull_def Let_def)
qed

section \<open>Rewrapping\<close>

text \<open>Every blob of at least a header's length is a laid-out header and the rest.\<close>

lemma blob_decompose:
  assumes "HeaderLen \<le> length b" "known_version b"
  obtains v id' wn wr n rest where "b = blob_prefix v id' wn wr n @ rest" "length id' = KeyIDLen" "length wn = NonceLen" "length wr = WrappedDEKLen"
    "n < 65536" "v = Version1 \<or> v = Version2"
proof -
  define n where "n = get16 (drop offNameLen b)"
  have l: "75 \<le> length b" using assms(1) by (simp add: layout_defs)
  have n: "n < 65536" using byte_val_less[of "drop offNameLen b ! 0"] byte_val_less[of "drop offNameLen b ! 1"] by (simp add: n_def get16_def)
  have b16: "be16 n = take 2 (drop 73 b)" using be16_get16[of "drop 73 b"] l by (simp add: n_def layout_defs)
  have "take 4 b = Magic" using assms(2) by (simp add: known_version_def)
  moreover have "b = take 4 b @ [b ! 4] @ slice 5 8 b @ slice 13 12 b @ slice 25 48 b @ take 2 (drop 73 b) @ drop 75 b"
  proof -
    have s: "drop k b = take m (drop k b) @ drop (k + m) b" for k m by (metis append_take_drop_id drop_drop add.commute)
    have "drop 4 b = b ! 4 # drop 5 b" using l Cons_nth_drop_Suc[of 4 b] by simp
    then show ?thesis unfolding slice_def using s[of 0 4] s[of 5 8] s[of 13 12] s[of 25 48] s[of 73 2] by simp
  qed
  ultimately have b: "b = blob_prefix (b ! 4) (slice 5 8 b) (slice 13 12 b) (slice 25 48 b) n @ drop 75 b"
    unfolding blob_prefix_def b16 by simp
  have "length (slice 5 8 b) = KeyIDLen" "length (slice 13 12 b) = NonceLen" "length (slice 25 48 b) = WrappedDEKLen"
    using l by (simp_all add: slice_def layout_defs)
  moreover have "b ! 4 = Version1 \<or> b ! 4 = Version2" using assms(2) by (simp add: known_version_def offVersion_def)
  ultimately show thesis using that[OF b] n by blast
qed

lemma ParseHeader_blob:
  assumes "length id' = KeyIDLen" "length wn = NonceLen" "length wr = WrappedDEKLen" "n < 65536" "v = Version1 \<or> v = Version2"
  shows "ParseHeader (blob_prefix v id' wn wr n @ rest) =
    (if n < NonceLen + TagLen \<or> length rest < n then Inl ErrIntegrity
     else if v = Version1 \<and> length rest - n < NonceLen + TagLen then Inl ErrIntegrity
     else Inr \<lparr>hd_Version = v, hd_KeyID = id', hd_WrapNonce = wn, hd_WrappedDEK = wr, hd_SealedName = take n rest, hd_Body = drop n rest, hd_BodyOffset = HeaderLen + n\<rparr>)"
proof -
  define b where "b = blob_prefix v id' wn wr n @ rest"
  note f = blob_prefix_fields[OF assms(1-4), of v rest, folded b_def]
  have "drop (HeaderLen + n) b = drop n rest" "slice HeaderLen n b = take n rest" using f(8) by (metis drop_drop add.commute, simp add: slice_def)
  moreover have "known_version b" unfolding b_def using assms by (intro known_version_prefix)
  moreover have "\<not> length b < HeaderLen" "length b < HeaderLen + n \<longleftrightarrow> length rest < n" "length b - (HeaderLen + n) = length rest - n" using f(1) by auto
  ultimately show ?thesis unfolding b_def[symmetric] ParseHeader_def Let_def f(3-7) by simp
qed

text \<open>Opening depends on the wrap fields only through the outcome \<open>u\<close> of unwrapping them.\<close>

definition open_rest :: "crypto_lib \<Rightarrow> crypto_error + string \<Rightarrow> char \<Rightarrow> nat \<Rightarrow> string \<Rightarrow> string \<Rightarrow> writer \<Rightarrow> writer \<times> crypto_error option" where
  "open_rest C u v n rest key w =
     (let body = drop n rest; M = MaxPlaintext + NonceLen + TagLen + 1 in
      if n < NonceLen + TagLen \<or> length rest < n then (w, Some ErrIntegrity)
      else if v = Version1 then
        (if length body > M then (w, Some (ErrTooLarge M))
         else if length body < NonceLen + TagLen then (w, Some ErrIntegrity)
         else case u of Inl e \<Rightarrow> (w, Some e) | Inr dek \<Rightarrow>
           (case newGCM dek of Inl e \<Rightarrow> (w, Some e) | Inr dk \<Rightarrow>
             (case cl_open C dk (take NonceLen body) (drop NonceLen body) (dataAAD key) of
                None \<Rightarrow> (w, Some ErrIntegrity)
              | Some pt \<Rightarrow> (case write_to pt w of Inl e \<Rightarrow> (w, Some e) | Inr w' \<Rightarrow> (w', None)))))
      else if length body < SaltLen + 1 then (w, Some ErrIntegrity)
      else if byte_val (body ! SaltLen) < MinChunkExp \<or> MaxChunkExp < byte_val (body ! SaltLen) then (w, Some ErrIntegrity)
      else case u of Inl e \<Rightarrow> (w, Some e) | Inr dek \<Rightarrow>
        (case newGCM dek of Inl e \<Rightarrow> (w, Some e) | Inr dk \<Rightarrow>
          open_frames C dk (take SaltLen body) (byte_val (body ! SaltLen)) key 0 \<lparr>rd_data = drop (SaltLen + 1) body, rd_fails = False\<rparr> w))"

lemma OpenStream_rest:
  assumes "length id' = KeyIDLen" "length wn = NonceLen" "length wr = WrappedDEKLen" "n < 65536" "v = Version1 \<or> v = Version2"
  shows "OpenStream C lookup key \<lparr>rd_data = blob_prefix v id' wn wr n @ rest, rd_fails = False\<rparr> w
    = open_rest C (header_unwrap C lookup v id' wn wr) v n rest key w"
proof -
  define pre where "pre = blob_prefix v id' wn wr n"
  define body where "body = drop n rest"
  note P = ParseHeader_blob[OF assms, folded pre_def] and F = blob_prefix_fields[OF assms(1-4), of v "[]", folded pre_def, simplified]
  have R: "ReadFull HeaderLen \<lparr>rd_data = pre @ rest, rd_fails = False\<rparr> = (pre, \<lparr>rd_data = rest, rd_fails = False\<rparr>, Read_full)"
    using F(1) by (simp add: ReadFull_def)
  note OS = OpenStream_def[of C lookup key "\<lparr>rd_data = pre @ rest, rd_fails = False\<rparr>" w, unfolded R prod.case F(3,7) Let_def]
  show ?thesis
  proof (cases "n < NonceLen + TagLen \<or> length rest < n")
    case True
    then show ?thesis unfolding pre_def[symmetric] OS by (auto simp: open_rest_def Let_def ReadFull_def)
  next
    case False
    then have N: "ReadFull n \<lparr>rd_data = rest, rd_fails = False\<rparr> = (take n rest, \<lparr>rd_data = body, rd_fails = False\<rparr>, Read_full)"
      by (simp add: ReadFull_def body_def)
    have tb: "take n rest @ body = rest" by (simp add: body_def)
    have lb: "length rest - n = length body" by (simp add: body_def)
    show ?thesis
    proof (cases "v = Version1")
      case True
      then show ?thesis using False P[of rest] unfolding pre_def[symmetric] OS N prod.case
        by (auto simp: open_rest_def Let_def tb lb readAtMost_def open_buffered_def body_def[symmetric] split: sum.splits option.splits)
    next
      case v2: False
      have "ReadFull (SaltLen + 1) \<lparr>rd_data = body, rd_fails = False\<rparr> =
          (if length body < SaltLen + 1 then (body, \<lparr>rd_data = [], rd_fails = False\<rparr>, Read_eof)
           else (take (SaltLen + 1) body, \<lparr>rd_data = drop (SaltLen + 1) body, rd_fails = False\<rparr>, Read_full))" by (simp add: ReadFull_def)
      then show ?thesis using False v2 P[of "take n rest"] unfolding pre_def[symmetric] OS N prod.case
        by (auto simp: open_rest_def Let_def body_def[symmetric] split: sum.splits)
    qed
  qed
qed

lemma OpenStream_same_dek:
  assumes "length id1 = KeyIDLen" "length wn1 = NonceLen" "length wr1 = WrappedDEKLen" "n < 65536" "v = Version1 \<or> v = Version2"
    and "length id2 = KeyIDLen" "length wn2 = NonceLen" "length wr2 = WrappedDEKLen"
    and "header_unwrap C lookup1 v id1 wn1 wr1 = Inr dek" "header_unwrap C lookup2 v id2 wn2 wr2 = Inr dek"
  shows "OpenStream C lookup2 key \<lparr>rd_data = blob_prefix v id2 wn2 wr2 n @ rest, rd_fails = False\<rparr> w
    = OpenStream C lookup1 key \<lparr>rd_data = blob_prefix v id1 wn1 wr1 n @ rest, rd_fails = False\<rparr> w"
  by (simp only: OpenStream_rest[OF assms(1-5)] OpenStream_rest[OF assms(6-8,4,5)] assms(9,10))

lemma Open_same_dek:
  assumes "length id1 = KeyIDLen" "length wn1 = NonceLen" "length wr1 = WrappedDEKLen" "n < 65536" "v = Version1 \<or> v = Version2"
    and "length id2 = KeyIDLen" "length wn2 = NonceLen" "length wr2 = WrappedDEKLen"
    and "header_unwrap C lookup1 v id1 wn1 wr1 = Inr dek" "header_unwrap C lookup2 v id2 wn2 wr2 = Inr dek"
  shows "Open C lookup2 key (blob_prefix v id2 wn2 wr2 n @ rest) = Open C lookup1 key (blob_prefix v id1 wn1 wr1 n @ rest)"
proof (cases "n < NonceLen + TagLen \<or> length rest < n \<or> v = Version1 \<and> length rest - n < NonceLen + TagLen")
  case True
  then have "ParseHeader (blob_prefix v id1 wn1 wr1 n @ rest) = Inl ErrIntegrity" "ParseHeader (blob_prefix v id2 wn2 wr2 n @ rest) = Inl ErrIntegrity"
    using ParseHeader_blob[OF assms(1-5), of rest] ParseHeader_blob[OF assms(6-8,4,5), of rest] by presburger+
  then show ?thesis by (simp add: Open_def)
next
  case False
  let ?h = "\<lambda>id' wn wr. \<lparr>hd_Version = v, hd_KeyID = id', hd_WrapNonce = wn, hd_WrappedDEK = wr, hd_SealedName = take n rest, hd_Body = drop n rest, hd_BodyOffset = HeaderLen + n\<rparr>"
  have "ParseHeader (blob_prefix v id1 wn1 wr1 n @ rest) = Inr (?h id1 wn1 wr1)" "ParseHeader (blob_prefix v id2 wn2 wr2 n @ rest) = Inr (?h id2 wn2 wr2)"
    using False ParseHeader_blob[OF assms(1-5), of rest] ParseHeader_blob[OF assms(6-8,4,5), of rest] by presburger+
  then show ?thesis using OpenStream_same_dek[OF assms]
    by (cases "v = Version2"; cases "newGCM dek") (simp_all add: Open_def open_buffered_def assms(9,10))
qed

text \<open>
  C23. Rewrapping moves an object to a new key and changes nothing else. Whenever a rekey
  succeeds, every byte from the end of the fixed header on, sealed name and body, is the
  byte that was there; the blob names the new key; and with a keyring that holds the new
  key, the old one no longer needed, it opens to exactly what it opened to before, in
  either format, and to the same name.
\<close>

theorem rekey_keeps_the_object:
  assumes "crypto_laws C" "Rekey C lookup newKEK b rnd = Inr b'" "length (bk_ID newKEK) = KeyIDLen"
    and "lookup' (bk_ID newKEK) = Some (bk_Material newKEK)"
  shows "drop HeaderLen b' = drop HeaderLen b \<and> length b' = length b \<and> slice offKeyID KeyIDLen b' = bk_ID newKEK
    \<and> Open C lookup' key b' = Open C lookup key b \<and> HeaderName C nameKey path b' = HeaderName C nameKey path b"
proof -
  note L = crypto_lawsD[OF assms(1)]
  obtain h p where h: "ParseHeader b = Inr h" and p: "RekeyPrefix C lookup newKEK (take HeaderLen b) rnd = Inr p" "b' = p @ drop HeaderLen b"
    using assms(2) by (auto simp: Rekey_def split: sum.splits)
  have hb: "HeaderLen \<le> length b" "known_version b" using h by (auto simp: ParseHeader_def split: if_splits)
  then obtain v id' wn wr n rest where b: "b = blob_prefix v id' wn wr n @ rest" and l: "length id' = KeyIDLen" "length wn = NonceLen" "length wr = WrappedDEKLen"
    "n < 65536" "v = Version1 \<or> v = Version2" by (rule blob_decompose)
  note F = blob_prefix_fields[OF l(1-4), of v rest, folded b] and G = blob_prefix_fields[OF l(1-4), of v "[]", simplified]
  obtain dek where dek: "header_unwrap C lookup v id' wn wr = Inr dek" and m: "length (bk_Material newKEK) = KeyLen" and r: "NonceLen \<le> length rnd"
    and pp: "p = (Magic @ [v]) @ bk_ID newKEK @ take NonceLen rnd @ cl_seal C (bk_Material newKEK) (take NonceLen rnd) dek (wrapAAD v (bk_ID newKEK)) @ be16 n"
    using p(1) unfolding RekeyPrefix_def F(9) G(3-6,10,11) by (auto simp: newGCM_def read_full_def split: if_splits sum.splits)
  define wr' where "wr' = cl_seal C (bk_Material newKEK) (take NonceLen rnd) dek (wrapAAD v (bk_ID newKEK))"
  obtain m0 where "cl_open C m0 wn wr (wrapAAD v id') = Some dek" using dek by (auto simp: header_unwrap_def newGCM_def split: option.splits if_splits)
  then have "length dek = KeyLen" using L(5) L(3) l(3) by (metis WrappedDEKLen_def add_right_cancel)
  then have l': "length (take NonceLen rnd) = NonceLen" "length wr' = WrappedDEKLen" using r by (simp_all add: wr'_def L(3) WrappedDEKLen_def)
  have b': "b' = blob_prefix v (bk_ID newKEK) (take NonceLen rnd) wr' n @ rest" using p(2) pp F(8) by (simp add: blob_prefix_def wr'_def)
  note F' = blob_prefix_fields[OF assms(3) l'(1,2) l(4), of v rest, folded b']
  have "header_unwrap C lookup' v (bk_ID newKEK) (take NonceLen rnd) wr' = Inr dek"
    unfolding wr'_def using assms(1,4) m by (intro header_unwrap_seal)
  then have "Open C lookup' key b' = Open C lookup key b" unfolding b b' by (intro Open_same_dek[OF l(1-5) assms(3) l' dek])
  moreover have "HeaderName C nameKey path b' = HeaderName C nameKey path b"
    unfolding HeaderName_def b b' ParseHeader_blob[OF l] ParseHeader_blob[OF assms(3) l' l(4,5)] by simp
  ultimately show ?thesis using F(1,8) F'(1,4,8) by simp
qed


theorem rekey_keeps_the_object_witness:
  "\<exists>b'. Rekey plain_lib (\<lambda>i. Some (replicate 32 (byte 3))) \<lparr>bk_ID = ''key-0002'', bk_Material = replicate 32 (byte 4)\<rparr>
        (blob_prefix Version1 ''key-0001'' (replicate 12 (byte 1)) (replicate 32 (byte 3) @ replicate 16 (byte 7)) 28 @ replicate 60 (byte 5))
        (replicate 12 (byte 9)) = Inr b'
     \<and> slice offKeyID KeyIDLen b' = ''key-0002''
     \<and> Open plain_lib (\<lambda>i. if i = ''key-0002'' then Some (replicate 32 (byte 4)) else None) ''users/alice'' b'
       = Open plain_lib (\<lambda>i. Some (replicate 32 (byte 3))) ''users/alice''
           (blob_prefix Version1 ''key-0001'' (replicate 12 (byte 1)) (replicate 32 (byte 3) @ replicate 16 (byte 7)) 28 @ replicate 60 (byte 5))"
  (is "\<exists>b'. Rekey _ ?old ?kek ?b ?rnd = Inr b' \<and> _")
proof -
  have "case Rekey plain_lib ?old ?kek ?b ?rnd of Inr _ \<Rightarrow> True | Inl _ \<Rightarrow> False" by code_simp
  then obtain b' where b': "Rekey plain_lib ?old ?kek ?b ?rnd = Inr b'" by (auto split: sum.splits)
  then show ?thesis
    using rekey_keeps_the_object[OF plain_lib_laws b', of "\<lambda>i. if i = ''key-0002'' then Some (replicate 32 (byte 4)) else None" "''users/alice''"]
    by (intro exI[of _ b']) (simp add: KeyIDLen_def)
qed

end
