(* ===== verification/Keyring.thy ===== *)
theory Keyring
  imports Names "HOL-Library.Word"
begin

text \<open>
  The operator's keys (\<open>datasphere/keyring.go\<close>, \<open>scope.go\<close>, \<open>bundle.go\<close>): key entries,
  scopes and their prefixes, what a keyring must satisfy, the operations that grow one,
  and its file and bundle forms. A key's material is a reference of type \<open>'k\<close> read by
  \<open>rd\<close>, so that the same checks serve a keyring held by value (\<open>rd\<close> the identity) and
  one whose slices lie on a heap. A scope's own keyring never carries scopes: none of
  \<open>NewScope\<close>, \<open>parseScopes\<close> and \<open>Clone\<close>, which build every scope, gives it any, so it
  is the record \<open>key_lists\<close>. YAML is a parameter.
\<close>

section \<open>Errors\<close>

datatype keyring_fault =
    Key_id_not_hex
  | Key_id_length nat
  | Mint_material
  | Mint_id
  | No_name_keys
  | No_keys
  | Scope_exists string
  | Scopes_overlap string string string string
  | No_such_key string string
  | No_such_scope string
  | Two_prefixes string string string
  | Minted_twice string
  | Two_values string string
  | Entry_length string string nat
  | Duplicate_id string string
  | Duplicate_scope string
  | In_scope string keyring_fault
  | After_rotation string keyring_fault
  | Scope_at nat keyring_fault
  | Entry_at string nat keyring_fault
  | Not_base64 string string
  | Yaml_invalid string
  | Unsupported_version int
  | Scopes_in_version_one
  | Yaml_encode
  | Scope_name_empty
  | Scope_name_long nat
  | Scope_name_start
  | Scope_name_chars
  | App_name_long string string nat
  | Prefix_not_subtree
  | Prefix_key key_fault

section \<open>Keys, scopes and keyrings\<close>

record 'k key_entry =
  ke_ID :: string
  ke_Created :: gotime
  ke_key :: 'k

record 'k key_lists =
  kr_nameKeys :: "'k key_entry list"
  kr_keys :: "'k key_entry list"

record 'k scope =
  sc_Name :: string
  sc_Prefix :: string
  sc_Created :: gotime
  sc_Derivation :: string
  sc_keys :: "'k key_lists"

record 'k keyring = "'k key_lists" +
  kr_scopes :: "'k scope list"

definition ParseKeyID :: "string \<Rightarrow> keyring_fault + string" where
  "ParseKeyID s =
     (case hex_decode s of
        None \<Rightarrow> Inl Key_id_not_hex
      | Some raw \<Rightarrow> if length raw \<noteq> KeyIDLen then Inl (Key_id_length (length raw)) else Inr raw)"

text \<open>\<open>NewKey\<close> reads the material and then the identifier off \<open>keyRand\<close>.\<close>

definition NewKey :: "gotime \<Rightarrow> string \<Rightarrow> keyring_fault + string key_entry \<times> string" where
  "NewKey now rnd =
     (case read_full KeyLen rnd of
        None \<Rightarrow> Inl Mint_material
      | Some (key, rnd) \<Rightarrow>
          (case read_full KeyIDLen rnd of
             None \<Rightarrow> Inl Mint_id
           | Some (i, rnd) \<Rightarrow> Inr (\<lparr>ke_ID = i, ke_Created = now, ke_key = key\<rparr>, rnd)))"

definition NewKeyring :: "gotime \<Rightarrow> string \<Rightarrow> keyring_fault + string key_lists \<times> string" where
  "NewKeyring now rnd =
     (case NewKey now rnd of
        Inl f \<Rightarrow> Inl f
      | Inr (nameKey, rnd) \<Rightarrow>
          (case NewKey now rnd of
             Inl f \<Rightarrow> Inl f
           | Inr (kek, rnd) \<Rightarrow> Inr (\<lparr>kr_nameKeys = [nameKey], kr_keys = [kek]\<rparr>, rnd)))"

definition ActiveNameKey :: "('k, 'z) key_lists_scheme \<Rightarrow> keyring_fault + 'k key_entry" where
  "ActiveNameKey k = (case kr_nameKeys k of [] \<Rightarrow> Inl No_name_keys | e # _ \<Rightarrow> Inr e)"

definition ActiveKEK :: "('k, 'z) key_lists_scheme \<Rightarrow> keyring_fault + 'k key_entry" where
  "ActiveKEK k = (case kr_keys k of [] \<Rightarrow> Inl No_keys | e # _ \<Rightarrow> Inr e)"

text \<open>The crypto layer's resolver of key-encryption keys.\<close>

definition kek_lookup :: "('k, 'z) key_lists_scheme \<Rightarrow> string \<Rightarrow> 'k option" where
  "kek_lookup k i = map_option ke_key (find (\<lambda>e. ke_ID e = i) (kr_keys k))"

section \<open>Scope names and prefixes\<close>

definition AppScopeRoot :: string where "AppScopeRoot = ''app''"
definition ScopePrefixSuffix :: string where "ScopePrefixSuffix = ''/''"
definition MaxAppScopeName :: nat where "MaxAppScopeName = 63"
definition SecretsSegment :: string where "SecretsSegment = ''secrets''"
definition MaxSecretNameLen :: nat where "MaxSecretNameLen = 128"

definition ValidateScopeName :: "string \<Rightarrow> keyring_fault option" where
  "ValidateScopeName name =
     (if name = '''' then Some Scope_name_empty
      else if length name > 63 then Some (Scope_name_long (length name))
      else if \<not> lower_az (hd name) then Some Scope_name_start
      else if \<not> list_all (\<lambda>c. lower_az c \<or> digit09 c \<or> c = CHR ''-'') name then Some Scope_name_chars
      else None)"

definition ValidateScopePrefix :: "string \<Rightarrow> keyring_fault option" where
  "ValidateScopePrefix prefix =
     (if \<not> has_suffix prefix ScopePrefixSuffix then Some Prefix_not_subtree
      else map_option Prefix_key (ValidateLogicalKey (trim_suffix prefix ScopePrefixSuffix)))"

definition scopesOverlap :: "string \<Rightarrow> string \<Rightarrow> bool" where
  "scopesOverlap a b \<longleftrightarrow> has_prefix a b \<or> has_prefix b a"

definition Owns :: "'k scope \<Rightarrow> string \<Rightarrow> bool" where
  "Owns s key \<longleftrightarrow> has_prefix key (sc_Prefix s)"

definition ScopeNamed :: "'k keyring \<Rightarrow> string \<Rightarrow> 'k scope option" where
  "ScopeNamed k name = find (\<lambda>s. sc_Name s = name) (kr_scopes k)"

definition ScopeOwning :: "'k scope list \<Rightarrow> string \<Rightarrow> 'k scope option" where
  "ScopeOwning scopes key = find (\<lambda>s. Owns s key) scopes"

definition AppScopePrefix :: "string \<Rightarrow> string \<Rightarrow> string" where
  "AppScopePrefix namespace app =
     AppScopeRoot @ ScopePrefixSuffix @ namespace @ ScopePrefixSuffix @ app @ ScopePrefixSuffix"

definition AppSecretsPrefix :: "string \<Rightarrow> string \<Rightarrow> string" where
  "AppSecretsPrefix namespace app = AppScopePrefix namespace app @ SecretsSegment @ ScopePrefixSuffix"

definition AppScopeName :: "string \<Rightarrow> string \<Rightarrow> keyring_fault + string" where
  "AppScopeName namespace app =
     (let name = AppScopeRoot @ ''-'' @ namespace @ ''-'' @ app in
      if length name > MaxAppScopeName then Inl (App_name_long namespace app (length name))
      else case ValidateScopeName name of Some f \<Rightarrow> Inl f | None \<Rightarrow> Inr name)"

definition ParseAppScopePrefix :: "string \<Rightarrow> (string \<times> string) option" where
  "ParseAppScopePrefix prefix =
     (case cut_prefix prefix (AppScopeRoot @ ScopePrefixSuffix) of
        None \<Rightarrow> None
      | Some rest \<Rightarrow>
          (case split_on (CHR ''/'') (trim_suffix rest ScopePrefixSuffix) of
             [namespace, app] \<Rightarrow> if namespace = '''' \<or> app = '''' then None else Some (namespace, app)
           | _ \<Rightarrow> None))"

datatype secret_fault = Secret_empty | Secret_long nat | Secret_edge char | Secret_char | Secret_dots

fun secret_chars :: "nat \<Rightarrow> nat \<Rightarrow> string \<Rightarrow> secret_fault option" where
  "secret_chars n i [] = None"
| "secret_chars n i (c # cs) =
     (if lower_az c \<or> upper_az c \<or> digit09 c then secret_chars n (Suc i) cs
      else if c = CHR ''_'' \<or> c = CHR ''-'' \<or> c = CHR ''.'' then
        (if i = 0 \<or> i = n - 1 then Some (Secret_edge c) else secret_chars n (Suc i) cs)
      else Some Secret_char)"

definition ValidateSecretName :: "string \<Rightarrow> secret_fault option" where
  "ValidateSecretName name =
     (if name = '''' then Some Secret_empty
      else if length name > MaxSecretNameLen then Some (Secret_long (length name))
      else case secret_chars (length name) 0 name of
        Some f \<Rightarrow> Some f
      | None \<Rightarrow> if contains name ''..'' then Some Secret_dots else None)"

definition IsSecretsKey :: "string \<Rightarrow> string \<Rightarrow> bool" where
  "IsSecretsKey scopePrefix key =
     (case cut_prefix key scopePrefix of
        None \<Rightarrow> False
      | Some rest \<Rightarrow>
          (case cut_prefix rest (SecretsSegment @ ScopePrefixSuffix) of
             None \<Rightarrow> False
           | Some after \<Rightarrow> after \<noteq> ''''))"

section \<open>What makes a keyring usable\<close>

fun validEntries :: "('k \<Rightarrow> string) \<Rightarrow> string \<Rightarrow> string list \<Rightarrow> 'k key_entry list \<Rightarrow> keyring_fault option" where
  "validEntries rd what seen [] = None"
| "validEntries rd what seen (e # es) =
     (if length (rd (ke_key e)) \<noteq> KeyLen then Some (Entry_length what (ke_ID e) (length (rd (ke_key e))))
      else if ke_ID e \<in> set seen then Some (Duplicate_id what (ke_ID e))
      else validEntries rd what (ke_ID e # seen) es)"

definition keysValid :: "('k \<Rightarrow> string) \<Rightarrow> ('k, 'z) key_lists_scheme \<Rightarrow> keyring_fault option" where
  "keysValid rd k =
     (if kr_nameKeys k = [] then Some No_name_keys
      else if kr_keys k = [] then Some No_keys
      else case validEntries rd ''name key'' [] (kr_nameKeys k) of
        Some f \<Rightarrow> Some f
      | None \<Rightarrow> validEntries rd ''key'' [] (kr_keys k))"

definition scopeValid :: "('k \<Rightarrow> string) \<Rightarrow> 'k scope \<Rightarrow> keyring_fault option" where
  "scopeValid rd s =
     (case ValidateScopeName (sc_Name s) of
        Some f \<Rightarrow> Some f
      | None \<Rightarrow>
          (case ValidateScopePrefix (sc_Prefix s) of
             Some f \<Rightarrow> Some f
           | None \<Rightarrow> keysValid rd (sc_keys s)))"

fun scopes_fault :: "('k \<Rightarrow> string) \<Rightarrow> string list \<Rightarrow> 'k scope list \<Rightarrow> keyring_fault option" where
  "scopes_fault rd seen [] = None"
| "scopes_fault rd seen (s # ss) =
     (case scopeValid rd s of
        Some f \<Rightarrow> Some f
      | None \<Rightarrow>
          if sc_Name s \<in> set seen then Some (Duplicate_scope (sc_Name s))
          else scopes_fault rd (sc_Name s # seen) ss)"

definition overlap_fault :: "'k scope \<Rightarrow> 'k scope \<Rightarrow> keyring_fault" where
  "overlap_fault a b = Scopes_overlap (sc_Name a) (sc_Prefix a) (sc_Name b) (sc_Prefix b)"

fun overlaps_fault :: "'k scope list \<Rightarrow> keyring_fault option" where
  "overlaps_fault [] = None"
| "overlaps_fault (a # rest) =
     (case find (\<lambda>b. scopesOverlap (sc_Prefix a) (sc_Prefix b)) rest of
        Some b \<Rightarrow> Some (overlap_fault a b)
      | None \<Rightarrow> overlaps_fault rest)"

definition Valid :: "('k \<Rightarrow> string) \<Rightarrow> 'k keyring \<Rightarrow> keyring_fault option" where
  "Valid rd k =
     (case keysValid rd k of
        Some f \<Rightarrow> Some f
      | None \<Rightarrow>
          (case scopes_fault rd [] (kr_scopes k) of
             Some f \<Rightarrow> Some f
           | None \<Rightarrow> overlaps_fault (kr_scopes k)))"


section \<open>Growing a keyring\<close>

definition NewScope :: "string \<Rightarrow> string \<Rightarrow> gotime \<Rightarrow> string \<Rightarrow> keyring_fault + string scope \<times> string" where
  "NewScope name prefix now rnd =
     (case ValidateScopeName name of
        Some f \<Rightarrow> Inl f
      | None \<Rightarrow>
          (case ValidateScopePrefix prefix of
             Some f \<Rightarrow> Inl f
           | None \<Rightarrow>
               (case NewKeyring now rnd of
                  Inl f \<Rightarrow> Inl f
                | Inr (ks, rnd) \<Rightarrow>
                    Inr (\<lparr>sc_Name = name, sc_Prefix = prefix, sc_Created = now, sc_Derivation = '''', sc_keys = ks\<rparr>, rnd))))"

definition NewAppScope :: "string \<Rightarrow> string \<Rightarrow> gotime \<Rightarrow> string \<Rightarrow> keyring_fault + string scope \<times> string" where
  "NewAppScope namespace app now rnd =
     (case AppScopeName namespace app of
        Inl f \<Rightarrow> Inl f
      | Inr name \<Rightarrow> NewScope name (AppScopePrefix namespace app) now rnd)"

fun scope_conflict :: "'k scope \<Rightarrow> 'k scope list \<Rightarrow> keyring_fault option" where
  "scope_conflict s [] = None"
| "scope_conflict s (existing # rest) =
     (if sc_Name existing = sc_Name s then Some (Scope_exists (sc_Name s))
      else if scopesOverlap (sc_Prefix existing) (sc_Prefix s) then Some (overlap_fault s existing)
      else scope_conflict s rest)"

definition AddScope :: "string keyring \<Rightarrow> string scope \<Rightarrow> keyring_fault + string keyring" where
  "AddScope k s =
     (case scopeValid (\<lambda>m. m) s of
        Some f \<Rightarrow> Inl f
      | None \<Rightarrow>
          (case scope_conflict s (kr_scopes k) of
             Some f \<Rightarrow> Inl f
           | None \<Rightarrow> Inr (k\<lparr>kr_scopes := kr_scopes k @ [s]\<rparr>)))"

definition AddKEK :: "('k, 'z) key_lists_scheme \<Rightarrow> 'k key_entry \<Rightarrow> ('k, 'z) key_lists_scheme" where
  "AddKEK k e = k\<lparr>kr_keys := e # kr_keys k\<rparr>"

record scope_rotation =
  rot_Scope :: string
  rot_Previous :: string
  rot_Active :: string

fun rotate_scopes :: "gotime \<Rightarrow> string scope list \<Rightarrow> string \<Rightarrow> keyring_fault + string scope list \<times> scope_rotation list \<times> string" where
  "rotate_scopes now [] rnd = Inr ([], [], rnd)"
| "rotate_scopes now (s # ss) rnd =
     (case ActiveKEK (sc_keys s) of
        Inl f \<Rightarrow> Inl (In_scope (sc_Name s) f)
      | Inr previous \<Rightarrow>
          (case NewKey now rnd of
             Inl f \<Rightarrow> Inl f
           | Inr (entry, rnd) \<Rightarrow>
               let next' = s\<lparr>sc_keys := AddKEK (sc_keys s) entry\<rparr> in
               (case scopeValid (\<lambda>m. m) next' of
                  Some f \<Rightarrow> Inl (After_rotation (sc_Name s) f)
                | None \<Rightarrow>
                    (case rotate_scopes now ss rnd of
                       Inl f \<Rightarrow> Inl f
                     | Inr (scopes, rotated, rnd) \<Rightarrow>
                         Inr (next' # scopes,
                              \<lparr>rot_Scope = sc_Name s, rot_Previous = ke_ID previous, rot_Active = ke_ID entry\<rparr> # rotated, rnd)))))"

definition RotateScopeKEKs :: "gotime \<Rightarrow> string keyring \<Rightarrow> string \<Rightarrow> keyring_fault + string keyring \<times> scope_rotation list \<times> string" where
  "RotateScopeKEKs now k rnd =
     (if kr_scopes k = [] then Inr (k, [], rnd)
      else case rotate_scopes now (kr_scopes k) rnd of
        Inl f \<Rightarrow> Inl f
      | Inr (scopes, rotated, rnd) \<Rightarrow> Inr (k\<lparr>kr_scopes := scopes\<rparr>, rotated, rnd))"

text \<open>
  The first entry with that identifier, moved to the front. \<open>find_index\<close> is the inner
  search; \<open>pending\<close> is the map of scopes still to be met.
\<close>

fun find_index :: "('a \<Rightarrow> bool) \<Rightarrow> 'a list \<Rightarrow> nat option" where
  "find_index P [] = None"
| "find_index P (x # xs) = (if P x then Some 0 else map_option Suc (find_index P xs))"

definition to_front :: "nat \<Rightarrow> 'a list \<Rightarrow> 'a list" where
  "to_front i xs = xs ! i # take i xs @ drop (Suc i) xs"

fun activate_scopes :: "(string \<times> string) list \<Rightarrow> string scope list \<Rightarrow> keyring_fault + string scope list \<times> (string \<times> string) list" where
  "activate_scopes pending [] = Inr ([], pending)"
| "activate_scopes pending (s # ss) =
     (case map_of pending (sc_Name s) of
        None \<Rightarrow>
          (case activate_scopes pending ss of Inl f \<Rightarrow> Inl f | Inr (scopes, pending) \<Rightarrow> Inr (s # scopes, pending))
      | Some i \<Rightarrow>
          (case find_index (\<lambda>e. ke_ID e = i) (kr_keys (sc_keys s)) of
             None \<Rightarrow> Inl (No_such_key (sc_Name s) i)
           | Some at' \<Rightarrow>
               let next' = s\<lparr>sc_keys := sc_keys s\<lparr>kr_keys := to_front at' (kr_keys (sc_keys s))\<rparr>\<rparr> in
               (case scopeValid (\<lambda>m. m) next' of
                  Some f \<Rightarrow> Inl (In_scope (sc_Name s) f)
                | None \<Rightarrow>
                    (case activate_scopes (AList.delete (sc_Name s) pending) ss of
                       Inl f \<Rightarrow> Inl f
                     | Inr (scopes, pending) \<Rightarrow> Inr (next' # scopes, pending)))))"

text \<open>Which of several scopes that are not held is named in the error is Go's map order; here the first.\<close>

definition WithScopeActive :: "string keyring \<Rightarrow> (string \<times> string) list \<Rightarrow> keyring_fault + string keyring" where
  "WithScopeActive k active =
     (case activate_scopes active (kr_scopes k) of
        Inl f \<Rightarrow> Inl f
      | Inr (scopes, pending) \<Rightarrow>
          (case pending of
             (name, _) # _ \<Rightarrow> Inl (No_such_scope name)
           | [] \<Rightarrow> Inr (k\<lparr>kr_scopes := scopes\<rparr>)))"

section \<open>Merging\<close>

definition shareAnEntry :: "'k key_entry list \<Rightarrow> 'k key_entry list \<Rightarrow> bool" where
  "shareAnEntry a b \<longleftrightarrow> list_ex (\<lambda>x. list_ex (\<lambda>y. ke_ID x = ke_ID y) b) a"

fun merge_loop :: "(string \<Rightarrow> string key_entry option) \<Rightarrow> string key_entry list \<Rightarrow> string \<Rightarrow> string key_entry list \<Rightarrow> keyring_fault + string key_entry list" where
  "merge_loop held out what [] = Inr out"
| "merge_loop held out what (e # es) =
     (case held (ke_ID e) of
        None \<Rightarrow> merge_loop (held(ke_ID e \<mapsto> e)) (out @ [e]) what es
      | Some existing \<Rightarrow>
          if ke_key existing \<noteq> ke_key e then Inl (Two_values what (ke_ID e))
          else merge_loop held out what es)"

definition mergeEntries :: "string key_entry list \<Rightarrow> string key_entry list \<Rightarrow> string \<Rightarrow> keyring_fault + string key_entry list" where
  "mergeEntries live incoming what =
     merge_loop (foldl (\<lambda>m e. m(ke_ID e \<mapsto> e)) Map.empty live) live what incoming"

definition keysMerge :: "string key_lists \<Rightarrow> string key_lists \<Rightarrow> keyring_fault + string key_lists" where
  "keysMerge k other =
     (case mergeEntries (kr_nameKeys k) (kr_nameKeys other) ''name key'' of
        Inl f \<Rightarrow> Inl f
      | Inr names \<Rightarrow>
          (case mergeEntries (kr_keys k) (kr_keys other) ''key'' of
             Inl f \<Rightarrow> Inl f
           | Inr keks \<Rightarrow> Inr \<lparr>kr_nameKeys = names, kr_keys = keks\<rparr>))"

fun index_names :: "nat \<Rightarrow> (string \<Rightarrow> nat option) \<Rightarrow> 'k scope list \<Rightarrow> string \<Rightarrow> nat option" where
  "index_names i m [] = m"
| "index_names i m (s # ss) = index_names (Suc i) (m(sc_Name s \<mapsto> i)) ss"

fun merge_scopes :: "(string \<Rightarrow> nat option) \<Rightarrow> string scope list \<Rightarrow> string scope list \<Rightarrow> keyring_fault + string scope list" where
  "merge_scopes at' out [] = Inr out"
| "merge_scopes at' out (s # ss) =
     (case at' (sc_Name s) of
        None \<Rightarrow>
          (case find (\<lambda>existing. scopesOverlap (sc_Prefix existing) (sc_Prefix s)) out of
             Some existing \<Rightarrow> Inl (overlap_fault s existing)
           | None \<Rightarrow> merge_scopes (at'(sc_Name s \<mapsto> length out)) (out @ [s]) ss)
      | Some i \<Rightarrow>
          if sc_Prefix (out ! i) \<noteq> sc_Prefix s
          then Inl (Two_prefixes (sc_Name s) (sc_Prefix (out ! i)) (sc_Prefix s))
          else if \<not> shareAnEntry (kr_nameKeys (sc_keys (out ! i))) (kr_nameKeys (sc_keys s))
          then Inl (Minted_twice (sc_Name s))
          else
            (case keysMerge (sc_keys (out ! i)) (sc_keys s) of
               Inl f \<Rightarrow> Inl (In_scope (sc_Name s) f)
             | Inr merged \<Rightarrow> merge_scopes at' (out[i := (out ! i)\<lparr>sc_keys := merged\<rparr>]) ss))"

definition mergeScopes :: "string scope list \<Rightarrow> string scope list \<Rightarrow> keyring_fault + string scope list" where
  "mergeScopes live incoming = merge_scopes (index_names 0 Map.empty live) live incoming"

definition Merge :: "string keyring \<Rightarrow> string keyring \<Rightarrow> keyring_fault + string keyring" where
  "Merge k other =
     (case mergeEntries (kr_nameKeys k) (kr_nameKeys other) ''name key'' of
        Inl f \<Rightarrow> Inl f
      | Inr names \<Rightarrow>
          (case mergeEntries (kr_keys k) (kr_keys other) ''key'' of
             Inl f \<Rightarrow> Inl f
           | Inr keks \<Rightarrow>
               (case mergeScopes (kr_scopes k) (kr_scopes other) of
                  Inl f \<Rightarrow> Inl f
                | Inr scopes \<Rightarrow> Inr \<lparr>kr_nameKeys = names, kr_keys = keks, kr_scopes = scopes\<rparr>)))"


section \<open>The file\<close>

definition keyringVersion :: int where "keyringVersion = 1"
definition keyringVersionScopes :: int where "keyringVersionScopes = 2"

record key_entry_file =
  kef_ID :: string
  kef_Key :: string
  kef_Created :: gotime

record scope_file =
  scf_Name :: string
  scf_Prefix :: string
  scf_Created :: gotime
  scf_Derivation :: string
  scf_NameKeys :: "key_entry_file list"
  scf_Keys :: "key_entry_file list"

record keyring_file =
  krf_Version :: int
  krf_NameKeys :: "key_entry_file list"
  krf_Keys :: "key_entry_file list"
  krf_Scopes :: "scope_file list"

definition marshalEntries :: "string key_entry list \<Rightarrow> key_entry_file list" where
  "marshalEntries entries =
     map (\<lambda>e. \<lparr>kef_ID = hex_encode (ke_ID e), kef_Key = b64_encode (ke_key e), kef_Created = ke_Created e\<rparr>) entries"

definition marshalScopes :: "string scope list \<Rightarrow> scope_file list" where
  "marshalScopes scopes =
     map (\<lambda>s. \<lparr>scf_Name = sc_Name s, scf_Prefix = sc_Prefix s, scf_Created = sc_Created s, scf_Derivation = sc_Derivation s,
        scf_NameKeys = marshalEntries (kr_nameKeys (sc_keys s)), scf_Keys = marshalEntries (kr_keys (sc_keys s))\<rparr>) scopes"

definition keyring_file_of :: "string keyring \<Rightarrow> keyring_file" where
  "keyring_file_of k =
     \<lparr>krf_Version = (if kr_scopes k \<noteq> [] then keyringVersionScopes else keyringVersion),
      krf_NameKeys = marshalEntries (kr_nameKeys k), krf_Keys = marshalEntries (kr_keys k),
      krf_Scopes = marshalScopes (kr_scopes k)\<rparr>"

definition MarshalKeyring :: "(keyring_file \<Rightarrow> string option) \<Rightarrow> string keyring \<Rightarrow> keyring_fault + string" where
  "MarshalKeyring yaml k =
     (case Valid (\<lambda>m. m) k of
        Some f \<Rightarrow> Inl f
      | None \<Rightarrow>
          (case yaml (keyring_file_of k) of
             None \<Rightarrow> Inl Yaml_encode
           | Some out \<Rightarrow> Inr out))"

fun parse_entries :: "string \<Rightarrow> nat \<Rightarrow> key_entry_file list \<Rightarrow> keyring_fault + string key_entry list" where
  "parse_entries what i [] = Inr []"
| "parse_entries what i (e # es) =
     (case ParseKeyID (kef_ID e) of
        Inl f \<Rightarrow> Inl (Entry_at what (Suc i) f)
      | Inr k \<Rightarrow>
          (case b64_decode (kef_Key e) of
             None \<Rightarrow> Inl (Not_base64 what (kef_ID e))
           | Some material \<Rightarrow>
               if length material \<noteq> KeyLen then Inl (Entry_length what (kef_ID e) (length material))
               else
                 (case parse_entries what (Suc i) es of
                    Inl f \<Rightarrow> Inl f
                  | Inr rest \<Rightarrow> Inr (\<lparr>ke_ID = k, ke_Created = kef_Created e, ke_key = material\<rparr> # rest))))"

definition parseEntries :: "key_entry_file list \<Rightarrow> string \<Rightarrow> keyring_fault + string key_entry list" where
  "parseEntries entries what = parse_entries what 0 entries"

definition parse_scope :: "nat \<Rightarrow> scope_file \<Rightarrow> keyring_fault + string scope" where
  "parse_scope i s =
     (case ValidateScopeName (scf_Name s) of
        Some f \<Rightarrow> Inl (Scope_at (Suc i) f)
      | None \<Rightarrow>
          (case ValidateScopePrefix (scf_Prefix s) of
             Some f \<Rightarrow> Inl (In_scope (scf_Name s) f)
           | None \<Rightarrow>
               (case parseEntries (scf_NameKeys s) ''name key'' of
                  Inl f \<Rightarrow> Inl (In_scope (scf_Name s) f)
                | Inr nameKeys \<Rightarrow>
                    (case parseEntries (scf_Keys s) ''key'' of
                       Inl f \<Rightarrow> Inl (In_scope (scf_Name s) f)
                     | Inr ks \<Rightarrow>
                         let scope = \<lparr>sc_Name = scf_Name s, sc_Prefix = scf_Prefix s, sc_Created = scf_Created s,
                           sc_Derivation = scf_Derivation s, sc_keys = \<lparr>kr_nameKeys = nameKeys, kr_keys = ks\<rparr>\<rparr> in
                         (case scopeValid (\<lambda>m. m) scope of
                            Some f \<Rightarrow> Inl (In_scope (scf_Name s) f)
                          | None \<Rightarrow> Inr scope)))))"

fun parse_scopes :: "nat \<Rightarrow> scope_file list \<Rightarrow> keyring_fault + string scope list" where
  "parse_scopes i [] = Inr []"
| "parse_scopes i (s # ss) =
     (case parse_scope i s of
        Inl f \<Rightarrow> Inl f
      | Inr scope \<Rightarrow> (case parse_scopes (Suc i) ss of Inl f \<Rightarrow> Inl f | Inr rest \<Rightarrow> Inr (scope # rest)))"

text \<open>\<open>message\<close> is what \<open>yaml.FormatError\<close> renders without its source window.\<close>

definition yamlErrorMessage :: "string \<Rightarrow> string \<Rightarrow> string" where
  "yamlErrorMessage data message =
     (if list_ex (\<lambda>line. 8 \<le> length (trim_space line) \<and> contains message (trim_space line)) (split_on (char_of (10::nat)) data)
      then ''keys.yaml is not valid YAML (the parser's own message is withheld: it quotes the file, and this file holds key material)''
      else message)"

definition ParseKeyring :: "(string \<Rightarrow> string + keyring_file) \<Rightarrow> string \<Rightarrow> keyring_fault + string keyring" where
  "ParseKeyring unyaml data =
     (case unyaml data of
        Inl message \<Rightarrow> Inl (Yaml_invalid (yamlErrorMessage data message))
      | Inr file \<Rightarrow>
          if krf_Version file \<noteq> keyringVersion \<and> krf_Version file \<noteq> keyringVersionScopes
          then Inl (Unsupported_version (krf_Version file))
          else if krf_Version file = keyringVersion \<and> krf_Scopes file \<noteq> [] then Inl Scopes_in_version_one
          else case parseEntries (krf_NameKeys file) ''name key'' of
            Inl f \<Rightarrow> Inl f
          | Inr nameKeys \<Rightarrow>
              (case parseEntries (krf_Keys file) ''key'' of
                 Inl f \<Rightarrow> Inl f
               | Inr ks \<Rightarrow>
                   (case parse_scopes 0 (krf_Scopes file) of
                      Inl f \<Rightarrow> Inl f
                    | Inr scopes \<Rightarrow>
                        let k = \<lparr>kr_nameKeys = nameKeys, kr_keys = ks, kr_scopes = scopes\<rparr> in
                        (case Valid (\<lambda>m. m) k of Some f \<Rightarrow> Inl f | None \<Rightarrow> Inr k))))"

section \<open>The bundle\<close>

datatype bundle_fault =
    No_instance_named
  | Bundle_scope keyring_fault
  | Scope_twice string
  | Bundle_overlap string string string string
  | Wiped
  | Bundle_encode
  | Bundle_yaml
  | Bundle_version int

record 'k unseal_bundle =
  bu_instance :: string
  bu_generation :: "64 word"
  bu_scopes :: "'k scope list"
  bu_zeroed :: bool

definition bundleVersion :: int where "bundleVersion = 1"

fun bundle_conflict :: "'k scope \<Rightarrow> 'k scope list \<Rightarrow> bundle_fault option" where
  "bundle_conflict s [] = None"
| "bundle_conflict s (existing # rest) =
     (if sc_Name existing = sc_Name s then Some (Scope_twice (sc_Name s))
      else if scopesOverlap (sc_Prefix existing) (sc_Prefix s)
      then Some (Bundle_overlap (sc_Name s) (sc_Prefix s) (sc_Name existing) (sc_Prefix existing))
      else bundle_conflict s rest)"

fun bundle_scopes :: "('k \<Rightarrow> string) \<Rightarrow> 'k scope list \<Rightarrow> 'k scope list \<Rightarrow> bundle_fault + 'k scope list" where
  "bundle_scopes rd out [] = Inr out"
| "bundle_scopes rd out (s # ss) =
     (case scopeValid rd s of
        Some f \<Rightarrow> Inl (Bundle_scope f)
      | None \<Rightarrow>
          (case bundle_conflict s out of
             Some f \<Rightarrow> Inl f
           | None \<Rightarrow> bundle_scopes rd (out @ [s]) ss))"

definition NewBundle :: "('k \<Rightarrow> string) \<Rightarrow> string \<Rightarrow> 64 word \<Rightarrow> 'k scope list \<Rightarrow> bundle_fault + 'k unseal_bundle" where
  "NewBundle rd instance' generation scopes =
     (if trim_space instance' = '''' then Inl No_instance_named
      else case bundle_scopes rd [] scopes of
        Inl f \<Rightarrow> Inl f
      | Inr out \<Rightarrow> Inr \<lparr>bu_instance = instance', bu_generation = generation, bu_scopes = out, bu_zeroed = False\<rparr>)"

record bundle_file =
  bf_Version :: int
  bf_Instance :: string
  bf_Generation :: "64 word"
  bf_Scopes :: "scope_file list"

definition MarshalBundle :: "(bundle_file \<Rightarrow> string option) \<Rightarrow> string unseal_bundle \<Rightarrow> bundle_fault + string" where
  "MarshalBundle yaml b =
     (if bu_zeroed b then Inl Wiped
      else case yaml \<lparr>bf_Version = bundleVersion, bf_Instance = bu_instance b, bf_Generation = bu_generation b,
              bf_Scopes = marshalScopes (bu_scopes b)\<rparr> of
        None \<Rightarrow> Inl Bundle_encode
      | Some out \<Rightarrow> Inr out)"

definition ParseBundle :: "(string \<Rightarrow> bundle_file option) \<Rightarrow> string \<Rightarrow> bundle_fault + string unseal_bundle" where
  "ParseBundle unyaml data =
     (case unyaml data of
        None \<Rightarrow> Inl Bundle_yaml
      | Some file \<Rightarrow>
          if bf_Version file \<noteq> bundleVersion then Inl (Bundle_version (bf_Version file))
          else case parse_scopes 0 (bf_Scopes file) of
            Inl f \<Rightarrow> Inl (Bundle_scope f)
          | Inr scopes \<Rightarrow> NewBundle (\<lambda>m. m) (bf_Instance file) (bf_Generation file) scopes)"


section \<open>What the checks establish\<close>

definition entries_ok :: "('k \<Rightarrow> string) \<Rightarrow> 'k key_entry list \<Rightarrow> bool" where
  "entries_ok rd es \<longleftrightarrow> (\<forall>e\<in>set es. length (rd (ke_key e)) = KeyLen) \<and> distinct (map ke_ID es)"

lemma validEntries_None:
  "validEntries rd what seen es = None \<longleftrightarrow> entries_ok rd es \<and> ke_ID ` set es \<inter> set seen = {}"
  by (induction es arbitrary: seen) (auto simp: entries_ok_def)

lemma first_fault_None: "(case x of None \<Rightarrow> y | Some f \<Rightarrow> Some f) = None \<longleftrightarrow> x = None \<and> y = None"
  by (cases x) simp_all

lemma keysValid_None:
  "keysValid rd k = None \<longleftrightarrow> kr_nameKeys k \<noteq> [] \<and> kr_keys k \<noteq> [] \<and> entries_ok rd (kr_nameKeys k) \<and> entries_ok rd (kr_keys k)"
  by (auto simp: keysValid_def validEntries_None first_fault_None)

lemma scopeValid_None:
  "scopeValid rd s = None \<longleftrightarrow> ValidateScopeName (sc_Name s) = None \<and> ValidateScopePrefix (sc_Prefix s) = None \<and> keysValid rd (sc_keys s) = None"
  by (simp add: scopeValid_def first_fault_None)

definition no_overlap :: "'k scope \<Rightarrow> 'k scope \<Rightarrow> bool" where
  "no_overlap a b \<longleftrightarrow> \<not> scopesOverlap (sc_Prefix a) (sc_Prefix b)"

lemma no_overlap_sym: "no_overlap a b \<longleftrightarrow> no_overlap b a"
  by (auto simp: no_overlap_def scopesOverlap_def)

definition scopes_ok :: "('k \<Rightarrow> string) \<Rightarrow> 'k scope list \<Rightarrow> bool" where
  "scopes_ok rd ss \<longleftrightarrow> (\<forall>s\<in>set ss. scopeValid rd s = None) \<and> distinct (map sc_Name ss) \<and> sorted_wrt no_overlap ss"

lemma scopes_fault_None:
  "scopes_fault rd seen ss = None \<longleftrightarrow> (\<forall>s\<in>set ss. scopeValid rd s = None) \<and> distinct (map sc_Name ss) \<and> sc_Name ` set ss \<inter> set seen = {}"
  by (induction ss arbitrary: seen) (auto split: option.splits)

lemma overlaps_fault_None: "overlaps_fault ss = None \<longleftrightarrow> sorted_wrt no_overlap ss"
proof (induction ss)
  case (Cons a ss)
  have "find (\<lambda>b. scopesOverlap (sc_Prefix a) (sc_Prefix b)) ss = None \<longleftrightarrow> (\<forall>b\<in>set ss. no_overlap a b)"
    by (auto simp: no_overlap_def find_None_iff)
  then show ?case using Cons by (auto split: option.splits)
qed simp

lemma Valid_None: "Valid rd k = None \<longleftrightarrow> keysValid rd k = None \<and> scopes_ok rd (kr_scopes k)"
  by (auto simp: Valid_def scopes_fault_None overlaps_fault_None scopes_ok_def first_fault_None)

lemma no_overlap_nth: "scopes_ok rd ss \<Longrightarrow> i < length ss \<Longrightarrow> j < length ss \<Longrightarrow> i \<noteq> j \<Longrightarrow> no_overlap (ss ! i) (ss ! j)"
  unfolding scopes_ok_def by (metis linorder_neqE_nat no_overlap_sym sorted_wrt_nth_less)

lemma scopes_ok_append1:
  "scopes_ok rd (ss @ [s]) \<longleftrightarrow> scopes_ok rd ss \<and> scopeValid rd s = None \<and> sc_Name s \<notin> sc_Name ` set ss \<and> (\<forall>x\<in>set ss. no_overlap x s)"
  by (auto simp: scopes_ok_def sorted_wrt_append)

section \<open>One owner per key\<close>

lemma Owns_overlap: "Owns a key \<Longrightarrow> Owns b key \<Longrightarrow> scopesOverlap (sc_Prefix a) (sc_Prefix b)"
  unfolding Owns_def scopesOverlap_def using has_prefix_chain by blast

text \<open>
  A key has at most one scope. In a valid keyring the scope found for a key is the one
  whose prefix contains it, whatever the order of the scopes, and no key is found under
  two; a key in none belongs to the master keys.
\<close>

theorem one_owner_per_key:
  assumes "Valid rd k = None"
  shows "ScopeOwning (kr_scopes k) key = Some s \<longleftrightarrow> s \<in> set (kr_scopes k) \<and> Owns s key"
proof
  assume "ScopeOwning (kr_scopes k) key = Some s"
  then show "s \<in> set (kr_scopes k) \<and> Owns s key" by (auto simp: ScopeOwning_def dest: find_in_set)
next
  assume s: "s \<in> set (kr_scopes k) \<and> Owns s key"
  then obtain t where t: "ScopeOwning (kr_scopes k) key = Some t" unfolding ScopeOwning_def
    by (cases "find (\<lambda>s. Owns s key) (kr_scopes k)") (auto simp: find_None_iff)
  then have "t \<in> set (kr_scopes k)" "Owns t key" by (auto simp: ScopeOwning_def dest: find_in_set)
  moreover obtain i j where "i < length (kr_scopes k)" "kr_scopes k ! i = s" "j < length (kr_scopes k)" "kr_scopes k ! j = t"
    using s calculation by (meson in_set_conv_nth)
  ultimately have "s = t" using no_overlap_nth[of rd "kr_scopes k" i j] Owns_overlap[of s key t] s assms
    by (auto simp: Valid_None no_overlap_def)
  then show "ScopeOwning (kr_scopes k) key = Some s" using t by simp
qed

text \<open>A keyring with two applications' scopes, for the concrete instances.\<close>

definition sample_keys :: "nat \<Rightarrow> string key_lists" where
  "sample_keys n = \<lparr>kr_nameKeys = [\<lparr>ke_ID = replicate 8 (byte n), ke_Created = 0, ke_key = replicate 32 (byte n)\<rparr>],
     kr_keys = [\<lparr>ke_ID = replicate 8 (byte (n + 1)), ke_Created = 0, ke_key = replicate 32 (byte (n + 1))\<rparr>]\<rparr>"

definition sample_scope :: "string \<Rightarrow> string \<Rightarrow> nat \<Rightarrow> string scope" where
  "sample_scope name prefix n = \<lparr>sc_Name = name, sc_Prefix = prefix, sc_Created = 0, sc_Derivation = '''', sc_keys = sample_keys n\<rparr>"

definition sample_keyring :: "string keyring" where
  "sample_keyring = \<lparr>kr_nameKeys = kr_nameKeys (sample_keys 1), kr_keys = kr_keys (sample_keys 1),
     kr_scopes = [sample_scope ''app-main-shop'' ''app/main/shop/'' 10, sample_scope ''app-main-mail'' ''app/main/mail/'' 20]\<rparr>"

lemma sample_keyring_valid: "Valid (\<lambda>m. m) sample_keyring = None"
  by code_simp

theorem one_owner_per_key_witness:
  "ScopeOwning (kr_scopes sample_keyring) ''app/main/mail/inbox'' = Some (sample_scope ''app-main-mail'' ''app/main/mail/'' 20)"
  using one_owner_per_key[OF sample_keyring_valid, of "''app/main/mail/inbox''" "sample_scope ''app-main-mail'' ''app/main/mail/'' 20"]
  by (simp add: sample_keyring_def sample_scope_def Owns_def has_prefix_def)

section \<open>Merging only adds\<close>

definition extends :: "'a list \<Rightarrow> 'a list \<Rightarrow> bool" where
  "extends xs ys \<longleftrightarrow> (\<exists>zs. ys = xs @ zs)"

definition holds :: "'k key_entry list \<Rightarrow> 'k key_entry \<Rightarrow> bool" where
  "holds es e \<longleftrightarrow> (\<exists>e'\<in>set es. ke_ID e' = ke_ID e \<and> ke_key e' = ke_key e)"

definition keys_extend :: "('k, 'y) key_lists_scheme \<Rightarrow> ('k, 'z) key_lists_scheme \<Rightarrow> bool" where
  "keys_extend k m \<longleftrightarrow> extends (kr_nameKeys k) (kr_nameKeys m) \<and> extends (kr_keys k) (kr_keys m)"

definition keys_held :: "('k, 'y) key_lists_scheme \<Rightarrow> ('k, 'z) key_lists_scheme \<Rightarrow> bool" where
  "keys_held other m \<longleftrightarrow> (\<forall>e\<in>set (kr_nameKeys other). holds (kr_nameKeys m) e) \<and> (\<forall>e\<in>set (kr_keys other). holds (kr_keys m) e)"

definition same_scope :: "'k scope \<Rightarrow> 'k scope \<Rightarrow> bool" where
  "same_scope s t \<longleftrightarrow> sc_Name s = sc_Name t \<and> sc_Prefix s = sc_Prefix t"

lemma extends_refl [simp]: "extends xs xs" by (simp add: extends_def)
lemma extends_trans: "extends xs ys \<Longrightarrow> extends ys zs \<Longrightarrow> extends xs zs" by (auto simp: extends_def)
lemma extends_set: "extends xs ys \<Longrightarrow> set xs \<subseteq> set ys" by (auto simp: extends_def)
lemma extends_append [simp]: "extends xs (xs @ ys)" by (simp add: extends_def)

lemma keys_extend_refl [simp]: "keys_extend k k" by (simp add: keys_extend_def)
lemma keys_extend_trans: "keys_extend a b \<Longrightarrow> keys_extend b c \<Longrightarrow> keys_extend a c"
  by (auto simp: keys_extend_def intro: extends_trans)
lemma keys_held_extend: "keys_held k m \<Longrightarrow> keys_extend m n \<Longrightarrow> keys_held k n"
  unfolding keys_held_def keys_extend_def holds_def by (meson extends_set subsetD)

lemma find_extends: "find P xs = Some x \<Longrightarrow> extends xs ys \<Longrightarrow> find P ys = Some x"
  by (auto simp: extends_def find_append)

lemma Active_extend:
  assumes "keys_extend k m"
  shows "kr_nameKeys k \<noteq> [] \<Longrightarrow> ActiveNameKey m = ActiveNameKey k" "kr_keys k \<noteq> [] \<Longrightarrow> ActiveKEK m = ActiveKEK k"
    "kek_lookup k i = Some key \<Longrightarrow> kek_lookup m i = Some key"
  using assms by (auto simp: keys_extend_def extends_def ActiveNameKey_def ActiveKEK_def kek_lookup_def find_append neq_Nil_conv split: option.splits)

lemma merge_loop_Inr:
  assumes "merge_loop held out what es = Inr m" "entries_ok (\<lambda>m. m) out" "\<forall>e\<in>set es. length (ke_key e) = KeyLen"
    and "\<And>i e. held i = Some e \<longleftrightarrow> e \<in> set out \<and> ke_ID e = i"
  shows "extends out m \<and> entries_ok (\<lambda>m. m) m \<and> (\<forall>e\<in>set es. holds m e)"
  using assms
proof (induction es arbitrary: held out)
  case Nil
  then show ?case by simp
next
  case (Cons e es)
  show ?case
  proof (cases "held (ke_ID e)")
    case None
    then have n: "ke_ID e \<notin> ke_ID ` set out" using Cons.prems(4) by (metis imageE option.distinct(1))
    then have "entries_ok (\<lambda>m. m) (out @ [e])" using Cons.prems(2,3) by (auto simp: entries_ok_def)
    moreover have "(held(ke_ID e \<mapsto> e)) i = Some x \<longleftrightarrow> x \<in> set (out @ [e]) \<and> ke_ID x = i" for i x
      using Cons.prems(4)[of i x] n by (auto simp: image_iff)
    moreover have "merge_loop (held(ke_ID e \<mapsto> e)) (out @ [e]) what es = Inr m" "\<forall>e\<in>set es. length (ke_key e) = KeyLen"
      using Cons.prems(1,3) None by simp_all
    ultimately have "extends (out @ [e]) m \<and> entries_ok (\<lambda>m. m) m \<and> (\<forall>e\<in>set es. holds m e)" by (intro Cons.IH)
    then show ?thesis by (auto simp: extends_def holds_def)
  next
    case (Some x)
    then have x: "x \<in> set out" "ke_ID x = ke_ID e" using Cons.prems(4) by blast+
    have IH: "ke_key x = ke_key e" "extends out m \<and> entries_ok (\<lambda>m. m) m \<and> (\<forall>e\<in>set es. holds m e)"
      using Cons.IH[OF _ Cons.prems(2) _ Cons.prems(4)] Cons.prems(1,3) Some by (auto split: if_splits)
    then show ?thesis using x extends_set[of out m] by (auto simp: holds_def)
  qed
qed

lemma held_map: "distinct (map ke_ID es) \<Longrightarrow> (foldl (\<lambda>m e. m(ke_ID e \<mapsto> e)) Map.empty es) i = Some e \<longleftrightarrow> e \<in> set es \<and> ke_ID e = i"
  by (induction es arbitrary: i e rule: rev_induct) (auto simp: image_iff)

lemma mergeEntries_Inr:
  "mergeEntries live incoming what = Inr m \<Longrightarrow> entries_ok (\<lambda>m. m) live \<Longrightarrow> \<forall>e\<in>set incoming. length (ke_key e) = KeyLen
    \<Longrightarrow> extends live m \<and> entries_ok (\<lambda>m. m) m \<and> (\<forall>e\<in>set incoming. holds m e)"
  unfolding mergeEntries_def by (rule merge_loop_Inr) (auto simp: held_map entries_ok_def)

lemma extends_nonempty: "extends xs ys \<Longrightarrow> xs \<noteq> [] \<Longrightarrow> ys \<noteq> []" by (auto simp: extends_def)

lemma keysMerge_Inr:
  assumes "keysMerge k other = Inr m" "keysValid (\<lambda>m. m) k = None" "keysValid (\<lambda>m. m) other = None"
  shows "keysValid (\<lambda>m. m) m = None \<and> keys_extend k m \<and> keys_held other m"
proof -
  obtain names keks where e: "mergeEntries (kr_nameKeys k) (kr_nameKeys other) ''name key'' = Inr names"
      "mergeEntries (kr_keys k) (kr_keys other) ''key'' = Inr keks" and m: "m = \<lparr>kr_nameKeys = names, kr_keys = keks\<rparr>"
    using assms(1) by (auto simp: keysMerge_def split: sum.splits)
  have o: "\<forall>e\<in>set (kr_nameKeys other). length (ke_key e) = KeyLen" "\<forall>e\<in>set (kr_keys other). length (ke_key e) = KeyLen"
      and k: "entries_ok (\<lambda>m. m) (kr_nameKeys k)" "entries_ok (\<lambda>m. m) (kr_keys k)" "kr_nameKeys k \<noteq> []" "kr_keys k \<noteq> []"
    using assms(2,3) unfolding keysValid_None by (simp_all add: entries_ok_def)
  note M = mergeEntries_Inr[OF e(1) k(1) o(1)] mergeEntries_Inr[OF e(2) k(2) o(2)]
  have "names \<noteq> []" "keks \<noteq> []" using M k(3,4) extends_nonempty by blast+
  then show ?thesis using M by (simp add: m keysValid_None keys_extend_def keys_held_def)
qed


definition names_indexed :: "(string \<Rightarrow> nat option) \<Rightarrow> 'k scope list \<Rightarrow> bool" where
  "names_indexed at' out \<longleftrightarrow> (\<forall>n i. at' n = Some i \<longleftrightarrow> i < length out \<and> sc_Name (out ! i) = n)"

lemma names_indexedD: "names_indexed at' out \<Longrightarrow> at' n = Some i \<longleftrightarrow> i < length out \<and> sc_Name (out ! i) = n"
  by (simp add: names_indexed_def)

lemma names_indexed_None:
  assumes "names_indexed at' out"
  shows "at' n = None \<longleftrightarrow> n \<notin> sc_Name ` set out"
proof (cases "at' n")
  case None
  then have "\<not> (i < length out \<and> sc_Name (out ! i) = n)" for i using names_indexedD[OF assms, of n i] by simp
  then have "n \<notin> sc_Name ` set out" by (metis image_iff in_set_conv_nth)
  then show ?thesis using None by simp
next
  case (Some i)
  then have "i < length out" "sc_Name (out ! i) = n" using names_indexedD[OF assms] by auto
  then show ?thesis using Some nth_mem[of i out] by (auto intro!: rev_image_eqI)
qed

lemma names_indexed_append:
  assumes "names_indexed at' out" "at' (sc_Name s) = None"
  shows "names_indexed (at'(sc_Name s \<mapsto> length out)) (out @ [s])"
  unfolding names_indexed_def
proof (intro allI)
  fix n i
  have "i < length out \<Longrightarrow> sc_Name (out ! i) \<noteq> sc_Name s" using assms names_indexed_None[OF assms(1)] by (metis image_eqI nth_mem)
  then show "(at'(sc_Name s \<mapsto> length out)) n = Some i \<longleftrightarrow> i < length (out @ [s]) \<and> sc_Name ((out @ [s]) ! i) = n"
    using names_indexedD[OF assms(1), of n i] by (auto simp: nth_append less_Suc_eq)
qed

lemma names_indexed_update:
  assumes "names_indexed at' out" "sc_Name x = sc_Name (out ! i)"
  shows "names_indexed at' (out[i := x])"
  unfolding names_indexed_def
proof (intro allI)
  fix n j
  have "j < length out \<Longrightarrow> sc_Name (out[i := x] ! j) = sc_Name (out ! j)" using assms(2) by (cases "i = j") simp_all
  then show "at' n = Some j \<longleftrightarrow> j < length (out[i := x]) \<and> sc_Name (out[i := x] ! j) = n"
    using names_indexedD[OF assms(1), of n j] by auto
qed

lemma index_names_snoc: "index_names k m (ss @ [s]) = (index_names k m ss)(sc_Name s \<mapsto> k + length ss)"
  by (induction ss arbitrary: k m) auto

lemma names_indexed_start: "distinct (map sc_Name ss) \<Longrightarrow> names_indexed (index_names 0 Map.empty ss) ss"
proof (induction ss rule: rev_induct)
  case Nil
  then show ?case by (simp add: names_indexed_def)
next
  case (snoc s ss)
  then have n: "names_indexed (index_names 0 Map.empty ss) ss" "sc_Name s \<notin> sc_Name ` set ss" by auto
  then have "index_names 0 Map.empty ss (sc_Name s) = None" using names_indexed_None by blast
  from names_indexed_append[OF n(1) this] show ?case by (simp only: index_names_snoc add_0)
qed

lemma scopes_ok_update:
  assumes "scopes_ok rd out" "same_scope x (out ! i)" "scopeValid rd x = None"
  shows "scopes_ok rd (out[i := x])"
proof (cases "i < length out")
  case True
  have n: "map sc_Name (out[i := x]) = map sc_Name out" "map sc_Prefix (out[i := x]) = map sc_Prefix out"
    using assms(2) True by (simp_all add: map_update same_scope_def list_update_same_conv)
  have "sorted_wrt no_overlap ys \<longleftrightarrow> sorted_wrt (\<lambda>a b. \<not> scopesOverlap a b) (map sc_Prefix ys)" for ys :: "'a scope list"
    by (simp add: no_overlap_def[abs_def] sorted_wrt_map)
  then show ?thesis using assms(1,3) n set_update_subset_insert[of out i x] by (auto simp: scopes_ok_def)
qed (use assms(1) in \<open>simp add: list_update_beyond\<close>)

definition scope_extends :: "'k scope \<Rightarrow> 'k scope \<Rightarrow> bool" where
  "scope_extends s t \<longleftrightarrow> same_scope s t \<and> sc_Created s = sc_Created t \<and> sc_Derivation s = sc_Derivation t \<and> keys_extend (sc_keys s) (sc_keys t)"

lemma scope_extends_refl [simp]: "scope_extends s s" by (simp add: scope_extends_def same_scope_def)
lemma scope_extends_trans: "scope_extends a b \<Longrightarrow> scope_extends b c \<Longrightarrow> scope_extends a c"
  unfolding scope_extends_def same_scope_def using keys_extend_trans by fastforce

definition scope_held :: "'k scope list \<Rightarrow> 'k scope \<Rightarrow> bool" where
  "scope_held m s \<longleftrightarrow> (\<exists>t\<in>set m. same_scope s t \<and> keys_held (sc_keys s) (sc_keys t))"

definition scopes_extend :: "'k scope list \<Rightarrow> 'k scope list \<Rightarrow> bool" where
  "scopes_extend ss ts \<longleftrightarrow> length ss \<le> length ts \<and> (\<forall>i<length ss. scope_extends (ss ! i) (ts ! i))"

lemma scopes_extend_trans: "scopes_extend a b \<Longrightarrow> scopes_extend b c \<Longrightarrow> scopes_extend a c"
  unfolding scopes_extend_def by (meson dual_order.trans less_le_trans scope_extends_trans)

lemma scopes_extend_update: "scope_extends (ss ! i) x \<Longrightarrow> scopes_extend ss (ss[i := x])"
  unfolding scopes_extend_def by (metis length_list_update nth_list_update nth_list_update_neq order_refl scope_extends_refl)

lemma scope_held_extend:
  assumes "scope_held m s" "scopes_extend m n"
  shows "scope_held n s"
proof -
  obtain i where "i < length m" "same_scope s (m ! i)" "keys_held (sc_keys s) (sc_keys (m ! i))"
    using assms(1) by (auto simp: scope_held_def in_set_conv_nth)
  moreover from this have "i < length n" "scope_extends (m ! i) (n ! i)" using assms(2) by (auto simp: scopes_extend_def)
  ultimately have "n ! i \<in> set n" "same_scope s (n ! i)" "keys_held (sc_keys s) (sc_keys (n ! i))"
    by (auto simp: scope_extends_def same_scope_def intro: keys_held_extend)
  then show ?thesis by (auto simp: scope_held_def)
qed

lemma keys_held_refl: "keys_held k k" by (auto simp: keys_held_def holds_def)

lemma merge_scopes_Inr:
  assumes "merge_scopes at' out ss = Inr m" "scopes_ok (\<lambda>m. m) out" "\<forall>s\<in>set ss. scopeValid (\<lambda>m. m) s = None" "names_indexed at' out"
  shows "scopes_ok (\<lambda>m. m) m \<and> scopes_extend out m \<and> (\<forall>s\<in>set ss. scope_held m s)"
  using assms
proof (induction ss arbitrary: at' out)
  case Nil
  then show ?case by (simp add: scopes_extend_def)
next
  case (Cons s ss)
  show ?case
  proof (cases "at' (sc_Name s)")
    case None
    have f: "find (\<lambda>existing. scopesOverlap (sc_Prefix existing) (sc_Prefix s)) out = None"
      and m: "merge_scopes (at'(sc_Name s \<mapsto> length out)) (out @ [s]) ss = Inr m"
      using Cons.prems(1) None by (auto split: option.splits)
    have "sc_Name s \<notin> sc_Name ` set out" using None names_indexed_None[OF Cons.prems(4)] by blast
    then have "scopes_ok (\<lambda>m. m) (out @ [s])" using Cons.prems(2,3) f
      by (auto simp: scopes_ok_append1 find_None_iff no_overlap_def)
    then have IH: "scopes_ok (\<lambda>m. m) m \<and> scopes_extend (out @ [s]) m \<and> (\<forall>s\<in>set ss. scope_held m s)"
      using Cons.prems(3) by (intro Cons.IH[OF m _ _ names_indexed_append[OF Cons.prems(4) None]]) simp_all
    have "scope_held (out @ [s]) s" by (auto simp: scope_held_def same_scope_def keys_held_refl)
    moreover have "scopes_extend out (out @ [s])" by (simp add: scopes_extend_def nth_append)
    ultimately show ?thesis using IH scope_held_extend scopes_extend_trans by auto
  next
    case (Some i)
    have i: "i < length out" "sc_Name (out ! i) = sc_Name s" using Some names_indexedD[OF Cons.prems(4)] by blast+
    obtain merged where k: "sc_Prefix (out ! i) = sc_Prefix s" "keysMerge (sc_keys (out ! i)) (sc_keys s) = Inr merged"
        and m: "merge_scopes at' (out[i := (out ! i)\<lparr>sc_keys := merged\<rparr>]) ss = Inr m"
      using Cons.prems(1) Some by (auto split: if_splits sum.splits)
    let ?x = "(out ! i)\<lparr>sc_keys := merged\<rparr>"
    have v: "scopeValid (\<lambda>m. m) (out ! i) = None" using Cons.prems(2) i by (simp add: scopes_ok_def)
    have K: "keysValid (\<lambda>m. m) merged = None \<and> keys_extend (sc_keys (out ! i)) merged \<and> keys_held (sc_keys s) merged"
      using keysMerge_Inr[OF k(2)] v Cons.prems(3) by (simp add: scopeValid_None)
    have "scopes_ok (\<lambda>m. m) (out[i := ?x])" using Cons.prems(2) v K
      by (intro scopes_ok_update) (simp_all add: same_scope_def scopeValid_None)
    then have IH: "scopes_ok (\<lambda>m. m) m \<and> scopes_extend (out[i := ?x]) m \<and> (\<forall>s\<in>set ss. scope_held m s)"
      using Cons.IH[OF m] Cons.prems(3) names_indexed_update[OF Cons.prems(4), of ?x i] by simp
    have "scope_held (out[i := ?x]) s" using i k(1) K set_update_memI[OF i(1), of ?x]
      by (auto simp: scope_held_def same_scope_def intro!: bexI[of _ ?x])
    moreover have "scopes_extend out (out[i := ?x])"
      using scopes_extend_update[of out i ?x] K by (simp add: scope_extends_def same_scope_def)
    ultimately show ?thesis using IH scope_held_extend scopes_extend_trans by auto
  qed
qed


text \<open>
  A merge only adds. Merging one valid keyring into another gives a valid keyring in
  which everything the first held is where it was: its lists are prefixes of the new
  ones, so the active keys stay active and every key-encryption key still resolves to the
  same material, and its scopes keep their place, prefix and keys. Everything the other
  keyring held, scope by scope, is held as well.
\<close>

theorem merge_only_adds:
  assumes "Valid (\<lambda>m. m) k = None" "Valid (\<lambda>m. m) other = None" "Merge k other = Inr m"
  shows "Valid (\<lambda>m. m) m = None \<and> keys_extend k m \<and> scopes_extend (kr_scopes k) (kr_scopes m)
    \<and> ActiveNameKey m = ActiveNameKey k \<and> ActiveKEK m = ActiveKEK k
    \<and> (\<forall>i key. kek_lookup k i = Some key \<longrightarrow> kek_lookup m i = Some key)
    \<and> keys_held other m \<and> (\<forall>s\<in>set (kr_scopes other). scope_held (kr_scopes m) s)"
proof -
  obtain names keks scopes where e: "mergeEntries (kr_nameKeys k) (kr_nameKeys other) ''name key'' = Inr names"
      "mergeEntries (kr_keys k) (kr_keys other) ''key'' = Inr keks" "mergeScopes (kr_scopes k) (kr_scopes other) = Inr scopes"
      and m: "m = \<lparr>kr_nameKeys = names, kr_keys = keks, kr_scopes = scopes\<rparr>"
    using assms(3) by (auto simp: Merge_def split: sum.splits)
  define kl ol where "kl = \<lparr>kr_nameKeys = kr_nameKeys k, kr_keys = kr_keys k\<rparr>" and "ol = \<lparr>kr_nameKeys = kr_nameKeys other, kr_keys = kr_keys other\<rparr>"
  have "keysMerge kl ol = Inr \<lparr>kr_nameKeys = names, kr_keys = keks\<rparr>" using e by (simp add: keysMerge_def kl_def ol_def)
  moreover have "keysValid (\<lambda>m. m) kl = None" "keysValid (\<lambda>m. m) ol = None"
    using assms(1,2) by (simp_all add: Valid_None keysValid_None kl_def ol_def)
  ultimately have K: "keysValid (\<lambda>m. m) m = None" "keys_extend k m" "keys_held other m"
    using keysMerge_Inr[of kl ol "\<lparr>kr_nameKeys = names, kr_keys = keks\<rparr>"]
    by (simp_all add: m keysValid_None keys_extend_def keys_held_def kl_def ol_def)
  have "scopes_ok (\<lambda>m. m) scopes \<and> scopes_extend (kr_scopes k) scopes \<and> (\<forall>s\<in>set (kr_scopes other). scope_held scopes s)"
    using assms(1,2) names_indexed_start[of "kr_scopes k"]
    by (intro merge_scopes_Inr[OF e(3)[unfolded mergeScopes_def]]) (simp_all add: Valid_None scopes_ok_def)
  then show ?thesis using K Active_extend[OF K(2)] assms(1) by (simp add: m Valid_None keysValid_None)
qed

theorem merge_only_adds_witness:
  "\<exists>m. Merge \<lparr>kr_nameKeys = [\<lparr>ke_ID = ''name0001'', ke_Created = 0, ke_key = replicate 32 (byte 1)\<rparr>],
          kr_keys = [\<lparr>ke_ID = ''kek-0001'', ke_Created = 0, ke_key = replicate 32 (byte 2)\<rparr>], kr_scopes = []\<rparr>
        \<lparr>kr_nameKeys = [\<lparr>ke_ID = ''name0001'', ke_Created = 5, ke_key = replicate 32 (byte 1)\<rparr>],
          kr_keys = [\<lparr>ke_ID = ''kek-0002'', ke_Created = 5, ke_key = replicate 32 (byte 3)\<rparr>], kr_scopes = []\<rparr> = Inr m
     \<and> Valid (\<lambda>m. m) m = None \<and> kek_lookup m ''kek-0001'' = Some (replicate 32 (byte 2))"
  (is "\<exists>m. Merge ?k ?o = Inr m \<and> _")
proof -
  obtain m where m: "Merge ?k ?o = Inr m"
    by (simp add: Merge_def mergeEntries_def mergeScopes_def)
  have "Valid (\<lambda>m. m) ?k = None" "Valid (\<lambda>m. m) ?o = None" by (simp_all add: Valid_None keysValid_None entries_ok_def scopes_ok_def KeyLen_def)
  from merge_only_adds[OF this m] m show ?thesis by (intro exI[of _ m]) (simp add: kek_lookup_def)
qed


section \<open>The file comes back\<close>

definition ids_ok :: "'k key_entry list \<Rightarrow> bool" where
  "ids_ok es \<longleftrightarrow> (\<forall>e\<in>set es. length (ke_ID e) = KeyIDLen)"

definition keyring_ids_ok :: "'k keyring \<Rightarrow> bool" where
  "keyring_ids_ok k \<longleftrightarrow> ids_ok (kr_nameKeys k) \<and> ids_ok (kr_keys k)
     \<and> (\<forall>s\<in>set (kr_scopes k). ids_ok (kr_nameKeys (sc_keys s)) \<and> ids_ok (kr_keys (sc_keys s)))"

lemma parse_entries_marshal:
  "entries_ok (\<lambda>m. m) es \<Longrightarrow> ids_ok es \<Longrightarrow> parse_entries what i (marshalEntries es) = Inr es"
  by (induction es arbitrary: i)
    (auto simp: marshalEntries_def entries_ok_def ids_ok_def ParseKeyID_def hex_decode_encode b64_decode_encode)

lemma parse_scopes_marshal:
  assumes "\<forall>s\<in>set ss. scopeValid (\<lambda>m. m) s = None \<and> ids_ok (kr_nameKeys (sc_keys s)) \<and> ids_ok (kr_keys (sc_keys s))"
  shows "parse_scopes i (marshalScopes ss) = Inr ss"
  using assms
proof (induction ss arbitrary: i)
  case Nil
  then show ?case by (simp add: marshalScopes_def)
next
  case (Cons s ss)
  then have v: "scopeValid (\<lambda>m. m) s = None" and p: "parseEntries (marshalEntries (kr_nameKeys (sc_keys s))) w = Inr (kr_nameKeys (sc_keys s))"
      "parseEntries (marshalEntries (kr_keys (sc_keys s))) w = Inr (kr_keys (sc_keys s))" for w
    by (simp_all add: scopeValid_None keysValid_None parseEntries_def parse_entries_marshal)
  have eta: "\<lparr>sc_Name = sc_Name s, sc_Prefix = sc_Prefix s, sc_Created = sc_Created s, sc_Derivation = sc_Derivation s,
      sc_keys = \<lparr>kr_nameKeys = kr_nameKeys (sc_keys s), kr_keys = kr_keys (sc_keys s)\<rparr>\<rparr> = s"
    by (cases s; cases "sc_keys s") simp
  have "parse_scope i \<lparr>scf_Name = sc_Name s, scf_Prefix = sc_Prefix s, scf_Created = sc_Created s, scf_Derivation = sc_Derivation s,
      scf_NameKeys = marshalEntries (kr_nameKeys (sc_keys s)), scf_Keys = marshalEntries (kr_keys (sc_keys s))\<rparr> = Inr s"
    using p v conjunct1[OF v[unfolded scopeValid_None]] conjunct1[OF conjunct2[OF v[unfolded scopeValid_None]]]
    by (simp add: parse_scope_def Let_def eta)
  then show ?case using Cons.IH[of "Suc i"] Cons.prems by (simp add: marshalScopes_def)
qed

lemma parse_entries_ids: "parse_entries what i fs = Inr es \<Longrightarrow> ids_ok es"
proof (induction fs arbitrary: i es)
  case (Cons f fs)
  then show ?case by (fastforce simp: ids_ok_def ParseKeyID_def split: sum.splits option.splits if_splits)
qed (simp add: ids_ok_def)

lemma parse_scopes_ids:
  "parse_scopes i fs = Inr ss \<Longrightarrow> \<forall>s\<in>set ss. ids_ok (kr_nameKeys (sc_keys s)) \<and> ids_ok (kr_keys (sc_keys s))"
proof (induction fs arbitrary: i ss)
  case (Cons f fs)
  then obtain t ts where t: "parse_scope i f = Inr t" "parse_scopes (Suc i) fs = Inr ts" "ss = t # ts" by (auto split: sum.splits)
  then obtain a b where "sc_keys t = \<lparr>kr_nameKeys = a, kr_keys = b\<rparr>" "parse_entries ''name key'' 0 (scf_NameKeys f) = Inr a"
      "parse_entries ''key'' 0 (scf_Keys f) = Inr b"
    by (auto simp: parse_scope_def parseEntries_def Let_def split: sum.splits option.splits)
  then show ?case using Cons.IH[OF t(2)] t(3) parse_entries_ids by auto
qed simp

text \<open>
  The keyring file is never half right. Whatever is parsed is a valid keyring with
  identifiers of eight bytes, and every such keyring, written with the version its scopes
  call for, is read back as itself: the most dangerous file in the system loses nothing
  and gains nothing on the way.
\<close>

theorem keyring_file_round_trip:
  assumes "yaml (keyring_file_of k) = Some doc" "unyaml doc = Inr (keyring_file_of k)"
  shows "((\<exists>data. ParseKeyring unyaml data = Inr k) \<longleftrightarrow> Valid (\<lambda>m. m) k = None \<and> keyring_ids_ok k)
      \<and> (MarshalKeyring yaml k = Inr doc \<longleftrightarrow> Valid (\<lambda>m. m) k = None)
      \<and> (keyring_ids_ok k \<longrightarrow> Valid (\<lambda>m. m) k = None \<longrightarrow> ParseKeyring unyaml doc = Inr k)"
proof -
  have "ParseKeyring unyaml doc = Inr k" if k: "Valid (\<lambda>m. m) k = None" "keyring_ids_ok k"
  proof -
    have e: "parseEntries (marshalEntries (kr_nameKeys k)) w = Inr (kr_nameKeys k)" "parseEntries (marshalEntries (kr_keys k)) w = Inr (kr_keys k)" for w
      using k by (simp_all add: Valid_None keysValid_None keyring_ids_ok_def parseEntries_def parse_entries_marshal)
    have s: "parse_scopes 0 (marshalScopes (kr_scopes k)) = Inr (kr_scopes k)"
      using k by (intro parse_scopes_marshal) (simp add: Valid_None scopes_ok_def keyring_ids_ok_def)
    define fs where "fs = marshalScopes (kr_scopes k)"
    have f: "fs \<noteq> [] \<longleftrightarrow> kr_scopes k \<noteq> []" "parse_scopes 0 fs = Inr (kr_scopes k)" using s by (auto simp: marshalScopes_def fs_def)
    have eta: "ss = kr_scopes k \<Longrightarrow> \<lparr>kr_nameKeys = kr_nameKeys k, kr_keys = kr_keys k, kr_scopes = ss\<rparr> = k" for ss by (cases k) simp
    then show ?thesis
      using k(1) f unfolding ParseKeyring_def assms(2) keyring_file_of_def fs_def[symmetric] by (auto simp: Let_def e keyringVersion_def keyringVersionScopes_def eta)
  qed
  moreover have "Valid (\<lambda>m. m) k = None \<and> keyring_ids_ok k" if k: "ParseKeyring unyaml data = Inr k" for data
  proof -
    obtain f where f: "unyaml data = Inr f" using k by (auto simp: ParseKeyring_def split: sum.splits)
    then obtain a b ss where "parse_entries ''name key'' 0 (krf_NameKeys f) = Inr a" "parse_entries ''key'' 0 (krf_Keys f) = Inr b"
        "parse_scopes 0 (krf_Scopes f) = Inr ss" "k = \<lparr>kr_nameKeys = a, kr_keys = b, kr_scopes = ss\<rparr>" "Valid (\<lambda>m. m) k = None"
      using k by (auto simp: ParseKeyring_def parseEntries_def Let_def split: sum.splits if_splits option.splits)
    then show ?thesis using parse_entries_ids parse_scopes_ids by (auto simp: keyring_ids_ok_def)
  qed
  moreover have "MarshalKeyring yaml k = Inr doc \<longleftrightarrow> Valid (\<lambda>m. m) k = None" by (simp add: MarshalKeyring_def assms(1) split: option.splits)
  ultimately show ?thesis by blast
qed


theorem keyring_file_round_trip_witness:
  "MarshalKeyring (\<lambda>f. Some ''doc'') \<lparr>kr_nameKeys = [\<lparr>ke_ID = ''name0001'', ke_Created = 0, ke_key = replicate 32 (byte 1)\<rparr>],
          kr_keys = [\<lparr>ke_ID = ''kek-0001'', ke_Created = 0, ke_key = replicate 32 (byte 2)\<rparr>], kr_scopes = []\<rparr> = Inr ''doc''"
  (is "MarshalKeyring _ ?k = _")
proof -
  have "Valid (\<lambda>m. m) ?k = None" by (simp add: Valid_None keysValid_None entries_ok_def scopes_ok_def KeyLen_def)
  then show ?thesis using keyring_file_round_trip[of "\<lambda>f. Some ''doc''" ?k "''doc''" "\<lambda>d. Inr (keyring_file_of ?k)"] by simp
qed

section \<open>Rotation\<close>

lemma to_front_Suc0 [simp]: "to_front (Suc 0) (a # b # xs) = b # a # xs" by (simp add: to_front_def)

lemma NewKey_Inr: "NewKey now rnd = Inr (e, rnd') \<Longrightarrow> length (ke_key e) = KeyLen \<and> length (ke_ID e) = KeyIDLen \<and> ke_Created e = now"
  by (auto simp: NewKey_def read_full_def split: option.splits if_splits)

definition rotated_scope :: "string scope \<Rightarrow> scope_rotation \<Rightarrow> string scope \<Rightarrow> bool" where
  "rotated_scope s r t \<longleftrightarrow> (\<exists>e. length (ke_key e) = KeyLen \<and> t = s\<lparr>sc_keys := AddKEK (sc_keys s) e\<rparr> \<and> scopeValid (\<lambda>m. m) t = None
     \<and> (\<exists>old rest. kr_keys (sc_keys s) = old # rest \<and> r = \<lparr>rot_Scope = sc_Name s, rot_Previous = ke_ID old, rot_Active = ke_ID e\<rparr>))"

lemma rotated_scope_same: "rotated_scope s r t \<Longrightarrow> same_scope s t \<and> scopeValid (\<lambda>m. m) t = None"
  by (auto simp: rotated_scope_def same_scope_def)

lemma rotate_scopes_Inr:
  "rotate_scopes now ss rnd = Inr (ts, rs, rnd') \<Longrightarrow>
     length ts = length ss \<and> length rs = length ss \<and> (\<forall>i<length ss. rotated_scope (ss ! i) (rs ! i) (ts ! i))"
proof (induction ss arbitrary: rnd ts rs)
  case (Cons s ss)
  obtain previous e rnd1 ts1 rs1 where a: "ActiveKEK (sc_keys s) = Inr previous" "NewKey now rnd = Inr (e, rnd1)"
      "scopeValid (\<lambda>m. m) (s\<lparr>sc_keys := AddKEK (sc_keys s) e\<rparr>) = None" "rotate_scopes now ss rnd1 = Inr (ts1, rs1, rnd')"
      "ts = s\<lparr>sc_keys := AddKEK (sc_keys s) e\<rparr> # ts1" "rs = \<lparr>rot_Scope = sc_Name s, rot_Previous = ke_ID previous, rot_Active = ke_ID e\<rparr> # rs1"
    using Cons.prems by (auto simp: Let_def split: sum.splits option.splits)
  have "rotated_scope s \<lparr>rot_Scope = sc_Name s, rot_Previous = ke_ID previous, rot_Active = ke_ID e\<rparr> (s\<lparr>sc_keys := AddKEK (sc_keys s) e\<rparr>)"
    using a(1,3) NewKey_Inr[OF a(2)] unfolding rotated_scope_def by (intro exI[of _ e]) (auto simp: ActiveKEK_def split: list.splits)
  then show ?case using Cons.IH[OF a(4)] a(5,6) by (auto simp: nth_Cons split: nat.splits)
qed simp

lemma scopes_ok_pointwise:
  assumes "scopes_ok rd ss" "length ts = length ss" "\<And>i. i < length ss \<Longrightarrow> same_scope (ss ! i) (ts ! i) \<and> scopeValid rd (ts ! i) = None"
  shows "scopes_ok rd ts"
proof -
  have n: "map sc_Name ts = map sc_Name ss" "map sc_Prefix ts = map sc_Prefix ss"
    using assms(2,3) by (auto intro!: nth_equalityI simp: same_scope_def)
  have "sorted_wrt no_overlap ys \<longleftrightarrow> sorted_wrt (\<lambda>a b. \<not> scopesOverlap a b) (map sc_Prefix ys)" for ys :: "'a scope list"
    by (simp add: no_overlap_def[abs_def] sorted_wrt_map)
  then show ?thesis using assms n by (auto simp: scopes_ok_def in_set_conv_nth)
qed

text \<open>
  C30. A rotation retires a key without orphaning an object. It gives every scope one fresh
  key-encryption key in front of those it had, touches no name key, prefix or master key,
  and leaves a valid keyring in which every older key still resolves as before.
\<close>

theorem rotation_keeps_every_key:
  assumes "Valid (\<lambda>m. m) k = None" "RotateScopeKEKs now k rnd = Inr (k', rotated, rnd')"
  shows "Valid (\<lambda>m. m) k' = None \<and> kr_nameKeys k' = kr_nameKeys k \<and> kr_keys k' = kr_keys k
    \<and> length (kr_scopes k') = length (kr_scopes k)
    \<and> (\<forall>i<length (kr_scopes k). rotated_scope (kr_scopes k ! i) (rotated ! i) (kr_scopes k' ! i)
        \<and> (\<forall>d m. kek_lookup (sc_keys (kr_scopes k ! i)) d = Some m \<longrightarrow> kek_lookup (sc_keys (kr_scopes k' ! i)) d = Some m))"
proof (cases "kr_scopes k = []")
  case True
  then show ?thesis using assms by (simp add: RotateScopeKEKs_def)
next
  case False
  then obtain ts where t: "rotate_scopes now (kr_scopes k) rnd = Inr (ts, rotated, rnd')" "k' = k\<lparr>kr_scopes := ts\<rparr>"
    using assms(2) by (auto simp: RotateScopeKEKs_def split: sum.splits)
  note R = rotate_scopes_Inr[OF t(1)]
  have "scopes_ok (\<lambda>m. m) ts"
  proof (rule scopes_ok_pointwise)
    show "scopes_ok (\<lambda>m. m) (kr_scopes k)" "length ts = length (kr_scopes k)" using assms(1) R by (simp_all add: Valid_None)
    show "same_scope (kr_scopes k ! i) (ts ! i) \<and> scopeValid (\<lambda>m. m) (ts ! i) = None" if "i < length (kr_scopes k)" for i
      using R that rotated_scope_same by blast
  qed
  moreover have "kek_lookup (sc_keys t) d = Some m" if A: "rotated_scope s r t" "kek_lookup (sc_keys s) d = Some m" for s r t d m
  proof -
    obtain e where e: "sc_keys t = AddKEK (sc_keys s) e" "scopeValid (\<lambda>m. m) t = None" using A(1) by (auto simp: rotated_scope_def)
    obtain x where x: "x \<in> set (kr_keys (sc_keys s))" "ke_ID x = d" "kek_lookup (sc_keys s) d = Some (ke_key x)"
      using A(2) by (auto simp: kek_lookup_def dest: find_in_set)
    then have "ke_ID e \<noteq> d" using e by (force simp: scopeValid_None keysValid_None entries_ok_def AddKEK_def)
    then show ?thesis using e A(2) by (simp add: kek_lookup_def AddKEK_def)
  qed
  moreover have "keysValid (\<lambda>m. m) k' = None" using assms(1) t(2) by (simp add: Valid_None keysValid_None)
  ultimately show ?thesis unfolding Valid_None using R t(2) by (simp add: t(2)) blast
qed


theorem rotation_keeps_every_key_witness:
  "\<exists>k' rotated rnd'. RotateScopeKEKs 7 sample_keyring (replicate 80 (byte 99)) = Inr (k', rotated, rnd') \<and> Valid (\<lambda>m. m) k' = None
     \<and> kek_lookup (sc_keys (kr_scopes k' ! 1)) (replicate 8 (byte 21)) = Some (replicate 32 (byte 21))"
proof -
  have "case RotateScopeKEKs 7 sample_keyring (replicate 80 (byte 99)) of Inr _ \<Rightarrow> True | Inl _ \<Rightarrow> False" by code_simp
  then obtain k' rotated rnd' where r: "RotateScopeKEKs 7 sample_keyring (replicate 80 (byte 99)) = Inr (k', rotated, rnd')"
    by (auto split: sum.splits)
  have "kek_lookup (sc_keys (kr_scopes sample_keyring ! 1)) (replicate 8 (byte 21)) = Some (replicate 32 (byte 21))" by code_simp
  moreover have "1 < length (kr_scopes sample_keyring)" by (simp add: sample_keyring_def)
  ultimately show ?thesis using rotation_keeps_every_key[OF sample_keyring_valid r] r by blast
qed

end
