(* ===== verification/Store.thy ===== *)
theory Store
  imports Blob Keyring
begin

text \<open>
  The encrypting store (\<open>datasphere/store.go\<close>, \<open>rekey.go\<close>) over a cloud's object
  storage. The provider (\<open>datasphere/types.go\<close>) is a record of functions over the cloud's
  state; the locale \<open>object_store\<close> states its documented contract and an in-memory bucket
  interprets it. The theorems say that a store is a map from logical keys to bytes: what is
  written is what is read, listed and deleted, whatever the cloud calls the objects.
\<close>

section \<open>The provider\<close>

datatype provider_error = ErrObjectNotFound | Provider_failed string

record object =
  ob_Name :: string
  ob_Data :: string
  ob_Meta :: "(string \<times> string) list"

record stream_object =
  so_Name :: string
  so_Data :: reader
  so_Meta :: "(string \<times> string) list"

record object_info =
  oi_Name :: string
  oi_Size :: nat
  oi_Created :: gotime
  oi_Meta :: "(string \<times> string) list"

record 'c provider =
  pv_Put :: "'c \<Rightarrow> string \<Rightarrow> object \<Rightarrow> 'c \<times> provider_error option"
  pv_Get :: "'c \<Rightarrow> string \<Rightarrow> string \<Rightarrow> provider_error + object"
  pv_List :: "'c \<Rightarrow> string \<Rightarrow> string \<Rightarrow> provider_error + object_info list"
  pv_Delete :: "'c \<Rightarrow> string \<Rightarrow> string \<Rightarrow> 'c \<times> provider_error option"
  pv_PutStream :: "'c \<Rightarrow> string \<Rightarrow> stream_object \<Rightarrow> 'c \<times> provider_error option"
  pv_GetStream :: "'c \<Rightarrow> string \<Rightarrow> string \<Rightarrow> nat \<Rightarrow> int \<Rightarrow> provider_error + reader"

definition MetaName :: string where "MetaName = ''farcast-name''"
definition MaxHeaderLen :: nat where "MaxHeaderLen = HeaderLen + NonceLen + 1056 + TagLen + SaltLen + 1"
definition DefaultChunkExp :: nat where "DefaultChunkExp = 20"

definition encodeMirror :: "string \<Rightarrow> string" where
  "encodeMirror sealed = b64_encode sealed"

section \<open>The store\<close>

datatype storage_error =
    No_bucket
  | Store_keyring keyring_fault
  | Store_crypto crypto_error
  | Store_provider provider_error
  | ErrForeignObject
  | Name_error string storage_error

record store =
  sr_bucket :: string
  sr_keys :: "string keyring"
  sr_nameKey :: string
  sr_tokenKey :: string

text \<open>A scope's keyring goes straight to \<open>NewStore\<close>: it carries no scopes of its own.\<close>

definition ScopeKeyring :: "string scope \<Rightarrow> string keyring" where
  "ScopeKeyring s = \<lparr>kr_nameKeys = kr_nameKeys (sc_keys s), kr_keys = kr_keys (sc_keys s), kr_scopes = []\<rparr>"

definition NewStore :: "crypto_lib \<Rightarrow> string \<Rightarrow> string keyring \<Rightarrow> storage_error + store" where
  "NewStore C bucket keys =
     (if bucket = '''' then Inl No_bucket
      else case Valid (\<lambda>m. m) keys of
        Some f \<Rightarrow> Inl (Store_keyring f)
      | None \<Rightarrow>
          (case ActiveNameKey keys of
             Inl f \<Rightarrow> Inl (Store_keyring f)
           | Inr nameKey \<Rightarrow>
               Inr \<lparr>sr_bucket = bucket, sr_keys = keys, sr_nameKey = ke_key nameKey,
                    sr_tokenKey = NameTokenKey C (ke_key nameKey)\<rparr>))"

definition StoredName :: "crypto_lib \<Rightarrow> store \<Rightarrow> string \<Rightarrow> storage_error + string" where
  "StoredName C s key =
     (case ValidateLogicalKey key of
        Some f \<Rightarrow> Inl (Store_crypto (ErrInvalidKey f))
      | None \<Rightarrow> Inr (TokenPath C (sr_tokenKey s) key))"

definition StoredPrefix :: "crypto_lib \<Rightarrow> store \<Rightarrow> string \<Rightarrow> string" where
  "StoredPrefix C s prefix = TokenPrefix C (sr_tokenKey s) prefix"

definition Read :: "crypto_lib \<Rightarrow> 'c provider \<Rightarrow> store \<Rightarrow> string \<Rightarrow> 'c \<Rightarrow> storage_error + string" where
  "Read C p s key c =
     (case StoredName C s key of
        Inl e \<Rightarrow> Inl e
      | Inr stored \<Rightarrow>
          (case pv_Get p c (sr_bucket s) stored of
             Inl e \<Rightarrow> Inl (Store_provider e)
           | Inr obj \<Rightarrow>
               (case Open C (kek_lookup (sr_keys s)) key (ob_Data obj) of
                  Inl e \<Rightarrow> Inl (Store_crypto e)
                | Inr plaintext \<Rightarrow> Inr plaintext)))"

definition Write :: "crypto_lib \<Rightarrow> 'c provider \<Rightarrow> store \<Rightarrow> string \<Rightarrow> string \<Rightarrow> string \<Rightarrow> 'c \<Rightarrow> 'c \<times> storage_error option" where
  "Write C p s key data rnd c =
     (case StoredName C s key of
        Inl e \<Rightarrow> (c, Some e)
      | Inr stored \<Rightarrow>
          (case ActiveKEK (sr_keys s) of
             Inl f \<Rightarrow> (c, Some (Store_keyring f))
           | Inr kek \<Rightarrow>
               (case Seal C \<lparr>bk_ID = ke_ID kek, bk_Material = ke_key kek\<rparr> (sr_nameKey s) stored key data rnd of
                  Inl e \<Rightarrow> (c, Some (Store_crypto e))
                | Inr (blob, sealedName) \<Rightarrow>
                    (case pv_Put p c (sr_bucket s) \<lparr>ob_Name = stored, ob_Data = blob, ob_Meta = [(MetaName, encodeMirror sealedName)]\<rparr> of
                       (c, e) \<Rightarrow> (c, map_option Store_provider e)))))"

definition Delete :: "crypto_lib \<Rightarrow> 'c provider \<Rightarrow> store \<Rightarrow> string \<Rightarrow> 'c \<Rightarrow> 'c \<times> storage_error option" where
  "Delete C p s key c =
     (case StoredName C s key of
        Inl e \<Rightarrow> (c, Some e)
      | Inr stored \<Rightarrow> (case pv_Delete p c (sr_bucket s) stored of (c, e) \<Rightarrow> (c, map_option Store_provider e)))"

text \<open>
  \<open>WriteStream\<close>: the pipe carries to the provider exactly the bytes the sealer wrote, and
  ends with an error when the sealer failed.
\<close>

definition WriteStream :: "crypto_lib \<Rightarrow> 'c provider \<Rightarrow> store \<Rightarrow> string \<Rightarrow> reader \<Rightarrow> string \<Rightarrow> 'c \<Rightarrow> 'c \<times> storage_error option" where
  "WriteStream C p s key r rnd c =
     (case StoredName C s key of
        Inl e \<Rightarrow> (c, Some e)
      | Inr stored \<Rightarrow>
          (case ActiveKEK (sr_keys s) of
             Inl f \<Rightarrow> (c, Some (Store_keyring f))
           | Inr kek \<Rightarrow>
               (case SealName C (sr_nameKey s) stored key rnd of
                  Inl e \<Rightarrow> (c, Some (Store_crypto e))
                | Inr (sealedName, rnd) \<Rightarrow>
                    (case SealStream C \<lparr>bk_ID = ke_ID kek, bk_Material = ke_key kek\<rparr> key sealedName DefaultChunkExp r
                            \<lparr>wr_buf = '''', wr_limit = None\<rparr> rnd of
                       (w, e) \<Rightarrow>
                         (case pv_PutStream p c (sr_bucket s)
                                 \<lparr>so_Name = stored, so_Data = \<lparr>rd_data = wr_buf w, rd_fails = (e \<noteq> None)\<rparr>,
                                  so_Meta = [(MetaName, b64_encode sealedName)]\<rparr> of
                            (c, e) \<Rightarrow> (c, map_option Store_provider e))))))"

definition ReadStream :: "crypto_lib \<Rightarrow> 'c provider \<Rightarrow> store \<Rightarrow> string \<Rightarrow> 'c \<Rightarrow> writer \<Rightarrow> writer \<times> storage_error option" where
  "ReadStream C p s key c w =
     (case StoredName C s key of
        Inl e \<Rightarrow> (w, Some e)
      | Inr stored \<Rightarrow>
          (case pv_GetStream p c (sr_bucket s) stored 0 (- 1) of
             Inl e \<Rightarrow> (w, Some (Store_provider e))
           | Inr body \<Rightarrow>
               (case OpenStream C (kek_lookup (sr_keys s)) key body w of (w, e) \<Rightarrow> (w, map_option Store_crypto e))))"

section \<open>Listing\<close>

text \<open>\<open>io.ReadAll(io.LimitReader(body, n))\<close>: a read that breaks before the limit is an error.\<close>

definition read_limited :: "nat \<Rightarrow> reader \<Rightarrow> storage_error + string" where
  "read_limited n r =
     (if length (rd_data r) < n \<and> rd_fails r then Inl (Store_crypto Read_failed) else Inr (take n (rd_data r)))"

definition fetch_header :: "'c provider \<Rightarrow> store \<Rightarrow> string \<Rightarrow> 'c \<Rightarrow> storage_error + string" where
  "fetch_header p s stored c =
     (case pv_GetStream p c (sr_bucket s) stored 0 (int MaxHeaderLen) of
        Inl e \<Rightarrow> Inl (Store_provider e)
      | Inr body \<Rightarrow> read_limited MaxHeaderLen body)"

definition mirror_name :: "crypto_lib \<Rightarrow> store \<Rightarrow> object_info \<Rightarrow> string option" where
  "mirror_name C s info =
     (let mirror = get_or '''' (oi_Meta info) MetaName in
      if mirror = '''' then None
      else case b64_decode mirror of
        None \<Rightarrow> None
      | Some sealed \<Rightarrow> (case OpenName C (sr_nameKey s) (oi_Name info) sealed of Inl _ \<Rightarrow> None | Inr name \<Rightarrow> Some name))"

definition logicalName :: "crypto_lib \<Rightarrow> 'c provider \<Rightarrow> store \<Rightarrow> object_info \<Rightarrow> 'c \<Rightarrow> storage_error + string" where
  "logicalName C p s info c =
     (case mirror_name C s info of
        Some name \<Rightarrow> Inr name
      | None \<Rightarrow>
          (case fetch_header p s (oi_Name info) c of
             Inl e \<Rightarrow> Inl (Name_error (oi_Name info) e)
           | Inr head \<Rightarrow>
               (case ParseHeader head of
                  Inl e \<Rightarrow> Inl (Name_error (oi_Name info) (Store_crypto e))
                | Inr h \<Rightarrow>
                    (case OpenName C (sr_nameKey s) (oi_Name info) (hd_SealedName h) of
                       Inl _ \<Rightarrow> Inl (Name_error (oi_Name info) ErrForeignObject)
                     | Inr name \<Rightarrow> Inr name))))"

record entry =
  en_Key :: string
  en_Stored :: string
  en_Size :: nat
  en_Created :: gotime

fun list_entries :: "crypto_lib \<Rightarrow> 'c provider \<Rightarrow> store \<Rightarrow> string \<Rightarrow> 'c \<Rightarrow> object_info list \<Rightarrow> entry list \<times> storage_error list" where
  "list_entries C p s prefix c [] = ([], [])"
| "list_entries C p s prefix c (info # infos) =
     (case list_entries C p s prefix c infos of (entries, failures) \<Rightarrow>
      case logicalName C p s info c of
        Inl e \<Rightarrow> (entries, e # failures)
      | Inr name \<Rightarrow>
          if \<not> has_prefix name prefix then (entries, failures)
          else (\<lparr>en_Key = name, en_Stored = oi_Name info, en_Size = oi_Size info, en_Created = oi_Created info\<rparr> # entries, failures))"

definition ListEntries :: "crypto_lib \<Rightarrow> 'c provider \<Rightarrow> store \<Rightarrow> string \<Rightarrow> 'c \<Rightarrow> storage_error + (entry list \<times> storage_error list)" where
  "ListEntries C p s prefix c =
     (case pv_List p c (sr_bucket s) (TokenPrefix C (sr_tokenKey s) prefix) of
        Inl e \<Rightarrow> Inl (Store_provider e)
      | Inr infos \<Rightarrow>
          (case list_entries C p s prefix c infos of (entries, failures) \<Rightarrow>
             Inr (sort_by (key_less en_Key) entries, failures)))"

definition List :: "crypto_lib \<Rightarrow> 'c provider \<Rightarrow> store \<Rightarrow> string \<Rightarrow> 'c \<Rightarrow> storage_error + (string list \<times> storage_error list)" where
  "List C p s prefix c =
     (case ListEntries C p s prefix c of
        Inl e \<Rightarrow> Inl e
      | Inr (entries, failures) \<Rightarrow> Inr (map en_Key entries, failures))"

section \<open>Rewrapping a stored object\<close>

definition readHead :: "reader \<Rightarrow> storage_error + (string \<times> reader)" where
  "readHead r =
     (case ReadFull MaxHeaderLen r of (head, r, st) \<Rightarrow>
        if st \<noteq> Read_full \<and> length head < HeaderLen then Inl (Store_crypto ErrIntegrity) else Inr (head, r))"

definition sealedNameOf :: "string \<Rightarrow> storage_error + string" where
  "sealedNameOf head =
     (let nameLen = get16 (drop offNameLen head) in
      if nameLen < NonceLen + TagLen \<or> HeaderLen + nameLen > length head then Inl (Store_crypto ErrIntegrity)
      else Inr (encodeMirror (slice HeaderLen nameLen head)))"

definition StoreRekey :: "crypto_lib \<Rightarrow> 'c provider \<Rightarrow> store \<Rightarrow> string \<Rightarrow> string \<Rightarrow> 'c \<Rightarrow> 'c \<times> (storage_error + bool)" where
  "StoreRekey C p s key rnd c =
     (case StoredName C s key of
        Inl e \<Rightarrow> (c, Inl e)
      | Inr stored \<Rightarrow>
          (case ActiveKEK (sr_keys s) of
             Inl f \<Rightarrow> (c, Inl (Store_keyring f))
           | Inr kek \<Rightarrow>
               (case pv_GetStream p c (sr_bucket s) stored 0 (- 1) of
                  Inl e \<Rightarrow> (c, Inl (Store_provider e))
                | Inr body \<Rightarrow>
                    (case readHead body of
                       Inl e \<Rightarrow> (c, Inl e)
                     | Inr (head, body) \<Rightarrow>
                         if slice offKeyID KeyIDLen head = ke_ID kek then (c, Inr False)
                         else
                           (case RekeyPrefix C (kek_lookup (sr_keys s)) \<lparr>bk_ID = ke_ID kek, bk_Material = ke_key kek\<rparr> head rnd of
                              Inl e \<Rightarrow> (c, Inl (Store_crypto e))
                            | Inr prefix \<Rightarrow>
                                (case sealedNameOf head of
                                   Inl e \<Rightarrow> (c, Inl e)
                                 | Inr sealedName \<Rightarrow>
                                     (case pv_PutStream p c (sr_bucket s)
                                             \<lparr>so_Name = stored,
                                              so_Data = body\<lparr>rd_data := prefix @ drop (length prefix) head @ rd_data body\<rparr>,
                                              so_Meta = [(MetaName, sealedName)]\<rparr> of
                                        (c, Some e) \<Rightarrow> (c, Inl (Store_provider e))
                                      | (c, None) \<Rightarrow> (c, Inr True))))))))"


section \<open>The contract of an object store\<close>

locale object_store =
  fixes p :: "'c provider" and contents :: "'c \<Rightarrow> string \<Rightarrow> string \<Rightarrow> (string \<times> (string \<times> string) list) option"
  assumes put_stores: "pv_Put p c b obj = (c', None) \<Longrightarrow>
      contents c' b' n = (if b' = b \<and> n = ob_Name obj then Some (ob_Data obj, ob_Meta obj) else contents c b' n)"
    and put_stream_stores: "pv_PutStream p c b str = (c', None) \<Longrightarrow> \<not> rd_fails (so_Data str) \<and>
      contents c' b' n = (if b' = b \<and> n = so_Name str then Some (rd_data (so_Data str), so_Meta str) else contents c b' n)"
    and delete_removes: "pv_Delete p c b m = (c', None) \<Longrightarrow> contents c' b' n = (if b' = b \<and> n = m then None else contents c b' n)"
    and get_returns: "pv_Get p c b n = Inr obj \<Longrightarrow> contents c b n = Some (ob_Data obj, ob_Meta obj)"
    and get_missing: "pv_Get p c b n = Inl ErrObjectNotFound \<Longrightarrow> contents c b n = None"
    and get_stream_returns: "pv_GetStream p c b n off len = Inr r \<Longrightarrow> \<not> rd_fails r \<Longrightarrow>
      \<exists>d m. contents c b n = Some (d, m) \<and> rd_data r = (if len < 0 then drop off d else take (nat len) (drop off d))"
    and list_distinct: "pv_List p c b prefix = Inr infos \<Longrightarrow> distinct (map oi_Name infos)"
    and list_complete: "pv_List p c b prefix = Inr infos \<Longrightarrow> n \<in> oi_Name ` set infos \<longleftrightarrow> has_prefix n prefix \<and> contents c b n \<noteq> None"
    and list_meta: "pv_List p c b prefix = Inr infos \<Longrightarrow> info \<in> set infos \<Longrightarrow> \<exists>d. contents c b (oi_Name info) = Some (d, oi_Meta info)"

text \<open>What a store holds, as its client sees it: a map from logical keys to bytes.\<close>

definition stored_ok :: "crypto_lib \<Rightarrow> store \<Rightarrow> string \<Rightarrow> string \<Rightarrow> string \<times> (string \<times> string) list \<Rightarrow> bool" where
  "stored_ok C s key pt obj \<longleftrightarrow> Open C (kek_lookup (sr_keys s)) key (fst obj) = Inr pt
     \<and> (\<exists>sealed. snd obj = [(MetaName, encodeMirror sealed)] \<and> sealed \<noteq> ''''
         \<and> OpenName C (sr_nameKey s) (TokenPath C (sr_tokenKey s) key) sealed = Inr key)"

definition store_rep :: "crypto_lib \<Rightarrow> ('c \<Rightarrow> string \<Rightarrow> string \<Rightarrow> (string \<times> (string \<times> string) list) option) \<Rightarrow> store \<Rightarrow> 'c \<Rightarrow> (string \<Rightarrow> string option) \<Rightarrow> bool" where
  "store_rep C contents s c m \<longleftrightarrow>
     (\<forall>key pt. m key = Some pt \<longrightarrow> ValidateLogicalKey key = None
        \<and> (\<exists>obj. contents c (sr_bucket s) (TokenPath C (sr_tokenKey s) key) = Some obj \<and> stored_ok C s key pt obj))
     \<and> (\<forall>n. contents c (sr_bucket s) n \<noteq> None \<longrightarrow> (\<exists>key\<in>dom m. n = TokenPath C (sr_tokenKey s) key))"

lemma store_repD:
  assumes "store_rep C contents s c m"
  shows "m key = Some pt \<Longrightarrow> ValidateLogicalKey key = None"
    "m key = Some pt \<Longrightarrow> \<exists>obj. contents c (sr_bucket s) (TokenPath C (sr_tokenKey s) key) = Some obj \<and> stored_ok C s key pt obj"
    "contents c (sr_bucket s) n = Some obj \<Longrightarrow> \<exists>key\<in>dom m. n = TokenPath C (sr_tokenKey s) key"
  using assms by (auto simp: store_rep_def)

definition store_ok :: "crypto_lib \<Rightarrow> store \<Rightarrow> bool" where
  "store_ok C s \<longleftrightarrow> crypto_laws C \<and> Valid (\<lambda>m. m) (sr_keys s) = None \<and> keyring_ids_ok (sr_keys s)"

lemma NewStore_ok: "NewStore C bucket keys = Inr s \<Longrightarrow> crypto_laws C \<Longrightarrow> keyring_ids_ok keys \<Longrightarrow> store_ok C s \<and> sr_bucket s = bucket"
  by (auto simp: NewStore_def store_ok_def split: if_splits option.splits sum.splits)

lemma store_ok_kek:
  assumes "store_ok C s" "ActiveKEK (sr_keys s) = Inr kek"
  shows "length (ke_ID kek) = KeyIDLen" "length (ke_key kek) = KeyLen" "kek_lookup (sr_keys s) (ke_ID kek) = Some (ke_key kek)"
  using assms by (auto simp: store_ok_def Valid_None keysValid_None keyring_ids_ok_def ids_ok_def entries_ok_def ActiveKEK_def kek_lookup_def split: list.splits)

text \<open>A larger keyring opens everything a smaller one opens, to the same bytes.\<close>

lemma header_unwrap_mono:
  assumes "header_unwrap C lookup v i wn wr = Inr dek" "lookup \<subseteq>\<^sub>m lookup'"
  shows "header_unwrap C lookup' v i wn wr = Inr dek"
proof -
  obtain m where m: "lookup i = Some m" using assms(1) by (auto simp: header_unwrap_def split: option.splits)
  then have "lookup' i = Some m" using assms(2) by (auto simp: map_le_def dom_def)
  then show ?thesis using assms(1) m by (simp add: header_unwrap_def)
qed

lemma open_buffered_mono:
  assumes "open_buffered C lookup key h = Inr pt" "lookup \<subseteq>\<^sub>m lookup'"
  shows "open_buffered C lookup' key h = Inr pt"
proof (cases "header_unwrap C lookup (hd_Version h) (hd_KeyID h) (hd_WrapNonce h) (hd_WrappedDEK h)")
  case (Inr dek)
  then show ?thesis using assms(1) header_unwrap_mono[OF Inr assms(2)] by (simp add: open_buffered_def)
qed (use assms(1) in \<open>simp add: open_buffered_def\<close>)

lemma OpenStream_mono:
  assumes "OpenStream C lookup key r w = (w', None)" "lookup \<subseteq>\<^sub>m lookup'"
  shows "OpenStream C lookup' key r w = (w', None)"
proof -
  obtain prefix r1 st1 where p1: "ReadFull HeaderLen r = (prefix, r1, st1)" by (metis prod_cases3)
  then have s1: "st1 = Read_full" using assms(1) by (auto simp: OpenStream_def split: if_splits)
  define nameLen where "nameLen = get16 (drop offNameLen prefix)"
  have n: "\<not> nameLen < NonceLen + TagLen" using assms(1) p1 s1 by (auto simp: OpenStream_def Let_def nameLen_def split: if_splits)
  obtain rest r2 st2 where p2: "ReadFull nameLen r1 = (rest, r2, st2)" by (metis prod_cases3)
  then have s2: "st2 = Read_full" using assms(1) p1 s1 n by (auto simp: OpenStream_def Let_def nameLen_def[symmetric] split: if_splits)
  note start = p1 s1 n p2 s2 nameLen_def[symmetric]
  show ?thesis
  proof (cases "prefix ! offVersion = Version1")
    case v1: True
    obtain body where b: "readAtMost (MaxPlaintext + NonceLen + TagLen + 1) r2 = Inr body"
      using assms(1) v1 by (auto simp: OpenStream_def Let_def start split: sum.splits)
    obtain h where h: "ParseHeader (prefix @ rest @ body) = Inr h"
      using assms(1) v1 b by (auto simp: OpenStream_def Let_def start split: sum.splits)
    obtain pt where o: "open_buffered C lookup key h = Inr pt"
      using assms(1) v1 b h by (auto simp: OpenStream_def Let_def start split: sum.splits)
    show ?thesis using assms(1) v1 b h o open_buffered_mono[OF o assms(2)] by (simp add: OpenStream_def Let_def start)
  next
    case v2: False
    obtain h where h: "ParseHeader (prefix @ rest) = Inr h"
      using assms(1) v2 by (auto simp: OpenStream_def Let_def start split: sum.splits)
    obtain tail r3 st3 where p3: "ReadFull (SaltLen + 1) r2 = (tail, r3, st3)" by (metis prod_cases3)
    then have s3: "st3 = Read_full" using assms(1) v2 h by (auto simp: OpenStream_def Let_def start split: if_splits)
    have ce: "\<not> (byte_val (tail ! SaltLen) < MinChunkExp \<or> MaxChunkExp < byte_val (tail ! SaltLen))"
      using assms(1) v2 h p3 s3 by (auto simp: OpenStream_def Let_def start split: if_splits)
    obtain dek where u: "header_unwrap C lookup (hd_Version h) (hd_KeyID h) (hd_WrapNonce h) (hd_WrappedDEK h) = Inr dek"
      using assms(1) v2 h p3 s3 ce by (auto simp: OpenStream_def Let_def start split: sum.splits)
    show ?thesis using assms(1) v2 h p3 s3 ce u header_unwrap_mono[OF u assms(2)] by (simp add: OpenStream_def Let_def start)
  qed
qed

lemma Open_mono:
  assumes "Open C lookup key b = Inr pt" "lookup \<subseteq>\<^sub>m lookup'"
  shows "Open C lookup' key b = Inr pt"
proof -
  obtain h where h: "ParseHeader b = Inr h" using assms(1) by (auto simp: Open_def split: sum.splits)
  let ?r = "\<lparr>rd_data = b, rd_fails = False\<rparr>" and ?w = "\<lparr>wr_buf = '''', wr_limit = Some (MaxPlaintext, ErrTooLarge MaxPlaintext)\<rparr>"
  show ?thesis
  proof (cases "hd_Version h = Version2")
    case True
    obtain w' where w': "OpenStream C lookup key ?r ?w = (w', None)" "wr_buf w' = pt"
      using assms(1) h True by (auto simp: Open_def split: prod.splits option.splits)
    then show ?thesis using h True OpenStream_mono[OF w'(1) assms(2)] by (simp add: Open_def)
  next
    case False
    then have "open_buffered C lookup key h = Inr pt" using assms(1) h by (simp add: Open_def)
    then show ?thesis using False h open_buffered_mono[OF _ assms(2)] by (simp add: Open_def)
  qed
qed

context object_store
begin

text \<open>A write that succeeds leaves one object changed: the key's, now holding the plaintext.\<close>

lemma Write_stores:
  assumes "store_ok C s" "68 \<le> length rnd" "Write C p s key data rnd c = (c', None)"
  shows "ValidateLogicalKey key = None \<and> (\<exists>obj. stored_ok C s key data obj
    \<and> (\<forall>n. contents c' (sr_bucket s) n = (if n = TokenPath C (sr_tokenKey s) key then Some obj else contents c (sr_bucket s) n)))"
proof -
  let ?path = "TokenPath C (sr_tokenKey s)"
  have v: "ValidateLogicalKey key = None" using assms(3) by (auto simp: Write_def StoredName_def split: option.splits)
  then obtain kek where k: "ActiveKEK (sr_keys s) = Inr kek" using assms(3) by (auto simp: Write_def StoredName_def split: sum.splits)
  let ?kek = "\<lparr>bk_ID = ke_ID kek, bk_Material = ke_key kek\<rparr>"
  note K = store_ok_kek[OF assms(1) k]
  have C: "crypto_laws C" using assms(1) by (simp add: store_ok_def)
  obtain blob sn where b: "Seal C ?kek (sr_nameKey s) (?path key) key data rnd = Inr (blob, sn)"
    and put: "pv_Put p c (sr_bucket s) \<lparr>ob_Name = ?path key, ob_Data = blob, ob_Meta = [(MetaName, encodeMirror sn)]\<rparr> = (c', None)"
    using assms(3) v k by (auto simp: Write_def StoredName_def split: sum.splits prod.splits)
  have "length data \<le> MaxPlaintext" using b by (auto simp: Seal_def split: option.splits if_splits)
  then have "Open C (kek_lookup (sr_keys s)) key blob = Inr data" "OpenName C (sr_nameKey s) (?path key) sn = Inr key" "sn \<noteq> ''''"
    using Seal_opens[where lookup = "kek_lookup (sr_keys s)" and nameKey = "sr_nameKey s" and path = "?path key" and kek = ?kek, OF C v, of data rnd]
      K assms(2) b by (auto simp: TagLen_def)
  then have ok: "stored_ok C s key data (blob, [(MetaName, encodeMirror sn)])" by (auto simp: stored_ok_def)
  moreover have "contents c' (sr_bucket s) n = (if n = ?path key then Some (blob, [(MetaName, encodeMirror sn)]) else contents c (sr_bucket s) n)" for n
    using put_stores[OF put] by simp
  ultimately show ?thesis using v by blast
qed

text \<open>Reading a key whose object is in place gives its plaintext, unless the provider's fetch of it fails.\<close>

lemma Read_stored_answer:
  assumes "ValidateLogicalKey key = None" "contents c (sr_bucket s) (TokenPath C (sr_tokenKey s) key) = Some obj"
    and "Open C (kek_lookup (sr_keys s)) key (fst obj) = Inr pt"
  shows "Read C p s key c =
    (case pv_Get p c (sr_bucket s) (TokenPath C (sr_tokenKey s) key) of
       Inl (Provider_failed m) \<Rightarrow> Inl (Store_provider (Provider_failed m)) | _ \<Rightarrow> Inr pt)"
proof (cases "pv_Get p c (sr_bucket s) (TokenPath C (sr_tokenKey s) key)")
  case (Inl e)
  then have "e \<noteq> ErrObjectNotFound" using get_missing assms(2) by force
  then show ?thesis using Inl assms(1) by (cases e) (auto simp: Read_def StoredName_def)
next
  case (Inr o')
  then have "obj = (ob_Data o', ob_Meta o')" using get_returns[OF Inr] assms(2) by simp
  then show ?thesis using Inr assms by (simp add: Read_def StoredName_def)
qed

lemma Read_stored:
  assumes "ValidateLogicalKey key = None" "contents c (sr_bucket s) (TokenPath C (sr_tokenKey s) key) = Some obj"
    and "Open C (kek_lookup (sr_keys s)) key (fst obj) = Inr pt"
  shows "Read C p s key c = Inr pt \<or> (\<exists>m. Read C p s key c = Inl (Store_provider (Provider_failed m)))"
  unfolding Read_stored_answer[OF assms] by (auto split: sum.split provider_error.split)

lemma Write_rep:
  assumes "store_ok C s" "store_rep C contents s c m" "inj_on (TokenPath C (sr_tokenKey s)) K" "dom m \<subseteq> K" "key \<in> K" "68 \<le> length rnd"
    and "Write C p s key data rnd c = (c', None)"
  shows "store_rep C contents s c' (m(key \<mapsto> data))"
proof -
  let ?path = "TokenPath C (sr_tokenKey s)"
  obtain obj where v: "ValidateLogicalKey key = None" and ok: "stored_ok C s key data obj"
    and c': "\<And>n. contents c' (sr_bucket s) n = (if n = ?path key then Some obj else contents c (sr_bucket s) n)"
    using Write_stores[OF assms(1,6,7)] by blast
  have other: "?path k \<noteq> ?path key" if "k \<noteq> key" "m k = Some pt" for k pt
    using assms(3-5) that by (auto dest: inj_onD)
  show ?thesis unfolding store_rep_def
  proof (intro conjI allI impI)
    fix k pt assume kp: "(m(key \<mapsto> data)) k = Some pt"
    show "ValidateLogicalKey k = None" using kp v store_repD(1)[OF assms(2)] by (auto split: if_splits)
    show "\<exists>obj. contents c' (sr_bucket s) (?path k) = Some obj \<and> stored_ok C s k pt obj"
      using kp ok other[of k pt] store_repD(2)[OF assms(2), of k pt] by (cases "k = key") (auto simp: c')
  next
    fix n assume "contents c' (sr_bucket s) n \<noteq> None"
    then show "\<exists>k\<in>dom (m(key \<mapsto> data)). n = ?path k"
      using store_repD(3)[OF assms(2), of n] by (auto simp: c' split: if_splits)
  qed
qed

lemma Delete_rep:
  assumes "store_rep C contents s c m" "inj_on (TokenPath C (sr_tokenKey s)) K" "dom m \<subseteq> K" "key \<in> K"
    and "Delete C p s key c = (c', None)"
  shows "store_rep C contents s c' (m(key := None))"
proof -
  let ?path = "TokenPath C (sr_tokenKey s)"
  have "pv_Delete p c (sr_bucket s) (?path key) = (c', None)"
    using assms(5) by (auto simp: Delete_def StoredName_def split: option.splits prod.splits)
  then have c': "contents c' (sr_bucket s) n = (if n = ?path key then None else contents c (sr_bucket s) n)" for n
    using delete_removes by simp
  have other: "?path k \<noteq> ?path key" if "k \<noteq> key" "m k = Some pt" for k pt
    using assms(2-4) that by (auto dest: inj_onD)
  show ?thesis unfolding store_rep_def
  proof (intro conjI allI impI)
    fix k pt assume kp: "(m(key := None)) k = Some pt"
    then have kp: "k \<noteq> key" "m k = Some pt" by (auto split: if_splits)
    show "ValidateLogicalKey k = None" using store_repD(1)[OF assms(1) kp(2)] .
    show "\<exists>obj. contents c' (sr_bucket s) (?path k) = Some obj \<and> stored_ok C s k pt obj"
      using store_repD(2)[OF assms(1) kp(2)] other[OF kp] by (simp add: c')
  next
    fix n assume n: "contents c' (sr_bucket s) n \<noteq> None"
    then have n: "contents c (sr_bucket s) n \<noteq> None" "n \<noteq> ?path key" by (auto simp: c' split: if_splits)
    then obtain k where "k \<in> dom m" "n = ?path k" using store_repD(3)[OF assms(1), of n] by blast
    then show "\<exists>k\<in>dom (m(key := None)). n = ?path k" using n(2) by (intro bexI[of _ k]) auto
  qed
qed

lemma Read_rep:
  assumes "store_rep C contents s c m" "inj_on (TokenPath C (sr_tokenKey s)) K" "dom m \<subseteq> K" "key \<in> K"
  shows "case Read C p s key c of
      Inr data \<Rightarrow> m key = Some data
    | Inl (Store_provider ErrObjectNotFound) \<Rightarrow> m key = None
    | Inl (Store_provider (Provider_failed _)) \<Rightarrow> True
    | Inl (Store_crypto (ErrInvalidKey f)) \<Rightarrow> ValidateLogicalKey key = Some f
    | Inl _ \<Rightarrow> False"
proof (cases "ValidateLogicalKey key")
  case (Some f)
  then show ?thesis by (simp add: Read_def StoredName_def)
next
  case valid: None
  let ?path = "TokenPath C (sr_tokenKey s)"
  show ?thesis
  proof (cases "pv_Get p c (sr_bucket s) (?path key)")
    case (Inl e)
    have "e = ErrObjectNotFound \<Longrightarrow> m key = None" using get_missing[of c "sr_bucket s" "?path key"] Inl store_repD(2)[OF assms(1), of key]
      by (cases "m key") auto
    then show ?thesis using valid Inl by (cases e) (auto simp: Read_def StoredName_def)
  next
    case (Inr obj)
    then have o: "contents c (sr_bucket s) (?path key) = Some (ob_Data obj, ob_Meta obj)" by (rule get_returns)
    obtain k where "k \<in> dom m" "?path key = ?path k" using store_repD(3)[OF assms(1) o] by blast
    then have "key \<in> dom m" using assms(2-4) by (metis inj_onD subsetD)
    then obtain pt where pt: "m key = Some pt" by blast
    then have "stored_ok C s key pt (ob_Data obj, ob_Meta obj)" using store_repD(2)[OF assms(1) pt] o by auto
    then show ?thesis using valid Inr pt by (simp add: Read_def StoredName_def stored_ok_def)
  qed
qed

end

lemma mirror_of_stored:
  assumes "stored_ok C s key pt (d, oi_Meta info)" "oi_Name info = TokenPath C (sr_tokenKey s) key"
  shows "logicalName C p s info c = Inr key"
proof -
  obtain sealed where "oi_Meta info = [(MetaName, b64_encode sealed)]" "sealed \<noteq> ''''" "OpenName C (sr_nameKey s) (oi_Name info) sealed = Inr key"
    using assms by (auto simp: stored_ok_def encodeMirror_def)
  moreover from this have "b64_encode sealed \<noteq> ''''" by (cases sealed rule: b64_encode.cases) simp_all
  ultimately show ?thesis by (simp add: logicalName_def mirror_name_def get_or_def b64_decode_encode)
qed

lemma list_entries_names:
  assumes "\<And>info. info \<in> set infos \<Longrightarrow> logicalName C p s info c = Inr (name info)"
  shows "snd (list_entries C p s prefix c infos) = [] \<and>
    map en_Key (fst (list_entries C p s prefix c infos)) = filter (\<lambda>k. has_prefix k prefix) (map name infos)"
  using assms by (induction infos) (auto split: prod.splits)

lemma sort_by_strings:
  fixes f :: "'a \<Rightarrow> string"
  assumes "distinct (map f xs)"
  shows "map f (sort_by (key_less f) xs) = sorted_list_of_set (f ` set xs)"
proof (rule sorted_distinct_set_unique)
  have "mset (map f (sort_by (key_less f) xs)) = mset (map f xs)" by simp
  then show "distinct (map f (sort_by (key_less f) xs))" using assms mset_eq_imp_distinct_iff by blast
qed (simp_all add: sorted_key)

context object_store
begin

lemma List_rep:
  assumes "store_rep C contents s c m" "inj_on (TokenPath C (sr_tokenKey s)) K" "dom m \<subseteq> K"
    and "List C p s prefix c = Inr (names, failures)"
  shows "failures = [] \<and> names = sorted_list_of_set {key \<in> dom m. has_prefix key prefix}"
proof -
  let ?path = "TokenPath C (sr_tokenKey s)" and ?pre = "TokenPrefix C (sr_tokenKey s) prefix"
  obtain infos where l: "pv_List p c (sr_bucket s) ?pre = Inr infos"
    using assms(4) by (auto simp: List_def ListEntries_def split: sum.splits)
  have "\<forall>info. \<exists>key. info \<in> set infos \<longrightarrow> key \<in> dom m \<and> oi_Name info = ?path key"
    using list_meta[OF l] store_repD(3)[OF assms(1)] by blast
  then obtain name where name: "\<And>info. info \<in> set infos \<Longrightarrow> name info \<in> dom m \<and> oi_Name info = ?path (name info)" by metis
  have "logicalName C p s info c = Inr (name info)" if i: "info \<in> set infos" for info
  proof -
    obtain d where d: "contents c (sr_bucket s) (oi_Name info) = Some (d, oi_Meta info)" using list_meta[OF l i] by blast
    obtain pt where pt: "m (name info) = Some pt" using name[OF i] by blast
    then have "stored_ok C s (name info) pt (d, oi_Meta info)" using store_repD(2)[OF assms(1) pt] d name[OF i] by auto
    then show ?thesis using name[OF i] by (intro mirror_of_stored) simp_all
  qed
  note E = list_entries_names[of infos C p s c name prefix, OF this]
  define es where "es = fst (list_entries C p s prefix c infos)"
  have es: "map en_Key es = filter (\<lambda>k. has_prefix k prefix) (map name infos)" "snd (list_entries C p s prefix c infos) = []"
    using E by (simp_all add: es_def)
  have "inj_on name (set infos)" using name list_distinct[OF l] unfolding distinct_map by (metis inj_on_def)
  then have "distinct (map name infos)" using list_distinct[OF l] by (simp add: distinct_map)
  then have d: "distinct (map en_Key es)" unfolding es(1) by simp
  have "name ` set infos = {key \<in> dom m. has_prefix (?path key) ?pre}"
  proof (intro equalityI subsetI)
    fix k assume "k \<in> name ` set infos"
    then obtain info where i: "info \<in> set infos" "k = name info" by blast
    then have "has_prefix (oi_Name info) ?pre" using list_complete[OF l, of "oi_Name info"] by blast
    then show "k \<in> {key \<in> dom m. has_prefix (?path key) ?pre}" using name[OF i(1)] i(2) by simp
  next
    fix k assume k: "k \<in> {key \<in> dom m. has_prefix (?path key) ?pre}"
    then obtain pt where "m k = Some pt" by blast
    then have "contents c (sr_bucket s) (?path k) \<noteq> None" using store_repD(2)[OF assms(1)] by blast
    then obtain info where i: "info \<in> set infos" "oi_Name info = ?path k" using list_complete[OF l, of "?path k"] k by auto
    then have "name info = k" using name[OF i(1)] assms(2,3) k by (metis (no_types, lifting) inj_onD mem_Collect_eq subsetD)
    then show "k \<in> name ` set infos" using i(1) by blast
  qed
  moreover have "has_prefix (?path key) ?pre" if "key \<in> dom m" "has_prefix key prefix" for key
    using TokenPrefix_narrows[of key prefix] store_repD(1)[OF assms(1)] that by blast
  ultimately have "{k \<in> name ` set infos. has_prefix k prefix} = {key \<in> dom m. has_prefix key prefix}" by blast
  then have "en_Key ` set es = {key \<in> dom m. has_prefix key prefix}"
    using arg_cong[OF es(1), of set] by simp
  moreover have "names = map en_Key (sort_by (key_less en_Key) es) \<and> failures = []"
    using assms(4) l es(2) by (auto simp: List_def ListEntries_def es_def split: prod.splits)
  ultimately show ?thesis using sort_by_strings[OF d] by simp
qed

end


section \<open>A bucket in memory\<close>

text \<open>An implementation of the contract: objects by bucket and name, the newest first; nothing fails.\<close>

type_synonym memory = "((string \<times> string) \<times> object) list"

definition mem_contents :: "memory \<Rightarrow> string \<Rightarrow> string \<Rightarrow> (string \<times> (string \<times> string) list) option" where
  "mem_contents c b n = map_option (\<lambda>obj. (ob_Data obj, ob_Meta obj)) (map_of c (b, n))"

definition mem_provider :: "memory provider" where
  "mem_provider =
     \<lparr>pv_Put = (\<lambda>c b obj. (((b, ob_Name obj), obj) # c, None)),
      pv_Get = (\<lambda>c b n. case map_of c (b, n) of None \<Rightarrow> Inl ErrObjectNotFound | Some obj \<Rightarrow> Inr obj),
      pv_List = (\<lambda>c b prefix. Inr (map (\<lambda>(b', n). \<lparr>oi_Name = n, oi_Size = length (ob_Data (the (map_of c (b', n)))), oi_Created = 0,
           oi_Meta = ob_Meta (the (map_of c (b', n)))\<rparr>) (filter (\<lambda>(b', n). b' = b \<and> has_prefix n prefix) (remdups (map fst c))))),
      pv_Delete = (\<lambda>c b n. (filter (\<lambda>(k, _). k \<noteq> (b, n)) c, None)),
      pv_PutStream = (\<lambda>c b obj. if rd_fails (so_Data obj) then (c, Some (Provider_failed ''read''))
         else (((b, so_Name obj), \<lparr>ob_Name = so_Name obj, ob_Data = rd_data (so_Data obj), ob_Meta = so_Meta obj\<rparr>) # c, None)),
      pv_GetStream = (\<lambda>c b n off len. case map_of c (b, n) of None \<Rightarrow> Inl ErrObjectNotFound
         | Some obj \<Rightarrow> Inr \<lparr>rd_data = (if len < 0 then drop off (ob_Data obj) else take (nat len) (drop off (ob_Data obj))), rd_fails = False\<rparr>)\<rparr>"

lemma map_of_filter_key: "map_of (filter (\<lambda>(k, _). k \<noteq> x) c) y = (if y = x then None else map_of c y)"
  by (induction c) auto

interpretation mem: object_store mem_provider mem_contents
proof
  fix c b n prefix infos
  assume l: "pv_List mem_provider c b prefix = Inr infos"
  let ?sel = "filter (\<lambda>(b', n). b' = b \<and> has_prefix n prefix) (remdups (map fst c))"
  have infos: "infos = map (\<lambda>(b', n). \<lparr>oi_Name = n, oi_Size = length (ob_Data (the (map_of c (b', n)))), oi_Created = 0,
           oi_Meta = ob_Meta (the (map_of c (b', n)))\<rparr>) ?sel"
    using l by (simp add: mem_provider_def)
  have names: "map oi_Name infos = map snd ?sel" by (simp add: infos case_prod_unfold)
  have "inj_on snd (set ?sel)" by (auto simp: inj_on_def)
  then show "distinct (map oi_Name infos)" unfolding names by (simp add: distinct_map)
  have "oi_Name ` set infos = set (map oi_Name infos)" by simp
  also have "\<dots> = {n. has_prefix n prefix \<and> (b, n) \<in> fst ` set c}" unfolding names by force
  finally have "n \<in> oi_Name ` set infos \<longleftrightarrow> has_prefix n prefix \<and> (b, n) \<in> fst ` set c" by blast
  moreover have "mem_contents c b n \<noteq> None \<longleftrightarrow> (b, n) \<in> fst ` set c" by (simp add: mem_contents_def map_of_eq_None_iff)
  ultimately show "n \<in> oi_Name ` set infos \<longleftrightarrow> has_prefix n prefix \<and> mem_contents c b n \<noteq> None" by blast
  fix info assume "info \<in> set infos"
  then obtain m where m: "(b, m) \<in> set ?sel" "info = \<lparr>oi_Name = m, oi_Size = length (ob_Data (the (map_of c (b, m)))), oi_Created = 0,
           oi_Meta = ob_Meta (the (map_of c (b, m)))\<rparr>" by (auto simp: infos)
  then have "map_of c (b, m) \<noteq> None" by (auto simp: map_of_eq_None_iff)
  then show "\<exists>d. mem_contents c b (oi_Name info) = Some (d, oi_Meta info)" using m(2) by (auto simp: mem_contents_def)
qed (auto simp: mem_provider_def mem_contents_def map_of_filter_key split: option.splits if_splits)

section \<open>The store is a map\<close>

datatype store_op = WriteOp string string string | DeleteOp string

fun op_key :: "store_op \<Rightarrow> string" where
  "op_key (WriteOp key data rnd) = key"
| "op_key (DeleteOp key) = key"

fun op_random :: "store_op \<Rightarrow> bool" where
  "op_random (WriteOp key data rnd) = (68 \<le> length rnd)"
| "op_random (DeleteOp key) = True"

fun run_op :: "crypto_lib \<Rightarrow> 'c provider \<Rightarrow> store \<Rightarrow> store_op \<Rightarrow> 'c \<Rightarrow> 'c \<times> storage_error option" where
  "run_op C p s (WriteOp key data rnd) c = Write C p s key data rnd c"
| "run_op C p s (DeleteOp key) c = Delete C p s key c"

fun map_op :: "store_op \<Rightarrow> (string \<Rightarrow> string option) \<Rightarrow> string \<Rightarrow> string option" where
  "map_op (WriteOp key data rnd) m = m(key \<mapsto> data)"
| "map_op (DeleteOp key) m = m(key := None)"

text \<open>A history in which every operation reports success.\<close>

fun store_run :: "crypto_lib \<Rightarrow> 'c provider \<Rightarrow> store \<Rightarrow> store_op list \<Rightarrow> 'c \<Rightarrow> 'c option" where
  "store_run C p s [] c = Some c"
| "store_run C p s (oper # ops) c =
     (case run_op C p s oper c of (c', Some e) \<Rightarrow> None | (c', None) \<Rightarrow> store_run C p s ops c')"

lemma map_op_dom: "dom (map_op oper m) \<subseteq> insert (op_key oper) (dom m)"
  by (cases oper) auto

context object_store
begin

lemma store_run_rep:
  assumes "store_ok C s" "inj_on (TokenPath C (sr_tokenKey s)) K" "\<forall>oper\<in>set ops. op_key oper \<in> K \<and> op_random oper"
    and "store_rep C contents s c m" "dom m \<subseteq> K" "store_run C p s ops c = Some c'"
  shows "store_rep C contents s c' (fold map_op ops m) \<and> dom (fold map_op ops m) \<subseteq> K"
  using assms(3-6)
proof (induction ops arbitrary: c m)
  case Nil
  then show ?case by simp
next
  case (Cons oper ops)
  obtain c1 where c1: "run_op C p s oper c = (c1, None)" "store_run C p s ops c1 = Some c'"
    using Cons.prems(4) by (auto split: prod.splits option.splits)
  have "store_rep C contents s c1 (map_op oper m)"
    using c1(1) Cons.prems(1-3) Write_rep[OF assms(1) Cons.prems(2) assms(2) Cons.prems(3)] Delete_rep[OF Cons.prems(2) assms(2) Cons.prems(3)]
    by (cases oper) auto
  moreover have "dom (map_op oper m) \<subseteq> K" using map_op_dom[of oper m] Cons.prems(1,3) by auto
  ultimately show ?case using Cons.IH[OF _ _ _ c1(2)] Cons.prems(1) by simp
qed

end

text \<open>How a read answers for a map: never with other bytes, and never with a failed authentication.\<close>

definition read_agrees :: "storage_error + string \<Rightarrow> string \<Rightarrow> string option \<Rightarrow> bool" where
  "read_agrees r key v \<longleftrightarrow>
     (case r of
        Inr data \<Rightarrow> v = Some data
      | Inl (Store_provider ErrObjectNotFound) \<Rightarrow> v = None
      | Inl (Store_provider (Provider_failed _)) \<Rightarrow> True
      | Inl (Store_crypto (ErrInvalidKey f)) \<Rightarrow> ValidateLogicalKey key = Some f
      | Inl _ \<Rightarrow> False)"

text \<open>
  C9. The encrypted store is a map. Over any cloud that honours the provider contract, after
  any successful history of writes and deletes that started from an empty bucket, reading a
  key returns the bytes last written to it or reports it missing, and listing a prefix
  returns exactly the keys present that start with it, sorted, each once, with no failure:
  nothing is lost or mixed up between the names the cloud sees and the names the client
  uses. The tokens of the keys in play must differ, as tags of a keyed hash do.
\<close>

theorem store_is_a_map:
  assumes "object_store p contents" "crypto_laws C" "NewStore C bucket keys = Inr s" "keyring_ids_ok keys"
    and "inj_on (TokenPath C (sr_tokenKey s)) K" "\<forall>oper\<in>set ops. op_key oper \<in> K \<and> op_random oper" "key \<in> K"
    and "\<forall>n. contents c0 bucket n = None" "store_run C p s ops c0 = Some c" "m = fold map_op ops Map.empty"
  shows "read_agrees (Read C p s key c) key (m key)
    \<and> (\<forall>prefix names failures. List C p s prefix c = Inr (names, failures) \<longrightarrow>
         failures = [] \<and> names = sorted_list_of_set {k \<in> dom m. has_prefix k prefix})"
proof -
  note ok = NewStore_ok[OF assms(3,2,4)]
  have "store_rep C contents s c0 Map.empty" using assms(8) ok by (simp add: store_rep_def)
  then have rep: "store_rep C contents s c m" "dom m \<subseteq> K"
    using object_store.store_run_rep[OF assms(1) conjunct1[OF ok] assms(5,6) _ _ assms(9)] assms(10) by simp_all
  show ?thesis
    using object_store.Read_rep[OF assms(1) rep(1) assms(5) rep(2) assms(7)] object_store.List_rep[OF assms(1) rep(1) assms(5) rep(2)]
    unfolding read_agrees_def by blast
qed


definition sample_ring :: "string keyring" where
  "sample_ring = \<lparr>kr_nameKeys = kr_nameKeys (sample_keys 1), kr_keys = kr_keys (sample_keys 1), kr_scopes = []\<rparr>"

lemma sample_ring_store: "\<exists>s. NewStore plain_lib ''bucket'' sample_ring = Inr s \<and> sr_keys s = sample_ring"
proof -
  have "Valid (\<lambda>m. m) sample_ring = None" by code_simp
  then show ?thesis by (simp add: NewStore_def ActiveNameKey_def sample_ring_def sample_keys_def)
qed

lemma write_succeeds:
  assumes "crypto_laws C" "ValidateLogicalKey key = None" "length data \<le> MaxPlaintext" "68 \<le> length rnd" "store_ok C s"
  shows "\<exists>c'. Write C mem_provider s key data rnd c = (c', None)"
proof -
  obtain kek where k: "ActiveKEK (sr_keys s) = Inr kek"
    using assms(5) by (auto simp: store_ok_def Valid_None keysValid_None ActiveKEK_def neq_Nil_conv)
  note K = store_ok_kek[OF assms(5) k]
  let ?path = "TokenPath C (sr_tokenKey s) key"
  obtain blob sn where "Seal C \<lparr>bk_ID = ke_ID kek, bk_Material = ke_key kek\<rparr> (sr_nameKey s) ?path key data rnd = Inr (blob, sn)"
    using Seal_opens[where lookup = "kek_lookup (sr_keys s)" and kek = "\<lparr>bk_ID = ke_ID kek, bk_Material = ke_key kek\<rparr>" and nameKey = "sr_nameKey s" and path = ?path,
        OF assms(1-3) _ _ assms(4)] K by auto
  then show ?thesis using assms(2) k by (simp add: Write_def StoredName_def mem_provider_def)
qed

theorem store_is_a_map_witness:
  "\<exists>s c. NewStore plain_lib ''bucket'' sample_ring = Inr s
     \<and> store_run plain_lib mem_provider s [WriteOp ''app/a'' ''one'' (replicate 68 (byte 9)), WriteOp ''app/a'' ''two'' (replicate 68 (byte 8))] [] = Some c
     \<and> read_agrees (Read plain_lib mem_provider s ''app/a'' c) ''app/a'' (Some ''two'')"
proof -
  let ?ops = "[WriteOp ''app/a'' ''one'' (replicate 68 (byte 9)), WriteOp ''app/a'' ''two'' (replicate 68 (byte 8))]"
  obtain s where s: "NewStore plain_lib ''bucket'' sample_ring = Inr s" using sample_ring_store by blast
  have i: "keyring_ids_ok sample_ring" and v: "ValidateLogicalKey ''app/a'' = None" by code_simp+
  have ok: "store_ok plain_lib s" using NewStore_ok[OF s plain_lib_laws i] by blast
  obtain c1 where c1: "Write plain_lib mem_provider s ''app/a'' ''one'' (replicate 68 (byte 9)) [] = (c1, None)"
    using write_succeeds[OF plain_lib_laws v _ _ ok, of "''one''" "replicate 68 (byte 9)" "[]"] by (auto simp: MaxPlaintext_def)
  obtain c2 where c2: "Write plain_lib mem_provider s ''app/a'' ''two'' (replicate 68 (byte 8)) c1 = (c2, None)"
    using write_succeeds[OF plain_lib_laws v _ _ ok, of "''two''" "replicate 68 (byte 8)" c1] by (auto simp: MaxPlaintext_def)
  have r: "store_run plain_lib mem_provider s ?ops [] = Some c2" using c1 c2 by simp
  have "\<forall>oper\<in>set ?ops. op_key oper \<in> {''app/a''} \<and> op_random oper" by simp
  moreover have "\<forall>n. mem_contents [] ''bucket'' n = None" by (simp add: mem_contents_def)
  ultimately have "read_agrees (Read plain_lib mem_provider s ''app/a'' c2) ''app/a'' (fold map_op ?ops Map.empty ''app/a'')"
    using store_is_a_map[OF mem.object_store_axioms plain_lib_laws s i, of "{''app/a''}" ?ops "''app/a''" "[]" c2] r by auto
  then show ?thesis using s r by auto
qed

section \<open>A name too long for its header\<close>

text \<open>
  C28. The longest names cannot be recovered from the object. A listing whose metadata
  mirror is missing fetches at most \<open>MaxHeaderLen\<close> bytes of the object for the name its
  header carries. For a buffered object whose key is longer than 1022 bytes that cuts the
  body below the smallest one a header is parsed with, so the name is reported as failed
  integrity although the whole object still gives it.
\<close>

theorem long_name_needs_its_mirror:
  assumes "crypto_laws C" "ValidateLogicalKey key = None" "1022 < length key" "length plaintext \<le> MaxPlaintext"
    and "length (bk_ID kek) = KeyIDLen" "length (bk_Material kek) = KeyLen" "68 \<le> length rnd"
    and "Seal C kek (sr_nameKey s) (oi_Name info) key plaintext rnd = Inr (blob, sealedName)" "oi_Meta info = []"
    and "pv_GetStream p c (sr_bucket s) (oi_Name info) 0 (int MaxHeaderLen) = Inr \<lparr>rd_data = take MaxHeaderLen blob, rd_fails = False\<rparr>"
  shows "logicalName C p s info c = Inl (Name_error (oi_Name info) (Store_crypto ErrIntegrity))
    \<and> HeaderName C (sr_nameKey s) (oi_Name info) blob = Inr key"
proof -
  obtain wn wr body where b: "blob = blob_prefix Version1 (bk_ID kek) wn wr (length sealedName) @ sealedName @ body"
    and l: "length wn = NonceLen" "length wr = WrappedDEKLen" "length sealedName = NonceLen + paddedLen (2 + length key) + TagLen"
    and n: "HeaderName C (sr_nameKey s) (oi_Name info) blob = Inr key"
    using Seal_opens[where lookup = "\<lambda>_. Some (bk_Material kek)" and nameKey = "sr_nameKey s" and path = "oi_Name info", OF assms(1,2,4-7)] assms(8) by auto
  have "length key \<le> 1024" using ValidateLogicalKey_length[OF assms(2)] by (simp add: MaxKeyBytes_def)
  then have "(2 + length key + 31) div 32 = 33" using assms(3) by simp
  then have p: "paddedLen (2 + length key) = 1056" by (simp add: paddedLen_def NamePadUnit_def)
  then have s: "length sealedName = 1084" "length sealedName < 65536" using l(3) by (simp_all add: layout_defs)
  note F = blob_prefix_fields[OF assms(5) l(1,2) s(2), of Version1 "sealedName @ body", folded b]
  have h: "length (blob_prefix Version1 (bk_ID kek) wn wr (length sealedName)) = HeaderLen"
    using assms(5) l by (simp add: blob_prefix_def layout_defs be16_def)
  then have t: "take MaxHeaderLen blob = blob_prefix Version1 (bk_ID kek) wn wr (length sealedName) @ take 1093 (sealedName @ body)"
    unfolding b by (simp add: MaxHeaderLen_def layout_defs)
  have "ParseHeader (take MaxHeaderLen blob) = Inl ErrIntegrity"
    unfolding t using ParseHeader_blob[OF assms(5) l(1,2) s(2), of Version1 "take 1093 (sealedName @ body)"] s(1) by (simp add: layout_defs)
  moreover have "read_limited MaxHeaderLen \<lparr>rd_data = take MaxHeaderLen blob, rd_fails = False\<rparr> = Inr (take MaxHeaderLen blob)"
    by (simp add: read_limited_def)
  ultimately show ?thesis using n assms(9,10) by (simp add: logicalName_def mirror_name_def get_or_def fetch_header_def)
qed


theorem long_name_needs_its_mirror_witness:
  "\<exists>s c info. NewStore plain_lib ''bucket'' sample_ring = Inr s
     \<and> logicalName plain_lib mem_provider s info c = Inl (Name_error (oi_Name info) (Store_crypto ErrIntegrity))"
proof -
  let ?key = "replicate 1023 (CHR ''a'')"
  obtain s where s: "NewStore plain_lib ''bucket'' sample_ring = Inr s" using sample_ring_store by blast
  have "\<not> has_suffix ?key ''/''" by (auto simp: has_suffix_iff dest: arg_cong[where f = last])
  moreover have "split_on (CHR ''/'') ?key = [?key]" by (rule split_on_no_occ) simp
  moreover have "utf8_valid ?key" by (rule utf8_valid_ascii) (simp add: list_all_iff byte_val_def)
  moreover have "?key \<noteq> ''''" by (metis length_0_conv length_replicate zero_neq_numeral)
  ultimately have v: "ValidateLogicalKey ?key = None" by (simp add: ValidateLogicalKey_def MaxKeyBytes_def MaxKeySegments_def)
  let ?kek = "\<lparr>bk_ID = ''key-0001'', bk_Material = replicate 32 (byte 3)\<rparr>"
  obtain blob sn where b: "Seal plain_lib ?kek (sr_nameKey s) ''n'' ?key ''hello'' (replicate 68 (byte 9)) = Inr (blob, sn)"
    using Seal_opens[where lookup = "\<lambda>_. Some (replicate 32 (byte 3))" and kek = ?kek and nameKey = "sr_nameKey s" and path = "''n''",
        OF plain_lib_laws v, of "''hello''" "replicate 68 (byte 9)"] by (auto simp: MaxPlaintext_def KeyIDLen_def KeyLen_def)
  let ?info = "\<lparr>oi_Name = ''n'', oi_Size = length blob, oi_Created = 0, oi_Meta = []\<rparr>"
  let ?c = "[((''bucket'', ''n''), \<lparr>ob_Name = ''n'', ob_Data = blob, ob_Meta = []\<rparr>)]"
  have "sr_bucket s = ''bucket''" using s by (auto simp: NewStore_def split: option.splits sum.splits)
  then have "pv_GetStream mem_provider ?c (sr_bucket s) ''n'' 0 (int MaxHeaderLen) = Inr \<lparr>rd_data = take MaxHeaderLen blob, rd_fails = False\<rparr>"
    by (simp add: mem_provider_def)
  then have "logicalName plain_lib mem_provider s ?info ?c = Inl (Name_error (oi_Name ?info) (Store_crypto ErrIntegrity))"
    using b long_name_needs_its_mirror[OF plain_lib_laws v, of "''hello''" ?kek "replicate 68 (byte 9)" s ?info blob sn mem_provider ?c]
    by (simp add: MaxPlaintext_def KeyIDLen_def KeyLen_def)
  then show ?thesis using s by (intro exI[of _ s] exI[of _ ?c] exI[of _ ?info]) (rule conjI)
qed

end
