(* ===== verification/Vault.thy ===== *)
theory Vault
  imports Keyring
begin

text \<open>
  The keyholder's vault (\<open>datasphere/keyholder/vault.go\<close>) and the operations on scopes that
  touch key bytes in place (\<open>Zero\<close>, \<open>Clone\<close>, \<open>Zeroed\<close> of \<open>datasphere/scope.go\<close>, \<open>Zero\<close> of
  \<open>bundle.go\<close>). Key material lies on a heap of byte slices, because copying a \<open>Scope\<close>
  shares its slices and wiping one wipes it for every holder: a key entry of the vault, of
  a bundle and of a request in flight is a reference. The second half gives the vault over
  key material held by value, and shows that the heap version behaves as that one does.
  The vault's lock makes every method one step.
\<close>

section \<open>Key material on a heap\<close>

record heap =
  hp_next :: nat
  hp_cells :: "nat \<Rightarrow> string"

type_synonym ref_scope = "nat scope"

definition alloc :: "string \<Rightarrow> heap \<Rightarrow> nat \<times> heap" where
  "alloc bs h = (hp_next h, h\<lparr>hp_next := Suc (hp_next h), hp_cells := (hp_cells h)(hp_next h := bs)\<rparr>)"

definition clear :: "nat \<Rightarrow> heap \<Rightarrow> heap" where
  "clear a h = h\<lparr>hp_cells := (hp_cells h)(a := replicate (length (hp_cells h a)) (byte 0))\<rparr>"

definition Zero :: "ref_scope \<Rightarrow> heap \<Rightarrow> heap" where
  "Zero s h = fold (\<lambda>e. clear (ke_key e)) (kr_keys (sc_keys s)) (fold (\<lambda>e. clear (ke_key e)) (kr_nameKeys (sc_keys s)) h)"

text \<open>
  Copying entries into fresh slices; \<open>rd h\<close> reads what is copied. \<open>cloneEntries\<close> reads
  slices of the heap, and a parsed document's material (by value) is laid out the same way.
\<close>

fun copyEntries :: "(heap \<Rightarrow> 'k \<Rightarrow> string) \<Rightarrow> 'k key_entry list \<Rightarrow> heap \<Rightarrow> nat key_entry list \<times> heap" where
  "copyEntries rd [] h = ([], h)"
| "copyEntries rd (e # es) h =
     (case alloc (rd h (ke_key e)) h of (a, h) \<Rightarrow>
      case copyEntries rd es h of (out, h) \<Rightarrow> (\<lparr>ke_ID = ke_ID e, ke_Created = ke_Created e, ke_key = a\<rparr> # out, h))"

definition cloneEntries :: "nat key_entry list \<Rightarrow> heap \<Rightarrow> nat key_entry list \<times> heap" where
  "cloneEntries es h = copyEntries hp_cells es h"

definition copyScope :: "(heap \<Rightarrow> 'k \<Rightarrow> string) \<Rightarrow> 'k scope \<Rightarrow> heap \<Rightarrow> ref_scope \<times> heap" where
  "copyScope rd s h =
     (case copyEntries rd (kr_nameKeys (sc_keys s)) h of (names, h) \<Rightarrow>
      case copyEntries rd (kr_keys (sc_keys s)) h of (ks, h) \<Rightarrow>
        (\<lparr>sc_Name = sc_Name s, sc_Prefix = sc_Prefix s, sc_Created = sc_Created s, sc_Derivation = sc_Derivation s,
          sc_keys = \<lparr>kr_nameKeys = names, kr_keys = ks\<rparr>\<rparr>, h))"

definition Clone :: "ref_scope \<Rightarrow> heap \<Rightarrow> ref_scope \<times> heap" where
  "Clone s h =
     (case cloneEntries (kr_nameKeys (sc_keys s)) h of (names, h) \<Rightarrow>
      case cloneEntries (kr_keys (sc_keys s)) h of (ks, h) \<Rightarrow> (s\<lparr>sc_keys := \<lparr>kr_nameKeys = names, kr_keys = ks\<rparr>\<rparr>, h))"

lemma Clone_copy: "Clone s h = copyScope hp_cells s h"
  by (cases s) (simp add: Clone_def copyScope_def cloneEntries_def split: prod.splits)

definition allZeroBytes :: "string \<Rightarrow> bool" where
  "allZeroBytes b \<longleftrightarrow> b \<noteq> '''' \<and> list_all (\<lambda>c. c = byte 0) b"

definition Zeroed :: "ref_scope \<Rightarrow> heap \<Rightarrow> bool" where
  "Zeroed s h \<longleftrightarrow> list_all (\<lambda>e. allZeroBytes (hp_cells h (ke_key e))) (kr_nameKeys (sc_keys s))
     \<and> list_all (\<lambda>e. allZeroBytes (hp_cells h (ke_key e))) (kr_keys (sc_keys s))"

definition zero_scopes :: "ref_scope list \<Rightarrow> heap \<Rightarrow> heap" where
  "zero_scopes ss h = fold Zero ss h"

definition ZeroBundle :: "nat unseal_bundle \<Rightarrow> heap \<Rightarrow> nat unseal_bundle \<times> heap" where
  "ZeroBundle b h = (b\<lparr>bu_scopes := [], bu_zeroed := True\<rparr>, zero_scopes (bu_scopes b) h)"

section \<open>The vault\<close>

datatype phase = PhaseRestartSealed | PhaseUnsealed | PhaseOperatorHold

datatype intent = IntentOperator | IntentReseed | IntentHandOver

datatype vault_error =
    Nil_bundle
  | ErrInstanceMismatch string string
  | ErrNotServing phase
  | ErrAlreadyServing "64 word"
  | ErrOperatorHold gotime string
  | ErrGenerationTooOld "64 word" "64 word"
  | Scope_invalid keyring_fault
  | ErrSealed
  | ErrOutOfScope

text \<open>One record for both versions: \<open>'k\<close> is a reference or the bytes themselves.\<close>

record 'k vault =
  va_instance :: string
  va_boot :: string
  va_phase :: phase
  va_since :: gotime
  va_holdReason :: string
  va_generation :: "64 word"
  va_scopes :: "'k scope list"

record vault_state =
  st_Phase :: phase
  st_Since :: gotime
  st_Generation :: "64 word"
  st_HoldReason :: string
  st_Scopes :: "string list"
  st_Boot :: string
  st_Keys :: "(string \<times> string list) list"

text \<open>\<open>newBootID\<close>: \<open>rnd\<close> is what the system source of randomness gave, \<open>None\<close> if reading it failed.\<close>

definition newBootID :: "string option \<Rightarrow> string" where
  "newBootID rnd = (case rnd of None \<Rightarrow> '''' | Some b \<Rightarrow> hex_encode b)"

definition NewVault :: "string \<Rightarrow> gotime \<Rightarrow> string option \<Rightarrow> 'k vault" where
  "NewVault instance' now rnd =
     \<lparr>va_instance = instance', va_boot = newBootID rnd, va_phase = PhaseRestartSealed, va_since = now,
      va_holdReason = '''', va_generation = 0, va_scopes = []\<rparr>"

definition State :: "'k vault \<Rightarrow> vault_state" where
  "State v =
     \<lparr>st_Phase = va_phase v, st_Since = va_since v, st_Generation = va_generation v, st_HoldReason = va_holdReason v,
      st_Scopes = map sc_Name (va_scopes v), st_Boot = va_boot v,
      st_Keys = fold (\<lambda>s. AList.update (sc_Name s) (map (\<lambda>e. hex_encode (ke_ID e)) (kr_keys (sc_keys s)))) (va_scopes v) []\<rparr>"

definition Ready :: "'k vault \<Rightarrow> bool" where
  "Ready v \<longleftrightarrow> va_phase v = PhaseUnsealed"

text \<open>
  The checks of \<open>Unseal\<close> before anything is installed, in the order of the code: an error,
  \<open>Some True\<close> to install and \<open>Some False\<close> for the idempotent return.
\<close>

definition unseal_checks :: "'k vault \<Rightarrow> 'j unseal_bundle \<Rightarrow> intent \<Rightarrow> vault_error + bool" where
  "unseal_checks v b intent =
     (if bu_instance b \<noteq> va_instance v then Inl (ErrInstanceMismatch (bu_instance b) (va_instance v))
      else if intent = IntentHandOver \<and> va_phase v \<noteq> PhaseUnsealed then Inl (ErrNotServing (va_phase v))
      else if intent = IntentReseed \<and> va_phase v = PhaseUnsealed then Inl (ErrAlreadyServing (va_generation v))
      else if va_phase v = PhaseOperatorHold \<and> intent \<noteq> IntentOperator then Inl (ErrOperatorHold (va_since v) (va_holdReason v))
      else if bu_generation b < va_generation v then Inl (ErrGenerationTooOld (bu_generation b) (va_generation v))
      else if va_phase v = PhaseUnsealed \<and> bu_generation b = va_generation v then Inr False
      else Inr True)"

fun clone_scopes :: "ref_scope list \<Rightarrow> heap \<Rightarrow> (vault_error + ref_scope list) \<times> heap" where
  "clone_scopes [] h = (Inr [], h)"
| "clone_scopes (s # ss) h =
     (case scopeValid (hp_cells h) s of
        Some f \<Rightarrow> (Inl (Scope_invalid f), h)
      | None \<Rightarrow>
          (case Clone s h of (c, h) \<Rightarrow>
           case clone_scopes ss h of (r, h) \<Rightarrow> (case r of Inl e \<Rightarrow> Inl e | Inr cs \<Rightarrow> Inr (c # cs), h)))"

definition dropLocked :: "nat vault \<Rightarrow> heap \<Rightarrow> nat vault \<times> heap" where
  "dropLocked v h = (v\<lparr>va_scopes := []\<rparr>, zero_scopes (va_scopes v) h)"

definition install :: "gotime \<Rightarrow> 'j unseal_bundle \<Rightarrow> 'k scope list \<Rightarrow> 'k vault \<Rightarrow> 'k vault" where
  "install now b scopes v =
     v\<lparr>va_scopes := scopes, va_generation := bu_generation b, va_phase := PhaseUnsealed, va_holdReason := '''', va_since := now\<rparr>"

definition Unseal :: "gotime \<Rightarrow> nat unseal_bundle option \<Rightarrow> intent \<Rightarrow> nat vault \<Rightarrow> heap \<Rightarrow> nat vault \<times> heap \<times> vault_error option" where
  "Unseal now bundle' intent v h =
     (case bundle' of
        None \<Rightarrow> (v, h, Some Nil_bundle)
      | Some b \<Rightarrow>
          (case unseal_checks v b intent of
             Inl e \<Rightarrow> (v, h, Some e)
           | Inr False \<Rightarrow> (v, h, None)
           | Inr True \<Rightarrow>
               (case clone_scopes (bu_scopes b) h of
                  (Inl e, h) \<Rightarrow> (v, h, Some e)
                | (Inr scopes, h) \<Rightarrow>
                    (case dropLocked v h of (v, h) \<Rightarrow> (install now b scopes v, h, None)))))"

definition seal_phase :: "gotime \<Rightarrow> bool \<Rightarrow> string \<Rightarrow> 'k vault \<Rightarrow> 'k vault" where
  "seal_phase now hold reason v =
     v\<lparr>va_phase := (if hold then PhaseOperatorHold else PhaseRestartSealed),
       va_holdReason := (if hold then reason else ''''), va_since := now\<rparr>"

definition SealVault :: "gotime \<Rightarrow> bool \<Rightarrow> string \<Rightarrow> nat vault \<Rightarrow> heap \<Rightarrow> nat vault \<times> heap" where
  "SealVault now hold reason v h = (case dropLocked v h of (v, h) \<Rightarrow> (seal_phase now hold reason v, h))"

definition ReleaseHold :: "gotime \<Rightarrow> 'k vault \<Rightarrow> 'k vault" where
  "ReleaseHold now v =
     (if va_phase v = PhaseOperatorHold
      then v\<lparr>va_phase := PhaseRestartSealed, va_holdReason := '''', va_since := now\<rparr> else v)"

definition vault_Scope :: "string \<Rightarrow> nat vault \<Rightarrow> heap \<Rightarrow> (vault_error + ref_scope) \<times> heap" where
  "vault_Scope logicalKey v h =
     (if va_phase v \<noteq> PhaseUnsealed then (Inl ErrSealed, h)
      else case find (\<lambda>s. Owns s logicalKey) (va_scopes v) of
        None \<Rightarrow> (Inl ErrOutOfScope, h)
      | Some s \<Rightarrow> (case Clone s h of (c, h) \<Rightarrow> (Inr c, h)))"


section \<open>References and the bytes they read\<close>

definition deref_entry :: "('k \<Rightarrow> string) \<Rightarrow> 'k key_entry \<Rightarrow> string key_entry" where
  "deref_entry rd e = \<lparr>ke_ID = ke_ID e, ke_Created = ke_Created e, ke_key = rd (ke_key e)\<rparr>"

definition deref_keys :: "('k \<Rightarrow> string) \<Rightarrow> 'k key_lists \<Rightarrow> string key_lists" where
  "deref_keys rd k = \<lparr>kr_nameKeys = map (deref_entry rd) (kr_nameKeys k), kr_keys = map (deref_entry rd) (kr_keys k)\<rparr>"

definition deref :: "('k \<Rightarrow> string) \<Rightarrow> 'k scope \<Rightarrow> string scope" where
  "deref rd s = \<lparr>sc_Name = sc_Name s, sc_Prefix = sc_Prefix s, sc_Created = sc_Created s, sc_Derivation = sc_Derivation s,
     sc_keys = deref_keys rd (sc_keys s)\<rparr>"

lemma deref_simps [simp]:
  "ke_ID (deref_entry rd e) = ke_ID e" "ke_key (deref_entry rd e) = rd (ke_key e)"
  "sc_Name (deref rd s) = sc_Name s" "sc_Prefix (deref rd s) = sc_Prefix s" "sc_keys (deref rd s) = deref_keys rd (sc_keys s)"
  "kr_nameKeys (deref_keys rd k) = map (deref_entry rd) (kr_nameKeys k)" "kr_keys (deref_keys rd k) = map (deref_entry rd) (kr_keys k)"
  by (simp_all add: deref_entry_def deref_def deref_keys_def)

lemma validEntries_deref: "validEntries (\<lambda>m. m) what seen (map (deref_entry rd) es) = validEntries rd what seen es"
  by (induction es arbitrary: seen) auto

lemma scopeValid_deref: "scopeValid (\<lambda>m. m) (deref rd s) = scopeValid rd s"
  by (simp add: scopeValid_def keysValid_def validEntries_deref cong: option.case_cong)

lemma Owns_deref: "Owns (deref rd s) key = Owns s key" by (simp add: Owns_def)

definition key_refs :: "ref_scope \<Rightarrow> nat list" where
  "key_refs s = map ke_key (kr_nameKeys (sc_keys s)) @ map ke_key (kr_keys (sc_keys s))"

definition refs_of :: "ref_scope list \<Rightarrow> nat list" where
  "refs_of ss = concat (map key_refs ss)"

lemma refs_of_simps [simp]: "refs_of [] = []" "refs_of (s # ss) = key_refs s @ refs_of ss" "refs_of (ss @ ts) = refs_of ss @ refs_of ts"
  by (simp_all add: refs_of_def)

lemma deref_cong: "(\<And>a. a \<in> set (key_refs s) \<Longrightarrow> rd a = rd' a) \<Longrightarrow> deref rd s = deref rd' s"
  by (auto simp: deref_def deref_keys_def deref_entry_def key_refs_def)

lemma derefs_cong: "(\<And>a. a \<in> set (refs_of ss) \<Longrightarrow> rd a = rd' a) \<Longrightarrow> map (deref rd) ss = map (deref rd') ss"
  by (auto simp: refs_of_def intro!: deref_cong)

text \<open>Wiping touches the slices it is given and nothing else.\<close>

lemma clear_entries:
  "hp_next (fold (\<lambda>e. clear (ke_key e)) es h) = hp_next h"
  "a \<notin> ke_key ` set es \<Longrightarrow> hp_cells (fold (\<lambda>e. clear (ke_key e)) es h) a = hp_cells h a"
  "length (hp_cells (fold (\<lambda>e. clear (ke_key e)) es h) a) = length (hp_cells h a)"
  "a \<in> ke_key ` set es \<Longrightarrow> hp_cells (fold (\<lambda>e. clear (ke_key e)) es h) a = replicate (length (hp_cells h a)) (byte 0)"
proof -
  have clear: "hp_next (clear b h) = hp_next h" "hp_cells (clear b h) a = (if a = b then replicate (length (hp_cells h a)) (byte 0) else hp_cells h a)"
    for b :: nat and h a by (simp_all add: clear_def)
  show n: "hp_next (fold (\<lambda>e. clear (ke_key e)) es h) = hp_next h" by (induction es arbitrary: h) (simp_all add: clear)
  show l: "length (hp_cells (fold (\<lambda>e. clear (ke_key e)) es h) a) = length (hp_cells h a)" for a es h
    by (induction es arbitrary: h) (simp_all add: clear)
  show o: "a \<notin> ke_key ` set es \<Longrightarrow> hp_cells (fold (\<lambda>e. clear (ke_key e)) es h) a = hp_cells h a" for es h
    by (induction es arbitrary: h) (simp_all add: clear)
  show "a \<in> ke_key ` set es \<Longrightarrow> hp_cells (fold (\<lambda>e. clear (ke_key e)) es h) a = replicate (length (hp_cells h a)) (byte 0)"
  proof (induction es arbitrary: h)
    case (Cons e es)
    then show ?case using o[of es "clear (ke_key e) h"] by (cases "a \<in> ke_key ` set es") (auto simp: clear)
  qed simp
qed

lemma Zero_heap:
  "hp_next (Zero s h) = hp_next h"
  "a \<notin> set (key_refs s) \<Longrightarrow> hp_cells (Zero s h) a = hp_cells h a"
  "a \<in> set (key_refs s) \<Longrightarrow> hp_cells (Zero s h) a = replicate (length (hp_cells h a)) (byte 0)"
  "length (hp_cells (Zero s h) a) = length (hp_cells h a)"
proof -
  let ?h1 = "fold (\<lambda>e. clear (ke_key e)) (kr_nameKeys (sc_keys s)) h"
  show "hp_next (Zero s h) = hp_next h" "length (hp_cells (Zero s h) a) = length (hp_cells h a)"
    by (simp_all add: Zero_def clear_entries)
  show "a \<notin> set (key_refs s) \<Longrightarrow> hp_cells (Zero s h) a = hp_cells h a" by (simp add: Zero_def clear_entries(2) key_refs_def)
  show "a \<in> set (key_refs s) \<Longrightarrow> hp_cells (Zero s h) a = replicate (length (hp_cells h a)) (byte 0)"
    by (cases "a \<in> ke_key ` set (kr_keys (sc_keys s))")
      (simp_all add: Zero_def clear_entries(2) clear_entries(4) clear_entries(3) key_refs_def)
qed

lemma zero_scopes_heap:
  "hp_next (zero_scopes ss h) = hp_next h"
  "a \<notin> set (refs_of ss) \<Longrightarrow> hp_cells (zero_scopes ss h) a = hp_cells h a"
  "a \<in> set (refs_of ss) \<Longrightarrow> hp_cells (zero_scopes ss h) a = replicate (length (hp_cells h a)) (byte 0)"
proof -
  show "hp_next (zero_scopes ss h) = hp_next h" unfolding zero_scopes_def by (induction ss arbitrary: h) (simp_all add: Zero_heap)
  show o: "a \<notin> set (refs_of ss) \<Longrightarrow> hp_cells (zero_scopes ss h) a = hp_cells h a" for ss h
    unfolding zero_scopes_def by (induction ss arbitrary: h) (simp_all add: Zero_heap)
  show "a \<in> set (refs_of ss) \<Longrightarrow> hp_cells (zero_scopes ss h) a = replicate (length (hp_cells h a)) (byte 0)"
  proof (induction ss arbitrary: h)
    case (Cons s ss)
    have s: "zero_scopes (s # ss) h = zero_scopes ss (Zero s h)" by (simp add: zero_scopes_def)
    show ?case
    proof (cases "a \<in> set (refs_of ss)")
      case True
      then show ?thesis using Cons.IH by (simp add: s Zero_heap(4))
    next
      case False
      then show ?thesis using Cons.prems by (simp add: s o Zero_heap(3))
    qed
  qed simp
qed

lemma upt_append: "i \<le> j \<Longrightarrow> j \<le> k \<Longrightarrow> [i..<j] @ [j..<k] = [i..<k]"
  by (metis le_Suc_ex upt_add_eq_append)

text \<open>A copy reads the same and lies in fresh slices.\<close>

definition heap_grows :: "heap \<Rightarrow> heap \<Rightarrow> bool" where
  "heap_grows h h' \<longleftrightarrow> hp_next h \<le> hp_next h' \<and> (\<forall>a<hp_next h. hp_cells h' a = hp_cells h a)"

lemma heap_grows_refl [simp]: "heap_grows h h" by (simp add: heap_grows_def)
lemma heap_grows_less: "heap_grows h h' \<Longrightarrow> a < hp_next h \<Longrightarrow> a < hp_next h'" by (simp add: heap_grows_def)
lemma heap_grows_trans: "heap_grows a b \<Longrightarrow> heap_grows b c \<Longrightarrow> heap_grows a c" by (auto simp: heap_grows_def)

definition stable :: "(heap \<Rightarrow> 'k \<Rightarrow> string) \<Rightarrow> heap \<Rightarrow> 'k \<Rightarrow> bool" where
  "stable rd h x \<longleftrightarrow> (\<forall>h'. heap_grows h h' \<longrightarrow> rd h' x = rd h x)"

lemma stable_simps [simp]: "stable (\<lambda>h m. m) h x" "a < hp_next h \<Longrightarrow> stable hp_cells h a"
  by (simp_all add: stable_def heap_grows_def)

lemma stable_grows: "stable rd h x \<Longrightarrow> heap_grows h h' \<Longrightarrow> stable rd h' x"
  unfolding stable_def using heap_grows_trans by metis

lemma stableD: "stable rd h x \<Longrightarrow> heap_grows h h' \<Longrightarrow> rd h' x = rd h x"
  unfolding stable_def by blast

lemma stable_deref:
  assumes "\<And>e. e \<in> set es \<Longrightarrow> stable rd h (ke_key e)" "heap_grows h h'"
  shows "map (deref_entry (rd h')) es = map (deref_entry (rd h)) es"
proof (rule map_cong[OF refl])
  fix e assume "e \<in> set es"
  then have "rd h' (ke_key e) = rd h (ke_key e)" by (intro stableD[OF _ assms(2)] assms(1))
  then show "deref_entry (rd h') e = deref_entry (rd h) e" by (simp add: deref_entry_def)
qed

lemma copyEntries_heap:
  assumes "copyEntries rd es h = (out, h')" "\<forall>e\<in>set es. stable rd h (ke_key e)"
  shows "map ke_key out = [hp_next h..<hp_next h'] \<and> heap_grows h h' \<and> map (deref_entry (hp_cells h')) out = map (deref_entry (rd h)) es"
  using assms
proof (induction es arbitrary: h out h')
  case Nil
  then show ?case by simp
next
  case (Cons e es)
  define h1 where "h1 = h\<lparr>hp_next := Suc (hp_next h), hp_cells := (hp_cells h)(hp_next h := rd h (ke_key e))\<rparr>"
  obtain out1 where o: "copyEntries rd es h1 = (out1, h')" "out = \<lparr>ke_ID = ke_ID e, ke_Created = ke_Created e, ke_key = hp_next h\<rparr> # out1"
    using Cons.prems(1) by (auto simp: alloc_def h1_def split: prod.splits)
  have g: "heap_grows h h1" by (simp add: heap_grows_def h1_def)
  have "\<forall>e\<in>set es. stable rd h1 (ke_key e)" using Cons.prems(2) by (auto intro: stable_grows[OF _ g])
  note IH = Cons.IH[OF o(1) this]
  have "map (deref_entry (rd h1)) es = map (deref_entry (rd h)) es" using Cons.prems(2) by (intro stable_deref[OF _ g]) auto
  moreover have "hp_cells h' (hp_next h) = rd h (ke_key e)" using IH by (simp add: heap_grows_def h1_def)
  moreover have "map ke_key out = [hp_next h..<hp_next h']"
  proof -
    have "hp_next h < hp_next h'" "map ke_key out1 = [Suc (hp_next h)..<hp_next h']" using IH by (auto simp: heap_grows_def h1_def)
    then show ?thesis using o(2) by (simp add: upt_conv_Cons)
  qed
  ultimately show ?case using IH g heap_grows_trans o(2) by (auto simp: deref_entry_def)
qed

definition scope_stable :: "(heap \<Rightarrow> 'k \<Rightarrow> string) \<Rightarrow> heap \<Rightarrow> 'k scope \<Rightarrow> bool" where
  "scope_stable rd h s \<longleftrightarrow> (\<forall>e\<in>set (kr_nameKeys (sc_keys s)) \<union> set (kr_keys (sc_keys s)). stable rd h (ke_key e))"

lemma scope_stable_refs: "\<forall>a\<in>set (key_refs s). a < hp_next h \<Longrightarrow> scope_stable hp_cells h s"
  by (auto simp: scope_stable_def key_refs_def)

lemma copyScope_heap:
  assumes "copyScope rd s h = (c, h')" "scope_stable rd h s"
  shows "key_refs c = [hp_next h..<hp_next h'] \<and> heap_grows h h' \<and> deref (hp_cells h') c = deref (rd h) s"
proof -
  obtain names h1 ks where c: "copyEntries rd (kr_nameKeys (sc_keys s)) h = (names, h1)" "copyEntries rd (kr_keys (sc_keys s)) h1 = (ks, h')"
      "c = \<lparr>sc_Name = sc_Name s, sc_Prefix = sc_Prefix s, sc_Created = sc_Created s, sc_Derivation = sc_Derivation s,
          sc_keys = \<lparr>kr_nameKeys = names, kr_keys = ks\<rparr>\<rparr>"
    using assms(1) by (auto simp: copyScope_def split: prod.splits)
  have A: "\<forall>e\<in>set (kr_nameKeys (sc_keys s)). stable rd h (ke_key e)" "\<forall>e\<in>set (kr_keys (sc_keys s)). stable rd h (ke_key e)"
    using assms(2) by (auto simp: scope_stable_def)
  note N = copyEntries_heap[OF c(1) A(1)]
  have B: "\<forall>e\<in>set (kr_keys (sc_keys s)). stable rd h1 (ke_key e)" using A(2) by (auto intro: stable_grows[OF _ conjunct1[OF conjunct2[OF N]]])
  note K = copyEntries_heap[OF c(2) B]
  have "map (deref_entry (hp_cells h')) names = map (deref_entry (hp_cells h1)) names"
  proof (rule map_cong[OF refl])
    fix e assume "e \<in> set names"
    then have "ke_key e \<in> set (map ke_key names)" by simp
    then have "ke_key e < hp_next h1" using N by simp
    then show "deref_entry (hp_cells h') e = deref_entry (hp_cells h1) e" using K by (simp add: deref_entry_def heap_grows_def)
  qed
  moreover have "map (deref_entry (rd h1)) (kr_keys (sc_keys s)) = map (deref_entry (rd h)) (kr_keys (sc_keys s))"
    using A(2) by (intro stable_deref[OF _ conjunct1[OF conjunct2[OF N]]]) blast
  ultimately have d: "deref (hp_cells h') c = deref (rd h) s" using N K c(3) by (simp add: deref_def deref_keys_def)
  have le: "hp_next h \<le> hp_next h1" "hp_next h1 \<le> hp_next h'" using N K by (simp_all add: heap_grows_def)
  have "key_refs c = [hp_next h..<hp_next h1] @ [hp_next h1..<hp_next h']" using N K c(3) by (simp add: key_refs_def)
  then have "key_refs c = [hp_next h..<hp_next h']" using upt_append[OF le] by simp
  then show ?thesis using d N K heap_grows_trans by blast
qed


fun first_fault :: "string scope list \<Rightarrow> keyring_fault option" where
  "first_fault [] = None"
| "first_fault (s # ss) = (case scopeValid (\<lambda>m. m) s of Some f \<Rightarrow> Some f | None \<Rightarrow> first_fault ss)"

lemma first_fault_None_iff: "first_fault ss = None \<longleftrightarrow> (\<forall>s\<in>set ss. scopeValid (\<lambda>m. m) s = None)"
  by (induction ss) (auto split: option.splits)

lemma deref_grows: "heap_grows h h' \<Longrightarrow> \<forall>a\<in>set (key_refs s). a < hp_next h \<Longrightarrow> deref (hp_cells h') s = deref (hp_cells h) s"
  by (intro deref_cong) (simp add: heap_grows_def)

lemma derefs_grow: "heap_grows h h' \<Longrightarrow> \<forall>a\<in>set (refs_of ss). a < hp_next h \<Longrightarrow> map (deref (hp_cells h')) ss = map (deref (hp_cells h)) ss"
  by (intro derefs_cong) (simp add: heap_grows_def)

lemma clone_scopes_heap:
  assumes "clone_scopes ss h = (r, h')" "\<forall>a\<in>set (refs_of ss). a < hp_next h"
  shows "heap_grows h h' \<and> (case first_fault (map (deref (hp_cells h)) ss) of
      Some f \<Rightarrow> r = Inl (Scope_invalid f)
    | None \<Rightarrow> \<exists>cs. r = Inr cs \<and> refs_of cs = [hp_next h..<hp_next h'] \<and> map (deref (hp_cells h')) cs = map (deref (hp_cells h)) ss)"
  using assms
proof (induction ss arbitrary: h r)
  case Nil
  then show ?case by simp
next
  case (Cons s ss)
  show ?case
  proof (cases "scopeValid (hp_cells h) s")
    case (Some f)
    then show ?thesis using Cons.prems(1) by (simp add: scopeValid_deref)
  next
    case None
    obtain c h1 where c: "Clone s h = (c, h1)" by fastforce
    obtain r1 where r1: "clone_scopes ss h1 = (r1, h')" "r = (case r1 of Inl e \<Rightarrow> Inl e | Inr cs \<Rightarrow> Inr (c # cs))"
      using Cons.prems(1) None c by (auto split: prod.splits)
    have "scope_stable hp_cells h s" using Cons.prems(2) by (intro scope_stable_refs) auto
    note C = copyScope_heap[OF c[unfolded Clone_copy] this]
    have g: "heap_grows h h1" using C by blast
    have "\<forall>a\<in>set (refs_of ss). a < hp_next h1" using Cons.prems(2) by (auto intro: heap_grows_less[OF g])
    note IH = Cons.IH[OF r1(1) this]
    have m: "map (deref (hp_cells h1)) ss = map (deref (hp_cells h)) ss" using g Cons.prems(2) by (intro derefs_grow) auto
    have g2: "heap_grows h1 h'" using IH by blast
    have "\<forall>a\<in>set (key_refs c). a < hp_next h1" using C by auto
    then have dc: "deref (hp_cells h') c = deref (hp_cells h) s" using deref_grows[OF g2] C by simp
    have app: "[hp_next h..<hp_next h1] @ [hp_next h1..<hp_next h'] = [hp_next h..<hp_next h']"
      using g g2 by (intro upt_append) (simp_all add: heap_grows_def)
    show ?thesis
    proof (cases "first_fault (map (deref (hp_cells h)) ss)")
      case None
      then obtain cs where "r1 = Inr cs" "refs_of cs = [hp_next h1..<hp_next h']" "map (deref (hp_cells h')) cs = map (deref (hp_cells h)) ss"
        using IH m by auto
      then show ?thesis using None \<open>scopeValid (hp_cells h) s = None\<close> C dc app r1(2) heap_grows_trans[OF g g2] by (simp add: scopeValid_deref)
    next
      case (Some f)
      then show ?thesis using IH m \<open>scopeValid (hp_cells h) s = None\<close> r1(2) heap_grows_trans[OF g g2] by (simp add: scopeValid_deref)
    qed
  qed
qed

section \<open>The vault, those who push to it and those it serves\<close>

text \<open>
  A world is the vault, the bundles pushers hold and the scopes of requests in flight.
  \<open>Arrive\<close> is a parsed bundle, \<open>Wipe\<close> its owner's \<open>Zero\<close>, \<open>Admit\<close> and \<open>Finish\<close> the two
  ends of a request. \<open>'k\<close> is a reference in the program and the bytes in its specification.
\<close>

record 'k world =
  wd_vault :: "'k vault"
  wd_bundles :: "'k unseal_bundle list"
  wd_requests :: "'k scope list"
  wd_result :: "vault_error option"

datatype vault_event =
    Arrive "string unseal_bundle"
  | UnsealWith nat intent gotime
  | Wipe nat
  | SealNow gotime bool string
  | Release gotime
  | Admit string
  | Finish nat

fun place_scopes :: "string scope list \<Rightarrow> heap \<Rightarrow> ref_scope list \<times> heap" where
  "place_scopes [] h = ([], h)"
| "place_scopes (s # ss) h =
     (case copyScope (\<lambda>h m. m) s h of (c, h) \<Rightarrow> case place_scopes ss h of (cs, h) \<Rightarrow> (c # cs, h))"

definition rescope :: "'j scope list \<Rightarrow> 'k unseal_bundle \<Rightarrow> 'j unseal_bundle" where
  "rescope ss b = \<lparr>bu_instance = bu_instance b, bu_generation = bu_generation b, bu_scopes = ss, bu_zeroed = bu_zeroed b\<rparr>"

definition remove_nth :: "nat \<Rightarrow> 'a list \<Rightarrow> 'a list" where
  "remove_nth i xs = take i xs @ drop (Suc i) xs"

fun world_step :: "vault_event \<Rightarrow> nat world \<times> heap \<Rightarrow> nat world \<times> heap" where
  "world_step (Arrive b) (w, h) =
     (case place_scopes (bu_scopes b) h of (ss, h) \<Rightarrow> (w\<lparr>wd_bundles := wd_bundles w @ [rescope ss b]\<rparr>, h))"
| "world_step (UnsealWith i intent now) (w, h) =
     (if i < length (wd_bundles w)
      then case Unseal now (Some (wd_bundles w ! i)) intent (wd_vault w) h of (v, h, e) \<Rightarrow> (w\<lparr>wd_vault := v, wd_result := e\<rparr>, h)
      else (w, h))"
| "world_step (Wipe i) (w, h) =
     (if i < length (wd_bundles w)
      then case ZeroBundle (wd_bundles w ! i) h of (b, h) \<Rightarrow> (w\<lparr>wd_bundles := (wd_bundles w)[i := b]\<rparr>, h)
      else (w, h))"
| "world_step (SealNow now hold reason) (w, h) =
     (case SealVault now hold reason (wd_vault w) h of (v, h) \<Rightarrow> (w\<lparr>wd_vault := v, wd_result := None\<rparr>, h))"
| "world_step (Release now) (w, h) = (w\<lparr>wd_vault := ReleaseHold now (wd_vault w), wd_result := None\<rparr>, h)"
| "world_step (Admit key) (w, h) =
     (case vault_Scope key (wd_vault w) h of
        (Inl e, h) \<Rightarrow> (w\<lparr>wd_result := Some e\<rparr>, h)
      | (Inr c, h) \<Rightarrow> (w\<lparr>wd_requests := wd_requests w @ [c], wd_result := None\<rparr>, h))"
| "world_step (Finish i) (w, h) =
     (if i < length (wd_requests w)
      then (w\<lparr>wd_requests := remove_nth i (wd_requests w)\<rparr>, Zero (wd_requests w ! i) h)
      else (w, h))"

text \<open>The same over bytes: nothing is shared, so nothing has to be copied or wiped.\<close>

definition value_unseal :: "gotime \<Rightarrow> string unseal_bundle \<Rightarrow> intent \<Rightarrow> string vault \<Rightarrow> string vault \<times> vault_error option" where
  "value_unseal now b intent v =
     (case unseal_checks v b intent of
        Inl e \<Rightarrow> (v, Some e)
      | Inr False \<Rightarrow> (v, None)
      | Inr True \<Rightarrow>
          (case first_fault (bu_scopes b) of
             Some f \<Rightarrow> (v, Some (Scope_invalid f))
           | None \<Rightarrow> (install now b (bu_scopes b) v, None)))"

fun value_step :: "vault_event \<Rightarrow> string world \<Rightarrow> string world" where
  "value_step (Arrive b) w = w\<lparr>wd_bundles := wd_bundles w @ [b]\<rparr>"
| "value_step (UnsealWith i intent now) w =
     (if i < length (wd_bundles w)
      then case value_unseal now (wd_bundles w ! i) intent (wd_vault w) of (v, e) \<Rightarrow> w\<lparr>wd_vault := v, wd_result := e\<rparr>
      else w)"
| "value_step (Wipe i) w =
     (if i < length (wd_bundles w)
      then w\<lparr>wd_bundles := (wd_bundles w)[i := (wd_bundles w ! i)\<lparr>bu_scopes := [], bu_zeroed := True\<rparr>]\<rparr> else w)"
| "value_step (SealNow now hold reason) w =
     w\<lparr>wd_vault := seal_phase now hold reason ((wd_vault w)\<lparr>va_scopes := []\<rparr>), wd_result := None\<rparr>"
| "value_step (Release now) w = w\<lparr>wd_vault := ReleaseHold now (wd_vault w), wd_result := None\<rparr>"
| "value_step (Admit key) w =
     (if va_phase (wd_vault w) \<noteq> PhaseUnsealed then w\<lparr>wd_result := Some ErrSealed\<rparr>
      else case find (\<lambda>s. Owns s key) (va_scopes (wd_vault w)) of
        None \<Rightarrow> w\<lparr>wd_result := Some ErrOutOfScope\<rparr>
      | Some s \<Rightarrow> w\<lparr>wd_requests := wd_requests w @ [s], wd_result := None\<rparr>)"
| "value_step (Finish i) w =
     (if i < length (wd_requests w) then w\<lparr>wd_requests := remove_nth i (wd_requests w)\<rparr> else w)"

text \<open>What a world with references stands for, and when no two holders share a slice.\<close>

definition deref_vault :: "('k \<Rightarrow> string) \<Rightarrow> 'k vault \<Rightarrow> string vault" where
  "deref_vault rd v = \<lparr>va_instance = va_instance v, va_boot = va_boot v, va_phase = va_phase v, va_since = va_since v,
     va_holdReason = va_holdReason v, va_generation = va_generation v, va_scopes = map (deref rd) (va_scopes v)\<rparr>"

definition deref_bundle :: "('k \<Rightarrow> string) \<Rightarrow> 'k unseal_bundle \<Rightarrow> string unseal_bundle" where
  "deref_bundle rd b = rescope (map (deref rd) (bu_scopes b)) b"

definition world_value :: "nat world \<times> heap \<Rightarrow> string world" where
  "world_value = (\<lambda>(w, h). \<lparr>wd_vault = deref_vault (hp_cells h) (wd_vault w), wd_bundles = map (deref_bundle (hp_cells h)) (wd_bundles w),
     wd_requests = map (deref (hp_cells h)) (wd_requests w), wd_result = wd_result w\<rparr>)"

definition bundle_refs :: "nat unseal_bundle list \<Rightarrow> nat list" where
  "bundle_refs bs = refs_of (concat (map bu_scopes bs))"

definition world_refs :: "nat world \<Rightarrow> nat list" where
  "world_refs w = refs_of (va_scopes (wd_vault w)) @ bundle_refs (wd_bundles w) @ refs_of (wd_requests w)"

definition separated :: "nat world \<times> heap \<Rightarrow> bool" where
  "separated = (\<lambda>(w, h). distinct (world_refs w) \<and> (\<forall>a\<in>set (world_refs w). a < hp_next h))"


section \<open>References behave as values\<close>

lemma deref_entry_same: "deref_entry (\<lambda>m. m) = (\<lambda>e. e)"
  by (simp add: deref_entry_def fun_eq_iff)

lemma deref_same [simp]: "deref (\<lambda>m. m) s = s"
  by (cases s; cases "sc_keys s") (simp add: deref_def deref_keys_def deref_entry_same)

lemma place_scopes_heap:
  assumes "place_scopes ss h = (cs, h')"
  shows "heap_grows h h' \<and> refs_of cs = [hp_next h..<hp_next h'] \<and> map (deref (hp_cells h')) cs = ss"
  using assms
proof (induction ss arbitrary: h cs)
  case (Cons s ss)
  obtain c h1 cs1 where c: "copyScope (\<lambda>h m. m) s h = (c, h1)" "place_scopes ss h1 = (cs1, h')" "cs = c # cs1"
    using Cons.prems by (auto split: prod.splits)
  have "scope_stable (\<lambda>h m. m) h s" by (simp add: scope_stable_def)
  note C = copyScope_heap[OF c(1) this] and IH = Cons.IH[OF c(2)]
  have g: "heap_grows h h1" "heap_grows h1 h'" using C IH by blast+
  have "\<forall>a\<in>set (key_refs c). a < hp_next h1" using C by auto
  then have "deref (hp_cells h') c = s" using deref_grows[OF g(2)] C by simp
  moreover have "[hp_next h..<hp_next h1] @ [hp_next h1..<hp_next h'] = [hp_next h..<hp_next h']"
    using g by (intro upt_append) (simp_all add: heap_grows_def)
  ultimately show ?case using C IH c(3) heap_grows_trans[OF g] by simp
qed simp

lemma bundle_refs_simps [simp]:
  "bundle_refs [] = []" "bundle_refs (b # bs) = refs_of (bu_scopes b) @ bundle_refs bs" "bundle_refs (bs @ cs) = bundle_refs bs @ bundle_refs cs"
  by (simp_all add: bundle_refs_def)

lemma bundle_refs_nth: "i < length bs \<Longrightarrow> set (refs_of (bu_scopes (bs ! i))) \<subseteq> set (bundle_refs bs)"
  by (induction bs arbitrary: i) (auto simp: nth_Cons split: nat.splits)

lemma rescope_simps [simp]:
  "bu_scopes (rescope ss b) = ss" "bu_instance (rescope ss b) = bu_instance b" "bu_generation (rescope ss b) = bu_generation b"
  by (simp_all add: rescope_def)

lemma deref_vault_cong:
  assumes "\<And>a. a \<in> set (refs_of (va_scopes v)) \<Longrightarrow> rd a = rd' a"
  shows "deref_vault rd v = deref_vault rd' v"
proof -
  have "map (deref rd) (va_scopes v) = map (deref rd') (va_scopes v)" using assms by (rule derefs_cong)
  then show ?thesis by (simp only: deref_vault_def)
qed

lemma deref_bundle_cong: "(\<And>a. a \<in> set (refs_of (bu_scopes b)) \<Longrightarrow> rd a = rd' a) \<Longrightarrow> deref_bundle rd b = deref_bundle rd' b"
  unfolding deref_bundle_def by (rule arg_cong[where f = "\<lambda>ss. rescope ss b"]) (rule derefs_cong)

lemma deref_bundles_cong: "(\<And>a. a \<in> set (bundle_refs bs) \<Longrightarrow> rd a = rd' a) \<Longrightarrow> map (deref_bundle rd) bs = map (deref_bundle rd') bs"
proof (induction bs)
  case (Cons b bs)
  then show ?case by (simp add: deref_bundle_cong[of b rd rd'])
qed simp

lemma deref_vault_simps [simp]:
  "va_instance (deref_vault rd v) = va_instance v" "va_phase (deref_vault rd v) = va_phase v" "va_since (deref_vault rd v) = va_since v"
  "va_holdReason (deref_vault rd v) = va_holdReason v" "va_generation (deref_vault rd v) = va_generation v"
  "va_scopes (deref_vault rd v) = map (deref rd) (va_scopes v)"
  by (simp_all add: deref_vault_def)

lemma deref_bundle_simps [simp]:
  "bu_instance (deref_bundle rd b) = bu_instance b" "bu_generation (deref_bundle rd b) = bu_generation b"
  "bu_scopes (deref_bundle rd b) = map (deref rd) (bu_scopes b)"
  by (simp_all add: deref_bundle_def)

lemma unseal_checks_deref [simp]: "unseal_checks (deref_vault rd v) (deref_bundle rd b) intent = unseal_checks v b intent"
  by (simp add: unseal_checks_def)

lemma world_value_simps [simp]:
  "wd_vault (world_value (w, h)) = deref_vault (hp_cells h) (wd_vault w)" "wd_bundles (world_value (w, h)) = map (deref_bundle (hp_cells h)) (wd_bundles w)"
  "wd_requests (world_value (w, h)) = map (deref (hp_cells h)) (wd_requests w)" "wd_result (world_value (w, h)) = wd_result w"
  by (simp_all add: world_value_def)

lemma world_eqI:
  fixes a b :: "'k world"
  shows "wd_vault a = wd_vault b \<Longrightarrow> wd_bundles a = wd_bundles b \<Longrightarrow> wd_requests a = wd_requests b \<Longrightarrow> wd_result a = wd_result b \<Longrightarrow> a = b"
  by simp

lemma world_value_cong:
  assumes "\<And>a. a \<in> set (world_refs w) \<Longrightarrow> hp_cells h' a = hp_cells h a"
  shows "world_value (w, h') = world_value (w, h)"
proof (rule world_eqI)
  show "wd_vault (world_value (w, h')) = wd_vault (world_value (w, h))" 
    unfolding world_value_simps using assms by (intro deref_vault_cong) (simp add: world_refs_def)
  show "wd_bundles (world_value (w, h')) = wd_bundles (world_value (w, h))"
    unfolding world_value_simps using assms by (intro deref_bundles_cong) (simp add: world_refs_def)
  show "wd_requests (world_value (w, h')) = wd_requests (world_value (w, h))"
    unfolding world_value_simps using assms by (intro derefs_cong) (simp add: world_refs_def)
qed simp

definition refines_at :: "vault_event \<Rightarrow> nat world \<times> heap \<Rightarrow> bool" where
  "refines_at ev x \<longleftrightarrow> separated (world_step ev x) \<and> world_value (world_step ev x) = value_step ev (world_value x)"

lemma separatedD:
  assumes "separated (w, h)"
  shows "distinct (refs_of (va_scopes (wd_vault w)))" "distinct (bundle_refs (wd_bundles w))" "distinct (refs_of (wd_requests w))"
    "set (refs_of (va_scopes (wd_vault w))) \<inter> set (bundle_refs (wd_bundles w)) = {}"
    "set (refs_of (va_scopes (wd_vault w))) \<inter> set (refs_of (wd_requests w)) = {}"
    "set (bundle_refs (wd_bundles w)) \<inter> set (refs_of (wd_requests w)) = {}"
    "a \<in> set (refs_of (va_scopes (wd_vault w))) \<Longrightarrow> a < hp_next h" "a \<in> set (bundle_refs (wd_bundles w)) \<Longrightarrow> a < hp_next h"
    "a \<in> set (refs_of (wd_requests w)) \<Longrightarrow> a < hp_next h"
  using assms by (auto simp: separated_def world_refs_def)

lemma distinct_sub_mset:
  assumes "distinct ys" "mset xs \<subseteq># mset ys"
  shows "distinct xs"
proof -
  obtain zs where "mset ys = mset (xs @ zs)" using assms(2) 
    by (metis ex_mset mset_append subset_mset.le_iff_add)
  then have "distinct (xs @ zs)" using assms(1) mset_eq_imp_distinct_iff by blast
  then show ?thesis by simp
qed

text \<open>A step keeps holders apart if it drops references or makes fresh ones, and duplicates none.\<close>

lemma separated_step:
  assumes "separated (w, h)" "hp_next h \<le> hp_next h'"
    and "mset (world_refs w') \<subseteq># mset (world_refs w) + mset [hp_next h..<hp_next h']"
  shows "separated (w', h')"
proof -
  have "distinct (world_refs w @ [hp_next h..<hp_next h'])" using assms(1) by (auto simp: separated_def)
  moreover have "mset (world_refs w') \<subseteq># mset (world_refs w @ [hp_next h..<hp_next h'])" using assms(3) by simp
  ultimately have "distinct (world_refs w')" by (rule distinct_sub_mset)
  moreover have "set (world_refs w') \<subseteq> set (world_refs w) \<union> {hp_next h..<hp_next h'}" using set_mset_mono[OF assms(3)] by simp
  moreover have "a < hp_next h'" if "a \<in> set (world_refs w) \<union> {hp_next h..<hp_next h'}" for a
    using that assms(1,2) by (auto simp: separated_def)
  ultimately show ?thesis unfolding separated_def by blast
qed

lemma refines_Arrive:
  assumes "separated (w, h)"
  shows "refines_at (Arrive b) (w, h)"
proof -
  obtain ss h' where p: "place_scopes (bu_scopes b) h = (ss, h')" by fastforce
  note P = place_scopes_heap[OF p]
  let ?w = "w\<lparr>wd_bundles := wd_bundles w @ [rescope ss b]\<rparr>"
  have g: "heap_grows h h'" and n: "refs_of ss = [hp_next h..<hp_next h']" using P by blast+
  have "separated (?w, h')" using g n by (intro separated_step[OF assms]) (simp_all add: world_refs_def heap_grows_def)
  moreover have "world_value (w, h') = world_value (w, h)"
    using g assms by (intro world_value_cong) (auto simp: separated_def heap_grows_def)
  then have "world_value (?w, h') = value_step (Arrive b) (world_value (w, h))"
    using P by (simp add: world_value_def deref_bundle_def rescope_def)
  ultimately show ?thesis by (simp add: refines_at_def p)
qed


lemma separated_less: "separated (w, h) \<Longrightarrow> a \<in> set (world_refs w) \<Longrightarrow> a < hp_next h"
  by (auto simp: separated_def)

text \<open>Wiping scopes that share no slice with what is left behind.\<close>

lemma world_value_zero:
  assumes "set (refs_of ss) \<inter> set (world_refs w) = {}"
  shows "world_value (w, zero_scopes ss h) = world_value (w, h)"
  using assms by (intro world_value_cong zero_scopes_heap(2)) blast

lemma mset_remove_bundle:
  "i < length bs \<Longrightarrow> mset (bundle_refs bs) = mset (bundle_refs (bs[i := (bs ! i)\<lparr>bu_scopes := [], bu_zeroed := True\<rparr>])) + mset (refs_of (bu_scopes (bs ! i)))"
  by (induction bs arbitrary: i) (auto simp: nth_Cons split: nat.splits)

lemma mset_remove_request:
  "i < length ss \<Longrightarrow> mset (refs_of ss) = mset (refs_of (remove_nth i ss)) + mset (key_refs (ss ! i))"
  by (induction ss arbitrary: i) (auto simp: remove_nth_def nth_Cons split: nat.splits)

lemma distinct_mset_disjoint:
  assumes "distinct xs" "mset xs = mset ys + mset zs"
  shows "set ys \<inter> set zs = {}"
proof -
  have "distinct (ys @ zs)" using assms mset_eq_imp_distinct_iff[of xs "ys @ zs"] by simp
  then show ?thesis by simp
qed

lemma separated_distinct: "separated (w, h) \<Longrightarrow> distinct (world_refs w)"
  by (simp add: separated_def)

lemma deref_wiped:
  "deref_bundle rd (b\<lparr>bu_scopes := [], bu_zeroed := True\<rparr>) = (deref_bundle rd b)\<lparr>bu_scopes := [], bu_zeroed := True\<rparr>"
  by (simp add: deref_bundle_def rescope_def)

lemma refines_Wipe:
  assumes "separated (w, h)"
  shows "refines_at (Wipe i) (w, h)"
proof (cases "i < length (wd_bundles w)")
  case False
  then show ?thesis using assms by (simp add: refines_at_def world_value_def)
next
  case True
  let ?b = "wd_bundles w ! i"
  let ?w = "w\<lparr>wd_bundles := (wd_bundles w)[i := ?b\<lparr>bu_scopes := [], bu_zeroed := True\<rparr>]\<rparr>"
  have m: "mset (world_refs w) = mset (world_refs ?w) + mset (refs_of (bu_scopes ?b))"
    using mset_remove_bundle[OF True] by (simp add: world_refs_def)
  have "separated (?w, zero_scopes (bu_scopes ?b) h)"
    using m by (intro separated_step[OF assms]) (simp_all add: zero_scopes_heap(1))
  moreover have "set (refs_of (bu_scopes ?b)) \<inter> set (world_refs ?w) = {}"
    using distinct_mset_disjoint[OF separated_distinct[OF assms] m] by blast
  then have "world_value (?w, zero_scopes (bu_scopes ?b) h) = world_value (?w, h)" by (rule world_value_zero)
  then have "world_value (?w, zero_scopes (bu_scopes ?b) h) = value_step (Wipe i) (world_value (w, h))"
    using True by (simp add: world_value_def map_update deref_wiped)
  ultimately show ?thesis using True by (simp add: refines_at_def ZeroBundle_def)
qed

lemma refines_Finish:
  assumes "separated (w, h)"
  shows "refines_at (Finish i) (w, h)"
proof (cases "i < length (wd_requests w)")
  case False
  then show ?thesis using assms by (simp add: refines_at_def world_value_def)
next
  case True
  let ?s = "wd_requests w ! i"
  let ?w = "w\<lparr>wd_requests := remove_nth i (wd_requests w)\<rparr>"
  have z: "Zero ?s h = zero_scopes [?s] h" by (simp add: zero_scopes_def)
  have m: "mset (world_refs w) = mset (world_refs ?w) + mset (refs_of [?s])"
    using mset_remove_request[OF True] by (simp add: world_refs_def)
  have "separated (?w, Zero ?s h)" using m by (intro separated_step[OF assms]) (simp_all add: Zero_heap(1))
  moreover have "set (refs_of [?s]) \<inter> set (world_refs ?w) = {}"
    using distinct_mset_disjoint[OF separated_distinct[OF assms] m] by blast
  then have "world_value (?w, Zero ?s h) = world_value (?w, h)" unfolding z by (rule world_value_zero)
  then have "world_value (?w, Zero ?s h) = value_step (Finish i) (world_value (w, h))"
    using True by (simp add: world_value_def remove_nth_def take_map drop_map)
  ultimately show ?thesis using True by (simp add: refines_at_def)
qed

lemma seal_phase_deref: "deref_vault rd (seal_phase now hold reason v) = seal_phase now hold reason (deref_vault rd v)"
  by (simp add: deref_vault_def seal_phase_def)

lemma deref_vault_drop: "deref_vault rd (v\<lparr>va_scopes := []\<rparr>) = (deref_vault rd v)\<lparr>va_scopes := []\<rparr>"
  by (simp add: deref_vault_def)

lemma refines_Seal:
  assumes "separated (w, h)"
  shows "refines_at (SealNow now hold reason) (w, h)"
proof -
  let ?v = "seal_phase now hold reason ((wd_vault w)\<lparr>va_scopes := []\<rparr>)"
  let ?w = "w\<lparr>wd_vault := ?v, wd_result := None\<rparr>" and ?h = "zero_scopes (va_scopes (wd_vault w)) h"
  have "va_scopes ?v = []" by (simp add: seal_phase_def)
  then have m: "mset (world_refs w) = mset (world_refs ?w) + mset (refs_of (va_scopes (wd_vault w)))" by (simp add: world_refs_def)
  have "separated (?w, ?h)" using m by (intro separated_step[OF assms]) (simp_all add: zero_scopes_heap(1))
  moreover have "world_value (?w, ?h) = world_value (?w, h)"
    using distinct_mset_disjoint[OF separated_distinct[OF assms] m] by (intro world_value_zero) blast
  moreover have "world_value (?w, h) = value_step (SealNow now hold reason) (world_value (w, h))"
    by (simp add: world_value_def seal_phase_deref deref_vault_drop)
  ultimately show ?thesis by (simp add: refines_at_def SealVault_def dropLocked_def)
qed

lemma refines_Release:
  assumes "separated (w, h)"
  shows "refines_at (Release now) (w, h)"
  using assms by (auto simp: refines_at_def world_value_def separated_def world_refs_def ReleaseHold_def deref_vault_def)


lemma install_deref:
  "deref_vault rd (install now b cs v) = install now b (map (deref rd) cs) (deref_vault rd v)"
  "install now (deref_bundle rd b) ss x = install now b ss x" "install now b ss (x\<lparr>va_scopes := ts\<rparr>) = install now b ss x"
  by (simp_all add: deref_vault_def install_def)

lemma refines_Unseal:
  assumes "separated (w, h)"
  shows "refines_at (UnsealWith i intent now) (w, h)"
proof (cases "i < length (wd_bundles w)")
  case False
  then show ?thesis using assms by (simp add: refines_at_def world_value_def)
next
  case True
  let ?b = "wd_bundles w ! i" and ?v = "wd_vault w"
  have less: "\<forall>a\<in>set (refs_of (bu_scopes ?b)). a < hp_next h"
    using bundle_refs_nth[OF True] separated_less[OF assms] by (auto simp: world_refs_def)
  obtain r h1 where c: "clone_scopes (bu_scopes ?b) h = (r, h1)" by fastforce
  note C = clone_scopes_heap[OF c less]
  have g: "heap_grows h h1" using C by blast
  have grown: "world_value (x, h1) = world_value (x, h)" if "set (world_refs x) \<subseteq> set (world_refs w)" for x
    using g that separated_less[OF assms] by (intro world_value_cong) (auto simp: heap_grows_def)
  show ?thesis
  proof (cases "unseal_checks ?v ?b intent = Inr True")
    case False
    then consider e where "unseal_checks ?v ?b intent = Inl e" | "unseal_checks ?v ?b intent = Inr False"
      by (cases "unseal_checks ?v ?b intent") auto
    then show ?thesis
      using True assms by cases (simp_all add: refines_at_def Unseal_def value_unseal_def world_value_def separated_def world_refs_def)
  next
    case checked: True
    show ?thesis
    proof (cases "first_fault (map (deref (hp_cells h)) (bu_scopes ?b))")
      case (Some f)
      then have r: "r = Inl (Scope_invalid f)" using C by simp
      let ?w = "w\<lparr>wd_vault := ?v, wd_result := Some (Scope_invalid f)\<rparr>"
      have "separated (?w, h1)" using g by (intro separated_step[OF assms]) (simp_all add: world_refs_def heap_grows_def)
      moreover have "world_value (?w, h1) = world_value (?w, h)" by (rule grown) (simp add: world_refs_def)
      moreover have "world_value (?w, h) = value_step (UnsealWith i intent now) (world_value (w, h))"
        using True checked Some by (simp add: value_unseal_def world_value_def)
      ultimately show ?thesis using True checked by (simp add: refines_at_def Unseal_def c r)
    next
      case None
      then obtain cs where cs: "r = Inr cs" "refs_of cs = [hp_next h..<hp_next h1]"
          "map (deref (hp_cells h1)) cs = map (deref (hp_cells h)) (bu_scopes ?b)" using C by auto
      let ?old = "va_scopes ?v" and ?h2 = "zero_scopes (va_scopes ?v) h1" and ?v2 = "install now ?b cs (?v\<lparr>va_scopes := []\<rparr>)"
      let ?w = "w\<lparr>wd_vault := ?v2, wd_result := None\<rparr>"
      have n: "va_scopes ?v2 = cs" by (simp add: install_def)
      have "separated (?w, ?h2)" using g n cs(2)
        by (intro separated_step[OF assms]) (simp_all add: zero_scopes_heap(1) world_refs_def heap_grows_def)
      moreover have "world_value (?w, ?h2) = world_value (?w, h1)"
      proof (rule world_value_zero)
        have "set (refs_of ?old) \<inter> set (refs_of cs) = {}" using separated_less[OF assms] cs(2) by (fastforce simp: world_refs_def)
        then show "set (refs_of ?old) \<inter> set (world_refs ?w) = {}"
          using separated_distinct[OF assms] n by (auto simp: world_refs_def)
      qed
      moreover have "world_value (?w, h1) = value_step (UnsealWith i intent now) (world_value (w, h))"
        using True checked None cs(3) grown[of w] by (simp add: value_unseal_def world_value_def install_deref)
      ultimately show ?thesis using True checked by (simp add: refines_at_def Unseal_def c cs(1) dropLocked_def)
    qed
  qed
qed

lemma find_deref: "find (\<lambda>s. Owns s key) (map (deref rd) ss) = map_option (deref rd) (find (\<lambda>s. Owns s key) ss)"
  by (induction ss) (simp_all add: Owns_deref)

lemma refines_Admit:
  assumes "separated (w, h)"
  shows "refines_at (Admit key) (w, h)"
proof (cases "va_phase (wd_vault w) = PhaseUnsealed")
  case False
  then show ?thesis using assms by (simp add: refines_at_def vault_Scope_def world_value_def separated_def world_refs_def)
next
  case unsealed: True
  show ?thesis
  proof (cases "find (\<lambda>s. Owns s key) (va_scopes (wd_vault w))")
    case None
    then show ?thesis using assms unsealed
      by (simp add: refines_at_def vault_Scope_def world_value_def separated_def world_refs_def find_deref)
  next
    case (Some s)
    obtain c h1 where c: "Clone s h = (c, h1)" by fastforce
    have "s \<in> set (va_scopes (wd_vault w))" using Some by (auto dest: find_in_set)
    then have "\<forall>a\<in>set (key_refs s). a < hp_next h" using separated_less[OF assms] by (fastforce simp: world_refs_def refs_of_def)
    note C = copyScope_heap[OF c[unfolded Clone_copy] scope_stable_refs[OF this]]
    have g: "heap_grows h h1" using C by blast
    let ?w = "w\<lparr>wd_requests := wd_requests w @ [c], wd_result := None\<rparr>"
    have "separated (?w, h1)" using g C by (intro separated_step[OF assms]) (simp_all add: world_refs_def heap_grows_def)
    moreover have "world_value (w, h1) = world_value (w, h)"
      using g separated_less[OF assms] by (intro world_value_cong) (auto simp: heap_grows_def)
    then have "world_value (?w, h1) = value_step (Admit key) (world_value (w, h))"
      using C unsealed Some by (simp add: world_value_def find_deref)
    ultimately show ?thesis using unsealed Some by (simp add: refines_at_def vault_Scope_def c)
  qed
qed

lemma world_step_refines: "separated x \<Longrightarrow> refines_at ev x"
  using refines_Arrive refines_Unseal refines_Wipe refines_Seal refines_Release refines_Admit refines_Finish
  by (cases x; cases ev) auto

definition start_world :: "string \<Rightarrow> gotime \<Rightarrow> string option \<Rightarrow> 'k world" where
  "start_world instance' now rnd = \<lparr>wd_vault = NewVault instance' now rnd, wd_bundles = [], wd_requests = [], wd_result = None\<rparr>"

definition empty_heap :: heap where
  "empty_heap = \<lparr>hp_next = 0, hp_cells = (\<lambda>_. '''')\<rparr>"

lemma world_run_refines:
  "separated (fold world_step evs (start_world i now rnd, empty_heap))
   \<and> world_value (fold world_step evs (start_world i now rnd, empty_heap)) = fold value_step evs (start_world i now rnd)"
proof (induction evs rule: rev_induct)
  case Nil
  then show ?case by (simp add: separated_def world_refs_def start_world_def NewVault_def world_value_def deref_vault_def)
next
  case (snoc ev evs)
  then show ?case using world_step_refines by (simp add: refines_at_def)
qed


section \<open>What the vault guarantees\<close>

text \<open>
  C13. Sharing key bytes is invisible. Over every sequence of bundles arriving and being
  wiped by their owners, unseals, seals, released holds and requests admitted and finished,
  the vault, the bundles and the requests in flight hold exactly the bytes they would hold
  if key material were copied at every hand-over: no wipe reaches a key that someone else
  still uses, and the outcome of every operation is the one over plain values.
\<close>

theorem shared_keys_behave_as_values:
  "world_value (fold world_step evs (start_world i now rnd, empty_heap)) = fold value_step evs (start_world i now rnd)"
  by (rule conjunct2[OF world_run_refines])

definition vault_ok :: "string vault \<Rightarrow> bool" where
  "vault_ok v \<longleftrightarrow> (\<forall>s\<in>set (va_scopes v). scopeValid (\<lambda>m. m) s = None)
     \<and> (va_phase v \<noteq> PhaseUnsealed \<longrightarrow> va_scopes v = []) \<and> (va_phase v \<noteq> PhaseOperatorHold \<longrightarrow> va_holdReason v = '''')"

lemma vault_ok_start: "vault_ok (wd_vault (start_world i now rnd))"
  by (simp add: start_world_def NewVault_def vault_ok_def)

lemma value_unseal_cases:
  obtains e where "value_unseal now b intent v = (v, e)"
  | "value_unseal now b intent v = (install now b (bu_scopes b) v, None)" "unseal_checks v b intent = Inr True" "first_fault (bu_scopes b) = None"
proof (cases "unseal_checks v b intent = Inr True")
  case True
  then show ?thesis using that by (cases "first_fault (bu_scopes b)") (simp_all add: value_unseal_def)
next
  case False
  then consider e where "unseal_checks v b intent = Inl e" | "unseal_checks v b intent = Inr False"
    by (cases "unseal_checks v b intent") auto
  then show ?thesis using that(1) by cases (simp_all add: value_unseal_def)
qed

lemma value_step_ok: "vault_ok (wd_vault w) \<Longrightarrow> vault_ok (wd_vault (value_step ev w))"
proof (cases ev)
  case (UnsealWith i intent now)
  assume "vault_ok (wd_vault w)"
  then show ?thesis unfolding UnsealWith
    by (cases rule: value_unseal_cases[of now "wd_bundles w ! i" intent "wd_vault w"])
      (auto simp: install_def vault_ok_def first_fault_None_iff)
qed (auto simp: vault_ok_def seal_phase_def ReleaseHold_def split: option.splits)

lemma value_run_ok: "vault_ok (wd_vault (fold value_step evs (start_world i now rnd)))"
  by (induction evs rule: rev_induct) (simp_all add: vault_ok_start value_step_ok)

lemma scope_bytes:
  "scopeValid rd s = None \<Longrightarrow> e \<in> set (kr_nameKeys (sc_keys s)) \<union> set (kr_keys (sc_keys s)) \<Longrightarrow> length (rd (ke_key e)) = KeyLen"
  by (auto simp: scopeValid_None keysValid_None entries_ok_def)

lemma vault_scopes_valid:
  assumes "fold world_step evs (start_world i now rnd, empty_heap) = (w, h)" "s \<in> set (va_scopes (wd_vault w))"
  shows "scopeValid (hp_cells h) s = None"
proof -
  have "wd_vault (fold value_step evs (start_world i now rnd)) = deref_vault (hp_cells h) (wd_vault w)"
    using assms(1) world_run_refines[of evs i now rnd] by (metis world_value_simps(1))
  then show ?thesis using value_run_ok[of evs i now rnd] assms(2) by (auto simp: vault_ok_def scopeValid_deref)
qed

text \<open>
  C20. A seal forgets and disturbs nobody. After any history, sealing leaves the vault with
  no scope, every byte of every key it held wiped, and the keys of every request still in
  flight exactly as they were.
\<close>

theorem seal_forgets:
  assumes "fold world_step evs (start_world i t0 rnd, empty_heap) = (w, h)" "SealVault now hold reason (wd_vault w) h = (v', h')"
  shows "va_scopes v' = [] \<and> (\<forall>s\<in>set (va_scopes (wd_vault w)). Zeroed s h')
    \<and> (\<forall>s\<in>set (wd_requests w). deref (hp_cells h') s = deref (hp_cells h) s)
    \<and> (\<forall>b\<in>set (wd_bundles w). deref_bundle (hp_cells h') b = deref_bundle (hp_cells h) b)"
proof -
  have s: "separated (w, h)" using world_run_refines[of evs i t0 rnd] assms(1) by simp
  have h': "h' = zero_scopes (va_scopes (wd_vault w)) h" and v': "v' = seal_phase now hold reason ((wd_vault w)\<lparr>va_scopes := []\<rparr>)"
    using assms(2) by (simp_all add: SealVault_def dropLocked_def)
  have d: "set (refs_of (va_scopes (wd_vault w))) \<inter> (set (bundle_refs (wd_bundles w)) \<union> set (refs_of (wd_requests w))) = {}"
    using separated_distinct[OF s] by (auto simp: world_refs_def)
  have "Zeroed t h'" if t: "t \<in> set (va_scopes (wd_vault w))" for t
  proof -
    have z: "allZeroBytes (hp_cells h' (ke_key e))" if e: "e \<in> set (kr_nameKeys (sc_keys t)) \<union> set (kr_keys (sc_keys t))" for e
    proof -
      have "ke_key e \<in> set (refs_of (va_scopes (wd_vault w)))" using e t by (auto simp: refs_of_def key_refs_def)
      then have "hp_cells h' (ke_key e) = replicate (length (hp_cells h (ke_key e))) (byte 0)" unfolding h' by (rule zero_scopes_heap(3))
      moreover have "length (hp_cells h (ke_key e)) = KeyLen" by (rule scope_bytes[OF vault_scopes_valid[OF assms(1) t] e])
      ultimately show ?thesis by (simp add: allZeroBytes_def KeyLen_def list_all_iff)
    qed
    then show ?thesis by (simp add: Zeroed_def list_all_iff)
  qed
  moreover have "deref (hp_cells h') r = deref (hp_cells h) r" if "r \<in> set (wd_requests w)" for r
    unfolding h' using that d by (intro deref_cong zero_scopes_heap(2)) (auto simp: refs_of_def)
  moreover have "deref_bundle (hp_cells h') b = deref_bundle (hp_cells h) b" if "b \<in> set (wd_bundles w)" for b
    unfolding h' using that d by (intro deref_bundle_cong zero_scopes_heap(2)) (auto simp: bundle_refs_def refs_of_def)
  moreover have "va_scopes v' = []" by (simp add: v' seal_phase_def)
  ultimately show ?thesis by blast
qed

definition sample_bundle :: "string unseal_bundle" where
  "sample_bundle = \<lparr>bu_instance = ''prod'', bu_generation = 1, bu_scopes = kr_scopes sample_keyring, bu_zeroed = False\<rparr>"

definition sample_history :: "vault_event list" where
  "sample_history = [Arrive sample_bundle, UnsealWith 0 IntentOperator 5, Wipe 0, Admit ''app/main/shop/orders'']"

theorem seal_forgets_witness:
  "\<exists>w h v' h'. fold world_step sample_history (start_world ''prod'' 0 None, empty_heap) = (w, h) \<and> SealVault 9 True ''leak'' (wd_vault w) h = (v', h')
     \<and> length (va_scopes (wd_vault w)) = 2 \<and> length (wd_requests w) = 1 \<and> va_scopes v' = [] \<and> (\<forall>s\<in>set (va_scopes (wd_vault w)). Zeroed s h')"
proof -
  obtain w h where w: "fold world_step sample_history (start_world ''prod'' 0 None, empty_heap) = (w, h)" by fastforce
  obtain v' h' where v: "SealVault 9 True ''leak'' (wd_vault w) h = (v', h')" by fastforce
  have "case fold world_step sample_history (start_world ''prod'' 0 None, empty_heap) of (w, h) \<Rightarrow> length (va_scopes (wd_vault w)) = 2 \<and> length (wd_requests w) = 1"
    by code_simp
  then have "length (va_scopes (wd_vault w)) = 2" "length (wd_requests w) = 1" using w by simp_all
  then show ?thesis using seal_forgets[OF w v] w v by blast
qed

end
