(* ===== verification/Identity.thy ===== *)
theory Identity
  imports Vault
begin

text \<open>
  Who is calling (\<open>datasphere/keyholder/identity.go\<close>, the URI rules of \<open>tls.go\<close>): a client
  leaf carries a URI, the URI names a role, and the role decides which listener admits the
  caller, which scope it may reach and what it may do to the seal state.
\<close>

section \<open>Roles and identities\<close>

datatype role = RoleOperator | RoleKeeper | RoleDevice | RoleApp

record identity =
  id_Role :: role
  id_Instance :: string
  id_Name :: string
  id_Namespace :: string

datatype identity_error = Not_this_instance | Unknown_shape | Leaf_without_identity | ErrNoIdentity

fun role_name :: "role \<Rightarrow> string" where
  "role_name RoleOperator = ''operator''"
| "role_name RoleKeeper = ''keeper''"
| "role_name RoleDevice = ''device''"
| "role_name RoleApp = ''app''"

definition identity_prefix :: "string \<Rightarrow> string" where
  "identity_prefix instance' = ''farcast://'' @ instance' @ ''/''"

definition ParseIdentity :: "string \<Rightarrow> string \<Rightarrow> identity_error + identity" where
  "ParseIdentity uri instance' =
     (case cut_prefix uri (identity_prefix instance') of
        None \<Rightarrow> Inl Not_this_instance
      | Some rest \<Rightarrow>
          if instance' = '''' then Inl Not_this_instance
          else
            let parts = split_on (CHR ''/'') rest in
            if rest = role_name RoleOperator
            then Inr \<lparr>id_Role = RoleOperator, id_Instance = instance', id_Name = '''', id_Namespace = ''''\<rparr>
            else if length parts = 2 \<and> parts ! 0 = role_name RoleKeeper \<and> parts ! 1 \<noteq> ''''
            then Inr \<lparr>id_Role = RoleKeeper, id_Instance = instance', id_Name = parts ! 1, id_Namespace = ''''\<rparr>
            else if length parts = 2 \<and> parts ! 0 = role_name RoleDevice \<and> parts ! 1 \<noteq> ''''
            then Inr \<lparr>id_Role = RoleDevice, id_Instance = instance', id_Name = parts ! 1, id_Namespace = ''''\<rparr>
            else if length parts = 3 \<and> parts ! 0 = role_name RoleApp \<and> parts ! 1 \<noteq> '''' \<and> parts ! 2 \<noteq> ''''
            then Inr \<lparr>id_Role = RoleApp, id_Instance = instance', id_Name = parts ! 2, id_Namespace = parts ! 1\<rparr>
            else Inl Unknown_shape)"

section \<open>What a role may do\<close>

definition AllowData :: "string \<Rightarrow> string \<Rightarrow> bool" where
  "AllowData instance' uri = (case ParseIdentity uri instance' of Inl _ \<Rightarrow> False | Inr i \<Rightarrow> id_Role i \<noteq> RoleKeeper)"

definition AllowPusher :: "string \<Rightarrow> string \<Rightarrow> bool" where
  "AllowPusher instance' uri \<longleftrightarrow>
     (let operator = identity_prefix instance' @ ''operator''; keeper = identity_prefix instance' @ ''keeper/'' in
      uri = operator \<or> (has_prefix uri keeper \<and> length keeper < length uri))"

definition MayReach :: "identity \<Rightarrow> string \<Rightarrow> bool" where
  "MayReach i scopeName =
     (case id_Role i of
        RoleOperator \<Rightarrow> True
      | RoleDevice \<Rightarrow> True
      | RoleApp \<Rightarrow> (case AppScopeName (id_Namespace i) (id_Name i) of Inl _ \<Rightarrow> False | Inr own \<Rightarrow> scopeName = own)
      | RoleKeeper \<Rightarrow> False)"

definition MayPush :: "identity \<Rightarrow> intent \<Rightarrow> bool" where
  "MayPush i intent =
     (case id_Role i of
        RoleOperator \<Rightarrow> intent = IntentOperator \<or> intent = IntentHandOver \<or> intent = IntentReseed
      | RoleKeeper \<Rightarrow> intent = IntentReseed
      | _ \<Rightarrow> False)"

definition MaySeal :: "identity \<Rightarrow> bool" where
  "MaySeal i \<longleftrightarrow> id_Role i = RoleOperator"

text \<open>The verified leaf of a connection: \<open>None\<close> without one, else its URIs in order.\<close>

type_synonym peer = "string list option"

fun first_identity :: "string list \<Rightarrow> string \<Rightarrow> identity_error + identity" where
  "first_identity [] instance' = Inl Leaf_without_identity"
| "first_identity (u # us) instance' =
     (case ParseIdentity u instance' of Inr i \<Rightarrow> Inr i | Inl _ \<Rightarrow> first_identity us instance')"

definition identityFrom :: "peer \<Rightarrow> string \<Rightarrow> identity_error + identity" where
  "identityFrom p instance' = (case p of None \<Rightarrow> Inl ErrNoIdentity | Some uris \<Rightarrow> first_identity uris instance')"

section \<open>The URIs leaves are minted with\<close>

definition OperatorURI :: "string \<Rightarrow> string" where
  "OperatorURI instance' = ''farcast://'' @ instance' @ ''/operator''"

definition KeeperURI :: "string \<Rightarrow> string \<Rightarrow> string" where
  "KeeperURI instance' device = ''farcast://'' @ instance' @ ''/keeper/'' @ device"

definition AppURI :: "string \<Rightarrow> string \<Rightarrow> string \<Rightarrow> string" where
  "AppURI instance' namespace app = ''farcast://'' @ instance' @ ''/app/'' @ namespace @ ''/'' @ app"

definition DeviceURI :: "string \<Rightarrow> string \<Rightarrow> string" where
  "DeviceURI instance' device = ''farcast://'' @ instance' @ ''/device/'' @ device"

definition identity_uri :: "identity \<Rightarrow> string" where
  "identity_uri i =
     (case id_Role i of
        RoleOperator \<Rightarrow> OperatorURI (id_Instance i)
      | RoleKeeper \<Rightarrow> KeeperURI (id_Instance i) (id_Name i)
      | RoleDevice \<Rightarrow> DeviceURI (id_Instance i) (id_Name i)
      | RoleApp \<Rightarrow> AppURI (id_Instance i) (id_Namespace i) (id_Name i))"

text \<open>Names a leaf can carry: what the role needs is there and nothing else.\<close>

definition segment_ok :: "string \<Rightarrow> bool" where
  "segment_ok s \<longleftrightarrow> s \<noteq> '''' \<and> CHR ''/'' \<notin> set s"

definition identity_ok :: "identity \<Rightarrow> bool" where
  "identity_ok i \<longleftrightarrow> id_Instance i \<noteq> '''' \<and>
     (case id_Role i of
        RoleOperator \<Rightarrow> id_Name i = '''' \<and> id_Namespace i = ''''
      | RoleApp \<Rightarrow> segment_ok (id_Name i) \<and> segment_ok (id_Namespace i)
      | _ \<Rightarrow> segment_ok (id_Name i) \<and> id_Namespace i = '''')"

lemma split_two: "split_on (CHR ''/'') s = [a, b] \<longleftrightarrow> s = a @ ''/'' @ b \<and> CHR ''/'' \<notin> set a \<and> CHR ''/'' \<notin> set b"
proof
  assume l: "split_on (CHR ''/'') s = [a, b]"
  then have "CHR ''/'' \<notin> set a" "CHR ''/'' \<notin> set b" using split_on_no_sep[of _ "CHR ''/''" s] by simp_all
  then show "s = a @ ''/'' @ b \<and> CHR ''/'' \<notin> set a \<and> CHR ''/'' \<notin> set b"
    using join_split[of "CHR ''/''" s] l by simp
qed (simp add: split_on_append_sep split_on_no_occ)

lemma split_three:
  "split_on (CHR ''/'') s = [a, b, c] \<longleftrightarrow>
     s = a @ ''/'' @ b @ ''/'' @ c \<and> CHR ''/'' \<notin> set a \<and> CHR ''/'' \<notin> set b \<and> CHR ''/'' \<notin> set c"
proof
  assume l: "split_on (CHR ''/'') s = [a, b, c]"
  then have "CHR ''/'' \<notin> set a" "CHR ''/'' \<notin> set b" "CHR ''/'' \<notin> set c" using split_on_no_sep[of _ "CHR ''/''" s] by simp_all
  then show "s = a @ ''/'' @ b @ ''/'' @ c \<and> CHR ''/'' \<notin> set a \<and> CHR ''/'' \<notin> set b \<and> CHR ''/'' \<notin> set c"
    using join_split[of "CHR ''/''" s] l by simp
qed (simp add: split_on_append_sep split_on_no_occ)

lemma parts_two: "length ps = 2 \<longleftrightarrow> (\<exists>a b. ps = [a, b])" by (auto simp: length_Suc_conv numeral_2_eq_2)
lemma parts_three: "length ps = 3 \<longleftrightarrow> (\<exists>a b c. ps = [a, b, c])" by (auto simp: length_Suc_conv numeral_3_eq_3)

lemma cut_prefix_append: "cut_prefix (p @ r) p = Some r" by (simp add: cut_prefix_Some_iff)

lemmas uri_defs = identity_uri_def OperatorURI_def KeeperURI_def AppURI_def DeviceURI_def identity_prefix_def

lemma ParseIdentity_of_uri:
  assumes "identity_ok i"
  shows "ParseIdentity (identity_uri i) (id_Instance i) = Inr i"
proof -
  note [simp] = cut_prefix_append split_on_append_sep split_on_no_occ
  obtain r inst name ns where i: "i = \<lparr>id_Role = r, id_Instance = inst, id_Name = name, id_Namespace = ns\<rparr>" by (cases i) auto
  have I: "inst \<noteq> ''''" using assms i by (simp add: identity_ok_def)
  show ?thesis
  proof (cases r)
    case RoleOperator
    then show ?thesis using assms i I cut_prefix_append[of "identity_prefix inst" "''operator''"]
      by (simp add: ParseIdentity_def uri_defs identity_ok_def)
  next
    case RoleKeeper
    have n: "name \<noteq> ''''" "CHR ''/'' \<notin> set name" using assms i RoleKeeper by (simp_all add: identity_ok_def segment_ok_def)
    have "split_on (CHR ''/'') (''keeper/'' @ name) = [''keeper'', name]" using n by (simp add: split_two[THEN iffD2])
    then show ?thesis using assms i I RoleKeeper n cut_prefix_append[of "identity_prefix inst" "''keeper/'' @ name"]
      by (simp add: ParseIdentity_def uri_defs identity_ok_def)
  next
    case RoleDevice
    have n: "name \<noteq> ''''" "CHR ''/'' \<notin> set name" using assms i RoleDevice by (simp_all add: identity_ok_def segment_ok_def)
    have "split_on (CHR ''/'') (''device/'' @ name) = [''device'', name]" using n by (simp add: split_two[THEN iffD2])
    then show ?thesis using assms i I RoleDevice n cut_prefix_append[of "identity_prefix inst" "''device/'' @ name"]
      by (simp add: ParseIdentity_def uri_defs identity_ok_def)
  next
    case RoleApp
    have n: "name \<noteq> ''''" "CHR ''/'' \<notin> set name" "ns \<noteq> ''''" "CHR ''/'' \<notin> set ns"
      using assms i RoleApp by (simp_all add: identity_ok_def segment_ok_def)
    have "split_on (CHR ''/'') (''app/'' @ ns @ ''/'' @ name) = [''app'', ns, name]" using n by (simp add: split_three[THEN iffD2])
    then show ?thesis using assms i I RoleApp n cut_prefix_append[of "identity_prefix inst" "''app/'' @ ns @ ''/'' @ name"]
      by (simp add: ParseIdentity_def uri_defs identity_ok_def)
  qed
qed

lemma ParseIdentity_Inr:
  assumes "ParseIdentity uri instance' = Inr i"
  shows "identity_ok i \<and> id_Instance i = instance' \<and> uri = identity_uri i"
proof -
  obtain rest where r: "uri = identity_prefix instance' @ rest" "instance' \<noteq> ''''"
    using assms by (auto simp: ParseIdentity_def cut_prefix_Some_iff split: option.splits if_splits)
  note parse = assms[unfolded r(1) ParseIdentity_def cut_prefix_append, simplified]
  show ?thesis
  proof (cases "rest = ''operator''")
    case True
    then show ?thesis using parse r by (auto simp: uri_defs identity_ok_def)
  next
    case False
    define ps where "ps = split_on (CHR ''/'') rest"
    note parse = parse[folded ps_def]
    consider a b where "ps = [a, b]" "b \<noteq> ''''" "a = ''keeper'' \<or> a = ''device''" | b c where "ps = [''app'', b, c]" "b \<noteq> ''''" "c \<noteq> ''''"
      using parse False by (auto simp: parts_two parts_three Let_def split: if_splits)
    then show ?thesis
    proof cases
      case 1
      then show ?thesis using parse False r split_two[of rest a b] ps_def by (auto simp: uri_defs identity_ok_def segment_ok_def Let_def)
    next
      case 2
      then show ?thesis using parse False r split_three[of rest "''app''" b c] ps_def by (auto simp: uri_defs identity_ok_def segment_ok_def Let_def)
    qed
  qed
qed

text \<open>
  The keyholder's reader of leaf URIs accepts exactly the URIs the instance's leaves are
  minted with: a URI parses as an identity if and only if it is the one FatLine's identity
  package writes for an identity of this instance whose names are non-empty and hold no
  separator, and it parses as that identity.
\<close>

theorem identity_is_a_minted_uri:
  "ParseIdentity uri instance' = Inr i \<longleftrightarrow> identity_ok i \<and> id_Instance i = instance' \<and> uri = identity_uri i"
  using ParseIdentity_of_uri[of i] ParseIdentity_Inr[of uri instance' i] by blast

text \<open>A caller a route serves is a caller its listener admits.\<close>

lemma first_identity_Inr: "first_identity uris instance' = Inr i \<Longrightarrow> \<exists>u\<in>set uris. ParseIdentity u instance' = Inr i"
  by (induction uris) (auto split: sum.splits)

lemma listeners_admit:
  assumes "ParseIdentity u instance' = Inr i"
  shows "id_Role i \<in> {RoleOperator, RoleKeeper} \<Longrightarrow> AllowPusher instance' u"
    and "id_Role i \<noteq> RoleKeeper \<Longrightarrow> AllowData instance' u"
  using ParseIdentity_Inr[OF assms] assms
  by (auto simp: AllowPusher_def AllowData_def uri_defs identity_ok_def segment_ok_def has_prefix_iff)

end
