(* ===== verification/Envelope.thy ===== *)
theory Envelope
  imports Blob
begin

text \<open>
  The unseal envelope (\<open>datasphere/keyholder/envelope.go\<close>): a keyholder process issues
  single-use challenges, and a bundle reaches it only sealed to that process and to one of
  them. X25519 is a record of functions with its documented laws (\<open>dh_laws\<close>); HKDF and
  AES-GCM are those of the storage cryptography. Every method holds the challenger's lock
  for its whole critical section and reads the clock there, so it is one step at one time.
\<close>

section \<open>Key agreement\<close>

record dh_lib =
  dh_public :: "string \<Rightarrow> string"
  dh_accepts :: "string \<Rightarrow> bool"
  dh_agree :: "string \<Rightarrow> string \<Rightarrow> string option"

definition pubKeyLen :: nat where "pubKeyLen = 32"

text \<open>
  \<open>dh_accepts\<close> is \<open>NewPublicKey\<close>, \<open>dh_agree\<close> is \<open>ECDH\<close>, which fails on a point of low
  order. Both ends of an agreement that succeeds reach the same secret.
\<close>

definition dh_laws :: "dh_lib \<Rightarrow> bool" where
  "dh_laws D \<longleftrightarrow> (\<forall>k. length (dh_public D k) = pubKeyLen) \<and> (\<forall>k. dh_accepts D (dh_public D k))
     \<and> (\<forall>a b. dh_agree D a (dh_public D b) = dh_agree D b (dh_public D a))"

section \<open>The format\<close>

definition envelopeMagic :: string where "envelopeMagic = ''FCUS''"
definition envelopeVersion :: nat where "envelopeVersion = 1"
definition sessionIDLen :: nat where "sessionIDLen = 8"
definition challengeLen :: nat where "challengeLen = 32"
definition offSessionID :: nat where "offSessionID = 5"
definition offSenderPub :: nat where "offSenderPub = offSessionID + sessionIDLen"
definition offNonce :: nat where "offNonce = offSenderPub + pubKeyLen"
definition offCiphertext :: nat where "offCiphertext = offNonce + NonceLen"
definition envelopeInfo :: string where "envelopeInfo = ''farcast/datasphere/v1/unseal''"
definition challengeTTL :: duration where "challengeTTL = 2 * 60 * 1000000000"
definition maxOutstanding :: nat where "maxOutstanding = 64"

lemmas envelope_layout = envelopeMagic_def envelopeVersion_def sessionIDLen_def challengeLen_def pubKeyLen_def
  offSessionID_def offSenderPub_def offNonce_def offCiphertext_def NonceLen_def TagLen_def

definition envelopeCipher :: "crypto_lib \<Rightarrow> string \<Rightarrow> string \<Rightarrow> string \<Rightarrow> string \<Rightarrow> crypto_error + string" where
  "envelopeCipher C shared recipientPub senderPub challenge =
     newGCM (cl_hkdf C shared (envelopeInfo @ recipientPub @ senderPub @ challenge))"

text \<open>\<open>binary.BigEndian.PutUint64\<close>.\<close>

definition be64 :: "nat \<Rightarrow> string" where
  "be64 n = map (\<lambda>i. byte (n div 256 ^ (7 - i) mod 256)) [0..<8]"

definition envelopeAAD :: "string \<Rightarrow> string \<Rightarrow> string \<Rightarrow> string" where
  "envelopeAAD instance' session challenge =
     envelopeMagic @ [byte envelopeVersion] @ be64 (length instance') @ instance' @ session @ challenge"

section \<open>Challenges\<close>

record challenge =
  cg_SessionID :: string
  cg_Nonce :: string
  cg_PublicKey :: string

record challenger =
  cr_priv :: string
  cr_outstanding :: "(string \<times> gotime) list"
  cr_nonces :: "(string \<times> string) list"

datatype envelope_error =
    ErrEnvelopeInvalid
  | Mint_session
  | Mint_challenge
  | Too_many_challenges
  | Mint_sender
  | Mint_nonce
  | Envelope_cipher crypto_error

definition NewChallenger :: "string \<Rightarrow> challenger" where
  "NewChallenger priv = \<lparr>cr_priv = priv, cr_outstanding = [], cr_nonces = []\<rparr>"

definition PublicKey :: "dh_lib \<Rightarrow> challenger \<Rightarrow> string" where
  "PublicKey D c = dh_public D (cr_priv c)"

definition expireLocked :: "gotime \<Rightarrow> challenger \<Rightarrow> challenger" where
  "expireLocked now c =
     (let expired = map fst (filter (\<lambda>(i, deadline). deadline < now) (cr_outstanding c)) in
      c\<lparr>cr_outstanding := filter (\<lambda>(i, _). i \<notin> set expired) (cr_outstanding c),
        cr_nonces := filter (\<lambda>(i, _). i \<notin> set expired) (cr_nonces c)\<rparr>)"

definition Issue :: "dh_lib \<Rightarrow> gotime \<Rightarrow> string \<Rightarrow> challenger \<Rightarrow> challenger \<times> (envelope_error + challenge)" where
  "Issue D now rnd c =
     (case read_full sessionIDLen rnd of
        None \<Rightarrow> (c, Inl Mint_session)
      | Some (session, rnd) \<Rightarrow>
          (case read_full challengeLen rnd of
             None \<Rightarrow> (c, Inl Mint_challenge)
           | Some (nonce, _) \<Rightarrow>
               let c = expireLocked now c in
               if length (cr_outstanding c) \<ge> maxOutstanding then (c, Inl Too_many_challenges)
               else
                 (c\<lparr>cr_outstanding := AList.update session (now + challengeTTL) (cr_outstanding c),
                    cr_nonces := AList.update session nonce (cr_nonces c)\<rparr>,
                  Inr \<lparr>cg_SessionID = session, cg_Nonce = nonce, cg_PublicKey = PublicKey D c\<rparr>)))"

text \<open>
  \<open>Open\<close>: the challenge is taken out before anything is tried. A session that is not known
  has the zero nonce, and is refused before the nonce is used.
\<close>

definition OpenEnvelope :: "crypto_lib \<Rightarrow> dh_lib \<Rightarrow> gotime \<Rightarrow> string \<Rightarrow> string \<Rightarrow> challenger \<Rightarrow> challenger \<times> (envelope_error + string)" where
  "OpenEnvelope C D now envelope instance' c =
     (if length envelope < offCiphertext + TagLen then (c, Inl ErrEnvelopeInvalid)
      else if take 4 envelope \<noteq> envelopeMagic \<or> envelope ! 4 \<noteq> byte envelopeVersion then (c, Inl ErrEnvelopeInvalid)
      else
        let session = slice offSessionID sessionIDLen envelope;
            c = expireLocked now c;
            known = map_of (cr_outstanding c) session;
            nonce = get_or (replicate challengeLen (byte 0)) (cr_nonces c) session;
            c = c\<lparr>cr_outstanding := AList.delete session (cr_outstanding c), cr_nonces := AList.delete session (cr_nonces c)\<rparr>;
            refused = (c, Inl ErrEnvelopeInvalid) in
        case known of
          None \<Rightarrow> refused
        | Some deadline \<Rightarrow>
            if deadline < now then refused
            else
              let senderPub = slice offSenderPub pubKeyLen envelope in
              if \<not> dh_accepts D senderPub then refused
              else case dh_agree D (cr_priv c) senderPub of
                None \<Rightarrow> refused
              | Some shared \<Rightarrow>
                  (case envelopeCipher C shared (PublicKey D c) senderPub nonce of
                     Inl _ \<Rightarrow> refused
                   | Inr gcm \<Rightarrow>
                       (case cl_open C gcm (slice offNonce NonceLen envelope) (drop offCiphertext envelope)
                               (envelopeAAD instance' session nonce) of
                          None \<Rightarrow> refused
                        | Some plaintext \<Rightarrow> (c, Inr plaintext))))"

text \<open>
  \<open>SealBundle\<close> on the pusher's side; \<open>sender\<close> is the private key minted for this envelope,
  \<open>None\<close> if minting it failed.
\<close>

definition SealBundle :: "crypto_lib \<Rightarrow> dh_lib \<Rightarrow> string \<Rightarrow> string \<Rightarrow> challenge \<Rightarrow> string option \<Rightarrow> string \<Rightarrow> envelope_error + string" where
  "SealBundle C D plaintext instance' ch sender rnd =
     (if length (cg_SessionID ch) \<noteq> sessionIDLen \<or> length (cg_Nonce ch) \<noteq> challengeLen \<or> length (cg_PublicKey ch) \<noteq> pubKeyLen
      then Inl ErrEnvelopeInvalid
      else if \<not> dh_accepts D (cg_PublicKey ch) then Inl ErrEnvelopeInvalid
      else case sender of
        None \<Rightarrow> Inl Mint_sender
      | Some priv \<Rightarrow>
          (case dh_agree D priv (cg_PublicKey ch) of
             None \<Rightarrow> Inl ErrEnvelopeInvalid
           | Some shared \<Rightarrow>
               (case envelopeCipher C shared (cg_PublicKey ch) (dh_public D priv) (cg_Nonce ch) of
                  Inl e \<Rightarrow> Inl (Envelope_cipher e)
                | Inr gcm \<Rightarrow>
                    (case read_full NonceLen rnd of
                       None \<Rightarrow> Inl Mint_nonce
                     | Some (nonce, _) \<Rightarrow>
                         Inr (envelopeMagic @ [byte envelopeVersion] @ cg_SessionID ch @ dh_public D priv @ nonce
                              @ cl_seal C gcm nonce plaintext (envelopeAAD instance' (cg_SessionID ch) (cg_Nonce ch)))))))"

section \<open>The outstanding challenges\<close>

definition challenger_ok :: "challenger \<Rightarrow> bool" where
  "challenger_ok c \<longleftrightarrow> distinct (map fst (cr_outstanding c)) \<and> length (cr_outstanding c) \<le> maxOutstanding
     \<and> fst ` set (cr_nonces c) = fst ` set (cr_outstanding c)"

lemma map_of_filter_ids: "map_of (filter (\<lambda>(i, _). P i) xs) s = (if P s then map_of xs s else None)"
  by (induction xs) auto

lemma expire_outstanding:
  assumes "distinct (map fst (cr_outstanding c))"
  shows "map_of (cr_outstanding (expireLocked now c)) s
    = (case map_of (cr_outstanding c) s of None \<Rightarrow> None | Some d \<Rightarrow> if d < now then None else Some d)"
proof (cases "map_of (cr_outstanding c) s")
  case None
  then show ?thesis by (simp add: expireLocked_def Let_def map_of_filter_ids)
next
  case (Some d)
  have "(s \<in> fst ` {x \<in> set (cr_outstanding c). snd x < now}) \<longleftrightarrow> d < now"
    using Some assms by (auto simp: map_of_eq_Some_iff image_iff) (metis assms map_of_eq_Some_iff option.inject)
  then show ?thesis using Some by (simp add: expireLocked_def Let_def map_of_filter_ids case_prod_beta split: if_splits)
qed

lemma expire_nonces:
  assumes "map_of (cr_outstanding (expireLocked now c)) s = Some d"
  shows "map_of (cr_nonces (expireLocked now c)) s = map_of (cr_nonces c) s"
  using assms by (auto simp: expireLocked_def Let_def map_of_filter_ids split: if_splits)

lemma fst_filter_ids: "fst ` set (filter (\<lambda>(i, _). P i) xs) = {i \<in> fst ` set xs. P i}"
  by force

lemma distinct_filter_ids: "distinct (map fst xs) \<Longrightarrow> distinct (map fst (filter (\<lambda>(i, _). P i) xs))"
  by (simp add: distinct_map_filter)

lemma expire_ok: "challenger_ok c \<Longrightarrow> challenger_ok (expireLocked now c)"
  by (auto simp: challenger_ok_def expireLocked_def Let_def fst_filter_ids distinct_filter_ids simp del: set_filter
      intro: le_trans[OF length_filter_le])

lemma delete_ok:
  "challenger_ok c \<Longrightarrow>
     challenger_ok (c\<lparr>cr_outstanding := AList.delete s (cr_outstanding c), cr_nonces := AList.delete s (cr_nonces c)\<rparr>)"
proof -
  have keys: "fst ` set (AList.delete s xs) = fst ` set xs - {s}" for xs :: "(string \<times> 'b) list"
    by (simp only: set_map[symmetric] delete_keys) auto
  show "challenger_ok c \<Longrightarrow> ?thesis"
    by (auto simp: challenger_ok_def keys distinct_delete intro: le_trans[OF length_delete_le])
qed

lemma length_update_le: "length (AList.update k v al) \<le> Suc (length al)"
  by (induction al) auto

section \<open>Histories of a challenger\<close>

datatype envelope_event = Issued gotime string | Opened gotime string string

fun event_session :: "envelope_event \<Rightarrow> string" where
  "event_session (Issued _ rnd) = take sessionIDLen rnd"
| "event_session (Opened _ envelope _) = slice offSessionID sessionIDLen envelope"

fun event_time :: "envelope_event \<Rightarrow> gotime" where
  "event_time (Issued now _) = now"
| "event_time (Opened now _ _) = now"

fun challenger_step :: "crypto_lib \<Rightarrow> dh_lib \<Rightarrow> envelope_event \<Rightarrow> challenger \<Rightarrow> challenger" where
  "challenger_step C D (Issued now rnd) c = fst (Issue D now rnd c)"
| "challenger_step C D (Opened now envelope instance') c = fst (OpenEnvelope C D now envelope instance' c)"

lemma Open_outcome:
  "fst (OpenEnvelope C D now envelope instance' c) =
     (if length envelope < offCiphertext + TagLen \<or> take 4 envelope \<noteq> envelopeMagic \<or> envelope ! 4 \<noteq> byte envelopeVersion then c
      else let s = slice offSessionID sessionIDLen envelope; c = expireLocked now c in
        c\<lparr>cr_outstanding := AList.delete s (cr_outstanding c), cr_nonces := AList.delete s (cr_nonces c)\<rparr>)"
  by (simp add: OpenEnvelope_def Let_def split: option.splits sum.splits)

lemma Issue_ok: "challenger_ok c \<Longrightarrow> challenger_ok (fst (Issue D now rnd c))"
  using expire_ok[of c now]
  by (auto simp: Issue_def Let_def challenger_ok_def distinct_update dom_update split: option.splits
      intro: le_trans[OF length_update_le])

lemma step_ok: "challenger_ok c \<Longrightarrow> challenger_ok (challenger_step C D ev c)"
  by (cases ev) (simp_all add: Issue_ok Open_outcome Let_def delete_ok expire_ok)

lemma step_outstanding:
  assumes "challenger_ok c" "event_session ev \<noteq> s"
  shows "map_of (cr_outstanding (challenger_step C D ev c)) s
      \<in> {map_of (cr_outstanding c) s, case map_of (cr_outstanding c) s of None \<Rightarrow> None | Some d \<Rightarrow> if d < event_time ev then None else Some d}"
    and "map_of (cr_outstanding (challenger_step C D ev c)) s = Some d \<Longrightarrow> map_of (cr_nonces (challenger_step C D ev c)) s = map_of (cr_nonces c) s"
  using assms expire_outstanding[of c "event_time ev" s] expire_nonces[of "event_time ev" c s]
  by (cases ev; auto simp: Open_outcome Issue_def Let_def challenger_ok_def read_full_def update_conv' delete_conv'
      split: option.splits if_splits)+

definition issues :: "string \<Rightarrow> envelope_event \<Rightarrow> bool" where
  "issues s ev \<longleftrightarrow> (case ev of Issued _ rnd \<Rightarrow> take sessionIDLen rnd = s | Opened _ _ _ \<Rightarrow> False)"

lemma step_absent:
  assumes "challenger_ok c" "\<not> issues s ev" "map_of (cr_outstanding c) s = None"
  shows "map_of (cr_outstanding (challenger_step C D ev c)) s = None"
proof (cases ev)
  case (Issued now rnd)
  then show ?thesis using assms(2,3) step_outstanding(1)[OF assms(1), of ev s C D] by (simp add: issues_def)
next
  case (Opened now envelope instance')
  then show ?thesis using assms(1,3) expire_outstanding[of c now s]
    by (auto simp: Open_outcome Let_def challenger_ok_def delete_conv')
qed

lemma run_ok: "challenger_ok c \<Longrightarrow> challenger_ok (fold (challenger_step C D) evs c)"
  by (induction evs arbitrary: c) (simp_all add: step_ok)

lemma run_absent:
  assumes "challenger_ok c" "\<forall>ev\<in>set evs. \<not> issues s ev" "map_of (cr_outstanding c) s = None"
  shows "map_of (cr_outstanding (fold (challenger_step C D) evs c)) s = None"
  using assms by (induction evs arbitrary: c) (simp_all add: step_ok step_absent)

lemma run_kept:
  assumes "challenger_ok c" "\<forall>ev\<in>set evs. event_session ev \<noteq> s \<and> event_time ev \<le> d"
    and "map_of (cr_outstanding c) s = Some d" "map_of (cr_nonces c) s = Some n"
  shows "map_of (cr_outstanding (fold (challenger_step C D) evs c)) s = Some d
    \<and> map_of (cr_nonces (fold (challenger_step C D) evs c)) s = Some n"
  using assms
proof (induction evs arbitrary: c)
  case (Cons ev evs)
  have o: "map_of (cr_outstanding (challenger_step C D ev c)) s = Some d"
    using step_outstanding(1)[OF Cons.prems(1), of ev s C D] Cons.prems(2,3) by auto
  moreover have "map_of (cr_nonces (challenger_step C D ev c)) s = Some n"
    using step_outstanding(2)[OF Cons.prems(1) _ o] Cons.prems(2,4) by simp
  ultimately show ?case using Cons.IH[of "challenger_step C D ev c"] Cons.prems(1,2) by (simp add: step_ok)
qed simp

lemma step_priv: "cr_priv (challenger_step C D ev c) = cr_priv c"
  by (cases ev) (simp_all add: Open_outcome Issue_def Let_def expireLocked_def split: option.splits)

lemma run_priv: "cr_priv (fold (challenger_step C D) evs c) = cr_priv c"
  by (induction evs arbitrary: c) (simp_all add: step_priv)

lemma Issue_Inr:
  assumes "Issue D now rnd c = (c', Inr ch)" "challenger_ok c"
  shows "cg_SessionID ch = take sessionIDLen rnd \<and> length (cg_SessionID ch) = sessionIDLen \<and> length (cg_Nonce ch) = challengeLen
    \<and> cg_PublicKey ch = PublicKey D c \<and> cr_priv c' = cr_priv c
    \<and> map_of (cr_outstanding c') (cg_SessionID ch) = Some (now + challengeTTL) \<and> map_of (cr_nonces c') (cg_SessionID ch) = Some (cg_Nonce ch)"
  using assms(1)
  by (auto simp: Issue_def Let_def read_full_def update_conv' PublicKey_def expireLocked_def split: option.splits if_splits)

text \<open>The fields of an envelope as the opener cuts it up.\<close>

lemma envelope_fields:
  assumes "length s = sessionIDLen" "length p = pubKeyLen" "length n = NonceLen" "TagLen \<le> length ct"
    and "e = envelopeMagic @ [byte envelopeVersion] @ s @ p @ n @ ct"
  shows "\<not> length e < offCiphertext + TagLen" "take 4 e = envelopeMagic" "e ! 4 = byte envelopeVersion"
    "slice offSessionID sessionIDLen e = s" "slice offSenderPub pubKeyLen e = p" "slice offNonce NonceLen e = n" "drop offCiphertext e = ct"
  using assms(1-4) unfolding assms(5) by (simp_all add: envelope_layout slice_def)

lemma sealed_envelope_opens:
  assumes "crypto_laws C" "dh_laws D" "SealBundle C D pt instance' ch sender rnd = Inr envelope"
    and "cg_PublicKey ch = PublicKey D c" "map_of (cr_outstanding c) (cg_SessionID ch) = Some d" "now \<le> d"
    and "map_of (cr_nonces c) (cg_SessionID ch) = Some (cg_Nonce ch)" "challenger_ok c"
  shows "snd (OpenEnvelope C D now envelope instance' c) = Inr pt \<and> slice offSessionID sessionIDLen envelope = cg_SessionID ch"
proof -
  obtain priv shared gcm nonce rest where
      s: "length (cg_SessionID ch) = sessionIDLen" "length (cg_Nonce ch) = challengeLen" "dh_accepts D (cg_PublicKey ch)"
    "dh_agree D priv (cg_PublicKey ch) = Some shared" "envelopeCipher C shared (cg_PublicKey ch) (dh_public D priv) (cg_Nonce ch) = Inr gcm"
    "read_full NonceLen rnd = Some (nonce, rest)"
    "envelope = envelopeMagic @ [byte envelopeVersion] @ cg_SessionID ch @ dh_public D priv @ nonce
        @ cl_seal C gcm nonce pt (envelopeAAD instance' (cg_SessionID ch) (cg_Nonce ch))"
    using assms(3) by (auto simp: SealBundle_def split: if_splits option.splits sum.splits)
  have "length (dh_public D priv) = pubKeyLen" "dh_accepts D (dh_public D priv)" using assms(2) by (simp_all add: dh_laws_def)
  moreover have "length nonce = NonceLen" using s(6) by (auto simp: read_full_def split: if_splits)
  moreover have "TagLen \<le> length (cl_seal C gcm nonce pt (envelopeAAD instance' (cg_SessionID ch) (cg_Nonce ch)))"
    by (simp add: crypto_lawsD(3)[OF assms(1)])
  ultimately have F: "length (dh_public D priv) = pubKeyLen" "dh_accepts D (dh_public D priv)" and
    E: "\<not> length envelope < offCiphertext + TagLen" "take 4 envelope = envelopeMagic" "envelope ! 4 = byte envelopeVersion"
      "slice offSessionID sessionIDLen envelope = cg_SessionID ch" "slice offSenderPub pubKeyLen envelope = dh_public D priv"
      "slice offNonce NonceLen envelope = nonce"
      "drop offCiphertext envelope = cl_seal C gcm nonce pt (envelopeAAD instance' (cg_SessionID ch) (cg_Nonce ch))"
    using envelope_fields[OF s(1) _ _ _ s(7)] by blast+
  have "dh_agree D (cr_priv c) (dh_public D priv) = Some shared"
    using s(4) assms(2,4) by (simp add: dh_laws_def PublicKey_def)
  moreover have "map_of (cr_outstanding (expireLocked now c)) (cg_SessionID ch) = Some d"
    using expire_outstanding[of c now "cg_SessionID ch"] assms(5,6,8) by (simp add: challenger_ok_def)
  moreover note expire_nonces[OF this]
  moreover have "cr_priv (expireLocked now c) = cr_priv c" by (simp add: expireLocked_def)
  ultimately show ?thesis using E F s(5) assms(4,6,7)
    by (simp add: OpenEnvelope_def Let_def get_or_def PublicKey_def crypto_lawsD(4)[OF assms(1)])
qed

lemma open_consumes:
  assumes "snd (OpenEnvelope C D now envelope instance' c) = Inr pt" "challenger_ok c"
  shows "map_of (cr_outstanding (fst (OpenEnvelope C D now envelope instance' c))) (slice offSessionID sessionIDLen envelope) = None"
proof -
  have "\<not> (length envelope < offCiphertext + TagLen \<or> take 4 envelope \<noteq> envelopeMagic \<or> envelope ! 4 \<noteq> byte envelopeVersion)"
    using assms(1) by (auto simp: OpenEnvelope_def split: if_splits)
  then show ?thesis by (simp add: Open_outcome Let_def delete_conv')
qed

lemma absent_is_refused:
  assumes "map_of (cr_outstanding c) (slice offSessionID sessionIDLen envelope) = None" "challenger_ok c"
  shows "snd (OpenEnvelope C D now envelope instance' c) = Inl ErrEnvelopeInvalid"
  using expire_outstanding[of c now "slice offSessionID sessionIDLen envelope"] assms
  by (simp add: OpenEnvelope_def Let_def challenger_ok_def)

text \<open>
  C14. An envelope delivers its bundle once. A bundle sealed to a challenge reaches the
  process that issued it, whatever else was issued and opened in between, as long as it
  arrives within the challenge's two minutes and nobody used the challenge first; and from
  then on no envelope naming that challenge opens in that process, unless the random source
  repeats the session.
\<close>

theorem envelope_delivers_once:
  assumes "crypto_laws C" "dh_laws D" "Issue D t0 rnd (fold (challenger_step C D) history (NewChallenger priv)) = (c0, Inr ch)"
    and "SealBundle C D pt instance' ch sender rnd' = Inr envelope"
    and "\<forall>ev\<in>set between. event_session ev \<noteq> cg_SessionID ch \<and> event_time ev \<le> t0 + challengeTTL" "t1 \<le> t0 + challengeTTL"
    and "c1 = fold (challenger_step C D) between c0" "OpenEnvelope C D t1 envelope instance' c1 = (c2, r)"
  shows "r = Inr pt \<and> (\<forall>later replay t2 instance2. (\<forall>ev\<in>set later. \<not> issues (cg_SessionID ch) ev) \<longrightarrow>
      slice offSessionID sessionIDLen replay = cg_SessionID ch \<longrightarrow>
      snd (OpenEnvelope C D t2 replay instance2 (fold (challenger_step C D) later c2)) = Inl ErrEnvelopeInvalid)"
proof -
  have ok: "challenger_ok (fold (challenger_step C D) history (NewChallenger priv))"
    by (rule run_ok) (simp add: challenger_ok_def NewChallenger_def)
  note I = Issue_Inr[OF assms(3) ok]
  have ok0: "challenger_ok c0" using Issue_ok[OF ok, of D t0 rnd] assms(3) by simp
  then have ok1: "challenger_ok c1" using assms(7) by (simp add: run_ok)
  have "map_of (cr_outstanding c1) (cg_SessionID ch) = Some (t0 + challengeTTL) \<and> map_of (cr_nonces c1) (cg_SessionID ch) = Some (cg_Nonce ch)"
    unfolding assms(7) by (intro run_kept[OF ok0 assms(5)]) (use I in blast)+
  moreover have "cg_PublicKey ch = PublicKey D c1" using I assms(7) by (simp add: PublicKey_def run_priv)
  ultimately have o: "snd (OpenEnvelope C D t1 envelope instance' c1) = Inr pt \<and> slice offSessionID sessionIDLen envelope = cg_SessionID ch"
    using sealed_envelope_opens[OF assms(1,2,4)] assms(6) ok1 by blast
  have ok2: "challenger_ok c2" using step_ok[OF ok1, of C D "Opened t1 envelope instance'"] assms(8) by simp
  have "map_of (cr_outstanding c2) (cg_SessionID ch) = None" using open_consumes[OF conjunct1[OF o] ok1] o assms(8) by simp
  then show ?thesis using o assms(8) absent_is_refused run_absent[OF ok2] run_ok[OF ok2] by (metis snd_conv)
qed

definition toy_dh :: dh_lib where
  "toy_dh =
     (let pad = \<lambda>k. take 32 (k @ replicate 32 (byte 0)) in
      \<lparr>dh_public = pad, dh_accepts = (\<lambda>p. length p = 32),
       dh_agree = (\<lambda>k p. Some (map (\<lambda>(x, y). byte (byte_val x + byte_val y)) (zip (pad k) p)))\<rparr>)"

lemma map_zip_comm: "(\<And>x y. f (x, y) = f (y, x)) \<Longrightarrow> map f (zip xs ys) = map f (zip ys xs)"
proof (induction xs arbitrary: ys)
  case (Cons x xs)
  then show ?case by (cases ys) simp_all
qed simp

lemma toy_dh_laws: "dh_laws toy_dh"
  unfolding dh_laws_def toy_dh_def pubKeyLen_def Let_def
  by (intro conjI allI) (simp_all add: min_def add.commute, intro map_zip_comm, simp add: add.commute)

theorem envelope_delivers_once_witness:
  "\<exists>c0 ch envelope. Issue toy_dh 0 (replicate 40 (byte 7)) (NewChallenger ''priv'') = (c0, Inr ch)
     \<and> SealBundle plain_lib toy_dh ''bundle'' ''prod'' ch (Some ''sender'') (replicate 12 (byte 2)) = Inr envelope
     \<and> snd (OpenEnvelope plain_lib toy_dh 5 envelope ''prod'' c0) = Inr ''bundle''
     \<and> snd (OpenEnvelope plain_lib toy_dh 6 envelope ''prod'' (fst (OpenEnvelope plain_lib toy_dh 5 envelope ''prod'' c0))) = Inl ErrEnvelopeInvalid"
proof -
  let ?priv = "''priv''" and ?rnd = "replicate 40 (byte 7)"
  let ?ch = "\<lparr>cg_SessionID = replicate 8 (byte 7), cg_Nonce = replicate 32 (byte 7), cg_PublicKey = dh_public toy_dh ?priv\<rparr>"
  let ?c0 = "\<lparr>cr_priv = ?priv, cr_outstanding = [(replicate 8 (byte 7), challengeTTL)], cr_nonces = [(replicate 8 (byte 7), replicate 32 (byte 7))]\<rparr>"
  have i: "Issue toy_dh 0 ?rnd (NewChallenger ?priv) = (?c0, Inr ?ch)"
    by (simp add: Issue_def NewChallenger_def read_full_def expireLocked_def PublicKey_def envelope_layout maxOutstanding_def Let_def)
  obtain shared where a: "dh_agree toy_dh ''sender'' (dh_public toy_dh ?priv) = Some shared" by (simp add: toy_dh_def Let_def)
  have l: "length (dh_public toy_dh ?priv) = pubKeyLen" "dh_accepts toy_dh (dh_public toy_dh ?priv)"
    using toy_dh_laws by (simp_all add: dh_laws_def)
  obtain envelope where e: "SealBundle plain_lib toy_dh ''bundle'' ''prod'' ?ch (Some ''sender'') (replicate 12 (byte 2)) = Inr envelope"
    using a l by (simp add: SealBundle_def sessionIDLen_def challengeLen_def envelopeCipher_def newGCM_def
        crypto_lawsD(1)[OF plain_lib_laws] read_full_def NonceLen_def)
  obtain c2 r where o: "OpenEnvelope plain_lib toy_dh 5 envelope ''prod'' ?c0 = (c2, r)" by fastforce
  have R: "r = Inr ''bundle'' \<and> (\<forall>later replay t2 instance2. (\<forall>ev\<in>set later. \<not> issues (cg_SessionID ?ch) ev) \<longrightarrow>
      slice offSessionID sessionIDLen replay = cg_SessionID ?ch \<longrightarrow>
      snd (OpenEnvelope plain_lib toy_dh t2 replay instance2 (fold (challenger_step plain_lib toy_dh) later c2)) = Inl ErrEnvelopeInvalid)"
    by (rule envelope_delivers_once[OF plain_lib_laws toy_dh_laws, of 0 ?rnd "[]" ?priv ?c0 ?ch "''bundle''" "''prod''" "Some ''sender''" "replicate 12 (byte 2)" envelope "[]" 5 ?c0 c2 r])
      (simp only: fold.simps id_apply i, simp only: e, simp, simp add: challengeTTL_def, simp, rule o)
  have "slice offSessionID sessionIDLen envelope = cg_SessionID ?ch"
    using e a l by (auto simp: SealBundle_def slice_def envelope_layout read_full_def split: option.splits sum.splits)
  then have "snd (OpenEnvelope plain_lib toy_dh 6 envelope ''prod'' (fold (challenger_step plain_lib toy_dh) [] c2)) = Inl ErrEnvelopeInvalid"
    using R by (metis empty_iff empty_set)
  then show ?thesis using i e o R by (intro exI[of _ ?c0] exI[of _ ?ch] exI[of _ envelope]) simp
qed

end
