(* ===== verification/Keyholder.thy ===== *)
theory Keyholder
  imports Store Identity Envelope
begin

text \<open>
  The keyholder's HTTP surface (\<open>datasphere/keyholder/server.go\<close>, \<open>wire.go\<close>, the wiring of
  \<open>cmd/datasphere/serve.go\<close>): the status probes, the control routes that change the seal
  state, and the four storage operations applications call. A request is the verified leaf
  of its connection, its route, its headers and its body; a response is a status, a wire
  code and a body value (JSON encoding is left to the library). The server's state is its
  vault, the heap its key bytes lie on and its challenger; the cloud is beside it. The
  clock and the random source are read per request and are arguments.
\<close>

section \<open>Errors and their wire form\<close>

datatype serve_error =
    Identity_error identity_error
  | No_business identity
  | Unknown_intent string
  | May_not_push identity intent
  | Content_type_wrong
  | Body_unreadable
  | Envelope_refused envelope_error
  | Bundle_refused bundle_fault
  | Vault_refused vault_error
  | May_not_seal identity
  | Key_header_missing
  | Header_not_base64
  | Scope_header_missing
  | May_not_reach identity string
  | Scope_mismatch string string
  | Secrets_read_only
  | Body_too_large nat
  | Store_failed storage_error
  | List_failed "storage_error list"

datatype sentinel =
    Sn_Sealed | Sn_OperatorHold | Sn_GenerationTooOld | Sn_InstanceMismatch | Sn_OutOfScope
  | Sn_NotServing | Sn_AlreadyServing | Sn_SecretsReadOnly | Sn_NotAuthorized | Sn_NoIdentity
  | Sn_EnvelopeInvalid | Sn_ObjectNotFound | Sn_Integrity | Sn_UnknownKey | Sn_InvalidKey
  | Sn_TooLarge | Sn_BundleInvalid | Sn_KeyringInvalid

text \<open>The sentinels an error wraps: what \<open>errors.Is\<close> finds in it.\<close>

fun keyring_sentinels :: "keyring_fault \<Rightarrow> sentinel list" where
  "keyring_sentinels (Prefix_key _) = [Sn_KeyringInvalid, Sn_InvalidKey]"
| "keyring_sentinels (In_scope _ f) = keyring_sentinels f"
| "keyring_sentinels (After_rotation _ f) = keyring_sentinels f"
| "keyring_sentinels (Scope_at _ f) = keyring_sentinels f"
| "keyring_sentinels (Entry_at _ _ f) = keyring_sentinels f"
| "keyring_sentinels Mint_material = []"
| "keyring_sentinels Mint_id = []"
| "keyring_sentinels Yaml_encode = []"
| "keyring_sentinels _ = [Sn_KeyringInvalid]"

fun crypto_sentinels :: "crypto_error \<Rightarrow> sentinel list" where
  "crypto_sentinels ErrIntegrity = [Sn_Integrity]"
| "crypto_sentinels (ErrUnknownKey _) = [Sn_UnknownKey]"
| "crypto_sentinels (ErrTooLarge _) = [Sn_TooLarge]"
| "crypto_sentinels (ErrInvalidKey _) = [Sn_InvalidKey]"
| "crypto_sentinels _ = []"

fun storage_sentinels :: "storage_error \<Rightarrow> sentinel list" where
  "storage_sentinels (Store_keyring f) = keyring_sentinels f"
| "storage_sentinels (Store_crypto e) = crypto_sentinels e"
| "storage_sentinels (Store_provider ErrObjectNotFound) = [Sn_ObjectNotFound]"
| "storage_sentinels (Name_error _ e) = storage_sentinels e"
| "storage_sentinels _ = []"

fun vault_sentinels :: "vault_error \<Rightarrow> sentinel list" where
  "vault_sentinels (ErrInstanceMismatch _ _) = [Sn_InstanceMismatch]"
| "vault_sentinels (ErrNotServing _) = [Sn_NotServing]"
| "vault_sentinels (ErrAlreadyServing _) = [Sn_AlreadyServing]"
| "vault_sentinels (ErrOperatorHold _ _) = [Sn_OperatorHold]"
| "vault_sentinels (ErrGenerationTooOld _ _) = [Sn_GenerationTooOld]"
| "vault_sentinels (Scope_invalid f) = keyring_sentinels f"
| "vault_sentinels ErrSealed = [Sn_Sealed]"
| "vault_sentinels ErrOutOfScope = [Sn_OutOfScope]"
| "vault_sentinels Nil_bundle = []"

fun bundle_sentinels :: "bundle_fault \<Rightarrow> sentinel list" where
  "bundle_sentinels (Bundle_scope f) = Sn_BundleInvalid # keyring_sentinels f"
| "bundle_sentinels Bundle_encode = []"
| "bundle_sentinels _ = [Sn_BundleInvalid]"

fun sentinels :: "serve_error \<Rightarrow> sentinel list" where
  "sentinels (Identity_error ErrNoIdentity) = [Sn_NoIdentity]"
| "sentinels (Identity_error _) = [Sn_NotAuthorized]"
| "sentinels (No_business _) = [Sn_NotAuthorized]"
| "sentinels (Unknown_intent _) = [Sn_BundleInvalid]"
| "sentinels (May_not_push _ _) = [Sn_NotAuthorized]"
| "sentinels Content_type_wrong = [Sn_BundleInvalid]"
| "sentinels Body_unreadable = [Sn_BundleInvalid]"
| "sentinels (Envelope_refused ErrEnvelopeInvalid) = [Sn_EnvelopeInvalid]"
| "sentinels (Envelope_refused _) = []"
| "sentinels (Bundle_refused f) = bundle_sentinels f"
| "sentinels (Vault_refused e) = vault_sentinels e"
| "sentinels (May_not_seal _) = [Sn_NotAuthorized]"
| "sentinels Key_header_missing = [Sn_InvalidKey]"
| "sentinels Header_not_base64 = [Sn_InvalidKey]"
| "sentinels Scope_header_missing = [Sn_OutOfScope]"
| "sentinels (May_not_reach _ _) = [Sn_NotAuthorized]"
| "sentinels (Scope_mismatch _ _) = [Sn_OutOfScope]"
| "sentinels Secrets_read_only = [Sn_SecretsReadOnly]"
| "sentinels (Body_too_large _) = [Sn_TooLarge]"
| "sentinels (Store_failed e) = storage_sentinels e"
| "sentinels (List_failed es) = concat (map storage_sentinels es)"

definition CodeSealed :: string where "CodeSealed = ''sealed''"
definition CodeNotFound :: string where "CodeNotFound = ''not-found''"
definition CodeIntegrity :: string where "CodeIntegrity = ''integrity''"
definition CodeInvalidKey :: string where "CodeInvalidKey = ''invalid-key''"
definition CodeTooLarge :: string where "CodeTooLarge = ''too-large''"
definition CodePermission :: string where "CodePermission = ''permission''"
definition CodeOperatorHold :: string where "CodeOperatorHold = ''operator-hold''"
definition CodeGenerationOld :: string where "CodeGenerationOld = ''generation-too-old''"
definition CodeInstanceMismatch :: string where "CodeInstanceMismatch = ''instance-mismatch''"
definition CodeBadRequest :: string where "CodeBadRequest = ''bad-request''"
definition CodeNotServing :: string where "CodeNotServing = ''not-serving''"
definition CodeAlreadyServing :: string where "CodeAlreadyServing = ''already-serving''"

lemmas wire_codes = CodeSealed_def CodeNotFound_def CodeIntegrity_def CodeInvalidKey_def CodeTooLarge_def CodePermission_def
  CodeOperatorHold_def CodeGenerationOld_def CodeInstanceMismatch_def CodeBadRequest_def CodeNotServing_def CodeAlreadyServing_def

definition classify :: "serve_error option \<Rightarrow> nat \<times> string" where
  "classify err =
     (case err of
        None \<Rightarrow> (200, '''')
      | Some e \<Rightarrow>
          let is = (\<lambda>s. s \<in> set (sentinels e)) in
          if is Sn_Sealed then (503, CodeSealed)
          else if is Sn_OutOfScope \<or> is Sn_SecretsReadOnly \<or> is Sn_NotAuthorized \<or> is Sn_NoIdentity then (403, CodePermission)
          else if is Sn_ObjectNotFound then (404, CodeNotFound)
          else if is Sn_Integrity \<or> is Sn_UnknownKey then (502, CodeIntegrity)
          else if is Sn_InvalidKey then (400, CodeInvalidKey)
          else if is Sn_TooLarge then (413, CodeTooLarge)
          else if is Sn_OperatorHold then (409, CodeOperatorHold)
          else if is Sn_GenerationTooOld then (409, CodeGenerationOld)
          else if is Sn_InstanceMismatch then (409, CodeInstanceMismatch)
          else if is Sn_NotServing then (409, CodeNotServing)
          else if is Sn_AlreadyServing then (409, CodeAlreadyServing)
          else if is Sn_EnvelopeInvalid then (403, CodeBadRequest)
          else if is Sn_BundleInvalid \<or> is Sn_KeyringInvalid then (400, CodeBadRequest)
          else (500, ''''))"

text \<open>The message a caller sees is the text of the first known sentinel, never the error's own.\<close>

datatype message = Sentinel_text sentinel | Request_refused | Internal_error | Cannot_issue

definition safeMessage :: "serve_error \<Rightarrow> message" where
  "safeMessage e =
     (case find (\<lambda>s. s \<in> set (sentinels e))
        [Sn_Sealed, Sn_OperatorHold, Sn_GenerationTooOld, Sn_InstanceMismatch, Sn_OutOfScope,
         Sn_SecretsReadOnly, Sn_NotAuthorized, Sn_NoIdentity,
         Sn_ObjectNotFound, Sn_Integrity, Sn_UnknownKey,
         Sn_InvalidKey, Sn_TooLarge, Sn_BundleInvalid, Sn_KeyringInvalid] of
        Some s \<Rightarrow> Sentinel_text s
      | None \<Rightarrow> Request_refused)"

record state_response =
  rs_Instance :: string
  rs_Phase :: phase
  rs_Since :: gotime
  rs_Generation :: "64 word"
  rs_HoldReason :: string
  rs_Scopes :: "string list"
  rs_Boot :: string
  rs_Keys :: "(string \<times> string list) list"

datatype body =
    Body_none
  | Body_text string
  | Body_data string
  | Body_keys "string list"
  | Body_state state_response
  | Body_challenge challenge
  | Body_error string message

record response =
  rp_status :: nat
  rp_code :: string
  rp_body :: body

definition stateBody :: "string \<Rightarrow> vault_state \<Rightarrow> state_response" where
  "stateBody instance' st =
     \<lparr>rs_Instance = instance', rs_Phase = st_Phase st, rs_Since = st_Since st, rs_Generation = st_Generation st,
      rs_HoldReason = st_HoldReason st, rs_Scopes = st_Scopes st, rs_Boot = '''', rs_Keys = []\<rparr>"

definition controlStateBody :: "string \<Rightarrow> vault_state \<Rightarrow> state_response" where
  "controlStateBody instance' st = (stateBody instance' st)\<lparr>rs_Boot := st_Boot st, rs_Keys := st_Keys st\<rparr>"

definition writeJSON :: "nat \<Rightarrow> body \<Rightarrow> response" where
  "writeJSON status b = \<lparr>rp_status = status, rp_code = '''', rp_body = b\<rparr>"

definition fail :: "serve_error \<Rightarrow> response" where
  "fail e =
     (case classify (Some e) of (status, code) \<Rightarrow>
        if status = 500 then \<lparr>rp_status = status, rp_code = code, rp_body = Body_error code Internal_error\<rparr>
        else \<lparr>rp_status = status, rp_code = code, rp_body = Body_error code (safeMessage e)\<rparr>)"

section \<open>The server\<close>

definition ContentTypeSealed :: string where "ContentTypeSealed = ''application/vnd.farcast.sealed-bundle''"
definition DefaultMaxObjectBytes :: nat where "DefaultMaxObjectBytes = 64 * 2 ^ 20"

text \<open>
  \<open>Config\<close> with what the composition root closes over: the cloud, the bucket, the
  cryptography and the YAML reader.
\<close>

record 'c config =
  cf_Instance :: string
  cf_Max :: nat
  cf_crypto :: crypto_lib
  cf_dh :: dh_lib
  cf_provider :: "'c provider"
  cf_bucket :: string
  cf_unyaml :: "string \<Rightarrow> bundle_file option"

definition Stores :: "'c config \<Rightarrow> string scope \<Rightarrow> storage_error + store" where
  "Stores cf s = NewStore (cf_crypto cf) (cf_bucket cf) (ScopeKeyring s)"

definition server_max :: "int \<Rightarrow> nat" where
  "server_max maxObjectBytes = (if maxObjectBytes \<le> 0 then DefaultMaxObjectBytes else nat maxObjectBytes)"

record server =
  sv_vault :: "nat vault"
  sv_heap :: heap
  sv_challenger :: challenger

text \<open>\<open>io.ReadAll(http.MaxBytesReader(w, body, max))\<close>: \<open>None\<close> is an error.\<close>

definition read_body :: "nat \<Rightarrow> reader \<Rightarrow> string option" where
  "read_body maxlen r = (if length (rd_data r) > maxlen \<or> rd_fails r then None else Some (rd_data r))"

section \<open>Probes\<close>

definition status_livez :: response where
  "status_livez = \<lparr>rp_status = 200, rp_code = '''', rp_body = Body_text ''ok''\<rparr>"

fun phase_name :: "phase \<Rightarrow> string" where
  "phase_name PhaseRestartSealed = ''restart-sealed''"
| "phase_name PhaseUnsealed = ''unsealed''"
| "phase_name PhaseOperatorHold = ''operator-hold''"

definition status_readyz :: "server \<Rightarrow> response" where
  "status_readyz sv =
     (if Vault.Ready (sv_vault sv) then \<lparr>rp_status = 200, rp_code = '''', rp_body = Body_text ''ready''\<rparr>
      else \<lparr>rp_status = 503, rp_code = '''', rp_body = Body_text (phase_name (st_Phase (State (sv_vault sv))))\<rparr>)"

definition status_state :: "'c config \<Rightarrow> server \<Rightarrow> response" where
  "status_state cf sv = writeJSON 200 (Body_state (stateBody (cf_Instance cf) (State (sv_vault sv))))"

section \<open>The control surface\<close>

definition controlCaller :: "'c config \<Rightarrow> peer \<Rightarrow> serve_error + identity" where
  "controlCaller cf p =
     (case identityFrom p (cf_Instance cf) of
        Inl e \<Rightarrow> Inl (Identity_error e)
      | Inr i \<Rightarrow> if id_Role i \<noteq> RoleOperator \<and> id_Role i \<noteq> RoleKeeper then Inl (No_business i) else Inr i)"

definition mayChangeSeal :: "'c config \<Rightarrow> peer \<Rightarrow> serve_error option" where
  "mayChangeSeal cf p =
     (case controlCaller cf p of Inl e \<Rightarrow> Some e | Inr i \<Rightarrow> if \<not> MaySeal i then Some (May_not_seal i) else None)"

definition parse_intent :: "string \<Rightarrow> serve_error + intent" where
  "parse_intent s =
     (if s = ''operator-unseal'' then Inr IntentOperator
      else if s = ''restart-reseed'' then Inr IntentReseed
      else if s = ''hand-over'' then Inr IntentHandOver
      else if s = '''' then Inr IntentReseed
      else Inl (Unknown_intent s))"

definition control_state :: "'c config \<Rightarrow> server \<Rightarrow> response" where
  "control_state cf sv = writeJSON 200 (Body_state (controlStateBody (cf_Instance cf) (State (sv_vault sv))))"

definition get_state :: "'c config \<Rightarrow> peer \<Rightarrow> server \<Rightarrow> response" where
  "get_state cf p sv = (case controlCaller cf p of Inl e \<Rightarrow> fail e | Inr _ \<Rightarrow> control_state cf sv)"

definition get_challenge :: "'c config \<Rightarrow> gotime \<Rightarrow> string \<Rightarrow> peer \<Rightarrow> server \<Rightarrow> server \<times> response" where
  "get_challenge cf now rnd p sv =
     (case controlCaller cf p of
        Inl e \<Rightarrow> (sv, fail e)
      | Inr _ \<Rightarrow>
          (case Issue (cf_dh cf) now rnd (sv_challenger sv) of
             (ch, Inl _) \<Rightarrow> (sv\<lparr>sv_challenger := ch\<rparr>, \<lparr>rp_status = 429, rp_code = CodeBadRequest, rp_body = Body_error CodeBadRequest Cannot_issue\<rparr>)
           | (ch, Inr c) \<Rightarrow> (sv\<lparr>sv_challenger := ch\<rparr>, writeJSON 200 (Body_challenge c))))"

text \<open>
  The tail of the unseal route: a parsed bundle's material is laid out on the heap, the
  vault takes its copies, and the bundle is wiped whatever came of it.
\<close>

definition install_bundle :: "'c config \<Rightarrow> gotime \<Rightarrow> string unseal_bundle \<Rightarrow> intent \<Rightarrow> server \<Rightarrow> server \<times> response" where
  "install_bundle cf now b intent sv =
     (case place_scopes (bu_scopes b) (sv_heap sv) of (ss, h) \<Rightarrow>
      case Unseal now (Some (rescope ss b)) intent (sv_vault sv) h of (v, h, e) \<Rightarrow>
      case ZeroBundle (rescope ss b) h of (_, h) \<Rightarrow>
      let sv = sv\<lparr>sv_vault := v, sv_heap := h\<rparr> in
        (sv, case e of Some err \<Rightarrow> fail (Vault_refused err) | None \<Rightarrow> control_state cf sv))"

definition post_unseal :: "'c config \<Rightarrow> gotime \<Rightarrow> peer \<Rightarrow> string \<Rightarrow> string \<Rightarrow> reader \<Rightarrow> server \<Rightarrow> server \<times> response" where
  "post_unseal cf now p intent_param content_type r sv =
     (case controlCaller cf p of
        Inl e \<Rightarrow> (sv, fail e)
      | Inr i \<Rightarrow>
          (case parse_intent intent_param of
             Inl e \<Rightarrow> (sv, fail e)
           | Inr intent \<Rightarrow>
               if \<not> MayPush i intent then (sv, fail (May_not_push i intent))
               else if content_type \<noteq> ContentTypeSealed then (sv, fail Content_type_wrong)
               else
                 (case read_body (cf_Max cf) r of
                    None \<Rightarrow> (sv, fail Body_unreadable)
                  | Some sealed \<Rightarrow>
                      (case OpenEnvelope (cf_crypto cf) (cf_dh cf) now sealed (cf_Instance cf) (sv_challenger sv) of
                         (ch, Inl e) \<Rightarrow> (sv\<lparr>sv_challenger := ch\<rparr>, fail (Envelope_refused e))
                       | (ch, Inr payload) \<Rightarrow>
                           (case ParseBundle (cf_unyaml cf) payload of
                              Inl f \<Rightarrow> (sv\<lparr>sv_challenger := ch\<rparr>, fail (Bundle_refused f))
                            | Inr b \<Rightarrow> install_bundle cf now b intent (sv\<lparr>sv_challenger := ch\<rparr>))))))"

definition post_seal :: "'c config \<Rightarrow> gotime \<Rightarrow> peer \<Rightarrow> string \<Rightarrow> string \<Rightarrow> server \<Rightarrow> server \<times> response" where
  "post_seal cf now p hold reason sv =
     (case mayChangeSeal cf p of
        Some e \<Rightarrow> (sv, fail e)
      | None \<Rightarrow>
          (case SealVault now (hold = ''true'') reason (sv_vault sv) (sv_heap sv) of (v, h) \<Rightarrow>
           let st = State v; sv = sv\<lparr>sv_vault := v, sv_heap := h\<rparr> in
             (sv, writeJSON 200 (Body_state (controlStateBody (cf_Instance cf) (st\<lparr>st_Scopes := [], st_Boot := '''', st_Keys := []\<rparr>))))))"

definition post_release :: "'c config \<Rightarrow> gotime \<Rightarrow> peer \<Rightarrow> server \<Rightarrow> server \<times> response" where
  "post_release cf now p sv =
     (case mayChangeSeal cf p of
        Some e \<Rightarrow> (sv, fail e)
      | None \<Rightarrow>
          (let v = ReleaseHold now (sv_vault sv) in
             (sv\<lparr>sv_vault := v\<rparr>,
              writeJSON 200 (Body_state (controlStateBody (cf_Instance cf)
                ((State v)\<lparr>st_HoldReason := '''', st_Scopes := [], st_Boot := '''', st_Keys := []\<rparr>))))))"

datatype control_request =
    Get_state
  | Get_challenge string
  | Post_unseal string string reader
  | Post_seal string string
  | Post_release

fun ControlHandler :: "'c config \<Rightarrow> gotime \<Rightarrow> peer \<Rightarrow> control_request \<Rightarrow> server \<Rightarrow> server \<times> response" where
  "ControlHandler cf now p Get_state sv = (sv, get_state cf p sv)"
| "ControlHandler cf now p (Get_challenge rnd) sv = get_challenge cf now rnd p sv"
| "ControlHandler cf now p (Post_unseal intent_param content_type r) sv = post_unseal cf now p intent_param content_type r sv"
| "ControlHandler cf now p (Post_seal hold reason) sv = post_seal cf now p hold reason sv"
| "ControlHandler cf now p Post_release sv = post_release cf now p sv"

section \<open>The data path\<close>

record data_request =
  dr_peer :: peer
  dr_Key :: string
  dr_Prefix :: string
  dr_Scope :: string
  dr_Body :: reader

text \<open>\<open>refuseSecretMutation\<close>: an application never creates or destroys a secret.\<close>

definition refuseSecretMutation :: "identity \<Rightarrow> 'k scope \<Rightarrow> string \<Rightarrow> serve_error option" where
  "refuseSecretMutation i s key =
     (if \<not> IsSecretsKey (sc_Prefix s) key then None
      else if id_Role i \<noteq> RoleApp then None
      else Some Secrets_read_only)"

text \<open>
  \<open>resolve\<close>: the request's own copy of the scope's keys is wiped on every refusal, and by
  the handler when it is done.
\<close>

definition resolve :: "'c config \<Rightarrow> data_request \<Rightarrow> bool \<Rightarrow> server \<Rightarrow> server \<times> (serve_error + string \<times> identity \<times> ref_scope \<times> store)" where
  "resolve cf rq for_key sv =
     (case identityFrom (dr_peer rq) (cf_Instance cf) of
        Inl e \<Rightarrow> (sv, Inl (Identity_error e))
      | Inr i \<Rightarrow>
          let raw = (if for_key then dr_Key rq else dr_Prefix rq) in
          if raw = '''' \<and> for_key then (sv, Inl Key_header_missing)
          else case b64_decode raw of
            None \<Rightarrow> (sv, Inl Header_not_base64)
          | Some key \<Rightarrow>
              let declared = dr_Scope rq in
              if declared = '''' then (sv, Inl Scope_header_missing)
              else case vault_Scope key (sv_vault sv) (sv_heap sv) of
                (Inl e, h) \<Rightarrow> (sv\<lparr>sv_heap := h\<rparr>, Inl (Vault_refused e))
              | (Inr s, h) \<Rightarrow>
                  if \<not> MayReach i (sc_Name s) then (sv\<lparr>sv_heap := Zero s h\<rparr>, Inl (May_not_reach i (sc_Name s)))
                  else if sc_Name s \<noteq> declared then (sv\<lparr>sv_heap := Zero s h\<rparr>, Inl (Scope_mismatch (sc_Name s) declared))
                  else case Stores cf (deref (hp_cells h) s) of
                    Inl e \<Rightarrow> (sv\<lparr>sv_heap := Zero s h\<rparr>, Inl (Store_failed e))
                  | Inr store \<Rightarrow> (sv\<lparr>sv_heap := h\<rparr>, Inr (key, i, s, store)))"

definition finish :: "ref_scope \<Rightarrow> server \<Rightarrow> server" where
  "finish s sv = sv\<lparr>sv_heap := Zero s (sv_heap sv)\<rparr>"

definition no_content :: response where
  "no_content = \<lparr>rp_status = 204, rp_code = '''', rp_body = Body_none\<rparr>"

definition server_read :: "'c config \<Rightarrow> data_request \<Rightarrow> server \<Rightarrow> 'c \<Rightarrow> server \<times> response" where
  "server_read cf rq sv c =
     (case resolve cf rq True sv of
        (sv, Inl e) \<Rightarrow> (sv, fail e)
      | (sv, Inr (key, i, s, store)) \<Rightarrow>
          (finish s sv,
           case Read (cf_crypto cf) (cf_provider cf) store key c of
             Inl e \<Rightarrow> fail (Store_failed e)
           | Inr data \<Rightarrow> \<lparr>rp_status = 200, rp_code = '''', rp_body = Body_data data\<rparr>))"

definition server_write :: "'c config \<Rightarrow> data_request \<Rightarrow> string \<Rightarrow> server \<Rightarrow> 'c \<Rightarrow> server \<times> 'c \<times> response" where
  "server_write cf rq rnd sv c =
     (case resolve cf rq True sv of
        (sv, Inl e) \<Rightarrow> (sv, c, fail e)
      | (sv, Inr (key, i, s, store)) \<Rightarrow>
          (case refuseSecretMutation i s key of
             Some e \<Rightarrow> (finish s sv, c, fail e)
           | None \<Rightarrow>
               (case read_body (cf_Max cf) (dr_Body rq) of
                  None \<Rightarrow> (finish s sv, c, fail (Body_too_large (cf_Max cf)))
                | Some data \<Rightarrow>
                    (case Write (cf_crypto cf) (cf_provider cf) store key data rnd c of
                       (c, Some e) \<Rightarrow> (finish s sv, c, fail (Store_failed e))
                     | (c, None) \<Rightarrow> (finish s sv, c, no_content)))))"

definition server_delete :: "'c config \<Rightarrow> data_request \<Rightarrow> server \<Rightarrow> 'c \<Rightarrow> server \<times> 'c \<times> response" where
  "server_delete cf rq sv c =
     (case resolve cf rq True sv of
        (sv, Inl e) \<Rightarrow> (sv, c, fail e)
      | (sv, Inr (key, i, s, store)) \<Rightarrow>
          (case refuseSecretMutation i s key of
             Some e \<Rightarrow> (finish s sv, c, fail e)
           | None \<Rightarrow>
               (case Delete (cf_crypto cf) (cf_provider cf) store key c of
                  (c, Some e) \<Rightarrow> (finish s sv, c, fail (Store_failed e))
                | (c, None) \<Rightarrow> (finish s sv, c, no_content))))"

definition server_list :: "'c config \<Rightarrow> data_request \<Rightarrow> server \<Rightarrow> 'c \<Rightarrow> server \<times> response" where
  "server_list cf rq sv c =
     (case resolve cf rq False sv of
        (sv, Inl e) \<Rightarrow> (sv, fail e)
      | (sv, Inr (prefix, i, s, store)) \<Rightarrow>
          (finish s sv,
           case List (cf_crypto cf) (cf_provider cf) store prefix c of
             Inl e \<Rightarrow> fail (Store_failed e)
           | Inr (names, failures) \<Rightarrow>
               if failures \<noteq> [] then fail (List_failed failures) else writeJSON 200 (Body_keys names)))"

datatype data_op = Op_read | Op_write string | Op_delete | Op_list

fun DataHandler :: "'c config \<Rightarrow> data_op \<Rightarrow> data_request \<Rightarrow> server \<Rightarrow> 'c \<Rightarrow> server \<times> 'c \<times> response" where
  "DataHandler cf Op_read rq sv c = (case server_read cf rq sv c of (sv, r) \<Rightarrow> (sv, c, r))"
| "DataHandler cf (Op_write rnd) rq sv c = server_write cf rq rnd sv c"
| "DataHandler cf Op_delete rq sv c = server_delete cf rq sv c"
| "DataHandler cf Op_list rq sv c = (case server_list cf rq sv c of (sv, r) \<Rightarrow> (sv, c, r))"

section \<open>Who may move the seal\<close>

text \<open>
  What a caller's role lets a request do to the vault. A keeper only ever takes a replica
  that restarted to serving, and no role takes a vault to an older generation.
\<close>

inductive seal_move :: "role \<Rightarrow> 'k vault \<Rightarrow> 'k vault \<Rightarrow> bool" where
  stays: "seal_move r v v"
| reseeds: "va_phase v = PhaseRestartSealed \<Longrightarrow> va_phase v' = PhaseUnsealed \<Longrightarrow> va_generation v \<le> va_generation v' \<Longrightarrow>
    seal_move RoleKeeper v v'"
| unseals: "va_phase v' = PhaseUnsealed \<Longrightarrow> va_generation v \<le> va_generation v' \<Longrightarrow> seal_move RoleOperator v v'"
| seals: "va_phase v' \<noteq> PhaseUnsealed \<Longrightarrow> va_scopes v' = [] \<Longrightarrow> va_generation v' = va_generation v \<Longrightarrow> seal_move RoleOperator v v'"
| releases: "va_phase v = PhaseOperatorHold \<Longrightarrow> va_phase v' = PhaseRestartSealed \<Longrightarrow> va_scopes v' = va_scopes v \<Longrightarrow>
    va_generation v' = va_generation v \<Longrightarrow> seal_move RoleOperator v v'"

inductive_cases keeper_moves: "seal_move RoleKeeper v v'"

lemma seal_move_generation: "seal_move r v v' \<Longrightarrow> va_generation v \<le> va_generation v'"
  by (induction rule: seal_move.induct) simp_all

lemma seal_move_held: "seal_move r v v' \<Longrightarrow> r \<noteq> RoleOperator \<Longrightarrow> va_phase v = PhaseOperatorHold \<Longrightarrow> v' = v"
  by (induction rule: seal_move.induct) simp_all

lemma Unseal_vault:
  assumes "Unseal now (Some b) intent v h = (v', h', e)"
  shows "v' = v \<or> (unseal_checks v b intent = Inr True \<and> va_phase v' = PhaseUnsealed \<and> va_generation v' = bu_generation b)"
  using assms by (auto simp: Unseal_def install_def dropLocked_def split: sum.splits bool.splits prod.splits)

lemma unseal_checks_generation: "unseal_checks v b intent = Inr True \<Longrightarrow> va_generation v \<le> bu_generation b"
  by (auto simp: unseal_checks_def split: if_splits)

lemma unseal_checks_reseed: "unseal_checks v b IntentReseed = Inr True \<Longrightarrow> va_phase v = PhaseRestartSealed"
  by (cases "va_phase v") (auto simp: unseal_checks_def split: if_splits)

lemma install_bundle_move:
  assumes "install_bundle cf now b intent sv = (sv', r)" "MayPush i intent"
  shows "seal_move (id_Role i) (sv_vault sv) (sv_vault sv')"
proof -
  obtain ss h h' h2 v e where u: "Unseal now (Some (rescope ss b)) intent (sv_vault sv) h = (v, h', e)" "sv_vault sv' = v"
    using assms(1) by (auto simp: install_bundle_def ZeroBundle_def Let_def split: prod.splits)
  from Unseal_vault[OF u(1)] show ?thesis
  proof
    assume "v = sv_vault sv" then show ?thesis using u(2) by (simp add: seal_move.stays)
  next
    assume m: "unseal_checks (sv_vault sv) (rescope ss b) intent = Inr True \<and> va_phase v = PhaseUnsealed \<and> va_generation v = bu_generation (rescope ss b)"
    then have g: "va_generation (sv_vault sv) \<le> va_generation v" using unseal_checks_generation by fastforce
    show ?thesis
    proof (cases "id_Role i")
      case RoleKeeper
      then have "intent = IntentReseed" using assms(2) by (simp add: MayPush_def)
      then have "va_phase (sv_vault sv) = PhaseRestartSealed" using m unseal_checks_reseed by blast
      then show ?thesis using m g u(2) RoleKeeper by (simp add: seal_move.reseeds)
    qed (use m g u(2) assms(2) in \<open>simp_all add: seal_move.unseals MayPush_def\<close>)
  qed
qed

lemma SealVault_move: "SealVault now hold reason v h = (v', h') \<Longrightarrow> seal_move RoleOperator v v'"
  by (cases hold; rule seal_move.seals) (auto simp: SealVault_def dropLocked_def seal_phase_def split: prod.splits)

lemma ReleaseHold_move: "seal_move RoleOperator v (ReleaseHold now v)"
  by (cases "va_phase v = PhaseOperatorHold") (simp_all add: ReleaseHold_def seal_move.stays seal_move.releases)

lemma controlCaller_Inr: "controlCaller cf p = Inr i \<Longrightarrow> identityFrom p (cf_Instance cf) = Inr i \<and> (id_Role i = RoleOperator \<or> id_Role i = RoleKeeper)"
  by (auto simp: controlCaller_def split: sum.splits if_splits)

lemma mayChangeSeal_None:
  "mayChangeSeal cf p = None \<Longrightarrow> \<exists>i. identityFrom p (cf_Instance cf) = Inr i \<and> id_Role i = RoleOperator"
  by (auto simp: mayChangeSeal_def MaySeal_def dest!: controlCaller_Inr split: sum.splits if_splits)

lemma post_unseal_moves:
  assumes "post_unseal cf now p ip ct r sv = (sv', rp)"
  shows "sv_vault sv' = sv_vault sv \<or> (\<exists>i. identityFrom p (cf_Instance cf) = Inr i \<and> seal_move (id_Role i) (sv_vault sv) (sv_vault sv'))"
  using assms
  by (auto simp: post_unseal_def dest!: controlCaller_Inr install_bundle_move split: sum.splits if_splits option.splits prod.splits)

lemma ControlHandler_moves:
  assumes "ControlHandler cf now p rq sv = (sv', rp)"
  shows "sv_vault sv' = sv_vault sv \<or> (\<exists>i. identityFrom p (cf_Instance cf) = Inr i \<and> seal_move (id_Role i) (sv_vault sv) (sv_vault sv'))"
proof (cases rq)
  case (Post_unseal ip ct r)
  then show ?thesis using assms post_unseal_moves by simp
next
  case (Post_seal hold reason)
  show ?thesis
  proof (cases "mayChangeSeal cf p")
    case None
    then obtain i where i: "identityFrom p (cf_Instance cf) = Inr i" "id_Role i = RoleOperator" using mayChangeSeal_None by blast
    obtain v h where s: "SealVault now (hold = ''true'') reason (sv_vault sv) (sv_heap sv) = (v, h)" by fastforce
    then have "sv_vault sv' = v" using assms Post_seal None by (auto simp: post_seal_def Let_def)
    then show ?thesis using i SealVault_move[OF s] by metis
  qed (use assms Post_seal in \<open>simp add: post_seal_def\<close>)
next
  case Post_release
  show ?thesis
  proof (cases "mayChangeSeal cf p")
    case None
    then obtain i where i: "identityFrom p (cf_Instance cf) = Inr i" "id_Role i = RoleOperator" using mayChangeSeal_None by blast
    have "sv_vault sv' = ReleaseHold now (sv_vault sv)" using assms Post_release None by (auto simp: post_release_def Let_def)
    then show ?thesis using i ReleaseHold_move by metis
  qed (use assms Post_release in \<open>simp add: post_release_def\<close>)
qed (use assms in \<open>auto simp: get_challenge_def split: sum.splits prod.splits\<close>)

lemma resolve_vault: "resolve cf rq fk sv = (sv', r) \<Longrightarrow> sv_vault sv' = sv_vault sv \<and> sv_challenger sv' = sv_challenger sv"
  by (auto simp: resolve_def Let_def split: sum.splits option.splits if_splits prod.splits)

lemma DataHandler_vault: "DataHandler cf op rq sv c = (sv', c', r) \<Longrightarrow> sv_vault sv' = sv_vault sv"
  by (cases op) (auto simp: server_read_def server_write_def server_delete_def server_list_def finish_def
      dest!: resolve_vault split: sum.splits option.splits prod.splits)

section \<open>Histories of a keyholder\<close>

datatype served = Controlled gotime peer control_request | Stored data_op data_request

fun serve :: "'c config \<Rightarrow> served \<Rightarrow> server \<times> 'c \<Rightarrow> server \<times> 'c" where
  "serve cf (Controlled now p rq) (sv, c) = (fst (ControlHandler cf now p rq sv), c)"
| "serve cf (Stored op rq) (sv, c) = (case DataHandler cf op rq sv c of (sv, c, _) \<Rightarrow> (sv, c))"

fun caller :: "served \<Rightarrow> peer" where
  "caller (Controlled _ p _) = p"
| "caller (Stored _ rq) = dr_peer rq"

lemma serve_moves:
  "sv_vault (fst (serve cf ev x)) = sv_vault (fst x)
    \<or> (\<exists>i. identityFrom (caller ev) (cf_Instance cf) = Inr i \<and> seal_move (id_Role i) (sv_vault (fst x)) (sv_vault (fst (serve cf ev x))))"
proof (cases ev)
  case (Controlled now p rq)
  obtain sv c sv' rp where x: "x = (sv, c)" "ControlHandler cf now p rq sv = (sv', rp)" by (metis surj_pair)
  then show ?thesis using Controlled ControlHandler_moves[OF x(2)] by simp
next
  case (Stored op rq)
  obtain sv c sv' c' rp where x: "x = (sv, c)" "DataHandler cf op rq sv c = (sv', c', rp)" by (metis surj_pair)
  then show ?thesis using Stored DataHandler_vault[OF x(2)] by simp
qed

text \<open>
  C1. Only an operator ends a hold. Whatever requests arrive on the control surface and the
  data path, in any order, with any headers, envelopes and claimed intents: as long as none
  of them comes from a leaf whose identity is the operator's, a keyholder a person sealed
  stays exactly as it was, its phase, reason and generation included.
\<close>

theorem only_an_operator_ends_a_hold:
  assumes "va_phase (sv_vault sv) = PhaseOperatorHold"
    and "\<forall>ev\<in>set evs. \<forall>i. identityFrom (caller ev) (cf_Instance cf) = Inr i \<longrightarrow> id_Role i \<noteq> RoleOperator"
  shows "sv_vault (fst (fold (serve cf) evs (sv, c))) = sv_vault sv"
proof -
  have "sv_vault (fst (fold (serve cf) evs x)) = sv_vault (fst x)" if "va_phase (sv_vault (fst x)) = PhaseOperatorHold" for x
    using that assms(2)
  proof (induction evs arbitrary: x)
    case (Cons ev evs)
    have "\<forall>i. identityFrom (caller ev) (cf_Instance cf) = Inr i \<longrightarrow> id_Role i \<noteq> RoleOperator" using Cons.prems(2) by simp
    then have "sv_vault (fst (serve cf ev x)) = sv_vault (fst x)"
      using serve_moves[of cf ev x] seal_move_held[OF _ _ Cons.prems(1)] by blast
    then show ?case using Cons.IH[of "serve cf ev x"] Cons.prems by simp
  qed simp
  then show ?thesis using assms(1) by simp
qed

text \<open>
  C22. Generations never roll back: over any history of requests from anyone, the generation
  a keyholder process has held only grows.
\<close>

theorem generation_never_rolls_back:
  "va_generation (sv_vault sv) \<le> va_generation (sv_vault (fst (fold (serve cf) evs (sv, c))))"
proof -
  have "va_generation (sv_vault (fst x)) \<le> va_generation (sv_vault (fst (fold (serve cf) evs x)))" for x
  proof (induction evs arbitrary: x)
    case (Cons ev evs)
    have "va_generation (sv_vault (fst x)) \<le> va_generation (sv_vault (fst (serve cf ev x)))"
      using serve_moves[of cf ev x] seal_move_generation by (metis order_refl)
    then show ?case using Cons.IH[of "serve cf ev x"] by simp
  qed simp
  then show ?thesis by (metis fst_conv)
qed

section \<open>A small keyholder to try it on\<close>

definition sample_config :: "memory config" where
  "sample_config = \<lparr>cf_Instance = ''prod'', cf_Max = 1024, cf_crypto = plain_lib, cf_dh = toy_dh, cf_provider = mem_provider,
     cf_bucket = ''bucket'', cf_unyaml = (\<lambda>_. None)\<rparr>"

definition sample_server :: "phase \<Rightarrow> server" where
  "sample_server ph = \<lparr>sv_vault = (NewVault ''prod'' 0 None)\<lparr>va_phase := ph\<rparr>, sv_heap = empty_heap, sv_challenger = NewChallenger ''priv''\<rparr>"

theorem only_an_operator_ends_a_hold_witness:
  "va_phase (sv_vault (fst (fold (serve sample_config)
     [Controlled 1 (Some [''farcast://prod/keeper/nas'']) Post_release,
      Controlled 2 (Some [''farcast://prod/keeper/nas'']) (Post_unseal ''operator-unseal'' ContentTypeSealed \<lparr>rd_data = '''', rd_fails = False\<rparr>),
      Controlled 3 None (Post_seal ''false'' '''')] (sample_server PhaseOperatorHold, [])))) = PhaseOperatorHold"
proof -
  have "identityFrom (Some [''farcast://prod/keeper/nas'']) ''prod''
      = Inr \<lparr>id_Role = RoleKeeper, id_Instance = ''prod'', id_Name = ''nas'', id_Namespace = ''''\<rparr>" by code_simp
  moreover have "identityFrom None ''prod'' = Inl ErrNoIdentity" by (simp add: identityFrom_def)
  ultimately show ?thesis
    by (subst only_an_operator_ends_a_hold) (auto simp: sample_server_def sample_config_def)
qed

section \<open>What a request can reach\<close>

lemma fail_status: "400 \<le> rp_status (fail e)"
  by (auto simp: fail_def classify_def Let_def)

lemma Clone_names: "Clone s h = (c, h') \<Longrightarrow> sc_Name c = sc_Name s \<and> sc_Prefix c = sc_Prefix s"
  by (auto simp: Clone_def split: prod.splits)

lemma vault_Scope_Inr:
  assumes "vault_Scope key v h = (Inr s, h')"
  shows "va_phase v = PhaseUnsealed \<and> (\<exists>s0. find (\<lambda>s. Owns s key) (va_scopes v) = Some s0 \<and> Clone s0 h = (s, h'))"
  using assms by (auto simp: vault_Scope_def split: if_splits option.splits prod.splits)

definition header_of :: "data_op \<Rightarrow> data_request \<Rightarrow> string" where
  "header_of op rq = (if op = Op_list then dr_Prefix rq else dr_Key rq)"

lemma resolve_Inr:
  assumes "resolve cf rq fk sv = (sv', Inr (key, i, s, store))"
  shows "identityFrom (dr_peer rq) (cf_Instance cf) = Inr i \<and> b64_decode (if fk then dr_Key rq else dr_Prefix rq) = Some key
    \<and> va_phase (sv_vault sv) = PhaseUnsealed \<and> MayReach i (sc_Name s) \<and> sc_Name s = dr_Scope rq
    \<and> (\<exists>s0. find (\<lambda>s. Owns s key) (va_scopes (sv_vault sv)) = Some s0 \<and> Clone s0 (sv_heap sv) = (s, sv_heap sv'))
    \<and> Stores cf (deref (hp_cells (sv_heap sv')) s) = Inr store"
  using assms
  by (auto simp: resolve_def Let_def split: sum.splits option.splits if_splits prod.splits dest!: vault_Scope_Inr)

text \<open>A request that is answered with success, or that changed the cloud, was resolved.\<close>

lemma DataHandler_success:
  assumes "DataHandler cf op rq sv c = (sv', c', rp)" "rp_status rp < 300 \<or> c' \<noteq> c"
  obtains sv1 key i s store where "resolve cf rq (op \<noteq> Op_list) sv = (sv1, Inr (key, i, s, store))"
    "c' \<noteq> c \<Longrightarrow> refuseSecretMutation i s key = None"
proof -
  obtain sv1 r where r: "resolve cf rq (op \<noteq> Op_list) sv = (sv1, r)" by fastforce
  have f: "\<not> rp_status (fail e) < 300" for e using fail_status[of e] by simp
  obtain key i s store where "r = Inr (key, i, s, store)" "c' \<noteq> c \<Longrightarrow> refuseSecretMutation i s key = None"
    using assms r f
    by (cases op; cases r) (auto simp: server_read_def server_write_def server_delete_def server_list_def split: option.splits prod.splits)
  then show thesis using r that by blast
qed

text \<open>
  C19. An application is confined to its scope. A request from an application's leaf that
  succeeds, or changes anything in the cloud, names a key of the one scope the vault holds
  under that application's own name, in a vault that is serving; and one that changes
  something names no secret.
\<close>

theorem application_is_confined:
  assumes "DataHandler cf op rq sv c = (sv', c', rp)" "rp_status rp < 300 \<or> c' \<noteq> c"
    and "identityFrom (dr_peer rq) (cf_Instance cf) = Inr i" "id_Role i = RoleApp"
  shows "\<exists>key s. b64_decode (header_of op rq) = Some key \<and> va_phase (sv_vault sv) = PhaseUnsealed
     \<and> find (\<lambda>s. Owns s key) (va_scopes (sv_vault sv)) = Some s \<and> AppScopeName (id_Namespace i) (id_Name i) = Inr (sc_Name s)
     \<and> (c' \<noteq> c \<longrightarrow> \<not> IsSecretsKey (sc_Prefix s) key)"
proof -
  obtain sv1 key j s store where r: "resolve cf rq (op \<noteq> Op_list) sv = (sv1, Inr (key, j, s, store))"
    "c' \<noteq> c \<Longrightarrow> refuseSecretMutation j s key = None"
    using DataHandler_success[OF assms(1,2)] by metis
  obtain s0 where s0: "find (\<lambda>s. Owns s key) (va_scopes (sv_vault sv)) = Some s0" "sc_Name s = sc_Name s0" "sc_Prefix s = sc_Prefix s0"
    using resolve_Inr[OF r(1)] Clone_names by blast
  have "j = i" "MayReach i (sc_Name s)" using resolve_Inr[OF r(1)] assms(3) by auto
  then show ?thesis using resolve_Inr[OF r(1)] s0 r(2) assms(4)
    by (auto simp: header_of_def MayReach_def refuseSecretMutation_def split: sum.splits if_splits)
qed

lemma MayReach_hyphen:
  "MayReach \<lparr>id_Role = RoleApp, id_Instance = inst, id_Name = z, id_Namespace = x @ ''-'' @ y\<rparr> n
    = MayReach \<lparr>id_Role = RoleApp, id_Instance = inst, id_Name = y @ ''-'' @ z, id_Namespace = x\<rparr> n"
  by (simp add: MayReach_def AppScopeName_def Let_def split: option.splits)

lemma resolve_other_peer:
  assumes "resolve cf rq fk sv = (sv', Inr (key, i, s, store))" "identityFrom p (cf_Instance cf) = Inr j" "\<And>n. MayReach j n = MayReach i n"
  shows "resolve cf (rq\<lparr>dr_peer := p\<rparr>) fk sv = (sv', Inr (key, j, s, store))"
proof -
  have "identityFrom (dr_peer rq) (cf_Instance cf) = Inr i" using resolve_Inr[OF assms(1)] by simp
  then show ?thesis using assms
    by (auto simp: resolve_def Let_def split: option.splits if_splits prod.splits sum.splits)
qed

lemma DataHandler_other_peer:
  assumes "DataHandler cf op rq sv c = (sv', c', rp)" "rp_status rp < 300"
    and "identityFrom (dr_peer rq) (cf_Instance cf) = Inr i" "identityFrom p (cf_Instance cf) = Inr j"
    and "\<And>n. MayReach j n = MayReach i n" "id_Role i = RoleApp" "id_Role j = RoleApp"
  shows "DataHandler cf op (rq\<lparr>dr_peer := p\<rparr>) sv c = (sv', c', rp)"
proof -
  obtain sv1 key i' s store where r: "resolve cf rq (op \<noteq> Op_list) sv = (sv1, Inr (key, i', s, store))"
    using DataHandler_success[OF assms(1)] assms(2) by metis
  then have "i' = i" using resolve_Inr[OF r] assms(3) by simp
  then have r: "resolve cf rq (op \<noteq> Op_list) sv = (sv1, Inr (key, i, s, store))" using r by simp
  have r': "resolve cf (rq\<lparr>dr_peer := p\<rparr>) (op \<noteq> Op_list) sv = (sv1, Inr (key, j, s, store))"
    using resolve_other_peer[OF r assms(4,5)] .
  have "refuseSecretMutation j s key = refuseSecretMutation i s key" using assms(6,7) by (simp add: refuseSecretMutation_def)
  then have "DataHandler cf op (rq\<lparr>dr_peer := p\<rparr>) sv c = DataHandler cf op rq sv c" using r r'
    by (cases op) (simp_all add: server_read_def server_write_def server_delete_def server_list_def split: option.split)
  then show ?thesis using assms(1) by simp
qed

text \<open>
  C27. A hyphen moves between the two names of an application without a trace: the scope name
  of application \<open>z\<close> in namespace \<open>x-y\<close> is the scope name of application \<open>y-z\<close> in namespace
  \<open>x\<close>. Whatever the leaf of the one may read, write, list or delete, secrets included, the
  leaf of the other is served the same way.
\<close>

theorem hyphenated_neighbours_share_storage:
  assumes "cf_Instance cf \<noteq> ''''" "segment_ok x" "segment_ok y" "segment_ok z"
    and "DataHandler cf op (rq\<lparr>dr_peer := Some [AppURI (cf_Instance cf) (x @ ''-'' @ y) z]\<rparr>) sv c = (sv', c', rp)" "rp_status rp < 300"
  shows "DataHandler cf op (rq\<lparr>dr_peer := Some [AppURI (cf_Instance cf) x (y @ ''-'' @ z)]\<rparr>) sv c = (sv', c', rp)"
proof -
  let ?inst = "cf_Instance cf"
  have minted: "identityFrom (Some [AppURI ?inst ns a]) ?inst = Inr \<lparr>id_Role = RoleApp, id_Instance = ?inst, id_Name = a, id_Namespace = ns\<rparr>"
    if "segment_ok ns" "segment_ok a" for ns a
    using ParseIdentity_of_uri[of "\<lparr>id_Role = RoleApp, id_Instance = ?inst, id_Name = a, id_Namespace = ns\<rparr>"] that assms(1)
    by (simp add: identityFrom_def identity_ok_def identity_uri_def)
  have "segment_ok (x @ ''-'' @ y)" "segment_ok (y @ ''-'' @ z)" using assms(2-4) by (simp_all add: segment_ok_def)
  note i = minted[OF this(1) assms(4)] and j = minted[OF assms(2) this(2)]
  show ?thesis
    using DataHandler_other_peer[OF assms(5,6) _ j MayReach_hyphen[symmetric]] i by simp
qed

text \<open>Where no namespace holds a hyphen, a scope's name says whose it is.\<close>

lemma AppScopeName_inj:
  assumes "AppScopeName n a = Inr s" "AppScopeName m b = Inr s" "CHR ''-'' \<notin> set n" "CHR ''-'' \<notin> set m"
  shows "n = m \<and> a = b"
proof -
  have "n @ ''-'' @ a = m @ ''-'' @ b" using assms(1,2) by (auto simp: AppScopeName_def Let_def split: if_splits option.splits)
  then have "split_on (CHR ''-'') (n @ CHR ''-'' # a) = split_on (CHR ''-'') (m @ CHR ''-'' # b)" by simp
  then have "n = m" using assms(3,4) by (simp add: split_on_append_sep)
  then show ?thesis using \<open>n @ ''-'' @ a = m @ ''-'' @ b\<close> by simp
qed

text \<open>
  Without hyphens in namespaces the confinement is the subtree: when every scope the
  vault holds was minted for an application of a hyphen-free namespace, a request of an
  application of such a namespace that succeeds or changes the cloud names a key under
  that application's own prefix.
\<close>

theorem application_stays_in_its_subtree:
  assumes "DataHandler cf op rq sv c = (sv', c', rp)" "rp_status rp < 300 \<or> c' \<noteq> c"
    and "identityFrom (dr_peer rq) (cf_Instance cf) = Inr i" "id_Role i = RoleApp" "CHR ''-'' \<notin> set (id_Namespace i)"
    and "\<forall>s\<in>set (va_scopes (sv_vault sv)). \<exists>n a. AppScopeName n a = Inr (sc_Name s) \<and> sc_Prefix s = AppScopePrefix n a \<and> CHR ''-'' \<notin> set n"
  shows "\<exists>key. b64_decode (header_of op rq) = Some key \<and> has_prefix key (AppScopePrefix (id_Namespace i) (id_Name i))"
proof -
  obtain sv1 key j s store where r: "resolve cf rq (op \<noteq> Op_list) sv = (sv1, Inr (key, j, s, store))"
    using DataHandler_success[OF assms(1,2)] by metis
  obtain s0 where s0: "find (\<lambda>s. Owns s key) (va_scopes (sv_vault sv)) = Some s0" "sc_Name s = sc_Name s0"
    using resolve_Inr[OF r] Clone_names by blast
  have "s0 \<in> set (va_scopes (sv_vault sv))" "Owns s0 key" using s0(1) by (auto simp: find_Some_iff)
  then obtain n a where n: "AppScopeName n a = Inr (sc_Name s0)" "sc_Prefix s0 = AppScopePrefix n a" "CHR ''-'' \<notin> set n" using assms(6) by blast
  have "MayReach i (sc_Name s0)" using resolve_Inr[OF r] assms(3) s0(2) by auto
  then have "AppScopeName (id_Namespace i) (id_Name i) = Inr (sc_Name s0)" using assms(4) by (auto simp: MayReach_def split: sum.splits)
  then have "id_Namespace i = n \<and> id_Name i = a" using AppScopeName_inj n(1,3) assms(5) by blast
  then show ?thesis using resolve_Inr[OF r] \<open>Owns s0 key\<close> n(2) by (auto simp: header_of_def Owns_def)
qed

end
