(* ===== verification/Sdk.thy ===== *)
theory Sdk
  imports Keyholder
begin

text \<open>
  The Go SDK's storage and secrets clients (\<open>sdk/go/storageclient.go\<close>, \<open>wire.go\<close>,
  \<open>secrets.go\<close>, \<open>secretsclient.go\<close>), and what an application sees of the keyholder through
  them: the client and the server are composed by handing the client's requests to the
  server's handler. The first part shows what a request does in terms of the vault's
  scopes by value, over any history that shares key bytes on the heap.
\<close>

section \<open>The server over key material by value\<close>

definition as_world :: "server \<Rightarrow> nat world \<times> heap" where
  "as_world sv = (\<lparr>wd_vault = sv_vault sv, wd_bundles = [], wd_requests = [], wd_result = None\<rparr>, sv_heap sv)"

definition server_ok :: "server \<Rightarrow> bool" where
  "server_ok sv \<longleftrightarrow> separated (as_world sv)"

definition server_value :: "server \<Rightarrow> string vault" where
  "server_value sv = deref_vault (hp_cells (sv_heap sv)) (sv_vault sv)"

lemma world_refinesD: "separated x \<Longrightarrow> separated (world_step ev x) \<and> world_value (world_step ev x) = value_step ev (world_value x)"
  using world_step_refines by (simp add: refines_at_def)

text \<open>Admitting a request and finishing it, around whatever the handler does in between.\<close>

lemma request_value:
  assumes "server_ok sv" "vault_Scope key (sv_vault sv) (sv_heap sv) = (Inr s, h)"
  shows "\<exists>s0. va_phase (sv_vault sv) = PhaseUnsealed \<and> find (\<lambda>s. Owns s key) (va_scopes (server_value sv)) = Some s0 \<and> deref (hp_cells h) s = s0
    \<and> server_ok (sv\<lparr>sv_heap := Zero s h\<rparr>) \<and> server_value (sv\<lparr>sv_heap := Zero s h\<rparr>) = server_value sv"
proof -
  let ?w = "\<lparr>wd_vault = sv_vault sv, wd_bundles = [], wd_requests = [], wd_result = None\<rparr>"
  let ?w1 = "?w\<lparr>wd_requests := [s]\<rparr>"
  have ph: "va_phase (sv_vault sv) = PhaseUnsealed" using vault_Scope_Inr[OF assms(2)] by simp
  have admit: "world_step (Admit key) (?w, sv_heap sv) = (?w1, h)" using assms(2) by simp
  have sep: "separated (?w, sv_heap sv)" using assms(1) by (simp add: server_ok_def as_world_def)
  note A = world_refinesD[OF sep, of "Admit key", unfolded admit]
  obtain s0 where s0: "find (\<lambda>s. Owns s key) (va_scopes (server_value sv)) = Some s0"
    using vault_Scope_Inr[OF assms(2)] by (auto simp: server_value_def find_deref)
  have v: "world_value (?w1, h) = value_step (Admit key) (world_value (?w, sv_heap sv))" using A by blast
  have d: "deref (hp_cells h) s = s0 \<and> deref_vault (hp_cells h) (sv_vault sv) = server_value sv"
    using arg_cong[OF v, of wd_requests] arg_cong[OF v, of wd_vault] s0 ph by (simp add: server_value_def)
  have finish: "world_step (Finish 0) (?w1, h) = (?w, Zero s h)" by (simp add: remove_nth_def)
  note F = world_refinesD[OF conjunct1[OF A], of "Finish 0", unfolded finish]
  have "deref_vault (hp_cells (Zero s h)) (sv_vault sv) = deref_vault (hp_cells h) (sv_vault sv)"
    using arg_cong[OF conjunct2[OF F], of wd_vault] by simp
  then show ?thesis using F d s0 ph by (simp add: server_ok_def as_world_def server_value_def)
qed

lemma resolve_Inl:
  assumes "resolve cf rq fk sv = (sv', Inl e)"
  shows "sv' = sv \<or> (\<exists>key s h. vault_Scope key (sv_vault sv) (sv_heap sv) = (Inr s, h) \<and> sv' = sv\<lparr>sv_heap := Zero s h\<rparr>)"
proof -
  have h: "vault_Scope key v h = (Inl x, h') \<Longrightarrow> h' = h" for key v h x h'
    by (auto simp: vault_Scope_def split: if_splits option.splits prod.splits)
  show ?thesis using assms by (auto simp: resolve_def Let_def dest!: h split: sum.splits option.splits if_splits prod.splits)
qed

lemma resolve_value:
  assumes "server_ok sv" "resolve cf rq fk sv = (sv', r)"
  shows "case r of
      Inl _ \<Rightarrow> server_ok sv' \<and> server_value sv' = server_value sv
    | Inr (key, i, s, store) \<Rightarrow> (\<exists>s0. va_phase (sv_vault sv) = PhaseUnsealed \<and> find (\<lambda>s. Owns s key) (va_scopes (server_value sv)) = Some s0
        \<and> Stores cf s0 = Inr store \<and> sc_Name s0 = dr_Scope rq)
        \<and> server_ok (finish s sv') \<and> server_value (finish s sv') = server_value sv"
proof (cases r)
  case (Inl e)
  then show ?thesis using resolve_Inl[of cf rq fk sv sv' e] request_value[OF assms(1)] assms by auto
next
  case (Inr x)
  obtain key i s store where x: "x = (key, i, s, store)" by (cases x)
  note R = resolve_Inr[OF assms(2)[unfolded Inr x]]
  have v: "vault_Scope key (sv_vault sv) (sv_heap sv) = (Inr s, sv_heap sv')" using R by (auto simp: vault_Scope_def)
  have f: "finish s sv' = sv\<lparr>sv_heap := Zero s (sv_heap sv')\<rparr>"
    using resolve_vault[OF assms(2)] by (cases sv; cases sv') (simp add: finish_def)
  obtain s0 where s0: "find (\<lambda>s. Owns s key) (va_scopes (server_value sv)) = Some s0" "deref (hp_cells (sv_heap sv')) s = s0"
    and "server_ok (finish s sv')" "server_value (finish s sv') = server_value sv"
    using request_value[OF assms(1) v] unfolding f by blast
  moreover have "sc_Name s0 = dr_Scope rq" using R s0(2) by (auto simp: deref_def)
  ultimately show ?thesis using R Inr x by auto
qed

lemma server_ok_eqI: "server_ok sv \<Longrightarrow> sv_vault sv' = sv_vault sv \<Longrightarrow> sv_heap sv' = sv_heap sv \<Longrightarrow> server_ok sv'"
  by (simp add: server_ok_def as_world_def)

lemma DataHandler_ok:
  assumes "server_ok sv" "DataHandler cf op rq sv c = (sv', c', rp)"
  shows "server_ok sv' \<and> server_value sv' = server_value sv"
proof -
  obtain sv1 r where r: "resolve cf rq (op \<noteq> Op_list) sv = (sv1, r)" by fastforce
  show ?thesis
  proof (cases r)
    case (Inl e)
    then have "sv' = sv1" using assms(2) r by (cases op) (auto simp: server_read_def server_write_def server_delete_def server_list_def)
    then show ?thesis using resolve_value[OF assms(1) r] Inl by simp
  next
    case (Inr x)
    obtain key i s store where x: "x = (key, i, s, store)" by (cases x)
    have "sv' = finish s sv1" using assms(2) r Inr x
      by (cases op) (auto simp: server_read_def server_write_def server_delete_def server_list_def split: option.splits prod.splits)
    then show ?thesis using resolve_value[OF assms(1) r] Inr x by auto
  qed
qed

text \<open>What the control surface does to the vault is a run of the vault's own world.\<close>

definition follows :: "server \<Rightarrow> server \<Rightarrow> bool" where
  "follows sv sv' \<longleftrightarrow> (\<exists>evs w h. fold world_step evs (as_world sv) = (w, h) \<and> sv_vault sv' = wd_vault w \<and> sv_heap sv' = h)"

lemma followsI:
  "sv_vault sv' = wd_vault (fst (fold world_step evs (as_world sv))) \<Longrightarrow> sv_heap sv' = snd (fold world_step evs (as_world sv))
    \<Longrightarrow> follows sv sv'"
  unfolding follows_def by (metis prod.collapse)

lemma follows_refl: "sv_vault sv' = sv_vault sv \<Longrightarrow> sv_heap sv' = sv_heap sv \<Longrightarrow> follows sv sv'"
  by (rule followsI[where evs = "[]"]) (simp_all add: as_world_def)

lemma world_run_from:
  "separated x \<Longrightarrow> separated (fold world_step evs x) \<and> world_value (fold world_step evs x) = fold value_step evs (world_value x)"
  by (induction evs arbitrary: x) (simp_all add: world_refinesD)

lemma value_run_from_ok: "vault_ok (wd_vault w) \<Longrightarrow> vault_ok (wd_vault (fold value_step evs w))"
  by (induction evs arbitrary: w) (simp_all add: value_step_ok)

lemma follows_ok:
  assumes "server_ok sv" "follows sv sv'"
  shows "server_ok sv'" "vault_ok (server_value sv) \<Longrightarrow> vault_ok (server_value sv')"
proof -
  obtain evs w h where f: "fold world_step evs (as_world sv) = (w, h)" "sv_vault sv' = wd_vault w" "sv_heap sv' = h"
    using assms(2) by (auto simp: follows_def)
  have r: "separated (w, h)" "world_value (w, h) = fold value_step evs (world_value (as_world sv))"
    using world_run_from[of "as_world sv" evs] assms(1) f(1) by (simp_all add: server_ok_def)
  show "server_ok sv'" using r(1) f(2,3) by (auto simp: server_ok_def as_world_def separated_def world_refs_def)
  assume "vault_ok (server_value sv)"
  then have "vault_ok (wd_vault (fold value_step evs (world_value (as_world sv))))"
    by (intro value_run_from_ok) (simp add: as_world_def server_value_def)
  then show "vault_ok (server_value sv')" using r(2) f(2,3) by (metis world_value_simps(1) server_value_def)
qed

lemma install_bundle_follows:
  assumes "install_bundle cf now b intent sv = (sv', rp)"
  shows "follows sv sv'"
proof -
  obtain ss h1 where a: "place_scopes (bu_scopes b) (sv_heap sv) = (ss, h1)" by fastforce
  obtain v h2 e where u: "Unseal now (Some (rescope ss b)) intent (sv_vault sv) h1 = (v, h2, e)" by (metis prod_cases3)
  obtain b' h3 where z: "ZeroBundle (rescope ss b) h2 = (b', h3)" by fastforce
  show ?thesis
    by (rule followsI[where evs = "[Arrive b, UnsealWith 0 intent now, Wipe 0]"]) (use assms a u z in \<open>auto simp: install_bundle_def Let_def as_world_def\<close>)
qed

lemma ControlHandler_follows:
  assumes "ControlHandler cf now p rq sv = (sv', rp)"
  shows "follows sv sv'"
proof (cases rq)
  case (Post_seal hold reason)
  obtain v h where s: "SealVault now (hold = ''true'') reason (sv_vault sv) (sv_heap sv) = (v, h)" by fastforce
  have "follows sv (sv\<lparr>sv_vault := v, sv_heap := h\<rparr>)"
    by (rule followsI[where evs = "[SealNow now (hold = ''true'') reason]"]) (use s in \<open>simp_all add: as_world_def\<close>)
  then show ?thesis using assms Post_seal s
    by (cases "mayChangeSeal cf p") (auto simp: post_seal_def Let_def intro: follows_refl)
next
  case Post_release
  have "follows sv (sv\<lparr>sv_vault := ReleaseHold now (sv_vault sv)\<rparr>)"
    by (rule followsI[where evs = "[Release now]"]) (simp_all add: as_world_def)
  then show ?thesis using assms Post_release
    by (cases "mayChangeSeal cf p") (auto simp: post_release_def Let_def intro: follows_refl)
next
  case (Post_unseal ip ct r)
  have "follows (sv\<lparr>sv_challenger := ch\<rparr>) s \<Longrightarrow> follows sv s" for ch s by (simp add: follows_def as_world_def)
  then show ?thesis using assms Post_unseal
    by (auto simp: post_unseal_def intro: follows_refl dest: install_bundle_follows split: sum.splits if_splits option.splits prod.splits)
next
  case (Get_challenge rnd)
  then show ?thesis using assms by (auto simp: get_challenge_def intro: follows_refl split: sum.splits prod.splits)
qed (use assms in \<open>simp_all add: follows_refl\<close>)

definition fresh_server :: "string \<Rightarrow> gotime \<Rightarrow> string option \<Rightarrow> string \<Rightarrow> server" where
  "fresh_server instance' now boot priv = \<lparr>sv_vault = NewVault instance' now boot, sv_heap = empty_heap, sv_challenger = NewChallenger priv\<rparr>"

lemma serve_ok:
  assumes "server_ok (fst x)"
  shows "server_ok (fst (serve cf ev x)) \<and> (vault_ok (server_value (fst x)) \<longrightarrow> vault_ok (server_value (fst (serve cf ev x))))"
proof (cases ev)
  case (Controlled now p rq)
  obtain sv c where x: "x = (sv, c)" by fastforce
  obtain sv' rp where "ControlHandler cf now p rq sv = (sv', rp)" by fastforce
  then show ?thesis using Controlled x assms follows_ok[OF _ ControlHandler_follows, of sv cf now p rq sv' rp] by simp
next
  case (Stored op rq)
  obtain sv c sv' c' rp where x: "x = (sv, c)" "DataHandler cf op rq sv c = (sv', c', rp)" by (metis surj_pair)
  then show ?thesis using Stored assms DataHandler_ok[OF _ x(2)] by simp
qed

text \<open>
  C21. Every state a keyholder can reach is well formed. Whatever requests arrive on the
  control surface and the data path, from anyone and in any order, the process owns every
  key cell of its vault exactly once, every scope it holds is valid with keys of the right
  length, it holds key material only while it serves, and a seal's reason only while an
  operator holds it.
\<close>

theorem served_state_is_well_formed:
  "(let sv = fst (fold (serve cf) evs (fresh_server i now boot priv, c)) in server_ok sv \<and> vault_ok (server_value sv))"
proof -
  have start: "server_ok (fresh_server i now boot priv) \<and> vault_ok (server_value (fresh_server i now boot priv))"
    by (simp add: server_ok_def as_world_def fresh_server_def separated_def world_refs_def NewVault_def
        server_value_def deref_vault_def vault_ok_def)
  have "server_ok (fst x) \<and> vault_ok (server_value (fst x)) \<Longrightarrow>
      server_ok (fst (fold (serve cf) evs x)) \<and> vault_ok (server_value (fst (fold (serve cf) evs x)))" for x
    by (induction evs arbitrary: x) (simp_all add: serve_ok)
  then show ?thesis using start by (metis fst_conv)
qed

section \<open>The storage client\<close>

datatype sdk_error =
    Sdk_Sealed
  | Sdk_NotFound
  | Sdk_Integrity
  | Sdk_InvalidKey
  | Sdk_TooLarge
  | Sdk_Permission
  | Sdk_Unavailable
  | Sdk_NotImplemented

definition storageErrors :: "(string \<times> sdk_error) list" where
  "storageErrors =
     [(CodeSealed, Sdk_Sealed), (CodeNotFound, Sdk_NotFound), (CodeIntegrity, Sdk_Integrity),
      (CodeInvalidKey, Sdk_InvalidKey), (CodeTooLarge, Sdk_TooLarge), (CodePermission, Sdk_Permission)]"

definition storageError :: "string \<Rightarrow> sdk_error" where
  "storageError code = (case map_of storageErrors code of Some e \<Rightarrow> e | None \<Rightarrow> Sdk_Unavailable)"

datatype storage_state = StorageReady | StorageSealed | StorageUnreachable
datatype seal_reason = SealNone | SealRestart | SealOperator

record storage_status =
  ss_State :: storage_state
  ss_Reason :: seal_reason
  ss_Since :: gotime
  ss_Generation :: "64 word"

definition statusFromPhase :: "string \<Rightarrow> gotime \<Rightarrow> 64 word \<Rightarrow> storage_status" where
  "statusFromPhase ph since generation =
     (let st = \<lparr>ss_State = StorageSealed, ss_Reason = SealRestart, ss_Since = since, ss_Generation = generation\<rparr> in
      if ph = ''unsealed'' then st\<lparr>ss_State := StorageReady, ss_Reason := SealNone\<rparr>
      else if ph = ''restart-sealed'' then st
      else if ph = ''operator-hold'' then st\<lparr>ss_Reason := SealOperator\<rparr>
      else st)"

text \<open>
  A client, with the network as functions: \<open>send\<close> answers a request on the data path
  (\<open>None\<close> when the transport fails), \<open>probe\<close> is the answer of the status endpoint, a status
  code and its body if that decodes.
\<close>

record storage_client =
  sd_endpoint :: string
  sd_status :: string
  sd_scope :: string

type_synonym probe = "(nat \<times> (string \<times> gotime \<times> 64 word) option) option"

definition probeStatus :: "storage_client \<Rightarrow> probe \<Rightarrow> storage_status option" where
  "probeStatus cl probe =
     (if sd_status cl = '''' then None
      else case probe of
        None \<Rightarrow> None
      | Some (code, body) \<Rightarrow>
          if code \<noteq> 200 then None
          else case body of
            None \<Rightarrow> None
          | Some (ph, since, generation) \<Rightarrow> Some (statusFromPhase ph since generation))"

definition explainTransportFailure :: "storage_client \<Rightarrow> probe \<Rightarrow> sdk_error" where
  "explainTransportFailure cl probe =
     (if sd_status cl = '''' then Sdk_Unavailable
      else case probeStatus cl probe of
        None \<Rightarrow> Sdk_Unavailable
      | Some st \<Rightarrow> if ss_State st = StorageSealed then Sdk_Sealed else Sdk_Unavailable)"

definition sdk_request :: "storage_client \<Rightarrow> bool \<Rightarrow> string \<Rightarrow> string \<Rightarrow> data_request" where
  "sdk_request cl for_key value data =
     \<lparr>dr_peer = None, dr_Key = (if for_key then b64_encode value else ''''), dr_Prefix = (if for_key then '''' else b64_encode value),
      dr_Scope = sd_scope cl, dr_Body = \<lparr>rd_data = data, rd_fails = False\<rparr>\<rparr>"

definition sdk_do :: "storage_client \<Rightarrow> (data_request \<Rightarrow> response option) \<Rightarrow> probe \<Rightarrow> data_request \<Rightarrow> sdk_error + response" where
  "sdk_do cl send probe rq =
     (case send rq of
        None \<Rightarrow> Inl (explainTransportFailure cl probe)
      | Some resp \<Rightarrow> if rp_status resp div 100 = 2 then Inr resp else Inl (storageError (rp_code resp)))"

text \<open>An answer of success whose body is not that of the route cannot be read.\<close>

definition sdk_read :: "storage_client \<Rightarrow> (data_request \<Rightarrow> response option) \<Rightarrow> probe \<Rightarrow> string \<Rightarrow> sdk_error + string" where
  "sdk_read cl send probe key =
     (case sdk_do cl send probe (sdk_request cl True key '''') of
        Inl e \<Rightarrow> Inl e
      | Inr resp \<Rightarrow> (case rp_body resp of Body_data data \<Rightarrow> Inr data | _ \<Rightarrow> Inl Sdk_Unavailable))"

definition sdk_write :: "storage_client \<Rightarrow> (data_request \<Rightarrow> response option) \<Rightarrow> probe \<Rightarrow> string \<Rightarrow> string \<Rightarrow> sdk_error option" where
  "sdk_write cl send probe key data =
     (case sdk_do cl send probe (sdk_request cl True key data) of Inl e \<Rightarrow> Some e | Inr _ \<Rightarrow> None)"

definition sdk_delete :: "storage_client \<Rightarrow> (data_request \<Rightarrow> response option) \<Rightarrow> probe \<Rightarrow> string \<Rightarrow> sdk_error option" where
  "sdk_delete cl send probe key =
     (case sdk_do cl send probe (sdk_request cl True key '''') of Inl e \<Rightarrow> Some e | Inr _ \<Rightarrow> None)"

definition sdk_list :: "storage_client \<Rightarrow> (data_request \<Rightarrow> response option) \<Rightarrow> probe \<Rightarrow> string \<Rightarrow> sdk_error + string list" where
  "sdk_list cl send probe prefix =
     (case sdk_do cl send probe (sdk_request cl False prefix '''') of
        Inl e \<Rightarrow> Inl e
      | Inr resp \<Rightarrow> (case rp_body resp of Body_keys keys \<Rightarrow> Inr keys | _ \<Rightarrow> Inl Sdk_Unavailable))"

definition sdk_status :: "storage_client \<Rightarrow> probe \<Rightarrow> storage_status \<times> bool" where
  "sdk_status cl probe =
     (case probeStatus cl probe of
        None \<Rightarrow> (\<lparr>ss_State = StorageUnreachable, ss_Reason = SealNone, ss_Since = zero_time, ss_Generation = 0\<rparr>, False)
      | Some st \<Rightarrow> (st, True))"

section \<open>Building the client from the environment\<close>

datatype capability = Storage_stub | Storage_broken sdk_error | Storage_live storage_client

fun trim_slashes_rev :: "string \<Rightarrow> string" where
  "trim_slashes_rev [] = []"
| "trim_slashes_rev (c # cs) = (if c = CHR ''/'' then trim_slashes_rev cs else c # cs)"

definition trim_right_slash :: "string \<Rightarrow> string" where
  "trim_right_slash s = rev (trim_slashes_rev (rev s))"

text \<open>\<open>url_ok\<close>, \<open>ca_ok\<close> and \<open>pair_ok\<close> are the URL parser and the certificate readers of the library.\<close>

definition newStorageClient ::
  "(string \<Rightarrow> bool) \<Rightarrow> (string \<Rightarrow> bool) \<Rightarrow> (string \<Rightarrow> string \<Rightarrow> bool) \<Rightarrow>
   string \<Rightarrow> string \<Rightarrow> string \<Rightarrow> string \<Rightarrow> string \<Rightarrow> string \<Rightarrow> sdk_error + storage_client" where
  "newStorageClient url_ok ca_ok pair_ok endpoint status scope caPEM clientCertPEM clientKeyPEM =
     (if \<not> url_ok endpoint \<or> \<not> has_prefix endpoint ''https://'' then Inl Sdk_Unavailable
      else if scope = '''' then Inl Sdk_Unavailable
      else if \<not> ca_ok caPEM then Inl Sdk_Unavailable
      else if clientCertPEM = '''' \<or> clientKeyPEM = '''' then Inl Sdk_Unavailable
      else if \<not> pair_ok clientCertPEM clientKeyPEM then Inl Sdk_Unavailable
      else Inr \<lparr>sd_endpoint = trim_right_slash endpoint, sd_status = trim_right_slash status, sd_scope = scope\<rparr>)"

definition newStorageFromEnv ::
  "(string \<Rightarrow> bool) \<Rightarrow> (string \<Rightarrow> bool) \<Rightarrow> (string \<Rightarrow> string \<Rightarrow> bool) \<Rightarrow> (string \<Rightarrow> string) \<Rightarrow> capability" where
  "newStorageFromEnv url_ok ca_ok pair_ok env =
     (let endpoint = trim_space (env ''FARCAST_STORAGE_ENDPOINT'') in
      if endpoint = '''' then Storage_stub
      else case newStorageClient url_ok ca_ok pair_ok endpoint (trim_space (env ''FARCAST_STORAGE_STATUS_ENDPOINT''))
              (trim_space (env ''FARCAST_STORAGE_SCOPE'')) (env ''FARCAST_STORAGE_CA'')
              (env ''FARCAST_STORAGE_CLIENT_CERT'') (env ''FARCAST_STORAGE_CLIENT_KEY'') of
        Inl e \<Rightarrow> Storage_broken e
      | Inr cl \<Rightarrow> Storage_live cl)"

text \<open>\<open>Read\<close> of whichever capability the environment gave.\<close>

definition capability_read :: "capability \<Rightarrow> (data_request \<Rightarrow> response option) \<Rightarrow> probe \<Rightarrow> string \<Rightarrow> sdk_error + string" where
  "capability_read cap send probe key =
     (case cap of
        Storage_stub \<Rightarrow> Inl Sdk_NotImplemented
      | Storage_broken e \<Rightarrow> Inl e
      | Storage_live cl \<Rightarrow> sdk_read cl send probe key)"

section \<open>Secrets\<close>

datatype secret_error =
    Secret_not_found string
  | Secret_name string
  | Secret_storage sdk_error
  | Secret_prefix
  | Secret_unwired
  | Secret_stub

fun secret_name_chars :: "nat \<Rightarrow> nat \<Rightarrow> string \<Rightarrow> bool" where
  "secret_name_chars n i [] = True"
| "secret_name_chars n i (c # cs) =
     (if lower_az c \<or> upper_az c \<or> digit09 c then secret_name_chars n (Suc i) cs
      else if c = CHR ''_'' \<or> c = CHR ''-'' \<or> c = CHR ''.'' then
        (if i = 0 \<or> i = n - 1 then False else secret_name_chars n (Suc i) cs)
      else False)"

definition validSecretName :: "string \<Rightarrow> bool" where
  "validSecretName name \<longleftrightarrow>
     \<not> (name = '''' \<or> length name > 128) \<and> secret_name_chars (length name) 0 name \<and> \<not> contains name ''..''"

definition validSecretsPrefix :: "string \<Rightarrow> bool" where
  "validSecretsPrefix prefix \<longleftrightarrow>
     has_suffix prefix ''/'' \<and> \<not> contains prefix ''//'' \<and> \<not> contains prefix ''..'' \<and> contains prefix ''/secrets/''"

datatype secrets = Secrets_stub | Secrets_broken secret_error | Secrets_live string capability

definition newSecretsFromEnv :: "(string \<Rightarrow> string) \<Rightarrow> capability \<Rightarrow> secrets" where
  "newSecretsFromEnv env storage =
     (let prefix = trim_space (env ''FARCAST_SECRETS_PREFIX'') in
      if prefix = '''' then Secrets_stub
      else if \<not> validSecretsPrefix prefix then Secrets_broken Secret_prefix
      else if storage = Storage_stub then Secrets_broken Secret_unwired
      else Secrets_live prefix storage)"

definition secrets_Get :: "secrets \<Rightarrow> (data_request \<Rightarrow> response option) \<Rightarrow> probe \<Rightarrow> string \<Rightarrow> secret_error + string" where
  "secrets_Get s send probe name =
     (case s of
        Secrets_stub \<Rightarrow> Inl Secret_stub
      | Secrets_broken e \<Rightarrow> Inl e
      | Secrets_live prefix storage \<Rightarrow>
          if \<not> validSecretName name then Inl (Secret_name name)
          else case capability_read storage send probe (prefix @ name) of
            Inl Sdk_NotFound \<Rightarrow> Inl (Secret_not_found name)
          | Inl e \<Rightarrow> Inl (Secret_storage e)
          | Inr data \<Rightarrow> Inr data)"

section \<open>The writer's and the reader's rule for secret names\<close>

lemma secret_chars_agree: "secret_chars n i cs = None \<longleftrightarrow> secret_name_chars n i cs"
  by (induction cs arbitrary: i) auto

text \<open>
  The operator's command and the application's SDK agree on what a secret may be
  called: each has its own copy of the rule, and no name is accepted by one and refused by
  the other.
\<close>

theorem secret_names_agree: "ValidateSecretName name = None \<longleftrightarrow> validSecretName name"
  by (auto simp: ValidateSecretName_def validSecretName_def MaxSecretNameLen_def secret_chars_agree[symmetric] split: option.splits)

section \<open>What an application is told\<close>

text \<open>The keyholder's answer to a client's request arriving over a connection of peer \<open>p\<close>.\<close>

definition answer :: "'c config \<Rightarrow> data_op \<Rightarrow> peer \<Rightarrow> server \<Rightarrow> 'c \<Rightarrow> data_request \<Rightarrow> response" where
  "answer cf op p sv c rq = snd (snd (DataHandler cf op (rq\<lparr>dr_peer := p\<rparr>) sv c))"

text \<open>The status endpoint of the same process.\<close>

definition status_probe :: "'c config \<Rightarrow> server \<Rightarrow> probe" where
  "status_probe cf sv =
     (case rp_body (status_state cf sv) of
        Body_state st \<Rightarrow> Some (rp_status (status_state cf sv), Some (phase_name (rs_Phase st), rs_Since st, rs_Generation st))
      | _ \<Rightarrow> None)"

lemma sealed_status: "va_phase (sv_vault sv) \<noteq> PhaseUnsealed \<Longrightarrow> sd_status cl \<noteq> '''' \<Longrightarrow> explainTransportFailure cl (status_probe cf sv) = Sdk_Sealed"
  by (cases "va_phase (sv_vault sv)")
    (simp_all add: explainTransportFailure_def probeStatus_def status_probe_def status_state_def writeJSON_def stateBody_def State_def statusFromPhase_def)

lemma sealed_resolve:
  assumes "va_phase (sv_vault sv) \<noteq> PhaseUnsealed" "identityFrom (dr_peer rq) (cf_Instance cf) = Inr i" "dr_Scope rq \<noteq> ''''"
    and "b64_decode (if fk then dr_Key rq else dr_Prefix rq) = Some key" "fk \<Longrightarrow> dr_Key rq \<noteq> ''''"
  shows "resolve cf rq fk sv = (sv, Inl (Vault_refused ErrSealed))"
  using assms by (cases fk) (auto simp: resolve_def vault_Scope_def Let_def)

lemma b64_encode_empty: "b64_encode v = '''' \<longleftrightarrow> v = ''''"
proof
  assume "b64_encode v = ''''"
  then show "v = ''''" using b64_decode_encode[of v] b64_decode_encode[of "''''"] by simp
qed simp

lemma sealed_answer:
  assumes "va_phase (sv_vault sv) \<noteq> PhaseUnsealed" "identityFrom p (cf_Instance cf) = Inr i" "sd_scope cl \<noteq> ''''" "op \<noteq> Op_list \<Longrightarrow> value \<noteq> ''''"
  shows "answer cf op p sv c (sdk_request cl (op \<noteq> Op_list) value data) = fail (Vault_refused ErrSealed)"
proof -
  have "resolve cf ((sdk_request cl (op \<noteq> Op_list) value data)\<lparr>dr_peer := p\<rparr>) (op \<noteq> Op_list) sv = (sv, Inl (Vault_refused ErrSealed))"
    using assms by (intro sealed_resolve[OF assms(1), where i = i and key = "value"]) (auto simp: sdk_request_def b64_decode_encode b64_encode_empty)
  then show ?thesis by (cases op) (simp_all add: answer_def server_read_def server_write_def server_delete_def server_list_def)
qed

text \<open>
  A seal is seen as a seal. While a keyholder holds no key material, every operation of
  an application with an identity reports that storage is sealed: through the keyholder's
  own answer, and through its status endpoint when the data path cannot be reached at all.
  It is never an empty listing, a missing object or an unavailable service.
\<close>

theorem a_seal_is_seen_as_a_seal:
  assumes "va_phase (sv_vault sv) \<noteq> PhaseUnsealed" "identityFrom p (cf_Instance cf) = Inr i"
    and "sd_scope cl \<noteq> ''''" "sd_status cl \<noteq> ''''" "key \<noteq> ''''"
    and "\<And>op rq. send op rq = None \<or> send op rq = Some (answer cf op p sv c rq)"
  shows "sdk_read cl (send Op_read) (status_probe cf sv) key = Inl Sdk_Sealed
    \<and> sdk_write cl (send (Op_write rnd)) (status_probe cf sv) key data = Some Sdk_Sealed
    \<and> sdk_delete cl (send Op_delete) (status_probe cf sv) key = Some Sdk_Sealed
    \<and> sdk_list cl (send Op_list) (status_probe cf sv) prefix = Inl Sdk_Sealed"
proof -
  have f: "fail (Vault_refused ErrSealed) = \<lparr>rp_status = 503, rp_code = CodeSealed, rp_body = Body_error CodeSealed (safeMessage (Vault_refused ErrSealed))\<rparr>"
    by (simp add: fail_def classify_def)
  have "sdk_do cl (send op) (status_probe cf sv) (sdk_request cl (op \<noteq> Op_list) v d) = Inl Sdk_Sealed" if "op \<noteq> Op_list \<Longrightarrow> v \<noteq> ''''" for op v d
    using assms(6)[of op "sdk_request cl (op \<noteq> Op_list) v d"] sealed_answer[where op = op and c = c and data = d, OF assms(1-3) that] sealed_status[OF assms(1,4)]
    by (auto simp: sdk_do_def f storageError_def storageErrors_def)
  from this[of Op_read key] this[of "Op_write rnd" key] this[of Op_delete key] this[of Op_list prefix] assms(5)
  show ?thesis by (simp add: sdk_read_def sdk_write_def sdk_delete_def sdk_list_def)
qed

theorem a_seal_is_seen_as_a_seal_witness:
  "sdk_read \<lparr>sd_endpoint = ''https://k'', sd_status = ''http://k'', sd_scope = ''app-shop-web''\<rparr>
     (\<lambda>rq. Some (answer sample_config Op_read (Some [''farcast://prod/app/shop/web'']) (sample_server PhaseOperatorHold) [] rq))
     (status_probe sample_config (sample_server PhaseOperatorHold)) ''app/shop/web/cart'' = Inl Sdk_Sealed"
proof -
  let ?p = "Some [''farcast://prod/app/shop/web'']" and ?sv = "sample_server PhaseOperatorHold"
  have i: "\<exists>i. identityFrom ?p (cf_Instance sample_config) = Inr i"
  proof -
    have "case identityFrom ?p (cf_Instance sample_config) of Inr _ \<Rightarrow> True | Inl _ \<Rightarrow> False" by (simp add: sample_config_def) code_simp
    then show ?thesis by (auto split: sum.splits)
  qed
  then obtain i where i: "identityFrom ?p (cf_Instance sample_config) = Inr i" by blast
  show ?thesis
    using a_seal_is_seen_as_a_seal[of ?sv ?p sample_config i _ _ "\<lambda>op rq. Some (answer sample_config op ?p ?sv [] rq)" "[]"] i
    by (simp add: sample_server_def)
qed

section \<open>Absence\<close>

lemma classify_not_found: "snd (classify (Some e)) = CodeNotFound \<Longrightarrow> Sn_ObjectNotFound \<in> set (sentinels e)"
  by (auto simp: classify_def Let_def wire_codes split: if_splits)

lemma storageError_not_found: "storageError code = Sdk_NotFound \<Longrightarrow> code = CodeNotFound"
  by (auto simp: storageError_def storageErrors_def wire_codes split: if_splits)

lemma fail_code: "rp_code (fail e) = snd (classify (Some e))"
  by (simp add: fail_def split: prod.splits)

lemma keyring_sentinels_range: "set (keyring_sentinels f) \<subseteq> {Sn_KeyringInvalid, Sn_InvalidKey}"
  by (induction f) auto

lemma resolve_sentinels: "resolve cf rq fk sv = (sv', Inl e) \<Longrightarrow> Sn_ObjectNotFound \<notin> set (sentinels e)"
proof -
  have v: "vault_Scope key v h = (Inl x, h') \<Longrightarrow> x = ErrSealed \<or> x = ErrOutOfScope" for key v h x h'
    by (auto simp: vault_Scope_def split: if_splits option.splits prod.splits)
  have s: "Stores cf k = Inl x \<Longrightarrow> Sn_ObjectNotFound \<notin> set (storage_sentinels x)" for k x
    using keyring_sentinels_range by (fastforce simp: Stores_def NewStore_def split: if_splits option.splits sum.splits)
  have i: "Sn_ObjectNotFound \<notin> set (sentinels (Identity_error x))" for x by (cases x) simp_all
  show "resolve cf rq fk sv = (sv', Inl e) \<Longrightarrow> ?thesis"
    using i by (auto simp: resolve_def Let_def dest!: v s split: sum.splits option.splits if_splits prod.splits)
qed

lemma Read_not_found:
  assumes "Read C p s key c = Inl e" "Sn_ObjectNotFound \<in> set (storage_sentinels e)"
  shows "pv_Get p c (sr_bucket s) (TokenPath C (sr_tokenKey s) key) = Inl ErrObjectNotFound"
proof -
  have "Sn_ObjectNotFound \<notin> set (crypto_sentinels x)" for x by (cases x) simp_all
  moreover have "Sn_ObjectNotFound \<in> set (storage_sentinels (Store_provider x)) \<Longrightarrow> x = ErrObjectNotFound" for x by (cases x) simp_all
  ultimately show ?thesis using assms by (auto simp: Read_def StoredName_def split: option.splits sum.splits)
qed

text \<open>
  C6. Absence is never invented. When a read reports that there is no such object, over any
  cloud that honours the provider contract, the bucket holds nothing under the name that
  the key has in the scope owning it: a seal, a lost connection, a foreign key, damage and
  every refusal read as something else.
\<close>

theorem absence_is_never_invented:
  assumes "object_store (cf_provider cf) contents" "server_ok sv"
    and "\<And>rq. send rq = None \<or> send rq = Some (answer cf Op_read p sv c rq)" "sdk_read cl send probe key = Inl Sdk_NotFound"
  shows "\<exists>s store. find (\<lambda>s. Owns s key) (va_scopes (server_value sv)) = Some s \<and> Stores cf s = Inr store
    \<and> contents c (sr_bucket store) (TokenPath (cf_crypto cf) (sr_tokenKey store) key) = None"
proof -
  let ?rq = "(sdk_request cl True key '''')\<lparr>dr_peer := p\<rparr>"
  let ?resp = "answer cf Op_read p sv c (sdk_request cl True key '''')"
  have "explainTransportFailure cl probe \<noteq> Sdk_NotFound"
    by (auto simp: explainTransportFailure_def split: option.splits)
  then have code: "rp_code ?resp = CodeNotFound" "rp_status ?resp div 100 \<noteq> 2"
    using assms(3)[of "sdk_request cl True key ''''"] assms(4) storageError_not_found
    by (auto simp: sdk_read_def sdk_do_def split: sum.splits body.splits if_splits)
  obtain sv1 r where r: "resolve cf ?rq True sv = (sv1, r)" by fastforce
  show ?thesis
  proof (cases r)
    case (Inl e)
    then have "?resp = fail e" using r by (simp add: answer_def server_read_def)
    then have False using classify_not_found[of e] resolve_sentinels[of cf ?rq True sv sv1 e] r Inl code(1) by (simp add: fail_code)
    then show ?thesis ..
  next
    case (Inr x)
    obtain k i s store where x: "x = (k, i, s, store)" by (cases x)
    have k: "k = key" using resolve_Inr[OF r[unfolded Inr x]] by (simp add: sdk_request_def b64_decode_encode)
    obtain s0 where s0: "find (\<lambda>s. Owns s key) (va_scopes (server_value sv)) = Some s0" "Stores cf s0 = Inr store"
      using resolve_value[OF assms(2) r] Inr x k by auto
    obtain e where e: "Read (cf_crypto cf) (cf_provider cf) store key c = Inl e" "?resp = fail (Store_failed e)"
      using r Inr x k code(2) by (auto simp: answer_def server_read_def split: sum.splits)
    then have "Sn_ObjectNotFound \<in> set (storage_sentinels e)" using classify_not_found[of "Store_failed e"] code(1) by (simp add: fail_code)
    then have "pv_Get (cf_provider cf) c (sr_bucket store) (TokenPath (cf_crypto cf) (sr_tokenKey store) key) = Inl ErrObjectNotFound"
      by (rule Read_not_found[OF e(1)])
    then show ?thesis using s0 object_store.get_missing[OF assms(1)] by blast
  qed
qed

section \<open>What was written is read\<close>

lemma Stores_Inr:
  assumes "Stores cf s = Inr store"
  shows "sr_bucket store = cf_bucket cf" "sr_tokenKey store = NameTokenKey (cf_crypto cf) (sr_nameKey store)" "sr_keys store = ScopeKeyring s"
  using assms by (auto simp: Stores_def NewStore_def split: if_splits option.splits sum.splits)

lemma resolve_succeeds:
  assumes "server_ok sv" "va_phase (sv_vault sv) = PhaseUnsealed" "find (\<lambda>s. Owns s key) (va_scopes (server_value sv)) = Some s"
    and "Stores cf s = Inr store" "identityFrom p (cf_Instance cf) = Inr j" "MayReach j (sc_Name s)" "sd_scope cl = sc_Name s" "sc_Name s \<noteq> ''''"
    and "key \<noteq> ''''"
  shows "\<exists>sv' c. resolve cf ((sdk_request cl True key d)\<lparr>dr_peer := p\<rparr>) True sv = (sv', Inr (key, j, c, store))"
proof -
  obtain s0 where s0: "find (\<lambda>s. Owns s key) (va_scopes (sv_vault sv)) = Some s0" "s = deref (hp_cells (sv_heap sv)) s0"
    using assms(3) by (auto simp: server_value_def find_deref)
  obtain c h where c: "Clone s0 (sv_heap sv) = (c, h)" by fastforce
  have v: "vault_Scope key (sv_vault sv) (sv_heap sv) = (Inr c, h)" using assms(2) s0 c by (simp add: vault_Scope_def)
  have d: "deref (hp_cells h) c = s" using request_value[OF assms(1) v] assms(3) by auto
  then have "sc_Name c = sc_Name s" by (auto simp: deref_def)
  then show ?thesis using assms v d by (auto simp: resolve_def sdk_request_def Let_def b64_decode_encode b64_encode_empty)
qed

text \<open>
  C5. What was written is read. An object the keyholder accepted is what a later read gives
  back, whatever happened to the keyholder in between: seals, restarts, unseals from other
  bundles, requests of others. It takes that the keyholder serves again a scope owning the
  key, under the same name key and with a keyring that still holds every key of the one the
  object was written under, that the reader may reach the scope, and that the cloud still
  holds the object; the read then gives the bytes written. The one exception is a cloud whose
  answer to the fetch of this very object is a failure of its own: then, and only then, the
  read reports storage as unavailable.
\<close>

theorem written_objects_are_read:
  assumes "object_store (cf_provider cf) contents" "crypto_laws (cf_crypto cf)" "68 \<le> length rnd"
    and "server_ok sv" "find (\<lambda>s. Owns s key) (va_scopes (server_value sv)) = Some s" "Stores cf s = Inr store" "keyring_ids_ok (sr_keys store)"
    and "DataHandler cf (Op_write rnd) ((sdk_request writer True key data)\<lparr>dr_peer := p\<rparr>) sv c = (sv1, c1, rp)" "rp_status rp = 204"
    and "server_ok sv2" "va_phase (sv_vault sv2) = PhaseUnsealed" "find (\<lambda>s. Owns s key) (va_scopes (server_value sv2)) = Some s2"
    and "Stores cf s2 = Inr store2" "sr_nameKey store2 = sr_nameKey store" "kek_lookup (sr_keys store) \<subseteq>\<^sub>m kek_lookup (sr_keys store2)"
    and "\<And>n. contents c2 (cf_bucket cf) n = contents c1 (cf_bucket cf) n"
    and "identityFrom p2 (cf_Instance cf) = Inr j" "MayReach j (sc_Name s2)" "sd_scope reader = sc_Name s2" "sc_Name s2 \<noteq> ''''"
  shows "sdk_read reader (\<lambda>rq. Some (answer cf Op_read p2 sv2 c2 rq)) probe key =
    (case pv_Get (cf_provider cf) c2 (cf_bucket cf) (TokenPath (cf_crypto cf) (sr_tokenKey store2) key) of
       Inl (Provider_failed m) \<Rightarrow> Inl Sdk_Unavailable
     | _ \<Rightarrow> Inr data)"
proof -
  let ?C = "cf_crypto cf" and ?P = "cf_provider cf"
  have f: "rp_status (fail e) \<noteq> 204" for e using fail_status[of e] by linarith
  obtain svr r where r: "resolve cf ((sdk_request writer True key data)\<lparr>dr_peer := p\<rparr>) True sv = (svr, r)" by fastforce
  obtain k i s' st where x: "r = Inr (k, i, s', st)"
    using assms(8,9) r f by (cases r) (auto simp: server_write_def)
  have k: "k = key" using resolve_Inr[OF r[unfolded x]] by (simp add: sdk_request_def b64_decode_encode)
  then have st: "st = store" using resolve_value[OF assms(4) r] x assms(5,6) by auto
  have "Write ?C ?P store key data rnd c = (c1, None)"
    using assms(8,9) r x k st f
    by (auto simp: server_write_def read_body_def sdk_request_def split: option.splits if_splits prod.splits)
  moreover have ok: "store_ok ?C store" using NewStore_ok[OF assms(6)[unfolded Stores_def] assms(2)] assms(7) Stores_Inr(3)[OF assms(6)] by simp
  ultimately obtain obj where o: "ValidateLogicalKey key = None" "stored_ok ?C store key data obj"
    "contents c1 (sr_bucket store) (TokenPath ?C (sr_tokenKey store) key) = Some obj"
    using object_store.Write_stores[OF assms(1) _ assms(3)] by fastforce
  have "Open ?C (kek_lookup (sr_keys store2)) key (fst obj) = Inr data" using o(2) Open_mono[OF _ assms(15)] by (simp add: stored_ok_def)
  moreover have "contents c2 (sr_bucket store2) (TokenPath ?C (sr_tokenKey store2) key) = Some obj"
    using o(3) assms(14,16) Stores_Inr[OF assms(6)] Stores_Inr[OF assms(13)] by simp
  ultimately have R: "Read ?C ?P store2 key c2 =
      (case pv_Get ?P c2 (cf_bucket cf) (TokenPath ?C (sr_tokenKey store2) key) of
         Inl (Provider_failed m) \<Rightarrow> Inl (Store_provider (Provider_failed m)) | _ \<Rightarrow> Inr data)"
    using object_store.Read_stored_answer[OF assms(1) o(1)] Stores_Inr(1)[OF assms(13)] by metis
  have "key \<noteq> ''''" using o(1) by (auto simp: ValidateLogicalKey_def)
  then obtain sv3 c3 where "resolve cf ((sdk_request reader True key '''')\<lparr>dr_peer := p2\<rparr>) True sv2 = (sv3, Inr (key, j, c3, store2))"
    using resolve_succeeds[OF assms(10,11,12,13,17-20)] by blast
  then have read: "Read ?C ?P store2 key c2 = Inr body \<Longrightarrow> sdk_read reader (\<lambda>rq. Some (answer cf Op_read p2 sv2 c2 rq)) probe key = Inr body"
      "Read ?C ?P store2 key c2 = Inl (Store_provider (Provider_failed m)) \<Longrightarrow>
         sdk_read reader (\<lambda>rq. Some (answer cf Op_read p2 sv2 c2 rq)) probe key = Inl Sdk_Unavailable" for body m
    by (simp_all add: sdk_read_def sdk_do_def answer_def server_read_def fail_def classify_def storageError_def storageErrors_def wire_codes)
  show ?thesis
  proof (cases "\<exists>m. pv_Get ?P c2 (cf_bucket cf) (TokenPath ?C (sr_tokenKey store2) key) = Inl (Provider_failed m)")
    case True
    then obtain m where m: "pv_Get ?P c2 (cf_bucket cf) (TokenPath ?C (sr_tokenKey store2) key) = Inl (Provider_failed m)" by blast
    show ?thesis using read(2)[of m] R unfolding m by simp
  next
    case False
    then have v: "(case pv_Get ?P c2 (cf_bucket cf) (TokenPath ?C (sr_tokenKey store2) key) of Inl (Provider_failed m) \<Rightarrow> f m | _ \<Rightarrow> x) = x"
      for f :: "string \<Rightarrow> 'e + string" and x by (auto split: sum.splits provider_error.splits)
    have "Read ?C ?P store2 key c2 = Inr data" using R unfolding v .
    then show ?thesis using read(1) unfolding v by simp
  qed
qed

section \<open>The sample keyholder, serving one scope\<close>

definition serving :: "string scope \<Rightarrow> server" where
  "serving s =
     (case place_scopes [s] empty_heap of (ss, h) \<Rightarrow>
        \<lparr>sv_vault = (NewVault ''prod'' 0 None)\<lparr>va_phase := PhaseUnsealed, va_generation := 1, va_scopes := ss\<rparr>,
         sv_heap = h, sv_challenger = NewChallenger ''priv''\<rparr>)"

lemma serving_scopes:
  "server_ok (serving s) \<and> va_phase (sv_vault (serving s)) = PhaseUnsealed \<and> va_scopes (server_value (serving s)) = [s]"
proof -
  obtain ss h where p: "place_scopes [s] empty_heap = (ss, h)" by fastforce
  note P = place_scopes_heap[OF p]
  have sv: "serving s = \<lparr>sv_vault = (NewVault ''prod'' 0 None)\<lparr>va_phase := PhaseUnsealed, va_generation := 1, va_scopes := ss\<rparr>,
      sv_heap = h, sv_challenger = NewChallenger ''priv''\<rparr>"
    by (simp only: serving_def p prod.case)
  have "separated (\<lparr>wd_vault = sv_vault (serving s), wd_bundles = [], wd_requests = [], wd_result = None\<rparr>, h)"
    using P by (simp add: separated_def world_refs_def sv)
  then show ?thesis using P by (simp add: server_ok_def as_world_def server_value_def sv)
qed

definition app_scope :: "string scope" where
  "app_scope = \<lparr>sc_Name = ''app-a-b-c'', sc_Prefix = ''app/a/b-c/'', sc_Created = 0, sc_Derivation = '''', sc_keys = sample_keys 1\<rparr>"

lemma app_scope_store: "\<exists>store. Stores sample_config app_scope = Inr store"
  using sample_ring_store by (simp add: Stores_def sample_config_def ScopeKeyring_def app_scope_def sample_ring_def) blast

definition app_client :: storage_client where
  "app_client = \<lparr>sd_endpoint = ''https://k'', sd_status = ''http://k'', sd_scope = ''app-a-b-c''\<rparr>"

definition cart :: string where "cart = ''app/a/b-c/cart''"

text \<open>A write of an application of that scope is accepted.\<close>

lemma sample_write:
  assumes "identityFrom p ''prod'' = Inr j" "MayReach j ''app-a-b-c''"
  shows "\<exists>sv1 c1 rp. DataHandler sample_config (Op_write (replicate 68 (byte 9))) ((sdk_request app_client True cart ''hello'')\<lparr>dr_peer := p\<rparr>)
      (serving app_scope) [] = (sv1, c1, rp) \<and> rp_status rp = 204"
proof -
  obtain store where st: "Stores sample_config app_scope = Inr store" using app_scope_store by blast
  have own: "Owns app_scope cart" by (simp add: Owns_def app_scope_def cart_def has_prefix_def)
  have nm: "sc_Name app_scope = ''app-a-b-c''" "sd_scope app_client = ''app-a-b-c''" by (simp_all add: app_scope_def app_client_def)
  have find: "find (\<lambda>s. Owns s cart) (va_scopes (server_value (serving app_scope))) = Some app_scope"
    using serving_scopes[of app_scope] own by simp
  obtain sv1 s where r: "resolve sample_config ((sdk_request app_client True cart ''hello'')\<lparr>dr_peer := p\<rparr>) True (serving app_scope)
      = (sv1, Inr (cart, j, s, store))"
    using resolve_succeeds[of "serving app_scope" cart app_scope sample_config store p j app_client "''hello''"] serving_scopes[of app_scope] find st assms nm
    by (auto simp: cart_def sample_config_def)
  have "sc_Prefix s = ''app/a/b-c/''"
  proof -
    obtain s0 where "find (\<lambda>s. Owns s cart) (va_scopes (sv_vault (serving app_scope))) = Some s0" "sc_Prefix s = sc_Prefix s0"
      using resolve_Inr[OF r] Clone_names by blast
    then show ?thesis using find by (auto simp: server_value_def find_deref deref_def app_scope_def)
  qed
  then have m: "refuseSecretMutation j s cart = None" by (simp add: refuseSecretMutation_def cart_def) code_simp
  have "ValidateLogicalKey cart = None" unfolding cart_def by code_simp
  moreover have "store_ok plain_lib store" 
    using NewStore_ok[of plain_lib "''bucket''" "ScopeKeyring app_scope" store] st plain_lib_laws
    by (simp add: Stores_def sample_config_def app_scope_def keyring_ids_ok_def ids_ok_def ScopeKeyring_def sample_keys_def KeyIDLen_def)
  ultimately obtain c1 where "Write plain_lib mem_provider store cart ''hello'' (replicate 68 (byte 9)) [] = (c1, None)"
    using write_succeeds[of plain_lib cart "''hello''" "replicate 68 (byte 9)" store "[]"] plain_lib_laws by (auto simp: MaxPlaintext_def)
  then show ?thesis using r m
    by (simp add: server_write_def read_body_def sdk_request_def sample_config_def no_content_def)
qed

lemma app_identity:
  assumes "segment_ok ns" "segment_ok a"
  shows "identityFrom (Some [AppURI ''prod'' ns a]) ''prod'' = Inr \<lparr>id_Role = RoleApp, id_Instance = ''prod'', id_Name = a, id_Namespace = ns\<rparr>"
  using ParseIdentity_of_uri[of "\<lparr>id_Role = RoleApp, id_Instance = ''prod'', id_Name = a, id_Namespace = ns\<rparr>"] assms
  by (simp add: identityFrom_def identity_ok_def identity_uri_def)

definition app_peer :: peer where "app_peer = Some [AppURI ''prod'' ''a'' ''b-c'']"

lemma app_peer_identity: "identityFrom app_peer ''prod'' = Inr \<lparr>id_Role = RoleApp, id_Instance = ''prod'', id_Name = ''b-c'', id_Namespace = ''a''\<rparr>"
  unfolding app_peer_def by (rule app_identity) (simp_all add: segment_ok_def)

lemma app_peer_reaches: "MayReach \<lparr>id_Role = RoleApp, id_Instance = ''prod'', id_Name = ''b-c'', id_Namespace = ''a''\<rparr> ''app-a-b-c''"
  by code_simp

lemma app_peer_write:
  "\<exists>sv1 c1 rp. DataHandler sample_config (Op_write (replicate 68 (byte 9))) ((sdk_request app_client True cart ''hello'')\<lparr>dr_peer := app_peer\<rparr>)
      (serving app_scope) [] = (sv1, c1, rp) \<and> rp_status rp = 204"
  by (rule sample_write[OF app_peer_identity app_peer_reaches])

theorem application_is_confined_witness:
  "\<exists>key s. b64_decode (b64_encode cart) = Some key \<and> find (\<lambda>s. Owns s key) (va_scopes (sv_vault (serving app_scope))) = Some s
     \<and> AppScopeName ''a'' ''b-c'' = Inr (sc_Name s)"
proof -
  obtain sv1 c1 rp where w: "DataHandler sample_config (Op_write (replicate 68 (byte 9))) ((sdk_request app_client True cart ''hello'')\<lparr>dr_peer := app_peer\<rparr>)
      (serving app_scope) [] = (sv1, c1, rp)" "rp_status rp = 204" using app_peer_write by blast
  show ?thesis
    using application_is_confined[OF w(1), of "\<lparr>id_Role = RoleApp, id_Instance = ''prod'', id_Name = ''b-c'', id_Namespace = ''a''\<rparr>"] w(2) app_peer_identity
    by (auto simp: sample_config_def header_of_def sdk_request_def)
qed

theorem hyphenated_neighbours_share_storage_witness:
  "\<exists>sv1 c1 rp. rp_status rp = 204
     \<and> DataHandler sample_config (Op_write (replicate 68 (byte 9))) ((sdk_request app_client True cart ''hello'')\<lparr>dr_peer := Some [AppURI ''prod'' ''a-b'' ''c'']\<rparr>)
         (serving app_scope) [] = (sv1, c1, rp)
     \<and> DataHandler sample_config (Op_write (replicate 68 (byte 9))) ((sdk_request app_client True cart ''hello'')\<lparr>dr_peer := Some [AppURI ''prod'' ''a'' ''b-c'']\<rparr>)
         (serving app_scope) [] = (sv1, c1, rp)"
proof -
  let ?op = "Op_write (replicate 68 (byte 9))" and ?rq = "sdk_request app_client True cart ''hello''"
  have "segment_ok ''a-b''" "segment_ok ''c''" by (simp_all add: segment_ok_def)
  note j = app_identity[OF this]
  have "MayReach \<lparr>id_Role = RoleApp, id_Instance = ''prod'', id_Name = ''c'', id_Namespace = ''a-b''\<rparr> ''app-a-b-c''" by code_simp
  then obtain sv1 c1 rp where w: "DataHandler sample_config ?op (?rq\<lparr>dr_peer := Some [AppURI ''prod'' ''a-b'' ''c'']\<rparr>) (serving app_scope) [] = (sv1, c1, rp)"
    "rp_status rp = 204" using sample_write[OF j] by blast
  have "DataHandler sample_config ?op (?rq\<lparr>dr_peer := Some [AppURI ''prod'' ''a'' ''b-c'']\<rparr>) (serving app_scope) [] = (sv1, c1, rp)"
    using hyphenated_neighbours_share_storage[of sample_config "''a''" "''b''" "''c''" ?op ?rq "serving app_scope" "[]" sv1 c1 rp] w
    by (simp add: segment_ok_def sample_config_def)
  then show ?thesis using w by blast
qed

theorem application_stays_in_its_subtree_witness:
  "\<exists>key. b64_decode (b64_encode cart) = Some key \<and> has_prefix key (AppScopePrefix ''a'' ''b-c'')"
proof -
  obtain sv1 c1 rp where w: "DataHandler sample_config (Op_write (replicate 68 (byte 9))) ((sdk_request app_client True cart ''hello'')\<lparr>dr_peer := app_peer\<rparr>)
      (serving app_scope) [] = (sv1, c1, rp)" "rp_status rp = 204" using app_peer_write by blast
  have "AppScopeName ''a'' ''b-c'' = Inr ''app-a-b-c''" "AppScopePrefix ''a'' ''b-c'' = ''app/a/b-c/''" by code_simp+
  moreover have "\<forall>s\<in>set (va_scopes (sv_vault (serving app_scope))). sc_Name s = ''app-a-b-c'' \<and> sc_Prefix s = ''app/a/b-c/''"
    using serving_scopes[of app_scope] by (auto simp: server_value_def deref_def app_scope_def)
  ultimately have v: "\<forall>s\<in>set (va_scopes (sv_vault (serving app_scope))).
      \<exists>n a. AppScopeName n a = Inr (sc_Name s) \<and> sc_Prefix s = AppScopePrefix n a \<and> CHR ''-'' \<notin> set n"
    by (intro ballI exI[of _ "''a''"] exI[of _ "''b-c''"]) auto
  show ?thesis
    using application_stays_in_its_subtree[OF w(1), of "\<lparr>id_Role = RoleApp, id_Instance = ''prod'', id_Name = ''b-c'', id_Namespace = ''a''\<rparr>"] w(2) app_peer_identity v
    by (simp add: sample_config_def header_of_def sdk_request_def)
qed

theorem written_objects_are_read_witness:
  "\<exists>sv1 c1 rp. DataHandler sample_config (Op_write (replicate 68 (byte 9))) ((sdk_request app_client True cart ''hello'')\<lparr>dr_peer := app_peer\<rparr>)
       (serving app_scope) [] = (sv1, c1, rp)
     \<and> sdk_read app_client (\<lambda>rq. Some (answer sample_config Op_read app_peer (serving app_scope) c1 rq)) None cart = Inr ''hello''"
proof -
  obtain sv1 c1 rp where w: "DataHandler sample_config (Op_write (replicate 68 (byte 9))) ((sdk_request app_client True cart ''hello'')\<lparr>dr_peer := app_peer\<rparr>)
      (serving app_scope) [] = (sv1, c1, rp)" "rp_status rp = 204" using app_peer_write by blast
  obtain store where st: "Stores sample_config app_scope = Inr store" using app_scope_store by blast
  have ids: "keyring_ids_ok (sr_keys store)"
    using Stores_Inr(3)[OF st] by (simp add: keyring_ids_ok_def ids_ok_def ScopeKeyring_def app_scope_def sample_keys_def KeyIDLen_def)
  have own: "Owns app_scope cart" by (simp add: Owns_def app_scope_def cart_def has_prefix_def)
  have find: "find (\<lambda>s. Owns s cart) (va_scopes (server_value (serving app_scope))) = Some app_scope" using serving_scopes[of app_scope] own by simp
  have cf: "cf_provider sample_config = mem_provider" "cf_crypto sample_config = plain_lib" "cf_Instance sample_config = ''prod''"
    by (simp_all add: sample_config_def)
  have nm: "sc_Name app_scope = ''app-a-b-c''" "sd_scope app_client = ''app-a-b-c''" by (simp_all add: app_scope_def app_client_def)
  have "sdk_read app_client (\<lambda>rq. Some (answer sample_config Op_read app_peer (serving app_scope) c1 rq)) None cart =
     (case pv_Get (cf_provider sample_config) c1 (cf_bucket sample_config) (TokenPath (cf_crypto sample_config) (sr_tokenKey store) cart) of
        Inl (Provider_failed m) \<Rightarrow> Inl Sdk_Unavailable | _ \<Rightarrow> Inr ''hello'')"
    by (rule written_objects_are_read[where cf = sample_config and contents = mem_contents and rnd = "replicate 68 (byte 9)" and sv = "serving app_scope" and s = app_scope
          and store = store and writer = app_client and p = app_peer and c = "[]" and ?sv1.0 = sv1 and rp = rp and ?sv2.0 = "serving app_scope" and ?s2.0 = app_scope and ?store2.0 = store and ?c1.0 = c1])
      (use serving_scopes[of app_scope] find st ids w cf nm app_peer_identity app_peer_reaches mem.object_store_axioms plain_lib_laws in \<open>simp_all\<close>)
  moreover have "pv_Get mem_provider c1 b n \<noteq> Inl (Provider_failed m)" for b n m
    by (simp add: mem_provider_def split: option.split)
  ultimately show ?thesis using w(1) cf(1) by (auto split: sum.splits provider_error.splits)
qed

theorem absence_is_never_invented_witness:
  "sdk_read app_client (\<lambda>rq. Some (answer sample_config Op_read app_peer (serving app_scope) [] rq)) None cart = Inl Sdk_NotFound
     \<and> (\<exists>s store. find (\<lambda>s. Owns s cart) (va_scopes (server_value (serving app_scope))) = Some s \<and> Stores sample_config s = Inr store
          \<and> mem_contents [] (sr_bucket store) (TokenPath plain_lib (sr_tokenKey store) cart) = None)"
proof -
  obtain store where st: "Stores sample_config app_scope = Inr store" using app_scope_store by blast
  have own: "Owns app_scope cart" by (simp add: Owns_def app_scope_def cart_def has_prefix_def)
  have find: "find (\<lambda>s. Owns s cart) (va_scopes (server_value (serving app_scope))) = Some app_scope" using serving_scopes[of app_scope] own by simp
  have nm: "sc_Name app_scope = ''app-a-b-c''" "sd_scope app_client = ''app-a-b-c''" by (simp_all add: app_scope_def app_client_def)
  obtain sv1 s where r: "resolve sample_config ((sdk_request app_client True cart '''')\<lparr>dr_peer := app_peer\<rparr>) True (serving app_scope)
      = (sv1, Inr (cart, \<lparr>id_Role = RoleApp, id_Instance = ''prod'', id_Name = ''b-c'', id_Namespace = ''a''\<rparr>, s, store))"
    using resolve_succeeds[of "serving app_scope" cart app_scope sample_config store app_peer _ app_client "''''"] serving_scopes[of app_scope] find st nm
      app_peer_identity app_peer_reaches by (auto simp: cart_def sample_config_def)
  have "ValidateLogicalKey cart = None" unfolding cart_def by code_simp
  then have "Read plain_lib mem_provider store cart [] = Inl (Store_provider ErrObjectNotFound)"
    by (simp add: Read_def StoredName_def mem_provider_def)
  then have n: "sdk_read app_client (\<lambda>rq. Some (answer sample_config Op_read app_peer (serving app_scope) [] rq)) None cart = Inl Sdk_NotFound"
    using r by (simp add: sdk_read_def sdk_do_def answer_def server_read_def sample_config_def fail_def classify_def storageError_def storageErrors_def wire_codes)
  then show ?thesis
    using absence_is_never_invented[of sample_config mem_contents "serving app_scope" "\<lambda>rq. Some (answer sample_config Op_read app_peer (serving app_scope) [] rq)"
        app_peer "[]" app_client None cart] mem.object_store_axioms serving_scopes[of app_scope]
    by (simp add: sample_config_def)
qed

end
