(* ===== verification/Fleet_Client.thy ===== *)
theory Fleet_Client
  imports Keyholder
begin

text \<open>
  The operator's side of the keyholder protocol: the calls one replica answers
  (\<open>farsight/cli/internal/keyholder/client.go\<close>) and the ledger of pushes kept on the
  operator's own machines (\<open>farsight/cli/internal/keyholder/ledger.go\<close>). The relayed
  stream with its TLS session is a parameter: what it carries back for one request, or
  where it broke. JSON bodies are the records they encode; a reported key map that is
  empty is left out by the encoder and read back as the nil map.
\<close>

section \<open>What a replica reports\<close>

record replica_state =
  rst_Instance :: string
  rst_Phase :: string
  rst_Since :: gotime
  rst_Generation :: "64 word"
  rst_HoldReason :: string
  rst_Scopes :: "string list"
  rst_Boot :: string
  rst_Keys :: "(string \<times> string list) list option"

definition no_state :: replica_state where
  "no_state = \<lparr>rst_Instance = '''', rst_Phase = '''', rst_Since = zero_time, rst_Generation = 0, rst_HoldReason = '''',
     rst_Scopes = [], rst_Boot = '''', rst_Keys = None\<rparr>"

definition Sealed :: "replica_state \<Rightarrow> bool" where
  "Sealed st \<longleftrightarrow> rst_Phase st \<noteq> ''unsealed''"

text \<open>Reading a nil map finds nothing.\<close>

definition reported_keys :: "replica_state \<Rightarrow> (string \<times> string list) list" where
  "reported_keys st = (case rst_Keys st of None \<Rightarrow> [] | Some m \<Rightarrow> m)"

definition state_of_body :: "state_response \<Rightarrow> replica_state" where
  "state_of_body b = \<lparr>rst_Instance = rs_Instance b, rst_Phase = phase_name (rs_Phase b), rst_Since = rs_Since b,
     rst_Generation = rs_Generation b, rst_HoldReason = rs_HoldReason b, rst_Scopes = rs_Scopes b,
     rst_Boot = rs_Boot b, rst_Keys = (if rs_Keys b = [] then None else Some (rs_Keys b))\<rparr>"

section \<open>One request over its own stream\<close>

datatype refusal_reason = With_code message string | Answer_status nat

datatype call_error =
    Dial_failed nat
  | Handshake_failed nat
  | Send_failed nat
  | Receive_failed nat
  | Refusal nat string refusal_reason
  | Unintelligible nat
  | Challenge_failed nat call_error
  | Not_sealed envelope_error

text \<open>\<open>errors.As(err, &r)\<close>: the refusal an error is or wraps.\<close>

fun refusal_code :: "call_error \<Rightarrow> string option" where
  "refusal_code (Refusal _ code _) = Some code"
| "refusal_code (Challenge_failed _ e) = refusal_code e"
| "refusal_code _ = None"

definition NotServing :: "call_error option \<Rightarrow> bool" where
  "NotServing err \<longleftrightarrow> (case err of None \<Rightarrow> False | Some e \<Rightarrow> refusal_code e = Some CodeNotServing)"

definition AlreadyServing :: "call_error option \<Rightarrow> bool" where
  "AlreadyServing err \<longleftrightarrow> (case err of None \<Rightarrow> False | Some e \<Rightarrow> refusal_code e = Some CodeAlreadyServing)"

definition refusalReason :: "response \<Rightarrow> string \<times> refusal_reason" where
  "refusalReason rp =
     (case rp_body rp of
        Body_error code m \<Rightarrow> (code, With_code m code)
      | _ \<Rightarrow> ('''', Answer_status (rp_status rp)))"

datatype wire =
    Wire_state
  | Wire_challenge
  | Wire_unseal string string string
  | Wire_seal string
  | Wire_release

datatype transport = No_dial | No_handshake | No_send | No_answer | Answered response

record 'w operator_client =
  oc_instance :: string
  oc_crypto :: crypto_lib
  oc_dh :: dh_lib
  oc_random :: "'w \<Rightarrow> 'w \<times> string option \<times> string"
  oc_exchange :: "nat \<Rightarrow> wire \<Rightarrow> 'w \<Rightarrow> 'w \<times> transport"

definition call :: "'w operator_client \<Rightarrow> nat \<Rightarrow> wire \<Rightarrow> 'w \<Rightarrow> 'w \<times> (call_error + body)" where
  "call oc ordinal rq w =
     (case oc_exchange oc ordinal rq w of (w, t) \<Rightarrow>
        (w, case t of
              No_dial \<Rightarrow> Inl (Dial_failed ordinal)
            | No_handshake \<Rightarrow> Inl (Handshake_failed ordinal)
            | No_send \<Rightarrow> Inl (Send_failed ordinal)
            | No_answer \<Rightarrow> Inl (Receive_failed ordinal)
            | Answered rp \<Rightarrow>
                if rp_status rp div 100 \<noteq> 2
                then (case refusalReason rp of (code, reason) \<Rightarrow> Inl (Refusal ordinal code reason))
                else Inr (rp_body rp)))"

definition decode_state :: "nat \<Rightarrow> body \<Rightarrow> call_error + replica_state" where
  "decode_state ordinal b = (case b of Body_state s \<Rightarrow> Inr (state_of_body s) | _ \<Rightarrow> Inl (Unintelligible ordinal))"

definition call_state :: "'w operator_client \<Rightarrow> nat \<Rightarrow> wire \<Rightarrow> 'w \<Rightarrow> 'w \<times> (call_error + replica_state)" where
  "call_state oc ordinal rq w =
     (case call oc ordinal rq w of (w, r) \<Rightarrow> (w, case r of Inl e \<Rightarrow> Inl e | Inr b \<Rightarrow> decode_state ordinal b))"

definition client_State :: "'w operator_client \<Rightarrow> nat \<Rightarrow> 'w \<Rightarrow> 'w \<times> (call_error + replica_state)" where
  "client_State oc ordinal w = call_state oc ordinal Wire_state w"

definition client_Unseal :: "'w operator_client \<Rightarrow> nat \<Rightarrow> string \<Rightarrow> string \<Rightarrow> 'w \<Rightarrow> 'w \<times> (call_error + replica_state)" where
  "client_Unseal oc ordinal bundle' intent w =
     (case call oc ordinal Wire_challenge w of (w, r) \<Rightarrow>
        (case r of
           Inl e \<Rightarrow> (w, Inl (Challenge_failed ordinal e))
         | Inr (Body_challenge ch) \<Rightarrow>
             (case oc_random oc w of (w, sender, rnd) \<Rightarrow>
                (case SealBundle (oc_crypto oc) (oc_dh oc) bundle' (oc_instance oc) ch sender rnd of
                   Inl e \<Rightarrow> (w, Inl (Not_sealed e))
                 | Inr sealed \<Rightarrow> call_state oc ordinal (Wire_unseal intent ContentTypeSealed sealed) w))
         | Inr _ \<Rightarrow> (w, Inl (Challenge_failed ordinal (Unintelligible ordinal)))))"

section \<open>A hold reason in a query\<close>

definition upper_hex :: "nat \<Rightarrow> char" where
  "upper_hex n = (if n < 10 then char_of (48 + n) else char_of (55 + n))"

definition unreserved :: "char \<Rightarrow> bool" where
  "unreserved ch \<longleftrightarrow>
     (let c = byte_val ch in
      97 \<le> c \<and> c \<le> 122 \<or> 65 \<le> c \<and> c \<le> 90 \<or> 48 \<le> c \<and> c \<le> 57 \<or> ch = CHR ''-'' \<or> ch = CHR ''_'' \<or> ch = CHR ''.'' \<or> ch = CHR ''~'')"

definition escape_char :: "char \<Rightarrow> string" where
  "escape_char ch = (if unreserved ch then [ch] else [CHR ''%'', upper_hex (byte_val ch div 16), upper_hex (byte_val ch mod 16)])"

definition urlQueryEscape :: "string \<Rightarrow> string" where
  "urlQueryEscape s = concat (map escape_char s)"

definition seal_query :: "bool \<Rightarrow> string \<Rightarrow> string" where
  "seal_query hold reason = ''hold='' @ (if hold then ''true'' else ''false'') @ ''&reason='' @ urlQueryEscape reason"

definition client_Seal :: "'w operator_client \<Rightarrow> nat \<Rightarrow> bool \<Rightarrow> string \<Rightarrow> 'w \<Rightarrow> 'w \<times> (call_error + replica_state)" where
  "client_Seal oc ordinal hold reason w = call_state oc ordinal (Wire_seal (seal_query hold reason)) w"

definition client_ReleaseHold :: "'w operator_client \<Rightarrow> nat \<Rightarrow> 'w \<Rightarrow> 'w \<times> (call_error + replica_state)" where
  "client_ReleaseHold oc ordinal w = call_state oc ordinal Wire_release w"

text \<open>
  \<open>r.URL.Query().Get\<close> of the Go library, which the server reads the query with: pairs
  are separated by ampersands, a pair with a semicolon or a broken escape is dropped, and
  the first pair with the name wins.
\<close>

fun query_unescape :: "string \<Rightarrow> string option" where
  "query_unescape [] = Some []"
| "query_unescape (c # s) =
     (if c = CHR ''%'' then
        (case s of
           a # b # s' \<Rightarrow>
             (case (hex_val a, hex_val b) of
                (Some h, Some l) \<Rightarrow> map_option (\<lambda>t. byte (h * 16 + l) # t) (query_unescape s')
              | _ \<Rightarrow> None)
         | _ \<Rightarrow> None)
      else map_option (\<lambda>t. (if c = CHR ''+'' then CHR '' '' else c) # t) (query_unescape s))"

definition query_pair :: "string \<Rightarrow> (string \<times> string) option" where
  "query_pair p =
     (if p = '''' \<or> CHR '';'' \<in> set p then None
      else
        let name = takeWhile (\<lambda>c. c \<noteq> CHR ''='') p; val = drop 1 (dropWhile (\<lambda>c. c \<noteq> CHR ''='') p) in
        (case (query_unescape name, query_unescape val) of (Some n, Some v) \<Rightarrow> Some (n, v) | _ \<Rightarrow> None))"

definition query_get :: "string \<Rightarrow> string \<Rightarrow> string" where
  "query_get q name = (case map_of (List.map_filter query_pair (split_on (CHR ''&'') q)) name of None \<Rightarrow> '''' | Some v \<Rightarrow> v)"

lemma hex_val_upper: "n < 16 \<Longrightarrow> hex_val (upper_hex n) = Some n"
  by (simp add: hex_val_def upper_hex_def byte_val_def Let_def)

lemma unescape_escape_char: "query_unescape (escape_char c @ t) = map_option (\<lambda>r. c # r) (query_unescape t)"
proof (cases "unreserved c")
  case True
  then have "c \<noteq> CHR ''%''" "c \<noteq> CHR ''+''" by (auto simp: unreserved_def byte_val_def Let_def)
  then show ?thesis using True by (simp add: escape_char_def)
next
  case False
  have "byte_val c div 16 < 16" using byte_val_less[of c] by simp
  then show ?thesis using False by (simp add: escape_char_def hex_val_upper mult.commute)
qed

lemma unescape_escape: "query_unescape (urlQueryEscape s) = Some s"
  by (induction s) (simp_all add: urlQueryEscape_def unescape_escape_char)

lemma upper_hex_unreserved: "n < 16 \<Longrightarrow> unreserved (upper_hex n)"
  by (auto simp: unreserved_def upper_hex_def byte_val_def Let_def)

lemma escape_char_set: "x \<in> set (escape_char c) \<Longrightarrow> unreserved x \<or> x = CHR ''%''"
  using upper_hex_unreserved[of "byte_val c div 16"] upper_hex_unreserved[of "byte_val c mod 16"] byte_val_less[of c]
  by (auto simp: escape_char_def split: if_splits)

lemma escape_set: "x \<in> set (urlQueryEscape s) \<Longrightarrow> unreserved x \<or> x = CHR ''%''"
  using escape_char_set by (auto simp: urlQueryEscape_def)

lemma delims_reserved: "c \<in> {CHR ''&'', CHR '';'', CHR ''=''} \<Longrightarrow> \<not> unreserved c \<and> c \<noteq> CHR ''%''"
  by (auto simp: unreserved_def byte_val_def Let_def)

lemma escape_delims: "c \<in> {CHR ''&'', CHR '';'', CHR ''=''} \<Longrightarrow> c \<notin> set (urlQueryEscape s)"
  using escape_set delims_reserved by blast

lemma query_pair_of:
  assumes "CHR ''='' \<notin> set name" "query_unescape name = Some name" "CHR '';'' \<notin> set (name @ val)" "query_unescape val = Some v"
  shows "query_pair (name @ ''='' @ val) = Some (name, v)"
proof -
  have "takeWhile (\<lambda>c. c \<noteq> CHR ''='') (name @ ''='' @ val) = name" "dropWhile (\<lambda>c. c \<noteq> CHR ''='') (name @ ''='' @ val) = ''='' @ val"
    using assms(1) by (auto simp: takeWhile_append dropWhile_append)
  then show ?thesis using assms by (simp add: query_pair_def Let_def)
qed

text \<open>A hold reason is one parameter, whatever it is, and changes no other.\<close>

lemma seal_query_reads_back:
  "query_get (seal_query hold reason) ''hold'' = (if hold then ''true'' else ''false'') \<and> query_get (seal_query hold reason) ''reason'' = reason"
proof -
  let ?h = "if hold then ''true'' else ''false''"
  have s: "split_on (CHR ''&'') (seal_query hold reason) = [''hold='' @ ?h, ''reason='' @ urlQueryEscape reason]"
    using split_on_append_sep[of "CHR ''&''" "''hold='' @ ?h" "''reason='' @ urlQueryEscape reason"]
      split_on_no_occ[of "CHR ''&''" "''reason='' @ urlQueryEscape reason"] escape_delims[of "CHR ''&''" reason]
    by (simp add: seal_query_def)
  have "query_pair (''hold'' @ ''='' @ ?h) = Some (''hold'', ?h)" by (intro query_pair_of) simp_all
  moreover have "query_pair (''reason'' @ ''='' @ urlQueryEscape reason) = Some (''reason'', reason)"
    using escape_delims[of "CHR '';''" reason] by (intro query_pair_of) (simp_all add: unescape_escape)
  ultimately show ?thesis by (simp add: query_get_def s map_filter_simps)
qed

section \<open>The ledger of pushes\<close>

record ledger_entry =
  le_Time :: gotime
  le_Instance :: string
  le_Ordinal :: nat
  le_Intent :: string
  le_Generation :: "64 word"
  le_Phase :: string
  le_Result :: string
  le_Device :: string
  le_Boot :: string

text \<open>
  \<open>AppendLedger\<close> over one file, \<open>None\<close> before it exists. What the file system does is a
  parameter: the directory or the file cannot be opened, a write is cut short, or the
  final sync fails after a whole write.
\<close>

datatype append_io = Io_ok | Io_no_dir | Io_no_open | Io_torn nat | Io_no_sync

datatype ledger_error = Ledger_dir | Ledger_encode | Ledger_open | Ledger_write | Ledger_sync | Ledger_read

definition AppendLedger :: "(ledger_entry \<Rightarrow> string option) \<Rightarrow> append_io \<Rightarrow> ledger_entry \<Rightarrow> string option \<Rightarrow> string option \<times> ledger_error option" where
  "AppendLedger json io e file =
     (if io = Io_no_dir then (file, Some Ledger_dir)
      else case json e of
        None \<Rightarrow> (file, Some Ledger_encode)
      | Some line \<Rightarrow>
          let data = line @ [CHR 0x0A]; old = (case file of None \<Rightarrow> '''' | Some f \<Rightarrow> f) in
          (case io of
             Io_no_dir \<Rightarrow> (file, Some Ledger_dir)
           | Io_no_open \<Rightarrow> (file, Some Ledger_open)
           | Io_torn k \<Rightarrow> (Some (old @ take k data), Some Ledger_write)
           | Io_no_sync \<Rightarrow> (Some (old @ data), Some Ledger_sync)
           | Io_ok \<Rightarrow> (Some (old @ data), None)))"

fun split_lines :: "string \<Rightarrow> string \<Rightarrow> string list" where
  "split_lines line [] = (if line = [] then [] else [line])"
| "split_lines line (c # data) = (if c = CHR 0x0A then line # split_lines [] data else split_lines (line @ [c]) data)"

definition splitLines :: "string \<Rightarrow> string list" where
  "splitLines data = split_lines [] data"

fun ledger_lines :: "(string \<Rightarrow> ledger_entry option) \<Rightarrow> string list \<Rightarrow> ledger_entry list" where
  "ledger_lines unjson [] = []"
| "ledger_lines unjson (line # ls) =
     (if line = [] then ledger_lines unjson ls
      else case unjson line of None \<Rightarrow> ledger_lines unjson ls | Some e \<Rightarrow> e # ledger_lines unjson ls)"

datatype file_read = File_absent | File_unreadable | File_data string

definition ReadLedger :: "(string \<Rightarrow> ledger_entry option) \<Rightarrow> file_read \<Rightarrow> ledger_error + ledger_entry list" where
  "ReadLedger unjson f =
     (case f of
        File_absent \<Rightarrow> Inr []
      | File_unreadable \<Rightarrow> Inl Ledger_read
      | File_data data \<Rightarrow> Inr (ledger_lines unjson (splitLines data)))"

definition file_of :: "string option \<Rightarrow> file_read" where
  "file_of f = (case f of None \<Rightarrow> File_absent | Some data \<Rightarrow> File_data data)"

lemma split_lines_line: "CHR 0x0A \<notin> set xs \<Longrightarrow> split_lines line (xs @ CHR 0x0A # data) = (line @ xs) # split_lines [] data"
  by (induction xs arbitrary: line) auto

lemma split_lines_end: "CHR 0x0A \<notin> set xs \<Longrightarrow> split_lines line xs = (if line @ xs = [] then [] else [line @ xs])"
  by (induction xs arbitrary: line) auto

lemma split_lines_append: "split_lines line (data @ CHR 0x0A # rest) = split_lines line (data @ [CHR 0x0A]) @ split_lines [] rest"
  by (induction data arbitrary: line) auto

lemma ledger_lines_append: "ledger_lines unjson (xs @ ys) = ledger_lines unjson xs @ ledger_lines unjson ys"
  by (induction xs) (auto split: option.splits)

text \<open>JSON as documented: an entry is one line and reads back as itself.\<close>

definition json_lines :: "(ledger_entry \<Rightarrow> string option) \<Rightarrow> (string \<Rightarrow> ledger_entry option) \<Rightarrow> bool" where
  "json_lines json unjson \<longleftrightarrow>
     (\<forall>e line. json e = Some line \<longrightarrow> line \<noteq> [] \<and> CHR 0x0A \<notin> set line \<and> unjson line = Some e)"

text \<open>A file of whole lines.\<close>

definition whole_lines :: "string option \<Rightarrow> bool" where
  "whole_lines f \<longleftrightarrow> (case f of None \<Rightarrow> True | Some data \<Rightarrow> data = [] \<or> (\<exists>d. data = d @ [CHR 0x0A]))"

definition ledger_of :: "(string \<Rightarrow> ledger_entry option) \<Rightarrow> string option \<Rightarrow> ledger_entry list" where
  "ledger_of unjson f = (case f of None \<Rightarrow> [] | Some data \<Rightarrow> ledger_lines unjson (splitLines data))"

lemma ReadLedger_file: "ReadLedger unjson (file_of f) = Inr (ledger_of unjson f)"
  by (simp add: ReadLedger_def file_of_def ledger_of_def split: option.split)

lemma AppendLedger_recorded:
  assumes "json_lines json unjson" "whole_lines f" "AppendLedger json io e f = (f', None)"
  shows "whole_lines f' \<and> ledger_of unjson f' = ledger_of unjson f @ [e]"
proof -
  obtain line where l: "json e = Some line" "f' = Some ((case f of None \<Rightarrow> '''' | Some d \<Rightarrow> d) @ line @ [CHR 0x0A])"
    using assms(3) by (auto simp: AppendLedger_def Let_def split: if_splits option.splits append_io.splits)
  have j: "line \<noteq> []" "CHR 0x0A \<notin> set line" "unjson line = Some e" using assms(1) l(1) by (auto simp: json_lines_def)
  have new: "split_lines [] (line @ [CHR 0x0A]) = [line]" using split_lines_line[OF j(2), of "[]" "[]"] by simp
  have "ledger_of unjson f' = ledger_of unjson f @ [e]"
  proof (cases "f = None \<or> f = Some []")
    case True
    then show ?thesis using l j new by (auto simp: ledger_of_def splitLines_def)
  next
    case False
    then obtain d where d: "f = Some (d @ [CHR 0x0A])" using assms(2) by (auto simp: whole_lines_def split: option.splits)
    have "splitLines (d @ CHR 0x0A # line @ [CHR 0x0A]) = splitLines (d @ [CHR 0x0A]) @ [line]"
      unfolding splitLines_def using split_lines_append[of "[]" d "line @ [CHR 0x0A]"] new by simp
    then show ?thesis using d l j by (simp add: ledger_of_def ledger_lines_append)
  qed
  moreover have "whole_lines f'" using l(2) by (simp add: whole_lines_def)
  ultimately show ?thesis by blast
qed

text \<open>
  C40. A torn record swallows the next one. A push whose record was cut short in the middle
  of a line leaves that line open: the next push is recorded at its end without any error,
  and neither of the two is ever read again, unless the concatenation of the two happens to
  decode.
\<close>

theorem torn_record_swallows_the_next:
  assumes "json_lines json unjson" "whole_lines f" "json torn = Some line" "0 < k" "k \<le> length line"
    and "AppendLedger json (Io_torn k) torn f = (f1, Some Ledger_write)" "AppendLedger json Io_ok e f1 = (f2, None)"
    and "\<And>l. json e = Some l \<Longrightarrow> unjson (take k line @ l) = None"
  shows "ReadLedger unjson (file_of f2) = ReadLedger unjson (file_of f)"
proof -
  let ?d = "case f of None \<Rightarrow> '''' | Some d \<Rightarrow> d"
  obtain l where l: "json e = Some l" using assms(7) by (cases "json e") (simp_all add: AppendLedger_def)
  have f1: "f1 = Some (?d @ take k line)" using assms(3,5,6) by (simp add: AppendLedger_def)
  have f2: "f2 = Some (?d @ (take k line @ l) @ [CHR 0x0A])" using assms(7) l f1 by (simp add: AppendLedger_def)
  have n: "CHR 0x0A \<notin> set (take k line @ l)"
    using assms(1,3) l by (auto simp: json_lines_def dest: in_set_takeD)
  have new: "split_lines [] ((take k line @ l) @ [CHR 0x0A]) = [take k line @ l]" using split_lines_line[OF n, of "[]" "[]"] by simp
  have "ledger_of unjson f2 = ledger_of unjson f"
  proof (cases "f = None \<or> f = Some []")
    case True
    then show ?thesis using f2 new assms(8)[OF l] by (auto simp: ledger_of_def splitLines_def)
  next
    case False
    then obtain d where d: "f = Some (d @ [CHR 0x0A])" using assms(2) by (auto simp: whole_lines_def split: option.splits)
    have "splitLines (d @ CHR 0x0A # (take k line @ l) @ [CHR 0x0A]) = splitLines (d @ [CHR 0x0A]) @ [take k line @ l]"
      unfolding splitLines_def using split_lines_append[of "[]" d "(take k line @ l) @ [CHR 0x0A]"] new by simp
    then show ?thesis using d f2 assms(8)[OF l] by (simp add: ledger_of_def ledger_lines_append)
  qed
  then show ?thesis by (simp add: ReadLedger_file)
qed

definition sample_entry :: ledger_entry where
  "sample_entry = \<lparr>le_Time = 7, le_Instance = ''i'', le_Ordinal = 1, le_Intent = ''restart-reseed'', le_Generation = 3,
     le_Phase = ''unsealed'', le_Result = ''ok'', le_Device = ''pi'', le_Boot = ''b''\<rparr>"

definition sample_json :: "ledger_entry \<Rightarrow> string option" where
  "sample_json e = (if e = sample_entry then Some ''{}'' else None)"

definition sample_unjson :: "string \<Rightarrow> ledger_entry option" where
  "sample_unjson line = (if line = ''{}'' then Some sample_entry else None)"

lemma sample_json_lines: "json_lines sample_json sample_unjson"
  by (auto simp: json_lines_def sample_json_def sample_unjson_def)

lemma torn_record_swallows_the_next_witness:
  "ReadLedger sample_unjson (file_of (fst (AppendLedger sample_json Io_ok sample_entry
      (fst (AppendLedger sample_json (Io_torn 1) sample_entry None))))) = ReadLedger sample_unjson (file_of None)"
proof (rule torn_record_swallows_the_next[where line = "''{}''"])
  show "AppendLedger sample_json (Io_torn 1) sample_entry None
      = (fst (AppendLedger sample_json (Io_torn 1) sample_entry None), Some Ledger_write)"
    by (simp add: AppendLedger_def sample_json_def)
qed (auto simp: sample_json_lines whole_lines_def sample_json_def sample_unjson_def AppendLedger_def)

end
