(* ===== verification/Handover.thy ===== *)
theory Handover
  imports Fleet_Client
begin

text \<open>
  The hand-over of a keyring to the keyholder fleet
  (\<open>farsight/cli/internal/cli/storagekeyholder.go\<close>): the plan made from what every replica
  says it holds, the push of one keyring replica by replica, and the two-push protocol of
  \<open>handOverKeys\<close> that 'storage unseal', 'key rotate' and 'run' share. The replicas are a
  record of the two calls of the interface \<open>sealStateClient\<close> over any world; the contract
  they honour is the locale \<open>replica_fleet\<close> of its own theory. Error messages are values of a datatype, and
  so are the words of a reason, which is its cause.
\<close>

section \<open>Reported keys\<close>

definition key_report :: "'k scope list \<Rightarrow> (string \<times> string list) list" where
  "key_report ss = fold (\<lambda>s. AList.update (sc_Name s) (map (\<lambda>e. hex_encode (ke_ID e)) (kr_keys (sc_keys s)))) ss []"

definition heldKeys :: "string keyring \<Rightarrow> (string \<times> string list) list" where
  "heldKeys k = key_report (kr_scopes k)"

definition scopeKeysMatch :: "string list \<Rightarrow> string list \<Rightarrow> bool" where
  "scopeKeysMatch got want =
     (if got = [] \<or> length got \<noteq> length want \<or> hd got \<noteq> hd want then False
      else list_all (\<lambda>i. i \<in> set got) want \<and> length (remdups got) = length want)"

definition map_size :: "(string \<times> 'a) list \<Rightarrow> nat" where
  "map_size m = length (remdups (map fst m))"

definition sameKeys :: "(string \<times> string list) list \<Rightarrow> (string \<times> string list) list \<Rightarrow> bool" where
  "sameKeys got want \<longleftrightarrow> map_size got = map_size want
     \<and> list_all (\<lambda>name. case (map_of got name, map_of want name) of (Some a, Some b) \<Rightarrow> scopeKeysMatch a b | _ \<Rightarrow> False) (map fst got)"

definition outdatedImage :: "replica_state \<Rightarrow> bool" where
  "outdatedImage st \<longleftrightarrow> \<not> Sealed st \<and> rst_Scopes st \<noteq> [] \<and> rst_Keys st = None"

section \<open>The plan\<close>

datatype behind_what = Lacks_scope string | Lacks_key string string | Older_active string string

datatype hand_over_fault =
    Outdated_replica nat
  | Behind nat behind_what
  | Minted_twice nat string
  | No_common_key string
  | Not_activated keyring_fault
  | Not_bundled bundle_fault
  | Index_panic

record hand_over_plan =
  pl_held :: "string keyring option"
  pl_scopes :: "string list"

text \<open>The local \<open>ours\<close>: a map from names to maps from hexadecimal identifiers, so the last of equal ones counts.\<close>

definition ours :: "string keyring \<Rightarrow> string \<Rightarrow> string key_entry list option" where
  "ours keys name = map_option (\<lambda>s. kr_keys (sc_keys s)) (find (\<lambda>s. sc_Name s = name) (rev (kr_scopes keys)))"

definition entry_with :: "string key_entry list \<Rightarrow> string \<Rightarrow> string key_entry option" where
  "entry_with es i = find (\<lambda>e. hex_encode (ke_ID e) = i) (rev es)"

definition scope_behind :: "string keyring \<Rightarrow> nat \<Rightarrow> string \<Rightarrow> string list \<Rightarrow> hand_over_fault option" where
  "scope_behind keys i name theirs =
     (case ours keys name of
        None \<Rightarrow> Some (Behind i (Lacks_scope name))
      | Some mine \<Rightarrow>
          if theirs \<noteq> [] \<and> \<not> list_ex (\<lambda>k. entry_with mine k \<noteq> None) theirs then Some (Minted_twice i name)
          else
            (case find (\<lambda>k. entry_with mine k = None) theirs of
               Some k \<Rightarrow> Some (Behind i (Lacks_key name k))
             | None \<Rightarrow>
                 (case theirs of
                    [] \<Rightarrow> None
                  | k # _ \<Rightarrow>
                      (case map_option (\<lambda>s. kr_keys (sc_keys s)) (ScopeNamed keys name) of
                         Some (active # _) \<Rightarrow>
                           (case entry_with mine k of
                              Some used \<Rightarrow>
                                if ke_ID used \<noteq> ke_ID active \<and> ke_Created active < ke_Created used
                                then Some (Behind i (Older_active name k)) else None
                            | None \<Rightarrow> None)
                       | _ \<Rightarrow> Some Index_panic))))"

definition sorted_names :: "(string \<times> 'a) list \<Rightarrow> string list" where
  "sorted_names m = sort (remdups (map fst m))"

definition replica_behind :: "string keyring \<Rightarrow> nat \<Rightarrow> replica_state option \<Rightarrow> hand_over_fault option" where
  "replica_behind keys i answer =
     (case answer of
        None \<Rightarrow> None
      | Some st \<Rightarrow>
          if Sealed st then None
          else if outdatedImage st then Some (Outdated_replica i)
          else
            (case List.map_filter (\<lambda>name. scope_behind keys i name (case map_of (reported_keys st) name of None \<Rightarrow> [] | Some t \<Rightarrow> t))
                    (sorted_names (reported_keys st)) of
               [] \<Rightarrow> None
             | f # _ \<Rightarrow> Some f))"

fun fleet_behind :: "string keyring \<Rightarrow> nat \<Rightarrow> replica_state option list \<Rightarrow> hand_over_fault option" where
  "fleet_behind keys i [] = None"
| "fleet_behind keys i (st # sts) = (case replica_behind keys i st of Some f \<Rightarrow> Some f | None \<Rightarrow> fleet_behind keys (Suc i) sts)"

definition holders :: "replica_state option list \<Rightarrow> string \<Rightarrow> string list list" where
  "holders states name =
     List.map_filter (\<lambda>answer. case answer of None \<Rightarrow> None | Some st \<Rightarrow> if Sealed st then None else map_of (reported_keys st) name) states"

definition heldByAll :: "string list list \<Rightarrow> string \<Rightarrow> bool" where
  "heldByAll hs i \<longleftrightarrow> list_all (\<lambda>ids. hex_encode i \<in> set ids) hs"

definition inUse :: "string list list \<Rightarrow> string \<Rightarrow> bool" where
  "inUse hs i \<longleftrightarrow> list_ex (\<lambda>ids. ids \<noteq> [] \<and> hd ids = hex_encode i) hs"

definition choose_key :: "string list list \<Rightarrow> string option \<Rightarrow> string key_entry list \<Rightarrow> string key_entry option" where
  "choose_key hs previous keks =
     (case fold (\<lambda>e chosen.
            let used = inUse hs (ke_ID e) \<or> previous = Some (ke_ID e) in
            if heldByAll hs (ke_ID e) \<and> used \<and> (case chosen of None \<Rightarrow> True | Some c \<Rightarrow> ke_Created c < ke_Created e)
            then Some e else chosen) keks None of
        Some e \<Rightarrow> Some e
      | None \<Rightarrow> if hs = [] \<and> previous \<noteq> None then find (\<lambda>e. previous = Some (ke_ID e)) (rev keks) else None)"

fun plan_scopes ::
  "replica_state option list \<Rightarrow> (string \<times> string) list \<Rightarrow> string scope list \<Rightarrow> (string \<times> string) list \<times> string list
   \<Rightarrow> hand_over_fault + (string \<times> string) list \<times> string list" where
  "plan_scopes states rotated [] acc = Inr acc"
| "plan_scopes states rotated (s # ss) (hold, scopes) =
     (let hs = holders states (sc_Name s); keks = kr_keys (sc_keys s); previous = map_of rotated (sc_Name s) in
      if previous = None \<and> keks = [] then Inl Index_panic
      else if previous = None \<and> heldByAll hs (ke_ID (hd keks)) then plan_scopes states rotated ss (hold, scopes)
      else
        (case choose_key hs previous keks of
           None \<Rightarrow> Inl (No_common_key (sc_Name s))
         | Some e \<Rightarrow> plan_scopes states rotated ss (AList.update (sc_Name s) (ke_ID e) hold, scopes @ [sc_Name s])))"

definition planHandOver :: "string keyring \<Rightarrow> replica_state option list \<Rightarrow> (string \<times> string) list \<Rightarrow> hand_over_fault + hand_over_plan" where
  "planHandOver keys states rotated =
     (case fleet_behind keys 0 states of
        Some f \<Rightarrow> Inl f
      | None \<Rightarrow>
          (case plan_scopes states rotated (kr_scopes keys) ([], []) of
             Inl f \<Rightarrow> Inl f
           | Inr (hold, scopes) \<Rightarrow>
               if hold = [] then Inr \<lparr>pl_held = None, pl_scopes = []\<rparr>
               else
                 (case WithScopeActive keys hold of
                    Inl f \<Rightarrow> Inl (Not_activated f)
                  | Inr held \<Rightarrow> Inr \<lparr>pl_held = Some held, pl_scopes = scopes\<rparr>)))"

section \<open>One push\<close>

record 'w replicas =
  rc_State :: "nat \<Rightarrow> 'w \<Rightarrow> 'w \<times> (call_error + replica_state)"
  rc_Unseal :: "nat \<Rightarrow> string \<Rightarrow> string \<Rightarrow> 'w \<Rightarrow> 'w \<times> (call_error + replica_state)"

text \<open>
  \<open>handOverOptions\<close>, and what the hand-over reads around it: the YAML encoder, the clock,
  the instance's name, its recorded generation and replica count, and the two saves.
\<close>

record 'w options =
  op_unseal :: bool
  op_rotated :: "(string \<times> string) list"
  op_beforeHold :: "string keyring \<Rightarrow> 'w \<Rightarrow> 'w \<times> string option"
  op_beforeActivate :: "'w \<Rightarrow> 'w \<times> string option"
  op_unchecked :: bool
  op_save :: "64 word \<Rightarrow> 'w \<Rightarrow> 'w \<times> string option"
  op_yaml :: "bundle_file \<Rightarrow> string option"
  op_now :: gotime
  op_name :: string
  op_generation :: "64 word"
  op_replicas :: int

definition replicaCount :: "int \<Rightarrow> nat" where
  "replicaCount n = (if 0 < n then nat n else 2)"

datatype row_fault =
    Not_read "call_error option"
  | Left_sealed string
  | Push_failed call_error
  | Too_old "64 word"
  | Keys_not_reported "64 word"

record replica_row =
  rw_Ordinal :: nat
  rw_Phase :: string
  rw_Generation :: "64 word"
  rw_Scopes :: "string list"
  rw_Error :: "row_fault option"
  rw_Note :: "row_fault option"

definition row_error :: "nat \<Rightarrow> row_fault \<Rightarrow> replica_row" where
  "row_error i e = \<lparr>rw_Ordinal = i, rw_Phase = '''', rw_Generation = 0, rw_Scopes = [], rw_Error = Some e, rw_Note = None\<rparr>"

definition row_phase :: "nat \<Rightarrow> string \<Rightarrow> replica_row" where
  "row_phase i phase = \<lparr>rw_Ordinal = i, rw_Phase = phase, rw_Generation = 0, rw_Scopes = [], rw_Error = None, rw_Note = None\<rparr>"

definition row_loaded :: "nat \<Rightarrow> replica_state \<Rightarrow> replica_row" where
  "row_loaded i st = \<lparr>rw_Ordinal = i, rw_Phase = rst_Phase st, rw_Generation = rst_Generation st, rw_Scopes = rst_Scopes st,
     rw_Error = None, rw_Note = None\<rparr>"

record hand_over_step =
  sp_Generation :: "64 word"
  sp_Loaded :: "nat list"
  sp_Waiting :: "nat list"
  sp_Unreached :: "nat list"
  sp_Refused :: "nat list"
  sp_Rows :: "replica_row list"

definition empty_step :: "64 word \<Rightarrow> hand_over_step" where
  "empty_step g = \<lparr>sp_Generation = g, sp_Loaded = [], sp_Waiting = [], sp_Unreached = [], sp_Refused = [], sp_Rows = []\<rparr>"

definition everyServingReplicaHolds :: "hand_over_step \<Rightarrow> bool" where
  "everyServingReplicaHolds s \<longleftrightarrow> sp_Unreached s = [] \<and> sp_Refused s = []"

record 'w hand_over =
  ho_world :: 'w
  ho_highest :: "64 word"
  ho_taken :: "64 word"
  ho_unanswered :: "(nat \<times> call_error) list"
  ho_leaveSealed :: bool
  ho_leftSealed :: "nat list"
  ho_ledger :: "ledger_entry list"

definition read_one :: "'w replicas \<Rightarrow> nat \<Rightarrow> 'w hand_over \<Rightarrow> 'w hand_over \<times> replica_state option" where
  "read_one rc i h =
     (case rc_State rc i (ho_world h) of
        (w, Inl e) \<Rightarrow> (h\<lparr>ho_world := w, ho_unanswered := ho_unanswered h @ [(i, e)]\<rparr>, None)
      | (w, Inr st) \<Rightarrow> (h\<lparr>ho_world := w, ho_highest := max (ho_highest h) (rst_Generation st)\<rparr>, Some st))"

fun read_from :: "'w replicas \<Rightarrow> nat list \<Rightarrow> 'w hand_over \<Rightarrow> 'w hand_over \<times> replica_state option list" where
  "read_from rc [] h = (h, [])"
| "read_from rc (i # is) h =
     (case read_one rc i h of (h, st) \<Rightarrow> case read_from rc is h of (h, sts) \<Rightarrow> (h, st # sts))"

definition read_fleet :: "'w replicas \<Rightarrow> nat \<Rightarrow> 'w hand_over \<Rightarrow> 'w hand_over \<times> replica_state option list" where
  "read_fleet rc n h = read_from rc [0..<n] (h\<lparr>ho_unanswered := []\<rparr>)"

definition HandOver_intent :: "'w options \<Rightarrow> string" where
  "HandOver_intent opts = (if op_unseal opts then ''operator-unseal'' else ''hand-over'')"

text \<open>What became of one push: the row, the list the replica joins and the ledger's result and phase.\<close>

datatype pushed_as = Pushed_waiting | Pushed_refused row_fault string string | Pushed_loaded

definition push_outcome :: "bool \<Rightarrow> (string \<times> string list) list \<Rightarrow> 64 word \<Rightarrow> call_error + replica_state \<Rightarrow> pushed_as" where
  "push_outcome unseal want generation answer =
     (case answer of
        Inl e \<Rightarrow>
          if \<not> unseal \<and> NotServing (Some e) then Pushed_waiting
          else Pushed_refused (Push_failed e) ''refused'' ''''
      | Inr pushed \<Rightarrow>
          if outdatedImage pushed then Pushed_refused (Too_old generation) ''unverified'' (rst_Phase pushed)
          else if \<not> sameKeys (reported_keys pushed) want
          then Pushed_refused (Keys_not_reported (rst_Generation pushed)) ''not-installed'' (rst_Phase pushed)
          else Pushed_loaded)"

definition push_entry :: "'w options \<Rightarrow> nat \<Rightarrow> 64 word \<Rightarrow> replica_state \<Rightarrow> replica_state \<Rightarrow> pushed_as \<Rightarrow> ledger_entry" where
  "push_entry opts i generation st pushed outcome =
     \<lparr>le_Time = op_now opts, le_Instance = op_name opts, le_Ordinal = i, le_Intent = HandOver_intent opts, le_Generation = generation,
      le_Phase = (case outcome of Pushed_waiting \<Rightarrow> '''' | Pushed_refused _ _ phase \<Rightarrow> phase | Pushed_loaded \<Rightarrow> rst_Phase pushed),
      le_Result = (case outcome of Pushed_waiting \<Rightarrow> ''refused'' | Pushed_refused _ result _ \<Rightarrow> result | Pushed_loaded \<Rightarrow> ''ok''),
      le_Device = '''',
      le_Boot = (if rst_Boot pushed \<noteq> '''' then rst_Boot pushed else rst_Boot st)\<rparr>"

definition push_one ::
  "'w replicas \<Rightarrow> 'w options \<Rightarrow> string \<Rightarrow> (string \<times> string list) list \<Rightarrow> nat \<times> replica_state option
   \<Rightarrow> 'w hand_over \<times> hand_over_step \<Rightarrow> 'w hand_over \<times> hand_over_step" where
  "push_one rc opts payload want = (\<lambda>(i, answer) (h, step).
     (case answer of
        None \<Rightarrow>
          (h, step\<lparr>sp_Unreached := sp_Unreached step @ [i],
                   sp_Rows := sp_Rows step @ [row_error i (Not_read (map_of (ho_unanswered h) i))]\<rparr>)
      | Some st \<Rightarrow>
          if Sealed st \<and> (\<not> op_unseal opts \<or> ho_leaveSealed h) then
            (if ho_leaveSealed h
             then (h\<lparr>ho_leftSealed := (if i \<in> set (ho_leftSealed h) then ho_leftSealed h else ho_leftSealed h @ [i])\<rparr>,
                   step\<lparr>sp_Waiting := sp_Waiting step @ [i], sp_Rows := sp_Rows step @ [row_error i (Left_sealed (rst_Phase st))]\<rparr>)
             else (h, step\<lparr>sp_Waiting := sp_Waiting step @ [i], sp_Rows := sp_Rows step @ [row_phase i (rst_Phase st)]\<rparr>))
          else
            (case rc_Unseal rc i payload (HandOver_intent opts) (ho_world h) of (w, r) \<Rightarrow>
              let pushed = (case r of Inl _ \<Rightarrow> no_state | Inr st \<Rightarrow> st);
                  outcome = push_outcome (op_unseal opts) want (sp_Generation step) r;
                  h = h\<lparr>ho_world := w, ho_ledger := ho_ledger h @ [push_entry opts i (sp_Generation step) st pushed outcome]\<rparr> in
              (case outcome of
                 Pushed_waiting \<Rightarrow> (h, step\<lparr>sp_Waiting := sp_Waiting step @ [i], sp_Rows := sp_Rows step @ [row_phase i ''sealed'']\<rparr>)
               | Pushed_refused e _ _ \<Rightarrow>
                   (h, step\<lparr>sp_Refused := sp_Refused step @ [i], sp_Rows := sp_Rows step @ [row_error i e]\<rparr>)
               | Pushed_loaded \<Rightarrow>
                   (h\<lparr>ho_taken := max (ho_taken h) (sp_Generation step)\<rparr>,
                    step\<lparr>sp_Loaded := sp_Loaded step @ [i], sp_Rows := sp_Rows step @ [row_loaded i pushed]\<rparr>)))))"

definition push ::
  "'w replicas \<Rightarrow> 'w options \<Rightarrow> string keyring \<Rightarrow> replica_state option list \<Rightarrow> 'w hand_over \<Rightarrow> 'w hand_over \<times> (hand_over_fault + hand_over_step)" where
  "push rc opts keys states h =
     (let h = h\<lparr>ho_highest := ho_highest h + 1\<rparr> in
      case NewBundle (\<lambda>m. m) (op_name opts) (ho_highest h) (kr_scopes keys) of
        Inl f \<Rightarrow> (h, Inl (Not_bundled f))
      | Inr b \<Rightarrow>
          (case MarshalBundle (op_yaml opts) b of
             Inl f \<Rightarrow> (h, Inl (Not_bundled f))
           | Inr payload \<Rightarrow>
               (case fold (push_one rc opts payload (heldKeys keys)) (enumerate 0 states) (h, empty_step (ho_highest h)) of
                  (h, step) \<Rightarrow> (h, Inr step))))"

section \<open>The protocol\<close>

datatype cause = Held_missed | Held_none_serving | Held_changed | Held_unrecorded

datatype problem = Not_reached | Not_saved string | Faulted hand_over_fault

record hand_over_result =
  hr_Problem :: "problem option"
  hr_Unsafe :: bool
  hr_Total :: nat
  hr_step :: hand_over_step
  hr_Held :: "hand_over_step option"
  hr_Activated :: bool
  hr_Cause :: "cause option"
  hr_HeldOnly :: "nat list"
  hr_RecordErr :: "string option"
  hr_ForeignCopy :: bool
  hr_Unconfirmed :: "nat list"
  hr_LeftSealed :: "nat list"

definition empty_result :: "nat \<Rightarrow> hand_over_result" where
  "empty_result n =
     \<lparr>hr_Problem = None, hr_Unsafe = False, hr_Total = n, hr_step = empty_step 0, hr_Held = None, hr_Activated = False,
      hr_Cause = None, hr_HeldOnly = [], hr_RecordErr = None, hr_ForeignCopy = False, hr_Unconfirmed = [], hr_LeftSealed = []\<rparr>"

definition Complete :: "hand_over_result \<Rightarrow> bool" where
  "Complete r \<longleftrightarrow> hr_Problem r = None \<and> hr_Activated r \<and> length (sp_Loaded (hr_step r)) = hr_Total r"

definition is_foreign :: "hand_over_fault \<Rightarrow> bool" where
  "is_foreign f \<longleftrightarrow> (case f of Minted_twice _ _ \<Rightarrow> True | _ \<Rightarrow> False)"

text \<open>The replicas that took nothing at the first push and are silent at the second read.\<close>

definition silent_new :: "hand_over_step \<Rightarrow> replica_state option list \<Rightarrow> bool" where
  "silent_new held states \<longleftrightarrow> list_ex (\<lambda>(i, st). st = None \<and> i \<notin> set (sp_Loaded held)) (enumerate 0 states)"

text \<open>Why the held keys may not be used yet, from the second read; \<open>None\<close> to go on.\<close>

definition hold_back :: "string keyring \<Rightarrow> hand_over_step \<Rightarrow> replica_state option list \<Rightarrow> cause option" where
  "hold_back keys held states =
     (if \<not> list_ex (\<lambda>st. st \<noteq> None) states then Some Held_missed
      else if \<not> list_ex (\<lambda>st. case st of None \<Rightarrow> False | Some st \<Rightarrow> \<not> Sealed st) states then Some Held_none_serving
      else if silent_new held states then Some Held_missed
      else case planHandOver keys states [] of
        Inl _ \<Rightarrow> Some Held_changed
      | Inr again \<Rightarrow> if pl_held again \<noteq> None then Some Held_changed else None)"

definition confirm_one ::
  "'w replicas \<Rightarrow> (string \<times> string list) list \<Rightarrow> nat \<Rightarrow> 'w hand_over \<times> hand_over_result \<Rightarrow> 'w hand_over \<times> hand_over_result" where
  "confirm_one rc want i = (\<lambda>(h, res).
     (case rc_State rc i (ho_world h) of
        (w, Inl _) \<Rightarrow> (h\<lparr>ho_world := w\<rparr>, res\<lparr>hr_Unconfirmed := hr_Unconfirmed res @ [i]\<rparr>)
      | (w, Inr st) \<Rightarrow>
          if \<not> Sealed st \<and> sameKeys (reported_keys st) want then
            (let step = hr_step res in
             (h\<lparr>ho_world := w, ho_taken := max (ho_taken h) (rst_Generation st)\<rparr>,
              res\<lparr>hr_step := step\<lparr>sp_Refused := filter (\<lambda>r. r \<noteq> i) (sp_Refused step), sp_Loaded := sort (sp_Loaded step @ [i]),
                  sp_Rows := map (\<lambda>row. if rw_Ordinal row = i then row_loaded i st else row) (sp_Rows step)\<rparr>\<rparr>))
          else (h\<lparr>ho_world := w\<rparr>, res)))"

definition confirmRefused ::
  "'w replicas \<Rightarrow> string keyring \<Rightarrow> 'w hand_over \<times> hand_over_result \<Rightarrow> 'w hand_over \<times> hand_over_result" where
  "confirmRefused rc keys = (\<lambda>(h, res). fold (confirm_one rc (heldKeys keys)) (sp_Refused (hr_step res)) (h, res))"

text \<open>The rows of replicas that took the held keys and missed the second push.\<close>

definition held_only :: "hand_over_step \<Rightarrow> replica_state option list \<Rightarrow> replica_row \<Rightarrow> bool" where
  "held_only held states row \<longleftrightarrow>
     rw_Error row \<noteq> None
     \<and> (case states ! rw_Ordinal row of None \<Rightarrow> False | Some st \<Rightarrow> \<not> Sealed st \<and> rw_Ordinal row \<in> set (sp_Loaded held))"

definition note_held_only :: "replica_state option list \<Rightarrow> hand_over_result \<Rightarrow> hand_over_result" where
  "note_held_only states res =
     (case hr_Held res of
        None \<Rightarrow> res
      | Some held \<Rightarrow>
          let step = hr_step res; rows = sp_Rows step in
          res\<lparr>hr_HeldOnly := map rw_Ordinal (filter (held_only held states) rows),
              hr_step := step\<lparr>sp_Rows := map (\<lambda>row. if held_only held states row
                then (row_phase (rw_Ordinal row) ''unsealed'')\<lparr>rw_Note := rw_Error row\<rparr> else row) rows\<rparr>\<rparr>)"

text \<open>The deferred \<open>h.record(&res)\<close> and \<open>res.LeftSealed = h.leftSealed\<close>.\<close>

definition record_taken :: "'w options \<Rightarrow> 'w hand_over \<times> hand_over_result \<Rightarrow> 'w hand_over \<times> hand_over_result" where
  "record_taken opts = (\<lambda>(h, res).
     let res = res\<lparr>hr_LeftSealed := ho_leftSealed h\<rparr> in
     if ho_taken h \<le> op_generation opts then (h, res)
     else (case op_save opts (ho_taken h) (ho_world h) of (w, e) \<Rightarrow> (h\<lparr>ho_world := w\<rparr>, res\<lparr>hr_RecordErr := e\<rparr>)))"

definition start_hand_over :: "'w options \<Rightarrow> 'w \<Rightarrow> 'w hand_over" where
  "start_hand_over opts w =
     \<lparr>ho_world = w, ho_highest = op_generation opts, ho_taken = 0, ho_unanswered = [], ho_leaveSealed = False,
      ho_leftSealed = [], ho_ledger = []\<rparr>"

text \<open>The push of the keyring itself, from the answers of the last read; \<open>res\<close> tells whether keys were held before.\<close>

definition push_keyring ::
  "'w replicas \<Rightarrow> 'w options \<Rightarrow> string keyring \<Rightarrow> replica_state option list \<Rightarrow> 'w hand_over \<times> hand_over_result \<Rightarrow> 'w hand_over \<times> hand_over_result" where
  "push_keyring rc opts keys states = (\<lambda>(h, res).
     (case op_beforeActivate opts (ho_world h) of
        (w, Some e) \<Rightarrow> (h\<lparr>ho_world := w\<rparr>, res\<lparr>hr_Cause := Some Held_unrecorded\<rparr>)
      | (w, None) \<Rightarrow>
          (case push rc opts keys states (h\<lparr>ho_world := w\<rparr>) of
             (h, Inl f) \<Rightarrow> (h, if hr_Held res = None then res\<lparr>hr_Problem := Some (Faulted f)\<rparr> else res\<lparr>hr_Cause := Some Held_unrecorded\<rparr>)
           | (h, Inr step) \<Rightarrow>
               (case confirmRefused rc keys (h, res\<lparr>hr_step := step, hr_Activated := True\<rparr>) of
                  (h, res) \<Rightarrow> (h, note_held_only states res)))))"

definition push_held ::
  "'w replicas \<Rightarrow> 'w options \<Rightarrow> string keyring \<Rightarrow> string keyring \<Rightarrow> replica_state option list
   \<Rightarrow> 'w hand_over \<times> hand_over_result \<Rightarrow> 'w hand_over \<times> hand_over_result" where
  "push_held rc opts keys held states = (\<lambda>(h, res).
     (case op_beforeHold opts held (ho_world h) of
        (w, Some e) \<Rightarrow> (h\<lparr>ho_world := w\<rparr>, res\<lparr>hr_Problem := Some (Not_saved e)\<rparr>)
      | (w, None) \<Rightarrow>
          (case push rc opts held states (h\<lparr>ho_world := w\<rparr>) of
             (h, Inl f) \<Rightarrow> (h, res\<lparr>hr_Problem := Some (Faulted f)\<rparr>)
           | (h, Inr step) \<Rightarrow>
               let res = res\<lparr>hr_step := step, hr_Held := Some step\<rparr> in
               if \<not> everyServingReplicaHolds step then (h, res\<lparr>hr_Cause := Some Held_missed\<rparr>)
               else if sp_Loaded step = [] then (h, res\<lparr>hr_Cause := Some Held_none_serving\<rparr>)
               else
                 (case read_fleet rc (hr_Total res) h of (h, again) \<Rightarrow>
                    (case hold_back keys step again of
                       Some c \<Rightarrow> (h, res\<lparr>hr_Cause := Some c\<rparr>)
                     | None \<Rightarrow> push_keyring rc opts keys again (h, res))))))"

text \<open>\<open>handOverKeys\<close>; \<open>reached\<close> is whether the keyholder could be opened at all.\<close>

definition handOverKeys :: "'w replicas \<Rightarrow> 'w options \<Rightarrow> bool \<Rightarrow> string keyring \<Rightarrow> 'w \<Rightarrow> 'w hand_over \<times> hand_over_result" where
  "handOverKeys rc opts reached keys w =
     (let res = empty_result (replicaCount (op_replicas opts)); h = start_hand_over opts w in
      if \<not> reached then (h, res\<lparr>hr_Problem := Some Not_reached\<rparr>)
      else record_taken opts
        (case read_fleet rc (hr_Total res) h of (h, states) \<Rightarrow>
           (case planHandOver keys states (op_rotated opts) of
              Inl f \<Rightarrow> (h, res\<lparr>hr_Problem := Some (Faulted f), hr_Unsafe := True, hr_ForeignCopy := is_foreign f\<rparr>)
            | Inr plan \<Rightarrow>
                let h = h\<lparr>ho_leaveSealed := op_unseal opts \<and> ho_unanswered h \<noteq> [] \<and> \<not> op_unchecked opts\<rparr> in
                (case pl_held plan of
                   None \<Rightarrow> push_keyring rc opts keys states (h, res)
                 | Some held \<Rightarrow> push_held rc opts keys held states (h, res)))))"

section \<open>Reports and keyrings\<close>

abbreviation keks :: "'k scope \<Rightarrow> 'k key_entry list" where
  "keks s \<equiv> kr_keys (sc_keys s)"

abbreviation key_names :: "'k scope \<Rightarrow> string list" where
  "key_names s \<equiv> map (\<lambda>e. hex_encode (ke_ID e)) (kr_keys (sc_keys s))"

lemma map_of_fold_update:
  "map_of (fold (\<lambda>x. AList.update (f x) (g x)) xs acc) k = (case find (\<lambda>x. f x = k) (rev xs) of Some x \<Rightarrow> Some (g x) | None \<Rightarrow> map_of acc k)"
proof (induction xs rule: rev_induct)
  case (snoc x xs)
  then show ?case by (simp add: update_conv')
qed simp

lemma map_of_key_report: "map_of (key_report ss) name = map_option key_names (find (\<lambda>s. sc_Name s = name) (rev ss))"
  by (simp add: key_report_def map_of_fold_update split: option.split)

lemma find_rev_unique:
  assumes "distinct (map f xs)" "x \<in> set xs"
  shows "find (\<lambda>y. f y = f x) (rev xs) = Some x"
proof -
  have "\<exists>y. find (\<lambda>y. f y = f x) (rev xs) = Some y" using assms(2) by (cases "find (\<lambda>y. f y = f x) (rev xs)") (auto simp: find_None_iff)
  then obtain y where y: "find (\<lambda>y. f y = f x) (rev xs) = Some y" by blast
  then have "y \<in> set xs" "f y = f x" by (auto simp: find_Some_iff) (metis nth_mem length_rev set_rev)
  then have "y = x" using assms by (meson distinct_map inj_onD)
  then show ?thesis using y by simp
qed

lemma find_in: "find P xs = Some x \<Longrightarrow> x \<in> set xs \<and> P x"
  by (auto simp: find_Some_iff)

text \<open>What a keyring has to be for the rest: scopes named once, each with keys of different identifiers.\<close>

definition keyring_ok :: "'k scope list \<Rightarrow> bool" where
  "keyring_ok ss \<longleftrightarrow> distinct (map sc_Name ss) \<and> (\<forall>s\<in>set ss. keks s \<noteq> [] \<and> distinct (map ke_ID (keks s)))"

lemma Valid_keyring_ok: "Valid rd k = None \<Longrightarrow> keyring_ok (kr_scopes k)"
  by (auto simp: keyring_ok_def Valid_None scopes_ok_def scopeValid_None keysValid_None entries_ok_def)

lemma key_report_in:
  "keyring_ok ss \<Longrightarrow> map_of (key_report ss) name = Some ks \<longleftrightarrow> (\<exists>s\<in>set ss. sc_Name s = name \<and> ks = key_names s)"
  using find_rev_unique[of sc_Name ss] by (fastforce simp: map_of_key_report keyring_ok_def dest: find_in)

lemma entry_with_iff: "entry_with es k \<noteq> None \<longleftrightarrow> k \<in> (\<lambda>e. hex_encode (ke_ID e)) ` set es"
  by (auto simp: entry_with_def find_None_iff)

section \<open>Activating keys of a keyring\<close>

text \<open>The same keys in the same scopes, the given ones first.\<close>

definition activated :: "(string \<times> string) list \<Rightarrow> 'k scope \<Rightarrow> 'k scope \<Rightarrow> bool" where
  "activated hold s t \<longleftrightarrow> sc_Name t = sc_Name s \<and> kr_nameKeys (sc_keys t) = kr_nameKeys (sc_keys s) \<and> mset (keks t) = mset (keks s)
     \<and> (case map_of hold (sc_Name s) of None \<Rightarrow> keks t = keks s | Some i \<Rightarrow> keks t \<noteq> [] \<and> ke_ID (hd (keks t)) = i)"

lemma find_index_Some: "find_index P xs = Some i \<Longrightarrow> i < length xs \<and> P (xs ! i)"
  by (induction xs arbitrary: i) (auto split: if_splits)

lemma mset_to_front: "i < length xs \<Longrightarrow> mset (to_front i xs) = mset xs"
proof -
  assume "i < length xs"
  then have "mset xs = mset (take i xs @ xs ! i # drop (Suc i) xs)" by (simp flip: id_take_nth_drop)
  then show ?thesis by (simp add: to_front_def)
qed

lemma activate_scopes_Inr:
  "activate_scopes pending ss = Inr (ts, rest) \<Longrightarrow> distinct (map sc_Name ss) \<Longrightarrow> list_all2 (activated pending) ss ts"
proof (induction ss arbitrary: pending ts rest)
  case (Cons s ss)
  show ?case
  proof (cases "map_of pending (sc_Name s)")
    case None
    then obtain us where us: "activate_scopes pending ss = Inr (us, rest)" "ts = s # us"
      using Cons.prems(1) by (auto split: sum.splits prod.splits)
    then show ?thesis using Cons None by (simp add: activated_def)
  next
    case (Some i)
    then obtain n us where n: "find_index (\<lambda>e. ke_ID e = i) (keks s) = Some n"
      and us: "activate_scopes (AList.delete (sc_Name s) pending) ss = Inr (us, rest)"
        "ts = s\<lparr>sc_keys := sc_keys s\<lparr>kr_keys := to_front n (keks s)\<rparr>\<rparr> # us"
      using Cons.prems(1) by (auto simp: Let_def split: sum.splits prod.splits option.splits)
    have "list_all2 (activated (AList.delete (sc_Name s) pending)) ss us" using Cons.IH[OF us(1)] Cons.prems(2) by simp
    then have "list_all2 (activated pending) ss us"
    proof (rule list.rel_mono_strong)
      fix a b assume "a \<in> set ss" "b \<in> set us" "activated (AList.delete (sc_Name s) pending) a b"
      moreover have "sc_Name a \<noteq> sc_Name s" using Cons.prems(2) \<open>a \<in> set ss\<close> by (metis distinct.simps(2) image_eqI list.set_map list.simps(9))
      ultimately show "activated pending a b" by (simp add: activated_def delete_conv')
    qed
    moreover have "activated pending s (s\<lparr>sc_keys := sc_keys s\<lparr>kr_keys := to_front n (keks s)\<rparr>\<rparr>)"
      using find_index_Some[OF n] Some mset_to_front[of n "keks s"] by (auto simp: activated_def to_front_def)
    ultimately show ?thesis using us(2) by simp
  qed
qed simp

lemma WithScopeActive_activated:
  assumes "WithScopeActive k hold = Inr k'" "distinct (map sc_Name (kr_scopes k))"
  shows "list_all2 (activated hold) (kr_scopes k) (kr_scopes k')"
  using assms activate_scopes_Inr[of hold "kr_scopes k"] by (auto simp: WithScopeActive_def split: sum.splits prod.splits list.splits)

lemma activated_in: "list_all2 (activated hold) ss ts \<Longrightarrow> t \<in> set ts \<Longrightarrow> \<exists>s\<in>set ss. activated hold s t"
  by (induction rule: list_all2_induct) auto

lemma activated_in': "list_all2 (activated hold) ss ts \<Longrightarrow> s \<in> set ss \<Longrightarrow> \<exists>t\<in>set ts. activated hold s t"
  by (induction rule: list_all2_induct) auto

lemma activated_set: "activated hold s t \<Longrightarrow> set (keks t) = set (keks s)"
  by (auto simp: activated_def dest: mset_eq_setD)

lemma activated_ok:
  assumes "list_all2 (activated hold) ss ts" "keyring_ok ss"
  shows "keyring_ok ts"
proof -
  have "map sc_Name ts = map sc_Name ss" using assms(1) by (induction rule: list_all2_induct) (simp_all add: activated_def)
  moreover have "keks t \<noteq> [] \<and> distinct (map ke_ID (keks t))" if t: "t \<in> set ts" for t
  proof -
    obtain s where s: "s \<in> set ss" "mset (keks t) = mset (keks s)" using activated_in[OF assms(1) t] by (auto simp: activated_def)
    then have "mset (map ke_ID (keks t)) = mset (map ke_ID (keks s))" by (metis mset_map)
    then show ?thesis using s assms(2) mset_eq_imp_distinct_iff by (fastforce simp: keyring_ok_def)
  qed
  ultimately show ?thesis using assms(2) by (simp add: keyring_ok_def)
qed

end
