(* ===== verification/Replica_Fleet.thy ===== *)
theory Replica_Fleet
  imports Handover
begin

text \<open>
  What the replicas promise the operator's tools, as the locale \<open>replica_fleet\<close>, and what a
  hand-over keeps of the fleet over any replicas that keep the promise: no replica ever
  writes under a key that another one serving the same scope cannot read with.
  A replica may serve and not answer the hand-over's questions; what is then taken for
  granted of its keys is \<open>silent_hold_ours\<close>, and no sealed replica is woken beside it.
\<close>

section \<open>A fleet that can read itself\<close>

type_synonym report = "(string \<times> string list) list"
type_synonym serving = "nat \<Rightarrow> report option"

text \<open>The key a replica writes a scope under is one that every replica serving the scope holds.\<close>

definition cross_readable :: "serving \<Rightarrow> bool" where
  "cross_readable S \<longleftrightarrow>
     (\<forall>i j m m' name ks ks'. S i = Some m \<longrightarrow> S j = Some m' \<longrightarrow> map_of m name = Some ks \<longrightarrow> map_of m' name = Some ks' \<longrightarrow>
        ks \<noteq> [] \<longrightarrow> hd ks \<in> set ks')"

text \<open>A replica given \<open>R\<close> works beside one that serves \<open>m\<close>.\<close>

definition joins :: "report \<Rightarrow> report \<Rightarrow> bool" where
  "joins R m \<longleftrightarrow>
     (\<forall>name ks. map_of m name = Some ks \<longrightarrow> (\<exists>ks'. map_of R name = Some ks' \<and> ks' \<noteq> [] \<and> hd ks' \<in> set ks \<and> set ks \<subseteq> set ks'))"

lemma joins_cross:
  assumes "cross_readable S" "\<And>i m. S i = Some m \<Longrightarrow> joins R m" "\<And>i. S' i = S i \<or> S' i = Some R" "joins R R"
  shows "cross_readable S'"
  unfolding cross_readable_def
proof (intro allI impI)
  fix i j m m' name ks ks'
  assume a: "S' i = Some m" "S' j = Some m'" "map_of m name = Some ks" "map_of m' name = Some ks'" "ks \<noteq> []"
  consider "S i = Some m" "S j = Some m'" | "m = R" "S j = Some m' \<or> m' = R" | "S i = Some m" "m' = R"
    using assms(3)[of i] assms(3)[of j] a(1,2) by auto
  then show "hd ks \<in> set ks'"
  proof cases
    case 1
    then show ?thesis using assms(1) a by (auto simp: cross_readable_def)
  next
    case 2
    then have "joins R m'" using assms(2,4) by auto
    then obtain l where "map_of R name = Some l" "hd l \<in> set ks'" using a(4) unfolding joins_def by blast
    then show ?thesis using a(3) 2(1) by simp
  next
    case 3
    obtain l where "map_of R name = Some l" "set ks \<subseteq> set l" using assms(2)[OF 3(1)] a(3) unfolding joins_def by blast
    then have "set ks \<subseteq> set ks'" using a(4) 3(2) by simp
    then show ?thesis using a(5) by auto
  qed
qed

text \<open>
  The same where a part of the fleet, \<open>Q\<close>, said nothing: its replicas are not given \<open>R\<close>, hold what
  \<open>R\<close> makes active, and write under a key of \<open>R\<close> what is new to a replica given it.
\<close>

lemma joins_cross_beside:
  assumes "cross_readable S" "\<And>i m. S i = Some m \<Longrightarrow> i \<notin> Q \<Longrightarrow> joins R m" "\<And>i. S' i = S i \<or> S' i = Some R \<and> i \<notin> Q" "joins R R"
    and "\<And>j m name ks ks'. j \<in> Q \<Longrightarrow> S j = Some m \<Longrightarrow> map_of m name = Some ks \<Longrightarrow> map_of R name = Some ks' \<Longrightarrow> hd ks' \<in> set ks"
    and "\<And>j m i name ks ks'. j \<in> Q \<Longrightarrow> S j = Some m \<Longrightarrow> map_of m name = Some ks \<Longrightarrow> ks \<noteq> [] \<Longrightarrow> map_of R name = Some ks' \<Longrightarrow> S' i = Some R \<Longrightarrow>
      S i = Some R \<or> hd ks \<in> set ks' \<or> (\<exists>l l'. S i = Some l \<and> map_of l name = Some l')"
  shows "cross_readable S'"
  unfolding cross_readable_def
proof (intro allI impI)
  fix i j m m' name ks ks'
  assume a: "S' i = Some m" "S' j = Some m'" "map_of m name = Some ks" "map_of m' name = Some ks'" "ks \<noteq> []"
  consider (old) "S i = Some m" "S j = Some m'" | (both) "m = R" "m' = R" | (writes) "m = R" "i \<notin> Q" "S j = Some m'"
    | (reads) "S i = Some m" "m' = R" "S' j = Some R"
    using assms(3)[of i] assms(3)[of j] a(1,2) by auto
  then show "hd ks \<in> set ks'"
  proof cases
    case old
    then show ?thesis using assms(1) a by (auto simp: cross_readable_def)
  next
    case both
    then have "ks = ks'" using a(3,4) by simp
    then show ?thesis using a(5) by auto
  next
    case writes
    show ?thesis
    proof (cases "j \<in> Q")
      case True
      then show ?thesis using assms(5)[OF True writes(3) a(4)] a(3) writes(1) by simp
    next
      case False
      then have "joins R m'" using assms(2)[OF writes(3)] by blast
      then obtain l where "map_of R name = Some l" "hd l \<in> set ks'" using a(4) unfolding joins_def by blast
      then show ?thesis using a(3) writes(1) by simp
    qed
  next
    case reads
    have up: "set l' \<subseteq> set ks'" if l: "S k = Some l" "k \<notin> Q" "map_of l name = Some l'" for k l l'
      using assms(2)[OF l(1,2)] l(3) a(4) reads(2) unfolding joins_def by force
    show ?thesis
    proof (cases "i \<in> Q")
      case False
      then show ?thesis using up[OF reads(1) _ a(3)] a(5) by auto
    next
      case True
      from assms(6)[OF True reads(1) a(3,5) _ reads(3), of ks'] a(4) reads(2)
      consider (own) "S j = Some R" | (key) "hd ks \<in> set ks'" | (kept) l l' where "S j = Some l" "map_of l name = Some l'" by auto
      then show ?thesis
      proof cases
        case own
        then show ?thesis using assms(1) reads a(3-5) unfolding cross_readable_def by blast
      next
        case kept
        then have "hd ks \<in> set l'" using assms(1) reads(1) a(3,5) unfolding cross_readable_def by blast
        moreover have "set l' \<subseteq> set ks'"
        proof (cases "j \<in> Q")
          case True
          then have "S j = Some R" using assms(3)[of j] reads(3) by auto
          then show ?thesis using kept a(4) reads(2) by simp
        qed (use up kept in blast)
        ultimately show ?thesis by blast
      qed
    qed
  qed
qed

lemma heldKeys_joins_itself: "keyring_ok (kr_scopes k) \<Longrightarrow> joins (heldKeys k) (heldKeys k)"
  by (auto simp: joins_def heldKeys_def key_report_in keyring_ok_def hd_map intro!: imageI)

section \<open>The plan is safe\<close>

lemma fleet_behind_None: "fleet_behind keys i sts = None \<Longrightarrow> j < length sts \<Longrightarrow> replica_behind keys (i + j) (sts ! j) = None"
proof (induction sts arbitrary: i j)
  case (Cons st sts)
  then show ?case using Cons.IH[of "Suc i"] by (cases j) (auto split: option.splits)
qed simp

lemma map_filter_Nil_iff: "List.map_filter f xs = [] \<longleftrightarrow> (\<forall>x\<in>set xs. f x = None)"
  by (induction xs) (auto simp: map_filter_simps split: option.splits)

lemma replica_behind_None:
  assumes "replica_behind keys i (Some st) = None" "\<not> Sealed st" "map_of (reported_keys st) name = Some ks"
  shows "scope_behind keys i name ks = None"
proof -
  let ?f = "\<lambda>name. scope_behind keys i name (case map_of (reported_keys st) name of None \<Rightarrow> [] | Some t \<Rightarrow> t)"
  have "List.map_filter ?f (sorted_names (reported_keys st)) = []"
    using assms(1,2) by (auto simp: replica_behind_def split: if_splits list.splits)
  moreover have "name \<in> set (sorted_names (reported_keys st))"
    using assms(3) by (auto simp: sorted_names_def image_iff dest: map_of_SomeD intro: bexI[rotated])
  ultimately show ?thesis using assms(3) by (auto simp: map_filter_Nil_iff)
qed

lemma scope_behind_None:
  assumes "scope_behind keys i name ks = None"
  shows "\<exists>s\<in>set (kr_scopes keys). sc_Name s = name \<and> set ks \<subseteq> set (key_names s)"
proof -
  obtain mine where m: "ours keys name = Some mine" using assms by (cases "ours keys name") (simp_all add: scope_behind_def)
  then have "find (\<lambda>k. entry_with mine k = None) ks = None"
    using assms by (auto simp: scope_behind_def split: if_splits option.splits)
  then have "\<forall>k\<in>set ks. k \<in> (\<lambda>e. hex_encode (ke_ID e)) ` set mine" using entry_with_iff by (fastforce simp: find_None_iff)
  moreover obtain s where "s \<in> set (kr_scopes keys)" "sc_Name s = name" "mine = keks s"
    using m by (auto simp: ours_def dest: find_in)
  ultimately show ?thesis by auto
qed

lemma choose_key_Some:
  assumes "choose_key hs previous es = Some e"
  shows "e \<in> set es \<and> heldByAll hs (ke_ID e) \<and> (inUse hs (ke_ID e) \<or> previous = Some (ke_ID e))"
proof -
  let ?f = "\<lambda>e chosen.
            let used = inUse hs (ke_ID e) \<or> previous = Some (ke_ID e) in
            if heldByAll hs (ke_ID e) \<and> used \<and> (case chosen of None \<Rightarrow> True | Some c \<Rightarrow> ke_Created c < ke_Created e)
            then Some e else chosen"
  have inv: "fold ?f xs c = Some x \<Longrightarrow> c = Some x \<or> x \<in> set xs \<and> heldByAll hs (ke_ID x) \<and> (inUse hs (ke_ID x) \<or> previous = Some (ke_ID x))" for xs c x
  proof (induction xs arbitrary: c)
    case (Cons y ys)
    then show ?case using Cons.IH[of "?f y c"] by (auto simp: Let_def split: if_splits)
  qed simp
  show ?thesis
  proof (cases "fold ?f es None")
    case None
    then have "hs = []" "find (\<lambda>e. previous = Some (ke_ID e)) (rev es) = Some e"
      using assms unfolding choose_key_def by (auto split: if_splits)
    then show ?thesis by (auto simp: heldByAll_def dest: find_in)
  next
    case (Some x)
    then show ?thesis using assms inv[OF Some] unfolding choose_key_def by auto
  qed
qed

text \<open>
  Each scope is held back on a key every serving replica that answered holds, and one of them or
  this machine writes under, or left on one they all hold.
\<close>

definition first_held :: "replica_state option list \<Rightarrow> (string \<times> string) list \<Rightarrow> (string \<times> string) list \<Rightarrow> string scope \<Rightarrow> bool" where
  "first_held states rotated hold s \<longleftrightarrow>
     (let hs = holders states (sc_Name s); previous = map_of rotated (sc_Name s) in
      case map_of hold (sc_Name s) of
        None \<Rightarrow> keks s \<noteq> [] \<and> heldByAll hs (ke_ID (hd (keks s))) \<and> previous = None
      | Some i \<Rightarrow> heldByAll hs i \<and> (inUse hs i \<or> previous = Some i))"

lemma plan_scopes_Inr:
  assumes "plan_scopes states rotated ss (hold0, sc0) = Inr (hold, scopes)" "distinct (map sc_Name ss)"
    and "\<And>s. s \<in> set ss \<Longrightarrow> map_of hold0 (sc_Name s) = None"
  shows "(\<forall>s\<in>set ss. first_held states rotated hold s) \<and> (\<forall>n. n \<notin> sc_Name ` set ss \<longrightarrow> map_of hold n = map_of hold0 n)"
  using assms
proof (induction ss arbitrary: hold0 sc0)
  case (Cons s ss)
  let ?hs = "holders states (sc_Name s)" and ?p = "map_of rotated (sc_Name s)"
  have n: "sc_Name s \<notin> sc_Name ` set ss" using Cons.prems(2) by simp
  show ?case
  proof (cases "?p = None \<and> keks s \<noteq> [] \<and> heldByAll ?hs (ke_ID (hd (keks s)))")
    case True
    then have "plan_scopes states rotated ss (hold0, sc0) = Inr (hold, scopes)" using Cons.prems(1) by (simp add: Let_def)
    then show ?thesis using Cons.IH[OF _ _ Cons.prems(3)] Cons.prems(2,3) n True by (auto simp: first_held_def Let_def)
  next
    case False
    then obtain e where e: "choose_key ?hs ?p (keks s) = Some e"
      "plan_scopes states rotated ss (AList.update (sc_Name s) (ke_ID e) hold0, sc0 @ [sc_Name s]) = Inr (hold, scopes)"
      using Cons.prems(1) by (auto simp: Let_def split: if_splits option.splits)
    have "map_of (AList.update (sc_Name s) (ke_ID e) hold0) (sc_Name t) = None" if "t \<in> set ss" for t
      using Cons.prems(3)[of t] that n by (auto simp: update_conv' image_iff)
    then show ?thesis using Cons.IH[OF e(2)] Cons.prems(2) choose_key_Some[OF e(1)] n
      by (auto simp: first_held_def Let_def update_conv')
  qed
qed simp

text \<open>The keyring the plan pushes first.\<close>

definition first_push :: "hand_over_plan \<Rightarrow> string keyring \<Rightarrow> string keyring" where
  "first_push plan keys = (case pl_held plan of None \<Rightarrow> keys | Some held \<Rightarrow> held)"

lemma planHandOver_cases:
  assumes "planHandOver keys states rotated = Inr plan" "keyring_ok (kr_scopes keys)"
  obtains hold where "fleet_behind keys 0 states = None" "\<forall>s\<in>set (kr_scopes keys). first_held states rotated hold s"
    "list_all2 (activated hold) (kr_scopes keys) (kr_scopes (first_push plan keys))" "pl_held plan = None \<longleftrightarrow> hold = []"
proof -
  obtain hold scopes where p: "fleet_behind keys 0 states = None" "plan_scopes states rotated (kr_scopes keys) ([], []) = Inr (hold, scopes)"
    using assms(1) by (auto simp: planHandOver_def split: option.splits sum.splits)
  have d: "distinct (map sc_Name (kr_scopes keys))" using assms(2) by (simp add: keyring_ok_def)
  have "list_all2 (activated hold) (kr_scopes keys) (kr_scopes (first_push plan keys)) \<and> (pl_held plan = None \<longleftrightarrow> hold = [])"
  proof (cases "hold = []")
    case True
    then show ?thesis using assms(1) p by (auto simp: planHandOver_def first_push_def activated_def list_all2_refl)
  next
    case False
    then obtain held where "WithScopeActive keys hold = Inr held" "pl_held plan = Some held"
      using assms(1) p by (auto simp: planHandOver_def split: sum.splits)
    then show ?thesis using WithScopeActive_activated d False by (auto simp: first_push_def)
  qed
  then show ?thesis using that p(1) plan_scopes_Inr[OF p(2) d] by auto
qed

lemma heldByAll_holders:
  "heldByAll (holders states name) i \<Longrightarrow> Some st \<in> set states \<Longrightarrow> \<not> Sealed st \<Longrightarrow> map_of (reported_keys st) name = Some ks \<Longrightarrow> hex_encode i \<in> set ks"
  by (force simp: heldByAll_def holders_def list_all_iff List.map_filter_def image_iff)

lemma plan_joins:
  assumes "planHandOver keys states rotated = Inr plan" "keyring_ok (kr_scopes keys)"
    and "Some st \<in> set states" "\<not> Sealed st"
  shows "joins (heldKeys (first_push plan keys)) (reported_keys st)"
  unfolding joins_def
proof (intro allI impI)
  fix name ks
  assume ks: "map_of (reported_keys st) name = Some ks"
  obtain hold where h: "fleet_behind keys 0 states = None" "\<forall>s\<in>set (kr_scopes keys). first_held states rotated hold s"
    and a: "list_all2 (activated hold) (kr_scopes keys) (kr_scopes (first_push plan keys))"
    using planHandOver_cases[OF assms(1,2)] by metis
  obtain i where "i < length states" "states ! i = Some st" using assms(3) by (auto simp: in_set_conv_nth)
  then have "scope_behind keys i name ks = None"
    using fleet_behind_None[OF h(1), of i] replica_behind_None[OF _ assms(4) ks] by simp
  then obtain s where s: "s \<in> set (kr_scopes keys)" "sc_Name s = name" "set ks \<subseteq> set (key_names s)" using scope_behind_None by blast
  obtain t where t: "t \<in> set (kr_scopes (first_push plan keys))" "activated hold s t" using activated_in'[OF a s(1)] by blast
  have ok: "keyring_ok (kr_scopes (first_push plan keys))" by (rule activated_ok[OF a assms(2)])
  have r: "map_of (heldKeys (first_push plan keys)) name = Some (key_names t)"
    using t s(2) ok by (auto simp: heldKeys_def key_report_in activated_def)
  have ne: "keks t \<noteq> []" using ok t(1) by (simp add: keyring_ok_def)
  have "heldByAll (holders states name) (ke_ID (hd (keks t)))"
    using h(2) s(1,2) t(2) by (auto simp: first_held_def Let_def activated_def split: option.splits)
  then have "hex_encode (ke_ID (hd (keks t))) \<in> set ks" using heldByAll_holders assms(3,4) ks by blast
  moreover have "set ks \<subseteq> set (key_names t)" using s(3) activated_set[OF t(2)] by auto
  ultimately show "\<exists>ks'. map_of (heldKeys (first_push plan keys)) name = Some ks' \<and> ks' \<noteq> [] \<and> hd ks' \<in> set ks \<and> set ks \<subseteq> set ks'"
    using r ne by (auto simp: hd_map)
qed

section \<open>A pushed bundle is the keyring\<close>

lemma bundle_scopes_Inr:
  "bundle_scopes rd out ss = Inr r \<Longrightarrow> r = out @ ss \<and> (\<forall>s\<in>set ss. scopeValid rd s = None)"
proof (induction ss arbitrary: out)
  case (Cons s ss)
  then have "scopeValid rd s = None" "bundle_scopes rd (out @ [s]) ss = Inr r" by (auto split: option.splits)
  then show ?case using Cons.IH[of "out @ [s]"] by simp
qed simp

definition scope_ids_ok :: "'k scope list \<Rightarrow> bool" where
  "scope_ids_ok ss \<longleftrightarrow> (\<forall>s\<in>set ss. ids_ok (kr_nameKeys (sc_keys s)) \<and> ids_ok (keks s))"

lemma activated_ids:
  assumes "list_all2 (activated hold) ss ts" "scope_ids_ok ss"
  shows "scope_ids_ok ts"
  unfolding scope_ids_ok_def
proof
  fix t assume "t \<in> set ts"
  then obtain s where "s \<in> set ss" "activated hold s t" using activated_in[OF assms(1)] by blast
  then show "ids_ok (kr_nameKeys (sc_keys t)) \<and> ids_ok (keks t)"
    using assms(2) activated_set[of hold s t] by (simp add: scope_ids_ok_def ids_ok_def activated_def)
qed

lemma pushed_bundle:
  assumes "NewBundle (\<lambda>m. m) name g ss = Inr b" "MarshalBundle yaml b = Inr payload" "scope_ids_ok ss"
    and "\<And>f s. yaml f = Some s \<Longrightarrow> unyaml s = Some f"
  shows "ParseBundle unyaml payload = Inr b \<and> bu_scopes b = ss"
proof -
  have n: "trim_space name \<noteq> ''''" "bundle_scopes (\<lambda>m. m) [] ss = Inr ss"
    and b: "b = \<lparr>bu_instance = name, bu_generation = g, bu_scopes = ss, bu_zeroed = False\<rparr>"
    using assms(1) bundle_scopes_Inr[of "\<lambda>m. m" "[]" ss] by (auto simp: NewBundle_def split: if_splits sum.splits)
  have "unyaml payload = Some \<lparr>bf_Version = bundleVersion, bf_Instance = name, bf_Generation = g, bf_Scopes = marshalScopes ss\<rparr>"
    using assms(2,4) b by (auto simp: MarshalBundle_def split: option.splits)
  moreover have "parse_scopes 0 (marshalScopes ss) = Inr ss"
    using bundle_scopes_Inr[OF n(2)] assms(3) by (intro parse_scopes_marshal) (simp add: scope_ids_ok_def)
  ultimately show ?thesis using assms(1) b by (simp add: ParseBundle_def)
qed

text \<open>A replica that reports the keys it was sent holds the same keys, active one included.\<close>

lemma scopeKeysMatch_set:
  assumes "scopeKeysMatch got want" "distinct want"
  shows "set got = set want \<and> got \<noteq> [] \<and> want \<noteq> [] \<and> hd got = hd want"
proof -
  have m: "set want \<subseteq> set got" "length (remdups got) = length want" "got \<noteq> []" "hd got = hd want" "length got = length want"
    using assms(1) by (auto simp: scopeKeysMatch_def list_all_iff split: if_splits)
  have "card (set got) = card (set want)" using m(2) assms(2) by (simp add: distinct_card length_remdups_card_conv)
  then have "set want = set got" using m(1) by (intro card_subset_eq) auto
  then show ?thesis using m by auto
qed

lemma distinct_hex: "distinct (map ke_ID es) \<Longrightarrow> distinct (map (\<lambda>e. hex_encode (ke_ID e)) es)"
  by (auto simp: distinct_map inj_on_def hex_encode_inj)

lemma sameKeys_scope:
  assumes "sameKeys got (key_report ss)" "keyring_ok ss" "map_of got name = Some ks"
  shows "\<exists>s\<in>set ss. sc_Name s = name \<and> set ks = set (key_names s) \<and> ks \<noteq> [] \<and> hd ks = hd (key_names s)"
proof -
  have "name \<in> fst ` set got" using assms(3) by (auto dest: map_of_SomeD intro: image_eqI[rotated])
  then obtain b where b: "map_of (key_report ss) name = Some b" "scopeKeysMatch ks b"
    using assms(1,3) by (fastforce simp: sameKeys_def list_all_iff split: option.splits)
  then obtain s where s: "s \<in> set ss" "sc_Name s = name" "b = key_names s" using assms(2) key_report_in by blast
  have "distinct (map ke_ID (keks s))" using s(1) assms(2) by (simp add: keyring_ok_def)
  then have "distinct b" unfolding s(3) by (rule distinct_hex)
  then show ?thesis using scopeKeysMatch_set[OF b(2)] s by blast
qed

text \<open>What took the held keys works beside a replica that is told to use the new ones.\<close>

lemma held_joins:
  assumes "sameKeys m (heldKeys held)" "list_all2 (activated hold) (kr_scopes keys) (kr_scopes held)" "keyring_ok (kr_scopes keys)"
  shows "joins (heldKeys keys) m"
  unfolding joins_def
proof (intro allI impI)
  fix name ks
  assume "map_of m name = Some ks"
  then obtain t where t: "t \<in> set (kr_scopes held)" "sc_Name t = name" "set ks = set (key_names t)"
    using sameKeys_scope[of m "kr_scopes held" name ks] assms(1) activated_ok[OF assms(2,3)] unfolding heldKeys_def by blast
  obtain s where s: "s \<in> set (kr_scopes keys)" "activated hold s t" using activated_in[OF assms(2) t(1)] by blast
  have "keks s \<noteq> []" using s(1) assms(3) by (simp add: keyring_ok_def)
  moreover have "map_of (heldKeys keys) name = Some (key_names s)"
    using s t(2) assms(3) by (auto simp: heldKeys_def key_report_in activated_def)
  ultimately show "\<exists>ks'. map_of (heldKeys keys) name = Some ks' \<and> ks' \<noteq> [] \<and> hd ks' \<in> set ks \<and> set ks \<subseteq> set ks'"
    using t(3) activated_set[OF s(2)] by (auto simp: hd_map)
qed

section \<open>The contract of a replica\<close>

locale replica_fleet =
  fixes rc :: "'w replicas"
    and unyaml :: "string \<Rightarrow> bundle_file option"
    and serving :: "'w \<Rightarrow> serving"
  assumes State_keeps: "rc_State rc i w = (w', r) \<Longrightarrow> serving w' = serving w"
    and State_reports: "rc_State rc i w = (w', Inr st) \<Longrightarrow> serving w i = (if Sealed st then None else Some (reported_keys st))"
    and Unseal_installs: "rc_Unseal rc i payload intent w = (w', r) \<Longrightarrow>
        serving w' = serving w \<or> (\<exists>b. ParseBundle unyaml payload = Inr b \<and> serving w' = (serving w)(i := Some (key_report (bu_scopes b))))"
    and Unseal_reports: "rc_Unseal rc i payload intent w = (w', Inr st) \<Longrightarrow> serving w' i = Some (reported_keys st)"
    and hand_over_wakes_nobody: "rc_Unseal rc i payload ''hand-over'' w = (w', r) \<Longrightarrow> serving w i = None \<Longrightarrow> serving w' = serving w"
    and reseed_replaces_nobody: "rc_Unseal rc i payload ''restart-reseed'' w = (w', r) \<Longrightarrow> serving w i \<noteq> None \<Longrightarrow> serving w' = serving w"
begin

lemma read_from_answers:
  assumes "read_from rc js h = (h', sts)"
  shows "length sts = length js \<and> serving (ho_world h') = serving (ho_world h)
    \<and> (\<forall>k<length js. \<forall>st. sts ! k = Some st \<longrightarrow> serving (ho_world h) (js ! k) = (if Sealed st then None else Some (reported_keys st)))"
  using assms
proof (induction js arbitrary: h h' sts)
  case (Cons i js)
  obtain h1 st sts1 where r: "read_one rc i h = (h1, st)" "read_from rc js h1 = (h', sts1)" "sts = st # sts1"
    using Cons.prems by (auto split: prod.splits)
  have s: "serving (ho_world h1) = serving (ho_world h)"
    "\<And>x. st = Some x \<Longrightarrow> serving (ho_world h) i = (if Sealed x then None else Some (reported_keys x))"
    using r(1) State_keeps[of i "ho_world h"] State_reports[of i "ho_world h"]
    by (auto simp: read_one_def split: prod.splits sum.splits)
  note IH = Cons.IH[OF r(2)]
  show ?case
  proof (intro conjI allI impI)
    show "length sts = length (i # js)" "serving (ho_world h') = serving (ho_world h)" using IH r(3) s(1) by simp_all
    fix k x assume "k < length (i # js)" "sts ! k = Some x"
    then show "serving (ho_world h) ((i # js) ! k) = (if Sealed x then None else Some (reported_keys x))"
      using IH s r(3) by (cases k) auto
  qed
qed simp

lemma read_fleet_answers:
  assumes "read_fleet rc n h = (h', sts)"
  shows "length sts = n" "serving (ho_world h') = serving (ho_world h)"
    "i < n \<Longrightarrow> sts ! i = Some st \<Longrightarrow> serving (ho_world h) i = (if Sealed st then None else Some (reported_keys st))"
  using read_from_answers[OF assms[unfolded read_fleet_def]] by simp_all

text \<open>Where no replica is recorded as unanswered, every one answered.\<close>

lemma read_from_unanswered:
  assumes "read_from rc js h = (h', sts)"
  shows "(\<exists>es. ho_unanswered h' = ho_unanswered h @ es) \<and> (ho_unanswered h' = [] \<longrightarrow> None \<notin> set sts)"
  using assms
proof (induction js arbitrary: h h' sts)
  case (Cons i js)
  obtain h1 st sts1 where r: "read_one rc i h = (h1, st)" "read_from rc js h1 = (h', sts1)" "sts = st # sts1"
    using Cons.prems by (auto split: prod.splits)
  have "(\<exists>es. ho_unanswered h1 = ho_unanswered h @ es) \<and> (ho_unanswered h1 = [] \<longrightarrow> st \<noteq> None)"
    using r(1) by (auto simp: read_one_def split: prod.splits sum.splits)
  then show ?case using Cons.IH[OF r(2)] r(3) by auto
qed simp

lemma all_answered:
  assumes "read_fleet rc n h = (h', sts)" "ho_unanswered h' = []" "i < n"
  shows "sts ! i \<noteq> None"
proof -
  have "None \<notin> set sts" using read_from_unanswered[OF assms(1)[unfolded read_fleet_def]] assms(2) by blast
  moreover have "length sts = n" using read_fleet_answers(1)[OF assms(1)] .
  ultimately show ?thesis using assms(3) nth_mem by metis
qed

end

section \<open>A push\<close>

text \<open>
  What a push of a report to the replicas that answered leaves: each replica serves what it
  served or the report, a sealed one the report only if sealed ones may be woken, and one
  counted as loaded serves the keys it was sent; who did not answer is counted as unreached.
\<close>

definition may_wake :: "'w options \<Rightarrow> 'w hand_over \<Rightarrow> bool" where
  "may_wake opts h \<longleftrightarrow> op_unseal opts \<and> \<not> ho_leaveSealed h"

definition pushable_to :: "bool \<Rightarrow> replica_state option \<Rightarrow> bool" where
  "pushable_to wake answer \<longleftrightarrow> (\<exists>st. answer = Some st \<and> (Sealed st \<longrightarrow> wake))"

definition pushed :: "report \<Rightarrow> bool \<Rightarrow> replica_state option list \<Rightarrow> serving \<Rightarrow> serving \<Rightarrow> hand_over_step \<Rightarrow> bool" where
  "pushed R wake states S S' step \<longleftrightarrow>
     (\<forall>i. S' i = S i \<or> S' i = Some R \<and> i < length states \<and> pushable_to wake (states ! i))
     \<and> (sp_Unreached step = [] \<longrightarrow> (\<forall>i<length states. states ! i \<noteq> None))
     \<and> (\<forall>i\<in>set (sp_Loaded step). \<exists>m. S' i = Some m \<and> sameKeys m R)
     \<and> distinct (sp_Loaded step @ sp_Refused step) \<and> (\<forall>i\<in>set (sp_Loaded step @ sp_Refused step). i < length states)"

context replica_fleet
begin

lemma push_one_effect:
  assumes "push_one rc opts payload R (i, answer) (h, step) = (h', step')"
    and "ParseBundle unyaml payload = Inr b" "key_report (bu_scopes b) = R"
  shows "(serving (ho_world h') = serving (ho_world h)
       \<or> pushable_to (may_wake opts h) answer \<and> serving (ho_world h') = (serving (ho_world h))(i := Some R))
    \<and> ((sp_Loaded step', sp_Refused step') \<in> {(sp_Loaded step, sp_Refused step), (sp_Loaded step, sp_Refused step @ [i])}
       \<or> (sp_Loaded step', sp_Refused step') = (sp_Loaded step @ [i], sp_Refused step) \<and> (\<exists>m. serving (ho_world h') i = Some m \<and> sameKeys m R))"
proof (cases "\<exists>st. answer = Some st \<and> \<not> (Sealed st \<and> (\<not> op_unseal opts \<or> ho_leaveSealed h))")
  case True
  then obtain st where st: "answer = Some st" "\<not> (Sealed st \<and> (\<not> op_unseal opts \<or> ho_leaveSealed h))" by blast
  obtain w r where u: "rc_Unseal rc i payload (HandOver_intent opts) (ho_world h) = (w, r)" by fastforce
  have w: "ho_world h' = w" using assms(1) st u by (auto simp: push_one_def Let_def split: pushed_as.splits)
  have "serving w = serving (ho_world h) \<or> serving w = (serving (ho_world h))(i := Some R)"
    using Unseal_installs[OF u] assms(2,3) by auto
  moreover have "pushable_to (may_wake opts h) answer" using st by (auto simp: pushable_to_def may_wake_def)
  moreover have "\<exists>m. serving w i = Some m \<and> sameKeys m R"
    if "push_outcome (op_unseal opts) R (sp_Generation step) r = Pushed_loaded"
    using that Unseal_reports[of i payload "HandOver_intent opts" "ho_world h" w] u
    by (auto simp: push_outcome_def split: sum.splits if_splits)
  ultimately show ?thesis using assms(1) st u w by (auto simp: push_one_def Let_def split: pushed_as.splits)
next
  case False
  then show ?thesis using assms(1) by (cases answer) (auto simp: push_one_def split: if_splits)
qed

lemma push_one_frame:
  "push_one rc opts payload R (i, answer) (h, step) = (h', step') \<Longrightarrow> ho_leaveSealed h' = ho_leaveSealed h
    \<and> sp_Unreached step' = (if answer = None then sp_Unreached step @ [i] else sp_Unreached step)"
  by (auto simp: push_one_def Let_def split: option.splits if_splits prod.splits pushed_as.splits)

lemma push_all:
  assumes "fold (push_one rc opts payload R) (enumerate 0 states) (h, empty_step g) = (h', step')"
    and "ParseBundle unyaml payload = Inr b" "key_report (bu_scopes b) = R"
  shows "pushed R (may_wake opts h) states (serving (ho_world h)) (serving (ho_world h')) step' \<and> ho_leaveSealed h' = ho_leaveSealed h"
  using assms(1)
proof (induction states arbitrary: h' step' rule: rev_induct)
  case Nil
  then show ?case by (auto simp: pushed_def empty_step_def)
next
  case (snoc answer states)
  obtain h1 step1 where f: "fold (push_one rc opts payload R) (enumerate 0 states) (h, empty_step g) = (h1, step1)" by fastforce
  have p: "push_one rc opts payload R (length states, answer) (h1, step1) = (h', step')"
    using snoc.prems f by (simp add: enumerate_append_eq)
  note IH = conjunct1[OF snoc.IH[OF f]] and L = conjunct2[OF snoc.IH[OF f]]
  note E = push_one_effect[OF p assms(2,3)]
  have wake: "may_wake opts h1 = may_wake opts h" using L by (simp add: may_wake_def)
  show ?case
    unfolding pushed_def
  proof (intro conjI allI ballI impI)
    fix i
    show "serving (ho_world h') i = serving (ho_world h) i
        \<or> serving (ho_world h') i = Some R \<and> i < length (states @ [answer]) \<and> pushable_to (may_wake opts h) ((states @ [answer]) ! i)"
    proof (cases "i = length states")
      case True
      then have "serving (ho_world h1) i = serving (ho_world h) i" using IH by (auto simp: pushed_def)
      then show ?thesis using conjunct1[OF E] True wake by auto
    next
      case False
      then have "serving (ho_world h') i = serving (ho_world h1) i" using conjunct1[OF E] by auto
      moreover have "serving (ho_world h1) i = serving (ho_world h) i
          \<or> serving (ho_world h1) i = Some R \<and> i < length states \<and> pushable_to (may_wake opts h) (states ! i)"
        using IH by (simp add: pushed_def)
      ultimately show ?thesis by (auto simp: nth_append)
    qed
  next
    fix i assume "sp_Unreached step' = []" "i < length (states @ [answer])"
    then show "(states @ [answer]) ! i \<noteq> None"
      using push_one_frame[OF p] IH by (auto simp: pushed_def nth_append less_Suc_eq split: if_splits)
  next
    fix i assume "i \<in> set (sp_Loaded step')"
    then consider "i \<in> set (sp_Loaded step1)" | "i = length states" "\<exists>m. serving (ho_world h') i = Some m \<and> sameKeys m R" using E by auto
    then show "\<exists>m. serving (ho_world h') i = Some m \<and> sameKeys m R"
    proof cases
      case 1
      then have "i < length states" "\<exists>m. serving (ho_world h1) i = Some m \<and> sameKeys m R" using IH by (auto simp: pushed_def)
      then show ?thesis using E by auto
    qed
  next
    show "distinct (sp_Loaded step' @ sp_Refused step')" using IH E by (auto simp: pushed_def)
  next
    fix i assume "i \<in> set (sp_Loaded step' @ sp_Refused step')"
    moreover have "set (sp_Loaded step' @ sp_Refused step') \<subseteq> insert (length states) (set (sp_Loaded step1 @ sp_Refused step1))" using E by auto
    ultimately have "i = length states \<or> i \<in> set (sp_Loaded step1 @ sp_Refused step1)" by blast
    then show "i < length (states @ [answer])" using IH unfolding pushed_def by fastforce
  next
    show "ho_leaveSealed h' = ho_leaveSealed h" using push_one_frame[OF p] L by simp
  qed
qed

lemma push_effect:
  assumes "push rc opts K states h = (h', r)" "scope_ids_ok (kr_scopes K)" "\<And>f s. op_yaml opts f = Some s \<Longrightarrow> unyaml s = Some f"
  shows "case r of Inl _ \<Rightarrow> serving (ho_world h') = serving (ho_world h)
    | Inr step \<Rightarrow> pushed (heldKeys K) (may_wake opts h) states (serving (ho_world h)) (serving (ho_world h')) step"
proof -
  let ?h = "h\<lparr>ho_highest := ho_highest h + 1\<rparr>"
  show ?thesis
  proof (cases "NewBundle (\<lambda>m. m) (op_name opts) (ho_highest ?h) (kr_scopes K)")
    case (Inl f)
    then show ?thesis using assms(1) by (auto simp: push_def Let_def)
  next
    case (Inr b)
    show ?thesis
    proof (cases "MarshalBundle (op_yaml opts) b")
      case (Inl f)
      then show ?thesis using assms(1) Inr by (auto simp: push_def Let_def)
    next
      case (Inr payload)
      note pb = pushed_bundle[OF \<open>NewBundle _ _ _ _ = Inr b\<close> Inr assms(2), of unyaml, OF assms(3)]
      obtain h1 step where f: "fold (push_one rc opts payload (heldKeys K)) (enumerate 0 states) (?h, empty_step (ho_highest ?h)) = (h1, step)"
        by fastforce
      have "h' = h1" "r = Inr step" using assms(1) \<open>NewBundle _ _ _ _ = Inr b\<close> Inr f by (auto simp: push_def Let_def)
      then show ?thesis using push_all[OF f conjunct1[OF pb]] pb by (simp add: heldKeys_def may_wake_def)
    qed
  qed
qed

lemma confirm_keeps:
  assumes "fold (confirm_one rc want) js (h, res) = (h', res')"
  shows "serving (ho_world h') = serving (ho_world h)"
  using assms
proof (induction js arbitrary: h res)
  case (Cons i js)
  obtain h1 res1 where c: "confirm_one rc want i (h, res) = (h1, res1)" by fastforce
  have "serving (ho_world h1) = serving (ho_world h)"
    using c State_keeps[of i "ho_world h"] by (auto simp: confirm_one_def Let_def split: prod.splits sum.splits if_splits)
  then show ?case using Cons.IH[of h1 res1] Cons.prems c by simp
qed simp

end

section \<open>A hand-over never splits the fleet\<close>

text \<open>Saving a file changes no replica.\<close>

definition saves_touch_nothing :: "('w \<Rightarrow> serving) \<Rightarrow> 'w options \<Rightarrow> bool" where
  "saves_touch_nothing serving opts \<longleftrightarrow>
     (\<forall>w k. serving (fst (op_beforeHold opts k w)) = serving w) \<and> (\<forall>w. serving (fst (op_beforeActivate opts w)) = serving w)
     \<and> (\<forall>w g. serving (fst (op_save opts g w)) = serving w)"

text \<open>The replicas that say nothing serve nothing.\<close>

definition silent_serve_nothing :: "serving \<Rightarrow> 'a option list \<Rightarrow> bool" where
  "silent_serve_nothing S states \<longleftrightarrow> (\<forall>i. S i \<noteq> None \<longrightarrow> i < length states \<and> states ! i \<noteq> None)"

text \<open>
  A replica that does not answer cannot be consulted, so a hand-over takes for granted that one
  that serves a scope holds the key this machine writes it under, the key from before a rotation
  included. A scope that is new to a replica that answered was minted here: a silent replica that
  serves it writes it under a key of the keyring.
\<close>

definition machine_key :: "(string \<times> string) list \<Rightarrow> string scope \<Rightarrow> string" where
  "machine_key rotated s = (case map_of rotated (sc_Name s) of None \<Rightarrow> ke_ID (hd (keks s)) | Some i \<Rightarrow> i)"

definition silent_hold_ours :: "string keyring \<Rightarrow> (string \<times> string) list \<Rightarrow> serving \<Rightarrow> replica_state option list \<Rightarrow> bool" where
  "silent_hold_ours keys rotated S states \<longleftrightarrow>
     (\<forall>j<length states. states ! j = None \<longrightarrow>
        (\<forall>m s ks. S j = Some m \<longrightarrow> s \<in> set (kr_scopes keys) \<longrightarrow> map_of m (sc_Name s) = Some ks \<longrightarrow>
           hex_encode (machine_key rotated s) \<in> set ks
           \<and> ((\<exists>st. Some st \<in> set states \<and> \<not> Sealed st \<and> map_of (reported_keys st) (sc_Name s) = None) \<longrightarrow>
                ks \<noteq> [] \<longrightarrow> hd ks \<in> set (key_names s))))"

definition pushable :: "string keyring \<Rightarrow> bool" where
  "pushable k \<longleftrightarrow> keyring_ok (kr_scopes k) \<and> scope_ids_ok (kr_scopes k)"

lemma Valid_pushable: "Valid (\<lambda>m. m) k = None \<Longrightarrow> keyring_ids_ok k \<Longrightarrow> pushable k"
  by (simp add: pushable_def Valid_keyring_ok scope_ids_ok_def keyring_ids_ok_def)

lemma pushed_cross:
  assumes "pushed (heldKeys K) wake states S S' step" "cross_readable S" "\<And>i m. S i = Some m \<Longrightarrow> joins (heldKeys K) m" "keyring_ok (kr_scopes K)"
  shows "cross_readable S'"
  using assms(1) by (intro joins_cross[OF assms(2,3) _ heldKeys_joins_itself[OF assms(4)]]) (auto simp: pushed_def)

text \<open>The states are what the replicas that answered serve.\<close>

definition answers_read :: "serving \<Rightarrow> replica_state option list \<Rightarrow> bool" where
  "answers_read S states \<longleftrightarrow> (\<forall>i<length states. \<forall>st. states ! i = Some st \<longrightarrow> S i = (if Sealed st then None else Some (reported_keys st)))"

lemma inUse_holders:
  assumes "inUse (holders states name) i"
  shows "\<exists>st ks. Some st \<in> set states \<and> \<not> Sealed st \<and> map_of (reported_keys st) name = Some ks \<and> ks \<noteq> [] \<and> hd ks = hex_encode i"
  using assms by (force simp: inUse_def holders_def list_ex_iff List.map_filter_def split: option.splits if_splits)

text \<open>What the plan pushes first makes active only keys that a silent replica holds too.\<close>

lemma first_push_known:
  assumes "planHandOver keys states rotated = Inr plan" "keyring_ok (kr_scopes keys)"
    and "answers_read S states" "cross_readable S" "silent_hold_ours keys rotated S states"
    and "j < length states" "states ! j = None" "S j = Some m" "map_of m name = Some ks" "map_of (heldKeys (first_push plan keys)) name = Some ks'"
  shows "hd ks' \<in> set ks"
proof -
  obtain hold where h: "\<forall>s\<in>set (kr_scopes keys). first_held states rotated hold s"
    and a: "list_all2 (activated hold) (kr_scopes keys) (kr_scopes (first_push plan keys))"
    using planHandOver_cases[OF assms(1,2)] by metis
  have ok: "keyring_ok (kr_scopes (first_push plan keys))" by (rule activated_ok[OF a assms(2)])
  obtain t where t: "t \<in> set (kr_scopes (first_push plan keys))" "sc_Name t = name" "ks' = key_names t"
    using assms(10) ok by (auto simp: heldKeys_def key_report_in)
  obtain s where s: "s \<in> set (kr_scopes keys)" "activated hold s t" using activated_in[OF a t(1)] by blast
  have n: "sc_Name s = name" using s(2) t(2) by (simp add: activated_def)
  have ne: "keks t \<noteq> []" using ok t(1) by (simp add: keyring_ok_def)
  have ours: "hex_encode (machine_key rotated s) \<in> set ks" using assms(5-9) s(1) n by (auto simp: silent_hold_ours_def)
  have f: "first_held states rotated hold s" using h s(1) by blast
  have "hex_encode (ke_ID (hd (keks t))) \<in> set ks"
  proof (cases "map_of hold (sc_Name s)")
    case None
    then have "keks t = keks s" "map_of rotated (sc_Name s) = None" using s(2) f by (simp_all add: activated_def first_held_def Let_def)
    then show ?thesis using ours by (simp add: machine_key_def)
  next
    case (Some i)
    then have i: "ke_ID (hd (keks t)) = i" and u: "inUse (holders states name) i \<or> map_of rotated name = Some i"
      using s(2) f n by (simp_all add: activated_def first_held_def Let_def)
    show ?thesis
    proof (cases "map_of rotated name = Some i")
      case True
      then show ?thesis using ours i n by (simp add: machine_key_def)
    next
      case False
      then obtain st l where st: "Some st \<in> set states" "\<not> Sealed st" "map_of (reported_keys st) name = Some l" "l \<noteq> []" "hd l = hex_encode i"
        using u inUse_holders by blast
      then obtain k where "k < length states" "states ! k = Some st" by (auto simp: in_set_conv_nth)
      then have "S k = Some (reported_keys st)" using assms(3) st(2) by (auto simp: answers_read_def)
      then have "hd l \<in> set ks" using assms(4,8,9) st(3,4) unfolding cross_readable_def by blast
      then show ?thesis using st(5) i by simp
    qed
  qed
  then show ?thesis using t(3) ne by (simp add: hd_map)
qed

text \<open>So the first push keeps the fleet readable, whoever was silent when it was planned.\<close>

lemma first_push_cross:
  assumes "planHandOver keys states rotated = Inr plan" "keyring_ok (kr_scopes keys)"
    and "answers_read S states" "cross_readable S" "\<And>i. S i \<noteq> None \<Longrightarrow> i < length states"
    and "silent_hold_ours keys rotated S states" "wake \<Longrightarrow> silent_serve_nothing S states"
    and "pushed (heldKeys (first_push plan keys)) wake states S S' step"
  shows "cross_readable S'"
proof -
  let ?R = "heldKeys (first_push plan keys)" and ?Q = "{j. j < length states \<and> states ! j = None}"
  obtain hold where a: "list_all2 (activated hold) (kr_scopes keys) (kr_scopes (first_push plan keys))"
    using planHandOver_cases[OF assms(1,2)] by metis
  have ok: "keyring_ok (kr_scopes (first_push plan keys))" by (rule activated_ok[OF a assms(2)])
  have P: "S' i = S i \<or> S' i = Some ?R \<and> i < length states \<and> pushable_to wake (states ! i)" for i using assms(8) by (simp add: pushed_def)
  show ?thesis
  proof (rule joins_cross_beside[OF assms(4), of ?Q ?R])
    fix i m assume "S i = Some m" "i \<notin> ?Q"
    then obtain st where st: "i < length states" "states ! i = Some st" using assms(5)[of i] by auto
    then have "m = reported_keys st" "\<not> Sealed st" using assms(3) \<open>S i = Some m\<close> by (auto simp: answers_read_def split: if_splits)
    then show "joins ?R m" using plan_joins[OF assms(1,2), of st] st nth_mem by metis
  next
    fix i show "S' i = S i \<or> S' i = Some ?R \<and> i \<notin> ?Q" using P[of i] by (auto simp: pushable_to_def)
  next
    show "joins ?R ?R" by (rule heldKeys_joins_itself[OF ok])
  next
    fix j m name ks ks'
    assume "j \<in> ?Q" "S j = Some m" "map_of m name = Some ks" "map_of ?R name = Some ks'"
    then show "hd ks' \<in> set ks" using first_push_known[OF assms(1-4,6)] by blast
  next
    fix j m i name ks ks'
    assume q: "j \<in> ?Q" "S j = Some m" "map_of m name = Some ks" "ks \<noteq> []" "map_of ?R name = Some ks'" "S' i = Some ?R"
    have "\<not> wake" using assms(7) q(1,2) by (force simp: silent_serve_nothing_def)
    then consider "S i = Some ?R" | st where "i < length states" "states ! i = Some st" "\<not> Sealed st"
      using P[of i] q(6) by (auto simp: pushable_to_def)
    then show "S i = Some ?R \<or> hd ks \<in> set ks' \<or> (\<exists>l l'. S i = Some l \<and> map_of l name = Some l')"
    proof cases
      case (2 st)
      then have Si: "S i = Some (reported_keys st)" using assms(3) by (auto simp: answers_read_def)
      show ?thesis
      proof (cases "map_of (reported_keys st) name")
        case None
        obtain t where t: "t \<in> set (kr_scopes (first_push plan keys))" "sc_Name t = name" "ks' = key_names t"
          using q(5) ok by (auto simp: heldKeys_def key_report_in)
        obtain s where s: "s \<in> set (kr_scopes keys)" "activated hold s t" using activated_in[OF a t(1)] by blast
        have "Some st \<in> set states" using 2(1,2) nth_mem by metis
        moreover have "j < length states" "states ! j = None" using q(1) by simp_all
        moreover have "sc_Name s = name" using s(2) t(2) by (simp add: activated_def)
        ultimately have "hd ks \<in> set (key_names s)"
          using assms(6) q(2-4) s(1) None 2(3) unfolding silent_hold_ours_def by blast
        then show ?thesis using activated_set[OF s(2)] t(3) by simp
      qed (use Si in auto)
    qed blast
  qed
qed

context replica_fleet
begin

text \<open>What a push of the keyring keeps is what its one push keeps.\<close>

lemma push_keyring_keeps:
  assumes "push_keyring rc opts keys states (h, res) = (h', res')" "pushable keys"
    and "\<And>f s. op_yaml opts f = Some s \<Longrightarrow> unyaml s = Some f" "saves_touch_nothing serving opts"
    and "Q (serving (ho_world h))"
    and "\<And>S' step. pushed (heldKeys keys) (may_wake opts h) states (serving (ho_world h)) S' step \<Longrightarrow> Q S'"
  shows "Q (serving (ho_world h'))"
proof -
  obtain w e where b: "op_beforeActivate opts (ho_world h) = (w, e)" by fastforce
  then have w: "serving w = serving (ho_world h)" using assms(4) by (metis saves_touch_nothing_def fst_conv)
  show ?thesis
  proof (cases e)
    case (Some x)
    then show ?thesis using assms(1,5) b w by (auto simp: push_keyring_def)
  next
    case None
    obtain h1 r where p: "push rc opts keys states (h\<lparr>ho_world := w\<rparr>) = (h1, r)" by fastforce
    have ids: "scope_ids_ok (kr_scopes keys)" using assms(2) by (simp add: pushable_def)
    note E = push_effect[OF p ids assms(3)]
    show ?thesis
    proof (cases r)
      case (Inl f)
      then have "h' = h1" using assms(1) b None p by (auto simp: push_keyring_def split: if_splits)
      then show ?thesis using E Inl w assms(5) by simp
    next
      case (Inr step)
      obtain h2 res2 where c: "confirmRefused rc keys (h1, res\<lparr>hr_step := step, hr_Activated := True\<rparr>) = (h2, res2)" by fastforce
      have "h' = h2" using assms(1) b None p Inr c by (simp add: push_keyring_def)
      moreover have "serving (ho_world h2) = serving (ho_world h1)" using confirm_keeps c by (auto simp: confirmRefused_def)
      moreover have "pushed (heldKeys keys) (may_wake opts h) states (serving (ho_world h)) (serving (ho_world h1)) step"
        using E Inr w by (simp add: may_wake_def)
      ultimately show ?thesis using assms(6) by simp
    qed
  qed
qed

lemma silent_new_loaded:
  "\<not> silent_new held states \<Longrightarrow> i < length states \<Longrightarrow> states ! i = None \<Longrightarrow> i \<in> set (sp_Loaded held)"
  by (force simp: silent_new_def list_ex_iff in_set_enumerate_eq)

lemma push_held_cross:
  assumes "push_held rc opts keys held states (h, res) = (h', res')" "pushable keys" "length states = hr_Total res"
    and "list_all2 (activated hold) (kr_scopes keys) (kr_scopes held)"
    and "\<And>f s. op_yaml opts f = Some s \<Longrightarrow> unyaml s = Some f" "saves_touch_nothing serving opts"
    and "cross_readable (serving (ho_world h))" "\<And>i. serving (ho_world h) i \<noteq> None \<Longrightarrow> i < length states"
    and "\<And>S' step. pushed (heldKeys held) (may_wake opts h) states (serving (ho_world h)) S' step \<Longrightarrow> cross_readable S'"
  shows "cross_readable (serving (ho_world h'))"
proof -
  have ids: "scope_ids_ok (kr_scopes held)" and ok: "keyring_ok (kr_scopes held)" "keyring_ok (kr_scopes keys)"
    using assms(2) activated_ids[OF assms(4)] activated_ok[OF assms(4)] by (simp_all add: pushable_def)
  obtain w e where b: "op_beforeHold opts held (ho_world h) = (w, e)" by fastforce
  then have w: "serving w = serving (ho_world h)" using assms(6) by (metis saves_touch_nothing_def fst_conv)
  obtain h1 r where p: "push rc opts held states (h\<lparr>ho_world := w\<rparr>) = (h1, r)" by fastforce
  note E = push_effect[OF p ids assms(5)]
  show ?thesis
  proof (cases "e = None \<and> (\<exists>step. r = Inr step)")
    case False
    then show ?thesis using assms(1,7) b p E w by (cases e; cases r) (auto simp: push_held_def)
  next
    case True
    then obtain step where r: "e = None" "r = Inr step" by blast
    then have P: "pushed (heldKeys held) (may_wake opts h) states (serving (ho_world h)) (serving (ho_world h1)) step"
      using E w by (simp add: may_wake_def)
    have C: "cross_readable (serving (ho_world h1))" by (rule assms(9)[OF P])
    let ?res = "res\<lparr>hr_step := step, hr_Held := Some step\<rparr>"
    show ?thesis
    proof (cases "\<not> everyServingReplicaHolds step \<or> sp_Loaded step = []")
      case True
      then show ?thesis using assms(1) b r p C by (auto simp: push_held_def Let_def split: if_splits)
    next
      case False
      obtain h2 again where a: "read_fleet rc (hr_Total res) h1 = (h2, again)" by fastforce
      note A = read_fleet_answers[OF a]
      show ?thesis
      proof (cases "hold_back keys step again")
        case (Some c)
        then show ?thesis using assms(1) b r p a A(2) C False by (auto simp: push_held_def Let_def)
      next
        case None
        then obtain plan where plan: "planHandOver keys again [] = Inr plan" "pl_held plan = None" and s: "\<not> silent_new step again"
          by (auto simp: hold_back_def split: if_splits sum.splits)
        have J: "joins (heldKeys keys) m" if m: "serving (ho_world h2) i = Some m" for i m
        proof -
          have "serving (ho_world h1) i = serving (ho_world h) i \<or> i < length states" using P by (auto simp: pushed_def)
          then have "i < length states" using m A(2) assms(8)[of i] by (metis option.distinct(1))
          then have i: "i < length again" using A(1) assms(3) by simp
          show ?thesis
          proof (cases "again ! i")
            case None
            then have "sameKeys m (heldKeys held)" using silent_new_loaded[OF s i] P m A(2) by (auto simp: pushed_def)
            then show ?thesis by (rule held_joins[OF _ assms(4) ok(2)])
          next
            case (Some st)
            then have "\<not> Sealed st" "m = reported_keys st" using A(3)[of i st] i A(1,2) m by (auto split: if_splits)
            moreover have "Some st \<in> set again" using Some i nth_mem by metis
            ultimately show ?thesis using plan_joins[OF plan(1) ok(2)] plan(2) by (simp add: first_push_def)
          qed
        qed
        have C2: "cross_readable (serving (ho_world h2))" using C A(2) by simp
        have "push_keyring rc opts keys again (h2, ?res) = (h', res')"
          using assms(1) b r p a None False by (simp add: push_held_def Let_def)
        then show ?thesis
          by (rule push_keyring_keeps[where Q = cross_readable, OF _ assms(2,5,6) C2]) (assumption, rule pushed_cross[OF _ C2 J ok(2)])
      qed
    qed
  qed
qed

text \<open>A replica that is silent stops a hand-over of held keys after its first push.\<close>

lemma push_held_beside_silence:
  assumes "push_held rc opts keys held states (h, res) = (h', res')" "scope_ids_ok (kr_scopes held)"
    and "\<And>f s. op_yaml opts f = Some s \<Longrightarrow> unyaml s = Some f" "saves_touch_nothing serving opts"
    and "i < length states" "states ! i = None" "Q (serving (ho_world h))"
    and "\<And>S' step. pushed (heldKeys held) (may_wake opts h) states (serving (ho_world h)) S' step \<Longrightarrow> Q S'"
  shows "Q (serving (ho_world h'))"
proof -
  obtain w e where b: "op_beforeHold opts held (ho_world h) = (w, e)" by fastforce
  then have w: "serving w = serving (ho_world h)" using assms(4) by (metis saves_touch_nothing_def fst_conv)
  obtain h1 r where p: "push rc opts held states (h\<lparr>ho_world := w\<rparr>) = (h1, r)" by fastforce
  note E = push_effect[OF p assms(2,3)]
  show ?thesis
  proof (cases "e = None \<and> (\<exists>step. r = Inr step)")
    case False
    then show ?thesis using assms(1,7) b p E w by (cases e; cases r) (auto simp: push_held_def)
  next
    case True
    then obtain step where r: "e = None" "r = Inr step" by blast
    then have P: "pushed (heldKeys held) (may_wake opts h) states (serving (ho_world h)) (serving (ho_world h1)) step"
      using E w by (simp add: may_wake_def)
    then have "\<not> everyServingReplicaHolds step" using assms(5,6) by (auto simp: pushed_def everyServingReplicaHolds_def)
    then have "h' = h1" using assms(1) b r p by (simp add: push_held_def Let_def)
    then show ?thesis using assms(8)[OF P] by simp
  qed
qed

text \<open>
  Beside a replica that says nothing nobody is unsealed, whatever keyring is handed over, unless
  the operator overrides it.
\<close>

theorem nobody_wakes_beside_silence:
  assumes "pushable keys" "\<And>f s. op_yaml opts f = Some s \<Longrightarrow> unyaml s = Some f" "saves_touch_nothing serving opts"
    and "snd (read_fleet rc (replicaCount (op_replicas opts)) (start_hand_over opts w)) = states"
    and "j < length states" "states ! j = None" "\<not> (op_unseal opts \<and> op_unchecked opts)" "serving w i = None"
  shows "serving (ho_world (fst (handOverKeys rc opts reached keys w))) i = None"
proof -
  let ?n = "replicaCount (op_replicas opts)" and ?res = "empty_result (replicaCount (op_replicas opts))"
  obtain h where rd: "read_fleet rc ?n (start_hand_over opts w) = (h, states)" using assms(4) by (metis prod.collapse)
  note A = read_fleet_answers[OF rd]
  have S: "serving (ho_world h) = serving w" using A(2) by (simp add: start_hand_over_def)
  have ans: "answers_read (serving w) states" using A S by (auto simp: answers_read_def start_hand_over_def)
  define h0 where "h0 = h\<lparr>ho_leaveSealed := op_unseal opts \<and> ho_unanswered h \<noteq> [] \<and> \<not> op_unchecked opts\<rparr>"
  have S0: "serving (ho_world h0) = serving w" using S by (simp add: h0_def)
  have "ho_unanswered h \<noteq> []" using all_answered[OF rd, of j] A(1) assms(5,6) by auto
  then have wake: "\<not> may_wake opts h0" using assms(7) by (auto simp: may_wake_def h0_def)
  have P: "S' i = None" if "pushed R (may_wake opts h0) states (serving (ho_world h0)) S' step" for R S' step
    using that wake assms(8) ans unfolding S0 by (auto simp: pushed_def pushable_to_def answers_read_def dest!: spec[of _ i])
  have "serving (ho_world (fst (case planHandOver keys states (op_rotated opts) of
              Inl f \<Rightarrow> (h, ?res\<lparr>hr_Problem := Some (Faulted f), hr_Unsafe := True, hr_ForeignCopy := is_foreign f\<rparr>)
            | Inr plan \<Rightarrow>
                let h = h\<lparr>ho_leaveSealed := op_unseal opts \<and> ho_unanswered h \<noteq> [] \<and> \<not> op_unchecked opts\<rparr> in
                (case pl_held plan of
                   None \<Rightarrow> push_keyring rc opts keys states (h, ?res)
                 | Some held \<Rightarrow> push_held rc opts keys held states (h, ?res))))) i = None" (is "serving (ho_world (fst ?body)) i = None")
  proof (cases "planHandOver keys states (op_rotated opts)")
    case (Inl f)
    then show ?thesis using S assms(8) by simp
  next
    case (Inr plan)
    obtain h' res' where B: "?body = (h', res')" by fastforce
    have "serving (ho_world h') i = None"
    proof (cases "pl_held plan")
      case None
      then have "push_keyring rc opts keys states (h0, ?res) = (h', res')" using B Inr by (simp add: Let_def h0_def)
      then show ?thesis
        by (rule push_keyring_keeps[where Q = "\<lambda>S. S i = None", OF _ assms(1-3)]) (use P S0 assms(8) in auto)
    next
      case (Some held)
      obtain hold where l: "list_all2 (activated hold) (kr_scopes keys) (kr_scopes held)"
        using planHandOver_cases[OF Inr] assms(1) Some by (metis first_push_def option.simps(5) pushable_def)
      have ids: "scope_ids_ok (kr_scopes held)" using activated_ids[OF l] assms(1) by (simp add: pushable_def)
      have "push_held rc opts keys held states (h0, ?res) = (h', res')" using B Inr Some by (simp add: Let_def h0_def)
      then show ?thesis
        by (rule push_held_beside_silence[where Q = "\<lambda>S. S i = None", OF _ ids assms(2,3,5,6)]) (use P S0 assms(8) in auto)
    qed
    then show ?thesis using B by simp
  qed
  moreover have "serving (ho_world (fst (record_taken opts x))) = serving (ho_world (fst x))" for x
    using assms(3) by (cases x) (auto simp: record_taken_def Let_def saves_touch_nothing_def split: prod.splits, metis fst_conv)
  moreover have "hr_Total ?res = ?n" by (simp add: empty_result_def)
  moreover have "\<not> reached \<Longrightarrow> ho_world (fst (handOverKeys rc opts reached keys w)) = w"
    by (simp add: handOverKeys_def start_hand_over_def)
  ultimately show ?thesis using assms(8) by (cases reached) (simp_all add: handOverKeys_def Let_def rd)
qed

text \<open>
  A hand-over keeps the fleet readable where every replica is one the record counts, the silent
  replicas hold what this machine writes under, and the operator does not have sealed replicas
  woken beside a silent one that serves.
\<close>

theorem hand_over_keeps_readable:
  assumes "pushable keys" "\<And>f s. op_yaml opts f = Some s \<Longrightarrow> unyaml s = Some f" "saves_touch_nothing serving opts"
    and "cross_readable (serving w)" "\<And>i. serving w i \<noteq> None \<Longrightarrow> i < replicaCount (op_replicas opts)"
    and "snd (read_fleet rc (replicaCount (op_replicas opts)) (start_hand_over opts w)) = states"
    and "silent_hold_ours keys (op_rotated opts) (serving w) states"
    and "op_unseal opts \<Longrightarrow> op_unchecked opts \<Longrightarrow> silent_serve_nothing (serving w) states"
  shows "cross_readable (serving (ho_world (fst (handOverKeys rc opts reached keys w))))"
proof -
  let ?n = "replicaCount (op_replicas opts)" and ?res = "empty_result (replicaCount (op_replicas opts))"
  obtain h where rd: "read_fleet rc ?n (start_hand_over opts w) = (h, states)" using assms(6) by (metis prod.collapse)
  note A = read_fleet_answers[OF rd]
  have S: "serving (ho_world h) = serving w" using A(2) by (simp add: start_hand_over_def)
  have ans: "answers_read (serving w) states" using A S by (auto simp: answers_read_def start_hand_over_def)
  define h0 where "h0 = h\<lparr>ho_leaveSealed := op_unseal opts \<and> ho_unanswered h \<noteq> [] \<and> \<not> op_unchecked opts\<rparr>"
  define body where "body =
        (case planHandOver keys states (op_rotated opts) of
              Inl f \<Rightarrow> (h, ?res\<lparr>hr_Problem := Some (Faulted f), hr_Unsafe := True, hr_ForeignCopy := is_foreign f\<rparr>)
            | Inr plan \<Rightarrow>
                let h = h\<lparr>ho_leaveSealed := op_unseal opts \<and> ho_unanswered h \<noteq> [] \<and> \<not> op_unchecked opts\<rparr> in
                (case pl_held plan of
                   None \<Rightarrow> push_keyring rc opts keys states (h, ?res)
                 | Some held \<Rightarrow> push_held rc opts keys held states (h, ?res)))"
  obtain h' res' where B: "body = (h', res')" by fastforce
  have S0: "serving (ho_world h0) = serving w" using S by (simp add: h0_def)
  have wake: "silent_serve_nothing (serving w) states" if "may_wake opts h0"
  proof (cases "op_unchecked opts")
    case True
    then show ?thesis using assms(8) that by (simp add: may_wake_def)
  next
    case False
    then have "ho_unanswered h = []" using that by (auto simp: may_wake_def h0_def)
    then show ?thesis using all_answered[OF rd] A(1) assms(5) by (auto simp: silent_serve_nothing_def)
  qed
  have "cross_readable (serving (ho_world h'))"
  proof (cases "planHandOver keys states (op_rotated opts)")
    case (Inl f)
    then show ?thesis using B S assms(4) by (auto simp: body_def)
  next
    case (Inr plan)
    have ok: "keyring_ok (kr_scopes keys)" using assms(1) by (simp add: pushable_def)
    have F: "cross_readable S'" if "pushed (heldKeys (first_push plan keys)) (may_wake opts h0) states (serving (ho_world h0)) S' step" for S' step
      by (rule first_push_cross[OF Inr ok ans assms(4) _ assms(7) wake that[unfolded S0]]) (use assms(5) A(1) in auto)
    obtain hold where hold: "list_all2 (activated hold) (kr_scopes keys) (kr_scopes (first_push plan keys))"
      using planHandOver_cases[OF Inr ok] by metis
    show ?thesis
    proof (cases "pl_held plan")
      case None
      then have "push_keyring rc opts keys states (h0, ?res) = (h', res')" using B Inr by (simp add: body_def Let_def h0_def)
      then show ?thesis
        by (rule push_keyring_keeps[where Q = cross_readable, OF _ assms(1-3)]) (use F S0 assms(4) None in \<open>auto simp: first_push_def\<close>)
    next
      case (Some held)
      have p: "push_held rc opts keys held states (h0, ?res) = (h', res')" using B Inr Some by (simp add: body_def Let_def h0_def)
      have n: "length states = hr_Total ?res" using A(1) by (simp add: empty_result_def)
      have l: "list_all2 (activated hold) (kr_scopes keys) (kr_scopes held)" using hold Some by (simp add: first_push_def)
      show ?thesis
        by (rule push_held_cross[OF p assms(1) n l assms(2,3)])
          (use F S0 assms(4,5) A(1) Some in \<open>auto simp: first_push_def\<close>)
    qed
  qed
  moreover have "serving (ho_world (fst (record_taken opts (h', res')))) = serving (ho_world h')"
    using assms(3) by (auto simp: record_taken_def Let_def saves_touch_nothing_def split: prod.splits) (metis fst_conv)
  moreover have "hr_Total ?res = ?n" by (simp add: empty_result_def)
  then have "reached \<Longrightarrow> handOverKeys rc opts reached keys w = record_taken opts (h', res')"
    unfolding B[symmetric] by (simp add: handOverKeys_def body_def Let_def rd)
  moreover have "\<not> reached \<Longrightarrow> ho_world (fst (handOverKeys rc opts reached keys w)) = w"
    by (simp add: handOverKeys_def start_hand_over_def)
  ultimately show ?thesis using assms(4) by (cases reached) simp_all
qed

end

end
