(* ===== verification/Fleet_Verdict.thy ===== *)
theory Fleet_Verdict
  imports Replica_Fleet
begin

text \<open>
  What \<open>storage state\<close> says of a serving replica (\<open>keysAgainst\<close> and \<open>scopeAgainst\<close> of
  \<open>cli/storagekeyholder.go\<close>) and how far it agrees with what an unseal does. A verdict is the
  scopes that differ, each with the kind of the difference; its words are left out. Go panics
  where a scope of the keyring has no key, which a valid keyring never has.
\<close>

section \<open>The verdict\<close>

datatype diff = Diff_behind | Diff_no_scope | Diff_no_current | Diff_no_other | Diff_older_active | Diff_foreign_copy

definition newerThanActive :: "'k scope \<Rightarrow> string \<Rightarrow> bool" where
  "newerThanActive s i =
     (case find (\<lambda>e. hex_encode (ke_ID e) = i) (kr_keys (sc_keys s)) of
        None \<Rightarrow> False
      | Some e \<Rightarrow> ke_Created (hd (kr_keys (sc_keys s))) < ke_Created e)"

definition scopeAgainst :: "string \<Rightarrow> (string \<times> string list) list \<Rightarrow> string keyring \<Rightarrow> diff option" where
  "scopeAgainst name held keys =
     (let theirs = map_of held name \<noteq> None; got = (case map_of held name of None \<Rightarrow> [] | Some g \<Rightarrow> g) in
      case ScopeNamed keys name of
        None \<Rightarrow> Some Diff_behind
      | Some scope \<Rightarrow>
          let mine = (case map_of (heldKeys keys) name of None \<Rightarrow> [] | Some m \<Rightarrow> m) in
          if theirs \<and> got \<noteq> [] \<and> \<not> list_ex (\<lambda>i. i \<in> set mine) got then Some Diff_foreign_copy
          else if \<not> theirs then Some Diff_no_scope
          else if list_ex (\<lambda>i. i \<notin> set mine) got then Some Diff_behind
          else if got \<noteq> [] \<and> hd got \<noteq> hd mine \<and> newerThanActive scope (hd got) then Some Diff_behind
          else if hd mine \<notin> set got then Some Diff_no_current
          else if length got \<noteq> length mine then Some Diff_no_other
          else if hd got \<noteq> hd mine then Some Diff_older_active
          else None)"

text \<open>The names only the replica reports come in the order of the report; the code's order there is Go's.\<close>

definition verdict_names :: "replica_state \<Rightarrow> string keyring \<Rightarrow> string list" where
  "verdict_names st keys =
     sorted_names (heldKeys keys) @ filter (\<lambda>n. map_of (heldKeys keys) n = None) (remdups (map fst (reported_keys st)))"

definition keysAgainst :: "replica_state \<Rightarrow> string keyring \<Rightarrow> (string \<times> diff) list" where
  "keysAgainst st keys =
     List.map_filter (\<lambda>name. map_option (Pair name) (scopeAgainst name (reported_keys st) keys)) (verdict_names st keys)"

definition verdict_behind :: "(string \<times> diff) list \<Rightarrow> bool" where
  "verdict_behind v \<longleftrightarrow> list_ex (\<lambda>(_, d). d = Diff_behind \<or> d = Diff_foreign_copy) v"

section \<open>The verdict and the plan\<close>

lemma map_filter_set: "y \<in> set (List.map_filter f xs) \<longleftrightarrow> (\<exists>x\<in>set xs. f x = Some y)"
  by (induction xs) (auto simp: map_filter_simps split: option.splits)

lemma keysAgainst_set:
  "(name, d) \<in> set (keysAgainst st keys) \<longleftrightarrow>
     (map_of (heldKeys keys) name \<noteq> None \<or> map_of (reported_keys st) name \<noteq> None) \<and> scopeAgainst name (reported_keys st) keys = Some d"
proof -
  have "name \<in> set (verdict_names st keys) \<longleftrightarrow> map_of (heldKeys keys) name \<noteq> None \<or> map_of (reported_keys st) name \<noteq> None"
    by (auto simp: verdict_names_def sorted_names_def map_of_eq_None_iff)
  then show ?thesis by (auto simp: keysAgainst_def map_filter_set)
qed

lemma find_rev_same:
  assumes "distinct (map f xs)"
  shows "find (\<lambda>y. f y = k) (rev xs) = find (\<lambda>y. f y = k) xs"
proof (cases "\<exists>x\<in>set xs. f x = k")
  case True
  then obtain x where x: "x \<in> set xs" "f x = k" by blast
  have "distinct (map f (rev xs))" using assms by (simp add: rev_map[symmetric])
  then show ?thesis using find_rev_unique[OF assms x(1)] find_rev_unique[of f "rev xs" x] x by simp
next
  case False
  then have "find (\<lambda>y. f y = k) (rev xs) = None" "find (\<lambda>y. f y = k) xs = None" by (simp_all add: find_None_iff)
  then show ?thesis by simp
qed

lemma scope_known:
  assumes "keyring_ok (kr_scopes keys)" "ScopeNamed keys name = Some s"
  shows "s \<in> set (kr_scopes keys)" "sc_Name s = name" "ours keys name = Some (keks s)"
    "map_of (heldKeys keys) name = Some (key_names s)" "keks s \<noteq> []" "distinct (key_names s)"
proof -
  have "find (\<lambda>s. sc_Name s = name) (kr_scopes keys) = Some s" using assms(2) by (simp add: ScopeNamed_def)
  from find_in[OF this] show s: "s \<in> set (kr_scopes keys)" "sc_Name s = name" by simp_all
  have d: "distinct (map sc_Name (kr_scopes keys))" using assms(1) by (simp add: keyring_ok_def)
  show "ours keys name = Some (keks s)" using assms(2) by (simp add: ours_def find_rev_same[OF d] ScopeNamed_def)
  show "map_of (heldKeys keys) name = Some (key_names s)" using s key_report_in[OF assms(1), of name "key_names s"] unfolding heldKeys_def by blast
  show "keks s \<noteq> []" using s(1) assms(1) by (simp add: keyring_ok_def)
  show "distinct (key_names s)" using s(1) assms(1) by (intro distinct_hex) (simp add: keyring_ok_def)
qed

lemma scope_unknown:
  assumes "ScopeNamed keys name = None"
  shows "ours keys name = None" "map_of (heldKeys keys) name = None"
proof -
  have "sc_Name s \<noteq> name" if "s \<in> set (kr_scopes keys)" for s using assms that by (auto simp: ScopeNamed_def find_None_iff)
  then have "find (\<lambda>s. sc_Name s = name) (rev (kr_scopes keys)) = None" by (auto simp: find_None_iff)
  then show "ours keys name = None" "map_of (heldKeys keys) name = None" by (simp_all add: ours_def heldKeys_def map_of_key_report)
qed

text \<open>One scope: the verdict says behind exactly where the plan refuses.\<close>

lemma scope_verdict:
  assumes ok: "keyring_ok (kr_scopes keys)" and held: "map_of held name = Some ks"
  shows "scope_behind keys i name ks \<noteq> None \<longleftrightarrow> scopeAgainst name held keys \<in> {Some Diff_behind, Some Diff_foreign_copy}"
proof (cases "ScopeNamed keys name")
  case None
  then show ?thesis using scope_unknown[OF None] by (simp add: scope_behind_def scopeAgainst_def)
next
  case (Some s)
  note k = scope_known[OF ok Some]
  have mem: "entry_with (keks s) x = None \<longleftrightarrow> x \<notin> set (key_names s)" for x using entry_with_iff[of "keks s" x] by auto
  obtain a rest where a: "keks s = a # rest" using k(5) by (cases "keks s") auto
  have newer: "(case entry_with (keks s) x of Some used \<Rightarrow> ke_ID used \<noteq> ke_ID a \<and> ke_Created a < ke_Created used | None \<Rightarrow> False)
      \<longleftrightarrow> x \<noteq> hd (key_names s) \<and> newerThanActive s x" for x
  proof -
    have "distinct (map (\<lambda>e. hex_encode (ke_ID e)) (keks s))" using k(6) by simp
    from find_rev_same[OF this, of x] have "entry_with (keks s) x = find (\<lambda>e. hex_encode (ke_ID e) = x) (keks s)" by (simp add: entry_with_def)
    moreover have "ke_ID e \<noteq> ke_ID a \<longleftrightarrow> x \<noteq> hd (key_names s)" if "find (\<lambda>e. hex_encode (ke_ID e) = x) (keks s) = Some e" for e
      using find_in[OF that] by (auto simp: a hex_encode_inj)
    ultimately show ?thesis by (cases "find (\<lambda>e. hex_encode (ke_ID e) = x) (keks s)") (simp_all add: newerThanActive_def a)
  qed
  show ?thesis
  proof (cases "ks = []")
    case True
    then show ?thesis using k Some held by (simp add: scope_behind_def scopeAgainst_def Let_def)
  next
    case ks: False
    show ?thesis
    proof (cases "list_all (\<lambda>x. x \<in> set (key_names s)) ks")
      case True
      then have f: "find (\<lambda>x. entry_with (keks s) x = None) ks = None" "list_ex (\<lambda>x. entry_with (keks s) x \<noteq> None) ks"
        "\<not> list_ex (\<lambda>x. x \<notin> set (key_names s)) ks" "list_ex (\<lambda>x. x \<in> set (key_names s)) ks"
        using ks mem by (auto simp: find_None_iff list_all_iff list_ex_iff neq_Nil_conv)
      have "scope_behind keys i name ks \<noteq> None \<longleftrightarrow> hd ks \<noteq> hd (key_names s) \<and> newerThanActive s (hd ks)"
        using newer[of "hd ks"] ks f k(3) Some by (cases ks) (auto simp: scope_behind_def a split: option.splits)
      moreover have "scopeAgainst name held keys \<in> {Some Diff_behind, Some Diff_foreign_copy}
          \<longleftrightarrow> hd ks \<noteq> hd (key_names s) \<and> newerThanActive s (hd ks)"
        using ks f k(4) Some held by (simp add: scopeAgainst_def Let_def)
      ultimately show ?thesis by blast
    next
      case False
      then have "find (\<lambda>x. entry_with (keks s) x = None) ks \<noteq> None" "list_ex (\<lambda>x. x \<notin> set (key_names s)) ks"
        using mem by (auto simp: find_None_iff list_all_iff list_ex_iff)
      then show ?thesis using ks k(3,4) Some held by (auto simp: scope_behind_def scopeAgainst_def Let_def split: option.splits)
    qed
  qed
qed

lemma replica_verdict:
  assumes "keyring_ok (kr_scopes keys)" "\<not> Sealed st" "\<not> outdatedImage st"
  shows "replica_behind keys i (Some st) \<noteq> None \<longleftrightarrow> verdict_behind (keysAgainst st keys)"
proof -
  let ?f = "\<lambda>name. scope_behind keys i name (case map_of (reported_keys st) name of None \<Rightarrow> [] | Some t \<Rightarrow> t)"
  have n: "name \<in> set (sorted_names (reported_keys st)) \<longleftrightarrow> map_of (reported_keys st) name \<noteq> None" for name
    by (simp add: sorted_names_def map_of_eq_None_iff)
  have "replica_behind keys i (Some st) \<noteq> None \<longleftrightarrow> (\<exists>name\<in>set (sorted_names (reported_keys st)). ?f name \<noteq> None)"
  proof -
    have "replica_behind keys i (Some st) = (case List.map_filter ?f (sorted_names (reported_keys st)) of [] \<Rightarrow> None | f # _ \<Rightarrow> Some f)"
      using assms(2,3) by (simp add: replica_behind_def)
    then have b: "replica_behind keys i (Some st) = None \<longleftrightarrow> List.map_filter ?f (sorted_names (reported_keys st)) = []" by (simp split: list.split)
    show ?thesis by (simp only: b map_filter_Nil_iff ball_simps(10))
  qed
  also have "\<dots> \<longleftrightarrow> (\<exists>name ks. map_of (reported_keys st) name = Some ks \<and> scope_behind keys i name ks \<noteq> None)"
  proof (intro iffI; elim bexE exE conjE)
    fix name assume a: "name \<in> set (sorted_names (reported_keys st))" "?f name \<noteq> None"
    then obtain ks where "map_of (reported_keys st) name = Some ks" using n[of name] by auto
    then show "\<exists>name ks. map_of (reported_keys st) name = Some ks \<and> scope_behind keys i name ks \<noteq> None"
      using a(2) by (intro exI[of _ name] exI[of _ ks]) simp
  next
    fix name ks assume "map_of (reported_keys st) name = Some ks" "scope_behind keys i name ks \<noteq> None"
    then show "\<exists>name\<in>set (sorted_names (reported_keys st)). ?f name \<noteq> None" using n[of name] by (intro bexI[of _ name]) simp_all
  qed
  also have "\<dots> \<longleftrightarrow> (\<exists>name ks. map_of (reported_keys st) name = Some ks
      \<and> scopeAgainst name (reported_keys st) keys \<in> {Some Diff_behind, Some Diff_foreign_copy})"
    using scope_verdict[OF assms(1)] by blast
  also have "\<dots> \<longleftrightarrow> verdict_behind (keysAgainst st keys)"
  proof -
    have "map_of (reported_keys st) name \<noteq> None"
      if "map_of (heldKeys keys) name \<noteq> None" "scopeAgainst name (reported_keys st) keys \<in> {Some Diff_behind, Some Diff_foreign_copy}" for name
      using that scope_unknown(2)[of keys name]
      by (cases "ScopeNamed keys name") (auto simp: scopeAgainst_def Let_def split: option.splits if_splits)
    then show ?thesis by (fastforce simp: verdict_behind_def list_ex_iff keysAgainst_set)
  qed
  finally show ?thesis .
qed

definition is_behind :: "hand_over_fault \<Rightarrow> bool" where
  "is_behind f \<longleftrightarrow> (case f of Behind _ _ \<Rightarrow> True | Minted_twice _ _ \<Rightarrow> True | _ \<Rightarrow> False)"

lemma scope_behind_kind:
  assumes "keyring_ok (kr_scopes keys)" "scope_behind keys i name ks = Some f"
  shows "is_behind f"
proof (cases "ScopeNamed keys name")
  case None
  then show ?thesis using assms(2) scope_unknown[OF None] by (auto simp: scope_behind_def is_behind_def)
next
  case (Some s)
  note k = scope_known[OF assms(1) Some]
  then obtain a rest where "keks s = a # rest" by (cases "keks s") auto
  then show ?thesis using assms(2) k(3) Some by (auto simp: scope_behind_def is_behind_def split: if_splits option.splits list.splits)
qed

lemma replica_behind_kind:
  assumes "keyring_ok (kr_scopes keys)" "replica_behind keys i (Some st) = Some f" "\<not> outdatedImage st"
  shows "is_behind f"
proof -
  let ?f = "\<lambda>name. scope_behind keys i name (case map_of (reported_keys st) name of None \<Rightarrow> [] | Some t \<Rightarrow> t)"
  have "f \<in> set (List.map_filter ?f (sorted_names (reported_keys st)))"
    using assms(2,3) by (auto simp: replica_behind_def split: if_splits list.splits)
  then show ?thesis using scope_behind_kind[OF assms(1)] by (auto simp: map_filter_set)
qed

lemma fleet_behind_found:
  assumes "keyring_ok (kr_scopes keys)" "\<And>st. Some st \<in> set states \<Longrightarrow> \<not> Sealed st \<Longrightarrow> \<not> outdatedImage st"
  shows "(fleet_behind keys i states \<noteq> None \<longleftrightarrow> (\<exists>st. Some st \<in> set states \<and> \<not> Sealed st \<and> verdict_behind (keysAgainst st keys)))
    \<and> (\<forall>f. fleet_behind keys i states = Some f \<longrightarrow> is_behind f)"
  using assms(2)
proof (induction states arbitrary: i)
  case (Cons answer states)
  have IH: "(fleet_behind keys (Suc i) states \<noteq> None \<longleftrightarrow> (\<exists>st. Some st \<in> set states \<and> \<not> Sealed st \<and> verdict_behind (keysAgainst st keys)))
      \<and> (\<forall>f. fleet_behind keys (Suc i) states = Some f \<longrightarrow> is_behind f)"
    by (rule Cons.IH) (use Cons.prems in simp)
  show ?case
  proof (cases "\<exists>st. answer = Some st \<and> \<not> Sealed st")
    case True
    then obtain st where st: "answer = Some st" "\<not> Sealed st" by blast
    then have o: "\<not> outdatedImage st" using Cons.prems by simp
    have r: "replica_behind keys i answer \<noteq> None \<longleftrightarrow> verdict_behind (keysAgainst st keys)"
      using replica_verdict[OF assms(1) st(2) o] st(1) by simp
    show ?thesis
    proof (cases "replica_behind keys i answer")
      case None
      then show ?thesis using IH r st(1) by auto
    next
      case (Some f)
      then have "verdict_behind (keysAgainst st keys)" "is_behind f"
        using r replica_behind_kind[OF assms(1) _ o] st(1) by auto
      then show ?thesis using Some st by auto
    qed
  next
    case False
    then have "replica_behind keys i answer = None" by (cases answer) (auto simp: replica_behind_def)
    then show ?thesis using IH False by auto
  qed
qed simp

lemma plan_scopes_fault: "plan_scopes states rotated ss acc = Inl f \<Longrightarrow> \<not> is_behind f"
  by (induction states rotated ss acc rule: plan_scopes.induct) (auto simp: is_behind_def Let_def split: if_splits option.splits)

text \<open>
  C17. The state command calls a replica ahead of this machine exactly when an unseal would
  refuse for that reason: over any replicas that say which keys they hold, a plan fails
  because the keyring is behind or a scope was minted twice if and only if the verdict of
  some serving replica says so.
\<close>

theorem state_says_behind_where_unseal_refuses:
  assumes "Valid (\<lambda>m. m) keys = None" "\<And>st. Some st \<in> set states \<Longrightarrow> \<not> Sealed st \<Longrightarrow> \<not> outdatedImage st"
  shows "(\<exists>f. planHandOver keys states rotated = Inl f \<and> is_behind f)
    \<longleftrightarrow> (\<exists>st. Some st \<in> set states \<and> \<not> Sealed st \<and> verdict_behind (keysAgainst st keys))"
proof -
  note F = fleet_behind_found[OF Valid_keyring_ok[OF assms(1)] assms(2), of states 0]
  show ?thesis
  proof (cases "fleet_behind keys 0 states")
    case None
    then have "\<not> is_behind f" if "planHandOver keys states rotated = Inl f" for f
      using that plan_scopes_fault[of states rotated "kr_scopes keys" "([], [])"]
      by (auto simp: planHandOver_def is_behind_def split: sum.splits if_splits prod.splits)
    then show ?thesis using F None by auto
  next
    case (Some f)
    then show ?thesis using F by (auto simp: planHandOver_def)
  qed
qed

section \<open>What an unseal takes\<close>

lemma choose_key_exists:
  assumes "e \<in> set es" "heldByAll hs (ke_ID e)" "inUse hs (ke_ID e)"
  shows "choose_key hs previous es \<noteq> None"
proof -
  let ?f = "\<lambda>e chosen.
            let used = inUse hs (ke_ID e) \<or> previous = Some (ke_ID e) in
            if heldByAll hs (ke_ID e) \<and> used \<and> (case chosen of None \<Rightarrow> True | Some c \<Rightarrow> ke_Created c < ke_Created e)
            then Some e else chosen"
  have stays: "c \<noteq> None \<Longrightarrow> fold ?f xs c \<noteq> None" for xs c
    by (induction xs arbitrary: c) (auto simp: Let_def)
  have "fold ?f es c \<noteq> None" for c
    using assms(1)
  proof (induction es arbitrary: c)
    case (Cons x xs)
    show ?case
    proof (cases "x = e")
      case True
      then have "?f x c \<noteq> None" using assms(2,3) by (auto simp: Let_def split: option.splits)
      from stays[OF this, of xs] show ?thesis unfolding fold_simps .
    next
      case False
      then show ?thesis using Cons by simp
    qed
  qed simp
  then obtain c where "fold ?f es None = Some c" by blast
  then show ?thesis unfolding choose_key_def by simp
qed

text \<open>The identifiers a plan holds back are keys of the scopes it names.\<close>

definition known_hold :: "'k scope list \<Rightarrow> (string \<times> string) list \<Rightarrow> bool" where
  "known_hold ss hold \<longleftrightarrow> fst ` set hold \<subseteq> sc_Name ` set ss
     \<and> (\<forall>s\<in>set ss. \<forall>i. map_of hold (sc_Name s) = Some i \<longrightarrow> i \<in> ke_ID ` set (keks s))"

lemma known_hold_update:
  assumes "known_hold ss hold" "s \<in> set ss" "e \<in> set (keks s)" "distinct (map sc_Name ss)"
  shows "known_hold ss (AList.update (sc_Name s) (ke_ID e) hold)"
proof -
  have "t = s" if "t \<in> set ss" "sc_Name t = sc_Name s" for t using that assms(2,4) by (meson distinct_map inj_onD)
  moreover have "fst ` set (AList.update (sc_Name s) (ke_ID e) hold) = insert (sc_Name s) (fst ` set hold)"
    using dom_update[of "sc_Name s" "ke_ID e" hold] by (simp add: dom_map_of_conv_image_fst[symmetric])
  ultimately show ?thesis using assms(1-3) by (auto simp: known_hold_def update_conv' split: if_splits)
qed

lemma plan_scopes_total:
  assumes "\<And>s. s \<in> set ss \<Longrightarrow> keks s \<noteq> [] \<and> (heldByAll (holders states (sc_Name s)) (ke_ID (hd (keks s)))
      \<or> choose_key (holders states (sc_Name s)) None (keks s) \<noteq> None)"
    and "set ss \<subseteq> set all" "distinct (map sc_Name all)" "known_hold all hold"
  shows "\<exists>hold' scopes'. plan_scopes states [] ss (hold, scopes) = Inr (hold', scopes') \<and> known_hold all hold'"
  using assms(1,2,4)
proof (induction ss arbitrary: hold scopes)
  case (Cons s ss)
  note IH = Cons.IH[OF Cons.prems(1)]
  show ?case
  proof (cases "heldByAll (holders states (sc_Name s)) (ke_ID (hd (keks s)))")
    case True
    then show ?thesis using IH[of hold scopes] Cons.prems by (simp add: Let_def)
  next
    case False
    then obtain e where e: "choose_key (holders states (sc_Name s)) None (keks s) = Some e" "keks s \<noteq> []" using Cons.prems(1)[of s] by auto
    have "known_hold all (AList.update (sc_Name s) (ke_ID e) hold)"
      by (rule known_hold_update[OF Cons.prems(3) _ _ assms(3)]) (use Cons.prems(2) choose_key_Some[OF e(1)] in auto)
    then show ?thesis using IH[of "AList.update (sc_Name s) (ke_ID e) hold" "scopes @ [sc_Name s]"] Cons.prems(2) False e by (simp add: Let_def)
  qed
qed simp

lemma find_index_exists: "x \<in> set xs \<Longrightarrow> P x \<Longrightarrow> \<exists>n. find_index P xs = Some n"
  by (induction xs) auto

lemma to_front_valid:
  assumes "scopeValid rd s = None" "n < length (keks s)"
  shows "scopeValid rd (s\<lparr>sc_keys := sc_keys s\<lparr>kr_keys := to_front n (keks s)\<rparr>\<rparr>) = None"
proof -
  have m: "mset (to_front n (keks s)) = mset (keks s)" by (rule mset_to_front[OF assms(2)])
  then have "mset (map ke_ID (to_front n (keks s))) = mset (map ke_ID (keks s))" by (metis mset_map)
  then have "distinct (map ke_ID (to_front n (keks s))) = distinct (map ke_ID (keks s))" by (rule mset_eq_imp_distinct_iff)
  then show ?thesis using assms(1) mset_eq_setD[OF m] by (auto simp: scopeValid_None keysValid_None entries_ok_def to_front_def)
qed

lemma activate_scopes_total:
  assumes "\<And>s. s \<in> set ss \<Longrightarrow> scopeValid (\<lambda>m. m) s = None" "distinct (map sc_Name ss)"
    and "\<And>s i. s \<in> set ss \<Longrightarrow> map_of pending (sc_Name s) = Some i \<Longrightarrow> i \<in> ke_ID ` set (keks s)"
  shows "\<exists>ts. activate_scopes pending ss = Inr (ts, filter (\<lambda>p. fst p \<notin> sc_Name ` set ss) pending)"
  using assms
proof (induction ss arbitrary: pending)
  case (Cons s ss)
  have n: "sc_Name s \<notin> sc_Name ` set ss" using Cons.prems(2) by simp
  show ?case
  proof (cases "map_of pending (sc_Name s)")
    case None
    obtain ts where ts: "activate_scopes pending ss = Inr (ts, filter (\<lambda>p. fst p \<notin> sc_Name ` set ss) pending)"
      using Cons.IH[of pending] Cons.prems by auto
    have "filter (\<lambda>p. fst p \<notin> sc_Name ` set (s # ss)) pending = filter (\<lambda>p. fst p \<notin> sc_Name ` set ss) pending"
      using None by (intro filter_cong) (auto simp: map_of_eq_None_iff image_iff)
    then show ?thesis using ts None by simp
  next
    case (Some i)
    let ?rest = "AList.delete (sc_Name s) pending"
    have "i \<in> ke_ID ` set (keks s)" using Cons.prems(3)[of s i] Some by simp
    then obtain at' where a: "find_index (\<lambda>e. ke_ID e = i) (keks s) = Some at'" using find_index_exists[of _ "keks s" "\<lambda>e. ke_ID e = i"] by auto
    have v: "scopeValid (\<lambda>m. m) (s\<lparr>sc_keys := sc_keys s\<lparr>kr_keys := to_front at' (keks s)\<rparr>\<rparr>) = None"
      using to_front_valid[of "\<lambda>m. m" s at'] find_index_Some[OF a] Cons.prems(1) by simp
    have "map_of ?rest (sc_Name t) = map_of pending (sc_Name t)" if "t \<in> set ss" for t
      using that n by (auto simp: delete_conv' image_iff)
    then obtain ts where ts: "activate_scopes ?rest ss = Inr (ts, filter (\<lambda>p. fst p \<notin> sc_Name ` set ss) ?rest)"
      using Cons.IH[of ?rest] Cons.prems by auto
    have "filter (\<lambda>p. fst p \<notin> sc_Name ` set ss) ?rest = filter (\<lambda>p. fst p \<notin> sc_Name ` set (s # ss)) pending"
      by (auto simp: AList.delete_eq filter_filter case_prod_beta intro!: filter_cong)
    then show ?thesis using ts Some a v by (simp add: Let_def)
  qed
qed simp

lemma WithScopeActive_total:
  assumes "Valid (\<lambda>m. m) keys = None" "known_hold (kr_scopes keys) hold"
  shows "\<exists>held. WithScopeActive keys hold = Inr held"
proof -
  have v: "scopes_ok (\<lambda>m. m) (kr_scopes keys)" using assms(1) by (simp add: Valid_None)
  obtain ts where "activate_scopes hold (kr_scopes keys) = Inr (ts, filter (\<lambda>p. fst p \<notin> sc_Name ` set (kr_scopes keys)) hold)"
    using activate_scopes_total[of "kr_scopes keys" hold] v assms(2) by (auto simp: scopes_ok_def known_hold_def)
  moreover have "filter (\<lambda>p. fst p \<notin> sc_Name ` set (kr_scopes keys)) hold = []"
    using assms(2) by (auto simp: known_hold_def filter_empty_conv)
  ultimately show ?thesis by (simp add: WithScopeActive_def)
qed

text \<open>
  C18. An unseal does what the state command promises, on a fleet that can read itself: where
  every serving replica says which keys it holds, none is called ahead of this machine, and
  the key each writes a scope under is held by every other that serves it, there is a plan
  that hands the keyring over.
\<close>

theorem unseal_takes_what_state_passes:
  assumes "Valid (\<lambda>m. m) keys = None"
    and "\<And>st. Some st \<in> set states \<Longrightarrow> \<not> Sealed st \<Longrightarrow> \<not> outdatedImage st \<and> \<not> verdict_behind (keysAgainst st keys)"
    and "\<And>st st' name ks ks'. Some st \<in> set states \<Longrightarrow> Some st' \<in> set states \<Longrightarrow> \<not> Sealed st \<Longrightarrow> \<not> Sealed st' \<Longrightarrow>
      map_of (reported_keys st) name = Some ks \<Longrightarrow> map_of (reported_keys st') name = Some ks' \<Longrightarrow> ks \<noteq> [] \<and> hd ks \<in> set ks'"
  shows "\<exists>plan. planHandOver keys states [] = Inr plan"
proof -
  have ok: "keyring_ok (kr_scopes keys)" by (rule Valid_keyring_ok[OF assms(1)])
  have F: "fleet_behind keys 0 states = None" using fleet_behind_found[OF ok, of states 0] assms(2) by blast
  have "keks s \<noteq> [] \<and> (heldByAll (holders states (sc_Name s)) (ke_ID (hd (keks s))) \<or> choose_key (holders states (sc_Name s)) None (keks s) \<noteq> None)"
    if s: "s \<in> set (kr_scopes keys)" for s
  proof (cases "holders states (sc_Name s)")
    case Nil
    then show ?thesis using s ok by (simp add: heldByAll_def keyring_ok_def)
  next
    case (Cons ids rest)
    have holder: "\<exists>st. Some st \<in> set states \<and> \<not> Sealed st \<and> map_of (reported_keys st) (sc_Name s) = Some ks"
      if "ks \<in> set (holders states (sc_Name s))" for ks
      using that by (auto simp: holders_def map_filter_set split: option.splits if_splits)
    then obtain st where st: "Some st \<in> set states" "\<not> Sealed st" "map_of (reported_keys st) (sc_Name s) = Some ids" using Cons by auto
    have ne: "ids \<noteq> []" using assms(3)[OF st(1) st(1) st(2) st(2) st(3) st(3)] by simp
    obtain i where "i < length states" "states ! i = Some st" using st(1) by (auto simp: in_set_conv_nth)
    then have "scope_behind keys i (sc_Name s) ids = None"
      using fleet_behind_None[OF F, of i] replica_behind_None[OF _ st(2,3)] by simp
    then obtain s' where "s' \<in> set (kr_scopes keys)" "sc_Name s' = sc_Name s" "set ids \<subseteq> set (key_names s')" using scope_behind_None by blast
    moreover have "s' = s" using calculation s ok by (meson keyring_ok_def distinct_map inj_onD)
    ultimately have "hd ids \<in> set (key_names s)" using ne by auto
    then obtain e where e: "e \<in> set (keks s)" "hex_encode (ke_ID e) = hd ids" by auto
    have "hd ids \<in> set ks" if "ks \<in> set (holders states (sc_Name s))" for ks
      using holder[OF that] assms(3)[OF st(1) _ st(2) _ st(3)] by blast
    then have "heldByAll (holders states (sc_Name s)) (ke_ID e)" using e(2) by (simp add: heldByAll_def list_all_iff)
    moreover have "inUse (holders states (sc_Name s)) (ke_ID e)" using e(2) ne Cons by (simp add: inUse_def)
    ultimately show ?thesis using choose_key_exists e(1) by fastforce
  qed
  moreover have "known_hold (kr_scopes keys) []" by (simp add: known_hold_def)
  ultimately obtain hold scopes where p: "plan_scopes states [] (kr_scopes keys) ([], []) = Inr (hold, scopes)" "known_hold (kr_scopes keys) hold"
    using plan_scopes_total[of "kr_scopes keys" states "kr_scopes keys" "[]" "[]"] ok by (auto simp: keyring_ok_def)
  then show ?thesis using F WithScopeActive_total[OF assms(1) p(2)] by (auto simp: planHandOver_def)
qed

section \<open>The empty verdict\<close>

lemma map_size_card: "map_size m = card (dom (map_of m))"
  by (simp add: map_size_def dom_map_of_conv_image_fst length_remdups_card_conv)

text \<open>
  An empty verdict means the replica holds exactly this machine's keyring, keys, active
  keys and scopes: it is what a push counts as loaded. It holds of a replica that reports
  no key of a scope twice; a repeated key can hide a missing one from the verdict, which
  compares lengths, and not from the push.
\<close>

theorem empty_verdict_is_the_keyring:
  assumes "Valid (\<lambda>m. m) keys = None" "\<And>name ks. map_of (reported_keys st) name = Some ks \<Longrightarrow> distinct ks"
  shows "keysAgainst st keys = [] \<longleftrightarrow> sameKeys (reported_keys st) (heldKeys keys)"
proof -
  let ?R = "reported_keys st" and ?H = "heldKeys keys"
  have ok: "keyring_ok (kr_scopes keys)" by (rule Valid_keyring_ok[OF assms(1)])
  have empty: "keysAgainst st keys = [] \<longleftrightarrow> (\<forall>n. map_of ?H n \<noteq> None \<or> map_of ?R n \<noteq> None \<longrightarrow> scopeAgainst n ?R keys = None)"
  proof -
    have "keysAgainst st keys = [] \<longleftrightarrow> (\<forall>n d. (n, d) \<notin> set (keysAgainst st keys))" by (cases "keysAgainst st keys") auto
    then show ?thesis unfolding keysAgainst_set by (metis not_None_eq)
  qed
  have scope: "scopeAgainst n ?R keys = None \<longleftrightarrow> (case (map_of ?R n, map_of ?H n) of (Some a, Some b) \<Rightarrow> scopeKeysMatch a b | _ \<Rightarrow> False)"
    if n: "map_of ?H n \<noteq> None \<or> map_of ?R n \<noteq> None" for n
  proof (cases "ScopeNamed keys n")
    case None
    then show ?thesis using scope_unknown[OF None] by (simp add: scopeAgainst_def split: option.split)
  next
    case (Some s)
    note k = scope_known[OF ok Some]
    show ?thesis
    proof (cases "map_of ?R n")
      case None
      then show ?thesis using Some k(4) by (simp add: scopeAgainst_def Let_def)
    next
      case got: (Some ks)
      have d: "distinct ks" by (rule assms(2)[OF got])
      have "scopeAgainst n ?R keys = None \<longleftrightarrow> scopeKeysMatch ks (key_names s)"
      proof
        assume "scopeAgainst n ?R keys = None"
        then have m: "set ks \<subseteq> set (key_names s)" "hd (key_names s) \<in> set ks" "length ks = length (key_names s)" "hd ks = hd (key_names s)"
          using Some got k(4) by (auto simp: scopeAgainst_def Let_def list_ex_iff split: if_splits)
        have "card (set ks) = card (set (key_names s))" using m(3) d k(6) by (simp only: distinct_card)
        then have "set ks = set (key_names s)" using m(1) by (intro card_subset_eq) auto
        moreover have "length (remdups ks) = length ks" using d by (simp add: distinct_remdups_id)
        ultimately show "scopeKeysMatch ks (key_names s)" using m by (auto simp: scopeKeysMatch_def list_all_iff)
      next
        assume a: "scopeKeysMatch ks (key_names s)"
        have m: "set ks = set (key_names s)" "ks \<noteq> []" "hd ks = hd (key_names s)" using scopeKeysMatch_set[OF a k(6)] by blast+
        moreover have "length ks = length (key_names s)" using a by (auto simp: scopeKeysMatch_def split: if_splits)
        moreover have "hd ks \<in> set ks" using m(2) by simp
        ultimately show "scopeAgainst n ?R keys = None" using Some got k(4)
          by (auto simp: scopeAgainst_def Let_def list_ex_iff)
      qed
      then show ?thesis using got k(4) by simp
    qed
  qed
  have "(\<forall>n. map_of ?H n \<noteq> None \<or> map_of ?R n \<noteq> None \<longrightarrow>
        (case (map_of ?R n, map_of ?H n) of (Some a, Some b) \<Rightarrow> scopeKeysMatch a b | _ \<Rightarrow> False)) \<longleftrightarrow> sameKeys ?R ?H"
    (is "?all \<longleftrightarrow> _")
  proof
    assume a: ?all
    then have "map_of ?R n = None \<longleftrightarrow> map_of ?H n = None" for n by (fastforce split: option.splits)
    then have "dom (map_of ?R) = dom (map_of ?H)" by (auto simp: dom_def)
    moreover have "map_of ?R n \<noteq> None" if "n \<in> set (map fst ?R)" for n using that by (simp add: map_of_eq_None_iff)
    ultimately show "sameKeys ?R ?H" using a by (simp add: sameKeys_def map_size_card list_all_iff)
  next
    assume a: "sameKeys ?R ?H"
    have each: "case (map_of ?R n, map_of ?H n) of (Some a, Some b) \<Rightarrow> scopeKeysMatch a b | _ \<Rightarrow> False" if "map_of ?R n \<noteq> None" for n
    proof -
      have "n \<in> set (map fst ?R)" using that by (simp add: map_of_eq_None_iff)
      moreover have "list_all (\<lambda>n. case (map_of ?R n, map_of ?H n) of (Some a, Some b) \<Rightarrow> scopeKeysMatch a b | _ \<Rightarrow> False) (map fst ?R)"
        using a by (simp only: sameKeys_def)
      ultimately show ?thesis unfolding list_all_iff by (rule bspec[rotated])
    qed
    then have "dom (map_of ?R) \<subseteq> dom (map_of ?H)" by (fastforce simp: dom_def split: option.splits)
    moreover have "card (dom (map_of ?R)) = card (dom (map_of ?H))" using a by (simp add: sameKeys_def map_size_card)
    ultimately have "dom (map_of ?R) = dom (map_of ?H)" by (intro card_subset_eq finite_dom_map_of) simp_all
    then have "map_of ?H n \<noteq> None \<Longrightarrow> map_of ?R n \<noteq> None" for n by (metis domIff)
    then show ?all using each by blast
  qed
  then show ?thesis unfolding empty using scope by simp
qed

section \<open>Replicas to try it on\<close>

definition sample_id :: "nat \<Rightarrow> string" where
  "sample_id n = hex_encode (replicate 8 (byte n))"

definition serving_replica :: "report \<Rightarrow> replica_state" where
  "serving_replica m = no_state\<lparr>rst_Phase := ''unsealed'', rst_Scopes := map fst m, rst_Keys := Some m\<rparr>"

text \<open>A replica that serves another machine's copy of a scope, and one that holds the keyring.\<close>

definition foreign_replica :: replica_state where
  "foreign_replica = serving_replica [(''app-main-shop'', [sample_id 99])]"

definition current_replica :: replica_state where
  "current_replica = serving_replica [(''app-main-shop'', [sample_id 11]), (''app-main-mail'', [sample_id 21])]"

lemma serving_replica_simps [simp]:
  "\<not> Sealed (serving_replica m)" "reported_keys (serving_replica m) = m" "\<not> outdatedImage (serving_replica m)"
  by (simp_all add: serving_replica_def Sealed_def reported_keys_def outdatedImage_def)

lemma foreign_verdict: "verdict_behind (keysAgainst foreign_replica sample_keyring)"
  by code_simp

lemma current_verdict: "keysAgainst current_replica sample_keyring = []"
  by code_simp

lemma state_says_behind_where_unseal_refuses_witness:
  "\<exists>f. planHandOver sample_keyring [None, Some foreign_replica] [] = Inl f \<and> is_behind f"
proof -
  have "\<exists>st. Some st \<in> set [None, Some foreign_replica] \<and> \<not> Sealed st \<and> verdict_behind (keysAgainst st sample_keyring)"
    using foreign_verdict by (auto simp: foreign_replica_def)
  then show ?thesis
    using state_says_behind_where_unseal_refuses[OF sample_keyring_valid, of "[None, Some foreign_replica]" "[]"]
    by (auto simp: foreign_replica_def)
qed

lemma unseal_takes_what_state_passes_witness: "\<exists>plan. planHandOver sample_keyring [Some current_replica, None] [] = Inr plan"
proof (rule unseal_takes_what_state_passes[OF sample_keyring_valid])
  show "\<not> outdatedImage st \<and> \<not> verdict_behind (keysAgainst st sample_keyring)" if "Some st \<in> set [Some current_replica, None]" for st
    using that current_verdict by (auto simp: verdict_behind_def current_replica_def)
qed (auto simp: current_replica_def split: if_splits)

lemma empty_verdict_is_the_keyring_witness:
  "sameKeys (reported_keys current_replica) (heldKeys sample_keyring) \<and> \<not> sameKeys (reported_keys foreign_replica) (heldKeys sample_keyring)"
proof -
  have "keysAgainst foreign_replica sample_keyring \<noteq> []" using foreign_verdict by (auto simp: verdict_behind_def)
  moreover have "distinct ks" if "map_of (reported_keys foreign_replica) name = Some ks \<or> map_of (reported_keys current_replica) name = Some ks" for name ks
    using that by (auto simp: foreign_replica_def current_replica_def split: if_splits)
  ultimately show ?thesis
    using current_verdict empty_verdict_is_the_keyring[OF sample_keyring_valid, of current_replica]
      empty_verdict_is_the_keyring[OF sample_keyring_valid, of foreign_replica] by blast
qed

text \<open>
  Where two replicas serve a scope under keys the other lacks, the state command says that
  an unseal brings them to this machine's keyring, and the unseal refuses: no key is common.
\<close>

definition split_scope :: "string scope" where
  "split_scope = (let s = sample_scope ''app-main-shop'' ''app/main/shop/'' 10 in s\<lparr>sc_keys := (sc_keys s)\<lparr>kr_keys :=
     map (\<lambda>n. \<lparr>ke_ID = replicate 8 (byte n), ke_Created = 0, ke_key = replicate 32 (byte n)\<rparr>) [31, 32, 33]\<rparr>\<rparr>)"

definition split_keyring :: "string keyring" where
  "split_keyring = sample_keyring\<lparr>kr_scopes := [split_scope]\<rparr>"

definition split_replica :: "nat \<Rightarrow> replica_state" where
  "split_replica n = serving_replica [(''app-main-shop'', [sample_id n])]"

lemma split_keyring_valid: "Valid (\<lambda>m. m) split_keyring = None"
proof -
  have "scopeValid (\<lambda>m. m) (sample_scope ''app-main-shop'' ''app/main/shop/'' 10) = None" "keysValid (\<lambda>m. m) sample_keyring = None"
    using sample_keyring_valid by (auto simp: Valid_None scopes_ok_def sample_keyring_def)
  then show ?thesis
    by (simp add: split_keyring_def split_scope_def Valid_None scopes_ok_def scopeValid_None keysValid_None entries_ok_def KeyLen_def
        sample_scope_def sample_keys_def Let_def byte_def)
qed

lemma sample_id_simps: "hex_encode (replicate 8 (byte n)) = sample_id n" "sample_id n = sample_id m \<longleftrightarrow> byte n = byte m"
  by (simp_all add: sample_id_def hex_encode_inj)

lemma split_report: "heldKeys split_keyring = [(''app-main-shop'', [sample_id 31, sample_id 32, sample_id 33])]"
  by (simp add: heldKeys_def key_report_def split_keyring_def split_scope_def sample_scope_def Let_def sample_id_def)

lemma split_ids: "sample_id 31 \<noteq> sample_id 32" "sample_id 31 \<noteq> sample_id 33" "sample_id 32 \<noteq> sample_id 33"
  by (simp_all add: sample_id_simps byte_def)

lemma split_named: "ScopeNamed split_keyring name = (if name = ''app-main-shop'' then Some split_scope else None)"
  by (simp add: ScopeNamed_def split_keyring_def split_scope_def sample_scope_def Let_def)

lemma split_not_newer: "\<not> newerThanActive split_scope i"
  by (auto simp: newerThanActive_def split_scope_def sample_scope_def sample_keys_def Let_def dest!: find_in split: option.splits)

lemma split_verdicts:
  "keysAgainst (split_replica 32) split_keyring = [(''app-main-shop'', Diff_no_current)]"
  "keysAgainst (split_replica 33) split_keyring = [(''app-main-shop'', Diff_no_current)]"
  by (simp_all add: keysAgainst_def verdict_names_def split_report split_replica_def sorted_names_def map_filter_simps scopeAgainst_def
      split_named split_not_newer Let_def split_ids split_ids[symmetric])

lemma state_promises_what_unseal_refuses:
  "\<not> verdict_behind (keysAgainst (split_replica 32) split_keyring) \<and> \<not> verdict_behind (keysAgainst (split_replica 33) split_keyring)
   \<and> planHandOver split_keyring [Some (split_replica 32), Some (split_replica 33)] [] = Inl (No_common_key ''app-main-shop'')"
proof -
  have v: "\<not> verdict_behind (keysAgainst (split_replica 32) split_keyring)" "\<not> verdict_behind (keysAgainst (split_replica 33) split_keyring)"
    by (simp_all add: split_verdicts verdict_behind_def)
  have o: "\<not> outdatedImage st" if "Some st \<in> set [Some (split_replica 32), Some (split_replica 33)]" for st
    using that by (auto simp: split_replica_def)
  have n: "\<not> (\<exists>st. Some st \<in> set [Some (split_replica 32), Some (split_replica 33)] \<and> \<not> Sealed st \<and> verdict_behind (keysAgainst st split_keyring))"
    using v by auto
  have "fleet_behind split_keyring 0 [Some (split_replica 32), Some (split_replica 33)] = None"
    using conjunct1[OF fleet_behind_found[OF Valid_keyring_ok[OF split_keyring_valid] o]] n by blast
  moreover have "holders [Some (split_replica 32), Some (split_replica 33)] ''app-main-shop'' = [[sample_id 32], [sample_id 33]]"
    by (simp add: holders_def map_filter_simps split_replica_def)
  moreover have "kr_scopes split_keyring = [split_scope]" "sc_Name split_scope = ''app-main-shop''"
    "keks split_scope = map (\<lambda>n. \<lparr>ke_ID = replicate 8 (byte n), ke_Created = 0, ke_key = replicate 32 (byte n)\<rparr>) [31, 32, 33]"
    by (simp_all add: split_keyring_def split_scope_def sample_scope_def Let_def)
  ultimately show ?thesis using v
    by (simp add: planHandOver_def heldByAll_def choose_key_def sample_id_simps(1) split_ids split_ids[symmetric]  Let_def)
qed

end
