(* ===== verification/Keeper.thy ===== *)
theory Keeper
  imports Replica_Fleet
begin

text \<open>
  The keeper, an operator's device that hands a restarted keyholder its keys back
  (\<open>farsight/cli/internal/keeper\<close>: \<open>decide.go\<close>, \<open>audit.go\<close>, \<open>packet.go\<close>, and the pass
  \<open>keeperCheckWith\<close> of \<open>cli/keeper.go\<close>): what it decides about a replica, how often it may
  act, what an audit of its ledger says. Words of a reason are values of a datatype. The
  second half shows that a pass never splits the fleet and never exceeds its budget.
\<close>

section \<open>Deciding about one replica\<close>

datatype action = ActionNone | ActionReseed | ActionHold | ActionBudget | ActionStale | ActionUnknown | ActionUnchecked

datatype mismatch =
    Serves_unknown_scope nat string
  | Holds_unknown_key nat string
  | Lacks_active_key string nat
  | Active_is_older nat string

record fleet_verdict =
  fv_Mismatch :: "mismatch option"
  fv_Unchecked :: "nat option"

text \<open>The maps \<open>held\<close> and \<open>active\<close> of \<open>Mismatch\<close>; a later scope of a name replaces an earlier one.\<close>

definition held_scope :: "'k scope list \<Rightarrow> string \<Rightarrow> 'k key_entry list option" where
  "held_scope ss name = map_option (\<lambda>s. kr_keys (sc_keys s)) (find (\<lambda>s. sc_Name s = name) (rev ss))"

definition held_entry :: "'k key_entry list \<Rightarrow> string \<Rightarrow> 'k key_entry option" where
  "held_entry es i = find (\<lambda>e. hex_encode (ke_ID e) = i) (rev es)"

definition created_of :: "'k key_entry list \<Rightarrow> string \<Rightarrow> gotime" where
  "created_of es i = (case held_entry es i of None \<Rightarrow> zero_time | Some e \<Rightarrow> ke_Created e)"

definition active_id :: "'k key_entry list \<Rightarrow> string" where
  "active_id es = (case es of [] \<Rightarrow> '''' | e # _ \<Rightarrow> hex_encode (ke_ID e))"

definition scope_mismatch :: "'k scope list \<Rightarrow> nat \<Rightarrow> string \<Rightarrow> string list \<Rightarrow> mismatch option" where
  "scope_mismatch ss i name theirs =
     (case held_scope ss name of
        None \<Rightarrow> Some (Serves_unknown_scope i name)
      | Some es \<Rightarrow>
          if list_ex (\<lambda>k. held_entry es k = None) theirs then Some (Holds_unknown_key i name)
          else if active_id es \<notin> set theirs then Some (Lacks_active_key name i)
          else if theirs \<noteq> [] \<and> hd theirs \<noteq> active_id es \<and> created_of es (active_id es) < created_of es (hd theirs)
          then Some (Active_is_older i name)
          else None)"

fun first_of :: "('a \<Rightarrow> 'b option) \<Rightarrow> 'a list \<Rightarrow> 'b option" where
  "first_of f [] = None"
| "first_of f (x # xs) = (case f x of Some y \<Rightarrow> Some y | None \<Rightarrow> first_of f xs)"

definition replica_mismatch :: "'k scope list \<Rightarrow> nat \<times> replica_state \<Rightarrow> mismatch option" where
  "replica_mismatch ss = (\<lambda>(i, st).
     if Sealed st then None
     else first_of (\<lambda>name. scope_mismatch ss i name (case map_of (reported_keys st) name of None \<Rightarrow> [] | Some t \<Rightarrow> t))
            (sorted_names (reported_keys st)))"

definition Mismatch :: "'k unseal_bundle \<Rightarrow> replica_state list \<Rightarrow> mismatch option" where
  "Mismatch mine states = first_of (replica_mismatch (bu_scopes mine)) (enumerate 0 states)"

definition FleetOf :: "'k unseal_bundle \<Rightarrow> replica_state list \<Rightarrow> call_error option list \<Rightarrow> fleet_verdict" where
  "FleetOf mine states errs =
     \<lparr>fv_Mismatch = Mismatch mine states,
      fv_Unchecked = first_of (\<lambda>(i, err). if err = None then None else Some i) (enumerate 0 errs)\<rparr>"

record budget_state =
  bs_Used :: int
  bs_Limit :: int
  bs_Window :: duration
  bs_Allowed :: bool
  bs_Oldest :: gotime

definition IntentReseed_name :: string where "IntentReseed_name = ''restart-reseed''"

definition budget_step :: "gotime \<Rightarrow> ledger_entry \<Rightarrow> budget_state \<Rightarrow> budget_state" where
  "budget_step cutoff e b =
     (if le_Intent e \<noteq> IntentReseed_name \<or> le_Result e \<noteq> ''ok'' \<or> le_Time e < cutoff then b
      else b\<lparr>bs_Used := bs_Used b + 1,
             bs_Oldest := (if bs_Oldest b = zero_time \<or> le_Time e < bs_Oldest b then le_Time e else bs_Oldest b)\<rparr>)"

definition Budget :: "ledger_entry list \<Rightarrow> int \<Rightarrow> duration \<Rightarrow> gotime \<Rightarrow> budget_state" where
  "Budget entries limit window now =
     (let b = fold (budget_step (now - window)) entries
            \<lparr>bs_Used = 0, bs_Limit = limit, bs_Window = window, bs_Allowed = False, bs_Oldest = zero_time\<rparr> in
      b\<lparr>bs_Allowed := bs_Used b < limit\<rparr>)"

datatype reason =
    Call_failed call_error
  | Holding "64 word"
  | Sealed_by_operator string
  | Generation_behind "64 word" "64 word"
  | Disagrees mismatch
  | Replica_silent nat
  | Budget_spent budget_state
  | Restart_sealed
  | Already_reached

record decision =
  de_Ordinal :: nat
  de_Action :: action
  de_Reason :: reason

definition Decide :: "replica_state \<Rightarrow> call_error option \<Rightarrow> nat \<Rightarrow> 64 word \<Rightarrow> budget_state \<Rightarrow> fleet_verdict \<Rightarrow> decision" where
  "Decide st err ordinal mine budget fleet =
     (let d = \<lambda>a r. \<lparr>de_Ordinal = ordinal, de_Action = a, de_Reason = r\<rparr> in
      case err of
        Some e \<Rightarrow> d ActionUnknown (Call_failed e)
      | None \<Rightarrow>
          if \<not> Sealed st then d ActionNone (Holding (rst_Generation st))
          else if rst_Phase st = ''operator-hold'' then d ActionHold (Sealed_by_operator (rst_HoldReason st))
          else if mine < rst_Generation st then d ActionStale (Generation_behind (rst_Generation st) mine)
          else (case fv_Mismatch fleet of
              Some m \<Rightarrow> d ActionStale (Disagrees m)
            | None \<Rightarrow> (case fv_Unchecked fleet of
                Some i \<Rightarrow> d ActionUnchecked (Replica_silent i)
              | None \<Rightarrow>
                  if \<not> bs_Allowed budget then d ActionBudget (Budget_spent budget)
                  else d ActionReseed Restart_sealed)))"

section \<open>One pass over the replicas\<close>

record keeper_config =
  kc_Instance :: string
  kc_Device :: string
  kc_Generation :: "64 word"
  kc_Budget :: int
  kc_Window :: duration

text \<open>
  What a pass reads around it: the replicas, the YAML and JSON coders, the clock, and what
  the file system does with the next ledger record.
\<close>

record 'w keeper =
  kp_replicas :: "'w replicas"
  kp_unyaml :: "string \<Rightarrow> bundle_file option"
  kp_json :: "ledger_entry \<Rightarrow> string option"
  kp_unjson :: "string \<Rightarrow> ledger_entry option"
  kp_clock :: "'w \<Rightarrow> gotime"
  kp_io :: "'w \<Rightarrow> append_io"
  kp_readable :: "'w \<Rightarrow> bool"
  kp_config :: keeper_config

definition keeperReplicas :: nat where "keeperReplicas = 2"

datatype pass_error = Pass_ledger ledger_error | Pass_bundle bundle_fault

record 'w pass =
  ps_world :: 'w
  ps_file :: "string option"
  ps_entries :: "ledger_entry list"
  ps_decisions :: "decision list"

fun ask_replicas :: "'w replicas \<Rightarrow> nat list \<Rightarrow> 'w \<Rightarrow> 'w \<times> (replica_state \<times> call_error option) list" where
  "ask_replicas rc [] w = (w, [])"
| "ask_replicas rc (i # js) w =
     (case rc_State rc i w of (w, r) \<Rightarrow>
      case ask_replicas rc js w of (w, answers) \<Rightarrow>
        (w, (case r of Inl e \<Rightarrow> (no_state, Some e) | Inr st \<Rightarrow> (st, None)) # answers))"

definition reseed_entry :: "'w keeper \<Rightarrow> gotime \<Rightarrow> nat \<Rightarrow> replica_state \<Rightarrow> call_error + replica_state \<Rightarrow> ledger_entry" where
  "reseed_entry kp now i st r =
     \<lparr>le_Time = now, le_Instance = kc_Instance (kp_config kp), le_Ordinal = i, le_Intent = IntentReseed_name,
      le_Generation = kc_Generation (kp_config kp),
      le_Phase = (case r of Inl _ \<Rightarrow> '''' | Inr st' \<Rightarrow> rst_Phase st'),
      le_Result = (case r of Inl _ \<Rightarrow> ''refused'' | Inr _ \<Rightarrow> ''ok''),
      le_Device = kc_Device (kp_config kp),
      le_Boot = (case r of Inl _ \<Rightarrow> rst_Boot st | Inr st' \<Rightarrow> if rst_Boot st' \<noteq> '''' then rst_Boot st' else rst_Boot st)\<rparr>"

definition after_push :: "decision \<Rightarrow> call_error + replica_state \<Rightarrow> decision" where
  "after_push d r =
     (case r of
        Inr _ \<Rightarrow> d
      | Inl e \<Rightarrow> if AlreadyServing (Some e) then d\<lparr>de_Action := ActionNone, de_Reason := Already_reached\<rparr>
                 else d\<lparr>de_Action := ActionUnknown, de_Reason := Call_failed e\<rparr>)"

definition keep_one :: "'w keeper \<Rightarrow> string \<Rightarrow> fleet_verdict \<Rightarrow> nat \<times> replica_state \<times> call_error option \<Rightarrow> 'w pass \<Rightarrow> 'w pass" where
  "keep_one kp bundle' fleet = (\<lambda>(i, st, err) ps.
     (let cfg = kp_config kp;
          budget = Budget (ps_entries ps) (kc_Budget cfg) (kc_Window cfg) (kp_clock kp (ps_world ps));
          d = Decide st err i (kc_Generation cfg) budget fleet in
      if de_Action d \<noteq> ActionReseed then ps\<lparr>ps_decisions := ps_decisions ps @ [d]\<rparr>
      else
        (case rc_Unseal (kp_replicas kp) i bundle' IntentReseed_name (ps_world ps) of (w, r) \<Rightarrow>
         let e = reseed_entry kp (kp_clock kp w) i st r in
           ps\<lparr>ps_world := w, ps_file := fst (AppendLedger (kp_json kp) (kp_io kp w) e (ps_file ps)),
              ps_entries := ps_entries ps @ [e], ps_decisions := ps_decisions ps @ [after_push d r]\<rparr>)))"

definition keeperCheckWith :: "'w keeper \<Rightarrow> string \<Rightarrow> 'w \<times> string option \<Rightarrow> ('w \<times> string option) \<times> (pass_error + decision list)" where
  "keeperCheckWith kp bundle' = (\<lambda>(w, file).
     (case ReadLedger (kp_unjson kp) (if kp_readable kp w then file_of file else File_unreadable) of
        Inl e \<Rightarrow> ((w, file), Inl (Pass_ledger e))
      | Inr entries \<Rightarrow>
          (case ask_replicas (kp_replicas kp) [0..<keeperReplicas] w of (w, answers) \<Rightarrow>
             (case ParseBundle (kp_unyaml kp) bundle' of
                Inl f \<Rightarrow> ((w, file), Inl (Pass_bundle f))
              | Inr parsed \<Rightarrow>
                  (let fleet = FleetOf parsed (map fst answers) (map snd answers);
                       ps = fold (keep_one kp bundle' fleet) (enumerate 0 answers)
                              \<lparr>ps_world = w, ps_file = file, ps_entries = entries, ps_decisions = []\<rparr> in
                   ((ps_world ps, ps_file ps), Inr (ps_decisions ps)))))))"

section \<open>The audit of a fleet's ledgers\<close>

record boot_count =
  bc_Boot :: string
  bc_Count :: nat
  bc_Device :: string
  bc_First :: gotime
  bc_Last :: gotime

record audit =
  au_Instance :: string
  au_From :: gotime
  au_To :: gotime
  au_Reseeds :: nat
  au_Boots :: nat
  au_Refused :: nat
  au_Devices :: "string list"
  au_Unlabelled :: nat
  au_Divergent :: "boot_count list"

definition Clean :: "audit \<Rightarrow> bool" where
  "Clean a \<longleftrightarrow> au_Divergent a = []"

text \<open>The audit in progress with its two local maps.\<close>

record tally =
  ta_audit :: audit
  ta_byBoot :: "(string \<times> boot_count) list"
  ta_devices :: "string list"

definition count_boot :: "ledger_entry \<Rightarrow> boot_count option \<Rightarrow> boot_count" where
  "count_boot e known =
     (let bc = (case known of
                  None \<Rightarrow> \<lparr>bc_Boot = le_Boot e, bc_Count = 0, bc_Device = le_Device e, bc_First = le_Time e, bc_Last = zero_time\<rparr>
                | Some bc \<Rightarrow> bc) in
      bc\<lparr>bc_Count := bc_Count bc + 1,
         bc_Last := (if bc_Last bc < le_Time e then le_Time e else bc_Last bc),
         bc_Device := (if le_Device e \<noteq> '''' \<and> bc_Device bc \<noteq> le_Device e then ''fleet'' else bc_Device bc)\<rparr>)"

definition seen_entry :: "ledger_entry \<Rightarrow> tally \<Rightarrow> tally" where
  "seen_entry e ta =
     (let a = ta_audit ta in
      ta\<lparr>ta_audit := a\<lparr>au_From := (if au_From a = zero_time \<or> le_Time e < au_From a then le_Time e else au_From a),
                       au_To := (if au_To a < le_Time e then le_Time e else au_To a)\<rparr>,
         ta_devices := (if le_Device e \<noteq> '''' then List.insert (le_Device e) (ta_devices ta) else ta_devices ta)\<rparr>)"

definition reconcile_step :: "string \<Rightarrow> ledger_entry \<Rightarrow> tally \<Rightarrow> tally" where
  "reconcile_step instance' e ta =
     (if le_Instance e \<noteq> instance' then ta
      else
        let ta = seen_entry e ta; a = ta_audit ta in
        if le_Intent e \<noteq> IntentReseed_name then ta
        else if le_Result e \<noteq> ''ok'' then ta\<lparr>ta_audit := a\<lparr>au_Refused := au_Refused a + 1\<rparr>\<rparr>
        else
          let ta = ta\<lparr>ta_audit := a\<lparr>au_Reseeds := au_Reseeds a + 1\<rparr>\<rparr>; a = ta_audit ta in
          if le_Boot e = '''' then ta\<lparr>ta_audit := a\<lparr>au_Unlabelled := au_Unlabelled a + 1\<rparr>\<rparr>
          else ta\<lparr>ta_byBoot := AList.update (le_Boot e) (count_boot e (map_of (ta_byBoot ta) (le_Boot e))) (ta_byBoot ta)\<rparr>)"

definition no_tally :: "string \<Rightarrow> tally" where
  "no_tally instance' =
     \<lparr>ta_audit = \<lparr>au_Instance = instance', au_From = zero_time, au_To = zero_time, au_Reseeds = 0, au_Boots = 0, au_Refused = 0,
        au_Devices = [], au_Unlabelled = 0, au_Divergent = []\<rparr>, ta_byBoot = [], ta_devices = []\<rparr>"

text \<open>The boots are ranged over in the order they were first seen; the code's order is Go's, and the sort follows.\<close>

definition Reconcile :: "string \<Rightarrow> ledger_entry list \<Rightarrow> audit" where
  "Reconcile instance' entries =
     (let ta = fold (reconcile_step instance') entries (no_tally instance') in
      (ta_audit ta)\<lparr>au_Divergent := sort_by (\<lambda>a b. bc_Last b < bc_Last a) (filter (\<lambda>bc. 1 < bc_Count bc) (map snd (ta_byBoot ta))),
        au_Boots := length (ta_byBoot ta), au_Devices := sort (ta_devices ta)\<rparr>)"

section \<open>The enrolment packet\<close>

definition packetVersion :: int where "packetVersion = 1"
definition DefaultBudget :: int where "DefaultBudget = 8"
definition DefaultWindow :: duration where "DefaultWindow = 30 * 24 * ns_per_hour"
definition MaxDeviceLen :: nat where "MaxDeviceLen = 63"

datatype packet_fault =
    No_packet
  | Packet_version int
  | No_instance
  | Device_fault nat
  | No_carrier
  | No_server_name
  | No_ca
  | No_leaf
  | No_bundle
  | No_budget
  | No_window

record packet =
  pk_Version :: int
  pk_Instance :: string
  pk_Device :: string
  pk_Carrier :: string
  pk_ServerName :: string
  pk_CACertPEM :: string
  pk_LeafCertPEM :: string
  pk_LeafKeyPEM :: string
  pk_Bundle :: string
  pk_Generation :: "64 word"
  pk_Budget :: int
  pk_Window :: duration
  pk_IssuedAt :: gotime

definition device_char :: "char \<Rightarrow> bool" where
  "device_char c \<longleftrightarrow> lower_az c \<or> digit09 c \<or> c = CHR ''-''"

text \<open>The five refusals in the order of the code, numbered.\<close>

definition ValidateDevice :: "string \<Rightarrow> packet_fault option" where
  "ValidateDevice device =
     (if device = '''' then Some (Device_fault 1)
      else if length device > MaxDeviceLen then Some (Device_fault 2)
      else if \<not> lower_az (hd device) then Some (Device_fault 3)
      else if \<not> list_all device_char device then Some (Device_fault 4)
      else if last device = CHR ''-'' then Some (Device_fault 5)
      else None)"

definition packet_Validate :: "packet option \<Rightarrow> packet_fault option" where
  "packet_Validate packet =
     (case packet of
        None \<Rightarrow> Some No_packet
      | Some p \<Rightarrow>
          if pk_Version p \<noteq> packetVersion then Some (Packet_version (pk_Version p))
          else if trim_space (pk_Instance p) = '''' then Some No_instance
          else if ValidateDevice (pk_Device p) \<noteq> None then ValidateDevice (pk_Device p)
          else if trim_space (pk_Carrier p) = '''' then Some No_carrier
          else if trim_space (pk_ServerName p) = '''' then Some No_server_name
          else if pk_CACertPEM p = '''' then Some No_ca
          else if pk_LeafCertPEM p = '''' \<or> pk_LeafKeyPEM p = '''' then Some No_leaf
          else if pk_Bundle p = '''' then Some No_bundle
          else if pk_Budget p \<le> 0 then Some No_budget
          else if pk_Window p \<le> 0 then Some No_window
          else None)"

datatype packet_error = Packet_invalid packet_fault | Packet_encode | Packet_armor | Packet_decode

text \<open>\<open>armor\<close> and \<open>unarmor\<close> are \<open>datasphere.Armor\<close> and \<open>Unarmor\<close> for keeper packets, \<open>yaml\<close> the coder.\<close>

definition packet_Seal :: "(packet \<Rightarrow> string option) \<Rightarrow> (string \<Rightarrow> string \<Rightarrow> string option) \<Rightarrow> packet option \<Rightarrow> string \<Rightarrow> packet_error + string" where
  "packet_Seal yaml armor packet passphrase =
     (case packet_Validate packet of
        Some f \<Rightarrow> Inl (Packet_invalid f)
      | None \<Rightarrow>
          (case packet of
             None \<Rightarrow> Inl Packet_encode
           | Some p \<Rightarrow>
               (case yaml p of
                  None \<Rightarrow> Inl Packet_encode
                | Some plaintext \<Rightarrow> (case armor plaintext passphrase of None \<Rightarrow> Inl Packet_armor | Some out \<Rightarrow> Inr out))))"

definition packet_Open :: "(string \<Rightarrow> packet option) \<Rightarrow> (string \<Rightarrow> string \<Rightarrow> string option) \<Rightarrow> string \<Rightarrow> string \<Rightarrow> packet_error + packet" where
  "packet_Open unyaml unarmor data passphrase =
     (case unarmor data passphrase of
        None \<Rightarrow> Inl Packet_armor
      | Some plaintext \<Rightarrow>
          (case unyaml plaintext of
             None \<Rightarrow> Inl Packet_decode
           | Some p \<Rightarrow> (case packet_Validate (Some p) of Some f \<Rightarrow> Inl (Packet_invalid f) | None \<Rightarrow> Inr p)))"

section \<open>When a keeper acts\<close>

lemma first_of_None: "first_of f xs = None \<longleftrightarrow> (\<forall>x\<in>set xs. f x = None)"
  by (induction xs) (auto split: option.splits)

text \<open>Re-seeding is what is left when there is no reason not to.\<close>

lemma Decide_reseed:
  "de_Action (Decide st err i mine budget fleet) = ActionReseed \<longleftrightarrow>
     err = None \<and> Sealed st \<and> rst_Phase st \<noteq> ''operator-hold'' \<and> rst_Generation st \<le> mine
     \<and> fv_Mismatch fleet = None \<and> fv_Unchecked fleet = None \<and> bs_Allowed budget"
  by (auto simp: Decide_def Let_def split: option.splits)

lemma scope_mismatch_None:
  assumes "scope_mismatch ss i name theirs = None"
  shows "\<exists>es. held_scope ss name = Some es \<and> (\<forall>k\<in>set theirs. held_entry es k \<noteq> None) \<and> active_id es \<in> set theirs"
  using assms by (auto simp: scope_mismatch_def list_ex_iff split: option.splits if_splits)

lemma held_entry_iff: "held_entry es k \<noteq> None \<longleftrightarrow> k \<in> (\<lambda>e. hex_encode (ke_ID e)) ` set es"
  by (auto simp: held_entry_def find_None_iff)

lemma held_scope_in:
  assumes "held_scope ss name = Some es"
  shows "\<exists>s\<in>set ss. sc_Name s = name \<and> es = keks s \<and> map_of (key_report ss) name = Some (key_names s)"
proof -
  obtain s where s: "find (\<lambda>s. sc_Name s = name) (rev ss) = Some s" "es = keks s" using assms by (auto simp: held_scope_def)
  then show ?thesis using find_in[OF s(1)] by (auto simp: map_of_key_report)
qed

text \<open>A bundle that agrees with a serving replica is one to work beside it.\<close>

lemma Mismatch_joins:
  assumes "Mismatch b states = None" "keyring_ok (bu_scopes b)" "j < length states" "\<not> Sealed (states ! j)"
  shows "joins (key_report (bu_scopes b)) (reported_keys (states ! j))"
  unfolding joins_def
proof (intro allI impI)
  fix name ks
  assume ks: "map_of (reported_keys (states ! j)) name = Some ks"
  have "replica_mismatch (bu_scopes b) (j, states ! j) = None"
    using assms(1,3) by (force simp: Mismatch_def first_of_None in_set_enumerate_eq)
  moreover have "name \<in> set (sorted_names (reported_keys (states ! j)))"
    using ks by (auto simp: sorted_names_def image_iff dest: map_of_SomeD intro: bexI[rotated])
  ultimately have "scope_mismatch (bu_scopes b) j name ks = None"
    using assms(4) ks by (auto simp: replica_mismatch_def first_of_None)
  then obtain es where es: "held_scope (bu_scopes b) name = Some es" "\<forall>k\<in>set ks. held_entry es k \<noteq> None" "active_id es \<in> set ks"
    using scope_mismatch_None by blast
  then obtain s where s: "s \<in> set (bu_scopes b)" "es = keks s" "map_of (key_report (bu_scopes b)) name = Some (key_names s)"
    using held_scope_in by blast
  have "keks s \<noteq> []" using s(1) assms(2) by (simp add: keyring_ok_def)
  moreover have "set ks \<subseteq> set (key_names s)" using es(2) s(2) by (auto simp only: held_entry_iff set_map)
  moreover have "hd (key_names s) = active_id es" using s(2) calculation(1) by (auto simp: active_id_def hd_map split: list.splits)
  ultimately show "\<exists>ks'. map_of (key_report (bu_scopes b)) name = Some ks' \<and> ks' \<noteq> [] \<and> hd ks' \<in> set ks \<and> set ks \<subseteq> set ks'"
    using s(3) es(3) by auto
qed

lemma bundle_conflict_names: "bundle_conflict s out = None \<Longrightarrow> sc_Name s \<notin> sc_Name ` set out"
  by (induction out) (auto split: if_splits)

lemma bundle_scopes_names: "bundle_scopes rd out ss = Inr r \<Longrightarrow> distinct (map sc_Name out) \<Longrightarrow> distinct (map sc_Name r)"
proof (induction ss arbitrary: out)
  case (Cons s ss)
  then have "bundle_conflict s out = None" "bundle_scopes rd (out @ [s]) ss = Inr r" by (auto split: option.splits)
  then show ?case using Cons.IH[of "out @ [s]"] Cons.prems(2) bundle_conflict_names[of s out] by auto
qed simp

lemma ParseBundle_ok:
  assumes "ParseBundle unyaml payload = Inr b"
  shows "keyring_ok (bu_scopes b)"
proof -
  obtain ss inst g where n: "NewBundle (\<lambda>m. m) inst g ss = Inr b"
    using assms by (auto simp: ParseBundle_def split: option.splits if_splits sum.splits)
  then have r: "bundle_scopes (\<lambda>m. m) [] ss = Inr (bu_scopes b)" by (auto simp: NewBundle_def split: if_splits sum.splits)
  have "\<forall>s\<in>set (bu_scopes b). scopeValid (\<lambda>m. m) s = None" using bundle_scopes_Inr[OF r] by simp
  then show ?thesis using bundle_scopes_names[OF r] by (auto simp: keyring_ok_def scopeValid_None keysValid_None entries_ok_def)
qed

section \<open>A pass never splits the fleet\<close>

context replica_fleet
begin

lemma ask_replicas_answers:
  assumes "ask_replicas rc js w = (w', answers)"
  shows "length answers = length js \<and> serving w' = serving w
    \<and> (\<forall>k<length js. snd (answers ! k) = None \<longrightarrow>
         serving w (js ! k) = (if Sealed (fst (answers ! k)) then None else Some (reported_keys (fst (answers ! k)))))"
  using assms
proof (induction js arbitrary: w w' answers)
  case (Cons i js)
  obtain w1 r answers1 where r: "rc_State rc i w = (w1, r)" "ask_replicas rc js w1 = (w', answers1)"
    "answers = (case r of Inl e \<Rightarrow> (no_state, Some e) | Inr st \<Rightarrow> (st, None)) # answers1"
    using Cons.prems by (auto split: prod.splits)
  note S = State_keeps[OF r(1)] and IH = Cons.IH[OF r(2)]
  show ?case
  proof (intro conjI allI impI)
    show "length answers = length (i # js)" "serving w' = serving w" using IH r(3) S by simp_all
    fix k assume "k < length (i # js)" "snd (answers ! k) = None"
    then show "serving w ((i # js) ! k) = (if Sealed (fst (answers ! k)) then None else Some (reported_keys (fst (answers ! k))))"
      using IH r S State_reports[of i w w1] by (cases k) (auto split: sum.splits)
  qed
qed simp

lemma keep_one_effect:
  assumes "kp_replicas kp = rc" "ParseBundle unyaml bundle' = Inr b"
  shows "serving (ps_world (keep_one kp bundle' fleet (i, st, err) ps)) = serving (ps_world ps)
    \<or> fv_Mismatch fleet = None \<and> fv_Unchecked fleet = None \<and> serving (ps_world ps) i = None
      \<and> serving (ps_world (keep_one kp bundle' fleet (i, st, err) ps)) = (serving (ps_world ps))(i := Some (key_report (bu_scopes b)))"
proof (cases "de_Action (Decide st err i (kc_Generation (kp_config kp))
    (Budget (ps_entries ps) (kc_Budget (kp_config kp)) (kc_Window (kp_config kp)) (kp_clock kp (ps_world ps))) fleet) = ActionReseed")
  case True
  obtain w r where u: "rc_Unseal rc i bundle' IntentReseed_name (ps_world ps) = (w, r)" by fastforce
  have "ps_world (keep_one kp bundle' fleet (i, st, err) ps) = w" using True u assms(1) by (simp add: keep_one_def Let_def)
  then show ?thesis
    using Unseal_installs[OF u] reseed_replaces_nobody[OF u[unfolded IntentReseed_name_def]] True[unfolded Decide_reseed] assms(2) by auto
next
  case False
  then show ?thesis by (simp add: keep_one_def Let_def)
qed

lemma keep_all_effect:
  assumes "kp_replicas kp = rc" "ParseBundle unyaml bundle' = Inr b"
  shows "(\<forall>i. serving (ps_world (fold (keep_one kp bundle' fleet) xs ps)) i = serving (ps_world ps) i
      \<or> fv_Mismatch fleet = None \<and> fv_Unchecked fleet = None \<and> serving (ps_world ps) i = None
        \<and> serving (ps_world (fold (keep_one kp bundle' fleet) xs ps)) i = Some (key_report (bu_scopes b)))"
proof (induction xs arbitrary: ps)
  case (Cons x xs)
  obtain i st err where x: "x = (i, st, err)" by (cases x)
  show ?case using Cons.IH[of "keep_one kp bundle' fleet x ps"] keep_one_effect[OF assms, of fleet i st err ps]
    by (simp add: x) (metis fun_upd_apply option.distinct(1))
qed simp

theorem keeper_pass_keeps_readable:
  assumes "kp_replicas kp = rc" "kp_unyaml kp = unyaml" "\<And>i. serving w i \<noteq> None \<Longrightarrow> i < keeperReplicas"
    and "keeperCheckWith kp bundle' (w, file) = ((w', file'), r)"
  shows "(cross_readable (serving w) \<longrightarrow> cross_readable (serving w')) \<and> (\<forall>i m. serving w i = Some m \<longrightarrow> serving w' i = Some m)"
proof -
  obtain w1 answers where a: "ask_replicas rc [0..<keeperReplicas] w = (w1, answers)" by fastforce
  note A = ask_replicas_answers[OF a]
  show ?thesis
  proof (cases "\<exists>entries b. ReadLedger (kp_unjson kp) (if kp_readable kp w then file_of file else File_unreadable) = Inr entries
      \<and> ParseBundle unyaml bundle' = Inr b")
    case False
    then have "serving w' = serving w" using assms(1,2,4) a A
      by (auto simp: keeperCheckWith_def Let_def split: sum.splits prod.splits)
    then show ?thesis by simp
  next
    case True
    then obtain entries b where eb: "ReadLedger (kp_unjson kp) (if kp_readable kp w then file_of file else File_unreadable) = Inr entries"
      "ParseBundle unyaml bundle' = Inr b" by blast
    let ?fleet = "FleetOf b (map fst answers) (map snd answers)" and ?R = "key_report (bu_scopes b)"
    have w': "w' = ps_world (fold (keep_one kp bundle' ?fleet) (enumerate 0 answers)
        \<lparr>ps_world = w1, ps_file = file, ps_entries = entries, ps_decisions = []\<rparr>)"
      using assms(1,2,4) a eb by (simp add: keeperCheckWith_def Let_def)
    have E: "serving w' i = serving w i \<or> fv_Mismatch ?fleet = None \<and> fv_Unchecked ?fleet = None \<and> serving w i = None \<and> serving w' i = Some ?R" for i
      using keep_all_effect[OF assms(1) eb(2), of ?fleet "enumerate 0 answers" "\<lparr>ps_world = w1, ps_file = file, ps_entries = entries, ps_decisions = []\<rparr>"]
        A w' by simp
    have "cross_readable (serving w')" if c: "cross_readable (serving w)"
    proof (cases "fv_Mismatch ?fleet = None \<and> fv_Unchecked ?fleet = None")
      case True
      have ok: "keyring_ok (bu_scopes b)" by (rule ParseBundle_ok[OF eb(2)])
      have "joins ?R m" if m: "serving w i = Some m" for i m
      proof -
        have i: "i < length answers" "i < keeperReplicas" using assms(3)[of i] m A by simp_all
        then have "(i, snd (answers ! i)) \<in> set (enumerate 0 (map snd answers))" by (simp add: in_set_enumerate_eq)
        then have "snd (answers ! i) = None" using True by (force simp: FleetOf_def first_of_None split: if_splits)
        then have "\<not> Sealed (fst (answers ! i))" "m = reported_keys (fst (answers ! i))" using A i m by (auto split: if_splits)
        then show ?thesis using Mismatch_joins[OF _ ok, of "map fst answers" i] True i by (simp add: FleetOf_def)
      qed
      moreover have "joins ?R ?R" using heldKeys_joins_itself[of "\<lparr>kr_nameKeys = [], kr_keys = [], kr_scopes = bu_scopes b\<rparr>"] ok
        by (simp add: heldKeys_def)
      ultimately show ?thesis using E by (intro joins_cross[OF c]) auto
    next
      case False
      then have "serving w' = serving w" using E by auto
      then show ?thesis using c by simp
    qed
    then show ?thesis using E by (metis option.distinct(1))
  qed
qed

end

section \<open>The budget\<close>

definition is_reseed :: "ledger_entry \<Rightarrow> bool" where
  "is_reseed e \<longleftrightarrow> le_Intent e = IntentReseed_name \<and> le_Result e = ''ok''"

definition reseeds_in :: "ledger_entry list \<Rightarrow> gotime \<Rightarrow> gotime \<Rightarrow> nat" where
  "reseeds_in es t u = length (filter (\<lambda>e. is_reseed e \<and> t \<le> le_Time e \<and> le_Time e \<le> u) es)"

lemma budget_used:
  "bs_Used (fold (budget_step c) es b) = bs_Used b + int (length (filter (\<lambda>e. is_reseed e \<and> c \<le> le_Time e) es))"
  by (induction es arbitrary: b) (auto simp: budget_step_def is_reseed_def)

lemma Budget_allowed: "bs_Allowed (Budget es limit window now) \<longleftrightarrow> int (length (filter (\<lambda>e. is_reseed e \<and> now - window \<le> le_Time e) es)) < limit"
  by (simp add: Budget_def Let_def budget_used)

text \<open>A ledger within the budget at every moment, all of it in the past.\<close>

definition within_budget :: "keeper_config \<Rightarrow> ledger_entry list \<Rightarrow> gotime \<Rightarrow> bool" where
  "within_budget cfg es now \<longleftrightarrow> (\<forall>e\<in>set es. le_Time e \<le> now) \<and> (\<forall>t. reseeds_in es t (t + kc_Window cfg) \<le> nat (kc_Budget cfg))"

lemma within_budget_later: "within_budget cfg es now \<Longrightarrow> now \<le> now' \<Longrightarrow> within_budget cfg es now'"
  by (force simp: within_budget_def)

lemma length_filter_implies_le: "(\<And>x. x \<in> set xs \<Longrightarrow> P x \<Longrightarrow> Q x) \<Longrightarrow> length (filter P xs) \<le> length (filter Q xs)"
  by (induction xs) auto

lemma within_budget_push:
  assumes "within_budget cfg es now" "bs_Allowed (Budget es (kc_Budget cfg) (kc_Window cfg) now)" "now \<le> le_Time e"
  shows "within_budget cfg (es @ [e]) (le_Time e)"
  unfolding within_budget_def
proof (intro conjI allI ballI)
  fix x assume "x \<in> set (es @ [e])"
  then show "le_Time x \<le> le_Time e" using assms(1,3) by (force simp: within_budget_def)
next
  fix t
  let ?in = "\<lambda>e. is_reseed e \<and> t \<le> le_Time e \<and> le_Time e \<le> t + kc_Window cfg"
  have old: "reseeds_in es t (t + kc_Window cfg) \<le> nat (kc_Budget cfg)" using assms(1) by (simp add: within_budget_def)
  show "reseeds_in (es @ [e]) t (t + kc_Window cfg) \<le> nat (kc_Budget cfg)"
  proof (cases "?in e")
    case True
    have "length (filter ?in es) \<le> length (filter (\<lambda>e. is_reseed e \<and> now - kc_Window cfg \<le> le_Time e) es)"
      using True assms(3) by (intro length_filter_implies_le) auto
    moreover have "int (length (filter (\<lambda>e. is_reseed e \<and> now - kc_Window cfg \<le> le_Time e) es)) < kc_Budget cfg"
      using assms(2) by (simp add: Budget_allowed)
    ultimately show ?thesis using True by (simp add: reseeds_in_def)
  next
    case False
    then show ?thesis using old by (auto simp: reseeds_in_def)
  qed
qed

text \<open>
  A keeper whose clock does not run backwards and whose file system records what it is given.
\<close>

definition sound_keeper :: "'w keeper \<Rightarrow> bool" where
  "sound_keeper kp \<longleftrightarrow> json_lines (kp_json kp) (kp_unjson kp) \<and> (\<forall>e. kp_json kp e \<noteq> None) \<and> (\<forall>w. kp_io kp w = Io_ok)
     \<and> (\<forall>i w. kp_clock kp w \<le> kp_clock kp (fst (rc_State (kp_replicas kp) i w)))
     \<and> (\<forall>i p intent w. kp_clock kp w \<le> kp_clock kp (fst (rc_Unseal (kp_replicas kp) i p intent w)))"

definition pass_ok :: "'w keeper \<Rightarrow> 'w pass \<Rightarrow> bool" where
  "pass_ok kp ps \<longleftrightarrow> whole_lines (ps_file ps) \<and> ps_entries ps = ledger_of (kp_unjson kp) (ps_file ps)
     \<and> within_budget (kp_config kp) (ps_entries ps) (kp_clock kp (ps_world ps))"

lemma keep_one_ok:
  assumes "sound_keeper kp" "pass_ok kp ps"
  shows "pass_ok kp (keep_one kp bundle' fleet (i, st, err) ps)"
proof (cases "de_Action (Decide st err i (kc_Generation (kp_config kp))
    (Budget (ps_entries ps) (kc_Budget (kp_config kp)) (kc_Window (kp_config kp)) (kp_clock kp (ps_world ps))) fleet) = ActionReseed")
  case True
  obtain w r where u: "rc_Unseal (kp_replicas kp) i bundle' IntentReseed_name (ps_world ps) = (w, r)" by fastforce
  let ?e = "reseed_entry kp (kp_clock kp w) i st r"
  have a: "AppendLedger (kp_json kp) (kp_io kp w) ?e (ps_file ps) = (fst (AppendLedger (kp_json kp) Io_ok ?e (ps_file ps)), None)"
    using assms(1) by (auto simp: sound_keeper_def AppendLedger_def Let_def split: option.split)
  have c: "kp_clock kp (ps_world ps) \<le> kp_clock kp w" using assms(1) u by (metis fst_conv sound_keeper_def)
  have "json_lines (kp_json kp) (kp_unjson kp)" "kp_io kp w = Io_ok" using assms(1) by (simp_all add: sound_keeper_def)
  then have "whole_lines (fst (AppendLedger (kp_json kp) Io_ok ?e (ps_file ps)))
    \<and> ledger_of (kp_unjson kp) (fst (AppendLedger (kp_json kp) Io_ok ?e (ps_file ps))) = ledger_of (kp_unjson kp) (ps_file ps) @ [?e]"
    using AppendLedger_recorded[of "kp_json kp" "kp_unjson kp" "ps_file ps" Io_ok ?e] a assms(2) by (simp add: pass_ok_def)
  moreover have t: "le_Time ?e = kp_clock kp w" by (simp add: reseed_entry_def)
  have "within_budget (kp_config kp) (ps_entries ps @ [?e]) (le_Time ?e)"
  proof (rule within_budget_push)
    show "within_budget (kp_config kp) (ps_entries ps) (kp_clock kp (ps_world ps))" using assms(2) unfolding pass_ok_def by blast
    show "bs_Allowed (Budget (ps_entries ps) (kc_Budget (kp_config kp)) (kc_Window (kp_config kp)) (kp_clock kp (ps_world ps)))"
      using True unfolding Decide_reseed by blast
    show "kp_clock kp (ps_world ps) \<le> le_Time ?e" using c by (simp only: t)
  qed
  then have "within_budget (kp_config kp) (ps_entries ps @ [?e]) (kp_clock kp w)" by (simp only: t)
  moreover have "ps_world (keep_one kp bundle' fleet (i, st, err) ps) = w"
    "ps_file (keep_one kp bundle' fleet (i, st, err) ps) = fst (AppendLedger (kp_json kp) Io_ok ?e (ps_file ps))"
    "ps_entries (keep_one kp bundle' fleet (i, st, err) ps) = ps_entries ps @ [?e]"
    using True u \<open>kp_io kp w = Io_ok\<close> by (simp_all add: keep_one_def Let_def)
  ultimately show ?thesis using assms(2) by (simp add: pass_ok_def)
next
  case False
  then have "ps_world (keep_one kp bundle' fleet (i, st, err) ps) = ps_world ps" "ps_file (keep_one kp bundle' fleet (i, st, err) ps) = ps_file ps"
    "ps_entries (keep_one kp bundle' fleet (i, st, err) ps) = ps_entries ps"
    by (simp_all add: keep_one_def Let_def)
  then show ?thesis using assms(2) unfolding pass_ok_def by metis
qed

lemma keep_all_ok: "sound_keeper kp \<Longrightarrow> pass_ok kp ps \<Longrightarrow> pass_ok kp (fold (keep_one kp bundle' fleet) xs ps)"
proof (induction xs arbitrary: ps)
  case (Cons x xs)
  then show ?case using keep_one_ok[of kp ps bundle' fleet] by (cases x) simp
qed simp

lemma ask_clock:
  assumes "sound_keeper kp" "ask_replicas (kp_replicas kp) js w = (w', answers)"
  shows "kp_clock kp w \<le> kp_clock kp w'"
  using assms(2)
proof (induction js arbitrary: w w' answers)
  case (Cons i js)
  obtain w1 r answers1 where r: "rc_State (kp_replicas kp) i w = (w1, r)" "ask_replicas (kp_replicas kp) js w1 = (w', answers1)"
    using Cons.prems by (auto split: prod.splits)
  have "kp_clock kp w \<le> kp_clock kp w1" using assms(1) r(1) by (metis fst_conv sound_keeper_def)
  then show ?case using Cons.IH[OF r(2)] by simp
qed simp

text \<open>The states a keeper's device goes through: an empty ledger, passes, and time in between.\<close>

inductive kept :: "'w keeper \<Rightarrow> string \<Rightarrow> 'w \<times> string option \<Rightarrow> bool" for kp bundle' where
  enrolled: "kept kp bundle' (w, None)"
| passed: "kept kp bundle' (w, f) \<Longrightarrow> kept kp bundle' (fst (keeperCheckWith kp bundle' (w, f)))"
| waited: "kept kp bundle' (w, f) \<Longrightarrow> kp_clock kp w \<le> kp_clock kp w' \<Longrightarrow> kept kp bundle' (w', f)"

inductive_cases kept_cases: "kept kp bundle' (w, f)"

lemma keeperCheckWith_ok:
  assumes "sound_keeper kp" "whole_lines f" "within_budget (kp_config kp) (ledger_of (kp_unjson kp) f) (kp_clock kp w)"
    and "keeperCheckWith kp bundle' (w, f) = ((w', f'), r)"
  shows "whole_lines f' \<and> within_budget (kp_config kp) (ledger_of (kp_unjson kp) f') (kp_clock kp w')"
proof -
  obtain w1 answers where a: "ask_replicas (kp_replicas kp) [0..<keeperReplicas] w = (w1, answers)" by fastforce
  have b: "within_budget (kp_config kp) (ledger_of (kp_unjson kp) f) (kp_clock kp w1)"
    by (rule within_budget_later[OF assms(3) ask_clock[OF assms(1) a]])
  show ?thesis
  proof (cases "kp_readable kp w")
    case False
    then show ?thesis using assms(2-4) by (auto simp: keeperCheckWith_def ReadLedger_def)
  next
    case True
    show ?thesis
    proof (cases "ParseBundle (kp_unyaml kp) bundle'")
      case (Inl e)
      then show ?thesis using assms(2,4) a b True by (auto simp: keeperCheckWith_def ReadLedger_file)
    next
      case (Inr parsed)
      let ?ps = "\<lparr>ps_world = w1, ps_file = f, ps_entries = ledger_of (kp_unjson kp) f, ps_decisions = []\<rparr>"
      let ?fleet = "FleetOf parsed (map fst answers) (map snd answers)"
      have "pass_ok kp ?ps" using assms(2) b by (simp add: pass_ok_def)
      then have "pass_ok kp (fold (keep_one kp bundle' ?fleet) (enumerate 0 answers) ?ps)" by (rule keep_all_ok[OF assms(1)])
      then show ?thesis using assms(4) a True Inr by (auto simp: keeperCheckWith_def ReadLedger_file Let_def pass_ok_def)
    qed
  qed
qed

lemma kept_within_budget:
  assumes "kept kp bundle' x" "sound_keeper kp"
  shows "whole_lines (snd x) \<and> within_budget (kp_config kp) (ledger_of (kp_unjson kp) (snd x)) (kp_clock kp (fst x))"
  using assms(1)
proof induction
  case (enrolled w)
  then show ?case by (simp add: whole_lines_def within_budget_def ledger_of_def reseeds_in_def)
next
  case (passed w f)
  obtain w' f' r where k: "keeperCheckWith kp bundle' (w, f) = ((w', f'), r)" by (metis prod.collapse)
  then show ?case using keeperCheckWith_ok[OF assms(2) _ _ k] passed.IH by simp
next
  case (waited w f w')
  then show ?case using within_budget_later by auto
qed

text \<open>
  C15. The budget bounds how often key material moves. Whatever the replicas answer and
  however often they restart, over the whole life of a keeper no window of the configured
  length contains more successful re-seeds in its ledger than the budget allows, not only
  the windows that end at a pass. It takes a clock that does not run backwards and a file
  system that records what it is given.
\<close>

theorem budget_bounds_reseeds:
  assumes "kept kp bundle' (w, f)" "sound_keeper kp"
  shows "reseeds_in (ledger_of (kp_unjson kp) f) t (t + kc_Window (kp_config kp)) \<le> nat (kc_Budget (kp_config kp))"
  using kept_within_budget[OF assms] by (simp add: within_budget_def)

section \<open>A small keeper to try it on\<close>

text \<open>A ledger line of hexadecimal and unary fields between commas, read back field by field.\<close>

definition join_fields :: "string list \<Rightarrow> string" where
  "join_fields fs = concat (map (\<lambda>f. f @ '','') fs)"

definition unary :: "int \<Rightarrow> string" where
  "unary n = (if n < 0 then ''-'' else '''') @ replicate (nat \<bar>n\<bar>) CHR ''1''"

definition of_unary :: "string \<Rightarrow> int" where
  "of_unary s = (if s \<noteq> [] \<and> hd s = CHR ''-'' then - int (length s - 1) else int (length s))"

lemma of_unary_unary: "of_unary (unary n) = n"
  by (cases "nat \<bar>n\<bar>") (auto simp: of_unary_def unary_def)

definition line_of :: "ledger_entry \<Rightarrow> string" where
  "line_of e = join_fields [unary (le_Time e), hex_encode (le_Instance e), unary (int (le_Ordinal e)), hex_encode (le_Intent e),
     unary (uint (le_Generation e)), hex_encode (le_Phase e), hex_encode (le_Result e), hex_encode (le_Device e), hex_encode (le_Boot e)]"

definition entry_of :: "string \<Rightarrow> ledger_entry option" where
  "entry_of line =
     (case split_on (CHR '','') line of
        [time, inst, ordinal, intent, generation, phase, result, device, boot, rest] \<Rightarrow>
          let text = \<lambda>s. (case hex_decode s of None \<Rightarrow> '''' | Some t \<Rightarrow> t) in
          Some \<lparr>le_Time = of_unary time, le_Instance = text inst, le_Ordinal = nat (of_unary ordinal), le_Intent = text intent,
            le_Generation = word_of_int (of_unary generation), le_Phase = text phase, le_Result = text result, le_Device = text device, le_Boot = text boot\<rparr>
      | _ \<Rightarrow> None)"

lemma split_join_fields: "\<forall>f\<in>set fs. CHR '','' \<notin> set f \<Longrightarrow> split_on (CHR '','') (join_fields fs) = fs @ [[]]"
  by (induction fs) (simp_all add: join_fields_def split_on_append_sep)

lemma hex_val_encode: "c \<in> set (hex_encode s) \<Longrightarrow> hex_val c \<noteq> None"
proof (induction s)
  case (Cons b s)
  have "byte_val b div 16 < 16" using byte_val_less[of b] by simp
  then show ?case using Cons by (auto simp: hex_val_char)
qed simp

lemma plain_fields: "c \<in> {CHR '','', CHR 0x0A} \<Longrightarrow> c \<notin> set (hex_encode s) \<and> c \<notin> set (unary n)"
  using hex_val_encode[of c s] by (auto simp: unary_def hex_val_def byte_val_def Let_def)

lemma line_of_lines: "json_lines (\<lambda>e. Some (line_of e)) entry_of"
  unfolding json_lines_def
proof (intro allI impI)
  fix e line assume l: "Some (line_of e) = Some line"
  have "CHR 0x0A \<notin> set (line_of e)" using plain_fields[of "CHR 0x0A"] by (auto simp: line_of_def join_fields_def)
  moreover have "split_on (CHR '','') (line_of e) = [unary (le_Time e), hex_encode (le_Instance e), unary (int (le_Ordinal e)), hex_encode (le_Intent e),
     unary (uint (le_Generation e)), hex_encode (le_Phase e), hex_encode (le_Result e), hex_encode (le_Device e), hex_encode (le_Boot e), []]"
    unfolding line_of_def using plain_fields[of "CHR '',''"] by (subst split_join_fields) auto
  then have "entry_of (line_of e) = Some e" by (simp add: entry_of_def hex_decode_encode of_unary_unary Let_def)
  moreover have "line_of e \<noteq> []" by (simp add: line_of_def join_fields_def)
  ultimately show "line \<noteq> [] \<and> CHR 0x0A \<notin> set line \<and> entry_of line = Some e" using l by simp
qed

definition sample_replica :: "bool \<Rightarrow> replica_state" where
  "sample_replica serves = no_state\<lparr>rst_Instance := ''prod'', rst_Phase := (if serves then ''unsealed'' else ''restart-sealed''), rst_Boot := ''boot''\<rparr>"

definition sample_file :: bundle_file where
  "sample_file = \<lparr>bf_Version = bundleVersion, bf_Instance = ''prod'', bf_Generation = 1, bf_Scopes = marshalScopes (kr_scopes sample_keyring)\<rparr>"

definition sample_unyaml :: "string \<Rightarrow> bundle_file option" where
  "sample_unyaml s = (if s = ''bundle'' then Some sample_file else None)"

text \<open>Two replicas that always come back sealed, a clock that ticks at every call, one re-seed in ten ticks.\<close>

definition sample_keeper :: "int keeper" where
  "sample_keeper =
     \<lparr>kp_replicas = \<lparr>rc_State = (\<lambda>i w. (w + 1, Inr (sample_replica False))), rc_Unseal = (\<lambda>i payload intent w. (w + 1, Inr (sample_replica True)))\<rparr>,
      kp_unyaml = sample_unyaml, kp_json = (\<lambda>e. Some (line_of e)), kp_unjson = entry_of, kp_clock = (\<lambda>w. w), kp_io = (\<lambda>w. Io_ok),
      kp_readable = (\<lambda>w. True),
      kp_config = \<lparr>kc_Instance = ''prod'', kc_Device = ''nas'', kc_Generation = 1, kc_Budget = 1, kc_Window = 10\<rparr>\<rparr>"

lemma sample_keeper_sound: "sound_keeper sample_keeper"
  by (simp add: sound_keeper_def sample_keeper_def line_of_lines)

text \<open>A first pass, time, and a second pass.\<close>

definition sample_pass :: "int \<Rightarrow> string option \<Rightarrow> int \<times> string option" where
  "sample_pass w f = fst (keeperCheckWith sample_keeper ''bundle'' (w, f))"

lemma budget_bounds_reseeds_witness:
  "case sample_pass 0 None of (w, f) \<Rightarrow> case sample_pass (w + 4) f of (w', f') \<Rightarrow>
     reseeds_in (ledger_of entry_of f') 0 10 \<le> 1"
proof -
  obtain w f where p: "sample_pass 0 None = (w, f)" by fastforce
  obtain w' f' where p': "sample_pass (w + 4) f = (w', f')" by fastforce
  have "kept sample_keeper ''bundle'' (w, f)" using kept.passed[OF kept.enrolled] p unfolding sample_pass_def by metis
  then have "kept sample_keeper ''bundle'' (w + 4, f)" by (rule kept.waited) (simp add: sample_keeper_def)
  then have "kept sample_keeper ''bundle'' (w', f')" using kept.passed p' unfolding sample_pass_def by metis
  from budget_bounds_reseeds[OF this sample_keeper_sound, of 0] show ?thesis by (simp add: p p' sample_keeper_def)
qed

section \<open>What the audit finds\<close>

definition pushes_into :: "string \<Rightarrow> ledger_entry list \<Rightarrow> string \<Rightarrow> nat" where
  "pushes_into instance' es boot = length (filter (\<lambda>e. le_Instance e = instance' \<and> is_reseed e \<and> le_Boot e = boot) es)"

definition boots_total :: "(string \<times> boot_count) list \<Rightarrow> nat" where
  "boots_total m = sum_list (map (\<lambda>x. bc_Count (snd x)) m)"

lemma boots_total_update:
  "distinct (map fst m) \<Longrightarrow>
     boots_total (AList.update k v m) + (case map_of m k of None \<Rightarrow> 0 | Some x \<Rightarrow> bc_Count x) = boots_total m + bc_Count v"
proof (induction m)
  case (Cons p m)
  show ?case
  proof (cases "fst p = k")
    case True
    then show ?thesis by (cases p) (simp add: boots_total_def)
  next
    case False
    then show ?thesis using Cons by (cases p) (simp add: boots_total_def)
  qed
qed (simp add: boots_total_def)

definition tally_ok :: "string \<Rightarrow> ledger_entry list \<Rightarrow> tally \<Rightarrow> bool" where
  "tally_ok instance' es ta \<longleftrightarrow> distinct (map fst (ta_byBoot ta))
     \<and> (\<forall>b. b \<noteq> '''' \<longrightarrow> (case map_of (ta_byBoot ta) b of None \<Rightarrow> 0 | Some bc \<Rightarrow> bc_Count bc) = pushes_into instance' es b)
     \<and> (\<forall>x\<in>set (ta_byBoot ta). fst x \<noteq> '''' \<and> 0 < bc_Count (snd x))
     \<and> au_Unlabelled (ta_audit ta) = pushes_into instance' es ''''
     \<and> au_Reseeds (ta_audit ta) = au_Unlabelled (ta_audit ta) + boots_total (ta_byBoot ta)"

lemma count_boot_Count: "bc_Count (count_boot e known) = (case known of None \<Rightarrow> 0 | Some bc \<Rightarrow> bc_Count bc) + 1"
  by (simp add: count_boot_def Let_def split: option.split)

lemma seen_entry_simps [simp]:
  "ta_byBoot (seen_entry e ta) = ta_byBoot ta" "au_Reseeds (ta_audit (seen_entry e ta)) = au_Reseeds (ta_audit ta)"
  "au_Unlabelled (ta_audit (seen_entry e ta)) = au_Unlabelled (ta_audit ta)"
  by (simp_all add: seen_entry_def Let_def)

lemma pushes_into_snoc:
  "pushes_into instance' (es @ [e]) b
    = pushes_into instance' es b + (if le_Instance e = instance' \<and> is_reseed e \<and> le_Boot e = b then 1 else 0)"
  by (simp add: pushes_into_def)

lemma reconcile_step_ok:
  assumes "tally_ok instance' es ta"
  shows "tally_ok instance' (es @ [e]) (reconcile_step instance' e ta)"
proof (cases "le_Instance e = instance' \<and> is_reseed e")
  case False
  then have "ta_byBoot (reconcile_step instance' e ta) = ta_byBoot ta"
    "au_Reseeds (ta_audit (reconcile_step instance' e ta)) = au_Reseeds (ta_audit ta)"
    "au_Unlabelled (ta_audit (reconcile_step instance' e ta)) = au_Unlabelled (ta_audit ta)"
    by (auto simp: reconcile_step_def Let_def is_reseed_def)
  then show ?thesis using assms False by (auto simp: tally_ok_def pushes_into_snoc)
next
  case True
  show ?thesis
  proof (cases "le_Boot e = ''''")
    case empty: True
    then have "ta_byBoot (reconcile_step instance' e ta) = ta_byBoot ta"
      "au_Reseeds (ta_audit (reconcile_step instance' e ta)) = au_Reseeds (ta_audit ta) + 1"
      "au_Unlabelled (ta_audit (reconcile_step instance' e ta)) = au_Unlabelled (ta_audit ta) + 1"
      using True by (auto simp: reconcile_step_def Let_def is_reseed_def)
    then show ?thesis using assms True empty by (auto simp: tally_ok_def pushes_into_snoc)
  next
    case boot: False
    let ?m = "ta_byBoot ta" and ?bc = "count_boot e (map_of (ta_byBoot ta) (le_Boot e))"
    have r: "ta_byBoot (reconcile_step instance' e ta) = AList.update (le_Boot e) ?bc ?m"
      "au_Reseeds (ta_audit (reconcile_step instance' e ta)) = au_Reseeds (ta_audit ta) + 1"
      "au_Unlabelled (ta_audit (reconcile_step instance' e ta)) = au_Unlabelled (ta_audit ta)"
      using True boot by (auto simp: reconcile_step_def Let_def is_reseed_def)
    have d: "distinct (map fst ?m)" using assms by (simp add: tally_ok_def)
    have t: "boots_total (AList.update (le_Boot e) ?bc ?m) = boots_total ?m + 1"
      using boots_total_update[OF d, of "le_Boot e" ?bc] by (simp add: count_boot_Count)
    have "fst x \<noteq> '''' \<and> 0 < bc_Count (snd x)" if "x \<in> set (AList.update (le_Boot e) ?bc ?m)" for x
    proof -
      have "x \<in> insert (le_Boot e, ?bc) (set ?m)" using that set_update_subset by fastforce
      then show ?thesis using assms boot by (auto simp: tally_ok_def count_boot_Count)
    qed
    then show ?thesis unfolding tally_ok_def r
      using assms True boot t d by (auto simp: tally_ok_def pushes_into_snoc update_conv' distinct_update count_boot_Count)
  qed
qed

lemma tally_all_ok: "tally_ok instance' es (fold (reconcile_step instance') es (no_tally instance'))"
proof (induction es rule: rev_induct)
  case Nil
  then show ?case by (simp add: tally_ok_def no_tally_def boots_total_def pushes_into_def)
next
  case (snoc e es)
  then show ?case using reconcile_step_ok by simp
qed

lemma total_ge_length: "(\<forall>x\<in>set m. 0 < bc_Count (snd x)) \<Longrightarrow> length m \<le> boots_total m"
  by (induction m) (auto simp: boots_total_def)

lemma total_of_ones:
  "(\<forall>x\<in>set m. 0 < bc_Count (snd x)) \<Longrightarrow> boots_total m = length m \<longleftrightarrow> (\<forall>x\<in>set m. bc_Count (snd x) = 1)"
proof (induction m)
  case (Cons x m)
  have "length m \<le> boots_total m" by (rule total_ge_length) (use Cons.prems in simp)
  moreover have "0 < bc_Count (snd x)" using Cons.prems by simp
  moreover have "boots_total (x # m) = bc_Count (snd x) + boots_total m" by (simp add: boots_total_def)
  moreover have "boots_total m = length m \<longleftrightarrow> (\<forall>x\<in>set m. bc_Count (snd x) = 1)" using Cons by simp
  ultimately show ?case by (cases "bc_Count (snd x) = 1") auto
qed (simp add: boots_total_def)

text \<open>
  C16. The audit finds every process that was re-seeded twice, and nothing else. It is clean
  exactly when no labelled process of the instance took more than one successful push in
  the ledgers, whoever wrote them and in whatever order, which is exactly when the number
  of re-seeds is that of the processes plus the pushes whose process is unknown.
\<close>

theorem audit_finds_double_pushes:
  "(Clean (Reconcile instance' es) \<longleftrightarrow> (\<forall>b. b = '''' \<or> pushes_into instance' es b \<le> 1))
   \<and> (Clean (Reconcile instance' es) \<longleftrightarrow>
        au_Reseeds (Reconcile instance' es) = au_Boots (Reconcile instance' es) + au_Unlabelled (Reconcile instance' es))"
proof -
  let ?ta = "fold (reconcile_step instance') es (no_tally instance')"
  let ?m = "ta_byBoot ?ta"
  have ok: "tally_ok instance' es ?ta" by (rule tally_all_ok)
  have pos: "\<forall>x\<in>set ?m. 0 < bc_Count (snd x)" and d: "distinct (map fst ?m)" using ok by (simp_all add: tally_ok_def)
  have c: "Clean (Reconcile instance' es) \<longleftrightarrow> (\<forall>x\<in>set ?m. bc_Count (snd x) = 1)"
  proof -
    let ?twice = "filter (\<lambda>bc. 1 < bc_Count bc) (map snd ?m)"
    have "Clean (Reconcile instance' es) \<longleftrightarrow> set (sort_by (\<lambda>a b. bc_Last b < bc_Last a) ?twice) = {}"
      by (simp add: Clean_def Reconcile_def Let_def del: set_sort_by)
    then have "Clean (Reconcile instance' es) \<longleftrightarrow> (\<forall>x\<in>set ?m. \<not> 1 < bc_Count (snd x))" by auto
    moreover have "(\<forall>x\<in>set ?m. \<not> 1 < bc_Count (snd x)) \<longleftrightarrow> (\<forall>x\<in>set ?m. bc_Count (snd x) = 1)"
      by (intro ball_cong refl) (use pos in force)
    ultimately show ?thesis by simp
  qed
  have "(\<forall>x\<in>set ?m. bc_Count (snd x) = 1) \<longleftrightarrow> (\<forall>b. b \<noteq> '''' \<longrightarrow> pushes_into instance' es b \<le> 1)"
  proof
    assume one: "\<forall>x\<in>set ?m. bc_Count (snd x) = 1"
    show "\<forall>b. b \<noteq> '''' \<longrightarrow> pushes_into instance' es b \<le> 1"
    proof (intro allI impI)
      fix b :: string assume "b \<noteq> ''''"
      then have "pushes_into instance' es b = (case map_of ?m b of None \<Rightarrow> 0 | Some bc \<Rightarrow> bc_Count bc)" using ok by (simp add: tally_ok_def)
      moreover have "bc_Count bc = 1" if "map_of ?m b = Some bc" for bc using one map_of_SomeD[OF that] by force
      ultimately show "pushes_into instance' es b \<le> 1" by (auto split: option.splits)
    qed
  next
    assume few: "\<forall>b. b \<noteq> '''' \<longrightarrow> pushes_into instance' es b \<le> 1"
    show "\<forall>x\<in>set ?m. bc_Count (snd x) = 1"
    proof
      fix x assume x: "x \<in> set ?m"
      then have "map_of ?m (fst x) = Some (snd x)" using d by simp
      moreover have "fst x \<noteq> ''''" using x ok by (simp add: tally_ok_def)
      moreover have "fst x \<noteq> '''' \<Longrightarrow> (case map_of ?m (fst x) of None \<Rightarrow> 0 | Some bc \<Rightarrow> bc_Count bc) = pushes_into instance' es (fst x)"
        using ok by (simp add: tally_ok_def)
      ultimately have "bc_Count (snd x) \<le> 1" using few by simp
      then show "bc_Count (snd x) = 1" using pos x by force
    qed
  qed
  moreover have "(\<forall>x\<in>set ?m. bc_Count (snd x) = 1) \<longleftrightarrow> boots_total ?m = length ?m" using total_of_ones[OF pos] by simp
  moreover have "au_Reseeds (Reconcile instance' es) = au_Unlabelled (Reconcile instance' es) + boots_total ?m"
    "au_Boots (Reconcile instance' es) = length ?m"
    using ok by (simp_all add: Reconcile_def Let_def tally_ok_def)
  ultimately show ?thesis using c by auto
qed

end
