(* ===== verification/Keyholder_Fleet.thy ===== *)
theory Keyholder_Fleet
  imports Keeper
begin

text \<open>
  The fleet of keyholder replicas the instance runs: the servers of \<open>Keyholder\<close>, reached by
  the calls of \<open>Fleet_Client\<close> over a network that delays, loses requests and loses answers.
  It keeps the contract \<open>replica_fleet\<close>, so what is proved of hand-overs and keeper passes
  over that contract holds of it; and it stays readable to itself over any order of
  hand-overs, keeper passes, restarts, seals and requests of applications.
\<close>

section \<open>The network\<close>

datatype trouble = Dial_trouble | Handshake_trouble | Send_trouble bool | Answer_trouble bool

text \<open>What one exchange meets: how long it takes, what breaks, the random bytes of both ends.\<close>

record draw =
  dw_delay :: nat
  dw_trouble :: "trouble option"
  dw_random :: string
  dw_sender :: "string option"
  dw_nonce :: string

record fleet_world =
  fw_replicas :: nat
  fw_servers :: "nat \<Rightarrow> server"
  fw_time :: gotime
  fw_turn :: nat
  fw_draws :: "nat \<Rightarrow> draw"

definition processed :: "trouble option \<Rightarrow> bool" where
  "processed t = (case t of None \<Rightarrow> True | Some (Send_trouble b) \<Rightarrow> b | Some (Answer_trouble b) \<Rightarrow> b | Some _ \<Rightarrow> False)"

definition delivered :: "trouble option \<Rightarrow> response \<Rightarrow> transport" where
  "delivered t rp =
     (case t of None \<Rightarrow> Answered rp | Some Dial_trouble \<Rightarrow> No_dial | Some Handshake_trouble \<Rightarrow> No_handshake
      | Some (Send_trouble _) \<Rightarrow> No_send | Some (Answer_trouble _) \<Rightarrow> No_answer)"

definition control_of :: "draw \<Rightarrow> wire \<Rightarrow> control_request" where
  "control_of d rq =
     (case rq of
        Wire_state \<Rightarrow> Get_state
      | Wire_challenge \<Rightarrow> Get_challenge (dw_random d)
      | Wire_unseal intent content_type data \<Rightarrow> Post_unseal intent content_type \<lparr>rd_data = data, rd_fails = False\<rparr>
      | Wire_seal query \<Rightarrow> Post_seal (query_get query ''hold'') (query_get query ''reason'')
      | Wire_release \<Rightarrow> Post_release)"

definition exchange :: "'c config \<Rightarrow> peer \<Rightarrow> nat \<Rightarrow> wire \<Rightarrow> fleet_world \<Rightarrow> fleet_world \<times> transport" where
  "exchange cf p i rq w =
     (let d = fw_draws w (fw_turn w);
          w = w\<lparr>fw_turn := Suc (fw_turn w), fw_time := fw_time w + int (dw_delay d)\<rparr> in
      if fw_replicas w \<le> i then (w, No_dial)
      else
        (case ControlHandler cf (fw_time w) p (control_of d rq) (fw_servers w i) of (sv, rp) \<Rightarrow>
           (if processed (dw_trouble d) then w\<lparr>fw_servers := (fw_servers w)(i := sv)\<rparr> else w, delivered (dw_trouble d) rp)))"

definition fleet_client :: "'c config \<Rightarrow> peer \<Rightarrow> fleet_world operator_client" where
  "fleet_client cf p =
     \<lparr>oc_instance = cf_Instance cf, oc_crypto = cf_crypto cf, oc_dh = cf_dh cf,
      oc_random = (\<lambda>w. (w, dw_sender (fw_draws w (fw_turn w)), dw_nonce (fw_draws w (fw_turn w)))),
      oc_exchange = exchange cf p\<rparr>"

lemma fleet_client_simps [simp]:
  "oc_instance (fleet_client cf p) = cf_Instance cf" "oc_crypto (fleet_client cf p) = cf_crypto cf" "oc_dh (fleet_client cf p) = cf_dh cf"
  "oc_random (fleet_client cf p) w = (w, dw_sender (fw_draws w (fw_turn w)), dw_nonce (fw_draws w (fw_turn w)))"
  "oc_exchange (fleet_client cf p) = exchange cf p"
  by (simp_all add: fleet_client_def)

definition fleet_replicas :: "'c config \<Rightarrow> peer \<Rightarrow> fleet_world replicas" where
  "fleet_replicas cf p = \<lparr>rc_State = client_State (fleet_client cf p), rc_Unseal = client_Unseal (fleet_client cf p)\<rparr>"

definition vault_serving :: "'k vault \<Rightarrow> report option" where
  "vault_serving v = (if va_phase v = PhaseUnsealed then Some (key_report (va_scopes v)) else None)"

definition fleet_serving :: "fleet_world \<Rightarrow> serving" where
  "fleet_serving w i = (if i < fw_replicas w then vault_serving (sv_vault (fw_servers w i)) else None)"

section \<open>What the vault does to its report\<close>

lemma key_report_cong:
  assumes "map (\<lambda>s. (sc_Name s, key_names s)) ss = map (\<lambda>s. (sc_Name s, key_names s)) ts"
  shows "key_report ss = key_report ts"
proof -
  have r: "key_report us = fold (\<lambda>(n, ks). AList.update n ks) (map (\<lambda>s. (sc_Name s, key_names s)) us) []" for us :: "'x scope list"
    by (simp add: key_report_def fold_map comp_def)
  show ?thesis by (simp only: r assms)
qed

lemma copyEntries_ids: "copyEntries rd es h = (out, h') \<Longrightarrow> map ke_ID out = map ke_ID es"
  by (induction es arbitrary: h out) (auto split: prod.splits)

lemma ids_hex: "map ke_ID es = map ke_ID fs \<Longrightarrow> map (\<lambda>e. hex_encode (ke_ID e)) es = map (\<lambda>e. hex_encode (ke_ID e)) fs"
proof -
  assume "map ke_ID es = map ke_ID fs"
  then have "map hex_encode (map ke_ID es) = map hex_encode (map ke_ID fs)" by simp
  then show "map (\<lambda>e. hex_encode (ke_ID e)) es = map (\<lambda>e. hex_encode (ke_ID e)) fs" unfolding map_map comp_def .
qed

lemma copyScope_shape: "copyScope rd s h = (c, h') \<Longrightarrow> sc_Name c = sc_Name s \<and> key_names c = key_names s"
  by (auto simp: copyScope_def dest!: copyEntries_ids intro!: ids_hex split: prod.splits)

lemma place_scopes_report: "place_scopes ss h = (cs, h') \<Longrightarrow> map (\<lambda>s. (sc_Name s, key_names s)) cs = map (\<lambda>s. (sc_Name s, key_names s)) ss"
proof (induction ss arbitrary: h cs)
  case (Cons s ss)
  obtain c h1 cs1 where "copyScope (\<lambda>h m. m) s h = (c, h1)" "place_scopes ss h1 = (cs1, h')" "cs = c # cs1"
    using Cons.prems by (auto split: prod.splits)
  then show ?case using Cons.IH copyScope_shape by fastforce
qed simp

lemma clone_scopes_report:
  "clone_scopes ss h = (Inr cs, h') \<Longrightarrow> map (\<lambda>s. (sc_Name s, key_names s)) cs = map (\<lambda>s. (sc_Name s, key_names s)) ss"
proof (induction ss arbitrary: h cs)
  case (Cons s ss)
  obtain c h1 cs1 where "Clone s h = (c, h1)" "clone_scopes ss h1 = (Inr cs1, h')" "cs = c # cs1"
    using Cons.prems by (auto split: prod.splits sum.splits option.splits)
  then show ?case using Cons.IH copyScope_shape unfolding Clone_copy by fastforce
qed simp

text \<open>An unseal leaves the report alone or makes it that of the bundle, and never serves another way.\<close>

lemma Unseal_serving:
  assumes "Unseal now (Some b) intent v h = (v', h', e)"
  shows "vault_serving v' = vault_serving v \<or> vault_serving v' = Some (key_report (bu_scopes b))"
    and "e = None \<Longrightarrow> va_phase v' = PhaseUnsealed"
    and "intent = IntentHandOver \<Longrightarrow> va_phase v \<noteq> PhaseUnsealed \<Longrightarrow> v' = v"
    and "intent = IntentReseed \<Longrightarrow> va_phase v = PhaseUnsealed \<Longrightarrow> v' = v"
proof -
  consider (kept) "v' = v" "e = None \<Longrightarrow> va_phase v = PhaseUnsealed"
    | (put) cs h1 where "clone_scopes (bu_scopes b) h = (Inr cs, h1)" "v' = install now b cs (v\<lparr>va_scopes := []\<rparr>)" "unseal_checks v b intent = Inr True"
    using assms
    by (auto simp: Unseal_def dropLocked_def unseal_checks_def split: sum.splits bool.splits prod.splits if_splits)
  note cs = this
  have put: "vault_serving v' = Some (key_report (bu_scopes b))"
    if "clone_scopes (bu_scopes b) h = (Inr cs, h1)" "v' = install now b cs (v\<lparr>va_scopes := []\<rparr>)" for cs h1
    using key_report_cong[OF clone_scopes_report[OF that(1)]] that(2) by (simp add: vault_serving_def install_def)
  show "vault_serving v' = vault_serving v \<or> vault_serving v' = Some (key_report (bu_scopes b))"
    using put by (cases rule: cs) auto
  show "e = None \<Longrightarrow> va_phase v' = PhaseUnsealed" by (cases rule: cs) (auto simp: install_def)
  show "intent = IntentHandOver \<Longrightarrow> va_phase v \<noteq> PhaseUnsealed \<Longrightarrow> v' = v"
    by (cases rule: cs) (auto simp: unseal_checks_def split: if_splits)
  show "intent = IntentReseed \<Longrightarrow> va_phase v = PhaseUnsealed \<Longrightarrow> v' = v"
    by (cases rule: cs) (auto simp: unseal_checks_def split: if_splits)
qed

lemma fail_not_2xx: "rp_status (fail e) div 100 \<noteq> 2"
  using fail_status[of e] by linarith

lemma install_bundle_serving:
  assumes "install_bundle cf now b intent sv = (sv', rp)"
  shows "vault_serving (sv_vault sv') = vault_serving (sv_vault sv) \<or> vault_serving (sv_vault sv') = Some (key_report (bu_scopes b))"
    and "rp_status rp div 100 = 2 \<Longrightarrow> rp = control_state cf sv' \<and> va_phase (sv_vault sv') = PhaseUnsealed"
    and "intent = IntentHandOver \<Longrightarrow> va_phase (sv_vault sv) \<noteq> PhaseUnsealed \<Longrightarrow> sv_vault sv' = sv_vault sv"
    and "intent = IntentReseed \<Longrightarrow> va_phase (sv_vault sv) = PhaseUnsealed \<Longrightarrow> sv_vault sv' = sv_vault sv"
proof -
  obtain ss h1 where a: "place_scopes (bu_scopes b) (sv_heap sv) = (ss, h1)" by fastforce
  obtain v h2 e where u: "Unseal now (Some (rescope ss b)) intent (sv_vault sv) h1 = (v, h2, e)" by (metis prod_cases3)
  obtain b' h3 where z: "ZeroBundle (rescope ss b) h2 = (b', h3)" by fastforce
  have s: "sv' = sv\<lparr>sv_vault := v, sv_heap := h3\<rparr>" "rp = (case e of Some err \<Rightarrow> fail (Vault_refused err) | None \<Rightarrow> control_state cf sv')"
    using assms a u z by (auto simp: install_bundle_def Let_def)
  note U = Unseal_serving[OF u]
  have "key_report ss = key_report (bu_scopes b)" by (rule key_report_cong[OF place_scopes_report[OF a]])
  then show "vault_serving (sv_vault sv') = vault_serving (sv_vault sv) \<or> vault_serving (sv_vault sv') = Some (key_report (bu_scopes b))"
    using U(1) s(1) by simp
  show "rp_status rp div 100 = 2 \<Longrightarrow> rp = control_state cf sv' \<and> va_phase (sv_vault sv') = PhaseUnsealed"
    using fail_not_2xx s U(2) by (cases e) auto
  show "intent = IntentHandOver \<Longrightarrow> va_phase (sv_vault sv) \<noteq> PhaseUnsealed \<Longrightarrow> sv_vault sv' = sv_vault sv"
    "intent = IntentReseed \<Longrightarrow> va_phase (sv_vault sv) = PhaseUnsealed \<Longrightarrow> sv_vault sv' = sv_vault sv"
    using U(3,4) s(1) by simp_all
qed

section \<open>One exchange\<close>

lemma exchange_effect:
  assumes "exchange cf p i rq w = (w', t)"
  obtains d now where "fw_replicas w' = fw_replicas w"
    "fw_servers w' = fw_servers w \<or> i < fw_replicas w \<and> fw_servers w' = (fw_servers w)(i := fst (ControlHandler cf now p (control_of d rq) (fw_servers w i)))"
    "\<And>rp. t = Answered rp \<Longrightarrow> i < fw_replicas w \<and> fw_servers w' = (fw_servers w)(i := fst (ControlHandler cf now p (control_of d rq) (fw_servers w i)))
       \<and> rp = snd (ControlHandler cf now p (control_of d rq) (fw_servers w i))"
proof -
  let ?d = "fw_draws w (fw_turn w)" and ?now = "fw_time w + int (dw_delay (fw_draws w (fw_turn w)))"
  show ?thesis
    using assms by (intro that[of ?now ?d])
      (auto simp: exchange_def Let_def processed_def delivered_def split: if_splits prod.splits option.splits trouble.splits)
qed

lemma call_Inr:
  assumes "call (fleet_client cf p) i rq w = (w', Inr b)"
  shows "\<exists>rp. exchange cf p i rq w = (w', Answered rp) \<and> rp_status rp div 100 = 2 \<and> b = rp_body rp"
  using assms by (auto simp: call_def split: prod.splits transport.splits if_splits)

lemma call_exchange: "call (fleet_client cf p) i rq w = (w', r) \<Longrightarrow> \<exists>t. exchange cf p i rq w = (w', t)"
  by (auto simp: call_def split: prod.splits)

lemma serving_update:
  "fw_replicas w' = fw_replicas w \<Longrightarrow> fw_servers w' = (fw_servers w)(i := sv) \<Longrightarrow> i < fw_replicas w \<Longrightarrow>
     fleet_serving w' = (fleet_serving w)(i := vault_serving (sv_vault sv))"
  by (auto simp: fleet_serving_def)

lemma serving_same_vault:
  "fw_replicas w' = fw_replicas w \<Longrightarrow> fw_servers w' = (fw_servers w)(i := sv) \<Longrightarrow> sv_vault sv = sv_vault (fw_servers w i) \<Longrightarrow>
     fleet_serving w' = fleet_serving w"
  by (auto simp: fleet_serving_def fun_eq_iff)

lemma serving_same: "fw_replicas w' = fw_replicas w \<Longrightarrow> fw_servers w' = fw_servers w \<Longrightarrow> fleet_serving w' = fleet_serving w"
  by (simp add: fleet_serving_def fun_eq_iff)

text \<open>A state the server reports is read as what it serves.\<close>

lemma control_state_read:
  assumes "rp_status rp div 100 = 2" "rp = control_state cf sv" "decode_state i (rp_body rp) = Inr st"
  shows "vault_serving (sv_vault sv) = (if Sealed st then None else Some (reported_keys st))"
proof -
  have st: "st = state_of_body (controlStateBody (cf_Instance cf) (State (sv_vault sv)))"
    using assms by (simp add: control_state_def writeJSON_def decode_state_def)
  then have "Sealed st \<longleftrightarrow> va_phase (sv_vault sv) \<noteq> PhaseUnsealed"
    by (cases "va_phase (sv_vault sv)") (simp_all add: Sealed_def state_of_body_def controlStateBody_def stateBody_def State_def)
  moreover have "reported_keys st = key_report (va_scopes (sv_vault sv))"
    by (simp add: st state_of_body_def controlStateBody_def State_def reported_keys_def key_report_def)
  ultimately show ?thesis by (simp add: vault_serving_def)
qed

section \<open>An unseal through the envelope\<close>

lemma Issue_challenge:
  "Issue D now rnd c = (c', Inr ch) \<Longrightarrow> map_of (cr_nonces c') (cg_SessionID ch) = Some (cg_Nonce ch) \<and> cg_PublicKey ch = PublicKey D c'"
  by (auto simp: Issue_def Let_def update_conv' PublicKey_def expireLocked_def split: option.splits if_splits)

lemma OpenEnvelope_Inr:
  assumes "OpenEnvelope C D now e inst c = (c', Inr p)"
  shows "\<exists>d shared gcm. map_of (cr_outstanding (expireLocked now c)) (slice offSessionID sessionIDLen e) = Some d
    \<and> dh_agree D (cr_priv c) (slice offSenderPub pubKeyLen e) = Some shared
    \<and> envelopeCipher C shared (PublicKey D c) (slice offSenderPub pubKeyLen e)
        (get_or (replicate challengeLen (byte 0)) (cr_nonces (expireLocked now c)) (slice offSessionID sessionIDLen e)) = Inr gcm
    \<and> cl_open C gcm (slice offNonce NonceLen e) (drop offCiphertext e)
        (envelopeAAD inst (slice offSessionID sessionIDLen e)
          (get_or (replicate challengeLen (byte 0)) (cr_nonces (expireLocked now c)) (slice offSessionID sessionIDLen e))) = Some p"
proof -
  have "cr_priv (expireLocked now c) = cr_priv c" by (simp add: expireLocked_def)
  then show ?thesis using assms
    by (auto simp: OpenEnvelope_def Let_def PublicKey_def split: if_splits option.splits sum.splits)
qed

lemma opened_is_sealed:
  assumes "crypto_laws C" "dh_laws D" "SealBundle C D pt inst ch sender rnd = Inr e"
    and "cg_PublicKey ch = PublicKey D c" "map_of (cr_nonces c) (cg_SessionID ch) = Some (cg_Nonce ch)"
    and "OpenEnvelope C D now e inst c = (c', Inr p)"
  shows "p = pt"
proof -
  obtain priv shared gcm nonce rest where
      s: "length (cg_SessionID ch) = sessionIDLen" "dh_agree D priv (cg_PublicKey ch) = Some shared"
    "envelopeCipher C shared (cg_PublicKey ch) (dh_public D priv) (cg_Nonce ch) = Inr gcm" "read_full NonceLen rnd = Some (nonce, rest)"
    "e = envelopeMagic @ [byte envelopeVersion] @ cg_SessionID ch @ dh_public D priv @ nonce
        @ cl_seal C gcm nonce pt (envelopeAAD inst (cg_SessionID ch) (cg_Nonce ch))"
    using assms(3) by (auto simp: SealBundle_def split: if_splits option.splits sum.splits)
  have l: "length (dh_public D priv) = pubKeyLen" "length nonce = NonceLen"
    "TagLen \<le> length (cl_seal C gcm nonce pt (envelopeAAD inst (cg_SessionID ch) (cg_Nonce ch)))"
    using assms(2) s(4) by (auto simp: dh_laws_def read_full_def crypto_lawsD(3)[OF assms(1)] split: if_splits)
  note F = envelope_fields[OF s(1) l s(5)]
  note O = OpenEnvelope_Inr[OF assms(6)]
  have "map_of (cr_nonces (expireLocked now c)) (cg_SessionID ch) = Some (cg_Nonce ch)"
    using O expire_nonces[of now c "cg_SessionID ch"] assms(5) by (auto simp: F(4))
  moreover have "dh_agree D (cr_priv c) (dh_public D priv) = Some shared"
    using s(2) assms(2,4) by (simp add: dh_laws_def PublicKey_def)
  ultimately show ?thesis using O s(3) assms(4)
    by (auto simp: F(4-7) get_or_def crypto_lawsD(4)[OF assms(1)])
qed

lemma post_unseal_cases:
  assumes "post_unseal cf now p intent ct r sv = (sv', rp)"
    and "\<And>ch data. OpenEnvelope (cf_crypto cf) (cf_dh cf) now (rd_data r) (cf_Instance cf) (sv_challenger sv) = (ch, Inr data) \<Longrightarrow> data = payload"
  obtains (refused) "sv_vault sv' = sv_vault sv" "rp_status rp div 100 \<noteq> 2"
  | (opened) i b ch where "parse_intent intent = Inr i" "ParseBundle (cf_unyaml cf) payload = Inr b"
      "install_bundle cf now b i (sv\<lparr>sv_challenger := ch\<rparr>) = (sv', rp)"
  using assms
  by (auto simp: post_unseal_def fail_not_2xx read_body_def split: sum.splits if_splits option.splits prod.splits)


section \<open>The fleet keeps the contract\<close>

lemma get_challenge_effect:
  assumes "get_challenge cf now rnd p sv = (sv', rp)"
  shows "sv_vault sv' = sv_vault sv"
    and "rp_status rp div 100 = 2 \<Longrightarrow> rp_body rp = Body_challenge ch \<Longrightarrow>
      map_of (cr_nonces (sv_challenger sv')) (cg_SessionID ch) = Some (cg_Nonce ch) \<and> cg_PublicKey ch = PublicKey (cf_dh cf) (sv_challenger sv')"
  using assms fail_not_2xx
  by (auto simp: get_challenge_def writeJSON_def split: sum.splits prod.splits dest: Issue_challenge)

lemma challenge_call:
  assumes "call (fleet_client cf p) i Wire_challenge w = (w', r)"
  shows "fw_replicas w' = fw_replicas w" "fleet_serving w' = fleet_serving w"
    "sv_vault (fw_servers w' i) = sv_vault (fw_servers w i)"
    "r = Inr (Body_challenge ch) \<Longrightarrow>
       map_of (cr_nonces (sv_challenger (fw_servers w' i))) (cg_SessionID ch) = Some (cg_Nonce ch)
       \<and> cg_PublicKey ch = PublicKey (cf_dh cf) (sv_challenger (fw_servers w' i))"
proof -
  obtain t where t: "exchange cf p i Wire_challenge w = (w', t)" using call_exchange[OF assms] by blast
  obtain d now where e: "fw_replicas w' = fw_replicas w"
    "fw_servers w' = fw_servers w \<or> i < fw_replicas w \<and> fw_servers w' = (fw_servers w)(i := fst (ControlHandler cf now p (control_of d Wire_challenge) (fw_servers w i)))"
    "\<And>rp. t = Answered rp \<Longrightarrow> i < fw_replicas w \<and> fw_servers w' = (fw_servers w)(i := fst (ControlHandler cf now p (control_of d Wire_challenge) (fw_servers w i)))
       \<and> rp = snd (ControlHandler cf now p (control_of d Wire_challenge) (fw_servers w i))"
    using exchange_effect[OF t] by metis
  obtain sv rp' where g: "get_challenge cf now (dw_random d) p (fw_servers w i) = (sv, rp')" by fastforce
  note G = get_challenge_effect[OF g]
  have c: "ControlHandler cf now p (control_of d Wire_challenge) (fw_servers w i) = (sv, rp')" using g by (simp add: control_of_def)
  show "fw_replicas w' = fw_replicas w" by (rule e(1))
  show "fleet_serving w' = fleet_serving w" using e(1,2) c G(1) serving_same[of w' w] serving_same_vault[of w' w i sv] by auto
  show "sv_vault (fw_servers w' i) = sv_vault (fw_servers w i)" using e(2) c G(1) by auto
  show "map_of (cr_nonces (sv_challenger (fw_servers w' i))) (cg_SessionID ch) = Some (cg_Nonce ch)
       \<and> cg_PublicKey ch = PublicKey (cf_dh cf) (sv_challenger (fw_servers w' i))" if r: "r = Inr (Body_challenge ch)"
  proof -
    obtain rp where "exchange cf p i Wire_challenge w = (w', Answered rp)" "rp_status rp div 100 = 2" "Body_challenge ch = rp_body rp"
      using call_Inr[of cf p i Wire_challenge w w' "Body_challenge ch"] assms[unfolded r] by blast
    then show ?thesis using e(3)[of rp] t c G(2)[of ch] by auto
  qed
qed

text \<open>What an unseal of the client does: nothing, or one install of the bundle it was given at the replica.\<close>

definition installed :: "'c config \<Rightarrow> nat \<Rightarrow> string \<Rightarrow> string \<Rightarrow> fleet_world \<Rightarrow> fleet_world \<Rightarrow> call_error + replica_state \<Rightarrow> bool" where
  "installed cf i payload intent w w' r \<longleftrightarrow>
     (\<exists>it b sv1 now sv rp. i < fw_replicas w \<and> parse_intent intent = Inr it \<and> ParseBundle (cf_unyaml cf) payload = Inr b
        \<and> sv_vault sv1 = sv_vault (fw_servers w i) \<and> install_bundle cf now b it sv1 = (sv, rp)
        \<and> fleet_serving w' = (fleet_serving w)(i := vault_serving (sv_vault sv))
        \<and> (\<forall>st. r = Inr st \<longrightarrow> rp_status rp div 100 = 2 \<and> decode_state i (rp_body rp) = Inr st))"

lemma unseal_call:
  assumes "call_state (fleet_client cf p) i (Wire_unseal intent ct sealed) w = (w', r)"
    and "\<And>now ch data. OpenEnvelope (cf_crypto cf) (cf_dh cf) now sealed (cf_Instance cf) (sv_challenger (fw_servers w i)) = (ch, Inr data) \<Longrightarrow> data = payload"
  shows "fleet_serving w' = fleet_serving w \<and> (\<forall>st. r \<noteq> Inr st) \<or> installed cf i payload intent w w' r"
proof -
  let ?rq = "Wire_unseal intent ct sealed"
  obtain r0 where r0: "call (fleet_client cf p) i ?rq w = (w', r0)" "r = (case r0 of Inl e \<Rightarrow> Inl e | Inr b \<Rightarrow> decode_state i b)"
    using assms(1) by (auto simp: call_state_def split: prod.splits)
  obtain t where t: "exchange cf p i ?rq w = (w', t)" using call_exchange[OF r0(1)] by blast
  obtain d now where e: "fw_replicas w' = fw_replicas w"
    "fw_servers w' = fw_servers w \<or> i < fw_replicas w \<and> fw_servers w' = (fw_servers w)(i := fst (ControlHandler cf now p (control_of d ?rq) (fw_servers w i)))"
    "\<And>rp. t = Answered rp \<Longrightarrow> i < fw_replicas w \<and> fw_servers w' = (fw_servers w)(i := fst (ControlHandler cf now p (control_of d ?rq) (fw_servers w i)))
       \<and> rp = snd (ControlHandler cf now p (control_of d ?rq) (fw_servers w i))"
    using exchange_effect[OF t] by metis
  have answered: "\<exists>rp. t = Answered rp \<and> rp_status rp div 100 = 2 \<and> decode_state i (rp_body rp) = Inr st" if "r = Inr st" for st
    using that r0 t call_Inr[of cf p i ?rq w w'] by (cases r0) fastforce+
  let ?rd = "\<lparr>rd_data = sealed, rd_fails = False\<rparr>"
  obtain sv rp where u: "post_unseal cf now p intent ct ?rd (fw_servers w i) = (sv, rp)" by fastforce
  then have c: "ControlHandler cf now p (control_of d ?rq) (fw_servers w i) = (sv, rp)" by (simp add: control_of_def)
  consider (kept) "fw_servers w' = fw_servers w" "\<forall>st. r \<noteq> Inr st"
    | (moved) "i < fw_replicas w" "fw_servers w' = (fw_servers w)(i := sv)" "\<forall>st. r = Inr st \<longrightarrow> rp_status rp div 100 = 2 \<and> decode_state i (rp_body rp) = Inr st"
  proof (cases "\<exists>st. r = Inr st")
    case True
    then show ?thesis using moved answered e(3) c by (metis fst_conv snd_conv)
  next
    case False
    then show ?thesis using kept moved e(2) c by (metis fst_conv)
  qed
  then show ?thesis
  proof cases
    case kept
    then show ?thesis using serving_same[OF e(1) kept(1)] by simp
  next
    case moved
    show ?thesis
    proof (rule post_unseal_cases[OF u, of payload])
      fix ch data
      assume "OpenEnvelope (cf_crypto cf) (cf_dh cf) now (rd_data ?rd) (cf_Instance cf) (sv_challenger (fw_servers w i)) = (ch, Inr data)"
      then show "data = payload" using assms(2) by simp
    next
      assume "sv_vault sv = sv_vault (fw_servers w i)" "rp_status rp div 100 \<noteq> 2"
      then show ?thesis using serving_same_vault[OF e(1) moved(2)] moved(3) by blast
    next
      fix it b ch
      assume "parse_intent intent = Inr it" "ParseBundle (cf_unyaml cf) payload = Inr b"
        "install_bundle cf now b it ((fw_servers w i)\<lparr>sv_challenger := ch\<rparr>) = (sv, rp)"
      then show ?thesis using moved serving_update[OF e(1) moved(2,1)] unfolding installed_def
        by (intro disjI2 exI[of _ it] exI[of _ b] exI[of _ "(fw_servers w i)\<lparr>sv_challenger := ch\<rparr>"] exI[of _ now] exI[of _ sv] exI[of _ rp]) simp
    qed
  qed
qed

lemma installed_same_start:
  assumes "installed cf i payload intent w1 w' r" "fw_replicas w1 = fw_replicas w" "fleet_serving w1 = fleet_serving w"
    and "sv_vault (fw_servers w1 i) = sv_vault (fw_servers w i)"
  shows "installed cf i payload intent w w' r"
  using assms(1) unfolding installed_def assms(2-4) .

lemma client_Unseal_effect:
  assumes "crypto_laws (cf_crypto cf)" "dh_laws (cf_dh cf)" "client_Unseal (fleet_client cf p) i payload intent w = (w', r)"
  shows "fleet_serving w' = fleet_serving w \<and> (\<forall>st. r \<noteq> Inr st) \<or> installed cf i payload intent w w' r"
proof -
  obtain w1 r1 where c: "call (fleet_client cf p) i Wire_challenge w = (w1, r1)" by fastforce
  note C = challenge_call[OF c]
  show ?thesis
  proof (cases "\<exists>ch. r1 = Inr (Body_challenge ch)")
    case False
    then show ?thesis using assms(3) c C(2) by (auto simp: client_Unseal_def split: sum.splits body.splits)
  next
    case True
    then obtain ch where ch: "r1 = Inr (Body_challenge ch)" by blast
    define sender where "sender = dw_sender (fw_draws w1 (fw_turn w1))"
    define rnd where "rnd = dw_nonce (fw_draws w1 (fw_turn w1))"
    have u: "(w', r) = (case SealBundle (cf_crypto cf) (cf_dh cf) payload (cf_Instance cf) ch sender rnd of
        Inl e \<Rightarrow> (w1, Inl (Not_sealed e))
      | Inr sealed \<Rightarrow> call_state (fleet_client cf p) i (Wire_unseal intent ContentTypeSealed sealed) w1)"
      using assms(3) c ch by (simp add: client_Unseal_def sender_def rnd_def)
    show ?thesis
    proof (cases "SealBundle (cf_crypto cf) (cf_dh cf) payload (cf_Instance cf) ch sender rnd")
      case (Inl e)
      then show ?thesis using u C(2) by simp
    next
      case (Inr sealed)
      have "data = payload" if "OpenEnvelope (cf_crypto cf) (cf_dh cf) now sealed (cf_Instance cf) (sv_challenger (fw_servers w1 i)) = (ch', Inr data)"
        for now ch' data using opened_is_sealed[OF assms(1,2) Inr _ _ that] C(4)[OF ch] by blast
      moreover have "call_state (fleet_client cf p) i (Wire_unseal intent ContentTypeSealed sealed) w1 = (w', r)" using u Inr by simp
      ultimately have "fleet_serving w' = fleet_serving w1 \<and> (\<forall>st. r \<noteq> Inr st) \<or> installed cf i payload intent w1 w' r"
        using unseal_call by metis
      then show ?thesis
      proof
        assume "installed cf i payload intent w1 w' r"
        then have "installed cf i payload intent w w' r" by (rule installed_same_start[OF _ C(1,2,3)])
        then show ?thesis ..
      qed (use C(2) in simp)
    qed
  qed
qed

lemma installed_effect:
  assumes "installed cf i payload intent w w' r"
  obtains b where "ParseBundle (cf_unyaml cf) payload = Inr b"
    "fleet_serving w' = fleet_serving w \<or> fleet_serving w' = (fleet_serving w)(i := Some (key_report (bu_scopes b)))"
    "\<And>st. r = Inr st \<Longrightarrow> fleet_serving w' i = Some (reported_keys st)"
    "parse_intent intent = Inr IntentHandOver \<Longrightarrow> fleet_serving w i = None \<Longrightarrow> fleet_serving w' = fleet_serving w"
    "parse_intent intent = Inr IntentReseed \<Longrightarrow> fleet_serving w i \<noteq> None \<Longrightarrow> fleet_serving w' = fleet_serving w"
proof -
  obtain it b sv1 now sv rp where i: "i < fw_replicas w" "parse_intent intent = Inr it" "ParseBundle (cf_unyaml cf) payload = Inr b"
    and v: "sv_vault sv1 = sv_vault (fw_servers w i)" and n: "install_bundle cf now b it sv1 = (sv, rp)"
    and f: "fleet_serving w' = (fleet_serving w)(i := vault_serving (sv_vault sv))"
    and r: "\<forall>st. r = Inr st \<longrightarrow> rp_status rp div 100 = 2 \<and> decode_state i (rp_body rp) = Inr st"
    using assms unfolding installed_def by blast
  note I = install_bundle_serving[OF n]
  have before: "fleet_serving w i = vault_serving (sv_vault sv1)" using i(1) v by (simp add: fleet_serving_def)
  have stays: "vault_serving (sv_vault sv) = vault_serving (sv_vault sv1) \<Longrightarrow> fleet_serving w' = fleet_serving w"
    unfolding f before[symmetric] by simp
  show ?thesis
  proof (rule that[of b])
    show "fleet_serving w' = fleet_serving w \<or> fleet_serving w' = (fleet_serving w)(i := Some (key_report (bu_scopes b)))"
      using I(1) stays f by auto
    show "fleet_serving w' i = Some (reported_keys st)" if "r = Inr st" for st
    proof -
      have s: "rp_status rp div 100 = 2" "decode_state i (rp_body rp) = Inr st" using r that by simp_all
      have "vault_serving (sv_vault sv) = (if Sealed st then None else Some (reported_keys st))"
        using control_state_read[OF s(1) _ s(2)] I(2)[OF s(1)] by blast
      moreover have "vault_serving (sv_vault sv) \<noteq> None" using I(2)[OF s(1)] by (simp add: vault_serving_def)
      ultimately show ?thesis using f by (auto split: if_splits)
    qed
    show "fleet_serving w' = fleet_serving w" if "parse_intent intent = Inr IntentHandOver" "fleet_serving w i = None"
      using I(3) stays that i(2) before by (auto simp: vault_serving_def split: if_splits)
    show "fleet_serving w' = fleet_serving w" if "parse_intent intent = Inr IntentReseed" "fleet_serving w i \<noteq> None"
      using I(4) stays that i(2) before by (auto simp: vault_serving_def split: if_splits)
  qed (rule i(3))
qed

lemma client_State_effect:
  assumes "client_State (fleet_client cf p) i w = (w', r)"
  shows "fleet_serving w' = fleet_serving w" "r = Inr st \<Longrightarrow> fleet_serving w i = (if Sealed st then None else Some (reported_keys st))"
proof -
  obtain r0 where r0: "call (fleet_client cf p) i Wire_state w = (w', r0)" "r = (case r0 of Inl e \<Rightarrow> Inl e | Inr b \<Rightarrow> decode_state i b)"
    using assms by (auto simp: client_State_def call_state_def split: prod.splits)
  obtain t where t: "exchange cf p i Wire_state w = (w', t)" using call_exchange[OF r0(1)] by blast
  obtain d now where e: "fw_replicas w' = fw_replicas w"
    "fw_servers w' = fw_servers w \<or> i < fw_replicas w \<and> fw_servers w' = (fw_servers w)(i := fst (ControlHandler cf now p (control_of d Wire_state) (fw_servers w i)))"
    "\<And>rp. t = Answered rp \<Longrightarrow> i < fw_replicas w \<and> fw_servers w' = (fw_servers w)(i := fst (ControlHandler cf now p (control_of d Wire_state) (fw_servers w i)))
       \<and> rp = snd (ControlHandler cf now p (control_of d Wire_state) (fw_servers w i))"
    using exchange_effect[OF t] by metis
  have "fw_servers w' = fw_servers w" using e(2) by (auto simp: control_of_def)
  then show "fleet_serving w' = fleet_serving w" by (rule serving_same[OF e(1)])
  show "fleet_serving w i = (if Sealed st then None else Some (reported_keys st))" if r: "r = Inr st"
  proof -
    obtain b where b: "r0 = Inr b" "decode_state i b = Inr st" using r r0(2) by (cases r0) simp_all
    then obtain rp where rp: "exchange cf p i Wire_state w = (w', Answered rp)" "rp_status rp div 100 = 2" "b = rp_body rp"
      using call_Inr[of cf p i Wire_state w w' b] r0(1) by blast
    then have g: "i < fw_replicas w" "rp = get_state cf p (fw_servers w i)" using e(3)[of rp] t by (simp_all add: control_of_def)
    then have "rp = control_state cf (fw_servers w i)" using rp(2) fail_not_2xx by (auto simp: get_state_def split: sum.splits)
    then show ?thesis using control_state_read[OF rp(2), of cf "fw_servers w i" i st] b(2) rp(3) g(1) by (simp add: fleet_serving_def)
  qed
qed

theorem keyholders_are_replicas:
  assumes "crypto_laws (cf_crypto cf)" "dh_laws (cf_dh cf)"
  shows "replica_fleet (fleet_replicas cf p) (cf_unyaml cf) fleet_serving"
proof -
  note U = client_Unseal_effect[OF assms, of p]
  have i: "parse_intent ''hand-over'' = Inr IntentHandOver" "parse_intent ''restart-reseed'' = Inr IntentReseed"
    by (simp_all add: parse_intent_def)
  show ?thesis
  proof (unfold_locales, unfold fleet_replicas_def replicas.simps)
    fix i w w' r assume "client_State (fleet_client cf p) i w = (w', r)"
    then show "fleet_serving w' = fleet_serving w" by (rule client_State_effect(1))
  next
    fix i w w' st assume "client_State (fleet_client cf p) i w = (w', Inr st)"
    then show "fleet_serving w i = (if Sealed st then None else Some (reported_keys st))" by (rule client_State_effect(2)) simp
  next
    fix i payload intent w w' r assume "client_Unseal (fleet_client cf p) i payload intent w = (w', r)"
    from U[OF this] show "fleet_serving w' = fleet_serving w
        \<or> (\<exists>b. ParseBundle (cf_unyaml cf) payload = Inr b \<and> fleet_serving w' = (fleet_serving w)(i := Some (key_report (bu_scopes b))))"
      by (metis installed_effect)
  next
    fix i payload intent w w' st assume "client_Unseal (fleet_client cf p) i payload intent w = (w', Inr st)"
    from U[OF this] show "fleet_serving w' i = Some (reported_keys st)" by (metis installed_effect)
  next
    fix i payload w w' r assume "client_Unseal (fleet_client cf p) i payload ''hand-over'' w = (w', r)" "fleet_serving w i = None"
    from U[OF this(1)] this(2) i(1) show "fleet_serving w' = fleet_serving w" by (metis installed_effect)
  next
    fix i payload w w' r assume "client_Unseal (fleet_client cf p) i payload ''restart-reseed'' w = (w', r)" "fleet_serving w i \<noteq> None"
    from U[OF this(1)] this(2) i(2) show "fleet_serving w' = fleet_serving w" by (metis installed_effect)
  qed
qed

section \<open>The fleet stays readable\<close>


text \<open>
  C4. A keeper never splits the fleet and never disturbs a serving replica. Whatever a
  keeper's bundle, ledger and budget are and whatever the network does, a pass leaves every
  serving replica with exactly the keys it had, and a fleet that could read itself still can:
  a re-seeded replica gets only keys that fit beside all of those that serve.
\<close>

theorem keeper_never_splits_the_fleet:
  assumes "crypto_laws (cf_crypto cf)" "dh_laws (cf_dh cf)"
    and "kp_replicas kp = fleet_replicas cf p" "kp_unyaml kp = cf_unyaml cf" "fw_replicas w \<le> keeperReplicas"
    and "keeperCheckWith kp bundle' (w, file) = ((w', file'), r)"
  shows "(cross_readable (fleet_serving w) \<longrightarrow> cross_readable (fleet_serving w'))
    \<and> (\<forall>i m. fleet_serving w i = Some m \<longrightarrow> fleet_serving w' i = Some m)"
  by (rule replica_fleet.keeper_pass_keeps_readable[OF keyholders_are_replicas[OF assms(1,2)] assms(3,4) _ assms(6)])
    (use assms(5) in \<open>auto simp: fleet_serving_def split: if_splits\<close>)

text \<open>
  What happens to a fleet: hand-overs and passes of any operator and any keeper, requests on
  the control surface and the data path of anyone, restarts, and the passing of time. A
  hand-over may meet replicas that serve and say nothing: it takes that they hold the key its
  machine writes under, and that nobody used \<open>--unchecked\<close> beside one. Left out are an unseal
  that comes from neither of the two tools, and steps in the middle of a hand-over or a pass.
\<close>

inductive fleet_step :: "'c config \<Rightarrow> fleet_world \<Rightarrow> fleet_world \<Rightarrow> bool" for cf where
  handed: "Valid (\<lambda>m. m) keys = None \<Longrightarrow> keyring_ids_ok keys \<Longrightarrow> (\<And>f s. op_yaml opts f = Some s \<Longrightarrow> cf_unyaml cf s = Some f) \<Longrightarrow>
     saves_touch_nothing fleet_serving opts \<Longrightarrow> fw_replicas w \<le> replicaCount (op_replicas opts) \<Longrightarrow>
     snd (read_fleet (fleet_replicas cf p) (replicaCount (op_replicas opts)) (start_hand_over opts w)) = states \<Longrightarrow>
     silent_hold_ours keys (op_rotated opts) (fleet_serving w) states \<Longrightarrow>
     (op_unseal opts \<Longrightarrow> op_unchecked opts \<Longrightarrow> silent_serve_nothing (fleet_serving w) states) \<Longrightarrow>
     fleet_step cf w (ho_world (fst (handOverKeys (fleet_replicas cf p) opts reached keys w)))"
| watched: "kp_replicas kp = fleet_replicas cf p \<Longrightarrow> kp_unyaml kp = cf_unyaml cf \<Longrightarrow> fw_replicas w \<le> keeperReplicas \<Longrightarrow>
     fleet_step cf w (fst (fst (keeperCheckWith kp bundle' (w, file))))"
| asked: "(\<And>intent ct rd. rq \<noteq> Post_unseal intent ct rd) \<Longrightarrow>
     fleet_step cf w (w\<lparr>fw_servers := (fw_servers w)(i := fst (ControlHandler cf now p rq (fw_servers w i)))\<rparr>)"
| stored: "DataHandler cf op rq (fw_servers w i) c = (sv, c', rp) \<Longrightarrow> fleet_step cf w (w\<lparr>fw_servers := (fw_servers w)(i := sv)\<rparr>)"
| restarted: "fleet_step cf w (w\<lparr>fw_servers := (fw_servers w)(i := \<lparr>sv_vault = NewVault inst now rnd, sv_heap = empty_heap, sv_challenger = NewChallenger priv\<rparr>)\<rparr>)"
| waited: "fleet_step cf w (w\<lparr>fw_time := t, fw_draws := ds\<rparr>)"

lemma cross_readable_less:
  assumes "cross_readable S" "\<And>i. S' i = S i \<or> S' i = None"
  shows "cross_readable S'"
  unfolding cross_readable_def
proof (intro allI impI)
  fix i j m m' name ks ks'
  assume a: "S' i = Some m" "S' j = Some m'" "map_of m name = Some ks" "map_of m' name = Some ks'" "ks \<noteq> []"
  then have "S i = Some m" "S j = Some m'" using assms(2)[of i] assms(2)[of j] by auto
  then show "hd ks \<in> set ks'" using assms(1) a unfolding cross_readable_def by blast
qed

lemma replaced_cross:
  assumes "cross_readable (fleet_serving w)" "vault_serving (sv_vault sv) = vault_serving (sv_vault (fw_servers w i)) \<or> vault_serving (sv_vault sv) = None"
  shows "cross_readable (fleet_serving (w\<lparr>fw_servers := (fw_servers w)(i := sv)\<rparr>))"
  by (rule cross_readable_less[OF assms(1)]) (use assms(2) in \<open>auto simp: fleet_serving_def\<close>)

text \<open>Asking, sealing and releasing a hold give nobody keys.\<close>

lemma asked_serving:
  assumes "\<And>intent ct rd. rq \<noteq> Post_unseal intent ct rd"
  shows "vault_serving (sv_vault (fst (ControlHandler cf now p rq sv))) = vault_serving (sv_vault sv)
    \<or> vault_serving (sv_vault (fst (ControlHandler cf now p rq sv))) = None"
proof (cases rq)
  case (Get_challenge rnd)
  obtain sv' rp where "get_challenge cf now rnd p sv = (sv', rp)" by fastforce
  then show ?thesis using get_challenge_effect(1) Get_challenge by fastforce
next
  case (Post_seal hold reason)
  then show ?thesis
    by (auto simp: post_seal_def SealVault_def dropLocked_def seal_phase_def vault_serving_def Let_def split: option.splits prod.splits)
next
  case Post_release
  then show ?thesis by (auto simp: post_release_def ReleaseHold_def vault_serving_def Let_def split: option.splits)
qed (use assms in auto)

lemma fleet_step_readable:
  assumes "fleet_step cf w w'" "crypto_laws (cf_crypto cf)" "dh_laws (cf_dh cf)" "cross_readable (fleet_serving w)"
  shows "cross_readable (fleet_serving w')"
  using assms(1)
proof (cases rule: fleet_step.cases)
  case (handed keys opts p states reached)
  have "i < replicaCount (op_replicas opts)" if "fleet_serving w i \<noteq> None" for i
    using that handed(6) by (auto simp: fleet_serving_def split: if_splits)
  then show ?thesis unfolding handed(1)
    by (intro replica_fleet.hand_over_keeps_readable[OF keyholders_are_replicas[OF assms(2,3)] Valid_pushable[OF handed(2,3)] handed(4,5) assms(4) _ handed(7,8,9)])
next
  case (watched kp p bundle' f)
  obtain w1 f1 r where k: "keeperCheckWith kp bundle' (w, f) = ((w1, f1), r)" by (metis prod.collapse)
  have "serves < keeperReplicas" if "fleet_serving w serves \<noteq> None" for serves
    using that watched(4) by (auto simp: fleet_serving_def split: if_splits)
  then show ?thesis unfolding watched(1)
    using replica_fleet.keeper_pass_keeps_readable[OF keyholders_are_replicas[OF assms(2,3)] watched(2,3) _ k] assms(4) k by simp
next
  case (asked rq i now p)
  show ?thesis unfolding asked(1) by (rule replaced_cross[OF assms(4) asked_serving[OF asked(2)]])
next
  case (stored op rq i c sv c' rp)
  show ?thesis unfolding stored(1) by (rule replaced_cross[OF assms(4)]) (use DataHandler_vault[OF stored(2)] in simp)
next
  case (restarted i inst now rnd priv)
  show ?thesis unfolding restarted by (rule replaced_cross[OF assms(4)]) (simp add: vault_serving_def NewVault_def)
next
  case (waited ds t)
  have "fleet_serving w' = fleet_serving w" by (simp add: waited fleet_serving_def fun_eq_iff)
  then show ?thesis using assms(4) by simp
qed


section \<open>A small fleet to try it on\<close>

definition fleet_config :: "memory config" where
  "fleet_config = \<lparr>cf_Instance = ''prod'', cf_Max = 1024, cf_crypto = plain_lib, cf_dh = toy_dh, cf_provider = mem_provider,
     cf_bucket = ''bucket'', cf_unyaml = sample_unyaml\<rparr>"

lemma fleet_config_laws: "crypto_laws (cf_crypto fleet_config)" "dh_laws (cf_dh fleet_config)"
  by (simp_all add: fleet_config_def plain_lib_laws toy_dh_laws)

interpretation keyholders: replica_fleet "fleet_replicas fleet_config p" "cf_unyaml fleet_config" fleet_serving for p
  by (rule keyholders_are_replicas[OF fleet_config_laws])

definition calm :: "nat \<Rightarrow> draw" where
  "calm n = \<lparr>dw_delay = 1, dw_trouble = None, dw_random = replicate 40 (byte 7), dw_sender = Some ''sender'', dw_nonce = replicate 12 (byte 2)\<rparr>"

definition operator_peer :: peer where "operator_peer = Some [''farcast://prod/operator'']"
definition keeper_peer :: peer where "keeper_peer = Some [''farcast://prod/keeper/nas'']"

lemma peers_known: "controlCaller fleet_config operator_peer = Inr \<lparr>id_Role = RoleOperator, id_Instance = ''prod'', id_Name = '''', id_Namespace = ''''\<rparr>"
proof -
  have "identityFrom (Some [''farcast://prod/operator'']) ''prod'' = Inr \<lparr>id_Role = RoleOperator, id_Instance = ''prod'', id_Name = '''', id_Namespace = ''''\<rparr>"
    by code_simp
  then show ?thesis by (simp add: controlCaller_def fleet_config_def operator_peer_def)
qed

text \<open>A server of one scope whose key-encryption keys have the given identifiers, the active one first.\<close>

definition serving_scope :: "nat list \<Rightarrow> nat scope" where
  "serving_scope ids = \<lparr>sc_Name = ''app-main-shop'', sc_Prefix = ''app/main/shop/'', sc_Created = 0, sc_Derivation = '''',
     sc_keys = \<lparr>kr_nameKeys = [], kr_keys = map (\<lambda>n. \<lparr>ke_ID = replicate 8 (byte n), ke_Created = int n, ke_key = n\<rparr>) ids\<rparr>\<rparr>"

definition serving_server :: "nat list \<Rightarrow> server" where
  "serving_server ids = (sample_server PhaseUnsealed)\<lparr>sv_vault := (NewVault ''prod'' 0 None)\<lparr>va_phase := PhaseUnsealed, va_scopes := [serving_scope ids]\<rparr>\<rparr>"

text \<open>Two replicas that serve, a third that is sealed, on a network that loses nothing.\<close>

definition sample_fleet :: "nat list \<Rightarrow> nat list \<Rightarrow> fleet_world" where
  "sample_fleet a b = \<lparr>fw_replicas = 3, fw_servers = (\<lambda>i. if i = 0 then serving_server a else if i = 1 then serving_server b else sample_server PhaseRestartSealed),
     fw_time = 0, fw_turn = 0, fw_draws = calm\<rparr>"

definition ids_of :: "nat list \<Rightarrow> string list" where
  "ids_of ids = map (\<lambda>n. hex_encode (replicate 8 (byte n))) ids"

lemma sample_fleet_serving:
  "fleet_serving (sample_fleet a b) =
     (\<lambda>i. if i = 0 then Some [(''app-main-shop'', ids_of a)] else if i = 1 then Some [(''app-main-shop'', ids_of b)] else None)"
  by (auto simp: fun_eq_iff fleet_serving_def sample_fleet_def serving_server_def sample_server_def vault_serving_def key_report_def
      serving_scope_def NewVault_def ids_of_def)

lemma sample_fleet_readable: "a \<noteq> [] \<Longrightarrow> b \<noteq> [] \<Longrightarrow> hd a \<in> set b \<Longrightarrow> hd b \<in> set a \<Longrightarrow> cross_readable (fleet_serving (sample_fleet a b))"
  by (auto simp: cross_readable_def sample_fleet_serving ids_of_def hd_map split: if_splits)

definition unseal_options :: "fleet_world options" where
  "unseal_options = \<lparr>op_unseal = True, op_rotated = [], op_beforeHold = (\<lambda>k w. (w, None)), op_beforeActivate = (\<lambda>w. (w, None)),
     op_unchecked = False, op_save = (\<lambda>g w. (w, None)), op_yaml = (\<lambda>f. if f = sample_file then Some ''bundle'' else None),
     op_now = 0, op_name = ''prod'', op_generation = 0, op_replicas = 3\<rparr>"

text \<open>The same fleet on a network that loses the second request: its second replica serves and says nothing.\<close>

definition shaky_fleet :: fleet_world where
  "shaky_fleet = (sample_fleet [11] [11])\<lparr>fw_draws := (\<lambda>n. (calm n)\<lparr>dw_trouble := (if n = 1 then Some Dial_trouble else None)\<rparr>)\<rparr>"

lemma shaky_fleet_serving:
  "fleet_serving shaky_fleet = (\<lambda>i. if i = 0 \<or> i = 1 then Some [(''app-main-shop'', ids_of [11])] else None)"
proof -
  have "fleet_serving shaky_fleet = fleet_serving (sample_fleet [11] [11])" by (simp add: fun_eq_iff fleet_serving_def shaky_fleet_def)
  then show ?thesis by (auto simp: sample_fleet_serving)
qed

lemma State_turn:
  assumes "client_State (fleet_client cf p) i w = (w', r)"
  shows "fw_turn w' = Suc (fw_turn w) \<and> fw_draws w' = fw_draws w
    \<and> (dw_trouble (fw_draws w (fw_turn w)) = Some Dial_trouble \<longrightarrow> (\<exists>e. r = Inl e))"
  using assms
  by (auto simp: client_State_def call_state_def call_def exchange_def Let_def processed_def delivered_def
      split: prod.splits sum.splits if_splits transport.splits option.splits trouble.splits)

lemma read_one_turn:
  assumes "read_one (fleet_replicas cf p) i h = (h', st)"
  shows "fw_turn (ho_world h') = Suc (fw_turn (ho_world h)) \<and> fw_draws (ho_world h') = fw_draws (ho_world h)
    \<and> (dw_trouble (fw_draws (ho_world h) (fw_turn (ho_world h))) = Some Dial_trouble \<longrightarrow> st = None)"
proof -
  obtain w r where c: "client_State (fleet_client cf p) i (ho_world h) = (w, r)" by fastforce
  then show ?thesis using assms State_turn[OF c] by (cases r) (auto simp: read_one_def fleet_replicas_def)
qed

lemma shaky_states:
  assumes "snd (read_fleet (fleet_replicas fleet_config operator_peer) 3 (start_hand_over unseal_options shaky_fleet)) = states"
  shows "length states = 3" "states ! 1 = None"
    "silent_hold_ours sample_keyring [] (fleet_serving shaky_fleet) states"
proof -
  let ?rc = "fleet_replicas fleet_config operator_peer" and ?h = "(start_hand_over unseal_options shaky_fleet)\<lparr>ho_unanswered := []\<rparr>"
  obtain h' where rd: "read_fleet ?rc 3 (start_hand_over unseal_options shaky_fleet) = (h', states)" using assms by (metis prod.collapse)
  note A = keyholders.read_fleet_answers[OF rd]
  show "length states = 3" by (rule A(1))
  obtain h1 a where h1: "read_one ?rc 0 ?h = (h1, a)" by fastforce
  obtain h2 b where h2: "read_one ?rc 1 h1 = (h2, b)" by fastforce
  obtain h3 c where h3: "read_one ?rc 2 h2 = (h3, c)" by fastforce
  have "[0..<3] = [0, 1, 2::nat]" by (simp add: upt_rec)
  then have "states = [a, b, c]" using rd h1 h2 h3 by (simp add: read_fleet_def)
  moreover have "b = None"
    using read_one_turn[OF h1] read_one_turn[OF h2] by (simp add: start_hand_over_def shaky_fleet_def sample_fleet_def)
  ultimately show none: "states ! 1 = None" by simp
  have same: "fleet_serving (ho_world (start_hand_over unseal_options shaky_fleet)) = fleet_serving shaky_fleet" by (simp add: start_hand_over_def)
  show "silent_hold_ours sample_keyring [] (fleet_serving shaky_fleet) states"
    unfolding silent_hold_ours_def
  proof (intro allI impI conjI)
    fix j m s ks
    assume j: "j < length states" "fleet_serving shaky_fleet j = Some m" "s \<in> set (kr_scopes sample_keyring)" "map_of m (sc_Name s) = Some ks"
    then have s: "s = sample_scope ''app-main-shop'' ''app/main/shop/'' 10" "ks = ids_of [11]"
      by (auto simp: shaky_fleet_serving sample_keyring_def sample_scope_def split: if_splits)
    then show "hex_encode (machine_key [] s) \<in> set ks" by (simp add: machine_key_def sample_scope_def sample_keys_def ids_of_def)
    show "hd ks \<in> set (key_names s)" if "\<exists>st. Some st \<in> set states \<and> \<not> Sealed st \<and> map_of (reported_keys st) (sc_Name s) = None"
      using s by (simp add: sample_scope_def sample_keys_def ids_of_def)
  qed
qed


definition fleet_keeper :: "fleet_world keeper" where
  "fleet_keeper =
     \<lparr>kp_replicas = fleet_replicas fleet_config keeper_peer, kp_unyaml = sample_unyaml, kp_json = (\<lambda>e. Some (line_of e)), kp_unjson = entry_of,
      kp_clock = fw_time, kp_io = (\<lambda>w. Io_ok), kp_readable = (\<lambda>w. True),
      kp_config = \<lparr>kc_Instance = ''prod'', kc_Device = ''nas'', kc_Generation = 1, kc_Budget = 1, kc_Window = 10\<rparr>\<rparr>"

lemma keeper_never_splits_the_fleet_witness:
  "let w = (sample_fleet [11] [11])\<lparr>fw_replicas := 2\<rparr>; w' = fst (fst (keeperCheckWith fleet_keeper ''bundle'' (w, None))) in
     cross_readable (fleet_serving w') \<and> fleet_serving w' 0 = Some [(''app-main-shop'', ids_of [11])]"
proof -
  let ?w = "(sample_fleet [11] [11])\<lparr>fw_replicas := 2\<rparr>"
  obtain w' f' r where k: "keeperCheckWith fleet_keeper ''bundle'' (?w, None) = ((w', f'), r)" by (metis prod.collapse)
  have "fleet_serving ?w = fleet_serving (sample_fleet [11] [11])"
    by (auto simp: fun_eq_iff fleet_serving_def sample_fleet_def vault_serving_def sample_server_def)
  then have "cross_readable (fleet_serving ?w)" "fleet_serving ?w 0 = Some [(''app-main-shop'', ids_of [11])]"
    using sample_fleet_readable[of "[11]" "[11]"] by (simp_all add: sample_fleet_serving)
  moreover have "(cross_readable (fleet_serving ?w) \<longrightarrow> cross_readable (fleet_serving w'))
      \<and> (\<forall>i m. fleet_serving ?w i = Some m \<longrightarrow> fleet_serving w' i = Some m)"
    by (rule keeper_never_splits_the_fleet[OF fleet_config_laws _ _ _ k]) (simp_all add: fleet_keeper_def fleet_config_def keeperReplicas_def)
  ultimately show ?thesis using k by (simp add: Let_def)
qed


end
