(* ===== verification/Key_Transport.thy ===== *)
theory Key_Transport
  imports Keeper
begin

text \<open>
  How key material leaves a machine: the passphrase-armored file (\<open>datasphere/armor.go\<close>),
  the keyring export (\<open>datasphere/keyexport.go\<close>) and the keeper's packet inside the armor.
  PBKDF2, AES-GCM, the YAML coders and the random source are parameters. PBKDF2 takes the
  hash, and the salt and nonce are read in the order of the code.
\<close>

section \<open>The armored file\<close>

definition exportVersion :: int where "exportVersion = 1"
definition exportKDF :: string where "exportKDF = ''pbkdf2-sha256''"
definition exportIterations :: int where "exportIterations = 600000"
definition exportSaltLen :: nat where "exportSaltLen = 16"
definition minPassphraseLen :: nat where "minPassphraseLen = 12"
definition ArmorKeeperPacket :: string where "ArmorKeeperPacket = ''keeper-packet''"

record export_file =
  xf_Version :: int
  xf_KDF :: string
  xf_Iterations :: int
  xf_Salt :: string
  xf_Nonce :: string
  xf_Payload :: string

record armor_file = export_file +
  xf_Label :: string

datatype invalid_export =
    Not_armored
  | Unsupported_export
  | Other_label string string
  | Too_few_rounds
  | Bad_salt
  | Bad_nonce
  | Bad_payload
  | Not_opened

datatype export_error =
    No_label
  | Passphrase_short
  | No_salt
  | No_nonce
  | Not_derived
  | Bad_cipher crypto_error
  | Not_encoded
  | Keyring_refused keyring_fault
  | ErrExportInvalid invalid_export

definition newline :: string where "newline = [CHR 0x0A]"

definition exportAAD :: "export_file \<Rightarrow> string" where
  "exportAAD f = ''farcast/datasphere/keyring-export/v'' @ format_int (xf_Version f) @ newline @ xf_KDF f @ newline
     @ format_int (xf_Iterations f) @ newline @ xf_Salt f"

definition armorAAD :: "armor_file \<Rightarrow> string" where
  "armorAAD f = ''farcast/datasphere/armor/v'' @ format_int (xf_Version f) @ newline @ xf_Label f @ newline @ xf_KDF f @ newline
     @ format_int (xf_Iterations f) @ newline @ xf_Salt f"

text \<open>\<open>kdf passphrase salt iterations\<close> is \<open>pbkdf2.Key\<close> for the code's hash and length.\<close>

type_synonym key_derivation = "string \<Rightarrow> string \<Rightarrow> int \<Rightarrow> string option"

definition exportCipher :: "key_derivation \<Rightarrow> string \<Rightarrow> string \<Rightarrow> int \<Rightarrow> export_error + string" where
  "exportCipher kdf passphrase salt iterations =
     (case kdf passphrase salt iterations of
        None \<Rightarrow> Inl Not_derived
      | Some key \<Rightarrow> (case newGCM key of Inl e \<Rightarrow> Inl (Bad_cipher e) | Inr gcm \<Rightarrow> Inr gcm))"

definition Armor :: "crypto_lib \<Rightarrow> key_derivation \<Rightarrow> (armor_file \<Rightarrow> string option) \<Rightarrow> string \<Rightarrow> string \<Rightarrow> string \<Rightarrow> string \<Rightarrow> export_error + string" where
  "Armor C kdf yaml label plaintext passphrase rnd =
     (if label = '''' then Inl No_label
      else if rune_count passphrase < minPassphraseLen then Inl Passphrase_short
      else case read_full exportSaltLen rnd of
        None \<Rightarrow> Inl No_salt
      | Some (salt, rnd) \<Rightarrow>
          (case read_full NonceLen rnd of
             None \<Rightarrow> Inl No_nonce
           | Some (nonce, rnd) \<Rightarrow>
               (case exportCipher kdf passphrase salt exportIterations of
                  Inl e \<Rightarrow> Inl e
                | Inr gcm \<Rightarrow>
                    let file = \<lparr>xf_Version = exportVersion, xf_KDF = exportKDF, xf_Iterations = exportIterations, xf_Salt = b64_encode salt,
                          xf_Nonce = b64_encode nonce, xf_Payload = '''', xf_Label = label\<rparr>;
                        file = file\<lparr>xf_Payload := b64_encode (cl_seal C gcm nonce plaintext (armorAAD file))\<rparr> in
                    (case yaml file of None \<Rightarrow> Inl Not_encoded | Some out \<Rightarrow> Inr out))))"

definition open_payload ::
  "crypto_lib \<Rightarrow> key_derivation \<Rightarrow> string \<Rightarrow> string \<Rightarrow> 'z export_file_scheme \<Rightarrow> export_error + string" where
  "open_payload C kdf passphrase aad file =
     (case b64_decode (xf_Salt file) of
        None \<Rightarrow> Inl (ErrExportInvalid Bad_salt)
      | Some salt \<Rightarrow>
          (case b64_decode (xf_Nonce file) of
             None \<Rightarrow> Inl (ErrExportInvalid Bad_nonce)
           | Some nonce \<Rightarrow>
               if length nonce \<noteq> NonceLen then Inl (ErrExportInvalid Bad_nonce)
               else (case b64_decode (xf_Payload file) of
                  None \<Rightarrow> Inl (ErrExportInvalid Bad_payload)
                | Some payload \<Rightarrow>
                    (case exportCipher kdf passphrase salt (xf_Iterations file) of
                       Inl e \<Rightarrow> Inl e
                     | Inr gcm \<Rightarrow>
                         (case cl_open C gcm nonce payload aad of
                            None \<Rightarrow> Inl (ErrExportInvalid Not_opened)
                          | Some plaintext \<Rightarrow> Inr plaintext)))))"

definition Unarmor ::
  "(string \<Rightarrow> string \<Rightarrow> bool) \<Rightarrow> crypto_lib \<Rightarrow> key_derivation \<Rightarrow> (string \<Rightarrow> armor_file option) \<Rightarrow> string \<Rightarrow> string \<Rightarrow> string \<Rightarrow> export_error + string" where
  "Unarmor ufold C kdf unyaml label data passphrase =
     (case unyaml data of
        None \<Rightarrow> Inl (ErrExportInvalid Not_armored)
      | Some file \<Rightarrow>
          if xf_Version file \<noteq> exportVersion \<or> xf_KDF file \<noteq> exportKDF then Inl (ErrExportInvalid Unsupported_export)
          else if \<not> equal_fold ufold (xf_Label file) label then Inl (ErrExportInvalid (Other_label (xf_Label file) label))
          else if xf_Iterations file < exportIterations then Inl (ErrExportInvalid Too_few_rounds)
          else open_payload C kdf passphrase (armorAAD file) file)"

section \<open>The keyring export\<close>

definition ExportKeyring ::
  "crypto_lib \<Rightarrow> key_derivation \<Rightarrow> (export_file \<Rightarrow> string option) \<Rightarrow> (keyring_file \<Rightarrow> string option) \<Rightarrow> string keyring \<Rightarrow> string \<Rightarrow> string \<Rightarrow> export_error + string" where
  "ExportKeyring C kdf yaml keyring_yaml k passphrase rnd =
     (if rune_count passphrase < minPassphraseLen then Inl Passphrase_short
      else case MarshalKeyring keyring_yaml k of
        Inl f \<Rightarrow> Inl (Keyring_refused f)
      | Inr plaintext \<Rightarrow>
          (case read_full exportSaltLen rnd of
             None \<Rightarrow> Inl No_salt
           | Some (salt, rnd) \<Rightarrow>
               (case read_full NonceLen rnd of
                  None \<Rightarrow> Inl No_nonce
                | Some (nonce, rnd) \<Rightarrow>
                    (case exportCipher kdf passphrase salt exportIterations of
                       Inl e \<Rightarrow> Inl e
                     | Inr gcm \<Rightarrow>
                         let file = \<lparr>xf_Version = exportVersion, xf_KDF = exportKDF, xf_Iterations = exportIterations, xf_Salt = b64_encode salt,
                               xf_Nonce = b64_encode nonce, xf_Payload = ''''\<rparr>;
                             file = file\<lparr>xf_Payload := b64_encode (cl_seal C gcm nonce plaintext (exportAAD file))\<rparr> in
                         (case yaml file of None \<Rightarrow> Inl Not_encoded | Some out \<Rightarrow> Inr out)))))"

definition ImportKeyring ::
  "crypto_lib \<Rightarrow> key_derivation \<Rightarrow> (string \<Rightarrow> export_file option) \<Rightarrow> (string \<Rightarrow> string + keyring_file) \<Rightarrow> string \<Rightarrow> string \<Rightarrow> export_error + string keyring" where
  "ImportKeyring C kdf unyaml keyring_unyaml data passphrase =
     (case unyaml data of
        None \<Rightarrow> Inl (ErrExportInvalid Not_armored)
      | Some file \<Rightarrow>
          if xf_Version file \<noteq> exportVersion \<or> xf_KDF file \<noteq> exportKDF then Inl (ErrExportInvalid Unsupported_export)
          else if xf_Iterations file < 1 then Inl (ErrExportInvalid Too_few_rounds)
          else (case open_payload C kdf passphrase (exportAAD file) file of
             Inl e \<Rightarrow> Inl e
           | Inr plaintext \<Rightarrow> (case ParseKeyring keyring_unyaml plaintext of Inl f \<Rightarrow> Inl (Keyring_refused f) | Inr k \<Rightarrow> Inr k)))"

section \<open>The armor of a packet\<close>

definition armor_packet :: "crypto_lib \<Rightarrow> key_derivation \<Rightarrow> (armor_file \<Rightarrow> string option) \<Rightarrow> string \<Rightarrow> string \<Rightarrow> string \<Rightarrow> string option" where
  "armor_packet C kdf yaml rnd plaintext passphrase =
     (case Armor C kdf yaml ArmorKeeperPacket plaintext passphrase rnd of Inl _ \<Rightarrow> None | Inr out \<Rightarrow> Some out)"

definition unarmor_packet ::
  "(string \<Rightarrow> string \<Rightarrow> bool) \<Rightarrow> crypto_lib \<Rightarrow> key_derivation \<Rightarrow> (string \<Rightarrow> armor_file option) \<Rightarrow> string \<Rightarrow> string \<Rightarrow> string option" where
  "unarmor_packet ufold C kdf unyaml data passphrase =
     (case Unarmor ufold C kdf unyaml ArmorKeeperPacket data passphrase of Inl _ \<Rightarrow> None | Inr plaintext \<Rightarrow> Some plaintext)"

section \<open>What is sealed is what is opened\<close>

lemma armorAAD_payload [simp]: "armorAAD (f\<lparr>xf_Payload := p\<rparr>) = armorAAD f"
  by (simp add: armorAAD_def)

lemma exportAAD_payload [simp]: "exportAAD (f\<lparr>xf_Payload := p\<rparr>) = exportAAD f"
  by (simp add: exportAAD_def)

lemma read_full_length: "read_full n rnd = Some (a, rest) \<Longrightarrow> length a = n"
  by (auto simp: read_full_def split: if_splits)

lemma open_payload_sealed:
  assumes "crypto_laws C" "exportCipher kdf passphrase salt (xf_Iterations af) = Inr gcm" "length nonce = NonceLen"
    and "xf_Salt af = b64_encode salt" "xf_Nonce af = b64_encode nonce" "xf_Payload af = b64_encode (cl_seal C gcm nonce plaintext aad)"
  shows "open_payload C kdf passphrase aad af = Inr plaintext"
  using assms by (simp add: open_payload_def b64_decode_encode crypto_lawsD(4))

lemma Armor_Inr:
  assumes "Armor C kdf yaml label plaintext passphrase rnd = Inr data" "crypto_laws C"
  obtains af where "yaml af = Some data" "xf_Version af = exportVersion" "xf_KDF af = exportKDF" "xf_Iterations af = exportIterations"
    "xf_Label af = label" "label \<noteq> ''''" "minPassphraseLen \<le> rune_count passphrase" "open_payload C kdf passphrase (armorAAD af) af = Inr plaintext"
proof -
  obtain salt rnd1 nonce rnd2 gcm where r: "read_full exportSaltLen rnd = Some (salt, rnd1)" "read_full NonceLen rnd1 = Some (nonce, rnd2)"
    "exportCipher kdf passphrase salt exportIterations = Inr gcm" "label \<noteq> ''''" "\<not> rune_count passphrase < minPassphraseLen"
    using assms(1) by (auto simp: Armor_def split: if_splits option.splits prod.splits sum.splits)
  define af0 where "af0 = \<lparr>xf_Version = exportVersion, xf_KDF = exportKDF, xf_Iterations = exportIterations, xf_Salt = b64_encode salt,
      xf_Nonce = b64_encode nonce, xf_Payload = '''', xf_Label = label\<rparr>"
  define af where "af = af0\<lparr>xf_Payload := b64_encode (cl_seal C gcm nonce plaintext (armorAAD af0))\<rparr>"
  have y: "yaml af = Some data" using assms(1) r by (simp add: Armor_def Let_def af_def af0_def split: option.splits)
  have opened: "open_payload C kdf passphrase (armorAAD af) af = Inr plaintext"
    by (rule open_payload_sealed[OF assms(2), of _ _ salt _ gcm nonce])
      (use r read_full_length[OF r(2)] in \<open>simp_all add: af_def af0_def armorAAD_def\<close>)
  show thesis by (rule that[OF y]) (use r opened in \<open>simp_all add: af_def af0_def\<close>)
qed

lemma equal_fold_refl: "is_ascii s \<Longrightarrow> equal_fold ufold s s"
  by (simp add: equal_fold_def)

text \<open>
  Armor opens as what was armored, under its own label and passphrase; and nothing opens
  that names another label or asks for less derivation than the code's own.
\<close>

theorem armor_round_trip:
  assumes "crypto_laws C" "Armor C kdf yaml label plaintext passphrase rnd = Inr data" "is_ascii label"
    and "\<And>f s. yaml f = Some s \<Longrightarrow> unyaml s = Some f"
  shows "Unarmor ufold C kdf unyaml label data passphrase = Inr plaintext"
proof -
  obtain af where f: "yaml af = Some data" "xf_Version af = exportVersion" "xf_KDF af = exportKDF" "xf_Iterations af = exportIterations"
    "xf_Label af = label" "open_payload C kdf passphrase (armorAAD af) af = Inr plaintext"
    using Armor_Inr[OF assms(2,1)] by metis
  then show ?thesis using assms(4)[OF f(1)] equal_fold_refl[OF assms(3)] by (simp add: Unarmor_def)
qed

text \<open>
  C25. A keeper's packet arrives as it was sealed. What an operator seals for a device and the
  device opens under the same passphrase is the same packet, complete by the code's own
  check; and whatever file a device opens asked for at least the derivation rounds of the
  code, under the label of a keeper's packet, and holds a complete packet.
\<close>

theorem packet_round_trip:
  assumes "crypto_laws C" "\<And>f s. yaml f = Some s \<Longrightarrow> unyaml s = Some f" "\<And>p s. packet_yaml p = Some s \<Longrightarrow> packet_unyaml s = Some p"
  shows "(packet_Seal packet_yaml (armor_packet C kdf yaml rnd) (Some p) passphrase = Inr data \<longrightarrow>
        packet_Open packet_unyaml (unarmor_packet ufold C kdf unyaml) data passphrase = Inr p)
    \<and> (packet_Open packet_unyaml (unarmor_packet ufold C kdf unyaml) data' passphrase = Inr p' \<longrightarrow>
        packet_Validate (Some p') = None
        \<and> (\<exists>f. unyaml data' = Some f \<and> exportIterations \<le> xf_Iterations f \<and> equal_fold ufold (xf_Label f) ArmorKeeperPacket))"
proof (intro conjI impI)
  assume "packet_Seal packet_yaml (armor_packet C kdf yaml rnd) (Some p) passphrase = Inr data"
  then obtain plaintext where s: "packet_Validate (Some p) = None" "packet_yaml p = Some plaintext"
    "Armor C kdf yaml ArmorKeeperPacket plaintext passphrase rnd = Inr data"
    by (auto simp: packet_Seal_def armor_packet_def split: option.splits sum.splits)
  have "is_ascii ArmorKeeperPacket" by (simp add: is_ascii_def ArmorKeeperPacket_def byte_val_def)
  from armor_round_trip[OF assms(1) s(3) this assms(2)]
  show "packet_Open packet_unyaml (unarmor_packet ufold C kdf unyaml) data passphrase = Inr p"
    using s assms(3) by (simp add: packet_Open_def unarmor_packet_def)
next
  assume "packet_Open packet_unyaml (unarmor_packet ufold C kdf unyaml) data' passphrase = Inr p'"
  then show "packet_Validate (Some p') = None"
    "\<exists>f. unyaml data' = Some f \<and> exportIterations \<le> xf_Iterations f \<and> equal_fold ufold (xf_Label f) ArmorKeeperPacket"
    by (auto simp: packet_Open_def unarmor_packet_def Unarmor_def split: option.splits sum.splits if_splits)
qed

text \<open>
  C26. An exported keyring is imported whole. What leaves a machine under a passphrase is a
  valid keyring, and the machine that imports the file under the same passphrase has exactly
  it: every key, every scope, the active keys and all.
\<close>

theorem key_export_round_trip:
  assumes "crypto_laws C" "keyring_ids_ok k" "ExportKeyring C kdf yaml keyring_yaml k passphrase rnd = Inr data"
    and "\<And>f s. yaml f = Some s \<Longrightarrow> unyaml s = Some f" "\<And>f s. keyring_yaml f = Some s \<Longrightarrow> keyring_unyaml s = Inr f"
  shows "Valid (\<lambda>m. m) k = None \<and> ImportKeyring C kdf unyaml keyring_unyaml data passphrase = Inr k"
proof -
  obtain plaintext salt rnd1 nonce rnd2 gcm where r: "MarshalKeyring keyring_yaml k = Inr plaintext"
    "read_full exportSaltLen rnd = Some (salt, rnd1)" "read_full NonceLen rnd1 = Some (nonce, rnd2)"
    "exportCipher kdf passphrase salt exportIterations = Inr gcm" "\<not> rune_count passphrase < minPassphraseLen"
    using assms(3) by (auto simp: ExportKeyring_def split: if_splits option.splits prod.splits sum.splits)
  have m: "Valid (\<lambda>m. m) k = None" "keyring_yaml (keyring_file_of k) = Some plaintext"
    using r(1) by (auto simp: MarshalKeyring_def split: option.splits)
  define af0 where "af0 = \<lparr>xf_Version = exportVersion, xf_KDF = exportKDF, xf_Iterations = exportIterations, xf_Salt = b64_encode salt,
      xf_Nonce = b64_encode nonce, xf_Payload = ''''\<rparr>"
  define af where "af = af0\<lparr>xf_Payload := b64_encode (cl_seal C gcm nonce plaintext (exportAAD af0))\<rparr>"
  have y: "yaml af = Some data" using assms(3) r by (simp add: ExportKeyring_def Let_def af_def af0_def split: option.splits)
  have "open_payload C kdf passphrase (exportAAD af) af = Inr plaintext"
    by (rule open_payload_sealed[OF assms(1), of _ _ salt _ gcm nonce])
      (use r read_full_length[OF r(3)] in \<open>simp_all add: af_def af0_def exportAAD_def\<close>)
  moreover have "ParseKeyring keyring_unyaml plaintext = Inr k"
    using keyring_file_round_trip[of keyring_yaml k plaintext keyring_unyaml] assms(5)[OF m(2)] r(1) m assms(2) by blast
  moreover have "xf_Version af = exportVersion" "xf_KDF af = exportKDF" "1 \<le> xf_Iterations af"
    by (simp_all add: af_def af0_def exportIterations_def)
  ultimately show ?thesis using assms(4)[OF y] m(1) by (simp add: ImportKeyring_def)
qed

section \<open>Files to try it on\<close>

definition sample_kdf :: key_derivation where
  "sample_kdf passphrase salt iterations = Some (replicate 32 (byte 5))"

definition sample_random :: string where
  "sample_random = replicate 28 (byte 6)"

text \<open>A coder that knows one document.\<close>

definition encode_one :: "'a \<Rightarrow> 'a \<Rightarrow> string option" where
  "encode_one x y = (if y = x then Some ''doc'' else None)"

definition decode_one :: "'a \<Rightarrow> string \<Rightarrow> 'a option" where
  "decode_one x s = (if s = ''doc'' then Some x else None)"

lemma decode_encode_one: "encode_one x y = Some s \<Longrightarrow> decode_one x s = Some y"
  by (simp add: encode_one_def decode_one_def split: if_splits)

definition sample_armor :: "string \<Rightarrow> armor_file" where
  "sample_armor plaintext =
     (let f = \<lparr>xf_Version = exportVersion, xf_KDF = exportKDF, xf_Iterations = exportIterations, xf_Salt = b64_encode (replicate 16 (byte 6)),
            xf_Nonce = b64_encode (replicate 12 (byte 6)), xf_Payload = '''', xf_Label = ArmorKeeperPacket\<rparr> in
      f\<lparr>xf_Payload := b64_encode (cl_seal plain_lib (replicate 32 (byte 5)) (replicate 12 (byte 6)) plaintext (armorAAD f))\<rparr>)"

definition sample_export :: "string \<Rightarrow> export_file" where
  "sample_export plaintext =
     (let f = \<lparr>xf_Version = exportVersion, xf_KDF = exportKDF, xf_Iterations = exportIterations, xf_Salt = b64_encode (replicate 16 (byte 6)),
            xf_Nonce = b64_encode (replicate 12 (byte 6)), xf_Payload = ''''\<rparr> in
      f\<lparr>xf_Payload := b64_encode (cl_seal plain_lib (replicate 32 (byte 5)) (replicate 12 (byte 6)) plaintext (exportAAD f))\<rparr>)"

definition sample_packet :: packet where
  "sample_packet = \<lparr>pk_Version = 1, pk_Instance = ''prod'', pk_Device = ''nas'', pk_Carrier = ''carrier'', pk_ServerName = ''name'',
     pk_CACertPEM = ''ca'', pk_LeafCertPEM = ''cert'', pk_LeafKeyPEM = ''key'', pk_Bundle = ''bundle'', pk_Generation = 3,
     pk_Budget = 8, pk_Window = 10, pk_IssuedAt = 0\<rparr>"

lemma passphrase_long: "\<not> rune_count ''correct horse'' < minPassphraseLen"
  by code_simp

lemma sample_reads: "read_full exportSaltLen sample_random = Some (replicate 16 (byte 6), replicate 12 (byte 6))"
  "read_full NonceLen (replicate 12 (byte 6)) = Some (replicate 12 (byte 6), [])"
  "exportCipher sample_kdf passphrase salt iterations = Inr (replicate 32 (byte 5))"
  by (simp_all add: read_full_def exportSaltLen_def sample_random_def NonceLen_def exportCipher_def sample_kdf_def newGCM_def KeyLen_def)

lemma sample_Armor: "Armor plain_lib sample_kdf (encode_one (sample_armor p)) ArmorKeeperPacket p ''correct horse'' sample_random = Inr ''doc''"
  using passphrase_long by (simp add: Armor_def sample_reads encode_one_def sample_armor_def Let_def ArmorKeeperPacket_def)

lemma sample_packet_valid: "packet_Validate (Some sample_packet) = None"
  by (simp add: packet_Validate_def sample_packet_def ValidateDevice_def packetVersion_def MaxDeviceLen_def trim_space_visible
      byte_val_def lower_az_def device_char_def)

lemma packet_round_trip_witness:
  "packet_Seal (encode_one sample_packet) (armor_packet plain_lib sample_kdf (encode_one (sample_armor ''doc'')) sample_random) (Some sample_packet) ''correct horse''
     = Inr ''doc''
   \<and> packet_Open (decode_one sample_packet) (unarmor_packet (=) plain_lib sample_kdf (decode_one (sample_armor ''doc''))) ''doc'' ''correct horse''
     = Inr sample_packet"
proof -
  have v: "packet_Validate (Some sample_packet) = None" by (rule sample_packet_valid)
  then have "packet_Seal (encode_one sample_packet) (armor_packet plain_lib sample_kdf (encode_one (sample_armor ''doc'')) sample_random)
      (Some sample_packet) ''correct horse'' = Inr ''doc''"
    using sample_Armor[of "''doc''"] by (simp add: packet_Seal_def encode_one_def[of sample_packet] armor_packet_def)
  moreover have "packet_Seal (encode_one sample_packet) (armor_packet plain_lib sample_kdf (encode_one (sample_armor ''doc'')) sample_random)
      (Some sample_packet) ''correct horse'' = Inr ''doc'' \<longrightarrow>
    packet_Open (decode_one sample_packet) (unarmor_packet (=) plain_lib sample_kdf (decode_one (sample_armor ''doc''))) ''doc'' ''correct horse''
      = Inr sample_packet"
    by (rule packet_round_trip[THEN conjunct1, OF plain_lib_laws]) (erule decode_encode_one)+
  ultimately show ?thesis by blast
qed

lemma key_export_round_trip_witness:
  "ImportKeyring plain_lib sample_kdf (decode_one (sample_export ''keys'')) (\<lambda>_. Inr (keyring_file_of sample_keyring)) ''doc'' ''correct horse''
     = Inr sample_keyring"
proof -
  let ?yaml = "\<lambda>f. if f = keyring_file_of sample_keyring then Some ''keys'' else None"
  have e: "ExportKeyring plain_lib sample_kdf (encode_one (sample_export ''keys'')) ?yaml sample_keyring ''correct horse'' sample_random = Inr ''doc''"
    using passphrase_long sample_keyring_valid
    by (simp add: ExportKeyring_def MarshalKeyring_def sample_reads encode_one_def sample_export_def Let_def)
  have "keyring_ids_ok sample_keyring" by code_simp
  then show ?thesis
    by (rule key_export_round_trip[THEN conjunct2, OF plain_lib_laws _ e]) (erule decode_encode_one, simp split: if_splits)
qed

end
