(* ===== verification/Bucket.thy ===== *)
theory Bucket
  imports Store
begin

text \<open>
  The bucket as an operator sees it: the name minted for an instance
  (\<open>datasphere/bucket.go\<close>) and what the bucket holds (\<open>datasphere/usage.go\<close>). The object
  counts and byte sums are unbounded here: the code's 64-bit sums wrap beyond \<open>2^63\<close> stored
  bytes only.
\<close>

section \<open>The name of a bucket\<close>

definition BucketNamePrefix :: string where "BucketNamePrefix = ''farcast-''"
definition MaxBucketNameLen :: nat where "MaxBucketNameLen = 63"
definition bucketSuffixBytes :: nat where "bucketSuffixBytes = 4"

text \<open>\<open>strings.TrimRight\<close> and \<open>strings.Trim\<close> for the cut set of one character.\<close>

definition trim_right_of :: "char \<Rightarrow> string \<Rightarrow> string" where
  "trim_right_of c s = rev (dropWhile (\<lambda>x. x = c) (rev s))"

definition trim_of :: "char \<Rightarrow> string \<Rightarrow> string" where
  "trim_of c s = trim_right_of c (dropWhile (\<lambda>x. x = c) s)"

text \<open>
  The loop over the runes. A rune outside ASCII is dropped, and so is each of its bytes here,
  since none of them is an ASCII byte.
\<close>

definition bucket_label_char :: "char \<Rightarrow> string" where
  "bucket_label_char r = (if lower_az r \<or> digit09 r then [r] else if r = CHR ''-'' \<or> r = CHR ''_'' then ''-'' else [])"

definition bucketLabel :: "(string \<Rightarrow> string) \<Rightarrow> string \<Rightarrow> string" where
  "bucketLabel ulower name = trim_of CHR ''-'' (concat (map bucket_label_char (to_lower ulower name)))"

datatype mint_error = No_usable_characters | No_suffix | No_room

definition mintBucketName :: "(string \<Rightarrow> string) \<Rightarrow> string \<Rightarrow> string \<Rightarrow> mint_error + string" where
  "mintBucketName ulower name rnd =
     (let label = bucketLabel ulower name in
      if label = '''' then Inl No_usable_characters
      else case read_full bucketSuffixBytes rnd of
        None \<Rightarrow> Inl No_suffix
      | Some (suffix, _) \<Rightarrow>
          let tail = CHR ''-'' # hex_encode suffix;
              room = MaxBucketNameLen - length BucketNamePrefix - length tail in
          if length label > room
          then let label = trim_right_of CHR ''-'' (take room label) in
               if label = '''' then Inl No_room else Inr (BucketNamePrefix @ label @ tail)
          else Inr (BucketNamePrefix @ label @ tail))"

section \<open>What a bucket holds\<close>

record size_bucket =
  sz_UpTo :: int
  sz_Objects :: int
  sz_Bytes :: int

record bucket_usage =
  bu_Objects :: int
  bu_StoredBytes :: int
  bu_Oldest :: gotime
  bu_Newest :: gotime
  bu_Sizes :: "size_bucket list"

text \<open>The loop from 1 KiB doubling to 64 MiB has seventeen steps.\<close>

definition sizeBounds :: "int list" where
  "sizeBounds = map (\<lambda>i. 1024 * 2 ^ i) [0..<17]"

text \<open>The first bound that holds the sz, or the open band after the last.\<close>

fun band_from :: "nat \<Rightarrow> int list \<Rightarrow> int \<Rightarrow> nat" where
  "band_from i [] sz = i"
| "band_from i (bound # bounds) sz = (if sz \<le> bound then i else band_from (Suc i) bounds sz)"

definition size_band :: "int \<Rightarrow> nat" where
  "size_band sz = band_from 0 sizeBounds sz"

record bucket_loop =
  ul_Objects :: int
  ul_StoredBytes :: int
  ul_Oldest :: gotime
  ul_Newest :: gotime
  ul_counts :: "int list"
  ul_bytes :: "int list"

definition usage_step :: "bucket_loop \<Rightarrow> object_info \<Rightarrow> bucket_loop" where
  "usage_step u info =
     (let sz = int (oi_Size info); band = size_band sz;
          u = u\<lparr>ul_Objects := ul_Objects u + 1, ul_StoredBytes := ul_StoredBytes u + sz,
                ul_counts := (ul_counts u)[band := ul_counts u ! band + 1],
                ul_bytes := (ul_bytes u)[band := ul_bytes u ! band + sz]\<rparr> in
      if oi_Created info = zero_time then u
      else
        let u = (if ul_Oldest u = zero_time \<or> oi_Created info < ul_Oldest u then u\<lparr>ul_Oldest := oi_Created info\<rparr> else u) in
        if oi_Created info > ul_Newest u then u\<lparr>ul_Newest := oi_Created info\<rparr> else u)"

definition usage_start :: bucket_loop where
  "usage_start = \<lparr>ul_Objects = 0, ul_StoredBytes = 0, ul_Oldest = zero_time, ul_Newest = zero_time,
     ul_counts = replicate (Suc (length sizeBounds)) 0, ul_bytes = replicate (Suc (length sizeBounds)) 0\<rparr>"

fun size_rows :: "nat \<Rightarrow> int list \<Rightarrow> int list \<Rightarrow> size_bucket list" where
  "size_rows i [] bytes = []"
| "size_rows i (n # counts) bytes =
     (if n = 0 then size_rows (Suc i) counts bytes
      else \<lparr>sz_UpTo = (if i < length sizeBounds then sizeBounds ! i else 0), sz_Objects = n, sz_Bytes = bytes ! i\<rparr>
        # size_rows (Suc i) counts bytes)"

definition BucketUsage :: "'c provider \<Rightarrow> string \<Rightarrow> 'c \<Rightarrow> provider_error + bucket_usage" where
  "BucketUsage p bucket c =
     (case pv_List p c bucket '''' of
        Inl e \<Rightarrow> Inl e
      | Inr infos \<Rightarrow>
          let u = foldl usage_step usage_start infos in
          Inr \<lparr>bu_Objects = ul_Objects u, bu_StoredBytes = ul_StoredBytes u, bu_Oldest = ul_Oldest u, bu_Newest = ul_Newest u,
            bu_Sizes = size_rows 0 (ul_counts u) (ul_bytes u)\<rparr>)"

definition humanSize :: "int \<Rightarrow> string" where
  "humanSize n =
     (if n \<ge> 2 ^ 20 then format_int (n div 2 ^ 20) @ ''M''
      else if n \<ge> 2 ^ 10 then format_int (n div 2 ^ 10) @ ''K''
      else format_int n @ ''B'')"

definition size_Label :: "size_bucket \<Rightarrow> string" where
  "size_Label b = (if sz_UpTo b = 0 then ''larger'' else ''<='' @ humanSize (sz_UpTo b))"

section \<open>A minted name is one the cloud accepts\<close>

definition bucket_char :: "char \<Rightarrow> bool" where
  "bucket_char c \<longleftrightarrow> lower_az c \<or> digit09 c \<or> c = CHR ''-''"

lemma trim_right_of_subset: "set (trim_right_of c s) \<subseteq> set s"
  by (auto simp: trim_right_of_def dest: set_dropWhileD)

lemma length_trim_right_of: "length (trim_right_of c s) \<le> length s"
  using length_dropWhile_le[of "\<lambda>x. x = c" "rev s"] by (simp add: trim_right_of_def)

lemma trim_right_of_hd:
  assumes "s \<noteq> []" "hd s \<noteq> c"
  shows "trim_right_of c s \<noteq> [] \<and> hd (trim_right_of c s) = hd s"
proof -
  obtain x t where s: "s = x # t" "x \<noteq> c" using assms by (cases s) auto
  have "dropWhile (\<lambda>y. y = c) (u @ [x]) = dropWhile (\<lambda>y. y = c) u @ [x]" for u using s by (induction u) auto
  then show ?thesis using s by (simp add: trim_right_of_def)
qed

lemma trim_of_hd: "trim_of c s \<noteq> [] \<Longrightarrow> hd (trim_of c s) \<noteq> c"
  using trim_right_of_hd[of "dropWhile (\<lambda>x. x = c) s" c] hd_dropWhile[of "\<lambda>x. x = c" s]
  by (cases "dropWhile (\<lambda>x. x = c) s = []") (auto simp: trim_of_def trim_right_of_def)

lemma bucketLabel_char: "c \<in> set (bucketLabel ulower name) \<Longrightarrow> bucket_char c"
  using trim_right_of_subset set_dropWhileD[of _ "\<lambda>x. x = CHR ''-''"]
  by (fastforce simp: bucketLabel_def trim_of_def bucket_label_char_def bucket_char_def split: if_splits)

lemma hex_char_char: "n < 16 \<Longrightarrow> bucket_char (hex_char n) \<and> hex_char n \<noteq> CHR ''-''"
proof -
  assume "n < 16"
  then have "n \<in> set [0..<16]" by simp
  moreover have "list_all (\<lambda>n. bucket_char (hex_char n) \<and> hex_char n \<noteq> CHR ''-'') [0..<16]" by code_simp
  ultimately show ?thesis unfolding list_all_iff by (rule bspec[rotated])
qed

lemma hex_encode_char: "c \<in> set (hex_encode bs) \<Longrightarrow> bucket_char c \<and> c \<noteq> CHR ''-''"
proof (induction bs)
  case (Cons b bs)
  have "byte_val b div 16 < 16" using byte_val_less[of b] by simp
  then show ?case using Cons hex_char_char[of "byte_val b div 16"] hex_char_char[of "byte_val b mod 16"] by auto
qed simp

text \<open>The label that is used is never empty: the code's last refusal is never taken.\<close>

lemma mintBucketName_cases:
  "mintBucketName ulower name rnd =
     (if bucketLabel ulower name = '''' then Inl No_usable_characters
      else case read_full bucketSuffixBytes rnd of
        None \<Rightarrow> Inl No_suffix
      | Some (suffix, _) \<Rightarrow>
          Inr (BucketNamePrefix
            @ (if length (bucketLabel ulower name) > 46 then trim_right_of CHR ''-'' (take 46 (bucketLabel ulower name)) else bucketLabel ulower name)
            @ CHR ''-'' # hex_encode suffix))"
proof (cases "bucketLabel ulower name = ''''")
  case True
  then show ?thesis by (simp add: mintBucketName_def)
next
  case False
  then have "hd (bucketLabel ulower name) \<noteq> CHR ''-''" using trim_of_hd by (simp add: bucketLabel_def)
  then have "trim_right_of CHR ''-'' (take 46 (bucketLabel ulower name)) \<noteq> ''''"
    using False trim_right_of_hd[of "take 46 (bucketLabel ulower name)" "CHR ''-''"] by simp
  moreover have "length suffix = 4" if "read_full bucketSuffixBytes rnd = Some (suffix, rest)" for suffix rest
    using that by (auto simp: read_full_def bucketSuffixBytes_def split: if_splits)
  ultimately show ?thesis
    by (auto simp: mintBucketName_def Let_def MaxBucketNameLen_def BucketNamePrefix_def split: option.splits)
qed

theorem minted_name_is_legal:
  assumes "mintBucketName ulower name rnd = Inr bucket"
  shows "has_prefix bucket BucketNamePrefix \<and> length bucket \<le> MaxBucketNameLen
    \<and> (\<forall>c\<in>set bucket. bucket_char c) \<and> last bucket \<noteq> CHR ''-''
    \<and> (\<exists>suffix. length suffix = bucketSuffixBytes \<and> has_suffix bucket (CHR ''-'' # hex_encode suffix))"
proof -
  obtain suffix rest where r: "bucketLabel ulower name \<noteq> ''''" "read_full bucketSuffixBytes rnd = Some (suffix, rest)"
    using assms by (auto simp: mintBucketName_cases split: if_splits option.splits)
  define label where "label = (if length (bucketLabel ulower name) > 46
    then trim_right_of CHR ''-'' (take 46 (bucketLabel ulower name)) else bucketLabel ulower name)"
  have b: "bucket = BucketNamePrefix @ label @ CHR ''-'' # hex_encode suffix"
    using assms r by (simp add: mintBucketName_cases label_def)
  have suffix: "length suffix = 4" using r(2) by (auto simp: read_full_def bucketSuffixBytes_def split: if_splits)
  then have e: "length (hex_encode suffix) = 8" "hex_encode suffix \<noteq> []" by (auto simp flip: length_greater_0_conv)
  have l: "length label \<le> 46" using length_trim_right_of[of "CHR ''-''" "take 46 (bucketLabel ulower name)"] by (auto simp: label_def)
  have "\<forall>c\<in>set label. bucket_char c"
    using trim_right_of_subset[of "CHR ''-''" "take 46 (bucketLabel ulower name)"] bucketLabel_char[of _ ulower name]
    by (auto simp: label_def dest: in_set_takeD)
  moreover have "\<forall>c\<in>set BucketNamePrefix. bucket_char c" by code_simp
  ultimately have "\<forall>c\<in>set bucket. bucket_char c" using hex_encode_char[of _ suffix] by (auto simp: b bucket_char_def)
  moreover have "last bucket \<noteq> CHR ''-''" using e hex_encode_char[of "last (hex_encode suffix)" suffix] by (simp add: b)
  moreover have "length bucket \<le> MaxBucketNameLen" using e l by (simp add: b BucketNamePrefix_def MaxBucketNameLen_def)
  moreover have "has_suffix bucket (CHR ''-'' # hex_encode suffix)" "has_prefix bucket BucketNamePrefix"
    by (simp_all add: b has_prefix_iff has_suffix_iff)
  ultimately show ?thesis using suffix by (auto simp: bucketSuffixBytes_def)
qed

section \<open>The account of a bucket is complete\<close>

definition in_size_band :: "nat \<Rightarrow> object_info \<Rightarrow> bool" where
  "in_size_band i info \<longleftrightarrow> size_band (int (oi_Size info)) = i"

lemma band_from_le: "band_from i bounds sz \<le> i + length bounds"
  by (induction i bounds sz rule: band_from.induct) auto

lemma size_band_le: "size_band sz \<le> 17"
  using band_from_le[of 0 sizeBounds sz] by (simp add: size_band_def sizeBounds_def)

lemma usage_fold:
  "let u = foldl usage_step usage_start infos in
     ul_Objects u = int (length infos) \<and> ul_StoredBytes u = (\<Sum>info\<leftarrow>infos. int (oi_Size info))
     \<and> ul_counts u = map (\<lambda>i. int (length (filter (in_size_band i) infos))) [0..<18]
     \<and> ul_bytes u = map (\<lambda>i. \<Sum>info\<leftarrow>filter (in_size_band i) infos. int (oi_Size info)) [0..<18]"
proof (induction infos rule: rev_induct)
  case Nil
  then show ?case by (simp add: usage_start_def sizeBounds_def Let_def map_replicate_const)
next
  case (snoc info infos)
  have b: "size_band (int (oi_Size info)) < 18" using size_band_le[of "int (oi_Size info)"] by simp
  show ?case using snoc b
    by (auto simp: usage_step_def Let_def in_size_band_def nth_list_update intro!: nth_equalityI)
qed

lemma size_rows_eq:
  "length bytes = i + length counts \<Longrightarrow>
   size_rows i counts bytes =
     map (\<lambda>j. \<lparr>sz_UpTo = (if j < length sizeBounds then sizeBounds ! j else 0), sz_Objects = counts ! (j - i), sz_Bytes = bytes ! j\<rparr>)
       (filter (\<lambda>j. counts ! (j - i) \<noteq> 0) [i..<i + length counts])"
proof (induction i counts bytes rule: size_rows.induct)
  case (2 i n counts bytes)
  have "[i..<i + length (n # counts)] = i # [Suc i..<Suc i + length counts]"
    using upt_conv_Cons[of i "i + length (n # counts)"] by simp
  moreover have "filter (\<lambda>j. (n # counts) ! (j - i) \<noteq> 0) [Suc i..<Suc i + length counts]
      = filter (\<lambda>j. counts ! (j - Suc i) \<noteq> 0) [Suc i..<Suc i + length counts]"
    by (rule filter_cong) (auto simp: nth_Cons')
  ultimately show ?case using 2 by (auto simp: nth_Cons')
qed simp

text \<open>
  Nothing in a bucket is left out of the account: the rows are the non-empty bands, each with
  the objects that fall in it, so that they add up to every object and every byte the
  provider lists, whoever can name them.
\<close>

theorem bucket_usage_is_complete:
  assumes "pv_List p c bucket '''' = Inr infos"
  shows "\<exists>u. BucketUsage p bucket c = Inr u
    \<and> bu_Objects u = int (length infos) \<and> bu_StoredBytes u = (\<Sum>info\<leftarrow>infos. int (oi_Size info))
    \<and> bu_Sizes u = map (\<lambda>i. \<lparr>sz_UpTo = (if i < 17 then 1024 * 2 ^ i else 0),
          sz_Objects = int (length (filter (in_size_band i) infos)),
          sz_Bytes = (\<Sum>info\<leftarrow>filter (in_size_band i) infos. int (oi_Size info))\<rparr>)
        (filter (\<lambda>i. \<exists>info\<in>set infos. in_size_band i info) [0..<18])"
proof -
  define u where "u = foldl usage_step usage_start infos"
  have f: "ul_Objects u = int (length infos)" "ul_StoredBytes u = (\<Sum>info\<leftarrow>infos. int (oi_Size info))"
    "ul_counts u = map (\<lambda>i. int (length (filter (in_size_band i) infos))) [0..<18]"
    "ul_bytes u = map (\<lambda>i. \<Sum>info\<leftarrow>filter (in_size_band i) infos. int (oi_Size info)) [0..<18]"
    using usage_fold[of infos] by (simp_all add: u_def Let_def)
  have "filter (\<lambda>j. ul_counts u ! (j - 0) \<noteq> 0) [0..<18] = filter (\<lambda>i. \<exists>info\<in>set infos. in_size_band i info) [0..<18]"
    by (rule filter_cong) (auto simp: f(3) filter_empty_conv)
  then have "size_rows 0 (ul_counts u) (ul_bytes u) = map (\<lambda>i. \<lparr>sz_UpTo = (if i < 17 then 1024 * 2 ^ i else 0),
          sz_Objects = int (length (filter (in_size_band i) infos)),
          sz_Bytes = (\<Sum>info\<leftarrow>filter (in_size_band i) infos. int (oi_Size info))\<rparr>)
        (filter (\<lambda>i. \<exists>info\<in>set infos. in_size_band i info) [0..<18])"
    by (subst size_rows_eq) (auto simp: f(3,4) sizeBounds_def intro!: map_cong)
  then show ?thesis using assms f(1,2) by (simp add: BucketUsage_def Let_def u_def)
qed

text \<open>A band holds the sizes above the bound before it up to its own bound.\<close>

lemma band_from_ge: "i \<le> band_from i bounds sz"
  by (induction i bounds sz rule: band_from.induct) auto

lemma band_from_iff:
  "sorted bounds \<Longrightarrow> j < length bounds \<Longrightarrow>
    (band_from i bounds sz = i + j) = (sz \<le> bounds ! j \<and> (0 < j \<longrightarrow> bounds ! (j - 1) < sz))"
proof (induction i bounds sz arbitrary: j rule: band_from.induct)
  case (2 i bound bounds sz)
  show ?case
  proof (cases j)
    case 0
    then show ?thesis using 2 band_from_ge[of "Suc i" bounds sz] by auto
  next
    case (Suc k)
    then have k: "k < length bounds" "sorted bounds" "\<forall>x\<in>set bounds. bound \<le> x" using 2(2,3) by auto
    show ?thesis
    proof (cases "sz \<le> bound")
      case True
      then have "\<not> (bound # bounds) ! k < sz" using k by (cases k) (auto simp: not_less dest: order_trans)
      then show ?thesis using True Suc by simp
    next
      case False
      then show ?thesis using 2(1)[of k] k Suc by (cases k) auto
    qed
  qed
qed simp

end
