(* ===== verification/Translate.thy ===== *)
theory Translate
  imports Egress_Document Pricing
begin

text \<open>
  Planck's translator (\<open>planck/translate\<close>): from a manifest and what was minted for its
  applications to the Kubernetes documents that run them. The template is kept as a tree of
  the documents it lays out, in its order and without its comments, and \<open>emit\<close> lays the tree
  out as the template does: an interpolated value is written as it is, unquoted.
\<close>

section \<open>What is translated\<close>

definition SystemNamespace :: string where "SystemNamespace = ''farcast-system''"
definition FatLineService :: string where "FatLineService = ''fatline-egress''"
definition FatLineWorkload :: string where "FatLineWorkload = ''fatline''"
definition FatLineEgressPort :: int where "FatLineEgressPort = 3128"
definition StorageService :: string where "StorageService = ''datasphered''"
definition StoragePort :: int where "StoragePort = 8443"
definition StorageStatusService :: string where "StorageStatusService = ''datasphered-status''"
definition StorageStatusPort :: int where "StorageStatusPort = 8444"
definition NodeLocalDNS :: string where "NodeLocalDNS = ''169.254.20.10/32''"
definition RequestCPUMilli :: int where "RequestCPUMilli = 100"
definition RequestMemMiB :: int where "RequestMemMiB = 128"
definition DefaultPort :: int where "DefaultPort = 8080"

record app_storage =
  ast_CertPEM :: string
  ast_KeyPEM :: string
  ast_Scope :: string
  ast_SecretsPrefix :: string

text \<open>The maps are association lists of distinct keys, in the order a loop visits them.\<close>

record translate_config =
  tc_Manifest :: manifest
  tc_Namespace :: string
  tc_Images :: "(string \<times> string) list"
  tc_Instance :: string
  tc_Storage :: "(string \<times> app_storage) list"
  tc_StorageCAPEM :: string
  tc_StorageServerName :: string
  tc_Credentials :: "(string \<times> string) list"

definition no_storage :: app_storage where
  "no_storage = \<lparr>ast_CertPEM = '''', ast_KeyPEM = '''', ast_Scope = '''', ast_SecretsPrefix = ''''\<rparr>"

definition translate_defaults :: "translate_config \<Rightarrow> translate_config" where
  "translate_defaults c = (if tc_Namespace c = '''' then c\<lparr>tc_Namespace := man_name (tc_Manifest c)\<rparr> else c)"

datatype name_fault = Name_empty | Name_long | Not_a_label

definition label_at :: "string \<Rightarrow> nat \<Rightarrow> bool" where
  "label_at s i \<longleftrightarrow> lower_az (s ! i) \<or> digit09 (s ! i) \<or> s ! i = CHR ''-'' \<and> i \<noteq> 0 \<and> i \<noteq> length s - 1"

definition validateName :: "string \<Rightarrow> name_fault option" where
  "validateName s =
     (if s = '''' then Some Name_empty
      else if length s > 63 then Some Name_long
      else if list_all (label_at s) [0..<length s] then None
      else Some Not_a_label)"

text \<open>\<open>strings.Cut\<close> at the first occurrence of a separator.\<close>

fun cut_string :: "string \<Rightarrow> string \<Rightarrow> (string \<times> string) option" where
  "cut_string sep s =
     (if has_prefix s sep then Some ([], drop (length sep) s)
      else case s of
        [] \<Rightarrow> None
      | c # t \<Rightarrow> (case cut_string sep t of None \<Rightarrow> None | Some (a, b) \<Rightarrow> Some (c # a, b)))"

declare cut_string.simps [simp del]

definition hasDigest :: "string \<Rightarrow> bool" where
  "hasDigest img =
     (case cut_string ''@sha256:'' img of
        None \<Rightarrow> False
      | Some (_, digest) \<Rightarrow> length digest = 64 \<and> list_all lower_hex digest)"

definition indentPEM :: "string \<Rightarrow> string" where
  "indentPEM pem =
     (if pem = '''' then ''''
      else join_with (byte 10) (map (\<lambda>l. ''    '' @ l) (split_on (byte 10) (rev (dropWhile (\<lambda>c. c = byte 10) (rev pem))))))"

record app_data =
  ad_Name :: string
  ad_Image :: string
  ad_ProxyURL :: string
  ad_ClientCert :: string
  ad_ClientKey :: string
  ad_Scope :: string
  ad_SecretsPrefix :: string

text \<open>The constants that the code copies into the data are named where the template reads them.\<close>

record template_data =
  td_Apps :: "app_data list"
  td_Namespace :: string
  td_Deployment :: string
  td_Instance :: string
  td_StorageServerName :: string
  td_StorageCA :: string
  td_HasStorage :: bool

section \<open>The documents of the template\<close>

datatype node =
    Scalar string
  | Block string
  | Empty_map
  | Mapping "(string \<times> node) list"
  | Sequence "node list"

definition spaces :: "nat \<Rightarrow> string" where
  "spaces n = replicate n CHR '' ''"

text \<open>
  The lines of a mapping's fields, and of a sequence's items, at an indentation. An item that
  is a mapping starts on the line of its dash. A block is laid out by \<open>indentPEM\<close> already.
\<close>

fun emit_fields :: "nat \<Rightarrow> (string \<times> node) list \<Rightarrow> string list" and emit_items :: "nat \<Rightarrow> node list \<Rightarrow> string list" where
  "emit_fields n [] = []"
| "emit_fields n ((k, Scalar v) # fs) = (spaces n @ k @ '': '' @ v) # emit_fields n fs"
| "emit_fields n ((k, Block t) # fs) = (spaces n @ k @ '': |'') # t # emit_fields n fs"
| "emit_fields n ((k, Empty_map) # fs) = (spaces n @ k @ '': {}'') # emit_fields n fs"
| "emit_fields n ((k, Mapping m) # fs) = (spaces n @ k @ '':'') # emit_fields (n + 2) m @ emit_fields n fs"
| "emit_fields n ((k, Sequence xs) # fs) = (spaces n @ k @ '':'') # emit_items (n + 2) xs @ emit_fields n fs"
| "emit_items n [] = []"
| "emit_items n (Scalar v # xs) = (spaces n @ ''- '' @ v) # emit_items n xs"
| "emit_items n (Mapping m # xs) =
     (case emit_fields (n + 2) m of
        [] \<Rightarrow> []
      | l # ls \<Rightarrow> (spaces n @ ''- '' @ drop (n + 2) l) # ls) @ emit_items n xs"
| "emit_items n (x # xs) = emit_items n xs"

definition emit :: "(string \<times> node) list list \<Rightarrow> string" where
  "emit docs = concat (map (\<lambda>l. l @ [byte 10])
     (case docs of [] \<Rightarrow> [] | d # ds \<Rightarrow> emit_fields 0 d @ concat (map (\<lambda>d. ''---'' # emit_fields 0 d) ds)))"

definition name_label :: string where "name_label = ''app.kubernetes.io/name''"
definition managed_label :: string where "managed_label = ''app.kubernetes.io/managed-by''"
definition part_label :: string where "part_label = ''app.kubernetes.io/part-of''"
definition app_tier_label :: string where "app_tier_label = ''farcast.sofmon.com/tier''"

type_synonym yaml_doc = "(string \<times> node) list"

definition scalars :: "(string \<times> string) list \<Rightarrow> node" where
  "scalars kvs = Mapping (map (\<lambda>(k, v). (k, Scalar v)) kvs)"

definition app_labels :: "template_data \<Rightarrow> app_data \<Rightarrow> labels" where
  "app_labels t a = [(name_label, ad_Name a), (managed_label, ''farcast''), (part_label, td_Deployment t)]"

definition tier_labels :: "template_data \<Rightarrow> app_data \<Rightarrow> labels" where
  "tier_labels t a = app_labels t a @ [(app_tier_label, ''app'')]"

definition object_meta :: "template_data \<Rightarrow> string \<Rightarrow> labels \<Rightarrow> node" where
  "object_meta t name ls = Mapping [(''name'', Scalar name), (''namespace'', Scalar (td_Namespace t)), (''labels'', scalars ls)]"

definition namespace_doc :: "template_data \<Rightarrow> yaml_doc" where
  "namespace_doc t =
     [(''apiVersion'', Scalar ''v1''), (''kind'', Scalar ''Namespace''),
      (''metadata'', Mapping [(''name'', Scalar (td_Namespace t)),
         (''labels'', scalars ([(managed_label, ''farcast''), (part_label, td_Deployment t)]
            @ (if td_Instance t = '''' then [] else [(''farcast.sofmon.com/instance'', td_Instance t)])))])]"

definition secret_doc :: "template_data \<Rightarrow> app_data \<Rightarrow> yaml_doc" where
  "secret_doc t a =
     [(''apiVersion'', Scalar ''v1''), (''kind'', Scalar ''Secret''),
      (''metadata'', object_meta t (ad_Name a @ ''-egress'') (app_labels t a)),
      (''stringData'', Mapping ([(''FARCAST_FATLINE_PROXY'', Scalar (ad_ProxyURL a))]
         @ (if td_HasStorage t
            then [(''FARCAST_STORAGE_CLIENT_CERT'', Block (ad_ClientCert a)), (''FARCAST_STORAGE_CLIENT_KEY'', Block (ad_ClientKey a))]
            else [])))]"

definition service_url :: "string \<Rightarrow> int \<Rightarrow> string" where
  "service_url service port = ''https://'' @ service @ ''.'' @ SystemNamespace @ ''.svc.cluster.local:'' @ format_int port"

definition config_map_doc :: "template_data \<Rightarrow> app_data \<Rightarrow> yaml_doc" where
  "config_map_doc t a =
     [(''apiVersion'', Scalar ''v1''), (''kind'', Scalar ''ConfigMap''),
      (''metadata'', object_meta t (ad_Name a) (app_labels t a)),
      (''data'', Mapping ([(''FARCAST_APP_NAME'', Scalar (ad_Name a))]
         @ (if td_Instance t = '''' then [] else [(''FARCAST_INSTANCE_ID'', Scalar (td_Instance t))])
         @ (if td_HasStorage t
            then [(''FARCAST_STORAGE_ENDPOINT'', Scalar (service_url StorageService StoragePort)),
                  (''FARCAST_STORAGE_STATUS_ENDPOINT'', Scalar (service_url StorageStatusService StorageStatusPort)),
                  (''FARCAST_STORAGE_SCOPE'', Scalar (ad_Scope a)),
                  (''FARCAST_STORAGE_SERVER_NAME'', Scalar (td_StorageServerName t)),
                  (''FARCAST_STORAGE_CA'', Block (td_StorageCA t))]
            else [])
         @ [(''FARCAST_SECRETS_PREFIX'', Scalar (ad_SecretsPrefix a))]))]"

definition container_node :: "app_data \<Rightarrow> node" where
  "container_node a = Mapping
     [(''name'', Scalar (ad_Name a)),
      (''image'', Scalar (ad_Image a)),
      (''envFrom'', Sequence [Mapping [(''configMapRef'', scalars [(''name'', ad_Name a)])],
         Mapping [(''secretRef'', scalars [(''name'', ad_Name a @ ''-egress'')])]]),
      (''ports'', Sequence [scalars [(''name'', ''http''), (''containerPort'', format_int DefaultPort)]]),
      (''resources'', Mapping [(''requests'', scalars [(''cpu'', format_int RequestCPUMilli @ ''m''), (''memory'', format_int RequestMemMiB @ ''Mi'')])]),
      (''securityContext'', Mapping [(''allowPrivilegeEscalation'', Scalar ''false''),
         (''capabilities'', Mapping [(''drop'', Sequence [Scalar ''ALL''])])])]"

definition deployment_doc :: "template_data \<Rightarrow> app_data \<Rightarrow> yaml_doc" where
  "deployment_doc t a =
     [(''apiVersion'', Scalar ''apps/v1''), (''kind'', Scalar ''Deployment''),
      (''metadata'', object_meta t (ad_Name a) (tier_labels t a)),
      (''spec'', Mapping
        [(''replicas'', Scalar ''1''),
         (''selector'', Mapping [(''matchLabels'', scalars [(name_label, ad_Name a)])]),
         (''template'', Mapping
           [(''metadata'', Mapping [(''labels'', scalars (tier_labels t a))]),
            (''spec'', Mapping
              [(''automountServiceAccountToken'', Scalar ''false''),
               (''securityContext'', Mapping [(''seccompProfile'', scalars [(''type'', ''RuntimeDefault'')])]),
               (''containers'', Sequence [container_node a])])])])]"

definition service_doc :: "template_data \<Rightarrow> app_data \<Rightarrow> yaml_doc" where
  "service_doc t a =
     [(''apiVersion'', Scalar ''v1''), (''kind'', Scalar ''Service''),
      (''metadata'', object_meta t (ad_Name a) (app_labels t a)),
      (''spec'', Mapping
        [(''type'', Scalar ''ClusterIP''),
         (''selector'', scalars [(name_label, ad_Name a)]),
         (''ports'', Sequence [scalars [(''name'', ''http''), (''port'', format_int DefaultPort), (''targetPort'', ''http'')]])])]"

text \<open>A peer of the system namespace: the pods one workload label selects there.\<close>

definition system_peer :: "string \<Rightarrow> int list \<Rightarrow> node" where
  "system_peer workload ports = Mapping
     [(''to'', Sequence [Mapping
        [(''namespaceSelector'', Mapping [(''matchLabels'', scalars [(''kubernetes.io/metadata.name'', SystemNamespace)])]),
         (''podSelector'', Mapping [(''matchLabels'', scalars [(name_label, workload)])])]]),
      (''ports'', Sequence (map (\<lambda>p. scalars [(''protocol'', ''TCP''), (''port'', format_int p)]) ports))]"

definition dns_peer :: node where
  "dns_peer = Mapping
     [(''to'', Sequence
        [Mapping [(''namespaceSelector'', Mapping [(''matchLabels'', scalars [(''kubernetes.io/metadata.name'', ''kube-system'')])])],
         Mapping [(''ipBlock'', scalars [(''cidr'', NodeLocalDNS)])]]),
      (''ports'', Sequence [scalars [(''protocol'', ''UDP''), (''port'', ''53'')], scalars [(''protocol'', ''TCP''), (''port'', ''53'')]])]"

definition network_policy_doc :: "template_data \<Rightarrow> app_data \<Rightarrow> yaml_doc" where
  "network_policy_doc t a =
     [(''apiVersion'', Scalar ''networking.k8s.io/v1''), (''kind'', Scalar ''NetworkPolicy''),
      (''metadata'', object_meta t (ad_Name a) (app_labels t a)),
      (''spec'', Mapping
        [(''podSelector'', Mapping [(''matchLabels'', scalars [(name_label, ad_Name a)])]),
         (''policyTypes'', Sequence [Scalar ''Ingress'', Scalar ''Egress'']),
         (''ingress'', Sequence [Mapping [(''from'', Sequence [Mapping [(''podSelector'', Empty_map)]])]]),
         (''egress'', Sequence ([dns_peer, system_peer FatLineWorkload [FatLineEgressPort]]
            @ (if td_HasStorage t then [system_peer StorageService [StoragePort, StorageStatusPort]] else [])))])]"

definition app_docs :: "template_data \<Rightarrow> app_data \<Rightarrow> yaml_doc list" where
  "app_docs t a = [secret_doc t a, config_map_doc t a, deployment_doc t a, service_doc t a, network_policy_doc t a]"

definition workload_docs :: "template_data \<Rightarrow> yaml_doc list" where
  "workload_docs t = namespace_doc t # concat (map (app_docs t) (td_Apps t))"

section \<open>The translation\<close>

datatype translate_error =
    Manifest_unnamed
  | Manifest_empty string
  | Namespace_refused string name_fault
  | System_namespace
  | Prefix_unterminated string string
  | Managed_namespace string
  | App_refused string name_fault
  | App_twice string
  | No_image string
  | Not_pinned string string
  | No_credential string
  | No_storage_identity string
  | No_storage_scope string

definition app_entry :: "translate_config \<Rightarrow> bool \<Rightarrow> string \<Rightarrow> translate_error + app_data" where
  "app_entry c storage name =
     (let img = get_or '''' (tc_Images c) name in
      if img = '''' then Inl (No_image name)
      else if \<not> hasDigest img then Inl (Not_pinned img name)
      else
        let credential = get_or '''' (tc_Credentials c) name in
        if credential = '''' then Inl (No_credential name)
        else
          let entry = \<lparr>ad_Name = name, ad_Image = img,
                ad_ProxyURL = ProxyURL ''http'' (FatLineService @ ''.'' @ SystemNamespace @ ''.svc.cluster.local'') FatLineEgressPort name credential,
                ad_ClientCert = '''', ad_ClientKey = '''', ad_Scope = '''', ad_SecretsPrefix = ''''\<rparr> in
          if storage then
            let st = get_or no_storage (tc_Storage c) name in
            if ast_CertPEM st = '''' \<or> ast_KeyPEM st = '''' then Inl (No_storage_identity name)
            else if ast_Scope st = '''' \<or> ast_SecretsPrefix st = '''' then Inl (No_storage_scope name)
            else Inr (entry\<lparr>ad_ClientCert := indentPEM (ast_CertPEM st), ad_ClientKey := indentPEM (ast_KeyPEM st),
              ad_Scope := ast_Scope st, ad_SecretsPrefix := ast_SecretsPrefix st\<rparr>)
          else Inr entry)"

fun app_entries :: "translate_config \<Rightarrow> bool \<Rightarrow> string list \<Rightarrow> app list \<Rightarrow> translate_error + app_data list" where
  "app_entries c storage seen [] = Inr []"
| "app_entries c storage seen (a # as) =
     (case validateName (app_name a) of
        Some f \<Rightarrow> Inl (App_refused (app_name a) f)
      | None \<Rightarrow>
          if app_name a \<in> set seen then Inl (App_twice (app_name a))
          else case app_entry c storage (app_name a) of
            Inl e \<Rightarrow> Inl e
          | Inr entry \<Rightarrow>
              (case app_entries c storage (app_name a # seen) as of Inl e \<Rightarrow> Inl e | Inr es \<Rightarrow> Inr (entry # es)))"

definition render_data :: "translate_config \<Rightarrow> translate_error + template_data" where
  "render_data c0 =
     (let c = translate_defaults c0; m = tc_Manifest c; ns = tc_Namespace c in
      if man_name m = '''' then Inl Manifest_unnamed
      else if man_apps m = [] then Inl (Manifest_empty (man_name m))
      else case validateName ns of
        Some f \<Rightarrow> Inl (Namespace_refused ns f)
      | None \<Rightarrow>
          if ns = SystemNamespace then Inl System_namespace
          else case find (\<lambda>(_, st). ast_SecretsPrefix st \<noteq> '''' \<and> \<not> has_suffix (ast_SecretsPrefix st) ''/'') (tc_Storage c) of
            Some (app, st) \<Rightarrow> Inl (Prefix_unterminated (ast_SecretsPrefix st) app)
          | None \<Rightarrow>
              if has_prefix ns ''kube-'' then Inl (Managed_namespace ns)
              else
                let storage = tc_Storage c \<noteq> [] \<and> tc_StorageCAPEM c \<noteq> '''' in
                (case app_entries c storage [] (man_apps m) of
                   Inl e \<Rightarrow> Inl e
                 | Inr entries \<Rightarrow> Inr \<lparr>td_Apps = entries, td_Namespace = ns, td_Deployment = man_name m, td_Instance = tc_Instance c,
                     td_StorageServerName = tc_StorageServerName c, td_StorageCA = indentPEM (tc_StorageCAPEM c), td_HasStorage = storage\<rparr>))"

definition Render :: "translate_config \<Rightarrow> translate_error + string" where
  "Render c = (case render_data c of Inl e \<Rightarrow> Inl e | Inr t \<Rightarrow> Inr (emit (workload_docs t)))"

section \<open>What is accepted\<close>

text \<open>A label as Kubernetes wants it, said without positions.\<close>

definition kube_label :: "string \<Rightarrow> bool" where
  "kube_label s \<longleftrightarrow> s \<noteq> '''' \<and> length s \<le> 63 \<and> hd s \<noteq> CHR ''-'' \<and> last s \<noteq> CHR ''-'' \<and> (\<forall>c\<in>set s. dns_char c)"

lemma label_at_iff: "label_at s i \<longleftrightarrow> dns_char (s ! i) \<and> (s ! i = CHR ''-'' \<longrightarrow> i \<noteq> 0 \<and> i \<noteq> length s - 1)"
  by (auto simp: label_at_def dns_char_def lower_az_def digit09_def)

lemma validateName_None: "validateName s = None \<longleftrightarrow> kube_label s"
proof -
  have "list_all (label_at s) [0..<length s] \<longleftrightarrow> hd s \<noteq> CHR ''-'' \<and> last s \<noteq> CHR ''-'' \<and> (\<forall>c\<in>set s. dns_char c)"
    if "s \<noteq> ''''"
  proof -
    have "s ! i = CHR ''-'' \<longrightarrow> i \<noteq> 0 \<and> i \<noteq> length s - 1" if "hd s \<noteq> CHR ''-''" "last s \<noteq> CHR ''-''" for i
      using that \<open>s \<noteq> ''''\<close> by (cases "i = 0") (auto simp: hd_conv_nth last_conv_nth)
    moreover have "hd s \<noteq> CHR ''-'' \<and> last s \<noteq> CHR ''-''" if "list_all (label_at s) [0..<length s]"
      using that \<open>s \<noteq> ''''\<close> by (auto simp: list_all_iff label_at_iff hd_conv_nth last_conv_nth dest: bspec[of _ _ 0] bspec[of _ _ "length s - 1"])
    ultimately show ?thesis by (auto simp: list_all_iff label_at_iff all_set_conv_all_nth)
  qed
  then show ?thesis by (auto simp: validateName_def kube_label_def)
qed

text \<open>Whatever the manifest accepts as a name is a name here.\<close>

lemma dns_label_kube: "dns_label s \<Longrightarrow> kube_label s"
  by (auto simp: dns_label_def kube_label_def lower_az_def)

definition storage_given :: "translate_config \<Rightarrow> bool" where
  "storage_given c \<longleftrightarrow> tc_Storage c \<noteq> [] \<and> tc_StorageCAPEM c \<noteq> ''''"

text \<open>An image pinned by digest: a repository that names no digest of its own, and 64 hexadecimal digits.\<close>

definition pinned_image :: "string \<Rightarrow> bool" where
  "pinned_image img \<longleftrightarrow> (\<exists>repo digest. img = repo @ ''@sha256:'' @ digest \<and> \<not> contains repo ''@sha256:'' \<and> length digest = 64 \<and> list_all lower_hex digest)"

text \<open>An application's whole storage identity: its leaf and what the leaf entitles it to.\<close>

definition storage_complete :: "app_storage \<Rightarrow> bool" where
  "storage_complete st \<longleftrightarrow> ast_CertPEM st \<noteq> '''' \<and> ast_KeyPEM st \<noteq> '''' \<and> ast_Scope st \<noteq> '''' \<and> ast_SecretsPrefix st \<noteq> ''''"

definition app_given :: "translate_config \<Rightarrow> bool \<Rightarrow> string \<Rightarrow> bool" where
  "app_given c storage name \<longleftrightarrow> pinned_image (get_or '''' (tc_Images c) name) \<and> get_or '''' (tc_Credentials c) name \<noteq> ''''
     \<and> (storage \<longrightarrow> storage_complete (get_or no_storage (tc_Storage c) name))"

text \<open>The map of storage identities may claim no partial name.\<close>

definition prefixes_end :: "(string \<times> app_storage) list \<Rightarrow> bool" where
  "prefixes_end storage \<longleftrightarrow> (\<forall>(app, st)\<in>set storage. ast_SecretsPrefix st = '''' \<or> has_suffix (ast_SecretsPrefix st) ''/'')"

text \<open>What is written for an application that is given all it needs.\<close>

definition given_entry :: "translate_config \<Rightarrow> bool \<Rightarrow> string \<Rightarrow> app_data" where
  "given_entry c storage name = (case get_or no_storage (tc_Storage c) name of st \<Rightarrow>
     \<lparr>ad_Name = name, ad_Image = get_or '''' (tc_Images c) name,
      ad_ProxyURL = ProxyURL ''http'' (FatLineService @ ''.'' @ SystemNamespace @ ''.svc.cluster.local'') FatLineEgressPort name
        (get_or '''' (tc_Credentials c) name),
      ad_ClientCert = (if storage then indentPEM (ast_CertPEM st) else ''''), ad_ClientKey = (if storage then indentPEM (ast_KeyPEM st) else ''''),
      ad_Scope = (if storage then ast_Scope st else ''''), ad_SecretsPrefix = (if storage then ast_SecretsPrefix st else '''')\<rparr>)"

lemma hasDigest_nonempty: "hasDigest img \<Longrightarrow> img \<noteq> ''''"
  by (auto simp: hasDigest_def cut_string.simps[of _ "''''"] has_prefix_iff)

text \<open>
  The cut is at the first separator, so what precedes it has none; hexadecimal digits have
  none either, and the separator does not overlap itself.
\<close>

lemma cut_string_None: "cut_string sep s = None \<longleftrightarrow> \<not> contains s sep"
proof (induction s)
  case Nil
  then show ?case by (simp add: cut_string.simps[of sep "[]"] contains_iff has_prefix_iff)
next
  case (Cons c t)
  have "contains (c # t) sep \<longleftrightarrow> has_prefix (c # t) sep \<or> contains t sep"
    unfolding contains_iff has_prefix_iff by (auto simp: Cons_eq_append_conv)
  then show ?case using Cons by (auto simp: cut_string.simps[of sep "c # t"] split: option.splits)
qed

lemma cut_string_Some: "cut_string sep s = Some (a, b) \<Longrightarrow> s = a @ sep @ b"
proof (induction s arbitrary: a)
  case Nil
  then show ?case by (auto simp: cut_string.simps[of sep "[]"] has_prefix_iff split: if_splits)
next
  case (Cons c t)
  show ?case
  proof (cases "has_prefix (c # t) sep")
    case True
    then show ?thesis using Cons.prems by (auto simp: cut_string.simps[of sep "c # t"] has_prefix_iff)
  next
    case False
    then show ?thesis using Cons by (auto simp: cut_string.simps[of sep "c # t"] split: option.splits)
  qed
qed

lemma cut_at_separator:
  "\<not> contains repo ''@sha256:'' \<Longrightarrow> cut_string ''@sha256:'' (repo @ ''@sha256:'' @ digest) = Some (repo, digest)"
proof (induction repo)
  case Nil
  then show ?case by (simp add: cut_string.simps[of _ "CHR ''@'' # s" for s] has_prefix_def)
next
  case (Cons c t)
  have "\<not> has_prefix (c # t @ ''@sha256:'' @ digest) ''@sha256:''"
  proof
    assume "has_prefix (c # t @ ''@sha256:'' @ digest) ''@sha256:''"
    moreover have "length ''@sha256:'' = 8" by simp
    ultimately have p: "take 8 ((c # t) @ ''@sha256:'' @ digest) = ''@sha256:''" by (simp only: has_prefix_def append_Cons)
    have long: "length t < 7"
    proof (rule ccontr)
      assume "\<not> length t < 7"
      then have "take 8 (c # t) = ''@sha256:''" using p by simp
      then show False using Cons.prems append_take_drop_id[of 8 "c # t"] unfolding contains_iff by (metis append_Nil)
    qed
    then have "take 8 ((c # t) @ ''@sha256:'' @ digest) ! Suc (length t) = CHR ''@''" by (simp add: nth_append)
    then have "''@sha256:'' ! Suc (length t) = CHR ''@''" unfolding p .
    then show False using long by (auto simp: less_Suc_eq numeral_eq_Suc)
  qed
  moreover have "\<not> contains t ''@sha256:''"
    using Cons.prems unfolding contains_iff by (metis append_Cons)
  ultimately show ?case using Cons.IH by (simp add: cut_string.simps[of _ "c # s" for s])
qed

lemma contains_first:
  assumes "contains s sep"
  obtains u v where "s = u @ sep @ v" "sep = [] \<or> \<not> contains u sep"
  using assms
proof (induction "length s" arbitrary: s thesis rule: less_induct)
  case less
  obtain u v where u: "s = u @ sep @ v" using less.prems(2) contains_iff by blast
  show ?case
  proof (cases "sep = [] \<or> \<not> contains u sep")
    case True
    then show ?thesis using less.prems(1) u by blast
  next
    case False
    then have "length u < length s" using u by simp
    then obtain u' v' where "u = u' @ sep @ v'" "sep = [] \<or> \<not> contains u' sep" using less.hyps[of u] False by metis
    then show ?thesis using less.prems(1)[of u' "v' @ sep @ v"] u by simp
  qed
qed

lemma hasDigest_pinned: "hasDigest img \<longleftrightarrow> pinned_image img"
proof
  assume "hasDigest img"
  then obtain repo digest where c: "cut_string ''@sha256:'' img = Some (repo, digest)" "length digest = 64" "list_all lower_hex digest"
    by (auto simp: hasDigest_def split: option.splits)
  have i: "img = repo @ ''@sha256:'' @ digest" using cut_string_Some[OF c(1)] .
  moreover have "\<not> contains repo ''@sha256:''"
  proof
    assume "contains repo ''@sha256:''"
    then obtain u v where u: "repo = u @ ''@sha256:'' @ v" "\<not> contains u ''@sha256:''"
      using contains_first by blast
    then have "cut_string ''@sha256:'' img = Some (u, v @ ''@sha256:'' @ digest)"
      using cut_at_separator[OF u(2), of "v @ ''@sha256:'' @ digest"] i by simp
    then have "u = repo" using c(1) by simp
    then show False using u(1) by simp
  qed
  ultimately show "pinned_image img" using c(2,3) unfolding pinned_image_def by blast
next
  assume "pinned_image img"
  then obtain repo digest where i: "img = repo @ ''@sha256:'' @ digest" and n: "\<not> contains repo ''@sha256:''"
    and d: "length digest = 64" "list_all lower_hex digest" unfolding pinned_image_def by blast
  show "hasDigest img" unfolding hasDigest_def i cut_at_separator[OF n] using d by simp
qed

lemma app_entry_Inr: "app_entry c storage name = Inr e \<longleftrightarrow> app_given c storage name \<and> e = given_entry c storage name"
  using hasDigest_nonempty by (auto simp: app_entry_def app_given_def given_entry_def hasDigest_pinned[symmetric] storage_complete_def Let_def split: if_splits)

lemma app_entries_Cons_Inr:
  "app_entries c storage seen (a # as) = Inr es \<longleftrightarrow>
     validateName (app_name a) = None \<and> app_name a \<notin> set seen
     \<and> (\<exists>e es'. app_entry c storage (app_name a) = Inr e \<and> app_entries c storage (app_name a # seen) as = Inr es' \<and> es = e # es')"
  by (auto split: option.splits sum.splits)

lemma app_entries_Inr:
  "app_entries c storage seen as = Inr es \<longleftrightarrow>
     (\<forall>a\<in>set as. kube_label (app_name a) \<and> app_name a \<notin> set seen \<and> app_given c storage (app_name a))
     \<and> distinct (map app_name as) \<and> es = map (given_entry c storage \<circ> app_name) as"
proof (induction as arbitrary: seen es)
  case Nil
  then show ?case by auto
next
  case (Cons a as)
  show ?case unfolding app_entries_Cons_Inr Cons.IH app_entry_Inr validateName_None by (auto simp: image_iff)
qed

definition target_namespace :: "translate_config \<Rightarrow> string" where
  "target_namespace c = tc_Namespace (translate_defaults c)"

definition deployable :: "translate_config \<Rightarrow> bool" where
  "deployable c \<longleftrightarrow>
     man_name (tc_Manifest c) \<noteq> '''' \<and> man_apps (tc_Manifest c) \<noteq> []
     \<and> kube_label (target_namespace c) \<and> target_namespace c \<noteq> SystemNamespace \<and> \<not> has_prefix (target_namespace c) ''kube-''
     \<and> prefixes_end (tc_Storage c)
     \<and> distinct (map app_name (man_apps (tc_Manifest c)))
     \<and> (\<forall>a\<in>set (man_apps (tc_Manifest c)). kube_label (app_name a) \<and> app_given c (storage_given c) (app_name a))"

definition translated :: "translate_config \<Rightarrow> template_data" where
  "translated c = \<lparr>td_Apps = map (given_entry c (storage_given c) \<circ> app_name) (man_apps (tc_Manifest c)), td_Namespace = target_namespace c,
     td_Deployment = man_name (tc_Manifest c), td_Instance = tc_Instance c, td_StorageServerName = tc_StorageServerName c,
     td_StorageCA = indentPEM (tc_StorageCAPEM c), td_HasStorage = storage_given c\<rparr>"

lemma translated_apps: "td_Apps (translated c) = map (given_entry c (storage_given c) \<circ> app_name) (man_apps (tc_Manifest c))"
  by (simp add: translated_def)

lemma translate_defaults_simps [simp]:
  "tc_Manifest (translate_defaults c) = tc_Manifest c" "tc_Images (translate_defaults c) = tc_Images c"
  "tc_Instance (translate_defaults c) = tc_Instance c" "tc_Storage (translate_defaults c) = tc_Storage c"
  "tc_StorageCAPEM (translate_defaults c) = tc_StorageCAPEM c" "tc_StorageServerName (translate_defaults c) = tc_StorageServerName c"
  "tc_Credentials (translate_defaults c) = tc_Credentials c"
  by (simp_all add: translate_defaults_def)

lemma given_defaults: "app_given (translate_defaults c) = app_given c" "given_entry (translate_defaults c) = given_entry c"
  by (simp_all add: fun_eq_iff app_given_def given_entry_def)

lemma render_data_Inr: "render_data c = Inr t \<longleftrightarrow> deployable c \<and> t = translated c"
proof -
  have f: "find (\<lambda>(_, st). ast_SecretsPrefix st \<noteq> '''' \<and> \<not> has_suffix (ast_SecretsPrefix st) ''/'') (tc_Storage c) = None
      \<longleftrightarrow> prefixes_end (tc_Storage c)"
    by (auto simp: find_None_iff prefixes_end_def)
  have e: "app_entries (translate_defaults c) (storage_given c) [] (man_apps (tc_Manifest c)) = Inr es \<longleftrightarrow>
      distinct (map app_name (man_apps (tc_Manifest c)))
      \<and> (\<forall>a\<in>set (man_apps (tc_Manifest c)). kube_label (app_name a) \<and> app_given c (storage_given c) (app_name a))
      \<and> es = td_Apps (translated c)" for es
    by (auto simp: app_entries_Inr given_defaults translated_def)
  show ?thesis
  proof (cases "app_entries (translate_defaults c) (storage_given c) [] (man_apps (tc_Manifest c))")
    case (Inl x)
    then have "\<not> deployable c" using e[of "td_Apps (translated c)"] by (simp add: deployable_def)
    moreover have "render_data c \<noteq> Inr t"
      using Inl by (simp add: render_data_def Let_def storage_given_def split: option.splits)
    ultimately show ?thesis by simp
  next
    case (Inr es)
    then have es: "es = td_Apps (translated c)" and "deployable c \<longleftrightarrow> man_name (tc_Manifest c) \<noteq> '''' \<and> man_apps (tc_Manifest c) \<noteq> []
        \<and> kube_label (target_namespace c) \<and> target_namespace c \<noteq> SystemNamespace \<and> \<not> has_prefix (target_namespace c) ''kube-''
        \<and> prefixes_end (tc_Storage c)"
      using e by (auto simp: deployable_def)
    then show ?thesis using Inr
      by (simp add: render_data_def Let_def f[symmetric] target_namespace_def storage_given_def translated_def
          validateName_None[symmetric] split: option.splits) auto
  qed
qed

text \<open>Without a CA certificate the storage map is looked at for its prefixes only.\<close>

lemma app_entries_unwired: "app_entries (c\<lparr>tc_Storage := storage\<rparr>) False seen as = app_entries c False seen as"
proof (induction as arbitrary: seen)
  case Nil
  show ?case by simp
next
  case (Cons a as)
  have "app_entry (c\<lparr>tc_Storage := storage\<rparr>) False (app_name a) = app_entry c False (app_name a)"
    by (simp add: app_entry_def Let_def)
  then show ?case by (simp only: app_entries.simps Cons.IH)
qed

lemma Render_unwired:
  assumes "tc_StorageCAPEM c = ''''" "prefixes_end storage"
  shows "Render (c\<lparr>tc_Storage := storage\<rparr>) = Render (c\<lparr>tc_Storage := []\<rparr>)"
proof -
  have d: "translate_defaults (c\<lparr>tc_Storage := s\<rparr>) = (translate_defaults c)\<lparr>tc_Storage := s\<rparr>" for s
    by (simp add: translate_defaults_def)
  have f: "find (\<lambda>(_, st). ast_SecretsPrefix st \<noteq> '''' \<and> \<not> has_suffix (ast_SecretsPrefix st) ''/'') storage = None"
    using assms(2) by (auto simp: find_None_iff prefixes_end_def)
  have "render_data (c\<lparr>tc_Storage := storage\<rparr>) = render_data (c\<lparr>tc_Storage := []\<rparr>)"
    using assms(1) f by (simp add: render_data_def Let_def d app_entries_unwired split: option.split sum.split)
  then show ?thesis by (simp add: Render_def)
qed

text \<open>
  C32. What is translated and what is refused. The translator succeeds exactly on a deployable
  configuration: a named manifest with applications, a namespace that is a label and is
  neither the system's nor a managed one, secrets prefixes that end at a segment, and for
  every application a label of its own, an image pinned by digest, an egress credential and,
  where storage is wired, its whole storage identity. Then the stream is one namespace and, per
  application in the order of the manifest, its secret, config map, deployment, service and
  network policy. Storage is wired by a map with entries and a CA certificate, and only then is
  a map refused that lacks one of the applications: without the certificate every map whose
  prefixes end at a segment, a partial one too, gives what the empty map gives, although the
  comment on the map says that a partial one is refused.
\<close>

theorem translates_exactly_what_is_deployable:
  "(Render c = Inr text \<longleftrightarrow> deployable c \<and> text = emit (namespace_doc (translated c)
     # concat (map (\<lambda>a. app_docs (translated c) (given_entry c (storage_given c) (app_name a))) (man_apps (tc_Manifest c)))))
   \<and> (Render c = Inr text \<and> tc_Storage c \<noteq> [] \<and> tc_StorageCAPEM c \<noteq> '''' \<longrightarrow>
        (\<forall>a\<in>set (man_apps (tc_Manifest c)). \<exists>st. map_of (tc_Storage c) (app_name a) = Some st \<and> storage_complete st))
   \<and> (tc_StorageCAPEM c = '''' \<and> prefixes_end storage \<longrightarrow> Render (c\<lparr>tc_Storage := storage\<rparr>) = Render (c\<lparr>tc_Storage := []\<rparr>))"
proof (intro conjI impI)
  have "workload_docs (translated c) = namespace_doc (translated c)
     # concat (map (\<lambda>a. app_docs (translated c) (given_entry c (storage_given c) (app_name a))) (man_apps (tc_Manifest c)))"
    by (simp add: workload_docs_def translated_apps comp_def)
  moreover have "Render c = Inr text \<longleftrightarrow> (\<exists>t. render_data c = Inr t \<and> text = emit (workload_docs t))"
    by (cases "render_data c") (auto simp: Render_def)
  ultimately show "Render c = Inr text \<longleftrightarrow> deployable c \<and> text = emit (namespace_doc (translated c)
     # concat (map (\<lambda>a. app_docs (translated c) (given_entry c (storage_given c) (app_name a))) (man_apps (tc_Manifest c))))"
    by (simp add: render_data_Inr)
next
  assume r: "Render c = Inr text \<and> tc_Storage c \<noteq> [] \<and> tc_StorageCAPEM c \<noteq> ''''"
  then have "deployable c" by (auto simp: Render_def render_data_Inr split: sum.splits)
  then have "\<forall>a\<in>set (man_apps (tc_Manifest c)). storage_complete (get_or no_storage (tc_Storage c) (app_name a))"
    using r by (simp add: deployable_def app_given_def storage_given_def)
  moreover have "\<not> storage_complete no_storage" by (simp add: storage_complete_def no_storage_def)
  ultimately show "\<forall>a\<in>set (man_apps (tc_Manifest c)). \<exists>st. map_of (tc_Storage c) (app_name a) = Some st \<and> storage_complete st"
    by (auto simp: get_or_def split: option.splits)
next
  assume "tc_StorageCAPEM c = '''' \<and> prefixes_end storage"
  then show "Render (c\<lparr>tc_Storage := storage\<rparr>) = Render (c\<lparr>tc_Storage := []\<rparr>)" by (simp add: Render_unwired)
qed

section \<open>What the kernel sees of it\<close>

text \<open>The text of a stream holds the consecutive lines of each of its documents.\<close>

lemma emit_lines:
  assumes "d \<in> set docs" "emit_fields 0 d = before @ ls @ after"
  shows "contains (emit docs) (concat (map (\<lambda>l. l @ [byte 10]) ls))"
proof -
  obtain pre post where "(case docs of [] \<Rightarrow> [] | d # ds \<Rightarrow> emit_fields 0 d @ concat (map (\<lambda>d. ''---'' # emit_fields 0 d) ds))
      = pre @ emit_fields 0 d @ post"
  proof (cases docs)
    case Nil
    then show ?thesis using assms(1) by simp
  next
    case (Cons e es)
    show ?thesis
    proof (cases "d = e")
      case True
      then show ?thesis using that[of "[]"] Cons by simp
    next
      case False
      then obtain us vs where "es = us @ d # vs" using Cons assms(1) split_list[of d es] by auto
      then show ?thesis using that[of "emit_fields 0 e @ concat (map (\<lambda>d. ''---'' # emit_fields 0 d) us) @ [''---'']"] Cons by simp
    qed
  qed
  then have "emit docs = concat (map (\<lambda>l. l @ [byte 10]) (pre @ before)) @ concat (map (\<lambda>l. l @ [byte 10]) ls)
      @ concat (map (\<lambda>l. l @ [byte 10]) (after @ post))"
    using assms(2) by (simp add: emit_def)
  then show ?thesis unfolding contains_iff by blast
qed

lemma emit_head:
  "emit_fields 0 [(''apiVersion'', Scalar v), (''kind'', Scalar k), (''metadata'', object_meta t name ls), x]
     = [''apiVersion: '' @ v] @ [''kind: '' @ k, ''metadata:'', ''  name: '' @ name]
       @ (emit_fields 2 [(''namespace'', Scalar (td_Namespace t)), (''labels'', scalars ls)] @ emit_fields 0 [x])"
  by (simp add: object_meta_def spaces_def numeral_2_eq_2)

lemma Of_tier_labels: "Of (tier_labels t a) = App_tier"
  by (simp add: Of_def Let_def tier_labels_def app_labels_def get_or_def tier_label_def app_tier_label_def name_label_def managed_label_def
      part_label_def)

text \<open>A deployment's selector takes the pods of its own template, and of no other application.\<close>

lemma selector_is_own: "Matches (Some [(name_label, n)]) (tier_labels t a) \<longleftrightarrow> ad_Name a = n"
  by (simp add: Matches_def tier_labels_def app_labels_def get_or_def)

section \<open>Names that are not strings\<close>

text \<open>Plain scalars that the YAML readers of Kubernetes do not take for a string.\<close>

definition yaml_keywords :: "string list" where
  "yaml_keywords = [''true'', ''false'', ''null'', ''yes'', ''no'', ''on'', ''off'', ''y'', ''n'']"

lemma keywords_are_labels: "list_all (\<lambda>k. dns_label k \<and> kube_label k) yaml_keywords"
  by code_simp

text \<open>
  C29. A name is written bare. The manifest and the translator accept as an application's name
  words that YAML reads as a boolean or null, and the stream then names the deployment by
  the bare word.
\<close>

theorem keyword_names_are_not_quoted:
  assumes "k \<in> set yaml_keywords"
  shows "dns_label k \<and> validateName k = None
    \<and> (\<forall>c stream x. Render c = Inr stream \<and> x \<in> set (man_apps (tc_Manifest c)) \<and> app_name x = k
         \<longrightarrow> contains stream (''kind: Deployment'' @ [byte 10] @ ''metadata:'' @ [byte 10] @ ''  name: '' @ k @ [byte 10]))"
proof -
  have k: "dns_label k" "kube_label k" using keywords_are_labels assms by (auto simp: list_all_iff)
  have "contains stream (''kind: Deployment'' @ [byte 10] @ ''metadata:'' @ [byte 10] @ ''  name: '' @ k @ [byte 10])"
    if r: "Render c = Inr stream" "x \<in> set (man_apps (tc_Manifest c))" "app_name x = k" for c stream x
  proof -
    obtain t where t: "render_data c = Inr t" "stream = emit (workload_docs t)" using r(1) by (cases "render_data c") (auto simp: Render_def)
    define e where "e = given_entry c (storage_given c) k"
    have "e \<in> set (td_Apps t)" using t(1) r(2,3) by (auto simp: render_data_Inr translated_apps e_def)
    then have "deployment_doc t e \<in> set (workload_docs t)" by (auto simp: workload_docs_def app_docs_def)
    then have "contains (emit (workload_docs t)) (concat (map (\<lambda>l. l @ [byte 10]) [''kind: Deployment'', ''metadata:'', ''  name: '' @ k]))"
    proof (rule emit_lines)
      have "ad_Name e = k" by (simp add: e_def given_entry_def)
      then show "emit_fields 0 (deployment_doc t e) = [''apiVersion: apps/v1''] @ [''kind: Deployment'', ''metadata:'', ''  name: '' @ k]
          @ (emit_fields 2 [(''namespace'', Scalar (td_Namespace t)), (''labels'', scalars (tier_labels t e))] @ emit_fields 0 [last (deployment_doc t e)])"
        unfolding deployment_doc_def using emit_head[of "''apps/v1''" "''Deployment''" t k "tier_labels t e"] by simp
    qed
    then show ?thesis using t(2) by simp
  qed
  then show ?thesis using k unfolding validateName_None by blast
qed

definition keyword_config :: translate_config where
  "keyword_config = \<lparr>tc_Manifest = demo_manifest\<lparr>man_apps := [\<lparr>app_name = ''true'', app_containerfile = ''C'', app_context = [], app_external = None\<rparr>]\<rparr>,
     tc_Namespace = ''main'', tc_Images = [(''true'', ''r/true@sha256:'' @ replicate 64 CHR ''d'')], tc_Instance = ''prod'', tc_Storage = [],
     tc_StorageCAPEM = '''', tc_StorageServerName = '''', tc_Credentials = [(''true'', ''c'')]\<rparr>"

lemma keyword_config_deployable: "deployable keyword_config"
proof -
  have "kube_label ''main''" "kube_label ''true''" "hasDigest (''r/true@sha256:'' @ replicate 64 CHR ''d'')" by code_simp+
  then show ?thesis
    by (simp add: hasDigest_pinned deployable_def prefixes_end_def keyword_config_def demo_manifest_def target_namespace_def translate_defaults_def SystemNamespace_def
        has_prefix_def has_suffix_def app_given_def storage_given_def get_or_def)
qed

text \<open>
  A map with an entry for another application: with a CA certificate the configuration is
  refused, and without one it deploys what it deploys with no map at all.
\<close>

definition partial_storage :: "(string \<times> app_storage) list" where
  "partial_storage = [(''other'', \<lparr>ast_CertPEM = ''C'', ast_KeyPEM = ''K'', ast_Scope = ''app-main-other'', ast_SecretsPrefix = ''app/main/other/secrets/''\<rparr>)]"

theorem translates_exactly_what_is_deployable_witness:
  "(\<exists>stream. Render keyword_config = Inr stream \<and> Render (keyword_config\<lparr>tc_Storage := partial_storage\<rparr>) = Inr stream)
   \<and> (\<forall>stream. Render (keyword_config\<lparr>tc_Storage := partial_storage, tc_StorageCAPEM := ''CA''\<rparr>) \<noteq> Inr stream)"
proof -
  note u = translates_exactly_what_is_deployable[of keyword_config _ partial_storage]
    and w = translates_exactly_what_is_deployable[of "keyword_config\<lparr>tc_Storage := partial_storage, tc_StorageCAPEM := ''CA''\<rparr>"]
  have p: "prefixes_end partial_storage" by (simp add: prefixes_end_def partial_storage_def has_suffix_def)
  have k: "keyword_config\<lparr>tc_Storage := []\<rparr> = keyword_config" "tc_StorageCAPEM keyword_config = ''''"
    "man_apps (tc_Manifest keyword_config) = [\<lparr>app_name = ''true'', app_containerfile = ''C'', app_context = [], app_external = None\<rparr>]"
    by (simp_all add: keyword_config_def)
  obtain stream where "Render keyword_config = Inr stream" using u keyword_config_deployable by blast
  moreover have "Render (keyword_config\<lparr>tc_Storage := partial_storage\<rparr>) = Render (keyword_config\<lparr>tc_Storage := []\<rparr>)"
    using u k(2) p by blast
  moreover have "map_of partial_storage ''true'' = None" by (simp add: partial_storage_def)
  then have "Render (keyword_config\<lparr>tc_Storage := partial_storage, tc_StorageCAPEM := ''CA''\<rparr>) \<noteq> Inr t" for t
    using w[of t] by (auto simp: k(3) partial_storage_def)
  ultimately show ?thesis using k(1) by simp
qed

theorem keyword_names_are_not_quoted_witness:
  "dns_label ''true'' \<and> validateName ''true'' = None
    \<and> (\<exists>stream. Render keyword_config = Inr stream
         \<and> contains stream (''kind: Deployment'' @ [byte 10] @ ''metadata:'' @ [byte 10] @ ''  name: '' @ ''true'' @ [byte 10]))"
proof -
  have "''true'' \<in> set yaml_keywords" by (simp add: yaml_keywords_def)
  note k = keyword_names_are_not_quoted[OF this]
  have r: "Render keyword_config = Inr (emit (workload_docs (translated keyword_config)))"
    using keyword_config_deployable by (simp add: Render_def render_data_Inr[THEN iffD2])
  have "\<lparr>app_name = ''true'', app_containerfile = ''C'', app_context = [], app_external = None\<rparr> \<in> set (man_apps (tc_Manifest keyword_config))"
    by (simp add: keyword_config_def)
  with k r show ?thesis by (metis app.select_convs(1))
qed

end
