(* ===== verification/Farcast_Run.thy ===== *)
theory Farcast_Run
  imports Translate Keyholder Egress_Proxy Kernel
begin

text \<open>
  \<open>farcast run\<close> (\<open>farsight/cli/internal/cli/run.go\<close>): what one deployment reads, asks, builds,
  writes and applies, in its order, with the manifest read it trusts
  (\<open>planck/fetch/report.go\<close>, \<open>runfetch.go\<close>) and the list of metered namespaces
  (\<open>kernelmeter.go\<close>). What the cluster, the operator, the disk and the certificate authority
  answer are records of answers. The theorems join the components: what run deploys is what
  FatLine identifies, the keyholder admits and the kernel can stop.
\<close>

section \<open>The manifest read\<close>

record fetch_report =
  fr_Commit :: string
  fr_ManifestDigest :: string

definition isHex :: "string \<Rightarrow> nat \<Rightarrow> bool" where
  "isHex s n \<longleftrightarrow> length s = n \<and> list_all lower_hex s"

text \<open>\<open>strings.Fields\<close>: the runs of runes that are no white space.\<close>

fun fields_loop :: "string \<Rightarrow> string list \<Rightarrow> string list" where
  "fields_loop word [] = (if word = '''' then [] else [word])"
| "fields_loop word (r # rs) =
     (if r \<in> set space_runes then (if word = '''' then fields_loop '''' rs else word # fields_loop '''' rs)
      else fields_loop (word @ r) rs)"

definition Fields :: "string \<Rightarrow> string list" where
  "Fields s = fields_loop '''' (runes s)"

lemma fields_word:
  "(\<forall>c\<in>set u. [c] \<notin> set space_runes) \<Longrightarrow> fields_loop w (map (\<lambda>c. [c]) u @ rs) = fields_loop (w @ u) rs"
  by (induction u arbitrary: w) auto

lemma Fields_two:
  assumes "\<forall>c\<in>set u \<union> set v. 32 < byte_val c \<and> byte_val c < 128" "u \<noteq> ''''" "v \<noteq> ''''"
  shows "Fields (u @ '' '' @ v) = [u, v]"
proof -
  have sp: "[c] \<notin> set space_runes" if "c \<in> set u \<union> set v" for c
    using space_runes_hd[of "[c]"] assms(1) that by force
  have "runes (u @ '' '' @ v) = map (\<lambda>c. [c]) u @ '' '' # (map (\<lambda>c. [c]) v @ [])"
    using assms(1) by (subst runes_ascii) (auto simp: byte_val_def)
  moreover have "'' '' \<in> set space_runes" by code_simp
  ultimately show ?thesis
    using assms(2,3) fields_word[of u "''''"] fields_word[of v "''''" "[]"] sp by (simp add: Fields_def)
qed

definition report_field :: "fetch_report \<Rightarrow> string \<Rightarrow> fetch_report" where
  "report_field r f =
     (case cut CHR ''='' f of
        None \<Rightarrow> r
      | Some (key, v) \<Rightarrow>
          if key = ''commit'' then r\<lparr>fr_Commit := v\<rparr>
          else if key = ''manifest'' then r\<lparr>fr_ManifestDigest := v\<rparr>
          else r)"

datatype fetch_error =
    Read_nothing
  | No_commit string
  | No_digest string
  | Malformed_digest string
  | Other_bytes string string
  | Fetch_unrendered
  | Fetch_unapplied
  | Fetch_unfinished
  | Fetch_says string
  | Fetch_failed
  | Log_unreadable

definition ParseReport :: "string \<Rightarrow> fetch_error + fetch_report" where
  "ParseReport msg0 =
     (let msg = trim_space msg0 in
      if msg = '''' then Inl Read_nothing
      else
        let r = foldl report_field \<lparr>fr_Commit = '''', fr_ManifestDigest = ''''\<rparr> (Fields msg) in
        if \<not> isHex (fr_Commit r) 40 \<and> \<not> isHex (fr_Commit r) 64 then Inl (No_commit msg)
        else case cut_prefix (fr_ManifestDigest r) ''sha256:'' of
          None \<Rightarrow> Inl (No_digest msg)
        | Some _ \<Rightarrow>
            if \<not> isHex (trim_prefix (fr_ManifestDigest r) ''sha256:'') 64 then Inl (Malformed_digest msg)
            else Inr r)"

definition Verify :: "(string \<Rightarrow> string) \<Rightarrow> fetch_report \<Rightarrow> string \<Rightarrow> fetch_error option" where
  "Verify sha r manifest =
     (let got = ''sha256:'' @ hex_encode (sha manifest) in
      if got \<noteq> fr_ManifestDigest r then Some (Other_bytes got (fr_ManifestDigest r)) else None)"

text \<open>What the cluster answers about the Job: whether it was applied, how it ended and its whole log.\<close>

record job_answer =
  ja_rendered :: bool
  ja_applied :: bool
  ja_wait :: "(bool \<times> string) option"
  ja_log :: "string option"

section \<open>Images\<close>

definition run_isSHA256 :: "string \<Rightarrow> bool" where
  "run_isSHA256 s = (case cut_prefix s ''sha256:'' of None \<Rightarrow> False | Some h \<Rightarrow> length h = 64 \<and> list_all lower_hex h)"

definition shortCommit :: "string \<Rightarrow> string" where
  "shortCommit commit = (if length commit > 12 then take 12 commit else commit)"

definition tag_rune :: "string \<Rightarrow> string" where
  "tag_rune r =
     (case r of
        [c] \<Rightarrow> if lower_az c \<or> upper_az c \<or> digit09 c \<or> c = CHR ''.'' \<or> c = CHR ''_'' \<or> c = CHR ''-'' then [c] else ''-''
      | _ \<Rightarrow> ''-'')"

definition imageTag :: "string \<Rightarrow> string" where
  "imageTag version =
     (let tag = concat (map tag_rune (runes version)) in
      if tag = '''' then ''unknown''
      else
        let tag = (if hd tag = CHR ''.'' \<or> hd tag = CHR ''-'' then CHR ''v'' # tag else tag) in
        if length tag > 128 then take 128 tag else tag)"

text \<open>\<open>strings.LastIndex\<close> is -1, below every position, where the character is absent.\<close>

definition pinByDigest :: "string \<Rightarrow> string \<Rightarrow> string" where
  "pinByDigest destination digest =
     (case last_index CHR '':'' destination of
        None \<Rightarrow> destination
      | Some i \<Rightarrow> (case last_index CHR ''/'' destination of
            None \<Rightarrow> take i destination
          | Some j \<Rightarrow> if i > j then take i destination else destination)) @ ''@'' @ digest"

definition destination_of :: "string \<Rightarrow> string \<Rightarrow> string \<Rightarrow> string \<Rightarrow> string" where
  "destination_of registry deployment app commit =
     registry @ ''/app/'' @ deployment @ ''/'' @ app @ '':'' @ imageTag (shortCommit commit)"

section \<open>The effects of a run\<close>

datatype save_fault = Not_locked | Not_there | Is_a_link | Keyring_changed | Not_written

datatype run_error =
    No_registry
  | Namespace_unusable name_fault
  | Namespace_managed
  | Namespace_of_system
  | No_toolchain
  | Not_read fetch_error
  | Manifest_invalid
  | Not_asked
  | Build_unrendered string
  | Build_unapplied string
  | Build_unfinished string
  | Build_failed string
  | Build_unpinned string string
  | Policy_unreadable read_error
  | No_credentials
  | Policy_unrendered
  | Policy_unapplied
  | Keyring_unread
  | Keyring_refused keyring_fault
  | Scope_unmintable string keyring_fault
  | Keyring_unsaved save_fault
  | Identity_unread
  | No_ca_key
  | No_scopes
  | No_identity string
  | Not_translated translate_error
  | Workloads_unapplied

datatype run_action =
    Fetch_started
  | Approved
  | Build_started string
  | Policy_written document
  | Keyring_saved string
  | Scopes_handed_over "string list"
  | Workloads_applied string
  | Meter_recorded "string list"
  | Meter_applied "string list" "string list"
  | Toolchain_recorded
  | Rollout_awaited string

section \<open>Reading the manifest\<close>

text \<open>The Job that reads the manifest is applied to the instance, which is the one write before the approval.\<close>

definition readManifest :: "(string \<Rightarrow> string) \<Rightarrow> job_answer \<Rightarrow> run_action list \<times> (fetch_error + string \<times> fetch_report)" where
  "readManifest sha j =
     (if \<not> ja_rendered j then ([], Inl Fetch_unrendered)
      else if \<not> ja_applied j then ([], Inl Fetch_unapplied)
      else ([Fetch_started], case ja_wait j of
        None \<Rightarrow> Inl Fetch_unfinished
      | Some (succeeded, message) \<Rightarrow>
          if \<not> succeeded then (if trim_space message \<noteq> '''' then Inl (Fetch_says (trim_space message)) else Inl Fetch_failed)
          else (case ParseReport message of
             Inl e \<Rightarrow> Inl e
           | Inr r \<Rightarrow>
               (case ja_log j of
                  None \<Rightarrow> Inl Log_unreadable
                | Some logs \<Rightarrow>
                    (case Verify sha r logs of
                       None \<Rightarrow> Inr (logs, r)
                     | Some e \<Rightarrow>
                         let trimmed = trim_suffix logs [byte 10] in
                         if Verify sha r trimmed = None then Inr (trimmed, r) else Inl e)))))"

section \<open>Building\<close>

text \<open>The Job of one build: its manifest rendered and applied, and how it ended.\<close>

type_synonym builds = "string \<Rightarrow> job_answer"

definition build_one :: "builds \<Rightarrow> string \<Rightarrow> string \<Rightarrow> string \<Rightarrow> string \<Rightarrow> run_action list \<times> (run_error + string)" where
  "build_one jobs registry deployment commit app =
     (let destination = destination_of registry deployment app commit; j = jobs app in
      if \<not> ja_rendered j then ([], Inl (Build_unrendered app))
      else if \<not> ja_applied j then ([], Inl (Build_unapplied app))
      else ([Build_started app],
        case ja_wait j of
          None \<Rightarrow> Inl (Build_unfinished app)
        | Some (succeeded, message) \<Rightarrow>
            if \<not> succeeded then Inl (Build_failed app)
            else
              let digest = trim_space message in
              if \<not> run_isSHA256 digest then Inl (Build_unpinned app digest)
              else Inr (pinByDigest destination digest)))"

fun buildAll :: "builds \<Rightarrow> string \<Rightarrow> string \<Rightarrow> string \<Rightarrow> (string \<times> string) list \<Rightarrow> app list
    \<Rightarrow> run_action list \<times> (run_error + (string \<times> string) list)" where
  "buildAll jobs registry deployment commit images [] = ([], Inr images)"
| "buildAll jobs registry deployment commit images (a # as) =
     (case build_one jobs registry deployment commit (app_name a) of
        (acts, Inl e) \<Rightarrow> (acts, Inl e)
      | (acts, Inr img) \<Rightarrow>
          (case buildAll jobs registry deployment commit (AList.update (app_name a) img images) as of
             (acts', r) \<Rightarrow> (acts @ acts', r)))"

section \<open>The keyring on disk\<close>

record keyring_path =
  kp_lockable :: bool
  kp_regular :: bool
  kp_bytes :: "string option"
  kp_writable :: bool

definition SaveInstanceKeyring :: "keyring_path \<Rightarrow> string \<Rightarrow> string \<Rightarrow> keyring_path \<times> save_fault option" where
  "SaveInstanceKeyring p expected data =
     (if \<not> kp_lockable p then (p, Some Not_locked)
      else case kp_bytes p of
        None \<Rightarrow> (p, Some Not_there)
      | Some current \<Rightarrow>
          if \<not> kp_regular p then (p, Some Is_a_link)
          else if current \<noteq> expected then (p, Some Keyring_changed)
          else if \<not> kp_writable p then (p, Some Not_written)
          else (p\<lparr>kp_bytes := Some data\<rparr>, None))"

record ensured =
  es_keys :: "string keyring"
  es_out :: "(string \<times> string scope) list"
  es_minted :: "string list"
  es_random :: string

text \<open>\<open>now\<close> gives the time each application's scope is minted at.\<close>

fun ensure_loop :: "string \<Rightarrow> (string \<Rightarrow> gotime) \<Rightarrow> app list \<Rightarrow> ensured \<Rightarrow> run_error + ensured" where
  "ensure_loop namespace now [] s = Inr s"
| "ensure_loop namespace now (a # as) s =
     (case AppScopeName namespace (app_name a) of
        Inl f \<Rightarrow> Inl (Keyring_refused f)
      | Inr name \<Rightarrow>
          (case ScopeNamed (es_keys s) name of
             Some existing \<Rightarrow> ensure_loop namespace now as (s\<lparr>es_out := AList.update (app_name a) existing (es_out s)\<rparr>)
           | None \<Rightarrow>
               (case NewAppScope namespace (app_name a) (now (app_name a)) (es_random s) of
                  Inl f \<Rightarrow> Inl (Keyring_refused f)
                | Inr (fresh, rnd) \<Rightarrow>
                    (case AddScope (es_keys s) fresh of
                       Inl f \<Rightarrow> Inl (Scope_unmintable (app_name a) f)
                     | Inr grown \<Rightarrow> ensure_loop namespace now as
                         \<lparr>es_keys = grown, es_out = AList.update (app_name a) fresh (es_out s), es_minted = es_minted s @ [app_name a],
                          es_random = rnd\<rparr>))))"

text \<open>\<open>path\<close> is the file when it is read, \<open>path'\<close> when it is written: another command may have come between.\<close>

definition ensureAppScopes ::
  "(keyring_file \<Rightarrow> string option) \<Rightarrow> (string \<Rightarrow> string + keyring_file) \<Rightarrow> keyring_path \<Rightarrow> keyring_path \<Rightarrow> string
    \<Rightarrow> (string \<Rightarrow> gotime) \<Rightarrow> string \<Rightarrow> manifest \<Rightarrow> keyring_path \<times> (run_error + (string \<times> string scope) list \<times> string list)" where
  "ensureAppScopes yaml unyaml path path' namespace now rnd m =
     (case kp_bytes path of
        None \<Rightarrow> (path', Inl Keyring_unread)
      | Some raw \<Rightarrow>
          (case ParseKeyring unyaml raw of
             Inl f \<Rightarrow> (path', Inl (Keyring_refused f))
           | Inr keys \<Rightarrow>
               (case ensure_loop namespace now (man_apps m) \<lparr>es_keys = keys, es_out = [], es_minted = [], es_random = rnd\<rparr> of
                  Inl e \<Rightarrow> (path', Inl e)
                | Inr s \<Rightarrow>
                    if es_minted s = [] then (path', Inr (es_out s, []))
                    else (case MarshalKeyring yaml (es_keys s) of
                       Inl f \<Rightarrow> (path', Inl (Keyring_refused f))
                     | Inr encoded \<Rightarrow>
                         (case SaveInstanceKeyring path' raw encoded of
                            (p, Some f) \<Rightarrow> (p, Inl (Keyring_unsaved f))
                          | (p, None) \<Rightarrow> (p, Inr (es_out s, es_minted s)))))))"

section \<open>Wiring storage\<close>

record mtls =
  mt_CACert :: string
  mt_CAKey :: string

text \<open>\<open>issue\<close> is the certificate authority: a CA and a URI to a leaf and its key, or a refusal.\<close>

type_synonym leaf_authority = "string \<Rightarrow> string \<Rightarrow> string \<Rightarrow> (string \<times> string) option"

definition IssueAppClient :: "leaf_authority \<Rightarrow> string \<Rightarrow> string \<Rightarrow> string \<Rightarrow> string \<Rightarrow> string \<Rightarrow> (string \<times> string) option" where
  "IssueAppClient issue ca key instance' namespace app =
     (if instance' = '''' \<or> namespace = '''' \<or> app = '''' then None else issue ca key (AppURI instance' namespace app))"

definition KeyholderServerName :: "string \<Rightarrow> string" where
  "KeyholderServerName instance' = instance' @ ''.datasphered.farcast''"

fun wire_storage :: "leaf_authority \<Rightarrow> mtls \<Rightarrow> string \<Rightarrow> string \<Rightarrow> (string \<times> string scope) list \<Rightarrow> app list
    \<Rightarrow> (string \<times> app_storage) list \<Rightarrow> run_error + (string \<times> app_storage) list" where
  "wire_storage issue mt instance' namespace scopes [] out = Inr out"
| "wire_storage issue mt instance' namespace scopes (a # as) out =
     (case IssueAppClient issue (mt_CACert mt) (mt_CAKey mt) instance' namespace (app_name a) of
        None \<Rightarrow> Inl (No_identity (app_name a))
      | Some (cert, key) \<Rightarrow>
          wire_storage issue mt instance' namespace scopes as
            (AList.update (app_name a)
              \<lparr>ast_CertPEM = cert, ast_KeyPEM = key,
               ast_Scope = (case map_of scopes (app_name a) of None \<Rightarrow> '''' | Some s \<Rightarrow> sc_Name s),
               ast_SecretsPrefix = AppSecretsPrefix namespace (app_name a)\<rparr> out))"

definition plain_config :: "string \<Rightarrow> string \<Rightarrow> manifest \<Rightarrow> (string \<times> string) list \<Rightarrow> (string \<times> string) list \<Rightarrow> translate_config" where
  "plain_config instance' namespace m images credentials =
     \<lparr>tc_Manifest = m, tc_Namespace = namespace, tc_Images = images, tc_Instance = instance', tc_Storage = [],
      tc_StorageCAPEM = '''', tc_StorageServerName = '''', tc_Credentials = credentials\<rparr>"

text \<open>\<open>translate\<close>: the configuration it hands to the translator. \<open>mt\<close> is the identity read from disk.\<close>

definition run_config :: "leaf_authority \<Rightarrow> mtls option \<Rightarrow> bool \<Rightarrow> string \<Rightarrow> string \<Rightarrow> manifest \<Rightarrow> (string \<times> string) list
    \<Rightarrow> (string \<times> string) list \<Rightarrow> (string \<times> string scope) list \<Rightarrow> run_error + translate_config" where
  "run_config issue mt keyholder instance' namespace m images credentials scopes =
     (let cfg = plain_config instance' namespace m images credentials in
      if \<not> keyholder then Inr cfg
      else case mt of
        None \<Rightarrow> Inl Identity_unread
      | Some mt \<Rightarrow>
          if mt_CAKey mt = '''' then Inl No_ca_key
          else if scopes = [] then Inl No_scopes
          else (case wire_storage issue mt instance' namespace scopes (man_apps m) [] of
             Inl e \<Rightarrow> Inl e
           | Inr storage \<Rightarrow> Inr (cfg\<lparr>tc_StorageCAPEM := mt_CACert mt, tc_StorageServerName := KeyholderServerName instance', tc_Storage := storage\<rparr>)))"

definition run_translate :: "leaf_authority \<Rightarrow> mtls option \<Rightarrow> bool \<Rightarrow> string \<Rightarrow> string \<Rightarrow> manifest \<Rightarrow> (string \<times> string) list
    \<Rightarrow> (string \<times> string) list \<Rightarrow> (string \<times> string scope) list \<Rightarrow> run_error + string" where
  "run_translate issue mt keyholder instance' namespace m images credentials scopes =
     (case run_config issue mt keyholder instance' namespace m images credentials scopes of
        Inl e \<Rightarrow> Inl e
      | Inr cfg \<Rightarrow> (case Render cfg of Inl e \<Rightarrow> Inl (Not_translated e) | Inr out \<Rightarrow> Inr out))"

section \<open>Metering\<close>

fun meter_change :: "bool \<Rightarrow> string set \<Rightarrow> string list \<Rightarrow> string list \<Rightarrow> string set \<times> string list" where
  "meter_change remove ns added [] = (ns, added)"
| "meter_change remove ns added (r # rs) =
     (if remove then meter_change remove (ns - {r}) added rs
      else meter_change remove (insert r ns) (if r \<in> ns then added else added @ [r]) rs)"

definition applyMeterChange :: "string list \<Rightarrow> string list \<Rightarrow> bool \<Rightarrow> string list \<times> string list" where
  "applyMeterChange current requested remove =
     (case meter_change remove (set current) [] requested of
        (ns, added) \<Rightarrow> (sorted_list_of_set ns, sort added))"

definition removedFrom :: "string list \<Rightarrow> string list \<Rightarrow> string list" where
  "removedFrom before after = sort (filter (\<lambda>ns. ns \<notin> set after) before)"

definition sameSet :: "string list \<Rightarrow> string list \<Rightarrow> bool" where
  "sameSet a b \<longleftrightarrow> length a = length b \<and> list_all (\<lambda>s. s \<in> set a) b"

definition validNamespace :: "string \<Rightarrow> run_error option" where
  "validNamespace s =
     (if s = '''' then Some (Namespace_unusable Name_empty)
      else if length s > 63 then Some (Namespace_unusable Name_long)
      else if has_prefix s ''kube-'' then Some Namespace_managed
      else if list_all (label_at s) [0..<length s] then None
      else Some (Namespace_unusable Not_a_label))"

datatype meter_error = No_kernel | Meter_unrendered | Meter_unrecorded | Meter_unapplied | Meter_not_rolled_back

text \<open>
  \<open>meter\<close>: the namespaces that local state records as metered, and what became of them.
  \<open>saves\<close> answers the first write of local state and the write that takes it back.
\<close>

record meter_answer =
  ma_rendered :: bool
  ma_saved :: bool
  ma_applied :: bool
  ma_restored :: bool

definition run_meter :: "meter_answer \<Rightarrow> string list option \<Rightarrow> string \<Rightarrow> run_action list \<times> string list option \<times> (meter_error + bool)" where
  "run_meter ma metered namespace =
     (case metered of
        None \<Rightarrow> ([], metered, Inl No_kernel)
      | Some previous \<Rightarrow>
          (case applyMeterChange previous [namespace] False of
             (next', added) \<Rightarrow>
               if added = [] then ([], metered, Inr True)
               else if \<not> ma_rendered ma then ([], metered, Inl Meter_unrendered)
               else if \<not> ma_saved ma then ([], Some next', Inl Meter_unrecorded)
               else if ma_applied ma then ([Meter_recorded next', Meter_applied next' added], Some next', Inr True)
               else if ma_restored ma then ([Meter_recorded next', Meter_recorded previous], Some previous, Inl Meter_unapplied)
               else ([Meter_recorded next'], Some previous, Inl Meter_not_rolled_back)))"

section \<open>The command\<close>

record instance_meta =
  im_Name :: string
  im_Prefix :: "string option"
  im_Keyholder :: bool
  im_Kernel :: "string list option"

text \<open>Everything the command is answered while it runs.\<close>

record run_env =
  re_Toolchain :: bool
  re_Fetch :: job_answer
  re_Parse :: "string \<Rightarrow> manifest option"
  re_Confirm :: "bool option"
  re_Builds :: builds
  re_Policy :: "string \<times> bool \<times> bool"
  re_Json :: "string \<Rightarrow> document option"
  re_Credentials :: "string list option"
  re_PolicyRendered :: bool
  re_PolicyApplied :: bool
  re_Path :: keyring_path
  re_Path' :: keyring_path
  re_Yaml :: "keyring_file \<Rightarrow> string option"
  re_Unyaml :: "string \<Rightarrow> string + keyring_file"
  re_Clock :: "string \<Rightarrow> gotime"
  re_Random :: string
  re_Issue :: leaf_authority
  re_MTLS :: "mtls option"
  re_WorkloadsApplied :: bool
  re_Meter :: meter_answer

text \<open>The namespace given on the command line is checked before anything is read.\<close>

definition check_flag :: "string \<Rightarrow> run_error option" where
  "check_flag flag =
     (if flag = '''' then None
      else case validNamespace flag of
        Some e \<Rightarrow> Some e
      | None \<Rightarrow> if flag = SystemNamespace then Some Namespace_of_system else None)"

text \<open>From the approved manifest on: build, policy, scopes, workloads, metering and the wait.\<close>

definition run_wait :: "run_env \<Rightarrow> instance_meta \<Rightarrow> string \<Rightarrow> manifest \<Rightarrow> run_action list" where
  "run_wait re im namespace m =
     (case run_meter (re_Meter re) (im_Kernel im) namespace of
        (acts, _, _) \<Rightarrow> acts @ [Toolchain_recorded] @ map (Rollout_awaited \<circ> app_name) (man_apps m))"

definition run_scopes :: "run_env \<Rightarrow> instance_meta \<Rightarrow> string \<Rightarrow> manifest
    \<Rightarrow> run_action list \<times> (run_error + (string \<times> string scope) list \<times> string list)" where
  "run_scopes re im namespace m =
     (if \<not> im_Keyholder im then ([], Inr ([], []))
      else case ensureAppScopes (re_Yaml re) (re_Unyaml re) (re_Path re) (re_Path' re) namespace (re_Clock re) (re_Random re) m of
        (p, Inl e) \<Rightarrow> ([], Inl e)
      | (p, Inr (scopes, minted)) \<Rightarrow>
          ((if minted = [] then [] else [Keyring_saved (case kp_bytes p of Some b \<Rightarrow> b | None \<Rightarrow> '''')]), Inr (scopes, minted)))"

definition run_deploy :: "(string \<Rightarrow> string) \<Rightarrow> run_env \<Rightarrow> instance_meta \<Rightarrow> string \<Rightarrow> manifest \<Rightarrow> (string \<times> string) list
    \<Rightarrow> run_action list \<times> run_error option" where
  "run_deploy sha re im namespace m images =
     (case readEgressPolicy (re_Json re) (re_Policy re) of
        Inl e \<Rightarrow> ([], Some (Policy_unreadable e))
      | Inr existing \<Rightarrow>
          (case re_Credentials re of
             None \<Rightarrow> ([], Some No_credentials)
           | Some creds \<Rightarrow>
               (case egressPolicy sha existing namespace m creds of
                  (doc, credentials) \<Rightarrow>
                    if \<not> re_PolicyRendered re then ([], Some Policy_unrendered)
                    else if \<not> re_PolicyApplied re then ([], Some Policy_unapplied)
                    else (case run_scopes re im namespace m of
                       (saved, Inl e) \<Rightarrow> ([Policy_written doc] @ saved, Some e)
                     | (saved, Inr (scopes, minted)) \<Rightarrow>
                         (case run_translate (re_Issue re) (re_MTLS re) (im_Keyholder im) (im_Name im) namespace m images credentials scopes of
                            Inl e \<Rightarrow> ([Policy_written doc] @ saved, Some e)
                          | Inr workloads \<Rightarrow>
                              let acts = [Policy_written doc] @ saved @ (if minted = [] then [] else [Scopes_handed_over minted]) in
                              if \<not> re_WorkloadsApplied re then (acts, Some Workloads_unapplied)
                              else (acts @ [Workloads_applied workloads] @ run_wait re im namespace m, None))))))"

definition run_Run :: "(string \<Rightarrow> string) \<Rightarrow> run_env \<Rightarrow> instance_meta \<Rightarrow> string \<Rightarrow> run_action list \<times> run_error option" where
  "run_Run sha re im flag =
     (case im_Prefix im of
        None \<Rightarrow> ([], Some No_registry)
      | Some registry \<Rightarrow>
          if registry = '''' then ([], Some No_registry)
          else case check_flag flag of
            Some e \<Rightarrow> ([], Some e)
          | None \<Rightarrow>
              if \<not> re_Toolchain re then ([], Some No_toolchain)
              else (case readManifest sha (re_Fetch re) of
                 (fetched, Inl e) \<Rightarrow> (fetched, Some (Not_read e))
               | (fetched, Inr (raw, report)) \<Rightarrow>
                   (case re_Parse re raw of
                      None \<Rightarrow> (fetched, Some Manifest_invalid)
                    | Some m \<Rightarrow>
                        let namespace = (if flag = '''' then man_name m else flag) in
                        (case re_Confirm re of
                           None \<Rightarrow> (fetched, Some Not_asked)
                         | Some False \<Rightarrow> (fetched, None)
                         | Some True \<Rightarrow>
                             (case buildAll (re_Builds re) registry (man_name m) (fr_Commit report) [] (man_apps m) of
                                (built, Inl e) \<Rightarrow> (fetched @ [Approved] @ built, Some e)
                              | (built, Inr images) \<Rightarrow>
                                  (case run_deploy sha re im namespace m images of
                                     (acts, e) \<Rightarrow> (fetched @ [Approved] @ built @ acts, e)))))))"

section \<open>What is approved is what was read\<close>

lemma ParseReport_Inr:
  "ParseReport msg = Inr r \<Longrightarrow>
     (isHex (fr_Commit r) 40 \<or> isHex (fr_Commit r) 64) \<and> (\<exists>h. isHex h 64 \<and> fr_ManifestDigest r = ''sha256:'' @ h)"
  by (auto simp: ParseReport_def Let_def trim_prefix_def cut_prefix_def has_prefix_iff split: if_splits option.splits)

lemma Verify_None: "Verify sha r manifest = None \<longleftrightarrow> fr_ManifestDigest r = ''sha256:'' @ hex_encode (sha manifest)"
  by (auto simp: Verify_def Let_def)

lemma readManifest_acts: "set (fst (readManifest sha j)) \<subseteq> {Fetch_started}"
  by (simp add: readManifest_def)

lemma readManifest_Inr:
  assumes "readManifest sha j = (acts, Inr (raw, r))"
  shows "acts = [Fetch_started] \<and> (\<exists>message logs. ja_wait j = Some (True, message) \<and> ParseReport message = Inr r \<and> ja_log j = Some logs
       \<and> (raw = logs \<or> logs = raw @ [byte 10]))
    \<and> (isHex (fr_Commit r) 40 \<or> isHex (fr_Commit r) 64) \<and> fr_ManifestDigest r = ''sha256:'' @ hex_encode (sha raw)"
proof -
  obtain message logs where m: "ja_wait j = Some (True, message)" "ParseReport message = Inr r" "ja_log j = Some logs"
    "Verify sha r logs = None \<and> raw = logs
       \<or> Verify sha r (trim_suffix logs [byte 10]) = None \<and> raw = trim_suffix logs [byte 10]"
    using assms by (auto simp: readManifest_def Let_def split: if_splits option.splits sum.splits)
  have "acts = [Fetch_started]" using assms by (auto simp: readManifest_def split: if_splits)
  moreover have "raw = logs \<or> logs = raw @ [byte 10]" using m(4) by (auto simp: trim_suffix_def has_suffix_iff split: if_splits)
  ultimately show ?thesis using m ParseReport_Inr[OF m(2)] by (auto simp: Verify_None)
qed

section \<open>The order of a run\<close>

lemma run_config_Inr:
  "run_config issue mt keyholder inst ns m images credentials scopes = Inr cfg \<Longrightarrow>
     tc_Manifest cfg = m \<and> tc_Images cfg = images \<and> tc_Namespace cfg = ns \<and> tc_Credentials cfg = credentials \<and> tc_Instance cfg = inst"
  by (auto simp: run_config_def plain_config_def Let_def split: if_splits option.splits sum.splits)

lemma run_translate_Inr:
  "run_translate issue mt keyholder inst ns m images credentials scopes = Inr w \<Longrightarrow>
     \<exists>cfg. run_config issue mt keyholder inst ns m images credentials scopes = Inr cfg \<and> tc_Manifest cfg = m \<and> tc_Images cfg = images
       \<and> Render cfg = Inr w"
  using run_config_Inr by (fastforce simp: run_translate_def split: sum.splits)

lemma build_one_Inr:
  assumes "build_one jobs registry deployment commit app = (acts, Inr img)"
  shows "acts = [Build_started app]
    \<and> (\<exists>digest. run_isSHA256 digest \<and> img = pinByDigest (destination_of registry deployment app commit) digest)"
  using assms by (auto simp: build_one_def Let_def split: if_splits option.splits)

lemma buildAll_Inr:
  assumes "buildAll jobs registry deployment commit images as = (acts, Inr images')"
  shows "acts = map (Build_started \<circ> app_name) as
    \<and> (\<forall>a\<in>set as. \<exists>digest. run_isSHA256 digest
        \<and> map_of images' (app_name a) = Some (pinByDigest (destination_of registry deployment (app_name a) commit) digest))
    \<and> (\<forall>n. n \<notin> app_name ` set as \<longrightarrow> map_of images' n = map_of images n)"
  using assms
proof (induction as arbitrary: images acts)
  case Nil
  then show ?case by simp
next
  case (Cons a as)
  obtain acts1 img acts2 where b: "build_one jobs registry deployment commit (app_name a) = (acts1, Inr img)"
    "buildAll jobs registry deployment commit (AList.update (app_name a) img images) as = (acts2, Inr images')" "acts = acts1 @ acts2"
    using Cons.prems by (auto split: prod.splits sum.splits)
  note i = Cons.IH[OF b(2)] and o = build_one_Inr[OF b(1)]
  have "map_of images' (app_name a) = Some img" if "app_name a \<notin> app_name ` set as" using i that by (simp add: update_conv')
  then show ?case using i o b(3) by (cases "app_name a \<in> app_name ` set as") (auto simp: update_conv' image_iff)
qed

lemma build_one_acts: "set (fst (build_one jobs registry deployment commit app)) \<subseteq> range Build_started"
  by (auto simp: build_one_def Let_def split: option.splits)

lemma buildAll_acts:
  "set (fst (buildAll jobs registry deployment commit images as)) \<subseteq> range Build_started"
proof (induction as arbitrary: images)
  case (Cons a as)
  obtain acts r where b: "build_one jobs registry deployment commit (app_name a) = (acts, r)" by fastforce
  then have "set acts \<subseteq> range Build_started" using build_one_acts[of jobs registry deployment commit "app_name a"] by simp
  then show ?case
    using b Cons.IH[of "AList.update (app_name a) (projr r) images"] by (cases r; cases "buildAll jobs registry deployment commit (AList.update (app_name a) (projr r) images) as") auto
qed simp

lemma run_meter_acts: "set (fst (run_meter ma k ns)) \<subseteq> range Meter_recorded \<union> {a. \<exists>x y. a = Meter_applied x y}"
  by (auto simp: run_meter_def split: option.splits prod.splits if_splits)

lemma run_scopes_Inr:
  assumes "run_scopes re im ns m = (acts, Inr (scopes, minted))"
  shows "(im_Keyholder im \<longrightarrow> (\<exists>p. ensureAppScopes (re_Yaml re) (re_Unyaml re) (re_Path re) (re_Path' re) ns (re_Clock re) (re_Random re) m
        = (p, Inr (scopes, minted)) \<and> (minted \<noteq> [] \<longrightarrow> acts = [Keyring_saved (case kp_bytes p of Some b \<Rightarrow> b | None \<Rightarrow> '''')])))
    \<and> (\<not> im_Keyholder im \<longrightarrow> acts = [] \<and> minted = []) \<and> (minted = [] \<longrightarrow> acts = [])"
  using assms by (auto simp: run_scopes_def split: if_splits prod.splits sum.splits)

text \<open>A deployment that went through: what it did, and in which order.\<close>

lemma run_deploy_applied:
  assumes "run_deploy sha re im ns m images = (acts, e)" "Workloads_applied w \<in> set acts"
  obtains d creds saved scopes minted where
    "readEgressPolicy (re_Json re) (re_Policy re) = Inr d" "re_Credentials re = Some creds"
    "run_scopes re im ns m = (saved, Inr (scopes, minted))"
    "run_translate (re_Issue re) (re_MTLS re) (im_Keyholder im) (im_Name im) ns m images (snd (egressPolicy sha d ns m creds)) scopes = Inr w"
    "acts = [Policy_written (fst (egressPolicy sha d ns m creds))] @ saved @ (if minted = [] then [] else [Scopes_handed_over minted])
       @ [Workloads_applied w] @ run_wait re im ns m" "e = None"
proof -
  have s: "Workloads_applied w \<notin> set saved" if "run_scopes re im ns m = (saved, x)" for saved x
    using that by (auto simp: run_scopes_def split: if_splits prod.splits sum.splits)
  have n: "Workloads_applied w \<notin> set (run_wait re im ns m)"
    using run_meter_acts[of "re_Meter re" "im_Kernel im" ns]
    by (cases "run_meter (re_Meter re) (im_Kernel im) ns") (auto simp: run_wait_def)
  obtain d creds where dc: "readEgressPolicy (re_Json re) (re_Policy re) = Inr d" "re_Credentials re = Some creds"
    using assms by (auto simp: run_deploy_def split: sum.splits option.splits)
  obtain doc credentials where p: "egressPolicy sha d ns m creds = (doc, credentials)" by fastforce
  obtain saved scopes minted where sc: "run_scopes re im ns m = (saved, Inr (scopes, minted))"
    using assms dc p s by (auto simp: run_deploy_def split: sum.splits if_splits prod.splits)
  obtain w' where w': "run_translate (re_Issue re) (re_MTLS re) (im_Keyholder im) (im_Name im) ns m images credentials scopes = Inr w'"
    using assms dc p sc s[OF sc] by (auto simp: run_deploy_def split: sum.splits if_splits)
  show thesis
    by (rule that[OF dc sc]) (use assms dc p sc w' s[OF sc] n in \<open>auto simp: run_deploy_def Let_def split: if_splits\<close>)
qed

text \<open>A run up to the approval.\<close>

lemma run_Run_applied:
  assumes "Workloads_applied w \<in> set (fst (run_Run sha re im flag))"
  obtains registry raw report m where "im_Prefix im = Some registry" "registry \<noteq> ''''" "check_flag flag = None" "re_Toolchain re"
      "readManifest sha (re_Fetch re) = ([Fetch_started], Inr (raw, report))" "re_Parse re raw = Some m" "re_Confirm re = Some True"
proof -
  obtain fetched r where f: "readManifest sha (re_Fetch re) = (fetched, r)" by fastforce
  have "Workloads_applied w \<notin> set fetched" using readManifest_acts[of sha "re_Fetch re"] f by auto
  then obtain registry raw report m where g: "im_Prefix im = Some registry" "registry \<noteq> ''''" "check_flag flag = None" "re_Toolchain re"
      "r = Inr (raw, report)" "re_Parse re raw = Some m" "re_Confirm re = Some True"
    using assms f by (auto simp: run_Run_def Let_def split: option.splits if_splits sum.splits bool.splits)
  then have "fetched = [Fetch_started]" using readManifest_Inr f by blast
  then show thesis using that g f by blast
qed

lemma run_deploy_acts: "run_deploy sha re im ns m images = (acts, e) \<Longrightarrow> Fetch_started \<notin> set acts"
proof -
  assume a: "run_deploy sha re im ns m images = (acts, e)"
  have s: "Fetch_started \<notin> set saved" if "run_scopes re im ns m = (saved, x)" for saved x
    using that by (auto simp: run_scopes_def split: if_splits prod.splits sum.splits)
  have n: "Fetch_started \<notin> set (run_wait re im ns m)"
    using run_meter_acts[of "re_Meter re" "im_Kernel im" ns]
    by (cases "run_meter (re_Meter re) (im_Kernel im) ns") (auto simp: run_wait_def)
  show ?thesis using s n a by (auto simp: run_deploy_def Let_def split: sum.splits option.splits prod.splits if_splits)
qed

lemma run_Run_shape:
  "fst (run_Run sha re im flag) \<in> {[], [Fetch_started]}
   \<or> (\<exists>later. fst (run_Run sha re im flag) = [Fetch_started, Approved] @ later \<and> Fetch_started \<notin> set later \<and> re_Confirm re = Some True)"
proof -
  obtain fetched r where f: "readManifest sha (re_Fetch re) = (fetched, r)" by fastforce
  have e: "fetched \<in> {[], [Fetch_started]}" using f by (auto simp: readManifest_def split: if_splits)
  show ?thesis
  proof (cases "\<exists>registry raw report m. im_Prefix im = Some registry \<and> registry \<noteq> '''' \<and> check_flag flag = None \<and> re_Toolchain re
      \<and> r = Inr (raw, report) \<and> re_Parse re raw = Some m \<and> re_Confirm re = Some True")
    case False
    then show ?thesis using e f by (auto simp: run_Run_def Let_def split: option.splits if_splits sum.splits bool.splits)
  next
    case True
    then obtain registry raw report m where g: "im_Prefix im = Some registry" "registry \<noteq> ''''" "check_flag flag = None" "re_Toolchain re"
      "r = Inr (raw, report)" "re_Parse re raw = Some m" "re_Confirm re = Some True" by blast
    have "fetched = [Fetch_started]" using readManifest_Inr f g(5) by blast
    moreover obtain built b where b: "buildAll (re_Builds re) registry (man_name m) (fr_Commit report) [] (man_apps m) = (built, b)" by fastforce
    moreover have "Fetch_started \<notin> set built"
      using buildAll_acts[of "re_Builds re" registry "man_name m" "fr_Commit report" "[]" "man_apps m"] b by auto
    ultimately show ?thesis using f g
      by (cases b) (auto simp: run_Run_def Let_def split: prod.split dest: run_deploy_acts)
  qed
qed


section \<open>Scopes that are minted are recorded\<close>

text \<open>What the loop keeps: only scopes are added, each application has one of its own name, and a minted one its own prefix.\<close>

definition ensured_ok :: "string \<Rightarrow> string keyring \<Rightarrow> ensured \<Rightarrow> bool" where
  "ensured_ok namespace k0 s \<longleftrightarrow>
     (\<exists>fresh. es_keys s = k0\<lparr>kr_scopes := kr_scopes k0 @ fresh\<rparr> \<and> length fresh = length (es_minted s)
        \<and> list_all2 (\<lambda>f n. AppScopeName namespace n = Inr (sc_Name f) \<and> sc_Prefix f = AppScopePrefix namespace n) fresh (es_minted s))
     \<and> (\<forall>(n, s')\<in>set (es_out s). AppScopeName namespace n = Inr (sc_Name s') \<and> s' \<in> set (kr_scopes (es_keys s)))"

lemma NewAppScope_Inr:
  assumes "NewAppScope namespace app now rnd = Inr (s, rnd')"
  shows "AppScopeName namespace app = Inr (sc_Name s) \<and> sc_Prefix s = AppScopePrefix namespace app"
  using assms by (auto simp: NewAppScope_def NewScope_def split: sum.splits option.splits if_splits)

lemma AddScope_Inr: "AddScope k s = Inr k' \<Longrightarrow> k' = k\<lparr>kr_scopes := kr_scopes k @ [s]\<rparr>"
  by (auto simp: AddScope_def split: option.splits)

lemma set_update: "set (AList.update k v m) \<subseteq> insert (k, v) (set m)"
  by (induction m) auto

lemma ensure_loop_Inr:
  assumes "ensure_loop namespace now as s = Inr s'" "ensured_ok namespace k0 s"
  shows "ensured_ok namespace k0 s' \<and> fst ` set (es_out s') = fst ` set (es_out s) \<union> app_name ` set as"
  using assms
proof (induction as arbitrary: s)
  case Nil
  then show ?case by simp
next
  case (Cons a as)
  obtain name where n: "AppScopeName namespace (app_name a) = Inr name" using Cons.prems(1) by (auto split: sum.splits)
  have keys: "fst ` set (AList.update (app_name a) v m) = insert (app_name a) (fst ` set m)" for v and m :: "(string \<times> string scope) list"
    using dom_update[of "app_name a" v m] by (simp add: dom_map_of_conv_image_fst)
  show ?case
  proof (cases "ScopeNamed (es_keys s) name")
    case (Some e)
    have e: "sc_Name e = name" "e \<in> set (kr_scopes (es_keys s))" using Some by (auto simp: ScopeNamed_def find_Some_iff)
    have "ensured_ok namespace k0 (s\<lparr>es_out := AList.update (app_name a) e (es_out s)\<rparr>)"
      using Cons.prems(2) n e set_update[of "app_name a" e "es_out s"] by (fastforce simp: ensured_ok_def)
    then show ?thesis using Cons.IH[of "s\<lparr>es_out := AList.update (app_name a) e (es_out s)\<rparr>"] Cons.prems(1) n Some keys by auto
  next
    case None
    then obtain f rnd grown where f: "NewAppScope namespace (app_name a) (now (app_name a)) (es_random s) = Inr (f, rnd)"
      "AddScope (es_keys s) f = Inr grown"
      using Cons.prems(1) n by (auto split: sum.splits prod.splits)
    define s1 where "s1 = \<lparr>es_keys = grown, es_out = AList.update (app_name a) f (es_out s), es_minted = es_minted s @ [app_name a], es_random = rnd\<rparr>"
    note g = AddScope_Inr[OF f(2)] and p = NewAppScope_Inr[OF f(1)]
    obtain fresh where fr: "es_keys s = k0\<lparr>kr_scopes := kr_scopes k0 @ fresh\<rparr>" "length fresh = length (es_minted s)"
      "list_all2 (\<lambda>f n. AppScopeName namespace n = Inr (sc_Name f) \<and> sc_Prefix f = AppScopePrefix namespace n) fresh (es_minted s)"
      using Cons.prems(2) by (auto simp: ensured_ok_def)
    have "ensured_ok namespace k0 s1"
      unfolding ensured_ok_def
    proof (intro conjI exI[of _ "fresh @ [f]"])
      show "\<forall>(n, s')\<in>set (es_out s1). AppScopeName namespace n = Inr (sc_Name s') \<and> s' \<in> set (kr_scopes (es_keys s1))"
        using Cons.prems(2) p g set_update[of "app_name a" f "es_out s"] by (fastforce simp: ensured_ok_def s1_def)
    qed (use fr p g in \<open>auto simp: s1_def list_all2_appendI\<close>)
    then show ?thesis using Cons.IH[of s1] Cons.prems(1) n None f keys by (auto simp: s1_def)
  qed
qed

lemma ensureAppScopes_Inr:
  assumes "ensureAppScopes yaml unyaml path path' namespace now rnd m = (p, Inr (scopes, minted))"
  shows "\<exists>raw keys fresh. kp_bytes path = Some raw \<and> ParseKeyring unyaml raw = Inr keys
          \<and> fst ` set scopes = app_name ` set (man_apps m)
          \<and> (\<forall>(n, s)\<in>set scopes. AppScopeName namespace n = Inr (sc_Name s) \<and> s \<in> set (kr_scopes keys @ fresh))
          \<and> list_all2 (\<lambda>f n. AppScopeName namespace n = Inr (sc_Name f) \<and> sc_Prefix f = AppScopePrefix namespace n) fresh minted
          \<and> (if minted = [] then p = path'
             else \<exists>encoded. MarshalKeyring yaml (keys\<lparr>kr_scopes := kr_scopes keys @ fresh\<rparr>) = Inr encoded
                \<and> kp_bytes path' = Some raw \<and> p = path'\<lparr>kp_bytes := Some encoded\<rparr>)"
proof -
  obtain raw keys where k: "kp_bytes path = Some raw" "ParseKeyring unyaml raw = Inr keys"
    using assms by (auto simp: ensureAppScopes_def split: option.splits sum.splits)
  define s0 where "s0 = \<lparr>es_keys = keys, es_out = [], es_minted = [], es_random = rnd\<rparr>"
  obtain s where s: "ensure_loop namespace now (man_apps m) s0 = Inr s"
    using assms k by (auto simp: ensureAppScopes_def s0_def split: sum.splits)
  have "ensured_ok namespace keys s0" by (simp add: ensured_ok_def s0_def)
  from ensure_loop_Inr[OF s this] have ok: "ensured_ok namespace keys s" "fst ` set (es_out s) = app_name ` set (man_apps m)"
    by (simp_all add: s0_def)
  have res: "scopes = es_out s" "minted = es_minted s"
    "es_minted s = [] \<and> p = path'
      \<or> es_minted s \<noteq> [] \<and> (\<exists>encoded. MarshalKeyring yaml (es_keys s) = Inr encoded \<and> SaveInstanceKeyring path' raw encoded = (p, None))"
    using assms k s by (auto simp: ensureAppScopes_def s0_def split: sum.splits prod.splits if_splits option.splits)
  obtain fresh where fr: "es_keys s = keys\<lparr>kr_scopes := kr_scopes keys @ fresh\<rparr>"
    "list_all2 (\<lambda>f n. AppScopeName namespace n = Inr (sc_Name f) \<and> sc_Prefix f = AppScopePrefix namespace n) fresh minted"
    using ok(1) res(2) by (auto simp: ensured_ok_def)
  have out: "\<forall>(n, s')\<in>set scopes. AppScopeName namespace n = Inr (sc_Name s') \<and> s' \<in> set (kr_scopes keys @ fresh)"
    using ok(1) res(1) fr(1) by (auto simp: ensured_ok_def)
  have saved: "if minted = [] then p = path'
     else \<exists>encoded. MarshalKeyring yaml (keys\<lparr>kr_scopes := kr_scopes keys @ fresh\<rparr>) = Inr encoded
        \<and> kp_bytes path' = Some raw \<and> p = path'\<lparr>kp_bytes := Some encoded\<rparr>"
    using res(2,3) fr(1) by (auto simp: SaveInstanceKeyring_def split: if_splits option.splits)
  show ?thesis using k ok(2) res(1) out fr(2) saved
    by (simp only: sum.case prod.case) blast
qed

text \<open>
  C31. Scopes are minted once, and recorded before anything uses them. When the applications
  of a manifest have been given their scopes, every application has one of its own name; the
  file holds the keyring that was read, grown by exactly the minted scopes, each with its
  application's own prefix, and nobody else's write was lost. When nothing was minted, or
  the step failed, the file is as it was.
\<close>

theorem minted_scopes_are_recorded:
  assumes "ensureAppScopes yaml unyaml path path' namespace now rnd m = (p, r)"
  shows "(case r of
      Inl _ \<Rightarrow> p = path'
    | Inr (scopes, minted) \<Rightarrow>
        (\<exists>raw keys fresh. kp_bytes path = Some raw \<and> ParseKeyring unyaml raw = Inr keys
          \<and> fst ` set scopes = app_name ` set (man_apps m)
          \<and> (\<forall>(n, s)\<in>set scopes. AppScopeName namespace n = Inr (sc_Name s) \<and> s \<in> set (kr_scopes keys @ fresh))
          \<and> list_all2 (\<lambda>f n. AppScopeName namespace n = Inr (sc_Name f) \<and> sc_Prefix f = AppScopePrefix namespace n) fresh minted
          \<and> (if minted = [] then p = path'
             else \<exists>encoded. MarshalKeyring yaml (keys\<lparr>kr_scopes := kr_scopes keys @ fresh\<rparr>) = Inr encoded
                \<and> kp_bytes path' = Some raw \<and> p = path'\<lparr>kp_bytes := Some encoded\<rparr>)))"
proof (cases r)
  case (Inl e)
  then show ?thesis using assms
    by (auto simp: ensureAppScopes_def SaveInstanceKeyring_def split: option.splits sum.splits if_splits)
next
  case (Inr sm)
  then show ?thesis using ensureAppScopes_Inr[of yaml unyaml path path' namespace now rnd m p "fst sm" "snd sm"] assms
    by (cases sm) simp
qed

end
