(* ===== verification/Deployed.thy ===== *)
theory Deployed
  imports Farcast_Run
begin

text \<open>
  What \<open>farcast run\<close> deploys, seen from the components that meet it: FatLine identifies each
  application by the credential it was given and enforces its own declarations, the keyholder
  admits it to the scope it was told, and the kernel meters it and can stop it.
\<close>

section \<open>Its storage identity\<close>

lemma wire_storage_Inr:
  assumes "wire_storage issue mt inst ns scopes as out = Inr storage"
  shows "(\<forall>a\<in>set as. \<exists>cert key. IssueAppClient issue (mt_CACert mt) (mt_CAKey mt) inst ns (app_name a) = Some (cert, key)
       \<and> map_of storage (app_name a) = Some \<lparr>ast_CertPEM = cert, ast_KeyPEM = key,
           ast_Scope = (case map_of scopes (app_name a) of None \<Rightarrow> '''' | Some s \<Rightarrow> sc_Name s),
           ast_SecretsPrefix = AppSecretsPrefix ns (app_name a)\<rparr>)
    \<and> (\<forall>n. n \<notin> app_name ` set as \<longrightarrow> map_of storage n = map_of out n)"
  using assms
proof (induction as arbitrary: out)
  case Nil
  then show ?case by simp
next
  case (Cons a as)
  obtain cert key where i: "IssueAppClient issue (mt_CACert mt) (mt_CAKey mt) inst ns (app_name a) = Some (cert, key)"
    using Cons.prems by (auto split: option.splits)
  define st where "st = \<lparr>ast_CertPEM = cert, ast_KeyPEM = key,
           ast_Scope = (case map_of scopes (app_name a) of None \<Rightarrow> '''' | Some s \<Rightarrow> sc_Name s),
           ast_SecretsPrefix = AppSecretsPrefix ns (app_name a)\<rparr>"
  have w: "wire_storage issue mt inst ns scopes as (AList.update (app_name a) st out) = Inr storage"
    using Cons.prems i by (simp add: st_def)
  note h = Cons.IH[OF w]
  have "map_of storage (app_name a) = Some st"
  proof (cases "app_name a \<in> app_name ` set as")
    case True
    then obtain b where "b \<in> set as" "app_name b = app_name a" by auto
    then show ?thesis using h i by (auto simp: st_def)
  next
    case False
    then show ?thesis using h by (simp add: update_conv')
  qed
  then show ?case using h i by (auto simp: st_def update_conv')
qed

lemma kube_label_segment: "kube_label s \<Longrightarrow> segment_ok s"
  by (auto simp: kube_label_def segment_ok_def dns_char_def lower_az_def digit09_def)

lemma minted_identity:
  assumes "inst \<noteq> ''''" "segment_ok ns" "segment_ok a"
  shows "identityFrom (Some [AppURI inst ns a]) inst = Inr \<lparr>id_Role = RoleApp, id_Instance = inst, id_Name = a, id_Namespace = ns\<rparr>"
  using ParseIdentity_of_uri[of "\<lparr>id_Role = RoleApp, id_Instance = inst, id_Name = a, id_Namespace = ns\<rparr>"] assms
  by (simp add: identityFrom_def identity_ok_def identity_uri_def)

section \<open>Its credential\<close>

lemma egress_port: "format_int FatLineEgressPort = ''3128''"
  by code_simp

lemma credential_of:
  assumes "distinct (map app_name as)" "length creds = length as" "x \<in> set as"
  obtains c where "(x, c) \<in> set (zip as creds)" "c \<in> set creds" "get_or '''' (zip (map app_name as) creds) (app_name x) = c"
proof -
  obtain i where i: "i < length as" "as ! i = x" using assms(3) by (auto simp: in_set_conv_nth)
  have "map_of (zip (map app_name as) creds) (map app_name as ! i) = Some (creds ! i)"
    using assms i by (intro map_of_zip_nth) auto
  then have "get_or '''' (zip (map app_name as) creds) (app_name x) = creds ! i" using i by (simp add: get_or_def)
  moreover have "(x, creds ! i) \<in> set (zip as creds)" using i assms(2) by (auto simp: set_zip)
  ultimately show thesis using that i assms(2) by auto
qed

lemma own_credential_identifies:
  assumes "doc_written d" "ns \<noteq> ''''" "manifest_ok m" "fresh_creds sha d ns m creds" "x \<in> set (man_apps m)"
    and "(x, c) \<in> set (zip (man_apps m) creds)" "srv_policy s = Some (fst (egressPolicy sha d ns m creds))"
  shows "server_identify sha s c = Some \<lparr>cl_tenant = ns @ ''/'' @ app_name x, cl_namespace = ns, cl_app = app_name x\<rparr>"
    and "srv_allow s = NewPerApp ulower (ByTenant (fst (egressPolicy sha d ns m creds))) \<Longrightarrow>
      server_decides ulower sha s c host = permitted ulower (declared x) host"
proof -
  let ?doc = "fst (egressPolicy sha d ns m creds)"
  note w = egressPolicy_written[OF assms(1-4)]
  have e: "policy_entry sha ns (x, c) \<in> set (doc_apps ?doc)" using assms(6) by (simp add: egressPolicy_def)
  have "c \<noteq> []" using assms(4,6) by (auto simp: fresh_creds_def dest: set_zip_rightD)
  then have i: "Identify sha ?doc c = Some (policy_entry sha ns (x, c))"
    using w e by (subst Identify_unique) (simp_all add: doc_written_def doc_ok_def)
  then show "server_identify sha s c = Some \<lparr>cl_tenant = ns @ ''/'' @ app_name x, cl_namespace = ns, cl_app = app_name x\<rparr>"
    using assms(7) by (simp add: server_identify_def Tenant_def)
  show "server_decides ulower sha s c host = permitted ulower (declared x) host"
    if "srv_allow s = NewPerApp ulower (ByTenant ?doc)"
    using server_decides_document[OF w assms(7) that] i by simp
qed

section \<open>What is deployed\<close>

text \<open>The policy, the workloads and the scopes of a deployment that went through.\<close>

lemma run_deploy_done:
  assumes "run_deploy sha re im ns m images = (acts, None)"
    and "readEgressPolicy (re_Json re) (re_Policy re) = Inr d" "re_Credentials re = Some creds"
  obtains cfg scopes minted where
    "run_config (re_Issue re) (re_MTLS re) (im_Keyholder im) (im_Name im) ns m images (snd (egressPolicy sha d ns m creds)) scopes = Inr cfg"
    "deployable cfg" "Policy_written (fst (egressPolicy sha d ns m creds)) \<in> set acts"
    "Workloads_applied (emit (workload_docs (translated cfg))) \<in> set acts"
    "im_Keyholder im \<Longrightarrow> \<exists>p. ensureAppScopes (re_Yaml re) (re_Unyaml re) (re_Path re) (re_Path' re) ns (re_Clock re) (re_Random re) m
        = (p, Inr (scopes, minted))"
proof -
  have "\<exists>w. Workloads_applied w \<in> set acts"
    using assms by (auto simp: run_deploy_def Let_def split: if_splits prod.splits sum.splits)
  then obtain w where w: "Workloads_applied w \<in> set acts" by blast
  obtain d' creds' saved scopes minted where r: "readEgressPolicy (re_Json re) (re_Policy re) = Inr d'" "re_Credentials re = Some creds'"
    "run_scopes re im ns m = (saved, Inr (scopes, minted))"
    "run_translate (re_Issue re) (re_MTLS re) (im_Keyholder im) (im_Name im) ns m images (snd (egressPolicy sha d' ns m creds')) scopes = Inr w"
    "acts = [Policy_written (fst (egressPolicy sha d' ns m creds'))] @ saved @ (if minted = [] then [] else [Scopes_handed_over minted])
       @ [Workloads_applied w] @ run_wait re im ns m"
    using run_deploy_applied[OF assms(1) w] by metis
  obtain cfg where c: "run_config (re_Issue re) (re_MTLS re) (im_Keyholder im) (im_Name im) ns m images (snd (egressPolicy sha d' ns m creds')) scopes
      = Inr cfg" "Render cfg = Inr w"
    using run_translate_Inr[OF r(4)] by blast
  then obtain t where "render_data cfg = Inr t" "w = emit (workload_docs t)" by (auto simp: Render_def split: sum.splits)
  then have "deployable cfg" "w = emit (workload_docs (translated cfg))" by (auto simp: render_data_Inr)
  then show thesis using that c r assms(2,3) run_scopes_Inr[OF r(3)] by auto
qed

text \<open>Where the instance has a keyholder, each application's entry holds its own leaf and the name of its own scope.\<close>

lemma wired_storage:
  assumes "run_config issue mt keyholder inst ns m images credentials scopes = Inr cfg" "keyholder" "deployable cfg"
    and "\<exists>p. ensureAppScopes yaml unyaml path path' ns now rnd m = (p, Inr (scopes, minted))"
    and "inst \<noteq> ''''" "\<And>key uri. issue '''' key uri = None" "x \<in> set (man_apps m)"
  shows "storage_given cfg
     \<and> (\<exists>ca cakey cert key i p scopes minted s. mt = Some \<lparr>mt_CACert = ca, mt_CAKey = cakey\<rparr>
       \<and> issue ca cakey (AppURI inst ns (app_name x)) = Some (cert, key)
       \<and> ad_ClientCert (given_entry cfg (storage_given cfg) (app_name x)) = indentPEM cert
       \<and> ad_ClientKey (given_entry cfg (storage_given cfg) (app_name x)) = indentPEM key
       \<and> identityFrom (Some [AppURI inst ns (app_name x)]) inst = Inr i
       \<and> MayReach i (ad_Scope (given_entry cfg (storage_given cfg) (app_name x)))
       \<and> ensureAppScopes yaml unyaml path path' ns now rnd m = (p, Inr (scopes, minted))
       \<and> (app_name x, s) \<in> set scopes \<and> ad_Scope (given_entry cfg (storage_given cfg) (app_name x)) = sc_Name s)"
proof -
  obtain p where p: "ensureAppScopes yaml unyaml path path' ns now rnd m = (p, Inr (scopes, minted))" using assms(4) by blast
  obtain mt' storage where mt: "mt = Some mt'" "wire_storage issue mt' inst ns scopes (man_apps m) [] = Inr storage"
    "cfg = (plain_config inst ns m images credentials)\<lparr>tc_StorageCAPEM := mt_CACert mt', tc_StorageServerName := KeyholderServerName inst,
       tc_Storage := storage\<rparr>"
    using assms(1,2) by (auto simp: run_config_def Let_def split: option.splits if_splits sum.splits)
  obtain cert key where st: "IssueAppClient issue (mt_CACert mt') (mt_CAKey mt') inst ns (app_name x) = Some (cert, key)"
    "map_of storage (app_name x) = Some \<lparr>ast_CertPEM = cert, ast_KeyPEM = key,
           ast_Scope = (case map_of scopes (app_name x) of None \<Rightarrow> '''' | Some s \<Rightarrow> sc_Name s),
           ast_SecretsPrefix = AppSecretsPrefix ns (app_name x)\<rparr>"
    using wire_storage_Inr[OF mt(2)] assms(7) by blast
  have issued: "issue (mt_CACert mt') (mt_CAKey mt') (AppURI inst ns (app_name x)) = Some (cert, key)" "ns \<noteq> ''''"
    using st(1) by (auto simp: IssueAppClient_def split: if_splits)
  then have "mt_CACert mt' \<noteq> ''''" using assms(6) by (metis option.distinct(1))
  moreover have "storage \<noteq> []" using st(2) by auto
  ultimately have given: "storage_given cfg" by (simp add: storage_given_def mt(3))
  have tn: "target_namespace cfg = ns" using issued(2) by (simp add: target_namespace_def translate_defaults_def mt(3) plain_config_def)
  then have seg: "segment_ok ns" "segment_ok (app_name x)"
    using assms(3,7) kube_label_segment by (auto simp: deployable_def mt(3) plain_config_def)
  note rec = ensureAppScopes_Inr[OF p]
  have "app_name x \<in> fst ` set scopes" using rec assms(7) by auto
  then obtain s where s: "map_of scopes (app_name x) = Some s"
    by (metis (no_types, lifting) map_of_eq_None_iff option.exhaust)
  then have in_s: "(app_name x, s) \<in> set scopes" by (rule map_of_SomeD)
  then have nm: "AppScopeName ns (app_name x) = Inr (sc_Name s)" using rec by auto
  have sc: "ad_Scope (given_entry cfg (storage_given cfg) (app_name x)) = sc_Name s"
    "ad_ClientCert (given_entry cfg (storage_given cfg) (app_name x)) = indentPEM cert"
    "ad_ClientKey (given_entry cfg (storage_given cfg) (app_name x)) = indentPEM key"
    using given st(2) s by (simp_all add: given_entry_def get_or_def mt(3))
  have "mt = Some \<lparr>mt_CACert = mt_CACert mt', mt_CAKey = mt_CAKey mt'\<rparr>" using mt(1) by simp
  moreover have "MayReach \<lparr>id_Role = RoleApp, id_Instance = inst, id_Name = app_name x, id_Namespace = ns\<rparr> (sc_Name s)"
    using nm by (simp add: MayReach_def)
  ultimately show ?thesis
    using given issued(1) sc p in_s minted_identity[OF assms(5) seg] by metis
qed

text \<open>
  C7. What is deployed is wired to itself. Every application of a manifest that run deployed
  has its entry in the applied workloads: its proxy address carries a credential by which a
  FatLine that has loaded the written policy identifies it, and no other, and grants exactly
  the hosts it declared; and where the instance has a keyholder, the certificate it carries
  was issued for an identity that the keyholder reads as this application and admits to the
  scope its configuration names, which is a scope of the recorded keyring.
\<close>

theorem deployed_applications_are_wired:
  assumes "run_deploy sha re im ns m images = (acts, None)"
    and "readEgressPolicy (re_Json re) (re_Policy re) = Inr d" "re_Credentials re = Some creds"
    and "doc_written d" "manifest_ok m" "ns \<noteq> ''''" "fresh_creds sha d ns m creds" "im_Name im \<noteq> ''''"
    and "\<And>key uri. re_Issue re '''' key uri = None" "x \<in> set (man_apps m)"
  shows "\<exists>doc t a credential. Policy_written doc \<in> set acts \<and> Workloads_applied (emit (workload_docs t)) \<in> set acts
    \<and> a \<in> set (td_Apps t) \<and> ad_Name a = app_name x \<and> td_Namespace t = ns
    \<and> ad_ProxyURL a = ''http://'' @ urlSafe (app_name x) @ '':'' @ credential @ ''@fatline-egress.farcast-system.svc.cluster.local:3128''
    \<and> (\<forall>s r ufold ulower host. srv_policy s = Some doc \<and> srv_allow s = NewPerApp ulower (ByTenant doc)
         \<and> rq_proxy_authorization r = ''Basic '' @ b64_encode (urlSafe (app_name x) @ '':'' @ credential)
         \<longrightarrow> server_identify sha s (credentialFrom ufold r) = Some \<lparr>cl_tenant = ns @ ''/'' @ app_name x, cl_namespace = ns, cl_app = app_name x\<rparr>
           \<and> server_decides ulower sha s (credentialFrom ufold r) host = permitted ulower (declared x) host)
    \<and> (im_Keyholder im \<longrightarrow> td_HasStorage t
         \<and> (\<exists>ca cakey cert key i p scopes minted s. re_MTLS re = Some \<lparr>mt_CACert = ca, mt_CAKey = cakey\<rparr>
           \<and> re_Issue re ca cakey (AppURI (im_Name im) ns (app_name x)) = Some (cert, key) \<and> ad_ClientCert a = indentPEM cert \<and> ad_ClientKey a = indentPEM key
           \<and> identityFrom (Some [AppURI (im_Name im) ns (app_name x)]) (im_Name im) = Inr i \<and> MayReach i (ad_Scope a)
           \<and> ensureAppScopes (re_Yaml re) (re_Unyaml re) (re_Path re) (re_Path' re) ns (re_Clock re) (re_Random re) m = (p, Inr (scopes, minted))
           \<and> (app_name x, s) \<in> set scopes \<and> ad_Scope a = sc_Name s))"
proof -
  let ?doc = "fst (egressPolicy sha d ns m creds)" and ?credentials = "snd (egressPolicy sha d ns m creds)"
  obtain cfg scopes minted where c:
    "run_config (re_Issue re) (re_MTLS re) (im_Keyholder im) (im_Name im) ns m images ?credentials scopes = Inr cfg"
    "deployable cfg" "Policy_written ?doc \<in> set acts" "Workloads_applied (emit (workload_docs (translated cfg))) \<in> set acts"
    "im_Keyholder im \<Longrightarrow> \<exists>p. ensureAppScopes (re_Yaml re) (re_Unyaml re) (re_Path re) (re_Path' re) ns (re_Clock re) (re_Random re) m
        = (p, Inr (scopes, minted))"
    using run_deploy_done[OF assms(1-3)] by metis
  note g = run_config_Inr[OF c(1)]
  have t: "td_Namespace (translated cfg) = ns" "td_HasStorage (translated cfg) = storage_given cfg"
    using g assms(6) by (simp_all add: translated_def target_namespace_def translate_defaults_def)
  define a where "a = given_entry cfg (storage_given cfg) (app_name x)"
  have a: "a \<in> set (td_Apps (translated cfg))" "ad_Name a = app_name x" using g assms(10) by (auto simp: translated_apps a_def given_entry_def)
  obtain credential where cr: "(x, credential) \<in> set (zip (man_apps m) creds)" "get_or '''' (tc_Credentials cfg) (app_name x) = credential"
    using credential_of[of "man_apps m" creds x] assms(5,7,10) g by (auto simp: manifest_ok_def fresh_creds_def egressPolicy_def)
  have url: "ad_ProxyURL a = ''http://'' @ urlSafe (app_name x) @ '':'' @ credential @ ''@fatline-egress.farcast-system.svc.cluster.local:3128''"
    using cr(2) egress_port by (simp add: a_def given_entry_def ProxyURL_def FatLineService_def SystemNamespace_def)
  have fatline: "server_identify sha s (credentialFrom ufold r) = Some \<lparr>cl_tenant = ns @ ''/'' @ app_name x, cl_namespace = ns, cl_app = app_name x\<rparr>
      \<and> server_decides ulower sha s (credentialFrom ufold r) host = permitted ulower (declared x) host"
    if "srv_policy s = Some ?doc" "srv_allow s = NewPerApp ulower (ByTenant ?doc)"
      "rq_proxy_authorization r = ''Basic '' @ b64_encode (urlSafe (app_name x) @ '':'' @ credential)" for s r ufold ulower host
    using own_credential_identifies[OF assms(4,6,5,7,10) cr(1) that(1)] that(2) credential_round_trip[of r "''Basic''" "app_name x" credential] that(3)
    by simp
  have keyholder: "td_HasStorage (translated cfg)
         \<and> (\<exists>ca cakey cert key i p scopes minted s. re_MTLS re = Some \<lparr>mt_CACert = ca, mt_CAKey = cakey\<rparr>
           \<and> re_Issue re ca cakey (AppURI (im_Name im) ns (app_name x)) = Some (cert, key) \<and> ad_ClientCert a = indentPEM cert \<and> ad_ClientKey a = indentPEM key
           \<and> identityFrom (Some [AppURI (im_Name im) ns (app_name x)]) (im_Name im) = Inr i \<and> MayReach i (ad_Scope a)
           \<and> ensureAppScopes (re_Yaml re) (re_Unyaml re) (re_Path re) (re_Path' re) ns (re_Clock re) (re_Random re) m = (p, Inr (scopes, minted))
           \<and> (app_name x, s) \<in> set scopes \<and> ad_Scope a = sc_Name s)" if kh: "im_Keyholder im"
    using wired_storage[OF c(1) kh c(2) c(5)[OF kh] assms(8,9,10)] unfolding t(2) a_def .
  show ?thesis using c(3,4) a t(1) url fatline keyholder
    by (intro exI[of _ ?doc] exI[of _ "translated cfg"] exI[of _ a] exI[of _ credential]) blast
qed

section \<open>What the kernel makes of it\<close>

text \<open>A value in a document, and the labels it lists; what an API server lists for a deployment, and for its pods.\<close>

fun node_at :: "string list \<Rightarrow> node \<Rightarrow> node option" where
  "node_at [] n = Some n"
| "node_at (k # ks) (Mapping fs) = (case map_of fs k of None \<Rightarrow> None | Some n \<Rightarrow> node_at ks n)"
| "node_at ks n = None"

definition labels_at :: "string list \<Rightarrow> yaml_doc \<Rightarrow> labels option" where
  "labels_at path doc =
     (case node_at path (Mapping doc) of
        Some (Mapping fs) \<Rightarrow> Some (map (\<lambda>(k, v). (k, case v of Scalar s \<Rightarrow> s | _ \<Rightarrow> '''')) fs)
      | _ \<Rightarrow> None)"

definition listed_deployment :: "yaml_doc \<Rightarrow> deployment \<Rightarrow> bool" where
  "listed_deployment doc d \<longleftrightarrow>
     node_at [''metadata'', ''name''] (Mapping doc) = Some (Scalar (dp_name d))
     \<and> labels_at [''metadata'', ''labels''] doc = Some (dp_labels d)
     \<and> labels_at [''spec'', ''selector'', ''matchLabels''] doc = dp_selector d
     \<and> (\<exists>n. node_at [''spec'', ''replicas''] (Mapping doc) = Some (Scalar (format_int n)) \<and> dp_spec_replicas d = Some n)"

definition listed_pod :: "yaml_doc \<Rightarrow> pod \<Rightarrow> bool" where
  "listed_pod doc p \<longleftrightarrow> labels_at [''spec'', ''template'', ''metadata'', ''labels''] doc = Some (pod_labels p)"

lemma labels_at_scalars: "node_at path (Mapping doc) = Some (scalars ls) \<Longrightarrow> labels_at path doc = Some ls"
  by (auto simp: labels_at_def scalars_def comp_def split_beta)

lemma format_int_one: "format_int n = ''1'' \<longleftrightarrow> n = 1" "''1'' = format_int n \<longleftrightarrow> n = 1"
proof -
  have "format_int 1 = ''1''" by code_simp
  then show "format_int n = ''1'' \<longleftrightarrow> n = 1" "''1'' = format_int n \<longleftrightarrow> n = 1" by (metis format_int_inj)+
qed

lemma deployment_listed:
  assumes "listed_deployment (deployment_doc t a) d"
  shows "dp_name d = ad_Name a" "dp_labels d = tier_labels t a" "dp_selector d = Some [(name_label, ad_Name a)]" "dp_spec_replicas d = Some 1"
proof -
  have l: "labels_at [''metadata'', ''labels''] (deployment_doc t a) = Some (tier_labels t a)"
    "labels_at [''spec'', ''selector'', ''matchLabels''] (deployment_doc t a) = Some [(name_label, ad_Name a)]"
    by (rule labels_at_scalars, simp add: deployment_doc_def object_meta_def)+
  have n: "node_at [''metadata'', ''name''] (Mapping (deployment_doc t a)) = Some (Scalar (ad_Name a))"
    "node_at [''spec'', ''replicas''] (Mapping (deployment_doc t a)) = Some (Scalar ''1'')"
    by (simp_all add: deployment_doc_def object_meta_def)
  show "dp_name d = ad_Name a" "dp_labels d = tier_labels t a" "dp_selector d = Some [(name_label, ad_Name a)]" "dp_spec_replicas d = Some 1"
    using assms l n by (auto simp: listed_deployment_def format_int_one)
qed

lemma pod_listed: "listed_pod (deployment_doc t a) p \<Longrightarrow> pod_labels p = tier_labels t a"
proof -
  have "labels_at [''spec'', ''template'', ''metadata'', ''labels''] (deployment_doc t a) = Some (tier_labels t a)"
    by (rule labels_at_scalars) (simp add: deployment_doc_def)
  then show "listed_pod (deployment_doc t a) p \<Longrightarrow> pod_labels p = tier_labels t a" by (simp add: listed_pod_def)
qed

lemma appOf_tier_labels: "pod_labels p = tier_labels t a \<Longrightarrow> ad_Name a \<noteq> '''' \<Longrightarrow> appOf p = ad_Name a"
  by (simp add: appOf_def tier_labels_def app_labels_def get_or_def name_label_def)

text \<open>
  C12. The kernel can stop what run deploys. Where an API server lists the deployment of a
  translated application in a metered namespace, a shutdown at the limit scales it to zero.
  The pods of its template are metered as an application's, under its name, and its target
  claims them and the pods of no other application.
\<close>

theorem deployed_applications_can_be_stopped:
  assumes "deployable cfg" "a \<in> set (td_Apps (translated cfg))" "b \<in> set (td_Apps (translated cfg))"
    and "Reconcile env now r = (r', Inr rep)" "Acts (Level (rp_Assessment rep))" "ns \<in> set (rp_Metered rep)"
    and "te_ListDeployments env ns (rc_Selector r) = Inr deps" "d \<in> set deps"
    and "listed_deployment (deployment_doc (translated cfg) a) d" "listed_pod (deployment_doc (translated cfg) b) p"
  shows "(ns, ad_Name a, 0) \<in> set (snd (Shutdown scale rep now))
    \<and> wl_Tier (workload_of ns p cpu mem) = App_tier \<and> wl_App (workload_of ns p cpu mem) = ad_Name b
    \<and> Matches (dp_selector d) (wl_Labels (workload_of ns p cpu mem)) = (a = b)"
proof -
  note d = deployment_listed[OF assms(9)]
  define tg where "tg = target_of ns (rp_Workloads rep) d"
  have fold: "tg_Namespace (foldl claim t0 ws) = tg_Namespace t0 \<and> tg_Name (foldl claim t0 ws) = tg_Name t0
      \<and> tg_Tier (foldl claim t0 ws) = tg_Tier t0 \<and> tg_Replicas (foldl claim t0 ws) = tg_Replicas t0"
    for t0 ws by (induction ws arbitrary: t0) (simp_all add: claim_def)
  have tg: "tg_Namespace tg = ns" "tg_Name tg = ad_Name a" "tg_Tier tg = App_tier" "tg_Replicas tg = 1"
    using fold d by (simp_all add: tg_def target_of_def Of_tier_labels)
  have "rp_Targets rep = concat (map (targets_in env (rc_Selector r) (rp_Workloads rep)) (rp_Metered rep))"
    using Reconcile_report[OF assms(4)] by blast
  then have "tg \<in> set (rp_Targets rep)" using assms(6-8) by (force simp: targets_in_def tg_def)
  then have "tg \<in> set (report_Stoppable rep)" using tg by (simp add: report_Stoppable_iff Stoppable_def)
  then have stop: "(ns, ad_Name a, 0) \<in> set (snd (Shutdown scale rep now))"
    using assms(5) tg by (force simp: Shutdown_spec)
  have names: "distinct (map app_name (man_apps (tc_Manifest cfg)))" "\<And>e. e \<in> set (td_Apps (translated cfg)) \<Longrightarrow>
      e = given_entry cfg (storage_given cfg) (ad_Name e) \<and> ad_Name e \<noteq> ''''"
    using assms(1) by (auto simp: deployable_def translated_apps given_entry_def kube_label_def)
  then have "ad_Name b = ad_Name a \<longleftrightarrow> a = b" using assms(2,3) by metis
  then show ?thesis
    using stop pod_listed[OF assms(10)] appOf_tier_labels[OF pod_listed[OF assms(10)]] names(2)[OF assms(3)] d(3)
    by (simp add: workload_of_def Of_tier_labels selector_is_own)
qed

section \<open>A run to try them on\<close>

definition sample_report :: fetch_report where
  "sample_report = \<lparr>fr_Commit = replicate 40 CHR ''a'', fr_ManifestDigest = ''sha256:'' @ hex_encode (demo_sha ''m'')\<rparr>"

definition sample_fetch :: job_answer where
  "sample_fetch = \<lparr>ja_rendered = True, ja_applied = True,
     ja_wait = Some (True, ''commit='' @ fr_Commit sample_report @ '' manifest='' @ fr_ManifestDigest sample_report), ja_log = Some ''m''\<rparr>"

definition sample_digest :: string where
  "sample_digest = ''sha256:'' @ replicate 64 CHR ''d''"

definition sample_build :: job_answer where
  "sample_build = \<lparr>ja_rendered = True, ja_applied = True, ja_wait = Some (True, sample_digest), ja_log = None\<rparr>"

definition sample_path :: keyring_path where
  "sample_path = \<lparr>kp_lockable = True, kp_regular = True, kp_bytes = Some ''old'', kp_writable = True\<rparr>"

definition sample_authority :: leaf_authority where
  "sample_authority ca key uri = (if ca = '''' then None else Some (''CERT'', ''KEY''))"

definition sample_run :: run_env where
  "sample_run = \<lparr>re_Toolchain = True, re_Fetch = sample_fetch, re_Parse = (\<lambda>_. Some demo_manifest), re_Confirm = Some True,
     re_Builds = (\<lambda>_. sample_build), re_Policy = (''policy'', True, False), re_Json = (\<lambda>_. Some demo_doc), re_Credentials = Some [''c''],
     re_PolicyRendered = True, re_PolicyApplied = True, re_Path = sample_path, re_Path' = sample_path, re_Yaml = (\<lambda>_. Some ''new''),
     re_Unyaml = (\<lambda>_. Inr (keyring_file_of sample_keyring)), re_Clock = (\<lambda>_. 30), re_Random = map byte [0..<80],
     re_Issue = sample_authority, re_MTLS = Some \<lparr>mt_CACert = ''CA'', mt_CAKey = ''CAKEY''\<rparr>, re_WorkloadsApplied = True,
     re_Meter = \<lparr>ma_rendered = True, ma_saved = True, ma_applied = True, ma_restored = True\<rparr>\<rparr>"

definition sample_meta :: instance_meta where
  "sample_meta = \<lparr>im_Name = ''prod'', im_Prefix = Some ''reg'', im_Keyholder = True, im_Kernel = Some []\<rparr>"

definition sample_minted :: "string scope" where
  "sample_minted = \<lparr>sc_Name = ''app-main-api'', sc_Prefix = ''app/main/api/'', sc_Created = 30, sc_Derivation = '''',
     sc_keys = \<lparr>kr_nameKeys = [\<lparr>ke_ID = map byte [32..<40], ke_Created = 30, ke_key = map byte [0..<32]\<rparr>],
                kr_keys = [\<lparr>ke_ID = map byte [72..<80], ke_Created = 30, ke_key = map byte [40..<72]\<rparr>]\<rparr>\<rparr>"

definition sample_images :: "(string \<times> string) list" where
  "sample_images = [(''api'', ''reg/app/shop/api@'' @ sample_digest)]"

lemma lower_hex_visible: "lower_hex c \<Longrightarrow> 32 < byte_val c \<and> byte_val c < 128"
  by (auto simp: lower_hex_def digit09_def byte_val_def less_eq_char_def)

lemma sample_words:
  "\<forall>c\<in>set (''commit='' @ fr_Commit sample_report) \<union> set (''manifest='' @ fr_ManifestDigest sample_report). 32 < byte_val c \<and> byte_val c < 128"
proof -
  have "\<forall>c\<in>set (hex_encode (demo_sha ''m'')). 32 < byte_val c \<and> byte_val c < 128"
    using hex_encode_lower[of "demo_sha ''m''"] lower_hex_visible by (auto simp: list_all_iff)
  then show ?thesis by (auto simp: sample_report_def byte_val_def)
qed

lemma sample_parsed: "ParseReport (''commit='' @ fr_Commit sample_report @ '' manifest='' @ fr_ManifestDigest sample_report) = Inr sample_report"
proof -
  let ?u = "''commit='' @ fr_Commit sample_report" and ?v = "''manifest='' @ fr_ManifestDigest sample_report"
  have t: "trim_space (?u @ '' '' @ ?v) = ?u @ '' '' @ ?v"
  proof (rule trim_space_visible)
    have "last (?u @ '' '' @ ?v) = last ?v" by simp
    then have "last (?u @ '' '' @ ?v) \<in> set ?v" using last_in_set[of ?v] by simp
    then show "32 < byte_val (last (?u @ '' '' @ ?v))" "byte_val (last (?u @ '' '' @ ?v)) < 128" using sample_words by blast+
  qed (simp_all add: byte_val_def)
  have f: "Fields (?u @ '' '' @ ?v) = [?u, ?v]" by (rule Fields_two[OF sample_words]) simp_all
  have "cut CHR ''='' ?u = Some (''commit'', fr_Commit sample_report)" "cut CHR ''='' ?v = Some (''manifest'', fr_ManifestDigest sample_report)"
    by simp_all
  then have r: "foldl report_field \<lparr>fr_Commit = '''', fr_ManifestDigest = ''''\<rparr> (Fields (?u @ '' '' @ ?v)) = sample_report"
    unfolding f by (simp add: report_field_def)
  have "isHex (fr_Commit sample_report) 40" by (simp add: isHex_def sample_report_def list_all_iff lower_hex_def)
  moreover have "isHex (hex_encode (demo_sha ''m'')) 64" using hex_encode_lower by (simp add: isHex_def)
  moreover have "cut_prefix (fr_ManifestDigest sample_report) ''sha256:'' = Some (hex_encode (demo_sha ''m''))"
    "trim_prefix (fr_ManifestDigest sample_report) ''sha256:'' = hex_encode (demo_sha ''m'')"
    by (simp_all add: sample_report_def cut_prefix_def trim_prefix_def has_prefix_def)
  ultimately have "ParseReport (?u @ '' '' @ ?v) = Inr sample_report" unfolding ParseReport_def Let_def t r by simp
  then show ?thesis by simp
qed

lemma sample_read: "readManifest demo_sha sample_fetch = ([Fetch_started], Inr (''m'', sample_report))"
proof -
  have f: "ja_rendered sample_fetch" "ja_applied sample_fetch" "ja_log sample_fetch = Some ''m''"
    "ja_wait sample_fetch = Some (True, ''commit='' @ fr_Commit sample_report @ '' manifest='' @ fr_ManifestDigest sample_report)"
    by (simp_all add: sample_fetch_def)
  have "Verify demo_sha sample_report ''m'' = None" by (simp add: Verify_None sample_report_def)
  then show ?thesis unfolding readManifest_def f(4) option.case prod.case sample_parsed using f(1-3) by simp
qed

lemma sample_tag: "imageTag (replicate 12 CHR ''a'') = replicate 12 CHR ''a''"
  using runes_ascii[of "replicate 12 CHR ''a''"]
  by (simp add: imageTag_def Let_def tag_rune_def lower_az_def byte_val_def)

lemma sample_pin: "pinByDigest ''reg/app/shop/api:aaaaaaaaaaaa'' sample_digest = ''reg/app/shop/api@'' @ sample_digest"
  by (simp add: pinByDigest_def)

lemma sample_digest_ok: "run_isSHA256 sample_digest"
  by (simp add: run_isSHA256_def sample_digest_def cut_prefix_def has_prefix_def lower_hex_def digit09_def list_all_iff)
lemma sample_pinned: "hasDigest (''reg/app/shop/api@'' @ sample_digest)"
  by code_simp
lemma sample_scope_name: "AppScopeName ''main'' ''api'' = Inr ''app-main-api''"
  by code_simp
lemma sample_new_scope: "NewAppScope ''main'' ''api'' 30 (map byte [0..<80]) = Inr (sample_minted, [])"
  by code_simp
lemma sample_added: "AddScope sample_keyring sample_minted = Inr (sample_keyring\<lparr>kr_scopes := kr_scopes sample_keyring @ [sample_minted]\<rparr>)"
  by code_simp
lemma sample_grown_valid: "Valid (\<lambda>m. m) (sample_keyring\<lparr>kr_scopes := kr_scopes sample_keyring @ [sample_minted]\<rparr>) = None"
  by code_simp
lemma sample_ids: "keyring_ids_ok sample_keyring"
  by code_simp

lemma sample_built: "buildAll (\<lambda>_. sample_build) ''reg'' ''shop'' (replicate 40 CHR ''a'') [] (man_apps demo_manifest)
    = ([Build_started ''api''], Inr sample_images)"
proof -
  have "trim_space sample_digest = sample_digest"
    by (rule trim_space_visible) (simp_all add: sample_digest_def byte_val_def)
  moreover have "shortCommit (replicate 40 CHR ''a'') = replicate 12 CHR ''a''" by (simp add: shortCommit_def)
  then have "destination_of ''reg'' ''shop'' ''api'' (replicate 40 CHR ''a'') = ''reg/app/shop/api:aaaaaaaaaaaa''"
    using sample_tag by (simp add: destination_of_def numeral_eq_Suc)
  ultimately show ?thesis using sample_digest_ok sample_pin
    by (simp add: demo_manifest_def build_one_def sample_build_def sample_images_def Let_def)
qed

lemma sample_scopes: "ensureAppScopes (\<lambda>_. Some ''new'') (\<lambda>_. Inr (keyring_file_of sample_keyring)) sample_path sample_path ''main'' (\<lambda>_. 30)
    (map byte [0..<80]) demo_manifest = (sample_path\<lparr>kp_bytes := Some ''new''\<rparr>, Inr ([(''api'', sample_minted)], [''api'']))"
proof -
  have p: "ParseKeyring (\<lambda>_. Inr (keyring_file_of sample_keyring)) ''old'' = Inr sample_keyring"
    using keyring_file_round_trip[of "\<lambda>_. Some ''old''" sample_keyring "''old''" "\<lambda>_. Inr (keyring_file_of sample_keyring)"] sample_keyring_valid sample_ids
    by simp
  have n: "ScopeNamed sample_keyring ''app-main-api'' = None" by (simp add: ScopeNamed_def sample_keyring_def sample_scope_def)
  have l: "ensure_loop ''main'' (\<lambda>_. 30) (man_apps demo_manifest) \<lparr>es_keys = sample_keyring, es_out = [], es_minted = [], es_random = map byte [0..<80]\<rparr>
     = Inr \<lparr>es_keys = sample_keyring\<lparr>kr_scopes := kr_scopes sample_keyring @ [sample_minted]\<rparr>, es_out = [(''api'', sample_minted)],
         es_minted = [''api''], es_random = []\<rparr>"
    using sample_scope_name sample_new_scope sample_added n by (simp add: demo_manifest_def del: upt_rec_numeral list.map)
  show ?thesis unfolding ensureAppScopes_def using p l sample_grown_valid
    by (simp add: sample_path_def MarshalKeyring_def SaveInstanceKeyring_def del: upt_rec_numeral list.map)
qed

definition sample_policy :: document where
  "sample_policy = fst (egressPolicy demo_sha demo_doc ''main'' demo_manifest [''c''])"

definition sample_translated :: translate_config where
  "sample_translated = \<lparr>tc_Manifest = demo_manifest, tc_Namespace = ''main'', tc_Images = sample_images, tc_Instance = ''prod'',
     tc_Storage = [(''api'', \<lparr>ast_CertPEM = ''CERT'', ast_KeyPEM = ''KEY'', ast_Scope = ''app-main-api'', ast_SecretsPrefix = ''app/main/api/secrets/''\<rparr>)],
     tc_StorageCAPEM = ''CA'', tc_StorageServerName = ''prod.datasphered.farcast'', tc_Credentials = [(''api'', ''c'')]\<rparr>"

lemma sample_deployable: "deployable sample_translated"
proof -
  have "kube_label ''main''" "kube_label ''api''" by code_simp+
  then show ?thesis using sample_pinned
    by (simp add: hasDigest_pinned storage_complete_def prefixes_end_def deployable_def sample_translated_def demo_manifest_def target_namespace_def translate_defaults_def SystemNamespace_def
        has_prefix_def has_suffix_def app_given_def storage_given_def get_or_def sample_images_def)
qed

lemma sample_config:
  "run_config sample_authority (Some \<lparr>mt_CACert = ''CA'', mt_CAKey = ''CAKEY''\<rparr>) True ''prod'' ''main'' demo_manifest sample_images
     (snd (egressPolicy demo_sha demo_doc ''main'' demo_manifest [''c''])) [(''api'', sample_minted)] = Inr sample_translated"
proof -
  have "AppSecretsPrefix ''main'' ''api'' = ''app/main/api/secrets/''" by code_simp
  then show ?thesis
    by (simp add: run_config_def plain_config_def Let_def demo_manifest_def IssueAppClient_def sample_authority_def sample_translated_def
      sample_minted_def egressPolicy_def KeyholderServerName_def)
qed

lemma sample_policy_read: "readEgressPolicy (re_Json sample_run) (re_Policy sample_run) = Inr demo_doc"
proof -
  have "parse_policy (\<lambda>_. Some demo_doc) ''policy'' = Inr demo_doc"
    using demo_doc_written by (simp only: parse_policy_Inr_iff doc_written_def)
  then show ?thesis by (simp add: sample_run_def readEgressPolicy_def)
qed

lemma sample_deployed:
  "run_deploy demo_sha sample_run sample_meta ''main'' demo_manifest sample_images =
     ([Policy_written sample_policy, Keyring_saved ''new'', Scopes_handed_over [''api''],
       Workloads_applied (emit (workload_docs (translated sample_translated)))]
       @ run_wait sample_run sample_meta ''main'' demo_manifest, None)"
proof -
  have s: "run_scopes sample_run sample_meta ''main'' demo_manifest = ([Keyring_saved ''new''], Inr ([(''api'', sample_minted)], [''api'']))"
    using sample_scopes by (simp add: run_scopes_def sample_run_def sample_meta_def del: upt_rec_numeral list.map)
  have "Render sample_translated = Inr (emit (workload_docs (translated sample_translated)))"
    using sample_deployable by (simp add: Render_def render_data_Inr[THEN iffD2])
  then have t: "run_translate (re_Issue sample_run) (re_MTLS sample_run) (im_Keyholder sample_meta) (im_Name sample_meta) ''main'' demo_manifest sample_images
      (snd (egressPolicy demo_sha demo_doc ''main'' demo_manifest [''c''])) [(''api'', sample_minted)]
      = Inr (emit (workload_docs (translated sample_translated)))"
    using sample_config by (simp add: run_translate_def sample_run_def sample_meta_def)
  have f: "re_Credentials sample_run = Some [''c'']" "re_PolicyRendered sample_run" "re_PolicyApplied sample_run" "re_WorkloadsApplied sample_run"
    by (simp_all add: sample_run_def)
  show ?thesis unfolding run_deploy_def sample_policy_read f(1)
    by (cases "egressPolicy demo_sha demo_doc ''main'' demo_manifest [''c'']") (use s t f in \<open>simp add: sample_policy_def Let_def\<close>)
qed

lemma sample_ran:
  "fst (run_Run demo_sha sample_run sample_meta ''main'') =
     [Fetch_started, Approved, Build_started ''api''] @ fst (run_deploy demo_sha sample_run sample_meta ''main'' demo_manifest sample_images)"
proof -
  have "check_flag ''main'' = None" by code_simp
  moreover have "im_Prefix sample_meta = Some ''reg''" "re_Toolchain sample_run" "re_Fetch sample_run = sample_fetch"
    "re_Parse sample_run = (\<lambda>_. Some demo_manifest)" "re_Confirm sample_run = Some True" "re_Builds sample_run = (\<lambda>_. sample_build)"
    by (simp_all add: sample_run_def sample_meta_def)
  moreover have "fr_Commit sample_report = replicate 40 CHR ''a''" "man_name demo_manifest = ''shop''"
    by (simp_all add: sample_report_def demo_manifest_def)
  ultimately show ?thesis using sample_read sample_built by (simp add: run_Run_def Let_def split: prod.splits)
qed


lemma minted_scopes_are_recorded_witness:
  "\<exists>keys (fresh :: string scope list). ParseKeyring (\<lambda>_. Inr (keyring_file_of sample_keyring)) ''old'' = Inr keys
     \<and> list_all2 (\<lambda>f n. AppScopeName ''main'' n = Inr (sc_Name f) \<and> sc_Prefix f = AppScopePrefix ''main'' n) fresh [''api'']"
proof -
  note m = minted_scopes_are_recorded[OF sample_scopes, unfolded sum.case prod.case]
  from m obtain raw keys and fresh :: "string scope list" where raw: "kp_bytes sample_path = Some raw"
    and k: "ParseKeyring (\<lambda>_. Inr (keyring_file_of sample_keyring)) raw = Inr keys"
    and f: "list_all2 (\<lambda>f n. AppScopeName ''main'' n = Inr (sc_Name f) \<and> sc_Prefix f = AppScopePrefix ''main'' n) fresh [''api'']"
    by (elim exE conjE) (rule that)
  have "raw = ''old''" using raw by (simp add: sample_path_def)
  with k f show ?thesis by blast
qed

lemma deployed_applications_are_wired_witness:
  "\<exists>t a credential. Workloads_applied (emit (workload_docs t)) \<in> set (fst (run_deploy demo_sha sample_run sample_meta ''main'' demo_manifest sample_images))
     \<and> a \<in> set (td_Apps t) \<and> ad_Name a = ''api'' \<and> td_HasStorage t
     \<and> ad_ProxyURL a = ''http://'' @ urlSafe ''api'' @ '':'' @ credential @ ''@fatline-egress.farcast-system.svc.cluster.local:3128''"
proof -
  have f: "fresh_creds demo_sha demo_doc ''main'' demo_manifest [''c'']"
    by (simp add: fresh_creds_def demo_manifest_def demo_doc_def demo_entry_def)
  have c: "re_Credentials sample_run = Some [''c'']" by (simp add: sample_run_def)
  have n: "im_Name sample_meta \<noteq> ''''" "im_Keyholder sample_meta" by (simp_all add: sample_meta_def)
  have i: "re_Issue sample_run '''' key uri = None" for key uri by (simp add: sample_run_def sample_authority_def)
  have x: "\<lparr>app_name = ''api'', app_containerfile = ''C'', app_context = [],
     app_external = Some [\<lparr>ext_host = ''pay.io'', ext_reason = ''pay''\<rparr>]\<rparr> \<in> set (man_apps demo_manifest)" by (simp add: demo_manifest_def)
  show ?thesis
    using deployed_applications_are_wired[OF sample_deployed sample_policy_read c demo_doc_written demo_manifest_ok _ f n(1) i x] n(2)
    unfolding sample_deployed by auto
qed

definition sample_listed :: deployment where
  "sample_listed = \<lparr>dp_name = ''api'', dp_labels = tier_labels (translated sample_translated) (given_entry sample_translated True ''api''),
     dp_annotations = [], dp_spec_replicas = Some 1, dp_status_replicas = 1, dp_selector = Some [(name_label, ''api'')]\<rparr>"

definition sample_pod :: pod where
  "sample_pod = \<lparr>pod_name = ''api-1'', pod_namespace = '''', pod_labels = tier_labels (translated sample_translated) (given_entry sample_translated True ''api''),
     pod_containers = [], pod_init_containers = [], pod_phase = ''Running'', pod_conditions = []\<rparr>"

lemma deployed_applications_can_be_stopped_witness:
  "\<exists>rep. snd (Reconcile (example_with sample_listed) (2 * ns_per_hour) (example_kernel (1 / 1000) 1)) = Inr rep
     \<and> (''apps'', ''api'', 0) \<in> set (snd (Shutdown (\<lambda>ns n k. None) rep (2 * ns_per_hour)))"
proof -
  let ?t = "translated sample_translated" and ?a = "given_entry sample_translated True ''api''"
  obtain rep where rep: "snd (Reconcile (example_with sample_listed) (2 * ns_per_hour) (example_kernel (1 / 1000) 1)) = Inr rep"
    "rp_Metered rep = [''apps'']" "Acts (Level (rp_Assessment rep))"
    using example_over_limit_with by blast
  obtain r' where r': "Reconcile (example_with sample_listed) (2 * ns_per_hour) (example_kernel (1 / 1000) 1) = (r', Inr rep)"
    using rep(1) by (metis prod.collapse)
  have a: "?a \<in> set (td_Apps ?t)" "ad_Name ?a = ''api''"
    by (simp_all add: translated_apps sample_translated_def demo_manifest_def storage_given_def given_entry_def)
  have one: "format_int 1 = ''1''" by code_simp
  have d: "listed_deployment (deployment_doc ?t ?a) sample_listed"
    unfolding listed_deployment_def
    using labels_at_scalars[of "[''metadata'', ''labels'']" "deployment_doc ?t ?a" "tier_labels ?t ?a"]
      labels_at_scalars[of "[''spec'', ''selector'', ''matchLabels'']" "deployment_doc ?t ?a" "[(name_label, ad_Name ?a)]"]
    by (simp add: deployment_doc_def object_meta_def sample_listed_def a(2) one)
  have p: "listed_pod (deployment_doc ?t ?a) sample_pod"
    unfolding listed_pod_def
    using labels_at_scalars[of "[''spec'', ''template'', ''metadata'', ''labels'']" "deployment_doc ?t ?a" "tier_labels ?t ?a"]
    by (simp add: deployment_doc_def sample_pod_def)
  have l: "te_ListDeployments (example_with sample_listed) ''apps'' (rc_Selector (example_kernel (1 / 1000) 1)) = Inr [sample_listed]"
    by (simp add: example_with_def)
  have "''apps'' \<in> set (rp_Metered rep)" "sample_listed \<in> set [sample_listed]" using rep(2) by simp_all
  from deployed_applications_can_be_stopped[OF sample_deployable a(1) a(1) r' rep(3) this(1) l this(2) d p]
  show ?thesis using rep(1) a(2) by auto
qed

end
