(* ===== verification/Spec2Isabelle.thy ===== *)
theory Spec2Isabelle
  imports Inspector Supervisor Sdk Fleet_Verdict Keyholder_Fleet Key_Transport Bucket Deployed
begin

text \<open>
  FarCast runs an operator's applications inside a cloud account the operator does not
  trust. This development models the logic of its Go code and proves what makes it correct.
  Every theory opens with what it holds; this header says how the parts fit together.

  \<^bold>\<open>The program.\<close> An operator installs an instance with the command \<open>farcast\<close>
  (\<open>src/farsight/cli\<close>). Applications declare in a manifest (\<open>src/manifest\<close>) which hosts they
  reach. FatLine (\<open>src/fatline\<close>) is the instance's only way out and relays the operator's
  way in; Shrike (\<open>src/shrike\<close>) watches what it lets through. TechnoCore (\<open>src/technocore\<close>)
  meters what the instance costs, stops applications when a limit is reached, and resizes
  them. DataSphere (\<open>src/datasphere\<close>) encrypts everything applications store; its keyholder
  replicas hold the keys in memory only, come back sealed when they restart, and are
  given the keys by the operator or by a keeper, a device the operator owns. Applications
  reach storage and secrets through the SDK (\<open>src/sdk/go\<close>).

  \<^bold>\<open>Shared theories.\<close>
  \<^item> \<open>Prelude\<close>: results as sums, Go maps as association lists, the contract of
    \<open>sort.Slice\<close> as a locale with an executable instance, time.
  \<^item> \<open>Go_Strings\<close>, \<open>Encoding\<close>: the parts of \<open>strings\<close>, \<open>strconv\<close>, \<open>encoding/hex\<close> and
    \<open>encoding/base64\<close> the code calls.

  \<^bold>\<open>Egress.\<close>
  \<^item> \<open>Manifest\<close>: \<open>manifest/parser/parser.go\<close>, the decoded document and every validator.
  \<^item> \<open>Egress_Policy\<close>: \<open>fatline/internal/allowlist\<close> and Shrike's own reading of the
    declarations, \<open>shrike/internal/policy\<close>. One locale states the contract of both; its
    interpretations give that a host is admitted exactly when it is declared.
  \<^item> \<open>Egress_Document\<close>: \<open>fatline/policy/policy.go\<close> and the merge of \<open>cli/runpolicy.go\<close>.
  \<^item> \<open>Egress_Proxy\<close>: \<open>fatline/internal/proxy\<close>, \<open>stream.go\<close>, \<open>fatline.go\<close>, the policy watcher
    of \<open>cmd/fatline\<close> and the event sink. A handler is a function from the answers of its
    environment to a trace of actions; dialling is an action, so that what is dialled is
    something to prove about.
  \<^item> \<open>Inspector\<close>: \<open>shrike/internal/inspector\<close> and the hand-over of events in \<open>shrike.go\<close>.

  \<^bold>\<open>Cost and resources.\<close>
  \<^item> \<open>Quantity\<close>, \<open>Pricing\<close>, \<open>Period\<close>, \<open>Ledger\<close>, \<open>Usage\<close>, \<open>Adapt\<close>: Kubernetes quantities, rates
    and tiers, calendar windows, the ledger, histograms and profiles, the recommendation.
  \<^item> \<open>Kernel\<close>: the reconcile loop over the answers of the cluster, its report, the cost
    shutdown, confirmations, metering and the usage document.
  \<^item> \<open>Kube_Client\<close>, \<open>Supervisor\<close>: the writes of the cluster client with their version checks
    (a locale of documents over a versioned store), the checkpoint of the bill, restarts,
    and the adaptation pass.

  \<^bold>\<open>Storage.\<close>
  \<^item> \<open>Names\<close>, \<open>Blob\<close>: object keys, sealed names, the two blob formats and rewrapping
    (\<open>datasphere/internal/crypto\<close>).
  \<^item> \<open>Keyring\<close>: keys, scopes, merge, rotation, activation, the key file and the bundle.
  \<^item> \<open>Store\<close>: \<open>store.go\<close> and \<open>rekey.go\<close> over any cloud honouring the locale \<open>object_store\<close>; a
    history of operations refines a finite map.
  \<^item> \<open>Bucket\<close>: \<open>bucket.go\<close> and \<open>usage.go\<close>, the name a bucket is minted with and the account of
    what it holds.
  \<^item> \<open>Vault\<close>: \<open>keyholder/vault.go\<close> over an explicit heap of key bytes, because bundles, the
    vault and requests in flight share and wipe them; it refines a vault over values.
  \<^item> \<open>Identity\<close>, \<open>Envelope\<close>, \<open>Keyholder\<close>: leaf identities, the sealed envelope with its
    challenges, the HTTP handlers and the refusal table.
  \<^item> \<open>Sdk\<close>: the clients, composed with the keyholder's handler and the store.

  \<^bold>\<open>The keyholder fleet.\<close>
  \<^item> \<open>Fleet_Client\<close>: the operator's calls to one replica and the ledger of pushes.
  \<^item> \<open>Handover\<close>: \<open>cli/storagekeyholder.go\<close>, the plan and the two-push protocol.
  \<^item> \<open>Replica_Fleet\<close>: the locale \<open>replica_fleet\<close> of what replicas promise their clients, that a
    hand-over over it never splits the fleet, and that it wakes no sealed replica while
    another is silent. A replica that serves without answering cannot be consulted: a
    hand-over takes for granted, as ADR 0008 says it does, that such a replica holds the key
    this machine writes under (\<open>silent_hold_ours\<close>), and the theorems take it as a hypothesis.
  \<^item> \<open>Fleet_Verdict\<close>: what \<open>storage state\<close> says of a replica, and how far that agrees with
    what an unseal then does.
  \<^item> \<open>Keeper\<close>: \<open>internal/keeper\<close> and the pass \<open>keeperCheckWith\<close>, over the same locale.
  \<^item> \<open>Keyholder_Fleet\<close>: the locale's interpretation on replicas that are the servers of
    \<open>Keyholder\<close> behind an unreliable network, and the fleet's invariant over any order of
    hand-overs, keeper passes, seals and restarts.
  \<^item> \<open>Key_Transport\<close>: \<open>datasphere/armor.go\<close> and \<open>keyexport.go\<close>, the passphrase-armored files
    that carry a keyring to another machine and a packet to a keeper.

  \<^bold>\<open>Deployment.\<close>
  \<^item> \<open>Translate\<close>: \<open>planck/translate\<close>, every check of \<open>Render\<close> and its template as trees of
    YAML documents with the function that lays them out.
  \<^item> \<open>Farcast_Run\<close>: the command \<open>farcast run\<close> (\<open>cli/run.go\<close>) from the read of the manifest
    (\<open>planck/fetch/report.go\<close>) to the metered list, as a trace of what it did, the Job that
    reads the manifest included.
  \<^item> \<open>Deployed\<close>: what a run applied, against the components that meet it. FatLine identifies
    each application by the credential it was given, the keyholder admits its certificate
    to the scope it was told, and the kernel can stop its deployment.

  \<^bold>\<open>How code becomes definitions.\<close> A struct is a record, an enumeration a datatype, an error
  a value of a sum or an option, \<open>uint64\<close> generations are 64-bit words. A map is an
  association list; where the code ranges over one in Go's random order and the order could
  be seen, the definition takes one order and says so. Loops are structural recursions, so
  no fuel is needed; the trimming of usage profiles, which repeats until a document fits, is
  a function with its own termination measure. An error's words are a datatype where only
  their kind matters.

  \<^bold>\<open>Parameters.\<close> Code that is not in the repository is an argument with named hypotheses:
  Unicode case mapping, JSON and YAML coders, SHA-256, AES-GCM, HKDF and HMAC
  (\<open>crypto_laws\<close>), X25519 (\<open>dh_laws\<close>), float parsing and RFC 3339, the cloud provider
  (\<open>object_store\<close>), PBKDF2, the authority that issues leaves, the cluster's answers, the network, the file system's outcome of a
  write. Each hypothesis is shown satisfiable by the witness of the theorem that uses it.

  \<^bold>\<open>Idealisations.\<close> Money and latencies, \<open>float64\<close> in the code, are reals; counters are
  unbounded except generations; a call reads the clock once except where time between two
  readings matters (envelopes, keeper passes); a handler is atomic, with the interleaving
  of requests that share key bytes modelled by the worlds of \<open>Vault\<close>; a hand-over or a
  keeper's pass runs whole between two steps of the fleet; a scope's keyring
  carries no scopes of its own; a provider is never nil; answers longer than the client's
  limit of one megabyte are not modelled; the rendered stream leaves out the template's
  comments.

  \<^bold>\<open>Not modelled.\<close> Commands that prompt, print and call cloud services; rendering of
  the instance's own Kubernetes objects and of the fetch and build Jobs; container images;
  the Google Cloud clients; X.509, TLS and HTTP routing of the Go libraries; process set-up;
  redacted printing; the SDK's logger and configuration; the local configuration files other
  than an instance's keyring. They are I/O, text or library calls, with little to state
  beyond what they call.
\<close>

end
